(* ===== verification/Prelude.thy ===== *)
theory Prelude imports Main "HOL-Library.Word" begin

text \<open>
  Shared ground of the development: the machine types of the program's identifiers, the iteration
  order of the hash containers (a parameter of the model, because the order in which
  \<^verbatim>\<open>rustc_hash\<close> containers yield their elements is not fixed by the source), adjacency maps
  \<^verbatim>\<open>FxHashMap<u64, FxHashSet<u64>>\<close> and the generic facts on relations and lists the components
  share.
\<close>

type_synonym u64 = "64 word"
type_synonym pair = "u64 \<times> u64"

named_theorems adj_simps "rewrite rules reading adjacency maps as relations"

section \<open>Iteration order of hash containers\<close>

text \<open>
  Iterating a hash set yields every element exactly once, in an order the program may not rely
  on. The type collects all such orders; every definition that iterates takes one as an argument,
  so the theorems hold for each of them.
\<close>

typedef (overloaded) ('a::finite) iter_order = "{it :: 'a set \<Rightarrow> 'a list. \<forall>S. set (it S) = S \<and> distinct (it S)}"
  morphisms iter Iter_order
proof -
  have "\<forall>S :: 'a set. \<exists>xs. set xs = S \<and> distinct xs" by (simp add: finite_distinct_list)
  then show ?thesis by (simp add: choice_iff)
qed

text \<open>Ascending order, the instance the concrete runs use.\<close>

definition ascending :: "('a::{finite, linorder}) iter_order" where
  "ascending = Iter_order sorted_list_of_set"

lemma set_iter [simp]: "set (iter h S) = S"
  using iter [of h] by simp

lemma distinct_iter [simp]: "distinct (iter h S)"
  using iter [of h] by simp

lemma iter_empty [simp]: "iter h {} = []"
  using set_iter [of h "{}"] by (simp del: set_iter)

lemma iter_ascending: "iter ascending S = sorted_list_of_set S"
  by (simp add: ascending_def Iter_order_inverse)

text \<open>Order facts the concrete runs need, which the numeral simplifier leaves open.\<close>

lemma numeral_le_one_u64 [simp]: "\<not> (2::u64) \<le> 1" "\<not> (3::u64) \<le> 1" "\<not> (4::u64) \<le> 1"
  by (simp_all add: word_le_nat_alt)

section \<open>Adjacency maps\<close>

type_synonym adj = "u64 \<rightharpoonup> u64 set"

text \<open>
  \<open>nbrs m x\<close> is the set stored for \<open>x\<close>, empty when the key is absent; \<open>rel_of m\<close> the edges the
  map stores. The four operations are the ones the code performs on such maps: membership
  (\<^verbatim>\<open>get(&x).is_some_and(|set| set.contains(&y))\<close>), insertion
  (\<^verbatim>\<open>entry(x).or_default().insert(y)\<close>), removal inside an existing set
  (\<^verbatim>\<open>get_mut(&x).map(|set| set.remove(&y))\<close>) and removal of a key whose set became empty.
\<close>

definition nbrs :: "adj \<Rightarrow> u64 \<Rightarrow> u64 set" where
  "nbrs m x = (case m x of None \<Rightarrow> {} | Some S \<Rightarrow> S)"

definition rel_of :: "adj \<Rightarrow> pair set" where
  "rel_of m = {(x, y). y \<in> nbrs m x}"

definition adj_mem :: "adj \<Rightarrow> u64 \<Rightarrow> u64 \<Rightarrow> bool" where
  "adj_mem m x y \<longleftrightarrow> y \<in> nbrs m x"

definition adj_insert :: "u64 \<Rightarrow> u64 \<Rightarrow> adj \<Rightarrow> adj" where
  "adj_insert x y m = m(x \<mapsto> insert y (nbrs m x))"

definition adj_remove :: "u64 \<Rightarrow> u64 \<Rightarrow> adj \<Rightarrow> adj" where
  "adj_remove x y m = (case m x of None \<Rightarrow> m | Some S \<Rightarrow> m(x \<mapsto> S - {y}))"

definition adj_prune :: "u64 \<Rightarrow> adj \<Rightarrow> adj" where
  "adj_prune x m = (if m x = Some {} then m(x := None) else m)"

lemma nbrs_empty [simp]: "nbrs Map.empty x = {}"
  by (simp add: nbrs_def)

lemma nbrs_insert [simp]:
  "nbrs (adj_insert x y m) z = (if z = x then insert y (nbrs m x) else nbrs m z)"
  by (simp add: nbrs_def adj_insert_def)

lemma nbrs_remove [simp]:
  "nbrs (adj_remove x y m) z = (if z = x then nbrs m x - {y} else nbrs m z)"
  by (auto simp: nbrs_def adj_remove_def split: option.splits)

lemma nbrs_prune [simp]: "nbrs (adj_prune x m) z = nbrs m z"
  by (auto simp: nbrs_def adj_prune_def)

lemma rel_of_iff [adj_simps]: "(x, y) \<in> rel_of m \<longleftrightarrow> y \<in> nbrs m x"
  by (simp add: rel_of_def)

lemma nbrs_eq_Image: "nbrs m x = rel_of m `` {x}"
  by (auto simp: rel_of_def)

lemma adj_mem_iff [adj_simps]: "adj_mem m x y \<longleftrightarrow> (x, y) \<in> rel_of m"
  by (simp add: adj_mem_def rel_of_iff)

lemma rel_of_empty [simp]: "rel_of Map.empty = {}"
  by (auto simp: rel_of_def)

lemma rel_of_insert [simp]: "rel_of (adj_insert x y m) = insert (x, y) (rel_of m)"
  by (auto simp: rel_of_def split: if_splits)

lemma rel_of_remove [simp]: "rel_of (adj_remove x y m) = rel_of m - {(x, y)}"
  by (auto simp: rel_of_def split: if_splits)

lemma rel_of_prune [simp]: "rel_of (adj_prune x m) = rel_of m"
  by (auto simp: rel_of_def)

section \<open>Relations\<close>

text \<open>The closure of a relation with one more edge, in both directions of use.\<close>

lemma trancl_insert_iff:
  "(a, b) \<in> (insert (s, d) r)\<^sup>+ \<longleftrightarrow> (a, b) \<in> r\<^sup>+ \<or> (a, s) \<in> r\<^sup>* \<and> (d, b) \<in> r\<^sup>*"
  by (auto simp: trancl_insert)

lemma trancl_lost_edge:
  assumes "(a, b) \<in> r\<^sup>+" and "(a, b) \<notin> (r - {(s, d)})\<^sup>+"
  shows "(a, s) \<in> (r - {(s, d)})\<^sup>* \<and> (d, b) \<in> (r - {(s, d)})\<^sup>*"
proof -
  have "(a, b) \<in> (insert (s, d) (r - {(s, d)}))\<^sup>+"
    using assms(1) by (rule trancl_mono) auto
  then have "(a, b) \<in> (r - {(s, d)})\<^sup>+ \<or> ?thesis"
    by (rule trancl_insert_iff [THEN iffD1])
  with assms(2) show ?thesis by blast
qed

lemma trancl_Diff_subset: "(r - e)\<^sup>+ \<subseteq> r\<^sup>+"
  by (rule trancl_mono_subset) simp

lemma rtrancl_eq_or_trancl_iff: "(a, b) \<in> r\<^sup>* \<longleftrightarrow> a = b \<or> (a, b) \<in> r\<^sup>+"
  by (auto simp: rtrancl_eq_or_trancl)

section \<open>Lists\<close>

lemma map_filter_mem: "y \<in> set (List.map_filter f xs) \<longleftrightarrow> (\<exists>x\<in>set xs. f x = Some y)"
  by (force simp: map_filter_def)

section \<open>Worklist termination\<close>

text \<open>
  A worklist loop marks one new element per productive step; over a finite type the number of
  unmarked elements is the measure that shows it ends.
\<close>

lemma card_Compl_insert [termination_simp]:
  fixes R :: "'a::finite set"
  shows "n \<notin> R \<Longrightarrow> card (- insert n R) < card (- R)"
  by (rule psubset_card_mono) auto

end
