(* ===== verification/Bool_Closure.thy ===== *)
theory Bool_Closure imports Prelude "HOL-Library.Product_Lexorder" begin

text \<open>
  The Boolean matrix wrapper \<^verbatim>\<open>crates/closure/src/grb.rs\<close>, its error type
  (\<^verbatim>\<open>error.rs\<close>) and the two closures computed on it: \<^verbatim>\<open>closure/transitive.rs\<close> and
  \<^verbatim>\<open>closure/schema.rs\<close>. GraphBLAS itself is a C library outside the repository: its entry points
  are the fields of the record \<open>ffi\<close>, an argument of every definition, and what the wrapper relies
  on of their documented behaviour is the predicate \<open>grb_laws\<close>. A call may fail with any non-zero
  code; \<open>infallible\<close> says that on matrices of one dimension none does.
\<close>

lemma unat_lt_u64: "unat (n :: u64) < 2 ^ 64"
  using unsigned_less [of n] by simp

section \<open>Errors\<close>

text \<open>\<open>Failed\<close> is \<^verbatim>\<open>GrbError::Failed\<close>; \<open>Panicked\<close> a failed assertion; \<open>Sink_Error\<close> an error of the
  downstream triple sink.\<close>

datatype fault = Failed "32 word" | Panicked | Sink_Error string

text \<open>The \<^verbatim>\<open>?\<close> operator.\<close>

definition and_then :: "'e + 'a \<Rightarrow> ('a \<Rightarrow> 'e + 'b) \<Rightarrow> 'e + 'b" where
  "and_then r f = (case r of Inl e \<Rightarrow> Inl e | Inr v \<Rightarrow> f v)"

definition check :: "32 word \<Rightarrow> fault + unit" where
  "check code = (if code = 0 then Inr () else Inl (Failed code))"

section \<open>The matrix wrapper\<close>

record 'm ffi =
  ffi_new :: "u64 \<Rightarrow> u64 \<Rightarrow> 32 word \<times> 'm"
  ffi_build :: "'m \<Rightarrow> u64 list \<Rightarrow> u64 list \<Rightarrow> bool list \<Rightarrow> 32 word \<times> 'm"
  ffi_nvals :: "'m \<Rightarrow> 32 word \<times> u64"
  ffi_mxm :: "'m \<Rightarrow> 'm \<Rightarrow> 'm \<Rightarrow> 32 word \<times> 'm"
  ffi_or :: "'m \<Rightarrow> 'm \<Rightarrow> 'm \<Rightarrow> 32 word \<times> 'm"
  ffi_wait :: "'m \<Rightarrow> 32 word"
  ffi_extract :: "'m \<Rightarrow> u64 \<Rightarrow> 32 word \<times> u64 list \<times> u64 list \<times> u64"

record 'm bool_matrix =
  bm_inner :: 'm
  bm_nrows :: u64
  bm_ncols :: u64

definition from_edges :: "'m ffi \<Rightarrow> u64 \<Rightarrow> pair list \<Rightarrow> fault + 'm bool_matrix" where
  "from_edges g n edges =
     (let (code, h) = ffi_new g n n in
      and_then (check code) (\<lambda>_.
      and_then (if edges \<noteq> [] then
          (let (code, h') = ffi_build g h (map fst edges) (map snd edges) (replicate (length edges) True)
           in and_then (check code) (\<lambda>_. Inr h'))
        else Inr h) (\<lambda>h'.
      Inr \<lparr>bm_inner = h', bm_nrows = n, bm_ncols = n\<rparr>)))"

definition bm_new :: "'m ffi \<Rightarrow> u64 \<Rightarrow> fault + 'm bool_matrix" where
  "bm_new g n = from_edges g n []"

definition nvals :: "'m ffi \<Rightarrow> 'm bool_matrix \<Rightarrow> fault + u64" where
  "nvals g m = (let (code, n) = ffi_nvals g (bm_inner m) in and_then (check code) (\<lambda>_. Inr n))"

definition mxm_lor_land :: "'m ffi \<Rightarrow> 'm bool_matrix \<Rightarrow> 'm bool_matrix \<Rightarrow> fault + 'm bool_matrix" where
  "mxm_lor_land g a b =
     (if bm_ncols a \<noteq> bm_nrows b then Inl Panicked
      else and_then (bm_new g (bm_nrows a)) (\<lambda>c.
        let (code, h) = ffi_mxm g (bm_inner c) (bm_inner a) (bm_inner b) in
        and_then (check code) (\<lambda>_. Inr (c\<lparr>bm_inner := h\<rparr>))))"

definition or_assign :: "'m ffi \<Rightarrow> 'm bool_matrix \<Rightarrow> 'm bool_matrix \<Rightarrow> fault + 'm bool_matrix" where
  "or_assign g a b =
     (if bm_nrows a \<noteq> bm_nrows b \<or> bm_ncols a \<noteq> bm_ncols b then Inl Panicked
      else let (code, h) = ffi_or g (bm_inner a) (bm_inner a) (bm_inner b) in
        and_then (check code) (\<lambda>_. Inr (a\<lparr>bm_inner := h\<rparr>)))"

definition wait :: "'m ffi \<Rightarrow> 'm bool_matrix \<Rightarrow> fault + unit" where
  "wait g m = check (ffi_wait g (bm_inner m))"

definition extract_edges :: "'m ffi \<Rightarrow> 'm bool_matrix \<Rightarrow> fault + pair list" where
  "extract_edges g m =
     and_then (nvals g m) (\<lambda>k.
       let (code, rows, cols, n_out) = ffi_extract g (bm_inner m) k in
       and_then (check code) (\<lambda>_.
         Inr (sort (zip (take (unat n_out) rows) (take (unat n_out) cols)))))"

section \<open>The closures\<close>

partial_function (option) closure_loop ::
  "'m ffi \<Rightarrow> 'm bool_matrix \<Rightarrow> 'm bool_matrix \<Rightarrow> 'm bool_matrix \<Rightarrow> (fault + 'm bool_matrix) option" where
  "closure_loop g m reach frontier =
     (case mxm_lor_land g frontier m of Inl e \<Rightarrow> Some (Inl e) | Inr next_frontier \<Rightarrow>
      case nvals g next_frontier of Inl e \<Rightarrow> Some (Inl e) | Inr k \<Rightarrow>
      if k = 0 then Some (Inr reach) else
      case nvals g reach of Inl e \<Rightarrow> Some (Inl e) | Inr prev_nvals \<Rightarrow>
      case or_assign g reach next_frontier of Inl e \<Rightarrow> Some (Inl e) | Inr reach' \<Rightarrow>
      case wait g reach' of Inl e \<Rightarrow> Some (Inl e) | Inr _ \<Rightarrow>
      case nvals g reach' of Inl e \<Rightarrow> Some (Inl e) | Inr now_nvals \<Rightarrow>
      if now_nvals = prev_nvals then Some (Inr reach')
      else closure_loop g m reach' next_frontier)"

definition transitive_closure :: "'m ffi \<Rightarrow> 'm bool_matrix \<Rightarrow> (fault + 'm bool_matrix) option" where
  "transitive_closure g m =
     (case nvals g m of Inl e \<Rightarrow> Some (Inl e) | Inr k \<Rightarrow>
      if k = 0 then Some (bm_new g (bm_nrows m)) else
      case extract_edges g m of Inl e \<Rightarrow> Some (Inl e) | Inr edges \<Rightarrow>
      case from_edges g (bm_nrows m) edges of Inl e \<Rightarrow> Some (Inl e) | Inr reach \<Rightarrow>
      case from_edges g (bm_nrows m) edges of Inl e \<Rightarrow> Some (Inl e) | Inr frontier \<Rightarrow>
      closure_loop g m reach frontier)"

definition identity_like :: "'m ffi \<Rightarrow> 'm bool_matrix \<Rightarrow> fault + 'm bool_matrix" where
  "identity_like g m =
     from_edges g (bm_nrows m) (map (\<lambda>i. (of_nat i, of_nat i)) [0..<unat (bm_nrows m)])"

definition reflexive_transitive_closure :: "'m ffi \<Rightarrow> 'm bool_matrix \<Rightarrow> (fault + 'm bool_matrix) option" where
  "reflexive_transitive_closure g m =
     (case transitive_closure g m of None \<Rightarrow> None | Some r \<Rightarrow> Some (
      and_then r (\<lambda>closure.
      and_then (identity_like g m) (\<lambda>identity.
      and_then (or_assign g closure identity) (\<lambda>closure'.
      and_then (wait g closure') (\<lambda>_. Inr closure'))))))"

section \<open>What the wrapper relies on\<close>

text \<open>
  \<open>repr h n S\<close>: the handle \<open>h\<close> denotes an \<open>n \<times> n\<close> Boolean matrix whose true entries are \<open>S\<close>. Each
  law is conditional on the return code of the call.
\<close>

definition grb_laws :: "'m ffi \<Rightarrow> ('m \<Rightarrow> u64 \<Rightarrow> pair set \<Rightarrow> bool) \<Rightarrow> bool" where
  "grb_laws g repr \<longleftrightarrow>
     (\<forall>h n S. repr h n S \<longrightarrow> S \<subseteq> {..<n} \<times> {..<n})
   \<and> (\<forall>n h. ffi_new g n n = (0, h) \<longrightarrow> repr h n {})
   \<and> (\<forall>h n es h'. repr h n {} \<longrightarrow> set es \<subseteq> {..<n} \<times> {..<n} \<longrightarrow>
        ffi_build g h (map fst es) (map snd es) (replicate (length es) True) = (0, h') \<longrightarrow> repr h' n (set es))
   \<and> (\<forall>h n S k. repr h n S \<longrightarrow> ffi_nvals g h = (0, k) \<longrightarrow> unat k = card S)
   \<and> (\<forall>c a b n S T h. repr c n {} \<longrightarrow> repr a n S \<longrightarrow> repr b n T \<longrightarrow>
        ffi_mxm g c a b = (0, h) \<longrightarrow> repr h n (S O T))
   \<and> (\<forall>a b n S T h. repr a n S \<longrightarrow> repr b n T \<longrightarrow> ffi_or g a a b = (0, h) \<longrightarrow> repr h n (S \<union> T))
   \<and> (\<forall>h n S k rows cols j. repr h n S \<longrightarrow> unat k = card S \<longrightarrow> ffi_extract g h k = (0, rows, cols, j) \<longrightarrow>
        set (zip (take (unat j) rows) (take (unat j) cols)) = S)"

definition infallible :: "'m ffi \<Rightarrow> ('m \<Rightarrow> u64 \<Rightarrow> pair set \<Rightarrow> bool) \<Rightarrow> u64 \<Rightarrow> bool" where
  "infallible g repr n \<longleftrightarrow>
     fst (ffi_new g n n) = 0
   \<and> (\<forall>h es. repr h n {} \<longrightarrow> set es \<subseteq> {..<n} \<times> {..<n} \<longrightarrow>
        fst (ffi_build g h (map fst es) (map snd es) (replicate (length es) True)) = 0)
   \<and> (\<forall>h S. repr h n S \<longrightarrow> fst (ffi_nvals g h) = 0 \<and> ffi_wait g h = 0)
   \<and> (\<forall>c a b S T. repr c n {} \<longrightarrow> repr a n S \<longrightarrow> repr b n T \<longrightarrow> fst (ffi_mxm g c a b) = 0)
   \<and> (\<forall>a b S T. repr a n S \<longrightarrow> repr b n T \<longrightarrow> fst (ffi_or g a a b) = 0)
   \<and> (\<forall>h S k. repr h n S \<longrightarrow> unat k = card S \<longrightarrow> fst (ffi_extract g h k) = 0)"

text \<open>
  A fallible result: a value with a property, or the code of a failed call, the latter only when
  the library may fail; never a panic.
\<close>

definition outcome :: "('a \<Rightarrow> bool) \<Rightarrow> bool \<Rightarrow> fault + 'a \<Rightarrow> bool" where
  "outcome P safe r \<longleftrightarrow> (case r of Inr v \<Rightarrow> P v | Inl e \<Rightarrow> \<not> safe \<and> (\<exists>c. c \<noteq> 0 \<and> e = Failed c))"

lemma outcome_Inr [simp]: "outcome P safe (Inr v) \<longleftrightarrow> P v"
  by (simp add: outcome_def)

lemma outcome_and_then:
  "outcome P safe r \<Longrightarrow> (\<And>v. P v \<Longrightarrow> outcome Q safe (f v)) \<Longrightarrow> outcome Q safe (and_then r f)"
  by (cases r) (simp_all add: outcome_def and_then_def)

lemma outcome_mono: "outcome P safe r \<Longrightarrow> (\<And>v. P v \<Longrightarrow> Q v) \<Longrightarrow> outcome Q safe r"
  by (auto simp: outcome_def split: sum.splits)

lemma outcome_check: "(safe \<Longrightarrow> c = 0) \<Longrightarrow> outcome (\<lambda>_. c = 0) safe (check c)"
  by (auto simp: outcome_def check_def)

lemma outcome_call:
  "(safe \<Longrightarrow> fst call = 0) \<Longrightarrow> (\<And>v. call = (0, v) \<Longrightarrow> outcome P safe (f v)) \<Longrightarrow>
   outcome P safe (let (code, v) = call in and_then (check code) (\<lambda>_. f v))"
  by (cases call) (auto simp: outcome_def check_def and_then_def)

text \<open>The same for a computation that may not return.\<close>

definition returns :: "('a \<Rightarrow> bool) \<Rightarrow> bool \<Rightarrow> (fault + 'a) option \<Rightarrow> bool" where
  "returns P safe r \<longleftrightarrow> (\<exists>x. r = Some x \<and> outcome P safe x)"

lemma returns_Some [simp]: "returns P safe (Some x) \<longleftrightarrow> outcome P safe x"
  by (simp add: returns_def)

lemma returns_case:
  "outcome P safe r \<Longrightarrow> (\<And>v. P v \<Longrightarrow> returns Q safe (f v)) \<Longrightarrow>
   returns Q safe (case r of Inl e \<Rightarrow> Some (Inl e) | Inr v \<Rightarrow> f v)"
  by (cases r) (simp_all add: returns_def outcome_def)

section \<open>The wrapper's operations denote the relational ones\<close>

definition bm_repr :: "('m \<Rightarrow> u64 \<Rightarrow> pair set \<Rightarrow> bool) \<Rightarrow> u64 \<Rightarrow> pair set \<Rightarrow> 'm bool_matrix \<Rightarrow> bool" where
  "bm_repr repr n S m \<longleftrightarrow> bm_nrows m = n \<and> bm_ncols m = n \<and> repr (bm_inner m) n S"

lemmas law_range = grb_laws_def [THEN iffD1, THEN conjunct1, rule_format]
lemmas law_new = grb_laws_def [THEN iffD1, THEN conjunct2, THEN conjunct1, rule_format]
lemmas law_build = grb_laws_def [THEN iffD1, THEN conjunct2, THEN conjunct2, THEN conjunct1, rule_format]
lemmas law_nvals = grb_laws_def [THEN iffD1, THEN conjunct2, THEN conjunct2, THEN conjunct2, THEN conjunct1, rule_format]
lemmas law_mxm = grb_laws_def [THEN iffD1, THEN conjunct2, THEN conjunct2, THEN conjunct2, THEN conjunct2, THEN conjunct1, rule_format]
lemmas law_or = grb_laws_def [THEN iffD1, THEN conjunct2, THEN conjunct2, THEN conjunct2, THEN conjunct2, THEN conjunct2, THEN conjunct1, rule_format]
lemmas law_extract = grb_laws_def [THEN iffD1, THEN conjunct2, THEN conjunct2, THEN conjunct2, THEN conjunct2, THEN conjunct2, THEN conjunct2, rule_format]

lemmas safe_new = infallible_def [THEN iffD1, THEN conjunct1, rule_format]
lemmas safe_build = infallible_def [THEN iffD1, THEN conjunct2, THEN conjunct1, rule_format]
lemmas safe_call = infallible_def [THEN iffD1, THEN conjunct2, THEN conjunct2, THEN conjunct1, rule_format]
lemmas safe_mxm = infallible_def [THEN iffD1, THEN conjunct2, THEN conjunct2, THEN conjunct2, THEN conjunct1, rule_format]
lemmas safe_or = infallible_def [THEN iffD1, THEN conjunct2, THEN conjunct2, THEN conjunct2, THEN conjunct2, THEN conjunct1, rule_format]
lemmas safe_extract = infallible_def [THEN iffD1, THEN conjunct2, THEN conjunct2, THEN conjunct2, THEN conjunct2, THEN conjunct2, rule_format]

lemma from_edges_spec:
  assumes laws: "grb_laws g repr" and "set es \<subseteq> {..<n} \<times> {..<n}"
  shows "outcome (bm_repr repr n (set es)) (infallible g repr n) (from_edges g n es)"
proof -
  obtain code h where new: "ffi_new g n n = (code, h)" by (cases "ffi_new g n n")
  show ?thesis
    unfolding from_edges_def new Let_def case_prod_conv
  proof (rule outcome_and_then [OF outcome_check])
    assume "infallible g repr n" then show "code = 0" using new safe_new [of g repr n] by force
  next
    assume "code = 0"
    then have h: "repr h n {}" using law_new [OF laws] new by simp
    have "outcome (\<lambda>h'. repr h' n (set es)) (infallible g repr n)
       (case ffi_build g h (map fst es) (map snd es) (replicate (length es) True) of
          (code, h') \<Rightarrow> and_then (check code) (\<lambda>_. Inr h'))"
      by (rule outcome_call [where f = Inr, unfolded Let_def])
        (use safe_build [of g repr n h es] h assms(2) law_build [OF laws h assms(2)] in simp_all)
    then have "outcome (\<lambda>h'. repr h' n (set es)) (infallible g repr n) (if es \<noteq> [] then
        (case ffi_build g h (map fst es) (map snd es) (replicate (length es) True) of
          (code, h') \<Rightarrow> and_then (check code) (\<lambda>_. Inr h')) else Inr h)"
      using h by auto
    then show "outcome (bm_repr repr n (set es)) (infallible g repr n) (and_then (if es \<noteq> [] then
        (case ffi_build g h (map fst es) (map snd es) (replicate (length es) True) of
          (code, h') \<Rightarrow> and_then (check code) (\<lambda>_. Inr h')) else Inr h)
        (\<lambda>h'. Inr \<lparr>bm_inner = h', bm_nrows = n, bm_ncols = n\<rparr>))"
      by (rule outcome_and_then) (simp add: bm_repr_def)
  qed
qed

lemma new_spec:
  assumes laws: "grb_laws g repr"
  shows "outcome (bm_repr repr n {}) (infallible g repr n) (bm_new g n)"
  using from_edges_spec [OF laws, of "[]" n] by (simp add: bm_new_def)

lemma nvals_spec:
  assumes laws: "grb_laws g repr" and "bm_repr repr n S m"
  shows "outcome (\<lambda>k. unat k = card S) (infallible g repr n) (nvals g m)"
  unfolding nvals_def by (rule outcome_call)
    (use assms safe_call [of g repr n] law_nvals [OF laws] in \<open>auto simp: bm_repr_def\<close>)

lemma wait_spec:
  assumes laws: "grb_laws g repr" and "bm_repr repr n S m" shows "outcome (\<lambda>_. True) (infallible g repr n) (wait g m)"
  unfolding wait_def by (rule outcome_mono [OF outcome_check])
    (use assms safe_call [of g repr n] in \<open>auto simp: bm_repr_def\<close>)

lemma mxm_spec:
  assumes laws: "grb_laws g repr" and a: "bm_repr repr n S a" and b: "bm_repr repr n T b"
  shows "outcome (bm_repr repr n (S O T)) (infallible g repr n) (mxm_lor_land g a b)"
proof -
  have "outcome (bm_repr repr n (S O T)) (infallible g repr n)
    (and_then (bm_new g n) (\<lambda>c. let (code, h) = ffi_mxm g (bm_inner c) (bm_inner a) (bm_inner b) in
        and_then (check code) (\<lambda>_. Inr (c\<lparr>bm_inner := h\<rparr>))))"
  proof (rule outcome_and_then [OF new_spec [OF laws]])
    fix c assume c: "bm_repr repr n {} c"
    show "outcome (bm_repr repr n (S O T)) (infallible g repr n)
      (let (code, h) = ffi_mxm g (bm_inner c) (bm_inner a) (bm_inner b) in
        and_then (check code) (\<lambda>_. Inr (c\<lparr>bm_inner := h\<rparr>)))"
      by (rule outcome_call) (use a b c safe_mxm [of g repr n] law_mxm [OF laws] in \<open>auto simp: bm_repr_def\<close>)
  qed
  then show ?thesis using a b by (simp add: mxm_lor_land_def bm_repr_def)
qed

lemma or_spec:
  assumes laws: "grb_laws g repr" and a: "bm_repr repr n S a" and b: "bm_repr repr n T b"
  shows "outcome (bm_repr repr n (S \<union> T)) (infallible g repr n) (or_assign g a b)"
proof -
  have "outcome (bm_repr repr n (S \<union> T)) (infallible g repr n)
      (let (code, h) = ffi_or g (bm_inner a) (bm_inner a) (bm_inner b) in
        and_then (check code) (\<lambda>_. Inr (a\<lparr>bm_inner := h\<rparr>)))"
    by (rule outcome_call) (use a b safe_or [of g repr n] law_or [OF laws] in \<open>auto simp: bm_repr_def\<close>)
  then show ?thesis using a b by (simp add: or_assign_def bm_repr_def)
qed

lemma extract_spec:
  assumes laws: "grb_laws g repr" and m: "bm_repr repr n S m"
  shows "outcome (\<lambda>es. set es = S) (infallible g repr n) (extract_edges g m)"
  unfolding extract_edges_def
proof (rule outcome_and_then [OF nvals_spec [OF laws m]])
  fix k :: u64 assume k: "unat k = card S"
  obtain code rows cols j where ex: "ffi_extract g (bm_inner m) k = (code, rows, cols, j)"
    by (cases "ffi_extract g (bm_inner m) k") auto
  have "set (zip (take (unat j) rows) (take (unat j) cols)) = S" if "code = 0"
    using m k law_extract [OF laws] ex that by (auto simp: bm_repr_def)
  moreover have "infallible g repr n \<Longrightarrow> code = 0"
    using m k ex safe_extract [of g repr n] by (fastforce simp: bm_repr_def)
  ultimately show "outcome (\<lambda>es. set es = S) (infallible g repr n)
     (let (code, rows, cols, n_out) = ffi_extract g (bm_inner m) k in
       and_then (check code) (\<lambda>_. Inr (sort (zip (take (unat n_out) rows) (take (unat n_out) cols)))))"
    unfolding ex Let_def case_prod_conv by (intro outcome_and_then [OF outcome_check]) simp_all
qed

section \<open>The fixed-point loop\<close>

text \<open>
  After \<open>k\<close> rounds the frontier holds the paths of length \<open>k\<close> and the accumulator those of length
  up to \<open>k\<close>. A round either adds an entry, and there are finitely many, or leaves the loop.
\<close>

lemma closure_loop_spec:
  assumes laws: "grb_laws g repr" and m: "bm_repr repr n E m"
  shows "bm_repr repr n (\<Union>i\<in>{1..Suc k}. E ^^ i) reach \<Longrightarrow> bm_repr repr n (E ^^ Suc k) frontier \<Longrightarrow>
    returns (bm_repr repr n (E\<^sup>+)) (infallible g repr n) (closure_loop g m reach frontier)"
proof (induction "card (- (\<Union>i\<in>{1..Suc k}. E ^^ i))" arbitrary: k reach frontier rule: less_induct)
  case less
  let ?R = "\<Union>i\<in>{1..Suc k}. E ^^ i" and ?F = "E ^^ Suc k O E"
  have F: "?F = E ^^ Suc (Suc k)" by simp
  have R': "?R \<union> ?F = (\<Union>i\<in>{1..Suc (Suc k)}. E ^^ i)"
    unfolding F by (simp add: atLeastAtMostSuc_conv Un_commute)
  have E_sub: "E \<subseteq> ?R" by (force intro: bexI [of _ 1])
  have step: "?R O E \<subseteq> ?R \<union> ?F"
  proof -
    have "E ^^ i O E \<subseteq> (\<Union>i\<in>{1..Suc (Suc k)}. E ^^ i)" if "i \<in> {1..Suc k}" for i
      using that by (intro UN_upper [of "Suc i", where B = "\<lambda>i. E ^^ i", simplified relpow.simps]) auto
    then show ?thesis unfolding R' by blast
  qed
  have sub: "?R \<subseteq> E\<^sup>+"
  proof clarify
    fix x y i assume "i \<in> {1..Suc k}" and "(x, y) \<in> E ^^ i"
    then show "(x, y) \<in> E\<^sup>+" by (auto simp: trancl_power intro!: exI [of _ i])
  qed
  have closed: "?R = E\<^sup>+" if "?F \<subseteq> ?R"
  proof
    have "(x, y) \<in> ?R" if "(x, y) \<in> E\<^sup>+" for x y
      using that
    proof (induction rule: trancl_induct)
      case (base y) then show ?case using E_sub by blast
    next
      case (step y z) then show ?case using \<open>?R O E \<subseteq> ?R \<union> ?F\<close> \<open>?F \<subseteq> ?R\<close> by blast
    qed
    then show "E\<^sup>+ \<subseteq> ?R" by auto
  qed (rule sub)
  show ?case
  proof (subst closure_loop.simps, rule returns_case [OF mxm_spec [OF laws less.prems(2) m]])
    fix nf assume nf: "bm_repr repr n ?F nf"
    show "returns (bm_repr repr n (E\<^sup>+)) (infallible g repr n)
     (case nvals g nf of Inl e \<Rightarrow> Some (Inl e) | Inr k \<Rightarrow>
      if k = 0 then Some (Inr reach) else
      case nvals g reach of Inl e \<Rightarrow> Some (Inl e) | Inr prev_nvals \<Rightarrow>
      case or_assign g reach nf of Inl e \<Rightarrow> Some (Inl e) | Inr reach' \<Rightarrow>
      case wait g reach' of Inl e \<Rightarrow> Some (Inl e) | Inr _ \<Rightarrow>
      case nvals g reach' of Inl e \<Rightarrow> Some (Inl e) | Inr now_nvals \<Rightarrow>
      if now_nvals = prev_nvals then Some (Inr reach')
      else closure_loop g m reach' nf)"
    proof (rule returns_case [OF nvals_spec [OF laws nf]])
      fix c :: u64 assume c: "unat c = card ?F"
      show "returns (bm_repr repr n (E\<^sup>+)) (infallible g repr n)
       (if c = 0 then Some (Inr reach) else
        case nvals g reach of Inl e \<Rightarrow> Some (Inl e) | Inr prev_nvals \<Rightarrow>
        case or_assign g reach nf of Inl e \<Rightarrow> Some (Inl e) | Inr reach' \<Rightarrow>
        case wait g reach' of Inl e \<Rightarrow> Some (Inl e) | Inr _ \<Rightarrow>
        case nvals g reach' of Inl e \<Rightarrow> Some (Inl e) | Inr now_nvals \<Rightarrow>
        if now_nvals = prev_nvals then Some (Inr reach')
        else closure_loop g m reach' nf)"
      proof (cases "c = 0")
        case True
        then have "?F = {}" using c by (simp add: card_eq_0_iff)
        then have "?R = E\<^sup>+" by (intro closed) simp
        then show ?thesis using True less.prems(1) by simp
      next
        case False
        show ?thesis
          unfolding if_not_P [OF False]
        proof (intro returns_case [OF nvals_spec [OF laws less.prems(1)]]
            returns_case [OF or_spec [OF laws less.prems(1) nf]])
          fix p :: u64 and reach' assume p: "unat p = card ?R" and r': "bm_repr repr n (?R \<union> ?F) reach'"
          show "returns (bm_repr repr n (E\<^sup>+)) (infallible g repr n)
           (case wait g reach' of Inl e \<Rightarrow> Some (Inl e) | Inr _ \<Rightarrow>
            case nvals g reach' of Inl e \<Rightarrow> Some (Inl e) | Inr now_nvals \<Rightarrow>
            if now_nvals = p then Some (Inr reach') else closure_loop g m reach' nf)"
          proof (rule returns_case [OF wait_spec [OF laws r']], rule returns_case [OF nvals_spec [OF laws r']])
            fix q :: u64 assume q: "unat q = card (?R \<union> ?F)"
            show "returns (bm_repr repr n (E\<^sup>+)) (infallible g repr n)
              (if q = p then Some (Inr reach') else closure_loop g m reach' nf)"
            proof (cases "q = p")
              case True
              then have "?R = ?R \<union> ?F" using p q by (intro card_subset_eq) auto
              then have "?F \<subseteq> ?R" by blast
              then show ?thesis using True r' closed \<open>?R = ?R \<union> ?F\<close> by simp
            next
              case False
              then have "?R \<noteq> ?R \<union> ?F" using p q by (metis word_unat_eq_iff)
              then have "card (- (?R \<union> ?F)) < card (- ?R)"
                by (intro psubset_card_mono) auto
              then have "returns (bm_repr repr n (E\<^sup>+)) (infallible g repr n) (closure_loop g m reach' nf)"
                by (intro less.hyps [OF _ r' [unfolded R'] nf [unfolded F]]) (simp only: R')
              then show ?thesis using False by simp
            qed
          qed
        qed
      qed
    qed
  qed
qed

lemma transitive_closure_spec:
  assumes laws: "grb_laws g repr" and m: "bm_repr repr n E m"
  shows "returns (bm_repr repr n (E\<^sup>+)) (infallible g repr n) (transitive_closure g m)"
proof -
  have n: "bm_nrows m = n" and range: "E \<subseteq> {..<n} \<times> {..<n}"
    using m law_range [OF laws] by (auto simp: bm_repr_def)
  show ?thesis
    unfolding transitive_closure_def n
  proof (rule returns_case [OF nvals_spec [OF laws m]])
    fix c :: u64 assume c: "unat c = card E"
    show "returns (bm_repr repr n (E\<^sup>+)) (infallible g repr n)
     (if c = 0 then Some (bm_new g n) else
      case extract_edges g m of Inl e \<Rightarrow> Some (Inl e) | Inr edges \<Rightarrow>
      case from_edges g n edges of Inl e \<Rightarrow> Some (Inl e) | Inr reach \<Rightarrow>
      case from_edges g n edges of Inl e \<Rightarrow> Some (Inl e) | Inr frontier \<Rightarrow>
      closure_loop g m reach frontier)"
    proof (cases "c = 0")
      case True
      then have "E = {}" using c by (simp add: card_eq_0_iff)
      then show ?thesis using True new_spec [OF laws] by simp
    next
      case False
      show ?thesis
        unfolding if_not_P [OF False]
      proof (rule returns_case [OF extract_spec [OF laws m]])
        fix es assume es: "set es = E"
        note fe = from_edges_spec [OF laws, of es n, unfolded es, OF range]
        show "returns (bm_repr repr n (E\<^sup>+)) (infallible g repr n)
         (case from_edges g n es of Inl e \<Rightarrow> Some (Inl e) | Inr reach \<Rightarrow>
          case from_edges g n es of Inl e \<Rightarrow> Some (Inl e) | Inr frontier \<Rightarrow>
          closure_loop g m reach frontier)"
          by (rule returns_case [OF fe], rule returns_case [OF fe],
              rule closure_loop_spec [OF laws m, of 0]) simp_all
      qed
    qed
  qed
qed

lemma reflexive_transitive_closure_spec:
  assumes laws: "grb_laws g repr" and m: "bm_repr repr n E m"
  shows "returns (bm_repr repr n (E\<^sup>+ \<union> {(i, i) | i. i < n})) (infallible g repr n)
    (reflexive_transitive_closure g m)"
proof -
  have n: "bm_nrows m = n" using m by (simp add: bm_repr_def)
  have small: "unat (of_nat i :: u64) = i" if "i < unat n" for i
    using that unat_lt_u64 [of n] by (simp add: unat_of_nat take_bit_nat_eq_self)
  have diag: "set (map (\<lambda>i. (of_nat i, of_nat i)) [0..<unat n]) = {(i, i) | i. i < n}"
  proof -
    have "(\<exists>k<unat n. i = of_nat k) \<longleftrightarrow> i < n" for i :: u64
    proof
      assume "i < n" then show "\<exists>k<unat n. i = of_nat k"
        by (intro exI [of _ "unat i"]) (simp add: word_less_nat_alt)
    qed (auto simp: word_less_nat_alt small)
    then have "{p. \<exists>k<unat n. p = (of_nat k, of_nat k)} = {(i, i) | i. i < n}" by blast
    moreover have "set (map (\<lambda>i. (of_nat i, of_nat i)) [0..<unat n]) =
        {p :: pair. \<exists>k<unat n. p = (of_nat k, of_nat k)}"
      unfolding set_map set_upt by auto
    ultimately show ?thesis by simp
  qed
  have id: "outcome (bm_repr repr n {(i, i) | i. i < n}) (infallible g repr n) (identity_like g m)"
    unfolding identity_like_def n diag [symmetric] by (rule from_edges_spec [OF laws]) (use diag in auto)
  obtain r where r: "transitive_closure g m = Some r"
    "outcome (bm_repr repr n (E\<^sup>+)) (infallible g repr n) r"
    using transitive_closure_spec [OF laws m] by (auto simp: returns_def)
  have "outcome (bm_repr repr n (E\<^sup>+ \<union> {(i, i) | i. i < n})) (infallible g repr n)
      (and_then r (\<lambda>closure. and_then (identity_like g m) (\<lambda>identity.
        and_then (or_assign g closure identity) (\<lambda>closure'.
        and_then (wait g closure') (\<lambda>_. Inr closure')))))"
    by (rule outcome_and_then [OF r(2)], rule outcome_and_then [OF id],
        rule outcome_and_then [OF or_spec [OF laws]], assumption+, rule outcome_and_then [OF wait_spec [OF laws]]) auto
  then show ?thesis by (simp add: reflexive_transitive_closure_def r(1))
qed

section \<open>A reference library\<close>

text \<open>
  Matrices as dimension and set of entries, counting entries in 64 bits: it shows that the laws
  can hold, and that on dimensions below \<^verbatim>\<open>2^32\<close> no call needs to fail.
\<close>

definition set_ffi :: "(u64 \<times> pair set) ffi" where
  "set_ffi = \<lparr>
     ffi_new = (\<lambda>r c. (0, (r, {}))),
     ffi_build = (\<lambda>m rows cols vals. (0, (fst m, set (zip rows cols)))),
     ffi_nvals = (\<lambda>m. if card (snd m) < 2 ^ 64 then (0, of_nat (card (snd m))) else (1, 0)),
     ffi_mxm = (\<lambda>c a b. (0, (fst a, snd a O snd b))),
     ffi_or = (\<lambda>c a b. (0, (fst a, snd a \<union> snd b))),
     ffi_wait = (\<lambda>m. 0),
     ffi_extract = (\<lambda>m k. (0, map fst (sorted_list_of_set (snd m)), map snd (sorted_list_of_set (snd m)), k))\<rparr>"

definition set_repr :: "u64 \<times> pair set \<Rightarrow> u64 \<Rightarrow> pair set \<Rightarrow> bool" where
  "set_repr h n S \<longleftrightarrow> h = (n, S) \<and> S \<subseteq> {..<n} \<times> {..<n}"

lemma zip_map_fst_snd_u64 [simp]: "zip (map fst es) (map snd es) = es"
  by (induction es) auto

lemma set_laws: "grb_laws set_ffi set_repr"
  unfolding grb_laws_def
proof (intro conjI allI impI)
  fix h :: "u64 \<times> pair set" and n S and k :: u64
  assume "set_repr h n S" and "ffi_nvals set_ffi h = (0, k)"
  then show "unat k = card S"
    by (auto simp: set_ffi_def set_repr_def unat_of_nat take_bit_nat_eq_self split: if_splits)
next
  fix h :: "u64 \<times> pair set" and n S and k j :: u64 and rows cols
  assume "set_repr h n S" and "unat k = card S" and "ffi_extract set_ffi h k = (0, rows, cols, j)"
  then show "set (zip (take (unat j) rows) (take (unat j) cols)) = S"
    by (auto simp: set_ffi_def set_repr_def simp flip: sorted_list_of_set.length_sorted_key_list_of_set)
qed (auto simp: set_ffi_def set_repr_def)

lemma set_infallible:
  assumes "n < 2 ^ 32" shows "infallible set_ffi set_repr n"
proof -
  have "card S < 2 ^ 64" if "S \<subseteq> {..<n} \<times> {..<n}" for S
  proof -
    have "{..<n} \<subseteq> of_nat ` {..<unat n}"
    proof
      fix x assume "x \<in> {..<n}"
      then show "x \<in> of_nat ` {..<unat n}"
        by (intro image_eqI [of _ _ "unat x"]) (simp_all add: word_less_nat_alt)
    qed
    then have "card {..<n} \<le> unat n"
      by (metis card_image_le card_lessThan card_mono finite_imageI finite_lessThan order_trans)
    moreover have "unat n < 2 ^ 32" using assms by (simp add: word_less_nat_alt)
    ultimately have "card {..<n} < 2 ^ 32" by simp
    then have "card {..<n} * card {..<n} < 2 ^ 32 * 2 ^ 32" by (intro mult_strict_mono) auto
    moreover have "card S \<le> card ({..<n} \<times> {..<n})" using that by (intro card_mono) auto
    ultimately show ?thesis by (simp add: card_cartesian_product)
  qed
  then show ?thesis
    unfolding infallible_def by (auto simp: set_ffi_def set_repr_def)
qed

section \<open>Properties\<close>

text \<open>C33: The fixed-point loop always ends, and without an identity: on a matrix denoting the
  edges \<open>E\<close> it returns a matrix denoting exactly the transitive closure of \<open>E\<close>, or the error code
  of a library call that failed; it never panics.\<close>

theorem transitive_closure_exact:
  assumes "grb_laws g repr" and "bm_repr repr n E m"
  shows "\<exists>r. transitive_closure g m = Some r \<and>
    (case r of Inr c \<Rightarrow> bm_repr repr n (E\<^sup>+) c
     | Inl e \<Rightarrow> \<not> infallible g repr n \<and> (\<exists>code. code \<noteq> 0 \<and> e = Failed code))"
  using transitive_closure_spec [OF assms] by (simp add: returns_def outcome_def)

lemma transitive_closure_exact_witness:
  "grb_laws set_ffi set_repr
   \<and> (\<exists>c. transitive_closure set_ffi \<lparr>bm_inner = (3, {(0, 1), (1, 2)}), bm_nrows = 3, bm_ncols = 3\<rparr>
        = Some (Inr c) \<and> bm_repr set_repr 3 ({(0, 1), (1, 2)}\<^sup>+) c)"
proof (rule conjI [OF set_laws])
  let ?m = "\<lparr>bm_inner = (3, {(0, 1), (1, 2)}), bm_nrows = 3, bm_ncols = 3\<rparr>"
  have "bm_repr set_repr 3 {(0, 1), (1, 2)} ?m"
    by (simp add: bm_repr_def set_repr_def word_less_nat_alt)
  moreover have "infallible set_ffi set_repr 3" by (rule set_infallible) (simp add: word_less_nat_alt)
  ultimately show "\<exists>c. transitive_closure set_ffi ?m = Some (Inr c) \<and> bm_repr set_repr 3 ({(0, 1), (1, 2)}\<^sup>+) c"
    using transitive_closure_exact [OF set_laws] by (fastforce split: sum.splits)
qed

text \<open>The schema closure adds exactly the diagonal over the matrix's indices to the transitive
  closure, and ends under the same conditions.\<close>

theorem reflexive_transitive_closure_exact:
  assumes "grb_laws g repr" and "bm_repr repr n E m"
  shows "\<exists>r. reflexive_transitive_closure g m = Some r \<and>
    (case r of Inr c \<Rightarrow> bm_repr repr n (E\<^sup>+ \<union> {(i, i) | i. i < n}) c
     | Inl e \<Rightarrow> \<not> infallible g repr n \<and> (\<exists>code. code \<noteq> 0 \<and> e = Failed code))"
  using reflexive_transitive_closure_spec [OF assms] by (simp add: returns_def outcome_def)

lemma reflexive_transitive_closure_exact_witness:
  "grb_laws set_ffi set_repr
   \<and> (\<exists>c. reflexive_transitive_closure set_ffi \<lparr>bm_inner = (2, {(0, 1)}), bm_nrows = 2, bm_ncols = 2\<rparr>
        = Some (Inr c) \<and> bm_repr set_repr 2 ({(0, 1)}\<^sup>+ \<union> {(i, i) | i. i < 2}) c)"
proof (rule conjI [OF set_laws])
  let ?m = "\<lparr>bm_inner = (2, {(0, 1)}), bm_nrows = 2, bm_ncols = 2\<rparr>"
  have "bm_repr set_repr 2 {(0, 1)} ?m"
    by (simp add: bm_repr_def set_repr_def word_less_nat_alt)
  moreover have "infallible set_ffi set_repr 2" by (rule set_infallible) (simp add: word_less_nat_alt)
  ultimately show "\<exists>c. reflexive_transitive_closure set_ffi ?m = Some (Inr c)
      \<and> bm_repr set_repr 2 ({(0, 1)}\<^sup>+ \<union> {(i, i) | i. i < 2}) c"
    using reflexive_transitive_closure_exact [OF set_laws] by (fastforce split: sum.splits)
qed

end
