(* ===== verification/Dense_Ids.thy ===== *)
theory Dense_Ids imports Prelude begin

text \<open>
  \<^verbatim>\<open>crates/closure/src/dense_id.rs\<close>: the bijection between dictionary identifiers and the dense
  row and column indices of a predicate's matrix. The state is the forward hash map and the reverse
  vector; the invariant is that each inverts the other. No capacity hypothesis is needed: the
  reverse vector never repeats an identifier, so its length stays within the index type.
\<close>

record dense_map =
  dm_forward :: "u64 \<rightharpoonup> u64"
  dm_reverse :: "u64 list"

definition dm_empty :: dense_map where
  "dm_empty = \<lparr>dm_forward = Map.empty, dm_reverse = []\<rparr>"

definition dm_len :: "dense_map \<Rightarrow> nat" where
  "dm_len m = length (dm_reverse m)"

definition dm_is_empty :: "dense_map \<Rightarrow> bool" where
  "dm_is_empty m \<longleftrightarrow> dm_reverse m = []"

definition to_dense :: "dense_map \<Rightarrow> u64 \<Rightarrow> u64 option" where
  "to_dense m d = dm_forward m d"

definition to_dict :: "dense_map \<Rightarrow> u64 \<Rightarrow> u64 option" where
  "to_dict m i = (if unat i < length (dm_reverse m) then Some (dm_reverse m ! unat i) else None)"

definition intern :: "u64 \<Rightarrow> dense_map \<Rightarrow> u64 \<times> dense_map" where
  "intern d m = (case dm_forward m d of
       Some i \<Rightarrow> (i, m)
     | None \<Rightarrow>
         (let i = of_nat (length (dm_reverse m)) in
          (i, m\<lparr>dm_reverse := dm_reverse m @ [d], dm_forward := (dm_forward m)(d \<mapsto> i)\<rparr>)))"

fun intern_edges :: "pair list \<Rightarrow> dense_map \<Rightarrow> pair list \<times> dense_map" where
  "intern_edges [] m = ([], m)"
| "intern_edges ((s, v) # es) m =
     (let (si, m1) = intern s m;
          (oi, m2) = intern v m1;
          (out, m3) = intern_edges es m2
      in ((si, oi) # out, m3))"

section \<open>The invariant\<close>

definition dm_inv :: "dense_map \<Rightarrow> bool" where
  "dm_inv m \<longleftrightarrow> (\<forall>d i. dm_forward m d = Some i \<longleftrightarrow> to_dict m i = Some d)"

lemma length_distinct_u64: "distinct xs \<Longrightarrow> length (xs :: u64 list) \<le> 2 ^ 64"
proof -
  assume "distinct xs"
  then have "length xs = card (set xs)" by (simp add: distinct_card)
  also have "\<dots> \<le> card (UNIV :: u64 set)" by (rule card_mono) auto
  finally show ?thesis by (simp add: card_word)
qed

lemma length_fresh_u64:
  assumes "distinct xs" and "d \<notin> set xs" shows "length (xs :: u64 list) < 2 ^ 64"
  using length_distinct_u64 [of "d # xs"] assms by simp

lemma unat_of_nat_u64 [simp]: "n < 2 ^ 64 \<Longrightarrow> unat (of_nat n :: u64) = n"
  by (simp add: unat_of_nat take_bit_nat_eq_self)

definition dm_ok :: "dense_map \<Rightarrow> bool" where
  "dm_ok m \<longleftrightarrow> dm_inv m \<and> distinct (dm_reverse m)"

lemma dm_ok_len: "dm_ok m \<Longrightarrow> length (dm_reverse m) \<le> 2 ^ 64"
  unfolding dm_ok_def by (blast intro: length_distinct_u64)

lemma dm_ok_len_fresh: "dm_ok m \<Longrightarrow> d \<notin> set (dm_reverse m) \<Longrightarrow> length (dm_reverse m) < 2 ^ 64"
  unfolding dm_ok_def by (blast intro: length_fresh_u64)

text \<open>The invariant makes the forward map the index of the reverse vector.\<close>

lemma dm_ok_dom:
  assumes "dm_ok m" shows "dom (dm_forward m) = set (dm_reverse m)"
proof -
  have "d \<in> dom (dm_forward m) \<longleftrightarrow> d \<in> set (dm_reverse m)" for d
  proof
    assume "d \<in> dom (dm_forward m)"
    then obtain i where "to_dict m i = Some d" using assms by (auto simp: dm_ok_def dm_inv_def)
    then show "d \<in> set (dm_reverse m)" by (auto simp: to_dict_def split: if_splits)
  next
    assume "d \<in> set (dm_reverse m)"
    then obtain k where k: "k < length (dm_reverse m)" "dm_reverse m ! k = d"
      by (auto simp: in_set_conv_nth)
    then have "k < 2 ^ 64" using dm_ok_len [OF assms] by (metis less_le_trans)
    then have "to_dict m (of_nat k) = Some d" using k by (simp add: to_dict_def)
    then show "d \<in> dom (dm_forward m)" using assms unfolding dm_ok_def dm_inv_def by blast
  qed
  then show ?thesis by blast
qed

lemma dm_ok_empty [simp]: "dm_ok dm_empty"
  by (simp add: dm_ok_def dm_inv_def dm_empty_def to_dict_def)

lemma dm_ok_iff: "dm_ok m \<Longrightarrow> to_dense m d = Some i \<longleftrightarrow> to_dict m i = Some d"
  by (simp add: dm_ok_def dm_inv_def to_dense_def)

section \<open>Interning\<close>

text \<open>What one interning step does: the identifier gets an index, nothing else moves.\<close>

lemma intern_new:
  assumes "dm_ok m" and "dm_forward m d = None"
  shows "dm_ok (snd (intern d m))" and "fst (intern d m) = of_nat (length (dm_reverse m))"
    and "dm_reverse (snd (intern d m)) = dm_reverse m @ [d]"
proof -
  let ?n = "length (dm_reverse m)"
  have fresh: "d \<notin> set (dm_reverse m)" using assms dm_ok_dom by blast
  then have n: "?n < 2 ^ 64" using assms(1) by (rule dm_ok_len_fresh [rotated])
  then have un: "unat (of_nat ?n :: u64) = ?n" by simp
  show rev: "dm_reverse (snd (intern d m)) = dm_reverse m @ [d]"
    and "fst (intern d m) = of_nat ?n"
    using assms(2) by (simp_all add: intern_def Let_def)
  have fwd: "dm_forward (snd (intern d m)) = (dm_forward m)(d \<mapsto> of_nat ?n)"
    using assms(2) by (simp add: intern_def Let_def)
  have "(dm_forward (snd (intern d m)) e = Some i) = (to_dict (snd (intern d m)) i = Some e)" for e i
  proof (cases "e = d")
    case True
    have "to_dict (snd (intern d m)) i = Some d \<longleftrightarrow> unat i = ?n"
      unfolding to_dict_def rev using fresh by (auto simp: nth_append less_Suc_eq split: if_splits)
    also have "\<dots> \<longleftrightarrow> i = of_nat ?n" using un by (metis word_unat_eq_iff)
    finally show ?thesis using True by (auto simp: fwd)
  next
    case False
    have "to_dict (snd (intern d m)) i = Some e \<longleftrightarrow> to_dict m i = Some e"
      unfolding to_dict_def rev using False by (auto simp: nth_append less_Suc_eq split: if_splits)
    then show ?thesis using assms(1) False by (simp add: fwd dm_ok_def dm_inv_def)
  qed
  then show "dm_ok (snd (intern d m))"
    using assms(1) fresh by (simp add: dm_ok_def dm_inv_def rev)
qed

lemma intern_old: "dm_forward m d = Some i \<Longrightarrow> intern d m = (i, m)"
  by (simp add: intern_def)

definition dm_extends :: "dense_map \<Rightarrow> dense_map \<Rightarrow> bool" where
  "dm_extends m m' \<longleftrightarrow> (\<exists>xs. dm_reverse m' = dm_reverse m @ xs)"

lemma dm_extends_refl [simp]: "dm_extends m m"
  by (simp add: dm_extends_def)

lemma dm_extends_trans: "dm_extends a b \<Longrightarrow> dm_extends b c \<Longrightarrow> dm_extends a c"
  by (auto simp: dm_extends_def)

lemma dm_extends_to_dict: "dm_extends m m' \<Longrightarrow> to_dict m i = Some d \<Longrightarrow> to_dict m' i = Some d"
  by (auto simp: dm_extends_def to_dict_def nth_append split: if_splits)

lemma intern_spec:
  assumes "dm_ok m"
  shows "dm_ok (snd (intern d m))" and "to_dict (snd (intern d m)) (fst (intern d m)) = Some d"
    and "dm_extends m (snd (intern d m))"
    and "set (dm_reverse (snd (intern d m))) = insert d (set (dm_reverse m))"
proof -
  have *: "dm_ok (snd (intern d m)) \<and> to_dict (snd (intern d m)) (fst (intern d m)) = Some d
      \<and> dm_extends m (snd (intern d m))
      \<and> set (dm_reverse (snd (intern d m))) = insert d (set (dm_reverse m))"
  proof (cases "dm_forward m d")
    case None
    note new = intern_new [OF assms None]
    have "d \<notin> set (dm_reverse m)" using assms None dm_ok_dom by blast
    then have "length (dm_reverse m) < 2 ^ 64" using assms by (rule dm_ok_len_fresh [rotated])
    with new show ?thesis by (simp add: to_dict_def dm_extends_def)
  next
    case (Some i)
    have "to_dict m i = Some d" using assms Some by (simp add: dm_ok_def dm_inv_def)
    moreover have "d \<in> set (dm_reverse m)" using assms Some dm_ok_dom by blast
    ultimately show ?thesis using assms Some by (auto simp: intern_old)
  qed
  then show "dm_ok (snd (intern d m))" and "to_dict (snd (intern d m)) (fst (intern d m)) = Some d"
    and "dm_extends m (snd (intern d m))"
    and "set (dm_reverse (snd (intern d m))) = insert d (set (dm_reverse m))" by blast+
qed

text \<open>The dense pair list decodes, position by position, to the pairs interned.\<close>

definition decodes :: "dense_map \<Rightarrow> pair \<Rightarrow> pair \<Rightarrow> bool" where
  "decodes m i d \<longleftrightarrow> to_dict m (fst i) = Some (fst d) \<and> to_dict m (snd i) = Some (snd d)"

lemma decodes_extends: "dm_extends m m' \<Longrightarrow> decodes m i d \<Longrightarrow> decodes m' i d"
  by (simp add: decodes_def dm_extends_to_dict)

lemma intern_edges_cons:
  "intern_edges (e # es) m =
    (let r1 = intern (fst e) m; r2 = intern (snd e) (snd r1); r3 = intern_edges es (snd r2)
     in ((fst r1, fst r2) # fst r3, snd r3))"
  by (cases e) (simp add: case_prod_beta Let_def)

lemma intern_edges_spec:
  assumes "dm_ok m"
  shows "dm_ok (snd (intern_edges es m)) \<and> dm_extends m (snd (intern_edges es m))
    \<and> list_all2 (decodes (snd (intern_edges es m))) (fst (intern_edges es m)) es
    \<and> set (dm_reverse (snd (intern_edges es m)))
        = set (dm_reverse m) \<union> fst ` set es \<union> snd ` set es"
  using assms
proof (induction es arbitrary: m)
  case Nil then show ?case by simp
next
  case (Cons e es)
  define r1 where "r1 = intern (fst e) m"
  define r2 where "r2 = intern (snd e) (snd r1)"
  define r3 where "r3 = intern_edges es (snd r2)"
  note s1 = intern_spec [OF Cons.prems, of "fst e", folded r1_def]
  note s2 = intern_spec [OF s1(1), of "snd e", folded r2_def]
  note s3 = Cons.IH [OF s2(1), folded r3_def]
  have eq: "intern_edges (e # es) m = ((fst r1, fst r2) # fst r3, snd r3)"
    by (simp only: intern_edges_cons Let_def r1_def r2_def r3_def)
  have "decodes (snd r2) (fst r1, fst r2) e"
    using s1 s2 by (auto simp: decodes_def intro: dm_extends_to_dict)
  then have "decodes (snd r3) (fst r1, fst r2) e" using s3 decodes_extends by blast
  moreover have "dm_extends m (snd r3)" using s1 s2 s3 dm_extends_trans by blast
  ultimately show ?case using s1 s2 s3 unfolding eq by simp
qed

section \<open>Properties\<close>

text \<open>Interning keeps the two directions of the map inverse to each other, gives the
  identifier an index that decodes to it, and never changes what an index handed out earlier
  decodes to; no overflow of the index type is possible.\<close>

theorem intern_bijection:
  assumes "dm_ok m" and "intern d m = (i, m')"
  shows "(\<forall>e j. to_dense m' e = Some j \<longleftrightarrow> to_dict m' j = Some e) \<and> dm_ok m'
    \<and> to_dense m' d = Some i \<and> unat i < dm_len m'
    \<and> (\<forall>j e. to_dict m j = Some e \<longrightarrow> to_dict m' j = Some e)
    \<and> dm_len m' = dm_len m + (if to_dense m d = None then 1 else 0)"
proof -
  have i: "i = fst (intern d m)" and m': "m' = snd (intern d m)" using assms(2) by simp_all
  note s = intern_spec [OF assms(1), of d, folded i m']
  have "to_dense m' d = Some i" using s by (simp add: dm_ok_iff)
  moreover have "unat i < dm_len m'" using s(2) by (auto simp: to_dict_def dm_len_def split: if_splits)
  moreover have "dm_len m' = dm_len m + (if to_dense m d = None then 1 else 0)"
  proof (cases "dm_forward m d")
    case None
    then show ?thesis
      using intern_new(3) [OF assms(1) None] assms(2) by (simp add: dm_len_def to_dense_def)
  next
    case (Some k)
    then show ?thesis using intern_old [OF Some] assms(2) by (simp add: dm_len_def to_dense_def)
  qed
  moreover have "\<forall>j e. to_dict m j = Some e \<longrightarrow> to_dict m' j = Some e"
    using dm_extends_to_dict [OF s(3)] by blast
  moreover have "\<forall>e j. to_dense m' e = Some j \<longleftrightarrow> to_dict m' j = Some e"
    using dm_ok_iff [OF s(1)] by blast
  ultimately show ?thesis using s(1) by blast
qed

lemma intern_bijection_witness:
  "dm_ok dm_empty \<and> to_dense (snd (intern 7 dm_empty)) 7 = Some (fst (intern 7 dm_empty))"
  by (rule conjI) (simp, use intern_bijection [OF dm_ok_empty surjective_pairing, of 7] in blast)

text \<open>Interning a batch of edges into a fresh map yields dense pairs that decode back to the
  edges in order, over indices below the matrix dimension, and the dimension is the number of
  distinct endpoints.\<close>

theorem intern_edges_roundtrip:
  "map (\<lambda>(i, j). (to_dict (snd (intern_edges es dm_empty)) i, to_dict (snd (intern_edges es dm_empty)) j))
       (fst (intern_edges es dm_empty))
     = map (\<lambda>(s, v). (Some s, Some v)) es
   \<and> dm_len (snd (intern_edges es dm_empty)) = card (fst ` set es \<union> snd ` set es)"
proof -
  let ?r = "intern_edges es dm_empty"
  note s = intern_edges_spec [OF dm_ok_empty, of es]
  have "list_all2 (decodes (snd ?r)) (fst ?r) es" using s by simp
  then have "map (\<lambda>(i, j). (to_dict (snd ?r) i, to_dict (snd ?r) j)) (fst ?r)
     = map (\<lambda>(s, v). (Some s, Some v)) es"
    unfolding list_all2_conv_all_nth decodes_def
    by (intro nth_equalityI) (auto simp: case_prod_beta)
  moreover have "distinct (dm_reverse (snd ?r))" using s unfolding dm_ok_def by blast
  then have "dm_len (snd ?r) = card (set (dm_reverse (snd ?r)))"
    by (simp add: dm_len_def distinct_card)
  ultimately show ?thesis using s by (simp add: dm_empty_def)
qed

end
