(* ===== verification/Same_As.thy ===== *)
theory Same_As imports Prelude "HOL-Library.Monad_Syntax" begin

text \<open>
  \<^verbatim>\<open>crates/closure/src/sameas.rs\<close>: the \<^verbatim>\<open>owl:sameAs\<close> equivalence classes as a union-find over
  five parallel containers, with path halving in \<^verbatim>\<open>find\<close>, union by rank and the smallest
  identifier of a class as its canonical representative. Slots are 32-bit; a panic (an index out of
  range, or the capacity assertion) is the value \<open>None\<close>, and so is a walk that would never reach a
  root, so every theorem that names a result also says that the code returns.
\<close>

type_synonym slot = "32 word"

record equiv_classes =
  ec_index :: "u64 \<rightharpoonup> slot"
  ec_values :: "u64 list"
  ec_parent :: "slot list"
  ec_rank :: "8 word list"
  ec_canon :: "u64 list"

definition ec_new :: equiv_classes where
  "ec_new = \<lparr>ec_index = Map.empty, ec_values = [], ec_parent = [], ec_rank = [], ec_canon = []\<rparr>"

definition ec_len :: "equiv_classes \<Rightarrow> nat" where
  "ec_len e = length (ec_values e)"

text \<open>Checked indexing: reading and writing a vector at a slot panics out of range.\<close>

definition fetch :: "'a list \<Rightarrow> slot \<Rightarrow> 'a option" where
  "fetch xs s = (if unat s < length xs then Some (xs ! unat s) else None)"

definition put :: "'a list \<Rightarrow> slot \<Rightarrow> 'a \<Rightarrow> 'a list option" where
  "put xs s v = (if unat s < length xs then Some (xs[unat s := v]) else None)"

definition NIL :: slot where
  "NIL = 0xFFFFFFFF"

definition ec_insert :: "u64 \<Rightarrow> equiv_classes \<Rightarrow> (slot \<times> equiv_classes) option" where
  "ec_insert d e = (case ec_index e d of
       Some s \<Rightarrow> Some (s, e)
     | None \<Rightarrow>
         (let s = of_nat (length (ec_values e)) in
          if s \<noteq> NIL then
            Some (s, e\<lparr>ec_values := ec_values e @ [d], ec_parent := ec_parent e @ [s],
                       ec_rank := ec_rank e @ [0], ec_canon := ec_canon e @ [d],
                       ec_index := (ec_index e)(d \<mapsto> s)\<rparr>)
          else None))"

partial_function (option) find_loop :: "slot list \<Rightarrow> slot \<Rightarrow> (slot \<times> slot list) option" where
  "find_loop par cur = do {
     p \<leftarrow> fetch par cur;
     if p = cur then Some (cur, par)
     else do {
       grand \<leftarrow> fetch par p;
       par' \<leftarrow> put par cur grand;
       find_loop par' grand
     }
   }"

definition ec_find :: "slot \<Rightarrow> equiv_classes \<Rightarrow> (slot \<times> equiv_classes) option" where
  "ec_find s e = do {
     (r, par) \<leftarrow> find_loop (ec_parent e) s;
     Some (r, e\<lparr>ec_parent := par\<rparr>)
   }"

definition saturating_inc :: "8 word \<Rightarrow> 8 word" where
  "saturating_inc k = (if k = - 1 then k else k + 1)"

definition ec_union :: "u64 \<Rightarrow> u64 \<Rightarrow> equiv_classes \<Rightarrow> equiv_classes option" where
  "ec_union a b e = do {
     (sa, e) \<leftarrow> ec_insert a e;
     (sb, e) \<leftarrow> ec_insert b e;
     (ra, e) \<leftarrow> ec_find sa e;
     (rb, e) \<leftarrow> ec_find sb e;
     if ra = rb then Some e
     else do {
       ka \<leftarrow> fetch (ec_rank e) ra;
       kb \<leftarrow> fetch (ec_rank e) rb;
       let (root, child, ranks) =
         (if ka < kb then (rb, ra, ec_rank e)
          else if kb < ka then (ra, rb, ec_rank e)
          else (ra, rb, (ec_rank e)[unat ra := saturating_inc ka]));
       par \<leftarrow> put (ec_parent e) child root;
       cr \<leftarrow> fetch (ec_canon e) root;
       cc \<leftarrow> fetch (ec_canon e) child;
       canon \<leftarrow> put (ec_canon e) root (min cr cc);
       Some (e\<lparr>ec_parent := par, ec_rank := ranks, ec_canon := canon\<rparr>)
     }
   }"

fun add_sameas :: "pair list \<Rightarrow> equiv_classes \<Rightarrow> equiv_classes option" where
  "add_sameas [] e = Some e"
| "add_sameas ((a, b) # ps) e = do { e' \<leftarrow> ec_union a b e; add_sameas ps e' }"

definition same :: "u64 \<Rightarrow> u64 \<Rightarrow> equiv_classes \<Rightarrow> (bool \<times> equiv_classes) option" where
  "same a b e = (case (ec_index e a, ec_index e b) of
       (Some sa, Some sb) \<Rightarrow> do {
         (ra, e) \<leftarrow> ec_find sa e;
         (rb, e) \<leftarrow> ec_find sb e;
         Some (ra = rb, e)
       }
     | _ \<Rightarrow> Some (False, e))"

partial_function (option) root_loop :: "slot list \<Rightarrow> slot \<Rightarrow> slot option" where
  "root_loop par cur = do {
     p \<leftarrow> fetch par cur;
     if p = cur then Some cur else root_loop par p
   }"

text \<open>The outer option is the panic, the inner one the code's own \<^verbatim>\<open>Option\<close>.\<close>

definition canonical :: "u64 \<Rightarrow> equiv_classes \<Rightarrow> u64 option option" where
  "canonical d e = (case ec_index e d of
       None \<Rightarrow> Some None
     | Some s \<Rightarrow> do {
         r \<leftarrow> root_loop (ec_parent e) s;
         c \<leftarrow> fetch (ec_canon e) r;
         Some (Some c)
       })"

fun members_with :: "u64 \<Rightarrow> equiv_classes \<Rightarrow> u64 list \<Rightarrow> u64 list option" where
  "members_with c e [] = Some []"
| "members_with c e (v # vs) = do {
     k \<leftarrow> canonical v e;
     rest \<leftarrow> members_with c e vs;
     Some (if k = Some c then v # rest else rest)
   }"

definition class_members :: "u64 \<Rightarrow> equiv_classes \<Rightarrow> u64 list option" where
  "class_members d e = do {
     t \<leftarrow> canonical d e;
     case t of None \<Rightarrow> Some [] | Some c \<Rightarrow> members_with c e (ec_values e)
   }"

lemma unat_of_nat_slot: "n < 2 ^ 32 \<Longrightarrow> unat (of_nat n :: slot) = n"
  by (simp add: unat_of_nat take_bit_nat_eq_self)

section \<open>The parent forest\<close>

text \<open>
  \<open>rooted par s r\<close>: the walk from slot \<open>s\<close> ends in the self-pointing slot \<open>r\<close>. A forest carries a
  height \<open>d\<close> that decreases along every parent edge; ranks are not used for this, because they
  saturate.
\<close>

inductive rooted :: "slot list \<Rightarrow> slot \<Rightarrow> slot \<Rightarrow> bool" for par where
  here: "unat s < length par \<Longrightarrow> par ! unat s = s \<Longrightarrow> rooted par s s"
| up: "unat s < length par \<Longrightarrow> par ! unat s \<noteq> s \<Longrightarrow> rooted par (par ! unat s) r \<Longrightarrow> rooted par s r"

inductive_cases rootedE: "rooted par s r"

definition ranked :: "(slot \<Rightarrow> nat) \<Rightarrow> slot list \<Rightarrow> bool" where
  "ranked d par \<longleftrightarrow> (\<forall>s. unat s < length par \<longrightarrow> unat (par ! unat s) < length par \<and>
     (par ! unat s \<noteq> s \<longrightarrow> d (par ! unat s) < d s))"

lemma rankedD:
  assumes "ranked d par" and "unat s < length par"
  shows "unat (par ! unat s) < length par" and "par ! unat s \<noteq> s \<Longrightarrow> d (par ! unat s) < d s"
  using assms by (auto simp: ranked_def)

lemma rooted_root: "rooted par s r \<Longrightarrow> unat r < length par \<and> par ! unat r = r"
  by (induction rule: rooted.induct) auto

lemma rooted_self: "rooted par s r \<Longrightarrow> rooted par r r"
  using rooted_root rooted.here by blast

lemma rooted_range: "rooted par s r \<Longrightarrow> unat s < length par"
  by (auto elim: rootedE)

lemma rooted_det: "rooted par s r \<Longrightarrow> rooted par s t \<Longrightarrow> r = t"
proof (induction arbitrary: t rule: rooted.induct)
  case (here s)
  show ?case by (rule rootedE [OF here(3)]) (use here in simp_all)
next
  case (up s r)
  show ?case by (rule rootedE [OF up(5)]) (use up(2) in simp, rule up(4))
qed

lemma rooted_step_iff:
  "unat s < length par \<Longrightarrow> par ! unat s \<noteq> s \<Longrightarrow> rooted par s r \<longleftrightarrow> rooted par (par ! unat s) r"
  by (rule iffI, erule rootedE, simp) (blast intro: rooted.up)+

lemma ranked_rooted: "ranked d par \<Longrightarrow> unat s < length par \<Longrightarrow> \<exists>r. rooted par s r"
proof (induction "d s" arbitrary: s rule: less_induct)
  case less
  show ?case
  proof (cases "par ! unat s = s")
    case False
    then show ?thesis
      using less.hyps [of "par ! unat s"] rankedD [OF less.prems] less.prems
      by (meson rooted.up)
  qed (use less.prems rooted.here in blast)
qed

text \<open>Two forests whose walks agree in one direction agree in both.\<close>

lemma rooted_same:
  assumes "ranked d par" and "length par' = length par"
    and fwd: "\<And>s r. rooted par s r \<Longrightarrow> rooted par' s r"
  shows "rooted par' s r \<longleftrightarrow> rooted par s r"
proof
  assume r: "rooted par' s r"
  then have "unat s < length par" using rooted_range assms(2) by metis
  then obtain t where t: "rooted par s t" using ranked_rooted assms(1) by blast
  then have "t = r" using fwd r rooted_det by blast
  then show "rooted par s r" using t by simp
qed (rule fwd)

lemma nth_update_slot:
  "unat c < length xs \<Longrightarrow> xs[unat (c::slot) := v] ! unat s = (if s = c then v else xs ! unat (s::slot))"
  by (cases "s = c") (simp_all add: nth_list_update_neq word_unat_eq_iff)

text \<open>One step of path halving keeps the height and every root.\<close>

lemma halving_step:
  assumes r: "ranked d par" and c: "unat c < length par"
    and p: "par ! unat c = p" "p \<noteq> c"
    and g: "par ! unat p = g" and par': "par' = par[unat c := g]"
  shows "d g < d c" and "unat g < length par" and "ranked d par'"
    and "rooted par' s t \<longleftrightarrow> rooted par s t"
proof -
  have p_in: "unat p < length par" and dp: "d p < d c" using rankedD [OF r c] p by auto
  show g_in: "unat g < length par" using rankedD(1) [OF r p_in] g by simp
  have "g = p \<or> d g < d p" using rankedD(2) [OF r p_in] g by auto
  then show dg: "d g < d c" using dp by auto
  then have gc: "g \<noteq> c" by auto
  note nth = nth_update_slot [OF c]
  show "ranked d par'"
    using r g_in dg unfolding ranked_def par' by (auto simp: nth nth_update_slot [OF c])
  have fwd: "rooted par s t \<Longrightarrow> rooted par' s t" for s t
  proof (induction "d s" arbitrary: s rule: less_induct)
    case less
    have s: "unat s < length par" using less.prems by (rule rooted_range)
    show ?case
    proof (cases "par ! unat s = s")
      case True
      then have "s \<noteq> c" using p by auto
      moreover have "t = s" using less.prems True s rooted.here rooted_det by blast
      ultimately show ?thesis using True s by (auto simp: par' nth intro!: rooted.here)
    next
      case False
      have up: "rooted par (par ! unat s) t" using less.prems False s by (simp add: rooted_step_iff)
      show ?thesis
      proof (cases "s = c")
        case True
        have "rooted par g t"
        proof (cases "g = p")
          case True then show ?thesis using up p \<open>s = c\<close> by simp
        next
          case False
          then show ?thesis using up p g \<open>s = c\<close> rooted_step_iff [OF p_in, of t] by simp
        qed
        then have gt: "rooted par' g t" using less.hyps dg True by blast
        show ?thesis by (rule rooted.up) (use gt True s gc in \<open>simp_all add: par' nth\<close>)
      next
        case neq: False
        have pt: "rooted par' (par ! unat s) t" using less.hyps [OF _ up] rankedD(2) [OF r s False] by blast
        show ?thesis by (rule rooted.up) (use pt neq s False in \<open>simp_all add: par' nth\<close>)
      qed
    qed
  qed
  show "rooted par' s t \<longleftrightarrow> rooted par s t"
    by (rule rooted_same [OF r]) (use fwd in \<open>simp_all add: par'\<close>)
qed

text \<open>The loop of \<^verbatim>\<open>find\<close> ends, in the root, in a forest with the same roots.\<close>

lemma find_loop_spec:
  "ranked d par \<Longrightarrow> rooted par s r \<Longrightarrow>
   \<exists>par'. find_loop par s = Some (r, par') \<and> length par' = length par \<and> ranked d par' \<and>
     (\<forall>s t. rooted par' s t \<longleftrightarrow> rooted par s t)"
proof (induction "d s" arbitrary: s par rule: less_induct)
  case less
  have s: "unat s < length par" using less.prems(2) by (rule rooted_range)
  define p g where "p = par ! unat s" and "g = par ! unat p"
  show ?case
  proof (cases "p = s")
    case True
    then have "r = s" using less.prems s p_def rooted.here rooted_det by metis
    then show ?thesis
      using True s less.prems by (subst find_loop.simps) (simp add: fetch_def p_def)
  next
    case False
    note h = halving_step [OF less.prems(1) s p_def [symmetric] False g_def [symmetric] refl]
    have p: "unat p < length par" using rankedD(1) [OF less.prems(1) s] p_def by simp
    have "rooted par p r" using less.prems(2) s False by (simp add: rooted_step_iff p_def)
    then have "rooted par g r" using p g_def rooted_step_iff by metis
    then have "rooted (par[unat s := g]) g r" using h(4) by simp
    from less.hyps [OF h(1) h(3) this] obtain par' where
      "find_loop (par[unat s := g]) g = Some (r, par')" "length par' = length par" "ranked d par'"
      "\<forall>s t. rooted par' s t \<longleftrightarrow> rooted par s t" using h(4) by auto
    then show ?thesis
      using False s p by (subst find_loop.simps) (simp add: fetch_def put_def flip: p_def g_def)
  qed
qed

lemma root_loop_spec: "rooted par s r \<Longrightarrow> root_loop par s = Some r"
  by (induction rule: rooted.induct) (subst root_loop.simps, simp add: fetch_def)+

text \<open>Hanging one root below another sends the walks that ended in it one step further.\<close>

lemma link_roots:
  assumes r: "ranked d par" and root: "rooted par root root" and child: "rooted par child child"
    and ne: "root \<noteq> child" and par': "par' = par[unat child := root]"
  shows "\<exists>d'. ranked d' par'"
    and "rooted par' s t \<longleftrightarrow> (\<exists>u. rooted par s u \<and> t = (if u = child then root else u))"
proof -
  have c: "unat child < length par" and pc: "par ! unat child = child"
    and ro: "unat root < length par" and pr: "par ! unat root = root"
    using rooted_root [OF child] rooted_root [OF root] by auto
  note nth = nth_update_slot [OF c]
  let ?d = "\<lambda>s. d s + (if rooted par s child then d root + 1 else 0)"
  have nr: "\<not> rooted par root child" using rooted_det [OF root] ne by blast
  have "ranked ?d par'"
    unfolding ranked_def
  proof (intro allI impI)
    fix s :: slot assume "unat s < length par'"
    then have s: "unat s < length par" by (simp add: par')
    show "unat (par' ! unat s) < length par' \<and> (par' ! unat s \<noteq> s \<longrightarrow> ?d (par' ! unat s) < ?d s)"
    proof (cases "s = child")
      case True then show ?thesis using ro nr child by (simp add: par' nth)
    next
      case False
      then show ?thesis
        using rankedD [OF r s] rooted_step_iff [OF s] by (auto simp: par' nth)
    qed
  qed
  then show "\<exists>d'. ranked d' par'" by blast
  have fwd: "rooted par s u \<Longrightarrow> rooted par' s (if u = child then root else u)" for s u
  proof (induction rule: rooted.induct)
    case (here s)
    have rr: "rooted par' root root" by (rule rooted.here) (use ro pr ne in \<open>simp_all add: par' nth\<close>)
    show ?case
    proof (cases "s = child")
      case True
      have "rooted par' child root" by (rule rooted.up) (use rr ne c in \<open>simp_all add: par' nth\<close>)
      then show ?thesis using True by simp
    next
      case False
      have "rooted par' s s" by (rule rooted.here) (use here False in \<open>simp_all add: par' nth\<close>)
      then show ?thesis using False by simp
    qed
  next
    case (up s u)
    have "s \<noteq> child" using up pc by auto
    show ?case by (rule rooted.up) (use up \<open>s \<noteq> child\<close> in \<open>simp_all add: par' nth\<close>)
  qed
  show "rooted par' s t \<longleftrightarrow> (\<exists>u. rooted par s u \<and> t = (if u = child then root else u))"
  proof
    assume t: "rooted par' s t"
    then have "unat s < length par" using rooted_range par' by fastforce
    then obtain u where "rooted par s u" using ranked_rooted [OF r] by blast
    then show "\<exists>u. rooted par s u \<and> t = (if u = child then root else u)"
      using fwd t rooted_det by blast
  qed (use fwd in blast)
qed

section \<open>The state invariant and its classes\<close>

text \<open>
  \<open>ec_cls e a r\<close>: the identifier \<open>a\<close> is known and its walk ends in the root \<open>r\<close>. Two identifiers
  are related when their walks end in the same root.
\<close>

definition ec_cls :: "equiv_classes \<Rightarrow> u64 \<Rightarrow> slot \<Rightarrow> bool" where
  "ec_cls e a r \<longleftrightarrow> (\<exists>s. ec_index e a = Some s \<and> rooted (ec_parent e) s r)"

definition ec_rel :: "equiv_classes \<Rightarrow> pair set" where
  "ec_rel e = {(a, b). \<exists>r. ec_cls e a r \<and> ec_cls e b r}"

definition canon_ok :: "equiv_classes \<Rightarrow> bool" where
  "canon_ok e \<longleftrightarrow> (\<forall>a r. ec_cls e a r \<longrightarrow>
     ec_cls e (ec_canon e ! unat r) r \<and> ec_canon e ! unat r \<le> a)"

definition ec_inv :: "equiv_classes \<Rightarrow> bool" where
  "ec_inv e \<longleftrightarrow> length (ec_parent e) = ec_len e \<and> length (ec_rank e) = ec_len e
     \<and> length (ec_canon e) = ec_len e \<and> ec_len e < 2 ^ 32 \<and> distinct (ec_values e)
     \<and> (\<forall>d s. ec_index e d = Some s \<longleftrightarrow> unat s < ec_len e \<and> ec_values e ! unat s = d)
     \<and> (\<exists>h. ranked h (ec_parent e)) \<and> canon_ok e"

lemma ec_inv_new [simp]: "ec_inv ec_new" "ec_rel ec_new = {}" "ec_values ec_new = []"
  by (auto simp: ec_inv_def ec_new_def ec_len_def ranked_def canon_ok_def ec_cls_def ec_rel_def)

lemma ec_cls_det: "ec_cls e a r \<Longrightarrow> ec_cls e a t \<Longrightarrow> r = t"
  by (auto simp: ec_cls_def dest: rooted_det)

lemma ec_rel_sym: "(a, b) \<in> ec_rel e \<Longrightarrow> (b, a) \<in> ec_rel e"
  by (auto simp: ec_rel_def)

lemma ec_rel_trans: "(a, b) \<in> ec_rel e \<Longrightarrow> (b, c) \<in> ec_rel e \<Longrightarrow> (a, c) \<in> ec_rel e"
  by (auto simp: ec_rel_def dest: ec_cls_det)

lemma ec_known:
  assumes "ec_inv e" shows "(\<exists>s. ec_index e a = Some s) \<longleftrightarrow> a \<in> set (ec_values e)"
proof
  assume "a \<in> set (ec_values e)"
  then obtain k where k: "k < ec_len e" "ec_values e ! k = a"
    by (auto simp: in_set_conv_nth ec_len_def)
  then have "unat (of_nat k :: slot) = k"
    using assms by (intro unat_of_nat_slot) (auto simp: ec_inv_def)
  then have "ec_index e a = Some (of_nat k)" using k assms unfolding ec_inv_def by metis
  then show "\<exists>s. ec_index e a = Some s" ..
qed (use assms in \<open>auto simp: ec_inv_def ec_len_def\<close>)

lemma ec_cls_total:
  assumes "ec_inv e" and "ec_index e a = Some s"
  obtains r where "rooted (ec_parent e) s r" and "ec_cls e a r" and "unat s < ec_len e"
proof -
  have "unat s < length (ec_parent e)" using assms by (auto simp: ec_inv_def)
  moreover obtain h where "ranked h (ec_parent e)" using assms by (auto simp: ec_inv_def)
  ultimately obtain r where "rooted (ec_parent e) s r" using ranked_rooted by blast
  then show ?thesis using that assms \<open>unat s < _\<close> by (auto simp: ec_cls_def ec_inv_def)
qed

lemma ec_cls_root_range: "ec_inv e \<Longrightarrow> ec_cls e a r \<Longrightarrow> unat r < ec_len e"
  by (auto simp: ec_cls_def ec_inv_def dest: rooted_root)

section \<open>The operations\<close>

text \<open>Finding a root changes no class: only the parent vector moves, along its own paths.\<close>

definition same_classes :: "equiv_classes \<Rightarrow> equiv_classes \<Rightarrow> bool" where
  "same_classes e e' \<longleftrightarrow> ec_inv e' \<and> ec_index e' = ec_index e \<and> ec_values e' = ec_values e
     \<and> ec_canon e' = ec_canon e \<and> ec_rank e' = ec_rank e
     \<and> (\<forall>s t. rooted (ec_parent e') s t \<longleftrightarrow> rooted (ec_parent e) s t)"

lemma same_classes_cls: "same_classes e e' \<Longrightarrow> ec_cls e' a r \<longleftrightarrow> ec_cls e a r"
  by (simp add: same_classes_def ec_cls_def)

lemma same_classes_rel: "same_classes e e' \<Longrightarrow> ec_rel e' = ec_rel e"
  by (simp add: ec_rel_def same_classes_cls)

lemma ec_find_spec:
  assumes "ec_inv e" and "rooted (ec_parent e) s r"
  shows "\<exists>e'. ec_find s e = Some (r, e') \<and> same_classes e e'"
proof -
  obtain h where "ranked h (ec_parent e)" using assms by (auto simp: ec_inv_def)
  from find_loop_spec [OF this assms(2)] obtain par where
    par: "find_loop (ec_parent e) s = Some (r, par)" "length par = length (ec_parent e)"
      "ranked h par" "\<forall>s t. rooted par s t \<longleftrightarrow> rooted (ec_parent e) s t" by blast
  let ?e = "e\<lparr>ec_parent := par\<rparr>"
  have "ec_cls ?e a r \<longleftrightarrow> ec_cls e a r" for a r using par(4) by (simp add: ec_cls_def)
  then have "canon_ok ?e" using assms(1) by (simp add: canon_ok_def ec_inv_def)
  then have "same_classes e ?e"
    using assms(1) par unfolding same_classes_def ec_inv_def by (auto simp: ec_len_def)
  then show ?thesis using par by (simp add: ec_find_def)
qed

lemma rooted_append:
  assumes "length par < 2 ^ 32" and n: "n = of_nat (length par)" and "ranked h par"
  shows "ranked h (par @ [n])" and "rooted (par @ [n]) s r \<longleftrightarrow> rooted par s r \<or> s = n \<and> r = n"
proof -
  have un: "unat (n::slot) = length par" unfolding n using assms(1) by (simp add: unat_of_nat_slot)
  have eqn: "unat s = length par \<longleftrightarrow> s = n" for s :: slot using un by (metis word_unat_eq_iff)
  have nn: "rooted (par @ [n]) n n" by (rule rooted.here) (simp_all add: un)
  show rk: "ranked h (par @ [n])"
    unfolding ranked_def
  proof (intro allI impI)
    fix s :: slot assume s: "unat s < length (par @ [n])"
    show "unat ((par @ [n]) ! unat s) < length (par @ [n])
      \<and> ((par @ [n]) ! unat s \<noteq> s \<longrightarrow> h ((par @ [n]) ! unat s) < h s)"
    proof (cases "unat s < length par")
      case True then show ?thesis
        using rankedD [OF assms(3) True] by (auto simp: nth_append)
    next
      case False
      then have "s = n" using s eqn by (simp add: less_Suc_eq)
      then show ?thesis by (simp add: un)
    qed
  qed
  have fwd: "rooted par s r \<Longrightarrow> rooted (par @ [n]) s r" for s r
  proof (induction rule: rooted.induct)
    case (here s)
    show ?case by (rule rooted.here) (use here in \<open>simp_all add: nth_append\<close>)
  next
    case (up s r)
    show ?case by (rule rooted.up) (use up in \<open>simp_all add: nth_append\<close>)
  qed
  show "rooted (par @ [n]) s r \<longleftrightarrow> rooted par s r \<or> s = n \<and> r = n"
  proof
    assume r: "rooted (par @ [n]) s r"
    show "rooted par s r \<or> s = n \<and> r = n"
    proof (cases "unat s < length par")
      case True
      then obtain t where t: "rooted par s t" using ranked_rooted [OF assms(3)] by blast
      have "t = r" by (rule rooted_det [OF fwd [OF t] r])
      with t show ?thesis by simp
    next
      case False
      then have "s = n" using rooted_range [OF r] eqn by (simp add: less_Suc_eq)
      moreover have "r = n" using r nn \<open>s = n\<close> rooted_det by blast
      ultimately show ?thesis by simp
    qed
  qed (use fwd nn in blast)
qed

text \<open>Inserting makes the identifier known, in a class of its own when it was not.\<close>

lemma ec_insert_spec:
  assumes inv: "ec_inv e" and cap: "card (insert a (set (ec_values e))) < 2 ^ 32"
  shows "\<exists>s e'. ec_insert a e = Some (s, e') \<and> ec_inv e' \<and> ec_index e' a = Some s
    \<and> set (ec_values e') = insert a (set (ec_values e)) \<and> ec_rel e' = insert (a, a) (ec_rel e)"
proof (cases "ec_index e a")
  case (Some s)
  obtain r where "ec_cls e a r" using ec_cls_total [OF inv Some] by blast
  then have "(a, a) \<in> ec_rel e" by (auto simp: ec_rel_def)
  moreover have "a \<in> set (ec_values e)" using ec_known [OF inv] Some by blast
  ultimately show ?thesis using Some inv by (auto simp: ec_insert_def insert_absorb)
next
  case None
  define n :: slot where "n = of_nat (length (ec_values e))"
  have a: "a \<notin> set (ec_values e)" using ec_known [OF inv, of a] None by simp
  have dist: "distinct (ec_values e)" and par: "length (ec_parent e) = ec_len e"
    using inv by (auto simp: ec_inv_def)
  have len: "Suc (ec_len e) < 2 ^ 32" using cap a dist by (simp add: ec_len_def distinct_card)
  have un: "unat n = ec_len e" unfolding n_def using len by (simp add: ec_len_def unat_of_nat_slot)
  have "n \<noteq> NIL"
  proof
    assume "n = NIL" then have "unat n = 2 ^ 32 - 1" by (simp add: NIL_def)
    then show False using un len by simp
  qed
  define e' where "e' = e\<lparr>ec_values := ec_values e @ [a], ec_parent := ec_parent e @ [n],
     ec_rank := ec_rank e @ [0], ec_canon := ec_canon e @ [a], ec_index := (ec_index e)(a \<mapsto> n)\<rparr>"
  have ins: "ec_insert a e = Some (n, e')"
    using None \<open>n \<noteq> NIL\<close> by (simp add: ec_insert_def n_def e'_def Let_def)
  obtain h where h: "ranked h (ec_parent e)" using inv by (auto simp: ec_inv_def)
  have pl: "length (ec_parent e) < 2 ^ 32" "n = of_nat (length (ec_parent e))"
    using par len by (auto simp: n_def ec_len_def)
  note ro = rooted_append [OF pl h]
  have old: "unat s < ec_len e" if "ec_index e d = Some s" for d s
    using inv that by (auto simp: ec_inv_def)
  have nn: "\<not> rooted (ec_parent e) n r" for r
    using rooted_range [of "ec_parent e" n r] un par by auto
  have cls: "ec_cls e' b r \<longleftrightarrow> ec_cls e b r \<or> b = a \<and> r = n" for b r
    using None old [of b n] un by (auto simp: ec_cls_def e'_def ro nn)
  have "ec_cls e b n \<Longrightarrow> False" for b
    using ec_cls_root_range [OF inv] un by fastforce
  then have rel: "ec_rel e' = insert (a, a) (ec_rel e)"
    by (auto simp: ec_rel_def cls)
  have idx: "\<forall>d s. ec_index e' d = Some s \<longleftrightarrow> unat s < ec_len e' \<and> ec_values e' ! unat s = d"
  proof (intro allI)
    fix d s
    have 1: "unat s = ec_len e \<longleftrightarrow> s = n" using un by (metis word_unat_eq_iff)
    have "ec_index e d = Some s \<longleftrightarrow> unat s < ec_len e \<and> ec_values e ! unat s = d"
      using inv by (simp add: ec_inv_def)
    then show "ec_index e' d = Some s \<longleftrightarrow> unat s < ec_len e' \<and> ec_values e' ! unat s = d"
      using 1 a by (auto simp: e'_def ec_len_def nth_append less_Suc_eq)
  qed
  have "canon_ok e'"
    unfolding canon_ok_def
  proof (intro allI impI)
    fix b r assume b: "ec_cls e' b r"
    show "ec_cls e' (ec_canon e' ! unat r) r \<and> ec_canon e' ! unat r \<le> b"
    proof (cases "r = n")
      case True
      then have "b = a" using b \<open>\<And>b. ec_cls e b n \<Longrightarrow> False\<close> by (auto simp: cls)
      moreover have "ec_canon e' ! unat n = a"
        using inv un by (simp add: e'_def nth_append ec_inv_def)
      ultimately show ?thesis using True cls by simp
    next
      case False
      then have b: "ec_cls e b r" using b cls by blast
      then have "ec_canon e' ! unat r = ec_canon e ! unat r"
        using inv ec_cls_root_range [OF inv] by (auto simp: e'_def nth_append ec_inv_def)
      moreover have "ec_cls e (ec_canon e ! unat r) r \<and> ec_canon e ! unat r \<le> b"
        using b inv by (auto simp: ec_inv_def canon_ok_def)
      ultimately show ?thesis using cls by simp
    qed
  qed
  then have "ec_inv e'"
    using inv idx ro(1) len a unfolding ec_inv_def by (auto simp: e'_def ec_len_def)
  then show ?thesis using ins rel by (auto simp: e'_def)
qed

text \<open>The last step of a union: one root below the other, the smaller canonical kept.\<close>

definition merged :: "equiv_classes \<Rightarrow> slot \<Rightarrow> slot \<Rightarrow> equiv_classes \<Rightarrow> bool" where
  "merged e root child e' \<longleftrightarrow> ec_parent e' = (ec_parent e)[unat child := root]
     \<and> ec_canon e' = (ec_canon e)[unat root := min (ec_canon e ! unat root) (ec_canon e ! unat child)]
     \<and> ec_index e' = ec_index e \<and> ec_values e' = ec_values e \<and> length (ec_rank e') = length (ec_rank e)"

lemma merged_spec:
  assumes inv: "ec_inv e" and a: "ec_cls e a root" and b: "ec_cls e b child"
    and ne: "root \<noteq> child" and m: "merged e root child e'"
  shows "ec_inv e'" and "ec_cls e' x t \<longleftrightarrow> (\<exists>u. ec_cls e x u \<and> t = (if u = child then root else u))"
proof -
  have rr: "rooted (ec_parent e) root root" "rooted (ec_parent e) child child"
    using a b by (auto simp: ec_cls_def intro: rooted_self)
  obtain h where h: "ranked h (ec_parent e)" using inv by (auto simp: ec_inv_def)
  note link = link_roots [OF h rr ne refl]
  have ec_parent: "ec_parent e' = (ec_parent e)[unat child := root]" using m by (simp add: merged_def)
  have cls: "ec_cls e' x t \<longleftrightarrow> (\<exists>u. ec_cls e x u \<and> t = (if u = child then root else u))" for x t
    using m by (auto simp: ec_cls_def link(2) merged_def)
  then show "ec_cls e' x t \<longleftrightarrow> (\<exists>u. ec_cls e x u \<and> t = (if u = child then root else u))" .
  have ra: "unat root < length (ec_canon e)"
    using ec_cls_root_range [OF inv a] inv by (simp add: ec_inv_def)
  have canon: "ec_canon e' ! unat t = (if t = root
      then min (ec_canon e ! unat root) (ec_canon e ! unat child) else ec_canon e ! unat t)" for t
    using m nth_update_slot [OF ra] by (simp add: merged_def)
  have old: "ec_cls e (ec_canon e ! unat u) u \<and> ec_canon e ! unat u \<le> y" if "ec_cls e y u" for y u
    using inv that by (auto simp: ec_inv_def canon_ok_def)
  have "canon_ok e'"
    unfolding canon_ok_def
  proof (intro allI impI)
    fix y t assume "ec_cls e' y t"
    then obtain u where u: "ec_cls e y u" "t = (if u = child then root else u)" by (auto simp: cls)
    note A = old [OF a] and B = old [OF b] and U = old [OF u(1)]
    show "ec_cls e' (ec_canon e' ! unat t) t \<and> ec_canon e' ! unat t \<le> y"
    proof (cases "t = root")
      case True
      then have "u = root \<or> u = child" using u by (auto split: if_splits)
      then have "min (ec_canon e ! unat root) (ec_canon e ! unat child) \<le> y"
        using U by (auto intro: min.coboundedI1 min.coboundedI2)
      moreover have "ec_cls e' (min (ec_canon e ! unat root) (ec_canon e ! unat child)) root"
        using A B ne by (auto simp: cls min_def)
      ultimately show ?thesis using True by (simp add: canon)
    next
      case False
      then have "t = u" "u \<noteq> child" using u by (auto split: if_splits)
      then show ?thesis using U False by (auto simp: canon cls)
    qed
  qed
  then show "ec_inv e'"
    using inv m link(1) unfolding ec_inv_def merged_def by (simp add: ec_len_def)
qed

definition joined :: "pair set \<Rightarrow> u64 \<Rightarrow> u64 \<Rightarrow> pair set" where
  "joined R a b = R \<union> R O {(a, b), (b, a)} O R"

lemma in_joined:
  "(u, v) \<in> joined S a b \<longleftrightarrow>
     (u, b) \<in> S \<and> (a, v) \<in> S \<or> (u, a) \<in> S \<and> (b, v) \<in> S \<or> (u, v) \<in> S"
  unfolding joined_def relcomp_unfold by blast

lemma merged_rel:
  assumes inv: "ec_inv e" and a: "ec_cls e a root" and b: "ec_cls e b child"
    and ne: "root \<noteq> child" and m: "merged e root child e'"
  shows "ec_rel e' = joined (ec_rel e) a b"
proof -
  note cls = merged_spec(2) [OF assms]
  have x: "(x, a) \<in> ec_rel e \<longleftrightarrow> ec_cls e x root" "(a, x) \<in> ec_rel e \<longleftrightarrow> ec_cls e x root"
    "(x, b) \<in> ec_rel e \<longleftrightarrow> ec_cls e x child" "(b, x) \<in> ec_rel e \<longleftrightarrow> ec_cls e x child" for x
    using a b by (auto simp: ec_rel_def dest: ec_cls_det)
  have xy: "(x, y) \<in> ec_rel e' \<longleftrightarrow> (x, y) \<in> ec_rel e \<or> ec_cls e x root \<and> ec_cls e y child
      \<or> ec_cls e x child \<and> ec_cls e y root" (is "_ \<longleftrightarrow> ?R") for x y
  proof
    assume "(x, y) \<in> ec_rel e'"
    then obtain u v where "ec_cls e x u" "ec_cls e y v"
      "(if u = child then root else u) = (if v = child then root else v)"
      by (auto simp: ec_rel_def cls)
    then show ?R by (auto simp: ec_rel_def split: if_splits)
  next
    have "ec_cls e' x (if u = child then root else u)" if "ec_cls e x u" for x u
      using that cls by blast
    note up = this
    assume ?R
    then show "(x, y) \<in> ec_rel e'"
      using up [of x] up [of y] ne unfolding ec_rel_def mem_Collect_eq case_prod_conv by metis
  qed
  show ?thesis by (auto simp: x xy in_joined)
qed

lemma joined_commute: "joined R a b = joined R b a"
  by (auto simp: in_joined)

lemma joined_absorb:
  assumes "(a, b) \<in> ec_rel e" shows "joined (ec_rel e) a b = ec_rel e"
  by (rule set_eqI, clarify, unfold in_joined) (use assms ec_rel_trans ec_rel_sym in blast)

lemma fetch_some [simp]: "unat s < length xs \<Longrightarrow> fetch xs s = Some (xs ! unat s)"
  by (simp add: fetch_def)

lemma put_some [simp]: "unat s < length xs \<Longrightarrow> put xs s v = Some (xs[unat s := v])"
  by (simp add: put_def)

lemma ec_union_spec:
  assumes inv: "ec_inv e" and cap: "card (insert a (insert b (set (ec_values e)))) < 2 ^ 32"
  shows "\<exists>e'. ec_union a b e = Some e' \<and> ec_inv e'
    \<and> set (ec_values e') = insert a (insert b (set (ec_values e)))
    \<and> ec_rel e' = joined (insert (b, b) (insert (a, a) (ec_rel e))) a b"
proof -
  have "card (insert a (set (ec_values e))) < 2 ^ 32"
    by (rule le_less_trans [OF _ cap]) (rule card_mono, auto)
  from ec_insert_spec [OF inv this] obtain sa e1 where
    1: "ec_insert a e = Some (sa, e1)" "ec_inv e1" "ec_index e1 a = Some sa"
      "set (ec_values e1) = insert a (set (ec_values e))" "ec_rel e1 = insert (a, a) (ec_rel e)" by blast
  have "card (insert b (set (ec_values e1))) < 2 ^ 32"
    using cap by (simp add: 1(4) insert_commute)
  from ec_insert_spec [OF 1(2) this] obtain sb e2 where
    2: "ec_insert b e1 = Some (sb, e2)" "ec_inv e2" "ec_index e2 b = Some sb"
      "set (ec_values e2) = insert b (set (ec_values e1))" "ec_rel e2 = insert (b, b) (ec_rel e1)" by blast
  have "ec_index e2 a = Some sa"
    using 1(3) 2(1) by (auto simp: ec_insert_def Let_def split: option.splits if_splits)
  then obtain ra where ra: "rooted (ec_parent e2) sa ra" "ec_cls e2 a ra" using ec_cls_total [OF 2(2)] by blast
  obtain rb where rb: "rooted (ec_parent e2) sb rb" "ec_cls e2 b rb" using ec_cls_total [OF 2(2,3)] by blast
  obtain e3 where 3: "ec_find sa e2 = Some (ra, e3)" "same_classes e2 e3"
    using ec_find_spec [OF 2(2) ra(1)] by blast
  have i3: "ec_inv e3" "rooted (ec_parent e3) sb rb" using 3(2) rb by (auto simp: same_classes_def)
  obtain e4 where 4: "ec_find sb e3 = Some (rb, e4)" "same_classes e3 e4"
    using ec_find_spec [OF i3] by blast
  have i4: "ec_inv e4" using 4(2) by (simp add: same_classes_def)
  have c4: "ec_cls e4 a ra" "ec_cls e4 b rb"
    using ra rb by (simp_all add: same_classes_cls [OF 4(2)] same_classes_cls [OF 3(2)])
  have r4: "ec_rel e4 = insert (b, b) (insert (a, a) (ec_rel e))"
    by (simp add: same_classes_rel [OF 4(2)] same_classes_rel [OF 3(2)] 1 2)
  have v4: "set (ec_values e4) = insert a (insert b (set (ec_values e)))"
    using 3(2) 4(2) 1(4) 2(4) by (auto simp: same_classes_def)
  have range: "unat ra < ec_len e4" "unat rb < ec_len e4" using ec_cls_root_range i4 c4 by blast+
  note lens = i4 [unfolded ec_inv_def]
  show ?thesis
  proof (cases "ra = rb")
    case True
    then have "(a, b) \<in> ec_rel e4" using c4 by (auto simp: ec_rel_def)
    then have "ec_rel e4 = joined (ec_rel e4) a b" by (simp add: joined_absorb)
    moreover have "ec_union a b e = Some e4" using True by (simp add: ec_union_def 1(1) 2(1) 3(1) 4(1))
    ultimately show ?thesis using i4 v4 r4 by simp
  next
    case False
    define lt where "lt = (ec_rank e4 ! unat ra < ec_rank e4 ! unat rb)"
    define e' where "e' = (let root = (if lt then rb else ra); child = (if lt then ra else rb) in
      e4\<lparr>ec_parent := (ec_parent e4)[unat child := root],
         ec_rank := (if lt \<or> ec_rank e4 ! unat rb < ec_rank e4 ! unat ra then ec_rank e4
           else (ec_rank e4)[unat ra := saturating_inc (ec_rank e4 ! unat ra)]),
         ec_canon := (ec_canon e4)[unat root := min (ec_canon e4 ! unat root) (ec_canon e4 ! unat child)]\<rparr>)"
    have "ec_union a b e = Some e'"
      using False range lens by (simp add: ec_union_def 1(1) 2(1) 3(1) 4(1) lt_def e'_def Let_def)
    moreover have "merged e4 (if lt then rb else ra) (if lt then ra else rb) e'"
      by (simp add: merged_def e'_def Let_def)
    ultimately have e': "ec_union a b e = Some e'"
      "merged e4 (if lt then rb else ra) (if lt then ra else rb) e'" .
    have "ec_inv e' \<and> ec_rel e' = joined (ec_rel e4) a b"
    proof (cases lt)
      case True
      then show ?thesis using merged_spec(1) [OF i4 c4(2,1)] merged_rel [OF i4 c4(2,1)] e' False
        by (simp add: joined_commute)
    next
      case False
      then show ?thesis using merged_spec(1) [OF i4 c4] merged_rel [OF i4 c4] e' \<open>ra \<noteq> rb\<close> by simp
    qed
    then show ?thesis using e' v4 r4 by (auto simp: merged_def)
  qed
qed

section \<open>Batches and queries\<close>

text \<open>The equivalence a list of asserted pairs generates on the identifiers it mentions.\<close>

definition generated :: "pair set \<Rightarrow> pair set" where
  "generated R = (R \<union> R\<inverse>)\<^sup>+"

lemma generated_sym: "(x, y) \<in> generated R \<Longrightarrow> (y, x) \<in> generated R"
  unfolding generated_def by (metis converse_Un converse_converse sup_commute trancl_converse converse_iff)

lemma generated_trans: "(x, y) \<in> generated R \<Longrightarrow> (y, z) \<in> generated R \<Longrightarrow> (x, z) \<in> generated R"
  unfolding generated_def by (rule trancl_trans)

lemma generated_mono: "R \<subseteq> S \<Longrightarrow> (x, y) \<in> generated R \<Longrightarrow> (x, y) \<in> generated S"
  unfolding generated_def by (erule trancl_mono) auto

lemma generated_base: "(x, y) \<in> R \<Longrightarrow> (x, y) \<in> generated R"
  by (auto simp: generated_def)

lemma generated_least:
  assumes "R \<subseteq> E" and "\<And>x y. (x, y) \<in> E \<Longrightarrow> (y, x) \<in> E"
    and "\<And>x y z. (x, y) \<in> E \<Longrightarrow> (y, z) \<in> E \<Longrightarrow> (x, z) \<in> E"
  shows "generated R \<subseteq> E"
proof -
  have "(x, y) \<in> (R \<union> R\<inverse>)\<^sup>+ \<Longrightarrow> (x, y) \<in> E" for x y
    by (induction rule: trancl_induct) (use assms in blast)+
  then show ?thesis by (auto simp: generated_def)
qed

lemma joined_generates:
  assumes "E = generated R" and "E' = joined (insert (b, b) (insert (a, a) E)) a b"
    and "\<And>x y. (x, y) \<in> E' \<Longrightarrow> (y, x) \<in> E'" and "\<And>x y z. (x, y) \<in> E' \<Longrightarrow> (y, z) \<in> E' \<Longrightarrow> (x, z) \<in> E'"
  shows "E' = generated (insert (a, b) R)"
proof
  let ?G = "generated (insert (a, b) R)"
  have ab: "(a, b) \<in> ?G" "(b, a) \<in> ?G" using generated_base generated_sym by blast+
  then have aa: "(a, a) \<in> ?G" "(b, b) \<in> ?G" using generated_trans by blast+
  have "E \<subseteq> ?G" using assms(1) generated_mono [of R "insert (a, b) R"] by auto
  with aa have i: "insert (b, b) (insert (a, a) (E)) \<subseteq> ?G" by blast
  have "(x, y) \<in> ?G" if "(x, y) \<in> E'" for x y
    using that i ab unfolding assms(2) in_joined by (blast intro: generated_trans)
  then show "E' \<subseteq> ?G" by auto
next
  have "insert (a, b) R \<subseteq> E'"
    using assms(1,2) generated_base [of _ _ R] by (auto simp: in_joined)
  then show "generated (insert (a, b) R) \<subseteq> E'"
    by (rule generated_least) (use assms(3,4) in blast)+
qed

lemma joined_generated:
  assumes "ec_rel e = generated R" and "ec_rel e' = joined (insert (b, b) (insert (a, a) (ec_rel e))) a b"
  shows "ec_rel e' = generated (insert (a, b) R)"
  by (rule joined_generates [OF assms]) (use ec_rel_sym ec_rel_trans in blast)+

lemma add_sameas_spec:
  assumes "ec_inv e" and "ec_rel e = generated R"
    and "card (set (ec_values e) \<union> fst ` set ps \<union> snd ` set ps) < 2 ^ 32"
  shows "\<exists>e'. add_sameas ps e = Some e' \<and> ec_inv e' \<and> ec_rel e' = generated (set ps \<union> R)
    \<and> set (ec_values e') = set (ec_values e) \<union> fst ` set ps \<union> snd ` set ps"
  using assms
proof (induction ps arbitrary: e R)
  case Nil then show ?case by simp
next
  case (Cons p ps)
  obtain a b where p: "p = (a, b)" by (cases p)
  have "card (insert a (insert b (set (ec_values e)))) < 2 ^ 32"
    by (rule le_less_trans [OF _ Cons.prems(3)]) (rule card_mono, auto simp: p)
  from ec_union_spec [OF Cons.prems(1) this] obtain e1 where
    e1: "ec_union a b e = Some e1" "ec_inv e1" "set (ec_values e1) = insert a (insert b (set (ec_values e)))"
      "ec_rel e1 = joined (insert (b, b) (insert (a, a) (ec_rel e))) a b" by blast
  have "ec_rel e1 = generated (insert (a, b) R)" by (rule joined_generated [OF Cons.prems(2) e1(4)])
  moreover have eq: "set (ec_values e1) \<union> fst ` set ps \<union> snd ` set ps
      = set (ec_values e) \<union> fst ` set (p # ps) \<union> snd ` set (p # ps)"
    by (auto simp: e1 p)
  ultimately show ?case
    using Cons.IH [OF e1(2), of "insert (a, b) R"] Cons.prems(3)
    unfolding eq by (simp add: p e1(1))
qed

lemma same_spec:
  assumes "ec_inv e"
  shows "\<exists>e'. same a b e = Some ((a, b) \<in> ec_rel e, e') \<and> ec_inv e' \<and> ec_rel e' = ec_rel e
    \<and> set (ec_values e') = set (ec_values e)"
proof (cases "\<exists>sa sb. ec_index e a = Some sa \<and> ec_index e b = Some sb")
  case False
  then have "(a, b) \<notin> ec_rel e" by (auto simp: ec_rel_def ec_cls_def)
  then show ?thesis using False assms by (auto simp: same_def split: option.splits)
next
  case True
  then obtain sa sb where ab: "ec_index e a = Some sa" "ec_index e b = Some sb" by blast
  obtain ra where ra: "rooted (ec_parent e) sa ra" "ec_cls e a ra" using ec_cls_total [OF assms ab(1)] by blast
  obtain rb where rb: "rooted (ec_parent e) sb rb" "ec_cls e b rb" using ec_cls_total [OF assms ab(2)] by blast
  obtain e1 where 1: "ec_find sa e = Some (ra, e1)" "same_classes e e1"
    using ec_find_spec [OF assms ra(1)] by blast
  have i1: "ec_inv e1" "rooted (ec_parent e1) sb rb" using 1(2) rb by (auto simp: same_classes_def)
  obtain e2 where 2: "ec_find sb e1 = Some (rb, e2)" "same_classes e1 e2"
    using ec_find_spec [OF i1] by blast
  have "(a, b) \<in> ec_rel e \<longleftrightarrow> ra = rb" using ra rb by (auto simp: ec_rel_def dest: ec_cls_det)
  then show ?thesis
    using ab 1 2 same_classes_rel [OF 1(2)] same_classes_rel [OF 2(2)]
    by (auto simp: same_def same_classes_def)
qed

lemma canonical_spec:
  assumes "ec_inv e"
  shows "if a \<in> set (ec_values e)
    then \<exists>c. canonical a e = Some (Some c) \<and> (a, c) \<in> ec_rel e \<and> (\<forall>b. (a, b) \<in> ec_rel e \<longrightarrow> c \<le> b)
    else canonical a e = Some None"
proof (cases "ec_index e a")
  case None
  then show ?thesis using ec_known [OF assms, of a] by (simp add: canonical_def)
next
  case (Some s)
  obtain r where r: "rooted (ec_parent e) s r" "ec_cls e a r" using ec_cls_total [OF assms Some] by blast
  have "unat r < length (ec_canon e)" using ec_cls_root_range [OF assms r(2)] assms by (simp add: ec_inv_def)
  moreover have "ec_cls e b r \<Longrightarrow> ec_cls e (ec_canon e ! unat r) r \<and> ec_canon e ! unat r \<le> b" for b
    using assms by (auto simp: ec_inv_def canon_ok_def)
  ultimately show ?thesis
    using r Some ec_known [OF assms, of a] root_loop_spec [OF r(1)]
    by (auto simp: canonical_def ec_rel_def dest: ec_cls_det)
qed

text \<open>Two known identifiers are related exactly when their canonicals agree.\<close>

lemma canonical_eq_iff:
  assumes "ec_inv e" and "a \<in> set (ec_values e)" and "canonical a e = Some (Some c)"
    and "b \<in> set (ec_values e)"
  shows "canonical b e = Some (Some c) \<longleftrightarrow> (a, b) \<in> ec_rel e"
proof -
  have a: "(a, c) \<in> ec_rel e" "\<forall>b. (a, b) \<in> ec_rel e \<longrightarrow> c \<le> b"
    using canonical_spec [OF assms(1), of a] assms by auto
  obtain k where b: "canonical b e = Some (Some k)" "(b, k) \<in> ec_rel e" "\<forall>x. (b, x) \<in> ec_rel e \<longrightarrow> k \<le> x"
    using canonical_spec [OF assms(1), of b] assms by auto
  show ?thesis
  proof
    assume "canonical b e = Some (Some c)"
    then show "(a, b) \<in> ec_rel e" using a b by (auto intro: ec_rel_trans ec_rel_sym)
  next
    assume ab: "(a, b) \<in> ec_rel e"
    then have "c \<le> k" "k \<le> c" using a b ec_rel_trans ec_rel_sym by blast+
    then show "canonical b e = Some (Some c)" using b by simp
  qed
qed

lemma members_with_spec:
  assumes "ec_inv e" and "a \<in> set (ec_values e)" and "canonical a e = Some (Some c)"
    and "set vs \<subseteq> set (ec_values e)"
  shows "members_with c e vs = Some (filter (\<lambda>b. (a, b) \<in> ec_rel e) vs)"
  using assms(4)
proof (induction vs)
  case (Cons v vs)
  have v: "v \<in> set (ec_values e)" using Cons.prems by simp
  obtain k where k: "canonical v e = Some k" using canonical_spec [OF assms(1), of v] by (auto split: if_splits)
  show ?case using Cons k canonical_eq_iff [OF assms(1-3) v] by simp
qed simp

lemma class_members_spec:
  assumes "ec_inv e"
  shows "class_members a e = Some (filter (\<lambda>b. (a, b) \<in> ec_rel e) (ec_values e))"
proof (cases "a \<in> set (ec_values e)")
  case True
  then obtain c where c: "canonical a e = Some (Some c)" using canonical_spec [OF assms, of a] by auto
  show ?thesis using members_with_spec [OF assms True c subset_refl] c by (simp add: class_members_def)
next
  case False
  then have "(a, b) \<notin> ec_rel e" for b using ec_known [OF assms, of a] by (auto simp: ec_rel_def ec_cls_def)
  then show ?thesis using canonical_spec [OF assms, of a] False by (simp add: class_members_def)
qed

section \<open>Properties\<close>

text \<open>C32: After asserting any list of pairs over fewer than \<^verbatim>\<open>2^32\<close> identifiers, every walk ends
  and no index is out of range; \<^verbatim>\<open>same\<close> decides the equivalence the pairs generate, \<^verbatim>\<open>canonical\<close>
  is the smallest identifier of the class (none for an unknown identifier), \<^verbatim>\<open>class_members\<close> lists
  the class, and the path halving a query does changes none of this.\<close>

theorem sameas_exact:
  assumes "card (fst ` set ps \<union> snd ` set ps) < 2 ^ 32"
  shows "\<exists>e. add_sameas ps ec_new = Some e
    \<and> (\<forall>a b. \<exists>e'. same a b e = Some ((a, b) \<in> (set ps \<union> (set ps)\<inverse>)\<^sup>+, e')
         \<and> ec_inv e' \<and> ec_rel e' = ec_rel e)
    \<and> (\<forall>a. canonical a e = Some (if a \<in> fst ` set ps \<union> snd ` set ps
         then Some (Min {b. (a, b) \<in> (set ps \<union> (set ps)\<inverse>)\<^sup>+}) else None))
    \<and> (\<forall>a. \<exists>ms. class_members a e = Some ms \<and> distinct ms
         \<and> set ms = {b. (a, b) \<in> (set ps \<union> (set ps)\<inverse>)\<^sup>+})"
proof -
  have "ec_rel ec_new = generated {}" by (simp add: generated_def)
  then obtain e where e: "add_sameas ps ec_new = Some e" "ec_inv e" "ec_rel e = generated (set ps)"
      "set (ec_values e) = fst ` set ps \<union> snd ` set ps"
    using add_sameas_spec [OF ec_inv_new(1), of "{}" ps] assms by (auto simp: Un_assoc)
  have G: "(set ps \<union> (set ps)\<inverse>)\<^sup>+ = ec_rel e" by (simp add: e(3) generated_def)
  have "canonical a e = Some (if a \<in> fst ` set ps \<union> snd ` set ps
         then Some (Min {b. (a, b) \<in> ec_rel e}) else None)" for a
  proof (cases "a \<in> set (ec_values e)")
    case True
    then obtain c where c: "canonical a e = Some (Some c)" "(a, c) \<in> ec_rel e"
        "\<forall>b. (a, b) \<in> ec_rel e \<longrightarrow> c \<le> b"
      using canonical_spec [OF e(2), of a] by auto
    then have "Min {b. (a, b) \<in> ec_rel e} = c" by (intro Min_eqI) auto
    then show ?thesis using c True by (simp add: e(4))
  next
    case False
    then show ?thesis using canonical_spec [OF e(2), of a] by (simp add: e(4))
  qed
  moreover have "\<exists>ms. class_members a e = Some ms \<and> distinct ms \<and> set ms = {b. (a, b) \<in> ec_rel e}" for a
    using class_members_spec [OF e(2), of a] e(2) ec_known [OF e(2)]
    by (auto simp: ec_inv_def ec_rel_def ec_cls_def)
  moreover have "\<exists>e'. same a b e = Some ((a, b) \<in> ec_rel e, e') \<and> ec_inv e' \<and> ec_rel e' = ec_rel e" for a b
    using same_spec [OF e(2)] by blast
  ultimately show ?thesis using e(1) unfolding G by blast
qed

lemma sameas_exact_witness:
  "card (fst ` set [(1, 2), (3::u64, 2::u64)] \<union> snd ` set [(1, 2), (3::u64, 2::u64)]) < 2 ^ 32
   \<and> (\<exists>e. add_sameas [(1, 2), (3, 2)] ec_new = Some e)"
  by (rule conjI) (simp add: card_insert_if, use sameas_exact [of "[(1, 2), (3, 2)]"] in \<open>auto simp: card_insert_if\<close>)

text \<open>The capacity assertion fires exactly when an unknown identifier meets a structure that
  already holds \<^verbatim>\<open>2^32 - 1\<close> entries; otherwise the insertion returns the identifier's slot and keeps
  the invariant.\<close>

theorem ec_insert_capacity:
  assumes "ec_inv e"
  shows "(ec_insert a e = None \<longleftrightarrow> a \<notin> set (ec_values e) \<and> ec_len e = 2 ^ 32 - 1)
    \<and> (\<forall>s e'. ec_insert a e = Some (s, e') \<longrightarrow> ec_inv e' \<and> ec_index e' a = Some s
         \<and> set (ec_values e') = insert a (set (ec_values e)) \<and> ec_rel e' = insert (a, a) (ec_rel e))"
proof -
  have d: "distinct (ec_values e)" "ec_len e < 2 ^ 32" using assms by (auto simp: ec_inv_def)
  then have card: "card (insert a (set (ec_values e))) = (if a \<in> set (ec_values e) then ec_len e else Suc (ec_len e))"
    by (auto simp: ec_len_def distinct_card insert_absorb)
  show ?thesis
  proof (cases "a \<notin> set (ec_values e) \<and> ec_len e = 2 ^ 32 - 1")
    case True
    then have "ec_index e a = None" using ec_known [OF assms, of a] by (cases "ec_index e a") auto
    moreover have "(of_nat (2 ^ 32 - 1) :: slot) = NIL" by (simp add: NIL_def)
    ultimately have "ec_insert a e = None" using True by (simp add: ec_insert_def ec_len_def Let_def)
    then show ?thesis using True by simp
  next
    case False
    then have "card (insert a (set (ec_values e))) < 2 ^ 32" using card d by (auto split: if_splits)
    from ec_insert_spec [OF assms this] show ?thesis using False by auto
  qed
qed

lemma ec_insert_capacity_witness:
  "ec_inv ec_new \<and> ec_insert 5 ec_new \<noteq> None"
  by (rule conjI) (simp, use ec_insert_capacity [OF ec_inv_new(1), of 5] in \<open>simp add: ec_len_def\<close>)

end
