(* ===== verification/Closure_Backend.thy ===== *)
theory Closure_Backend imports Bool_Closure Dense_Ids Same_As begin

text \<open>
  The bulk closure backend of \<^verbatim>\<open>crates/closure/src/sink.rs\<close>: an edge list over dictionary
  identifiers is renumbered densely, closed as a Boolean matrix and written back to a triple sink.
  The sink is code of the embedding storage layer: a function from its state and the triples to a
  result and the next state, the argument \<open>sink\<close>.
\<close>

type_synonym dict_triple = "u64 \<times> u64 \<times> u64"
type_synonym 'k triple_sink = "'k \<Rightarrow> dict_triple list \<Rightarrow> (fault + u64) \<times> 'k"

section \<open>Decoding\<close>

definition decode_pair :: "dense_map \<Rightarrow> pair \<Rightarrow> pair option" where
  "decode_pair ids e = (case e of (s, ob) \<Rightarrow>
     (case to_dict ids s of None \<Rightarrow> None | Some x \<Rightarrow>
      (case to_dict ids ob of None \<Rightarrow> None | Some y \<Rightarrow> Some (x, y))))"

definition pairs_to_dict :: "dense_map \<Rightarrow> pair list \<Rightarrow> pair list" where
  "pairs_to_dict ids es = List.map_filter (decode_pair ids) es"

definition build_matrix :: "'m ffi \<Rightarrow> pair list \<Rightarrow> fault + 'm bool_matrix \<times> dense_map" where
  "build_matrix g edges =
     (let (dense, ids) = intern_edges edges dm_empty; n = of_nat (dm_len ids) in
      and_then (from_edges g n dense) (\<lambda>m. Inr (m, ids)))"

definition write_closure ::
  "u64 \<Rightarrow> pair list \<Rightarrow> dense_map \<Rightarrow> 'k triple_sink \<Rightarrow> 'k \<Rightarrow> (fault + u64) \<times> 'k" where
  "write_closure p dense_edges ids sink k =
     sink k (List.map_filter (\<lambda>e. case decode_pair ids e of None \<Rightarrow> None | Some (s, ob) \<Rightarrow> Some (s, p, ob))
       dense_edges)"

text \<open>The two closing operations: the outer option is a closure that would not return.\<close>

definition close_transitive_predicate ::
  "'m ffi \<Rightarrow> u64 \<Rightarrow> pair list \<Rightarrow> 'k triple_sink \<Rightarrow> 'k \<Rightarrow> ((fault + u64) \<times> 'k) option" where
  "close_transitive_predicate g p edges sink k =
     (if edges = [] then Some (Inr 0, k)
      else case build_matrix g edges of Inl e \<Rightarrow> Some (Inl e, k) | Inr (matrix, ids) \<Rightarrow>
        (case transitive_closure g matrix of None \<Rightarrow> None | Some (Inl e) \<Rightarrow> Some (Inl e, k) | Some (Inr closure) \<Rightarrow>
          (case extract_edges g closure of Inl e \<Rightarrow> Some (Inl e, k) | Inr dense_edges \<Rightarrow>
            Some (write_closure p dense_edges ids sink k))))"

definition close_reflexive ::
  "'m ffi \<Rightarrow> u64 \<Rightarrow> pair list \<Rightarrow> 'k triple_sink \<Rightarrow> 'k \<Rightarrow> ((fault + u64) \<times> 'k) option" where
  "close_reflexive g p edges sink k =
     (if edges = [] then Some (Inr 0, k)
      else case build_matrix g edges of Inl e \<Rightarrow> Some (Inl e, k) | Inr (matrix, ids) \<Rightarrow>
        (case reflexive_transitive_closure g matrix of None \<Rightarrow> None | Some (Inl e) \<Rightarrow> Some (Inl e, k)
         | Some (Inr closure) \<Rightarrow>
          (case extract_edges g closure of Inl e \<Rightarrow> Some (Inl e, k) | Inr dense_edges \<Rightarrow>
            Some (write_closure p dense_edges ids sink k))))"

definition close_subclass ::
  "'m ffi \<Rightarrow> u64 \<Rightarrow> pair list \<Rightarrow> 'k triple_sink \<Rightarrow> 'k \<Rightarrow> ((fault + u64) \<times> 'k) option" where
  "close_subclass g subclassof_pid edges sink k = close_reflexive g subclassof_pid edges sink k"

definition close_subproperty ::
  "'m ffi \<Rightarrow> u64 \<Rightarrow> pair list \<Rightarrow> 'k triple_sink \<Rightarrow> 'k \<Rightarrow> ((fault + u64) \<times> 'k) option" where
  "close_subproperty g subpropertyof_pid edges sink k = close_reflexive g subpropertyof_pid edges sink k"

section \<open>The renumbering is an isomorphism of the edges\<close>

lemma trancl_map_prod:
  assumes "inj_on f A" and "D \<subseteq> A \<times> A"
  shows "(map_prod f f ` D)\<^sup>+ = map_prod f f ` (D\<^sup>+)"
proof
  have "(x, y) \<in> (map_prod f f ` D)\<^sup>+ \<Longrightarrow> (x, y) \<in> map_prod f f ` (D\<^sup>+)" for x y
  proof (induction rule: trancl_induct)
    case (step y z)
    then obtain a b c d where D: "(a, b) \<in> D\<^sup>+" "(c, d) \<in> D" "x = f a" "y = f b" "y = f c" "z = f d"
      by (auto simp: map_prod_def)
    have "b \<in> A" "c \<in> A" using D(1,2) trancl_subset_Sigma [OF assms(2)] assms(2) by auto
    then have "b = c" using assms(1) D by (auto dest: inj_onD)
    then have "(a, d) \<in> D\<^sup>+" using D by (meson trancl_into_trancl)
    then show ?case using D by (auto intro!: image_eqI [of _ _ "(a, d)"])
  qed auto
  then show "(map_prod f f ` D)\<^sup>+ \<subseteq> map_prod f f ` (D\<^sup>+)" by auto
next
  have "(a, b) \<in> D\<^sup>+ \<Longrightarrow> (f a, f b) \<in> (map_prod f f ` D)\<^sup>+" for a b
  proof (induction rule: trancl_induct)
    case (step b c)
    then have "(f b, f c) \<in> map_prod f f ` D" by (auto intro!: image_eqI [of _ _ "(b, c)"])
    with step.IH show ?case by (rule trancl_into_trancl)
  qed (auto intro!: r_into_trancl image_eqI)
  then show "map_prod f f ` (D\<^sup>+) \<subseteq> (map_prod f f ` D)\<^sup>+" by auto
qed

text \<open>
  What interning a batch gives: a dimension, dense edges below it, and a decoder that is injective on
  the indices and takes the dense edges to the edges.
\<close>

definition numbered :: "pair list \<Rightarrow> pair list \<Rightarrow> dense_map \<Rightarrow> u64 \<Rightarrow> (u64 \<Rightarrow> u64) \<Rightarrow> bool" where
  "numbered edges dense ids n f \<longleftrightarrow>
     set dense \<subseteq> {..<n} \<times> {..<n} \<and> inj_on f {..<n} \<and> (\<forall>i<n. to_dict ids i = Some (f i))
     \<and> map_prod f f ` set dense = set edges \<and> f ` {..<n} = Field (set edges)"

lemma numbered_intern:
  assumes "intern_edges edges dm_empty = (dense, ids)" and "card (Field (set edges)) < 2 ^ 64"
  shows "numbered edges dense ids (of_nat (dm_len ids)) (\<lambda>i. the (to_dict ids i))"
proof -
  note s = intern_edges_spec [OF dm_ok_empty, of edges, unfolded assms(1) fst_conv snd_conv]
  have field: "set (dm_reverse ids) = Field (set edges)"
    using s by (auto simp: dm_empty_def Field_def Domain_fst Range_snd)
  have d: "distinct (dm_reverse ids)" using s by (simp add: dm_ok_def)
  then have len: "dm_len ids < 2 ^ 64"
    using assms(2) field distinct_card [OF d] by (simp add: dm_len_def)
  have lt: "i < of_nat (dm_len ids) \<longleftrightarrow> unat i < dm_len ids" for i :: u64
    unfolding word_less_nat_alt unat_of_nat_u64 [OF len] ..
  have dict: "i < of_nat (dm_len ids) \<Longrightarrow> to_dict ids i = Some (dm_reverse ids ! unat i)" for i
    using lt [of i] by (simp add: to_dict_def dm_len_def)
  have dec: "list_all2 (decodes ids) dense edges" using s by simp
  have dec': "(i, j) \<in> set dense \<Longrightarrow> i < of_nat (dm_len ids) \<and> j < of_nat (dm_len ids)" for i j
    unfolding lt using dec
    by (fastforce simp: dm_len_def list_all2_conv_all_nth decodes_def to_dict_def in_set_conv_nth split: if_splits)
  have "map_prod (\<lambda>i. the (to_dict ids i)) (\<lambda>i. the (to_dict ids i)) e = d" if "decodes ids e d" for e d
    using that by (cases e; cases d) (simp add: decodes_def)
  then have img: "map (map_prod (\<lambda>i. the (to_dict ids i)) (\<lambda>i. the (to_dict ids i))) dense = edges"
    using dec by (intro nth_equalityI) (simp_all add: list_all2_conv_all_nth)
  have inj: "inj_on (\<lambda>i. the (to_dict ids i)) {..<of_nat (dm_len ids)}"
  proof (rule inj_onI)
    fix i j assume "i \<in> {..<of_nat (dm_len ids)}" and "j \<in> {..<of_nat (dm_len ids)}"
      and "the (to_dict ids i) = the (to_dict ids j)"
    then have "dm_reverse ids ! unat i = dm_reverse ids ! unat j" "unat i < dm_len ids" "unat j < dm_len ids"
      using dict lt by auto
    then show "i = j"
      using nth_eq_iff_index_eq [OF d] unfolding dm_len_def word_unat_eq_iff by blast
  qed
  have "(\<lambda>i. the (to_dict ids i)) ` {..<of_nat (dm_len ids)} = set (dm_reverse ids)"
  proof
    show "(\<lambda>i. the (to_dict ids i)) ` {..<of_nat (dm_len ids)} \<subseteq> set (dm_reverse ids)"
      using dict lt by (auto simp: dm_len_def)
    show "set (dm_reverse ids) \<subseteq> (\<lambda>i. the (to_dict ids i)) ` {..<of_nat (dm_len ids)}"
    proof
      fix x assume "x \<in> set (dm_reverse ids)"
      then obtain k where k: "k < dm_len ids" "x = dm_reverse ids ! k"
        by (auto simp: in_set_conv_nth dm_len_def)
      then have "unat (of_nat k :: u64) = k" using len by simp
      then show "x \<in> (\<lambda>i. the (to_dict ids i)) ` {..<of_nat (dm_len ids)}"
        using k dict [of "of_nat k"] lt [of "of_nat k"] by (intro image_eqI [of _ _ "of_nat k"]) auto
    qed
  qed
  then show ?thesis
    unfolding numbered_def using dec' dict inj field arg_cong [OF img, of set] by auto
qed

lemma numbered_decode:
  assumes "numbered edges dense ids n f" and "e \<in> {..<n} \<times> {..<n}"
  shows "decode_pair ids e = Some (map_prod f f e)"
  using assms by (cases e) (simp add: numbered_def decode_pair_def)

lemma numbered_closure:
  assumes "numbered edges dense ids n f"
  shows "map_prod f f ` ((set dense)\<^sup>+) = (set edges)\<^sup>+"
    and "(set dense)\<^sup>+ \<subseteq> {..<n} \<times> {..<n}"
    and "map_prod f f ` {(i, i) | i. i < n} = Id_on (Field (set edges))"
proof -
  have n: "inj_on f {..<n}" "set dense \<subseteq> {..<n} \<times> {..<n}" "map_prod f f ` set dense = set edges"
    "f ` {..<n} = Field (set edges)"
    using assms by (simp_all add: numbered_def)
  show "map_prod f f ` ((set dense)\<^sup>+) = (set edges)\<^sup>+"
    using trancl_map_prod [OF n(1,2)] n(3) by simp
  show "(set dense)\<^sup>+ \<subseteq> {..<n} \<times> {..<n}" by (rule trancl_subset_Sigma [OF n(2)])
  show "map_prod f f ` {(i, i) | i. i < n} = Id_on (Field (set edges))"
    unfolding n(4) [symmetric] by (auto simp: Id_on_def intro!: image_eqI)
qed

section \<open>What a closing operation writes\<close>

lemma write_numbered:
  assumes "numbered edges dense ids n f" and "set es \<subseteq> {..<n} \<times> {..<n}"
  shows "\<exists>ts. set ts = {(s, q, ob). q = p \<and> (s, ob) \<in> map_prod f f ` set es}
    \<and> write_closure p es ids sink k = sink k ts"
proof -
  have "decode_pair ids e = Some (map_prod f f e)" if "e \<in> set es" for e
    using numbered_decode [OF assms(1)] assms(2) that by blast
  then have "t \<in> set (List.map_filter
      (\<lambda>e. case decode_pair ids e of None \<Rightarrow> None | Some (s, ob) \<Rightarrow> Some (s, p, ob)) es)
    \<longleftrightarrow> t \<in> {(s, q, ob). q = p \<and> (s, ob) \<in> map_prod f f ` set es}" for t
    unfolding map_filter_mem by (cases t) (force simp: map_prod_def split: prod.splits)
  then show ?thesis
    unfolding write_closure_def by (intro exI conjI) (rule set_eqI, assumption, rule refl)
qed

text \<open>\<open>writes\<close>: a run that returns, having written the closure once or failed in the library.\<close>

definition writes ::
  "'k triple_sink \<Rightarrow> 'k \<Rightarrow> u64 \<Rightarrow> pair set \<Rightarrow> bool \<Rightarrow> ((fault + u64) \<times> 'k) option \<Rightarrow> bool" where
  "writes sink k p C safe r \<longleftrightarrow>
     (\<exists>ts. set ts = {(s, q, ob). q = p \<and> (s, ob) \<in> C} \<and> r = Some (sink k ts))
     \<or> \<not> safe \<and> (\<exists>c. c \<noteq> 0 \<and> r = Some (Inl (Failed c), k))"

lemma build_matrix_spec:
  assumes laws: "grb_laws g repr" and cap: "card (Field (set edges)) < 2 ^ 64"
  defines "n \<equiv> of_nat (card (Field (set edges)))"
  shows "outcome (\<lambda>(m, ids). \<exists>dense f. numbered edges dense ids n f \<and> bm_repr repr n (set dense) m)
    (infallible g repr n) (build_matrix g edges)"
proof -
  obtain dense ids where ie: "intern_edges edges dm_empty = (dense, ids)"
    by (cases "intern_edges edges dm_empty")
  have len: "dm_len ids = card (Field (set edges))"
    using intern_edges_spec [OF dm_ok_empty, of edges] unfolding ie
    by (simp add: dm_ok_def dm_len_def dm_empty_def Field_def Domain_fst Range_snd flip: distinct_card)
  note num = numbered_intern [OF ie cap, unfolded len, folded n_def]
  have "outcome (bm_repr repr n (set dense)) (infallible g repr n) (from_edges g n dense)"
    by (rule from_edges_spec [OF laws]) (use num in \<open>simp add: numbered_def\<close>)
  then show ?thesis
    unfolding build_matrix_def ie Let_def case_prod_conv len n_def [symmetric]
    by (rule outcome_and_then) (use num in auto)
qed

lemma closing_spec:
  assumes laws: "grb_laws g repr" and cap: "card (Field (set edges)) < 2 ^ 64"
  defines "n \<equiv> of_nat (card (Field (set edges)))"
  assumes cl: "\<And>m E. bm_repr repr n E m \<Longrightarrow> returns (bm_repr repr n (K E)) (infallible g repr n) (cl m)"
    and K: "\<And>dense ids f. numbered edges dense ids n f \<Longrightarrow>
      K (set dense) \<subseteq> {..<n} \<times> {..<n} \<and> map_prod f f ` K (set dense) = C"
  shows "writes sink k p C (infallible g repr n)
    (case build_matrix g edges of Inl e \<Rightarrow> Some (Inl e, k) | Inr (matrix, ids) \<Rightarrow>
        (case cl matrix of None \<Rightarrow> None | Some (Inl e) \<Rightarrow> Some (Inl e, k) | Some (Inr closure) \<Rightarrow>
          (case extract_edges g closure of Inl e \<Rightarrow> Some (Inl e, k) | Inr dense_edges \<Rightarrow>
            Some (write_closure p dense_edges ids sink k))))"
proof (cases "build_matrix g edges")
  case (Inl e)
  then show ?thesis using build_matrix_spec [OF laws cap] by (auto simp: n_def outcome_def writes_def)
next
  case (Inr mi)
  obtain m ids where mi: "mi = (m, ids)" by (cases mi)
  then obtain dense f where num: "numbered edges dense ids n f" and m: "bm_repr repr n (set dense) m"
    using build_matrix_spec [OF laws cap] Inr by (auto simp: n_def)
  obtain r where r: "cl m = Some r" "outcome (bm_repr repr n (K (set dense))) (infallible g repr n) r"
    using cl [OF m] by (auto simp: returns_def)
  show ?thesis
  proof (cases r)
    case (Inl e) then show ?thesis using Inr r mi by (auto simp: outcome_def writes_def)
  next
    case (Inr c)
    then have c: "bm_repr repr n (K (set dense)) c" using r by simp
    have ex: "outcome (\<lambda>es. set es = K (set dense)) (infallible g repr n) (extract_edges g c)"
      by (rule extract_spec [OF laws c])
    show ?thesis
    proof (cases "extract_edges g c")
      case (Inl e)
      then show ?thesis using \<open>build_matrix g edges = Inr mi\<close> r mi Inr ex
        by (auto simp: outcome_def writes_def)
    next
      case (Inr es)
      then have es: "set es = K (set dense)" using ex by simp
      obtain ts where "set ts = {(s, q, ob). q = p \<and> (s, ob) \<in> C}" "write_closure p es ids sink k = sink k ts"
        using write_numbered [OF num, of es p sink k] K [OF num] es by auto
      then show ?thesis using \<open>build_matrix g edges = Inr mi\<close> r mi \<open>r = Inr c\<close> Inr
        by (auto simp: writes_def)
    qed
  qed
qed

section \<open>Properties\<close>

text \<open>C38: Closing a transitive predicate returns; a non-empty batch hands the sink, in one call,
  exactly the transitive closure of the batch under that predicate, and passes on what the sink
  answers; an empty batch leaves the sink alone; otherwise a library call failed, with nothing
  written.\<close>

theorem close_transitive_predicate_exact:
  assumes "grb_laws g repr" and "card (Field (set edges)) < 2 ^ 64"
  shows "close_transitive_predicate g p [] sink k = Some (Inr 0, k)
    \<and> (edges \<noteq> [] \<longrightarrow> writes sink k p ((set edges)\<^sup>+)
         (infallible g repr (of_nat (card (Field (set edges))))) (close_transitive_predicate g p edges sink k))"
proof -
  let ?n = "of_nat (card (Field (set edges)))"
  have "writes sink k p ((set edges)\<^sup>+) (infallible g repr ?n)
    (close_transitive_predicate g p edges sink k)" if "edges \<noteq> []"
    unfolding close_transitive_predicate_def if_not_P [OF that]
    by (rule closing_spec [OF assms, where K = trancl])
      (use transitive_closure_spec [OF assms(1)] numbered_closure in blast)+
  then show ?thesis by (simp add: close_transitive_predicate_def)
qed

definition recording_sink :: "dict_triple set triple_sink" where
  "recording_sink k ts = (Inr (of_nat (card (set ts - k))), k \<union> set ts)"

lemma close_transitive_predicate_exact_witness:
  "grb_laws set_ffi set_repr \<and> (\<exists>n. close_transitive_predicate set_ffi 9 [(10, 20), (20, 30)] recording_sink {}
     = Some (Inr n, {(s, q, ob). q = 9 \<and> (s, ob) \<in> {(10, 20), (20, 30)}\<^sup>+}))"
proof (rule conjI [OF set_laws])
  let ?E = "[(10, 20), (20, 30)] :: pair list"
  have F: "card (Field (set ?E)) = 3" by (simp add: Field_def Domain_fst Range_snd insert_commute)
  have "infallible set_ffi set_repr 3" by (rule set_infallible) (simp add: word_less_nat_alt)
  then have "writes recording_sink {} 9 ((set ?E)\<^sup>+) True (close_transitive_predicate set_ffi 9 ?E recording_sink {})"
    using close_transitive_predicate_exact [OF set_laws, of ?E 9 recording_sink "{}"] unfolding F by simp
  then show "\<exists>n. close_transitive_predicate set_ffi 9 ?E recording_sink {}
     = Some (Inr n, {(s, q, ob). q = 9 \<and> (s, ob) \<in> {(10, 20), (20, 30)}\<^sup>+})"
    unfolding writes_def recording_sink_def by auto
qed

text \<open>Closing the class or the property hierarchy writes, under the same conditions, the
  transitive closure together with the identity on the identifiers the batch mentions.\<close>

theorem close_reflexive_exact:
  assumes "grb_laws g repr" and "card (Field (set edges)) < 2 ^ 64" and "edges \<noteq> []"
  shows "writes sink k p ((set edges)\<^sup>+ \<union> Id_on (Field (set edges)))
      (infallible g repr (of_nat (card (Field (set edges))))) (close_subclass g p edges sink k)
    \<and> close_subproperty g p edges sink k = close_subclass g p edges sink k
    \<and> close_subclass g p [] sink k = Some (Inr 0, k)"
proof -
  let ?n = "of_nat (card (Field (set edges)))"
  have "writes sink k p ((set edges)\<^sup>+ \<union> Id_on (Field (set edges))) (infallible g repr ?n)
    (close_reflexive g p edges sink k)"
    unfolding close_reflexive_def if_not_P [OF assms(3)]
  proof (rule closing_spec [OF assms(1,2), where K = "\<lambda>E. E\<^sup>+ \<union> {(i, i) | i. i < ?n}"])
    fix dense ids f assume num: "numbered edges dense ids ?n f"
    note c = numbered_closure [OF num]
    show "(set dense)\<^sup>+ \<union> {(i, i) | i. i < ?n} \<subseteq> {..<?n} \<times> {..<?n} \<and>
        map_prod f f ` ((set dense)\<^sup>+ \<union> {(i, i) | i. i < ?n}) = (set edges)\<^sup>+ \<union> Id_on (Field (set edges))"
      unfolding image_Un c(1,3) using c(2) by auto
  qed (rule reflexive_transitive_closure_spec [OF assms(1)])
  then show ?thesis by (simp add: close_subclass_def close_subproperty_def close_reflexive_def)
qed

lemma close_reflexive_exact_witness:
  "grb_laws set_ffi set_repr \<and> (\<exists>n. close_subclass set_ffi 9 [(10, 20)] recording_sink {}
     = Some (Inr n, {(s, q, ob). q = 9 \<and> (s, ob) \<in> {(10, 20)}\<^sup>+ \<union> Id_on {10, 20}}))"
proof (rule conjI [OF set_laws])
  let ?E = "[(10, 20)] :: pair list"
  have F: "card (Field (set ?E)) = 2" "Field (set ?E) = {10, 20}"
    by (auto simp: Field_def Domain_fst Range_snd insert_commute)
  have "infallible set_ffi set_repr 2" by (rule set_infallible) (simp add: word_less_nat_alt)
  then have "writes recording_sink {} 9 ((set ?E)\<^sup>+ \<union> Id_on (Field (set ?E))) True (close_subclass set_ffi 9 ?E recording_sink {})"
    using close_reflexive_exact [OF set_laws, of ?E recording_sink "{}" 9] unfolding F(1) by simp
  then show "\<exists>n. close_subclass set_ffi 9 ?E recording_sink {}
     = Some (Inr n, {(s, q, ob). q = 9 \<and> (s, ob) \<in> {(10, 20)}\<^sup>+ \<union> Id_on {10, 20}})"
    unfolding writes_def recording_sink_def F(2) by auto
qed

end
