(* ===== verification/Closure_Interface.thy ===== *)
theory Closure_Interface imports Prelude begin

text \<open>
  The contract between a maintained transitive closure and its clients. A client feeds single
  insertions and retractions and receives, for each, the closure pairs that appeared or
  disappeared; what it may rely on is stated once, as a locale, together with the client-side fact
  the change feed of the program rests on: a mirror that only ever applies these deltas stays
  equal to the transitive closure of the edges currently asserted.
\<close>

datatype 'e edge_op = Ins "'e \<times> 'e" | Del "'e \<times> 'e"

text \<open>The asserted edges after an operation, and a consumer that follows the deltas.\<close>

fun edge_op_base :: "'e edge_op \<Rightarrow> ('e \<times> 'e) set \<Rightarrow> ('e \<times> 'e) set" where
  "edge_op_base (Ins e) R = insert e R"
| "edge_op_base (Del e) R = R - {e}"

fun follow_deltas ::
    "('e \<times> 'e \<Rightarrow> 's \<Rightarrow> ('e \<times> 'e) list \<times> 's) \<Rightarrow> ('e \<times> 'e \<Rightarrow> 's \<Rightarrow> ('e \<times> 'e) list \<times> 's) \<Rightarrow>
     'e edge_op list \<Rightarrow> 's \<Rightarrow> ('e \<times> 'e) set \<Rightarrow> 's \<times> ('e \<times> 'e) set" where
  "follow_deltas ins del [] s mirror = (s, mirror)"
| "follow_deltas ins del (Ins e # ops) s mirror =
     (let (d, s') = ins e s in follow_deltas ins del ops s' (mirror \<union> set d))"
| "follow_deltas ins del (Del e # ops) s mirror =
     (let (d, s') = del e s in follow_deltas ins del ops s' (mirror - set d))"

locale closure_engine =
  fixes ins :: "'e \<times> 'e \<Rightarrow> 's \<Rightarrow> ('e \<times> 'e) list \<times> 's"
    and del :: "'e \<times> 'e \<Rightarrow> 's \<Rightarrow> ('e \<times> 'e) list \<times> 's"
    and base_of :: "'s \<Rightarrow> ('e \<times> 'e) set"
    and closed_of :: "'s \<Rightarrow> ('e \<times> 'e) set"
    and ok :: "'s \<Rightarrow> bool"
  assumes ok_closed: "ok s \<Longrightarrow> closed_of s = (base_of s)\<^sup>+"
    and ok_ins: "ok s \<Longrightarrow> ok (snd (ins e s))"
    and base_ins: "ok s \<Longrightarrow> base_of (snd (ins e s)) = insert e (base_of s)"
    and delta_ins: "ok s \<Longrightarrow> set (fst (ins e s)) = closed_of (snd (ins e s)) - closed_of s"
    and ok_del: "ok s \<Longrightarrow> ok (snd (del e s))"
    and base_del: "ok s \<Longrightarrow> base_of (snd (del e s)) = base_of s - {e}"
    and delta_del: "ok s \<Longrightarrow> set (fst (del e s)) = closed_of s - closed_of (snd (del e s))"
begin

lemma closed_ins_mono: "ok s \<Longrightarrow> closed_of s \<subseteq> closed_of (snd (ins e s))"
  by (simp add: ok_closed ok_ins base_ins trancl_mono_subset subset_insertI)

lemma closed_del_mono: "ok s \<Longrightarrow> closed_of (snd (del e s)) \<subseteq> closed_of s"
  by (simp add: ok_closed ok_del base_del trancl_Diff_subset)

lemma follow_deltas_spec:
  assumes "ok s" and "mirror = closed_of s"
  shows "ok (fst (follow_deltas ins del ops s mirror))
    \<and> base_of (fst (follow_deltas ins del ops s mirror)) = fold edge_op_base ops (base_of s)
    \<and> snd (follow_deltas ins del ops s mirror) = closed_of (fst (follow_deltas ins del ops s mirror))"
  using assms
proof (induction ops arbitrary: s mirror)
  case (Cons op ops)
  show ?case
  proof (cases op)
    case (Ins e)
    have "mirror \<union> set (fst (ins e s)) = closed_of (snd (ins e s))"
      using Cons.prems closed_ins_mono [of s e] by (auto simp: delta_ins)
    with Cons.IH [OF ok_ins [OF Cons.prems(1), of e]] Cons.prems show ?thesis
      by (simp add: Ins base_ins case_prod_beta)
  next
    case (Del e)
    have "mirror - set (fst (del e s)) = closed_of (snd (del e s))"
      using Cons.prems closed_del_mono [of s e] by (auto simp: delta_del)
    with Cons.IH [OF ok_del [OF Cons.prems(1), of e]] Cons.prems show ?thesis
      by (simp add: Del base_del case_prod_beta)
  qed
qed simp

lemma mirror_is_closure:
  "ok s \<Longrightarrow> snd (follow_deltas ins del ops s (closed_of s)) = (fold edge_op_base ops (base_of s))\<^sup>+"
  using follow_deltas_spec [of s "closed_of s" ops] by (simp add: ok_closed)

end

end
