(* ===== verification/Incremental_Closure.thy ===== *)
theory Incremental_Closure imports Closure_Interface begin

text \<open>
  Model of \<^verbatim>\<open>crates/closure/src/closure/incremental.rs\<close>: the strict transitive closure of a
  set of asserted edges, maintained under insertion and retraction of single edges, with both
  retraction algorithms of the source (recomputation of the affected region, and over-deletion
  followed by re-derivation). The central facts: the closed adjacency always equals the transitive
  closure of the asserted base, each operation reports exactly the pairs it added or withdrew, and
  the two retraction algorithms agree.
\<close>

section \<open>State\<close>

datatype delete_strategy = SupportCounting | Recompute

record delete_outcome =
  withdrawn :: "pair list"
  survived :: "pair list"

record itc =
  fwd :: adj
  bwd :: adj
  base :: adj
  bwd_base :: adj
  nnz :: nat
  strategy :: delete_strategy
  last_delete_probes :: nat

definition empty_outcome :: delete_outcome where
  "empty_outcome = \<lparr>withdrawn = [], survived = []\<rparr>"

definition itc_new :: itc where
  "itc_new = \<lparr>fwd = Map.empty, bwd = Map.empty, base = Map.empty, bwd_base = Map.empty,
     nnz = 0, strategy = SupportCounting, last_delete_probes = 0\<rparr>"

definition set_delete_strategy :: "delete_strategy \<Rightarrow> itc \<Rightarrow> itc" where
  "set_delete_strategy st c = c\<lparr>strategy := st\<rparr>"

text \<open>The relations a state stands for: the closed pairs and the asserted edges.\<close>

abbreviation closed :: "itc \<Rightarrow> pair set" where
  "closed c \<equiv> rel_of (fwd c)"

abbreviation asserted :: "itc \<Rightarrow> pair set" where
  "asserted c \<equiv> rel_of (base c)"

section \<open>Operations\<close>

definition neighbors :: "u64 iter_order \<Rightarrow> adj \<Rightarrow> u64 \<Rightarrow> u64 list" where
  "neighbors h m n = (case m n of None \<Rightarrow> [] | Some S \<Rightarrow> iter h S)"

definition map_edges :: "u64 iter_order \<Rightarrow> adj \<Rightarrow> pair list" where
  "map_edges h m = concat (map (\<lambda>s. map (Pair s) (iter h (nbrs m s))) (iter h (dom m)))"

definition base_edges :: "u64 iter_order \<Rightarrow> itc \<Rightarrow> pair list" where
  "base_edges h c = map_edges h (base c)"

definition base_predecessors :: "u64 iter_order \<Rightarrow> itc \<Rightarrow> u64 \<Rightarrow> u64 list" where
  "base_predecessors h c n = neighbors h (bwd_base c) n"

definition edges :: "u64 iter_order \<Rightarrow> itc \<Rightarrow> pair list" where
  "edges h c = map_edges h (fwd c)"

definition itc_is_empty :: "itc \<Rightarrow> bool" where
  "itc_is_empty c \<longleftrightarrow> nnz c = 0"

text \<open>
  \<open>add_closed\<close> and \<open>drop_closed\<close> keep the two closed adjacencies and the counter in step;
  the \<open>bool\<close> of the former is the one \<^verbatim>\<open>HashSet::insert\<close> returns.
\<close>

definition add_closed :: "u64 \<Rightarrow> u64 \<Rightarrow> itc \<Rightarrow> itc" where
  "add_closed x y c =
     (if adj_mem (fwd c) x y then c\<lparr>fwd := adj_insert x y (fwd c)\<rparr>
      else c\<lparr>fwd := adj_insert x y (fwd c), bwd := adj_insert y x (bwd c), nnz := nnz c + 1\<rparr>)"

definition drop_closed :: "u64 \<Rightarrow> u64 \<Rightarrow> itc \<Rightarrow> itc" where
  "drop_closed x y c =
     (if adj_mem (fwd c) x y
      then c\<lparr>fwd := adj_remove x y (fwd c), bwd := adj_remove y x (bwd c), nnz := nnz c - 1\<rparr>
      else c)"

text \<open>The double loop of \<^verbatim>\<open>insert_edge_tracked\<close>, over the product of its two vectors.\<close>

fun insert_pairs :: "pair list \<Rightarrow> itc \<Rightarrow> pair list \<times> itc" where
  "insert_pairs [] c = ([], c)"
| "insert_pairs ((x, y) # ps) c =
     (let new = \<not> adj_mem (fwd c) x y; (d, c') = insert_pairs ps (add_closed x y c)
      in ((if new then [(x, y)] else []) @ d, c'))"

definition add_base :: "u64 \<Rightarrow> u64 \<Rightarrow> itc \<Rightarrow> bool \<times> itc" where
  "add_base s d c =
     (let new = \<not> adj_mem (base c) s d; c1 = c\<lparr>base := adj_insert s d (base c)\<rparr>
      in (new, if new then c1\<lparr>bwd_base := adj_insert d s (bwd_base c1)\<rparr> else c1))"

definition insert_edge_tracked ::
    "u64 iter_order \<Rightarrow> u64 \<Rightarrow> u64 \<Rightarrow> itc \<Rightarrow> pair list \<times> bool \<times> itc" where
  "insert_edge_tracked h s d c =
     (let (new, c1) = add_base s d c;
          b = neighbors h (bwd c1) s @ [s];
          f = neighbors h (fwd c1) d @ [d];
          (delta, c2) = insert_pairs (List.product b f) c1
      in (delta, new, c2))"

definition insert_edge :: "u64 iter_order \<Rightarrow> u64 \<Rightarrow> u64 \<Rightarrow> itc \<Rightarrow> pair list \<times> itc" where
  "insert_edge h s d c = (let (delta, _, c') = insert_edge_tracked h s d c in (delta, c'))"

fun insert_edges :: "u64 iter_order \<Rightarrow> pair list \<Rightarrow> itc \<Rightarrow> pair list \<times> itc" where
  "insert_edges h [] c = ([], c)"
| "insert_edges h ((s, d) # es) c =
     (let (d1, c1) = insert_edge h s d c; (d2, c2) = insert_edges h es c1 in (d1 @ d2, c2))"

fun from_base_fold :: "u64 iter_order \<Rightarrow> pair list \<Rightarrow> itc \<Rightarrow> itc" where
  "from_base_fold h [] c = c"
| "from_base_fold h ((s, d) # es) c = from_base_fold h es (snd (insert_edge h s d c))"

definition from_base_edges :: "u64 iter_order \<Rightarrow> pair list \<Rightarrow> itc" where
  "from_base_edges h es = from_base_fold h es itc_new"

fun from_closed_fold :: "pair list \<Rightarrow> itc \<Rightarrow> itc" where
  "from_closed_fold [] c = c"
| "from_closed_fold ((s, d) # es) c =
     (let c1 = add_closed s d c;
          c2 = c1\<lparr>base := adj_insert s d (base c1), bwd_base := adj_insert d s (bwd_base c1)\<rparr>
      in from_closed_fold es c2)"

definition from_closed_edges :: "pair list \<Rightarrow> itc" where
  "from_closed_edges es = from_closed_fold es itc_new"

fun rollback_base_edges :: "pair list \<Rightarrow> itc \<Rightarrow> itc" where
  "rollback_base_edges [] c = c"
| "rollback_base_edges ((s, d) # es) c =
     rollback_base_edges es
       (c\<lparr>base := adj_prune s (adj_remove s d (base c)),
          bwd_base := adj_prune d (adj_remove d s (bwd_base c))\<rparr>)"

fun rollback_inserted :: "pair list \<Rightarrow> itc \<Rightarrow> itc" where
  "rollback_inserted [] c = c"
| "rollback_inserted ((x, y) # es) c = rollback_inserted es (drop_closed x y c)"

text \<open>
  Depth-first reachability over the base. The stack's head is the end of the source's vector, so
  pushing a run of elements puts them in front in reverse.
\<close>

function base_reach_loop :: "u64 iter_order \<Rightarrow> adj \<Rightarrow> u64 list \<Rightarrow> u64 set \<Rightarrow> u64 set" where
  "base_reach_loop h m [] reached = reached"
| "base_reach_loop h m (n # stack) reached =
     (if n \<in> reached then base_reach_loop h m stack reached
      else base_reach_loop h m
             (rev (filter (\<lambda>k. k \<notin> insert n reached) (neighbors h m n)) @ stack)
             (insert n reached))"
  by pat_completeness auto
termination
  by (relation "measures [\<lambda>(h, m, stack, reached). card (- reached),
                          \<lambda>(h, m, stack, reached). length stack]")
     (auto simp: card_Compl_insert)

definition base_reach :: "u64 iter_order \<Rightarrow> itc \<Rightarrow> u64 \<Rightarrow> u64 set" where
  "base_reach h c start = base_reach_loop h (base c) (rev (neighbors h (base c) start)) {}"

definition remove_base_edge :: "u64 \<Rightarrow> u64 \<Rightarrow> itc \<Rightarrow> bool \<times> itc" where
  "remove_base_edge s d c =
     (if \<not> adj_mem (base c) s d then (False, c)
      else (True, c\<lparr>base := adj_prune s (adj_remove s d (base c)),
                    bwd_base := adj_prune d (adj_remove d s (bwd_base c))\<rparr>))"

fun drop_all :: "pair list \<Rightarrow> itc \<Rightarrow> itc" where
  "drop_all [] c = c"
| "drop_all ((x, y) # ps) c = drop_all ps (drop_closed x y c)"

definition still_closed :: "itc \<Rightarrow> u64 \<Rightarrow> u64 \<Rightarrow> pair list" where
  "still_closed c s d = (if adj_mem (fwd c) s d then [(s, d)] else [])"

text \<open>Retraction by recomputing the reachability of every affected source.\<close>

definition delete_edge_recompute ::
    "u64 iter_order \<Rightarrow> u64 \<Rightarrow> u64 \<Rightarrow> itc \<Rightarrow> delete_outcome \<times> itc" where
  "delete_edge_recompute h s d c =
     (let (was_base, c1) = remove_base_edge s d c
      in if \<not> was_base then (empty_outcome, c1)
         else
           let sources = insert s (nbrs (bwd c1) s);
               targets = insert d (nbrs (fwd c1) d);
               lost = concat (map (\<lambda>x.
                 let candidates = filter (\<lambda>y. y \<in> targets) (neighbors h (fwd c1) x)
                 in if candidates = [] then []
                    else let reach = base_reach h c1 x
                         in map (Pair x) (filter (\<lambda>y. y \<notin> reach) candidates))
                 (iter h sources));
               c2 = drop_all lost c1
           in (\<lparr>withdrawn = lost, survived = still_closed c2 s d\<rparr>, c2))"

definition support :: "u64 iter_order \<Rightarrow> itc \<Rightarrow> u64 \<Rightarrow> u64 \<Rightarrow> nat" where
  "support h c x y =
     (case base c x of None \<Rightarrow> 0
      | Some outs \<Rightarrow> length (filter (\<lambda>z. z = y \<or> adj_mem (fwd c) z y) (iter h outs)))"

text \<open>
  The over-deletion worklist. A pair is visited once; a visited pair that is closed is dropped,
  recorded, and its base predecessors are queued.
\<close>

function over_delete ::
    "u64 iter_order \<Rightarrow> pair list \<Rightarrow> pair set \<Rightarrow> pair list \<Rightarrow> itc \<Rightarrow> pair list \<times> itc" where
  "over_delete h [] affected over c = (over, c)"
| "over_delete h ((x, y) # queue) affected over c =
     (if (x, y) \<in> affected then over_delete h queue affected over c
      else if \<not> adj_mem (fwd c) x y then over_delete h queue (insert (x, y) affected) over c
      else
        let c1 = c\<lparr>last_delete_probes := last_delete_probes c + 1\<rparr>;
            c2 = drop_closed x y c1
        in over_delete h (rev (map (\<lambda>w. (w, y)) (neighbors h (bwd_base c2) x)) @ queue)
             (insert (x, y) affected) (over @ [(x, y)]) c2)"
  by pat_completeness auto
termination
  by (relation "measures [\<lambda>(h, queue, affected, over, c). card (- affected),
                          \<lambda>(h, queue, affected, over, c). length queue]")
     (auto simp: card_Compl_insert)

text \<open>The re-derivation worklist: a pair with support comes back and wakes its predecessors.\<close>

function rederive :: "u64 iter_order \<Rightarrow> pair list \<Rightarrow> itc \<Rightarrow> itc" where
  "rederive h [] c = c"
| "rederive h ((x, y) # queue) c =
     (if adj_mem (fwd c) x y then rederive h queue c
      else
        let c1 = c\<lparr>last_delete_probes := last_delete_probes c + 1\<rparr>
        in if support h c1 x y \<ge> 1
           then let c2 = add_closed x y c1
                in rederive h (rev (map (\<lambda>w. (w, y)) (neighbors h (bwd_base c2) x)) @ queue) c2
           else rederive h queue c1)"
  by pat_completeness auto
termination
  by (relation "measures [\<lambda>(h, queue, c). card (- rel_of (fwd c)),
                          \<lambda>(h, queue, c). length queue]")
     (auto simp: card_Compl_insert adj_simps add_closed_def)

definition delete_edge_support_counting ::
    "u64 iter_order \<Rightarrow> u64 \<Rightarrow> u64 \<Rightarrow> itc \<Rightarrow> delete_outcome \<times> itc" where
  "delete_edge_support_counting h s d c =
     (let (was_base, c1) = remove_base_edge s d c
      in if \<not> was_base then (empty_outcome, c1)
         else
           let targets = insert d (nbrs (fwd c1) d);
               queue = rev (map (Pair s) (iter h targets));
               (over, c2) = over_delete h queue {} [] c1;
               c3 = rederive h (rev over) c2;
               lost = filter (\<lambda>(x, y). \<not> adj_mem (fwd c3) x y) over
           in (\<lparr>withdrawn = lost, survived = still_closed c3 s d\<rparr>, c3))"

definition delete_edge :: "u64 iter_order \<Rightarrow> u64 \<Rightarrow> u64 \<Rightarrow> itc \<Rightarrow> delete_outcome \<times> itc" where
  "delete_edge h s d c =
     (let c0 = c\<lparr>last_delete_probes := 0\<rparr>
      in case strategy c0 of
           SupportCounting \<Rightarrow> delete_edge_support_counting h s d c0
         | Recompute \<Rightarrow> delete_edge_recompute h s d c0)"

fun delete_fold ::
    "u64 iter_order \<Rightarrow> pair list \<Rightarrow> delete_outcome \<Rightarrow> itc \<Rightarrow> delete_outcome \<times> itc" where
  "delete_fold h [] out c = (out, c)"
| "delete_fold h ((s, d) # es) out c =
     (let (one, c1) = delete_edge h s d c
      in delete_fold h es \<lparr>withdrawn = withdrawn out @ withdrawn one,
                           survived = survived out @ survived one\<rparr> c1)"

definition delete_edges :: "u64 iter_order \<Rightarrow> pair list \<Rightarrow> itc \<Rightarrow> delete_outcome \<times> itc" where
  "delete_edges h es c =
     (let (out, c1) = delete_fold h es empty_outcome c
      in (out\<lparr>survived := filter (\<lambda>(s, d). adj_mem (fwd c1) s d) (survived out)\<rparr>, c1))"

section \<open>Consistency of the state\<close>

text \<open>
  The backward maps mirror the forward ones and the counter counts the closed pairs
  (\<open>itc_wf\<close>); on top of that the closed pairs are the transitive closure of the asserted
  edges (\<open>itc_inv\<close>), which is the invariant the source states for the structure.
\<close>

definition itc_wf :: "itc \<Rightarrow> bool" where
  "itc_wf c \<longleftrightarrow> rel_of (bwd c) = (closed c)\<inverse> \<and> rel_of (bwd_base c) = (asserted c)\<inverse>
     \<and> nnz c = card (closed c)"

definition itc_inv :: "itc \<Rightarrow> bool" where
  "itc_inv c \<longleftrightarrow> itc_wf c \<and> closed c = (asserted c)\<^sup>+"

lemma itc_invI: "itc_wf c \<Longrightarrow> closed c = (asserted c)\<^sup>+ \<Longrightarrow> itc_inv c"
  by (simp add: itc_inv_def)

lemma itc_inv_wf: "itc_inv c \<Longrightarrow> itc_wf c"
  by (simp add: itc_inv_def)

lemma itc_inv_closed: "itc_inv c \<Longrightarrow> closed c = (asserted c)\<^sup>+"
  by (simp add: itc_inv_def)

lemma itc_inv_new: "itc_inv itc_new"
  by (simp add: itc_inv_def itc_wf_def itc_new_def)

lemma itc_wf_probes [simp]: "itc_wf (c\<lparr>last_delete_probes := n\<rparr>) \<longleftrightarrow> itc_wf c"
  by (simp add: itc_wf_def)

lemma itc_inv_probes [simp]: "itc_inv (c\<lparr>last_delete_probes := n\<rparr>) \<longleftrightarrow> itc_inv c"
  by (simp add: itc_inv_def)

lemma mem_fwd_iff: "adj_mem (fwd c) x y \<longleftrightarrow> (x, y) \<in> closed c"
  by (simp add: adj_simps)

lemma set_neighbors [simp]: "set (neighbors h m n) = nbrs m n"
  by (simp add: neighbors_def nbrs_def split: option.splits)

lemma distinct_neighbors [simp]: "distinct (neighbors h m n)"
  by (simp add: neighbors_def split: option.splits)

lemma nbrs_bwd: "itc_wf c \<Longrightarrow> x \<in> nbrs (bwd c) y \<longleftrightarrow> (x, y) \<in> closed c"
  by (auto simp: itc_wf_def set_eq_iff adj_simps)

lemma nbrs_bwd_base: "itc_wf c \<Longrightarrow> x \<in> nbrs (bwd_base c) y \<longleftrightarrow> (x, y) \<in> asserted c"
  by (auto simp: itc_wf_def set_eq_iff adj_simps)

section \<open>Primitive updates\<close>

lemma add_closed_simps [simp]:
  "closed (add_closed x y c) = insert (x, y) (closed c)"
  "base (add_closed x y c) = base c"
  "bwd_base (add_closed x y c) = bwd_base c"
  "strategy (add_closed x y c) = strategy c"
  by (auto simp: add_closed_def)

lemma add_closed_wf [simp]: "itc_wf c \<Longrightarrow> itc_wf (add_closed x y c)"
  by (auto simp: itc_wf_def add_closed_def mem_fwd_iff insert_absorb)

lemma drop_closed_simps [simp]:
  "closed (drop_closed x y c) = closed c - {(x, y)}"
  "base (drop_closed x y c) = base c"
  "bwd_base (drop_closed x y c) = bwd_base c"
  "strategy (drop_closed x y c) = strategy c"
  by (auto simp: drop_closed_def adj_simps)

lemma drop_closed_wf [simp]: "itc_wf c \<Longrightarrow> itc_wf (drop_closed x y c)"
  by (auto simp: itc_wf_def drop_closed_def mem_fwd_iff)

lemma drop_all_simps [simp]:
  "closed (drop_all ps c) = closed c - set ps"
  "base (drop_all ps c) = base c"
  "strategy (drop_all ps c) = strategy c"
  by (induction ps c rule: drop_all.induct) auto

lemma drop_all_wf [simp]: "itc_wf c \<Longrightarrow> itc_wf (drop_all ps c)"
  by (induction ps c rule: drop_all.induct) auto

lemma snd_insert_pairs [simp]:
  "closed (snd (insert_pairs ps c)) = closed c \<union> set ps"
  "base (snd (insert_pairs ps c)) = base c"
  "bwd_base (snd (insert_pairs ps c)) = bwd_base c"
  "strategy (snd (insert_pairs ps c)) = strategy c"
  by (induction ps c rule: insert_pairs.induct) (auto simp: case_prod_beta Let_def)

lemma insert_pairs_wf [simp]: "itc_wf c \<Longrightarrow> itc_wf (snd (insert_pairs ps c))"
  by (induction ps c rule: insert_pairs.induct) (auto simp: case_prod_beta Let_def)

lemma set_fst_insert_pairs [simp]: "set (fst (insert_pairs ps c)) = set ps - closed c"
  by (induction ps c rule: insert_pairs.induct)
     (auto simp: case_prod_beta Let_def mem_fwd_iff)

lemma distinct_fst_insert_pairs [simp]: "distinct (fst (insert_pairs ps c))"
  by (induction ps c rule: insert_pairs.induct)
     (auto simp: case_prod_beta Let_def mem_fwd_iff)

lemma remove_base_edge_absent:
  "(s, d) \<notin> asserted c \<Longrightarrow> remove_base_edge s d c = (False, c)"
  by (simp add: remove_base_edge_def adj_simps)

lemma remove_base_edge_present:
  assumes "(s, d) \<in> asserted c"
  obtains c1 where "remove_base_edge s d c = (True, c1)" and "fwd c1 = fwd c"
    and "bwd c1 = bwd c" and "asserted c1 = asserted c - {(s, d)}"
    and "strategy c1 = strategy c" and "itc_wf c \<Longrightarrow> itc_wf c1"
  using assms by (auto simp: remove_base_edge_def adj_simps itc_wf_def)

section \<open>Insertion\<close>

lemma add_base_spec:
  assumes "add_base s d c = (new, c1)" and "itc_wf c"
  shows "fwd c1 = fwd c" and "bwd c1 = bwd c" and "asserted c1 = insert (s, d) (asserted c)"
    and "strategy c1 = strategy c" and "itc_wf c1" and "new \<longleftrightarrow> (s, d) \<notin> asserted c"
  using assms by (auto simp: add_base_def Let_def itc_wf_def adj_simps split: if_splits)

lemma insert_edge_tracked_spec:
  assumes inv: "itc_inv c" and run: "insert_edge_tracked h s d c = (delta, new, c')"
  shows "itc_inv c'" and "asserted c' = insert (s, d) (asserted c)"
    and "strategy c' = strategy c" and "set delta = closed c' - closed c" and "distinct delta"
    and "new \<longleftrightarrow> (s, d) \<notin> asserted c"
proof -
  let ?ps = "\<lambda>c1. List.product (neighbors h (bwd c1) s @ [s]) (neighbors h (fwd c1) d @ [d])"
  obtain c1 where c1: "add_base s d c = (new, c1)"
    and delta: "delta = fst (insert_pairs (?ps c1) c1)" and c': "c' = snd (insert_pairs (?ps c1) c1)"
    using run by (auto simp: insert_edge_tracked_def Let_def split: prod.splits)
  note base = add_base_spec [OF c1 itc_inv_wf [OF inv]]
  have R: "closed c = (asserted c)\<^sup>+" using inv by (rule itc_inv_closed)
  have "set (?ps c1) = {(x, y). (x, s) \<in> (asserted c)\<^sup>* \<and> (d, y) \<in> (asserted c)\<^sup>*}"
    using base nbrs_bwd [OF itc_inv_wf [OF inv]] R
    by (auto simp: rtrancl_eq_or_trancl_iff adj_simps set_eq_iff)
  then have "closed c' = (asserted c')\<^sup>+"
    using base(1,3) R by (auto simp: trancl_insert c')
  then show "itc_inv c'" using base(5) by (simp add: itc_inv_def c')
  show "asserted c' = insert (s, d) (asserted c)" and "strategy c' = strategy c"
    and "set delta = closed c' - closed c" and "distinct delta" and "new \<longleftrightarrow> (s, d) \<notin> asserted c"
    using base by (auto simp: c' delta)
qed

lemma insert_edge_spec:
  assumes inv: "itc_inv c" and run: "insert_edge h s d c = (delta, c')"
  shows "itc_inv c'" and "asserted c' = insert (s, d) (asserted c)"
    and "strategy c' = strategy c" and "set delta = closed c' - closed c" and "distinct delta"
proof -
  obtain new where "insert_edge_tracked h s d c = (delta, new, c')"
    using run by (auto simp: insert_edge_def split: prod.splits)
  note spec = insert_edge_tracked_spec [OF inv this]
  show "itc_inv c'" and "asserted c' = insert (s, d) (asserted c)"
    and "strategy c' = strategy c" and "set delta = closed c' - closed c" and "distinct delta"
    by (fact spec)+
qed

section \<open>Reachability over the base\<close>

text \<open>
  The loop's result contains what it started from, is closed under the edges as soon as every
  marked node's successors are marked or stacked, and holds nothing unreachable.
\<close>

lemma base_reach_loop_mono: "reached \<union> set stack \<subseteq> base_reach_loop h m stack reached"
  by (induction h m stack reached rule: base_reach_loop.induct) auto

lemma base_reach_loop_closed:
  assumes "rel_of m `` reached \<subseteq> reached \<union> set stack"
  shows "rel_of m `` base_reach_loop h m stack reached \<subseteq> base_reach_loop h m stack reached"
  using assms
proof (induction h m stack reached rule: base_reach_loop.induct)
  case (2 h m n stack reached)
  show ?case
  proof (cases "n \<in> reached")
    case True
    with "2.prems" show ?thesis using "2.IH"(1) by auto
  next
    case False
    have "rel_of m `` insert n reached \<subseteq> insert n reached \<union>
        set (rev (filter (\<lambda>k. k \<notin> insert n reached) (neighbors h m n)) @ stack)"
      using "2.prems" by (auto simp: adj_simps)
    with False show ?thesis using "2.IH"(2) by simp
  qed
qed simp

lemma base_reach_loop_sound:
  "base_reach_loop h m stack reached \<subseteq> reached \<union> (rel_of m)\<^sup>* `` set stack"
proof (induction h m stack reached rule: base_reach_loop.induct)
  case (2 h m n stack reached)
  let ?r = "(rel_of m)\<^sup>*"
  show ?case
  proof (cases "n \<in> reached")
    case True
    with "2.IH"(1) [OF True] show ?thesis by auto
  next
    case False
    let ?push = "rev (filter (\<lambda>k. k \<notin> insert n reached) (neighbors h m n)) @ stack"
    have "?r `` set ?push \<subseteq> ?r `` set (n # stack)"
    proof
      fix y assume "y \<in> ?r `` set ?push"
      then obtain k where "(n, k) \<in> rel_of m \<or> k \<in> set stack" and "(k, y) \<in> ?r"
        by (auto simp: nbrs_eq_Image)
      then show "y \<in> ?r `` set (n # stack)"
        by (auto intro: converse_rtrancl_into_rtrancl)
    qed
    moreover have "n \<in> ?r `` set (n # stack)" by auto
    ultimately have sub: "insert n reached \<union> ?r `` set ?push \<subseteq> reached \<union> ?r `` set (n # stack)"
      by blast
    show ?thesis
      unfolding base_reach_loop.simps if_not_P [OF False]
      using "2.IH"(2) [OF False] sub by (rule subset_trans)
  qed
qed simp

lemma base_reach_correct: "base_reach h c x = {y. (x, y) \<in> (asserted c)\<^sup>+}"
proof (intro equalityI subsetI)
  fix y assume "y \<in> base_reach h c x"
  then have "y \<in> (asserted c)\<^sup>* `` nbrs (base c) x"
    using base_reach_loop_sound [of h "base c" "rev (neighbors h (base c) x)" "{}"]
    by (auto simp: base_reach_def)
  then show "y \<in> {y. (x, y) \<in> (asserted c)\<^sup>+}"
    by (auto simp: trancl_unfold_left adj_simps)
next
  fix y assume "y \<in> {y. (x, y) \<in> (asserted c)\<^sup>+}"
  then obtain z where "z \<in> nbrs (base c) x" and "(z, y) \<in> (asserted c)\<^sup>*"
    by (auto simp: trancl_unfold_left adj_simps)
  moreover have "z \<in> base_reach h c x \<Longrightarrow> y \<in> base_reach h c x"
    using \<open>(z, y) \<in> (asserted c)\<^sup>*\<close>
      base_reach_loop_closed [of "base c" "{}" "rev (neighbors h (base c) x)" h]
    by (induction rule: rtrancl_induct) (auto simp: base_reach_def)
  ultimately show "y \<in> base_reach h c x"
    using base_reach_loop_mono [of "{}" "rev (neighbors h (base c) x)" h "base c"]
    by (auto simp: base_reach_def)
qed

section \<open>Retraction by recomputation\<close>

text \<open>
  What a retraction of \<open>(s, d)\<close> has to achieve, for both algorithms: the base loses exactly that
  edge, the closed pairs are again its closure, the withdrawn list enumerates exactly the pairs
  that left, and the survivor is the edge itself when it is still entailed. An edge that was not
  asserted changes nothing.
\<close>

definition retracts :: "u64 \<Rightarrow> u64 \<Rightarrow> itc \<Rightarrow> delete_outcome \<Rightarrow> itc \<Rightarrow> bool" where
  "retracts s d c out c' \<longleftrightarrow>
     itc_inv c' \<and> strategy c' = strategy c \<and> asserted c' = asserted c - {(s, d)} \<and>
     set (withdrawn out) = closed c - closed c' \<and> distinct (withdrawn out) \<and>
     survived out = (if (s, d) \<in> asserted c \<and> (s, d) \<in> closed c' then [(s, d)] else [])"

lemma retracts_absent:
  "itc_inv c \<Longrightarrow> (s, d) \<notin> asserted c \<Longrightarrow> retracts s d c empty_outcome c"
  by (simp add: retracts_def empty_outcome_def)

lemma still_closed_eq: "still_closed c s d = (if (s, d) \<in> closed c then [(s, d)] else [])"
  by (simp add: still_closed_def mem_fwd_iff)

lemma skip_empty: "(if xs = [] then [] else map f (filter P xs)) = map f (filter P xs)"
  by simp

lemma distinct_concat_map_Pair:
  assumes "distinct xs" and "\<And>x. distinct (f x)"
  shows "distinct (concat (map (\<lambda>x. map (Pair x) (f x)) xs))"
  using assms(1)
  by (induction xs) (auto simp: distinct_map inj_on_def assms(2))

lemma delete_edge_recompute_retracts:
  assumes inv: "itc_inv c" and run: "delete_edge_recompute h s d c = (out, c')"
  shows "retracts s d c out c'"
proof (cases "(s, d) \<in> asserted c")
  case False
  then show ?thesis
    using inv run by (auto simp: delete_edge_recompute_def remove_base_edge_absent retracts_absent)
next
  case True
  obtain c1 where rm: "remove_base_edge s d c = (True, c1)" and fb: "fwd c1 = fwd c"
    "bwd c1 = bwd c" and as: "asserted c1 = asserted c - {(s, d)}"
    and st: "strategy c1 = strategy c" and wf: "itc_wf c1"
    by (rule remove_base_edge_present [OF True]) (use itc_inv_wf [OF inv] in blast)
  define lost where "lost = concat (map (\<lambda>x. map (Pair x) (filter (\<lambda>y. y \<notin> base_reach h c1 x)
      (filter (\<lambda>y. y \<in> insert d (nbrs (fwd c) d)) (neighbors h (fwd c) x))))
      (iter h (insert s (nbrs (bwd c) s))))"
  have c': "c' = drop_all lost c1" and out: "out = \<lparr>withdrawn = lost, survived = still_closed c' s d\<rparr>"
    using run unfolding delete_edge_recompute_def Let_def skip_empty
    by (auto simp: rm fb lost_def)
  note R = itc_inv_closed [OF inv]
  have "set lost = {(x, y). (x, s) \<in> (asserted c)\<^sup>* \<and> (d, y) \<in> (asserted c)\<^sup>*
      \<and> (x, y) \<in> closed c \<and> (x, y) \<notin> (asserted c1)\<^sup>+}"
    by (auto simp: lost_def base_reach_correct nbrs_bwd [OF itc_inv_wf [OF inv]]
        rtrancl_eq_or_trancl_iff R [symmetric] adj_simps)
  moreover have "(x, s) \<in> (asserted c)\<^sup>* \<and> (d, y) \<in> (asserted c)\<^sup>*"
    if "(x, y) \<in> closed c" and "(x, y) \<notin> (asserted c1)\<^sup>+" for x y
    using trancl_lost_edge [of x y "asserted c" s d] that rtrancl_mono [of "asserted c1" "asserted c"]
    by (auto simp: R as)
  ultimately have lost: "set lost = closed c - (asserted c1)\<^sup>+" by auto
  have "(asserted c1)\<^sup>+ \<subseteq> closed c" by (simp add: R as trancl_Diff_subset)
  then have cl: "closed c' = (asserted c')\<^sup>+" using lost fb by (auto simp: c')
  have "distinct lost" unfolding lost_def by (rule distinct_concat_map_Pair) auto
  then show ?thesis
    using True cl wf lost as st
    by (auto simp: retracts_def out itc_inv_def still_closed_eq c')
qed

section \<open>Retraction by over-deletion and re-derivation\<close>

lemma support_pos_iff:
  "support h c x y \<ge> 1 \<longleftrightarrow> (\<exists>z. (x, z) \<in> asserted c \<and> (z = y \<or> (z, y) \<in> closed c))"
  by (cases "base c x")
     (auto simp: support_def mem_fwd_iff rel_of_iff [of _ _ "base c"] nbrs_def Suc_le_eq
       filter_empty_conv)

lemma support_probes [simp]: "support h (c\<lparr>last_delete_probes := n\<rparr>) = support h c"
  by (intro ext) (simp add: support_def split: option.split)

text \<open>Over-deletion touches the closed pairs and the probe counter only.\<close>

lemma over_delete_frame [simp]:
  "base (snd (over_delete h queue affected over c)) = base c"
  "bwd_base (snd (over_delete h queue affected over c)) = bwd_base c"
  "strategy (snd (over_delete h queue affected over c)) = strategy c"
  by (induction h queue affected over c rule: over_delete.induct) (auto simp: Let_def)

lemma over_delete_wf [simp]: "itc_wf c \<Longrightarrow> itc_wf (snd (over_delete h queue affected over c))"
  by (induction h queue affected over c rule: over_delete.induct) (auto simp: Let_def)

text \<open>One productive iteration, with the local bindings resolved.\<close>

lemma over_delete_step:
  "(x, y) \<notin> affected \<Longrightarrow> (x, y) \<in> closed c \<Longrightarrow>
   over_delete h ((x, y) # queue) affected over c =
     over_delete h (rev (map (\<lambda>w. (w, y)) (neighbors h (bwd_base c) x)) @ queue)
       (insert (x, y) affected) (over @ [(x, y)])
       (drop_closed x y (c\<lparr>last_delete_probes := last_delete_probes c + 1\<rparr>))"
  by (simp add: Let_def mem_fwd_iff)

lemma over_delete_skip:
  "(x, y) \<in> affected \<Longrightarrow>
     over_delete h ((x, y) # queue) affected over c = over_delete h queue affected over c"
  "(x, y) \<notin> affected \<Longrightarrow> (x, y) \<notin> closed c \<Longrightarrow>
     over_delete h ((x, y) # queue) affected over c =
       over_delete h queue (insert (x, y) affected) over c"
  by (simp_all add: mem_fwd_iff)

lemmas over_delete_cases = over_delete.simps(1) over_delete_skip over_delete_step

text \<open>The loop's induction, along these three cases.\<close>

lemma over_delete_induct [case_names empty seen absent dropped]:
  assumes "\<And>h affected over c. P h [] affected over c"
    and "\<And>h x y queue affected over c. (x, y) \<in> affected \<Longrightarrow> P h queue affected over c \<Longrightarrow>
      P h ((x, y) # queue) affected over c"
    and "\<And>h x y queue affected over c. (x, y) \<notin> affected \<Longrightarrow> (x, y) \<notin> closed c \<Longrightarrow>
      P h queue (insert (x, y) affected) over c \<Longrightarrow> P h ((x, y) # queue) affected over c"
    and "\<And>h x y queue affected over c c2. (x, y) \<notin> affected \<Longrightarrow> (x, y) \<in> closed c \<Longrightarrow>
      c2 = drop_closed x y (c\<lparr>last_delete_probes := last_delete_probes c + 1\<rparr>) \<Longrightarrow>
      P h (rev (map (\<lambda>w. (w, y)) (neighbors h (bwd_base c) x)) @ queue) (insert (x, y) affected)
        (over @ [(x, y)]) c2 \<Longrightarrow> P h ((x, y) # queue) affected over c"
  shows "P h queue affected over c"
proof (induction h queue affected over c rule: over_delete.induct)
  case (1 h affected over c)
  show ?case by (rule assms(1))
next
  case (2 h x y queue affected over c)
  consider "(x, y) \<in> affected" | "(x, y) \<notin> affected" "(x, y) \<notin> closed c"
    | "(x, y) \<notin> affected" "(x, y) \<in> closed c" by blast
  then show ?case
  proof cases
    case 1 then show ?thesis by (rule assms(2)) (rule "2.IH"(1) [OF 1])
  next
    case 2 then show ?thesis using "2.IH"(2) by (intro assms(3)) (auto simp: mem_fwd_iff)
  next
    case 3
    then show ?thesis using "2.IH"(3) [OF _ _ refl refl] assms(4) by (simp add: mem_fwd_iff)
  qed
qed

lemma over_delete_mono: "closed (snd (over_delete h queue affected over c)) \<subseteq> closed c"
  by (induction h queue affected over c rule: over_delete_induct)
     (auto simp: over_delete_cases simp del: over_delete.simps(2))

definition over_pre :: "pair list \<Rightarrow> pair set \<Rightarrow> pair list \<Rightarrow> itc \<Rightarrow> bool" where
  "over_pre queue affected over c \<longleftrightarrow> itc_wf c \<and> distinct over \<and> set over \<subseteq> affected
     \<and> affected \<inter> closed c = {}
     \<and> (\<forall>(x, y) \<in> set over. \<forall>w. (w, x) \<in> asserted c \<longrightarrow> (w, y) \<in> closed c \<longrightarrow> (w, y) \<in> set queue)"

definition over_post :: "pair list \<Rightarrow> pair list \<Rightarrow> itc \<Rightarrow> pair list \<Rightarrow> itc \<Rightarrow> bool" where
  "over_post queue over c over' c' \<longleftrightarrow> distinct over' \<and> set over' \<inter> closed c' = {}
     \<and> closed c' \<union> set over' = closed c \<union> set over \<and> set queue \<inter> closed c' = {}
     \<and> (\<forall>(x, y) \<in> set over'. \<forall>w. (w, x) \<in> asserted c \<longrightarrow> (w, y) \<notin> closed c')"

lemma over_delete_post:
  assumes "over_delete h queue affected over c = (over', c')" and "over_pre queue affected over c"
  shows "over_post queue over c over' c'"
  using assms
proof (induction h queue affected over c rule: over_delete_induct)
  case (empty h affected over c)
  then show ?case by (fastforce simp: over_pre_def over_post_def)
next
  case (seen h x y queue affected over c)
  then have "over_pre queue affected over c" and "(x, y) \<notin> closed c"
    by (fastforce simp: over_pre_def)+
  with seen show ?case
    using over_delete_mono [of h queue affected over c]
    by (auto simp: over_post_def over_delete_cases simp del: over_delete.simps(2))
next
  case (absent h x y queue affected over c)
  then have "over_pre queue (insert (x, y) affected) over c"
    by (fastforce simp: over_pre_def)
  with absent show ?case
    using over_delete_mono [of h queue "insert (x, y) affected" over c]
    by (auto simp: over_post_def over_delete_cases simp del: over_delete.simps(2))
next
  case (dropped h x y queue affected over c c2)
  let ?queue = "rev (map (\<lambda>w. (w, y)) (neighbors h (bwd_base c) x)) @ queue"
  have wf: "itc_wf c" using dropped.prems(2) by (simp add: over_pre_def)
  have c2: "closed c2 = closed c - {(x, y)}" "asserted c2 = asserted c" "itc_wf c2"
    using dropped.hyps(3) wf by simp_all
  have "over_pre ?queue (insert (x, y) affected) (over @ [(x, y)]) c2"
    using dropped.prems(2) dropped.hyps(1,2) c2 by (fastforce simp: over_pre_def nbrs_bwd_base [OF wf])
  moreover have "over_delete h ?queue (insert (x, y) affected) (over @ [(x, y)]) c2 = (over', c')"
    using dropped.prems(1) dropped.hyps by (simp add: over_delete_step del: over_delete.simps)
  ultimately have "over_post ?queue (over @ [(x, y)]) c2 over' c'" and "closed c' \<subseteq> closed c2"
    using dropped.IH over_delete_mono [of h ?queue "insert (x, y) affected" "over @ [(x, y)]" c2]
    by simp_all
  then show ?case using dropped.hyps(2) c2 by (auto simp: over_post_def)
qed

lemma rederive_frame [simp]:
  "base (rederive h queue c) = base c"
  "strategy (rederive h queue c) = strategy c"
  by (induction h queue c rule: rederive.induct) (auto simp: Let_def)

lemma rederive_wf [simp]: "itc_wf c \<Longrightarrow> itc_wf (rederive h queue c)"
  by (induction h queue c rule: rederive.induct) (auto simp: Let_def)

lemma rederive_mono: "closed c \<subseteq> closed (rederive h queue c)"
  by (induction h queue c rule: rederive.induct) (auto simp: Let_def)

text \<open>
  Re-derivation only brings back pairs of any relation that contains the survivors and the base and
  absorbs a base edge in front, and it leaves no pair of the worklist's universe with support.
\<close>

lemma rederive_sound:
  assumes "closed c \<subseteq> T" and "asserted c \<subseteq> T" and "asserted c O T \<subseteq> T"
  shows "closed (rederive h queue c) \<subseteq> T"
  using assms
proof (induction h queue c rule: rederive.induct)
  case (2 h x y queue c)
  have "(x, y) \<in> T" if "support h c x y \<ge> 1"
    using support_pos_iff [THEN iffD1, OF that] "2.prems" by auto
  then show ?case
    using "2.IH" "2.prems" by (simp add: Let_def)
qed simp

definition waiting :: "u64 iter_order \<Rightarrow> pair set \<Rightarrow> pair list \<Rightarrow> itc \<Rightarrow> bool" where
  "waiting h S queue c \<longleftrightarrow> (\<forall>x y. (x, y) \<in> S \<longrightarrow> (x, y) \<in> closed c \<or> (x, y) \<in> set queue \<or> support h c x y = 0)"

lemma rederive_complete:
  "itc_wf c \<Longrightarrow> waiting h S queue c \<Longrightarrow> waiting h S [] (rederive h queue c)"
proof (induction h queue c rule: rederive.induct)
  case (2 h x y queue c)
  let ?c1 = "c\<lparr>last_delete_probes := last_delete_probes c + 1\<rparr>"
  let ?c2 = "add_closed x y ?c1"
  let ?queue = "rev (map (\<lambda>w. (w, y)) (neighbors h (bwd_base ?c2) x)) @ queue"
  consider "(x, y) \<in> closed c" | "(x, y) \<notin> closed c" "support h c x y = 0"
    | "(x, y) \<notin> closed c" "support h c x y \<ge> 1" by linarith
  then show ?case
  proof cases
    case 1
    then have "waiting h S queue c" using "2.prems" by (fastforce simp: waiting_def)
    with 1 show ?thesis using "2.IH"(1) "2.prems" by (simp add: mem_fwd_iff)
  next
    case 2
    then have "waiting h S queue ?c1" using "2.prems" by (fastforce simp: waiting_def)
    with 2 show ?thesis using "2.IH"(3) "2.prems" by (simp add: mem_fwd_iff Let_def)
  next
    case 3
    have "(a, b) \<in> closed ?c2 \<or> (a, b) \<in> set ?queue \<or> support h ?c2 a b = 0"
      if "(a, b) \<in> S" for a b
    proof (rule disjCI)
      assume "\<not> ((a, b) \<in> set ?queue \<or> support h ?c2 a b = 0)"
      then have new: "\<not> support h ?c2 a b = 0" "(a, b) \<notin> set ?queue" by simp_all
      show "(a, b) \<in> closed ?c2"
      proof (rule ccontr)
        assume "(a, b) \<notin> closed ?c2"
        then have "(a, b) \<notin> closed c" and "(a, b) \<noteq> (x, y)" by simp_all
        with that "2.prems"(2) new have "support h c a b = 0" by (auto simp: waiting_def)
        moreover have "\<not> (b = y \<and> (a, x) \<in> asserted c)"
          using new by (auto simp: nbrs_bwd_base [OF "2.prems"(1)])
        ultimately show False
          using new support_pos_iff [of h c a b] support_pos_iff [of h ?c2 a b] by auto
      qed
    qed
    then have "waiting h S ?queue ?c2" unfolding waiting_def by blast
    with 3 show ?thesis using "2.IH"(2) "2.prems" by (simp add: mem_fwd_iff Let_def)
  qed
qed simp

text \<open>
  After over-deletion the survivors are exactly closed pairs that need not use the lost edge: a
  pair that does use it starts with a path to \<open>s\<close> that avoids the edge, along which the cascade
  walks back.
\<close>

lemma over_delete_survivors:
  assumes post: "over_post queue [] c over c'" and wf: "itc_wf c" and R: "closed c = R\<^sup>+"
    and as: "asserted c = R - {(s, d)}" and seeds: "\<And>y. (d, y) \<in> R\<^sup>* \<Longrightarrow> (s, y) \<in> set queue"
    and e: "(s, d) \<in> R"
  shows "closed c' \<subseteq> (asserted c)\<^sup>+"
proof (clarify)
  fix x y assume xy: "(x, y) \<in> closed c'"
  show "(x, y) \<in> (asserted c)\<^sup>+"
  proof (rule ccontr)
    assume lost: "(x, y) \<notin> (asserted c)\<^sup>+"
    have sub: "closed c' \<subseteq> R\<^sup>+" using post R by (auto simp: over_post_def)
    then have path: "(x, s) \<in> (asserted c)\<^sup>*" and tail: "(d, y) \<in> (asserted c)\<^sup>*"
      using trancl_lost_edge [of x y R s d] xy lost by (auto simp: as)
    from tail have tail': "(d, y) \<in> R\<^sup>*" using as rtrancl_mono [of "asserted c" R] by auto
    from path have "(x, y) \<notin> closed c'"
    proof (induction rule: converse_rtrancl_induct)
      case base
      show ?case using seeds [OF tail'] post by (auto simp: over_post_def)
    next
      case (step w z)
      have "(z, s) \<in> R\<^sup>*" using step.hyps(2) as rtrancl_mono [of "asserted c" R] by auto
      then have "(z, y) \<in> R\<^sup>+" using e tail' by (meson rtrancl_into_trancl1 rtrancl_into_trancl2 trancl_rtrancl_trancl rtrancl_trancl_trancl)
      then have "(z, y) \<in> set over"
        using step.IH post R by (auto simp: over_post_def)
      then show ?case using step.hyps(1) post by (auto simp: over_post_def)
    qed
    with xy show False by simp
  qed
qed

lemma trancl_absorb: "r O r\<^sup>+ \<subseteq> r\<^sup>+" "r \<subseteq> r\<^sup>+"
  by (auto intro: trancl_into_trancl2)

lemma rederive_restores:
  assumes wf: "itc_wf c" and sub: "closed c \<subseteq> (asserted c)\<^sup>+"
    and lost: "(asserted c)\<^sup>+ \<subseteq> closed c \<union> set over"
  shows "closed (rederive h (rev over) c) = (asserted c)\<^sup>+"
proof
  let ?c' = "rederive h (rev over) c"
  show "closed ?c' \<subseteq> (asserted c)\<^sup>+"
    using sub by (rule rederive_sound) (rule trancl_absorb)+
  have "waiting h (set over) (rev over) c" by (auto simp: waiting_def)
  then have fin: "waiting h (set over) [] ?c'" using wf by (rule rederive_complete [rotated])
  have sup: "(x, y) \<in> closed ?c'"
    if xy: "(x, y) \<in> (asserted c)\<^sup>+" and z: "(x, z) \<in> asserted c" "z = y \<or> (z, y) \<in> closed ?c'"
    for x y z
  proof (rule ccontr)
    assume "(x, y) \<notin> closed ?c'"
    moreover from this have "(x, y) \<in> set over" using xy lost rederive_mono by blast
    ultimately have "support h ?c' x y = 0" using fin by (auto simp: waiting_def)
    then show False using support_pos_iff [of h ?c' x y] z by auto
  qed
  show "(asserted c)\<^sup>+ \<subseteq> closed ?c'"
  proof (clarify)
    fix x y assume "(x, y) \<in> (asserted c)\<^sup>+"
    then show "(x, y) \<in> closed ?c'"
    proof (induction rule: converse_trancl_induct)
      case (base x)
      then show ?case by (intro sup [of x y y]) auto
    next
      case (step x z)
      then show ?case by (intro sup [of x y z]) (auto intro: trancl_into_trancl2)
    qed
  qed
qed

lemma delete_edge_support_counting_retracts:
  assumes inv: "itc_inv c" and run: "delete_edge_support_counting h s d c = (out, c')"
  shows "retracts s d c out c'"
proof (cases "(s, d) \<in> asserted c")
  case False
  then show ?thesis
    using inv run
    by (auto simp: delete_edge_support_counting_def remove_base_edge_absent retracts_absent)
next
  case True
  obtain c1 where rm: "remove_base_edge s d c = (True, c1)" and fb: "fwd c1 = fwd c"
    "bwd c1 = bwd c" and as: "asserted c1 = asserted c - {(s, d)}"
    and st: "strategy c1 = strategy c" and wf: "itc_wf c1"
    by (rule remove_base_edge_present [OF True]) (use itc_inv_wf [OF inv] in blast)
  define queue where "queue = rev (map (Pair s) (iter h (insert d (nbrs (fwd c1) d))))"
  obtain over c2 where od: "over_delete h queue {} [] c1 = (over, c2)" by (cases "over_delete h queue {} [] c1")
  define lost where "lost = filter (\<lambda>(x, y). \<not> adj_mem (fwd c') x y) over"
  have c': "c' = rederive h (rev over) c2"
    and out: "out = \<lparr>withdrawn = lost, survived = still_closed c' s d\<rparr>"
    using run by (auto simp: delete_edge_support_counting_def Let_def rm queue_def [symmetric] od lost_def)
  note R = itc_inv_closed [OF inv]
  have c2: "base c2 = base c1" "strategy c2 = strategy c1" "itc_wf c2"
    using over_delete_frame [of h queue "{}" "[]" c1] over_delete_wf [OF wf, of h queue "{}" "[]"] od
    by simp_all
  have post: "over_post queue [] c1 over c2"
    using od by (rule over_delete_post) (simp add: over_pre_def wf)
  have seeds: "(s, y) \<in> set queue" if "(d, y) \<in> (asserted c)\<^sup>*" for y
    using that by (auto simp: queue_def fb rtrancl_eq_or_trancl_iff R [symmetric] adj_simps)
  have surv: "closed c2 \<subseteq> (asserted c1)\<^sup>+"
    using over_delete_survivors [OF post wf _ as seeds True] R fb by simp
  have full: "closed c = closed c2 \<union> set over" and dist: "distinct over"
    using post fb by (auto simp: over_post_def)
  have sub: "(asserted c1)\<^sup>+ \<subseteq> closed c" by (simp add: R as trancl_Diff_subset)
  have cl: "closed c' = (asserted c1)\<^sup>+"
    using rederive_restores [of c2 over h] c2 surv sub full by (simp add: c')
  have "set lost = closed c - closed c'"
    using full surv cl by (auto simp: lost_def mem_fwd_iff)
  moreover have "itc_inv c'" using c2 cl by (simp add: itc_inv_def c')
  ultimately show ?thesis
    using dist True c2 st as by (simp add: retracts_def out still_closed_eq c' lost_def)
qed

section \<open>Retraction, either strategy\<close>

lemma delete_edge_retracts:
  assumes "itc_inv c" and "delete_edge h s d c = (out, c')"
  shows "retracts s d c out c'"
proof -
  let ?c0 = "c\<lparr>last_delete_probes := 0\<rparr>"
  have "itc_inv ?c0" using assms(1) by simp
  then have "retracts s d ?c0 out c'"
    using assms(2) delete_edge_support_counting_retracts delete_edge_recompute_retracts
    by (auto simp: delete_edge_def Let_def split: delete_strategy.splits)
  then show ?thesis by (simp add: retracts_def)
qed

lemma retracts_unique:
  assumes "retracts s d c out1 c1" and "retracts s d c out2 c2"
  shows "closed c1 = closed c2" and "asserted c1 = asserted c2"
    and "set (withdrawn out1) = set (withdrawn out2)" and "survived out1 = survived out2"
proof -
  show as: "asserted c1 = asserted c2" using assms by (simp add: retracts_def)
  with assms show cl: "closed c1 = closed c2"
    by (auto simp: retracts_def dest!: itc_inv_closed)
  with assms show "set (withdrawn out1) = set (withdrawn out2)" and "survived out1 = survived out2"
    by (simp_all add: retracts_def)
qed

section \<open>Batches\<close>

lemma delete_fold_spec:
  assumes "itc_inv c" and "delete_fold h es out c = (out', c')"
    and "set (withdrawn out) \<inter> closed c = {}" and "distinct (withdrawn out)"
  shows "itc_inv c' \<and> strategy c' = strategy c \<and> asserted c' = asserted c - set es \<and>
    set (withdrawn out') = set (withdrawn out) \<union> (closed c - closed c') \<and>
    distinct (withdrawn out') \<and> closed c' \<subseteq> closed c \<and>
    set (survived out) \<subseteq> set (survived out') \<and>
    set (survived out') \<subseteq> set (survived out) \<union> (set es \<inter> asserted c) \<and>
    (\<forall>e \<in> set es \<inter> asserted c \<inter> closed c'. e \<in> set (survived out'))"
  using assms
proof (induction h es out c rule: delete_fold.induct)
  case (2 h s d es out c)
  obtain one c1 where del: "delete_edge h s d c = (one, c1)" by (cases "delete_edge h s d c")
  let ?out = "\<lparr>withdrawn = withdrawn out @ withdrawn one, survived = survived out @ survived one\<rparr>"
  have r: "retracts s d c one c1" using "2.prems"(1) del by (rule delete_edge_retracts)
  then have c1: "itc_inv c1" "asserted c1 = asserted c - {(s, d)}" "strategy c1 = strategy c"
    "set (withdrawn one) = closed c - closed c1" "distinct (withdrawn one)"
    "survived one = (if (s, d) \<in> asserted c \<and> (s, d) \<in> closed c1 then [(s, d)] else [])"
    by (simp_all add: retracts_def)
  have mono: "closed c1 \<subseteq> closed c"
    using itc_inv_closed [OF c1(1)] itc_inv_closed [OF "2.prems"(1)] trancl_Diff_subset
    by (simp add: c1(2))
  have step: "delete_fold h es ?out c1 = (out', c')" using "2.prems"(2) del by simp
  have "set (withdrawn ?out) \<inter> closed c1 = {}" and "distinct (withdrawn ?out)"
    using "2.prems"(3,4) c1(4,5) mono by auto
  from "2.IH" [OF refl, unfolded del, OF refl] c1(1) step this
  have IH: "itc_inv c' \<and> strategy c' = strategy c1 \<and> asserted c' = asserted c1 - set es \<and>
    set (withdrawn out') = set (withdrawn ?out) \<union> (closed c1 - closed c') \<and>
    distinct (withdrawn out') \<and> closed c' \<subseteq> closed c1 \<and>
    set (survived ?out) \<subseteq> set (survived out') \<and>
    set (survived out') \<subseteq> set (survived ?out) \<union> (set es \<inter> asserted c1) \<and>
    (\<forall>e \<in> set es \<inter> asserted c1 \<inter> closed c'. e \<in> set (survived out'))"
    by (simp add: del)
  then show ?case using c1 mono by (auto split: if_splits)
qed auto

text \<open>
  A batch retraction: the survivors are the deleted edges that are still entailed at the very end,
  whatever earlier steps of the batch reported.
\<close>

lemma delete_edges_spec:
  assumes inv: "itc_inv c" and run: "delete_edges h es c = (out, c')"
  shows "itc_inv c'" and "asserted c' = asserted c - set es" and "strategy c' = strategy c"
    and "set (withdrawn out) = closed c - closed c'" and "distinct (withdrawn out)"
    and "set (survived out) = set es \<inter> asserted c \<inter> closed c'"
proof -
  obtain out1 where fold: "delete_fold h es empty_outcome c = (out1, c')"
    and out: "out = out1\<lparr>survived := filter (\<lambda>(s, d). adj_mem (fwd c') s d) (survived out1)\<rparr>"
    using run by (auto simp: delete_edges_def split: prod.splits)
  note spec = delete_fold_spec [OF inv fold]
  then show "itc_inv c'" and "asserted c' = asserted c - set es" and "strategy c' = strategy c"
    and "set (withdrawn out) = closed c - closed c'" and "distinct (withdrawn out)"
    and "set (survived out) = set es \<inter> asserted c \<inter> closed c'"
    by (auto simp: out empty_outcome_def mem_fwd_iff)
qed

lemma insert_edges_spec:
  assumes "itc_inv c" and "insert_edges h es c = (delta, c')"
  shows "itc_inv c' \<and> asserted c' = asserted c \<union> set es \<and> closed c \<subseteq> closed c' \<and>
    set delta = closed c' - closed c \<and> distinct delta"
  using assms
proof (induction h es c arbitrary: delta rule: insert_edges.induct)
  case (2 h s d es c)
  obtain d1 c1 where ins: "insert_edge h s d c = (d1, c1)" by (cases "insert_edge h s d c")
  obtain d2 where rest: "insert_edges h es c1 = (d2, c')" and delta: "delta = d1 @ d2"
    using "2.prems"(2) by (auto simp: ins split: prod.splits)
  note s1 = insert_edge_spec [OF "2.prems"(1) ins]
  have "closed c \<subseteq> closed c1"
    using itc_inv_closed [OF s1(1)] itc_inv_closed [OF "2.prems"(1)] s1(2)
      trancl_mono_subset [of "asserted c" "asserted c1"] by auto
  then show ?case using "2.IH" [OF ins [symmetric] refl s1(1) rest] s1 delta by auto
qed simp

lemma from_base_edges_spec:
  "itc_inv (from_base_edges h es) \<and> asserted (from_base_edges h es) = set es"
proof -
  have "itc_inv c \<Longrightarrow> itc_inv (from_base_fold h es c) \<and>
      asserted (from_base_fold h es c) = asserted c \<union> set es" for c
  proof (induction h es c rule: from_base_fold.induct)
    case (2 h s d es c)
    obtain delta c1 where "insert_edge h s d c = (delta, c1)" by (cases "insert_edge h s d c")
    then show ?case using "2.IH" insert_edge_spec [OF "2.prems"] by simp
  qed simp
  from this [OF itc_inv_new] show ?thesis by (simp add: from_base_edges_def itc_new_def)
qed

lemma from_closed_fold_spec:
  "itc_wf c \<Longrightarrow> itc_wf (from_closed_fold es c) \<and> closed (from_closed_fold es c) = closed c \<union> set es \<and>
   asserted (from_closed_fold es c) = asserted c \<union> set es"
proof (induction es c rule: from_closed_fold.induct)
  case (2 s d es c)
  let ?c2 = "(add_closed s d c)\<lparr>base := adj_insert s d (base c), bwd_base := adj_insert d s (bwd_base c)\<rparr>"
  have "itc_wf (add_closed s d c)" using "2.prems" by simp
  then have "itc_wf ?c2" using "2.prems" by (auto simp: itc_wf_def)
  with "2.IH" [OF refl refl] show ?case by (simp add: Let_def)
qed simp

lemma from_closed_edges_spec:
  assumes "trans (set es)"
  shows "itc_inv (from_closed_edges es)" and "asserted (from_closed_edges es) = set es"
proof -
  have "itc_wf itc_new" using itc_inv_new by (rule itc_inv_wf)
  from from_closed_fold_spec [OF this, of es]
  have wf: "itc_wf (from_closed_edges es)" and cl: "closed (from_closed_edges es) = set es"
    and as: "asserted (from_closed_edges es) = set es"
    by (simp_all add: from_closed_edges_def itc_new_def)
  show "itc_inv (from_closed_edges es)"
    using wf by (rule itc_invI) (simp add: cl as trancl_id [OF assms])
  show "asserted (from_closed_edges es) = set es" by (fact as)
qed

text \<open>Rollback of a failed insertion gives back the relations of the state before it.\<close>

lemma rollback_inserted_simps [simp]:
  "closed (rollback_inserted es c) = closed c - set es"
  "base (rollback_inserted es c) = base c"
  "bwd_base (rollback_inserted es c) = bwd_base c"
  "strategy (rollback_inserted es c) = strategy c"
  by (induction es c rule: rollback_inserted.induct) auto

lemma rollback_inserted_wf [simp]: "itc_wf c \<Longrightarrow> itc_wf (rollback_inserted es c)"
  by (induction es c rule: rollback_inserted.induct) auto

lemma rollback_base_edges_simps [simp]:
  "fwd (rollback_base_edges es c) = fwd c"
  "bwd (rollback_base_edges es c) = bwd c"
  "nnz (rollback_base_edges es c) = nnz c"
  "strategy (rollback_base_edges es c) = strategy c"
  "asserted (rollback_base_edges es c) = asserted c - set es"
  "rel_of (bwd_base (rollback_base_edges es c)) = rel_of (bwd_base c) - (set es)\<inverse>"
  by (induction es c rule: rollback_base_edges.induct) auto

lemma rollback_base_edges_wf [simp]: "itc_wf c \<Longrightarrow> itc_wf (rollback_base_edges es c)"
  by (auto simp: itc_wf_def)

section \<open>The interface, and the properties\<close>

text \<open>Retraction as the clients of the interface see it: the withdrawn pairs.\<close>

definition retract_edge :: "u64 iter_order \<Rightarrow> pair \<Rightarrow> itc \<Rightarrow> pair list \<times> itc" where
  "retract_edge h e c = (let (out, c') = delete_edge h (fst e) (snd e) c in (withdrawn out, c'))"

definition assert_edge :: "u64 iter_order \<Rightarrow> pair \<Rightarrow> itc \<Rightarrow> pair list \<times> itc" where
  "assert_edge h e c = insert_edge h (fst e) (snd e) c"

lemma assert_edge_spec:
  assumes "itc_inv c"
  shows "itc_inv (snd (assert_edge h e c))" and "asserted (snd (assert_edge h e c)) = insert e (asserted c)"
    and "set (fst (assert_edge h e c)) = closed (snd (assert_edge h e c)) - closed c"
  using insert_edge_spec [OF assms, of h "fst e" "snd e" "fst (assert_edge h e c)" "snd (assert_edge h e c)"]
  by (simp_all add: assert_edge_def)

lemma retract_edge_spec:
  assumes "itc_inv c"
  shows "itc_inv (snd (retract_edge h e c))" and "asserted (snd (retract_edge h e c)) = asserted c - {e}"
    and "set (fst (retract_edge h e c)) = closed c - closed (snd (retract_edge h e c))"
proof -
  obtain out c' where "delete_edge h (fst e) (snd e) c = (out, c')"
    by (cases "delete_edge h (fst e) (snd e) c")
  with delete_edge_retracts [OF assms this]
  show "itc_inv (snd (retract_edge h e c))" and "asserted (snd (retract_edge h e c)) = asserted c - {e}"
    and "set (fst (retract_edge h e c)) = closed c - closed (snd (retract_edge h e c))"
    by (simp_all add: retracts_def retract_edge_def)
qed

interpretation itc_engine: closure_engine "assert_edge h" "retract_edge h" asserted closed itc_inv
  for h
  by unfold_locales (simp_all add: itc_inv_closed assert_edge_spec retract_edge_spec)

text \<open>Inserting an edge keeps the closure exact and reports each new pair exactly once.\<close>

theorem insert_edge_exact:
  assumes "itc_inv c" and "insert_edge h s d c = (delta, c')"
  shows "itc_inv c' \<and> asserted c' = insert (s, d) (asserted c)
    \<and> closed c' = (insert (s, d) (asserted c))\<^sup>+
    \<and> set delta = (insert (s, d) (asserted c))\<^sup>+ - (asserted c)\<^sup>+ \<and> distinct delta"
  using insert_edge_spec [OF assms] itc_inv_closed assms(1) by (metis itc_inv_closed)

text \<open>C11: both retraction algorithms drop exactly the pairs that lost all support.\<close>

theorem delete_edge_exact:
  assumes "itc_inv c" and "delete_edge h s d c = (out, c')"
  shows "itc_inv c' \<and> asserted c' = asserted c - {(s, d)}
    \<and> closed c' = (asserted c - {(s, d)})\<^sup>+
    \<and> set (withdrawn out) = (asserted c)\<^sup>+ - (asserted c - {(s, d)})\<^sup>+
    \<and> distinct (withdrawn out)
    \<and> survived out = (if (s, d) \<in> asserted c \<and> (s, d) \<in> (asserted c - {(s, d)})\<^sup>+
                      then [(s, d)] else [])"
  using delete_edge_retracts [OF assms] itc_inv_closed [OF assms(1)] itc_inv_closed [of c']
  by (simp add: retracts_def)

text \<open>The two retraction algorithms agree on everything they report and leave behind.\<close>

theorem delete_strategies_agree:
  assumes "itc_inv c"
    and "delete_edge h s d (set_delete_strategy SupportCounting c) = (out1, c1)"
    and "delete_edge h' s d (set_delete_strategy Recompute c) = (out2, c2)"
  shows "closed c1 = closed c2 \<and> asserted c1 = asserted c2 \<and> nnz c1 = nnz c2
    \<and> set (withdrawn out1) = set (withdrawn out2) \<and> survived out1 = survived out2"
proof -
  have inv: "itc_inv (set_delete_strategy st c)" for st
    using assms(1) by (simp add: set_delete_strategy_def itc_inv_def itc_wf_def)
  have r1: "retracts s d (set_delete_strategy SupportCounting c) out1 c1"
    using inv assms(2) by (rule delete_edge_retracts)
  have r2: "retracts s d (set_delete_strategy Recompute c) out2 c2"
    using inv assms(3) by (rule delete_edge_retracts)
  have as: "asserted c1 = asserted c2"
    using r1 r2 by (simp add: retracts_def set_delete_strategy_def)
  moreover have cl: "closed c1 = closed c2"
    using r1 r2 as by (simp add: retracts_def itc_inv_closed)
  moreover have "nnz c1 = nnz c2"
    using r1 r2 cl by (simp add: retracts_def itc_inv_def itc_wf_def)
  ultimately show ?thesis using r1 r2 by (simp add: retracts_def set_delete_strategy_def)
qed

text \<open>A batch of retractions reports the pairs lost overall and only final survivors.\<close>

theorem delete_edges_exact:
  assumes "itc_inv c" and "delete_edges h es c = (out, c')"
  shows "itc_inv c' \<and> closed c' = (asserted c - set es)\<^sup>+
    \<and> set (withdrawn out) = (asserted c)\<^sup>+ - (asserted c - set es)\<^sup>+ \<and> distinct (withdrawn out)
    \<and> set (survived out) = set es \<inter> asserted c \<inter> (asserted c - set es)\<^sup>+"
  using delete_edges_spec [OF assms] itc_inv_closed [OF assms(1)] itc_inv_closed [of c']
  by simp

text \<open>C27: a consumer that applies every reported delta, over any sequence of assertions and
  retractions from the empty state, holds the transitive closure of the edges now asserted.
\<close>

theorem closure_feed_in_sync:
  "snd (follow_deltas (assert_edge h) (retract_edge h) ops (set_delete_strategy st itc_new) {})
     = (fold edge_op_base ops {})\<^sup>+"
proof -
  have "itc_inv (set_delete_strategy st itc_new)"
    using itc_inv_new by (simp add: set_delete_strategy_def itc_inv_def itc_wf_def)
  from itc_engine.mirror_is_closure [OF this, of h ops]
  show ?thesis by (simp add: set_delete_strategy_def itc_new_def)
qed

subsection \<open>Concrete runs\<close>

lemmas itc_eval = Let_def from_base_edges_def insert_edge_def insert_edge_tracked_def add_base_def
  itc_new_def neighbors_def adj_mem_def nbrs_def adj_insert_def adj_remove_def adj_prune_def
  iter_ascending add_closed_def drop_closed_def delete_edge_def delete_edge_support_counting_def
  delete_edge_recompute_def base_reach_def remove_base_edge_def support_def still_closed_def
  delete_edges_def empty_outcome_def set_delete_strategy_def

text \<open>The chain \<open>1 \<rightarrow> 2 \<rightarrow> 3\<close> with the shortcut \<open>1 \<rightarrow> 3\<close>.\<close>

definition shortcut :: itc where
  "shortcut = from_base_edges ascending [(1, 2), (2, 3), (1, 3)]"

lemma shortcut_inv: "itc_inv shortcut"
  using from_base_edges_spec [of ascending "[(1, 2), (2, 3), (1, 3)]"] by (simp add: shortcut_def)

lemma insert_edge_exact_witness:
  "itc_inv (snd (insert_edge ascending 3 4 shortcut))
   \<and> fst (insert_edge ascending 3 4 shortcut) = [(1, 4), (2, 4), (3, 4)]"
  by (rule conjI) (use insert_edge_exact [OF shortcut_inv surjective_pairing, of ascending 3 4] in blast,
    simp add: shortcut_def itc_eval)

lemma delete_edge_exact_witness:
  "itc_inv (snd (delete_edge ascending 1 3 shortcut))
   \<and> fst (delete_edge ascending 1 3 shortcut) = \<lparr>withdrawn = [], survived = [(1, 3)]\<rparr>"
  by (rule conjI) (use delete_edge_exact [OF shortcut_inv surjective_pairing, of ascending 1 3] in blast,
    simp add: shortcut_def itc_eval)

lemma delete_strategies_agree_witness:
  "set (withdrawn (fst (delete_edge ascending 2 3 (set_delete_strategy SupportCounting shortcut))))
     = set (withdrawn (fst (delete_edge ascending 2 3 (set_delete_strategy Recompute shortcut))))
   \<and> withdrawn (fst (delete_edge ascending 2 3 (set_delete_strategy Recompute shortcut))) = [(2, 3)]"
  by (rule conjI) (use delete_strategies_agree [OF shortcut_inv surjective_pairing surjective_pairing,
      of ascending 2 3 ascending] in blast,
    simp add: shortcut_def itc_eval)

lemma delete_edges_exact_witness:
  "itc_inv (snd (delete_edges ascending [(1, 3), (2, 3)] shortcut))
   \<and> fst (delete_edges ascending [(1, 3), (2, 3)] shortcut)
       = \<lparr>withdrawn = [(2, 3), (1, 3)], survived = []\<rparr>"
  by (rule conjI) (use delete_edges_exact [OF shortcut_inv surjective_pairing, of ascending "[(1, 3), (2, 3)]"] in blast,
    simp add: shortcut_def itc_eval)

end
