(* ===== verification/Incremental_Backend.thy ===== *)
theory Incremental_Backend imports Closure_Backend Incremental_Closure begin

text \<open>
  The incremental closure backend of \<^verbatim>\<open>crates/closure/src/sink.rs\<close>: per predicate a dense
  renumbering and a maintained closure. Insertion writes only the newly entailed triples to the sink
  and takes everything back when the sink fails; retraction returns what lost support, in dictionary
  identifiers.
\<close>

section \<open>State and operations\<close>

record predicate_state =
  ps_map :: dense_map
  ps_closure :: itc

record incremental_backend =
  be_predicates :: "u64 \<rightharpoonup> predicate_state"
  be_sameas :: equiv_classes

definition ps_default :: predicate_state where
  "ps_default = \<lparr>ps_map = dm_empty, ps_closure = itc_new\<rparr>"

definition be_new :: incremental_backend where
  "be_new = \<lparr>be_predicates = Map.empty, be_sameas = ec_new\<rparr>"

definition be_put :: "u64 \<Rightarrow> predicate_state \<Rightarrow> incremental_backend \<Rightarrow> incremental_backend" where
  "be_put p st b = b\<lparr>be_predicates := (be_predicates b)(p \<mapsto> st)\<rparr>"

definition seed_transitive_closure :: "u64 \<Rightarrow> pair list \<Rightarrow> incremental_backend \<Rightarrow> incremental_backend" where
  "seed_transitive_closure p closed_edges b =
     (let (dense, ids) = intern_edges closed_edges dm_empty
      in be_put p \<lparr>ps_map = ids, ps_closure = from_closed_edges dense\<rparr> b)"

definition seed_base_edges :: "u64 iter_order \<Rightarrow> u64 \<Rightarrow> pair list \<Rightarrow> incremental_backend \<Rightarrow> incremental_backend" where
  "seed_base_edges h p es b =
     (let (dense, ids) = intern_edges es dm_empty
      in be_put p \<lparr>ps_map = ids, ps_closure = from_base_edges h dense\<rparr> b)"

text \<open>The insertion loop: the closure delta and the base edges this call added.\<close>

fun insert_dense :: "u64 iter_order \<Rightarrow> pair list \<Rightarrow> itc \<Rightarrow> pair list \<times> pair list \<times> itc" where
  "insert_dense h [] c = ([], [], c)"
| "insert_dense h ((s, ob) # es) c =
     (let (edge_delta, base_was_new, c1) = insert_edge_tracked h s ob c;
          (delta, new_base, c2) = insert_dense h es c1
      in (edge_delta @ delta, (if base_was_new then [(s, ob)] else []) @ new_base, c2))"

definition insert_transitive_edges ::
  "u64 iter_order \<Rightarrow> u64 \<Rightarrow> pair list \<Rightarrow> 'k triple_sink \<Rightarrow> 'k \<Rightarrow> incremental_backend
     \<Rightarrow> (fault + u64) \<times> 'k \<times> incremental_backend" where
  "insert_transitive_edges h p new_edges sink k b =
     (if new_edges = [] then (Inr 0, k, b)
      else let st = (case be_predicates b p of None \<Rightarrow> ps_default | Some st \<Rightarrow> st);
               (dense, ids) = intern_edges new_edges (ps_map st);
               (delta, new_base, c) = insert_dense h dense (ps_closure st)
           in if delta = [] then (Inr 0, k, be_put p \<lparr>ps_map = ids, ps_closure = c\<rparr> b)
              else case write_closure p delta ids sink k of
                (Inr n, k') \<Rightarrow> (Inr n, k', be_put p \<lparr>ps_map = ids, ps_closure = c\<rparr> b)
              | (Inl e, k') \<Rightarrow> (Inl e, k', be_put p
                  \<lparr>ps_map = ids, ps_closure = rollback_base_edges new_base (rollback_inserted delta c)\<rparr> b))"

definition dense_pair :: "dense_map \<Rightarrow> pair \<Rightarrow> pair option" where
  "dense_pair ids e = (case e of (s, ob) \<Rightarrow>
     (case to_dense ids s of None \<Rightarrow> None | Some x \<Rightarrow>
      (case to_dense ids ob of None \<Rightarrow> None | Some y \<Rightarrow> Some (x, y))))"

definition delete_transitive_edges ::
  "u64 iter_order \<Rightarrow> u64 \<Rightarrow> pair list \<Rightarrow> incremental_backend \<Rightarrow> delete_outcome \<times> incremental_backend" where
  "delete_transitive_edges h p es b =
     (if es = [] then (empty_outcome, b)
      else case be_predicates b p of None \<Rightarrow> (empty_outcome, b) | Some st \<Rightarrow>
        (let (out, c) = delete_edges h (List.map_filter (dense_pair (ps_map st)) es) (ps_closure st)
         in (\<lparr>withdrawn = pairs_to_dict (ps_map st) (withdrawn out),
              survived = pairs_to_dict (ps_map st) (survived out)\<rparr>,
             be_put p (st\<lparr>ps_closure := c\<rparr>) b)))"

definition retained_base_edges :: "u64 iter_order \<Rightarrow> u64 \<Rightarrow> incremental_backend \<Rightarrow> pair list" where
  "retained_base_edges h p b = (case be_predicates b p of None \<Rightarrow> []
     | Some st \<Rightarrow> pairs_to_dict (ps_map st) (base_edges h (ps_closure st)))"

definition be_add_sameas :: "pair list \<Rightarrow> incremental_backend \<Rightarrow> incremental_backend option" where
  "be_add_sameas ps b = (case add_sameas ps (be_sameas b) of None \<Rightarrow> None | Some e \<Rightarrow> Some (b\<lparr>be_sameas := e\<rparr>))"

section \<open>What a state stands for\<close>

text \<open>
  \<open>decoded\<close> reads a relation over indices as one over identifiers; a predicate stands for its
  asserted edges, and its closed pairs decode to their transitive closure.
\<close>

definition known :: "dense_map \<Rightarrow> u64 set" where
  "known ids = {i. to_dict ids i \<noteq> None}"

definition decoded :: "dense_map \<Rightarrow> pair set \<Rightarrow> pair set" where
  "decoded ids R = map_prod (\<lambda>i. the (to_dict ids i)) (\<lambda>i. the (to_dict ids i)) ` R"

definition ps_ok :: "predicate_state \<Rightarrow> bool" where
  "ps_ok st \<longleftrightarrow> dm_ok (ps_map st) \<and> itc_inv (ps_closure st)
     \<and> asserted (ps_closure st) \<subseteq> known (ps_map st) \<times> known (ps_map st)"

definition be_ok :: "incremental_backend \<Rightarrow> bool" where
  "be_ok b \<longleftrightarrow> (\<forall>st\<in>ran (be_predicates b). ps_ok st)"

definition base_of :: "incremental_backend \<Rightarrow> u64 \<Rightarrow> pair set" where
  "base_of b p = (case be_predicates b p of None \<Rightarrow> {}
     | Some st \<Rightarrow> decoded (ps_map st) (asserted (ps_closure st)))"

definition closed_of :: "incremental_backend \<Rightarrow> u64 \<Rightarrow> pair set" where
  "closed_of b p = (case be_predicates b p of None \<Rightarrow> {}
     | Some st \<Rightarrow> decoded (ps_map st) (closed (ps_closure st)))"

lemma inj_known: "dm_ok ids \<Longrightarrow> inj_on (\<lambda>i. the (to_dict ids i)) (known ids)"
proof (rule inj_onI)
  fix i j assume *: "dm_ok ids" "i \<in> known ids" "j \<in> known ids" "the (to_dict ids i) = the (to_dict ids j)"
  then obtain d where "to_dict ids i = Some d" "to_dict ids j = Some d" by (auto simp: known_def)
  then have "to_dense ids d = Some i" "to_dense ids d = Some j" by (simp_all only: dm_ok_iff [OF *(1)])
  then show "i = j" by simp
qed

lemma inj_decode:
  assumes "dm_ok ids"
  shows "inj_on (map_prod (\<lambda>i. the (to_dict ids i)) (\<lambda>i. the (to_dict ids i))) (known ids \<times> known ids)"
  by (rule map_prod_inj_on) (rule inj_known [OF assms])+

lemma decoded_trancl: "dm_ok ids \<Longrightarrow> R \<subseteq> known ids \<times> known ids \<Longrightarrow> decoded ids (R\<^sup>+) = (decoded ids R)\<^sup>+"
  unfolding decoded_def by (rule trancl_map_prod [OF inj_known, symmetric])

lemma decoded_Un: "decoded ids (R \<union> S) = decoded ids R \<union> decoded ids S"
  by (simp add: decoded_def image_Un)

lemma decoded_diff:
  assumes "dm_ok ids" and "R \<subseteq> known ids \<times> known ids" and "S \<subseteq> known ids \<times> known ids"
  shows "decoded ids (R - S) = decoded ids R - decoded ids S"
  unfolding decoded_def by (rule inj_on_image_set_diff [OF inj_decode [OF assms(1)]]) (use assms(2,3) in auto)

lemma decoded_Int:
  assumes "dm_ok ids" and "R \<subseteq> known ids \<times> known ids" and "S \<subseteq> known ids \<times> known ids"
  shows "decoded ids (R \<inter> S) = decoded ids R \<inter> decoded ids S"
  unfolding decoded_def by (rule inj_on_image_Int [OF inj_decode [OF assms(1)] assms(2,3)])

lemma decoded_extends:
  assumes "dm_extends ids ids'" and "R \<subseteq> known ids \<times> known ids"
  shows "decoded ids' R = decoded ids R"
proof -
  have "to_dict ids' i = to_dict ids i" if "i \<in> known ids" for i
    using that dm_extends_to_dict [OF assms(1)] by (auto simp: known_def)
  then show ?thesis unfolding decoded_def using assms(2) by (intro image_cong) auto
qed

lemma known_extends: "dm_extends ids ids' \<Longrightarrow> known ids \<subseteq> known ids'"
  by (auto simp: known_def dest: dm_extends_to_dict)

lemma decode_pair_known: "e \<in> known ids \<times> known ids \<Longrightarrow>
    decode_pair ids e = Some (map_prod (\<lambda>i. the (to_dict ids i)) (\<lambda>i. the (to_dict ids i)) e)"
  by (auto simp: decode_pair_def known_def)


lemma decode_list:
  assumes "dm_ok ids" and "set es \<subseteq> known ids \<times> known ids"
  shows "pairs_to_dict ids es = map (map_prod (\<lambda>i. the (to_dict ids i)) (\<lambda>i. the (to_dict ids i))) es"
    and "set (pairs_to_dict ids es) = decoded ids (set es)"
    and "distinct es \<Longrightarrow> distinct (pairs_to_dict ids es)"
proof -
  show *: "pairs_to_dict ids es = map (map_prod (\<lambda>i. the (to_dict ids i)) (\<lambda>i. the (to_dict ids i))) es"
    using assms(2) unfolding pairs_to_dict_def
    by (induction es) (simp_all add: map_filter_simps decode_pair_known del: mem_Times_iff)
  show "set (pairs_to_dict ids es) = decoded ids (set es)" by (simp add: * decoded_def)
  show "distinct es \<Longrightarrow> distinct (pairs_to_dict ids es)"
    unfolding * using inj_on_subset [OF inj_decode [OF assms(1)] assms(2)] by (simp add: distinct_map)
qed

lemma write_closure_decoded:
  "write_closure p es ids sink k = sink k (map (\<lambda>(s, ob). (s, p, ob)) (pairs_to_dict ids es))"
proof -
  have "List.map_filter (\<lambda>e. case decode_pair ids e of None \<Rightarrow> None | Some (s, ob) \<Rightarrow> Some (s, p, ob)) es
      = map (\<lambda>(s, ob). (s, p, ob)) (pairs_to_dict ids es)"
    unfolding pairs_to_dict_def by (induction es) (simp_all add: map_filter_simps split: option.split)
  then show ?thesis by (simp add: write_closure_def)
qed

lemma ps_ok_closed:
  assumes "ps_ok st"
  shows "closed (ps_closure st) \<subseteq> known (ps_map st) \<times> known (ps_map st)"
    and "decoded (ps_map st) (closed (ps_closure st)) = (decoded (ps_map st) (asserted (ps_closure st)))\<^sup>+"
proof -
  have a: "dm_ok (ps_map st)" "closed (ps_closure st) = (asserted (ps_closure st))\<^sup>+"
    "asserted (ps_closure st) \<subseteq> known (ps_map st) \<times> known (ps_map st)"
    using assms itc_inv_closed by (auto simp: ps_ok_def)
  show "closed (ps_closure st) \<subseteq> known (ps_map st) \<times> known (ps_map st)"
    unfolding a(2) by (rule trancl_subset_Sigma [OF a(3)])
  show "decoded (ps_map st) (closed (ps_closure st)) = (decoded (ps_map st) (asserted (ps_closure st)))\<^sup>+"
    unfolding a(2) by (rule decoded_trancl [OF a(1,3)])
qed

lemma be_ok_get: "be_ok b \<Longrightarrow> be_predicates b p = Some st \<Longrightarrow> ps_ok st"
  by (auto simp: be_ok_def ran_def)

lemma closed_of_trancl: "be_ok b \<Longrightarrow> closed_of b p = (base_of b p)\<^sup>+"
  using be_ok_get [of b p] ps_ok_closed(2) by (auto simp: closed_of_def base_of_def split: option.split)

lemma be_put_simps [simp]:
  "base_of (be_put p st b) q = (if q = p then decoded (ps_map st) (asserted (ps_closure st)) else base_of b q)"
  "be_predicates (be_put p st b) = (be_predicates b)(p \<mapsto> st)"
  "be_sameas (be_put p st b) = be_sameas b"
  by (simp_all add: be_put_def base_of_def)

lemma be_put_ok: "be_ok b \<Longrightarrow> ps_ok st \<Longrightarrow> be_ok (be_put p st b)"
  by (auto simp: be_ok_def ran_def split: if_splits)

lemma be_new_ok [simp]: "be_ok be_new" by (simp add: be_ok_def be_new_def)

section \<open>Interning a batch into a live map\<close>

lemma intern_batch:
  assumes "intern_edges es ids = (dense, ids')" and "dm_ok ids"
  shows "dm_ok ids'" and "dm_extends ids ids'" and "set dense \<subseteq> known ids' \<times> known ids'"
    and "decoded ids' (set dense) = set es"
proof -
  note s = intern_edges_spec [OF assms(2), of es, unfolded assms(1) fst_conv snd_conv]
  show "dm_ok ids'" and "dm_extends ids ids'" using s by simp_all
  have dec: "list_all2 (decodes ids') dense es" using s by simp
  show "set dense \<subseteq> known ids' \<times> known ids'"
    using dec by (fastforce simp: list_all2_conv_all_nth in_set_conv_nth decodes_def known_def)
  have "map (map_prod (\<lambda>i. the (to_dict ids' i)) (\<lambda>i. the (to_dict ids' i))) dense = es"
    using dec by (intro nth_equalityI)
      (auto simp: list_all2_conv_all_nth decodes_def map_prod_def prod_eq_iff split: prod.split)
  from arg_cong [OF this, of set] show "decoded ids' (set dense) = set es" by (simp add: decoded_def)
qed

lemma insert_dense_spec:
  assumes "itc_inv c" and "insert_dense h es c = (delta, new_base, c')"
  shows "itc_inv c' \<and> asserted c' = asserted c \<union> set es \<and> closed c \<subseteq> closed c'
    \<and> set delta = closed c' - closed c \<and> distinct delta \<and> set new_base = set es - asserted c"
  using assms
proof (induction h es c arbitrary: delta new_base rule: insert_dense.induct)
  case (2 h s ob es c)
  obtain d1 new c1 where ins: "insert_edge_tracked h s ob c = (d1, new, c1)"
    by (cases "insert_edge_tracked h s ob c")
  obtain d2 nb2 where rest: "insert_dense h es c1 = (d2, nb2, c')" and eq: "delta = d1 @ d2"
    "new_base = (if new then [(s, ob)] else []) @ nb2"
    using "2.prems"(2) by (auto simp: ins split: prod.splits)
  note s1 = insert_edge_tracked_spec [OF "2.prems"(1) ins]
  have "closed c \<subseteq> closed c1"
    using itc_inv_closed [OF s1(1)] itc_inv_closed [OF "2.prems"(1)] s1(2)
      trancl_mono_subset [of "asserted c" "asserted c1"] by auto
  then show ?case using "2.IH" [OF ins [symmetric] refl refl s1(1) rest] s1 eq by auto
qed simp


section \<open>The operations\<close>

lemma seed_base_edges_spec:
  assumes "be_ok b"
  shows "be_ok (seed_base_edges h p es b)"
    and "base_of (seed_base_edges h p es b) q = (if q = p then set es else base_of b q)"
proof -
  obtain dense ids where ie: "intern_edges es dm_empty = (dense, ids)" by (cases "intern_edges es dm_empty")
  note i = intern_batch [OF ie dm_ok_empty] and f = from_base_edges_spec [of h dense]
  show "be_ok (seed_base_edges h p es b)"
    unfolding seed_base_edges_def ie Let_def case_prod_conv
    by (rule be_put_ok [OF assms]) (use i f in \<open>simp add: ps_ok_def\<close>)
  show "base_of (seed_base_edges h p es b) q = (if q = p then set es else base_of b q)"
    using i f by (simp add: seed_base_edges_def ie)
qed

lemma decoded_trans:
  assumes "dm_ok ids" and "R \<subseteq> known ids \<times> known ids" and "trans (decoded ids R)"
  shows "trans R"
proof -
  have "decoded ids (R\<^sup>+) = decoded ids R" by (simp add: decoded_trancl [OF assms(1,2)] trancl_id [OF assms(3)])
  then have "R\<^sup>+ = R"
    unfolding decoded_def
    using inj_on_image_eq_iff [OF inj_decode [OF assms(1)] trancl_subset_Sigma [OF assms(2)] assms(2)] by blast
  then show ?thesis using trans_trancl [of R] by simp
qed

lemma seed_transitive_closure_spec:
  assumes "be_ok b" and "trans (set es)"
  shows "be_ok (seed_transitive_closure p es b)"
    and "base_of (seed_transitive_closure p es b) q = (if q = p then set es else base_of b q)"
proof -
  obtain dense ids where ie: "intern_edges es dm_empty = (dense, ids)" by (cases "intern_edges es dm_empty")
  note i = intern_batch [OF ie dm_ok_empty]
  have "trans (set dense)" by (rule decoded_trans [OF i(1,3)]) (simp add: i(4) assms(2))
  note f = from_closed_edges_spec [OF this]
  show "be_ok (seed_transitive_closure p es b)"
    unfolding seed_transitive_closure_def ie Let_def case_prod_conv
    by (rule be_put_ok [OF assms(1)]) (use i f in \<open>simp add: ps_ok_def\<close>)
  show "base_of (seed_transitive_closure p es b) q = (if q = p then set es else base_of b q)"
    using i f by (simp add: seed_transitive_closure_def ie)
qed

lemma ps_default_ok [simp]: "ps_ok ps_default"
  using itc_inv_new by (simp add: ps_ok_def ps_default_def itc_new_def)

lemma insert_live:
  assumes "ps_ok st" and "intern_edges es (ps_map st) = (dense, ids)"
    and "insert_dense h dense (ps_closure st) = (delta, new_base, c)"
  defines "R \<equiv> decoded (ps_map st) (asserted (ps_closure st))"
  shows "ps_ok \<lparr>ps_map = ids, ps_closure = c\<rparr>" and "decoded ids (asserted c) = R \<union> set es"
    and "set delta \<subseteq> known ids \<times> known ids" and "distinct delta"
    and "decoded ids (set delta) = (R \<union> set es)\<^sup>+ - R\<^sup>+"
    and "ps_ok \<lparr>ps_map = ids, ps_closure = rollback_base_edges new_base (rollback_inserted delta c)\<rparr>"
    and "decoded ids (asserted (rollback_base_edges new_base (rollback_inserted delta c))) = R"
proof -
  have ok: "dm_ok (ps_map st)" "itc_inv (ps_closure st)"
    and A: "asserted (ps_closure st) \<subseteq> known (ps_map st) \<times> known (ps_map st)" using assms(1) by (auto simp: ps_ok_def)
  note i = intern_batch [OF assms(2) ok(1)] and ins = insert_dense_spec [OF ok(2) assms(3)]
  have A': "asserted (ps_closure st) \<subseteq> known ids \<times> known ids" using A known_extends [OF i(2)] by blast
  have C: "asserted c \<subseteq> known ids \<times> known ids" using ins A' i(3) by auto
  show ok': "ps_ok \<lparr>ps_map = ids, ps_closure = c\<rparr>" using i(1) ins C by (simp add: ps_ok_def)
  have R: "decoded ids (asserted (ps_closure st)) = R" unfolding R_def by (rule decoded_extends [OF i(2) A])
  show as: "decoded ids (asserted c) = R \<union> set es" using ins by (simp add: decoded_Un R i(4))
  have cl: "closed c \<subseteq> known ids \<times> known ids" "decoded ids (closed c) = (R \<union> set es)\<^sup>+"
    using ps_ok_closed [OF ok'] as by simp_all
  have cl0: "closed (ps_closure st) \<subseteq> known ids \<times> known ids" "decoded ids (closed (ps_closure st)) = R\<^sup>+"
    unfolding itc_inv_closed [OF ok(2)] using trancl_subset_Sigma [OF A'] decoded_trancl [OF i(1) A'] R by auto
  show "set delta \<subseteq> known ids \<times> known ids" using ins cl(1) by auto
  show "distinct delta" using ins by simp
  show "decoded ids (set delta) = (R \<union> set es)\<^sup>+ - R\<^sup>+"
    using ins decoded_diff [OF i(1) cl(1) cl0(1)] cl(2) cl0(2) by simp
  let ?c = "rollback_base_edges new_base (rollback_inserted delta c)"
  have as': "asserted ?c = asserted (ps_closure st)" using ins by auto
  have "closed ?c = closed (ps_closure st)" using ins by auto
  then have "itc_inv ?c"
    using ins itc_inv_wf [of c] itc_inv_closed [OF ok(2)] as' by (intro itc_invI) simp_all
  then show "ps_ok \<lparr>ps_map = ids, ps_closure = ?c\<rparr>" using i(1) A' as' by (simp add: ps_ok_def)
  show "decoded ids (asserted ?c) = R" using R as' by simp
qed

lemma decoded_empty_iff [simp]: "decoded ids R = {} \<longleftrightarrow> R = {}" by (simp add: decoded_def)

lemma inserted_run:
  fixes b p es
  defines "R \<equiv> base_of b p"
  assumes "be_ok b" and "es \<noteq> []"
  obtains (quiet) b' where "(R \<union> set es)\<^sup>+ = R\<^sup>+"
      "insert_transitive_edges h p es sink k b = (Inr 0, k, b')" "be_ok b'"
      "\<forall>q. base_of b' q = (if q = p then R \<union> set es else base_of b q)"
  | (told) ts b' where "(R \<union> set es)\<^sup>+ \<noteq> R\<^sup>+" "distinct ts"
      "set ts = {(s, q, ob). q = p \<and> (s, ob) \<in> (R \<union> set es)\<^sup>+ - R\<^sup>+}"
      "insert_transitive_edges h p es sink k b = (fst (sink k ts), snd (sink k ts), b')" "be_ok b'"
      "\<forall>q. base_of b' q = (if q = p then (case fst (sink k ts) of Inl e \<Rightarrow> R | Inr n \<Rightarrow> R \<union> set es) else base_of b q)"
proof -
  define st where "st = (case be_predicates b p of None \<Rightarrow> ps_default | Some st \<Rightarrow> st)"
  have st: "ps_ok st" using be_ok_get [OF assms(2)] by (simp add: st_def split: option.split)
  have R: "decoded (ps_map st) (asserted (ps_closure st)) = R"
    by (auto simp: R_def base_of_def st_def ps_default_def itc_new_def split: option.split)
  obtain dense ids where ie: "intern_edges es (ps_map st) = (dense, ids)" by (cases "intern_edges es (ps_map st)")
  obtain delta new_base c where id: "insert_dense h dense (ps_closure st) = (delta, new_base, c)"
    by (cases "insert_dense h dense (ps_closure st)")
  note live = insert_live [OF st ie id, unfolded R]
  have mono: "R\<^sup>+ \<subseteq> (R \<union> set es)\<^sup>+" by (rule trancl_mono_subset) simp
  have run: "insert_transitive_edges h p es sink k b = (if delta = [] then (Inr 0, k, be_put p \<lparr>ps_map = ids, ps_closure = c\<rparr> b)
      else case write_closure p delta ids sink k of
          (Inr n, k') \<Rightarrow> (Inr n, k', be_put p \<lparr>ps_map = ids, ps_closure = c\<rparr> b)
        | (Inl e, k') \<Rightarrow> (Inl e, k', be_put p
            \<lparr>ps_map = ids, ps_closure = rollback_base_edges new_base (rollback_inserted delta c)\<rparr> b))"
    unfolding insert_transitive_edges_def if_not_P [OF assms(3)] st_def [symmetric] Let_def ie id case_prod_conv ..
  show thesis
  proof (cases "delta = []")
    case True
    then have "(R \<union> set es)\<^sup>+ = R\<^sup>+" using live(5) mono by (auto simp: decoded_def)
    then show thesis
      by (rule quiet [of "be_put p \<lparr>ps_map = ids, ps_closure = c\<rparr> b"])
        (use True run be_put_ok [OF assms(2) live(1)] live(2) in simp_all)
  next
    case False
    let ?ts = "map (\<lambda>(s, ob). (s, p, ob)) (pairs_to_dict ids delta)"
    have dm: "dm_ok ids" using live(1) by (simp add: ps_ok_def)
    note dl = decode_list [OF dm live(3)]
    have ne: "(R \<union> set es)\<^sup>+ \<noteq> R\<^sup>+" using live(5) False by (auto simp: decoded_def)
    have ts: "set ?ts = {(s, q, ob). q = p \<and> (s, ob) \<in> (R \<union> set es)\<^sup>+ - R\<^sup>+}"
      using dl(2) live(5) by force
    have d: "distinct ?ts" using dl(3) [OF live(4)] by (auto simp: distinct_map intro!: inj_onI)
    have w: "write_closure p delta ids sink k = sink k ?ts" by (rule write_closure_decoded)
    show thesis
    proof (cases "fst (sink k ?ts)")
      case (Inl e)
      then have "insert_transitive_edges h p es sink k b = (fst (sink k ?ts), snd (sink k ?ts),
          be_put p \<lparr>ps_map = ids, ps_closure = rollback_base_edges new_base (rollback_inserted delta c)\<rparr> b)"
        unfolding run w if_not_P [OF False] by (cases "sink k ?ts") simp
      then show thesis
        by (rule told [OF ne d ts]) (use be_put_ok [OF assms(2) live(6)] live(7) Inl in simp_all)
    next
      case (Inr n)
      then have "insert_transitive_edges h p es sink k b = (fst (sink k ?ts), snd (sink k ?ts),
          be_put p \<lparr>ps_map = ids, ps_closure = c\<rparr> b)"
        unfolding run w if_not_P [OF False] by (cases "sink k ?ts") simp
      then show thesis
        by (rule told [OF ne d ts]) (use be_put_ok [OF assms(2) live(1)] live(2) Inr in simp_all)
    qed
  qed
qed

lemma dense_pairs:
  assumes "dm_ok ids"
  shows "set (List.map_filter (dense_pair ids) es) \<subseteq> known ids \<times> known ids"
    and "decoded ids (set (List.map_filter (dense_pair ids) es)) = set es \<inter> decoded ids (known ids \<times> known ids)"
proof -
  have dp: "dense_pair ids (s, ob) = Some (x, y) \<longleftrightarrow> to_dict ids x = Some s \<and> to_dict ids y = Some ob" for s ob x y
    by (auto simp: dense_pair_def dm_ok_iff [OF assms, symmetric] split: option.split)
  then have mem: "(x, y) \<in> set (List.map_filter (dense_pair ids) es) \<longleftrightarrow>
      (\<exists>(s, ob)\<in>set es. to_dict ids x = Some s \<and> to_dict ids y = Some ob)" for x y
    unfolding map_filter_mem by fastforce
  show "set (List.map_filter (dense_pair ids) es) \<subseteq> known ids \<times> known ids"
    using mem by (auto simp: known_def)
  have "(s, ob) \<in> decoded ids (set (List.map_filter (dense_pair ids) es)) \<longleftrightarrow>
      (s, ob) \<in> set es \<inter> decoded ids (known ids \<times> known ids)" for s ob
    unfolding decoded_def using mem by (force simp: known_def)
  then show "decoded ids (set (List.map_filter (dense_pair ids) es)) = set es \<inter> decoded ids (known ids \<times> known ids)"
    by auto
qed


lemma delete_live:
  assumes "ps_ok st" and "delete_edges h (List.map_filter (dense_pair (ps_map st)) es) (ps_closure st) = (out, c)"
  defines "R \<equiv> decoded (ps_map st) (asserted (ps_closure st))"
  shows "ps_ok (st\<lparr>ps_closure := c\<rparr>)" and "decoded (ps_map st) (asserted c) = R - set es"
    and "set (pairs_to_dict (ps_map st) (withdrawn out)) = R\<^sup>+ - (R - set es)\<^sup>+"
    and "distinct (pairs_to_dict (ps_map st) (withdrawn out))"
    and "set (pairs_to_dict (ps_map st) (survived out)) = set es \<inter> R \<inter> (R - set es)\<^sup>+"
proof -
  let ?ids = "ps_map st" and ?K = "known (ps_map st) \<times> known (ps_map st)"
  let ?D = "set (List.map_filter (dense_pair ?ids) es)"
  have ok: "dm_ok ?ids" "itc_inv (ps_closure st)" and A: "asserted (ps_closure st) \<subseteq> ?K"
    using assms(1) by (auto simp: ps_ok_def)
  note del = delete_edges_spec [OF ok(2) assms(2)] and D = dense_pairs [OF ok(1), of es]
  have RK: "R \<subseteq> decoded ?ids ?K" unfolding R_def decoded_def using A by (rule image_mono)
  show ok': "ps_ok (st\<lparr>ps_closure := c\<rparr>)" using ok(1) del(1,2) A by (auto simp: ps_ok_def)
  show as: "decoded ?ids (asserted c) = R - set es"
    unfolding del(2) decoded_diff [OF ok(1) A D(1)] D(2) using RK by (auto simp: R_def)
  have cl: "closed c \<subseteq> ?K" "decoded ?ids (closed c) = (R - set es)\<^sup>+" using ps_ok_closed [OF ok'] as by simp_all
  have cl0: "closed (ps_closure st) \<subseteq> ?K" "decoded ?ids (closed (ps_closure st)) = R\<^sup>+"
    using ps_ok_closed [OF assms(1)] by (simp_all add: R_def)
  have w: "set (withdrawn out) \<subseteq> ?K" using del(4) cl0(1) by auto
  show "set (pairs_to_dict ?ids (withdrawn out)) = R\<^sup>+ - (R - set es)\<^sup>+"
    unfolding decode_list(2) [OF ok(1) w] del(4) decoded_diff [OF ok(1) cl0(1) cl(1)] cl(2) cl0(2) ..
  show "distinct (pairs_to_dict ?ids (withdrawn out))" by (rule decode_list(3) [OF ok(1) w del(5)])
  have s: "set (survived out) \<subseteq> ?K" and DA: "?D \<inter> asserted (ps_closure st) \<subseteq> ?K" using del(6) A by auto
  show "set (pairs_to_dict ?ids (survived out)) = set es \<inter> R \<inter> (R - set es)\<^sup>+"
    unfolding decode_list(2) [OF ok(1) s] del(6) decoded_Int [OF ok(1) DA cl(1)] decoded_Int [OF ok(1) D(1) A]
      D(2) cl(2) R_def [symmetric] using RK by auto
qed

lemma retained_base_edges_set: "be_ok b \<Longrightarrow> set (retained_base_edges h p b) = base_of b p"
proof (cases "be_predicates b p")
  case (Some st)
  assume "be_ok b"
  then have st: "dm_ok (ps_map st)" "asserted (ps_closure st) \<subseteq> known (ps_map st) \<times> known (ps_map st)"
    using be_ok_get [OF _ Some] by (auto simp: ps_ok_def)
  have be: "set (base_edges h (ps_closure st)) = asserted (ps_closure st)"
    by (force simp: base_edges_def map_edges_def adj_simps nbrs_def split: option.splits)
  show ?thesis using decode_list(2) [of "ps_map st" "base_edges h (ps_closure st)"] st
    by (simp add: retained_base_edges_def base_of_def Some be)
qed (simp add: retained_base_edges_def base_of_def)

lemma insert_transitive_edges_spec:
  assumes "be_ok b" and "insert_transitive_edges h p es sink k b = (r, k', b')"
  defines "R \<equiv> base_of b p"
  shows "be_ok b' \<and> closed_of b' p = (base_of b' p)\<^sup>+ \<and> (\<forall>q. q \<noteq> p \<longrightarrow> base_of b' q = base_of b q)
    \<and> (if (R \<union> set es)\<^sup>+ = R\<^sup>+ then r = Inr 0 \<and> k' = k \<and> base_of b' p = R \<union> set es
       else \<exists>ts. distinct ts \<and> set ts = {(s, q, ob). q = p \<and> (s, ob) \<in> (R \<union> set es)\<^sup>+ - R\<^sup>+}
         \<and> sink k ts = (r, k') \<and> base_of b' p = (case r of Inl e \<Rightarrow> R | Inr n \<Rightarrow> R \<union> set es))"
proof (cases "es = []")
  case True
  then show ?thesis using assms closed_of_trancl by (auto simp: insert_transitive_edges_def)
next
  case False
  show ?thesis
  proof (rule inserted_run [OF assms(1) False, of p h sink k])
    fix b1 assume quiet: "(base_of b p \<union> set es)\<^sup>+ = (base_of b p)\<^sup>+"
      "insert_transitive_edges h p es sink k b = (Inr 0, k, b1)" "be_ok b1"
      "\<forall>q. base_of b1 q = (if q = p then base_of b p \<union> set es else base_of b q)"
    then show ?thesis using assms(2) closed_of_trancl [OF quiet(3)] by (auto simp: R_def)
  next
    fix ts b1 assume told: "(base_of b p \<union> set es)\<^sup>+ \<noteq> (base_of b p)\<^sup>+" "distinct ts"
      "set ts = {(s, q, ob). q = p \<and> (s, ob) \<in> (base_of b p \<union> set es)\<^sup>+ - (base_of b p)\<^sup>+}"
      "insert_transitive_edges h p es sink k b = (fst (sink k ts), snd (sink k ts), b1)" "be_ok b1"
      "\<forall>q. base_of b1 q = (if q = p then (case fst (sink k ts) of Inl e \<Rightarrow> base_of b p
         | Inr n \<Rightarrow> base_of b p \<union> set es) else base_of b q)"
    then have "sink k ts = (r, k')" "b1 = b'" using assms(2) by (auto simp: prod_eq_iff)
    then show ?thesis using told closed_of_trancl [OF told(5)] by (auto simp: R_def split: sum.split)
  qed
qed

lemma delete_transitive_edges_spec:
  assumes "be_ok b" and "delete_transitive_edges h p es b = (out, b')"
  defines "R \<equiv> base_of b p"
  shows "be_ok b' \<and> (\<forall>q. base_of b' q = (if q = p then R - set es else base_of b q))
    \<and> set (withdrawn out) = R\<^sup>+ - (R - set es)\<^sup>+ \<and> distinct (withdrawn out)
    \<and> set (survived out) = set es \<inter> R \<inter> (R - set es)\<^sup>+"
proof (cases "es = [] \<or> be_predicates b p = None")
  case True
  then have "out = empty_outcome" "b' = b" "R - set es = R" "set es \<inter> R = {}"
    using assms(2) by (auto simp: delete_transitive_edges_def base_of_def R_def split: if_splits option.splits)
  then show ?thesis using assms(1) by (auto simp: empty_outcome_def R_def)
next
  case False
  then obtain st where st: "be_predicates b p = Some st" by auto
  let ?r = "delete_edges h (List.map_filter (dense_pair (ps_map st)) es) (ps_closure st)"
  obtain o1 c where r: "?r = (o1, c)" by (cases ?r)
  have R: "R = decoded (ps_map st) (asserted (ps_closure st))" by (simp add: R_def base_of_def st)
  note live = delete_live [OF be_ok_get [OF assms(1) st] r]
  have "out = \<lparr>withdrawn = pairs_to_dict (ps_map st) (withdrawn o1), survived = pairs_to_dict (ps_map st) (survived o1)\<rparr>"
    "b' = be_put p (st\<lparr>ps_closure := c\<rparr>) b"
    using assms(2) False by (simp_all add: delete_transitive_edges_def st r)
  then show ?thesis using live be_put_ok [OF assms(1) live(1)] unfolding R by simp
qed

section \<open>Properties\<close>

text \<open>C23: Inserting a batch under a predicate hands the sink, in at most one call and each once,
  exactly the triples newly entailed; nothing is written when nothing is new. If the sink accepts,
  the retained edges grow by the batch; if it fails, its error is returned and every predicate
  stands for the edges it had before the call. Closed pairs stay the transitive closure throughout.\<close>

theorem insert_transitive_edges_exact:
  assumes "be_ok b" and "insert_transitive_edges h p es sink k b = (r, k', b')"
  defines "R \<equiv> base_of b p"
  shows "be_ok b' \<and> closed_of b' p = (base_of b' p)\<^sup>+ \<and> (\<forall>q. q \<noteq> p \<longrightarrow> base_of b' q = base_of b q)
    \<and> (if (R \<union> set es)\<^sup>+ = R\<^sup>+ then r = Inr 0 \<and> k' = k \<and> base_of b' p = R \<union> set es
       else \<exists>ts. distinct ts \<and> set ts = {(s, q, ob). q = p \<and> (s, ob) \<in> (R \<union> set es)\<^sup>+ - R\<^sup>+}
         \<and> sink k ts = (r, k') \<and> base_of b' p = (case r of Inl e \<Rightarrow> R | Inr n \<Rightarrow> R \<union> set es))"
  using insert_transitive_edges_spec [OF assms(1,2)] unfolding R_def .

definition failing_sink :: "dict_triple set triple_sink" where
  "failing_sink k ts = (Inl (Failed 7), k)"

lemma insert_transitive_edges_exact_witness:
  "be_ok be_new \<and> base_of (snd (snd (insert_transitive_edges ascending 9 [(10, 20), (20, 30)] failing_sink {} be_new))) 9 = {}"
proof -
  let ?r = "insert_transitive_edges ascending 9 [(10, 20), (20, 30)] failing_sink {} be_new"
  have base: "base_of be_new 9 = {}" by (simp add: base_of_def be_new_def)
  have run: "?r = (fst ?r, fst (snd ?r), snd (snd ?r))" by simp
  have ne: "(set [(10 :: u64, 20 :: u64), (20, 30)])\<^sup>+ \<noteq> {}"
    using r_into_trancl' [of "(10, 20)" "set [(10 :: u64, 20 :: u64), (20, 30)]"] by auto
  show ?thesis
    using insert_transitive_edges_exact [OF be_new_ok run] ne unfolding base
    by (auto simp: failing_sink_def split: if_splits sum.splits)
qed

text \<open>C24: Retracting a batch keeps the closure exact: the retained edges lose the batch, the pairs
  withdrawn are exactly those no longer entailed, each once, and the survivors are the retracted
  edges still entailed by the rest; other predicates and unknown identifiers are untouched.\<close>

theorem delete_transitive_edges_exact:
  assumes "be_ok b" and "delete_transitive_edges h p es b = (out, b')"
  defines "R \<equiv> base_of b p"
  shows "be_ok b' \<and> (\<forall>q. base_of b' q = (if q = p then R - set es else base_of b q))
    \<and> set (withdrawn out) = R\<^sup>+ - (R - set es)\<^sup>+ \<and> distinct (withdrawn out)
    \<and> set (survived out) = set es \<inter> R \<inter> (R - set es)\<^sup>+"
  using delete_transitive_edges_spec [OF assms(1,2)] unfolding R_def .

lemma delete_transitive_edges_exact_witness:
  "be_ok (seed_base_edges ascending 9 [(10, 20), (20, 30)] be_new)
   \<and> set (withdrawn (fst (delete_transitive_edges ascending 9 [(20, 30)] (seed_base_edges ascending 9 [(10, 20), (20, 30)] be_new))))
     = {(10, 20), (20, 30)}\<^sup>+ - {(10, 20)}\<^sup>+"
proof -
  let ?b = "seed_base_edges ascending 9 [(10, 20), (20, 30)] be_new"
  note s = seed_base_edges_spec [OF be_new_ok, of ascending 9 "[(10, 20), (20, 30)]"]
  have "{(10 :: u64, 20 :: u64), (20, 30)} - {(20, 30)} = {(10, 20)}" by auto
  then show ?thesis
    using delete_transitive_edges_exact [OF s(1) surjective_pairing, of ascending 9 "[(20, 30)]"] s by simp
qed

end
