(* ===== verification/Owl_Vocab.thy ===== *)
theory Owl_Vocab imports Prelude begin

text \<open>
  \<^verbatim>\<open>crates/owlrl/src/vocab.rs\<close> and the newtypes of \<^verbatim>\<open>types.rs\<close>: the vocabulary record whose
  identifiers the rules consult, its synthetic instance, and the triples and restrictions the rules
  handle. A \<^verbatim>\<open>TermId\<close> is its 64-bit value, a \<^verbatim>\<open>Triple\<close> the subject, predicate and object in order.
\<close>

type_synonym triple = "u64 \<times> u64 \<times> u64"

record max_card_restriction =
  mc_class :: u64
  mc_property :: u64
  mc_max :: "8 word"

record qual_max_card_restriction =
  qmc_class :: u64
  qmc_property :: u64
  qmc_filler :: u64
  qmc_max :: "8 word"

record vocabulary =
  rdf_type :: u64
  rdf_first :: u64
  rdf_rest :: u64
  rdf_nil :: u64
  rdfs_sub_class_of :: u64
  rdfs_sub_property_of :: u64
  rdfs_domain :: u64
  rdfs_range :: u64
  owl_class :: u64
  owl_thing :: u64
  owl_nothing :: u64
  owl_same_as :: u64
  owl_different_from :: u64
  owl_equivalent_class :: u64
  owl_equivalent_property :: u64
  owl_inverse_of :: u64
  owl_functional_property :: u64
  owl_inverse_functional_property :: u64
  owl_symmetric_property :: u64
  owl_transitive_property :: u64
  owl_irreflexive_property :: u64
  owl_reflexive_property :: u64
  owl_asymmetric_property :: u64
  owl_property_disjoint_with :: u64
  owl_disjoint_with :: u64
  owl_complement_of :: u64
  owl_intersection_of :: u64
  owl_union_of :: u64
  owl_some_values_from :: u64
  owl_all_values_from :: u64
  owl_has_value :: u64
  owl_on_property :: u64
  owl_max_cardinality :: u64
  owl_max_qualified_cardinality :: u64
  owl_on_class :: u64
  owl_source_individual :: u64
  owl_assertion_property :: u64
  owl_target_individual :: u64
  owl_target_value :: u64
  owl_object_property :: u64
  owl_property_chain_axiom :: u64
  owl_has_key :: u64
  owl_all_disjoint_classes :: u64
  owl_all_disjoint_properties :: u64
  owl_all_different :: u64
  owl_members :: u64
  owl_distinct_members :: u64
  owl_named_individual :: u64
  skos_exact_match :: u64
  skos_close_match :: u64
  skos_broad_match :: u64
  skos_narrow_match :: u64
  skos_related_match :: u64
  semapv_cross_species_exact_match :: u64
  semapv_cross_species_narrow_match :: u64
  semapv_cross_species_broad_match :: u64
  semapv_mapping_chaining :: u64
  semapv_mapping_inversion :: u64
  sssom_mapping :: u64
  sssom_subject_id :: u64
  sssom_predicate_id :: u64
  sssom_object_id :: u64
  sssom_mapping_justification :: u64
  sssom_confidence :: u64
  sssom_predicate_modifier :: u64
  sssom_derived_from :: u64
  horndb_not_exact_match :: u64

text \<open>Consecutive identifiers from \<open>base\<close>: the counter is post-incremented once per field.\<close>

definition synthetic :: "u64 \<Rightarrow> vocabulary" where
  "synthetic base = \<lparr>
     rdf_type = base + 0,
     rdf_first = base + 1,
     rdf_rest = base + 2,
     rdf_nil = base + 3,
     rdfs_sub_class_of = base + 4,
     rdfs_sub_property_of = base + 5,
     rdfs_domain = base + 6,
     rdfs_range = base + 7,
     owl_class = base + 8,
     owl_thing = base + 9,
     owl_nothing = base + 10,
     owl_same_as = base + 11,
     owl_different_from = base + 12,
     owl_equivalent_class = base + 13,
     owl_equivalent_property = base + 14,
     owl_inverse_of = base + 15,
     owl_functional_property = base + 16,
     owl_inverse_functional_property = base + 17,
     owl_symmetric_property = base + 18,
     owl_transitive_property = base + 19,
     owl_irreflexive_property = base + 20,
     owl_reflexive_property = base + 21,
     owl_asymmetric_property = base + 22,
     owl_property_disjoint_with = base + 23,
     owl_disjoint_with = base + 24,
     owl_complement_of = base + 25,
     owl_intersection_of = base + 26,
     owl_union_of = base + 27,
     owl_some_values_from = base + 28,
     owl_all_values_from = base + 29,
     owl_has_value = base + 30,
     owl_on_property = base + 31,
     owl_max_cardinality = base + 32,
     owl_max_qualified_cardinality = base + 33,
     owl_on_class = base + 34,
     owl_source_individual = base + 35,
     owl_assertion_property = base + 36,
     owl_target_individual = base + 37,
     owl_target_value = base + 38,
     owl_object_property = base + 39,
     owl_property_chain_axiom = base + 40,
     owl_has_key = base + 41,
     owl_all_disjoint_classes = base + 42,
     owl_all_disjoint_properties = base + 43,
     owl_all_different = base + 44,
     owl_members = base + 45,
     owl_distinct_members = base + 46,
     owl_named_individual = base + 47,
     skos_exact_match = base + 48,
     skos_close_match = base + 49,
     skos_broad_match = base + 50,
     skos_narrow_match = base + 51,
     skos_related_match = base + 52,
     semapv_cross_species_exact_match = base + 53,
     semapv_cross_species_narrow_match = base + 54,
     semapv_cross_species_broad_match = base + 55,
     semapv_mapping_chaining = base + 56,
     semapv_mapping_inversion = base + 57,
     sssom_mapping = base + 58,
     sssom_subject_id = base + 59,
     sssom_predicate_id = base + 60,
     sssom_object_id = base + 61,
     sssom_mapping_justification = base + 62,
     sssom_confidence = base + 63,
     sssom_predicate_modifier = base + 64,
     sssom_derived_from = base + 65,
     horndb_not_exact_match = base + 66\<rparr>"

text \<open>The terms of a vocabulary, in field order.\<close>

definition terms_of :: "vocabulary \<Rightarrow> u64 list" where
  "terms_of v = [
     rdf_type v, rdf_first v, rdf_rest v,
     rdf_nil v, rdfs_sub_class_of v, rdfs_sub_property_of v,
     rdfs_domain v, rdfs_range v, owl_class v,
     owl_thing v, owl_nothing v, owl_same_as v,
     owl_different_from v, owl_equivalent_class v, owl_equivalent_property v,
     owl_inverse_of v, owl_functional_property v, owl_inverse_functional_property v,
     owl_symmetric_property v, owl_transitive_property v, owl_irreflexive_property v,
     owl_reflexive_property v, owl_asymmetric_property v, owl_property_disjoint_with v,
     owl_disjoint_with v, owl_complement_of v, owl_intersection_of v,
     owl_union_of v, owl_some_values_from v, owl_all_values_from v,
     owl_has_value v, owl_on_property v, owl_max_cardinality v,
     owl_max_qualified_cardinality v, owl_on_class v, owl_source_individual v,
     owl_assertion_property v, owl_target_individual v, owl_target_value v,
     owl_object_property v, owl_property_chain_axiom v, owl_has_key v,
     owl_all_disjoint_classes v, owl_all_disjoint_properties v, owl_all_different v,
     owl_members v, owl_distinct_members v, owl_named_individual v,
     skos_exact_match v, skos_close_match v, skos_broad_match v,
     skos_narrow_match v, skos_related_match v, semapv_cross_species_exact_match v,
     semapv_cross_species_narrow_match v, semapv_cross_species_broad_match v, semapv_mapping_chaining v,
     semapv_mapping_inversion v, sssom_mapping v, sssom_subject_id v,
     sssom_predicate_id v, sssom_object_id v, sssom_mapping_justification v,
     sssom_confidence v, sssom_predicate_modifier v, sssom_derived_from v,
     horndb_not_exact_match v]"

lemma terms_of_synthetic: "terms_of (synthetic base) = map (\<lambda>k. base + of_nat k) [0..<67]"
  by (simp add: terms_of_def synthetic_def upt_rec)

text \<open>The synthetic vocabulary gives its 67 terms pairwise different identifiers, for every
  base, also where the counter wraps around.\<close>

theorem synthetic_distinct: "distinct (terms_of (synthetic base))"
proof -
  have "inj_on (\<lambda>k. base + of_nat k :: u64) {0..<67}"
    by (rule inj_onI) (simp add: word_of_nat_eq_iff take_bit_nat_eq_self)
  then show ?thesis by (simp only: terms_of_synthetic distinct_map set_upt distinct_upt)
qed

end
