(* ===== verification/Owl_Store.thy ===== *)
theory Owl_Store imports Owl_Vocab "HOL-Library.Product_Lexorder" begin

text \<open>
  \<^verbatim>\<open>crates/owlrl/src/store.rs\<close>, \<^verbatim>\<open>delta.rs\<close> and \<^verbatim>\<open>provenance.rs\<close>: the in-memory triple store with its
  object index, proofs and inferred set, the delta tables of a round, and proof trees. The order in
  which hash containers are iterated is an argument \<open>h\<close>.
\<close>

record orders =
  by_id :: "u64 iter_order"
  by_pair :: "pair iter_order"
  by_triple :: "triple iter_order"

text \<open>The ascending orders, for concrete runs.\<close>

definition asc :: orders where
  "asc = \<lparr>by_id = ascending, by_pair = ascending, by_triple = ascending\<rparr>"

record provenance =
  prov_rule :: string
  prov_premises :: "triple list"

datatype proof_tree =
  Asserted triple
| Derived triple string "proof_tree list"
| Cycle triple

section \<open>The store\<close>

record mem_store =
  ms_vocab :: vocabulary
  ms_by_pred :: "u64 \<rightharpoonup> pair set"
  ms_obj_index :: "u64 \<rightharpoonup> (u64 \<rightharpoonup> u64 set)"
  ms_proofs :: "triple \<rightharpoonup> provenance"
  ms_inferred :: "triple set"
  ms_card_restrictions :: "max_card_restriction list"
  ms_qual_card_restrictions :: "qual_max_card_restriction list"

definition ms_new :: "vocabulary \<Rightarrow> mem_store" where
  "ms_new v = \<lparr>ms_vocab = v, ms_by_pred = Map.empty, ms_obj_index = Map.empty, ms_proofs = Map.empty,
     ms_inferred = {}, ms_card_restrictions = [], ms_qual_card_restrictions = []\<rparr>"

definition entry_or :: "'b \<Rightarrow> ('a \<rightharpoonup> 'b) \<Rightarrow> 'a \<Rightarrow> 'b" where
  "entry_or d m k = (case m k of None \<Rightarrow> d | Some v \<Rightarrow> v)"

definition index_insert :: "triple \<Rightarrow> mem_store \<Rightarrow> mem_store" where
  "index_insert t m = (case t of (s, p, ob) \<Rightarrow>
     let by_obj = entry_or Map.empty (ms_obj_index m) p in
     m\<lparr>ms_obj_index := (ms_obj_index m)(p \<mapsto> by_obj(ob \<mapsto> insert s (entry_or {} by_obj ob)))\<rparr>)"

definition index_remove :: "triple \<Rightarrow> mem_store \<Rightarrow> mem_store" where
  "index_remove t m = (case t of (s, p, ob) \<Rightarrow>
     (case ms_obj_index m p of
        None \<Rightarrow> m
      | Some by_obj \<Rightarrow>
          (let by_obj' = (case by_obj ob of
               None \<Rightarrow> by_obj
             | Some subjects \<Rightarrow>
                 if subjects - {s} = {} then by_obj(ob := None) else by_obj(ob \<mapsto> subjects - {s}))
           in m\<lparr>ms_obj_index := (ms_obj_index m)
                (p := (if by_obj' = Map.empty then None else Some by_obj'))\<rparr>)))"

text \<open>The pairs stored under a predicate, and what inserting one does.\<close>

definition extent :: "mem_store \<Rightarrow> u64 \<Rightarrow> pair set" where
  "extent m p = entry_or {} (ms_by_pred m) p"

definition add_pair :: "triple \<Rightarrow> mem_store \<Rightarrow> bool \<times> mem_store" where
  "add_pair t m = (case t of (s, p, ob) \<Rightarrow>
     let fresh = ((s, ob) \<notin> extent m p);
         m' = m\<lparr>ms_by_pred := (ms_by_pred m)(p \<mapsto> insert (s, ob) (extent m p))\<rparr>
     in (fresh, if fresh then index_insert t m' else m'))"

definition ms_assert :: "triple \<Rightarrow> mem_store \<Rightarrow> bool \<times> mem_store" where
  "ms_assert t m = add_pair t m"

definition assert_all :: "triple list \<Rightarrow> mem_store \<Rightarrow> mem_store" where
  "assert_all ts m = fold (\<lambda>t m. snd (ms_assert t m)) ts m"

definition insert_inferred :: "triple \<Rightarrow> provenance \<Rightarrow> mem_store \<Rightarrow> bool \<times> mem_store" where
  "insert_inferred t prov m =
     (let (fresh, m') = add_pair t m in
      (fresh, if fresh
         then m'\<lparr>ms_inferred := insert t (ms_inferred m'), ms_proofs := (ms_proofs m')(t \<mapsto> prov)\<rparr>
         else m'))"

definition remove_inferred :: "triple \<Rightarrow> mem_store \<Rightarrow> mem_store" where
  "remove_inferred t m = (case t of (s, p, ob) \<Rightarrow>
     index_remove t (case ms_by_pred m p of
         None \<Rightarrow> m
       | Some S \<Rightarrow> m\<lparr>ms_by_pred := (ms_by_pred m)
           (p := (if S - {(s, ob)} = {} then None else Some (S - {(s, ob)})))\<rparr>))"

definition clear_inferred :: "orders \<Rightarrow> mem_store \<Rightarrow> mem_store" where
  "clear_inferred h m =
     (let to_remove = iter (by_triple h) (ms_inferred m);
          m' = fold remove_inferred to_remove (m\<lparr>ms_inferred := {}\<rparr>)
      in m'\<lparr>ms_proofs := Map.empty\<rparr>)"

definition is_inferred :: "mem_store \<Rightarrow> triple \<Rightarrow> bool" where
  "is_inferred m t \<longleftrightarrow> t \<in> ms_inferred m"

definition ms_contains :: "mem_store \<Rightarrow> triple \<Rightarrow> bool" where
  "ms_contains m t = (case t of (s, p, ob) \<Rightarrow>
     (case ms_by_pred m p of None \<Rightarrow> False | Some S \<Rightarrow> (s, ob) \<in> S))"

definition scan_predicate :: "orders \<Rightarrow> mem_store \<Rightarrow> u64 \<Rightarrow> triple list" where
  "scan_predicate h m p = (case ms_by_pred m p of
       Some S \<Rightarrow> map (\<lambda>(s, ob). (s, p, ob)) (iter (by_pair h) S)
     | None \<Rightarrow> [])"

definition none_or :: "u64 option \<Rightarrow> u64 \<Rightarrow> bool" where
  "none_or k x = (case k of None \<Rightarrow> True | Some y \<Rightarrow> y = x)"

definition probe :: "orders \<Rightarrow> mem_store \<Rightarrow> u64 option \<Rightarrow> u64 \<Rightarrow> u64 option \<Rightarrow> triple list" where
  "probe h m s p ob = (case (s, ob) of
       (None, Some oo) \<Rightarrow>
         (case Option.bind (ms_obj_index m p) (\<lambda>by_obj. by_obj oo) of
            Some subjects \<Rightarrow> map (\<lambda>ss. (ss, p, oo)) (iter (by_id h) subjects)
          | None \<Rightarrow> [])
     | _ \<Rightarrow>
         (case ms_by_pred m p of
            Some S \<Rightarrow> map (\<lambda>(ss, oo). (ss, p, oo))
              (filter (\<lambda>(ss, oo). none_or s ss \<and> none_or ob oo) (iter (by_pair h) S))
          | None \<Rightarrow> []))"

definition probe_any_predicate :: "orders \<Rightarrow> mem_store \<Rightarrow> u64 option \<Rightarrow> u64 option \<Rightarrow> triple list" where
  "probe_any_predicate h m s ob = concat (map (\<lambda>p. case ms_by_pred m p of
       None \<Rightarrow> []
     | Some S \<Rightarrow> map (\<lambda>(ss, oo). (ss, p, oo))
         (filter (\<lambda>(ss, oo). none_or s ss \<and> none_or ob oo) (iter (by_pair h) S)))
     (iter (by_id h) (dom (ms_by_pred m))))"

definition all_triples :: "mem_store \<Rightarrow> triple set" where
  "all_triples m = {(s, p, ob). (s, ob) \<in> extent m p}"

section \<open>The invariant\<close>

text \<open>
  The object index mirrors the predicate extents, holds no empty shell, and the inferred triples are
  stored and are exactly those with a proof.
\<close>

definition idx :: "mem_store \<Rightarrow> u64 \<Rightarrow> u64 \<Rightarrow> u64 set" where
  "idx m p ob = entry_or {} (entry_or Map.empty (ms_obj_index m) p) ob"

definition mirrored :: "mem_store \<Rightarrow> bool" where
  "mirrored m \<longleftrightarrow> (\<forall>p ob s. s \<in> idx m p ob \<longleftrightarrow> (s, ob) \<in> extent m p)"

definition no_shells :: "mem_store \<Rightarrow> bool" where
  "no_shells m \<longleftrightarrow> (\<forall>p. ms_obj_index m p \<noteq> Some Map.empty)
     \<and> (\<forall>p f ob. ms_obj_index m p = Some f \<longrightarrow> f ob \<noteq> Some {})"

definition ms_inv :: "mem_store \<Rightarrow> bool" where
  "ms_inv m \<longleftrightarrow> mirrored m \<and> no_shells m \<and> ms_inferred m \<subseteq> all_triples m
     \<and> dom (ms_proofs m) = ms_inferred m"

lemma all_triples_iff: "(s, p, ob) \<in> all_triples m \<longleftrightarrow> (s, ob) \<in> extent m p"
  by (simp add: all_triples_def)

lemma contains_iff [simp]: "ms_contains m t \<longleftrightarrow> t \<in> all_triples m"
  by (cases t) (auto simp: ms_contains_def all_triples_def extent_def entry_or_def split: option.splits)

lemma extent_update [simp]:
  "extent (m\<lparr>ms_by_pred := (ms_by_pred m)(p \<mapsto> S)\<rparr>) q = (if q = p then S else extent m q)"
  by (simp add: extent_def entry_or_def)

lemma extent_prune [simp]:
  "extent (m\<lparr>ms_by_pred := (ms_by_pred m)(p := (if S = {} then None else Some S))\<rparr>) q
     = (if q = p then S else extent m q)"
  by (simp add: extent_def entry_or_def)

lemma extent_other [simp]:
  "extent (m\<lparr>ms_obj_index := x\<rparr>) q = extent m q" "extent (m\<lparr>ms_inferred := I\<rparr>) q = extent m q"
  "extent (m\<lparr>ms_proofs := P\<rparr>) q = extent m q"
  by (simp_all add: extent_def)

lemma idx_other [simp]:
  "idx (m\<lparr>ms_by_pred := x\<rparr>) p ob = idx m p ob" "idx (m\<lparr>ms_inferred := I\<rparr>) p ob = idx m p ob"
  "idx (m\<lparr>ms_proofs := P\<rparr>) p ob = idx m p ob"
  by (simp_all add: idx_def)

lemma index_insert_fields [simp]:
  "ms_by_pred (index_insert t m) = ms_by_pred m" "ms_inferred (index_insert t m) = ms_inferred m"
  "ms_proofs (index_insert t m) = ms_proofs m" "ms_vocab (index_insert t m) = ms_vocab m"
  "ms_card_restrictions (index_insert t m) = ms_card_restrictions m"
  "ms_qual_card_restrictions (index_insert t m) = ms_qual_card_restrictions m"
  "extent (index_insert t m) q = extent m q"
  by (cases t; simp add: index_insert_def Let_def extent_def)+

lemma idx_index_insert [simp]:
  "idx (index_insert (s, p, ob) m) q r = (if q = p \<and> r = ob then insert s (idx m p ob) else idx m q r)"
  by (auto simp: idx_def index_insert_def Let_def entry_or_def split: option.splits)

lemma no_shells_insert: "no_shells m \<Longrightarrow> no_shells (index_insert t m)"
  by (cases t) (auto simp: no_shells_def index_insert_def Let_def entry_or_def
      split: option.splits if_splits)

lemma index_remove_fields [simp]:
  "ms_by_pred (index_remove t m) = ms_by_pred m" "ms_inferred (index_remove t m) = ms_inferred m"
  "ms_proofs (index_remove t m) = ms_proofs m" "ms_vocab (index_remove t m) = ms_vocab m"
  "extent (index_remove t m) q = extent m q"
  by (cases t; simp add: index_remove_def Let_def extent_def split: option.splits)+

lemma idx_index_remove [simp]:
  "idx (index_remove (s, p, ob) m) q r = (if q = p \<and> r = ob then idx m p ob - {s} else idx m q r)"
proof (cases "ms_obj_index m p")
  case None
  then show ?thesis by (auto simp: idx_def index_remove_def entry_or_def)
next
  case (Some f)
  define f' where "f' = (case f ob of None \<Rightarrow> f | Some S \<Rightarrow>
      if S - {s} = {} then f(ob := None) else f(ob \<mapsto> S - {s}))"
  have f': "entry_or {} f' r = (if r = ob then entry_or {} f ob - {s} else entry_or {} f r)" for r
    by (auto simp: f'_def entry_or_def split: option.splits)
  have "index_remove (s, p, ob) m = m\<lparr>ms_obj_index := (ms_obj_index m)
      (p := (if f' = Map.empty then None else Some f'))\<rparr>"
    by (simp add: index_remove_def Some f'_def Let_def)
  then have "idx (index_remove (s, p, ob) m) q r = (if q = p then entry_or {} f' r else idx m q r)"
    by (auto simp: idx_def entry_or_def)
  then show ?thesis using f' by (auto simp: idx_def Some entry_or_def)
qed

lemma no_shells_remove:
  assumes "no_shells m" shows "no_shells (index_remove t m)"
proof -
  obtain s p ob where t: "t = (s, p, ob)" by (cases t)
  show ?thesis
  proof (cases "ms_obj_index m p")
    case None then show ?thesis using assms by (simp add: t index_remove_def)
  next
    case (Some f)
    define f' where "f' = (case f ob of None \<Rightarrow> f | Some S \<Rightarrow>
        if S - {s} = {} then f(ob := None) else f(ob \<mapsto> S - {s}))"
    have f: "f r \<noteq> Some {}" for r using assms Some by (auto simp: no_shells_def)
    have "f' r \<noteq> Some {}" for r
      using f [of r] by (auto simp: f'_def split: option.splits)
    moreover have "index_remove t m = m\<lparr>ms_obj_index := (ms_obj_index m)
        (p := (if f' = Map.empty then None else Some f'))\<rparr>"
      by (simp add: t index_remove_def Some f'_def Let_def)
    ultimately show ?thesis using assms by (auto simp: no_shells_def)
  qed
qed

section \<open>What the operations do\<close>

lemma add_pair_spec:
  "fst (add_pair t m) \<longleftrightarrow> t \<notin> all_triples m"
  "all_triples (snd (add_pair t m)) = insert t (all_triples m)"
  "ms_inferred (snd (add_pair t m)) = ms_inferred m" "ms_proofs (snd (add_pair t m)) = ms_proofs m"
  "ms_vocab (snd (add_pair t m)) = ms_vocab m"
  "ms_card_restrictions (snd (add_pair t m)) = ms_card_restrictions m"
  "ms_qual_card_restrictions (snd (add_pair t m)) = ms_qual_card_restrictions m"
  by (cases t; auto simp: add_pair_def Let_def all_triples_def split: if_splits)+

lemma mirrored_add: "mirrored m \<Longrightarrow> mirrored (snd (add_pair t m))"
  by (cases t) (auto simp: mirrored_def add_pair_def Let_def split: if_splits)

lemma add_pair_inv:
  assumes "mirrored m \<and> no_shells m" shows "mirrored (snd (add_pair t m)) \<and> no_shells (snd (add_pair t m))"
proof
  show "mirrored (snd (add_pair t m))" using assms mirrored_add by blast
  obtain s p ob where t: "t = (s, p, ob)" by (cases t)
  have "no_shells (m\<lparr>ms_by_pred := x\<rparr>)" for x using assms by (simp add: no_shells_def)
  then show "no_shells (snd (add_pair t m))"
    by (simp add: t add_pair_def Let_def no_shells_insert)
qed

lemma ms_inv_new [simp]: "ms_inv (ms_new v)" "all_triples (ms_new v) = {}" "ms_vocab (ms_new v) = v"
    "ms_inferred (ms_new v) = {}"
  by (auto simp: ms_inv_def ms_new_def mirrored_def no_shells_def idx_def extent_def entry_or_def all_triples_def)

lemma ms_assert_spec:
  assumes "ms_inv m"
  shows "ms_inv (snd (ms_assert t m)) \<and> (fst (ms_assert t m) \<longleftrightarrow> t \<notin> all_triples m)
    \<and> all_triples (snd (ms_assert t m)) = insert t (all_triples m)
    \<and> ms_inferred (snd (ms_assert t m)) = ms_inferred m"
  using assms add_pair_inv [of m t] by (auto simp: ms_assert_def ms_inv_def add_pair_spec)

lemma assert_all_spec:
  "ms_inv m \<Longrightarrow> ms_inv (assert_all ts m) \<and> all_triples (assert_all ts m) = set ts \<union> all_triples m
     \<and> ms_inferred (assert_all ts m) = ms_inferred m"
proof (induction ts arbitrary: m)
  case (Cons t ts)
  then show ?case using ms_assert_spec [OF Cons.prems, of t] by (auto simp: assert_all_def)
qed (simp add: assert_all_def)

lemma insert_inferred_spec:
  assumes "ms_inv m"
  shows "ms_inv (snd (insert_inferred t prov m)) \<and> (fst (insert_inferred t prov m) \<longleftrightarrow> t \<notin> all_triples m)
    \<and> all_triples (snd (insert_inferred t prov m)) = insert t (all_triples m)
    \<and> ms_inferred (snd (insert_inferred t prov m))
        = (if t \<in> all_triples m then ms_inferred m else insert t (ms_inferred m))
    \<and> ms_proofs (snd (insert_inferred t prov m))
        = (if t \<in> all_triples m then ms_proofs m else (ms_proofs m)(t \<mapsto> prov))"
proof -
  obtain fresh m' where a: "add_pair t m = (fresh, m')" by (cases "add_pair t m")
  note s = add_pair_spec [of t m, unfolded a, simplified] and i = add_pair_inv [of m t, unfolded a, simplified]
  let ?m = "m'\<lparr>ms_inferred := insert t (ms_inferred m'), ms_proofs := (ms_proofs m')(t \<mapsto> prov)\<rparr>"
  have "all_triples ?m = all_triples m'" by (simp add: all_triples_def)
  moreover have "mirrored ?m \<and> no_shells ?m \<longleftrightarrow> mirrored m' \<and> no_shells m'"
    by (simp add: mirrored_def no_shells_def)
  ultimately show ?thesis
    using assms s i by (auto simp: insert_inferred_def a ms_inv_def)
qed

lemma insert_inferred_fields [simp]:
  "ms_vocab (snd (insert_inferred t prov m)) = ms_vocab m"
  "ms_card_restrictions (snd (insert_inferred t prov m)) = ms_card_restrictions m"
  "ms_qual_card_restrictions (snd (insert_inferred t prov m)) = ms_qual_card_restrictions m"
  by (simp_all add: insert_inferred_def case_prod_beta Let_def add_pair_spec)

lemma remove_inferred_spec:
  assumes "mirrored m \<and> no_shells m"
  shows "mirrored (remove_inferred t m) \<and> no_shells (remove_inferred t m)
    \<and> all_triples (remove_inferred t m) = all_triples m - {t}
    \<and> ms_inferred (remove_inferred t m) = ms_inferred m"
proof -
  obtain s p ob where t: "t = (s, p, ob)" by (cases t)
  define m1 where "m1 = (case ms_by_pred m p of None \<Rightarrow> m
       | Some S \<Rightarrow> m\<lparr>ms_by_pred := (ms_by_pred m)
           (p := (if S - {(s, ob)} = {} then None else Some (S - {(s, ob)})))\<rparr>)"
  have e: "extent m1 q = (if q = p then extent m p - {(s, ob)} else extent m q)" for q
    by (auto simp: m1_def extent_def entry_or_def split: option.splits)
  have x: "idx m1 q r = idx m q r" "ms_inferred m1 = ms_inferred m" for q r
    by (simp_all add: m1_def split: option.splits)
  have n: "no_shells m1" using assms by (simp add: m1_def no_shells_def split: option.splits)
  have r: "remove_inferred t m = index_remove (s, p, ob) m1"
    by (simp add: remove_inferred_def t m1_def)
  show ?thesis
    unfolding r using assms n x
    by (auto simp: mirrored_def e all_triples_def t no_shells_remove split: if_splits)
qed

lemma clear_inferred_spec:
  assumes "ms_inv m"
  shows "ms_inv (clear_inferred h m) \<and> all_triples (clear_inferred h m) = all_triples m - ms_inferred m
    \<and> ms_inferred (clear_inferred h m) = {}"
proof -
  have fold: "mirrored m \<and> no_shells m \<Longrightarrow> mirrored (fold remove_inferred ts m) \<and> no_shells (fold remove_inferred ts m)
    \<and> all_triples (fold remove_inferred ts m) = all_triples m - set ts
    \<and> ms_inferred (fold remove_inferred ts m) = ms_inferred m" for ts m
  proof (induction ts arbitrary: m)
    case (Cons t ts)
    then show ?case using remove_inferred_spec [OF Cons.prems, of t] by auto
  qed simp
  let ?m = "m\<lparr>ms_inferred := {}\<rparr>" and ?ts = "iter (by_triple h) (ms_inferred m)"
  have "mirrored ?m \<and> no_shells ?m" using assms by (simp add: ms_inv_def mirrored_def no_shells_def)
  note f = fold [OF this, of ?ts]
  have "all_triples ?m = all_triples m" by (simp add: all_triples_def)
  then show ?thesis
    using f by (auto simp: clear_inferred_def Let_def ms_inv_def mirrored_def no_shells_def all_triples_def)
qed

text \<open>Scanning and probing list the matching triples, once each.\<close>

lemma scan_spec [simp]: "set (scan_predicate h m p) = {(s, q, ob). q = p \<and> (s, p, ob) \<in> all_triples m}"
  by (force simp: scan_predicate_def all_triples_def extent_def entry_or_def split: option.splits)

lemma distinct_scan [simp]: "distinct (scan_predicate h m p)"
  by (auto simp: scan_predicate_def distinct_map inj_on_def split: option.splits)

lemma probe_set:
  assumes "mirrored m"
  shows "set (probe h m s p ob) =
    {(x, q, y). q = p \<and> (x, p, y) \<in> all_triples m \<and> none_or s x \<and> none_or ob y}"
proof (cases "s = None \<and> ob \<noteq> None")
  case True
  then obtain oo where ob: "ob = Some oo" "s = None" by auto
  have "set (probe h m s p ob) = (\<lambda>ss. (ss, p, oo)) ` idx m p oo"
    by (auto simp: probe_def ob idx_def entry_or_def split: option.splits)
  then show ?thesis using assms ob by (auto simp: mirrored_def none_or_def all_triples_def)
next
  case False
  then have "probe h m s p ob = (case ms_by_pred m p of
            Some S \<Rightarrow> map (\<lambda>(ss, oo). (ss, p, oo))
              (filter (\<lambda>(ss, oo). none_or s ss \<and> none_or ob oo) (iter (by_pair h) S))
          | None \<Rightarrow> [])"
    by (auto simp: probe_def split: option.splits)
  then show ?thesis
    by (force simp: all_triples_def extent_def entry_or_def split: option.splits)
qed

lemma distinct_probe [simp]: "distinct (probe h m s p ob)"
  by (auto simp: probe_def distinct_map inj_on_def split: option.splits)

lemma probe_any_set:
  "set (probe_any_predicate h m s ob) = {(x, q, y). (x, q, y) \<in> all_triples m \<and> none_or s x \<and> none_or ob y}"
proof -
  have "set (case ms_by_pred m p of None \<Rightarrow> [] | Some S \<Rightarrow> map (\<lambda>(ss, oo). (ss, p, oo))
         (filter (\<lambda>(ss, oo). none_or s ss \<and> none_or ob oo) (iter (by_pair h) S)))
      = {(x, q, y). q = p \<and> (x, y) \<in> extent m p \<and> none_or s x \<and> none_or ob y}" for p
    by (cases "ms_by_pred m p") (force simp: extent_def entry_or_def)+
  then have "set (probe_any_predicate h m s ob) = (\<Union>p\<in>dom (ms_by_pred m).
     {(x, q, y). q = p \<and> (x, y) \<in> extent m p \<and> none_or s x \<and> none_or ob y})"
    by (simp add: probe_any_predicate_def)
  also have "\<dots> = {(x, q, y). (x, q, y) \<in> all_triples m \<and> none_or s x \<and> none_or ob y}"
    by (auto simp: all_triples_def extent_def entry_or_def split: option.splits)
  finally show ?thesis .
qed

section \<open>Delta tables\<close>

record delta =
  d_triples :: "triple set"
  d_proofs :: "triple \<rightharpoonup> provenance"

definition delta_new :: delta where
  "delta_new = \<lparr>d_triples = {}, d_proofs = Map.empty\<rparr>"

definition delta_insert :: "triple \<Rightarrow> provenance \<Rightarrow> delta \<Rightarrow> delta" where
  "delta_insert t prov d = (if t \<notin> d_triples d
     then d\<lparr>d_triples := insert t (d_triples d), d_proofs := (d_proofs d)(t \<mapsto> prov)\<rparr> else d)"

definition delta_contains :: "delta \<Rightarrow> triple \<Rightarrow> bool" where
  "delta_contains d t \<longleftrightarrow> t \<in> d_triples d"

definition delta_is_empty :: "delta \<Rightarrow> bool" where
  "delta_is_empty d \<longleftrightarrow> d_triples d = {}"

definition delta_len :: "delta \<Rightarrow> nat" where
  "delta_len d = card (d_triples d)"

definition delta_iter :: "orders \<Rightarrow> delta \<Rightarrow> (triple \<times> provenance) list" where
  "delta_iter h d = map (\<lambda>t. (t, the (d_proofs d t))) (iter (by_triple h) (d_triples d))"

definition dirty_predicates :: "delta \<Rightarrow> u64 set" where
  "dirty_predicates d = (fst \<circ> snd) ` d_triples d"

definition merge_step :: "(triple \<rightharpoonup> provenance) \<Rightarrow> triple \<Rightarrow> delta \<Rightarrow> delta" where
  "merge_step proofs t d = (if t \<in> d_triples d then d
     else (let d' = d\<lparr>d_triples := insert t (d_triples d)\<rparr> in
       case proofs t of None \<Rightarrow> d' | Some p \<Rightarrow> d'\<lparr>d_proofs := (d_proofs d')(t \<mapsto> p)\<rparr>))"

definition delta_merge :: "orders \<Rightarrow> delta \<Rightarrow> delta \<Rightarrow> delta" where
  "delta_merge h other d = fold (merge_step (d_proofs other)) (iter (by_triple h) (d_triples other)) d"

definition delta_subtract :: "triple set \<Rightarrow> delta \<Rightarrow> delta" where
  "delta_subtract existing d = d\<lparr>d_triples := d_triples d - existing,
     d_proofs := (\<lambda>t. if t \<in> existing then None else d_proofs d t)\<rparr>"

text \<open>Every triple of a delta carries a proof, which is why indexing the proofs cannot panic.\<close>

definition delta_ok :: "delta \<Rightarrow> bool" where
  "delta_ok d \<longleftrightarrow> dom (d_proofs d) = d_triples d"

lemma delta_ok_new [simp]: "delta_ok delta_new" "d_triples delta_new = {}"
  by (simp_all add: delta_ok_def delta_new_def)

lemma delta_insert_triples [simp]: "d_triples (delta_insert t p d) = insert t (d_triples d)"
  by (auto simp: delta_insert_def)

lemma delta_ok_insert [simp]: "delta_ok d \<Longrightarrow> delta_ok (delta_insert t p d)"
  by (auto simp: delta_ok_def delta_insert_def)

lemma delta_ok_subtract: "delta_ok d \<Longrightarrow> delta_ok (delta_subtract X d)"
  by (auto simp: delta_ok_def delta_subtract_def dom_def split: if_splits)

lemma delta_contains_iff [simp]: "delta_contains d t \<longleftrightarrow> t \<in> d_triples d"
  by (simp add: delta_contains_def)

lemma delta_iter_fst [simp]: "map fst (delta_iter h d) = iter (by_triple h) (d_triples d)"
  by (simp add: delta_iter_def comp_def)

text \<open>Merging keeps the receiver's proofs and takes the other's for the new triples.\<close>

lemma merge_fold:
  "d_triples (fold (merge_step P) ts d) = set ts \<union> d_triples d"
  "d_proofs (fold (merge_step P) ts d) t
     = (if t \<in> set ts \<and> t \<notin> d_triples d \<and> P t \<noteq> None then P t else d_proofs d t)"
proof (induction ts arbitrary: d)
  case (Cons t' ts)
  case 1 show ?case using Cons by (auto simp: merge_step_def Let_def split: option.splits)
  case 2 show ?case using Cons by (auto simp: merge_step_def Let_def split: option.splits)
qed simp_all

lemma delta_merge_spec:
  assumes "delta_ok d" and "delta_ok e"
  shows "delta_ok (delta_merge h e d)" and "d_triples (delta_merge h e d) = d_triples e \<union> d_triples d"
    and "d_proofs (delta_merge h e d) = d_proofs e ++ d_proofs d"
proof -
  have p: "d_proofs (delta_merge h e d) t = (d_proofs e ++ d_proofs d) t" for t
    using assms by (cases "d_proofs d t"; cases "d_proofs e t")
      (auto simp: delta_merge_def merge_fold delta_ok_def map_add_def)
  then show eq: "d_proofs (delta_merge h e d) = d_proofs e ++ d_proofs d" by auto
  show t: "d_triples (delta_merge h e d) = d_triples e \<union> d_triples d"
    by (simp add: delta_merge_def merge_fold)
  show "delta_ok (delta_merge h e d)"
    using assms t eq
    by (simp add: delta_ok_def Un_commute)
qed

section \<open>Proof trees\<close>

text \<open>
  The recursion carries the set of triples being expanded above; it grows along every branch, which
  is why the expansion ends on cyclic derivations too.
\<close>

function proof_tree_inner :: "mem_store \<Rightarrow> triple set \<Rightarrow> triple \<Rightarrow> proof_tree" where
  "proof_tree_inner m path t =
     (case ms_proofs m t of
        None \<Rightarrow> Asserted t
      | Some prov \<Rightarrow>
          if t \<in> path then Cycle t
          else Derived t (prov_rule prov) (map (proof_tree_inner m (insert t path)) (prov_premises prov)))"
  by pat_completeness auto
termination
  by (relation "measure (\<lambda>(m, path, t). card (- path))") (auto intro: card_Compl_insert)

definition proof_tree_of :: "mem_store \<Rightarrow> triple \<Rightarrow> proof_tree" where
  "proof_tree_of m t = proof_tree_inner m {} t"

fun conclusion :: "proof_tree \<Rightarrow> triple" where
  "conclusion (Asserted t) = t"
| "conclusion (Derived t r ps) = t"
| "conclusion (Cycle t) = t"

text \<open>Every node of a valid tree is backed by the store's single-level proofs.\<close>

fun valid_tree :: "mem_store \<Rightarrow> triple set \<Rightarrow> proof_tree \<Rightarrow> bool" where
  "valid_tree m path (Asserted t) \<longleftrightarrow> ms_proofs m t = None"
| "valid_tree m path (Cycle t) \<longleftrightarrow> t \<in> path \<and> ms_proofs m t \<noteq> None"
| "valid_tree m path (Derived t r ps) \<longleftrightarrow> t \<notin> path
     \<and> (\<exists>prov. ms_proofs m t = Some prov \<and> prov_rule prov = r \<and> map conclusion ps = prov_premises prov)
     \<and> list_all (valid_tree m (insert t path)) ps"

declare proof_tree_inner.simps [simp del]

lemma conclusion_inner [simp]: "conclusion (proof_tree_inner m path t) = t"
  by (subst proof_tree_inner.simps) (simp split: option.splits)

lemma valid_inner: "valid_tree m path (proof_tree_inner m path t)"
proof (induction m path t rule: proof_tree_inner.induct)
  case (1 m path t)
  show ?case
    by (subst proof_tree_inner.simps)
      (use 1 in \<open>auto simp: list_all_iff comp_def split: option.splits\<close>)
qed

section \<open>Properties\<close>

text \<open>On a well-formed store a probe lists exactly the stored triples matching the bound slots,
  each once, whichever of the two indexes answers it; so do the predicate scan and the probe with an
  unbound predicate.\<close>

theorem probe_exact:
  assumes "ms_inv m"
  shows "set (probe h m s p ob) = {(x, q, y). q = p \<and> ms_contains m (x, p, y)
           \<and> (\<forall>k. s = Some k \<longrightarrow> x = k) \<and> (\<forall>k. ob = Some k \<longrightarrow> y = k)}
    \<and> distinct (probe h m s p ob)
    \<and> set (scan_predicate h m p) = set (probe h m None p None)
    \<and> set (probe_any_predicate h m s ob) = (\<Union>q. set (probe h m s q ob))"
proof -
  have m: "mirrored m" using assms by (simp add: ms_inv_def)
  have n: "none_or k x \<longleftrightarrow> (\<forall>y. k = Some y \<longrightarrow> x = y)" for k x
    by (auto simp: none_or_def split: option.splits)
  show ?thesis
    unfolding probe_set [OF m] probe_any_set scan_spec by (auto simp: n)
qed

lemma probe_exact_witness:
  "ms_inv (ms_new (synthetic 0)) \<and> set (probe asc (ms_new (synthetic 0)) None 7 (Some 3)) = {}"
proof (rule conjI [OF ms_inv_new(1)])
  show "set (probe asc (ms_new (synthetic 0)) None 7 (Some 3)) = {}"
    using probe_exact [OF ms_inv_new(1), THEN conjunct1, of asc "synthetic 0" None 7 "Some 3"]
    by (simp only: contains_iff ms_inv_new) simp
qed

text \<open>C35: Asserting, inserting an inferred triple and clearing keep the store well-formed: the object
  index stays the mirror of the predicate extents without empty shells, the inferred set stays the
  domain of the proofs; each operation reports and changes membership exactly.\<close>

theorem store_operations_exact:
  assumes "ms_inv m"
  shows "ms_inv (snd (ms_assert t m)) \<and> ms_inv (snd (insert_inferred t prov m)) \<and> ms_inv (clear_inferred h m)
    \<and> (fst (ms_assert t m) \<longleftrightarrow> \<not> ms_contains m t) \<and> (fst (insert_inferred t prov m) \<longleftrightarrow> \<not> ms_contains m t)
    \<and> all_triples (snd (ms_assert t m)) = insert t (all_triples m)
    \<and> all_triples (snd (insert_inferred t prov m)) = insert t (all_triples m)
    \<and> (ms_contains m t \<or> ms_proofs (snd (insert_inferred t prov m)) t = Some prov)
    \<and> all_triples (clear_inferred h m) = {u \<in> all_triples m. \<not> is_inferred m u}"
  using ms_assert_spec [OF assms, of t] insert_inferred_spec [OF assms, of t prov]
    clear_inferred_spec [OF assms, of h]
  by (auto simp: is_inferred_def)

lemma store_operations_exact_witness:
  "ms_inv (ms_new (synthetic 0)) \<and> ms_inv (snd (ms_assert (1, 2, 3) (ms_new (synthetic 0))))"
  using store_operations_exact [of "ms_new (synthetic 0)" "(1, 2, 3)"] by auto

text \<open>C36: Expanding a proof always ends, on cyclic derivations too; the tree concludes the triple
  asked for, every inner node carries the rule and premises the store recorded for it, every leaf is
  a triple without a derivation or the repetition of a triple on its own branch.\<close>

theorem proof_tree_sound:
  "conclusion (proof_tree_of m t) = t \<and> valid_tree m {} (proof_tree_of m t)"
  by (simp add: proof_tree_of_def valid_inner)

text \<open>C37: A triple that was inferred first and asserted afterwards is dropped when the inferred
  triples are cleared: the assertion is not recorded, because the pair is already stored.\<close>

theorem assertion_of_inferred_lost:
  "let m1 = snd (insert_inferred t prov (ms_new v)); m2 = snd (ms_assert t m1)
   in ms_contains m2 t \<and> \<not> ms_contains (clear_inferred h m2) t"
proof -
  define m1 where "m1 = snd (insert_inferred t prov (ms_new v))"
  define m2 where "m2 = snd (ms_assert t m1)"
  have 1: "ms_inv m1" "all_triples m1 = {t}" "ms_inferred m1 = {t}"
    using insert_inferred_spec [OF ms_inv_new(1), of t prov v] by (auto simp: m1_def)
  have 2: "ms_inv m2" "all_triples m2 = {t}" "ms_inferred m2 = {t}"
    using ms_assert_spec [OF 1(1), of t] 1 by (auto simp: m2_def)
  have "ms_contains m2 t \<and> \<not> ms_contains (clear_inferred h m2) t"
    using clear_inferred_spec [OF 2(1), of h] 2 by simp
  then show ?thesis by (simp add: Let_def m1_def m2_def)
qed

end
