(* ===== verification/Owl_Closure.thy ===== *)
theory Owl_Closure imports Owl_Store Closure_Backend begin

text \<open>
  The closure backends of the rule engine: \<^verbatim>\<open>crates/owlrl/src/backend.rs\<close> (nested-loop rule
  firing), \<^verbatim>\<open>closure_shape.rs\<close> (the rule shapes around a closure kernel) and
  \<^verbatim>\<open>graphblas_backend.rs\<close> (the kernel on Boolean matrices). A backend reads the store and returns
  the delta of derived triples. A panic of the kernel (\<^verbatim>\<open>expect\<close> on a failed library call) or a
  closure that would not return is the value \<open>None\<close>.
\<close>

section \<open>Rule firing\<close>

definition pred_edges :: "orders \<Rightarrow> mem_store \<Rightarrow> u64 \<Rightarrow> delta \<Rightarrow> pair list" where
  "pred_edges h m pred out =
     map (\<lambda>(s, p, ob). (s, ob)) (scan_predicate h m pred)
     @ map (\<lambda>(s, p, ob). (s, ob)) (filter (\<lambda>(s, p, ob). p = pred) (iter (by_triple h) (d_triples out)))"

definition insert_fresh :: "mem_store \<Rightarrow> triple \<Rightarrow> provenance \<Rightarrow> delta \<Rightarrow> delta" where
  "insert_fresh m head prov out =
     (if \<not> ms_contains m head \<and> \<not> delta_contains out head then delta_insert head prov out else out)"

definition close_transitive :: "orders \<Rightarrow> mem_store \<Rightarrow> u64 \<Rightarrow> string \<Rightarrow> delta \<Rightarrow> delta" where
  "close_transitive h m pred rule_id out =
     (let edges = pred_edges h m pred out in
      fold (\<lambda>(a, b). fold (\<lambda>(b2, c) out.
          if b = b2 then insert_fresh m (a, pred, c)
            \<lparr>prov_rule = rule_id, prov_premises = [(a, pred, b), (b, pred, c)]\<rparr> out
          else out) edges) edges out)"

definition close_symmetric :: "orders \<Rightarrow> mem_store \<Rightarrow> u64 \<Rightarrow> string \<Rightarrow> delta \<Rightarrow> delta" where
  "close_symmetric h m pred rule_id out =
     fold (\<lambda>(a, b). insert_fresh m (b, pred, a) \<lparr>prov_rule = rule_id, prov_premises = [(a, pred, b)]\<rparr>)
       (pred_edges h m pred out) out"

definition transitive_predicates :: "orders \<Rightarrow> mem_store \<Rightarrow> u64 list" where
  "transitive_predicates h m = map fst
     (filter (\<lambda>(s, p, ob). ob = owl_transitive_property (ms_vocab m)) (scan_predicate h m (rdf_type (ms_vocab m))))"

definition close_transitive_property :: "orders \<Rightarrow> mem_store \<Rightarrow> delta \<Rightarrow> delta" where
  "close_transitive_property h m out =
     fold (\<lambda>p. close_transitive h m p ''prp-trp'') (transitive_predicates h m) out"

definition firing_round :: "orders \<Rightarrow> mem_store \<Rightarrow> delta \<Rightarrow> delta" where
  "firing_round h m out =
     (let v = ms_vocab m;
          out = close_transitive h m (rdfs_sub_class_of v) ''scm-sco'' out;
          out = close_transitive h m (rdfs_sub_property_of v) ''scm-spo'' out;
          out = close_symmetric h m (owl_same_as v) ''eq-sym'' out;
          out = close_transitive h m (owl_same_as v) ''eq-trans'' out;
          out = close_transitive_property h m out;
          out = close_transitive h m (skos_exact_match v) ''sssom-t1-exact'' out;
          out = close_transitive h m (skos_broad_match v) ''sssom-t1-broad'' out;
          out = close_transitive h m (skos_narrow_match v) ''sssom-t1-narrow'' out
      in out)"

text \<open>The edges of a predicate in the store and a delta together.\<close>

definition edges_of :: "mem_store \<Rightarrow> triple set \<Rightarrow> u64 \<Rightarrow> pair set" where
  "edges_of m D p = {(s, ob). (s, p, ob) \<in> all_triples m \<union> D}"

lemma set_pred_edges [simp]: "set (pred_edges h m p out) = edges_of m (d_triples out) p"
  by (force simp: pred_edges_def edges_of_def)

lemma insert_fresh_triples [simp]:
  "d_triples (insert_fresh m t prov out) = d_triples out \<union> ({t} - all_triples m)"
  by (auto simp: insert_fresh_def)

lemma fold_triples:
  assumes "\<And>x out. x \<in> set xs \<Longrightarrow> d_triples (f x out) = d_triples out \<union> S x"
  shows "d_triples (fold f xs out) = d_triples out \<union> \<Union> (S ` set xs)"
  using assms by (induction xs arbitrary: out) auto

text \<open>What the steps do to the set of derived triples.\<close>

definition trans_step :: "mem_store \<Rightarrow> u64 \<Rightarrow> triple set \<Rightarrow> triple set" where
  "trans_step m p D = D \<union>
     ({(a, q, c). q = p \<and> (a, c) \<in> edges_of m D p O edges_of m D p} - all_triples m)"

definition sym_step :: "mem_store \<Rightarrow> u64 \<Rightarrow> triple set \<Rightarrow> triple set" where
  "sym_step m p D = D \<union> ({(b, q, a). q = p \<and> (a, b) \<in> edges_of m D p} - all_triples m)"

lemma close_transitive_triples [simp]:
  "d_triples (close_transitive h m p r out) = trans_step m p (d_triples out)"
proof -
  let ?E = "edges_of m (d_triples out) p"
  let ?S = "\<lambda>a b (b2, c). if b = b2 then {(a, p, c)} - all_triples m else {}"
  define inner where "inner a b = fold (\<lambda>(b2, c) out.
      if b = b2 then insert_fresh m (a, p, c) \<lparr>prov_rule = r, prov_premises = [(a, p, b), (b, p, c)]\<rparr> out
      else out) (pred_edges h m p out)" for a b
  have inner: "d_triples (inner a b d) = d_triples d \<union> \<Union> (?S a b ` ?E)" for a b d
    unfolding inner_def by (subst fold_triples [where S = "?S a b"]) (auto split: if_splits)
  have "close_transitive h m p r out = fold (\<lambda>(a, b). inner a b) (pred_edges h m p out) out"
    unfolding close_transitive_def inner_def Let_def ..
  also have "d_triples \<dots> = d_triples out \<union> \<Union> ((\<lambda>(a, b). \<Union> (?S a b ` ?E)) ` set (pred_edges h m p out))"
    by (rule fold_triples) (simp add: inner split: prod.split)
  also have "\<dots> = trans_step m p (d_triples out)"
    unfolding trans_step_def by (rule arg_cong [where f = "(\<union>) (d_triples out)"])
      (fastforce simp: relcomp_unfold split: if_splits)
  finally show ?thesis .
qed

lemma close_symmetric_triples [simp]:
  "d_triples (close_symmetric h m p r out) = sym_step m p (d_triples out)"
  unfolding close_symmetric_def sym_step_def
  by (subst fold_triples [where S = "\<lambda>(a, b). {(b, p, a)} - all_triples m"]) auto

lemma set_transitive_predicates [simp]:
  "set (transitive_predicates h m)
     = {p. (p, rdf_type (ms_vocab m), owl_transitive_property (ms_vocab m)) \<in> all_triples m}"
  by (force simp: transitive_predicates_def)

lemma close_transitive_property_triples [simp]:
  "d_triples (close_transitive_property h m out)
     = fold (trans_step m) (transitive_predicates h m) (d_triples out)"
proof -
  have "d_triples (fold (\<lambda>p. close_transitive h m p ''prp-trp'') ps out) = fold (trans_step m) ps (d_triples out)"
    for ps by (induction ps arbitrary: out) auto
  then show ?thesis by (simp add: close_transitive_property_def)
qed

text \<open>One round as a list of such steps.\<close>

definition round_steps :: "orders \<Rightarrow> mem_store \<Rightarrow> (triple set \<Rightarrow> triple set) list" where
  "round_steps h m = (let v = ms_vocab m in
     [trans_step m (rdfs_sub_class_of v), trans_step m (rdfs_sub_property_of v), sym_step m (owl_same_as v),
      trans_step m (owl_same_as v)] @ map (trans_step m) (transitive_predicates h m)
     @ map (trans_step m) [skos_exact_match v, skos_broad_match v, skos_narrow_match v])"

lemma firing_round_triples:
  "d_triples (firing_round h m out) = fold (\<lambda>f. f) (round_steps h m) (d_triples out)"
  by (simp add: firing_round_def round_steps_def Let_def fold_map comp_def)

definition inflationary :: "('a set \<Rightarrow> 'a set) \<Rightarrow> bool" where
  "inflationary f \<longleftrightarrow> (\<forall>D. D \<subseteq> f D)"

lemma inflationary_round: "f \<in> set (round_steps h m) \<Longrightarrow> inflationary f"
  by (auto simp: round_steps_def Let_def inflationary_def trans_step_def sym_step_def)

lemma fold_inflationary:
  "(\<And>f. f \<in> set fs \<Longrightarrow> inflationary f) \<Longrightarrow> D \<subseteq> fold (\<lambda>f. f) fs D"
proof (induction fs arbitrary: D)
  case (Cons f fs)
  then have "D \<subseteq> f D" "f D \<subseteq> fold (\<lambda>f. f) fs (f D)" by (auto simp: inflationary_def)
  then show ?case by simp
qed simp

text \<open>A chain of inflationary steps that ends where it began stood still at every step.\<close>

lemma fold_still:
  "(\<And>f. f \<in> set fs \<Longrightarrow> inflationary f) \<Longrightarrow> fold (\<lambda>f. f) fs D = D \<Longrightarrow> f \<in> set fs \<Longrightarrow> f D = D"
proof (induction fs arbitrary: D)
  case (Cons g gs)
  have "D \<subseteq> g D" "g D \<subseteq> fold (\<lambda>f. f) gs (g D)"
    using Cons.prems(1) by (auto simp: inflationary_def intro!: fold_inflationary)
  with Cons.prems(2) have g: "g D = D" by auto
  then show ?case using Cons by (cases "f = g") auto
qed simp

lemma firing_round_grows: "d_triples out \<subseteq> d_triples (firing_round h m out)"
  unfolding firing_round_triples by (rule fold_inflationary) (rule inflationary_round)

function firing_loop :: "orders \<Rightarrow> mem_store \<Rightarrow> delta \<Rightarrow> delta" where
  "firing_loop h m out =
     (let out' = firing_round h m out in
      if delta_len out' = delta_len out then out' else firing_loop h m out')"
  by pat_completeness auto
termination
proof (relation "measure (\<lambda>(h, m, out). card (- d_triples out))")
  fix h m out out' assume "out' = firing_round h m out" and "delta_len out' \<noteq> delta_len out"
  then have "d_triples out \<subset> d_triples out'"
    using firing_round_grows [of out h m] by (auto simp: delta_len_def)
  then show "((h, m, out'), h, m, out) \<in> measure (\<lambda>(h, m, out). card (- d_triples out))"
    by (auto intro!: psubset_card_mono)
qed simp

definition rule_firing_close :: "orders \<Rightarrow> mem_store \<Rightarrow> delta" where
  "rule_firing_close h m = firing_loop h m delta_new"

declare firing_loop.simps [simp del]

section \<open>The closure the rules define\<close>

definition declared_transitive :: "mem_store \<Rightarrow> u64 set" where
  "declared_transitive m = {p. (p, rdf_type (ms_vocab m), owl_transitive_property (ms_vocab m)) \<in> all_triples m}"

definition mapping_predicates :: "mem_store \<Rightarrow> u64 set" where
  "mapping_predicates m = {skos_exact_match (ms_vocab m), skos_broad_match (ms_vocab m), skos_narrow_match (ms_vocab m)}"

definition hierarchy_predicates :: "mem_store \<Rightarrow> u64 set" where
  "hierarchy_predicates m =
     {rdfs_sub_class_of (ms_vocab m), rdfs_sub_property_of (ms_vocab m)} \<union> declared_transitive m"

text \<open>The closed extent of a predicate, when the predicates \<open>P\<close> are to be closed transitively.\<close>

definition closed_extent :: "mem_store \<Rightarrow> u64 set \<Rightarrow> u64 \<Rightarrow> pair set" where
  "closed_extent m P p =
     (if p = owl_same_as (ms_vocab m) then (extent m p \<union> (extent m p)\<inverse>)\<^sup>+
      else if p \<in> P then (extent m p)\<^sup>+ else extent m p)"

definition closed_triples :: "mem_store \<Rightarrow> u64 set \<Rightarrow> triple set" where
  "closed_triples m P = {(s, p, ob). (s, ob) \<in> closed_extent m P p}"

text \<open>Closedness of a set of triples under the backend's rules, over a store.\<close>

definition rule_closed :: "mem_store \<Rightarrow> u64 set \<Rightarrow> triple set \<Rightarrow> bool" where
  "rule_closed m P D \<longleftrightarrow> (\<forall>p \<in> insert (owl_same_as (ms_vocab m)) P. trans (edges_of m D p))
     \<and> sym (edges_of m D (owl_same_as (ms_vocab m)))"

abbreviation fired_predicates :: "mem_store \<Rightarrow> u64 set" where
  "fired_predicates m \<equiv> hierarchy_predicates m \<union> mapping_predicates m"

lemma edges_of_empty [simp]: "edges_of m {} p = extent m p"
  by (auto simp: edges_of_def all_triples_def)

lemma edges_of_diff [simp]: "extent m p \<subseteq> C p \<Longrightarrow>
    edges_of m ({(s, p, ob). (s, ob) \<in> C p} - all_triples m) p = C p"
  by (auto simp: edges_of_def all_triples_def)

lemma trans_step_still:
  "trans_step m p D = D \<Longrightarrow> trans (edges_of m D p)"
proof (rule transI)
  fix x y z assume "trans_step m p D = D" and "(x, y) \<in> edges_of m D p" and "(y, z) \<in> edges_of m D p"
  then have "(x, p, z) \<in> all_triples m \<or> (x, p, z) \<in> D"
    unfolding trans_step_def by blast
  then show "(x, z) \<in> edges_of m D p" by (auto simp: edges_of_def)
qed

lemma sym_step_still:
  "sym_step m p D = D \<Longrightarrow> sym (edges_of m D p)"
proof (rule symI)
  fix x y assume "sym_step m p D = D" and "(x, y) \<in> edges_of m D p"
  then have "(y, p, x) \<in> all_triples m \<or> (y, p, x) \<in> D"
    unfolding sym_step_def by blast
  then show "(y, x) \<in> edges_of m D p" by (auto simp: edges_of_def)
qed

lemma round_still_closed:
  assumes "d_triples (firing_round h m out) = d_triples out"
  shows "rule_closed m (fired_predicates m) (d_triples out)"
proof -
  note still = fold_still [of "round_steps h m", OF inflationary_round assms [unfolded firing_round_triples]]
  have "trans_step m p \<in> set (round_steps h m)" if "p \<in> insert (owl_same_as (ms_vocab m)) (fired_predicates m)" for p
    using that by (auto simp: round_steps_def Let_def hierarchy_predicates_def mapping_predicates_def declared_transitive_def)
  moreover have "sym_step m (owl_same_as (ms_vocab m)) \<in> set (round_steps h m)"
    by (simp add: round_steps_def Let_def)
  ultimately show ?thesis
    unfolding rule_closed_def by (meson still trans_step_still sym_step_still)
qed

text \<open>Every closed set holds the closed extents, and the steps stay inside them.\<close>

lemma rule_closed_least:
  assumes "rule_closed m P D" and "(s, p, ob) \<in> closed_triples m P"
  shows "(s, p, ob) \<in> all_triples m \<union> D"
proof -
  have base: "extent m p \<subseteq> edges_of m D p" by (auto simp: edges_of_def all_triples_def)
  have "closed_extent m P p \<subseteq> edges_of m D p"
  proof (cases "p = owl_same_as (ms_vocab m)")
    case True
    then have t: "trans (edges_of m D p)" "sym (edges_of m D p)" using assms(1) by (auto simp: rule_closed_def)
    then have "extent m p \<union> (extent m p)\<inverse> \<subseteq> edges_of m D p" using base by (auto dest: symD)
    from trancl_mono_subset [OF this] show ?thesis using True t by (simp add: closed_extent_def trancl_id)
  next
    case False
    then show ?thesis
      using base trancl_mono_subset [OF base] assms(1)
      by (auto simp: closed_extent_def rule_closed_def trancl_id)
  qed
  then show ?thesis using assms(2) by (auto simp: closed_triples_def edges_of_def)
qed

lemma closed_extent_base: "extent m p \<subseteq> closed_extent m P p"
  by (auto simp: closed_extent_def)

lemma closed_extent_trans:
  "p \<in> insert (owl_same_as (ms_vocab m)) P \<Longrightarrow> trans (closed_extent m P p)"
  by (auto simp: closed_extent_def)

lemma closed_extent_sym: "sym (closed_extent m P (owl_same_as (ms_vocab m)))"
  by (simp add: closed_extent_def sym_trancl sym_Un_converse)

definition within :: "mem_store \<Rightarrow> u64 set \<Rightarrow> triple set \<Rightarrow> bool" where
  "within m P D \<longleftrightarrow> D \<subseteq> closed_triples m P - all_triples m"

lemma within_edges: "within m P D \<Longrightarrow> edges_of m D p \<subseteq> closed_extent m P p"
  using closed_extent_base [of m p P] by (auto simp: within_def edges_of_def closed_triples_def all_triples_def)

lemma within_round:
  assumes "within m (fired_predicates m) D" and "f \<in> set (round_steps h m)"
  shows "within m (fired_predicates m) (f D)"
proof -
  let ?P = "fired_predicates m"
  have T: "within m ?P (trans_step m p D)" if "p \<in> insert (owl_same_as (ms_vocab m)) ?P" for p
  proof -
    have "edges_of m D p O edges_of m D p \<subseteq> closed_extent m ?P p"
      using within_edges [OF assms(1), of p] closed_extent_trans [OF that] by (blast dest: transD)
    then show ?thesis using assms(1) by (auto simp: within_def trans_step_def closed_triples_def)
  qed
  have S: "within m ?P (sym_step m (owl_same_as (ms_vocab m)) D)"
    using within_edges [OF assms(1)] closed_extent_sym [of m ?P] assms(1)
    unfolding within_def sym_step_def closed_triples_def by (blast dest: symD)
  show ?thesis
    using assms(2) S T
    by (auto simp: round_steps_def Let_def hierarchy_predicates_def mapping_predicates_def declared_transitive_def)
qed

lemma within_rounds:
  "within m (fired_predicates m) D \<Longrightarrow> set fs \<subseteq> set (round_steps h m) \<Longrightarrow>
   within m (fired_predicates m) (fold (\<lambda>f. f) fs D)"
  by (induction fs arbitrary: D) (auto simp: within_round)

lemma firing_loop_spec:
  "within m (fired_predicates m) (d_triples out) \<Longrightarrow>
   d_triples (firing_loop h m out) = closed_triples m (fired_predicates m) - all_triples m"
proof (induction h m out rule: firing_loop.induct)
  case (1 h m out)
  let ?out' = "firing_round h m out"
  have w: "within m (fired_predicates m) (d_triples ?out')"
    unfolding firing_round_triples by (rule within_rounds [OF 1(2) subset_refl])
  show ?case
  proof (cases "delta_len ?out' = delta_len out")
    case True
    then have eq: "d_triples ?out' = d_triples out"
      using card_subset_eq [OF _ firing_round_grows] unfolding delta_len_def by (metis finite)
    then have "closed_triples m (fired_predicates m) - all_triples m \<subseteq> d_triples ?out'"
      using rule_closed_least [OF round_still_closed [OF eq]] by auto
    then show ?thesis using w True by (subst firing_loop.simps) (auto simp: within_def Let_def)
  next
    case False
    then show ?thesis using 1(1) [OF refl _ w] by (subst firing_loop.simps) (simp add: Let_def)
  qed
qed

lemma rule_firing_close_spec:
  "d_triples (rule_firing_close h m) = closed_triples m (fired_predicates m) - all_triples m"
  by (simp add: rule_firing_close_def firing_loop_spec within_def)

section \<open>Rule shapes around a kernel\<close>

type_synonym closing = "pair list \<Rightarrow> pair list option"

definition scan_edges :: "orders \<Rightarrow> mem_store \<Rightarrow> u64 \<Rightarrow> pair list" where
  "scan_edges h m pred = map (\<lambda>(s, p, ob). (s, ob)) (scan_predicate h m pred)"

definition emit :: "mem_store \<Rightarrow> triple \<Rightarrow> string \<Rightarrow> delta \<Rightarrow> delta" where
  "emit m head rule_id out =
     (if \<not> ms_contains m head then delta_insert head \<lparr>prov_rule = rule_id, prov_premises = []\<rparr> out else out)"

definition shape_transitive ::
  "orders \<Rightarrow> mem_store \<Rightarrow> closing \<Rightarrow> u64 \<Rightarrow> string \<Rightarrow> delta \<Rightarrow> delta option" where
  "shape_transitive h m kern pred rule_id out =
     (case kern (scan_edges h m pred) of None \<Rightarrow> None
      | Some closed \<Rightarrow> Some (fold (\<lambda>(s, ob). emit m (s, pred, ob) rule_id) closed out))"

definition shape_sameas :: "orders \<Rightarrow> mem_store \<Rightarrow> closing \<Rightarrow> u64 \<Rightarrow> delta \<Rightarrow> delta option" where
  "shape_sameas h m kern same_as out =
     (let asserted = scan_edges h m same_as in
      if asserted = [] then Some out
      else case kern (concat (map (\<lambda>(a, b). [(a, b), (b, a)]) asserted)) of None \<Rightarrow> None
        | Some closed \<Rightarrow> Some (fold (\<lambda>(s, ob).
            emit m (s, same_as, ob) (if (ob, s) \<in> set asserted then ''eq-sym'' else ''eq-trans'')) closed out))"

fun shape_each :: "orders \<Rightarrow> mem_store \<Rightarrow> closing \<Rightarrow> u64 list \<Rightarrow> delta \<Rightarrow> delta option" where
  "shape_each h m kern [] out = Some out"
| "shape_each h m kern (p # ps) out =
     (case shape_transitive h m kern p ''prp-trp'' out of None \<Rightarrow> None
      | Some out' \<Rightarrow> shape_each h m kern ps out')"

definition shape_transitive_properties :: "orders \<Rightarrow> mem_store \<Rightarrow> closing \<Rightarrow> delta \<Rightarrow> delta option" where
  "shape_transitive_properties h m kern out = shape_each h m kern (transitive_predicates h m) out"

definition close_all :: "orders \<Rightarrow> mem_store \<Rightarrow> closing \<Rightarrow> delta option" where
  "close_all h m kern =
     (let v = ms_vocab m in
      case shape_transitive h m kern (rdfs_sub_class_of v) ''scm-sco'' delta_new of None \<Rightarrow> None | Some out \<Rightarrow>
      case shape_transitive h m kern (rdfs_sub_property_of v) ''scm-spo'' out of None \<Rightarrow> None | Some out \<Rightarrow>
      case shape_sameas h m kern (owl_same_as v) out of None \<Rightarrow> None | Some out \<Rightarrow>
      shape_transitive_properties h m kern out)"

definition closure_edges :: "'m ffi \<Rightarrow> closing" where
  "closure_edges g edges =
     (if edges = [] then Some []
      else let (dense, ids) = intern_edges edges dm_empty; n = of_nat (dm_len ids) in
        case from_edges g n dense of Inl _ \<Rightarrow> None | Inr matrix \<Rightarrow>
        (case transitive_closure g matrix of None \<Rightarrow> None | Some (Inl _) \<Rightarrow> None | Some (Inr closed) \<Rightarrow>
        (case extract_edges g closed of Inl _ \<Rightarrow> None | Inr closed_edges \<Rightarrow>
        Some (List.map_filter (decode_pair ids) closed_edges))))"

definition graphblas_close :: "'m ffi \<Rightarrow> orders \<Rightarrow> mem_store \<Rightarrow> delta option" where
  "graphblas_close g h m = close_all h m (closure_edges g)"

section \<open>The kernel interface\<close>

text \<open>
  A kernel returns the strict transitive closure of an edge list, for batches over at most \<open>cap\<close>
  identifiers.
\<close>

locale closure_kernel =
  fixes kern :: closing and cap :: nat
  assumes kernel_closes:
    "card (Field (set es)) \<le> cap \<Longrightarrow> \<exists>r. kern es = Some r \<and> set r = (set es)\<^sup>+"

text \<open>The extents a store hands to a kernel stay within its capacity.\<close>

definition fits :: "mem_store \<Rightarrow> nat \<Rightarrow> bool" where
  "fits m cap \<longleftrightarrow> (\<forall>p. card (Field (extent m p)) \<le> cap)"

lemma set_scan_edges [simp]: "set (scan_edges h m p) = extent m p"
  by (force simp: scan_edges_def all_triples_def)

lemma emit_triples: "d_triples (emit m t r out) = d_triples out \<union> ({t} - all_triples m)"
  by (auto simp: emit_def)

lemma fold_emit:
  "d_triples (fold (\<lambda>(s, ob). emit m (s, p, ob) (f s ob)) es out)
     = d_triples out \<union> ({(s, q, ob). q = p \<and> (s, ob) \<in> set es} - all_triples m)"
  by (subst fold_triples [where S = "\<lambda>(s, ob). {(s, p, ob)} - all_triples m"]) (auto simp: emit_triples)

text \<open>The triples a matrix backend adds for one predicate.\<close>

definition pred_triples :: "u64 \<Rightarrow> pair set \<Rightarrow> triple set" where
  "pred_triples p E = {(s, q, ob). q = p \<and> (s, ob) \<in> E}"

context closure_kernel begin

lemma shape_transitive_spec:
  "fits m cap \<Longrightarrow> \<exists>out'. shape_transitive h m kern p r out = Some out'
     \<and> d_triples out' = d_triples out \<union> (pred_triples p ((extent m p)\<^sup>+) - all_triples m)"
  using kernel_closes [of "scan_edges h m p"]
  by (auto simp: shape_transitive_def fits_def fold_emit pred_triples_def)

lemma shape_sameas_spec:
  assumes "fits m cap"
  shows "\<exists>out'. shape_sameas h m kern p out = Some out'
     \<and> d_triples out' = d_triples out \<union> (pred_triples p ((extent m p \<union> (extent m p)\<inverse>)\<^sup>+) - all_triples m)"
proof (cases "scan_edges h m p = []")
  case True
  then have "extent m p = {}" using set_scan_edges [of h m p] by simp
  moreover have "pred_triples p {} = {}" by (simp add: pred_triples_def)
  ultimately show ?thesis using True by (simp add: shape_sameas_def)
next
  case False
  let ?es = "concat (map (\<lambda>(a, b). [(a, b), (b, a)]) (scan_edges h m p))"
  have es: "set ?es = extent m p \<union> (extent m p)\<inverse>" by auto
  have "Field (set ?es) = Field (extent m p)" unfolding es by (auto simp: Field_def)
  then obtain r where "kern ?es = Some r" "set r = (extent m p \<union> (extent m p)\<inverse>)\<^sup>+"
    using kernel_closes [of ?es] assms es by (auto simp: fits_def)
  then show ?thesis
    using False by (simp add: shape_sameas_def Let_def fold_emit pred_triples_def)
qed

lemma shape_each_spec:
  "fits m cap \<Longrightarrow> \<exists>out'. shape_each h m kern ps out = Some out'
     \<and> d_triples out' = d_triples out \<union> ((\<Union>p\<in>set ps. pred_triples p ((extent m p)\<^sup>+)) - all_triples m)"
proof (induction ps arbitrary: out)
  case (Cons p ps)
  obtain o1 where 1: "shape_transitive h m kern p ''prp-trp'' out = Some o1"
    "d_triples o1 = d_triples out \<union> (pred_triples p ((extent m p)\<^sup>+) - all_triples m)"
    using shape_transitive_spec [OF Cons.prems] by blast
  obtain o2 where "shape_each h m kern ps o1 = Some o2"
    "d_triples o2 = d_triples o1 \<union> ((\<Union>p\<in>set ps. pred_triples p ((extent m p)\<^sup>+)) - all_triples m)"
    using Cons by blast
  then show ?case using 1 by auto
qed simp

lemma close_all_spec:
  assumes "fits m cap"
  shows "\<exists>d. close_all h m kern = Some d
    \<and> d_triples d = closed_triples m (hierarchy_predicates m) - all_triples m"
proof -
  let ?v = "ms_vocab m" and ?T = "\<lambda>p. pred_triples p ((extent m p)\<^sup>+) - all_triples m"
  obtain o1 where 1: "shape_transitive h m kern (rdfs_sub_class_of ?v) ''scm-sco'' delta_new = Some o1"
    "d_triples o1 = {} \<union> ?T (rdfs_sub_class_of ?v)"
    using shape_transitive_spec [OF assms] by (metis delta_ok_new(2))
  obtain o2 where 2: "shape_transitive h m kern (rdfs_sub_property_of ?v) ''scm-spo'' o1 = Some o2"
    "d_triples o2 = d_triples o1 \<union> ?T (rdfs_sub_property_of ?v)"
    using shape_transitive_spec [OF assms] by blast
  obtain o3 where 3: "shape_sameas h m kern (owl_same_as ?v) o2 = Some o3"
    "d_triples o3 = d_triples o2 \<union> (pred_triples (owl_same_as ?v)
       ((extent m (owl_same_as ?v) \<union> (extent m (owl_same_as ?v))\<inverse>)\<^sup>+) - all_triples m)"
    using shape_sameas_spec [OF assms] by blast
  obtain o4 where 4: "shape_each h m kern (transitive_predicates h m) o3 = Some o4"
    "d_triples o4 = d_triples o3 \<union>
       ((\<Union>p\<in>set (transitive_predicates h m). pred_triples p ((extent m p)\<^sup>+)) - all_triples m)"
    using shape_each_spec [OF assms] by blast
  have run: "close_all h m kern = Some o4"
    by (simp add: close_all_def Let_def 1(1) 2(1) 3(1) 4(1) shape_transitive_properties_def)
  have sub: "(extent m p)\<^sup>+ \<subseteq> (extent m p \<union> (extent m p)\<inverse>)\<^sup>+" for p
    by (rule trancl_mono_subset) simp
  have "(s, p, ob) \<in> d_triples o4 \<longleftrightarrow> (s, p, ob) \<in> closed_triples m (hierarchy_predicates m) - all_triples m"
    for s p ob
    unfolding 4(2) 3(2) 2(2) 1(2)
    using sub [of p] all_triples_iff [of s p ob m]
    by (auto simp: closed_triples_def closed_extent_def hierarchy_predicates_def declared_transitive_def
        pred_triples_def)
  then have "d_triples o4 = closed_triples m (hierarchy_predicates m) - all_triples m"
    by (intro set_eqI) (metis prod_cases3)
  with run show ?thesis by blast
qed

end


section \<open>The GraphBLAS kernel provides the interface\<close>

lemma closure_edges_alt:
  "closure_edges g es = (if es = [] then Some []
     else case build_matrix g es of Inl _ \<Rightarrow> None | Inr (matrix, ids) \<Rightarrow>
        (case transitive_closure g matrix of None \<Rightarrow> None | Some (Inl _) \<Rightarrow> None | Some (Inr closed) \<Rightarrow>
        (case extract_edges g closed of Inl _ \<Rightarrow> None | Inr closed_edges \<Rightarrow>
        Some (List.map_filter (decode_pair ids) closed_edges))))"
  by (cases "intern_edges es dm_empty"; cases "from_edges g (of_nat (dm_len (snd (intern_edges es dm_empty))))
        (fst (intern_edges es dm_empty))")
    (simp_all add: closure_edges_def build_matrix_def and_then_def Let_def)

lemma closure_edges_spec:
  assumes laws: "grb_laws g repr" and cap: "card (Field (set es)) < 2 ^ 64"
    and safe: "infallible g repr (of_nat (card (Field (set es))))"
  shows "\<exists>r. closure_edges g es = Some r \<and> set r = (set es)\<^sup>+"
proof (cases "es = []")
  case False
  let ?n = "of_nat (card (Field (set es))) :: u64"
  obtain m ids dense f where 1: "build_matrix g es = Inr (m, ids)" "numbered es dense ids ?n f"
    "bm_repr repr ?n (set dense) m"
    using build_matrix_spec [OF laws cap] safe by (auto simp: outcome_def split: sum.splits)
  obtain c where 2: "transitive_closure g m = Some (Inr c)" "bm_repr repr ?n ((set dense)\<^sup>+) c"
    using transitive_closure_spec [OF laws 1(3)] safe
    unfolding returns_def outcome_def by (metis (no_types, lifting) old.sum.exhaust sum.simps(5,6))
  obtain ds where 3: "extract_edges g c = Inr ds" "set ds = (set dense)\<^sup>+"
    using extract_spec [OF laws 2(2)] safe by (auto simp: outcome_def split: sum.splits)
  have "decode_pair ids e = Some (map_prod f f e)" if "e \<in> set ds" for e
    using numbered_decode [OF 1(2)] numbered_closure(2) [OF 1(2)] 3(2) that by blast
  then have "set (List.map_filter (decode_pair ids) ds) = map_prod f f ` set ds"
    unfolding set_eq_iff map_filter_mem by force
  then show ?thesis
    using False 1(1) 2(1) 3 numbered_closure(1) [OF 1(2)] by (simp add: closure_edges_alt)
qed (simp add: closure_edges_def)

lemma graphblas_kernel:
  assumes "grb_laws g repr" and "cap < 2 ^ 64" and "\<And>n. unat n \<le> cap \<Longrightarrow> infallible g repr n"
  shows "closure_kernel (closure_edges g) cap"
proof
  fix es :: "pair list" assume c: "card (Field (set es)) \<le> cap"
  then have l: "card (Field (set es)) < 2 ^ 64" using assms(2) by simp
  then have "infallible g repr (of_nat (card (Field (set es))))" using c by (intro assms(3)) simp
  then show "\<exists>r. closure_edges g es = Some r \<and> set r = (set es)\<^sup>+"
    using closure_edges_spec [OF assms(1) l] by blast
qed

lemma set_kernel: "closure_kernel (closure_edges set_ffi) (2 ^ 32 - 1)"
  by (rule graphblas_kernel [OF set_laws]) (auto intro!: set_infallible simp: word_less_nat_alt)

interpretation reference_kernel: closure_kernel "closure_edges set_ffi" "2 ^ 32 - 1"
  by (rule set_kernel)

section \<open>Properties\<close>

text \<open>C21: Firing the delegated rules to a fixed point always ends, and derives exactly the missing
  triples of the closed extents: transitive for the class and property hierarchies, the mapping
  predicates and every declared transitive property, symmetric and transitive for \<^verbatim>\<open>owl:sameAs\<close>.\<close>

theorem rule_firing_exact:
  "(s, p, ob) \<in> d_triples (rule_firing_close h m) \<longleftrightarrow>
     \<not> ms_contains m (s, p, ob)
     \<and> (s, ob) \<in> closed_extent m (hierarchy_predicates m \<union> mapping_predicates m) p"
  by (simp add: rule_firing_close_spec closed_triples_def conj_commute)

text \<open>C22: The matrix backend returns on every store within the kernel's capacity; it derives nothing
  the rule-firing backend does not, and all it misses is the transitive closure of the mapping
  predicates that are not closed for another reason.\<close>

theorem graphblas_parity:
  assumes "grb_laws g repr" and "cap < 2 ^ 64" and "\<And>n. unat n \<le> cap \<Longrightarrow> infallible g repr n"
    and "fits m cap"
  shows "\<exists>d. graphblas_close g h m = Some d \<and> d_triples d \<subseteq> d_triples (rule_firing_close h m)
    \<and> d_triples (rule_firing_close h m) - d_triples d = {(s, p, ob).
        p \<in> mapping_predicates m - insert (owl_same_as (ms_vocab m)) (hierarchy_predicates m)
        \<and> (s, ob) \<in> (extent m p)\<^sup>+ - extent m p}"
proof -
  obtain d where d: "graphblas_close g h m = Some d"
    "d_triples d = closed_triples m (hierarchy_predicates m) - all_triples m"
    using closure_kernel.close_all_spec [OF graphblas_kernel [OF assms(1-3)] assms(4)]
    by (auto simp: graphblas_close_def)
  have ext: "closed_extent m (hierarchy_predicates m) p \<subseteq> closed_extent m (fired_predicates m) p" for p
    by (auto simp: closed_extent_def)
  have "(s, p, ob) \<in> d_triples (rule_firing_close h m) - d_triples d \<longleftrightarrow>
      p \<in> mapping_predicates m - insert (owl_same_as (ms_vocab m)) (hierarchy_predicates m)
        \<and> (s, ob) \<in> (extent m p)\<^sup>+ - extent m p" for s p ob
    unfolding rule_firing_close_spec d(2) closed_triples_def
    by (auto simp: closed_extent_def all_triples_iff split: if_splits)
  then have "d_triples (rule_firing_close h m) - d_triples d = {(s, p, ob).
        p \<in> mapping_predicates m - insert (owl_same_as (ms_vocab m)) (hierarchy_predicates m)
        \<and> (s, ob) \<in> (extent m p)\<^sup>+ - extent m p}"
    by (intro set_eqI) (metis (no_types, lifting) mem_Collect_eq old.prod.case prod_cases3)
  moreover have "d_triples d \<subseteq> d_triples (rule_firing_close h m)"
    unfolding rule_firing_close_spec d(2) closed_triples_def using ext by auto
  ultimately show ?thesis using d(1) by blast
qed

text \<open>A chain of two exact matches.\<close>

definition match_store :: mem_store where
  "match_store = (let v = synthetic 100 in
     assert_all [(1, skos_exact_match v, 2), (2, skos_exact_match v, 3)] (ms_new v))"

lemma match_store_vocab: "ms_vocab match_store = synthetic 100"
  by (simp add: match_store_def Let_def assert_all_def ms_assert_def add_pair_def ms_new_def)

lemma match_store_extent:
  "extent match_store p = (if p = skos_exact_match (synthetic 100) then {(1, 2), (2, 3)} else {})"
proof -
  have "all_triples match_store = {(1, skos_exact_match (synthetic 100), 2), (2, skos_exact_match (synthetic 100), 3)}"
    using assert_all_spec [OF ms_inv_new(1)] by (simp add: match_store_def Let_def)
  then show ?thesis unfolding set_eq_iff by (auto simp flip: all_triples_iff)
qed

lemma match_store_fits: "fits match_store (2 ^ 32 - 1)"
proof -
  have "Field (extent match_store p) \<subseteq> {1, 2, 3}" for p
    by (auto simp: match_store_extent Field_def)
  then have "card (Field (extent match_store p)) \<le> card {1 :: u64, 2, 3}" for p
    by (rule card_mono [rotated]) simp
  moreover have "card {1 :: u64, 2, 3} \<le> 2 ^ 32 - 1" by simp
  ultimately show ?thesis unfolding fits_def by (meson le_trans)
qed

lemma graphblas_parity_witness:
  "fits match_store (2 ^ 32 - 1) \<and> (\<exists>d. graphblas_close set_ffi asc match_store = Some d
     \<and> (1, skos_exact_match (synthetic 100), 3) \<in> d_triples (rule_firing_close asc match_store) - d_triples d)"
proof -
  have "unat n \<le> 2 ^ 32 - 1 \<Longrightarrow> infallible set_ffi set_repr n" for n
    by (rule set_infallible) (simp add: word_less_nat_alt)
  from graphblas_parity [OF set_laws _ this match_store_fits, of asc]
  obtain d where d: "graphblas_close set_ffi asc match_store = Some d"
    "d_triples (rule_firing_close asc match_store) - d_triples d = {(s, p, ob).
        p \<in> mapping_predicates match_store - insert (owl_same_as (ms_vocab match_store)) (hierarchy_predicates match_store)
        \<and> (s, ob) \<in> (extent match_store p)\<^sup>+ - extent match_store p}"
    by auto
  have "(1, 3) \<in> {(1, 2), (2, 3 :: u64)}\<^sup>+" by (rule trancl_into_trancl [of _ 2]) auto
  then have "(1, skos_exact_match (synthetic 100), 3) \<in> d_triples (rule_firing_close asc match_store) - d_triples d"
    unfolding d(2) by (simp add: match_store_extent match_store_vocab mapping_predicates_def
        hierarchy_predicates_def declared_transitive_def all_triples_iff) (simp add: synthetic_def)
  then show ?thesis using d(1) match_store_fits by blast
qed

end
