(* ===== verification/Rule_Compiler.thy ===== *)
theory Rule_Compiler imports Owl_Closure begin

text \<open>
  The rule compiler of the OWL engine, \<^verbatim>\<open>crates/owlrl/codegen\<close>: \<^verbatim>\<open>parse.rs\<close> resolves the textual
  rules against the vocabulary, \<^verbatim>\<open>plan.rs\<close> classifies the slots of each body pattern,
  \<^verbatim>\<open>emit.rs\<close> emits one nested-loop function per rule. Reading TOML and printing Rust are left to
  libraries; the emitted function is modelled by what it does when run, one branch per branch of the
  emitter, with the local variables it declares as an environment.
\<close>

section \<open>Parsing\<close>

record raw_pattern =
  raw_s :: string
  raw_p :: string
  raw_o :: string

record raw_rule =
  raw_id :: string
  raw_delegate :: "string option"
  raw_body :: "raw_pattern list"
  raw_head :: raw_pattern

datatype term_slot = Var string | Vocab string

record pattern =
  pat_s :: term_slot
  pat_p :: term_slot
  pat_o :: term_slot

record rule_spec =
  rule_id :: string
  rule_delegate :: bool
  rule_body :: "pattern list"
  rule_head :: pattern

datatype parse_error =
  Empty_Variable_Name | Unknown_Token string | Unknown_Delegate string string | Duplicate_QName string

type_synonym qname_map = "string \<rightharpoonup> string"

definition vocab_term :: "string \<Rightarrow> qname_map \<Rightarrow> parse_error + string" where
  "vocab_term token qnames = (case qnames token of None \<Rightarrow> Inl (Unknown_Token token) | Some field \<Rightarrow> Inr field)"

definition parse_slot :: "string \<Rightarrow> qname_map \<Rightarrow> parse_error + term_slot" where
  "parse_slot s qnames = (case s of
       c # rest \<Rightarrow>
         if c = CHR ''?'' then (if rest = [] then Inl Empty_Variable_Name else Inr (Var rest))
         else and_then (vocab_term s qnames) (\<lambda>field. Inr (Vocab field))
     | [] \<Rightarrow> and_then (vocab_term s qnames) (\<lambda>field. Inr (Vocab field)))"

definition parse_pattern :: "raw_pattern \<Rightarrow> qname_map \<Rightarrow> parse_error + pattern" where
  "parse_pattern raw qnames =
     and_then (parse_slot (raw_s raw) qnames) (\<lambda>s.
     and_then (parse_slot (raw_p raw) qnames) (\<lambda>p.
     and_then (parse_slot (raw_o raw) qnames) (\<lambda>ob.
     Inr \<lparr>pat_s = s, pat_p = p, pat_o = ob\<rparr>)))"

text \<open>Collecting results stops at the first error.\<close>

fun collect :: "('a \<Rightarrow> 'e + 'b) \<Rightarrow> 'a list \<Rightarrow> 'e + 'b list" where
  "collect f [] = Inr []"
| "collect f (x # xs) = and_then (f x) (\<lambda>y. and_then (collect f xs) (\<lambda>ys. Inr (y # ys)))"

definition parse_rule :: "raw_rule \<Rightarrow> qname_map \<Rightarrow> parse_error + rule_spec" where
  "parse_rule raw qnames =
     and_then (collect (\<lambda>p. parse_pattern p qnames) (raw_body raw)) (\<lambda>body.
     and_then (parse_pattern (raw_head raw) qnames) (\<lambda>head.
     and_then (case raw_delegate raw of None \<Rightarrow> Inr False
        | Some target \<Rightarrow> if target = ''closure'' then Inr True else Inl (Unknown_Delegate target (raw_id raw))) (\<lambda>delegate.
     Inr \<lparr>rule_id = raw_id raw, rule_delegate = delegate, rule_body = body, rule_head = head\<rparr>)))"

definition parse_rules :: "raw_rule list \<Rightarrow> qname_map \<Rightarrow> parse_error + rule_spec list" where
  "parse_rules raws qnames = collect (\<lambda>r. parse_rule r qnames) raws"

fun insert_qnames :: "(string \<times> string) list \<Rightarrow> qname_map \<Rightarrow> parse_error + qname_map" where
  "insert_qnames [] m = Inr m"
| "insert_qnames ((qname, field) # ps) m =
     (if m qname \<noteq> None then Inl (Duplicate_QName qname) else insert_qnames ps (m(qname \<mapsto> field)))"

section \<open>Planning\<close>

datatype slot_pos = Pos_S | Pos_P | Pos_O

datatype bound_source = From_Var string | From_Vocab string

datatype slot_plan = Bound bound_source | Fresh string | Same_As_Earlier string slot_pos

record plan_step =
  step_s :: slot_plan
  step_p :: slot_plan
  step_o :: slot_plan

definition classify ::
  "term_slot \<Rightarrow> slot_pos \<Rightarrow> string set \<times> (string \<times> slot_pos) list \<Rightarrow> slot_plan \<times> string set \<times> (string \<times> slot_pos) list" where
  "classify slot pos st = (case st of (bound, intra) \<Rightarrow>
     (case slot of
        Vocab f \<Rightarrow> (Bound (From_Vocab f), bound, intra)
      | Var n \<Rightarrow>
          (case find (\<lambda>(k, _). k = n) intra of
             Some (_, earlier) \<Rightarrow> (Same_As_Earlier n earlier, bound, intra)
           | None \<Rightarrow>
               if n \<in> bound then (Bound (From_Var n), bound, intra)
               else (Fresh n, insert n bound, intra @ [(n, pos)]))))"

definition plan_pattern :: "pattern \<Rightarrow> string set \<Rightarrow> plan_step \<times> string set" where
  "plan_pattern pat bound =
     (let (s, st) = classify (pat_s pat) Pos_S (bound, []);
          (p, st) = classify (pat_p pat) Pos_P st;
          (ob, st) = classify (pat_o pat) Pos_O st
      in (\<lparr>step_s = s, step_p = p, step_o = ob\<rparr>, fst st))"

fun plan_body :: "pattern list \<Rightarrow> string set \<Rightarrow> plan_step list" where
  "plan_body [] bound = []"
| "plan_body (pat # pats) bound =
     (let (st, bound') = plan_pattern pat bound in st # plan_body pats bound')"

definition plan_rule :: "rule_spec \<Rightarrow> plan_step list" where
  "plan_rule r = plan_body (rule_body r) {}"

section \<open>The emitted code\<close>

text \<open>\<open>vget\<close> reads a vocabulary field by name; the environment holds the declared variables.\<close>

type_synonym env = "string \<Rightarrow> u64"

definition vocab_fields :: "string list" where
  "vocab_fields = [
     ''rdf_type'', ''rdf_first'', ''rdf_rest'', ''rdf_nil'', ''rdfs_sub_class_of'',
     ''rdfs_sub_property_of'', ''rdfs_domain'', ''rdfs_range'', ''owl_class'', ''owl_thing'',
     ''owl_nothing'', ''owl_same_as'', ''owl_different_from'', ''owl_equivalent_class'',
     ''owl_equivalent_property'', ''owl_inverse_of'', ''owl_functional_property'',
     ''owl_inverse_functional_property'', ''owl_symmetric_property'', ''owl_transitive_property'',
     ''owl_irreflexive_property'', ''owl_reflexive_property'', ''owl_asymmetric_property'',
     ''owl_property_disjoint_with'', ''owl_disjoint_with'', ''owl_complement_of'', ''owl_intersection_of'',
     ''owl_union_of'', ''owl_some_values_from'', ''owl_all_values_from'', ''owl_has_value'',
     ''owl_on_property'', ''owl_max_cardinality'', ''owl_max_qualified_cardinality'', ''owl_on_class'',
     ''owl_source_individual'', ''owl_assertion_property'', ''owl_target_individual'',
     ''owl_target_value'', ''owl_object_property'', ''owl_property_chain_axiom'', ''owl_has_key'',
     ''owl_all_disjoint_classes'', ''owl_all_disjoint_properties'', ''owl_all_different'', ''owl_members'',
     ''owl_distinct_members'', ''owl_named_individual'', ''skos_exact_match'', ''skos_close_match'',
     ''skos_broad_match'', ''skos_narrow_match'', ''skos_related_match'',
     ''semapv_cross_species_exact_match'', ''semapv_cross_species_narrow_match'',
     ''semapv_cross_species_broad_match'', ''semapv_mapping_chaining'', ''semapv_mapping_inversion'',
     ''sssom_mapping'', ''sssom_subject_id'', ''sssom_predicate_id'', ''sssom_object_id'',
     ''sssom_mapping_justification'', ''sssom_confidence'', ''sssom_predicate_modifier'',
     ''sssom_derived_from'', ''horndb_not_exact_match'']"

definition vget :: "vocabulary \<Rightarrow> string \<Rightarrow> u64" where
  "vget v f = (case map_of (zip vocab_fields (terms_of v)) f of None \<Rightarrow> 0 | Some x \<Rightarrow> x)"

definition triple_field :: "slot_pos \<Rightarrow> triple \<Rightarrow> u64" where
  "triple_field pos t = (case t of (s, p, ob) \<Rightarrow> case pos of Pos_S \<Rightarrow> s | Pos_P \<Rightarrow> p | Pos_O \<Rightarrow> ob)"

definition bind_for :: "slot_plan \<Rightarrow> slot_pos \<Rightarrow> triple \<Rightarrow> env \<Rightarrow> env" where
  "bind_for sp pos t env = (case sp of Fresh n \<Rightarrow> env(n := triple_field pos t) | _ \<Rightarrow> env)"

definition bind_step :: "plan_step \<Rightarrow> triple \<Rightarrow> env \<Rightarrow> env" where
  "bind_step st t env =
     bind_for (step_o st) Pos_O t (bind_for (step_p st) Pos_P t (bind_for (step_s st) Pos_S t env))"

definition equality_check :: "slot_plan \<Rightarrow> slot_pos \<Rightarrow> triple \<Rightarrow> bool" where
  "equality_check sp pos t =
     (case sp of Same_As_Earlier n earlier \<Rightarrow> triple_field pos t = triple_field earlier t | _ \<Rightarrow> True)"

definition intra_step_equality :: "plan_step \<Rightarrow> triple \<Rightarrow> bool" where
  "intra_step_equality st t \<longleftrightarrow> equality_check (step_s st) Pos_S t
     \<and> equality_check (step_p st) Pos_P t \<and> equality_check (step_o st) Pos_O t"

definition vocab_check :: "vocabulary \<Rightarrow> slot_plan \<Rightarrow> u64 \<Rightarrow> bool" where
  "vocab_check v sp x = (case sp of Bound (From_Vocab f) \<Rightarrow> x = vget v f | _ \<Rightarrow> True)"

definition filter_for_leading :: "vocabulary \<Rightarrow> plan_step \<Rightarrow> triple \<Rightarrow> bool" where
  "filter_for_leading v st t \<longleftrightarrow> vocab_check v (step_s st) (triple_field Pos_S t)
     \<and> vocab_check v (step_o st) (triple_field Pos_O t)"

definition probe_arg :: "vocabulary \<Rightarrow> env \<Rightarrow> slot_plan \<Rightarrow> u64 option" where
  "probe_arg v env sp = (case sp of
       Bound (From_Var n) \<Rightarrow> Some (env n) | Bound (From_Vocab f) \<Rightarrow> Some (vget v f) | _ \<Rightarrow> None)"

text \<open>The emitter's own panics, raised when the rules are compiled.\<close>

definition leading_ok :: "plan_step \<Rightarrow> bool" where
  "leading_ok st = (case step_p st of Bound (From_Vocab _) \<Rightarrow> True | _ \<Rightarrow> False)"

definition probing_ok :: "plan_step \<Rightarrow> bool" where
  "probing_ok st = (case step_p st of Same_As_Earlier _ _ \<Rightarrow> False | _ \<Rightarrow> True)"

definition emit_ok :: "plan_step list \<Rightarrow> bool" where
  "emit_ok sts = (case sts of [] \<Rightarrow> True | st # rest \<Rightarrow> leading_ok st \<and> list_all probing_ok rest)"

definition leading_iter :: "orders \<Rightarrow> vocabulary \<Rightarrow> mem_store \<Rightarrow> plan_step \<Rightarrow> triple list" where
  "leading_iter h v src st = (case (step_p st, step_o st) of
       (Bound (From_Vocab f), Bound (From_Vocab g)) \<Rightarrow> probe h src None (vget v f) (Some (vget v g))
     | (Bound (From_Vocab f), _) \<Rightarrow> scan_predicate h src (vget v f)
     | _ \<Rightarrow> [])"

definition probing_iter :: "orders \<Rightarrow> vocabulary \<Rightarrow> mem_store \<Rightarrow> env \<Rightarrow> plan_step \<Rightarrow> triple list" where
  "probing_iter h v src env st =
     (let s = probe_arg v env (step_s st); ob = probe_arg v env (step_o st) in
      case step_p st of
        Fresh n \<Rightarrow> probe_any_predicate h src s ob
      | Bound (From_Vocab f) \<Rightarrow> probe h src s (vget v f) ob
      | Bound (From_Var n) \<Rightarrow> probe h src s (env n) ob
      | Same_As_Earlier n pos \<Rightarrow> [])"

definition head_expr :: "vocabulary \<Rightarrow> env \<Rightarrow> term_slot \<Rightarrow> u64" where
  "head_expr v env slot = (case slot of Var n \<Rightarrow> env n | Vocab f \<Rightarrow> vget v f)"

definition emit_head :: "mem_store \<Rightarrow> rule_spec \<Rightarrow> env \<Rightarrow> triple list \<Rightarrow> delta \<Rightarrow> delta" where
  "emit_head store r env ts out =
     (let v = ms_vocab store in
      insert_fresh store (head_expr v env (pat_s (rule_head r)), head_expr v env (pat_p (rule_head r)),
          head_expr v env (pat_o (rule_head r)))
        \<lparr>prov_rule = rule_id r, prov_premises = ts\<rparr> out)"

fun emit_step ::
  "orders \<Rightarrow> mem_store \<Rightarrow> rule_spec \<Rightarrow> bool \<Rightarrow> plan_step list \<Rightarrow> mem_store list \<Rightarrow> env \<Rightarrow> triple list \<Rightarrow> delta \<Rightarrow> delta" where
  "emit_step h store r leading (st # sts) (src # srcs) env ts out =
     (let v = ms_vocab store;
          inner = (\<lambda>t out. if intra_step_equality st t
             then emit_step h store r False sts srcs (bind_step st t env) (ts @ [t]) out else out)
      in if leading then fold (\<lambda>t out. if filter_for_leading v st t then inner t out else out) (leading_iter h v src st) out
         else fold inner (probing_iter h v src env st) out)"
| "emit_step h store r leading _ _ env ts out = emit_head store r env ts out"

definition rule_body_fn ::
  "orders \<Rightarrow> mem_store \<Rightarrow> rule_spec \<Rightarrow> mem_store list \<Rightarrow> delta \<Rightarrow> delta" where
  "rule_body_fn h store r srcs out = emit_step h store r True (plan_rule r) srcs (\<lambda>_. 0) [] out"

text \<open>
  The compiled rule: the naive join over the full store, or one variant per body atom with that
  atom read from the delta.
\<close>

definition fire_rule :: "orders \<Rightarrow> rule_spec \<Rightarrow> mem_store \<Rightarrow> mem_store option \<Rightarrow> delta" where
  "fire_rule h r store delta =
     (if rule_delegate r then delta_new
      else let n = length (rule_body r) in
        case delta of
          None \<Rightarrow> rule_body_fn h store r (replicate n store) delta_new
        | Some d \<Rightarrow> fold (\<lambda>i out. rule_body_fn h store r ((replicate n store)[i := d]) out) [0..<n] delta_new)"

fun body_predicate_fields :: "pattern list \<Rightarrow> string list \<Rightarrow> string list" where
  "body_predicate_fields [] out = out"
| "body_predicate_fields (pat # pats) out = body_predicate_fields pats
     (case pat_p pat of Vocab f \<Rightarrow> if f \<in> set out then out else out @ [f] | Var n \<Rightarrow> out)"

definition wildcard_predicate :: "rule_spec \<Rightarrow> bool" where
  "wildcard_predicate r \<longleftrightarrow> \<not> rule_delegate r \<and> list_ex (\<lambda>pat. case pat_p pat of Var n \<Rightarrow> True | Vocab f \<Rightarrow> False) (rule_body r)"

definition compiled_predicates :: "rule_spec \<Rightarrow> string list" where
  "compiled_predicates r = (if rule_delegate r then [] else body_predicate_fields (rule_body r) [])"

section \<open>What a rule means\<close>

text \<open>
  A substitution instantiates patterns; a rule's conclusions over one triple set per body atom are
  the instances of its head under the substitutions that put every atom into its set.
\<close>

definition inst_pat :: "vocabulary \<Rightarrow> env \<Rightarrow> pattern \<Rightarrow> triple" where
  "inst_pat v \<sigma> pat = (head_expr v \<sigma> (pat_s pat), head_expr v \<sigma> (pat_p pat), head_expr v \<sigma> (pat_o pat))"

definition rule_heads :: "vocabulary \<Rightarrow> rule_spec \<Rightarrow> triple set list \<Rightarrow> triple set" where
  "rule_heads v r Ts = {inst_pat v \<sigma> (rule_head r) | \<sigma>.
     list_all2 (\<lambda>pat T. inst_pat v \<sigma> pat \<in> T) (rule_body r) Ts}"

definition slot_vars :: "term_slot \<Rightarrow> string set" where
  "slot_vars slot = (case slot of Var n \<Rightarrow> {n} | Vocab f \<Rightarrow> {})"

definition pat_vars :: "pattern \<Rightarrow> string set" where
  "pat_vars pat = slot_vars (pat_s pat) \<union> slot_vars (pat_p pat) \<union> slot_vars (pat_o pat)"

text \<open>Rules the compiler accepts and whose emitted code declares every variable it uses.\<close>

definition compilable :: "rule_spec \<Rightarrow> bool" where
  "compilable r \<longleftrightarrow> rule_body r \<noteq> [] \<and> emit_ok (plan_rule r)
     \<and> pat_vars (rule_head r) \<subseteq> (\<Union>pat\<in>set (rule_body r). pat_vars pat)"

text \<open>The test the loops of one step perform on a triple.\<close>

definition slot_ok :: "vocabulary \<Rightarrow> env \<Rightarrow> slot_plan \<Rightarrow> slot_pos \<Rightarrow> triple \<Rightarrow> bool" where
  "slot_ok v env sp pos t = (case sp of
       Bound (From_Vocab f) \<Rightarrow> triple_field pos t = vget v f
     | Bound (From_Var n) \<Rightarrow> triple_field pos t = env n
     | Fresh n \<Rightarrow> True
     | Same_As_Earlier n earlier \<Rightarrow> triple_field pos t = triple_field earlier t)"

definition step_ok :: "vocabulary \<Rightarrow> env \<Rightarrow> plan_step \<Rightarrow> triple \<Rightarrow> bool" where
  "step_ok v env st t \<longleftrightarrow> slot_ok v env (step_s st) Pos_S t \<and> slot_ok v env (step_p st) Pos_P t
     \<and> slot_ok v env (step_o st) Pos_O t"

lemma slot_ok_leading:
  "\<forall>n. sp \<noteq> Bound (From_Var n) \<Longrightarrow>
   slot_ok v env sp pos t \<longleftrightarrow> vocab_check v sp (triple_field pos t) \<and> equality_check sp pos t"
  by (auto simp: slot_ok_def vocab_check_def equality_check_def split: slot_plan.split bound_source.split)

lemma slot_ok_probing:
  "slot_ok v env sp pos t \<longleftrightarrow> none_or (probe_arg v env sp) (triple_field pos t) \<and> equality_check sp pos t"
  by (auto simp: slot_ok_def probe_arg_def equality_check_def none_or_def split: slot_plan.split bound_source.split)

lemma leading_iter_set:
  assumes "mirrored src" and "leading_ok st" and "\<forall>n. step_s st \<noteq> Bound (From_Var n)"
    and "\<forall>n. step_o st \<noteq> Bound (From_Var n)"
  shows "t \<in> set (leading_iter h v src st) \<and> filter_for_leading v st t \<and> intra_step_equality st t
    \<longleftrightarrow> t \<in> all_triples src \<and> step_ok v env st t"
proof -
  obtain f where p: "step_p st = Bound (From_Vocab f)"
    using assms(2) by (auto simp: leading_ok_def split: slot_plan.splits bound_source.splits)
  obtain x y z where t: "t = (x, y, z)" by (rule prod_cases3)
  have "t \<in> set (leading_iter h v src st) \<and> vocab_check v (step_o st) z
      \<longleftrightarrow> t \<in> all_triples src \<and> y = vget v f \<and> vocab_check v (step_o st) z"
    by (auto simp: leading_iter_def p t probe_set [OF assms(1)] none_or_def vocab_check_def
        split: slot_plan.splits bound_source.splits)
  moreover have "slot_ok v env (step_p st) Pos_P t \<longleftrightarrow> y = vget v f" "equality_check (step_p st) Pos_P t"
    by (simp_all add: p slot_ok_def t triple_field_def equality_check_def)
  moreover have "triple_field Pos_O t = z" by (simp add: t triple_field_def)
  ultimately show ?thesis
    unfolding step_ok_def filter_for_leading_def intra_step_equality_def
      slot_ok_leading [OF assms(3)] slot_ok_leading [OF assms(4)] by auto
qed

lemma probing_iter_set:
  assumes "mirrored src" and "probing_ok st"
  shows "t \<in> set (probing_iter h v src env st) \<and> intra_step_equality st t
    \<longleftrightarrow> t \<in> all_triples src \<and> step_ok v env st t"
proof -
  obtain x y z where t: "t = (x, y, z)" by (rule prod_cases3)
  have "t \<in> set (probing_iter h v src env st) \<longleftrightarrow> t \<in> all_triples src \<and> none_or (probe_arg v env (step_s st)) x
     \<and> none_or (probe_arg v env (step_p st)) y \<and> none_or (probe_arg v env (step_o st)) z"
    using assms(2)
    by (auto simp: probing_iter_def Let_def t probe_set [OF assms(1)] probe_any_set probing_ok_def
        probe_arg_def none_or_def [of "Some _"] none_or_def [of None] split: slot_plan.splits bound_source.splits)
  then show ?thesis
    unfolding step_ok_def slot_ok_probing intra_step_equality_def by (auto simp: t triple_field_def)
qed

lemmas match_simps = plan_pattern_def classify_def step_ok_def slot_ok_def bind_step_def bind_for_def
  triple_field_def inst_pat_def head_expr_def pat_vars_def slot_vars_def

lemma plan_pattern_vars: "snd (plan_pattern pat B) = B \<union> pat_vars pat"
  by (cases "pat_s pat"; cases "pat_p pat"; cases "pat_o pat") (auto simp: match_simps)

lemma step_ok_inst:
  "step_ok v env (fst (plan_pattern pat B)) t \<Longrightarrow>
   inst_pat v (bind_step (fst (plan_pattern pat B)) t env) pat = t
   \<and> (\<forall>n\<in>B. bind_step (fst (plan_pattern pat B)) t env n = env n)"
  by (cases t; cases "pat_s pat"; cases "pat_p pat"; cases "pat_o pat")
    (auto simp: match_simps split: if_splits)

lemma inst_step_ok:
  "\<forall>n\<in>B. \<sigma> n = env n \<Longrightarrow> inst_pat v \<sigma> pat = t \<Longrightarrow>
   step_ok v env (fst (plan_pattern pat B)) t
   \<and> (\<forall>n\<in>B \<union> pat_vars pat. \<sigma> n = bind_step (fst (plan_pattern pat B)) t env n)"
  by (cases t; cases "pat_s pat"; cases "pat_p pat"; cases "pat_o pat")
    (auto simp: match_simps)

text \<open>The conclusions still open to an environment that binds \<open>B\<close>, over the remaining atoms.\<close>

definition open_heads ::
  "vocabulary \<Rightarrow> rule_spec \<Rightarrow> string set \<Rightarrow> env \<Rightarrow> pattern list \<Rightarrow> triple set list \<Rightarrow> triple set" where
  "open_heads v r B env pats Ts = {inst_pat v \<sigma> (rule_head r) | \<sigma>.
     (\<forall>n\<in>B. \<sigma> n = env n) \<and> list_all2 (\<lambda>pat T. inst_pat v \<sigma> pat \<in> T) pats Ts}"

lemma open_heads_nil:
  "pat_vars (rule_head r) \<subseteq> B \<Longrightarrow> open_heads v r B env [] [] = {inst_pat v env (rule_head r)}"
  by (auto simp: open_heads_def inst_pat_def head_expr_def pat_vars_def slot_vars_def
      split: term_slot.splits)

lemma open_heads_cons:
  "open_heads v r B env (pat # pats) (T # Ts) =
     (\<Union>t \<in> {t \<in> T. step_ok v env (fst (plan_pattern pat B)) t}.
        open_heads v r (B \<union> pat_vars pat) (bind_step (fst (plan_pattern pat B)) t env) pats Ts)"
    (is "?L = ?R")
proof
  let ?st = "fst (plan_pattern pat B)"
  show "?L \<subseteq> ?R"
  proof
    fix hd' assume "hd' \<in> ?L"
    then obtain \<sigma> where \<sigma>: "hd' = inst_pat v \<sigma> (rule_head r)" "\<forall>n\<in>B. \<sigma> n = env n" "inst_pat v \<sigma> pat \<in> T"
      "list_all2 (\<lambda>pat T. inst_pat v \<sigma> pat \<in> T) pats Ts" by (auto simp: open_heads_def)
    from inst_step_ok [OF \<sigma>(2) refl] \<sigma> show "hd' \<in> ?R"
      by (intro UN_I [of "inst_pat v \<sigma> pat"]) (auto simp: open_heads_def)
  qed
  show "?R \<subseteq> ?L"
  proof
    fix hd' assume "hd' \<in> ?R"
    then obtain t \<sigma> where t: "t \<in> T" "step_ok v env ?st t" and \<sigma>: "hd' = inst_pat v \<sigma> (rule_head r)"
      "\<forall>n\<in>B \<union> pat_vars pat. \<sigma> n = bind_step ?st t env n"
      "list_all2 (\<lambda>pat T. inst_pat v \<sigma> pat \<in> T) pats Ts" by (auto simp: open_heads_def)
    have "inst_pat v \<sigma> pat = inst_pat v (bind_step ?st t env) pat"
      using \<sigma>(2) by (auto simp: inst_pat_def head_expr_def pat_vars_def slot_vars_def split: term_slot.splits)
    then show "hd' \<in> ?L"
      using step_ok_inst [OF t(2)] t \<sigma> by (auto simp: open_heads_def intro!: exI [of _ \<sigma>])
  qed
qed

lemma rule_heads_open: "rule_heads v r Ts = open_heads v r {} env (rule_body r) Ts"
  by (simp add: rule_heads_def open_heads_def)

lemma plan_unbound_leading:
  "\<forall>n. step_s (fst (plan_pattern pat {})) \<noteq> Bound (From_Var n)"
  "leading_ok (fst (plan_pattern pat {})) \<Longrightarrow> \<forall>n. step_o (fst (plan_pattern pat {})) \<noteq> Bound (From_Var n)"
  by (cases "pat_s pat"; cases "pat_p pat"; cases "pat_o pat"; auto simp: match_simps leading_ok_def)+

lemma emit_head_triples:
  "d_triples (emit_head store r env ts out)
     = d_triples out \<union> ({inst_pat (ms_vocab store) env (rule_head r)} - all_triples store)"
  by (simp add: emit_head_def inst_pat_def Let_def)

lemma emit_step_spec:
  assumes "pat_vars (rule_head r) \<subseteq> B \<union> (\<Union>pat\<in>set pats. pat_vars pat)"
    and "length srcs = length pats" and "\<forall>m\<in>set srcs. mirrored m"
    and "if leading then B = {} \<and> emit_ok (plan_body pats B) else list_all probing_ok (plan_body pats B)"
  shows "d_triples (emit_step h store r leading (plan_body pats B) srcs env ts out) = d_triples out
    \<union> (open_heads (ms_vocab store) r B env pats (map all_triples srcs) - all_triples store)"
  using assms
proof (induction pats arbitrary: B env ts out srcs leading)
  case Nil
  then show ?case by (simp add: emit_head_triples open_heads_nil)
next
  case (Cons pat pats)
  obtain src srcs' where srcs: "srcs = src # srcs'" "length srcs' = length pats" using Cons.prems(2)
    by (cases srcs) auto
  obtain st where st: "plan_pattern pat B = (st, B \<union> pat_vars pat)"
    using plan_pattern_vars by (metis prod.collapse)
  let ?v = "ms_vocab store" and ?B = "B \<union> pat_vars pat"
  define H where "H t = open_heads ?v r ?B (bind_step st t env) pats (map all_triples srcs') - all_triples store" for t
  have m: "mirrored src" "\<forall>m\<in>set srcs'. mirrored m" using Cons.prems(3) srcs by simp_all
  have rest: "list_all probing_ok (plan_body pats ?B)"
    using Cons.prems(4) by (auto simp: st emit_ok_def split: if_splits)
  have hv: "pat_vars (rule_head r) \<subseteq> ?B \<union> (\<Union>pat\<in>set pats. pat_vars pat)" using Cons.prems(1) by auto
  define inner where "inner t out = (if intra_step_equality st t
      then emit_step h store r False (plan_body pats ?B) srcs' (bind_step st t env) (ts @ [t]) out else out)" for t out
  have inner_eq: "inner = (\<lambda>t out. if intra_step_equality st t
      then emit_step h store r False (plan_body pats ?B) srcs' (bind_step st t env) (ts @ [t]) out else out)"
    by (intro ext) (simp add: inner_def)
  have inner: "d_triples (inner t out) = d_triples out \<union> (if intra_step_equality st t then H t else {})" for t out
    using Cons.IH [OF hv srcs(2) m(2), of False] rest by (simp add: inner_def H_def)
  define runs where "runs = {t \<in> all_triples src. step_ok ?v env st t}"
  have goal: "open_heads ?v r B env (pat # pats) (map all_triples srcs) - all_triples store = (\<Union>t\<in>runs. H t)"
    unfolding srcs list.map open_heads_cons by (auto simp: st runs_def H_def)
  show ?case
  proof (cases leading)
    case True
    then have B: "B = {}" and l: "leading_ok st" using Cons.prems(4) by (simp_all add: st emit_ok_def)
    have ns: "\<forall>n. step_s st \<noteq> Bound (From_Var n)" "\<forall>n. step_o st \<noteq> Bound (From_Var n)"
      using plan_unbound_leading [of pat] l st B by simp_all
    have "emit_step h store r leading (plan_body (pat # pats) B) srcs env ts out
        = fold (\<lambda>t out. if filter_for_leading ?v st t then inner t out else out) (leading_iter h ?v src st) out"
      unfolding inner_eq by (simp add: st srcs True Let_def)
    moreover have "d_triples (fold (\<lambda>t out. if filter_for_leading ?v st t then inner t out else out) (leading_iter h ?v src st) out)
        = d_triples out \<union> \<Union> ((\<lambda>t. if filter_for_leading ?v st t \<and> intra_step_equality st t then H t else {})
            ` set (leading_iter h ?v src st))"
      by (rule fold_triples) (simp add: inner)
    moreover have "\<Union> ((\<lambda>t. if filter_for_leading ?v st t \<and> intra_step_equality st t then H t else {})
        ` set (leading_iter h ?v src st)) = (\<Union>t\<in>runs. H t)"
      using leading_iter_set [OF m(1) l ns, of _ h ?v env] unfolding runs_def by (fastforce split: if_splits)
    ultimately show ?thesis unfolding goal by simp
  next
    case False
    then have q: "probing_ok st" using Cons.prems(4) by (simp add: st)
    have "emit_step h store r leading (plan_body (pat # pats) B) srcs env ts out
        = fold inner (probing_iter h ?v src env st) out"
      unfolding inner_eq by (simp add: st srcs False Let_def)
    moreover have "d_triples (fold inner (probing_iter h ?v src env st) out)
        = d_triples out \<union> \<Union> ((\<lambda>t. if intra_step_equality st t then H t else {}) ` set (probing_iter h ?v src env st))"
      by (rule fold_triples) (simp add: inner)
    moreover have "\<Union> ((\<lambda>t. if intra_step_equality st t then H t else {}) ` set (probing_iter h ?v src env st))
        = (\<Union>t\<in>runs. H t)"
      using probing_iter_set [OF m(1) q, of _ h ?v env] unfolding runs_def by (fastforce split: if_splits)
    ultimately show ?thesis unfolding goal by simp
  qed
qed

lemma rule_body_fn_spec:
  assumes "compilable r" and "length srcs = length (rule_body r)" and "\<forall>m\<in>set srcs. mirrored m"
  shows "d_triples (rule_body_fn h store r srcs out)
    = d_triples out \<union> (rule_heads (ms_vocab store) r (map all_triples srcs) - all_triples store)"
  unfolding rule_body_fn_def plan_rule_def rule_heads_open [of _ _ _ "\<lambda>_. 0"]
  by (rule emit_step_spec) (use assms in \<open>auto simp: compilable_def plan_rule_def\<close>)

text \<open>The heads a firing adds: all, or those of a derivation that uses a triple of the delta.\<close>

definition fired_rule_heads :: "vocabulary \<Rightarrow> rule_spec \<Rightarrow> triple set \<Rightarrow> triple set option \<Rightarrow> triple set" where
  "fired_rule_heads v r T D = (case D of
       None \<Rightarrow> rule_heads v r (replicate (length (rule_body r)) T)
     | Some d \<Rightarrow> (\<Union>i<length (rule_body r). rule_heads v r ((replicate (length (rule_body r)) T)[i := d])))"

lemma fire_rule_spec:
  assumes "compilable r" and "\<not> rule_delegate r" and "mirrored store" and "\<forall>d. delta = Some d \<longrightarrow> mirrored d"
  shows "d_triples (fire_rule h r store delta)
    = fired_rule_heads (ms_vocab store) r (all_triples store) (map_option all_triples delta) - all_triples store"
proof (cases delta)
  case None
  then show ?thesis
    using assms by (simp add: fire_rule_def fired_rule_heads_def rule_body_fn_spec)
next
  case (Some d)
  let ?n = "length (rule_body r)"
  have *: "d_triples (fold (\<lambda>i out. rule_body_fn h store r ((replicate ?n store)[i := d]) out) [0..<?n] delta_new)
      = d_triples delta_new \<union> \<Union> ((\<lambda>i. rule_heads (ms_vocab store) r ((replicate ?n (all_triples store))[i := all_triples d])
          - all_triples store) ` set [0..<?n])"
  proof (rule fold_triples)
    fix i out
    have "\<forall>m\<in>set ((replicate ?n store)[i := d]). mirrored m"
      using assms Some set_update_subset_insert [of "replicate ?n store" i d] by (auto split: if_splits)
    then show "d_triples (rule_body_fn h store r ((replicate ?n store)[i := d]) out) = d_triples out
        \<union> (rule_heads (ms_vocab store) r ((replicate ?n (all_triples store))[i := all_triples d]) - all_triples store)"
      using assms by (simp add: rule_body_fn_spec map_update)
  qed
  show ?thesis using assms(2) Some * by (auto simp: fire_rule_def fired_rule_heads_def Let_def)
qed

section \<open>Semi-naive evaluation\<close>

lemma rule_heads_replicate:
  "t \<in> rule_heads v r (replicate (length (rule_body r)) T) \<longleftrightarrow>
   (\<exists>\<sigma>. t = inst_pat v \<sigma> (rule_head r) \<and> (\<forall>pat\<in>set (rule_body r). inst_pat v \<sigma> pat \<in> T))"
proof -
  have "list_all2 (\<lambda>pat T. inst_pat v \<sigma> pat \<in> T) pats (replicate (length pats) T)
      \<longleftrightarrow> (\<forall>pat\<in>set pats. inst_pat v \<sigma> pat \<in> T)" for \<sigma> pats
    by (induction pats) auto
  then show ?thesis by (auto simp: rule_heads_def)
qed

definition consequences :: "vocabulary \<Rightarrow> rule_spec \<Rightarrow> triple set \<Rightarrow> triple set" where
  "consequences v r T = rule_heads v r (replicate (length (rule_body r)) T)"

lemma consequences_iff:
  "t \<in> consequences v r T \<longleftrightarrow>
   (\<exists>\<sigma>. t = inst_pat v \<sigma> (rule_head r) \<and> (\<forall>pat\<in>set (rule_body r). inst_pat v \<sigma> pat \<in> T))"
  by (simp add: consequences_def rule_heads_replicate)

lemma consequences_mono: "T \<subseteq> U \<Longrightarrow> consequences v r T \<subseteq> consequences v r U"
  by (auto simp: consequences_iff) blast

lemma fired_rule_heads_sound:
  assumes "D \<subseteq> T" shows "fired_rule_heads v r T (Some D) \<subseteq> consequences v r T"
proof -
  have "rule_heads v r ((replicate (length (rule_body r)) T)[i := D]) \<subseteq> consequences v r T" for i
  proof
    fix t assume "t \<in> rule_heads v r ((replicate (length (rule_body r)) T)[i := D])"
    then obtain \<sigma> where "t = inst_pat v \<sigma> (rule_head r)"
      "list_all2 (\<lambda>pat T. inst_pat v \<sigma> pat \<in> T) (rule_body r) ((replicate (length (rule_body r)) T)[i := D])"
      by (auto simp: rule_heads_def)
    moreover have "(replicate (length (rule_body r)) T)[i := D] ! k \<subseteq> T" if "k < length (rule_body r)" for k
      using assms that by (cases "k = i") simp_all
    ultimately show "t \<in> consequences v r T"
      unfolding consequences_iff list_all2_conv_all_nth
      by (force simp: in_set_conv_nth intro!: exI [of _ \<sigma>])
  qed
  then show ?thesis by (auto simp: fired_rule_heads_def)
qed

text \<open>Every derivation over the store avoids the delta, or uses it in some atom.\<close>

lemma semi_naive_split:
  "consequences v r T \<subseteq> consequences v r (T - D) \<union> fired_rule_heads v r T (Some D)"
proof
  fix t assume "t \<in> consequences v r T"
  then obtain \<sigma> where \<sigma>: "t = inst_pat v \<sigma> (rule_head r)" "\<forall>pat\<in>set (rule_body r). inst_pat v \<sigma> pat \<in> T"
    by (auto simp: consequences_iff)
  show "t \<in> consequences v r (T - D) \<union> fired_rule_heads v r T (Some D)"
  proof (cases "\<forall>pat\<in>set (rule_body r). inst_pat v \<sigma> pat \<notin> D")
    case True then show ?thesis using \<sigma> by (auto simp: consequences_iff)
  next
    case False
    then obtain i where i: "i < length (rule_body r)" "inst_pat v \<sigma> (rule_body r ! i) \<in> D"
      by (auto simp: in_set_conv_nth)
    then have "t \<in> rule_heads v r ((replicate (length (rule_body r)) T)[i := D])"
      using \<sigma> unfolding rule_heads_def list_all2_conv_all_nth
      by (auto simp: nth_list_update intro!: exI [of _ \<sigma>])
    then show ?thesis using i by (auto simp: fired_rule_heads_def)
  qed
qed

text \<open>A rule whose body predicates are untouched has no derivation that uses a changed triple.\<close>

lemma set_body_predicate_fields:
  "set (body_predicate_fields pats out) = set out \<union> {f. \<exists>pat\<in>set pats. pat_p pat = Vocab f}"
  by (induction pats out rule: body_predicate_fields.induct) (auto split: term_slot.splits)

lemma consequences_untouched:
  assumes "\<not> rule_delegate r" and "\<not> wildcard_predicate r"
    and "\<And>f. f \<in> set (compiled_predicates r) \<Longrightarrow> vget v f \<notin> P"
    and "\<And>t. t \<in> T - U \<Longrightarrow> fst (snd t) \<in> P"
  shows "consequences v r T \<subseteq> consequences v r U"
proof
  fix t assume "t \<in> consequences v r T"
  then obtain \<sigma> where \<sigma>: "t = inst_pat v \<sigma> (rule_head r)" "\<forall>pat\<in>set (rule_body r). inst_pat v \<sigma> pat \<in> T"
    by (auto simp: consequences_iff)
  have "inst_pat v \<sigma> pat \<in> U" if pat: "pat \<in> set (rule_body r)" for pat
  proof (rule ccontr)
    assume "inst_pat v \<sigma> pat \<notin> U"
    then have "head_expr v \<sigma> (pat_p pat) \<in> P" using assms(4) [of "inst_pat v \<sigma> pat"] \<sigma>(2) pat
      by (auto simp: inst_pat_def)
    moreover obtain f where f: "pat_p pat = Vocab f"
      using assms(1,2) pat by (cases "pat_p pat") (auto simp: wildcard_predicate_def list_ex_iff)
    moreover have "f \<in> set (compiled_predicates r)"
      using assms(1) pat f by (auto simp: compiled_predicates_def set_body_predicate_fields)
    ultimately show False using assms(3) by (auto simp: head_expr_def)
  qed
  then show "t \<in> consequences v r U" using \<sigma> by (auto simp: consequences_iff)
qed

section \<open>Properties\<close>

text \<open>C12: The code emitted for a compilable rule derives exactly the instances of its head that are
  not stored, for the substitutions under which every body atom is stored; a delegated rule fires
  nothing.\<close>

theorem fire_rule_exact:
  assumes "compilable r" and "ms_inv m"
  shows "d_triples (fire_rule h r m None) = (if rule_delegate r then {} else
    {inst_pat (ms_vocab m) \<sigma> (rule_head r) | \<sigma>.
       \<forall>pat\<in>set (rule_body r). ms_contains m (inst_pat (ms_vocab m) \<sigma> pat)} - {t. ms_contains m t})"
proof (cases "rule_delegate r")
  case True then show ?thesis by (simp add: fire_rule_def)
next
  case False
  have "d_triples (fire_rule h r m None) = consequences (ms_vocab m) r (all_triples m) - all_triples m"
    using fire_rule_spec [OF assms(1) False, of m None h] assms(2)
    by (simp add: ms_inv_def fired_rule_heads_def consequences_def)
  also have "consequences (ms_vocab m) r (all_triples m) = {inst_pat (ms_vocab m) \<sigma> (rule_head r) | \<sigma>.
       \<forall>pat\<in>set (rule_body r). ms_contains m (inst_pat (ms_vocab m) \<sigma> pat)}"
    by (auto simp: consequences_iff)
  finally show ?thesis using False by (simp add: set_eq_iff)
qed

text \<open>Class membership is inherited: the rule \<^verbatim>\<open>cax-sco\<close>.\<close>

definition cax_sco :: rule_spec where
  "cax_sco = \<lparr>rule_id = ''cax-sco'', rule_delegate = False,
     rule_body = [\<lparr>pat_s = Var ''c1'', pat_p = Vocab ''rdfs_sub_class_of'', pat_o = Var ''c2''\<rparr>,
                  \<lparr>pat_s = Var ''x'', pat_p = Vocab ''rdf_type'', pat_o = Var ''c1''\<rparr>],
     rule_head = \<lparr>pat_s = Var ''x'', pat_p = Vocab ''rdf_type'', pat_o = Var ''c2''\<rparr>\<rparr>"

definition class_store :: mem_store where
  "class_store = (let v = synthetic 100 in
     assert_all [(1, rdfs_sub_class_of v, 2), (7, rdf_type v, 1)] (ms_new v))"

lemma class_store_facts:
  "ms_inv class_store" "all_triples class_store = {(1, 104, 2), (7, 100, 1)}"
  "ms_vocab class_store = synthetic 100"
proof -
  note spec = assert_all_spec [OF ms_inv_new(1)]
  show "ms_inv class_store" using spec by (simp add: class_store_def Let_def)
  have "all_triples class_store = {(1, rdfs_sub_class_of (synthetic 100), 2), (7, rdf_type (synthetic 100), 1)}"
    using spec by (simp add: class_store_def Let_def)
  then show "all_triples class_store = {(1, 104, 2), (7, 100, 1)}" by (simp add: synthetic_def)
  show "ms_vocab class_store = synthetic 100"
    by (simp add: class_store_def Let_def assert_all_def ms_assert_def add_pair_def ms_new_def)
qed

lemma cax_sco_compilable: "compilable cax_sco"
  by code_simp

lemma vget_example: "vget (synthetic 100) ''rdfs_sub_class_of'' = 104" "vget (synthetic 100) ''rdf_type'' = 100"
  by (simp_all add: vget_def vocab_fields_def terms_of_def synthetic_def)

lemma fire_rule_exact_witness:
  "compilable cax_sco \<and> ms_inv class_store \<and> (7, 100, 2) \<in> d_triples (fire_rule asc cax_sco class_store None)"
proof -
  let ?\<sigma> = "(\<lambda>_. 0)(''c1'' := 1, ''c2'' := 2, ''x'' := 7)"
  have "\<forall>pat\<in>set (rule_body cax_sco). inst_pat (ms_vocab class_store) ?\<sigma> pat \<in> all_triples class_store"
    by (simp add: cax_sco_def class_store_facts inst_pat_def head_expr_def vget_example)
  moreover have "(7, 100, 2) = inst_pat (ms_vocab class_store) ?\<sigma> (rule_head cax_sco)"
    by (simp add: cax_sco_def class_store_facts inst_pat_def head_expr_def vget_example)
  moreover have "(7, 100, 2) \<notin> all_triples class_store" "\<not> rule_delegate cax_sco"
    by (simp_all add: class_store_facts cax_sco_def)
  ultimately show ?thesis
    using fire_rule_exact [OF cax_sco_compilable class_store_facts(1), of asc] cax_sco_compilable class_store_facts(1)
    by (auto intro!: exI [of _ ?\<sigma>])
qed

text \<open>C8: Firing a rule against the previous round's delta derives the same triples as joining the
  full store again, whenever the derivations without the delta have been drawn already.\<close>

theorem semi_naive_exact:
  assumes "compilable r" and "\<not> rule_delegate r" and "ms_inv m" and "ms_inv d" and "all_triples d \<subseteq> all_triples m"
    and "consequences (ms_vocab m) r (all_triples m - all_triples d) \<subseteq> all_triples m"
  shows "d_triples (fire_rule h r m (Some d)) = d_triples (fire_rule h r m None)"
proof -
  have mir: "mirrored m" "mirrored d" using assms(3,4) by (simp_all add: ms_inv_def)
  have "d_triples (fire_rule h r m (Some d))
      = fired_rule_heads (ms_vocab m) r (all_triples m) (Some (all_triples d)) - all_triples m"
    using fire_rule_spec [OF assms(1,2) mir(1), of "Some d" h] mir(2) by simp
  also have "\<dots> = consequences (ms_vocab m) r (all_triples m) - all_triples m"
    using fired_rule_heads_sound [OF assms(5), of "ms_vocab m" r]
      semi_naive_split [of "ms_vocab m" r "all_triples m" "all_triples d"] assms(6) by blast
  also have "\<dots> = d_triples (fire_rule h r m None)"
    using fire_rule_spec [OF assms(1,2) mir(1), of None h] by (simp add: fired_rule_heads_def consequences_def)
  finally show ?thesis .
qed

lemma semi_naive_exact_witness:
  "compilable cax_sco \<and> d_triples (fire_rule asc cax_sco class_store (Some class_store))
     = d_triples (fire_rule asc cax_sco class_store None)"
proof -
  have "consequences (ms_vocab class_store) cax_sco (all_triples class_store - all_triples class_store) = {}"
    by (auto simp: consequences_iff cax_sco_def)
  then show ?thesis
    using semi_naive_exact [OF cax_sco_compilable _ class_store_facts(1) class_store_facts(1), of asc]
      cax_sco_compilable by (simp add: cax_sco_def)
qed

section \<open>Parsing errors\<close>

definition slot_parses :: "string \<Rightarrow> qname_map \<Rightarrow> bool" where
  "slot_parses s qnames \<longleftrightarrow> (if s \<noteq> [] \<and> hd s = CHR ''?'' then tl s \<noteq> [] else qnames s \<noteq> None)"

definition pattern_parses :: "raw_pattern \<Rightarrow> qname_map \<Rightarrow> bool" where
  "pattern_parses p qnames \<longleftrightarrow> slot_parses (raw_s p) qnames \<and> slot_parses (raw_p p) qnames \<and> slot_parses (raw_o p) qnames"

definition rule_parses :: "raw_rule \<Rightarrow> qname_map \<Rightarrow> bool" where
  "rule_parses raw qnames \<longleftrightarrow> raw_delegate raw \<in> {None, Some ''closure''}
     \<and> (\<forall>p\<in>set (raw_head raw # raw_body raw). pattern_parses p qnames)"

lemma and_then_Inr_iff: "and_then r f = Inr y \<longleftrightarrow> (\<exists>x. r = Inr x \<and> f x = Inr y)"
  by (auto simp: and_then_def split: sum.splits)

lemma parse_slot_ok: "(\<exists>x. parse_slot s qnames = Inr x) \<longleftrightarrow> slot_parses s qnames"
  by (cases s) (auto simp: parse_slot_def slot_parses_def vocab_term_def and_then_Inr_iff split: option.splits)

lemma parse_pattern_ok: "(\<exists>x. parse_pattern p qnames = Inr x) \<longleftrightarrow> pattern_parses p qnames"
  by (auto simp: parse_pattern_def pattern_parses_def and_then_Inr_iff simp flip: parse_slot_ok)

lemma collect_ok: "(\<exists>ys. collect f xs = Inr ys) \<longleftrightarrow> (\<forall>x\<in>set xs. \<exists>y. f x = Inr y)"
  by (induction xs) (auto simp: and_then_Inr_iff)

lemma collect_list_all2: "collect f xs = Inr ys \<Longrightarrow> list_all2 (\<lambda>x y. f x = Inr y) xs ys"
  by (induction xs arbitrary: ys) (auto simp: and_then_Inr_iff)

lemma parse_rule_ok: "(\<exists>r. parse_rule raw qnames = Inr r) \<longleftrightarrow> rule_parses raw qnames"
proof -
  have "(\<exists>d. (case raw_delegate raw of None \<Rightarrow> Inr False
     | Some target \<Rightarrow> if target = ''closure'' then Inr True else Inl (Unknown_Delegate target (raw_id raw))) = Inr d)
     \<longleftrightarrow> raw_delegate raw \<in> {None, Some ''closure''}"
    by (cases "raw_delegate raw") auto
  then show ?thesis
    using collect_ok [of "\<lambda>p. parse_pattern p qnames" "raw_body raw"] parse_pattern_ok [of _ qnames]
    unfolding rule_parses_def parse_rule_def and_then_Inr_iff set_simps ball_simps by blast
qed

lemma parse_rule_fields:
  "parse_rule raw qnames = Inr r \<Longrightarrow> rule_id r = raw_id raw \<and> length (rule_body r) = length (raw_body raw)
     \<and> (rule_delegate r \<longleftrightarrow> raw_delegate raw \<noteq> None)"
  by (auto simp: parse_rule_def and_then_Inr_iff dest!: collect_list_all2 list_all2_lengthD
      split: option.splits if_splits)

text \<open>C39: Parsing fails exactly when some slot is a nameless variable or an unknown name, or a
  delegation names another target than the closure; otherwise identifiers, body lengths and
  delegation survive in order.\<close>

theorem parse_rules_exact:
  "case parse_rules raws qnames of
     Inl e \<Rightarrow> \<exists>raw\<in>set raws. \<not> rule_parses raw qnames
   | Inr rs \<Rightarrow> (\<forall>raw\<in>set raws. rule_parses raw qnames)
       \<and> list_all2 (\<lambda>raw r. rule_id r = raw_id raw \<and> length (rule_body r) = length (raw_body raw)
           \<and> (rule_delegate r \<longleftrightarrow> raw_delegate raw \<noteq> None)) raws rs"
proof -
  have ok:  "(\<exists>rs. parse_rules raws qnames = Inr rs) \<longleftrightarrow> (\<forall>raw\<in>set raws. rule_parses raw qnames)"
    unfolding parse_rules_def collect_ok parse_rule_ok ..
  have "list_all2 (\<lambda>raw r. rule_id r = raw_id raw \<and> length (rule_body r) = length (raw_body raw)
      \<and> (rule_delegate r \<longleftrightarrow> raw_delegate raw \<noteq> None)) raws rs" if "parse_rules raws qnames = Inr rs" for rs
    using that unfolding parse_rules_def
    by (auto intro: list_all2_mono [OF collect_list_all2] simp: parse_rule_fields)
  then show ?thesis using ok by (auto split: sum.split)
qed

lemma parse_rules_exact_witness:
  "parse_rules [\<lparr>raw_id = ''r'', raw_delegate = Some ''other'', raw_body = [],
     raw_head = \<lparr>raw_s = ''?x'', raw_p = ''p'', raw_o = ''?x''\<rparr>\<rparr>] [''p'' \<mapsto> ''f''] \<noteq> Inr []"
proof
  assume *: "parse_rules [\<lparr>raw_id = ''r'', raw_delegate = Some ''other'', raw_body = [],
     raw_head = \<lparr>raw_s = ''?x'', raw_p = ''p'', raw_o = ''?x''\<rparr>\<rparr>] [''p'' \<mapsto> ''f''] = Inr []"
  show False
    using parse_rules_exact [of "[\<lparr>raw_id = ''r'', raw_delegate = Some ''other'', raw_body = [],
     raw_head = \<lparr>raw_s = ''?x'', raw_p = ''p'', raw_o = ''?x''\<rparr>\<rparr>]" "[''p'' \<mapsto> ''f'']"]
    unfolding * by simp
qed

end
