(* ===== verification/Rule_Table.thy ===== *)
theory Rule_Table imports Rule_Compiler begin

text \<open>
  The rule table \<^verbatim>\<open>crates/owlrl/rules.toml\<close> as the compiler reads it, and the names of
  \<^verbatim>\<open>vocab.rs\<close> it is resolved against.
\<close>

text \<open>The vocabulary's documented names with the fields they stand for.\<close>

definition vocab_qnames :: "(string \<times> string) list" where
  "vocab_qnames = [
     (''rdf:type'', ''rdf_type''), (''rdf:first'', ''rdf_first''), (''rdf:rest'', ''rdf_rest''),
     (''rdf:nil'', ''rdf_nil''), (''rdfs:subClassOf'', ''rdfs_sub_class_of''),
     (''rdfs:subPropertyOf'', ''rdfs_sub_property_of''), (''rdfs:domain'', ''rdfs_domain''),
     (''rdfs:range'', ''rdfs_range''), (''owl:Class'', ''owl_class''), (''owl:Thing'', ''owl_thing''),
     (''owl:Nothing'', ''owl_nothing''), (''owl:sameAs'', ''owl_same_as''),
     (''owl:differentFrom'', ''owl_different_from''), (''owl:equivalentClass'', ''owl_equivalent_class''),
     (''owl:equivalentProperty'', ''owl_equivalent_property''), (''owl:inverseOf'', ''owl_inverse_of''),
     (''owl:FunctionalProperty'', ''owl_functional_property''),
     (''owl:InverseFunctionalProperty'', ''owl_inverse_functional_property''),
     (''owl:SymmetricProperty'', ''owl_symmetric_property''),
     (''owl:TransitiveProperty'', ''owl_transitive_property''),
     (''owl:IrreflexiveProperty'', ''owl_irreflexive_property''),
     (''owl:ReflexiveProperty'', ''owl_reflexive_property''),
     (''owl:AsymmetricProperty'', ''owl_asymmetric_property''),
     (''owl:propertyDisjointWith'', ''owl_property_disjoint_with''),
     (''owl:disjointWith'', ''owl_disjoint_with''), (''owl:complementOf'', ''owl_complement_of''),
     (''owl:intersectionOf'', ''owl_intersection_of''), (''owl:unionOf'', ''owl_union_of''),
     (''owl:someValuesFrom'', ''owl_some_values_from''), (''owl:allValuesFrom'', ''owl_all_values_from''),
     (''owl:hasValue'', ''owl_has_value''), (''owl:onProperty'', ''owl_on_property''),
     (''owl:maxCardinality'', ''owl_max_cardinality''),
     (''owl:maxQualifiedCardinality'', ''owl_max_qualified_cardinality''),
     (''owl:onClass'', ''owl_on_class''), (''owl:sourceIndividual'', ''owl_source_individual''),
     (''owl:assertionProperty'', ''owl_assertion_property''),
     (''owl:targetIndividual'', ''owl_target_individual''), (''owl:targetValue'', ''owl_target_value''),
     (''owl:ObjectProperty'', ''owl_object_property''),
     (''owl:propertyChainAxiom'', ''owl_property_chain_axiom''), (''owl:hasKey'', ''owl_has_key''),
     (''owl:AllDisjointClasses'', ''owl_all_disjoint_classes''),
     (''owl:AllDisjointProperties'', ''owl_all_disjoint_properties''),
     (''owl:AllDifferent'', ''owl_all_different''), (''owl:members'', ''owl_members''),
     (''owl:distinctMembers'', ''owl_distinct_members''),
     (''owl:NamedIndividual'', ''owl_named_individual''), (''skos:exactMatch'', ''skos_exact_match''),
     (''skos:closeMatch'', ''skos_close_match''), (''skos:broadMatch'', ''skos_broad_match''),
     (''skos:narrowMatch'', ''skos_narrow_match''), (''skos:relatedMatch'', ''skos_related_match''),
     (''semapv:crossSpeciesExactMatch'', ''semapv_cross_species_exact_match''),
     (''semapv:crossSpeciesNarrowMatch'', ''semapv_cross_species_narrow_match''),
     (''semapv:crossSpeciesBroadMatch'', ''semapv_cross_species_broad_match''),
     (''semapv:MappingChaining'', ''semapv_mapping_chaining''),
     (''semapv:MappingInversion'', ''semapv_mapping_inversion''), (''sssom:Mapping'', ''sssom_mapping''),
     (''sssom:subject_id'', ''sssom_subject_id''), (''sssom:predicate_id'', ''sssom_predicate_id''),
     (''sssom:object_id'', ''sssom_object_id''),
     (''sssom:mapping_justification'', ''sssom_mapping_justification''),
     (''sssom:confidence'', ''sssom_confidence''),
     (''sssom:predicate_modifier'', ''sssom_predicate_modifier''),
     (''sssom:derived_from'', ''sssom_derived_from''),
     (''horndb:notExactMatch'', ''horndb_not_exact_match'')]"

definition rules_toml :: "raw_rule list" where
  "rules_toml = [
   \<lparr>raw_id = ''eq-ref'', raw_delegate = Some ''closure'',
    raw_body = [],
    raw_head = \<lparr>raw_s = ''?s'', raw_p = ''owl:sameAs'', raw_o = ''?s''\<rparr>\<rparr>,
   \<lparr>raw_id = ''eq-sym'', raw_delegate = Some ''closure'',
    raw_body = [\<lparr>raw_s = ''?x'', raw_p = ''owl:sameAs'', raw_o = ''?y''\<rparr>],
    raw_head = \<lparr>raw_s = ''?y'', raw_p = ''owl:sameAs'', raw_o = ''?x''\<rparr>\<rparr>,
   \<lparr>raw_id = ''eq-trans'', raw_delegate = Some ''closure'',
    raw_body = [\<lparr>raw_s = ''?x'', raw_p = ''owl:sameAs'', raw_o = ''?y''\<rparr>,
      \<lparr>raw_s = ''?y'', raw_p = ''owl:sameAs'', raw_o = ''?z''\<rparr>],
    raw_head = \<lparr>raw_s = ''?x'', raw_p = ''owl:sameAs'', raw_o = ''?z''\<rparr>\<rparr>,
   \<lparr>raw_id = ''prp-trp'', raw_delegate = Some ''closure'',
    raw_body = [\<lparr>raw_s = ''?p'', raw_p = ''rdf:type'', raw_o = ''owl:TransitiveProperty''\<rparr>,
      \<lparr>raw_s = ''?x'', raw_p = ''?p'', raw_o = ''?y''\<rparr>,
      \<lparr>raw_s = ''?y'', raw_p = ''?p'', raw_o = ''?z''\<rparr>],
    raw_head = \<lparr>raw_s = ''?x'', raw_p = ''?p'', raw_o = ''?z''\<rparr>\<rparr>,
   \<lparr>raw_id = ''scm-sco'', raw_delegate = Some ''closure'',
    raw_body = [\<lparr>raw_s = ''?c1'', raw_p = ''rdfs:subClassOf'', raw_o = ''?c2''\<rparr>,
      \<lparr>raw_s = ''?c2'', raw_p = ''rdfs:subClassOf'', raw_o = ''?c3''\<rparr>],
    raw_head = \<lparr>raw_s = ''?c1'', raw_p = ''rdfs:subClassOf'', raw_o = ''?c3''\<rparr>\<rparr>,
   \<lparr>raw_id = ''scm-spo'', raw_delegate = Some ''closure'',
    raw_body = [\<lparr>raw_s = ''?p1'', raw_p = ''rdfs:subPropertyOf'', raw_o = ''?p2''\<rparr>,
      \<lparr>raw_s = ''?p2'', raw_p = ''rdfs:subPropertyOf'', raw_o = ''?p3''\<rparr>],
    raw_head = \<lparr>raw_s = ''?p1'', raw_p = ''rdfs:subPropertyOf'', raw_o = ''?p3''\<rparr>\<rparr>,
   \<lparr>raw_id = ''cax-sco'', raw_delegate = None,
    raw_body = [\<lparr>raw_s = ''?c1'', raw_p = ''rdfs:subClassOf'', raw_o = ''?c2''\<rparr>,
      \<lparr>raw_s = ''?x'', raw_p = ''rdf:type'', raw_o = ''?c1''\<rparr>],
    raw_head = \<lparr>raw_s = ''?x'', raw_p = ''rdf:type'', raw_o = ''?c2''\<rparr>\<rparr>,
   \<lparr>raw_id = ''cax-eqc1'', raw_delegate = None,
    raw_body = [\<lparr>raw_s = ''?c1'', raw_p = ''owl:equivalentClass'', raw_o = ''?c2''\<rparr>,
      \<lparr>raw_s = ''?x'', raw_p = ''rdf:type'', raw_o = ''?c1''\<rparr>],
    raw_head = \<lparr>raw_s = ''?x'', raw_p = ''rdf:type'', raw_o = ''?c2''\<rparr>\<rparr>,
   \<lparr>raw_id = ''cax-eqc2'', raw_delegate = None,
    raw_body = [\<lparr>raw_s = ''?c1'', raw_p = ''owl:equivalentClass'', raw_o = ''?c2''\<rparr>,
      \<lparr>raw_s = ''?x'', raw_p = ''rdf:type'', raw_o = ''?c2''\<rparr>],
    raw_head = \<lparr>raw_s = ''?x'', raw_p = ''rdf:type'', raw_o = ''?c1''\<rparr>\<rparr>,
   \<lparr>raw_id = ''prp-dom'', raw_delegate = None,
    raw_body = [\<lparr>raw_s = ''?p'', raw_p = ''rdfs:domain'', raw_o = ''?c''\<rparr>,
      \<lparr>raw_s = ''?x'', raw_p = ''?p'', raw_o = ''?y''\<rparr>],
    raw_head = \<lparr>raw_s = ''?x'', raw_p = ''rdf:type'', raw_o = ''?c''\<rparr>\<rparr>,
   \<lparr>raw_id = ''prp-rng'', raw_delegate = None,
    raw_body = [\<lparr>raw_s = ''?p'', raw_p = ''rdfs:range'', raw_o = ''?c''\<rparr>,
      \<lparr>raw_s = ''?x'', raw_p = ''?p'', raw_o = ''?y''\<rparr>],
    raw_head = \<lparr>raw_s = ''?y'', raw_p = ''rdf:type'', raw_o = ''?c''\<rparr>\<rparr>,
   \<lparr>raw_id = ''prp-symp'', raw_delegate = None,
    raw_body = [\<lparr>raw_s = ''?p'', raw_p = ''rdf:type'', raw_o = ''owl:SymmetricProperty''\<rparr>,
      \<lparr>raw_s = ''?x'', raw_p = ''?p'', raw_o = ''?y''\<rparr>],
    raw_head = \<lparr>raw_s = ''?y'', raw_p = ''?p'', raw_o = ''?x''\<rparr>\<rparr>,
   \<lparr>raw_id = ''prp-spo1'', raw_delegate = None,
    raw_body = [\<lparr>raw_s = ''?p1'', raw_p = ''rdfs:subPropertyOf'', raw_o = ''?p2''\<rparr>,
      \<lparr>raw_s = ''?x'', raw_p = ''?p1'', raw_o = ''?y''\<rparr>],
    raw_head = \<lparr>raw_s = ''?x'', raw_p = ''?p2'', raw_o = ''?y''\<rparr>\<rparr>,
   \<lparr>raw_id = ''prp-eqp1'', raw_delegate = None,
    raw_body = [\<lparr>raw_s = ''?p1'', raw_p = ''owl:equivalentProperty'', raw_o = ''?p2''\<rparr>,
      \<lparr>raw_s = ''?x'', raw_p = ''?p1'', raw_o = ''?y''\<rparr>],
    raw_head = \<lparr>raw_s = ''?x'', raw_p = ''?p2'', raw_o = ''?y''\<rparr>\<rparr>,
   \<lparr>raw_id = ''prp-eqp2'', raw_delegate = None,
    raw_body = [\<lparr>raw_s = ''?p1'', raw_p = ''owl:equivalentProperty'', raw_o = ''?p2''\<rparr>,
      \<lparr>raw_s = ''?x'', raw_p = ''?p2'', raw_o = ''?y''\<rparr>],
    raw_head = \<lparr>raw_s = ''?x'', raw_p = ''?p1'', raw_o = ''?y''\<rparr>\<rparr>,
   \<lparr>raw_id = ''prp-inv1'', raw_delegate = None,
    raw_body = [\<lparr>raw_s = ''?p1'', raw_p = ''owl:inverseOf'', raw_o = ''?p2''\<rparr>,
      \<lparr>raw_s = ''?x'', raw_p = ''?p1'', raw_o = ''?y''\<rparr>],
    raw_head = \<lparr>raw_s = ''?y'', raw_p = ''?p2'', raw_o = ''?x''\<rparr>\<rparr>,
   \<lparr>raw_id = ''prp-inv2'', raw_delegate = None,
    raw_body = [\<lparr>raw_s = ''?p1'', raw_p = ''owl:inverseOf'', raw_o = ''?p2''\<rparr>,
      \<lparr>raw_s = ''?x'', raw_p = ''?p2'', raw_o = ''?y''\<rparr>],
    raw_head = \<lparr>raw_s = ''?y'', raw_p = ''?p1'', raw_o = ''?x''\<rparr>\<rparr>,
   \<lparr>raw_id = ''scm-cls'', raw_delegate = None,
    raw_body = [\<lparr>raw_s = ''?c'', raw_p = ''rdf:type'', raw_o = ''owl:Class''\<rparr>],
    raw_head = \<lparr>raw_s = ''?c'', raw_p = ''rdfs:subClassOf'', raw_o = ''?c''\<rparr>\<rparr>,
   \<lparr>raw_id = ''scm-cls-thing'', raw_delegate = None,
    raw_body = [\<lparr>raw_s = ''?c'', raw_p = ''rdf:type'', raw_o = ''owl:Class''\<rparr>],
    raw_head = \<lparr>raw_s = ''?c'', raw_p = ''rdfs:subClassOf'', raw_o = ''owl:Thing''\<rparr>\<rparr>,
   \<lparr>raw_id = ''scm-cls-nothing'', raw_delegate = None,
    raw_body = [\<lparr>raw_s = ''?c'', raw_p = ''rdf:type'', raw_o = ''owl:Class''\<rparr>],
    raw_head = \<lparr>raw_s = ''owl:Nothing'', raw_p = ''rdfs:subClassOf'', raw_o = ''?c''\<rparr>\<rparr>,
   \<lparr>raw_id = ''scm-eqc1'', raw_delegate = None,
    raw_body = [\<lparr>raw_s = ''?c1'', raw_p = ''owl:equivalentClass'', raw_o = ''?c2''\<rparr>],
    raw_head = \<lparr>raw_s = ''?c1'', raw_p = ''rdfs:subClassOf'', raw_o = ''?c2''\<rparr>\<rparr>,
   \<lparr>raw_id = ''scm-eqc2'', raw_delegate = None,
    raw_body = [\<lparr>raw_s = ''?c1'', raw_p = ''owl:equivalentClass'', raw_o = ''?c2''\<rparr>],
    raw_head = \<lparr>raw_s = ''?c2'', raw_p = ''rdfs:subClassOf'', raw_o = ''?c1''\<rparr>\<rparr>,
   \<lparr>raw_id = ''scm-op'', raw_delegate = None,
    raw_body = [\<lparr>raw_s = ''?p'', raw_p = ''rdf:type'', raw_o = ''owl:ObjectProperty''\<rparr>],
    raw_head = \<lparr>raw_s = ''?p'', raw_p = ''rdfs:subPropertyOf'', raw_o = ''?p''\<rparr>\<rparr>,
   \<lparr>raw_id = ''scm-eqp1'', raw_delegate = None,
    raw_body = [\<lparr>raw_s = ''?p1'', raw_p = ''owl:equivalentProperty'', raw_o = ''?p2''\<rparr>],
    raw_head = \<lparr>raw_s = ''?p1'', raw_p = ''rdfs:subPropertyOf'', raw_o = ''?p2''\<rparr>\<rparr>,
   \<lparr>raw_id = ''scm-eqp2'', raw_delegate = None,
    raw_body = [\<lparr>raw_s = ''?p1'', raw_p = ''owl:equivalentProperty'', raw_o = ''?p2''\<rparr>],
    raw_head = \<lparr>raw_s = ''?p2'', raw_p = ''rdfs:subPropertyOf'', raw_o = ''?p1''\<rparr>\<rparr>,
   \<lparr>raw_id = ''scm-eqp-rev'', raw_delegate = None,
    raw_body = [\<lparr>raw_s = ''?p1'', raw_p = ''rdfs:subPropertyOf'', raw_o = ''?p2''\<rparr>,
      \<lparr>raw_s = ''?p2'', raw_p = ''rdfs:subPropertyOf'', raw_o = ''?p1''\<rparr>],
    raw_head = \<lparr>raw_s = ''?p1'', raw_p = ''owl:equivalentProperty'', raw_o = ''?p2''\<rparr>\<rparr>,
   \<lparr>raw_id = ''scm-eqc-rev'', raw_delegate = None,
    raw_body = [\<lparr>raw_s = ''?c1'', raw_p = ''rdfs:subClassOf'', raw_o = ''?c2''\<rparr>,
      \<lparr>raw_s = ''?c2'', raw_p = ''rdfs:subClassOf'', raw_o = ''?c1''\<rparr>],
    raw_head = \<lparr>raw_s = ''?c1'', raw_p = ''owl:equivalentClass'', raw_o = ''?c2''\<rparr>\<rparr>,
   \<lparr>raw_id = ''scm-dom1'', raw_delegate = None,
    raw_body = [\<lparr>raw_s = ''?p'', raw_p = ''rdfs:domain'', raw_o = ''?c1''\<rparr>,
      \<lparr>raw_s = ''?c1'', raw_p = ''rdfs:subClassOf'', raw_o = ''?c2''\<rparr>],
    raw_head = \<lparr>raw_s = ''?p'', raw_p = ''rdfs:domain'', raw_o = ''?c2''\<rparr>\<rparr>,
   \<lparr>raw_id = ''scm-rng1'', raw_delegate = None,
    raw_body = [\<lparr>raw_s = ''?p'', raw_p = ''rdfs:range'', raw_o = ''?c1''\<rparr>,
      \<lparr>raw_s = ''?c1'', raw_p = ''rdfs:subClassOf'', raw_o = ''?c2''\<rparr>],
    raw_head = \<lparr>raw_s = ''?p'', raw_p = ''rdfs:range'', raw_o = ''?c2''\<rparr>\<rparr>,
   \<lparr>raw_id = ''scm-dom2'', raw_delegate = None,
    raw_body = [\<lparr>raw_s = ''?p2'', raw_p = ''rdfs:domain'', raw_o = ''?c''\<rparr>,
      \<lparr>raw_s = ''?p1'', raw_p = ''rdfs:subPropertyOf'', raw_o = ''?p2''\<rparr>],
    raw_head = \<lparr>raw_s = ''?p1'', raw_p = ''rdfs:domain'', raw_o = ''?c''\<rparr>\<rparr>,
   \<lparr>raw_id = ''scm-rng2'', raw_delegate = None,
    raw_body = [\<lparr>raw_s = ''?p2'', raw_p = ''rdfs:range'', raw_o = ''?c''\<rparr>,
      \<lparr>raw_s = ''?p1'', raw_p = ''rdfs:subPropertyOf'', raw_o = ''?p2''\<rparr>],
    raw_head = \<lparr>raw_s = ''?p1'', raw_p = ''rdfs:range'', raw_o = ''?c''\<rparr>\<rparr>,
   \<lparr>raw_id = ''cls-svf2'', raw_delegate = None,
    raw_body = [\<lparr>raw_s = ''?x'', raw_p = ''owl:someValuesFrom'', raw_o = ''owl:Thing''\<rparr>,
      \<lparr>raw_s = ''?x'', raw_p = ''owl:onProperty'', raw_o = ''?p''\<rparr>,
      \<lparr>raw_s = ''?u'', raw_p = ''?p'', raw_o = ''?vv''\<rparr>],
    raw_head = \<lparr>raw_s = ''?u'', raw_p = ''rdf:type'', raw_o = ''?x''\<rparr>\<rparr>,
   \<lparr>raw_id = ''cls-avf'', raw_delegate = None,
    raw_body = [\<lparr>raw_s = ''?x'', raw_p = ''owl:allValuesFrom'', raw_o = ''?y''\<rparr>,
      \<lparr>raw_s = ''?x'', raw_p = ''owl:onProperty'', raw_o = ''?p''\<rparr>,
      \<lparr>raw_s = ''?u'', raw_p = ''rdf:type'', raw_o = ''?x''\<rparr>,
      \<lparr>raw_s = ''?u'', raw_p = ''?p'', raw_o = ''?vv''\<rparr>],
    raw_head = \<lparr>raw_s = ''?vv'', raw_p = ''rdf:type'', raw_o = ''?y''\<rparr>\<rparr>,
   \<lparr>raw_id = ''cls-hv1'', raw_delegate = None,
    raw_body = [\<lparr>raw_s = ''?x'', raw_p = ''owl:hasValue'', raw_o = ''?y''\<rparr>,
      \<lparr>raw_s = ''?x'', raw_p = ''owl:onProperty'', raw_o = ''?p''\<rparr>,
      \<lparr>raw_s = ''?u'', raw_p = ''rdf:type'', raw_o = ''?x''\<rparr>],
    raw_head = \<lparr>raw_s = ''?u'', raw_p = ''?p'', raw_o = ''?y''\<rparr>\<rparr>,
   \<lparr>raw_id = ''cls-hv2'', raw_delegate = None,
    raw_body = [\<lparr>raw_s = ''?x'', raw_p = ''owl:hasValue'', raw_o = ''?y''\<rparr>,
      \<lparr>raw_s = ''?x'', raw_p = ''owl:onProperty'', raw_o = ''?p''\<rparr>,
      \<lparr>raw_s = ''?u'', raw_p = ''?p'', raw_o = ''?y''\<rparr>],
    raw_head = \<lparr>raw_s = ''?u'', raw_p = ''rdf:type'', raw_o = ''?x''\<rparr>\<rparr>,
   \<lparr>raw_id = ''cax-dw'', raw_delegate = None,
    raw_body = [\<lparr>raw_s = ''?c1'', raw_p = ''owl:disjointWith'', raw_o = ''?c2''\<rparr>,
      \<lparr>raw_s = ''?x'', raw_p = ''rdf:type'', raw_o = ''?c1''\<rparr>,
      \<lparr>raw_s = ''?x'', raw_p = ''rdf:type'', raw_o = ''?c2''\<rparr>],
    raw_head = \<lparr>raw_s = ''?x'', raw_p = ''rdf:type'', raw_o = ''owl:Nothing''\<rparr>\<rparr>,
   \<lparr>raw_id = ''cls-com'', raw_delegate = None,
    raw_body = [\<lparr>raw_s = ''?c1'', raw_p = ''owl:complementOf'', raw_o = ''?c2''\<rparr>,
      \<lparr>raw_s = ''?x'', raw_p = ''rdf:type'', raw_o = ''?c1''\<rparr>,
      \<lparr>raw_s = ''?x'', raw_p = ''rdf:type'', raw_o = ''?c2''\<rparr>],
    raw_head = \<lparr>raw_s = ''?x'', raw_p = ''rdf:type'', raw_o = ''owl:Nothing''\<rparr>\<rparr>,
   \<lparr>raw_id = ''prp-irp'', raw_delegate = None,
    raw_body = [\<lparr>raw_s = ''?p'', raw_p = ''rdf:type'', raw_o = ''owl:IrreflexiveProperty''\<rparr>,
      \<lparr>raw_s = ''?x'', raw_p = ''?p'', raw_o = ''?x''\<rparr>],
    raw_head = \<lparr>raw_s = ''?x'', raw_p = ''rdf:type'', raw_o = ''owl:Nothing''\<rparr>\<rparr>,
   \<lparr>raw_id = ''prp-asyp'', raw_delegate = None,
    raw_body = [\<lparr>raw_s = ''?p'', raw_p = ''rdf:type'', raw_o = ''owl:AsymmetricProperty''\<rparr>,
      \<lparr>raw_s = ''?x'', raw_p = ''?p'', raw_o = ''?y''\<rparr>,
      \<lparr>raw_s = ''?y'', raw_p = ''?p'', raw_o = ''?x''\<rparr>],
    raw_head = \<lparr>raw_s = ''?x'', raw_p = ''rdf:type'', raw_o = ''owl:Nothing''\<rparr>\<rparr>,
   \<lparr>raw_id = ''prp-pdw'', raw_delegate = None,
    raw_body = [\<lparr>raw_s = ''?p1'', raw_p = ''owl:propertyDisjointWith'', raw_o = ''?p2''\<rparr>,
      \<lparr>raw_s = ''?x'', raw_p = ''?p1'', raw_o = ''?y''\<rparr>,
      \<lparr>raw_s = ''?x'', raw_p = ''?p2'', raw_o = ''?y''\<rparr>],
    raw_head = \<lparr>raw_s = ''?x'', raw_p = ''rdf:type'', raw_o = ''owl:Nothing''\<rparr>\<rparr>,
   \<lparr>raw_id = ''prp-npa1'', raw_delegate = None,
    raw_body = [\<lparr>raw_s = ''?x'', raw_p = ''owl:sourceIndividual'', raw_o = ''?i''\<rparr>,
      \<lparr>raw_s = ''?x'', raw_p = ''owl:assertionProperty'', raw_o = ''?p''\<rparr>,
      \<lparr>raw_s = ''?x'', raw_p = ''owl:targetIndividual'', raw_o = ''?j''\<rparr>,
      \<lparr>raw_s = ''?i'', raw_p = ''?p'', raw_o = ''?j''\<rparr>],
    raw_head = \<lparr>raw_s = ''?i'', raw_p = ''rdf:type'', raw_o = ''owl:Nothing''\<rparr>\<rparr>,
   \<lparr>raw_id = ''prp-npa2'', raw_delegate = None,
    raw_body = [\<lparr>raw_s = ''?x'', raw_p = ''owl:sourceIndividual'', raw_o = ''?i''\<rparr>,
      \<lparr>raw_s = ''?x'', raw_p = ''owl:assertionProperty'', raw_o = ''?p''\<rparr>,
      \<lparr>raw_s = ''?x'', raw_p = ''owl:targetValue'', raw_o = ''?lt''\<rparr>,
      \<lparr>raw_s = ''?i'', raw_p = ''?p'', raw_o = ''?lt''\<rparr>],
    raw_head = \<lparr>raw_s = ''?i'', raw_p = ''rdf:type'', raw_o = ''owl:Nothing''\<rparr>\<rparr>,
   \<lparr>raw_id = ''eq-diff1'', raw_delegate = None,
    raw_body = [\<lparr>raw_s = ''?x'', raw_p = ''owl:differentFrom'', raw_o = ''?y''\<rparr>,
      \<lparr>raw_s = ''?x'', raw_p = ''owl:sameAs'', raw_o = ''?y''\<rparr>],
    raw_head = \<lparr>raw_s = ''?x'', raw_p = ''rdf:type'', raw_o = ''owl:Nothing''\<rparr>\<rparr>,
   \<lparr>raw_id = ''prp-fp'', raw_delegate = None,
    raw_body = [\<lparr>raw_s = ''?p'', raw_p = ''rdf:type'', raw_o = ''owl:FunctionalProperty''\<rparr>,
      \<lparr>raw_s = ''?x'', raw_p = ''?p'', raw_o = ''?y1''\<rparr>,
      \<lparr>raw_s = ''?x'', raw_p = ''?p'', raw_o = ''?y2''\<rparr>],
    raw_head = \<lparr>raw_s = ''?y1'', raw_p = ''owl:sameAs'', raw_o = ''?y2''\<rparr>\<rparr>,
   \<lparr>raw_id = ''prp-ifp'', raw_delegate = None,
    raw_body = [\<lparr>raw_s = ''?p'', raw_p = ''rdf:type'', raw_o = ''owl:InverseFunctionalProperty''\<rparr>,
      \<lparr>raw_s = ''?x1'', raw_p = ''?p'', raw_o = ''?y''\<rparr>,
      \<lparr>raw_s = ''?x2'', raw_p = ''?p'', raw_o = ''?y''\<rparr>],
    raw_head = \<lparr>raw_s = ''?x1'', raw_p = ''owl:sameAs'', raw_o = ''?x2''\<rparr>\<rparr>,
   \<lparr>raw_id = ''prp-rfp'', raw_delegate = None,
    raw_body = [\<lparr>raw_s = ''?p'', raw_p = ''rdf:type'', raw_o = ''owl:ReflexiveProperty''\<rparr>,
      \<lparr>raw_s = ''?x'', raw_p = ''rdf:type'', raw_o = ''owl:Thing''\<rparr>],
    raw_head = \<lparr>raw_s = ''?x'', raw_p = ''?p'', raw_o = ''?x''\<rparr>\<rparr>,
   \<lparr>raw_id = ''eq-rep-s'', raw_delegate = None,
    raw_body = [\<lparr>raw_s = ''?s'', raw_p = ''owl:sameAs'', raw_o = ''?s2''\<rparr>,
      \<lparr>raw_s = ''?s'', raw_p = ''?p'', raw_o = ''?o''\<rparr>],
    raw_head = \<lparr>raw_s = ''?s2'', raw_p = ''?p'', raw_o = ''?o''\<rparr>\<rparr>,
   \<lparr>raw_id = ''eq-rep-p'', raw_delegate = None,
    raw_body = [\<lparr>raw_s = ''?p'', raw_p = ''owl:sameAs'', raw_o = ''?p2''\<rparr>,
      \<lparr>raw_s = ''?s'', raw_p = ''?p'', raw_o = ''?o''\<rparr>],
    raw_head = \<lparr>raw_s = ''?s'', raw_p = ''?p2'', raw_o = ''?o''\<rparr>\<rparr>,
   \<lparr>raw_id = ''eq-rep-o'', raw_delegate = None,
    raw_body = [\<lparr>raw_s = ''?o'', raw_p = ''owl:sameAs'', raw_o = ''?o2''\<rparr>,
      \<lparr>raw_s = ''?s'', raw_p = ''?p'', raw_o = ''?o''\<rparr>],
    raw_head = \<lparr>raw_s = ''?s'', raw_p = ''?p'', raw_o = ''?o2''\<rparr>\<rparr>,
   \<lparr>raw_id = ''sssom-rg1'', raw_delegate = None,
    raw_body = [\<lparr>raw_s = ''?a'', raw_p = ''owl:equivalentClass'', raw_o = ''?b''\<rparr>],
    raw_head = \<lparr>raw_s = ''?a'', raw_p = ''skos:exactMatch'', raw_o = ''?b''\<rparr>\<rparr>,
   \<lparr>raw_id = ''sssom-rg2'', raw_delegate = None,
    raw_body = [\<lparr>raw_s = ''?a'', raw_p = ''rdfs:subClassOf'', raw_o = ''?b''\<rparr>],
    raw_head = \<lparr>raw_s = ''?a'', raw_p = ''skos:broadMatch'', raw_o = ''?b''\<rparr>\<rparr>,
   \<lparr>raw_id = ''sssom-ri1'', raw_delegate = None,
    raw_body = [\<lparr>raw_s = ''?a'', raw_p = ''skos:narrowMatch'', raw_o = ''?b''\<rparr>],
    raw_head = \<lparr>raw_s = ''?b'', raw_p = ''skos:broadMatch'', raw_o = ''?a''\<rparr>\<rparr>,
   \<lparr>raw_id = ''sssom-ri2'', raw_delegate = None,
    raw_body = [\<lparr>raw_s = ''?a'', raw_p = ''skos:broadMatch'', raw_o = ''?b''\<rparr>],
    raw_head = \<lparr>raw_s = ''?b'', raw_p = ''skos:narrowMatch'', raw_o = ''?a''\<rparr>\<rparr>,
   \<lparr>raw_id = ''sssom-ri3'', raw_delegate = None,
    raw_body = [\<lparr>raw_s = ''?a'', raw_p = ''semapv:crossSpeciesExactMatch'', raw_o = ''?b''\<rparr>],
    raw_head = \<lparr>raw_s = ''?b'', raw_p = ''semapv:crossSpeciesExactMatch'', raw_o = ''?a''\<rparr>\<rparr>,
   \<lparr>raw_id = ''sssom-ri4'', raw_delegate = None,
    raw_body = [\<lparr>raw_s = ''?a'', raw_p = ''semapv:crossSpeciesNarrowMatch'', raw_o = ''?b''\<rparr>],
    raw_head = \<lparr>raw_s = ''?b'', raw_p = ''semapv:crossSpeciesBroadMatch'', raw_o = ''?a''\<rparr>\<rparr>,
   \<lparr>raw_id = ''sssom-ri5'', raw_delegate = None,
    raw_body = [\<lparr>raw_s = ''?a'', raw_p = ''semapv:crossSpeciesBroadMatch'', raw_o = ''?b''\<rparr>],
    raw_head = \<lparr>raw_s = ''?b'', raw_p = ''semapv:crossSpeciesNarrowMatch'', raw_o = ''?a''\<rparr>\<rparr>,
   \<lparr>raw_id = ''sssom-rce1-broad'', raw_delegate = None,
    raw_body = [\<lparr>raw_s = ''?a'', raw_p = ''skos:exactMatch'', raw_o = ''?b''\<rparr>,
      \<lparr>raw_s = ''?b'', raw_p = ''skos:broadMatch'', raw_o = ''?c''\<rparr>],
    raw_head = \<lparr>raw_s = ''?a'', raw_p = ''skos:broadMatch'', raw_o = ''?c''\<rparr>\<rparr>,
   \<lparr>raw_id = ''sssom-rce1-narrow'', raw_delegate = None,
    raw_body = [\<lparr>raw_s = ''?a'', raw_p = ''skos:exactMatch'', raw_o = ''?b''\<rparr>,
      \<lparr>raw_s = ''?b'', raw_p = ''skos:narrowMatch'', raw_o = ''?c''\<rparr>],
    raw_head = \<lparr>raw_s = ''?a'', raw_p = ''skos:narrowMatch'', raw_o = ''?c''\<rparr>\<rparr>,
   \<lparr>raw_id = ''sssom-rce1-exact'', raw_delegate = None,
    raw_body = [\<lparr>raw_s = ''?a'', raw_p = ''skos:exactMatch'', raw_o = ''?b''\<rparr>,
      \<lparr>raw_s = ''?b'', raw_p = ''skos:exactMatch'', raw_o = ''?c''\<rparr>],
    raw_head = \<lparr>raw_s = ''?a'', raw_p = ''skos:exactMatch'', raw_o = ''?c''\<rparr>\<rparr>,
   \<lparr>raw_id = ''sssom-rce2-broad'', raw_delegate = None,
    raw_body = [\<lparr>raw_s = ''?a'', raw_p = ''skos:broadMatch'', raw_o = ''?b''\<rparr>,
      \<lparr>raw_s = ''?b'', raw_p = ''skos:exactMatch'', raw_o = ''?c''\<rparr>],
    raw_head = \<lparr>raw_s = ''?a'', raw_p = ''skos:broadMatch'', raw_o = ''?c''\<rparr>\<rparr>,
   \<lparr>raw_id = ''sssom-rce2-narrow'', raw_delegate = None,
    raw_body = [\<lparr>raw_s = ''?a'', raw_p = ''skos:narrowMatch'', raw_o = ''?b''\<rparr>,
      \<lparr>raw_s = ''?b'', raw_p = ''skos:exactMatch'', raw_o = ''?c''\<rparr>],
    raw_head = \<lparr>raw_s = ''?a'', raw_p = ''skos:narrowMatch'', raw_o = ''?c''\<rparr>\<rparr>,
   \<lparr>raw_id = ''sssom-t1-exact'', raw_delegate = Some ''closure'',
    raw_body = [\<lparr>raw_s = ''?a'', raw_p = ''skos:exactMatch'', raw_o = ''?b''\<rparr>,
      \<lparr>raw_s = ''?b'', raw_p = ''skos:exactMatch'', raw_o = ''?c''\<rparr>],
    raw_head = \<lparr>raw_s = ''?a'', raw_p = ''skos:exactMatch'', raw_o = ''?c''\<rparr>\<rparr>,
   \<lparr>raw_id = ''sssom-t1-broad'', raw_delegate = Some ''closure'',
    raw_body = [\<lparr>raw_s = ''?a'', raw_p = ''skos:broadMatch'', raw_o = ''?b''\<rparr>,
      \<lparr>raw_s = ''?b'', raw_p = ''skos:broadMatch'', raw_o = ''?c''\<rparr>],
    raw_head = \<lparr>raw_s = ''?a'', raw_p = ''skos:broadMatch'', raw_o = ''?c''\<rparr>\<rparr>,
   \<lparr>raw_id = ''sssom-t1-narrow'', raw_delegate = Some ''closure'',
    raw_body = [\<lparr>raw_s = ''?a'', raw_p = ''skos:narrowMatch'', raw_o = ''?b''\<rparr>,
      \<lparr>raw_s = ''?b'', raw_p = ''skos:narrowMatch'', raw_o = ''?c''\<rparr>],
    raw_head = \<lparr>raw_s = ''?a'', raw_p = ''skos:narrowMatch'', raw_o = ''?c''\<rparr>\<rparr>,
   \<lparr>raw_id = ''sssom-neg-exact'', raw_delegate = None,
    raw_body = [\<lparr>raw_s = ''?a'', raw_p = ''skos:exactMatch'', raw_o = ''?b''\<rparr>,
      \<lparr>raw_s = ''?b'', raw_p = ''horndb:notExactMatch'', raw_o = ''?c''\<rparr>],
    raw_head = \<lparr>raw_s = ''?a'', raw_p = ''horndb:notExactMatch'', raw_o = ''?c''\<rparr>\<rparr>]"


definition qnames :: qname_map where
  "qnames = (case insert_qnames vocab_qnames Map.empty of Inl e \<Rightarrow> Map.empty | Inr m \<Rightarrow> m)"

definition rules :: "rule_spec list" where
  "rules = (case parse_rules rules_toml qnames of Inl e \<Rightarrow> [] | Inr rs \<Rightarrow> rs)"

lemma insert_qnames_spec:
  "distinct (map fst ps) \<Longrightarrow> fst ` set ps \<inter> dom m = {} \<Longrightarrow> insert_qnames ps m = Inr (m ++ map_of ps)"
proof (induction ps m rule: insert_qnames.induct)
  case (2 q f ps m)
  have eq: "m(q \<mapsto> f) ++ map_of ps = m ++ map_of ((q, f) # ps)"
  proof
    fix k
    have "map_of ps q = None" using 2(2) by (simp add: map_of_eq_None_iff)
    then show "(m(q \<mapsto> f) ++ map_of ps) k = (m ++ map_of ((q, f) # ps)) k"
      by (cases "map_of ps k") (auto simp: map_add_def)
  qed
  have m: "m q = None" using 2(3) by auto
  have "insert_qnames ps (m(q \<mapsto> f)) = Inr (m(q \<mapsto> f) ++ map_of ps)"
    by (rule 2(1)) (use 2(2,3) m in \<open>force simp: dom_def\<close>)+
  then show ?case unfolding eq by (simp only: insert_qnames.simps m if_False not_True_eq_False simp_thms)
qed simp

lemma qnames_distinct: "distinct (map fst vocab_qnames)"
  by code_simp

lemma qnames_map_of: "qnames = map_of vocab_qnames"
  by (simp add: qnames_def insert_qnames_spec qnames_distinct)

text \<open>The predicate-replacement rule, which the engine may evaluate by classes.\<close>

definition eq_rep_p :: rule_spec where
  "eq_rep_p = \<lparr>rule_id = ''eq-rep-p'', rule_delegate = False,
     rule_body = [\<lparr>pat_s = Var ''p'', pat_p = Vocab ''owl_same_as'', pat_o = Var ''p2''\<rparr>,
                  \<lparr>pat_s = Var ''s'', pat_p = Var ''p'', pat_o = Var ''o''\<rparr>],
     rule_head = \<lparr>pat_s = Var ''s'', pat_p = Var ''p2'', pat_o = Var ''o''\<rparr>\<rparr>"

text \<open>The lookups the table needs.\<close>

lemma qname_lookups:
  "map_of vocab_qnames ''owl:sameAs'' = Some ''owl_same_as''"
  "map_of vocab_qnames ''rdf:type'' = Some ''rdf_type''"
  "map_of vocab_qnames ''owl:TransitiveProperty'' = Some ''owl_transitive_property''"
  "map_of vocab_qnames ''rdfs:subClassOf'' = Some ''rdfs_sub_class_of''"
  "map_of vocab_qnames ''rdfs:subPropertyOf'' = Some ''rdfs_sub_property_of''"
  "map_of vocab_qnames ''owl:equivalentClass'' = Some ''owl_equivalent_class''"
  "map_of vocab_qnames ''rdfs:domain'' = Some ''rdfs_domain''"
  "map_of vocab_qnames ''rdfs:range'' = Some ''rdfs_range''"
  "map_of vocab_qnames ''owl:SymmetricProperty'' = Some ''owl_symmetric_property''"
  "map_of vocab_qnames ''owl:equivalentProperty'' = Some ''owl_equivalent_property''"
  "map_of vocab_qnames ''owl:inverseOf'' = Some ''owl_inverse_of''"
  "map_of vocab_qnames ''owl:Class'' = Some ''owl_class''"
  "map_of vocab_qnames ''owl:Thing'' = Some ''owl_thing''"
  "map_of vocab_qnames ''owl:Nothing'' = Some ''owl_nothing''"
  "map_of vocab_qnames ''owl:ObjectProperty'' = Some ''owl_object_property''"
  "map_of vocab_qnames ''owl:someValuesFrom'' = Some ''owl_some_values_from''"
  "map_of vocab_qnames ''owl:onProperty'' = Some ''owl_on_property''"
  "map_of vocab_qnames ''owl:allValuesFrom'' = Some ''owl_all_values_from''"
  "map_of vocab_qnames ''owl:hasValue'' = Some ''owl_has_value''"
  "map_of vocab_qnames ''owl:disjointWith'' = Some ''owl_disjoint_with''"
  "map_of vocab_qnames ''owl:complementOf'' = Some ''owl_complement_of''"
  "map_of vocab_qnames ''owl:IrreflexiveProperty'' = Some ''owl_irreflexive_property''"
  "map_of vocab_qnames ''owl:AsymmetricProperty'' = Some ''owl_asymmetric_property''"
  "map_of vocab_qnames ''owl:propertyDisjointWith'' = Some ''owl_property_disjoint_with''"
  "map_of vocab_qnames ''owl:sourceIndividual'' = Some ''owl_source_individual''"
  "map_of vocab_qnames ''owl:assertionProperty'' = Some ''owl_assertion_property''"
  "map_of vocab_qnames ''owl:targetIndividual'' = Some ''owl_target_individual''"
  "map_of vocab_qnames ''owl:targetValue'' = Some ''owl_target_value''"
  "map_of vocab_qnames ''owl:differentFrom'' = Some ''owl_different_from''"
  "map_of vocab_qnames ''owl:FunctionalProperty'' = Some ''owl_functional_property''"
  "map_of vocab_qnames ''owl:InverseFunctionalProperty'' = Some ''owl_inverse_functional_property''"
  "map_of vocab_qnames ''owl:ReflexiveProperty'' = Some ''owl_reflexive_property''"
  "map_of vocab_qnames ''skos:exactMatch'' = Some ''skos_exact_match''"
  "map_of vocab_qnames ''skos:broadMatch'' = Some ''skos_broad_match''"
  "map_of vocab_qnames ''skos:narrowMatch'' = Some ''skos_narrow_match''"
  "map_of vocab_qnames ''semapv:crossSpeciesExactMatch'' = Some ''semapv_cross_species_exact_match''"
  "map_of vocab_qnames ''semapv:crossSpeciesNarrowMatch'' = Some ''semapv_cross_species_narrow_match''"
  "map_of vocab_qnames ''semapv:crossSpeciesBroadMatch'' = Some ''semapv_cross_species_broad_match''"
  "map_of vocab_qnames ''horndb:notExactMatch'' = Some ''horndb_not_exact_match''"
  by code_simp+

lemma parse_vocab_slots:
  "parse_slot ''owl:sameAs'' qnames = Inr (Vocab ''owl_same_as'')"
  "parse_slot ''rdf:type'' qnames = Inr (Vocab ''rdf_type'')"
  "parse_slot ''owl:TransitiveProperty'' qnames = Inr (Vocab ''owl_transitive_property'')"
  "parse_slot ''rdfs:subClassOf'' qnames = Inr (Vocab ''rdfs_sub_class_of'')"
  "parse_slot ''rdfs:subPropertyOf'' qnames = Inr (Vocab ''rdfs_sub_property_of'')"
  "parse_slot ''owl:equivalentClass'' qnames = Inr (Vocab ''owl_equivalent_class'')"
  "parse_slot ''rdfs:domain'' qnames = Inr (Vocab ''rdfs_domain'')"
  "parse_slot ''rdfs:range'' qnames = Inr (Vocab ''rdfs_range'')"
  "parse_slot ''owl:SymmetricProperty'' qnames = Inr (Vocab ''owl_symmetric_property'')"
  "parse_slot ''owl:equivalentProperty'' qnames = Inr (Vocab ''owl_equivalent_property'')"
  "parse_slot ''owl:inverseOf'' qnames = Inr (Vocab ''owl_inverse_of'')"
  "parse_slot ''owl:Class'' qnames = Inr (Vocab ''owl_class'')"
  "parse_slot ''owl:Thing'' qnames = Inr (Vocab ''owl_thing'')"
  "parse_slot ''owl:Nothing'' qnames = Inr (Vocab ''owl_nothing'')"
  "parse_slot ''owl:ObjectProperty'' qnames = Inr (Vocab ''owl_object_property'')"
  "parse_slot ''owl:someValuesFrom'' qnames = Inr (Vocab ''owl_some_values_from'')"
  "parse_slot ''owl:onProperty'' qnames = Inr (Vocab ''owl_on_property'')"
  "parse_slot ''owl:allValuesFrom'' qnames = Inr (Vocab ''owl_all_values_from'')"
  "parse_slot ''owl:hasValue'' qnames = Inr (Vocab ''owl_has_value'')"
  "parse_slot ''owl:disjointWith'' qnames = Inr (Vocab ''owl_disjoint_with'')"
  "parse_slot ''owl:complementOf'' qnames = Inr (Vocab ''owl_complement_of'')"
  "parse_slot ''owl:IrreflexiveProperty'' qnames = Inr (Vocab ''owl_irreflexive_property'')"
  "parse_slot ''owl:AsymmetricProperty'' qnames = Inr (Vocab ''owl_asymmetric_property'')"
  "parse_slot ''owl:propertyDisjointWith'' qnames = Inr (Vocab ''owl_property_disjoint_with'')"
  "parse_slot ''owl:sourceIndividual'' qnames = Inr (Vocab ''owl_source_individual'')"
  "parse_slot ''owl:assertionProperty'' qnames = Inr (Vocab ''owl_assertion_property'')"
  "parse_slot ''owl:targetIndividual'' qnames = Inr (Vocab ''owl_target_individual'')"
  "parse_slot ''owl:targetValue'' qnames = Inr (Vocab ''owl_target_value'')"
  "parse_slot ''owl:differentFrom'' qnames = Inr (Vocab ''owl_different_from'')"
  "parse_slot ''owl:FunctionalProperty'' qnames = Inr (Vocab ''owl_functional_property'')"
  "parse_slot ''owl:InverseFunctionalProperty'' qnames = Inr (Vocab ''owl_inverse_functional_property'')"
  "parse_slot ''owl:ReflexiveProperty'' qnames = Inr (Vocab ''owl_reflexive_property'')"
  "parse_slot ''skos:exactMatch'' qnames = Inr (Vocab ''skos_exact_match'')"
  "parse_slot ''skos:broadMatch'' qnames = Inr (Vocab ''skos_broad_match'')"
  "parse_slot ''skos:narrowMatch'' qnames = Inr (Vocab ''skos_narrow_match'')"
  "parse_slot ''semapv:crossSpeciesExactMatch'' qnames = Inr (Vocab ''semapv_cross_species_exact_match'')"
  "parse_slot ''semapv:crossSpeciesNarrowMatch'' qnames = Inr (Vocab ''semapv_cross_species_narrow_match'')"
  "parse_slot ''semapv:crossSpeciesBroadMatch'' qnames = Inr (Vocab ''semapv_cross_species_broad_match'')"
  "parse_slot ''horndb:notExactMatch'' qnames = Inr (Vocab ''horndb_not_exact_match'')"
  by (simp_all add: parse_slot_def vocab_term_def and_then_def qnames_map_of qname_lookups)

lemma parse_var_slot: "parse_slot (CHR ''?'' # c # cs) qnames = Inr (Var (c # cs))"
  by (simp add: parse_slot_def)

lemma and_then_Inr: "and_then (Inr x) f = f x"
  by (simp add: and_then_def)

lemma delegate_cases:
  "(case None of None \<Rightarrow> Inr False | Some target \<Rightarrow> if target = ''closure'' then Inr True else Inl (e target)) = Inr False"
  "(case Some ''closure'' of None \<Rightarrow> Inr False | Some target \<Rightarrow> if target = ''closure'' then Inr True else Inl (e target)) = Inr True"
  by simp_all

text \<open>
  A rule table the engine can run: every rule that is not delegated compiles, and the predicate-replacement rule is the one of that name.
\<close>

definition table_ok :: "rule_spec list \<Rightarrow> bool" where
  "table_ok rs \<longleftrightarrow> list_all (\<lambda>r. rule_delegate r \<or> compilable r) rs
     \<and> filter (\<lambda>r. rule_id r = ''eq-rep-p'') rs = [eq_rep_p]"

lemma rules_parsed: "case parse_rules rules_toml qnames of Inl e \<Rightarrow> False
   | Inr rs \<Rightarrow> table_ok rs \<and> length rs = 65 \<and> length (filter rule_delegate rs) = 9"
  unfolding rules_toml_def parse_rules_def
  by (simp only: collect.simps parse_rule_def parse_pattern_def raw_rule.simps raw_pattern.simps
    and_then_Inr parse_var_slot parse_vocab_slots delegate_cases sum.case)
    code_simp

lemma rules_table: "parse_rules rules_toml qnames = Inr rules" "table_ok rules" "length rules = 65"
  "length (filter rule_delegate rules) = 9"
  using rules_parsed by (auto simp: rules_def split: sum.splits)

section \<open>Properties\<close>



end
