(* ===== verification/Eq_Rep_P.thy ===== *)
theory Eq_Rep_P imports Rule_Table begin

text \<open>
  \<^verbatim>\<open>crates/owlrl/src/eq_rep_p_opt.rs\<close>: the rule \<^verbatim>\<open>eq-rep-p\<close> evaluated by equivalence classes. A
  hash-map union-find groups the predicates \<^verbatim>\<open>owl:sameAs\<close> connects; every member of a class then
  receives the union of the members' extents. A missing key panics: the value \<open>None\<close>, as is a walk
  that would not reach a root.
\<close>

section \<open>Union-find\<close>

record union_find =
  uf_parent :: "u64 \<rightharpoonup> u64"
  uf_size :: "u64 \<rightharpoonup> 32 word"

definition uf_empty :: union_find where
  "uf_empty = \<lparr>uf_parent = Map.empty, uf_size = Map.empty\<rparr>"

definition uf_make :: "u64 \<Rightarrow> union_find \<Rightarrow> union_find" where
  "uf_make x u = (let u = (case uf_parent u x of None \<Rightarrow> u\<lparr>uf_parent := (uf_parent u)(x \<mapsto> x)\<rparr> | Some _ \<Rightarrow> u)
     in case uf_size u x of None \<Rightarrow> u\<lparr>uf_size := (uf_size u)(x \<mapsto> 1)\<rparr> | Some _ \<Rightarrow> u)"

partial_function (option) walk_root :: "(u64 \<rightharpoonup> u64) \<Rightarrow> u64 \<Rightarrow> u64 option" where
  "walk_root par x = (case par x of None \<Rightarrow> None | Some p \<Rightarrow> if p = x then Some x else walk_root par p)"

partial_function (option) compress :: "(u64 \<rightharpoonup> u64) \<Rightarrow> u64 \<Rightarrow> u64 \<Rightarrow> (u64 \<rightharpoonup> u64) option" where
  "compress par cur root =
     (if cur = root then Some par
      else case par cur of None \<Rightarrow> None | Some p \<Rightarrow> compress (par(cur \<mapsto> root)) p root)"

definition uf_find :: "u64 \<Rightarrow> union_find \<Rightarrow> (u64 \<times> union_find) option" where
  "uf_find x u = (case walk_root (uf_parent u) x of None \<Rightarrow> None | Some root \<Rightarrow>
     (case compress (uf_parent u) x root of None \<Rightarrow> None
      | Some par \<Rightarrow> Some (root, u\<lparr>uf_parent := par\<rparr>)))"

definition uf_union :: "u64 \<Rightarrow> u64 \<Rightarrow> union_find \<Rightarrow> union_find option" where
  "uf_union a b u =
     (case uf_find a u of None \<Rightarrow> None | Some (ra, u) \<Rightarrow>
      case uf_find b u of None \<Rightarrow> None | Some (rb, u) \<Rightarrow>
      if ra = rb then Some u
      else case (uf_size u ra, uf_size u rb) of
        (Some sa, Some sb) \<Rightarrow>
          (let (big, small) = (if sa \<ge> sb then (ra, rb) else (rb, ra)) in
           Some (u\<lparr>uf_parent := (uf_parent u)(small \<mapsto> big), uf_size := (uf_size u)(big \<mapsto> sa + sb)\<rparr>))
      | _ \<Rightarrow> None)"

section \<open>Firing by classes\<close>

fun union_edges :: "triple list \<Rightarrow> union_find \<Rightarrow> union_find option" where
  "union_edges [] u = Some u"
| "union_edges ((s, p, ob) # ts) u =
     (case uf_union s ob (uf_make ob (uf_make s u)) of None \<Rightarrow> None | Some u' \<Rightarrow> union_edges ts u')"

fun group_members :: "u64 list \<Rightarrow> union_find \<Rightarrow> (u64 \<rightharpoonup> u64 list) \<Rightarrow> (u64 \<rightharpoonup> u64 list) option" where
  "group_members [] u classes = Some classes"
| "group_members (m # ms) u classes =
     (case uf_find m u of None \<Rightarrow> None | Some (r, u') \<Rightarrow>
        group_members ms u' (classes(r \<mapsto> (case classes r of None \<Rightarrow> [] | Some xs \<Rightarrow> xs) @ [m])))"

text \<open>The extent of a class, each pair with the first member that has it.\<close>

definition union_extent :: "orders \<Rightarrow> mem_store \<Rightarrow> u64 list \<Rightarrow> pair \<rightharpoonup> u64" where
  "union_extent h m cls = fold (\<lambda>p ext. fold (\<lambda>(s, q, ob) ext.
      case ext (s, ob) of None \<Rightarrow> ext((s, ob) \<mapsto> p) | Some _ \<Rightarrow> ext) (scan_predicate h m p) ext) cls Map.empty"

definition write_member ::
  "orders \<Rightarrow> mem_store \<Rightarrow> (pair \<rightharpoonup> u64) \<Rightarrow> u64 \<Rightarrow> delta \<Rightarrow> delta" where
  "write_member h m ext mem out = fold (\<lambda>(s, ob) out.
      (let src = the (ext (s, ob)); head = (s, mem, ob) in
       if src = mem then out
       else if ms_contains m head \<or> delta_contains out head then out
       else delta_insert head \<lparr>prov_rule = ''eq-rep-p'',
          prov_premises = [(src, owl_same_as (ms_vocab m), mem), (s, src, ob)]\<rparr> out))
     (iter (by_pair h) (dom ext)) out"

definition fire_class :: "orders \<Rightarrow> mem_store \<Rightarrow> u64 list \<Rightarrow> delta \<Rightarrow> delta" where
  "fire_class h m cls out =
     (let ext = union_extent h m cls in
      if ext = Map.empty then out else fold (write_member h m ext) cls out)"

definition fire_eq_rep_p_canonical :: "orders \<Rightarrow> mem_store \<Rightarrow> delta option" where
  "fire_eq_rep_p_canonical h m =
     (case union_edges (scan_predicate h m (owl_same_as (ms_vocab m))) uf_empty of None \<Rightarrow> None
      | Some u \<Rightarrow>
          if uf_parent u = Map.empty then Some delta_new
          else case group_members (iter (by_id h) (dom (uf_parent u))) u Map.empty of None \<Rightarrow> None
            | Some classes \<Rightarrow> Some (fold (\<lambda>root. fire_class h m (the (classes root)))
                (iter (by_id h) (dom classes)) delta_new))"

section \<open>The forest\<close>

inductive walks :: "(u64 \<rightharpoonup> u64) \<Rightarrow> u64 \<Rightarrow> u64 \<Rightarrow> bool" for par where
  root: "par x = Some x \<Longrightarrow> walks par x x"
| link: "par x = Some p \<Longrightarrow> p \<noteq> x \<Longrightarrow> walks par p r \<Longrightarrow> walks par x r"

inductive_cases walksE: "walks par x r"

inductive_simps walks_iff: "walks par x r"

definition descends :: "(u64 \<Rightarrow> nat) \<Rightarrow> (u64 \<rightharpoonup> u64) \<Rightarrow> bool" where
  "descends d par \<longleftrightarrow> (\<forall>x p. par x = Some p \<longrightarrow> p \<in> dom par \<and> (p \<noteq> x \<longrightarrow> d p < d x))"

lemma walks_end: "walks par x r \<Longrightarrow> par r = Some r"
  by (induction rule: walks.induct)

lemma walks_dom: "walks par x r \<Longrightarrow> x \<in> dom par"
  by (auto elim: walksE)

lemma walks_det: "walks par x r \<Longrightarrow> walks par x t \<Longrightarrow> r = t"
proof (induction arbitrary: t rule: walks.induct)
  case (root x)
  show ?case by (rule walksE [OF root(2)]) (use root(1) in simp_all)
next
  case (link x p r)
  show ?case by (rule walksE [OF link(5)]) (use link(1,2) in simp, rule link(4), use link(1) in simp)
qed

lemma walks_total: "descends d par \<Longrightarrow> x \<in> dom par \<Longrightarrow> \<exists>r. walks par x r"
proof (induction "d x" arbitrary: x rule: less_induct)
  case less
  obtain p where p: "par x = Some p" using less.prems(2) by blast
  then have p': "p \<in> dom par" "p \<noteq> x \<Longrightarrow> d p < d x" using less.prems(1) by (auto simp: descends_def)
  show ?case
  proof (cases "p = x")
    case True then show ?thesis using p walks.root by blast
  next
    case False
    obtain r where "walks par p r" using less.hyps [OF p'(2) [OF False] less.prems(1) p'(1)] by blast
    then show ?thesis using walks.link [of par x p] p False by blast
  qed
qed

lemma walks_step: "par x = Some p \<Longrightarrow> p \<noteq> x \<Longrightarrow> walks par x r \<longleftrightarrow> walks par p r"
  by (subst walks_iff) auto

lemma walks_same:
  assumes "descends d par" and "dom par' = dom par" and "\<And>x r. walks par x r \<Longrightarrow> walks par' x r"
  shows "walks par' x r \<longleftrightarrow> walks par x r"
proof
  assume w: "walks par' x r"
  then have "x \<in> dom par" using walks_dom assms(2) by blast
  then obtain t where t: "walks par x t" using walks_total assms(1) by blast
  then have "t = r" using walks_det [OF assms(3) [OF t] w] by simp
  then show "walks par x r" using t by simp
qed (rule assms(3))

lemma walks_hang: "par g = Some g \<Longrightarrow> c \<noteq> g \<Longrightarrow> walks (par(c \<mapsto> g)) c g"
  by (rule walks.link [of _ _ g]) (simp_all add: walks.root)

text \<open>Hanging a node directly below its root changes no root.\<close>

lemma redirect:
  assumes r: "descends d par" and c: "walks par c g" and ne: "c \<noteq> g"
  shows "descends d (par(c \<mapsto> g))" and "walks (par(c \<mapsto> g)) x t \<longleftrightarrow> walks par x t"
proof -
  let ?par = "par(c \<mapsto> g)"
  have gd: "par g = Some g" using c by (rule walks_end)
  have less: "walks par y g' \<Longrightarrow> y \<noteq> g' \<Longrightarrow> d g' < d y" for y g'
  proof (induction rule: walks.induct)
    case (link x p r)
    then have "d p < d x" using r by (auto simp: descends_def)
    then show ?case using link by (cases "p = r") auto
  qed simp
  have "c \<in> dom par" using c by (rule walks_dom)
  then show "descends d ?par" using r less [OF c ne] gd unfolding descends_def by auto
  have "walks ?par y s" if "walks par y s" for y s
    using that
  proof (induction rule: walks.induct)
    case (root y)
    then have "y \<noteq> c" using ne walks_det [OF c walks.root] by blast
    then show ?case by (simp add: root walks.root)
  next
    case (link y p s)
    show ?case
    proof (cases "y = c")
      case True
      then have "s = g" using walks_det [OF c] walks.link [of par y p s] link(1-3) by simp
      then show ?thesis using walks_hang [of par g c] gd ne True by (simp del: fun_upd_apply)
    next
      case False
      then have "?par y = Some p" using link(1) by simp
      then show ?thesis using link(2,4) by (rule walks.link)
    qed
  qed
  moreover have "dom ?par = dom par" using \<open>c \<in> dom par\<close> by auto
  ultimately show "walks ?par x t \<longleftrightarrow> walks par x t" using walks_same [OF r] by blast
qed

lemma walk_root_spec: "walks par x r \<Longrightarrow> walk_root par x = Some r"
  by (induction rule: walks.induct) (subst walk_root.simps, simp)+

lemma compress_spec:
  "descends d par \<Longrightarrow> walks par x r \<Longrightarrow>
   \<exists>par'. compress par x r = Some par' \<and> descends d par' \<and> dom par' = dom par \<and> (\<forall>y t. walks par' y t \<longleftrightarrow> walks par y t)"
proof (induction "d x" arbitrary: x par rule: less_induct)
  case less
  show ?case
  proof (cases "x = r")
    case True then show ?thesis using less.prems by (subst compress.simps) auto
  next
    case False
    obtain p where p: "par x = Some p" using walks_dom [OF less.prems(2)] by blast
    have px: "p \<noteq> x" using False less.prems(2) p walks.root walks_det by metis
    then have "d p < d x" using less.prems(1) p by (auto simp: descends_def)
    moreover note red = redirect [OF less.prems False]
    moreover have "walks (par(x \<mapsto> r)) p r" using red(2) walks_step [of par x p r] p px less.prems(2) by blast
    ultimately obtain par' where par': "compress (par(x \<mapsto> r)) p r = Some par'" "descends d par'"
      "dom par' = dom (par(x \<mapsto> r))" "\<forall>y t. walks par' y t \<longleftrightarrow> walks (par(x \<mapsto> r)) y t"
      using less.hyps [of p "par(x \<mapsto> r)"] by blast
    have "compress par x r = Some par'" using False p par'(1) by (subst compress.simps) simp
    moreover have "dom (par(x \<mapsto> r)) = dom par" using p by auto
    ultimately show ?thesis using par' red(2) by auto
  qed
qed

text \<open>Hanging one root below another.\<close>

lemma link_classes:
  assumes r: "descends d par" and big: "par big = Some big" and small: "par small = Some small"
    and ne: "big \<noteq> small"
  shows "\<exists>d'. descends d' (par(small \<mapsto> big))"
    and "walks (par(small \<mapsto> big)) x t \<longleftrightarrow> (\<exists>u. walks par x u \<and> t = (if u = small then big else u))"
proof -
  let ?par = "par(small \<mapsto> big)"
  let ?d = "\<lambda>x. d x + (if walks par x small then d big + 1 else 0)"
  have nb: "\<not> walks par big small" using walks_det walks.root [of par big] big ne by blast
  have "descends ?d ?par"
    unfolding descends_def
  proof (intro allI impI conjI)
    fix x p assume x: "?par x = Some p"
    show "p \<in> dom ?par" using x r big by (auto simp: descends_def split: if_splits)
    assume "p \<noteq> x"
    then show "?d p < ?d x"
      using x r nb walks.root [of par small] small walks_step [of par x p small] by (auto simp: descends_def split: if_splits)
  qed
  then show "\<exists>d'. descends d' ?par" by blast
  have fwd: "walks par x u \<Longrightarrow> walks ?par x (if u = small then big else u)" for x u
  proof (induction rule: walks.induct)
    case (root x)
    show ?case
    proof (cases "x = small")
      case True then show ?thesis using walks_hang [of par big small] big ne by (simp del: fun_upd_apply)
    next
      case False
      then have "?par x = Some x" using root by simp
      then show ?thesis using False walks.root [of ?par x] by (simp del: fun_upd_apply)
    qed
  next
    case (link x p u)
    then have "x \<noteq> small" using small by auto
    then have "?par x = Some p" using link(1) by simp
    then show ?case using link(2,4) by (rule walks.link)
  qed
  show "walks ?par x t \<longleftrightarrow> (\<exists>u. walks par x u \<and> t = (if u = small then big else u))"
  proof
    assume t: "walks ?par x t"
    have "x \<in> insert small (dom par)" using walks_dom [OF t] by (simp del: fun_upd_apply)
    then have "x \<in> dom par" using small by auto
    then obtain u where "walks par x u" using walks_total r by blast
    then show "\<exists>u. walks par x u \<and> t = (if u = small then big else u)" using fwd walks_det t by blast
  qed (use fwd in blast)
qed


section \<open>The classes\<close>

text \<open>
  \<open>uf_rel u\<close>: the pairs of nodes in one class. A union adds the edge to the generated equivalence,
  where a node alone stands in the class of itself.
\<close>

definition uf_inv :: "union_find \<Rightarrow> bool" where
  "uf_inv u \<longleftrightarrow> (\<exists>d. descends d (uf_parent u)) \<and> dom (uf_parent u) \<subseteq> dom (uf_size u)"

definition uf_rel :: "union_find \<Rightarrow> pair set" where
  "uf_rel u = {(x, y). \<exists>r. walks (uf_parent u) x r \<and> walks (uf_parent u) y r}"

lemma uf_rel_sym: "(x, y) \<in> uf_rel u \<Longrightarrow> (y, x) \<in> uf_rel u"
  by (auto simp: uf_rel_def)

lemma uf_rel_trans: "(x, y) \<in> uf_rel u \<Longrightarrow> (y, z) \<in> uf_rel u \<Longrightarrow> (x, z) \<in> uf_rel u"
  by (auto simp: uf_rel_def dest: walks_det)

lemma uf_rel_refl: "uf_inv u \<Longrightarrow> (x, x) \<in> uf_rel u \<longleftrightarrow> x \<in> dom (uf_parent u)"
proof -
  assume "uf_inv u"
  then obtain d where d: "descends d (uf_parent u)" by (auto simp: uf_inv_def)
  have "(x, x) \<in> uf_rel u \<Longrightarrow> x \<in> dom (uf_parent u)" unfolding uf_rel_def using walks_dom by blast
  moreover have "x \<in> dom (uf_parent u) \<Longrightarrow> (x, x) \<in> uf_rel u" using walks_total [OF d] unfolding uf_rel_def by blast
  ultimately show ?thesis by blast
qed

lemma uf_inv_empty: "uf_inv uf_empty" "uf_rel uf_empty = {}"
  by (auto simp: uf_inv_def uf_empty_def descends_def uf_rel_def elim: walksE)

lemma uf_make_spec:
  assumes "uf_inv u"
  shows "uf_inv (uf_make x u) \<and> uf_rel (uf_make x u) = insert (x, x) (uf_rel u)"
proof (cases "uf_parent u x")
  case None
  obtain d where d: "descends d (uf_parent u)" using assms by (auto simp: uf_inv_def)
  let ?par = "(uf_parent u)(x \<mapsto> x)"
  have par: "uf_parent (uf_make x u) = ?par" and size: "dom (uf_size (uf_make x u)) = insert x (dom (uf_size u))"
    using None by (auto simp: uf_make_def Let_def split: option.splits)
  have fwd: "walks (uf_parent u) y r \<Longrightarrow> walks ?par y r" for y r
  proof (induction rule: walks.induct)
    case (root y) then show ?case using None by (intro walks.root) auto
  next
    case (link y p r)
    then have "?par y = Some p" using None by auto
    then show ?case using link(2,4) by (rule walks.link)
  qed
  have "descends d ?par" using d by (auto simp: descends_def)
  moreover have "walks ?par y r \<longleftrightarrow> walks (uf_parent u) y r \<or> y = x \<and> r = x" for y r
  proof
    assume w: "walks ?par y r"
    show "walks (uf_parent u) y r \<or> y = x \<and> r = x"
    proof (cases "y = x")
      case True
      then show ?thesis using walks_det [OF w, of x] by (simp add: walks.root)
    next
      case False
      then have "y \<in> dom (uf_parent u)" using walks_dom [OF w] by auto
      then obtain t where "walks (uf_parent u) y t" using walks_total d by blast
      then show ?thesis using fwd walks_det w by blast
    qed
  qed (use fwd in \<open>auto intro: walks.root\<close>)
  moreover have "\<not> walks (uf_parent u) y x" for y using walks_end None by fastforce
  ultimately show ?thesis
    using assms unfolding uf_inv_def uf_rel_def par size by auto
next
  case (Some p)
  then have par: "uf_parent (uf_make x u) = uf_parent u" and size: "dom (uf_size u) \<subseteq> dom (uf_size (uf_make x u))"
    by (auto simp: uf_make_def split: option.splits)
  have "(x, x) \<in> uf_rel u" using uf_rel_refl [OF assms] Some by auto
  then show ?thesis using assms size unfolding uf_inv_def uf_rel_def par by blast
qed

lemma uf_find_spec:
  assumes "uf_inv u" and "x \<in> dom (uf_parent u)"
  shows "\<exists>r u'. uf_find x u = Some (r, u') \<and> walks (uf_parent u) x r \<and> uf_inv u' \<and> uf_size u' = uf_size u
    \<and> dom (uf_parent u') = dom (uf_parent u) \<and> (\<forall>y t. walks (uf_parent u') y t \<longleftrightarrow> walks (uf_parent u) y t)"
proof -
  obtain d where d: "descends d (uf_parent u)" using assms by (auto simp: uf_inv_def)
  obtain r where r: "walks (uf_parent u) x r" using walks_total [OF d assms(2)] by blast
  obtain par where "compress (uf_parent u) x r = Some par" "descends d par" "dom par = dom (uf_parent u)"
    "\<forall>y t. walks par y t \<longleftrightarrow> walks (uf_parent u) y t" using compress_spec [OF d r] by blast
  then show ?thesis using r assms(1) walk_root_spec [OF r] by (auto simp: uf_find_def uf_inv_def)
qed

lemma uf_union_spec:
  assumes inv: "uf_inv u" and a: "a \<in> dom (uf_parent u)" and b: "b \<in> dom (uf_parent u)"
  shows "\<exists>u'. uf_union a b u = Some u' \<and> uf_inv u' \<and> uf_rel u' = joined (uf_rel u) a b"
proof -
  obtain ra u1 where 1: "uf_find a u = Some (ra, u1)" "walks (uf_parent u) a ra" "uf_inv u1"
    "uf_size u1 = uf_size u" "dom (uf_parent u1) = dom (uf_parent u)"
    "\<forall>y t. walks (uf_parent u1) y t \<longleftrightarrow> walks (uf_parent u) y t" using uf_find_spec [OF inv a] by blast
  obtain rb u2 where 2: "uf_find b u1 = Some (rb, u2)" "walks (uf_parent u1) b rb" "uf_inv u2"
    "uf_size u2 = uf_size u1" "dom (uf_parent u2) = dom (uf_parent u1)"
    "\<forall>y t. walks (uf_parent u2) y t \<longleftrightarrow> walks (uf_parent u1) y t" using uf_find_spec [OF 1(3)] b 1(5) by blast
  have w: "walks (uf_parent u2) y t \<longleftrightarrow> walks (uf_parent u) y t" for y t using 1(6) 2(6) by simp
  have rel: "uf_rel u2 = uf_rel u" by (simp add: uf_rel_def w)
  have ab: "walks (uf_parent u2) a ra" "walks (uf_parent u2) b rb" using 1 2 w by auto
  show ?thesis
  proof (cases "ra = rb")
    case True
    then have "(a, b) \<in> uf_rel u" using ab by (auto simp: uf_rel_def w)
    then have "joined (uf_rel u) a b = uf_rel u"
      by (intro set_eqI, clarify, unfold in_joined) (use uf_rel_trans uf_rel_sym in blast)
    then show ?thesis using 1(1) 2(1,3) True rel by (simp add: uf_union_def)
  next
    case False
    have roots: "uf_parent u2 ra = Some ra" "uf_parent u2 rb = Some rb" using ab walks_end by blast+
    then obtain sa sb where s: "uf_size u2 ra = Some sa" "uf_size u2 rb = Some sb"
      using 2(3) unfolding uf_inv_def by blast
    define big small where "big = (if sa \<ge> sb then ra else rb)" and "small = (if sa \<ge> sb then rb else ra)"
    define u' where "u' = u2\<lparr>uf_parent := (uf_parent u2)(small \<mapsto> big), uf_size := (uf_size u2)(big \<mapsto> sa + sb)\<rparr>"
    have run: "uf_union a b u = Some u'"
      using 1(1) 2(1) False s by (simp add: uf_union_def u'_def big_def small_def Let_def)
    have ne: "big \<noteq> small" and br: "uf_parent u2 big = Some big" and sr: "uf_parent u2 small = Some small"
      using False roots by (auto simp: big_def small_def)
    obtain d where "descends d (uf_parent u2)" using 2(3) by (auto simp: uf_inv_def)
    note lk = link_classes [OF this br sr ne]
    have sz: "uf_parent u2 ra \<noteq> None" "uf_parent u2 rb \<noteq> None" using roots by simp_all
    have "uf_inv u'"
      using lk(1) 2(3) br sr unfolding uf_inv_def u'_def by auto
    moreover have "(x, y) \<in> uf_rel u' \<longleftrightarrow> (x, y) \<in> joined (uf_rel u) a b" for x y
    proof -
      have "(x, y) \<in> uf_rel u' \<longleftrightarrow> (x, y) \<in> uf_rel u2 \<or> walks (uf_parent u2) x ra \<and> walks (uf_parent u2) y rb
          \<or> walks (uf_parent u2) x rb \<and> walks (uf_parent u2) y ra"
      proof -
        have f: "(if v = small then big else v) = (if w = small then big else w) \<longleftrightarrow>
            v = w \<or> v = ra \<and> w = rb \<or> v = rb \<and> w = ra" for v w
          using False by (auto simp: big_def small_def)
        have par: "uf_parent u' = (uf_parent u2)(small \<mapsto> big)" by (simp add: u'_def)
        have "(x, y) \<in> uf_rel u' \<longleftrightarrow> (\<exists>v w. walks (uf_parent u2) x v \<and> walks (uf_parent u2) y w
            \<and> (if v = small then big else v) = (if w = small then big else w))"
          unfolding uf_rel_def par mem_Collect_eq case_prod_conv lk(2) by blast
        then show ?thesis unfolding f uf_rel_def mem_Collect_eq case_prod_conv by blast
      qed
      moreover have "(x, a) \<in> uf_rel u2 \<longleftrightarrow> walks (uf_parent u2) x ra" "(b, y) \<in> uf_rel u2 \<longleftrightarrow> walks (uf_parent u2) y rb"
        "(x, b) \<in> uf_rel u2 \<longleftrightarrow> walks (uf_parent u2) x rb" "(a, y) \<in> uf_rel u2 \<longleftrightarrow> walks (uf_parent u2) y ra"
        using ab by (auto simp: uf_rel_def dest: walks_det)
      ultimately show ?thesis by (auto simp: in_joined rel [symmetric])
    qed
    then have "uf_rel u' = joined (uf_rel u) a b" by (auto simp: set_eq_iff)
    ultimately show ?thesis using run by blast
  qed
qed

text \<open>All edges: the equivalence they generate on their endpoints.\<close>

lemma union_edges_spec:
  "uf_inv u \<Longrightarrow> uf_rel u = generated R \<Longrightarrow>
   \<exists>u'. union_edges ts u = Some u' \<and> uf_inv u' \<and> uf_rel u' = generated ((\<lambda>(s, p, ob). (s, ob)) ` set ts \<union> R)"
proof (induction ts arbitrary: u R)
  case (Cons t ts)
  obtain a p b where t: "t = (a, p, b)" by (rule prod_cases3)
  let ?u = "uf_make b (uf_make a u)"
  have m: "uf_inv ?u" "uf_rel ?u = insert (b, b) (insert (a, a) (uf_rel u))"
    using uf_make_spec [OF Cons.prems(1)] uf_make_spec by auto
  then have "a \<in> dom (uf_parent ?u)" "b \<in> dom (uf_parent ?u)" using uf_rel_refl [OF m(1)] by auto
  from uf_union_spec [OF m(1) this] obtain u1 where
    u1: "uf_union a b ?u = Some u1" "uf_inv u1" "uf_rel u1 = joined (uf_rel ?u) a b" by blast
  have "uf_rel u1 = generated (insert (a, b) R)"
    by (rule joined_generates [OF Cons.prems(2) u1(3) [unfolded m(2)]]) (use uf_rel_sym uf_rel_trans in blast)+
  from Cons.IH [OF u1(2) this] u1(1) show ?case
    unfolding t set_simps image_insert case_prod_conv union_edges.simps by simp
qed simp


section \<open>What the classes derive\<close>

lemma group_members_spec:
  "uf_inv u \<Longrightarrow> set ms \<subseteq> dom (uf_parent u) \<Longrightarrow>
   \<exists>cs. group_members ms u classes = Some cs \<and> (\<forall>r. cs r =
     (if filter (\<lambda>m. walks (uf_parent u) m r) ms = [] then classes r
      else Some ((case classes r of None \<Rightarrow> [] | Some xs \<Rightarrow> xs) @ filter (\<lambda>m. walks (uf_parent u) m r) ms)))"
proof (induction ms arbitrary: u classes)
  case (Cons m ms)
  obtain r u' where f: "uf_find m u = Some (r, u')" "walks (uf_parent u) m r" "uf_inv u'"
    "dom (uf_parent u') = dom (uf_parent u)" "\<forall>y t. walks (uf_parent u') y t \<longleftrightarrow> walks (uf_parent u) y t"
    using uf_find_spec [OF Cons.prems(1), of m] Cons.prems(2) by auto
  let ?cl = "classes(r \<mapsto> (case classes r of None \<Rightarrow> [] | Some xs \<Rightarrow> xs) @ [m])"
  obtain cs where cs: "group_members ms u' ?cl = Some cs" "\<forall>t. cs t =
     (if filter (\<lambda>m. walks (uf_parent u) m t) ms = [] then ?cl t
      else Some ((case ?cl t of None \<Rightarrow> [] | Some xs \<Rightarrow> xs) @ filter (\<lambda>m. walks (uf_parent u) m t) ms))"
  proof -
    have eq: "walks (uf_parent u') = walks (uf_parent u)" using f(5) by (intro ext) simp
    have "set ms \<subseteq> dom (uf_parent u')" using Cons.prems(2) f(4) by simp
    from Cons.IH [OF f(3) this, of ?cl, unfolded eq] show thesis using that by blast
  qed
  have w: "walks (uf_parent u) m t \<longleftrightarrow> t = r" for t using f(2) walks_det by blast
  show ?case
    by (rule exI [of _ cs], intro conjI allI, use cs(1) f(1) in simp, unfold cs(2) [rule_format]) (simp add: w)
qed simp

lemma union_extent_spec:
  "dom (union_extent h m cls) = (\<Union>p\<in>set cls. extent m p)
   \<and> (\<forall>s ob p. union_extent h m cls (s, ob) = Some p \<longrightarrow> p \<in> set cls \<and> (s, ob) \<in> extent m p)"
proof -
  let ?add = "\<lambda>p (s, q, ob) ext. case ext (s, ob) of None \<Rightarrow> ext((s, ob) \<mapsto> p) | Some _ \<Rightarrow> ext"
  have inner: "dom (fold (?add p) ts ext) = dom ext \<union> (\<lambda>(s, q, ob). (s, ob)) ` set ts
     \<and> (\<forall>k p'. fold (?add p) ts ext k = Some p' \<longrightarrow> ext k = Some p' \<or> p' = p \<and> k \<in> (\<lambda>(s, q, ob). (s, ob)) ` set ts)"
    for p ts and ext :: "pair \<rightharpoonup> u64"
  proof (induction ts arbitrary: ext)
    case (Cons t ts)
    obtain s q ob where t: "t = (s, q, ob)" by (rule prod_cases3)
    show ?case
    proof (cases "ext (s, ob)")
      case None
      define ext' where "ext' = ext((s, ob) \<mapsto> p)"
      have e: "ext' k = (if k = (s, ob) then Some p else ext k)" for k by (simp add: ext'_def)
      have run: "fold (?add p) (t # ts) ext = fold (?add p) ts ext'" using None by (simp add: t ext'_def)
      have "ext k = Some p' \<or> p' = p \<and> k \<in> (\<lambda>(s, q, ob). (s, ob)) ` set (t # ts)"
        if "fold (?add p) ts ext' k = Some p'" for k p'
      proof -
        have "ext' k = Some p' \<or> p' = p \<and> k \<in> (\<lambda>(s, q, ob). (s, ob)) ` set ts"
          using Cons.IH [of ext'] that by blast
        then show ?thesis by (auto simp: e t split: if_splits)
      qed
      moreover have "dom ext' = insert (s, ob) (dom ext)" by (auto simp: e split: if_splits)
      then have "dom (fold (?add p) ts ext') = dom ext \<union> (\<lambda>(s, q, ob). (s, ob)) ` set (t # ts)"
        using Cons.IH [of ext'] by (simp add: t)
      ultimately show ?thesis unfolding run by blast
    next
      case (Some x)
      then show ?thesis using Cons.IH [of ext] by (auto simp: t)
    qed
  qed simp
  have scan: "(\<lambda>(s, q, ob). (s, ob)) ` set (scan_predicate h m p) = extent m p" for p
    by (force simp: all_triples_iff)
  have outer: "dom (fold (\<lambda>p. fold (?add p) (scan_predicate h m p)) cls ext) = dom ext \<union> (\<Union>p\<in>set cls. extent m p)
     \<and> (\<forall>k p'. fold (\<lambda>p. fold (?add p) (scan_predicate h m p)) cls ext k = Some p' \<longrightarrow>
          ext k = Some p' \<or> p' \<in> set cls \<and> k \<in> extent m p')" for ext :: "pair \<rightharpoonup> u64"
  proof (induction cls arbitrary: ext)
    case (Cons p cls)
    note i = inner [of p "scan_predicate h m p" ext, unfolded scan]
    note o = Cons.IH [of "fold (?add p) (scan_predicate h m p) ext"]
    show ?case
      unfolding fold_Cons comp_apply
      by (rule conjI, use i o in \<open>simp add: Un_assoc\<close>, use i o in fastforce)
  qed simp
  show ?thesis using outer [of Map.empty] unfolding union_extent_def by auto
qed

lemma write_member_triples:
  assumes "\<And>s ob p. ext (s, ob) = Some p \<Longrightarrow> (s, p, ob) \<in> all_triples m"
  shows "d_triples (write_member h m ext mem out)
    = d_triples out \<union> ({(s, q, ob). q = mem \<and> (s, ob) \<in> dom ext} - all_triples m)"
proof -
  let ?S = "\<lambda>(s, ob). {(s, mem, ob)} - all_triples m"
  have "d_triples (write_member h m ext mem out) = d_triples out \<union> \<Union> (?S ` set (iter (by_pair h) (dom ext)))"
    unfolding write_member_def
  proof (rule fold_triples)
    fix x :: pair and out assume "x \<in> set (iter (by_pair h) (dom ext))"
    then have "x \<in> dom ext" by simp
    then obtain s ob p where x: "x = (s, ob)" "ext (s, ob) = Some p" by (metis domD surj_pair)
    then show "d_triples ((case x of (s, ob) \<Rightarrow> \<lambda>out.
        (let src = the (ext (s, ob)); head = (s, mem, ob) in
         if src = mem then out
         else if ms_contains m head \<or> delta_contains out head then out
         else delta_insert head \<lparr>prov_rule = ''eq-rep-p'',
            prov_premises = [(src, owl_same_as (ms_vocab m), mem), (s, src, ob)]\<rparr> out)) out) = d_triples out \<union> ?S x"
      using assms [OF x(2)] by (auto simp: Let_def)
  qed
  then show ?thesis by auto
qed

definition class_heads :: "mem_store \<Rightarrow> u64 set \<Rightarrow> triple set" where
  "class_heads m C = {(s, q, ob). q \<in> C \<and> (\<exists>p\<in>C. (s, ob) \<in> extent m p)}"

lemma fire_class_triples:
  "d_triples (fire_class h m cls out) = d_triples out \<union> (class_heads m (set cls) - all_triples m)"
proof -
  note ext = union_extent_spec [of h m cls]
  have stored: "\<And>s ob p. union_extent h m cls (s, ob) = Some p \<Longrightarrow> (s, p, ob) \<in> all_triples m"
    using ext by (auto simp: all_triples_iff)
  have "d_triples (fold (write_member h m (union_extent h m cls)) cls out)
      = d_triples out \<union> \<Union> ((\<lambda>mem. {(s, q, ob). q = mem \<and> (s, ob) \<in> dom (union_extent h m cls)} - all_triples m) ` set cls)"
    by (rule fold_triples) (rule write_member_triples [OF stored])
  also have "\<dots> = d_triples out \<union> (class_heads m (set cls) - all_triples m)"
    using ext by (auto simp: class_heads_def)
  finally have *: "d_triples (fold (write_member h m (union_extent h m cls)) cls out)
    = d_triples out \<union> (class_heads m (set cls) - all_triples m)" .
  show ?thesis
  proof (cases "union_extent h m cls = Map.empty")
    case True
    then have "class_heads m (set cls) = {}" using ext by (auto simp: class_heads_def)
    then show ?thesis using True by (simp add: fire_class_def)
  next
    case False then show ?thesis using * by (simp add: fire_class_def Let_def)
  qed
qed

definition replacements :: "mem_store \<Rightarrow> triple set" where
  "replacements m = {(s, q, ob). \<exists>p. (p, q) \<in> generated (extent m (owl_same_as (ms_vocab m))) \<and> (s, ob) \<in> extent m p}"

lemma fire_eq_rep_p_canonical_spec:
  "\<exists>d. fire_eq_rep_p_canonical h m = Some d \<and> d_triples d = replacements m - all_triples m"
proof -
  let ?E = "extent m (owl_same_as (ms_vocab m))" and ?ts = "scan_predicate h m (owl_same_as (ms_vocab m))"
  have E: "(\<lambda>(s, p, ob). (s, ob)) ` set ?ts = ?E" by (force simp: all_triples_iff)
  obtain u where u: "union_edges ?ts uf_empty = Some u" "uf_inv u" "uf_rel u = generated ?E"
    using union_edges_spec [OF uf_inv_empty(1), of "{}" ?ts] uf_inv_empty(2) E by (auto simp: generated_def)
  show ?thesis
  proof (cases "uf_parent u = Map.empty")
    case True
    then have "generated ?E = {}" using u(3) walks_dom unfolding uf_rel_def by fastforce
    then have "replacements m = {}" by (auto simp: replacements_def)
    then show ?thesis using u(1) True by (simp add: fire_eq_rep_p_canonical_def)
  next
    case False
    let ?ms = "iter (by_id h) (dom (uf_parent u))" and ?C = "\<lambda>r. {x. walks (uf_parent u) x r}"
    obtain cs where cs: "group_members ?ms u Map.empty = Some cs" "\<forall>r. cs r =
       (if filter (\<lambda>m. walks (uf_parent u) m r) ?ms = [] then None else Some (filter (\<lambda>m. walks (uf_parent u) m r) ?ms))"
      using group_members_spec [OF u(2), of ?ms Map.empty] by auto
    have set_cs: "cs r = Some xs \<Longrightarrow> set xs = ?C r" for r xs
      using cs(2) walks_dom by (auto split: if_splits)
    have dom_cs: "r \<in> dom cs \<longleftrightarrow> ?C r \<noteq> {}" for r
      using cs(2) walks_dom by (auto simp: filter_empty_conv split: if_splits) blast+
    have "d_triples (fold (\<lambda>r. fire_class h m (the (cs r))) (iter (by_id h) (dom cs)) delta_new)
      = d_triples delta_new \<union> \<Union> ((\<lambda>r. class_heads m (?C r) - all_triples m) ` set (iter (by_id h) (dom cs)))"
      by (rule fold_triples) (auto simp: fire_class_triples set_cs)
    also have "\<dots> = replacements m - all_triples m"
    proof -
      have "(s, q, ob) \<in> (\<Union>r\<in>dom cs. class_heads m (?C r)) \<longleftrightarrow> (s, q, ob) \<in> replacements m" for s q ob
        unfolding replacements_def u(3) [symmetric] uf_rel_def class_heads_def UN_iff Bex_def dom_cs by blast
      then have "(\<Union>r\<in>dom cs. class_heads m (?C r)) = replacements m" by (intro set_eqI) (metis prod_cases3)
      then show ?thesis by auto
    qed
    finally show ?thesis using u(1) False cs(1) by (simp add: fire_eq_rep_p_canonical_def)
  qed
qed


section \<open>Against the compiled rule\<close>

lemma vget_same_as: "vget v ''owl_same_as'' = owl_same_as v"
  by (simp add: vget_def vocab_fields_def terms_of_def)

lemma eq_rep_p_consequences:
  "consequences v eq_rep_p T = {(s, q, ob). \<exists>p. (p, owl_same_as v, q) \<in> T \<and> (s, p, ob) \<in> T}"
proof -
  have "(s, q, ob) \<in> consequences v eq_rep_p T \<longleftrightarrow> (\<exists>p. (p, owl_same_as v, q) \<in> T \<and> (s, p, ob) \<in> T)" for s q ob
  proof
    assume "\<exists>p. (p, owl_same_as v, q) \<in> T \<and> (s, p, ob) \<in> T"
    then obtain p where "(p, owl_same_as v, q) \<in> T" "(s, p, ob) \<in> T" by blast
    then show "(s, q, ob) \<in> consequences v eq_rep_p T"
      unfolding consequences_iff eq_rep_p_def
      by (intro exI [of _ "(\<lambda>_. 0)(''p'' := p, ''p2'' := q, ''s'' := s, ''o'' := ob)"])
        (simp add: inst_pat_def head_expr_def vget_same_as)
  qed (auto simp: consequences_iff eq_rep_p_def inst_pat_def head_expr_def vget_same_as)
  then show ?thesis by auto
qed

lemma eq_rep_p_compilable: "compilable eq_rep_p"
  by code_simp

lemma generated_closed:
  assumes "sym E" and "trans E" shows "generated E = E"
proof
  show "generated E \<subseteq> E" by (rule generated_least) (use assms in \<open>auto dest: symD transD\<close>)
qed (auto intro: generated_base)

section \<open>Properties\<close>

text \<open>C9: The class-based evaluation never panics and always ends; it derives exactly the missing
  replacements of a predicate by any member of its generated class, and on a store whose
  \<^verbatim>\<open>owl:sameAs\<close> extent is closed already the same triples as the compiled rule.\<close>

theorem eq_rep_p_canonical_exact:
  assumes "ms_inv m"
  shows "\<exists>d. fire_eq_rep_p_canonical h m = Some d
    \<and> (\<forall>s q ob. (s, q, ob) \<in> d_triples d \<longleftrightarrow> \<not> ms_contains m (s, q, ob) \<and> (\<exists>p. ms_contains m (s, p, ob)
         \<and> (p, q) \<in> (extent m (owl_same_as (ms_vocab m)) \<union> (extent m (owl_same_as (ms_vocab m)))\<inverse>)\<^sup>+))
    \<and> (sym (extent m (owl_same_as (ms_vocab m))) \<and> trans (extent m (owl_same_as (ms_vocab m))) \<longrightarrow>
         d_triples d = d_triples (fire_rule h eq_rep_p m None))"
proof -
  let ?E = "extent m (owl_same_as (ms_vocab m))"
  obtain d where d: "fire_eq_rep_p_canonical h m = Some d" "d_triples d = replacements m - all_triples m"
    using fire_eq_rep_p_canonical_spec by blast
  have "d_triples (fire_rule h eq_rep_p m None) = consequences (ms_vocab m) eq_rep_p (all_triples m) - all_triples m"
    using fire_rule_spec [OF eq_rep_p_compilable _ _, of m None h] assms
    by (simp add: eq_rep_p_def ms_inv_def fired_rule_heads_def consequences_def)
  moreover have "consequences (ms_vocab m) eq_rep_p (all_triples m) = replacements m" if "sym ?E" "trans ?E"
    unfolding eq_rep_p_consequences replacements_def generated_closed [OF that] by (simp add: all_triples_iff)
  ultimately have "sym ?E \<and> trans ?E \<longrightarrow> d_triples d = d_triples (fire_rule h eq_rep_p m None)" using d(2) by simp
  moreover have "\<forall>s q ob. (s, q, ob) \<in> d_triples d \<longleftrightarrow> \<not> ms_contains m (s, q, ob) \<and> (\<exists>p. ms_contains m (s, p, ob)
      \<and> (p, q) \<in> (?E \<union> ?E\<inverse>)\<^sup>+)"
    unfolding d(2) replacements_def generated_def by (auto simp: all_triples_iff)
  ultimately show ?thesis using d(1) by blast
qed

text \<open>A predicate with an alias.\<close>

definition alias_store :: mem_store where
  "alias_store = assert_all [(50, owl_same_as (synthetic 100), 51), (7, 50, 8)] (ms_new (synthetic 100))"

lemma alias_store_facts: "ms_inv alias_store"
  "all_triples alias_store = {(50, owl_same_as (synthetic 100), 51), (7, 50, 8)}"
  "ms_vocab alias_store = synthetic 100"
proof -
  note spec = assert_all_spec [OF ms_inv_new(1)]
  show "ms_inv alias_store" using spec by (simp add: alias_store_def)
  show "all_triples alias_store = {(50, owl_same_as (synthetic 100), 51), (7, 50, 8)}"
    using spec by (simp add: alias_store_def)
  show "ms_vocab alias_store = synthetic 100"
    by (simp add: alias_store_def assert_all_def ms_assert_def add_pair_def ms_new_def Let_def)
qed

lemma eq_rep_p_canonical_exact_witness:
  "ms_inv alias_store \<and> (\<exists>d. fire_eq_rep_p_canonical asc alias_store = Some d \<and> (7, 51, 8) \<in> d_triples d)"
proof -
  obtain d where d: "fire_eq_rep_p_canonical asc alias_store = Some d"
    "\<forall>s q ob. (s, q, ob) \<in> d_triples d \<longleftrightarrow> \<not> ms_contains alias_store (s, q, ob) \<and> (\<exists>p. ms_contains alias_store (s, p, ob)
       \<and> (p, q) \<in> (extent alias_store (owl_same_as (ms_vocab alias_store))
            \<union> (extent alias_store (owl_same_as (ms_vocab alias_store)))\<inverse>)\<^sup>+)"
    using eq_rep_p_canonical_exact [OF alias_store_facts(1), of asc] by blast
  have "(50, 51) \<in> extent alias_store (owl_same_as (ms_vocab alias_store))"
    by (simp add: alias_store_facts flip: all_triples_iff)
  moreover have "ms_contains alias_store (7, 50, 8)" "\<not> ms_contains alias_store (7, 51, 8)"
    by (simp_all add: alias_store_facts)
  ultimately have "(7, 51, 8) \<in> d_triples d" using d(2) by blast
  then show ?thesis using d(1) alias_store_facts(1) by blast
qed

end
