(* ===== verification/List_Axioms.thy ===== *)
theory List_Axioms imports Owl_Store begin

text \<open>
  The load-time half of \<^verbatim>\<open>crates/owlrl/src/list_rules.rs\<close>: walking \<^verbatim>\<open>rdf:first\<close>/\<^verbatim>\<open>rdf:rest\<close> chains,
  resolving every list-declaring axiom of the store into a \<^verbatim>\<open>SchemaAxioms\<close> record, the body
  predicates of the resolved rules and the dirty tests that prune them.
\<close>

record schema_axioms =
  property_chains :: "(u64 \<times> u64 list) list"
  keys :: "(u64 \<times> u64 list) list"
  intersections :: "(u64 \<times> u64 \<times> u64 list) list"
  unions :: "(u64 \<times> u64 list) list"
  all_disjoint_classes :: "u64 list list"
  all_disjoint_properties :: "u64 list list"
  all_different :: "(u64 \<times> u64 \<times> u64 \<times> u64 list) list"
  max_card_restrictions :: "max_card_restriction list"
  qual_max_card_restrictions :: "qual_max_card_restriction list"

definition no_axioms :: schema_axioms where
  "no_axioms = \<lparr>property_chains = [], keys = [], intersections = [], unions = [],
     all_disjoint_classes = [], all_disjoint_properties = [], all_different = [],
     max_card_restrictions = [], qual_max_card_restrictions = []\<rparr>"

definition body_predicates :: "schema_axioms \<Rightarrow> vocabulary \<Rightarrow> u64 set" where
  "body_predicates ax v =
     (\<Union>(head, chain)\<in>set (property_chains ax). insert head (set chain))
   \<union> (if keys ax \<noteq> [] then insert (rdf_type v) (\<Union>(c, ps)\<in>set (keys ax). set ps) else {})
   \<union> (if intersections ax \<noteq> [] \<or> unions ax \<noteq> [] \<or> all_disjoint_classes ax \<noteq> []
      then {rdf_type v} else {})
   \<union> (\<Union>ps\<in>set (all_disjoint_properties ax). set ps)
   \<union> (if all_different ax \<noteq> [] then {owl_same_as v, owl_different_from v} else {})
   \<union> (if max_card_restrictions ax \<noteq> []
      then insert (rdf_type v) (mc_property ` set (max_card_restrictions ax)) else {})
   \<union> (if qual_max_card_restrictions ax \<noteq> []
      then insert (rdf_type v) (qmc_property ` set (qual_max_card_restrictions ax)) else {})"

definition axioms_is_empty :: "schema_axioms \<Rightarrow> bool" where
  "axioms_is_empty ax \<longleftrightarrow> property_chains ax = [] \<and> keys ax = [] \<and> intersections ax = [] \<and> unions ax = []
     \<and> all_disjoint_classes ax = [] \<and> all_disjoint_properties ax = [] \<and> all_different ax = []
     \<and> max_card_restrictions ax = [] \<and> qual_max_card_restrictions ax = []"

section \<open>Walking a list\<close>

text \<open>The first object of a probe: the one the iteration order yields first.\<close>

definition first_object :: "orders \<Rightarrow> mem_store \<Rightarrow> u64 \<Rightarrow> u64 \<Rightarrow> u64 option" where
  "first_object h m s p = (case probe h m (Some s) p None of
       [] \<Rightarrow> None | (_, _, ob) # _ \<Rightarrow> Some ob)"

function walk_loop :: "orders \<Rightarrow> mem_store \<Rightarrow> vocabulary \<Rightarrow> u64 set \<Rightarrow> u64 list \<Rightarrow> u64 \<Rightarrow> u64 list option" where
  "walk_loop h m v visited out cur =
     (if cur = rdf_nil v then Some out
      else if cur \<in> visited then None
      else (case first_object h m cur (rdf_first v) of
          None \<Rightarrow> None
        | Some first \<Rightarrow>
            (case first_object h m cur (rdf_rest v) of
               None \<Rightarrow> None
             | Some nxt \<Rightarrow> walk_loop h m v (insert cur visited) (out @ [first]) nxt)))"
  by pat_completeness auto
termination
  by (relation "measure (\<lambda>(h, m, v, visited, out, cur). card (- visited))") (auto intro: card_Compl_insert)

declare walk_loop.simps [simp del]

definition walk_list :: "orders \<Rightarrow> mem_store \<Rightarrow> vocabulary \<Rightarrow> u64 \<Rightarrow> u64 list option" where
  "walk_list h m v head = walk_loop h m v {} [] head"

section \<open>Resolving the axioms\<close>

definition resolve_lists :: "orders \<Rightarrow> mem_store \<Rightarrow> vocabulary \<Rightarrow> u64 \<Rightarrow> (u64 \<times> u64 \<times> u64 list) list" where
  "resolve_lists h m v p = List.map_filter (\<lambda>(s, _, ob). case walk_list h m v ob of
       Some xs \<Rightarrow> if xs \<noteq> [] then Some (s, ob, xs) else None
     | None \<Rightarrow> None) (scan_predicate h m p)"

definition typed_subjects :: "orders \<Rightarrow> mem_store \<Rightarrow> vocabulary \<Rightarrow> u64 \<Rightarrow> u64 list" where
  "typed_subjects h m v c = map fst (probe h m None (rdf_type v) (Some c))"

definition or_else :: "'a option \<Rightarrow> 'a option \<Rightarrow> 'a option" where
  "or_else a b = (case a of None \<Rightarrow> b | Some x \<Rightarrow> Some x)"

definition resolve_disjoint_classes :: "orders \<Rightarrow> mem_store \<Rightarrow> vocabulary \<Rightarrow> u64 list list" where
  "resolve_disjoint_classes h m v = List.map_filter (\<lambda>adc.
     case or_else (first_object h m adc (owl_members v)) (first_object h m adc (owl_distinct_members v)) of
       None \<Rightarrow> None
     | Some head \<Rightarrow>
         (case walk_list h m v head of
            None \<Rightarrow> None
          | Some cs \<Rightarrow> if 2 \<le> length cs then Some cs else None))
     (typed_subjects h m v (owl_all_disjoint_classes v))"

definition resolve_disjoint_properties :: "orders \<Rightarrow> mem_store \<Rightarrow> vocabulary \<Rightarrow> u64 list list" where
  "resolve_disjoint_properties h m v = List.map_filter (\<lambda>adp.
     case first_object h m adp (owl_members v) of
       None \<Rightarrow> None
     | Some head \<Rightarrow>
         (case walk_list h m v head of
            None \<Rightarrow> None
          | Some ps \<Rightarrow> if 2 \<le> length ps then Some ps else None))
     (typed_subjects h m v (owl_all_disjoint_properties v))"

definition resolve_all_different ::
    "orders \<Rightarrow> mem_store \<Rightarrow> vocabulary \<Rightarrow> (u64 \<times> u64 \<times> u64 \<times> u64 list) list" where
  "resolve_all_different h m v = List.map_filter (\<lambda>ad.
     case or_else
         (map_option (Pair (owl_distinct_members v)) (first_object h m ad (owl_distinct_members v)))
         (map_option (Pair (owl_members v)) (first_object h m ad (owl_members v))) of
       None \<Rightarrow> None
     | Some (members_pred, head) \<Rightarrow>
         (case walk_list h m v head of
            None \<Rightarrow> None
          | Some xs \<Rightarrow> if 2 \<le> length xs then Some (ad, members_pred, head, xs) else None))
     (typed_subjects h m v (owl_all_different v))"

definition resolve :: "orders \<Rightarrow> mem_store \<Rightarrow> vocabulary \<Rightarrow> schema_axioms" where
  "resolve h m v = \<lparr>
     property_chains = map (\<lambda>(s, head, xs). (s, xs)) (resolve_lists h m v (owl_property_chain_axiom v)),
     keys = map (\<lambda>(s, head, xs). (s, xs)) (resolve_lists h m v (owl_has_key v)),
     intersections = resolve_lists h m v (owl_intersection_of v),
     unions = map (\<lambda>(s, head, xs). (s, xs)) (resolve_lists h m v (owl_union_of v)),
     all_disjoint_classes = resolve_disjoint_classes h m v,
     all_disjoint_properties = resolve_disjoint_properties h m v,
     all_different = resolve_all_different h m v,
     max_card_restrictions = ms_card_restrictions m,
     qual_max_card_restrictions = ms_qual_card_restrictions m\<rparr>"

section \<open>Dirty tests\<close>

text \<open>\<open>None\<close> is the first round, where every predicate counts as dirty.\<close>

definition is_dirty :: "u64 set option \<Rightarrow> u64 \<Rightarrow> bool" where
  "is_dirty dirty p = (case dirty of None \<Rightarrow> True | Some d \<Rightarrow> p \<in> d)"

definition any_dirty_for_chains :: "schema_axioms \<Rightarrow> u64 set option \<Rightarrow> bool" where
  "any_dirty_for_chains ax dirty = (case dirty of
       None \<Rightarrow> True
     | Some d \<Rightarrow> list_ex (\<lambda>(head, chain). head \<in> d \<or> list_ex (\<lambda>p. p \<in> d) chain) (property_chains ax))"

definition any_dirty_for_disjoint_properties :: "schema_axioms \<Rightarrow> u64 set option \<Rightarrow> bool" where
  "any_dirty_for_disjoint_properties ax dirty = (case dirty of
       None \<Rightarrow> True
     | Some d \<Rightarrow> list_ex (\<lambda>ps. list_ex (\<lambda>p. p \<in> d) ps) (all_disjoint_properties ax))"

definition any_dirty_for_keys :: "schema_axioms \<Rightarrow> vocabulary \<Rightarrow> u64 set option \<Rightarrow> bool" where
  "any_dirty_for_keys ax v dirty = (case dirty of
       None \<Rightarrow> True
     | Some d \<Rightarrow> rdf_type v \<in> d \<or> list_ex (\<lambda>(c, ps). list_ex (\<lambda>p. p \<in> d) ps) (keys ax))"

definition list_rules_relevant :: "schema_axioms \<Rightarrow> u64 set option \<Rightarrow> vocabulary \<Rightarrow> bool" where
  "list_rules_relevant ax dirty v \<longleftrightarrow>
     (if axioms_is_empty ax then False
      else case dirty of None \<Rightarrow> True | Some d \<Rightarrow> body_predicates ax v \<inter> d \<noteq> {})"

section \<open>What a walk finds\<close>

text \<open>\<open>list_at T v c xs\<close>: the cell \<open>c\<close> heads an \<^verbatim>\<open>rdf:List\<close> of the elements \<open>xs\<close> in the triples \<open>T\<close>.\<close>

inductive list_at :: "triple set \<Rightarrow> vocabulary \<Rightarrow> u64 \<Rightarrow> u64 list \<Rightarrow> bool" for T v where
  nil: "list_at T v (rdf_nil v) []"
| cell: "c \<noteq> rdf_nil v \<Longrightarrow> (c, rdf_first v, x) \<in> T \<Longrightarrow> (c, rdf_rest v, c') \<in> T \<Longrightarrow>
    list_at T v c' xs \<Longrightarrow> list_at T v c (x # xs)"

inductive_cases list_atE: "list_at T v c xs"

lemma first_object_mem: "mirrored m \<Longrightarrow> first_object h m s p = Some x \<Longrightarrow> (s, p, x) \<in> all_triples m"
proof -
  assume m: "mirrored m" and f: "first_object h m s p = Some x"
  then obtain a b rest where r: "probe h m (Some s) p None = (a, b, x) # rest"
    by (auto simp: first_object_def split: list.splits)
  have "(a, b, x) \<in> set (probe h m (Some s) p None)" unfolding r by simp
  then show ?thesis using probe_set [OF m] by (auto simp: none_or_def)
qed

lemma first_object_None: "mirrored m \<Longrightarrow> first_object h m s p = None \<longleftrightarrow> (\<forall>x. (s, p, x) \<notin> all_triples m)"
proof -
  assume m: "mirrored m"
  have "first_object h m s p = None \<longleftrightarrow> set (probe h m (Some s) p None) = {}"
    by (auto simp: first_object_def split: list.splits)
  then show ?thesis by (auto simp: probe_set [OF m] none_or_def)
qed

lemma first_object_unique:
  assumes "mirrored m" and "(s, p, x) \<in> all_triples m"
    and "\<And>y. (s, p, y) \<in> all_triples m \<Longrightarrow> y = x"
  shows "first_object h m s p = Some x"
  using assms first_object_None [OF assms(1), of h s p] first_object_mem [OF assms(1), of h s p]
  by (cases "first_object h m s p") auto

lemma walk_loop_step:
  "walk_loop h m v visited out cur = Some xs \<Longrightarrow>
   cur = rdf_nil v \<and> xs = out \<or>
   (\<exists>f n. cur \<noteq> rdf_nil v \<and> cur \<notin> visited \<and> first_object h m cur (rdf_first v) = Some f
     \<and> first_object h m cur (rdf_rest v) = Some n
     \<and> walk_loop h m v (insert cur visited) (out @ [f]) n = Some xs)"
  by (subst (asm) walk_loop.simps) (simp split: if_splits option.splits)

lemma walk_loop_sound:
  "mirrored m \<Longrightarrow> walk_loop h m v visited out cur = Some xs \<Longrightarrow>
    \<exists>ys. xs = out @ ys \<and> list_at (all_triples m) v cur ys"
proof (induction h m v visited out cur rule: walk_loop.induct)
  case (1 h m v visited out cur)
  from walk_loop_step [OF 1(3)] show ?case
  proof (elim disjE conjE exE)
    assume "cur = rdf_nil v" "xs = out"
    then show ?thesis using list_at.nil by auto
  next
    fix f n
    assume a: "cur \<noteq> rdf_nil v" "cur \<notin> visited" "first_object h m cur (rdf_first v) = Some f"
      "first_object h m cur (rdf_rest v) = Some n"
      "walk_loop h m v (insert cur visited) (out @ [f]) n = Some xs"
    from 1(1) [OF a(1-4) 1(2) a(5)] obtain ys where
      "xs = out @ f # ys" "list_at (all_triples m) v n ys" by auto
    then show ?thesis
      using list_at.cell [OF a(1) first_object_mem [OF 1(2) a(3)] first_object_mem [OF 1(2) a(4)]] by blast
  qed
qed

lemma walk_list_sound: "mirrored m \<Longrightarrow> walk_list h m v c = Some xs \<Longrightarrow> list_at (all_triples m) v c xs"
  unfolding walk_list_def by (drule walk_loop_sound) auto

text \<open>With at most one \<^verbatim>\<open>rdf:first\<close> and \<^verbatim>\<open>rdf:rest\<close> per cell, a list that is there is found.\<close>

definition functional_lists :: "triple set \<Rightarrow> vocabulary \<Rightarrow> bool" where
  "functional_lists T v \<longleftrightarrow> (\<forall>c x y. (c, rdf_first v, x) \<in> T \<and> (c, rdf_first v, y) \<in> T \<longrightarrow> x = y)
     \<and> (\<forall>c x y. (c, rdf_rest v, x) \<in> T \<and> (c, rdf_rest v, y) \<in> T \<longrightarrow> x = y)"

lemma list_at_det:
  "list_at T v c xs \<Longrightarrow> functional_lists T v \<Longrightarrow> list_at T v c ys \<Longrightarrow> xs = ys"
proof (induction arbitrary: ys rule: list_at.induct)
  case nil
  show ?case by (rule list_atE [OF nil(2)]) auto
next
  case (cell c x c' xs)
  show ?case
  proof (rule list_atE [OF cell.prems(2)])
    assume "c = rdf_nil v" then show ?thesis using cell.hyps by simp
  next
    fix y c'' zs
    assume "ys = y # zs" "(c, rdf_first v, y) \<in> T" "(c, rdf_rest v, c'') \<in> T" "list_at T v c'' zs"
    moreover from this have "y = x" "c'' = c'"
      using cell.hyps cell.prems(1) unfolding functional_lists_def by blast+
    ultimately show ?thesis using cell.IH cell.prems(1) by blast
  qed
qed

lemma walk_loop_complete:
  assumes m: "mirrored m" and f: "functional_lists (all_triples m) v"
  shows "list_at (all_triples m) v cur ys \<Longrightarrow>
    (\<And>c. c \<in> visited \<Longrightarrow> \<exists>zs. list_at (all_triples m) v c zs \<and> length ys < length zs) \<Longrightarrow>
    walk_loop h m v visited out cur = Some (out @ ys)"
proof (induction arbitrary: visited out rule: list_at.induct)
  case nil
  then show ?case by (subst walk_loop.simps) simp
next
  case (cell c x c' xs)
  have at: "list_at (all_triples m) v c (x # xs)" using cell.hyps by (blast intro: list_at.cell)
  have "c \<notin> visited"
  proof
    assume "c \<in> visited"
    then obtain zs where "list_at (all_triples m) v c zs" "length (x # xs) < length zs"
      using cell.prems by blast
    then show False using list_at_det [OF at f] by blast
  qed
  moreover have "first_object h m c (rdf_first v) = Some x" "first_object h m c (rdf_rest v) = Some c'"
    using cell.hyps f unfolding functional_lists_def by (blast intro: first_object_unique [OF m])+
  moreover have "walk_loop h m v (insert c visited) (out @ [x]) c' = Some ((out @ [x]) @ xs)"
  proof (rule cell.IH)
    fix d assume "d \<in> insert c visited"
    then show "\<exists>zs. list_at (all_triples m) v d zs \<and> length xs < length zs"
      using at cell.prems [of d] by fastforce
  qed
  ultimately show ?case using cell.hyps by (subst walk_loop.simps) simp
qed

section \<open>What resolution records\<close>

text \<open>Every resolved axiom comes from its declaring triple and an actual list of the store.\<close>

definition axioms_from :: "mem_store \<Rightarrow> vocabulary \<Rightarrow> schema_axioms \<Rightarrow> bool" where
  "axioms_from m v ax \<longleftrightarrow>
     (\<forall>p ps. (p, ps) \<in> set (property_chains ax) \<longrightarrow> ps \<noteq> [] \<and>
        (\<exists>c. (p, owl_property_chain_axiom v, c) \<in> all_triples m \<and> list_at (all_triples m) v c ps))
   \<and> (\<forall>c ps. (c, ps) \<in> set (keys ax) \<longrightarrow> ps \<noteq> [] \<and>
        (\<exists>l. (c, owl_has_key v, l) \<in> all_triples m \<and> list_at (all_triples m) v l ps))
   \<and> (\<forall>c l cs. (c, l, cs) \<in> set (intersections ax) \<longrightarrow> cs \<noteq> [] \<and>
        (c, owl_intersection_of v, l) \<in> all_triples m \<and> list_at (all_triples m) v l cs)
   \<and> (\<forall>c cs. (c, cs) \<in> set (unions ax) \<longrightarrow> cs \<noteq> [] \<and>
        (\<exists>l. (c, owl_union_of v, l) \<in> all_triples m \<and> list_at (all_triples m) v l cs))
   \<and> (\<forall>cs \<in> set (all_disjoint_classes ax). 2 \<le> length cs \<and>
        (\<exists>a p l. (a, rdf_type v, owl_all_disjoint_classes v) \<in> all_triples m
          \<and> p \<in> {owl_members v, owl_distinct_members v} \<and> (a, p, l) \<in> all_triples m
          \<and> list_at (all_triples m) v l cs))
   \<and> (\<forall>ps \<in> set (all_disjoint_properties ax). 2 \<le> length ps \<and>
        (\<exists>a l. (a, rdf_type v, owl_all_disjoint_properties v) \<in> all_triples m
          \<and> (a, owl_members v, l) \<in> all_triples m \<and> list_at (all_triples m) v l ps))
   \<and> (\<forall>a p l xs. (a, p, l, xs) \<in> set (all_different ax) \<longrightarrow> 2 \<le> length xs
          \<and> (a, rdf_type v, owl_all_different v) \<in> all_triples m
          \<and> p \<in> {owl_members v, owl_distinct_members v} \<and> (a, p, l) \<in> all_triples m
          \<and> list_at (all_triples m) v l xs)"

lemma resolve_lists_mem:
  assumes "mirrored m" and "(s, l, xs) \<in> set (resolve_lists h m v p)"
  shows "xs \<noteq> [] \<and> (s, p, l) \<in> all_triples m \<and> list_at (all_triples m) v l xs"
  using assms walk_list_sound [OF assms(1)]
  by (auto simp: resolve_lists_def map_filter_mem split: option.splits if_splits)

lemma typed_subjects_set [simp]:
  "mirrored m \<Longrightarrow> set (typed_subjects h m v c) = {x. (x, rdf_type v, c) \<in> all_triples m}"
  by (force simp: typed_subjects_def probe_set none_or_def)

lemma or_else_Some: "or_else a b = Some x \<longleftrightarrow> a = Some x \<or> a = None \<and> b = Some x"
  by (auto simp: or_else_def split: option.splits)

lemma resolve_disjoint_classes_mem:
  assumes "mirrored m" and "cs \<in> set (resolve_disjoint_classes h m v)"
  shows "2 \<le> length cs \<and> (\<exists>a p l. (a, rdf_type v, owl_all_disjoint_classes v) \<in> all_triples m
      \<and> p \<in> {owl_members v, owl_distinct_members v} \<and> (a, p, l) \<in> all_triples m
      \<and> list_at (all_triples m) v l cs)"
proof -
  from assms obtain a l where a: "(a, rdf_type v, owl_all_disjoint_classes v) \<in> all_triples m"
    "or_else (first_object h m a (owl_members v)) (first_object h m a (owl_distinct_members v)) = Some l"
    "walk_list h m v l = Some cs" "2 \<le> length cs"
    by (auto simp: resolve_disjoint_classes_def map_filter_mem split: option.splits if_splits)
  then obtain p where "p \<in> {owl_members v, owl_distinct_members v}" "first_object h m a p = Some l"
    by (auto simp: or_else_Some)
  with a walk_list_sound [OF assms(1) a(3)] first_object_mem [OF assms(1)] show ?thesis by blast
qed

lemma resolve_disjoint_properties_mem:
  assumes "mirrored m" and "ps \<in> set (resolve_disjoint_properties h m v)"
  shows "2 \<le> length ps \<and> (\<exists>a l. (a, rdf_type v, owl_all_disjoint_properties v) \<in> all_triples m
      \<and> (a, owl_members v, l) \<in> all_triples m \<and> list_at (all_triples m) v l ps)"
proof -
  from assms obtain a l where "(a, rdf_type v, owl_all_disjoint_properties v) \<in> all_triples m"
    "first_object h m a (owl_members v) = Some l" "walk_list h m v l = Some ps" "2 \<le> length ps"
    by (auto simp: resolve_disjoint_properties_def map_filter_mem split: option.splits if_splits)
  then show ?thesis using first_object_mem [OF assms(1)] walk_list_sound [OF assms(1)] by blast
qed

lemma resolve_all_different_mem:
  assumes "mirrored m" and "(a, p, l, xs) \<in> set (resolve_all_different h m v)"
  shows "2 \<le> length xs \<and> (a, rdf_type v, owl_all_different v) \<in> all_triples m
      \<and> p \<in> {owl_members v, owl_distinct_members v} \<and> (a, p, l) \<in> all_triples m
      \<and> list_at (all_triples m) v l xs"
proof -
  from assms have "(a, rdf_type v, owl_all_different v) \<in> all_triples m"
    "or_else (map_option (Pair (owl_distinct_members v)) (first_object h m a (owl_distinct_members v)))
       (map_option (Pair (owl_members v)) (first_object h m a (owl_members v))) = Some (p, l)"
    "walk_list h m v l = Some xs" "2 \<le> length xs"
    by (auto simp: resolve_all_different_def map_filter_mem split: option.splits if_splits)
  then show ?thesis
    using first_object_mem [OF assms(1)] walk_list_sound [OF assms(1)] unfolding or_else_Some by auto
qed

lemma resolve_from:
  assumes "mirrored m" shows "axioms_from m v (resolve h m v)"
proof -
  have "x \<in> set (map (\<lambda>(s, head, xs). (s, xs)) (resolve_lists h m v p)) \<Longrightarrow>
      \<exists>l. (fst x, l, snd x) \<in> set (resolve_lists h m v p)" for x p by auto
  note l = this
  show ?thesis
    unfolding axioms_from_def resolve_def schema_axioms.simps
    using resolve_lists_mem [OF assms] l resolve_disjoint_classes_mem [OF assms]
      resolve_disjoint_properties_mem [OF assms] resolve_all_different_mem [OF assms]
    by (intro conjI) (fastforce+)
qed

section \<open>Properties\<close>

text \<open>C34: Walking an \<^verbatim>\<open>rdf:List\<close> always ends, on a cyclic chain too; what it returns is a list of the
  store headed by the given cell, and where every cell has at most one first and one rest it finds
  the list exactly when there is one.\<close>

theorem walk_list_exact:
  assumes "ms_inv m"
  shows "(\<forall>xs. walk_list h m v c = Some xs \<longrightarrow> list_at (all_triples m) v c xs)
    \<and> (functional_lists (all_triples m) v \<longrightarrow>
        (\<forall>xs. walk_list h m v c = Some xs \<longleftrightarrow> list_at (all_triples m) v c xs))"
proof -
  have m: "mirrored m" using assms by (simp add: ms_inv_def)
  show ?thesis
    using walk_list_sound [OF m] walk_loop_complete [OF m, of v c _ "{}" h "[]"]
    by (auto simp: walk_list_def)
qed

definition list_store :: mem_store where
  "list_store = assert_all [(100, rdf_first (synthetic 0), 7), (100, rdf_rest (synthetic 0), rdf_nil (synthetic 0))]
     (ms_new (synthetic 0))"

lemma list_store_facts:
  "ms_inv list_store"
  "all_triples list_store = {(100, 1, 7), (100, 2, 3)}"
  using assert_all_spec [OF ms_inv_new(1)] by (auto simp: list_store_def synthetic_def)

lemma walk_list_exact_witness:
  "ms_inv list_store \<and> walk_list asc list_store (synthetic 0) 100 = Some [7]"
proof -
  let ?T = "all_triples list_store" and ?v = "synthetic 0"
  have "functional_lists ?T ?v"
    by (auto simp: functional_lists_def list_store_facts synthetic_def)
  moreover have "list_at ?T ?v 100 [7]"
    by (rule list_at.cell [of _ _ _ _ 3]; simp add: list_store_facts synthetic_def)
      (use list_at.nil [of ?T ?v] in \<open>simp add: list_store_facts synthetic_def\<close>)
  ultimately show ?thesis
    using walk_list_exact [OF list_store_facts(1), of asc ?v 100] list_store_facts(1) by blast
qed

text \<open>Resolution records only axioms the store declares, each with the list its declaring triple
  points to: non-empty for chains, keys, intersections and unions, of two members or more for
  disjointness and difference.\<close>

theorem resolve_sound:
  assumes "ms_inv m" shows "axioms_from m v (resolve h m v)"
  using assms resolve_from by (simp add: ms_inv_def)

lemma resolve_sound_witness: "ms_inv list_store \<and> axioms_from list_store (synthetic 0) (resolve asc list_store (synthetic 0))"
  using resolve_sound [OF list_store_facts(1)] list_store_facts(1) by blast

end
