(* ===== verification/List_Rules.thy ===== *)
theory List_Rules imports List_Axioms begin

text \<open>
  The firing half of \<^verbatim>\<open>crates/owlrl/src/list_rules.rs\<close>: one operation per list rule, as the nested
  loops of the code over the store's scans and probes, and \<^verbatim>\<open>fire_all\<close> with its dirty pruning. The
  parallel branch of the per-subject helper may return its results in any order: the schedule of the
  thread pool is an argument.
\<close>

section \<open>Parallel helpers\<close>

datatype parallel_strategy = Auto | Serial

typedef schedule = "{f :: nat \<Rightarrow> nat list. \<forall>n. set (f n) = {..<n} \<and> distinct (f n)}"
  morphisms order_of Schedule
  by (rule exI [of _ "\<lambda>n. [0..<n]"]) auto

lemma set_order_of [simp]: "set (order_of w n) = {..<n}"
  using order_of [of w] by simp

definition PAR_TYPE_THRESHOLD :: nat where
  "PAR_TYPE_THRESHOLD = 256"

definition par_order :: "schedule \<Rightarrow> 'a list \<Rightarrow> 'a list" where
  "par_order w xs = map (nth xs) (order_of w (length xs))"

definition map_subjects :: "schedule \<Rightarrow> 'a list \<Rightarrow> parallel_strategy \<Rightarrow> ('a \<Rightarrow> 'b option) \<Rightarrow> 'b list" where
  "map_subjects w xs parallel f =
     (if parallel = Auto \<and> PAR_TYPE_THRESHOLD \<le> length xs
      then List.map_filter f (par_order w xs) else List.map_filter f xs)"

definition extend_delta :: "(triple \<times> provenance) list \<Rightarrow> delta \<Rightarrow> delta" where
  "extend_delta produced out = fold (\<lambda>(t, prov). delta_insert t prov) produced out"

definition prov :: "string \<Rightarrow> triple list \<Rightarrow> provenance" where
  "prov r ps = \<lparr>prov_rule = r, prov_premises = ps\<rparr>"

text \<open>\<^verbatim>\<open>if !out.contains(&head) && !store.contains(&head) { out.insert(..) }\<close>\<close>

definition insert_unknown :: "mem_store \<Rightarrow> triple \<Rightarrow> provenance \<Rightarrow> delta \<Rightarrow> delta" where
  "insert_unknown m t pr out =
     (if \<not> delta_contains out t \<and> \<not> ms_contains m t then delta_insert t pr out else out)"

section \<open>The rules\<close>

subsection \<open>prp-spo2\<close>

definition emit_pair :: "string \<Rightarrow> u64 \<Rightarrow> u64 \<Rightarrow> u64 \<Rightarrow> triple list \<Rightarrow> delta \<Rightarrow> delta" where
  "emit_pair r s p ob ps out = (if \<not> delta_contains out (s, p, ob)
     then delta_insert (s, p, ob) (prov r ps) out else out)"

type_synonym path = "u64 \<times> u64 \<times> triple list"

definition spo2_step :: "orders \<Rightarrow> mem_store \<Rightarrow> u64 \<Rightarrow> path list \<Rightarrow> path list" where
  "spo2_step h m p frontier = concat (map (\<lambda>(u0, u_mid, prefix).
     map (\<lambda>(_, _, ob). (u0, ob, prefix @ [(u_mid, p, ob)])) (probe h m (Some u_mid) p None)) frontier)"

fun spo2_loop :: "orders \<Rightarrow> mem_store \<Rightarrow> u64 list \<Rightarrow> path list \<Rightarrow> path list" where
  "spo2_loop h m [] frontier = frontier"
| "spo2_loop h m (p # ps) frontier =
     (let nxt = spo2_step h m p frontier in if nxt = [] then [] else spo2_loop h m ps nxt)"

text \<open>The chain is not empty: resolution drops empty lists, and the code asserts it.\<close>

fun fire_prp_spo2 :: "orders \<Rightarrow> mem_store \<Rightarrow> u64 \<Rightarrow> u64 list \<Rightarrow> delta \<Rightarrow> delta" where
  "fire_prp_spo2 h m head_pred [] out = out"
| "fire_prp_spo2 h m head_pred (p # ps) out =
     (let frontier = map (\<lambda>(s, _, ob). (s, ob, [(s, p, ob)])) (scan_predicate h m p);
          emit = (\<lambda>(u0, un, path). emit_pair ''prp-spo2'' u0 head_pred un path)
      in if ps = [] then fold emit frontier out else fold emit (spo2_loop h m ps frontier) out)"

subsection \<open>prp-key\<close>

fun cart_loop :: "orders \<Rightarrow> mem_store \<Rightarrow> u64 \<Rightarrow> u64 list \<Rightarrow> u64 list list \<Rightarrow> u64 list list" where
  "cart_loop h m x [] acc = acc"
| "cart_loop h m x (p # ps) acc =
     (let values = map (\<lambda>(_, _, ob). ob) (probe h m (Some x) p None) in
      if values = [] then []
      else cart_loop h m x ps (concat (map (\<lambda>prefix. map (\<lambda>y. prefix @ [y]) values) acc)))"

definition cartesian_zs :: "orders \<Rightarrow> mem_store \<Rightarrow> u64 \<Rightarrow> u64 list \<Rightarrow> u64 list list" where
  "cartesian_zs h m x rest = (if rest = [] then [[]] else cart_loop h m x rest [[]])"

fun survivors_loop :: "mem_store \<Rightarrow> u64 list \<Rightarrow> u64 list \<Rightarrow> u64 list \<Rightarrow> u64 list" where
  "survivors_loop m (p # ps) (z # zs) ys =
     (let ys' = filter (\<lambda>y. ms_contains m (y, p, z)) ys in
      if ys' = [] then [] else survivors_loop m ps zs ys')"
| "survivors_loop m ps zs ys = ys"

type_synonym key_state = "u64 set \<times> (triple \<times> provenance) list"

definition key_emit :: "mem_store \<Rightarrow> vocabulary \<Rightarrow> u64 \<Rightarrow> u64 \<Rightarrow> u64 list \<Rightarrow> u64 \<Rightarrow> u64 \<Rightarrow> u64 list
    \<Rightarrow> u64 \<Rightarrow> key_state \<Rightarrow> key_state" where
  "key_emit m v c p ps x z0 x_choice y st = (case st of (seen, produced) \<Rightarrow>
     if y \<notin> seen \<and> \<not> ms_contains m (x, owl_same_as v, y)
     then (insert y seen, produced @ [((x, owl_same_as v, y), prov ''prp-key''
        ([(x, rdf_type v, c), (y, rdf_type v, c), (x, p, z0), (y, p, z0)]
          @ concat (map (\<lambda>(q, z). [(x, q, z), (y, q, z)]) (zip ps x_choice))))])
     else (insert y seen, produced))"

definition key_value :: "orders \<Rightarrow> mem_store \<Rightarrow> vocabulary \<Rightarrow> u64 \<Rightarrow> u64 \<Rightarrow> u64 list \<Rightarrow> u64 \<Rightarrow> triple
    \<Rightarrow> key_state \<Rightarrow> key_state" where
  "key_value h m v c p ps x first_t st = (case first_t of (_, _, z0) \<Rightarrow>
     let candidates = filter (\<lambda>y. y \<noteq> x \<and> ms_contains m (y, rdf_type v, c))
           (map fst (probe h m None p (Some z0)))
     in if candidates = [] then st
        else let x_zs = cartesian_zs h m x ps in
          if x_zs = [] then st
          else fold (\<lambda>x_choice. fold (key_emit m v c p ps x z0 x_choice)
                 (survivors_loop m ps x_choice candidates)) x_zs st)"

definition emit_for_x :: "orders \<Rightarrow> mem_store \<Rightarrow> vocabulary \<Rightarrow> u64 \<Rightarrow> u64 \<Rightarrow> u64 list \<Rightarrow> u64
    \<Rightarrow> (triple \<times> provenance) list" where
  "emit_for_x h m v c p ps x =
     snd (fold (key_value h m v c p ps x) (probe h m (Some x) p None) ({}, []))"

text \<open>The key list is not empty, as for chains.\<close>

fun fire_prp_key :: "orders \<Rightarrow> schedule \<Rightarrow> mem_store \<Rightarrow> vocabulary \<Rightarrow> u64 \<Rightarrow> u64 list \<Rightarrow> parallel_strategy
    \<Rightarrow> delta \<Rightarrow> delta" where
  "fire_prp_key h w m v c [] parallel out = out"
| "fire_prp_key h w m v c (p # ps) parallel out =
     (let xs = typed_subjects h m v c in
      if length xs < 2 then out
      else extend_delta
        (if parallel = Auto \<and> PAR_TYPE_THRESHOLD \<le> length xs
         then concat (map (emit_for_x h m v c p ps) (par_order w xs))
         else concat (map (emit_for_x h m v c p ps) xs)) out)"

subsection \<open>cls-int1, scm-int and cls-uni\<close>

definition int1_emit :: "mem_store \<Rightarrow> vocabulary \<Rightarrow> u64 \<Rightarrow> u64 list \<Rightarrow> u64 \<Rightarrow> (triple \<times> provenance) option" where
  "int1_emit m v c cs x =
     (if \<not> list_all (\<lambda>ci. ms_contains m (x, rdf_type v, ci)) (tl cs) then None
      else if ms_contains m (x, rdf_type v, c) then None
      else Some ((x, rdf_type v, c), prov ''cls-int1''
        ((x, rdf_type v, hd cs) # map (\<lambda>ci. (x, rdf_type v, ci)) (tl cs))))"

definition fire_cls_int1 :: "orders \<Rightarrow> schedule \<Rightarrow> mem_store \<Rightarrow> vocabulary \<Rightarrow> u64 \<Rightarrow> u64 list
    \<Rightarrow> parallel_strategy \<Rightarrow> delta \<Rightarrow> delta" where
  "fire_cls_int1 h w m v c cs parallel out =
     extend_delta (map_subjects w (typed_subjects h m v (hd cs)) parallel (int1_emit m v c cs)) out"

definition fire_scm_int :: "mem_store \<Rightarrow> vocabulary \<Rightarrow> u64 \<Rightarrow> u64 \<Rightarrow> u64 list \<Rightarrow> delta \<Rightarrow> delta" where
  "fire_scm_int m v c listhead cs out =
     fold (\<lambda>ci. insert_unknown m (c, rdfs_sub_class_of v, ci)
       (prov ''scm-int'' [(c, owl_intersection_of v, listhead)])) cs out"

definition uni_collect :: "orders \<Rightarrow> mem_store \<Rightarrow> vocabulary \<Rightarrow> u64 list \<Rightarrow> (u64 \<times> u64) list" where
  "uni_collect h m v cs = snd (fold (\<lambda>ci st. fold (\<lambda>x (seen, subjects).
       if x \<notin> seen then (insert x seen, subjects @ [(x, ci)]) else (seen, subjects))
     (typed_subjects h m v ci) st) cs ({}, []))"

definition uni_emit :: "mem_store \<Rightarrow> vocabulary \<Rightarrow> u64 \<Rightarrow> u64 \<times> u64 \<Rightarrow> (triple \<times> provenance) option" where
  "uni_emit m v c xc = (case xc of (x, ci) \<Rightarrow>
     if ms_contains m (x, rdf_type v, c) then None
     else Some ((x, rdf_type v, c), prov ''cls-uni'' [(x, rdf_type v, ci)]))"

definition fire_cls_uni :: "orders \<Rightarrow> schedule \<Rightarrow> mem_store \<Rightarrow> vocabulary \<Rightarrow> u64 \<Rightarrow> u64 list
    \<Rightarrow> parallel_strategy \<Rightarrow> delta \<Rightarrow> delta" where
  "fire_cls_uni h w m v c cs parallel out =
     extend_delta (map_subjects w (uni_collect h m v cs) parallel (uni_emit m v c)) out"

subsection \<open>cax-adc and prp-adp\<close>

definition adc_emit :: "mem_store \<Rightarrow> vocabulary \<Rightarrow> u64 \<Rightarrow> u64 \<Rightarrow> u64 \<Rightarrow> (u64 \<times> triple \<times> provenance) option" where
  "adc_emit m v ci cj x =
     (if \<not> ms_contains m (x, rdf_type v, cj) then None
      else if ms_contains m (x, rdf_type v, owl_nothing v) then None
      else Some (x, (x, rdf_type v, owl_nothing v),
        prov ''cax-adc'' [(x, rdf_type v, ci), (x, rdf_type v, cj)]))"

definition adc_hit :: "u64 \<times> triple \<times> provenance \<Rightarrow> u64 set \<times> delta \<Rightarrow> u64 set \<times> delta" where
  "adc_hit hit st = (case hit of (x, t, pr) \<Rightarrow> case st of (seen, out) \<Rightarrow>
     if x \<notin> seen then (insert x seen, delta_insert t pr out) else (seen, out))"

text \<open>The outer loop over positions \<open>i\<close>, the inner one over the later positions \<open>j\<close>.\<close>

fun adc_loop :: "orders \<Rightarrow> schedule \<Rightarrow> mem_store \<Rightarrow> vocabulary \<Rightarrow> parallel_strategy \<Rightarrow> u64 list
    \<Rightarrow> u64 set \<times> delta \<Rightarrow> u64 set \<times> delta" where
  "adc_loop h w m v parallel [] st = st"
| "adc_loop h w m v parallel (ci # cs) st =
     (let xs_i = typed_subjects h m v ci in
      if xs_i = [] then adc_loop h w m v parallel cs st
      else adc_loop h w m v parallel cs
        (fold (\<lambda>cj. fold adc_hit (map_subjects w xs_i parallel (adc_emit m v ci cj))) cs st))"

definition fire_cax_adc :: "orders \<Rightarrow> schedule \<Rightarrow> mem_store \<Rightarrow> vocabulary \<Rightarrow> u64 list
    \<Rightarrow> parallel_strategy \<Rightarrow> delta \<Rightarrow> delta" where
  "fire_cax_adc h w m v cs parallel out = snd (adc_loop h w m v parallel cs ({}, out))"

fun fire_prp_adp :: "orders \<Rightarrow> mem_store \<Rightarrow> vocabulary \<Rightarrow> u64 list \<Rightarrow> delta \<Rightarrow> delta" where
  "fire_prp_adp h m v [] out = out"
| "fire_prp_adp h m v (pi # ps) out =
     (let pairs = map (\<lambda>(s, _, ob). (s, ob)) (scan_predicate h m pi) in
      if pairs = [] then fire_prp_adp h m v ps out
      else fire_prp_adp h m v ps (fold (\<lambda>pj. fold (\<lambda>(u, w).
          if ms_contains m (u, pj, w)
          then insert_unknown m (u, rdf_type v, owl_nothing v) (prov ''prp-adp'' [(u, pi, w), (u, pj, w)])
          else id) pairs) ps out))"

subsection \<open>Cardinality\<close>

definition fire_cls_maxc1 :: "orders \<Rightarrow> mem_store \<Rightarrow> vocabulary \<Rightarrow> u64 \<Rightarrow> u64 \<Rightarrow> delta \<Rightarrow> delta" where
  "fire_cls_maxc1 h m v c p out = fold (\<lambda>u.
     case probe h m (Some u) p None of
       [] \<Rightarrow> id
     | (_, _, y) # _ \<Rightarrow> insert_unknown m (u, rdf_type v, owl_nothing v)
         (prov ''cls-maxc1'' [(u, rdf_type v, c), (u, p, y)]))
     (typed_subjects h m v c) out"

text \<open>The loop over the ordered pairs of distinct values, shared by the two maximum-one rules.\<close>

fun same_pairs :: "mem_store \<Rightarrow> vocabulary \<Rightarrow> string \<Rightarrow> u64 \<Rightarrow> u64 \<Rightarrow> u64 \<Rightarrow> u64 list \<Rightarrow> delta \<Rightarrow> delta" where
  "same_pairs m v r c p u [] out = out"
| "same_pairs m v r c p u (y1 # ys) out = same_pairs m v r c p u ys (fold (\<lambda>y2.
     if y1 = y2 then id
     else fold (\<lambda>(a, b). insert_unknown m (a, owl_same_as v, b)
         (prov r [(u, rdf_type v, c), (u, p, y1), (u, p, y2)])) [(y1, y2), (y2, y1)]) ys out)"

definition fire_cls_maxc2 :: "orders \<Rightarrow> mem_store \<Rightarrow> vocabulary \<Rightarrow> u64 \<Rightarrow> u64 \<Rightarrow> delta \<Rightarrow> delta" where
  "fire_cls_maxc2 h m v c p out = fold (\<lambda>u.
     let ys = map (\<lambda>(_, _, ob). ob) (probe h m (Some u) p None) in
     if length ys < 2 then id else same_pairs m v ''cls-maxc2'' c p u ys)
     (typed_subjects h m v c) out"

definition qualifies :: "orders \<Rightarrow> mem_store \<Rightarrow> vocabulary \<Rightarrow> u64 \<Rightarrow> u64 \<Rightarrow> bool" where
  "qualifies h m v y filler =
     (if filler = owl_thing v then True else probe h m (Some y) (rdf_type v) (Some filler) \<noteq> [])"

definition fire_cls_maxqc_zero :: "orders \<Rightarrow> mem_store \<Rightarrow> vocabulary \<Rightarrow> qual_max_card_restriction \<Rightarrow> delta \<Rightarrow> delta" where
  "fire_cls_maxqc_zero h m v r out =
     (let rid = (if qmc_filler r = owl_thing v then ''cls-maxqc2'' else ''cls-maxqc1'') in
      fold (\<lambda>u. case List.find (\<lambda>(_, _, y). qualifies h m v y (qmc_filler r))
                      (probe h m (Some u) (qmc_property r) None) of
          None \<Rightarrow> id
        | Some (_, _, y) \<Rightarrow> insert_unknown m (u, rdf_type v, owl_nothing v)
            (prov rid [(u, rdf_type v, qmc_class r), (u, qmc_property r, y)]))
      (typed_subjects h m v (qmc_class r)) out)"

definition fire_cls_maxqc_one :: "orders \<Rightarrow> mem_store \<Rightarrow> vocabulary \<Rightarrow> qual_max_card_restriction \<Rightarrow> delta \<Rightarrow> delta" where
  "fire_cls_maxqc_one h m v r out =
     (let rid = (if qmc_filler r = owl_thing v then ''cls-maxqc4'' else ''cls-maxqc3'') in
      fold (\<lambda>u. let ys = filter (\<lambda>y. qualifies h m v y (qmc_filler r))
                    (map (\<lambda>(_, _, ob). ob) (probe h m (Some u) (qmc_property r) None)) in
          if length ys < 2 then id else same_pairs m v rid (qmc_class r) (qmc_property r) u ys)
      (typed_subjects h m v (qmc_class r)) out)"

subsection \<open>eq-diff\<close>

definition fire_eq_diff_list :: "vocabulary \<Rightarrow> u64 \<Rightarrow> u64 \<Rightarrow> u64 \<Rightarrow> u64 list \<Rightarrow> delta \<Rightarrow> delta" where
  "fire_eq_diff_list v ad members_pred listhead xs out =
     fold (\<lambda>i. fold (\<lambda>j.
       if i = j then id
       else (\<lambda>out. if \<not> delta_contains out (xs ! i, owl_different_from v, xs ! j)
          then delta_insert (xs ! i, owl_different_from v, xs ! j)
            (prov ''eq-diff2'' [(ad, members_pred, listhead)]) out else out))
       [0..<length xs]) [0..<length xs] out"

subsection \<open>All rules\<close>

definition fire_max_card :: "orders \<Rightarrow> mem_store \<Rightarrow> vocabulary \<Rightarrow> max_card_restriction \<Rightarrow> delta \<Rightarrow> delta" where
  "fire_max_card h m v r = (if mc_max r = 0 then fire_cls_maxc1 h m v (mc_class r) (mc_property r)
     else if mc_max r = 1 then fire_cls_maxc2 h m v (mc_class r) (mc_property r) else id)"

definition fire_qual_max_card :: "orders \<Rightarrow> mem_store \<Rightarrow> vocabulary \<Rightarrow> qual_max_card_restriction \<Rightarrow> delta \<Rightarrow> delta" where
  "fire_qual_max_card h m v r = (if qmc_max r = 0 then fire_cls_maxqc_zero h m v r
     else if qmc_max r = 1 then fire_cls_maxqc_one h m v r else id)"

definition guarded :: "bool \<Rightarrow> (delta \<Rightarrow> delta) \<Rightarrow> delta \<Rightarrow> delta" where
  "guarded c f out = (if c then f out else out)"

definition fire_all :: "orders \<Rightarrow> schedule \<Rightarrow> mem_store \<Rightarrow> schema_axioms \<Rightarrow> vocabulary \<Rightarrow> u64 set option
    \<Rightarrow> parallel_strategy \<Rightarrow> delta" where
  "fire_all h w m ax v dirty parallel =
     (if axioms_is_empty ax then delta_new else
      let out = delta_new;
          out = guarded (property_chains ax \<noteq> [] \<and> any_dirty_for_chains ax dirty)
            (fold (\<lambda>(p, chain). fire_prp_spo2 h m p chain) (property_chains ax)) out;
          out = guarded (keys ax \<noteq> [] \<and> any_dirty_for_keys ax v dirty)
            (fold (\<lambda>(c, ps). fire_prp_key h w m v c ps parallel) (keys ax)) out;
          out = guarded (intersections ax \<noteq> [] \<and> is_dirty dirty (rdf_type v))
            (fold (\<lambda>(c, l, cs). fire_cls_int1 h w m v c cs parallel) (intersections ax)) out;
          out = guarded (intersections ax \<noteq> [] \<and> dirty = None)
            (fold (\<lambda>(c, l, cs). fire_scm_int m v c l cs) (intersections ax)) out;
          out = guarded (unions ax \<noteq> [] \<and> is_dirty dirty (rdf_type v))
            (fold (\<lambda>(c, cs). fire_cls_uni h w m v c cs parallel) (unions ax)) out;
          out = guarded (all_disjoint_classes ax \<noteq> [] \<and> is_dirty dirty (rdf_type v))
            (fold (\<lambda>cs. fire_cax_adc h w m v cs parallel) (all_disjoint_classes ax)) out;
          out = guarded (all_disjoint_properties ax \<noteq> [] \<and> any_dirty_for_disjoint_properties ax dirty)
            (fold (fire_prp_adp h m v) (all_disjoint_properties ax)) out;
          out = guarded (all_different ax \<noteq> [] \<and> dirty = None)
            (fold (\<lambda>(ad, mp, l, xs). fire_eq_diff_list v ad mp l xs) (all_different ax)) out;
          out = (if max_card_restrictions ax \<noteq> [] \<and> is_dirty dirty (rdf_type v)
            then fold (fire_max_card h m v) (max_card_restrictions ax) out
            else if max_card_restrictions ax \<noteq> []
            then fold (\<lambda>r. guarded (is_dirty dirty (mc_property r)) (fire_max_card h m v r))
              (max_card_restrictions ax) out
            else out)
      in guarded (qual_max_card_restrictions ax \<noteq> [])
           (fold (\<lambda>r. guarded (is_dirty dirty (rdf_type v) \<or> is_dirty dirty (qmc_property r))
             (fire_qual_max_card h m v r)) (qual_max_card_restrictions ax)) out)"

end
