(* ===== verification/List_Rules_Spec.thy ===== *)
theory List_Rules_Spec imports List_Rules begin

text \<open>
  What the list rules conclude: for every rule a reference set of conclusions over the triples of
  the store, the exactness of the rule's loops against it, the groundedness of the proofs they
  record, and the losslessness of the dirty pruning.
\<close>

section \<open>Reference conclusions\<close>

definition typed :: "triple set \<Rightarrow> vocabulary \<Rightarrow> u64 \<Rightarrow> u64 set" where
  "typed T v c = {x. (x, rdf_type v, c) \<in> T}"

fun chain_rel :: "triple set \<Rightarrow> u64 list \<Rightarrow> pair set" where
  "chain_rel T [] = Id"
| "chain_rel T (p # ps) = {(s, ob). (s, p, ob) \<in> T} O chain_rel T ps"

definition spo2_heads :: "triple set \<Rightarrow> u64 \<Rightarrow> u64 list \<Rightarrow> triple set" where
  "spo2_heads T p chain = {(s, p, ob) | s ob. (s, ob) \<in> chain_rel T chain}"

definition key_heads :: "triple set \<Rightarrow> vocabulary \<Rightarrow> u64 \<Rightarrow> u64 list \<Rightarrow> triple set" where
  "key_heads T v c ps = {(x, owl_same_as v, y) | x y. x \<noteq> y \<and> x \<in> typed T v c \<and> y \<in> typed T v c
     \<and> (\<forall>p\<in>set ps. \<exists>z. (x, p, z) \<in> T \<and> (y, p, z) \<in> T)}"

definition int1_heads :: "triple set \<Rightarrow> vocabulary \<Rightarrow> u64 \<Rightarrow> u64 list \<Rightarrow> triple set" where
  "int1_heads T v c cs = {(x, rdf_type v, c) | x. \<forall>ci\<in>set cs. x \<in> typed T v ci}"

definition scm_int_heads :: "vocabulary \<Rightarrow> u64 \<Rightarrow> u64 list \<Rightarrow> triple set" where
  "scm_int_heads v c cs = {(c, rdfs_sub_class_of v, ci) | ci. ci \<in> set cs}"

definition uni_heads :: "triple set \<Rightarrow> vocabulary \<Rightarrow> u64 \<Rightarrow> u64 list \<Rightarrow> triple set" where
  "uni_heads T v c cs = {(x, rdf_type v, c) | x. \<exists>ci\<in>set cs. x \<in> typed T v ci}"

text \<open>Two positions of a list, the first before the second.\<close>

definition some_pair :: "('a \<Rightarrow> 'a \<Rightarrow> bool) \<Rightarrow> 'a list \<Rightarrow> bool" where
  "some_pair P xs \<longleftrightarrow> (\<exists>i j. i < j \<and> j < length xs \<and> P (xs ! i) (xs ! j))"

definition adc_heads :: "triple set \<Rightarrow> vocabulary \<Rightarrow> u64 list \<Rightarrow> triple set" where
  "adc_heads T v cs = {(x, rdf_type v, owl_nothing v) | x.
     some_pair (\<lambda>ci cj. x \<in> typed T v ci \<and> x \<in> typed T v cj) cs}"

definition adp_heads :: "triple set \<Rightarrow> vocabulary \<Rightarrow> u64 list \<Rightarrow> triple set" where
  "adp_heads T v ps = {(u, rdf_type v, owl_nothing v) | u.
     some_pair (\<lambda>pi pj. \<exists>w. (u, pi, w) \<in> T \<and> (u, pj, w) \<in> T) ps}"

definition diff_heads :: "vocabulary \<Rightarrow> u64 list \<Rightarrow> triple set" where
  "diff_heads v xs = {(xs ! i, owl_different_from v, xs ! j) | i j. i \<noteq> j \<and> i < length xs \<and> j < length xs}"

text \<open>Maximum cardinality zero and one over the values that qualify.\<close>

definition max_zero_heads :: "triple set \<Rightarrow> vocabulary \<Rightarrow> u64 \<Rightarrow> u64 \<Rightarrow> (u64 \<Rightarrow> bool) \<Rightarrow> triple set" where
  "max_zero_heads T v c p Q = {(u, rdf_type v, owl_nothing v) | u.
     u \<in> typed T v c \<and> (\<exists>y. (u, p, y) \<in> T \<and> Q y)}"

definition max_one_heads :: "triple set \<Rightarrow> vocabulary \<Rightarrow> u64 \<Rightarrow> u64 \<Rightarrow> (u64 \<Rightarrow> bool) \<Rightarrow> triple set" where
  "max_one_heads T v c p Q = {(y1, owl_same_as v, y2) | u y1 y2.
     u \<in> typed T v c \<and> (u, p, y1) \<in> T \<and> Q y1 \<and> (u, p, y2) \<in> T \<and> Q y2 \<and> y1 \<noteq> y2}"

definition qualifying :: "triple set \<Rightarrow> vocabulary \<Rightarrow> u64 \<Rightarrow> u64 \<Rightarrow> bool" where
  "qualifying T v filler y \<longleftrightarrow> filler = owl_thing v \<or> y \<in> typed T v filler"

definition max_card_heads :: "triple set \<Rightarrow> vocabulary \<Rightarrow> max_card_restriction \<Rightarrow> triple set" where
  "max_card_heads T v r =
     (if mc_max r = 0 then max_zero_heads T v (mc_class r) (mc_property r) (\<lambda>_. True)
      else if mc_max r = 1 then max_one_heads T v (mc_class r) (mc_property r) (\<lambda>_. True) else {})"

definition qual_max_card_heads :: "triple set \<Rightarrow> vocabulary \<Rightarrow> qual_max_card_restriction \<Rightarrow> triple set" where
  "qual_max_card_heads T v r =
     (if qmc_max r = 0 then max_zero_heads T v (qmc_class r) (qmc_property r) (qualifying T v (qmc_filler r))
      else if qmc_max r = 1 then max_one_heads T v (qmc_class r) (qmc_property r) (qualifying T v (qmc_filler r))
      else {})"

lemma mem_if_empty: "t \<in> (if c then A else {}) \<longleftrightarrow> c \<and> t \<in> A" "t \<in> (if c then {} else A) \<longleftrightarrow> \<not> c \<and> t \<in> A"
  by simp_all

section \<open>Steps that add conclusions\<close>

text \<open>
  \<open>fires m H f\<close>: the step \<open>f\<close> adds exactly the conclusions \<open>H\<close> to a delta, keeps a proof for each
  of its triples, and every proof it records is grounded in the store.
\<close>

definition grounded :: "mem_store \<Rightarrow> provenance \<Rightarrow> bool" where
  "grounded m pr \<longleftrightarrow> set (prov_premises pr) \<subseteq> all_triples m"

definition fires :: "mem_store \<Rightarrow> triple set \<Rightarrow> (delta \<Rightarrow> delta) \<Rightarrow> bool" where
  "fires m H f \<longleftrightarrow> (\<forall>d. d_triples (f d) = d_triples d \<union> H \<and> (delta_ok d \<longrightarrow> delta_ok (f d))
     \<and> (\<forall>t pr. d_proofs (f d) t = Some pr \<longrightarrow> d_proofs d t = Some pr \<or> t \<in> H \<and> grounded m pr))"

lemma fires_cong: "fires m H f \<Longrightarrow> H = H' \<Longrightarrow> fires m H' f"
  by simp

lemma fires_id [simp]: "fires m {} id" "fires m {} (\<lambda>d. d)"
  by (simp_all add: fires_def)

lemma grounded_prov [simp]: "grounded m (prov r ps) \<longleftrightarrow> set ps \<subseteq> all_triples m"
  by (simp add: grounded_def prov_def)

lemma fires_insert: "grounded m pr \<Longrightarrow> fires m {t} (delta_insert t pr)"
  by (auto simp: fires_def delta_ok_def delta_insert_def)

lemma fires_unknown: "grounded m pr \<Longrightarrow> fires m ({t} - all_triples m) (insert_unknown m t pr)"
  by (auto simp: fires_def insert_unknown_def delta_ok_def delta_insert_def)

lemma fires_emit: "set ps \<subseteq> all_triples m \<Longrightarrow> fires m {(s, p, ob)} (emit_pair r s p ob ps)"
  by (auto simp: fires_def emit_pair_def delta_ok_def delta_insert_def)

lemma fires_comp: "fires m A f \<Longrightarrow> fires m B g \<Longrightarrow> fires m (A \<union> B) (\<lambda>d. g (f d))"
proof -
  assume f: "fires m A f" and g: "fires m B g"
  have "d_proofs d t = Some pr \<or> t \<in> A \<union> B \<and> grounded m pr"
    if "d_proofs (g (f d)) t = Some pr" for d t pr
    using that f g unfolding fires_def by (metis UnI1 UnI2)
  then show ?thesis using f g by (simp add: fires_def Un_assoc)
qed

lemma fires_fold:
  "(\<And>x. x \<in> set xs \<Longrightarrow> fires m (H x) (f x)) \<Longrightarrow> fires m (\<Union>x\<in>set xs. H x) (fold f xs)"
proof (induction xs)
  case (Cons x xs)
  have "fires m (H x \<union> (\<Union>x\<in>set xs. H x)) (\<lambda>d. fold f xs (f x d))"
    by (rule fires_comp) (use Cons in auto)
  then show ?case by (simp add: fires_def)
qed simp

lemma fires_guarded: "(c \<Longrightarrow> fires m H f) \<Longrightarrow> fires m (if c then H else {}) (guarded c f)"
  by (auto simp: fires_def guarded_def)

lemma fires_extend:
  assumes "\<And>t pr. (t, pr) \<in> set ps \<Longrightarrow> grounded m pr"
  shows "fires m (fst ` set ps) (extend_delta ps)"
proof -
  have "fires m (\<Union>x\<in>set ps. {fst x}) (fold (\<lambda>(t, pr). delta_insert t pr) ps)"
    by (rule fires_fold) (use assms fires_insert in fastforce)
  moreover have "extend_delta ps = fold (\<lambda>(t, pr). delta_insert t pr) ps"
    by (simp add: fun_eq_iff extend_delta_def)
  ultimately show ?thesis by (auto intro: fires_cong)
qed

lemma set_par_order [simp]: "set (par_order w xs) = set xs"
  by (auto simp: par_order_def in_set_conv_nth)

lemma map_subjects_mem: "y \<in> set (map_subjects w xs par f) \<longleftrightarrow> (\<exists>x\<in>set xs. f x = Some y)"
  by (simp add: map_subjects_def map_filter_mem)

lemma some_pair_Nil [simp]: "\<not> some_pair P []"
  by (simp add: some_pair_def)

lemma some_pair_Cons [simp]: "some_pair P (x # xs) \<longleftrightarrow> (\<exists>y\<in>set xs. P x y) \<or> some_pair P xs"
proof (rule iffI)
  assume "some_pair P (x # xs)"
  then obtain i j where ij: "i < j" "j < Suc (length xs)" "P ((x # xs) ! i) ((x # xs) ! j)"
    by (auto simp: some_pair_def)
  then obtain j' where j: "j = Suc j'" by (cases j) auto
  show "(\<exists>y\<in>set xs. P x y) \<or> some_pair P xs"
  proof (cases i)
    case 0
    then have "P x (xs ! j')" "xs ! j' \<in> set xs" using ij j by simp_all
    then show ?thesis by blast
  next
    case (Suc i')
    then have "i' < j' \<and> j' < length xs \<and> P (xs ! i') (xs ! j')" using ij j by simp
    then show ?thesis unfolding some_pair_def by blast
  qed
next
  assume "(\<exists>y\<in>set xs. P x y) \<or> some_pair P xs"
  then show "some_pair P (x # xs)"
  proof
    assume "\<exists>y\<in>set xs. P x y"
    then obtain j where "j < length xs" "P x (xs ! j)" by (auto simp: in_set_conv_nth)
    then have "0 < Suc j \<and> Suc j < length (x # xs) \<and> P ((x # xs) ! 0) ((x # xs) ! Suc j)" by simp
    then show ?thesis unfolding some_pair_def by blast
  next
    assume "some_pair P xs"
    then obtain i j where "i < j" "j < length xs" "P (xs ! i) (xs ! j)" by (auto simp: some_pair_def)
    then have "Suc i < Suc j \<and> Suc j < length (x # xs) \<and> P ((x # xs) ! Suc i) ((x # xs) ! Suc j)" by simp
    then show ?thesis unfolding some_pair_def by blast
  qed
qed

section \<open>The rules, one by one\<close>

subsection \<open>prp-spo2\<close>

text \<open>The frontier after some properties: the pairs their composition relates, each with a path of
  stored triples.\<close>

definition frontier_ok :: "mem_store \<Rightarrow> pair set \<Rightarrow> path list \<Rightarrow> bool" where
  "frontier_ok m R fr \<longleftrightarrow> (\<forall>a b. (a, b) \<in> R \<longleftrightarrow> (\<exists>ps. (a, b, ps) \<in> set fr))
     \<and> (\<forall>a b ps. (a, b, ps) \<in> set fr \<longrightarrow> set ps \<subseteq> all_triples m)"

lemma probe_subject_mem:
  "mirrored m \<Longrightarrow> (a, q, b) \<in> set (probe h m (Some s) p None) \<longleftrightarrow> q = p \<and> a = s \<and> (s, p, b) \<in> all_triples m"
  by (auto simp: probe_set none_or_def)

lemma spo2_step_mem:
  assumes "mirrored m"
  shows "(a, b, ps) \<in> set (spo2_step h m p fr) \<longleftrightarrow>
    (\<exists>c qs. (a, c, qs) \<in> set fr \<and> (c, p, b) \<in> all_triples m \<and> ps = qs @ [(c, p, b)])" (is "?L \<longleftrightarrow> ?R")
proof
  assume ?L
  then obtain x y where xy: "x \<in> set fr" "y \<in> set (probe h m (Some (fst (snd x))) p None)"
    "(a, b, ps) = (fst x, snd (snd y), snd (snd x) @ [(fst (snd x), p, snd (snd y))])"
    by (auto simp: spo2_step_def case_prod_beta)
  moreover have "(fst (snd x), p, snd (snd y)) \<in> all_triples m"
    using xy(2) probe_subject_mem [OF assms, of "fst y" "fst (snd y)" "snd (snd y)"] by simp
  moreover have "(fst x, fst (snd x), snd (snd x)) \<in> set fr" using xy(1) by simp
  ultimately show ?R by blast
next
  assume ?R
  then obtain c qs where c: "(a, c, qs) \<in> set fr" "(c, p, b) \<in> all_triples m" "ps = qs @ [(c, p, b)]" by blast
  have "(a, b, ps) \<in> (\<lambda>(_, _, ob). (a, ob, qs @ [(c, p, ob)])) ` set (probe h m (Some c) p None)"
    by (rule image_eqI [of _ _ "(c, p, b)"]) (use c probe_subject_mem [OF assms, of c p b] in simp_all)
  then show ?L unfolding spo2_step_def set_concat set_map image_image
    by (intro UN_I [OF c(1)]) (simp only: case_prod_conv set_map)
qed

lemma spo2_step_ok:
  assumes "mirrored m" and "frontier_ok m R fr"
  shows "frontier_ok m (R O {(s, ob). (s, p, ob) \<in> all_triples m}) (spo2_step h m p fr)"
proof -
  have R: "(a, b) \<in> R \<longleftrightarrow> (\<exists>ps. (a, b, ps) \<in> set fr)" for a b
    using assms(2) by (simp add: frontier_ok_def)
  have "set ps \<subseteq> all_triples m" if "(a, b, ps) \<in> set (spo2_step h m p fr)" for a b ps
  proof -
    from that obtain c qs where "(a, c, qs) \<in> set fr" "(c, p, b) \<in> all_triples m" "ps = qs @ [(c, p, b)]"
      unfolding spo2_step_mem [OF assms(1)] by blast
    moreover from this have "set qs \<subseteq> all_triples m" using assms(2) unfolding frontier_ok_def by blast
    ultimately show ?thesis by simp
  qed
  moreover have "(a, b) \<in> R O {(s, ob). (s, p, ob) \<in> all_triples m} \<longleftrightarrow>
      (\<exists>ps. (a, b, ps) \<in> set (spo2_step h m p fr))" for a b
    unfolding spo2_step_mem [OF assms(1)] relcomp_unfold mem_Collect_eq case_prod_conv R by blast
  ultimately show ?thesis unfolding frontier_ok_def by blast
qed

lemma spo2_loop_ok:
  "mirrored m \<Longrightarrow> frontier_ok m R fr \<Longrightarrow> frontier_ok m (R O chain_rel (all_triples m) ps) (spo2_loop h m ps fr)"
proof (induction ps arbitrary: R fr)
  case (Cons p ps)
  let ?E = "{(s, ob). (s, p, ob) \<in> all_triples m}"
  note step = spo2_step_ok [OF Cons.prems, of p h]
  show ?case
  proof (cases "spo2_step h m p fr = []")
    case True
    then have "R O ?E = {}" using step by (auto simp: frontier_ok_def)
    then have "R O (?E O chain_rel (all_triples m) ps) = {}" by (simp only: O_assoc [symmetric] relcomp_empty1)
    then show ?thesis using True by (simp add: frontier_ok_def)
  next
    case False
    then show ?thesis using Cons.IH [OF Cons.prems(1) step] by (simp add: O_assoc)
  qed
qed simp

lemma fires_prp_spo2:
  assumes m: "mirrored m" and "chain \<noteq> []"
  shows "fires m (spo2_heads (all_triples m) p chain) (fire_prp_spo2 h m p chain)"
proof -
  obtain q ps where chain: "chain = q # ps" using assms(2) by (cases chain) auto
  let ?fr = "map (\<lambda>(s, _, ob). (s, ob, [(s, q, ob)])) (scan_predicate h m q)"
  let ?emit = "\<lambda>(u0, un, path). emit_pair ''prp-spo2'' u0 p un path"
  have mem: "(a, b, ps) \<in> set ?fr \<longleftrightarrow> (a, q, b) \<in> all_triples m \<and> ps = [(a, q, b)]" for a b ps
  proof
    assume "(a, q, b) \<in> all_triples m \<and> ps = [(a, q, b)]"
    then show "(a, b, ps) \<in> set ?fr"
      unfolding set_map by (intro image_eqI [of _ _ "(a, q, b)"]) simp_all
  next
    assume "(a, b, ps) \<in> set ?fr"
    then obtain t where t: "t \<in> set (scan_predicate h m q)"
        "(a, b, ps) = (\<lambda>(s, _, ob). (s, ob, [(s, q, ob)])) t" unfolding set_map by (rule imageE)
    obtain x y z where "t = (x, y, z)" by (rule prod_cases3)
    with t show "(a, q, b) \<in> all_triples m \<and> ps = [(a, q, b)]" by simp
  qed
  have "frontier_ok m {(s, ob). (s, q, ob) \<in> all_triples m} ?fr"
    unfolding frontier_ok_def mem by simp
  note fr = spo2_loop_ok [OF m this, of ps h]
  have emit: "fires m {(s, p, ob) | s ob. (s, ob) \<in> R} (fold ?emit fr)" if fo: "frontier_ok m R fr" for R fr
  proof (rule fires_cong)
    show "fires m (\<Union>x\<in>set fr. {(fst x, p, fst (snd x))}) (fold ?emit fr)"
    proof (rule fires_fold)
      fix x assume x: "x \<in> set fr"
      obtain a b qs where abq: "x = (a, b, qs)" by (rule prod_cases3)
      have "set qs \<subseteq> all_triples m" using fo x abq unfolding frontier_ok_def by blast
      then show "fires m {(fst x, p, fst (snd x))} (?emit x)" by (simp add: abq fires_emit)
    qed
    have R: "(a, b) \<in> R \<longleftrightarrow> (\<exists>ps. (a, b, ps) \<in> set fr)" for a b
      using fo by (simp add: frontier_ok_def)
    show "(\<Union>x\<in>set fr. {(fst x, p, fst (snd x))}) = {(s, p, ob) | s ob. (s, ob) \<in> R}"
      unfolding R by force
  qed
  have "fire_prp_spo2 h m p chain = fold ?emit (spo2_loop h m ps ?fr)"
    by (cases "ps = []") (simp_all add: chain fun_eq_iff Let_def)
  then show ?thesis using emit [OF fr] by (simp add: spo2_heads_def chain)
qed

subsection \<open>prp-key\<close>

lemma cart_loop_set:
  assumes "mirrored m"
  shows "set (cart_loop h m x ps acc)
    = {zs @ ys | zs ys. zs \<in> set acc \<and> list_all2 (\<lambda>p z. (x, p, z) \<in> all_triples m) ps ys}"
proof (induction ps arbitrary: acc)
  case Nil then show ?case by simp
next
  case (Cons p ps)
  define vals where "vals = map (\<lambda>(_, _, ob). ob) (probe h m (Some x) p None)"
  have v: "set vals = {y. (x, p, y) \<in> all_triples m}"
    by (force simp: vals_def probe_set [OF assms] none_or_def)
  show ?case
  proof (cases "vals = []")
    case True
    then show ?thesis using v by (auto simp: vals_def [symmetric] list_all2_Cons1)
  next
    case False
    have "set (cart_loop h m x (p # ps) acc) = {zs @ ys | zs ys.
        zs \<in> set (concat (map (\<lambda>prefix. map (\<lambda>y. prefix @ [y]) vals) acc))
        \<and> list_all2 (\<lambda>p z. (x, p, z) \<in> all_triples m) ps ys}"
      using Cons.IH False by (simp add: vals_def [symmetric])
    also have "\<dots> = {zs @ ys | zs ys. zs \<in> set acc \<and> list_all2 (\<lambda>p z. (x, p, z) \<in> all_triples m) (p # ps) ys}"
    proof (intro set_eqI iffI)
      fix xs assume "xs \<in> {zs @ ys | zs ys.
        zs \<in> set (concat (map (\<lambda>prefix. map (\<lambda>y. prefix @ [y]) vals) acc))
        \<and> list_all2 (\<lambda>p z. (x, p, z) \<in> all_triples m) ps ys}"
      then obtain zs y ys where "xs = zs @ y # ys" "zs \<in> set acc" "y \<in> set vals"
        "list_all2 (\<lambda>p z. (x, p, z) \<in> all_triples m) ps ys" by auto
      then show "xs \<in> {zs @ ys | zs ys. zs \<in> set acc \<and> list_all2 (\<lambda>p z. (x, p, z) \<in> all_triples m) (p # ps) ys}"
        using v by (intro CollectI exI [of _ zs] exI [of _ "y # ys"]) simp
    next
      fix xs assume "xs \<in> {zs @ ys | zs ys. zs \<in> set acc \<and> list_all2 (\<lambda>p z. (x, p, z) \<in> all_triples m) (p # ps) ys}"
      then obtain zs y ys where "xs = zs @ y # ys" "zs \<in> set acc" "(x, p, y) \<in> all_triples m"
        "list_all2 (\<lambda>p z. (x, p, z) \<in> all_triples m) ps ys" by (auto simp: list_all2_Cons1)
      then show "xs \<in> {zs @ ys | zs ys.
        zs \<in> set (concat (map (\<lambda>prefix. map (\<lambda>y. prefix @ [y]) vals) acc))
        \<and> list_all2 (\<lambda>p z. (x, p, z) \<in> all_triples m) ps ys}"
        using v by (intro CollectI exI [of _ "zs @ [y]"] exI [of _ ys]) auto
    qed
    finally show ?thesis .
  qed
qed

lemma cartesian_set:
  "mirrored m \<Longrightarrow> set (cartesian_zs h m x ps) = {zs. list_all2 (\<lambda>p z. (x, p, z) \<in> all_triples m) ps zs}"
  by (auto simp: cartesian_zs_def cart_loop_set)

lemma survivors_set:
  "length ps = length zs \<Longrightarrow>
   set (survivors_loop m ps zs ys) = {y \<in> set ys. list_all2 (\<lambda>p z. (y, p, z) \<in> all_triples m) ps zs}"
proof (induction m ps zs ys rule: survivors_loop.induct)
  case (1 m p ps z zs ys)
  show ?case
  proof (cases "filter (\<lambda>y. ms_contains m (y, p, z)) ys = []")
    case True
    then have "\<forall>y\<in>set ys. (y, p, z) \<notin> all_triples m" by (simp add: filter_empty_conv)
    then show ?thesis using True by auto
  next
    case False
    then show ?thesis using 1 by auto
  qed
qed auto

text \<open>The candidates of one subject: the seen set and the produced heads grow together.\<close>

definition key_inv :: "mem_store \<Rightarrow> vocabulary \<Rightarrow> u64 \<Rightarrow> u64 set \<Rightarrow> key_state \<Rightarrow> bool" where
  "key_inv m v x S st \<longleftrightarrow> fst st = S \<and> fst ` set (snd st) = {(x, owl_same_as v, y) | y. y \<in> S} - all_triples m
     \<and> (\<forall>(t, pr)\<in>set (snd st). grounded m pr)"

lemma key_emit_inv:
  assumes "key_inv m v x S st"
    and "{(x, rdf_type v, c), (y, rdf_type v, c), (x, p, z0), (y, p, z0)} \<subseteq> all_triples m"
    and "list_all2 (\<lambda>q z. (x, q, z) \<in> all_triples m) ps zs" and "list_all2 (\<lambda>q z. (y, q, z) \<in> all_triples m) ps zs"
  shows "key_inv m v x (insert y S) (key_emit m v c p ps x z0 zs y st)"
proof -
  obtain seen produced where st: "st = (seen, produced)" by (cases st)
  have "(x, q, z) \<in> all_triples m \<and> (y, q, z) \<in> all_triples m" if "(q, z) \<in> set (zip ps zs)" for q z
    using that assms(3,4) by (auto simp: list_all2_iff)
  then have "set (concat (map (\<lambda>(q, z). [(x, q, z), (y, q, z)]) (zip ps zs))) \<subseteq> all_triples m"
    by auto
  then show ?thesis
    using assms(1,2) by (auto simp: key_inv_def key_emit_def st)
qed

lemma key_emit_fold:
  assumes "key_inv m v x S st"
    and "\<And>y. y \<in> set ys \<Longrightarrow> {(x, rdf_type v, c), (y, rdf_type v, c), (x, p, z0), (y, p, z0)} \<subseteq> all_triples m
      \<and> list_all2 (\<lambda>q z. (y, q, z) \<in> all_triples m) ps zs"
    and "list_all2 (\<lambda>q z. (x, q, z) \<in> all_triples m) ps zs"
  shows "key_inv m v x (S \<union> set ys) (fold (key_emit m v c p ps x z0 zs) ys st)"
  using assms(1,2)
proof (induction ys arbitrary: S st)
  case (Cons y ys)
  have "key_inv m v x (insert y S) (key_emit m v c p ps x z0 zs y st)"
    using key_emit_inv [OF Cons.prems(1)] Cons.prems(2) [of y] assms(3) by simp
  from Cons.IH [OF this Cons.prems(2)] show ?case by simp
qed simp

text \<open>The subjects that agree with \<open>x\<close> on the value \<open>z\<close> of the first key property and on all others.\<close>

definition agreeing :: "triple set \<Rightarrow> vocabulary \<Rightarrow> u64 \<Rightarrow> u64 list \<Rightarrow> u64 \<Rightarrow> u64 set" where
  "agreeing T v c ps x = {y. y \<noteq> x \<and> y \<in> typed T v c \<and> (\<forall>p\<in>set ps. \<exists>z. (x, p, z) \<in> T \<and> (y, p, z) \<in> T)}"

lemma shared_values:
  "(\<exists>zs. list_all2 (\<lambda>q z. (x, q, z) \<in> T) ps zs \<and> list_all2 (\<lambda>q z. (y, q, z) \<in> T) ps zs)
     \<longleftrightarrow> (\<forall>p\<in>set ps. \<exists>z. (x, p, z) \<in> T \<and> (y, p, z) \<in> T)"
  by (induction ps) (auto simp: list_all2_Cons1)

lemma key_value_inv:
  assumes m: "mirrored m" and inv: "key_inv m v x S st" and x: "x \<in> typed (all_triples m) v c"
    and z: "(x, p, z0) \<in> all_triples m"
  shows "key_inv m v x (S \<union> {y \<in> agreeing (all_triples m) v c ps x. (y, p, z0) \<in> all_triples m})
    (key_value h m v c p ps x (a, b, z0) st)"
proof -
  let ?T = "all_triples m"
  define cands where "cands = filter (\<lambda>y. y \<noteq> x \<and> ms_contains m (y, rdf_type v, c))
    (map fst (probe h m None p (Some z0)))"
  have cands: "set cands = {y. y \<noteq> x \<and> y \<in> typed ?T v c \<and> (y, p, z0) \<in> ?T}"
    by (force simp: cands_def probe_set [OF m] none_or_def typed_def)
  define zss where "zss = cartesian_zs h m x ps"
  have zss: "set zss = {zs. list_all2 (\<lambda>q z. (x, q, z) \<in> ?T) ps zs}"
    by (simp add: zss_def cartesian_set [OF m])
  have fold: "key_inv m v x (S \<union> (\<Union>zs\<in>set zl. set (survivors_loop m ps zs cands)))
      (fold (\<lambda>zs. fold (key_emit m v c p ps x z0 zs) (survivors_loop m ps zs cands)) zl st)"
    if "set zl \<subseteq> set zss" and "key_inv m v x S st" for zl S st
    using that
  proof (induction zl arbitrary: S st)
    case (Cons zs zl)
    then have zs: "list_all2 (\<lambda>q z. (x, q, z) \<in> ?T) ps zs" using zss by auto
    then have "length ps = length zs" by (rule list_all2_lengthD)
    note surv = survivors_set [OF this, of m cands]
    have "key_inv m v x (S \<union> set (survivors_loop m ps zs cands))
        (fold (key_emit m v c p ps x z0 zs) (survivors_loop m ps zs cands) st)"
      by (rule key_emit_fold [OF Cons.prems(2) _ zs])
        (use x z in \<open>auto simp: surv cands typed_def\<close>)
    from Cons.IH [OF _ this] Cons.prems(1) show ?case by (simp add: Un_assoc)
  qed simp
  have all: "(\<Union>zs\<in>set zss. set (survivors_loop m ps zs cands)) = {y \<in> agreeing ?T v c ps x. (y, p, z0) \<in> ?T}"
  proof -
    have "y \<in> set (survivors_loop m ps zs cands) \<longleftrightarrow> y \<in> set cands \<and> list_all2 (\<lambda>q z. (y, q, z) \<in> ?T) ps zs"
      if "zs \<in> set zss" for y zs
      using that survivors_set [of ps zs m cands] zss list_all2_lengthD by auto
    then have "y \<in> (\<Union>zs\<in>set zss. set (survivors_loop m ps zs cands)) \<longleftrightarrow>
        y \<in> set cands \<and> (\<exists>zs. list_all2 (\<lambda>q z. (x, q, z) \<in> ?T) ps zs \<and> list_all2 (\<lambda>q z. (y, q, z) \<in> ?T) ps zs)" for y
      using zss by blast
    then show ?thesis unfolding shared_values by (auto simp: cands agreeing_def)
  qed
  have eq: "key_value h m v c p ps x (a, b, z0) st = (if cands = [] \<or> zss = [] then st
      else fold (\<lambda>zs. fold (key_emit m v c p ps x z0 zs) (survivors_loop m ps zs cands)) zss st)"
    unfolding key_value_def case_prod_conv Let_def cands_def [symmetric] zss_def [symmetric] by simp
  show ?thesis
  proof (cases "cands = [] \<or> zss = []")
    case True
    have "survivors_loop m ps zs [] = []" for zs
      by (induction m ps zs "[] :: u64 list" rule: survivors_loop.induct) auto
    then have none: "{y \<in> agreeing ?T v c ps x. (y, p, z0) \<in> ?T} = {}" using all True by auto
    show ?thesis unfolding eq none using True inv by simp
  next
    case False
    then show ?thesis using fold [OF subset_refl inv] all by (simp add: eq)
  qed
qed

lemma emit_for_x_spec:
  assumes m: "mirrored m" and x: "x \<in> typed (all_triples m) v c"
  shows "fst ` set (emit_for_x h m v c p ps x)
      = {(x, owl_same_as v, y) | y. y \<in> agreeing (all_triples m) v c (p # ps) x} - all_triples m
    \<and> (\<forall>(t, pr)\<in>set (emit_for_x h m v c p ps x). grounded m pr)"
proof -
  let ?T = "all_triples m"
  have fold: "key_inv m v x (S \<union> {y \<in> agreeing ?T v c ps x. \<exists>z\<in>(\<lambda>(_, _, z). z) ` set ts. (y, p, z) \<in> ?T})
      (fold (key_value h m v c p ps x) ts st)"
    if "\<And>a b z. (a, b, z) \<in> set ts \<Longrightarrow> (x, p, z) \<in> ?T" and "key_inv m v x S st" for ts S st
    using that
  proof (induction ts arbitrary: S st)
    case (Cons t ts)
    obtain a b z where t: "t = (a, b, z)" by (cases t)
    have "(x, p, z) \<in> ?T" using Cons.prems(1) t by auto
    note kv = key_value_inv [OF m Cons.prems(2) x this, of ps h a b]
    have "key_inv m v x ((S \<union> {y \<in> agreeing ?T v c ps x. (y, p, z) \<in> ?T})
       \<union> {y \<in> agreeing ?T v c ps x. \<exists>z\<in>(\<lambda>(_, _, z). z) ` set ts. (y, p, z) \<in> ?T})
      (fold (key_value h m v c p ps x) ts (key_value h m v c p ps x (a, b, z) st))"
      by (rule Cons.IH [OF _ kv]) (use Cons.prems(1) in auto)
    moreover have "(S \<union> {y \<in> agreeing ?T v c ps x. (y, p, z) \<in> ?T})
       \<union> {y \<in> agreeing ?T v c ps x. \<exists>z\<in>(\<lambda>(_, _, z). z) ` set ts. (y, p, z) \<in> ?T}
       = S \<union> {y \<in> agreeing ?T v c ps x. \<exists>z\<in>(\<lambda>(_, _, z). z) ` set (t # ts). (y, p, z) \<in> ?T}"
      by (auto simp: t)
    ultimately show ?case by (simp add: t)
  qed simp
  have z: "(\<lambda>(_, _, z). z) ` set (probe h m (Some x) p None) = {z. (x, p, z) \<in> ?T}"
    by (force simp: probe_set [OF m] none_or_def)
  have "key_inv m v x ({} \<union> {y \<in> agreeing ?T v c ps x. \<exists>z\<in>(\<lambda>(_, _, z). z) ` set (probe h m (Some x) p None). (y, p, z) \<in> ?T})
      (fold (key_value h m v c p ps x) (probe h m (Some x) p None) ({}, []))"
    by (rule fold) (auto simp: probe_set [OF m] none_or_def key_inv_def)
  moreover have "{y \<in> agreeing ?T v c ps x. \<exists>z\<in>{z. (x, p, z) \<in> ?T}. (y, p, z) \<in> ?T} = agreeing ?T v c (p # ps) x"
    by (auto simp: agreeing_def)
  ultimately have "key_inv m v x (agreeing ?T v c (p # ps) x)
      (fold (key_value h m v c p ps x) (probe h m (Some x) p None) ({}, []))"
    unfolding z by (simp only: Un_empty_left)
  then show ?thesis by (simp add: emit_for_x_def key_inv_def)
qed

lemma fires_prp_key:
  assumes m: "mirrored m" and "ps \<noteq> []"
  shows "fires m (key_heads (all_triples m) v c ps - all_triples m) (fire_prp_key h w m v c ps par)"
proof -
  let ?T = "all_triples m"
  obtain q qs where ps: "ps = q # qs" using assms(2) by (cases ps) auto
  let ?xs = "typed_subjects h m v c"
  have xs: "set ?xs = typed ?T v c" using m by (simp add: typed_def)
  have heads: "(\<Union>x\<in>typed ?T v c. {(x, owl_same_as v, y) | y. y \<in> agreeing ?T v c ps x}) = key_heads ?T v c ps"
    by (auto simp: key_heads_def agreeing_def)
  have fires: "fires m (key_heads ?T v c ps - ?T) (extend_delta (concat (map (emit_for_x h m v c q qs) l)))"
    if "set l = typed ?T v c" for l
  proof -
    have "fires m (fst ` set (concat (map (emit_for_x h m v c q qs) l)))
        (extend_delta (concat (map (emit_for_x h m v c q qs) l)))"
      by (rule fires_extend) (use emit_for_x_spec [OF m] that in fastforce)
    moreover have "fst ` set (concat (map (emit_for_x h m v c q qs) l))
        = (\<Union>x\<in>typed ?T v c. {(x, owl_same_as v, y) | y. y \<in> agreeing ?T v c ps x} - ?T)"
      using emit_for_x_spec [OF m, of _ v c h q qs] that by (simp add: image_UN ps)
    moreover have "(\<Union>x\<in>typed ?T v c. {(x, owl_same_as v, y) | y. y \<in> agreeing ?T v c ps x} - ?T)
        = key_heads ?T v c ps - ?T" unfolding heads [symmetric] by blast
    ultimately show ?thesis by simp
  qed
  show ?thesis
  proof (cases "length ?xs < 2")
    case True
    have "x = y" if "x \<in> typed ?T v c" "y \<in> typed ?T v c" for x y
      using that True unfolding xs [symmetric] by (cases ?xs; cases "tl ?xs") auto
    then have "key_heads ?T v c ps = {}" by (auto simp: key_heads_def)
    moreover have "fire_prp_key h w m v c ps par = id" using True by (simp add: ps fun_eq_iff Let_def)
    ultimately show ?thesis by simp
  next
    case False
    have "fire_prp_key h w m v c ps par = extend_delta (concat (map (emit_for_x h m v c q qs)
       (if par = Auto \<and> PAR_TYPE_THRESHOLD \<le> length ?xs then par_order w ?xs else ?xs)))"
      using False by (simp add: ps fun_eq_iff Let_def)
    then show ?thesis using fires [of "if par = Auto \<and> PAR_TYPE_THRESHOLD \<le> length ?xs then par_order w ?xs else ?xs"] xs
      by simp
  qed
qed

subsection \<open>cls-int1, scm-int and cls-uni\<close>

lemma fires_map_subjects:
  assumes "\<And>x t pr. x \<in> set xs \<Longrightarrow> f x = Some (t, pr) \<Longrightarrow> grounded m pr"
  shows "fires m {t. \<exists>x\<in>set xs. \<exists>pr. f x = Some (t, pr)} (extend_delta (map_subjects w xs par f))"
proof (rule fires_cong)
  show "fires m (fst ` set (map_subjects w xs par f)) (extend_delta (map_subjects w xs par f))"
    by (rule fires_extend) (use assms in \<open>auto simp: map_subjects_mem\<close>)
  show "fst ` set (map_subjects w xs par f) = {t. \<exists>x\<in>set xs. \<exists>pr. f x = Some (t, pr)}"
    by (force simp: map_subjects_mem)
qed

lemma typed_subjects_typed: "mirrored m \<Longrightarrow> set (typed_subjects h m v c) = typed (all_triples m) v c"
  by (simp add: typed_def)

lemma fires_cls_int1:
  assumes m: "mirrored m" and cs: "cs \<noteq> []"
  shows "fires m (int1_heads (all_triples m) v c cs - all_triples m) (fire_cls_int1 h w m v c cs par)"
proof -
  let ?xs = "typed_subjects h m v (hd cs)"
  have f: "fire_cls_int1 h w m v c cs par = extend_delta (map_subjects w ?xs par (int1_emit m v c cs))"
    by (simp add: fun_eq_iff fire_cls_int1_def)
  have cs': "set cs = insert (hd cs) (set (tl cs))" using cs by (cases cs) auto
  have emit: "int1_emit m v c cs x = Some (t, pr) \<longleftrightarrow> (\<forall>ci\<in>set (tl cs). x \<in> typed (all_triples m) v ci)
      \<and> (x, rdf_type v, c) \<notin> all_triples m \<and> t = (x, rdf_type v, c)
      \<and> pr = prov ''cls-int1'' ((x, rdf_type v, hd cs) # map (\<lambda>ci. (x, rdf_type v, ci)) (tl cs))" for x t pr
    by (auto simp: int1_emit_def list_all_iff typed_def)
  show ?thesis
    unfolding f
  proof (rule fires_cong [OF fires_map_subjects])
    fix x t pr assume "x \<in> set ?xs" and "int1_emit m v c cs x = Some (t, pr)"
    then show "grounded m pr" unfolding emit typed_subjects_typed [OF m] by (auto simp: typed_def)
  next
    show "{t. \<exists>x\<in>set ?xs. \<exists>pr. int1_emit m v c cs x = Some (t, pr)} = int1_heads (all_triples m) v c cs - all_triples m"
      unfolding emit typed_subjects_typed [OF m] int1_heads_def cs' by auto
  qed
qed

lemma fires_scm_int:
  assumes "(c, owl_intersection_of v, l) \<in> all_triples m"
  shows "fires m (scm_int_heads v c cs - all_triples m) (fire_scm_int m v c l cs)"
proof (rule fires_cong)
  have "fires m (\<Union>ci\<in>set cs. {(c, rdfs_sub_class_of v, ci)} - all_triples m)
     (fold (\<lambda>ci. insert_unknown m (c, rdfs_sub_class_of v, ci) (prov ''scm-int'' [(c, owl_intersection_of v, l)])) cs)"
    by (rule fires_fold, rule fires_unknown) (use assms in simp)
  then show "fires m (\<Union>ci\<in>set cs. {(c, rdfs_sub_class_of v, ci)} - all_triples m) (fire_scm_int m v c l cs)"
    by (simp add: fires_def fire_scm_int_def)
qed (auto simp: scm_int_heads_def)

lemma uni_collect_fold:
  "(\<forall>x\<in>set xs. x \<in> typed T v ci) \<Longrightarrow> fst ` set (snd st) = fst st \<Longrightarrow> (\<forall>(x, c)\<in>set (snd st). x \<in> typed T v c) \<Longrightarrow>
   (let st' = fold (\<lambda>x (seen, subjects). if x \<notin> seen then (insert x seen, subjects @ [(x, ci)])
        else (seen, subjects)) xs st
    in fst st' = fst st \<union> set xs \<and> fst ` set (snd st') = fst st' \<and> (\<forall>(x, c)\<in>set (snd st'). x \<in> typed T v c))"
proof (induction xs arbitrary: st)
  case (Cons x xs)
  obtain seen subjects where st: "st = (seen, subjects)" by (cases st)
  show ?case
  proof (cases "x \<in> seen")
    case True
    then show ?thesis using Cons.IH [of "(seen, subjects)"] Cons.prems by (auto simp: st Let_def)
  next
    case False
    then show ?thesis using Cons.IH [of "(insert x seen, subjects @ [(x, ci)])"] Cons.prems
      by (auto simp: st Let_def)
  qed
qed simp

lemma uni_collect_spec:
  assumes m: "mirrored m"
  shows "fst ` set (uni_collect h m v cs) = {x. \<exists>ci\<in>set cs. x \<in> typed (all_triples m) v ci}
    \<and> (\<forall>(x, c)\<in>set (uni_collect h m v cs). x \<in> typed (all_triples m) v c)"
proof -
  let ?T = "all_triples m"
  let ?step = "\<lambda>ci st. fold (\<lambda>x (seen, subjects).
       if x \<notin> seen then (insert x seen, subjects @ [(x, ci)]) else (seen, subjects))
     (typed_subjects h m v ci) st"
  have "fst ` set (snd st) = fst st \<Longrightarrow> (\<forall>(x, c)\<in>set (snd st). x \<in> typed ?T v c) \<Longrightarrow>
    fst (fold ?step cs st) = fst st \<union> {x. \<exists>ci\<in>set cs. x \<in> typed ?T v ci}
    \<and> fst ` set (snd (fold ?step cs st)) = fst (fold ?step cs st)
    \<and> (\<forall>(x, c)\<in>set (snd (fold ?step cs st)). x \<in> typed ?T v c)" for st
  proof (induction cs arbitrary: st)
    case (Cons ci cs)
    have "\<forall>x\<in>set (typed_subjects h m v ci). x \<in> typed ?T v ci"
      by (simp add: typed_subjects_typed [OF m])
    note s = uni_collect_fold [OF this Cons.prems, unfolded Let_def]
    have "fst (?step ci st) = fst st \<union> typed ?T v ci" using s typed_subjects_typed [OF m, of h v ci] by simp
    then show ?case using Cons.IH [of "?step ci st"] s by auto
  qed simp
  from this [of "({}, [])"] show ?thesis by (simp add: uni_collect_def)
qed

lemma fires_cls_uni:
  assumes m: "mirrored m"
  shows "fires m (uni_heads (all_triples m) v c cs - all_triples m) (fire_cls_uni h w m v c cs par)"
proof -
  let ?xs = "uni_collect h m v cs"
  note u = uni_collect_spec [OF m, of h v cs]
  have f: "fire_cls_uni h w m v c cs par = extend_delta (map_subjects w ?xs par (uni_emit m v c))"
    by (simp add: fun_eq_iff fire_cls_uni_def)
  have emit: "uni_emit m v c (x, ci) = Some (t, pr) \<longleftrightarrow> (x, rdf_type v, c) \<notin> all_triples m
      \<and> t = (x, rdf_type v, c) \<and> pr = prov ''cls-uni'' [(x, rdf_type v, ci)]" for x ci t pr
    by (auto simp: uni_emit_def)
  show ?thesis
    unfolding f
  proof (rule fires_cong [OF fires_map_subjects])
    fix xc t pr assume a: "xc \<in> set ?xs" and e: "uni_emit m v c xc = Some (t, pr)"
    obtain x ci where xc: "xc = (x, ci)" by (cases xc)
    have "x \<in> typed (all_triples m) v ci" using u a xc by auto
    then show "grounded m pr" using e by (auto simp: xc emit typed_def)
  next
    have mem: "(\<exists>ci. (x, ci) \<in> set ?xs) \<longleftrightarrow> (\<exists>ci\<in>set cs. x \<in> typed (all_triples m) v ci)" for x
    proof -
      have "(\<exists>ci. (x, ci) \<in> set ?xs) \<longleftrightarrow> x \<in> fst ` set ?xs" by force
      then show ?thesis using u by simp
    qed
    have eqv: "t \<in> {t. \<exists>xc\<in>set ?xs. \<exists>pr. uni_emit m v c xc = Some (t, pr)} \<longleftrightarrow>
       (\<exists>x. t = (x, rdf_type v, c) \<and> (x, rdf_type v, c) \<notin> all_triples m \<and> (\<exists>ci. (x, ci) \<in> set ?xs))" for t
    proof -
      have "(\<exists>xc\<in>set ?xs. \<exists>pr. uni_emit m v c xc = Some (t, pr)) \<longleftrightarrow>
          (\<exists>x ci. (x, ci) \<in> set ?xs \<and> (\<exists>pr. uni_emit m v c (x, ci) = Some (t, pr)))"
        by (simp only: Bex_def split_paired_Ex)
      then show ?thesis unfolding emit by blast
    qed
    show "{t. \<exists>xc\<in>set ?xs. \<exists>pr. uni_emit m v c xc = Some (t, pr)} = uni_heads (all_triples m) v c cs - all_triples m"
      by (rule set_eqI, unfold eqv mem uni_heads_def) blast
  qed
qed

subsection \<open>cax-adc and prp-adp\<close>

definition nothing :: "vocabulary \<Rightarrow> u64 \<Rightarrow> triple" where
  "nothing v x = (x, rdf_type v, owl_nothing v)"

definition adc_inv :: "vocabulary \<Rightarrow> u64 set \<times> delta \<Rightarrow> bool" where
  "adc_inv v st \<longleftrightarrow> nothing v ` fst st \<subseteq> d_triples (snd st)"

definition adc_fires :: "mem_store \<Rightarrow> vocabulary \<Rightarrow> triple set \<Rightarrow> (u64 set \<times> delta \<Rightarrow> u64 set \<times> delta) \<Rightarrow> bool" where
  "adc_fires m v H F \<longleftrightarrow> (\<forall>st. adc_inv v st \<longrightarrow> adc_inv v (F st)
     \<and> d_triples (snd (F st)) = d_triples (snd st) \<union> H
     \<and> (delta_ok (snd st) \<longrightarrow> delta_ok (snd (F st)))
     \<and> (\<forall>t pr. d_proofs (snd (F st)) t = Some pr \<longrightarrow> d_proofs (snd st) t = Some pr \<or> t \<in> H \<and> grounded m pr))"

lemma adc_fires_id: "adc_fires m v {} (\<lambda>st. st)"
  by (simp add: adc_fires_def)

lemma adc_fires_comp:
  assumes f: "adc_fires m v A f" and g: "adc_fires m v B g" shows "adc_fires m v (A \<union> B) (\<lambda>st. g (f st))"
proof -
  have "d_proofs (snd st) t = Some pr \<or> t \<in> A \<union> B \<and> grounded m pr"
    if "adc_inv v st" "d_proofs (snd (g (f st))) t = Some pr" for st t pr
    using that f g unfolding adc_fires_def by (metis UnI1 UnI2)
  then show ?thesis using f g by (simp add: adc_fires_def Un_assoc del: split_paired_All)
qed

lemma adc_fires_fold:
  "(\<And>x. x \<in> set xs \<Longrightarrow> adc_fires m v (H x) (f x)) \<Longrightarrow> adc_fires m v (\<Union>x\<in>set xs. H x) (fold f xs)"
proof (induction xs)
  case (Cons x xs)
  have "adc_fires m v (H x \<union> (\<Union>x\<in>set xs. H x)) (\<lambda>st. fold f xs (f x st))"
    by (rule adc_fires_comp) (use Cons in auto)
  then show ?case by (simp add: adc_fires_def)
qed (simp add: adc_fires_def)

lemma adc_fires_hit: "grounded m pr \<Longrightarrow> adc_fires m v {nothing v x} (adc_hit (x, nothing v x, pr))"
  by (auto simp: adc_fires_def adc_hit_def adc_inv_def delta_insert_def delta_ok_def split: prod.splits)

lemma adc_pair:
  assumes m: "mirrored m"
  shows "adc_fires m v (nothing v ` (typed (all_triples m) v ci \<inter> typed (all_triples m) v cj) - all_triples m)
    (fold adc_hit (map_subjects w (typed_subjects h m v ci) par (adc_emit m v ci cj)))"
proof -
  let ?hits = "map_subjects w (typed_subjects h m v ci) par (adc_emit m v ci cj)"
  have mem: "hit \<in> set ?hits \<longleftrightarrow> (\<exists>x. x \<in> typed (all_triples m) v ci \<and> x \<in> typed (all_triples m) v cj
      \<and> nothing v x \<notin> all_triples m
      \<and> hit = (x, nothing v x, prov ''cax-adc'' [(x, rdf_type v, ci), (x, rdf_type v, cj)]))" for hit
    unfolding map_subjects_mem typed_subjects_typed [OF m] by (auto simp: adc_emit_def typed_def nothing_def)
  have "adc_fires m v (\<Union>hit\<in>set ?hits. {nothing v (fst hit)}) (fold adc_hit ?hits)"
  proof (rule adc_fires_fold)
    fix hit assume "hit \<in> set ?hits"
    then show "adc_fires m v {nothing v (fst hit)} (adc_hit hit)"
      unfolding mem by (auto simp: typed_def intro!: adc_fires_hit)
  qed
  moreover have "(\<Union>hit\<in>set ?hits. {nothing v (fst hit)})
      = nothing v ` (typed (all_triples m) v ci \<inter> typed (all_triples m) v cj) - all_triples m"
    unfolding set_eq_iff UN_iff Bex_def mem by auto
  ultimately show ?thesis by simp
qed

lemma adc_heads_Cons:
  "adc_heads T v (ci # cs) = (\<Union>cj\<in>set cs. nothing v ` (typed T v ci \<inter> typed T v cj)) \<union> adc_heads T v cs"
  by (auto simp: adc_heads_def nothing_def)

lemma adc_loop_fires:
  assumes m: "mirrored m"
  shows "adc_fires m v (adc_heads (all_triples m) v cs - all_triples m) (adc_loop h w m v par cs)"
proof (induction cs)
  case Nil
  then show ?case by (simp add: adc_heads_def adc_fires_def)
next
  case (Cons ci cs)
  let ?T = "all_triples m"
  let ?F = "fold (\<lambda>cj. fold adc_hit (map_subjects w (typed_subjects h m v ci) par (adc_emit m v ci cj))) cs"
  have "adc_fires m v (\<Union>cj\<in>set cs. nothing v ` (typed ?T v ci \<inter> typed ?T v cj) - ?T) ?F"
    by (rule adc_fires_fold) (rule adc_pair [OF m])
  note step = adc_fires_comp [OF this Cons.IH]
  have H: "(\<Union>cj\<in>set cs. nothing v ` (typed ?T v ci \<inter> typed ?T v cj) - ?T) \<union> (adc_heads ?T v cs - ?T)
      = adc_heads ?T v (ci # cs) - ?T"
    unfolding adc_heads_Cons by blast
  show ?case
  proof (cases "typed_subjects h m v ci = []")
    case True
    then have "typed ?T v ci = {}" using typed_subjects_typed [OF m, of h v ci] by simp
    then have "adc_heads ?T v (ci # cs) = adc_heads ?T v cs" by (simp add: adc_heads_Cons)
    then show ?thesis using Cons.IH True by (simp add: adc_fires_def)
  next
    case False
    then have "adc_loop h w m v par (ci # cs) = (\<lambda>st. adc_loop h w m v par cs (?F st))"
      by (simp add: fun_eq_iff Let_def)
    then show ?thesis using step unfolding H by (simp only:)
  qed
qed

lemma fires_cax_adc:
  assumes "mirrored m"
  shows "fires m (adc_heads (all_triples m) v cs - all_triples m) (fire_cax_adc h w m v cs par)"
proof -
  have "adc_inv v ({}, d)" for d by (simp add: adc_inv_def)
  from adc_loop_fires [OF assms, of v cs h w par, unfolded adc_fires_def, rule_format, OF this]
  show ?thesis unfolding fires_def fire_cax_adc_def by simp
qed

lemma adp_heads_Cons:
  "adp_heads T v (pi # ps) = (\<Union>pj\<in>set ps. {nothing v u | u. \<exists>w. (u, pi, w) \<in> T \<and> (u, pj, w) \<in> T}) \<union> adp_heads T v ps"
  by (auto simp: adp_heads_def nothing_def)

lemma fires_prp_adp: "fires m (adp_heads (all_triples m) v ps - all_triples m) (fire_prp_adp h m v ps)"
proof (induction ps)
  case Nil
  then show ?case by (simp add: adp_heads_def fires_def)
next
  case (Cons pi ps)
  let ?T = "all_triples m"
  define pairs where "pairs = map (\<lambda>(s, _, ob). (s, ob)) (scan_predicate h m pi)"
  have pairs: "set pairs = {(u, w). (u, pi, w) \<in> ?T}" by (force simp: pairs_def)
  let ?f = "\<lambda>pj (u, w). if ms_contains m (u, pj, w)
          then insert_unknown m (u, rdf_type v, owl_nothing v) (prov ''prp-adp'' [(u, pi, w), (u, pj, w)])
          else id"
  have one: "fires m ({nothing v u | u. \<exists>w. (u, pi, w) \<in> ?T \<and> (u, pj, w) \<in> ?T} - ?T) (fold (?f pj) pairs)" for pj
  proof (rule fires_cong)
    show "fires m (\<Union>x\<in>set pairs. if (fst x, pj, snd x) \<in> ?T then {nothing v (fst x)} - ?T else {}) (fold (?f pj) pairs)"
    proof (rule fires_fold)
      fix x assume x: "x \<in> set pairs"
      obtain u w where uw: "x = (u, w)" by (cases x)
      show "fires m (if (fst x, pj, snd x) \<in> ?T then {nothing v (fst x)} - ?T else {}) (?f pj x)"
        using x pairs by (simp add: uw nothing_def fires_unknown)
    qed
  next
    have "(\<Union>x\<in>set pairs. if (fst x, pj, snd x) \<in> ?T then {nothing v (fst x)} - ?T else {})
        = {nothing v u | u w. (u, pi, w) \<in> ?T \<and> (u, pj, w) \<in> ?T} - ?T"
    proof (rule set_eqI)
      fix t
      have "t \<in> (\<Union>x\<in>set pairs. if (fst x, pj, snd x) \<in> ?T then {nothing v (fst x)} - ?T else {})
          \<longleftrightarrow> (\<exists>u w. (u, pi, w) \<in> ?T \<and> (u, pj, w) \<in> ?T \<and> t = nothing v u \<and> t \<notin> ?T)"
        unfolding pairs UN_iff mem_if_empty Bex_def split_paired_Ex mem_Collect_eq case_prod_conv fst_conv snd_conv
        by blast
      then show "t \<in> (\<Union>x\<in>set pairs. if (fst x, pj, snd x) \<in> ?T then {nothing v (fst x)} - ?T else {})
          \<longleftrightarrow> t \<in> {nothing v u | u w. (u, pi, w) \<in> ?T \<and> (u, pj, w) \<in> ?T} - ?T" by blast
    qed
    also have "\<dots> = {nothing v u | u. \<exists>w. (u, pi, w) \<in> ?T \<and> (u, pj, w) \<in> ?T} - ?T" by blast
    finally show "(\<Union>x\<in>set pairs. if (fst x, pj, snd x) \<in> ?T then {nothing v (fst x)} - ?T else {})
        = {nothing v u | u. \<exists>w. (u, pi, w) \<in> ?T \<and> (u, pj, w) \<in> ?T} - ?T" .
  qed
  have all: "fires m (\<Union>pj\<in>set ps. {nothing v u | u. \<exists>w. (u, pi, w) \<in> ?T \<and> (u, pj, w) \<in> ?T} - ?T)
      (fold (\<lambda>pj. fold (?f pj) pairs) ps)"
    by (rule fires_fold) (rule one)
  note step = fires_comp [OF all Cons.IH]
  have H: "(\<Union>pj\<in>set ps. {nothing v u | u. \<exists>w. (u, pi, w) \<in> ?T \<and> (u, pj, w) \<in> ?T} - ?T) \<union> (adp_heads ?T v ps - ?T)
      = adp_heads ?T v (pi # ps) - ?T"
    unfolding adp_heads_Cons by blast
  have eq: "fire_prp_adp h m v (pi # ps) d = (if pairs = [] then fire_prp_adp h m v ps d
      else fire_prp_adp h m v ps (fold (\<lambda>pj. fold (?f pj) pairs) ps d))" for d
    by (simp add: pairs_def Let_def)
  show ?case
  proof (cases "pairs = []")
    case True
    then have "adp_heads ?T v (pi # ps) = adp_heads ?T v ps" using pairs by (auto simp: adp_heads_Cons)
    then show ?thesis using Cons.IH True by (simp add: fires_def eq del: fire_prp_adp.simps)
  next
    case False
    then show ?thesis using step unfolding H by (simp add: fires_def eq del: fire_prp_adp.simps)
  qed
qed

subsection \<open>Cardinality\<close>

lemma fires_cls_maxc1:
  assumes m: "mirrored m"
  shows "fires m (max_zero_heads (all_triples m) v c p (\<lambda>_. True) - all_triples m) (fire_cls_maxc1 h m v c p)"
proof -
  let ?T = "all_triples m"
  let ?f = "\<lambda>u. case probe h m (Some u) p None of
       [] \<Rightarrow> id
     | (_, _, y) # _ \<Rightarrow> insert_unknown m (u, rdf_type v, owl_nothing v) (prov ''cls-maxc1'' [(u, rdf_type v, c), (u, p, y)])"
  let ?H = "\<lambda>u. if \<exists>y. (u, p, y) \<in> ?T then {nothing v u} - ?T else {}"
  have "fires m (\<Union>u\<in>set (typed_subjects h m v c). ?H u) (fold ?f (typed_subjects h m v c))"
  proof (rule fires_fold)
    fix u assume "u \<in> set (typed_subjects h m v c)"
    then have u: "(u, rdf_type v, c) \<in> ?T" using m by simp
    show "fires m (?H u) (?f u)"
    proof (cases "probe h m (Some u) p None")
      case Nil
      then have "\<not> (\<exists>y. (u, p, y) \<in> ?T)" using probe_subject_mem [OF m, of _ _ _ h u p] by (metis empty_iff empty_set)
      then show ?thesis using Nil by simp
    next
      case (Cons t ts)
      obtain a q y where t: "t = (a, q, y)" by (rule prod_cases3)
      have "(a, q, y) \<in> set (probe h m (Some u) p None)" by (simp add: Cons t)
      then have "(u, p, y) \<in> ?T" using probe_subject_mem [OF m] by blast
      then show ?thesis using u by (auto simp: Cons t nothing_def intro!: fires_unknown)
    qed
  qed
  moreover have "(\<Union>u\<in>set (typed_subjects h m v c). ?H u) = max_zero_heads ?T v c p (\<lambda>_. True) - ?T"
    unfolding typed_subjects_typed [OF m] by (auto simp: max_zero_heads_def nothing_def split: if_splits)
  ultimately have "fires m (max_zero_heads ?T v c p (\<lambda>_. True) - ?T) (fold ?f (typed_subjects h m v c))"
    by (rule fires_cong)
  then show ?thesis unfolding fires_def fire_cls_maxc1_def .
qed

lemma fires_same_pairs:
  assumes u: "(u, rdf_type v, c) \<in> all_triples m"
  shows "(\<And>y. y \<in> set ys \<Longrightarrow> (u, p, y) \<in> all_triples m) \<Longrightarrow>
    fires m ({(a, owl_same_as v, b) | a b. a \<in> set ys \<and> b \<in> set ys \<and> a \<noteq> b} - all_triples m) (same_pairs m v r c p u ys)"
proof (induction ys)
  case Nil
  then show ?case by (simp add: fires_def)
next
  case (Cons y1 ys)
  let ?T = "all_triples m" and ?s = "owl_same_as v"
  let ?g = "\<lambda>y2 (a, b). insert_unknown m (a, ?s, b) (prov r [(u, rdf_type v, c), (u, p, y1), (u, p, y2)])"
  let ?f = "\<lambda>y2. if y1 = y2 then id else fold (?g y2) [(y1, y2), (y2, y1)]"
  let ?H = "\<lambda>y2. if y1 = y2 then {} else {(y1, ?s, y2), (y2, ?s, y1)} - ?T"
  have "fires m (\<Union>y2\<in>set ys. ?H y2) (fold ?f ys)"
  proof (rule fires_fold)
    fix y2 assume y2: "y2 \<in> set ys"
    have "fires m (\<Union>x\<in>set [(y1, y2), (y2, y1)]. {(fst x, ?s, snd x)} - ?T) (fold (?g y2) [(y1, y2), (y2, y1)])"
    proof (rule fires_fold)
      fix x assume "x \<in> set [(y1, y2), (y2, y1)]"
      show "fires m ({(fst x, ?s, snd x)} - ?T) (?g y2 x)"
        using u y2 Cons.prems by (cases x) (simp add: fires_unknown)
    qed
    moreover have "(\<Union>x\<in>set [(y1, y2), (y2, y1)]. {(fst x, ?s, snd x)} - ?T) = {(y1, ?s, y2), (y2, ?s, y1)} - ?T"
      by auto
    ultimately show "fires m (?H y2) (?f y2)" by simp
  qed
  note step = fires_comp [OF this Cons.IH]
  have "(\<Union>y2\<in>set ys. ?H y2) \<union> ({(a, ?s, b) | a b. a \<in> set ys \<and> b \<in> set ys \<and> a \<noteq> b} - ?T)
      = {(a, ?s, b) | a b. a \<in> set (y1 # ys) \<and> b \<in> set (y1 # ys) \<and> a \<noteq> b} - ?T"
    by (auto split: if_splits)
  then show ?case using step Cons.prems by (simp add: fires_def)
qed

text \<open>The maximum-one rules share everything but the test on the values.\<close>

lemma fires_max_one:
  assumes m: "mirrored m"
    and g: "\<And>u. g u = (let ys = filter Q (map (\<lambda>(_, _, ob). ob) (probe h m (Some u) p None)) in
      if length ys < 2 then id else same_pairs m v r c p u ys)"
  shows "fires m (max_one_heads (all_triples m) v c p Q - all_triples m) (fold g (typed_subjects h m v c))"
proof -
  let ?T = "all_triples m" and ?s = "owl_same_as v"
  let ?H = "\<lambda>u. {(a, ?s, b) | a b. (u, p, a) \<in> ?T \<and> Q a \<and> (u, p, b) \<in> ?T \<and> Q b \<and> a \<noteq> b} - ?T"
  have "fires m (\<Union>u\<in>set (typed_subjects h m v c). ?H u) (fold g (typed_subjects h m v c))"
  proof (rule fires_fold)
    fix u assume "u \<in> set (typed_subjects h m v c)"
    then have u: "(u, rdf_type v, c) \<in> ?T" using m by simp
    define ys where "ys = filter Q (map (\<lambda>(_, _, ob). ob) (probe h m (Some u) p None))"
    have ys: "y \<in> set ys \<longleftrightarrow> (u, p, y) \<in> ?T \<and> Q y" for y
    proof -
      have "y \<in> (\<lambda>(_, _, ob). ob) ` set (probe h m (Some u) p None) \<longleftrightarrow> (u, p, y) \<in> ?T"
        using probe_subject_mem [OF m, of _ _ y h u p] by force
      then show ?thesis by (simp add: ys_def)
    qed
    show "fires m (?H u) (g u)"
    proof (cases "length ys < 2")
      case True
      then have "a = b" if "a \<in> set ys" "b \<in> set ys" for a b
        using that by (cases ys; cases "tl ys") auto
      then have "?H u = {}" using ys by blast
      moreover have "g u = id" using True by (simp add: g ys_def)
      ultimately show ?thesis by (simp only: fires_id)
    next
      case False
      have "fires m ({(a, ?s, b) | a b. a \<in> set ys \<and> b \<in> set ys \<and> a \<noteq> b} - ?T) (same_pairs m v r c p u ys)"
        by (rule fires_same_pairs [OF u]) (simp add: ys)
      moreover have "{(a, ?s, b) | a b. a \<in> set ys \<and> b \<in> set ys \<and> a \<noteq> b} - ?T = ?H u" using ys by auto
      ultimately show ?thesis using False by (simp add: g ys_def [symmetric])
    qed
  qed
  moreover have "(\<Union>u\<in>set (typed_subjects h m v c). ?H u) = max_one_heads ?T v c p Q - ?T"
    unfolding typed_subjects_typed [OF m] max_one_heads_def by blast
  ultimately show ?thesis by simp
qed

lemma fires_cls_maxc2:
  assumes m: "mirrored m"
  shows "fires m (max_one_heads (all_triples m) v c p (\<lambda>_. True) - all_triples m) (fire_cls_maxc2 h m v c p)"
proof -
  have "fires m (max_one_heads (all_triples m) v c p (\<lambda>_. True) - all_triples m)
    (fold (\<lambda>u. let ys = map (\<lambda>(_, _, ob). ob) (probe h m (Some u) p None) in
     if length ys < 2 then id else same_pairs m v ''cls-maxc2'' c p u ys) (typed_subjects h m v c))"
    by (rule fires_max_one [OF m]) simp
  then show ?thesis by (simp add: fires_def fire_cls_maxc2_def)
qed

lemma qualifies_iff: "mirrored m \<Longrightarrow> qualifies h m v y filler \<longleftrightarrow> qualifying (all_triples m) v filler y"
proof -
  assume m: "mirrored m"
  have "probe h m (Some y) (rdf_type v) (Some filler) \<noteq> [] \<longleftrightarrow> set (probe h m (Some y) (rdf_type v) (Some filler)) \<noteq> {}"
    by simp
  also have "\<dots> \<longleftrightarrow> y \<in> typed (all_triples m) v filler"
    by (auto simp: probe_set [OF m] none_or_def typed_def)
  finally show ?thesis by (simp add: qualifies_def qualifying_def)
qed

lemma fires_cls_maxqc_zero:
  assumes m: "mirrored m"
  shows "fires m (max_zero_heads (all_triples m) v (qmc_class r) (qmc_property r) (qualifying (all_triples m) v (qmc_filler r))
     - all_triples m) (fire_cls_maxqc_zero h m v r)"
proof -
  let ?T = "all_triples m" and ?Q = "qualifying (all_triples m) v (qmc_filler r)"
    and ?c = "qmc_class r" and ?p = "qmc_property r"
  define rid where "rid = (if qmc_filler r = owl_thing v then ''cls-maxqc2'' else ''cls-maxqc1'')"
  let ?f = "\<lambda>u. case List.find (\<lambda>(_, _, y). qualifies h m v y (qmc_filler r)) (probe h m (Some u) ?p None) of
          None \<Rightarrow> id
        | Some (_, _, y) \<Rightarrow> insert_unknown m (u, rdf_type v, owl_nothing v) (prov rid [(u, rdf_type v, ?c), (u, ?p, y)])"
  let ?H = "\<lambda>u. if \<exists>y. (u, ?p, y) \<in> ?T \<and> ?Q y then {nothing v u} - ?T else {}"
  have "fires m (\<Union>u\<in>set (typed_subjects h m v ?c). ?H u) (fold ?f (typed_subjects h m v ?c))"
  proof (rule fires_fold)
    fix u assume "u \<in> set (typed_subjects h m v ?c)"
    then have u: "(u, rdf_type v, ?c) \<in> ?T" using m by simp
    show "fires m (?H u) (?f u)"
    proof (cases "List.find (\<lambda>(_, _, y). qualifies h m v y (qmc_filler r)) (probe h m (Some u) ?p None)")
      case None
      have "\<not> (\<exists>y. (u, ?p, y) \<in> ?T \<and> ?Q y)"
      proof
        assume "\<exists>y. (u, ?p, y) \<in> ?T \<and> ?Q y"
        then obtain y where y: "(u, ?p, y) \<in> ?T" "?Q y" by blast
        then have "(u, ?p, y) \<in> set (probe h m (Some u) ?p None)" using probe_subject_mem [OF m, of u ?p y] by simp
        then show False using None y qualifies_iff [OF m] by (auto simp: find_None_iff)
      qed
      then show ?thesis unfolding None by (simp only: if_False option.case fires_id)
    next
      case (Some t)
      obtain a q y where t: "t = (a, q, y)" by (rule prod_cases3)
      have "t \<in> set (probe h m (Some u) ?p None)" "qualifies h m v y (qmc_filler r)"
        using Some t by (auto simp: find_Some_iff in_set_conv_nth)
      then have "(u, ?p, y) \<in> ?T" "?Q y"
        using t probe_subject_mem [OF m, of a q y h u ?p] qualifies_iff [OF m] by auto
      then show ?thesis using u by (auto simp: Some t nothing_def intro!: fires_unknown)
    qed
  qed
  moreover have "(\<Union>u\<in>set (typed_subjects h m v ?c). ?H u) = max_zero_heads ?T v ?c ?p ?Q - ?T"
    unfolding typed_subjects_typed [OF m] by (auto simp: max_zero_heads_def nothing_def split: if_splits)
  ultimately have "fires m (max_zero_heads ?T v ?c ?p ?Q - ?T) (fold ?f (typed_subjects h m v ?c))"
    by (rule fires_cong)
  then show ?thesis unfolding fires_def fire_cls_maxqc_zero_def Let_def rid_def .
qed

lemma fires_cls_maxqc_one:
  assumes m: "mirrored m"
  shows "fires m (max_one_heads (all_triples m) v (qmc_class r) (qmc_property r) (qualifying (all_triples m) v (qmc_filler r))
     - all_triples m) (fire_cls_maxqc_one h m v r)"
proof -
  have Q: "(\<lambda>y. qualifies h m v y (qmc_filler r)) = qualifying (all_triples m) v (qmc_filler r)"
    by (simp add: fun_eq_iff qualifies_iff [OF m])
  have "fires m (max_one_heads (all_triples m) v (qmc_class r) (qmc_property r) (\<lambda>y. qualifies h m v y (qmc_filler r)) - all_triples m)
    (fold (\<lambda>u. let ys = filter (\<lambda>y. qualifies h m v y (qmc_filler r))
                    (map (\<lambda>(_, _, ob). ob) (probe h m (Some u) (qmc_property r) None)) in
          if length ys < 2 then id else same_pairs m v
            (if qmc_filler r = owl_thing v then ''cls-maxqc4'' else ''cls-maxqc3'') (qmc_class r) (qmc_property r) u ys)
      (typed_subjects h m v (qmc_class r)))"
    by (rule fires_max_one [OF m]) simp
  then show ?thesis unfolding Q by (simp add: fires_def fire_cls_maxqc_one_def Let_def Q)
qed

lemma fires_eq_diff_list:
  assumes "(ad, mp, l) \<in> all_triples m"
  shows "fires m (diff_heads v xs) (fire_eq_diff_list v ad mp l xs)"
proof -
  let ?d = "owl_different_from v"
  let ?f = "\<lambda>i j. if i = j then id
       else (\<lambda>out. if \<not> delta_contains out (xs ! i, ?d, xs ! j)
          then delta_insert (xs ! i, ?d, xs ! j) (prov ''eq-diff2'' [(ad, mp, l)]) out else out)"
  have "fires m (\<Union>i\<in>set [0..<length xs]. \<Union>j\<in>set [0..<length xs]. if i = j then {} else {(xs ! i, ?d, xs ! j)})
     (fold (\<lambda>i. fold (?f i) [0..<length xs]) [0..<length xs])"
    by (rule fires_fold, rule fires_fold)
      (use assms in \<open>auto simp: fires_def delta_ok_def delta_insert_def\<close>)
  moreover have "(\<Union>i\<in>set [0..<length xs]. \<Union>j\<in>set [0..<length xs]. if i = j then {} else {(xs ! i, ?d, xs ! j)})
      = diff_heads v xs"
  proof (rule set_eqI)
    fix t
    have "t \<in> diff_heads v xs \<longleftrightarrow> (\<exists>i<length xs. \<exists>j<length xs. i \<noteq> j \<and> t = (xs ! i, ?d, xs ! j))"
      unfolding diff_heads_def by blast
    moreover have "t \<in> (\<Union>i\<in>set [0..<length xs]. \<Union>j\<in>set [0..<length xs]. if i = j then {} else {(xs ! i, ?d, xs ! j)})
        \<longleftrightarrow> (\<exists>i<length xs. \<exists>j<length xs. i \<noteq> j \<and> t = (xs ! i, ?d, xs ! j))"
      unfolding UN_iff mem_if_empty Bex_def set_upt atLeastLessThan_iff singleton_iff by blast
    ultimately show "t \<in> (\<Union>i\<in>set [0..<length xs]. \<Union>j\<in>set [0..<length xs]. if i = j then {} else {(xs ! i, ?d, xs ! j)})
        \<longleftrightarrow> t \<in> diff_heads v xs" by simp
  qed
  ultimately have "fires m (diff_heads v xs) (fold (\<lambda>i. fold (?f i) [0..<length xs]) [0..<length xs])"
    by (rule fires_cong)
  then show ?thesis unfolding fires_def fire_eq_diff_list_def .
qed

end
