(* ===== verification/List_Rules_Main.thy ===== *)
theory List_Rules_Main imports List_Rules_Spec begin

text \<open>
  All list rules together: what a call of \<^verbatim>\<open>fire_all\<close> concludes in the first round and under a set
  of dirty predicates, and why the pruning loses nothing.
\<close>

section \<open>All conclusions\<close>

text \<open>One set of conclusions per kind of axiom.\<close>

definition chain_heads :: "triple set \<Rightarrow> schema_axioms \<Rightarrow> triple set" where
  "chain_heads T ax = (\<Union>(p, chain)\<in>set (property_chains ax). spo2_heads T p chain)"

definition keyed_heads :: "triple set \<Rightarrow> vocabulary \<Rightarrow> schema_axioms \<Rightarrow> triple set" where
  "keyed_heads T v ax = (\<Union>(c, ps)\<in>set (keys ax). key_heads T v c ps)"

definition intersection_heads :: "triple set \<Rightarrow> vocabulary \<Rightarrow> schema_axioms \<Rightarrow> triple set" where
  "intersection_heads T v ax = (\<Union>(c, l, cs)\<in>set (intersections ax). int1_heads T v c cs)"

definition subclass_heads :: "vocabulary \<Rightarrow> schema_axioms \<Rightarrow> triple set" where
  "subclass_heads v ax = (\<Union>(c, l, cs)\<in>set (intersections ax). scm_int_heads v c cs)"

definition union_heads :: "triple set \<Rightarrow> vocabulary \<Rightarrow> schema_axioms \<Rightarrow> triple set" where
  "union_heads T v ax = (\<Union>(c, cs)\<in>set (unions ax). uni_heads T v c cs)"

definition disjoint_class_heads :: "triple set \<Rightarrow> vocabulary \<Rightarrow> schema_axioms \<Rightarrow> triple set" where
  "disjoint_class_heads T v ax = (\<Union>cs\<in>set (all_disjoint_classes ax). adc_heads T v cs)"

definition disjoint_property_heads :: "triple set \<Rightarrow> vocabulary \<Rightarrow> schema_axioms \<Rightarrow> triple set" where
  "disjoint_property_heads T v ax = (\<Union>ps\<in>set (all_disjoint_properties ax). adp_heads T v ps)"

definition different_heads :: "vocabulary \<Rightarrow> schema_axioms \<Rightarrow> triple set" where
  "different_heads v ax = (\<Union>(a, p, l, xs)\<in>set (all_different ax). diff_heads v xs)"

definition max_heads :: "triple set \<Rightarrow> vocabulary \<Rightarrow> (max_card_restriction \<Rightarrow> bool) \<Rightarrow> schema_axioms \<Rightarrow> triple set" where
  "max_heads T v P ax = (\<Union>r\<in>{r \<in> set (max_card_restrictions ax). P r}. max_card_heads T v r)"

definition qual_max_heads :: "triple set \<Rightarrow> vocabulary \<Rightarrow> (qual_max_card_restriction \<Rightarrow> bool) \<Rightarrow> schema_axioms \<Rightarrow> triple set" where
  "qual_max_heads T v P ax = (\<Union>r\<in>{r \<in> set (qual_max_card_restrictions ax). P r}. qual_max_card_heads T v r)"

definition list_heads :: "triple set \<Rightarrow> vocabulary \<Rightarrow> schema_axioms \<Rightarrow> triple set" where
  "list_heads T v ax = chain_heads T ax \<union> keyed_heads T v ax \<union> intersection_heads T v ax \<union> subclass_heads v ax \<union> union_heads T v ax \<union> disjoint_class_heads T v ax \<union> disjoint_property_heads T v ax \<union> different_heads v ax \<union> max_heads T v (\<lambda>_. True) ax \<union> qual_max_heads T v (\<lambda>_. True) ax"

text \<open>What one call adds: the conclusions of the rules the dirty tests let through, without the
  stored ones except where the code does not consult the store.\<close>

definition fired_heads :: "triple set \<Rightarrow> vocabulary \<Rightarrow> schema_axioms \<Rightarrow> u64 set option \<Rightarrow> triple set" where
  "fired_heads T v ax dirty =
     (if property_chains ax \<noteq> [] \<and> any_dirty_for_chains ax dirty then chain_heads T ax else {})
   \<union> (if keys ax \<noteq> [] \<and> any_dirty_for_keys ax v dirty then keyed_heads T v ax - T else {})
   \<union> (if intersections ax \<noteq> [] \<and> is_dirty dirty (rdf_type v) then intersection_heads T v ax - T else {})
   \<union> (if intersections ax \<noteq> [] \<and> dirty = None then subclass_heads v ax - T else {})
   \<union> (if unions ax \<noteq> [] \<and> is_dirty dirty (rdf_type v) then union_heads T v ax - T else {})
   \<union> (if all_disjoint_classes ax \<noteq> [] \<and> is_dirty dirty (rdf_type v) then disjoint_class_heads T v ax - T else {})
   \<union> (if all_disjoint_properties ax \<noteq> [] \<and> any_dirty_for_disjoint_properties ax dirty then disjoint_property_heads T v ax - T else {})
   \<union> (if all_different ax \<noteq> [] \<and> dirty = None then different_heads v ax else {})
   \<union> (max_heads T v (\<lambda>r. is_dirty dirty (rdf_type v) \<or> is_dirty dirty (mc_property r)) ax - T)
   \<union> (qual_max_heads T v (\<lambda>r. is_dirty dirty (rdf_type v) \<or> is_dirty dirty (qmc_property r)) ax - T)"

lemma fires_max_card:
  assumes "mirrored m" shows "fires m (max_card_heads (all_triples m) v r - all_triples m) (fire_max_card h m v r)"
  using fires_cls_maxc1 [OF assms, of v "mc_class r" "mc_property r" h]
    fires_cls_maxc2 [OF assms, of v "mc_class r" "mc_property r" h]
  by (simp add: max_card_heads_def fire_max_card_def)

lemma fires_qual_max_card:
  assumes "mirrored m"
  shows "fires m (qual_max_card_heads (all_triples m) v r - all_triples m) (fire_qual_max_card h m v r)"
  using fires_cls_maxqc_zero [OF assms, of v r h] fires_cls_maxqc_one [OF assms, of v r h]
  by (simp add: qual_max_card_heads_def fire_qual_max_card_def)

lemma fires_guarded_fold:
  assumes "\<And>x. x \<in> set xs \<Longrightarrow> fires m (H x) (f x)" and "(\<Union>x\<in>set xs. H x) = K"
  shows "fires m (if c then K else {}) (guarded c (fold f xs))"
  unfolding assms(2) [symmetric] by (rule fires_guarded, rule fires_fold) (rule assms(1))

lemma fires_new:
  assumes "fires m H f"
  shows "d_triples (f delta_new) = H" and "delta_ok (f delta_new)"
    and "d_proofs (f delta_new) t = Some pr \<Longrightarrow> grounded m pr"
proof -
  have "d_proofs delta_new t \<noteq> Some pr" by (simp add: delta_new_def)
  then show "d_proofs (f delta_new) t = Some pr \<Longrightarrow> grounded m pr"
    using assms unfolding fires_def by blast
qed (use assms in \<open>simp_all add: fires_def\<close>)

text \<open>The stages of \<^verbatim>\<open>fire_all\<close>, each with what it adds.\<close>

lemma fire_all_fires:
  assumes m: "mirrored m" and ax: "axioms_from m v ax"
  shows "\<exists>f. fires m (fired_heads (all_triples m) v ax dirty) f \<and> fire_all h w m ax v dirty par = f delta_new"
proof -
  let ?T = "all_triples m"
  let ?g1 = "guarded (property_chains ax \<noteq> [] \<and> any_dirty_for_chains ax dirty)
            (fold (\<lambda>(p, chain). fire_prp_spo2 h m p chain) (property_chains ax))"
  let ?g2 = "guarded (keys ax \<noteq> [] \<and> any_dirty_for_keys ax v dirty)
            (fold (\<lambda>(c, ps). fire_prp_key h w m v c ps par) (keys ax))"
  let ?g3 = "guarded (intersections ax \<noteq> [] \<and> is_dirty dirty (rdf_type v))
            (fold (\<lambda>(c, l, cs). fire_cls_int1 h w m v c cs par) (intersections ax))"
  let ?g4 = "guarded (intersections ax \<noteq> [] \<and> dirty = None)
            (fold (\<lambda>(c, l, cs). fire_scm_int m v c l cs) (intersections ax))"
  let ?g5 = "guarded (unions ax \<noteq> [] \<and> is_dirty dirty (rdf_type v))
            (fold (\<lambda>(c, cs). fire_cls_uni h w m v c cs par) (unions ax))"
  let ?g6 = "guarded (all_disjoint_classes ax \<noteq> [] \<and> is_dirty dirty (rdf_type v))
            (fold (\<lambda>cs. fire_cax_adc h w m v cs par) (all_disjoint_classes ax))"
  let ?g7 = "guarded (all_disjoint_properties ax \<noteq> [] \<and> any_dirty_for_disjoint_properties ax dirty)
            (fold (fire_prp_adp h m v) (all_disjoint_properties ax))"
  let ?g8 = "guarded (all_different ax \<noteq> [] \<and> dirty = None)
            (fold (\<lambda>(ad, mp, l, xs). fire_eq_diff_list v ad mp l xs) (all_different ax))"
  let ?g9 = "\<lambda>out. if max_card_restrictions ax \<noteq> [] \<and> is_dirty dirty (rdf_type v)
            then fold (fire_max_card h m v) (max_card_restrictions ax) out
            else if max_card_restrictions ax \<noteq> []
            then fold (\<lambda>r. guarded (is_dirty dirty (mc_property r)) (fire_max_card h m v r))
              (max_card_restrictions ax) out
            else out"
  let ?g10 = "guarded (qual_max_card_restrictions ax \<noteq> [])
           (fold (\<lambda>r. guarded (is_dirty dirty (rdf_type v) \<or> is_dirty dirty (qmc_property r))
             (fire_qual_max_card h m v r)) (qual_max_card_restrictions ax))"
  have 1: "fires m (if property_chains ax \<noteq> [] \<and> any_dirty_for_chains ax dirty then chain_heads ?T ax else {}) ?g1"
    by (rule fires_guarded_fold [where H = "(\<lambda>(p, chain). spo2_heads ?T p chain)"])
      (use ax fires_prp_spo2 [OF m] in \<open>auto simp: axioms_from_def chain_heads_def\<close>)
  have 2: "fires m (if keys ax \<noteq> [] \<and> any_dirty_for_keys ax v dirty then keyed_heads ?T v ax - ?T else {}) ?g2"
    by (rule fires_guarded_fold [where H = "(\<lambda>(c, ps). key_heads ?T v c ps - ?T)"])
      (use ax fires_prp_key [OF m] in \<open>auto simp: axioms_from_def keyed_heads_def\<close>)
  have 3: "fires m (if intersections ax \<noteq> [] \<and> is_dirty dirty (rdf_type v) then intersection_heads ?T v ax - ?T else {}) ?g3"
    by (rule fires_guarded_fold [where H = "(\<lambda>(c, l, cs). int1_heads ?T v c cs - ?T)"])
      (use ax fires_cls_int1 [OF m] in \<open>auto simp: axioms_from_def intersection_heads_def\<close>)
  have 4: "fires m (if intersections ax \<noteq> [] \<and> dirty = None then subclass_heads v ax - ?T else {}) ?g4"
    by (rule fires_guarded_fold [where H = "(\<lambda>(c, l, cs). scm_int_heads v c cs - ?T)"])
      (use ax fires_scm_int in \<open>auto simp: axioms_from_def subclass_heads_def\<close>)
  have 5: "fires m (if unions ax \<noteq> [] \<and> is_dirty dirty (rdf_type v) then union_heads ?T v ax - ?T else {}) ?g5"
    by (rule fires_guarded_fold [where H = "(\<lambda>(c, cs). uni_heads ?T v c cs - ?T)"])
      (use ax fires_cls_uni [OF m] in \<open>auto simp: axioms_from_def union_heads_def\<close>)
  have 6: "fires m (if all_disjoint_classes ax \<noteq> [] \<and> is_dirty dirty (rdf_type v) then disjoint_class_heads ?T v ax - ?T else {}) ?g6"
    by (rule fires_guarded_fold [where H = "(\<lambda>cs. adc_heads ?T v cs - ?T)"])
      (use ax fires_cax_adc [OF m] in \<open>auto simp: axioms_from_def disjoint_class_heads_def\<close>)
  have 7: "fires m (if all_disjoint_properties ax \<noteq> [] \<and> any_dirty_for_disjoint_properties ax dirty then disjoint_property_heads ?T v ax - ?T else {}) ?g7"
    by (rule fires_guarded_fold [where H = "(\<lambda>ps. adp_heads ?T v ps - ?T)"])
      (use ax fires_prp_adp in \<open>auto simp: axioms_from_def disjoint_property_heads_def\<close>)
  have 8: "fires m (if all_different ax \<noteq> [] \<and> dirty = None then different_heads v ax else {}) ?g8"
    by (rule fires_guarded_fold [where H = "(\<lambda>(a, p, l, xs). diff_heads v xs)"])
      (use ax fires_eq_diff_list in \<open>auto simp: axioms_from_def different_heads_def\<close>)
  have 9: "fires m (max_heads ?T v (\<lambda>r. is_dirty dirty (rdf_type v) \<or> is_dirty dirty (mc_property r)) ax - ?T) ?g9"
  proof (cases "is_dirty dirty (rdf_type v)")
    case True
    have "fires m (\<Union>r\<in>set (max_card_restrictions ax). max_card_heads ?T v r - ?T)
        (fold (fire_max_card h m v) (max_card_restrictions ax))"
      by (rule fires_fold) (rule fires_max_card [OF m])
    moreover have "?g9 = fold (fire_max_card h m v) (max_card_restrictions ax)" using True by (auto simp: fun_eq_iff)
    ultimately show ?thesis using True by (simp add: max_heads_def)
  next
    case False
    have "fires m (\<Union>r\<in>set (max_card_restrictions ax). if is_dirty dirty (mc_property r) then max_card_heads ?T v r - ?T else {})
        (fold (\<lambda>r. guarded (is_dirty dirty (mc_property r)) (fire_max_card h m v r)) (max_card_restrictions ax))"
      by (rule fires_fold, rule fires_guarded) (rule fires_max_card [OF m])
    moreover have "?g9 = fold (\<lambda>r. guarded (is_dirty dirty (mc_property r)) (fire_max_card h m v r)) (max_card_restrictions ax)"
      using False by (auto simp: fun_eq_iff)
    moreover have "(\<Union>r\<in>set (max_card_restrictions ax). if is_dirty dirty (mc_property r) then max_card_heads ?T v r - ?T else {})
        = max_heads ?T v (\<lambda>r. is_dirty dirty (rdf_type v) \<or> is_dirty dirty (mc_property r)) ax - ?T"
      using False by (auto simp: max_heads_def split: if_splits)
    ultimately show ?thesis by simp
  qed
  have 10: "fires m (qual_max_heads ?T v (\<lambda>r. is_dirty dirty (rdf_type v) \<or> is_dirty dirty (qmc_property r)) ax - ?T) ?g10"
  proof (rule fires_cong)
    show "fires m (if qual_max_card_restrictions ax \<noteq> [] then \<Union>r\<in>set (qual_max_card_restrictions ax).
      if is_dirty dirty (rdf_type v) \<or> is_dirty dirty (qmc_property r) then qual_max_card_heads ?T v r - ?T else {} else {}) ?g10"
      by (rule fires_guarded_fold, rule fires_guarded, rule fires_qual_max_card [OF m], rule refl)
  qed (auto simp: qual_max_heads_def split: if_splits)
  let ?f = "\<lambda>d. ?g10 (?g9 (?g8 (?g7 (?g6 (?g5 (?g4 (?g3 (?g2 (?g1 d)))))))))"
  have all: "fires m (fired_heads ?T v ax dirty) ?f"
    unfolding fired_heads_def
    by (intro fires_comp 1 2 3 4 5 6 7 8 9 10)
  show ?thesis
  proof (cases "axioms_is_empty ax")
    case True
    then have "?f delta_new = delta_new" by (simp add: axioms_is_empty_def guarded_def)
    then show ?thesis by (intro exI [of _ ?f] conjI all) (simp only: fire_all_def True if_True)
  next
    case False
    show ?thesis by (intro exI [of _ ?f] conjI all) (simp only: fire_all_def Let_def False if_False)
  qed
qed

lemma fired_heads_first: "fired_heads T v ax None - T = list_heads T v ax - T"
proof -
  have "is_dirty None p" "any_dirty_for_chains ax None" "any_dirty_for_keys ax v None"
    "any_dirty_for_disjoint_properties ax None" for p
    by (simp_all add: any_dirty_for_chains_def any_dirty_for_keys_def any_dirty_for_disjoint_properties_def is_dirty_def)
  note dirty = this
  have pass: "(if A \<noteq> [] \<and> c then X - T else {}) = X - T" "(if A \<noteq> [] \<and> c then X else {}) = X"
    if "c" "A = [] \<Longrightarrow> X = {}" for X :: "triple set" and c and A :: "'z list"
    using that by auto
  have 1: "(if property_chains ax \<noteq> [] \<and> any_dirty_for_chains ax None then chain_heads T ax else {}) = chain_heads T ax"
    by (rule pass(2)) (simp_all add: dirty chain_heads_def)
  have 2: "(if keys ax \<noteq> [] \<and> any_dirty_for_keys ax v None then keyed_heads T v ax - T else {}) = keyed_heads T v ax - T"
    by (rule pass(1)) (simp_all add: dirty keyed_heads_def)
  have 3: "(if intersections ax \<noteq> [] \<and> is_dirty None (rdf_type v) then intersection_heads T v ax - T else {})
      = intersection_heads T v ax - T"
    by (rule pass(1)) (simp_all add: dirty intersection_heads_def)
  have 4: "(if intersections ax \<noteq> [] \<and> (None :: u64 set option) = None then subclass_heads v ax - T else {})
      = subclass_heads v ax - T"
    by (rule pass(1)) (simp_all add: subclass_heads_def)
  have 5: "(if unions ax \<noteq> [] \<and> is_dirty None (rdf_type v) then union_heads T v ax - T else {}) = union_heads T v ax - T"
    by (rule pass(1)) (simp_all add: dirty union_heads_def)
  have 6: "(if all_disjoint_classes ax \<noteq> [] \<and> is_dirty None (rdf_type v) then disjoint_class_heads T v ax - T else {})
      = disjoint_class_heads T v ax - T"
    by (rule pass(1)) (simp_all add: dirty disjoint_class_heads_def)
  have 7: "(if all_disjoint_properties ax \<noteq> [] \<and> any_dirty_for_disjoint_properties ax None
      then disjoint_property_heads T v ax - T else {}) = disjoint_property_heads T v ax - T"
    by (rule pass(1)) (simp_all add: dirty disjoint_property_heads_def)
  have 8: "(if all_different ax \<noteq> [] \<and> (None :: u64 set option) = None then different_heads v ax else {})
      = different_heads v ax"
    by (rule pass(2)) (simp_all add: different_heads_def)
  show ?thesis
    unfolding fired_heads_def list_heads_def 1 2 3 4 5 6 7 8 by (simp only: dirty simp_thms) blast
qed

lemma max_heads_mono: "max_heads T v P ax \<subseteq> max_heads T v (\<lambda>_. True) ax"
  "qual_max_heads T v Q ax \<subseteq> qual_max_heads T v (\<lambda>_. True) ax"
  by (auto simp: max_heads_def qual_max_heads_def)

lemma fired_heads_sound: "fired_heads T v ax dirty \<subseteq> list_heads T v ax"
proof -
  have "(if b then X - Y else {}) \<subseteq> X" "(if b then X else {}) \<subseteq> X" "X \<subseteq> Z \<Longrightarrow> X - Y \<subseteq> Z"
    for b and X Y Z :: "triple set" by auto
  then show ?thesis
    unfolding fired_heads_def list_heads_def by (intro Un_mono) (simp_all add: max_heads_mono)
qed

section \<open>Pruning\<close>

text \<open>Two sets of triples that differ only on predicates in \<open>D\<close>.\<close>

definition differ_on :: "u64 set \<Rightarrow> triple set \<Rightarrow> triple set \<Rightarrow> bool" where
  "differ_on D T U \<longleftrightarrow> (\<forall>s p ob. p \<notin> D \<longrightarrow> ((s, p, ob) \<in> T \<longleftrightarrow> (s, p, ob) \<in> U))"

lemma differ_onD: "differ_on D T U \<Longrightarrow> p \<notin> D \<Longrightarrow> (s, p, ob) \<in> T \<longleftrightarrow> (s, p, ob) \<in> U"
  by (simp add: differ_on_def)

lemma typed_differ: "differ_on D T U \<Longrightarrow> rdf_type v \<notin> D \<Longrightarrow> typed T v c = typed U v c"
  by (simp add: typed_def differ_onD)

lemma chain_rel_differ: "differ_on D T U \<Longrightarrow> set ps \<inter> D = {} \<Longrightarrow> chain_rel T ps = chain_rel U ps"
  by (induction ps) (auto simp: differ_onD)

lemma some_pair_cong: "(\<And>x y. x \<in> set xs \<Longrightarrow> y \<in> set xs \<Longrightarrow> P x y \<longleftrightarrow> Q x y) \<Longrightarrow> some_pair P xs = some_pair Q xs"
  by (induction xs) auto

lemma heads_differ:
  assumes d: "differ_on D T U"
  shows "set ps \<inter> D = {} \<Longrightarrow> spo2_heads T q ps = spo2_heads U q ps"
    and "rdf_type v \<notin> D \<Longrightarrow> set ps \<inter> D = {} \<Longrightarrow> key_heads T v c ps = key_heads U v c ps"
    and "rdf_type v \<notin> D \<Longrightarrow> int1_heads T v c cs = int1_heads U v c cs"
    and "rdf_type v \<notin> D \<Longrightarrow> uni_heads T v c cs = uni_heads U v c cs"
    and "rdf_type v \<notin> D \<Longrightarrow> adc_heads T v cs = adc_heads U v cs"
    and "set ps \<inter> D = {} \<Longrightarrow> adp_heads T v ps = adp_heads U v ps"
    and "rdf_type v \<notin> D \<Longrightarrow> mc_property r \<notin> D \<Longrightarrow> max_card_heads T v r = max_card_heads U v r"
    and "rdf_type v \<notin> D \<Longrightarrow> qmc_property q' \<notin> D \<Longrightarrow> qual_max_card_heads T v q' = qual_max_card_heads U v q'"
proof -
  show "set ps \<inter> D = {} \<Longrightarrow> spo2_heads T q ps = spo2_heads U q ps"
    by (simp add: spo2_heads_def chain_rel_differ [OF d])
  show "rdf_type v \<notin> D \<Longrightarrow> set ps \<inter> D = {} \<Longrightarrow> key_heads T v c ps = key_heads U v c ps"
  proof -
    assume t: "rdf_type v \<notin> D" and ps: "set ps \<inter> D = {}"
    have "p \<in> set ps \<Longrightarrow> (x, p, z) \<in> T \<longleftrightarrow> (x, p, z) \<in> U" for p x z
      using ps differ_onD [OF d] by blast
    then show ?thesis unfolding key_heads_def typed_differ [OF d t] by (simp cong: ball_cong)
  qed
  show "rdf_type v \<notin> D \<Longrightarrow> int1_heads T v c cs = int1_heads U v c cs"
    "rdf_type v \<notin> D \<Longrightarrow> uni_heads T v c cs = uni_heads U v c cs"
    "rdf_type v \<notin> D \<Longrightarrow> adc_heads T v cs = adc_heads U v cs"
    by (simp_all add: int1_heads_def uni_heads_def adc_heads_def typed_differ [OF d])
  show "set ps \<inter> D = {} \<Longrightarrow> adp_heads T v ps = adp_heads U v ps"
  proof -
    assume ps: "set ps \<inter> D = {}"
    have "some_pair (\<lambda>pi pj. \<exists>w. (u, pi, w) \<in> T \<and> (u, pj, w) \<in> T) ps
        = some_pair (\<lambda>pi pj. \<exists>w. (u, pi, w) \<in> U \<and> (u, pj, w) \<in> U) ps" for u
      by (rule some_pair_cong) (use ps differ_onD [OF d] in blast)
    then show ?thesis by (simp add: adp_heads_def)
  qed
  have q: "rdf_type v \<notin> D \<Longrightarrow> qualifying T v f = qualifying U v f" for f
    by (simp add: fun_eq_iff qualifying_def typed_differ [OF d])
  show "rdf_type v \<notin> D \<Longrightarrow> mc_property r \<notin> D \<Longrightarrow> max_card_heads T v r = max_card_heads U v r"
    by (simp add: max_card_heads_def max_zero_heads_def max_one_heads_def typed_differ [OF d] differ_onD [OF d])
  show "rdf_type v \<notin> D \<Longrightarrow> qmc_property q' \<notin> D \<Longrightarrow> qual_max_card_heads T v q' = qual_max_card_heads U v q'"
    by (simp add: qual_max_card_heads_def max_zero_heads_def max_one_heads_def typed_differ [OF d] differ_onD [OF d] q)
qed

lemma chain_heads_differ:
  assumes d: "differ_on D T U" and "\<not> any_dirty_for_chains ax (Some D)"
  shows "chain_heads T ax = chain_heads U ax"
proof -
  have "set ps \<inter> D = {}" if "(p, ps) \<in> set (property_chains ax)" for p ps
    using that assms(2) by (fastforce simp: any_dirty_for_chains_def list_ex_iff)
  then show ?thesis using heads_differ(1) [OF d] unfolding chain_heads_def by (intro SUP_cong) auto
qed

lemma keyed_heads_differ:
  assumes d: "differ_on D T U" and "\<not> any_dirty_for_keys ax v (Some D)"
  shows "keyed_heads T v ax = keyed_heads U v ax"
proof -
  have "rdf_type v \<notin> D" using assms(2) by (simp add: any_dirty_for_keys_def)
  moreover have "set ps \<inter> D = {}" if "(p, ps) \<in> set (keys ax)" for p ps
    using that assms(2) by (fastforce simp: any_dirty_for_keys_def list_ex_iff)
  ultimately show ?thesis using heads_differ(2) [OF d] unfolding keyed_heads_def by (intro SUP_cong) auto
qed

lemma typed_heads_differ:
  assumes d: "differ_on D T U" and "rdf_type v \<notin> D"
  shows "intersection_heads T v ax = intersection_heads U v ax" and "union_heads T v ax = union_heads U v ax"
    and "disjoint_class_heads T v ax = disjoint_class_heads U v ax"
  using heads_differ(3-5) [OF d assms(2)]
  by (simp_all add: intersection_heads_def union_heads_def disjoint_class_heads_def)

lemma disjoint_property_heads_differ:
  assumes d: "differ_on D T U" and "\<not> any_dirty_for_disjoint_properties ax (Some D)"
  shows "disjoint_property_heads T v ax = disjoint_property_heads U v ax"
proof -
  have "set ps \<inter> D = {}" if "ps \<in> set (all_disjoint_properties ax)" for ps
    using that assms(2) by (fastforce simp: any_dirty_for_disjoint_properties_def list_ex_iff)
  then show ?thesis using heads_differ(6) [OF d] unfolding disjoint_property_heads_def by (intro SUP_cong) auto
qed

lemma max_heads_differ:
  assumes d: "differ_on D T U"
  shows "max_heads T v (\<lambda>_. True) ax \<subseteq> max_heads T v (\<lambda>r. rdf_type v \<in> D \<or> mc_property r \<in> D) ax
      \<union> max_heads U v (\<lambda>_. True) ax"
    and "qual_max_heads T v (\<lambda>_. True) ax \<subseteq> qual_max_heads T v (\<lambda>r. rdf_type v \<in> D \<or> qmc_property r \<in> D) ax
      \<union> qual_max_heads U v (\<lambda>_. True) ax"
proof -
  note h = heads_differ(7,8) [OF d]
  show "max_heads T v (\<lambda>_. True) ax \<subseteq> max_heads T v (\<lambda>r. rdf_type v \<in> D \<or> mc_property r \<in> D) ax
      \<union> max_heads U v (\<lambda>_. True) ax"
  proof
    fix t assume "t \<in> max_heads T v (\<lambda>_. True) ax"
    then obtain r where "r \<in> set (max_card_restrictions ax)" "t \<in> max_card_heads T v r" by (auto simp: max_heads_def)
    then show "t \<in> max_heads T v (\<lambda>r. rdf_type v \<in> D \<or> mc_property r \<in> D) ax \<union> max_heads U v (\<lambda>_. True) ax"
      using h(1) [of v r] by (cases "rdf_type v \<in> D \<or> mc_property r \<in> D") (auto simp: max_heads_def)
  qed
  show "qual_max_heads T v (\<lambda>_. True) ax \<subseteq> qual_max_heads T v (\<lambda>r. rdf_type v \<in> D \<or> qmc_property r \<in> D) ax
      \<union> qual_max_heads U v (\<lambda>_. True) ax"
  proof
    fix t assume "t \<in> qual_max_heads T v (\<lambda>_. True) ax"
    then obtain r where "r \<in> set (qual_max_card_restrictions ax)" "t \<in> qual_max_card_heads T v r"
      by (auto simp: qual_max_heads_def)
    then show "t \<in> qual_max_heads T v (\<lambda>r. rdf_type v \<in> D \<or> qmc_property r \<in> D) ax \<union> qual_max_heads U v (\<lambda>_. True) ax"
      using h(2) [of v r] by (cases "rdf_type v \<in> D \<or> qmc_property r \<in> D") (auto simp: qual_max_heads_def)
  qed
qed

text \<open>A conclusion that the dirty tests suppress was one already before the change.\<close>

lemma prune_lossless:
  assumes d: "differ_on D T U"
  shows "list_heads T v ax \<subseteq> fired_heads T v ax (Some D) \<union> T \<union> list_heads U v ax"
proof -
  let ?F = "fired_heads T v ax (Some D) \<union> T \<union> list_heads U v ax"
  have guard: "X \<subseteq> (if A \<noteq> [] \<and> c then X - T else {}) \<union> T \<union> Y" "X \<subseteq> (if A \<noteq> [] \<and> c then X else {}) \<union> Y"
    if "\<not> c \<Longrightarrow> X = Y" "A = [] \<Longrightarrow> X = {}" for X Y :: "triple set" and c and A :: "'z list"
    using that by auto
  have 1: "chain_heads T ax \<subseteq> (if property_chains ax \<noteq> [] \<and> any_dirty_for_chains ax (Some D) then chain_heads T ax else {})
      \<union> chain_heads U ax"
    by (rule guard(2)) (simp_all add: chain_heads_differ [OF d], simp add: chain_heads_def)
  have 2: "keyed_heads T v ax \<subseteq> (if keys ax \<noteq> [] \<and> any_dirty_for_keys ax v (Some D) then keyed_heads T v ax - T else {})
      \<union> T \<union> keyed_heads U v ax"
    by (rule guard(1)) (simp_all add: keyed_heads_differ [OF d], simp add: keyed_heads_def)
  have 3: "intersection_heads T v ax \<subseteq> (if intersections ax \<noteq> [] \<and> is_dirty (Some D) (rdf_type v)
      then intersection_heads T v ax - T else {}) \<union> T \<union> intersection_heads U v ax"
    by (rule guard(1)) (simp_all add: is_dirty_def typed_heads_differ [OF d], simp add: intersection_heads_def)
  have 5: "union_heads T v ax \<subseteq> (if unions ax \<noteq> [] \<and> is_dirty (Some D) (rdf_type v)
      then union_heads T v ax - T else {}) \<union> T \<union> union_heads U v ax"
    by (rule guard(1)) (simp_all add: is_dirty_def typed_heads_differ [OF d], simp add: union_heads_def)
  have 6: "disjoint_class_heads T v ax \<subseteq> (if all_disjoint_classes ax \<noteq> [] \<and> is_dirty (Some D) (rdf_type v)
      then disjoint_class_heads T v ax - T else {}) \<union> T \<union> disjoint_class_heads U v ax"
    by (rule guard(1)) (simp_all add: is_dirty_def typed_heads_differ [OF d], simp add: disjoint_class_heads_def)
  have 7: "disjoint_property_heads T v ax \<subseteq> (if all_disjoint_properties ax \<noteq> []
      \<and> any_dirty_for_disjoint_properties ax (Some D) then disjoint_property_heads T v ax - T else {})
      \<union> T \<union> disjoint_property_heads U v ax"
    by (rule guard(1)) (simp_all add: disjoint_property_heads_differ [OF d], simp add: disjoint_property_heads_def)
  note 9 = max_heads_differ [OF d, of v ax]
  have dirty: "is_dirty (Some D) p \<longleftrightarrow> p \<in> D" for p by (simp add: is_dirty_def)
  show ?thesis
    unfolding list_heads_def [of T] fired_heads_def [of T]
    using 1 2 3 5 6 7 9 unfolding list_heads_def [of U] dirty by blast
qed

lemma body_predicates_mem:
  "(p, ps) \<in> set (property_chains ax) \<Longrightarrow> insert p (set ps) \<subseteq> body_predicates ax v"
  "(p, ps) \<in> set (keys ax) \<Longrightarrow> insert (rdf_type v) (set ps) \<subseteq> body_predicates ax v"
  "ps \<in> set (all_disjoint_properties ax) \<Longrightarrow> set ps \<subseteq> body_predicates ax v"
  "r \<in> set (max_card_restrictions ax) \<Longrightarrow> {rdf_type v, mc_property r} \<subseteq> body_predicates ax v"
  "q \<in> set (qual_max_card_restrictions ax) \<Longrightarrow> {rdf_type v, qmc_property q} \<subseteq> body_predicates ax v"
  "intersections ax \<noteq> [] \<or> unions ax \<noteq> [] \<or> all_disjoint_classes ax \<noteq> [] \<Longrightarrow> rdf_type v \<in> body_predicates ax v"
proof -
  show "(p, ps) \<in> set (property_chains ax) \<Longrightarrow> insert p (set ps) \<subseteq> body_predicates ax v"
    by (force simp: body_predicates_def)
  show "(p, ps) \<in> set (keys ax) \<Longrightarrow> insert (rdf_type v) (set ps) \<subseteq> body_predicates ax v"
    by (force simp: body_predicates_def)
  show "ps \<in> set (all_disjoint_properties ax) \<Longrightarrow> set ps \<subseteq> body_predicates ax v"
    unfolding body_predicates_def by blast
  show "r \<in> set (max_card_restrictions ax) \<Longrightarrow> {rdf_type v, mc_property r} \<subseteq> body_predicates ax v"
    by (auto simp: body_predicates_def)
  show "q \<in> set (qual_max_card_restrictions ax) \<Longrightarrow> {rdf_type v, qmc_property q} \<subseteq> body_predicates ax v"
    by (auto simp: body_predicates_def)
  show "intersections ax \<noteq> [] \<or> unions ax \<noteq> [] \<or> all_disjoint_classes ax \<noteq> [] \<Longrightarrow> rdf_type v \<in> body_predicates ax v"
    by (simp add: body_predicates_def)
qed

text \<open>Without any dirty body predicate every conclusion was one before.\<close>

lemma irrelevant_lossless:
  assumes d: "differ_on D T U" and "\<not> list_rules_relevant ax (Some D) v"
  shows "list_heads T v ax \<subseteq> list_heads U v ax"
proof (cases "axioms_is_empty ax")
  case True
  then show ?thesis
    by (simp add: list_heads_def axioms_is_empty_def chain_heads_def keyed_heads_def intersection_heads_def
        subclass_heads_def union_heads_def disjoint_class_heads_def disjoint_property_heads_def different_heads_def
        max_heads_def qual_max_heads_def)
next
  case False
  then have "body_predicates ax v \<inter> D = {}"
    using assms(2) by (auto simp: list_rules_relevant_def split: if_splits)
  then have B: "p \<in> body_predicates ax v \<Longrightarrow> p \<notin> D" for p by blast
  note mem = body_predicates_mem [where ax = ax and v = v]
  have 1: "chain_heads T ax = chain_heads U ax"
    by (rule chain_heads_differ [OF d])
      (use mem(1) B in \<open>auto simp: any_dirty_for_chains_def list_ex_iff\<close>)
  have 2: "keyed_heads T v ax = keyed_heads U v ax"
  proof (cases "keys ax = []")
    case False
    then obtain c ps where "(c, ps) \<in> set (keys ax)" by (cases "keys ax") auto
    then have "rdf_type v \<notin> D" using mem(2) B by blast
    moreover have "set ps \<inter> D = {}" if "(c, ps) \<in> set (keys ax)" for c ps
      using mem(2) [OF that] B by blast
    ultimately show ?thesis
      by (intro keyed_heads_differ [OF d]) (fastforce simp: any_dirty_for_keys_def list_ex_iff)
  qed (simp add: keyed_heads_def)
  have 3: "intersection_heads T v ax = intersection_heads U v ax \<and> union_heads T v ax = union_heads U v ax
      \<and> disjoint_class_heads T v ax = disjoint_class_heads U v ax"
  proof (cases "intersections ax \<noteq> [] \<or> unions ax \<noteq> [] \<or> all_disjoint_classes ax \<noteq> []")
    case True
    then have "rdf_type v \<notin> D" using mem(6) B by blast
    then show ?thesis using typed_heads_differ [OF d] by blast
  qed (simp add: intersection_heads_def union_heads_def disjoint_class_heads_def)
  have 7: "disjoint_property_heads T v ax = disjoint_property_heads U v ax"
    by (rule disjoint_property_heads_differ [OF d])
      (use mem(3) B in \<open>auto simp: any_dirty_for_disjoint_properties_def list_ex_iff\<close>)
  have 9: "max_heads T v (\<lambda>r. rdf_type v \<in> D \<or> mc_property r \<in> D) ax = {}"
    unfolding max_heads_def using mem(4) B by blast
  have 10: "qual_max_heads T v (\<lambda>r. rdf_type v \<in> D \<or> qmc_property r \<in> D) ax = {}"
    unfolding qual_max_heads_def using mem(5) B by blast
  show ?thesis
    unfolding list_heads_def 1 2 7 using 3 max_heads_differ [OF d, of v ax] unfolding 9 10 by blast
qed

section \<open>Properties\<close>

text \<open>C29: In the first round the list rules conclude exactly what their OWL 2 RL premises entail over
  the stored triples, beyond what is stored, for every iteration order, thread schedule and
  parallel strategy; every triple of the delta has a proof whose premises are all in the store.\<close>

theorem fire_all_first_exact:
  assumes "ms_inv m" and "axioms_from m v ax"
  shows "d_triples (fire_all h w m ax v None par) - all_triples m = list_heads (all_triples m) v ax - all_triples m
    \<and> delta_ok (fire_all h w m ax v None par)
    \<and> (\<forall>t pr. d_proofs (fire_all h w m ax v None par) t = Some pr \<longrightarrow> set (prov_premises pr) \<subseteq> all_triples m)"
proof -
  have m: "mirrored m" using assms(1) by (simp add: ms_inv_def)
  obtain f where f: "fires m (fired_heads (all_triples m) v ax None) f" "fire_all h w m ax v None par = f delta_new"
    using fire_all_fires [OF m assms(2)] by blast
  show ?thesis
    using fires_new [OF f(1)] fired_heads_first [of "all_triples m" v ax] unfolding f(2) grounded_def by blast
qed

text \<open>Two subjects of a keyed class that agree on the key property 5.\<close>

definition key_store :: mem_store where
  "key_store = (let v = synthetic 100 in assert_all
     [(20, rdf_type v, 10), (21, rdf_type v, 10), (20, 5, 7), (21, 5, 7),
      (10, owl_has_key v, 50), (50, rdf_first v, 5), (50, rdf_rest v, rdf_nil v)] (ms_new v))"

definition key_axioms :: schema_axioms where
  "key_axioms = no_axioms\<lparr>keys := [(10, [5])]\<rparr>"

definition in_turn :: schedule where
  "in_turn = Schedule (\<lambda>n. [0..<n])"

lemma key_store_triples: "all_triples key_store = (let v = synthetic 100 in
     {(20, rdf_type v, 10), (21, rdf_type v, 10), (20, 5, 7), (21, 5, 7),
      (10, owl_has_key v, 50), (50, rdf_first v, 5), (50, rdf_rest v, rdf_nil v)})"
  using assert_all_spec [OF ms_inv_new(1)] by (simp add: key_store_def Let_def)

lemma key_store_inv: "ms_inv key_store"
  using assert_all_spec [OF ms_inv_new(1)] by (simp add: key_store_def Let_def)

lemma key_store_axioms: "axioms_from key_store (synthetic 100) key_axioms"
proof -
  have "list_at (all_triples key_store) (synthetic 100) 50 [5]"
    by (rule list_at.cell [OF _ _ _ list_at.nil]) (simp_all add: key_store_triples Let_def synthetic_def)
  then show ?thesis
    by (auto simp: axioms_from_def key_axioms_def no_axioms_def key_store_triples Let_def)
qed

lemma key_heads_store:
  "list_heads T (synthetic 100) key_axioms = key_heads T (synthetic 100) 10 [5]"
  by (simp add: list_heads_def key_axioms_def no_axioms_def chain_heads_def keyed_heads_def intersection_heads_def
      subclass_heads_def union_heads_def disjoint_class_heads_def disjoint_property_heads_def different_heads_def
      max_heads_def qual_max_heads_def)

lemma key_conclusion:
  "(20, owl_same_as (synthetic 100), 21) \<in> list_heads (all_triples key_store) (synthetic 100) key_axioms - all_triples key_store"
  unfolding key_heads_store key_heads_def typed_def key_store_triples Let_def by (simp add: synthetic_def)

lemma fire_all_first_exact_witness:
  "ms_inv key_store \<and> axioms_from key_store (synthetic 100) key_axioms
   \<and> (20, owl_same_as (synthetic 100), 21)
       \<in> d_triples (fire_all asc in_turn key_store key_axioms (synthetic 100) None Auto)"
  using fire_all_first_exact [OF key_store_inv key_store_axioms, of asc in_turn Auto]
    key_store_inv key_store_axioms key_conclusion by blast

text \<open>C30: Pruning by dirty predicates loses nothing: when the store changed only on the dirty
  predicates and held the earlier conclusions, one pruned call adds every conclusion still missing
  and nothing the rules do not entail; when no body predicate is dirty there is none missing.\<close>

theorem fire_all_prune_lossless:
  assumes "ms_inv m" and "axioms_from m v ax" and "differ_on D (all_triples m) U"
    and "list_heads U v ax \<subseteq> all_triples m"
  shows "list_heads (all_triples m) v ax \<subseteq> all_triples m \<union> d_triples (fire_all h w m ax v (Some D) par)
    \<and> d_triples (fire_all h w m ax v (Some D) par) \<subseteq> list_heads (all_triples m) v ax
    \<and> (\<not> list_rules_relevant ax (Some D) v \<longrightarrow> list_heads (all_triples m) v ax \<subseteq> all_triples m)"
proof -
  have m: "mirrored m" using assms(1) by (simp add: ms_inv_def)
  obtain f where f: "fires m (fired_heads (all_triples m) v ax (Some D)) f"
    "fire_all h w m ax v (Some D) par = f delta_new"
    using fire_all_fires [OF m assms(2)] by blast
  show ?thesis
    using fires_new(1) [OF f(1)] fired_heads_sound [of "all_triples m" v ax "Some D"]
      prune_lossless [OF assms(3), of v ax] irrelevant_lossless [OF assms(3), of ax v] assms(4)
    unfolding f(2) by blast
qed

lemma fire_all_prune_lossless_witness:
  "ms_inv key_store \<and> axioms_from key_store (synthetic 100) key_axioms
   \<and> (20, owl_same_as (synthetic 100), 21)
       \<in> d_triples (fire_all asc in_turn key_store key_axioms (synthetic 100) (Some UNIV) Auto)"
proof -
  have "list_heads {} (synthetic 100) key_axioms \<subseteq> all_triples key_store"
    by (simp add: key_heads_store key_heads_def typed_def)
  moreover have "differ_on UNIV (all_triples key_store) {}" by (simp add: differ_on_def)
  ultimately show ?thesis
    using fire_all_prune_lossless [OF key_store_inv key_store_axioms, of UNIV "{}" asc in_turn Auto]
      key_store_inv key_store_axioms key_conclusion by blast
qed

text \<open>C31: The parallel and the sequential strategy, and any two iteration orders and schedules, give the
  same triples, in every round.\<close>

theorem fire_all_order_independent:
  assumes "ms_inv m" and "axioms_from m v ax"
  shows "d_triples (fire_all h w m ax v dirty Auto) = d_triples (fire_all h' w' m ax v dirty Serial)"
proof -
  have m: "mirrored m" using assms(1) by (simp add: ms_inv_def)
  show ?thesis
    using fire_all_fires [OF m assms(2), of dirty h w Auto] fire_all_fires [OF m assms(2), of dirty h' w' Serial]
    by (metis fires_new(1))
qed

lemma fire_all_order_independent_witness:
  "ms_inv key_store \<and> axioms_from key_store (synthetic 100) key_axioms
   \<and> d_triples (fire_all asc in_turn key_store key_axioms (synthetic 100) None Auto)
     = d_triples (fire_all asc (Schedule (\<lambda>n. rev [0..<n])) key_store key_axioms (synthetic 100) None Serial)"
  using fire_all_order_independent [OF key_store_inv key_store_axioms] key_store_inv key_store_axioms by blast

end
