(* ===== verification/Owl_Engine.thy ===== *)
theory Owl_Engine imports Eq_Rep_P List_Rules_Main begin

text \<open>
  \<^verbatim>\<open>crates/owlrl/src/engine.rs\<close>: the semi-naive driver. Each round fired the compiled rules, the
  list rules and the closure backend on the store, merges what they derive, applies it, and stops
  when nothing was new; from the second round on the rules read the triples applied last and rules
  whose predicates are untouched are skipped. The rule table and the backend are arguments; the
  backend's panic is the value \<open>None\<close>. Metrics and timings are not modelled.
\<close>

datatype eq_rep_p_strategy = Optimized | Naive_Eq_Rep_P
datatype firing_strategy = Semi_Naive | Naive_Firing

record materialize_opts =
  opt_eq_rep_p :: eq_rep_p_strategy
  opt_parallel :: parallel_strategy
  opt_firing :: firing_strategy

record stats =
  st_rounds :: nat
  st_inferred :: nat
  st_rule_fires :: nat

definition default_opts :: materialize_opts where
  "default_opts = \<lparr>opt_eq_rep_p = Optimized, opt_parallel = Auto, opt_firing = Semi_Naive\<rparr>"

definition rule_relevant :: "rule_spec \<Rightarrow> u64 set option \<Rightarrow> vocabulary \<Rightarrow> bool" where
  "rule_relevant r dirty v = (case dirty of
       None \<Rightarrow> True
     | Some d \<Rightarrow> wildcard_predicate r \<or> list_ex (\<lambda>f. vget v f \<in> d) (compiled_predicates r))"

fun compiled_rules ::
  "orders \<Rightarrow> materialize_opts \<Rightarrow> mem_store \<Rightarrow> u64 set option \<Rightarrow> mem_store option \<Rightarrow> rule_spec list
     \<Rightarrow> delta \<times> nat \<Rightarrow> (delta \<times> nat) option" where
  "compiled_rules h opts m dirty prev [] acc = Some acc"
| "compiled_rules h opts m dirty prev (r # rs) (d, fired) =
     (if rule_delegate r then compiled_rules h opts m dirty prev rs (d, fired)
      else if rule_id r = ''eq-rep-p'' \<and> opt_eq_rep_p opts = Optimized then
        (if rule_relevant r dirty (ms_vocab m) then
           (case fire_eq_rep_p_canonical h m of None \<Rightarrow> None
            | Some e \<Rightarrow> compiled_rules h opts m dirty prev rs (delta_merge h e d, fired + 1))
         else compiled_rules h opts m dirty prev rs (d, fired))
      else if \<not> rule_relevant r dirty (ms_vocab m) then compiled_rules h opts m dirty prev rs (d, fired)
      else compiled_rules h opts m dirty prev rs (delta_merge h (fire_rule h r m prev) d, fired + 1))"

definition apply_step :: "triple \<times> provenance \<Rightarrow> mem_store \<times> delta \<times> nat \<Rightarrow> mem_store \<times> delta \<times> nat" where
  "apply_step tp acc = (case (tp, acc) of ((t, pr), (m, applied, n)) \<Rightarrow>
     (let (fresh, m') = insert_inferred t pr m in
      if fresh then (m', delta_insert t pr applied, n + 1) else (m', applied, n)))"

definition apply_delta :: "orders \<Rightarrow> delta \<Rightarrow> mem_store \<Rightarrow> mem_store \<times> delta \<times> nat" where
  "apply_delta h d m = fold apply_step (delta_iter h d) (m, delta_new, 0)"

definition round_delta ::
  "orders \<Rightarrow> schedule \<Rightarrow> materialize_opts \<Rightarrow> rule_spec list \<Rightarrow> (mem_store \<Rightarrow> delta option) \<Rightarrow> schema_axioms
     \<Rightarrow> mem_store \<Rightarrow> u64 set option \<Rightarrow> mem_store option \<Rightarrow> (delta \<times> nat) option" where
  "round_delta h w opts rs backend ax m dirty prev =
     (case compiled_rules h opts m dirty prev rs (delta_new, 0) of None \<Rightarrow> None | Some (d, fired) \<Rightarrow>
       (let v = ms_vocab m;
            d = (if list_rules_relevant ax dirty v
                 then delta_merge h (fire_all h w m ax v dirty (opt_parallel opts)) d else d)
        in case backend m of None \<Rightarrow> None | Some b \<Rightarrow> Some (delta_merge h b d, fired)))"

partial_function (option) materialize_loop ::
  "orders \<Rightarrow> schedule \<Rightarrow> materialize_opts \<Rightarrow> rule_spec list \<Rightarrow> (mem_store \<Rightarrow> delta option) \<Rightarrow> schema_axioms
     \<Rightarrow> mem_store \<Rightarrow> u64 set option \<Rightarrow> mem_store option \<Rightarrow> stats \<Rightarrow> (mem_store \<times> stats) option" where
  "materialize_loop h w opts rs backend ax m dirty prev st =
     (case round_delta h w opts rs backend ax m dirty prev of None \<Rightarrow> None | Some (d, fired) \<Rightarrow>
       (let (m', applied, n) = apply_delta h d m;
            st' = st\<lparr>st_rounds := st_rounds st + 1, st_inferred := st_inferred st + n,
                     st_rule_fires := st_rule_fires st + fired\<rparr>
        in if delta_is_empty applied then Some (m', st')
           else materialize_loop h w opts rs backend ax m' (Some (dirty_predicates applied))
             (if opt_firing opts = Semi_Naive
              then Some (assert_all (iter (by_triple h) (d_triples applied)) (ms_new (ms_vocab m))) else prev) st'))"

definition materialize_with ::
  "orders \<Rightarrow> schedule \<Rightarrow> rule_spec list \<Rightarrow> (mem_store \<Rightarrow> delta option) \<Rightarrow> materialize_opts \<Rightarrow> mem_store
     \<Rightarrow> (mem_store \<times> stats) option" where
  "materialize_with h w rs backend opts m =
     materialize_loop h w opts rs backend (resolve h m (ms_vocab m)) m None None
       \<lparr>st_rounds = 0, st_inferred = 0, st_rule_fires = 0\<rparr>"

definition materialize ::
  "orders \<Rightarrow> schedule \<Rightarrow> rule_spec list \<Rightarrow> (mem_store \<Rightarrow> delta option) \<Rightarrow> mem_store \<Rightarrow> (mem_store \<times> stats) option" where
  "materialize h w rs backend m = materialize_with h w rs backend default_opts m"

definition reset_and_materialize ::
  "orders \<Rightarrow> schedule \<Rightarrow> rule_spec list \<Rightarrow> (mem_store \<Rightarrow> delta option) \<Rightarrow> mem_store \<Rightarrow> (mem_store \<times> stats) option" where
  "reset_and_materialize h w rs backend m = materialize h w rs backend (clear_inferred h m)"

section \<open>The saturation\<close>

text \<open>
  The closed extents on plain triple sets, the conclusions one round is about, and the least set of
  triples they lead to.
\<close>

definition triples_at :: "triple set \<Rightarrow> u64 \<Rightarrow> pair set" where
  "triples_at T p = {(s, ob). (s, p, ob) \<in> T}"

definition closed_at :: "vocabulary \<Rightarrow> u64 set \<Rightarrow> triple set \<Rightarrow> u64 \<Rightarrow> pair set" where
  "closed_at v X T p =
     (if p = owl_same_as v then (triples_at T p \<union> (triples_at T p)\<inverse>)\<^sup>+
      else if p \<in> X \<union> {rdfs_sub_class_of v, rdfs_sub_property_of v}
            \<or> (p, rdf_type v, owl_transitive_property v) \<in> T then (triples_at T p)\<^sup>+
      else triples_at T p)"

definition closure_heads :: "vocabulary \<Rightarrow> u64 set \<Rightarrow> triple set \<Rightarrow> triple set" where
  "closure_heads v X T = {(s, p, ob). (s, ob) \<in> closed_at v X T p}"

definition immediate ::
  "vocabulary \<Rightarrow> rule_spec list \<Rightarrow> schema_axioms \<Rightarrow> u64 set \<Rightarrow> triple set \<Rightarrow> triple set" where
  "immediate v rs ax X T = (\<Union>r\<in>{r \<in> set rs. \<not> rule_delegate r}. consequences v r T)
     \<union> list_heads T v ax \<union> closure_heads v X T"

definition saturation ::
  "vocabulary \<Rightarrow> rule_spec list \<Rightarrow> schema_axioms \<Rightarrow> u64 set \<Rightarrow> triple set \<Rightarrow> triple set" where
  "saturation v rs ax X T0 = \<Inter> {T. T0 \<subseteq> T \<and> immediate v rs ax X T \<subseteq> T}"

lemma triples_at_mono: "T \<subseteq> U \<Longrightarrow> triples_at T p \<subseteq> triples_at U p"
  by (auto simp: triples_at_def)

lemma if_cases_mono:
  "A \<subseteq> A' \<Longrightarrow> B \<subseteq> B' \<Longrightarrow> C \<subseteq> B' \<Longrightarrow> C \<subseteq> C' \<Longrightarrow> (c \<Longrightarrow> c') \<Longrightarrow>
   (if s then A else if c then B else C) \<subseteq> (if s then A' else if c' then B' else C')"
  by simp

lemma closed_at_mono:
  assumes "T \<subseteq> U" shows "closed_at v X T p \<subseteq> closed_at v X U p"
proof -
  have e: "triples_at T p \<subseteq> triples_at U p" using assms by (rule triples_at_mono)
  have 1: "(triples_at T p \<union> (triples_at T p)\<inverse>)\<^sup>+ \<subseteq> (triples_at U p \<union> (triples_at U p)\<inverse>)\<^sup>+"
    by (rule trancl_mono_subset) (use e in auto)
  have 2: "(triples_at T p)\<^sup>+ \<subseteq> (triples_at U p)\<^sup>+" by (rule trancl_mono_subset [OF e])
  have 3: "triples_at T p \<subseteq> (triples_at U p)\<^sup>+" using e by auto
  show ?thesis unfolding closed_at_def by (rule if_cases_mono [OF 1 2 3 e]) (use assms in blast)
qed

lemma closure_heads_mono: "T \<subseteq> U \<Longrightarrow> closure_heads v X T \<subseteq> closure_heads v X U"
  unfolding closure_heads_def by clarify (erule (1) closed_at_mono [THEN subsetD])

lemma chain_rel_mono: "T \<subseteq> U \<Longrightarrow> chain_rel T ps \<subseteq> chain_rel U ps"
  by (induction ps) (auto intro!: relcomp_mono)

lemma some_pair_mono: "some_pair P xs \<Longrightarrow> (\<And>x y. P x y \<Longrightarrow> Q x y) \<Longrightarrow> some_pair Q xs"
  unfolding some_pair_def by blast

lemma head_sets_mono:
  assumes "T \<subseteq> U"
  shows "spo2_heads T p ps \<subseteq> spo2_heads U p ps" "key_heads T v c ps \<subseteq> key_heads U v c ps"
    "int1_heads T v c cs \<subseteq> int1_heads U v c cs" "uni_heads T v c cs \<subseteq> uni_heads U v c cs"
    "adc_heads T v cs \<subseteq> adc_heads U v cs" "adp_heads T v ps \<subseteq> adp_heads U v ps"
    "max_card_heads T v r \<subseteq> max_card_heads U v r" "qual_max_card_heads T v q \<subseteq> qual_max_card_heads U v q"
proof -
  have t: "typed T v c \<subseteq> typed U v c" for c using assms by (auto simp: typed_def)
  show "spo2_heads T p ps \<subseteq> spo2_heads U p ps" using chain_rel_mono [OF assms] by (auto simp: spo2_heads_def)
  show "key_heads T v c ps \<subseteq> key_heads U v c ps" unfolding key_heads_def using t assms by blast
  show "int1_heads T v c cs \<subseteq> int1_heads U v c cs" unfolding int1_heads_def using t by blast
  show "uni_heads T v c cs \<subseteq> uni_heads U v c cs" unfolding uni_heads_def using t by blast
  show "adc_heads T v cs \<subseteq> adc_heads U v cs" unfolding adc_heads_def using t by (blast intro: some_pair_mono)
  show "adp_heads T v ps \<subseteq> adp_heads U v ps" unfolding adp_heads_def using assms by (blast intro: some_pair_mono)
  have z: "max_zero_heads T v c p Q \<subseteq> max_zero_heads U v c p Q'" "max_one_heads T v c p Q \<subseteq> max_one_heads U v c p Q'"
    if "\<And>y. Q y \<Longrightarrow> Q' y" for c p Q Q'
    unfolding max_zero_heads_def max_one_heads_def using that t assms by blast+
  show "max_card_heads T v r \<subseteq> max_card_heads U v r" using z by (auto simp: max_card_heads_def)
  have "qualifying T v f y \<Longrightarrow> qualifying U v f y" for f y using t by (auto simp: qualifying_def)
  then show "qual_max_card_heads T v q \<subseteq> qual_max_card_heads U v q"
    using z [of "qualifying T v (qmc_filler q)" "qualifying U v (qmc_filler q)"]
    by (auto simp: qual_max_card_heads_def)
qed

lemma list_heads_mono:
  assumes "T \<subseteq> U" shows "list_heads T v ax \<subseteq> list_heads U v ax"
proof -
  note m = head_sets_mono [OF assms]
  have "chain_heads T ax \<subseteq> chain_heads U ax" unfolding chain_heads_def using m(1) by blast
  moreover have "keyed_heads T v ax \<subseteq> keyed_heads U v ax" unfolding keyed_heads_def using m(2) by blast
  moreover have "intersection_heads T v ax \<subseteq> intersection_heads U v ax" unfolding intersection_heads_def using m(3) by blast
  moreover have "union_heads T v ax \<subseteq> union_heads U v ax" unfolding union_heads_def using m(4) by blast
  moreover have "disjoint_class_heads T v ax \<subseteq> disjoint_class_heads U v ax" unfolding disjoint_class_heads_def using m(5) by blast
  moreover have "disjoint_property_heads T v ax \<subseteq> disjoint_property_heads U v ax" unfolding disjoint_property_heads_def using m(6) by blast
  moreover have "max_heads T v P ax \<subseteq> max_heads U v P ax" for P unfolding max_heads_def using m(7) by blast
  moreover have "qual_max_heads T v P ax \<subseteq> qual_max_heads U v P ax" for P unfolding qual_max_heads_def using m(8) by blast
  ultimately show ?thesis unfolding list_heads_def by (intro Un_mono) blast+
qed

lemma immediate_mono: "T \<subseteq> U \<Longrightarrow> immediate v rs ax X T \<subseteq> immediate v rs ax X U"
  unfolding immediate_def
  by (intro Un_mono UN_mono subset_refl consequences_mono list_heads_mono closure_heads_mono)

lemma saturation_base: "T0 \<subseteq> saturation v rs ax X T0"
  by (auto simp: saturation_def)

lemma saturation_least: "T0 \<subseteq> T \<Longrightarrow> immediate v rs ax X T \<subseteq> T \<Longrightarrow> saturation v rs ax X T0 \<subseteq> T"
  by (auto simp: saturation_def)

lemma saturation_closed: "immediate v rs ax X (saturation v rs ax X T0) \<subseteq> saturation v rs ax X T0"
proof -
  have "immediate v rs ax X (saturation v rs ax X T0) \<subseteq> T" if "T0 \<subseteq> T" "immediate v rs ax X T \<subseteq> T" for T
    using immediate_mono [OF saturation_least [OF that], of v rs ax X] that(2) by blast
  then show ?thesis unfolding saturation_def [of v rs ax X T0] by blast
qed


section \<open>Applying a delta\<close>

lemma add_pair_vocab [simp]: "ms_vocab (snd (add_pair t m)) = ms_vocab m"
  by (cases t) (simp add: add_pair_def Let_def)

lemma insert_inferred_vocab [simp]: "ms_vocab (snd (insert_inferred t pr m)) = ms_vocab m"
  by (cases "add_pair t m") (use add_pair_vocab [of t m] in \<open>simp add: insert_inferred_def\<close>)

lemma apply_step_eq:
  "apply_step (t, pr) (m, applied, n) =
     (snd (insert_inferred t pr m), if fst (insert_inferred t pr m) then delta_insert t pr applied else applied,
      if fst (insert_inferred t pr m) then n + 1 else n)"
proof -
  obtain b m' where i: "insert_inferred t pr m = (b, m')" by (cases "insert_inferred t pr m")
  have "\<not> b \<Longrightarrow> snd (insert_inferred t pr m) = m'" using i by simp
  then show ?thesis using i by (simp add: apply_step_def)
qed

lemma apply_fold:
  "ms_inv m \<Longrightarrow> distinct (map fst tps) \<Longrightarrow> fold apply_step tps (m, applied, n) = (m', applied', n') \<Longrightarrow>
   ms_inv m' \<and> ms_vocab m' = ms_vocab m \<and> all_triples m' = all_triples m \<union> fst ` set tps
   \<and> ms_inferred m' = ms_inferred m \<union> (fst ` set tps - all_triples m)
   \<and> d_triples applied' = d_triples applied \<union> (fst ` set tps - all_triples m)
   \<and> n' = n + card (fst ` set tps - all_triples m)"
proof (induction tps arbitrary: m applied n)
  case (Cons tp tps)
  obtain t pr where tp: "tp = (t, pr)" by (cases tp)
  define m1 where "m1 = snd (insert_inferred t pr m)"
  note i = insert_inferred_spec [OF Cons.prems(1), of t pr, folded m1_def]
  have v: "ms_vocab m1 = ms_vocab m" by (simp add: m1_def)
  define a1 n1 where "a1 = (if t \<notin> all_triples m then delta_insert t pr applied else applied)"
    and "n1 = (if t \<notin> all_triples m then n + 1 else n)"
  have "fold apply_step tps (m1, a1, n1) = (m', applied', n')"
    using Cons.prems(3) i by (simp add: tp apply_step_eq a1_def n1_def m1_def)
  note IH = Cons.IH [OF i [THEN conjunct1] _ this]
  have t: "t \<notin> fst ` set tps" "distinct (map fst tps)" using Cons.prems(2) by (auto simp: tp)
  note IH = IH [OF t(2)]
  have at: "all_triples m1 = insert t (all_triples m)" using i by blast
  then have diff: "fst ` set (tp # tps) - all_triples m
      = (if t \<in> all_triples m then {} else {t}) \<union> (fst ` set tps - all_triples m1)"
    by (auto simp: tp)
  have "card (fst ` set (tp # tps) - all_triples m)
      = (if t \<in> all_triples m then 0 else 1) + card (fst ` set tps - all_triples m1)"
    unfolding diff using t(1) at by (subst card_Un_disjoint) auto
  then show ?case
    using IH i v unfolding diff by (auto simp: a1_def n1_def tp)
qed simp

lemma apply_delta_spec:
  assumes "ms_inv m" and "apply_delta h d m = (m', applied, n)"
  shows "ms_inv m' \<and> ms_vocab m' = ms_vocab m \<and> all_triples m' = all_triples m \<union> d_triples d
   \<and> ms_inferred m' = ms_inferred m \<union> (d_triples d - all_triples m)
   \<and> d_triples applied = d_triples d - all_triples m \<and> n = card (d_triples d - all_triples m)"
proof -
  have k: "fst ` set (delta_iter h d) = d_triples d" using delta_iter_fst [of h d] by (metis list.set_map set_iter)
  show ?thesis
    using apply_fold [OF assms(1) _ assms(2) [unfolded apply_delta_def]] by (simp add: k)
qed

lemma delta_merge_triples [simp]: "d_triples (delta_merge h e d) = d_triples e \<union> d_triples d"
  by (simp add: delta_merge_def merge_fold)

section \<open>One round\<close>

text \<open>
  What the loop knows when a round begins: in the first round nothing, later the store \<open>U\<close> of the
  round before, whose conclusions have all been applied, the predicates that changed since, and
  under semi-naive firing the triples that are new.
\<close>

definition seen ::
  "vocabulary \<Rightarrow> rule_spec list \<Rightarrow> schema_axioms \<Rightarrow> u64 set \<Rightarrow> mem_store \<Rightarrow> u64 set option \<Rightarrow> mem_store option \<Rightarrow> bool" where
  "seen v rs ax X m dirty prev \<longleftrightarrow> (case dirty of None \<Rightarrow> prev = None
     | Some D \<Rightarrow> \<exists>U \<subseteq> all_triples m. immediate v rs ax X U \<subseteq> all_triples m
         \<and> D = (fst \<circ> snd) ` (all_triples m - U)
         \<and> (case prev of None \<Rightarrow> True | Some d \<Rightarrow> mirrored d \<and> all_triples d = all_triples m - U))"

definition engine_rules :: "rule_spec list \<Rightarrow> bool" where
  "engine_rules rs \<longleftrightarrow> (\<forall>r\<in>set rs. rule_delegate r \<or> compilable r)
     \<and> (\<forall>r\<in>set rs. rule_id r = ''eq-rep-p'' \<longrightarrow> r = eq_rep_p)"

lemma table_engine_rules: "table_ok rs \<Longrightarrow> engine_rules rs"
proof -
  assume t: "table_ok rs"
  have "r = eq_rep_p" if "r \<in> set rs" "rule_id r = ''eq-rep-p''" for r
  proof -
    have "filter (\<lambda>r. rule_id r = ''eq-rep-p'') rs = [eq_rep_p]" using t by (simp add: table_ok_def)
    moreover have "r \<in> set (filter (\<lambda>r. rule_id r = ''eq-rep-p'') rs)" using that by simp
    ultimately show ?thesis by (metis empty_set list.simps(15) singletonD)
  qed
  then show ?thesis using t by (auto simp: engine_rules_def table_ok_def list_all_iff)
qed

lemma immediate_rule:
  "r \<in> set rs \<Longrightarrow> \<not> rule_delegate r \<Longrightarrow> consequences v r T \<subseteq> immediate v rs ax X T"
  by (auto simp: immediate_def)

text \<open>A fired rule adds its missing conclusions, a skipped one has none.\<close>

lemma fired_complete:
  assumes s: "seen (ms_vocab m) rs ax X m dirty prev" and r: "r \<in> set rs" "\<not> rule_delegate r" "compilable r"
    and m: "mirrored m"
  shows "consequences (ms_vocab m) r (all_triples m) \<subseteq> all_triples m \<union> d_triples (fire_rule h r m prev)"
    and "d_triples (fire_rule h r m prev) \<subseteq> consequences (ms_vocab m) r (all_triples m)"
proof -
  let ?v = "ms_vocab m" and ?T = "all_triples m"
  have "consequences ?v r ?T \<subseteq> ?T \<union> d_triples (fire_rule h r m prev)
     \<and> d_triples (fire_rule h r m prev) \<subseteq> consequences ?v r ?T"
  proof (cases prev)
    case None
    then show ?thesis
      using fire_rule_spec [OF r(3,2) m, of prev h] by (auto simp: fired_rule_heads_def consequences_def)
  next
    case (Some d)
    then obtain D U where U: "U \<subseteq> ?T" "immediate ?v rs ax X U \<subseteq> ?T" "mirrored d" "all_triples d = ?T - U"
      using s by (auto simp: seen_def split: option.splits)
    have f: "d_triples (fire_rule h r m prev) = fired_rule_heads ?v r ?T (Some (?T - U)) - ?T"
      using fire_rule_spec [OF r(3,2) m, of prev h] Some U by simp
    have "?T - (?T - U) = U" using U(1) by blast
    then have "consequences ?v r ?T \<subseteq> consequences ?v r U \<union> fired_rule_heads ?v r ?T (Some (?T - U))"
      using semi_naive_split [of ?v r ?T "?T - U"] by simp
    moreover have "consequences ?v r U \<subseteq> ?T" using immediate_rule [OF r(1,2)] U(2) by blast
    moreover have "fired_rule_heads ?v r ?T (Some (?T - U)) \<subseteq> consequences ?v r ?T"
      by (rule fired_rule_heads_sound) blast
    ultimately show ?thesis unfolding f by blast
  qed
  then show "consequences ?v r ?T \<subseteq> ?T \<union> d_triples (fire_rule h r m prev)"
    "d_triples (fire_rule h r m prev) \<subseteq> consequences ?v r ?T" by blast+
qed

lemma skipped_complete:
  assumes s: "seen (ms_vocab m) rs ax X m dirty prev" and r: "r \<in> set rs" "\<not> rule_delegate r"
    and skip: "\<not> rule_relevant r dirty (ms_vocab m)"
  shows "consequences (ms_vocab m) r (all_triples m) \<subseteq> all_triples m"
proof -
  let ?v = "ms_vocab m" and ?T = "all_triples m"
  obtain D where D: "dirty = Some D" "\<not> wildcard_predicate r" "\<And>f. f \<in> set (compiled_predicates r) \<Longrightarrow> vget ?v f \<notin> D"
    using skip by (auto simp: rule_relevant_def list_ex_iff split: option.splits)
  then obtain U where U: "immediate ?v rs ax X U \<subseteq> ?T" "D = (fst \<circ> snd) ` (?T - U)"
    using s by (auto simp: seen_def)
  have "consequences ?v r ?T \<subseteq> consequences ?v r U"
    by (rule consequences_untouched [OF r(2) D(2) D(3)]) (use U(2) in \<open>auto simp: rev_image_eqI\<close>)
  then show ?thesis using immediate_rule [OF r] U(1) by blast
qed

text \<open>Replacement by classes stays within any set closed under the closure and the rule.\<close>

lemma replacements_within:
  assumes "all_triples m \<subseteq> L" and "closure_heads (ms_vocab m) X L \<subseteq> L"
    and "consequences (ms_vocab m) eq_rep_p L \<subseteq> L"
  shows "replacements m \<subseteq> L"
proof
  let ?v = "ms_vocab m"
  fix t assume "t \<in> replacements m"
  then obtain s q ob p where t: "t = (s, q, ob)" "(p, q) \<in> generated (extent m (owl_same_as ?v))" "(s, ob) \<in> extent m p"
    by (auto simp: replacements_def)
  have "extent m (owl_same_as ?v) \<subseteq> triples_at L (owl_same_as ?v)"
    using assms(1) by (auto simp: triples_at_def simp flip: all_triples_iff)
  then have "(p, q) \<in> closed_at ?v X L (owl_same_as ?v)"
    using generated_mono [OF _ t(2)] by (simp add: closed_at_def generated_def)
  then have "(p, owl_same_as ?v, q) \<in> L" using assms(2) by (auto simp: closure_heads_def)
  moreover have "(s, p, ob) \<in> L" using assms(1) t(3) by (auto simp flip: all_triples_iff)
  ultimately show "t \<in> L" using assms(3) by (auto simp: t(1) eq_rep_p_consequences)
qed

lemma replacements_complete:
  "consequences (ms_vocab m) eq_rep_p (all_triples m) \<subseteq> replacements m"
  by (auto simp: eq_rep_p_consequences replacements_def all_triples_iff intro: generated_base)

lemma compiled_rules_spec:
  assumes s: "seen (ms_vocab m) rs ax X m dirty prev" and er: "engine_rules rs" and m: "mirrored m"
    and L: "all_triples m \<subseteq> L" "immediate (ms_vocab m) rs ax X L \<subseteq> L"
    and sub: "set rs' \<subseteq> set rs" and d: "d_triples d \<subseteq> L"
  shows "\<exists>d' n'. compiled_rules h opts m dirty prev rs' (d, n) = Some (d', n') \<and> d_triples d \<subseteq> d_triples d'
    \<and> (\<forall>r\<in>set rs'. \<not> rule_delegate r \<longrightarrow> consequences (ms_vocab m) r (all_triples m) \<subseteq> all_triples m \<union> d_triples d')
    \<and> d_triples d' \<subseteq> L"
  using sub d
proof (induction rs' arbitrary: d n)
  case (Cons r rs')
  let ?v = "ms_vocab m" and ?T = "all_triples m"
  have r: "r \<in> set rs" "set rs' \<subseteq> set rs" using Cons.prems(1) by auto
  have consL: "consequences ?v r ?T \<subseteq> L" if "\<not> rule_delegate r"
    using consequences_mono [OF L(1)] immediate_rule [OF r(1) that] L(2) by blast
  have step: ?case if run: "compiled_rules h opts m dirty prev (r # rs') (d, n) = compiled_rules h opts m dirty prev rs' (e, k)"
    and e: "d_triples d \<subseteq> d_triples e" "d_triples e \<subseteq> L"
      "\<not> rule_delegate r \<Longrightarrow> consequences ?v r ?T \<subseteq> ?T \<union> d_triples e" for e k
    using Cons.IH [OF r(2) e(2), of k] e(1,3) unfolding run by fastforce
  show ?case
  proof (cases "rule_delegate r")
    case True
    show ?thesis by (rule step [of d n]) (use True Cons.prems(2) in auto)
  next
    case nd: False
    then have comp: "compilable r" using er r(1) by (auto simp: engine_rules_def)
    show ?thesis
    proof (cases "rule_relevant r dirty ?v")
      case False
      show ?thesis by (rule step [of d n]) (use nd False skipped_complete [OF s r(1) nd False] Cons.prems(2) in auto)
    next
      case rel: True
      show ?thesis
      proof (cases "rule_id r = ''eq-rep-p'' \<and> opt_eq_rep_p opts = Optimized")
        case True
        then have req: "r = eq_rep_p" using er r(1) by (auto simp: engine_rules_def)
        obtain e where e: "fire_eq_rep_p_canonical h m = Some e" "d_triples e = replacements m - ?T"
          using fire_eq_rep_p_canonical_spec by blast
        have "replacements m \<subseteq> L"
        proof (rule replacements_within [OF L(1)])
          show "closure_heads ?v X L \<subseteq> L" using L(2) by (auto simp: immediate_def)
          show "consequences ?v eq_rep_p L \<subseteq> L" using immediate_rule [OF r(1) nd] L(2) req by blast
        qed
        then show ?thesis
          by (intro step [of "delta_merge h e d" "n + 1"])
            (use True nd rel e Cons.prems(2) replacements_complete [of m] req in auto)
      next
        case False
        note f = fired_complete [OF s r(1) nd comp m, of h]
        show ?thesis
          by (rule step [of "delta_merge h (fire_rule h r m prev) d" "n + 1"])
            (use False nd rel Cons.prems(2) f consL [OF nd] in auto)
      qed
    qed
  qed
qed simp


section \<open>The closure backend interface\<close>

text \<open>
  A backend adds the missing part of the closed extents of the hierarchy predicates, \<^verbatim>\<open>owl:sameAs\<close>,
  the declared transitive properties and the predicates \<open>X\<close>, on the stores \<open>ok\<close>.
\<close>

locale materialize_backend =
  fixes close :: "mem_store \<Rightarrow> delta option" and X :: "vocabulary \<Rightarrow> u64 set" and ok :: "mem_store \<Rightarrow> bool"
  assumes close_exact: "ok m \<Longrightarrow> \<exists>d. close m = Some d
    \<and> d_triples d = closure_heads (ms_vocab m) (X (ms_vocab m)) (all_triples m) - all_triples m"

context materialize_backend begin

lemma round_delta_spec:
  assumes s: "seen (ms_vocab m) rs ax (X (ms_vocab m)) m dirty prev" and er: "engine_rules rs"
    and m: "mirrored m" and ax: "axioms_from m (ms_vocab m) ax" and ok: "ok m"
    and L: "all_triples m \<subseteq> L" "immediate (ms_vocab m) rs ax (X (ms_vocab m)) L \<subseteq> L"
  shows "\<exists>d n. round_delta h w opts rs close ax m dirty prev = Some (d, n)
    \<and> immediate (ms_vocab m) rs ax (X (ms_vocab m)) (all_triples m) \<subseteq> all_triples m \<union> d_triples d
    \<and> d_triples d \<subseteq> L"
proof -
  let ?v = "ms_vocab m" and ?T = "all_triples m" and ?X = "X (ms_vocab m)"
  obtain d n where 1: "compiled_rules h opts m dirty prev rs (delta_new, 0) = Some (d, n)"
    "\<forall>r\<in>set rs. \<not> rule_delegate r \<longrightarrow> consequences ?v r ?T \<subseteq> ?T \<union> d_triples d" "d_triples d \<subseteq> L"
    using compiled_rules_spec [OF s er m L subset_refl, of delta_new h opts 0] by auto
  define d2 where "d2 = (if list_rules_relevant ax dirty ?v
      then delta_merge h (fire_all h w m ax ?v dirty (opt_parallel opts)) d else d)"
  have mono: "immediate ?v rs ax ?X ?T \<subseteq> L" using immediate_mono [OF L(1), of ?v rs ax ?X] L(2) by blast
  obtain f where f: "fires m (fired_heads ?T ?v ax dirty) f" "fire_all h w m ax ?v dirty (opt_parallel opts) = f delta_new"
    using fire_all_fires [OF m ax] by blast
  note ft = fires_new(1) [OF f(1)]
  have 2: "list_heads ?T ?v ax \<subseteq> ?T \<union> d_triples d2 \<and> d_triples d2 \<subseteq> L \<and> d_triples d \<subseteq> d_triples d2"
  proof -
    have lists: "list_heads ?T ?v ax \<subseteq> ?T \<union> (if list_rules_relevant ax dirty ?v then fired_heads ?T ?v ax dirty else {})"
    proof (cases dirty)
      case None
      have "list_heads ?T ?v ax \<subseteq> ?T \<union> fired_heads ?T ?v ax dirty" using fired_heads_first [of ?T ?v ax] None by blast
      moreover have "list_heads ?T ?v ax = {}" if "axioms_is_empty ax"
        using that by (simp add: list_heads_def axioms_is_empty_def chain_heads_def keyed_heads_def intersection_heads_def
          subclass_heads_def union_heads_def disjoint_class_heads_def disjoint_property_heads_def different_heads_def
          max_heads_def qual_max_heads_def)
      ultimately show ?thesis using None by (auto simp: list_rules_relevant_def)
    next
      case (Some D)
      then obtain U where U: "U \<subseteq> ?T" "immediate ?v rs ax ?X U \<subseteq> ?T" "D = (fst \<circ> snd) ` (?T - U)"
        using s by (auto simp: seen_def)
      have df: "differ_on D ?T U" unfolding differ_on_def U(3) using U(1) by force
      have lU: "list_heads U ?v ax \<subseteq> ?T" using U(2) by (auto simp: immediate_def)
      show ?thesis
      proof (cases "list_rules_relevant ax dirty ?v")
        case True
        then show ?thesis using prune_lossless [OF df, of ?v ax] lU Some by auto
      next
        case False
        then show ?thesis using irrelevant_lossless [OF df, of ax ?v] lU Some by auto
      qed
    qed
    have "fired_heads ?T ?v ax dirty \<subseteq> L" using fired_heads_sound [of ?T ?v ax dirty] mono by (auto simp: immediate_def)
    then show ?thesis using lists 1(3) by (auto simp: d2_def f(2) ft)
  qed
  obtain b where b: "close m = Some b" "d_triples b = closure_heads ?v ?X ?T - ?T" using close_exact [OF ok] by blast
  have "round_delta h w opts rs close ax m dirty prev = Some (delta_merge h b d2, n)"
    by (simp add: round_delta_def 1(1) b(1) d2_def Let_def)
  moreover have "immediate ?v rs ax ?X ?T \<subseteq> ?T \<union> d_triples (delta_merge h b d2)"
    unfolding immediate_def delta_merge_triples using 1(2) 2 b(2) by blast
  moreover have "d_triples (delta_merge h b d2) \<subseteq> L"
    using 2 b(2) mono by (auto simp: immediate_def)
  ultimately show ?thesis by blast
qed

lemma axioms_from_mono:
  "axioms_from m v ax \<Longrightarrow> all_triples m \<subseteq> all_triples m' \<Longrightarrow> axioms_from m' v ax"
proof -
  assume a: "axioms_from m v ax" and sub: "all_triples m \<subseteq> all_triples m'"
  have l: "list_at (all_triples m) v c xs \<Longrightarrow> list_at (all_triples m') v c xs" for c xs
    by (induction rule: list_at.induct) (use sub in \<open>auto intro: list_at.intros\<close>)
  show ?thesis
    using a unfolding axioms_from_def
    by (elim conjE, intro conjI) (blast intro: l subsetD [OF sub])+
qed

text \<open>The loop from any state it can be in.\<close>

lemma materialize_loop_spec:
  assumes "seen (ms_vocab m) rs ax (X (ms_vocab m)) m dirty prev" and "engine_rules rs"
    and "ms_inv m" and "axioms_from m (ms_vocab m) ax"
    and "all_triples m \<subseteq> L" and "immediate (ms_vocab m) rs ax (X (ms_vocab m)) L \<subseteq> L"
    and "\<And>m'. ms_inv m' \<Longrightarrow> ms_vocab m' = ms_vocab m \<Longrightarrow> all_triples m' \<subseteq> L \<Longrightarrow> ok m'"
    and "opt_firing opts = Semi_Naive \<or> prev = None"
  shows "\<exists>m' st'. materialize_loop h w opts rs close ax m dirty prev st = Some (m', st')
    \<and> ms_inv m' \<and> ms_vocab m' = ms_vocab m \<and> all_triples m \<subseteq> all_triples m' \<and> all_triples m' \<subseteq> L
    \<and> immediate (ms_vocab m) rs ax (X (ms_vocab m)) (all_triples m') \<subseteq> all_triples m'
    \<and> ms_inferred m' = ms_inferred m \<union> (all_triples m' - all_triples m)
    \<and> st_inferred st' = st_inferred st + card (all_triples m' - all_triples m)"
  using assms
proof (induction "card (- all_triples m)" arbitrary: m dirty prev st rule: less_induct)
  case less
  let ?v = "ms_vocab m" and ?T = "all_triples m" and ?X = "X (ms_vocab m)"
  have mir: "mirrored m" using less.prems(3) by (simp add: ms_inv_def)
  obtain d n where d: "round_delta h w opts rs close ax m dirty prev = Some (d, n)"
    "immediate ?v rs ax ?X ?T \<subseteq> ?T \<union> d_triples d" "d_triples d \<subseteq> L"
    using round_delta_spec [OF less.prems(1,2) mir less.prems(4) less.prems(7) [OF less.prems(3) refl less.prems(5)]
      less.prems(5,6)] by blast
  obtain m' applied k where ap: "apply_delta h d m = (m', applied, k)" by (cases "apply_delta h d m") auto
  note A = apply_delta_spec [OF less.prems(3) ap]
  let ?st = "st\<lparr>st_rounds := st_rounds st + 1, st_inferred := st_inferred st + k, st_rule_fires := st_rule_fires st + n\<rparr>"
  let ?prev = "if opt_firing opts = Semi_Naive
    then Some (assert_all (iter (by_triple h) (d_triples applied)) (ms_new ?v)) else prev"
  have run: "materialize_loop h w opts rs close ax m dirty prev st = (if delta_is_empty applied then Some (m', ?st)
      else materialize_loop h w opts rs close ax m' (Some (dirty_predicates applied)) ?prev ?st)"
    by (subst materialize_loop.simps) (simp add: d(1) ap Let_def)
  show ?case
  proof (cases "delta_is_empty applied")
    case True
    then have "d_triples d \<subseteq> ?T" using A by (simp add: delta_is_empty_def)
    then have "all_triples m' = ?T" "ms_inferred m' = ms_inferred m" "k = 0" using A by auto
    then show ?thesis using True run A d(2) less.prems(5) \<open>d_triples d \<subseteq> ?T\<close> by auto
  next
    case False
    have new: "all_triples m' - ?T = d_triples applied" using A by auto
    have grow: "?T \<subset> all_triples m'" using A False by (auto simp: delta_is_empty_def)
    have small: "card (- all_triples m') < card (- ?T)" using grow by (intro psubset_card_mono) auto
    have v: "ms_vocab m' = ?v" using A by blast
    have seen': "seen (ms_vocab m') rs ax (X (ms_vocab m')) m' (Some (dirty_predicates applied)) ?prev"
    proof -
      have np: "case ?prev of None \<Rightarrow> True | Some d \<Rightarrow> mirrored d \<and> all_triples d = all_triples m' - ?T"
        using assert_all_spec [OF ms_inv_new(1), of "iter (by_triple h) (d_triples applied)" ?v] less.prems(8)
        unfolding new by (auto simp: ms_inv_def)
      have "immediate ?v rs ax ?X ?T \<subseteq> all_triples m'" using d(2) A by blast
      moreover have "?T \<subseteq> all_triples m'" using grow by blast
      moreover have "dirty_predicates applied = (fst \<circ> snd) ` (all_triples m' - ?T)"
        unfolding new dirty_predicates_def ..
      ultimately show ?thesis using np unfolding seen_def v option.case(2) by blast
    qed
    have p': "opt_firing opts = Semi_Naive \<or> ?prev = None" using less.prems(8) by auto
    have sub: "all_triples m' \<subseteq> L" using A d(3) less.prems(5) by auto
    have ax': "axioms_from m' (ms_vocab m') ax"
      unfolding v by (rule axioms_from_mono [OF less.prems(4)]) (use grow in blast)
    have inv: "ms_inv m'" using A by blast
    obtain m2 st2 where m2: "materialize_loop h w opts rs close ax m' (Some (dirty_predicates applied)) ?prev ?st = Some (m2, st2)"
      "ms_inv m2" "ms_vocab m2 = ?v" "all_triples m' \<subseteq> all_triples m2" "all_triples m2 \<subseteq> L"
      "immediate ?v rs ax ?X (all_triples m2) \<subseteq> all_triples m2"
      "ms_inferred m2 = ms_inferred m' \<union> (all_triples m2 - all_triples m')"
      "st_inferred st2 = st_inferred ?st + card (all_triples m2 - all_triples m')"
      using less.hyps [OF small seen' less.prems(2) inv ax' sub _ _ p', of ?st] less.prems(6,7) unfolding v by blast
    have split: "all_triples m2 - ?T = (all_triples m2 - all_triples m') \<union> d_triples applied"
      using new m2(4) grow by auto
    have "(all_triples m2 - all_triples m') \<inter> d_triples applied = {}" using new by auto
    then have "card (all_triples m2 - ?T) = card (all_triples m2 - all_triples m') + card (d_triples applied)"
      unfolding split by (intro card_Un_disjoint) auto
    moreover have "k = card (d_triples applied)" using A by simp
    ultimately have "st_inferred st2 = st_inferred st + card (all_triples m2 - ?T)" using m2(8) by simp
    moreover have "ms_inferred m2 = ms_inferred m \<union> (all_triples m2 - ?T)"
      using m2(7) A unfolding split by auto
    ultimately show ?thesis using m2 run False grow by auto
  qed
qed

lemma materialize_spec:
  assumes "ms_inv m" and "engine_rules rs"
    and "\<And>m'. ms_inv m' \<Longrightarrow> ms_vocab m' = ms_vocab m \<Longrightarrow>
      all_triples m' \<subseteq> saturation (ms_vocab m) rs (resolve h m (ms_vocab m)) (X (ms_vocab m)) (all_triples m) \<Longrightarrow> ok m'"
  shows "\<exists>m' st. materialize_with h w rs close opts m = Some (m', st) \<and> ms_inv m' \<and> ms_vocab m' = ms_vocab m
    \<and> all_triples m' = saturation (ms_vocab m) rs (resolve h m (ms_vocab m)) (X (ms_vocab m)) (all_triples m)
    \<and> ms_inferred m' = ms_inferred m \<union> (all_triples m' - all_triples m)
    \<and> st_inferred st = card (all_triples m' - all_triples m)"
proof -
  let ?ax = "resolve h m (ms_vocab m)" and ?L = "saturation (ms_vocab m) rs (resolve h m (ms_vocab m)) (X (ms_vocab m)) (all_triples m)"
  have ax: "axioms_from m (ms_vocab m) ?ax" by (rule resolve_from) (use assms(1) in \<open>simp add: ms_inv_def\<close>)
  have "seen (ms_vocab m) rs ?ax (X (ms_vocab m)) m None None" by (simp add: seen_def)
  from materialize_loop_spec [OF this assms(2,1) ax saturation_base saturation_closed assms(3), of opts h w
      "\<lparr>st_rounds = 0, st_inferred = 0, st_rule_fires = 0\<rparr>"]
  obtain m' st where m': "materialize_with h w rs close opts m = Some (m', st)" "ms_inv m'" "ms_vocab m' = ms_vocab m"
    "all_triples m \<subseteq> all_triples m'" "all_triples m' \<subseteq> ?L"
    "immediate (ms_vocab m) rs ?ax (X (ms_vocab m)) (all_triples m') \<subseteq> all_triples m'"
    "ms_inferred m' = ms_inferred m \<union> (all_triples m' - all_triples m)"
    "st_inferred st = card (all_triples m' - all_triples m)"
    by (auto simp: materialize_with_def)
  have "?L \<subseteq> all_triples m'" by (rule saturation_least [OF m'(4,6)])
  then show ?thesis using m' by blast
qed

end

section \<open>The two backends provide the interface\<close>

lemma closed_triples_heads:
  "closed_triples m (hierarchy_predicates m \<union> X) = closure_heads (ms_vocab m) X (all_triples m)"
proof -
  have "triples_at (all_triples m) p = extent m p" for p by (auto simp: triples_at_def all_triples_iff)
  then have "closed_extent m (hierarchy_predicates m \<union> X) p = closed_at (ms_vocab m) X (all_triples m) p" for p
    by (auto simp: closed_extent_def closed_at_def hierarchy_predicates_def declared_transitive_def)
  then show ?thesis by (simp add: closed_triples_def closure_heads_def)
qed

definition mapping_terms :: "vocabulary \<Rightarrow> u64 set" where
  "mapping_terms v = {skos_exact_match v, skos_broad_match v, skos_narrow_match v}"

lemma rule_firing_backend: "materialize_backend (\<lambda>m. Some (rule_firing_close h m)) mapping_terms (\<lambda>_. True)"
proof
  fix m
  show "\<exists>d. Some (rule_firing_close h m) = Some d
    \<and> d_triples d = closure_heads (ms_vocab m) (mapping_terms (ms_vocab m)) (all_triples m) - all_triples m"
    using rule_firing_close_spec [of h m] closed_triples_heads [of m "mapping_predicates m"]
    by (simp add: mapping_terms_def mapping_predicates_def)
qed

lemma matrix_backend:
  assumes "closure_kernel kern cap"
  shows "materialize_backend (\<lambda>m. close_all h m kern) (\<lambda>_. {}) (\<lambda>m. fits m cap)"
proof
  fix m assume "fits m cap"
  from closure_kernel.close_all_spec [OF assms this, of h]
  show "\<exists>d. close_all h m kern = Some d \<and> d_triples d = closure_heads (ms_vocab m) {} (all_triples m) - all_triples m"
    using closed_triples_heads [of m "{}"] by simp
qed

interpretation rule_firing: materialize_backend "\<lambda>m. Some (rule_firing_close asc m)" mapping_terms "\<lambda>_. True"
  by (rule rule_firing_backend)

lemma graphblas_backend: "materialize_backend (graphblas_close set_ffi h) (\<lambda>_. {}) (\<lambda>m. fits m (2 ^ 32 - 1))"
proof -
  have "graphblas_close set_ffi h = (\<lambda>m. close_all h m (closure_edges set_ffi))"
    by (intro ext) (simp add: graphblas_close_def)
  then show ?thesis using matrix_backend [OF set_kernel, of h] by simp
qed

interpretation graphblas: materialize_backend "graphblas_close set_ffi asc" "\<lambda>_. {}" "\<lambda>m. fits m (2 ^ 32 - 1)"
  by (rule graphblas_backend)

section \<open>Properties\<close>

text \<open>C1: Materialising any well-formed store with the program's rule table and the rule-firing
  backend ends, without panic, in exactly the least set of triples that contains the stored ones and
  is closed under the compiled rules, the list rules of the axioms resolved at the start, and the
  closure of the delegated predicates; what is new is marked inferred and counted.\<close>

theorem materialize_exact:
  assumes "ms_inv m"
  shows "\<exists>m' st. materialize_with h w rules (\<lambda>m. Some (rule_firing_close h m)) opts m = Some (m', st) \<and> ms_inv m'
    \<and> all_triples m' = saturation (ms_vocab m) rules (resolve h m (ms_vocab m)) (mapping_terms (ms_vocab m)) (all_triples m)
    \<and> ms_inferred m' = ms_inferred m \<union> (all_triples m' - all_triples m)
    \<and> st_inferred st = card (all_triples m' - all_triples m)"
proof -
  have "engine_rules rules" by (rule table_engine_rules [OF rules_table(2)])
  then show ?thesis using materialize_backend.materialize_spec [OF rule_firing_backend assms] by blast
qed

lemma materialize_exact_witness:
  "ms_inv class_store \<and> materialize_with asc in_turn rules (\<lambda>m. Some (rule_firing_close asc m)) default_opts class_store \<noteq> None"
  using materialize_exact [OF class_store_facts(1), of asc in_turn default_opts] class_store_facts(1) by auto

text \<open>C2: The evaluation strategies agree: semi-naive or naive firing, class-based or plain
  predicate replacement, parallel or serial list rules all materialise the same triples.\<close>

theorem strategies_agree:
  assumes "ms_inv m"
  shows "map_option (all_triples \<circ> fst) (materialize_with h w rules (\<lambda>m. Some (rule_firing_close h m)) opts m)
    = map_option (all_triples \<circ> fst) (materialize_with h w' rules (\<lambda>m. Some (rule_firing_close h m)) opts' m)"
proof -
  have er: "engine_rules rules" by (rule table_engine_rules [OF rules_table(2)])
  let ?S = "saturation (ms_vocab m) rules (resolve h m (ms_vocab m)) (mapping_terms (ms_vocab m)) (all_triples m)"
  have "map_option (all_triples \<circ> fst) (materialize_with h w rules (\<lambda>m. Some (rule_firing_close h m)) opts m) = Some ?S"
    for w opts
    using materialize_backend.materialize_spec [OF rule_firing_backend assms er, where h = h and w = w and opts = opts] by fastforce
  note eq = this
  show ?thesis unfolding eq ..
qed

lemma strategies_agree_witness:
  "ms_inv class_store \<and>
   map_option (all_triples \<circ> fst) (materialize_with asc in_turn rules (\<lambda>m. Some (rule_firing_close asc m)) default_opts class_store)
   = map_option (all_triples \<circ> fst) (materialize_with asc in_turn rules (\<lambda>m. Some (rule_firing_close asc m))
       \<lparr>opt_eq_rep_p = Naive_Eq_Rep_P, opt_parallel = Serial, opt_firing = Naive_Firing\<rparr> class_store)"
  using strategies_agree [OF class_store_facts(1)] class_store_facts(1) by blast

text \<open>C20: Resetting first drops what was inferred: the result is the saturation of the triples that
  were not marked inferred, whatever the store had materialised before.\<close>

theorem reset_and_materialize_exact:
  assumes "ms_inv m"
  shows "\<exists>m' st. reset_and_materialize h w rules (\<lambda>m. Some (rule_firing_close h m)) m = Some (m', st) \<and> ms_inv m'
    \<and> (let base = clear_inferred h m; v = ms_vocab base in
       all_triples base = all_triples m - ms_inferred m
       \<and> all_triples m' = saturation v rules (resolve h base v) (mapping_terms v) (all_triples m - ms_inferred m)
       \<and> ms_inferred m' = all_triples m' - (all_triples m - ms_inferred m))"
proof -
  have er: "engine_rules rules" by (rule table_engine_rules [OF rules_table(2)])
  note c = clear_inferred_spec [OF assms, of h]
  obtain m' st where "materialize_with h w rules (\<lambda>m. Some (rule_firing_close h m)) default_opts (clear_inferred h m) = Some (m', st)"
    "ms_inv m'" "all_triples m' = saturation (ms_vocab (clear_inferred h m)) rules
       (resolve h (clear_inferred h m) (ms_vocab (clear_inferred h m))) (mapping_terms (ms_vocab (clear_inferred h m)))
       (all_triples (clear_inferred h m))"
    "ms_inferred m' = ms_inferred (clear_inferred h m) \<union> (all_triples m' - all_triples (clear_inferred h m))"
    using materialize_backend.materialize_spec [OF rule_firing_backend c [THEN conjunct1] er] by blast
  then show ?thesis using c by (auto simp: reset_and_materialize_def materialize_def Let_def)
qed

lemma reset_and_materialize_exact_witness:
  "ms_inv class_store \<and> reset_and_materialize asc in_turn rules (\<lambda>m. Some (rule_firing_close asc m)) class_store \<noteq> None"
  using reset_and_materialize_exact [OF class_store_facts(1), of asc in_turn] class_store_facts(1) by auto

end
