(* ===== verification/Trie_Source.thy ===== *)
theory Trie_Source imports Prelude "HOL-Library.Product_Lexorder" begin

text \<open>
  \<^verbatim>\<open>crates/wcoj/src/ids.rs\<close> and the storage half of \<^verbatim>\<open>crates/wcoj/src/source/vec_source.rs\<close>: the six
  orderings of a triple, and the column-major triple source that keeps one ordering sorted, derives
  the others on first use and maintains whatever is built under deltas. The standard library's
  \<^verbatim>\<open>partition_point\<close> is only called on slices its predicate partitions, where it is the length of
  the prefix that satisfies it; \<^verbatim>\<open>binary_search\<close> on a sorted slice is membership; unstable sorting is
  sorting, since equal rows are identical.
\<close>

section \<open>Orderings\<close>

type_synonym row = "u64 \<times> u64 \<times> u64"

datatype ordering = Spo | Sop | Pso | Pos | Osp | Ops

fun permute :: "ordering \<Rightarrow> 'a \<Rightarrow> 'a \<Rightarrow> 'a \<Rightarrow> 'a \<times> 'a \<times> 'a" where
  "permute Spo s p ob = (s, p, ob)"
| "permute Sop s p ob = (s, ob, p)"
| "permute Pso s p ob = (p, s, ob)"
| "permute Pos s p ob = (p, ob, s)"
| "permute Osp s p ob = (ob, s, p)"
| "permute Ops s p ob = (ob, p, s)"

fun unpermute :: "ordering \<Rightarrow> 'a \<Rightarrow> 'a \<Rightarrow> 'a \<Rightarrow> 'a \<times> 'a \<times> 'a" where
  "unpermute Spo l0 l1 l2 = (l0, l1, l2)"
| "unpermute Sop l0 l1 l2 = (l0, l2, l1)"
| "unpermute Pso l0 l1 l2 = (l1, l0, l2)"
| "unpermute Pos l0 l1 l2 = (l2, l0, l1)"
| "unpermute Osp l0 l1 l2 = (l1, l2, l0)"
| "unpermute Ops l0 l1 l2 = (l2, l1, l0)"

fun level0_axis :: "ordering \<Rightarrow> nat" where
  "level0_axis Spo = 0" | "level0_axis Sop = 0"
| "level0_axis Pso = 1" | "level0_axis Pos = 1"
| "level0_axis Osp = 2" | "level0_axis Ops = 2"

definition by_ordering :: "row \<Rightarrow> ordering \<Rightarrow> row" where
  "by_ordering t ord = (case t of (s, p, ob) \<Rightarrow> permute ord s p ob)"

section \<open>Columns\<close>

definition partition_point :: "('a \<Rightarrow> bool) \<Rightarrow> 'a list \<Rightarrow> nat" where
  "partition_point P xs = length (takeWhile P xs)"

record triple_columns =
  lev0 :: "u64 list"
  lev1 :: "u64 list"
  lev2 :: "u64 list"

definition no_columns :: triple_columns where
  "no_columns = \<lparr>lev0 = [], lev1 = [], lev2 = []\<rparr>"

definition push_columns :: "row \<Rightarrow> triple_columns \<Rightarrow> triple_columns" where
  "push_columns r c = (case r of (l0, l1, l2) \<Rightarrow>
     c\<lparr>lev0 := lev0 c @ [l0], lev1 := lev1 c @ [l1], lev2 := lev2 c @ [l2]\<rparr>)"

definition build :: "row list \<Rightarrow> triple_columns" where
  "build rs = fold push_columns (remdups_adj (sort rs)) no_columns"

definition cols_len :: "triple_columns \<Rightarrow> nat" where
  "cols_len c = length (lev0 c)"

definition row :: "triple_columns \<Rightarrow> nat \<Rightarrow> row" where
  "row c i = (lev0 c ! i, lev1 c ! i, lev2 c ! i)"

definition reorder :: "ordering \<Rightarrow> ordering \<Rightarrow> row \<Rightarrow> row" where
  "reorder from_ord to_ord r = (case r of (l0, l1, l2) \<Rightarrow> by_ordering (unpermute from_ord l0 l1 l2) to_ord)"

function blockwise_loop ::
  "triple_columns \<Rightarrow> ordering \<Rightarrow> ordering \<Rightarrow> nat \<Rightarrow> triple_columns \<Rightarrow> triple_columns" where
  "blockwise_loop from from_ord to_ord lo out =
     (if lo < cols_len from then
        let key = lev0 from ! lo;
            hi = lo + partition_point (\<lambda>v. v = key) (drop lo (lev0 from));
            block = sort (map (\<lambda>i. case reorder from_ord to_ord (row from i) of (t0, t1, t2) \<Rightarrow> (t1, t2)) [lo..<hi])
        in blockwise_loop from from_ord to_ord hi (fold (\<lambda>(t1, t2). push_columns (key, t1, t2)) block out)
      else out)"
  by auto

lemma run_step: "lo < length xs \<Longrightarrow> 0 < partition_point (\<lambda>v. v = xs ! lo) (drop lo xs)"
  by (simp add: partition_point_def flip: Cons_nth_drop_Suc)

termination blockwise_loop
  by (relation "measure (\<lambda>(from, from_ord, to_ord, lo, out). cols_len from - lo)")
    (use run_step in \<open>force simp: cols_len_def intro: diff_less_mono2\<close>)+

declare blockwise_loop.simps [simp del]

definition derive_blockwise :: "triple_columns \<Rightarrow> ordering \<Rightarrow> ordering \<Rightarrow> triple_columns" where
  "derive_blockwise from from_ord to_ord = blockwise_loop from from_ord to_ord 0 no_columns"

section \<open>The source\<close>

record vec_source =
  anchor :: triple_columns
  derived :: "ordering \<rightharpoonup> triple_columns"
  total :: nat

definition anchor_ordering :: ordering where
  "anchor_ordering = Pso"

definition from_triples :: "row list \<Rightarrow> vec_source" where
  "from_triples ts = \<lparr>anchor = build (map (\<lambda>t. by_ordering t anchor_ordering) ts), derived = Map.empty, total = length ts\<rparr>"

definition columns :: "ordering \<Rightarrow> vec_source \<Rightarrow> triple_columns \<times> vec_source" where
  "columns ord src =
     (if ord = anchor_ordering then (anchor src, src)
      else case derived src ord of Some c \<Rightarrow> (c, src) | None \<Rightarrow>
        (let a = anchor src;
             c = (if level0_axis ord = level0_axis anchor_ordering then derive_blockwise a anchor_ordering ord
                  else build (map (\<lambda>i. reorder anchor_ordering ord (row a i)) [0..<cols_len a]))
         in (c, src\<lparr>derived := (derived src)(ord \<mapsto> c)\<rparr>)))"

definition subslice :: "nat \<Rightarrow> nat \<Rightarrow> 'a list \<Rightarrow> 'a list" where
  "subslice lo hi xs = take (hi - lo) (drop lo xs)"

definition source_contains :: "row \<Rightarrow> vec_source \<Rightarrow> bool" where
  "source_contains t src = (case t of (s, p, ob) \<Rightarrow>
     (let p_col = lev0 (anchor src); s_col = lev1 (anchor src); o_col = lev2 (anchor src);
          p_lo = partition_point (\<lambda>v. v < p) p_col;
          p_hi = p_lo + partition_point (\<lambda>v. v \<le> p) (drop p_lo p_col);
          s_lo = p_lo + partition_point (\<lambda>v. v < s) (subslice p_lo p_hi s_col);
          s_hi = s_lo + partition_point (\<lambda>v. v \<le> s) (subslice s_lo p_hi s_col)
      in ob \<in> set (subslice s_lo s_hi o_col)))"

text \<open>Merging a delta into one ordering; the three indices are the lists still to be read.\<close>

definition push_row :: "triple_columns \<Rightarrow> row \<Rightarrow> triple_columns" where
  "push_row out r = (case r of (l0, l1, l2) \<Rightarrow>
     if lev0 out \<noteq> [] \<and> last (lev0 out) = l0 \<and> lev1 out \<noteq> [] \<and> last (lev1 out) = l1
        \<and> lev2 out \<noteq> [] \<and> last (lev2 out) = l2
     then out else push_columns r out)"

definition hits :: "row \<Rightarrow> row list \<Rightarrow> bool" where
  "hits b dels \<longleftrightarrow> dels \<noteq> [] \<and> hd dels = b"

fun merge_loop :: "row list \<Rightarrow> row list \<Rightarrow> row list \<Rightarrow> triple_columns \<Rightarrow> triple_columns" where
  "merge_loop [] dels [] out = out"
| "merge_loop (b # bs) dels [] out =
     (let dels = dropWhile (\<lambda>d. d < b) dels in
      if hits b dels then merge_loop bs (tl dels) [] out else merge_loop bs dels [] (push_row out b))"
| "merge_loop [] dels (a # adds) out = merge_loop [] dels adds (push_row out a)"
| "merge_loop (b # bs) dels (a # adds) out =
     (let dels = dropWhile (\<lambda>d. d < b) dels in
      if b < a then
        (if hits b dels then merge_loop bs (tl dels) (a # adds) out else merge_loop bs dels (a # adds) (push_row out b))
      else if a < b then merge_loop (b # bs) dels adds (push_row out a)
      else merge_loop bs dels adds (push_row out a))"

definition rows :: "triple_columns \<Rightarrow> row list" where
  "rows c = map (row c) [0..<cols_len c]"

definition merge_delta :: "ordering \<Rightarrow> row list \<Rightarrow> row list \<Rightarrow> triple_columns \<Rightarrow> triple_columns" where
  "merge_delta ord dels adds c =
     merge_loop (rows c) (remdups_adj (sort (map (\<lambda>t. by_ordering t ord) dels)))
       (remdups_adj (sort (map (\<lambda>t. by_ordering t ord) adds))) no_columns"

definition apply_delta :: "row list \<Rightarrow> row list \<Rightarrow> vec_source \<Rightarrow> vec_source" where
  "apply_delta dels adds src =
     (if dels = [] \<and> adds = [] then src\<lparr>total := cols_len (anchor src)\<rparr>
      else let a = merge_delta anchor_ordering dels adds (anchor src)
        in \<lparr>anchor = a,
            derived = (\<lambda>ord. if ord = anchor_ordering then derived src ord
                             else map_option (merge_delta ord dels adds) (derived src ord)),
            total = cols_len a\<rparr>)"


section \<open>Sorted listings\<close>

text \<open>Strictly increasing rows with a given set of elements: what every built ordering is.\<close>

definition listing :: "('a::linorder) list \<Rightarrow> 'a set \<Rightarrow> bool" where
  "listing xs S \<longleftrightarrow> sorted_wrt (<) xs \<and> set xs = S"

lemma listing_append:
  "listing xs S \<Longrightarrow> listing ys U \<Longrightarrow> (\<And>x y. x \<in> S \<Longrightarrow> y \<in> U \<Longrightarrow> x < y) \<Longrightarrow> listing (xs @ ys) (S \<union> U)"
  by (auto simp: listing_def sorted_wrt_append)

lemma listing_sort: "distinct xs \<Longrightarrow> listing (sort xs) (set xs)"
  by (simp add: listing_def strict_sorted_iff)

lemma sorted_remdups_adj_strict: "sorted xs \<Longrightarrow> sorted_wrt (<) (remdups_adj xs)"
proof (induction xs rule: remdups_adj.induct)
  case (3 x y xs)
  then show ?case by (cases "x = y") (auto simp: order_less_le)
qed simp_all

lemma listing_dedup: "listing (remdups_adj (sort xs)) (set xs)"
  by (simp add: listing_def sorted_remdups_adj_strict)

lemma listing_unique: "listing xs S \<Longrightarrow> listing ys S \<Longrightarrow> xs = ys"
  unfolding listing_def using strict_sorted_equal by blast

section \<open>Columns as rows\<close>

definition cols_wf :: "triple_columns \<Rightarrow> bool" where
  "cols_wf c \<longleftrightarrow> length (lev1 c) = length (lev0 c) \<and> length (lev2 c) = length (lev0 c)"

lemma no_columns_wf [simp]: "cols_wf no_columns" "rows no_columns = []"
  by (simp_all add: cols_wf_def no_columns_def rows_def cols_len_def)

lemma push_columns_wf [simp]: "cols_wf c \<Longrightarrow> cols_wf (push_columns r c)"
  by (simp add: cols_wf_def push_columns_def split: prod.split)

lemma length_rows [simp]: "length (rows c) = cols_len c" by (simp add: rows_def)

lemma rows_nth [simp]: "i < cols_len c \<Longrightarrow> rows c ! i = row c i" by (simp add: rows_def)

lemma rows_push_columns [simp]: "cols_wf c \<Longrightarrow> rows (push_columns r c) = rows c @ [r]"
  by (cases r, rule nth_equalityI) (auto simp: push_columns_def rows_def cols_len_def row_def cols_wf_def nth_append less_Suc_eq)

lemma fold_push_columns [simp]:
  "cols_wf c \<Longrightarrow> cols_wf (fold push_columns rs c)"
  "cols_wf c \<Longrightarrow> rows (fold push_columns rs c) = rows c @ rs"
  by (induction rs arbitrary: c) simp_all

lemma rows_build: "cols_wf (build rs)" "listing (rows (build rs)) (set rs)"
  by (simp_all add: build_def listing_dedup)

lemma lev0_rows: "cols_wf c \<Longrightarrow> lev0 c = map fst (rows c)"
  and lev1_rows: "cols_wf c \<Longrightarrow> lev1 c = map (fst \<circ> snd) (rows c)"
  and lev2_rows: "cols_wf c \<Longrightarrow> lev2 c = map (snd \<circ> snd) (rows c)"
  by (rule nth_equalityI, auto simp: rows_def row_def cols_wf_def cols_len_def)+

section \<open>Orderings are permutations\<close>

lemma unpermute_permute [simp]: "permute ord s p ob = (l0, l1, l2) \<Longrightarrow> unpermute ord l0 l1 l2 = (s, p, ob)"
  by (cases ord) auto

lemma reorder_by_ordering [simp]: "reorder ord to_ord (by_ordering t ord) = by_ordering t to_ord"
  by (cases t, cases ord) (simp_all add: reorder_def by_ordering_def)

lemma reorder_back [simp]: "reorder to_ord ord (reorder ord to_ord r) = r"
  by (cases r, cases ord; cases to_ord) (simp_all add: reorder_def by_ordering_def)

lemma inj_reorder: "inj (reorder ord to_ord)"
  by (rule injI) (metis reorder_back)

lemma inj_by_ordering: "inj (\<lambda>t. by_ordering t ord)"
  by (cases ord) (auto simp: by_ordering_def inj_def)

lemma fst_reorder: "level0_axis ord = level0_axis to_ord \<Longrightarrow> fst (reorder ord to_ord r) = fst r"
  by (cases r, cases ord; cases to_ord) (simp_all add: reorder_def by_ordering_def)

section \<open>Blockwise derivation\<close>

lemma partition_point_le: "partition_point P xs \<le> length xs"
  by (simp add: partition_point_def length_takeWhile_le)

lemma rows_take_Suc_block:
  assumes "lo \<le> hi" "hi \<le> cols_len c"
  shows "map (row c) [lo..<hi] = take (hi - lo) (drop lo (rows c))"
  using assms by (simp add: rows_def drop_map take_map take_upt)

lemma fst_le: "(x :: row) \<le> y \<Longrightarrow> fst x \<le> fst y"
  by (cases x; cases y) auto

lemma block_split:
  fixes xs :: "row list"
  assumes "sorted_wrt (<) xs" and "r \<in> set (dropWhile (\<lambda>r. fst r = fst (hd xs)) xs)"
  shows "fst (hd xs) < fst r"
proof -
  let ?R = "dropWhile (\<lambda>r. fst r = fst (hd xs)) xs"
  have s: "sorted xs" using assms(1) by (rule strict_sorted_imp_sorted)
  have ne: "?R \<noteq> []" using assms(2) by (intro notI) (simp del: dropWhile_eq_Nil_conv)
  have "?R = drop (length (takeWhile (\<lambda>r. fst r = fst (hd xs)) xs)) xs" by (rule dropWhile_eq_drop)
  then have "sorted ?R" using s by simp
  then have "hd ?R \<le> r" using assms(2) ne by (cases ?R) auto
  then have hr: "fst (hd ?R) \<le> fst r" by (rule fst_le)
  have "hd ?R \<in> set xs" using set_dropWhileD [OF hd_in_set [OF ne]] by simp
  then have "hd xs \<le> hd ?R" using s by (cases xs) auto
  moreover have "fst (hd ?R) \<noteq> fst (hd xs)" using hd_dropWhile [OF ne] .
  ultimately show ?thesis using hr fst_le [of "hd xs" "hd ?R"] by (auto simp: order_less_le)
qed

lemma push_block:
  "fold (\<lambda>(t1, t2). push_columns (key, t1, t2)) block out = fold push_columns (map (Pair key) block) out"
  by (induction block arbitrary: out) auto

lemma block_listing:
  fixes B :: "row list"
  assumes B: "distinct B" "\<And>r. r \<in> set B \<Longrightarrow> fst r = key" and axis: "level0_axis f = level0_axis t"
  shows "listing (map (Pair key) (sort (map (snd \<circ> reorder f t) B))) (reorder f t ` set B)"
proof -
  have pair: "Pair key (snd (reorder f t r)) = reorder f t r" if "r \<in> set B" for r
    using B(2) [OF that] fst_reorder [OF axis, of r] by (simp add: prod_eq_iff)
  have "inj_on (snd \<circ> reorder f t) (set B)"
  proof (rule inj_onI)
    fix x y assume "x \<in> set B" "y \<in> set B" "(snd \<circ> reorder f t) x = (snd \<circ> reorder f t) y"
    then have "reorder f t x = reorder f t y" using pair [of x] pair [of y] by (metis comp_apply)
    then show "x = y" using inj_reorder by (rule injD [rotated])
  qed
  then have l: "listing (sort (map (snd \<circ> reorder f t) B)) ((snd \<circ> reorder f t) ` set B)"
    using listing_sort [of "map (snd \<circ> reorder f t) B"] B(1) by (simp add: distinct_map)
  have "sorted_wrt (<) (map (Pair key) xs) \<longleftrightarrow> sorted_wrt (<) xs" for xs :: "(u64 \<times> u64) list"
    by (simp add: sorted_wrt_map)
  moreover have "Pair key ` (snd \<circ> reorder f t) ` set B = reorder f t ` set B"
    using pair by (force simp: image_image)
  ultimately show ?thesis using l by (simp add: listing_def)
qed

lemma block_end:
  assumes wf: "cols_wf c" and lo: "lo < cols_len c"
  defines "xs \<equiv> drop lo (rows c)"
  defines "n \<equiv> partition_point (\<lambda>v. v = lev0 c ! lo) (drop lo (lev0 c))"
  shows "lo + n \<le> cols_len c" and "take n xs = takeWhile (\<lambda>r. fst r = fst (hd xs)) xs"
    and "drop n xs = dropWhile (\<lambda>r. fst r = fst (hd xs)) xs" and "fst (hd xs) = lev0 c ! lo"
    and "take (lo + n) (rows c) = take lo (rows c) @ take n xs"
    and "map (\<lambda>i. case reorder f t (row c i) of (t0, t1, t2) \<Rightarrow> (t1, t2)) [lo..<lo + n] = map (snd \<circ> reorder f t) (take n xs)"
proof -
  have hd: "hd xs = row c lo" unfolding xs_def using lo by (simp add: hd_drop_conv_nth)
  show key: "fst (hd xs) = lev0 c ! lo" by (simp add: hd row_def)
  have "drop lo (lev0 c) = map fst xs" by (simp add: lev0_rows [OF wf] xs_def drop_map)
  then have n: "n = length (takeWhile (\<lambda>r. fst r = fst (hd xs)) xs)"
    unfolding n_def partition_point_def key [symmetric] by (simp add: takeWhile_map comp_def)
  show "take n xs = takeWhile (\<lambda>r. fst r = fst (hd xs)) xs"
    and "drop n xs = dropWhile (\<lambda>r. fst r = fst (hd xs)) xs"
    unfolding n by (rule takeWhile_eq_take [symmetric], rule dropWhile_eq_drop [symmetric])
  have "n \<le> length xs" unfolding n by (rule length_takeWhile_le)
  then show hi: "lo + n \<le> cols_len c" using lo by (simp add: xs_def)
  show "take (lo + n) (rows c) = take lo (rows c) @ take n xs" by (simp add: xs_def take_add)
  have "map (\<lambda>i. case reorder f t (row c i) of (t0, t1, t2) \<Rightarrow> (t1, t2)) [lo..<lo + n]
      = map (snd \<circ> reorder f t) (map (row c) [lo..<lo + n])"
    by (auto split: prod.split)
  then show "map (\<lambda>i. case reorder f t (row c i) of (t0, t1, t2) \<Rightarrow> (t1, t2)) [lo..<lo + n]
      = map (snd \<circ> reorder f t) (take n xs)"
    using rows_take_Suc_block [of lo "lo + n" c] hi by (simp add: xs_def)
qed

lemma blockwise_loop_spec:
  "cols_wf c \<Longrightarrow> sorted_wrt (<) (rows c) \<Longrightarrow> level0_axis f = level0_axis t \<Longrightarrow> cols_wf out \<Longrightarrow> lo \<le> cols_len c \<Longrightarrow>
    listing (rows out) (reorder f t ` set (take lo (rows c))) \<Longrightarrow>
    \<forall>x\<in>set (take lo (rows c)). \<forall>y\<in>set (drop lo (rows c)). fst x < fst y \<Longrightarrow>
    cols_wf (blockwise_loop c f t lo out) \<and> listing (rows (blockwise_loop c f t lo out)) (reorder f t ` set (rows c))"
proof (induction c f t lo out rule: blockwise_loop.induct)
  case (1 c f t lo out)
  note prems = "1.prems"
  show ?case
  proof (cases "lo < cols_len c")
    case False
    then show ?thesis using prems by (simp add: blockwise_loop.simps [of c])
  next
    case True
    let ?xs = "drop lo (rows c)" and ?n = "partition_point (\<lambda>v. v = lev0 c ! lo) (drop lo (lev0 c))"
    let ?B = "take ?n ?xs" and ?key = "lev0 c ! lo"
    let ?block = "sort (map (\<lambda>i. case reorder f t (row c i) of (t0, t1, t2) \<Rightarrow> (t1, t2)) [lo..<lo + ?n])"
    let ?out = "fold (\<lambda>(t1, t2). push_columns (?key, t1, t2)) ?block out"
    note e = block_end [OF prems(1) True]
    have xs: "sorted_wrt (<) ?xs" using prems(2) by simp
    have B: "distinct ?B" "\<And>r. r \<in> set ?B \<Longrightarrow> fst r = ?key"
      using xs e(2,4) set_takeWhileD by (auto simp: strict_sorted_iff dest: set_takeWhileD)
    have out: "rows ?out = rows out @ map (Pair ?key) (sort (map (snd \<circ> reorder f t) ?B))" "cols_wf ?out"
      unfolding push_block e(6) [where f = f and t = t] using prems(4) by simp_all
    have order: "x < y" if xy: "x \<in> reorder f t ` set (take lo (rows c))" "y \<in> reorder f t ` set ?B" for x y
    proof -
      obtain u v where uv: "x = reorder f t u" "u \<in> set (take lo (rows c))" "y = reorder f t v" "v \<in> set ?B"
        using xy by blast
      then have "fst u < fst v" using prems(7) in_set_takeD [of v ?n] by blast
      then have "fst x < fst y" by (simp add: uv fst_reorder [OF prems(3)])
      then show ?thesis by (cases x; cases y) simp
    qed
    have l: "listing (rows ?out) (reorder f t ` set (take (lo + ?n) (rows c)))"
      unfolding out(1) e(5) set_append image_Un
      by (rule listing_append [OF prems(6) block_listing [OF B prems(3)] order])
    have bound: "\<forall>x\<in>set (take (lo + ?n) (rows c)). \<forall>y\<in>set (drop (lo + ?n) (rows c)). fst x < fst y"
    proof (intro ballI)
      fix x y assume x: "x \<in> set (take (lo + ?n) (rows c))" and "y \<in> set (drop (lo + ?n) (rows c))"
      then have y: "y \<in> set (drop ?n ?xs)" by (simp add: add.commute)
      then have "fst (hd ?xs) < fst y" unfolding e(3) by (rule block_split [OF xs])
      moreover have "y \<in> set ?xs" using y by (rule in_set_dropD)
      moreover have "x \<in> set (take lo (rows c)) \<or> fst x = ?key" using x [unfolded e(5) set_append] B(2) by blast
      ultimately show "fst x < fst y" using prems(7) unfolding e(4) by metis
    qed
    have "cols_wf (blockwise_loop c f t (lo + ?n) ?out)
        \<and> listing (rows (blockwise_loop c f t (lo + ?n) ?out)) (reorder f t ` set (rows c))"
      by (rule "1.IH" [OF True refl refl refl prems(1-3) out(2) e(1) l bound])
    moreover have "blockwise_loop c f t lo out = blockwise_loop c f t (lo + ?n) ?out"
      by (subst blockwise_loop.simps) (simp add: True Let_def)
    ultimately show ?thesis by simp
  qed
qed

lemma derive_blockwise_spec:
  assumes "cols_wf c" and "listing (rows c) S" and "level0_axis f = level0_axis t"
  shows "cols_wf (derive_blockwise c f t)" and "listing (rows (derive_blockwise c f t)) (reorder f t ` S)"
  using blockwise_loop_spec [OF assms(1) _ assms(3), of no_columns 0] assms(2)
  by (auto simp: derive_blockwise_def listing_def)


section \<open>Merging a delta\<close>

lemma push_row_fresh:
  assumes "cols_wf out" and "\<forall>x\<in>set (rows out). x < r"
  shows "push_row out r = push_columns r out"
proof (cases "lev0 out = []")
  case True
  then show ?thesis by (simp add: push_row_def split: prod.split)
next
  case False
  obtain l0 l1 l2 where r: "r = (l0, l1, l2)" by (cases r)
  have ne: "rows out \<noteq> []" using False by (simp add: rows_def cols_len_def)
  then have "last (rows out) \<in> set (rows out)" by simp
  then have "last (rows out) \<noteq> r" using assms(2) by blast
  moreover have "last (rows out) = (last (lev0 out), last (lev1 out), last (lev2 out))"
    using ne by (simp add: lev0_rows [OF assms(1)] lev1_rows [OF assms(1)] lev2_rows [OF assms(1)] last_map prod_eq_iff)
  ultimately show ?thesis by (auto simp: push_row_def r)
qed

text \<open>The lists still to read, the rows written, and the rows the merge promises.\<close>

definition merging :: "row list \<Rightarrow> row list \<Rightarrow> row list \<Rightarrow> triple_columns \<Rightarrow> bool" where
  "merging bs ds as out \<longleftrightarrow> cols_wf out \<and> sorted_wrt (<) (rows out) \<and> sorted_wrt (<) bs \<and> sorted_wrt (<) ds
     \<and> sorted_wrt (<) as \<and> (\<forall>x\<in>set (rows out). \<forall>y\<in>set bs \<union> set as. x < y)"

lemma merging_push:
  assumes "merging bs ds as out" and "\<forall>x\<in>set (rows out). x < r" and "\<forall>y\<in>set bs' \<union> set as'. r < y"
    and "sorted_wrt (<) bs'" "sorted_wrt (<) ds'" "sorted_wrt (<) as'" and "set bs' \<subseteq> set bs" "set as' \<subseteq> set as"
  shows "merging bs' ds' as' (push_row out r) \<and> set (rows (push_row out r)) = insert r (set (rows out))"
proof -
  have "push_row out r = push_columns r out" using assms(1,2) by (intro push_row_fresh) (auto simp: merging_def)
  then have out: "rows (push_row out r) = rows out @ [r]" "cols_wf (push_row out r)"
    using assms(1) by (simp_all add: merging_def)
  have "\<forall>x\<in>set (rows out). \<forall>y\<in>set bs' \<union> set as'. x < y" using assms(1,7,8) unfolding merging_def by blast
  then have "merging bs' ds' as' (push_row out r)"
    unfolding merging_def out(1) using out(2) assms unfolding merging_def
    by (simp add: sorted_wrt_append ball_Un)
  then show ?thesis by (simp add: out)
qed

lemma skip_dels:
  fixes b :: row
  assumes "sorted_wrt (<) (ds :: row list)"
  defines "ds' \<equiv> dropWhile (\<lambda>d. d < b) ds"
  shows "sorted_wrt (<) ds'" and "\<And>x. b \<le> x \<Longrightarrow> x \<in> set ds' \<longleftrightarrow> x \<in> set ds"
    and "hits b ds' \<longleftrightarrow> b \<in> set ds" and "\<And>x. b < x \<Longrightarrow> hits b ds' \<Longrightarrow> x \<in> set (tl ds') \<longleftrightarrow> x \<in> set ds"
proof -
  have split: "ds = takeWhile (\<lambda>d. d < b) ds @ ds'" by (simp add: ds'_def)
  show s: "sorted_wrt (<) ds'" using assms(1) split by (metis sorted_wrt_append)
  have tw: "x \<in> set (takeWhile (\<lambda>d. d < b) ds) \<Longrightarrow> x < b" for x by (auto dest: set_takeWhileD)
  show mem: "x \<in> set ds' \<longleftrightarrow> x \<in> set ds" if "b \<le> x" for x
    using split tw [of x] that by (metis Un_iff leD set_append)
  have hd: "ds' \<noteq> [] \<Longrightarrow> \<not> hd ds' < b" unfolding ds'_def by (rule hd_dropWhile)
  have all: "x \<in> set ds' \<Longrightarrow> hd ds' \<le> x" for x using s by (cases ds') auto
  show h: "hits b ds' \<longleftrightarrow> b \<in> set ds"
    using mem [OF order_refl] hd all [of b] by (cases ds') (auto simp: hits_def)
  show "x \<in> set (tl ds') \<longleftrightarrow> x \<in> set ds" if "b < x" "hits b ds'" for x
    using mem [OF less_imp_le [OF that(1)]] that by (cases ds') (auto simp: hits_def)
qed

lemma sorted_wrt_tail: "sorted_wrt P xs \<Longrightarrow> sorted_wrt P (tl xs)" by (cases xs) simp_all

lemma merging_shrink:
  "merging bs ds as out \<Longrightarrow> sorted_wrt (<) bs' \<Longrightarrow> sorted_wrt (<) ds' \<Longrightarrow> set bs' \<subseteq> set bs \<Longrightarrow> merging bs' ds' as out"
  unfolding merging_def by blast

lemma merge_loop_spec:
  assumes "merging bs ds as out"
  shows "cols_wf (merge_loop bs ds as out) \<and> listing (rows (merge_loop bs ds as out))
    (set (rows out) \<union> (set bs - set ds) \<union> set as)"
  using assms
proof (induction bs ds as out rule: merge_loop.induct)
  case (1 dels out)
  then show ?case by (simp add: merging_def listing_def)
next
  case (2 b bs dels out)
  let ?d = "dropWhile (\<lambda>d. d < b) dels"
  have m: "sorted_wrt (<) dels" "\<forall>y\<in>set bs. b < y" "sorted_wrt (<) bs" "\<forall>x\<in>set (rows out). x < b"
    using "2.prems" by (simp_all add: merging_def)
  note sk = skip_dels [OF m(1), of b]
  show ?case
  proof (cases "hits b ?d")
    case True
    have "merging bs (tl ?d) [] out"
      by (rule merging_shrink [OF "2.prems" m(3)]) (use sk(1) in \<open>auto intro: sorted_wrt_tail\<close>)
    moreover have "set bs - set (tl ?d) = set (b # bs) - set dels" using sk(3,4) True m(2) by auto
    ultimately show ?thesis using "2.IH"(1) [OF refl True] True by (simp add: Let_def)
  next
    case False
    have p: "merging bs ?d [] (push_row out b) \<and> set (rows (push_row out b)) = insert b (set (rows out))"
      by (rule merging_push [OF "2.prems" m(4)]) (use m(2,3) sk(1) in auto)
    have "set bs - set ?d = set bs - set dels" "b \<notin> set dels" using sk(2,3) False m(2) by (auto simp: less_imp_le)
    then show ?thesis using "2.IH"(2) [OF refl False] False p by (simp add: Let_def insert_Diff_if)
  qed
next
  case (3 dels a adds out)
  have m: "\<forall>x\<in>set (rows out). x < a" "\<forall>y\<in>set adds. a < y" "sorted_wrt (<) dels" "sorted_wrt (<) adds"
    using "3.prems" by (simp_all add: merging_def)
  have "merging [] dels adds (push_row out a) \<and> set (rows (push_row out a)) = insert a (set (rows out))"
    by (rule merging_push [OF "3.prems" m(1)]) (use m in auto)
  then show ?case using "3.IH" by simp
next
  case (4 b bs dels a adds out)
  let ?d = "dropWhile (\<lambda>d. d < b) dels"
  have m: "sorted_wrt (<) dels" "\<forall>y\<in>set bs. b < y" "sorted_wrt (<) bs" "\<forall>x\<in>set (rows out). x < b \<and> x < a"
    "\<forall>y\<in>set adds. a < y" "sorted_wrt (<) adds"
    using "4.prems" by (simp_all add: merging_def)
  note sk = skip_dels [OF m(1), of b]
  have bsd: "set bs - set ?d = set bs - set dels" using sk(2) m(2) by (auto simp: less_imp_le)
  consider (hit) "b < a" "hits b ?d" | (miss) "b < a" "\<not> hits b ?d" | (add) "a < b" | (both) "a = b"
    by (meson linorder_cases)
  then show ?case
  proof cases
    case hit
    have "merging bs (tl ?d) (a # adds) out"
      by (rule merging_shrink [OF "4.prems" m(3)]) (use sk(1) in \<open>auto intro: sorted_wrt_tail\<close>)
    moreover have "set bs - set (tl ?d) = set (b # bs) - set dels" using sk(3,4) hit m(2) by auto
    ultimately show ?thesis using "4.IH"(1) [OF refl hit] hit by (simp add: Let_def)
  next
    case miss
    have "\<forall>y\<in>set adds. b < y" using m(5) miss(1) less_trans by blast
    then have p: "merging bs ?d (a # adds) (push_row out b) \<and> set (rows (push_row out b)) = insert b (set (rows out))"
      by (intro merging_push [OF "4.prems"]) (use m miss(1) sk(1) in \<open>simp_all add: ball_Un subset_insertI\<close>)
    then show ?thesis using "4.IH"(2) [OF refl miss] miss bsd sk(3) by (simp add: Let_def insert_Diff_if)
  next
    case add
    have "\<forall>y\<in>set bs. a < y" using m(2) add less_trans by blast
    then have p: "merging (b # bs) ?d adds (push_row out a) \<and> set (rows (push_row out a)) = insert a (set (rows out))"
      by (intro merging_push [OF "4.prems"]) (use m add sk(1) in \<open>simp_all add: ball_Un subset_insertI\<close>)
    have "set (b # bs) - set ?d = set (b # bs) - set dels" using sk(2) [of b] bsd by auto
    then show ?thesis using "4.IH"(3) [OF refl _ add] p add less_not_sym [OF add] by (simp add: Let_def)
  next
    case both
    have p: "merging bs ?d adds (push_row out a) \<and> set (rows (push_row out a)) = insert a (set (rows out))"
      by (rule merging_push [OF "4.prems"]) (use m both sk(1) in \<open>simp_all add: ball_Un subset_insertI\<close>)
    have "insert a (set (rows out)) \<union> (set bs - set ?d) \<union> set adds
        = set (rows out) \<union> (set (b # bs) - set dels) \<union> set (a # adds)"
      unfolding bsd both by auto
    then show ?thesis using "4.IH"(4) [OF refl] both p by (simp add: Let_def)
  qed
qed

lemma merge_delta_spec:
  assumes "listing (rows c) ((\<lambda>t. by_ordering t ord) ` T)"
  shows "cols_wf (merge_delta ord dels adds c)"
    and "listing (rows (merge_delta ord dels adds c)) ((\<lambda>t. by_ordering t ord) ` (T - set dels \<union> set adds))"
proof -
  let ?f = "\<lambda>t. by_ordering t ord"
  have "merging (rows c) (remdups_adj (sort (map ?f dels))) (remdups_adj (sort (map ?f adds))) no_columns"
    using assms by (simp add: merging_def listing_def sorted_remdups_adj_strict)
  moreover have "?f ` (T - set dels \<union> set adds) = ?f ` T - ?f ` set dels \<union> ?f ` set adds"
    by (simp add: image_Un image_set_diff [OF inj_by_ordering])
  ultimately show "cols_wf (merge_delta ord dels adds c)"
    and "listing (rows (merge_delta ord dels adds c)) (?f ` (T - set dels \<union> set adds))"
    using merge_loop_spec assms by (force simp: merge_delta_def listing_def)+
qed


section \<open>The source stands for a set of triples\<close>

definition source_of :: "vec_source \<Rightarrow> row set \<Rightarrow> bool" where
  "source_of src T \<longleftrightarrow> cols_wf (anchor src) \<and> listing (rows (anchor src)) ((\<lambda>t. by_ordering t Pso) ` T)
     \<and> (\<forall>ord c. ord \<noteq> Pso \<longrightarrow> derived src ord = Some c \<longrightarrow> cols_wf c \<and> listing (rows c) ((\<lambda>t. by_ordering t ord) ` T))"

lemma from_triples_source: "source_of (from_triples ts) (set ts)"
  using rows_build [of "map (\<lambda>t. by_ordering t Pso) ts"]
  by (simp add: source_of_def from_triples_def anchor_ordering_def)

lemma columns_source:
  assumes "source_of src T" and "columns ord src = (c, src')"
  shows "source_of src' T" and "cols_wf c" and "listing (rows c) ((\<lambda>t. by_ordering t ord) ` T)"
proof -
  let ?f = "\<lambda>t. by_ordering t ord"
  have a: "cols_wf (anchor src)" "listing (rows (anchor src)) ((\<lambda>t. by_ordering t Pso) ` T)"
    using assms(1) by (simp_all add: source_of_def)
  define d where "d = (if level0_axis ord = level0_axis Pso then derive_blockwise (anchor src) Pso ord
      else build (map (\<lambda>i. reorder Pso ord (row (anchor src) i)) [0..<cols_len (anchor src)]))"
  have img: "reorder Pso ord ` (\<lambda>t. by_ordering t Pso) ` T = ?f ` T" by (simp add: image_image)
  have "set (map (\<lambda>i. reorder Pso ord (row (anchor src) i)) [0..<cols_len (anchor src)]) = reorder Pso ord ` set (rows (anchor src))"
    by (auto simp: rows_def)
  then have d: "cols_wf d" "listing (rows d) (?f ` T)"
    unfolding d_def using derive_blockwise_spec [OF a, of Pso ord] rows_build a(2) img
    by (simp_all add: listing_def)
  have "source_of src' T \<and> cols_wf c \<and> listing (rows c) (?f ` T)"
  proof (cases "ord = Pso")
    case True
    then show ?thesis using assms a by (auto simp: columns_def anchor_ordering_def)
  next
    case False
    show ?thesis
    proof (cases "derived src ord")
      case None
      then have "c = d" "src' = src\<lparr>derived := (derived src)(ord \<mapsto> d)\<rparr>"
        using assms(2) False by (auto simp: columns_def anchor_ordering_def d_def Let_def)
      then show ?thesis using d assms(1) by (auto simp: source_of_def)
    next
      case (Some c0)
      then show ?thesis using assms False by (auto simp: columns_def anchor_ordering_def source_of_def)
    qed
  qed
  then show "source_of src' T" and "cols_wf c" and "listing (rows c) (?f ` T)" by simp_all
qed

lemma listing_length: "listing xs S \<Longrightarrow> length xs = card S"
  by (auto simp: listing_def strict_sorted_iff distinct_card)

lemma source_card: "source_of src T \<Longrightarrow> cols_len (anchor src) = card T"
  using listing_length [of "rows (anchor src)" "(\<lambda>t. by_ordering t Pso) ` T"]
  by (simp add: source_of_def card_image inj_on_subset [OF inj_by_ordering])

lemma apply_delta_source:
  assumes "source_of src T"
  shows "source_of (apply_delta dels adds src) (T - set dels \<union> set adds)"
    and "total (apply_delta dels adds src) = card (T - set dels \<union> set adds)"
proof -
  show s: "source_of (apply_delta dels adds src) (T - set dels \<union> set adds)"
  proof (cases "dels = [] \<and> adds = []")
    case True
    then show ?thesis using assms by (simp add: apply_delta_def source_of_def)
  next
    case False
    then show ?thesis
      using assms
      by (auto simp: apply_delta_def anchor_ordering_def Let_def source_of_def intro: merge_delta_spec)
  qed
  have "total (apply_delta dels adds src) = cols_len (anchor (apply_delta dels adds src))"
    by (simp add: apply_delta_def Let_def)
  then show "total (apply_delta dels adds src) = card (T - set dels \<union> set adds)" using source_card [OF s] by simp
qed

section \<open>Membership\<close>

text \<open>A sorted run between two partition points holds exactly the rows with a given key.\<close>

lemma key_run:
  fixes key :: "'a \<Rightarrow> 'b::linorder" and k :: 'b
  assumes "sorted (map key xs)"
  defines "lo \<equiv> partition_point (\<lambda>v. v < k) (map key xs)"
  defines "hi \<equiv> lo + partition_point (\<lambda>v. v \<le> k) (drop lo (map key xs))"
  shows "take (hi - lo) (drop lo xs) = filter (\<lambda>x. key x = k) xs"
proof -
  have tw: "takeWhile (\<lambda>v. P v) (map key ys) = map key (takeWhile (\<lambda>x. P (key x)) ys)" for P ys
    by (simp add: takeWhile_map comp_def)
  let ?ys = "dropWhile (\<lambda>x. key x < k) xs"
  have ys: "drop lo xs = ?ys"
    by (simp add: lo_def partition_point_def tw dropWhile_eq_drop)
  have "hi - lo = length (takeWhile (\<lambda>x. key x \<le> k) ?ys)"
    unfolding hi_def by (simp add: partition_point_def drop_map ys tw)
  then have run: "take (hi - lo) (drop lo xs) = takeWhile (\<lambda>x. key x \<le> k) ?ys"
    unfolding ys by (simp add: takeWhile_eq_take [symmetric])
  have "takeWhile (\<lambda>x. key x \<le> k) (dropWhile (\<lambda>x. key x < k) zs) = filter (\<lambda>x. key x = k) zs"
    if "sorted (map key zs)" for zs
    using that
  proof (induction zs)
    case (Cons z zs)
    consider "key z < k" | "key z = k" | "k < key z" by (rule linorder_cases)
    then show ?case
    proof cases
      case 1 then show ?thesis using Cons by auto
    next
      case 2
      have "dropWhile (\<lambda>x. key x < k) zs = zs" using Cons.prems 2 by (cases zs) auto
      then show ?thesis using Cons 2 by simp
    next
      case 3
      have "filter (\<lambda>x. key x = k) zs = []" using Cons.prems 3 by (auto simp: filter_empty_conv)
      then show ?thesis using 3 by auto
    qed
  qed simp
  from this [OF assms(1)] show ?thesis unfolding run .
qed


lemma subslice_map: "subslice lo hi (map g xs) = map g (subslice lo hi xs)"
  by (simp add: subslice_def take_map drop_map)

lemma subslice_subslice:
  assumes "lo' \<le> hi'" and "hi' \<le> hi - lo"
  shows "subslice (lo + lo') (lo + hi') xs = subslice lo' hi' (subslice lo hi xs)"
proof -
  have "hi' - lo' \<le> (hi - lo) - lo'" using assms by simp
  then show ?thesis by (simp add: subslice_def drop_take min_def add.commute)
qed

lemma sorted_snd_run:
  fixes R :: "row list"
  assumes "sorted_wrt (<) R"
  shows "sorted (map fst R)" and "sorted (map (fst \<circ> snd) (filter (\<lambda>r. fst r = p) R))"
proof -
  show "sorted (map fst R)"
    unfolding sorted_map by (rule sorted_wrt_mono_rel [OF _ assms]) (auto simp: less_prod_def)
  have "sorted_wrt (<) (filter (\<lambda>r. fst r = p) R)" using assms by (rule sorted_wrt_filter)
  then show "sorted (map (fst \<circ> snd) (filter (\<lambda>r. fst r = p) R))"
    unfolding sorted_map by (rule sorted_wrt_mono_rel [rotated]) (auto simp: less_prod_def)
qed

lemma source_contains_spec:
  assumes "source_of src T"
  shows "source_contains t src \<longleftrightarrow> t \<in> T"
proof -
  obtain s p ob where t: "t = (s, p, ob)" by (cases t)
  let ?R = "rows (anchor src)"
  have wf: "cols_wf (anchor src)" and R: "sorted_wrt (<) ?R" "set ?R = (\<lambda>t. by_ordering t Pso) ` T"
    using assms by (auto simp: source_of_def listing_def)
  define p_lo where "p_lo = partition_point (\<lambda>v. v < p) (map fst ?R)"
  define m where "m = partition_point (\<lambda>v. v \<le> p) (drop p_lo (map fst ?R))"
  define P where "P = filter (\<lambda>r. fst r = p) ?R"
  have P: "subslice p_lo (p_lo + m) ?R = P"
    using key_run [OF sorted_snd_run(1) [OF R(1)], of p] by (simp add: P_def subslice_def p_lo_def m_def)
  define l where "l = partition_point (\<lambda>v. v < s) (map (fst \<circ> snd) P)"
  define n where "n = partition_point (\<lambda>v. v \<le> s) (drop l (map (fst \<circ> snd) P))"
  have lenP: "length P \<le> m" unfolding P [symmetric] by (simp add: subslice_def)
  have ln: "l + n \<le> length P"
    using partition_point_le [of "\<lambda>v. v < s" "map (fst \<circ> snd) P"]
      partition_point_le [of "\<lambda>v. v \<le> s" "drop l (map (fst \<circ> snd) P)"] by (simp add: l_def n_def)
  have run: "subslice l (l + n) P = filter (\<lambda>r. (fst \<circ> snd) r = s) P"
    using key_run [OF sorted_snd_run(2) [OF R(1), of p], of s] unfolding P_def [symmetric]
    by (simp add: subslice_def l_def n_def)
  have rest: "subslice (p_lo + l) (p_lo + m) ?R = drop l P"
    unfolding P [symmetric] by (simp add: subslice_def drop_take add.commute)
  have "source_contains t src \<longleftrightarrow> ob \<in> set (map (snd \<circ> snd) (subslice (p_lo + l) (p_lo + l + n) ?R))"
    unfolding source_contains_def t Let_def case_prod_conv lev0_rows [OF wf] lev1_rows [OF wf] lev2_rows [OF wf]
      subslice_map p_lo_def [symmetric] m_def [symmetric] P l_def [symmetric] rest drop_map [symmetric] n_def [symmetric] ..
  also have "subslice (p_lo + l) (p_lo + l + n) ?R = subslice l (l + n) P"
    using subslice_subslice [of l "l + n" "p_lo + m" p_lo ?R] lenP ln by (simp add: P add.assoc)
  also have "ob \<in> set (map (snd \<circ> snd) (subslice l (l + n) P)) \<longleftrightarrow> (p, s, ob) \<in> set ?R"
    unfolding run unfolding P_def by force
  also have "\<dots> \<longleftrightarrow> t \<in> T" unfolding R(2) t by (force simp: by_ordering_def)
  finally show ?thesis .
qed

section \<open>Properties\<close>

text \<open>What a client does with a source: read an ordering, apply a delta.\<close>

datatype source_op = Read ordering | Apply "row list" "row list"

fun run_source :: "source_op list \<Rightarrow> vec_source \<Rightarrow> vec_source" where
  "run_source [] src = src"
| "run_source (Read ord # ops) src = run_source ops (snd (columns ord src))"
| "run_source (Apply dels adds # ops) src = run_source ops (apply_delta dels adds src)"

fun run_set :: "source_op list \<Rightarrow> row set \<Rightarrow> row set" where
  "run_set [] T = T"
| "run_set (Read ord # ops) T = run_set ops T"
| "run_set (Apply dels adds # ops) T = run_set ops (T - set dels \<union> set adds)"

lemma run_source_of: "source_of src T \<Longrightarrow> source_of (run_source ops src) (run_set ops T)"
proof (induction ops arbitrary: src T)
  case (Cons a ops)
  then show ?case
    using columns_source(1) [OF Cons.prems surjective_pairing] apply_delta_source(1) [OF Cons.prems]
    by (cases a) simp_all
qed simp

text \<open>C26: Whatever was read and applied before, and so whichever orderings were materialised, derived
  blockwise, rebuilt or merged, each of the six orderings of a source lists the current triples in
  strictly increasing row order, membership is exact, and a delta deletes before it inserts.\<close>

theorem vec_source_exact:
  "let src = run_source ops (from_triples ts); T = run_set ops (set ts) in
     rows (fst (columns ord src)) = sorted_list_of_set ((\<lambda>t. by_ordering t ord) ` T)
     \<and> (source_contains t src \<longleftrightarrow> t \<in> T)
     \<and> total (apply_delta dels adds src) = card (T - set dels \<union> set adds)"
proof -
  define src T where "src = run_source ops (from_triples ts)" and "T = run_set ops (set ts)"
  have s: "source_of src T" unfolding src_def T_def by (rule run_source_of [OF from_triples_source])
  have "listing (rows (fst (columns ord src))) ((\<lambda>t. by_ordering t ord) ` T)"
    by (rule columns_source(3) [OF s surjective_pairing])
  moreover have "finite T" using source_card [OF s] s by (auto simp: source_of_def listing_def)
  ultimately have "rows (fst (columns ord src)) = sorted_list_of_set ((\<lambda>t. by_ordering t ord) ` T)"
    by (intro listing_unique) (auto simp: listing_def)
  then show ?thesis
    using source_contains_spec [OF s] apply_delta_source(2) [OF s] unfolding src_def T_def Let_def by blast
qed

end
