(* ===== verification/Pattern.thy ===== *)
theory Pattern imports Trie_Source begin

text \<open>
  Triple patterns, \<^verbatim>\<open>crates/wcoj/src/pattern.rs\<close>: the slots of a pattern, the variables of a
  pattern and of a basic graph pattern, and the meaning the joins are measured against, the binding
  a triple gives to the variables of a pattern it matches.
\<close>

section \<open>Terms and patterns\<close>

type_synonym var = "8 word"

datatype slot_term = Bound u64 | Var var

fun as_var :: "slot_term \<Rightarrow> var option" where
  "as_var (Var v) = Some v"
| "as_var (Bound x) = None"

fun as_bound :: "slot_term \<Rightarrow> u64 option" where
  "as_bound (Bound x) = Some x"
| "as_bound (Var v) = None"

record triple_pattern =
  pat_s :: slot_term
  pat_p :: slot_term
  pat_o :: slot_term

definition mk_pattern :: "slot_term \<Rightarrow> slot_term \<Rightarrow> slot_term \<Rightarrow> triple_pattern" where
  "mk_pattern s p ob = \<lparr>pat_s = s, pat_p = p, pat_o = ob\<rparr>"

definition is_ground :: "triple_pattern \<Rightarrow> bool" where
  "is_ground pat \<longleftrightarrow> as_bound (pat_s pat) \<noteq> None \<and> as_bound (pat_p pat) \<noteq> None \<and> as_bound (pat_o pat) \<noteq> None"

definition position_of :: "triple_pattern \<Rightarrow> var \<Rightarrow> nat option" where
  "position_of pat v =
     (if pat_s pat = Var v then Some 0
      else if pat_p pat = Var v then Some 1
      else if pat_o pat = Var v then Some 2 else None)"

definition slots :: "triple_pattern \<Rightarrow> slot_term list" where
  "slots pat = [pat_s pat, pat_p pat, pat_o pat]"

text \<open>Distinct variables in order of first appearance.\<close>

fun push_vars :: "slot_term list \<Rightarrow> var list \<Rightarrow> var list" where
  "push_vars [] out = out"
| "push_vars (Bound x # ts) out = push_vars ts out"
| "push_vars (Var v # ts) out = push_vars ts (if v \<in> set out then out else out @ [v])"

definition bgp_variables :: "triple_pattern list \<Rightarrow> var list" where
  "bgp_variables pats = push_vars (concat (map slots pats)) []"

section \<open>Meaning\<close>

text \<open>
  The binding of a row of values to a row of slots: constants must agree and a repeated variable must
  see one value. \<open>value_of\<close> reads a slot under a binding.
\<close>

type_synonym binding = "var \<rightharpoonup> u64"

fun bind_terms :: "(slot_term \<times> u64) list \<Rightarrow> binding \<Rightarrow> binding option" where
  "bind_terms [] b = Some b"
| "bind_terms ((Bound x, y) # es) b = (if x = y then bind_terms es b else None)"
| "bind_terms ((Var v, y) # es) b =
     (case b v of None \<Rightarrow> bind_terms es (b(v \<mapsto> y)) | Some x \<Rightarrow> if x = y then bind_terms es b else None)"

definition match_triple :: "triple_pattern \<Rightarrow> row \<Rightarrow> binding option" where
  "match_triple pat t = (case t of (s, p, ob) \<Rightarrow> bind_terms [(pat_s pat, s), (pat_p pat, p), (pat_o pat, ob)] Map.empty)"

fun value_of :: "binding \<Rightarrow> slot_term \<Rightarrow> u64 option" where
  "value_of b (Bound x) = Some x"
| "value_of b (Var v) = b v"

definition pattern_vars :: "triple_pattern \<Rightarrow> var set" where
  "pattern_vars pat = {v. Var v \<in> set (slots pat)}"

lemma set_push_vars: "set (push_vars ts out) = set out \<union> {v. Var v \<in> set ts}"
  by (induction ts out rule: push_vars.induct) auto

lemma distinct_push_vars: "distinct out \<Longrightarrow> distinct (push_vars ts out)"
  by (induction ts out rule: push_vars.induct) auto

text \<open>A match binds exactly the variables of the pattern, and a triple is read back from it.\<close>

lemma bind_terms_spec:
  assumes "bind_terms es b = Some c"
  shows "b \<subseteq>\<^sub>m c \<and> dom c = dom b \<union> {v. Var v \<in> fst ` set es} \<and> (\<forall>(t, y)\<in>set es. value_of c t = Some y)"
  using assms
proof (induction es b rule: bind_terms.induct)
  case (2 x y es b)
  then show ?case by (auto split: if_splits)
next
  case (3 v y es b)
  show ?case
  proof (cases "b v")
    case None
    have "bind_terms es (b(v \<mapsto> y)) = Some c" using 3(3) None by simp
    from 3(1) [OF None this] have *: "b(v \<mapsto> y) \<subseteq>\<^sub>m c \<and> dom c = dom (b(v \<mapsto> y)) \<union> {v. Var v \<in> fst ` set es}
        \<and> (\<forall>(t, y)\<in>set es. value_of c t = Some y)" .
    then have "c v = Some y" by (auto simp: map_le_def)
    moreover have "b \<subseteq>\<^sub>m c" using * None by (auto simp: map_le_def dom_def)
    ultimately show ?thesis using * by auto
  next
    case (Some x)
    then have x: "x = y" and "bind_terms es b = Some c" using 3(3) by (auto split: if_splits)
    from 3(2) [OF Some this] have *: "b \<subseteq>\<^sub>m c \<and> dom c = dom b \<union> {v. Var v \<in> fst ` set es}
        \<and> (\<forall>(t, y)\<in>set es. value_of c t = Some y)" .
    then have "c v = Some y" using Some x by (metis map_le_def domI)
    with * Some show ?thesis by auto
  qed
qed simp

lemma bind_terms_complete:
  assumes "\<forall>(t, y)\<in>set es. value_of c t = Some y" and "b \<subseteq>\<^sub>m c"
  shows "\<exists>d. bind_terms es b = Some d \<and> d \<subseteq>\<^sub>m c"
  using assms
proof (induction es b rule: bind_terms.induct)
  case (3 v y es b)
  have c: "c v = Some y" using 3(3) by simp
  show ?case
  proof (cases "b v")
    case None
    have "b(v \<mapsto> y) \<subseteq>\<^sub>m c" using 3(4) c by (auto simp: map_le_def)
    have e: "bind_terms ((Var v, y) # es) b = bind_terms es (b(v \<mapsto> y))" using None by simp
    have "\<forall>(t, y)\<in>set es. value_of c t = Some y" using 3(3) by simp
    from 3(1) [OF None this \<open>b(v \<mapsto> y) \<subseteq>\<^sub>m c\<close>] show ?thesis unfolding e .
  next
    case (Some x)
    then have "x = y" using 3(4) c by (force simp: map_le_def)
    with 3(2) [OF Some] 3(3,4) Some show ?thesis by auto
  qed
qed auto

lemma match_triple_dom: "match_triple pat t = Some b \<Longrightarrow> dom b = pattern_vars pat"
  by (cases t) (auto simp: match_triple_def pattern_vars_def slots_def dest!: bind_terms_spec)

end
