(* ===== verification/Vec_Cursor.thy ===== *)
theory Vec_Cursor imports Trie_Source begin

text \<open>
  The cursor \<^verbatim>\<open>VecIter\<close> of \<^verbatim>\<open>crates/wcoj/src/source/vec_source.rs\<close> over one sorted ordering, with the
  galloping searches it seeks and descends by, and the scalar kernels of
  \<^verbatim>\<open>crates/simd/src/scalar.rs\<close>, the reference of the vector kernels it calls. Depths are 0, 1 and 2;
  indices and steps are natural numbers, since no column approaches the address space.
\<close>

section \<open>Scalar kernels\<close>

definition lower_bound :: "u64 list \<Rightarrow> u64 \<Rightarrow> nat" where
  "lower_bound haystack target = partition_point (\<lambda>x. x < target) haystack"

fun intersect :: "u64 list \<Rightarrow> u64 list \<Rightarrow> u64 list" where
  "intersect (a # as) (b # bs) =
     (if a < b then intersect as (b # bs) else if b < a then intersect (a # as) bs else a # intersect as bs)"
| "intersect _ _ = []"

fun merge :: "u64 list \<Rightarrow> u64 list \<Rightarrow> u64 list" where
  "merge (a # as) (b # bs) = (if a \<le> b then a # merge as (b # bs) else b # merge (a # as) bs)"
| "merge as [] = as"
| "merge [] bs = bs"

fun dedup :: "u64 option \<Rightarrow> u64 list \<Rightarrow> u64 list" where
  "dedup prev [] = []"
| "dedup prev (v # vs) = (if prev \<noteq> Some v then v # dedup (Some v) vs else dedup prev vs)"

lemma intersect_set: "sorted_wrt (<) xs \<Longrightarrow> sorted_wrt (<) ys \<Longrightarrow> set (intersect xs ys) = set xs \<inter> set ys"
  by (induction xs ys rule: intersect.induct) (auto dest: less_asym)

lemma intersect_strict: "sorted_wrt (<) xs \<Longrightarrow> sorted_wrt (<) ys \<Longrightarrow> sorted_wrt (<) (intersect xs ys)"
  by (induction xs ys rule: intersect.induct) (auto simp: intersect_set)

lemma merge_set: "set (merge xs ys) = set xs \<union> set ys"
  by (induction xs ys rule: merge.induct) auto

lemma merge_sorted: "sorted xs \<Longrightarrow> sorted ys \<Longrightarrow> sorted (merge xs ys)"
  by (induction xs ys rule: merge.induct) (auto simp: merge_set)

lemma merge_count: "count_list (merge xs ys) x = count_list xs x + count_list ys x"
  by (induction xs ys rule: merge.induct) auto

lemma dedup_remdups: "dedup prev xs = (case prev of None \<Rightarrow> remdups_adj xs | Some p \<Rightarrow> tl (remdups_adj (p # xs)))"
proof (induction prev xs rule: dedup.induct)
  case (2 prev v vs)
  then show ?case by (cases prev) (auto simp: remdups_adj_Cons split: list.split)
qed (simp split: option.split)

section \<open>The cursor\<close>

record vec_iter =
  it_cols :: triple_columns
  it_range :: "nat \<Rightarrow> nat \<times> nat"
  it_cursor :: "nat \<Rightarrow> nat"
  it_distinct :: "nat \<Rightarrow> u64 list option"

definition level :: "triple_columns \<Rightarrow> nat \<Rightarrow> u64 list" where
  "level c d = (case d of 0 \<Rightarrow> lev0 c | Suc 0 \<Rightarrow> lev1 c | _ \<Rightarrow> lev2 c)"

definition iter_new :: "triple_columns \<Rightarrow> vec_iter" where
  "iter_new c = \<lparr>it_cols = c, it_range = (\<lambda>d. if d = 0 then (0, cols_len c) else (0, 0)),
     it_cursor = (\<lambda>_. 0), it_distinct = (\<lambda>_. None)\<rparr>"

text \<open>Galloping: the step after \<open>k\<close> rounds is \<open>2 ^ k\<close>.\<close>

function gallop_le :: "u64 list \<Rightarrow> nat \<Rightarrow> nat \<Rightarrow> u64 \<Rightarrow> nat \<Rightarrow> nat \<Rightarrow> nat \<times> nat" where
  "gallop_le col at n v lo k =
     (if lo + 2 ^ k < n \<and> col ! (at + lo + 2 ^ k) \<le> v then gallop_le col at n v (lo + 2 ^ k) (k + 1) else (lo, k))"
  by auto
termination by (relation "measure (\<lambda>(col, at, n, v, lo, k). n - lo)") (auto intro: diff_less_mono2)

declare gallop_le.simps [simp del]

definition run_end :: "vec_iter \<Rightarrow> nat \<Rightarrow> nat \<Rightarrow> nat \<Rightarrow> u64 \<Rightarrow> nat" where
  "run_end it d at hi v =
     (let col = level (it_cols it) d; n = hi - at; (lo, k) = gallop_le col at n v 0 0; hi_off = min (lo + 2 ^ k) n
      in at + lo + partition_point (\<lambda>c. c \<le> v) (subslice (at + lo) (at + hi_off) col))"

definition gallop_cap :: nat where
  "gallop_cap = 64"

text \<open>The bracket the capped gallop ends with, or nothing when the target is too far.\<close>

function gallop_seek :: "u64 list \<Rightarrow> nat \<Rightarrow> nat \<Rightarrow> u64 \<Rightarrow> nat \<Rightarrow> nat \<Rightarrow> (nat \<times> nat) option" where
  "gallop_seek col start n target lo k =
     (let probe = lo + 2 ^ k in
      if n \<le> probe then Some (lo, n)
      else if gallop_cap < probe then None
      else if target \<le> col ! (start + probe) then Some (lo, probe)
      else gallop_seek col start n target probe (k + 1))"
  by auto
termination by (relation "measure (\<lambda>(col, start, n, target, lo, k). n - lo)") (auto simp: Let_def intro: diff_less_mono2)

declare gallop_seek.simps [simp del]

definition seek_gallop :: "vec_iter \<Rightarrow> nat \<Rightarrow> nat \<Rightarrow> nat \<Rightarrow> u64 \<Rightarrow> nat option" where
  "seek_gallop it d start hi target =
     (let col = level (it_cols it) d; n = hi - start in
      if n = 0 then Some hi
      else if target \<le> col ! start then Some start
      else case gallop_seek col start n target 0 0 of None \<Rightarrow> None
        | Some (lo, hi_off) \<Rightarrow>
            Some (start + lo + partition_point (\<lambda>c. c < target) (subslice (start + lo) (start + hi_off) col)))"

definition peek :: "vec_iter \<Rightarrow> nat \<Rightarrow> u64 option" where
  "peek it d = (let (lo, hi) = it_range it d; c = max (it_cursor it d) lo in
     if hi \<le> c then None else Some (level (it_cols it) d ! c))"

definition put_cursor :: "nat \<Rightarrow> nat \<Rightarrow> vec_iter \<Rightarrow> vec_iter" where
  "put_cursor d c it = it\<lparr>it_cursor := (it_cursor it)(d := c)\<rparr>"

definition seek :: "nat \<Rightarrow> u64 \<Rightarrow> vec_iter \<Rightarrow> vec_iter" where
  "seek d target it =
     (let (lo, hi) = it_range it d; start = max (it_cursor it d) lo in
      case seek_gallop it d start hi target of Some idx \<Rightarrow> put_cursor d idx it
      | None \<Rightarrow> put_cursor d (start + lower_bound (subslice start hi (level (it_cols it) d)) target) it)"

text \<open>Descending panics at depth 0, past depth 2, and when the parent's cursor is past its column.\<close>

definition open_level :: "nat \<Rightarrow> vec_iter \<Rightarrow> vec_iter option" where
  "open_level d it =
     (if d \<noteq> 1 \<and> d \<noteq> 2 then None
      else let (_, hi_parent) = it_range it (d - 1); at = it_cursor it (d - 1); col = level (it_cols it) (d - 1) in
        if length col \<le> at then None
        else Some (it\<lparr>it_range := (it_range it)(d := (at, run_end it (d - 1) at hi_parent (col ! at))),
                      it_cursor := (it_cursor it)(d := at), it_distinct := (it_distinct it)(d := None)\<rparr>))"

definition up :: "nat \<Rightarrow> vec_iter \<Rightarrow> vec_iter" where
  "up d it = (if d = 0 then it\<lparr>it_range := (it_range it)(0 := (0, cols_len (it_cols it))), it_cursor := (it_cursor it)(0 := 0)\<rparr>
     else it\<lparr>it_range := (it_range it)(d := (0, 0)), it_cursor := (it_cursor it)(d := 0), it_distinct := (it_distinct it)(d := None)\<rparr>)"

definition rewind :: "nat \<Rightarrow> vec_iter \<Rightarrow> vec_iter" where
  "rewind d it = put_cursor d (fst (it_range it d)) it"

definition simd_intersect_min_run :: nat where
  "simd_intersect_min_run = 64"

definition active_run_ready :: "vec_iter \<Rightarrow> nat \<Rightarrow> bool" where
  "active_run_ready it d = (let (lo, hi) = it_range it d in max (it_cursor it d) lo < hi \<and> simd_intersect_min_run \<le> hi - lo)"

definition active_run :: "nat \<Rightarrow> vec_iter \<Rightarrow> u64 list option \<times> vec_iter" where
  "active_run d it =
     (if \<not> active_run_ready it d then (None, it)
      else let (lo, hi) = it_range it d; start = max (it_cursor it d) lo; col = level (it_cols it) d in
        if d = 2 then (Some (subslice start hi col), it)
        else let keys = (case it_distinct it d of Some ks \<Rightarrow> ks | None \<Rightarrow> dedup None (subslice lo hi col));
                 it' = it\<lparr>it_distinct := (it_distinct it)(d := Some keys)\<rparr>
             in (Some (drop (partition_point (\<lambda>k. k < col ! start) keys) keys), it'))"


section \<open>Searching\<close>

lemma partition_pointI:
  assumes "k \<le> length xs" and "\<And>i. i < k \<Longrightarrow> P (xs ! i)" and "k < length xs \<Longrightarrow> \<not> P (xs ! k)"
  shows "partition_point P xs = k"
proof -
  have "takeWhile P xs = take k xs" by (rule takeWhile_eq_take_P_nth) (use assms(2,3) in auto)
  then show ?thesis using assms(1) by (simp add: partition_point_def)
qed

lemma partition_point_nth: "i < partition_point P xs \<Longrightarrow> P (xs ! i)"
  unfolding partition_point_def by (metis nth_mem set_takeWhileD takeWhile_nth)

lemma partition_point_stop: "partition_point P xs < length xs \<Longrightarrow> \<not> P (xs ! partition_point P xs)"
  unfolding partition_point_def by (rule nth_length_takeWhile)

text \<open>A window that brackets the boundary finds it.\<close>

lemma bracketed:
  assumes "lo \<le> h" "h \<le> length xs" and "\<And>i. i < lo \<Longrightarrow> P (xs ! i)" and "h < length xs \<Longrightarrow> \<not> P (xs ! h)"
  shows "lo + partition_point P (subslice lo h xs) = partition_point P xs"
proof -
  let ?ys = "subslice lo h xs" and ?j = "partition_point P (subslice lo h xs)"
  have len: "length ?ys = h - lo" using assms(1,2) by (simp add: subslice_def)
  have nth: "i < h - lo \<Longrightarrow> ?ys ! i = xs ! (lo + i)" for i using assms(1,2) by (simp add: subslice_def)
  have j: "?j \<le> h - lo" using partition_point_le [of P ?ys] len by simp
  have "P (xs ! i)" if "i < lo + ?j" for i
  proof (cases "i < lo")
    case False
    then have "i - lo < ?j" using that by simp
    then show ?thesis using partition_point_nth [of "i - lo" P ?ys] nth [of "i - lo"] j False by simp
  qed (rule assms(3))
  moreover have "\<not> P (xs ! (lo + ?j))" if "lo + ?j < length xs"
  proof (cases "?j < h - lo")
    case True then show ?thesis using partition_point_stop [of P ?ys] len nth by simp
  next
    case False then show ?thesis using j that assms(1,4) by simp
  qed
  ultimately show ?thesis using j assms(1,2) by (intro partition_pointI [symmetric]) auto
qed

lemma subslice_nth: "i < hi - lo \<Longrightarrow> hi \<le> length xs \<Longrightarrow> subslice lo hi xs ! i = xs ! (lo + i)"
  by (simp add: subslice_def)

lemma length_subslice [simp]: "hi \<le> length xs \<Longrightarrow> length (subslice lo hi xs) = hi - lo"
  by (simp add: subslice_def)

lemma sorted_below: "sorted xs \<Longrightarrow> i \<le> j \<Longrightarrow> j < length xs \<Longrightarrow> xs ! j \<le> (v :: u64) \<Longrightarrow> xs ! i \<le> v"
  using sorted_nth_mono [of xs i j] by simp

lemma gallop_le_spec:
  assumes "gallop_le col at n v lo k = (lo', k')" and "lo < n" and "lo = 0 \<or> col ! (at + lo) \<le> v"
  shows "lo' < n \<and> (lo' = 0 \<or> col ! (at + lo') \<le> v) \<and> (lo' + 2 ^ k' < n \<longrightarrow> \<not> col ! (at + lo' + 2 ^ k') \<le> v)"
  using assms
proof (induction col at n v lo k rule: gallop_le.induct)
  case (1 col at n v lo k)
  show ?case
  proof (cases "lo + 2 ^ k < n \<and> col ! (at + lo + 2 ^ k) \<le> v")
    case True
    then have "gallop_le col at n v (lo + 2 ^ k) (k + 1) = (lo', k')"
      using "1.prems"(1) by (simp add: gallop_le.simps [of col at n v lo k])
    then show ?thesis using "1.IH" [OF True] True by (simp add: add.assoc)
  next
    case False
    then have "lo' = lo" "k' = k" using "1.prems"(1) by (auto simp: gallop_le.simps [of col at n v lo k])
    then show ?thesis using "1.prems" False by auto
  qed
qed

lemma run_end_spec:
  assumes "at < hi" "hi \<le> length (level (it_cols it) d)" and "sorted (subslice at hi (level (it_cols it) d))"
  shows "run_end it d at hi v = at + partition_point (\<lambda>c. c \<le> v) (subslice at hi (level (it_cols it) d))"
proof -
  let ?col = "level (it_cols it) d" and ?n = "hi - at"
  let ?xs = "subslice at hi ?col"
  obtain lo k where g: "gallop_le ?col at ?n v 0 0 = (lo, k)" by (cases "gallop_le ?col at ?n v 0 0")
  from gallop_le_spec [OF g] have lo: "lo < ?n" "lo = 0 \<or> ?col ! (at + lo) \<le> v"
    "lo + 2 ^ k < ?n \<Longrightarrow> \<not> ?col ! (at + lo + 2 ^ k) \<le> v" using assms(1) by auto
  have nth: "i < ?n \<Longrightarrow> ?xs ! i = ?col ! (at + i)" for i using assms(2) by (simp add: subslice_nth)
  have "at + min (lo + 2 ^ k) ?n \<le> hi" using assms(1) by simp
  then have sub: "subslice (at + lo) (at + min (lo + 2 ^ k) ?n) ?col = subslice lo (min (lo + 2 ^ k) ?n) ?xs"
    using subslice_subslice [of lo "min (lo + 2 ^ k) ?n" hi at ?col] lo(1) by auto
  have "lo + partition_point (\<lambda>c. c \<le> v) (subslice lo (min (lo + 2 ^ k) ?n) ?xs) = partition_point (\<lambda>c. c \<le> v) ?xs"
  proof (rule bracketed)
    show "?xs ! i \<le> v" if "i < lo" for i
    proof (rule sorted_below [OF assms(3), of i lo])
      show "?xs ! lo \<le> v" using lo(1,2) that nth [OF lo(1)] by auto
    qed (use that lo(1) assms(2) in auto)
    show "\<not> ?xs ! min (lo + 2 ^ k) ?n \<le> v" if "min (lo + 2 ^ k) ?n < length ?xs"
      using that lo(3) nth assms(2) by (auto simp: min_def add.assoc split: if_splits)
  qed (use lo(1) assms(2) in auto)
  then show ?thesis unfolding run_end_def Let_def g case_prod_conv sub by simp
qed

lemma gallop_seek_spec:
  assumes "gallop_seek col start n target lo k = Some (lo', h)" and "lo < n" and "col ! (start + lo) < target"
  shows "lo' < h \<and> h \<le> n \<and> col ! (start + lo') < target \<and> (h < n \<longrightarrow> target \<le> col ! (start + h))"
  using assms
proof (induction col start n target lo k rule: gallop_seek.induct)
  case (1 col start n target lo k)
  show ?case
  proof (cases "n \<le> lo + 2 ^ k \<or> gallop_cap < lo + 2 ^ k \<or> target \<le> col ! (start + (lo + 2 ^ k))")
    case True
    then show ?thesis using "1.prems" by (auto simp: gallop_seek.simps [of col start n target lo k] Let_def split: if_splits)
  next
    case False
    then have "gallop_seek col start n target (lo + 2 ^ k) (k + 1) = Some (lo', h)"
      using "1.prems"(1) by (simp add: gallop_seek.simps [of col start n target lo k] Let_def)
    then show ?thesis using "1.IH" [OF refl] False by auto
  qed
qed

text \<open>Near or far, the cursor lands on the first row of its level at or past the target.\<close>

lemma seek_gallop_spec:
  assumes "start \<le> hi" "hi \<le> length (level (it_cols it) d)" and "sorted (subslice start hi (level (it_cols it) d))"
    and "seek_gallop it d start hi target = Some idx"
  shows "idx = start + partition_point (\<lambda>c. c < target) (subslice start hi (level (it_cols it) d))"
proof -
  let ?col = "level (it_cols it) d" and ?n = "hi - start" and ?xs = "subslice start hi (level (it_cols it) d)"
  have nth: "i < ?n \<Longrightarrow> ?xs ! i = ?col ! (start + i)" for i using assms(2) by (simp add: subslice_nth)
  consider (none) "?n = 0" | (here) "?n \<noteq> 0" "target \<le> ?col ! start" | (far) "?n \<noteq> 0" "?col ! start < target"
    by fastforce
  then show ?thesis
  proof cases
    case none
    then show ?thesis using assms(1,4) by (auto simp: seek_gallop_def subslice_def partition_point_def)
  next
    case here
    then have "partition_point (\<lambda>c. c < target) ?xs = 0" using nth [of 0] by (intro partition_pointI) auto
    then show ?thesis using here assms(4) by (simp add: seek_gallop_def)
  next
    case far
    then obtain lo h where g: "gallop_seek ?col start ?n target 0 0 = Some (lo, h)"
      and idx: "idx = start + lo + partition_point (\<lambda>c. c < target) (subslice (start + lo) (start + h) ?col)"
      using assms(4) by (auto simp: seek_gallop_def Let_def split: option.splits if_splits)
    from gallop_seek_spec [OF g] have b: "lo < h" "h \<le> ?n" "?col ! (start + lo) < target"
      "h < ?n \<Longrightarrow> target \<le> ?col ! (start + h)" using far by auto
    have "subslice (start + lo) (start + h) ?col = subslice lo h ?xs" using b(1,2) by (intro subslice_subslice) auto
    moreover have "lo + partition_point (\<lambda>c. c < target) (subslice lo h ?xs) = partition_point (\<lambda>c. c < target) ?xs"
    proof (rule bracketed)
      show "?xs ! i < target" if "i < lo" for i
      proof -
        have "?xs ! i \<le> ?xs ! lo" using that b(1,2) assms(2) by (intro sorted_nth_mono [OF assms(3)]) auto
        then show ?thesis using b(1-3) nth [of lo] by simp
      qed
      show "\<not> ?xs ! h < target" if "h < length ?xs" using that b(4) nth [of h] assms(2) by simp
    qed (use b(1,2) assms(2) in auto)
    ultimately show ?thesis using idx by simp
  qed
qed


section \<open>What a level shows\<close>

text \<open>
  The rows of a level still ahead of its cursor, and their distinct keys: what peeking, seeking and
  the bulk view are about.
\<close>

definition ahead :: "vec_iter \<Rightarrow> nat \<Rightarrow> u64 list" where
  "ahead it d = subslice (it_cursor it d) (snd (it_range it d)) (level (it_cols it) d)"

definition whole :: "vec_iter \<Rightarrow> nat \<Rightarrow> u64 list" where
  "whole it d = subslice (fst (it_range it d)) (snd (it_range it d)) (level (it_cols it) d)"

definition keys :: "vec_iter \<Rightarrow> nat \<Rightarrow> u64 list" where
  "keys it d = remdups_adj (ahead it d)"

definition opened :: "vec_iter \<Rightarrow> nat \<Rightarrow> bool" where
  "opened it d \<longleftrightarrow> fst (it_range it d) \<le> it_cursor it d \<and> it_cursor it d \<le> snd (it_range it d)
     \<and> snd (it_range it d) \<le> length (level (it_cols it) d) \<and> sorted (whole it d) \<and> (d = 2 \<longrightarrow> distinct (whole it d))
     \<and> (fst (it_range it d) < it_cursor it d \<longrightarrow> it_cursor it d < snd (it_range it d) \<longrightarrow>
          level (it_cols it) d ! (it_cursor it d - 1) < level (it_cols it) d ! it_cursor it d)
     \<and> (\<forall>ks. it_distinct it d = Some ks \<longrightarrow> ks = remdups_adj (whole it d))"

lemma whole_split:
  assumes "opened it d"
  shows "ahead it d = drop (it_cursor it d - fst (it_range it d)) (whole it d)"
  using assms by (simp add: opened_def ahead_def whole_def subslice_def drop_take)

lemma ahead_sorted: "opened it d \<Longrightarrow> sorted (ahead it d)"
  using whole_split [of it d] by (simp add: opened_def)

lemma keys_strict: "opened it d \<Longrightarrow> sorted_wrt (<) (keys it d)"
  unfolding keys_def by (rule sorted_remdups_adj_strict [OF ahead_sorted])

lemma ahead_Nil: "opened it d \<Longrightarrow> ahead it d = [] \<longleftrightarrow> it_cursor it d = snd (it_range it d)"
  by (auto simp: opened_def ahead_def subslice_def)

lemma peek_hd:
  assumes "opened it d"
  shows "peek it d = (case keys it d of [] \<Rightarrow> None | k # ks \<Rightarrow> Some k)"
proof (cases "ahead it d")
  case Nil
  then show ?thesis using ahead_Nil [OF assms] assms
    by (auto simp: peek_def keys_def opened_def split: prod.split)
next
  case (Cons x xs)
  then have "x = ahead it d ! 0" by simp
  also have "\<dots> = level (it_cols it) d ! it_cursor it d"
    using Cons assms ahead_Nil [OF assms] unfolding ahead_def by (subst subslice_nth) (auto simp: opened_def)
  finally have "peek it d = Some x"
    using assms ahead_Nil [OF assms] Cons by (auto simp: peek_def opened_def max_def split: prod.split)
  moreover have "hd (keys it d) = x" "keys it d \<noteq> []" by (simp_all add: keys_def Cons)
  ultimately show ?thesis by (cases "keys it d") auto
qed

lemma remdups_adj_dropWhile_less:
  "sorted xs \<Longrightarrow> remdups_adj (dropWhile (\<lambda>x. x < (v :: u64)) xs) = dropWhile (\<lambda>x. x < v) (remdups_adj xs)"
proof (induction xs rule: remdups_adj.induct)
  case (3 x y xs)
  then show ?case by (cases "x = y"; cases "x < v") auto
qed auto

lemma seek_cursor:
  assumes "opened it d"
  shows "seek d v it = put_cursor d (it_cursor it d + partition_point (\<lambda>c. c < v) (ahead it d)) it"
proof -
  have s: "max (it_cursor it d) (fst (it_range it d)) = it_cursor it d" using assms by (simp add: opened_def)
  have hi: "it_cursor it d \<le> snd (it_range it d)" "snd (it_range it d) \<le> length (level (it_cols it) d)"
    using assms by (simp_all add: opened_def)
  note g = seek_gallop_spec [OF hi ahead_sorted [OF assms, unfolded ahead_def]]
  show ?thesis
    unfolding seek_def Let_def case_prod_beta s lower_bound_def ahead_def using g by (auto split: option.split)
qed

lemma put_cursor_simps [simp]:
  "it_cols (put_cursor d c it) = it_cols it" "it_range (put_cursor d c it) = it_range it"
  "it_distinct (put_cursor d c it) = it_distinct it" "it_cursor (put_cursor d c it) e = (if e = d then c else it_cursor it e)"
  by (simp_all add: put_cursor_def)

lemma seek_spec:
  assumes "opened it d"
  shows "opened (seek d v it) d" and "ahead (seek d v it) d = dropWhile (\<lambda>c. c < v) (ahead it d)"
    and "keys (seek d v it) d = dropWhile (\<lambda>c. c < v) (keys it d)"
proof -
  let ?n = "partition_point (\<lambda>c. c < v) (ahead it d)" and ?c = "it_cursor it d" and ?hi = "snd (it_range it d)"
  have hi: "fst (it_range it d) \<le> ?c" "?c \<le> ?hi" "?hi \<le> length (level (it_cols it) d)" using assms by (simp_all add: opened_def)
  have n: "?n \<le> ?hi - ?c" using partition_point_le [of "\<lambda>c. c < v" "ahead it d"] hi by (simp add: ahead_def)
  have ah: "ahead (seek d v it) d = drop ?n (ahead it d)"
    using n hi by (simp add: seek_cursor [OF assms] ahead_def subslice_def drop_take add.commute)
  then show a: "ahead (seek d v it) d = dropWhile (\<lambda>c. c < v) (ahead it d)"
    by (simp add: partition_point_def dropWhile_eq_drop)
  then show "keys (seek d v it) d = dropWhile (\<lambda>c. c < v) (keys it d)"
    unfolding keys_def by (simp add: remdups_adj_dropWhile_less [OF ahead_sorted [OF assms]])
  have w: "whole (seek d v it) d = whole it d" by (simp add: seek_cursor [OF assms] whole_def)
  have jump: "level (it_cols it) d ! (?c + ?n - 1) < level (it_cols it) d ! (?c + ?n)" if "0 < ?n" "?c + ?n < ?hi"
  proof -
    have "level (it_cols it) d ! (?c + (?n - 1)) < v"
      using partition_point_nth [of "?n - 1" "\<lambda>c. c < v" "ahead it d"] that hi
      by (simp add: ahead_def subslice_nth)
    moreover have "\<not> level (it_cols it) d ! (?c + ?n) < v"
      using partition_point_stop [of "\<lambda>c. c < v" "ahead it d"] that hi by (simp add: ahead_def subslice_nth)
    ultimately show ?thesis using that(1) by simp
  qed
  show "opened (seek d v it) d"
    using assms n jump unfolding opened_def w by (cases "?n = 0") (auto simp: seek_cursor [OF assms])
qed

lemma seek_frame: "e \<noteq> d \<Longrightarrow> opened it d \<Longrightarrow> opened (seek d v it) e = opened it e"
  "e \<noteq> d \<Longrightarrow> opened it d \<Longrightarrow> keys (seek d v it) e = keys it e"
  by (simp_all add: seek_cursor opened_def keys_def ahead_def whole_def)

lemma rewind_spec:
  assumes "opened it d"
  shows "opened (rewind d it) d" and "keys (rewind d it) d = remdups_adj (whole it d)"
  using assms by (auto simp: rewind_def opened_def keys_def ahead_def whole_def)

lemma active_run_spec:
  assumes "opened it d" and "active_run d it = (r, it')"
  shows "opened it' d" and "keys it' d = keys it d" and "r \<noteq> None \<Longrightarrow> r = Some (keys it d)"
    and "r = None \<longleftrightarrow> \<not> active_run_ready it d"
proof -
  let ?c = "it_cursor it d" and ?col = "level (it_cols it) d"
  have s: "max ?c (fst (it_range it d)) = ?c" using assms(1) by (simp add: opened_def)
  have dk: "(case it_distinct it d of Some ks \<Rightarrow> ks | None \<Rightarrow> dedup None (whole it d)) = remdups_adj (whole it d)"
    using assms(1) by (auto simp: opened_def dedup_remdups split: option.split)
  have leaf: "ahead it d = keys it d" if "d = 2"
    using assms(1) that whole_split [OF assms(1)] by (simp add: keys_def opened_def remdups_adj_distinct)
  have inner: "drop (partition_point (\<lambda>k. k < ?col ! ?c) (remdups_adj (whole it d))) (remdups_adj (whole it d)) = keys it d"
    if "?c < snd (it_range it d)"
  proof -
    have "drop (partition_point (\<lambda>k. k < ?col ! ?c) (remdups_adj (whole it d))) (remdups_adj (whole it d))
        = remdups_adj (dropWhile (\<lambda>k. k < ?col ! ?c) (whole it d))"
      using assms(1) by (simp add: partition_point_def remdups_adj_dropWhile_less opened_def flip: dropWhile_eq_drop)
    also have "dropWhile (\<lambda>k. k < ?col ! ?c) (whole it d) = ahead it d"
    proof -
      have lo: "fst (it_range it d) \<le> ?c" "snd (it_range it d) \<le> length ?col" "sorted (whole it d)"
        using assms(1) by (simp_all add: opened_def)
      have nth: "whole it d ! i = ?col ! (fst (it_range it d) + i)" if "i < snd (it_range it d) - fst (it_range it d)" for i
        using that lo(2) by (simp add: whole_def subslice_nth)
      have "partition_point (\<lambda>k. k < ?col ! ?c) (whole it d) = ?c - fst (it_range it d)"
      proof (rule partition_pointI)
        show "whole it d ! i < ?col ! ?c" if i: "i < ?c - fst (it_range it d)" for i
        proof -
          have "whole it d ! i \<le> whole it d ! (?c - 1 - fst (it_range it d))"
            using i lo \<open>?c < snd (it_range it d)\<close> by (intro sorted_nth_mono [OF lo(3)]) (auto simp: whole_def)
          also have "\<dots> = ?col ! (?c - 1)" using i \<open>?c < snd (it_range it d)\<close> nth [of "?c - 1 - fst (it_range it d)"] by simp
          also have "\<dots> < ?col ! ?c" using assms(1) i \<open>?c < snd (it_range it d)\<close> by (simp add: opened_def)
          finally show ?thesis .
        qed
        show "\<not> whole it d ! (?c - fst (it_range it d)) < ?col ! ?c"
          using nth [of "?c - fst (it_range it d)"] lo(1) \<open>?c < snd (it_range it d)\<close> by simp
      qed (use lo \<open>?c < snd (it_range it d)\<close> in \<open>auto simp: whole_def\<close>)
      then show ?thesis unfolding whole_split [OF assms(1)] by (simp add: partition_point_def dropWhile_eq_drop)
    qed
    finally show ?thesis by (simp add: keys_def)
  qed
  have ready: "active_run_ready it d \<Longrightarrow> ?c < snd (it_range it d)"
    by (auto simp: active_run_ready_def split: prod.splits)
  have run: "active_run d it = (if \<not> active_run_ready it d then (None, it)
      else if d = 2 then (Some (keys it d), it)
      else (Some (keys it d), it\<lparr>it_distinct := (it_distinct it)(d := Some (remdups_adj (whole it d)))\<rparr>))"
    unfolding active_run_def Let_def case_prod_beta s ahead_def [symmetric] whole_def [symmetric] dk
    using leaf inner [OF ready] by auto
  show "opened it' d" and "keys it' d = keys it d" and "r \<noteq> None \<Longrightarrow> r = Some (keys it d)"
    and "r = None \<longleftrightarrow> \<not> active_run_ready it d"
    using assms unfolding run
    by (auto simp: opened_def keys_def ahead_def whole_def split: if_splits)
qed


section \<open>The trie a sorted ordering is\<close>

text \<open>
  The values of a prefix: the components at the next depth of the rows that start with it. A cursor
  has a path when each open level ranges over exactly the rows that share the path so far and every
  level above the deepest stands on its component of the path.
\<close>

definition comps :: "row \<Rightarrow> u64 list" where
  "comps r = (case r of (a, b, c) \<Rightarrow> [a, b, c])"

definition children :: "row set \<Rightarrow> u64 list \<Rightarrow> u64 set" where
  "children S ks = {comps r ! length ks | r. r \<in> S \<and> take (length ks) (comps r) = ks}"

definition prefixed :: "u64 list \<Rightarrow> row list \<Rightarrow> row list" where
  "prefixed ks R = filter (\<lambda>r. take (length ks) (comps r) = ks) R"

definition seg :: "vec_iter \<Rightarrow> nat \<Rightarrow> row list" where
  "seg it d = subslice (fst (it_range it d)) (snd (it_range it d)) (rows (it_cols it))"

definition on_path :: "vec_iter \<Rightarrow> row set \<Rightarrow> u64 list \<Rightarrow> bool" where
  "on_path it S ks \<longleftrightarrow> cols_wf (it_cols it) \<and> listing (rows (it_cols it)) S \<and> length ks \<le> 2
     \<and> (\<forall>d\<le>length ks. opened it d \<and> seg it d = prefixed (take d ks) (rows (it_cols it)))
     \<and> (\<forall>d<length ks. it_cursor it d < snd (it_range it d) \<and> level (it_cols it) d ! it_cursor it d = ks ! d)"

lemma level_rows: "cols_wf c \<Longrightarrow> d \<le> 2 \<Longrightarrow> level c d = map (\<lambda>r. comps r ! d) (rows c)"
proof -
  assume wf: "cols_wf c" and "d \<le> 2"
  then consider "d = 0" | "d = 1" | "d = 2" by linarith
  then show ?thesis
    by cases (auto simp: level_def comps_def lev0_rows [OF wf] lev1_rows [OF wf] lev2_rows [OF wf] split: prod.split)
qed

lemma level_length: "cols_wf c \<Longrightarrow> d \<le> 2 \<Longrightarrow> length (level c d) = length (rows c)"
  by (simp add: level_rows)

lemma whole_seg:
  assumes "cols_wf (it_cols it)" and "d \<le> 2"
  shows "whole it d = map (\<lambda>r. comps r ! d) (seg it d)"
  by (simp add: whole_def seg_def level_rows [OF assms] subslice_map)

lemma row_less_comps: "(r :: row) < r' \<Longrightarrow> d \<le> 2 \<Longrightarrow> take d (comps r) = take d (comps r') \<Longrightarrow> comps r ! d \<le> comps r' ! d"
proof -
  assume lt: "r < r'" and d: "d \<le> 2" and eq: "take d (comps r) = take d (comps r')"
  obtain a b c where r: "r = (a, b, c)" by (cases r)
  obtain a' b' c' where r': "r' = (a', b', c')" by (cases r')
  from lt have l: "a < a' \<or> a = a' \<and> b < b' \<or> a = a' \<and> b = b' \<and> c < c'"
    unfolding r r' by (simp add: less_le) blast
  have "d = 0 \<or> d = 1 \<or> d = 2" using d by linarith
  then show ?thesis using l eq by (elim disjE) (auto simp: r r' comps_def numeral_2_eq_2)
qed

lemma comps_eq: "length (comps r) = 3" "take 2 (comps r) = take 2 (comps r') \<Longrightarrow> comps r ! 2 = comps r' ! 2 \<Longrightarrow> r = r'"
  by (cases r, simp add: comps_def) (cases r, cases r', simp add: comps_def numeral_2_eq_2)

lemma prefixed_level:
  assumes "sorted_wrt (<) R" and "length ks \<le> 2"
  shows "sorted (map (\<lambda>r. comps r ! length ks) (prefixed ks R))"
    and "length ks = 2 \<Longrightarrow> distinct (map (\<lambda>r. comps r ! length ks) (prefixed ks R))"
    and "set (map (\<lambda>r. comps r ! length ks) (prefixed ks R)) = children (set R) ks"
proof -
  have s: "sorted_wrt (<) (prefixed ks R)" unfolding prefixed_def using assms(1) by (rule sorted_wrt_filter)
  have pre: "r \<in> set (prefixed ks R) \<Longrightarrow> take (length ks) (comps r) = ks" for r by (simp add: prefixed_def)
  show "sorted (map (\<lambda>r. comps r ! length ks) (prefixed ks R))"
    unfolding sorted_map
    by (rule sorted_wrt_mono_rel [OF _ s]) (simp add: row_less_comps [OF _ assms(2)] pre)
  show "distinct (map (\<lambda>r. comps r ! length ks) (prefixed ks R))" if "length ks = 2"
  proof -
    have "inj_on (\<lambda>r. comps r ! 2) (set (prefixed ks R))"
    proof (rule inj_onI)
      fix r r' assume "r \<in> set (prefixed ks R)" "r' \<in> set (prefixed ks R)" "comps r ! 2 = comps r' ! 2"
      moreover from this(1,2) have "take 2 (comps r) = take 2 (comps r')" using pre that by metis
      ultimately show "r = r'" by (intro comps_eq(2))
    qed
    then show ?thesis using s that by (simp add: distinct_map strict_sorted_iff)
  qed
  show "set (map (\<lambda>r. comps r ! length ks) (prefixed ks R)) = children (set R) ks"
    by (auto simp: children_def prefixed_def)
qed

lemma listing_dedup_sorted: "sorted xs \<Longrightarrow> remdups_adj xs = sorted_list_of_set (set xs)"
  by (rule listing_unique [of _ "set xs"]) (auto simp: listing_def sorted_remdups_adj_strict)

lemma iter_new_path: "cols_wf c \<Longrightarrow> listing (rows c) S \<Longrightarrow> on_path (iter_new c) S []"
proof -
  assume wf: "cols_wf c" and L: "listing (rows c) S"
  have seg: "seg (iter_new c) 0 = rows c" by (simp add: seg_def iter_new_def subslice_def)
  have "whole (iter_new c) 0 = map (\<lambda>r. comps r ! 0) (rows c)"
    using whole_seg [of "iter_new c" 0] wf seg by (simp add: iter_new_def)
  then have "sorted (whole (iter_new c) 0)"
    using prefixed_level(1) [of "rows c" "[]"] L by (simp add: prefixed_def listing_def)
  then have "opened (iter_new c) 0"
    using level_length [OF wf, of 0] by (simp add: opened_def iter_new_def)
  then show ?thesis using wf L seg by (simp add: on_path_def prefixed_def) (simp add: iter_new_def)
qed

text \<open>The run a descent opens: from the cursor to the first key past the one it stands on.\<close>

lemma descended_run:
  assumes "opened it d" and "it_cursor it d < snd (it_range it d)"
  defines "v \<equiv> level (it_cols it) d ! it_cursor it d"
  shows "it_cursor it d = fst (it_range it d) + partition_point (\<lambda>c. c < v) (whole it d)"
    and "run_end it d (it_cursor it d) (snd (it_range it d)) v
      = it_cursor it d + partition_point (\<lambda>c. c \<le> v) (drop (partition_point (\<lambda>c. c < v) (whole it d)) (whole it d))"
proof -
  let ?c = "it_cursor it d" and ?lo = "fst (it_range it d)" and ?hi = "snd (it_range it d)"
  have lo: "?lo \<le> ?c" "?hi \<le> length (level (it_cols it) d)" "sorted (whole it d)"
    using assms(1) by (simp_all add: opened_def)
  have nth: "whole it d ! i = level (it_cols it) d ! (?lo + i)" if "i < ?hi - ?lo" for i
    using that lo(2) by (simp add: whole_def subslice_nth)
  have pp: "partition_point (\<lambda>c. c < v) (whole it d) = ?c - ?lo"
  proof (rule partition_pointI)
    show "whole it d ! i < v" if i: "i < ?c - ?lo" for i
    proof -
      have "whole it d ! i \<le> whole it d ! (?c - 1 - ?lo)"
        using i lo assms(2) by (intro sorted_nth_mono [OF lo(3)]) (auto simp: whole_def)
      also have "\<dots> = level (it_cols it) d ! (?c - 1)" using i assms(2) nth [of "?c - 1 - ?lo"] by simp
      also have "\<dots> < v" using assms(1,2) i unfolding v_def by (simp add: opened_def)
      finally show ?thesis .
    qed
    show "\<not> whole it d ! (?c - ?lo) < v" using nth [of "?c - ?lo"] lo(1) assms(2) by (simp add: v_def)
  qed (use lo assms(2) in \<open>auto simp: whole_def\<close>)
  then show "?c = ?lo + partition_point (\<lambda>c. c < v) (whole it d)" using lo(1) by simp
  have "run_end it d ?c ?hi v = ?c + partition_point (\<lambda>c. c \<le> v) (subslice ?c ?hi (level (it_cols it) d))"
    by (rule run_end_spec [OF assms(2) lo(2)]) (use ahead_sorted [OF assms(1)] in \<open>simp add: ahead_def\<close>)
  also have "subslice ?c ?hi (level (it_cols it) d) = drop (partition_point (\<lambda>c. c < v) (whole it d)) (whole it d)"
    using whole_split [OF assms(1)] pp by (simp add: ahead_def)
  finally show "run_end it d ?c ?hi v
      = ?c + partition_point (\<lambda>c. c \<le> v) (drop (partition_point (\<lambda>c. c < v) (whole it d)) (whole it d))" .
qed

lemma prefixed_snoc:
  "length ks < 3 \<Longrightarrow> filter (\<lambda>r. comps r ! length ks = v) (prefixed ks R) = prefixed (ks @ [v]) R"
proof -
  assume "length ks < 3"
  then have "take (Suc (length ks)) (comps r) = ks @ [v] \<longleftrightarrow> take (length ks) (comps r) = ks \<and> comps r ! length ks = v" for r
    by (simp add: take_Suc_conv_app_nth comps_eq)
  then show ?thesis unfolding prefixed_def filter_filter by (simp add: conj_commute)
qed


lemma on_path_keys:
  assumes "on_path it S ks"
  shows "opened it (length ks)" and "set (keys it (length ks)) \<subseteq> children S ks"
    and "it_cursor it (length ks) = fst (it_range it (length ks)) \<Longrightarrow> keys it (length ks) = sorted_list_of_set (children S ks)"
proof -
  let ?d = "length ks"
  have p: "cols_wf (it_cols it)" "listing (rows (it_cols it)) S" "?d \<le> 2" "opened it ?d"
    "seg it ?d = prefixed ks (rows (it_cols it))"
    using assms by (auto simp: on_path_def)
  show "opened it ?d" by (fact p(4))
  have w: "set (whole it ?d) = children S ks"
    using whole_seg [OF p(1,3)] prefixed_level(3) [OF _ p(3)] p(2,5) by (simp add: listing_def)
  show "set (keys it ?d) \<subseteq> children S ks"
    unfolding w [symmetric] keys_def using whole_split [OF p(4)] set_drop_subset by simp
  show "keys it ?d = sorted_list_of_set (children S ks)" if "it_cursor it ?d = fst (it_range it ?d)"
    using listing_dedup_sorted [of "whole it ?d"] p(4) w whole_split [OF p(4)] that
    by (simp add: keys_def opened_def)
qed

lemma descend:
  assumes path: "on_path it S ks" and d: "length ks < 2" and v: "peek it (length ks) = Some v"
  shows "\<exists>it'. open_level (Suc (length ks)) it = Some it' \<and> on_path it' S (ks @ [v])
    \<and> keys it' (Suc (length ks)) = sorted_list_of_set (children S (ks @ [v]))"
proof -
  let ?d = "length ks" and ?c = "it_cursor it (length ks)" and ?hi = "snd (it_range it (length ks))"
  let ?R = "rows (it_cols it)"
  have p: "cols_wf (it_cols it)" "listing ?R S" "opened it ?d" "seg it ?d = prefixed ks ?R"
    using path by (auto simp: on_path_def)
  have c: "?c < ?hi" "level (it_cols it) ?d ! ?c = v"
    using v p(3) by (auto simp: peek_def Let_def opened_def max_def split: prod.splits if_splits)
  have hiR: "?hi \<le> length ?R" using p(3) level_length [OF p(1), of ?d] d by (simp add: opened_def)
  define e where "e = run_end it ?d ?c ?hi v"
  define it' where "it' = it\<lparr>it_range := (it_range it)(Suc ?d := (?c, e)),
      it_cursor := (it_cursor it)(Suc ?d := ?c), it_distinct := (it_distinct it)(Suc ?d := None)\<rparr>"
  have "?c < length (level (it_cols it) ?d)" using c(1) p(3) by (simp add: opened_def)
  moreover have "ks = [] \<or> length ks = Suc 0" using d by (cases ks) auto
  ultimately have run: "open_level (Suc ?d) it = Some it'"
    using c(2) by (simp add: open_level_def it'_def e_def Let_def split: prod.split)
  have w: "whole it ?d = map (\<lambda>r. comps r ! ?d) (prefixed ks ?R)"
    using whole_seg [OF p(1), of ?d] d p(4) by simp
  note run_at = descended_run [OF p(3) c(1), unfolded c(2) w]
  have sorted: "sorted (map (\<lambda>r. comps r ! ?d) (prefixed ks ?R))" using p(3) w by (simp add: opened_def)
  define k where "k = partition_point (\<lambda>c. c < v) (map (\<lambda>r. comps r ! ?d) (prefixed ks ?R))"
  define n where "n = partition_point (\<lambda>c. c \<le> v) (drop k (map (\<lambda>r. comps r ! ?d) (prefixed ks ?R)))"
  have e: "e = ?c + n" and ck: "?c = fst (it_range it ?d) + k"
    using run_at by (simp_all add: e_def k_def n_def)
  have len: "length (prefixed ks ?R) = ?hi - fst (it_range it ?d)"
    using p(4) hiR by (simp add: seg_def flip: p(4))
  have kn: "k + n \<le> length (prefixed ks ?R)"
    using partition_point_le [of "\<lambda>c. c < v" "map (\<lambda>r. comps r ! ?d) (prefixed ks ?R)"]
      partition_point_le [of "\<lambda>c. c \<le> v" "drop k (map (\<lambda>r. comps r ! ?d) (prefixed ks ?R))"]
    by (simp add: k_def n_def)
  have eh: "e \<le> ?hi" using kn len ck c(1) unfolding e by simp
  have "subslice ?c e ?R = subslice k (k + n) (seg it ?d)"
    unfolding seg_def ck e using subslice_subslice [of k "k + n" ?hi "fst (it_range it ?d)" ?R] kn len by (simp add: add.assoc)
  also have "\<dots> = prefixed (ks @ [v]) ?R"
    using key_run [OF sorted, of v] prefixed_snoc [of ks v ?R] d unfolding p(4)
    by (simp add: subslice_def k_def n_def)
  finally have seg': "seg it' (Suc ?d) = prefixed (ks @ [v]) ?R" by (simp add: seg_def it'_def)
  have cols: "it_cols it' = it_cols it" by (simp add: it'_def)
  have w': "whole it' (Suc ?d) = map (\<lambda>r. comps r ! Suc ?d) (prefixed (ks @ [v]) ?R)"
    using whole_seg [of it' "Suc ?d"] p(1) d seg' by (simp add: cols)
  have L: "sorted_wrt (<) ?R" using p(2) by (simp add: listing_def)
  have sw: "sorted (whole it' (Suc ?d))" "Suc ?d = 2 \<longrightarrow> distinct (whole it' (Suc ?d))"
    unfolding w' using prefixed_level(1,2) [OF L, of "ks @ [v]"] d by auto
  have at: "it_range it' (Suc ?d) = (?c, e)" "it_cursor it' (Suc ?d) = ?c" "it_distinct it' (Suc ?d) = None"
    by (simp_all add: it'_def)
  have op: "opened it' (Suc ?d)"
    unfolding opened_def at cols using sw eh hiR level_length [OF p(1), of "Suc ?d"] d by (simp add: e)
  have same: "opened it' i = opened it i" "seg it' i = seg it i" if "i \<noteq> Suc ?d" for i
    using that by (simp_all add: it'_def opened_def whole_def seg_def)
  have path': "on_path it' S (ks @ [v])"
    unfolding on_path_def cols
  proof (intro conjI allI impI)
    fix i assume "i \<le> length (ks @ [v])"
    then show "opened it' i" "seg it' i = prefixed (take i (ks @ [v])) ?R"
      using path op seg' same [of i] by (cases "i = Suc ?d"; auto simp: on_path_def)+
  next
    fix i assume "i < length (ks @ [v])"
    then show "it_cursor it' i < snd (it_range it' i)" "level (it_cols it) i ! it_cursor it' i = (ks @ [v]) ! i"
      using path c by (cases "i = ?d"; auto simp: on_path_def it'_def nth_append)+
  qed (use p(1,2) d in auto)
  have "keys it' (Suc ?d) = sorted_list_of_set (children S (ks @ [v]))"
    using on_path_keys(3) [OF path'] by (simp add: it'_def)
  then show ?thesis using run path' by blast
qed

section \<open>Properties\<close>

text \<open>C28: Seeking at an open level moves to the first key not below the target, by galloping or by the
  bulk search alike: the keys ahead become those not below it, peeking reads the first of them, and
  the bulk view of a wide level lists all of them.\<close>

theorem seek_exact:
  assumes "opened it d"
  shows "opened (seek d v it) d \<and> keys (seek d v it) d = filter (\<lambda>k. v \<le> k) (keys it d)
    \<and> peek (seek d v it) d = (if \<exists>k\<in>set (keys it d). v \<le> k then Some (Min {k \<in> set (keys it d). v \<le> k}) else None)
    \<and> (\<forall>r. fst (active_run d it) = Some r \<longrightarrow> r = keys it d)"
proof -
  have "dropWhile (\<lambda>k. k < v) ks = filter (\<lambda>k. v \<le> k) ks" if "sorted_wrt (<) ks" for ks :: "u64 list"
    using that by (induction ks) (auto simp: not_less intro!: filter_True [symmetric])
  then have k: "keys (seek d v it) d = filter (\<lambda>k. v \<le> k) (keys it d)"
    using seek_spec(3) [OF assms] keys_strict [OF assms] by simp
  have "sorted_wrt (<) (keys (seek d v it) d)" using seek_spec(1) [OF assms] by (rule keys_strict)
  then have "peek (seek d v it) d = (if keys (seek d v it) d = [] then None else Some (Min (set (keys (seek d v it) d))))"
    unfolding peek_hd [OF seek_spec(1) [OF assms]]
    by (cases "keys (seek d v it) d") (auto intro!: Min_eqI [symmetric] simp: less_imp_le)
  moreover have "keys (seek d v it) d = [] \<longleftrightarrow> \<not> (\<exists>k\<in>set (keys it d). v \<le> k)"
    unfolding k by (auto simp: filter_empty_conv)
  moreover have "set (keys (seek d v it) d) = {k \<in> set (keys it d). v \<le> k}" unfolding k by auto
  moreover have "\<forall>r. fst (active_run d it) = Some r \<longrightarrow> r = keys it d"
    using active_run_spec(3) [OF assms surjective_pairing] by auto
  ultimately show ?thesis using seek_spec(1) [OF assms] k by auto
qed

lemma seek_exact_witness:
  "opened (iter_new (build [(1, 2, 3), (4, 5, 6)])) 0
   \<and> peek (seek 0 2 (iter_new (build [(1, 2, 3), (4, 5, 6)]))) 0 = Some 4"
proof -
  let ?it = "iter_new (build [(1, 2, 3), (4, 5, 6)])"
  have path: "on_path ?it {(1, 2, 3), (4, 5, 6)} []"
    using iter_new_path [OF rows_build, of "[(1, 2, 3), (4, 5, 6)]"] by simp
  have o: "opened ?it 0" using on_path_keys(1) [OF path] by simp
  have "children {(1, 2, 3), (4, 5, 6)} [] = {1, 4}" by (auto simp: children_def comps_def)
  then have k: "set (keys ?it 0) = {1, 4}" using on_path_keys(3) [OF path] by (simp add: iter_new_def)
  have "{k \<in> {1, 4}. 2 \<le> k} = {4 :: u64}" by auto
  then show ?thesis using seek_exact [OF o, of 2] o unfolding k by auto
qed

text \<open>A fresh cursor over an ordering shows its first components; descending below the key under
  the cursor never panics and shows exactly the components, each once in increasing order, of the
  rows that extend the path by that key.\<close>

theorem descend_exact:
  assumes "cols_wf c" and "listing (rows c) S"
  shows "on_path (iter_new c) S [] \<and> keys (iter_new c) 0 = sorted_list_of_set (children S [])
    \<and> (\<forall>it ks v. on_path it S ks \<and> length ks < 2 \<and> peek it (length ks) = Some v \<longrightarrow>
         v \<in> children S ks \<and>
         (\<exists>it'. open_level (Suc (length ks)) it = Some it' \<and> on_path it' S (ks @ [v])
            \<and> keys it' (Suc (length ks)) = sorted_list_of_set (children S (ks @ [v]))))"
proof -
  note p = iter_new_path [OF assms]
  have "keys (iter_new c) 0 = sorted_list_of_set (children S [])"
    using on_path_keys(3) [OF p] by (simp add: iter_new_def)
  moreover have "v \<in> children S ks" if "on_path it S ks" "peek it (length ks) = Some v" for it ks v
    using on_path_keys(2) [OF that(1)] that(2) peek_hd [OF on_path_keys(1) [OF that(1)]] by (auto split: list.splits)
  ultimately show ?thesis using p descend by blast
qed

lemma descend_exact_witness:
  "cols_wf (build [(1, 2, 3), (4, 5, 6)]) \<and> keys (iter_new (build [(1, 2, 3), (4, 5, 6)])) 0 = [1, 4]"
proof -
  have "children {(1, 2, 3), (4, 5, 6)} [] = {1, 4 :: u64}" by (auto simp: children_def comps_def)
  then show ?thesis
    using descend_exact [OF rows_build, of "[(1, 2, 3), (4, 5, 6)]"] rows_build(1) by simp
qed

text \<open>The scalar kernels, the reference of the vector ones: the lower bound splits a sorted slice
  at the target, intersection lists the common values of two key lists, merging keeps order and every
  occurrence, and deduplication of a sorted slice lists its values once.\<close>

theorem scalar_kernels_exact:
  assumes "sorted xs" and "sorted ys"
  shows "lower_bound xs v \<le> length xs \<and> (\<forall>i<length xs. xs ! i < v \<longleftrightarrow> i < lower_bound xs v)
    \<and> intersect (dedup None xs) (dedup None ys) = sorted_list_of_set (set xs \<inter> set ys)
    \<and> sorted (merge xs ys) \<and> (\<forall>x. count_list (merge xs ys) x = count_list xs x + count_list ys x)
    \<and> dedup None xs = sorted_list_of_set (set xs)"
proof -
  have lb: "xs ! i < v \<longleftrightarrow> i < lower_bound xs v" if "i < length xs" for i
  proof
    assume lt: "xs ! i < v"
    show "i < lower_bound xs v"
    proof (rule ccontr)
      assume "\<not> i < lower_bound xs v"
      then have le: "lower_bound xs v \<le> i" by simp
      then have "\<not> xs ! lower_bound xs v < v"
        using partition_point_stop [of "\<lambda>x. x < v" xs] that by (simp add: lower_bound_def)
      moreover have "xs ! lower_bound xs v \<le> xs ! i" by (rule sorted_nth_mono [OF assms(1) le that])
      ultimately show False using lt by simp
    qed
  next
    assume "i < lower_bound xs v"
    then show "xs ! i < v" unfolding lower_bound_def by (rule partition_point_nth)
  qed
  have d: "listing (dedup None zs) (set zs)" if "sorted zs" for zs
    using sorted_remdups_adj_strict [OF that] by (simp add: dedup_remdups listing_def)
  have "listing (intersect (dedup None xs) (dedup None ys)) (set xs \<inter> set ys)"
    using d [OF assms(1)] d [OF assms(2)] intersect_set intersect_strict by (simp add: listing_def)
  then have "intersect (dedup None xs) (dedup None ys) = sorted_list_of_set (set xs \<inter> set ys)"
    by (rule listing_unique) (simp add: listing_def)
  moreover have "dedup None xs = sorted_list_of_set (set xs)"
    by (rule listing_unique [OF d [OF assms(1)]]) (simp add: listing_def)
  moreover have "lower_bound xs v \<le> length xs" unfolding lower_bound_def by (rule partition_point_le)
  ultimately show ?thesis using lb merge_sorted [OF assms] merge_count by blast
qed

lemma scalar_kernels_exact_witness:
  "sorted [1, 3, 3 :: u64] \<and> intersect (dedup None [1, 3, 3]) (dedup None [3, 4]) = [3]"
  using scalar_kernels_exact [of "[1, 3, 3]" "[3, 4]" 0] by simp

end
