(* ===== verification/Leapfrog.thy ===== *)
theory Leapfrog imports Vec_Cursor begin

text \<open>
  \<^verbatim>\<open>crates/wcoj/src/trie/leapfrog.rs\<close>: the intersection of several trie iterators at one depth, by
  the round-robin leapfrog, or for two wide levels by one bulk intersection. The iterators are a
  trait: their operations are an argument. A panic, or a loop that would not end, is the outer
  \<open>None\<close>.
\<close>

section \<open>The join\<close>

record 'i trie_ops =
  tr_peek :: "'i \<Rightarrow> nat \<Rightarrow> u64 option"
  tr_seek :: "nat \<Rightarrow> u64 \<Rightarrow> 'i \<Rightarrow> 'i"
  tr_ready :: "'i \<Rightarrow> nat \<Rightarrow> bool"
  tr_run :: "nat \<Rightarrow> 'i \<Rightarrow> u64 list option \<times> 'i"

record 'i leapfrog_join =
  lf_iters :: "'i list"
  lf_depth :: nat
  lf_p :: nat
  lf_order :: "nat list"
  lf_done :: bool
  lf_primed :: bool
  lf_buf :: "u64 list"
  lf_pos :: nat
  lf_simd :: bool

definition lf_new :: "'i list \<Rightarrow> nat \<Rightarrow> 'i leapfrog_join" where
  "lf_new its d = \<lparr>lf_iters = its, lf_depth = d, lf_p = 0, lf_order = [], lf_done = False, lf_primed = False,
     lf_buf = [], lf_pos = 0, lf_simd = False\<rparr>"

definition try_arm_simd :: "'i trie_ops \<Rightarrow> 'i leapfrog_join \<Rightarrow> 'i leapfrog_join" where
  "try_arm_simd g j =
     (if lf_simd j \<or> length (lf_iters j) \<noteq> 2 then j
      else let d = lf_depth j; i0 = lf_iters j ! 0; i1 = lf_iters j ! 1 in
        if \<not> (tr_ready g i0 d \<and> tr_ready g i1 d) then j
        else let (a, i0') = tr_run g d i0; (b, i1') = tr_run g d i1; j' = j\<lparr>lf_iters := [i0', i1']\<rparr> in
          case (a, b) of (Some xs, Some ys) \<Rightarrow> j'\<lparr>lf_buf := intersect xs ys, lf_pos := 0, lf_simd := True\<rparr> | _ \<Rightarrow> j')"

partial_function (option) find_loop :: "'i trie_ops \<Rightarrow> 'i leapfrog_join \<Rightarrow> (u64 option \<times> 'i leapfrog_join) option" where
  "find_loop g j =
     (let k = length (lf_iters j); d = lf_depth j; prev = (lf_p j + k - 1) mod k; at = lf_order j ! lf_p j in
      case tr_peek g (lf_iters j ! (lf_order j ! prev)) d of None \<Rightarrow> Some (None, j) | Some target \<Rightarrow>
      (case tr_peek g (lf_iters j ! at) d of None \<Rightarrow> Some (None, j) | Some cur \<Rightarrow>
        if cur = target then Some (Some cur, j)
        else let it = tr_seek g d target (lf_iters j ! at); j' = j\<lparr>lf_iters := (lf_iters j)[at := it]\<rparr> in
          (case tr_peek g it d of None \<Rightarrow> Some (None, j'\<lparr>lf_done := True\<rparr>)
           | Some _ \<Rightarrow> find_loop g (j'\<lparr>lf_p := (lf_p j + 1) mod k\<rparr>))))"

definition find_match :: "'i trie_ops \<Rightarrow> 'i leapfrog_join \<Rightarrow> (u64 option \<times> 'i leapfrog_join) option" where
  "find_match g j0 =
     (let j = (if lf_simd j0 then j0 else try_arm_simd g j0); d = lf_depth j in
      if lf_simd j then
        (if lf_pos j < length (lf_buf j) then
           let v = lf_buf j ! lf_pos j in
           Some (Some v, j\<lparr>lf_pos := lf_pos j + 1,
             lf_iters := (lf_iters j)[0 := tr_seek g d v (lf_iters j ! 0), 1 := tr_seek g d v (lf_iters j ! 1)]\<rparr>)
         else Some (None, j\<lparr>lf_done := True\<rparr>))
      else find_loop g j)"

definition prime_order :: "u64 option list \<Rightarrow> nat list" where
  "prime_order heads = map fst (sort_key snd (zip [0..<length heads] (map the heads)))"

definition lf_next :: "'i trie_ops \<Rightarrow> 'i leapfrog_join \<Rightarrow> (u64 option \<times> 'i leapfrog_join) option" where
  "lf_next g j =
     (if lf_done j \<or> lf_iters j = [] then Some (None, j\<lparr>lf_done := True\<rparr>)
      else if \<not> lf_primed j then
        (let heads = map (\<lambda>i. tr_peek g i (lf_depth j)) (lf_iters j); j' = j\<lparr>lf_primed := True\<rparr> in
         if None \<in> set heads then Some (None, j'\<lparr>lf_done := True\<rparr>)
         else find_match g (j'\<lparr>lf_order := prime_order heads, lf_p := 0\<rparr>))
      else if lf_simd j then find_match g j
      else let k = length (lf_iters j); at = lf_order j ! lf_p j; d = lf_depth j in
        (case tr_peek g (lf_iters j ! at) d of None \<Rightarrow> None
         | Some cur \<Rightarrow>
             let it = tr_seek g d (cur + 1) (lf_iters j ! at); j' = j\<lparr>lf_iters := (lf_iters j)[at := it]\<rparr> in
             (case tr_peek g it d of None \<Rightarrow> Some (None, j'\<lparr>lf_done := True\<rparr>)
              | Some _ \<Rightarrow> find_match g (j'\<lparr>lf_p := (lf_p j + 1) mod k\<rparr>))))"

text \<open>Calling until the join is exhausted.\<close>

partial_function (option) lf_drain :: "'i trie_ops \<Rightarrow> 'i leapfrog_join \<Rightarrow> u64 list option" where
  "lf_drain g j = (case lf_next g j of None \<Rightarrow> None | Some (None, j') \<Rightarrow> Some []
     | Some (Some v, j') \<Rightarrow> Option.bind (lf_drain g j') (\<lambda>vs. Some (v # vs)))"

section \<open>The iterator contract\<close>

text \<open>
  At a fixed depth a trie iterator is a strictly increasing list of the values ahead; peeking reads
  the first, seeking drops what is smaller, a bulk view shows them all.
\<close>

locale trie_iterator =
  fixes g :: "'i trie_ops" and d :: nat and ok :: "'i \<Rightarrow> bool" and vals :: "'i \<Rightarrow> u64 list"
  assumes vals_strict: "ok i \<Longrightarrow> sorted_wrt (<) (vals i)"
    and peek_vals: "ok i \<Longrightarrow> tr_peek g i d = (case vals i of [] \<Rightarrow> None | v # vs \<Rightarrow> Some v)"
    and seek_ok: "ok i \<Longrightarrow> ok (tr_seek g d v i)"
    and seek_vals: "ok i \<Longrightarrow> vals (tr_seek g d v i) = dropWhile (\<lambda>x. x < v) (vals i)"
    and run_ok: "ok i \<Longrightarrow> ok (snd (tr_run g d i))"
    and run_vals: "ok i \<Longrightarrow> vals (snd (tr_run g d i)) = vals i"
    and run_run: "ok i \<Longrightarrow> fst (tr_run g d i) = Some r \<Longrightarrow> r = vals i"
begin

definition common :: "'i list \<Rightarrow> u64 set" where
  "common its = (\<Inter>i\<in>set its. set (vals i))"

definition key :: "'i leapfrog_join \<Rightarrow> nat \<Rightarrow> u64" where
  "key j n = hd (vals (lf_iters j ! n))"

text \<open>The ring: the iterators from the one sought next to the one with the largest head.\<close>

definition ring :: "'i leapfrog_join \<Rightarrow> nat list" where
  "ring j = rotate (lf_p j) (lf_order j)"

definition live :: "'i leapfrog_join \<Rightarrow> bool" where
  "live j \<longleftrightarrow> lf_depth j = d \<and> \<not> lf_done j \<and> lf_primed j \<and> \<not> lf_simd j \<and> lf_iters j \<noteq> []
     \<and> (\<forall>i\<in>set (lf_iters j). ok i \<and> vals i \<noteq> []) \<and> lf_p j < length (lf_iters j)
     \<and> distinct (lf_order j) \<and> set (lf_order j) = {..<length (lf_iters j)} \<and> sorted (map (key j) (ring j))"

lemma live_order: "live j \<Longrightarrow> length (lf_order j) = length (lf_iters j)"
  unfolding live_def by (metis card_lessThan distinct_card)

lemma ring_facts:
  assumes "live j"
  shows "ring j \<noteq> []" and "set (ring j) = {..<length (lf_iters j)}" and "distinct (ring j)"
    and "hd (ring j) = lf_order j ! lf_p j"
    and "last (ring j) = lf_order j ! ((lf_p j + length (lf_iters j) - 1) mod length (lf_iters j))"
proof -
  have len: "length (lf_order j) = length (lf_iters j)" by (rule live_order [OF assms])
  have ne: "lf_order j \<noteq> []" "lf_p j < length (lf_order j)" using assms len by (auto simp: live_def)
  show "ring j \<noteq> []" "set (ring j) = {..<length (lf_iters j)}" "distinct (ring j)"
    using assms ne by (auto simp: ring_def live_def)
  show "hd (ring j) = lf_order j ! lf_p j" using ne by (simp add: ring_def hd_rotate_conv_nth)
  have "last (ring j) = ring j ! (length (lf_order j) - 1)"
    using ne by (subst last_conv_nth) (auto simp: ring_def)
  also have "\<dots> = lf_order j ! ((lf_p j + (length (lf_order j) - 1)) mod length (lf_order j))"
    unfolding ring_def using ne by (intro nth_rotate) (cases "lf_order j", auto)
  finally show "last (ring j) = lf_order j ! ((lf_p j + length (lf_iters j) - 1) mod length (lf_iters j))"
    using ne len by simp
qed

lemma live_ok: "live j \<Longrightarrow> n < length (lf_iters j) \<Longrightarrow> ok (lf_iters j ! n) \<and> vals (lf_iters j ! n) \<noteq> []"
  by (simp add: live_def)

lemma live_peek: "live j \<Longrightarrow> n < length (lf_iters j) \<Longrightarrow> tr_peek g (lf_iters j ! n) d = Some (key j n)"
  using live_ok [of j n] peek_vals [of "lf_iters j ! n"] by (auto simp: key_def split: list.split)

lemma key_le: "ok i \<Longrightarrow> v \<in> set (vals i) \<Longrightarrow> hd (vals i) \<le> v"
  using vals_strict [of i] by (cases "vals i") auto

lemma common_ge: "live j \<Longrightarrow> n < length (lf_iters j) \<Longrightarrow> v \<in> common (lf_iters j) \<Longrightarrow> key j n \<le> v"
  unfolding key_def common_def using live_ok key_le by (meson INT_iff nth_mem)

text \<open>Replacing one iterator by a sought one and turning the ring.\<close>

lemma turn:
  assumes "live j" and "n = hd (ring j)" and "ok it" and "vals it \<noteq> []" and "\<forall>m\<in>set (ring j). m \<noteq> n \<longrightarrow> key j m \<le> hd (vals it)"
  shows "live (j\<lparr>lf_iters := (lf_iters j)[n := it], lf_p := (lf_p j + 1) mod length (lf_iters j)\<rparr>)"
proof -
  let ?j = "j\<lparr>lf_iters := (lf_iters j)[n := it], lf_p := (lf_p j + 1) mod length (lf_iters j)\<rparr>"
  note r = ring_facts [OF assms(1)]
  have n: "n < length (lf_iters j)" using r(1,2) hd_in_set unfolding assms(2) by blast
  have len: "length (lf_order j) = length (lf_iters j)" by (rule live_order [OF assms(1)])
  have "ring ?j = rotate1 (ring j)"
    using rotate_conv_mod [of "Suc (lf_p j)" "lf_order j"] by (simp add: ring_def len)
  also have "\<dots> = tl (ring j) @ [n]" using r(1) unfolding assms(2) by (cases "ring j") auto
  finally have ring: "ring ?j = tl (ring j) @ [n]" .
  have dist: "n \<notin> set (tl (ring j))" using r(1,3) unfolding assms(2) by (cases "ring j") auto
  have tl: "set (tl (ring j)) \<subseteq> set (ring j)" by (cases "ring j") auto
  have key: "key ?j m = (if m = n then hd (vals it) else key j m)" if "m < length (lf_iters j)" for m
    using that n by (simp add: key_def nth_list_update)
  have "map (key ?j) (tl (ring j)) = map (key j) (tl (ring j))"
    using key tl dist r(2) by (intro map_cong) auto
  then have "map (key ?j) (ring ?j) = map (key j) (tl (ring j)) @ [hd (vals it)]"
    unfolding ring map_append list.map key [OF n] by simp
  moreover have "sorted (map (key j) (tl (ring j)))"
    using assms(1) r(1) unfolding live_def by (cases "ring j") auto
  ultimately have "sorted (map (key ?j) (ring ?j))"
    using assms(5) tl dist by (auto simp: sorted_append)
  moreover have "\<forall>i\<in>set (lf_iters ?j). ok i \<and> vals i \<noteq> []"
    using assms(1,3,4) by (auto simp: live_def dest!: set_update_subset_insert [THEN subsetD])
  ultimately show ?thesis using assms(1) n by (simp add: live_def)
qed

lemma common_update:
  assumes "n < length its" and "\<And>v. v \<in> (\<Inter>m\<in>{..<length its} - {n}. set (vals (its ! m))) \<Longrightarrow>
      v \<in> set (vals it) \<longleftrightarrow> v \<in> set (vals (its ! n)) \<and> P v"
  shows "common (its[n := it]) = {v \<in> common its. P v}"
proof -
  have c: "common xs = (\<Inter>m\<in>{..<length xs}. set (vals (xs ! m)))" for xs
    unfolding common_def by (auto simp: set_conv_nth)
  have "common (its[n := it]) = set (vals it) \<inter> (\<Inter>m\<in>{..<length its} - {n}. set (vals (its ! m)))"
    unfolding c length_list_update using assms(1) by (auto simp: nth_list_update split: if_splits)
  also have "\<dots> = {v \<in> set (vals (its ! n)) \<inter> (\<Inter>m\<in>{..<length its} - {n}. set (vals (its ! m))). P v}"
    using assms(2) by blast
  also have "set (vals (its ! n)) \<inter> (\<Inter>m\<in>{..<length its} - {n}. set (vals (its ! m))) = common its"
    unfolding c using assms(1) by auto
  finally show ?thesis .
qed

lemma live_finite: "live j \<Longrightarrow> finite (common (lf_iters j))"
  unfolding live_def common_def by (cases "lf_iters j") auto

text \<open>One round: the heads agree, or the sought iterator runs out, or the ring turns.\<close>

lemma round_facts:
  assumes "live j"
  defines "n \<equiv> hd (ring j)"
  defines "t \<equiv> key j (last (ring j))"
  defines "it \<equiv> tr_seek g d t (lf_iters j ! n)"
  defines "j' \<equiv> j\<lparr>lf_iters := (lf_iters j)[n := it], lf_p := (lf_p j + 1) mod length (lf_iters j)\<rparr>"
  shows "n < length (lf_iters j)" and "last (ring j) < length (lf_iters j)"
    and "key j n = t \<Longrightarrow> t \<in> common (lf_iters j) \<and> (\<forall>m<length (lf_iters j). key j m = t)"
    and "ok it" and "key j n \<noteq> t \<Longrightarrow> vals it = [] \<Longrightarrow> common (lf_iters j) = {}"
    and "key j n \<noteq> t \<Longrightarrow> vals it \<noteq> [] \<Longrightarrow> live j' \<and> common (lf_iters j') = common (lf_iters j) \<and> t \<le> hd (vals it)
      \<and> (\<Sum>i\<leftarrow>lf_iters j'. length (vals i)) < (\<Sum>i\<leftarrow>lf_iters j. length (vals i))"
proof -
  note r = ring_facts [OF assms(1)]
  let ?its = "lf_iters j" and ?k = "length (lf_iters j)"
  show n: "n < ?k" "last (ring j) < ?k" unfolding n_def using r(1,2) hd_in_set last_in_set by blast+
  have le: "key j m \<le> t" "key j n \<le> key j m" if "m \<in> set (ring j)" for m
  proof -
    have s: "sorted (map (key j) (ring j))" using assms(1) by (simp add: live_def)
    show "key j n \<le> key j m" unfolding n_def using s that r(1) by (cases "ring j") auto
    have rb: "ring j = butlast (ring j) @ [last (ring j)]" using r(1) by simp
    then have "sorted (map (key j) (butlast (ring j)) @ [t])" using s unfolding t_def by (metis list.simps(8,9) map_append)
    then have "\<forall>x\<in>set (butlast (ring j)). key j x \<le> t" by (simp add: sorted_append)
    moreover have "m \<in> set (butlast (ring j)) \<or> m = last (ring j)" using that by (subst (asm) rb) auto
    ultimately show "key j m \<le> t" unfolding t_def by auto
  qed
  show "t \<in> common ?its \<and> (\<forall>m<?k. key j m = t)" if eq: "key j n = t"
  proof -
    have all: "key j m = t" if "m < ?k" for m using le [of m] that r(2) eq by auto
    have "t \<in> common ?its"
      unfolding common_def
    proof
      fix i assume "i \<in> set ?its"
      then obtain m where m: "m < ?k" "i = ?its ! m" by (auto simp: in_set_conv_nth)
      then show "t \<in> set (vals i)" using all [OF m(1)] live_ok [OF assms(1) m(1)] hd_in_set by (metis key_def)
    qed
    then show ?thesis using all by blast
  qed
  have oki: "ok (?its ! n)" "vals (?its ! n) \<noteq> []" using live_ok [OF assms(1) n(1)] by auto
  have it: "ok it" "vals it = dropWhile (\<lambda>x. x < t) (vals (?its ! n))"
    using seek_ok [OF oki(1)] seek_vals [OF oki(1)] by (simp_all add: it_def)
  show "ok it" by (fact it(1))
  have same: "common (?its[n := it]) = common ?its" if "key j n \<noteq> t"
  proof -
    have nlast: "last (ring j) \<noteq> n" using that by (auto simp: t_def)
    have "common (?its[n := it]) = {v \<in> common ?its. True}"
    proof (rule common_update [OF n(1)])
      fix v assume v: "v \<in> (\<Inter>m\<in>{..<?k} - {n}. set (vals (?its ! m)))"
      then have "v \<in> set (vals (?its ! last (ring j)))" using n(2) nlast by blast
      then have "t \<le> v" unfolding t_def key_def using key_le live_ok [OF assms(1) n(2)] by blast
      moreover have "sorted_wrt (<) (vals (?its ! n))" by (rule vals_strict [OF oki(1)])
      ultimately show "v \<in> set (vals it) \<longleftrightarrow> v \<in> set (vals (?its ! n)) \<and> True"
        unfolding it(2) by (metis leD set_dropWhileD set_takeWhileD takeWhile_dropWhile_id Un_iff set_append)
    qed
    then show ?thesis by simp
  qed
  show "common ?its = {}" if "key j n \<noteq> t" "vals it = []"
  proof -
    have "it \<in> set (?its[n := it])" using n(1) by (rule set_update_memI)
    then have "common (?its[n := it]) \<subseteq> set (vals it)" unfolding common_def by blast
    then show ?thesis using same [OF that(1)] that(2) by simp
  qed
  show "live j' \<and> common (lf_iters j') = common ?its \<and> t \<le> hd (vals it)
      \<and> (\<Sum>i\<leftarrow>lf_iters j'. length (vals i)) < (\<Sum>i\<leftarrow>?its. length (vals i))"
    if ne: "key j n \<noteq> t" "vals it \<noteq> []"
  proof (intro conjI)
    show v: "t \<le> hd (vals it)"
      using ne(2) it(2) hd_dropWhile [of "\<lambda>x. x < t" "vals (?its ! n)"] by (simp add: not_less)
    show "live j'"
      unfolding j'_def
      by (rule turn [OF assms(1) n_def [THEN meta_eq_to_obj_eq] it(1) ne(2)]) (use v le(1) in \<open>auto intro: order_trans\<close>)
    show "common (lf_iters j') = common ?its" using same [OF ne(1)] by (simp add: j'_def)
    have "length (vals it) < length (vals (?its ! n))"
    proof -
      obtain x xs where x: "vals (?its ! n) = x # xs" using oki(2) by (cases "vals (?its ! n)") auto
      then have "x < t" using le(1) [of n] ne(1) r(1) by (simp add: key_def n_def order_less_le)
      then show ?thesis unfolding it(2) x using length_dropWhile_le [of "\<lambda>x. x < t" xs] by simp
    qed
    then show "(\<Sum>i\<leftarrow>lf_iters j'. length (vals i)) < (\<Sum>i\<leftarrow>?its. length (vals i))"
      using n(1) elem_le_sum_list [of n "map (\<lambda>i. length (vals i)) ?its"]
      by (simp add: j'_def map_update sum_list_update)
  qed
qed

text \<open>The loop: it ends, with the least common value and every head on it, or knowing there is none.\<close>

lemma find_loop_agrees:
  assumes "live j"
  shows "\<exists>r j'. find_loop g j = Some (r, j') \<and>
    (case r of None \<Rightarrow> common (lf_iters j) = {} \<and> lf_done j' \<and> lf_depth j' = d
     | Some v \<Rightarrow> live j' \<and> common (lf_iters j') = common (lf_iters j) \<and> v \<in> common (lf_iters j)
         \<and> (\<forall>n<length (lf_iters j'). key j' n = v))"
  using assms
proof (induction "\<Sum>i\<leftarrow>lf_iters j. length (vals i)" arbitrary: j rule: less_induct)
  case less
  note r = ring_facts [OF less.prems] and rf = round_facts [OF less.prems]
  let ?its = "lf_iters j" and ?k = "length (lf_iters j)" and ?n = "hd (ring j)" and ?t = "key j (last (ring j))"
  have depth: "lf_depth j = d" using less.prems by (simp add: live_def)
  have pk: "tr_peek g (?its ! ?n) d = Some (key j ?n)" "tr_peek g (?its ! last (ring j)) d = Some ?t"
    using live_peek [OF less.prems] rf(1,2) by blast+
  define it where "it = tr_seek g d ?t (?its ! ?n)"
  let ?j = "j\<lparr>lf_iters := ?its[?n := it], lf_p := (lf_p j + 1) mod ?k\<rparr>"
  have step: "find_loop g j = (if key j ?n = ?t then Some (Some (key j ?n), j)
      else case tr_peek g it d of None \<Rightarrow> Some (None, j\<lparr>lf_iters := ?its[?n := it], lf_done := True\<rparr>)
        | Some _ \<Rightarrow> find_loop g ?j)"
    unfolding find_loop.simps [of g j] Let_def depth r(4) [symmetric] r(5) [symmetric] pk option.case it_def [symmetric]
    by simp
  note rf' = rf(4-6) [folded it_def]
  show ?case
  proof (cases "key j ?n = ?t")
    case True
    define t where "t = ?t"
    have "find_loop g j = Some (Some t, j)" using step True by (simp add: t_def)
    moreover have "t \<in> common ?its" "\<forall>m<?k. key j m = t" using rf(3) [OF True] unfolding t_def by blast+
    ultimately show ?thesis using less.prems by (intro exI [of _ "Some t"] exI [of _ j]) simp
  next
    case False
    show ?thesis
    proof (cases "vals it")
      case Nil
      then show ?thesis using step False depth peek_vals [OF rf'(1)] rf'(2) by simp
    next
      case (Cons v vs)
      then have j: "live ?j" "common (lf_iters ?j) = common ?its"
        "(\<Sum>i\<leftarrow>lf_iters ?j. length (vals i)) < (\<Sum>i\<leftarrow>?its. length (vals i))"
        using rf'(3) [OF False] by simp_all
      have "find_loop g j = find_loop g ?j" using step False Cons peek_vals [OF rf'(1)] by simp
      then show ?thesis using less.hyps [OF j(3,1)] j(2) by (simp only:)
    qed
  qed
qed

section \<open>Successive values\<close>

text \<open>
  The values a join has still to yield: none when it is done, the whole intersection before it is
  primed, the rest of the bulk buffer, or everything after the value its heads stand on.
\<close>

definition pending :: "'i leapfrog_join \<Rightarrow> u64 list \<Rightarrow> bool" where
  "pending j xs \<longleftrightarrow> lf_depth j = d \<and>
     (lf_done j \<and> xs = []
      \<or> \<not> lf_done j \<and> \<not> lf_primed j \<and> \<not> lf_simd j \<and> lf_iters j \<noteq> [] \<and> (\<forall>i\<in>set (lf_iters j). ok i)
          \<and> listing xs (common (lf_iters j))
      \<or> \<not> lf_done j \<and> lf_primed j \<and> lf_simd j \<and> length (lf_iters j) = 2 \<and> (\<forall>i\<in>set (lf_iters j). ok i)
          \<and> xs = drop (lf_pos j) (lf_buf j) \<and> sorted_wrt (<) xs \<and> set xs \<subseteq> common (lf_iters j)
      \<or> live j \<and> (\<exists>v. v \<noteq> - 1 \<and> (\<forall>n<length (lf_iters j). key j n = v) \<and> listing xs (common (lf_iters j) - {v})))"

definition stands :: "'i leapfrog_join \<Rightarrow> u64 \<Rightarrow> bool" where
  "stands j v \<longleftrightarrow> (\<forall>i\<in>set (lf_iters j). tr_peek g i d = Some v)"

definition yields :: "(u64 option \<times> 'i leapfrog_join) option \<Rightarrow> u64 list \<Rightarrow> bool" where
  "yields r xs \<longleftrightarrow> (\<exists>j'. r = Some (case xs of [] \<Rightarrow> None | x # _ \<Rightarrow> Some x, j') \<and> pending j' (tl xs)
     \<and> (xs \<noteq> [] \<longrightarrow> stands j' (hd xs)))"

lemma seek_common:
  assumes "ok i" and "v \<in> set (vals i)"
  shows "tr_peek g (tr_seek g d v i) d = Some v" and "set (vals (tr_seek g d v i)) = {x \<in> set (vals i). v \<le> x}"
proof -
  have s: "sorted_wrt (<) (vals i)" by (rule vals_strict [OF assms(1)])
  have dw: "dropWhile (\<lambda>x. x < v) xs = v # filter (\<lambda>x. v < x) xs" if "sorted_wrt (<) xs" "v \<in> set xs" for xs
    using that
  proof (induction xs)
    case (Cons x xs)
    show ?case
    proof (cases "x < v")
      case True then show ?thesis using Cons by auto
    next
      case False
      then have "x = v" using Cons.prems by auto
      then show ?thesis using Cons.prems by (auto intro!: filter_True [symmetric])
    qed
  qed simp
  then have *: "vals (tr_seek g d v i) = v # filter (\<lambda>x. v < x) (vals i)"
    using seek_vals [OF assms(1)] s assms(2) by simp
  show "tr_peek g (tr_seek g d v i) d = Some v" using peek_vals [OF seek_ok [OF assms(1)]] * by simp
  show "set (vals (tr_seek g d v i)) = {x \<in> set (vals i). v \<le> x}" unfolding * using assms(2) by auto
qed

lemma simd_step:
  assumes "lf_depth j = d" "\<not> lf_done j" "lf_primed j" "lf_simd j" "length (lf_iters j) = 2" "\<forall>i\<in>set (lf_iters j). ok i"
    and "xs = drop (lf_pos j) (lf_buf j)" "sorted_wrt (<) xs" "set xs \<subseteq> common (lf_iters j)"
  shows "yields (find_match g j) xs"
proof (cases xs)
  case Nil
  then show ?thesis using assms by (auto simp: yields_def find_match_def Let_def pending_def)
next
  case (Cons v vs)
  obtain a b where ab: "lf_iters j = [a, b]" using assms(5) by (auto simp: length_Suc_conv numeral_2_eq_2)
  have pos: "lf_pos j < length (lf_buf j)" using assms(7) Cons by (metis drop_eq_Nil list.distinct(1) not_less)
  then have v: "lf_buf j ! lf_pos j = v" "drop (Suc (lf_pos j)) (lf_buf j) = vs"
    using assms(7) Cons by (simp_all flip: Cons_nth_drop_Suc)
  define j' where "j' = j\<lparr>lf_pos := lf_pos j + 1, lf_iters := [tr_seek g d v a, tr_seek g d v b]\<rparr>"
  have run: "find_match g j = Some (Some v, j')"
    using assms(1,4) pos v(1) by (simp add: find_match_def Let_def j'_def ab)
  have mem: "ok a" "ok b" "set xs \<subseteq> set (vals a)" "set xs \<subseteq> set (vals b)" using assms(6,9) ab by (auto simp: common_def)
  have va: "v \<in> set (vals a)" "v \<in> set (vals b)" using mem Cons by auto
  have "set vs \<subseteq> {x. v \<le> x}" using assms(8) Cons by (auto simp: less_imp_le)
  then have "set vs \<subseteq> common (lf_iters j')"
    using mem Cons seek_common(2) [OF mem(1) va(1)] seek_common(2) [OF mem(2) va(2)] by (auto simp: j'_def common_def)
  then have "pending j' vs"
    using assms(1-4,8) Cons v(2) mem(1,2) seek_ok by (auto simp: pending_def j'_def)
  moreover have "stands j' v"
    using seek_common(1) [OF mem(1) va(1)] seek_common(1) [OF mem(2) va(2)] by (simp add: stands_def j'_def)
  ultimately show ?thesis using run Cons by (simp add: yields_def)
qed

lemma live_cong:
  assumes "live j" and "length its = length (lf_iters j)"
    and "\<And>n. n < length its \<Longrightarrow> ok (its ! n) \<and> vals (its ! n) = vals (lf_iters j ! n)"
  shows "live (j\<lparr>lf_iters := its\<rparr>)" and "common its = common (lf_iters j)"
proof -
  have k: "key (j\<lparr>lf_iters := its\<rparr>) n = key j n" if "n < length its" for n using assms(3) [OF that] by (simp add: key_def)
  have "set (ring j) = {..<length its}" using ring_facts(2) [OF assms(1)] assms(2) by simp
  then have "map (key (j\<lparr>lf_iters := its\<rparr>)) (ring j) = map (key j) (ring j)" using k by simp
  then have "sorted (map (key (j\<lparr>lf_iters := its\<rparr>)) (ring (j\<lparr>lf_iters := its\<rparr>)))"
    using assms(1) unfolding live_def by (simp add: ring_def del: map_eq_conv)
  moreover have "\<forall>i\<in>set its. ok i \<and> vals i \<noteq> []"
    using assms(3) live_ok [OF assms(1)] assms(2) by (auto simp: in_set_conv_nth)
  ultimately show "live (j\<lparr>lf_iters := its\<rparr>)" using assms(1,2) by (auto simp: live_def)
  have "common ys = (\<Inter>n\<in>{..<length ys}. set (vals (ys ! n)))" for ys
    unfolding common_def by (auto simp: set_conv_nth)
  then show "common its = common (lf_iters j)" using assms(2,3) by simp
qed

lemma match_pending:
  assumes "live j" "\<forall>n<length (lf_iters j). key j n = v" "v \<in> common (lf_iters j)" "listing xs (common (lf_iters j))"
    and "- 1 \<notin> set xs"
  shows "xs = v # tl xs" and "pending j (tl xs)" and "stands j v"
proof -
  have n: "0 < length (lf_iters j)" using assms(1) by (simp add: live_def)
  have least: "w \<in> common (lf_iters j) \<Longrightarrow> v \<le> w" for w using common_ge [OF assms(1) n] assms(2) n by simp
  have xs: "sorted_wrt (<) xs" "set xs = common (lf_iters j)" using assms(4) by (simp_all add: listing_def)
  then obtain x ys where x: "xs = x # ys" using assms(3) by (cases xs) auto
  then have "x = v" using least [of x] xs assms(3) by force
  then show "xs = v # tl xs" using x by simp
  have "listing (tl xs) (common (lf_iters j) - {v})" using xs x \<open>x = v\<close> by (auto simp: listing_def)
  moreover have "v \<noteq> - 1" using assms(3,5) xs(2) by auto
  ultimately show "pending j (tl xs)" using assms(1,2) unfolding pending_def live_def by blast
  show "stands j v"
    unfolding stands_def using live_peek [OF assms(1)] assms(2) by (auto simp: in_set_conv_nth)
qed

lemma find_loop_yields:
  assumes "live j" and "listing xs (common (lf_iters j))" and "- 1 \<notin> set xs"
  shows "yields (find_loop g j) xs"
proof -
  obtain r j' where f: "find_loop g j = Some (r, j')"
    "case r of None \<Rightarrow> common (lf_iters j) = {} \<and> lf_done j' \<and> lf_depth j' = d
     | Some v \<Rightarrow> live j' \<and> common (lf_iters j') = common (lf_iters j) \<and> v \<in> common (lf_iters j)
       \<and> (\<forall>n<length (lf_iters j'). key j' n = v)"
    using find_loop_agrees [OF assms(1)] by blast
  show ?thesis
  proof (cases r)
    case None
    then have "xs = []" using f(2) assms(2) by (simp add: listing_def)
    then show ?thesis using f None by (simp add: yields_def pending_def)
  next
    case (Some v)
    then show ?thesis using f match_pending [of j' v xs] assms(2,3) by (cases xs) (auto simp: yields_def)
  qed
qed

lemma listing_intersect:
  assumes "ok a" and "ok b"
  shows "listing (intersect (vals a) (vals b)) (common [a, b])"
  using intersect_set [OF vals_strict [OF assms(1)] vals_strict [OF assms(2)]]
    intersect_strict [OF vals_strict [OF assms(1)] vals_strict [OF assms(2)]]
  by (simp add: listing_def common_def)

lemma find_match_yields:
  assumes "live j" and xs: "listing xs (common (lf_iters j))" and max: "- 1 \<notin> set xs"
  shows "yields (find_match g j) xs"
proof -
  let ?j = "try_arm_simd g j"
  have scalar: "yields (find_loop g j1) xs" if "live j1" "common (lf_iters j1) = common (lf_iters j)" for j1
    using find_loop_yields [OF that(1) _ max] xs that(2) by simp
  have simd: "\<not> lf_simd j" "lf_depth j = d" "\<not> lf_done j" "lf_primed j" using assms(1) by (simp_all add: live_def)
  show ?thesis
  proof (cases "length (lf_iters j) = 2 \<and> tr_ready g (lf_iters j ! 0) d \<and> tr_ready g (lf_iters j ! 1) d")
    case False
    then have "try_arm_simd g j = j" using simd by (auto simp: try_arm_simd_def Let_def)
    then show ?thesis using scalar [OF assms(1) refl] simd(1) by (simp add: find_match_def)
  next
    case True
    obtain a b where ab: "lf_iters j = [a, b]" using True by (auto simp: length_Suc_conv numeral_2_eq_2)
    let ?a = "tr_run g d a" and ?b = "tr_run g d b"
    define j1 where "j1 = j\<lparr>lf_iters := [snd ?a, snd ?b]\<rparr>"
    have ok: "ok a" "ok b" using assms(1) ab by (simp_all add: live_def)
    have "ok ([snd ?a, snd ?b] ! n) \<and> vals ([snd ?a, snd ?b] ! n) = vals (lf_iters j ! n)" if "n < 2" for n
      using that ok run_ok run_vals by (cases n) (auto simp: ab)
    then have j1: "live j1" "common (lf_iters j1) = common (lf_iters j)"
      using live_cong [OF assms(1), of "[snd ?a, snd ?b]"] by (simp_all add: ab j1_def)
    show ?thesis
    proof (cases "fst ?a \<noteq> None \<and> fst ?b \<noteq> None")
      case True2: True
      then have runs: "fst ?a = Some (vals a)" "fst ?b = Some (vals b)" using run_run ok by auto
      define j2 where "j2 = j1\<lparr>lf_buf := intersect (vals a) (vals b), lf_pos := 0, lf_simd := True\<rparr>"
      have "try_arm_simd g j = j2"
        using True simd runs
        by (cases ?a; cases ?b) (simp add: try_arm_simd_def Let_def ab j2_def j1_def)
      then have eq: "find_match g j = find_match g j2" using simd(1) by (simp add: find_match_def j2_def)
      have "listing (intersect (vals a) (vals b)) (common (lf_iters j))" using listing_intersect [OF ok] by (simp add: ab)
      then have "xs = drop (lf_pos j2) (lf_buf j2)" using listing_unique [OF xs] by (simp add: j2_def)
      moreover have "\<forall>i\<in>set (lf_iters j2). ok i" using ok run_ok by (simp add: j2_def j1_def)
      moreover have "set xs \<subseteq> common (lf_iters j2)" using xs j1(2) by (simp add: listing_def j2_def)
      ultimately show ?thesis unfolding eq using simd xs
        by (intro simd_step) (simp_all add: j2_def j1_def listing_def)
    next
      case False2: False
      have "try_arm_simd g j = j1"
        using True simd False2 by (auto simp: try_arm_simd_def Let_def ab j1_def split: prod.split option.split)
      then show ?thesis using scalar [OF j1] simd(1) by (simp add: find_match_def j1_def)
    qed
  qed
qed

lemma primed_live:
  assumes "\<forall>i\<in>set (lf_iters j). ok i \<and> vals i \<noteq> []" "lf_iters j \<noteq> []" "lf_depth j = d" "\<not> lf_done j" "\<not> lf_simd j"
  shows "live (j\<lparr>lf_primed := True, lf_order := prime_order (map (\<lambda>i. tr_peek g i d) (lf_iters j)), lf_p := 0\<rparr>)"
proof -
  let ?h = "map (\<lambda>i. tr_peek g i d) (lf_iters j)" and ?k = "length (lf_iters j)"
  let ?j = "j\<lparr>lf_primed := True, lf_order := prime_order ?h, lf_p := 0\<rparr>"
  define zs where "zs = zip [0..<?k] (map the ?h)"
  have po: "prime_order ?h = map fst (sort_key snd zs)" by (simp add: prime_order_def zs_def)
  have head: "the (tr_peek g (lf_iters j ! n) d) = key j n" if "n < ?k" for n
    using assms(1) peek_vals [of "lf_iters j ! n"] that by (auto simp: key_def split: list.split)
  have "map the ?h = map (key j) [0..<?k]" using head by (intro nth_equalityI) auto
  then have z: "set zs = {(n, key j n) | n. n < ?k}" unfolding zs_def by (auto simp: zip_map2 zip_same_conv_map)
  have "inj_on fst (set (sort_key snd zs))" unfolding set_sort z by (auto intro!: inj_onI)
  moreover have "distinct zs" by (simp add: distinct_zipI1 zs_def)
  ultimately have "distinct (prime_order ?h)" by (simp add: po distinct_map)
  moreover have "set (prime_order ?h) = {..<?k}" unfolding po using z by force
  moreover have "map (key j) (prime_order ?h) = map snd (sort_key snd zs)"
    unfolding po map_map comp_def by (rule map_cong) (use z in auto)
  then have "sorted (map (key j) (prime_order ?h))" by simp
  moreover have "key ?j = key j" by (rule ext) (simp add: key_def)
  ultimately show ?thesis using assms by (simp add: live_def ring_def)
qed

text \<open>Advancing past a matched value.\<close>

lemma advance:
  assumes "live j" "\<forall>n<length (lf_iters j). key j n = v" "listing xs (common (lf_iters j) - {v})" "v \<noteq> - 1"
  defines "it \<equiv> tr_seek g d (v + 1) (lf_iters j ! hd (ring j))"
  defines "j' \<equiv> j\<lparr>lf_iters := (lf_iters j)[hd (ring j) := it], lf_p := (lf_p j + 1) mod length (lf_iters j)\<rparr>"
  shows "ok it" and "vals it = [] \<Longrightarrow> xs = []" and "vals it \<noteq> [] \<Longrightarrow> live j' \<and> listing xs (common (lf_iters j'))"
proof -
  note r = ring_facts [OF assms(1)]
  let ?n = "hd (ring j)"
  have n: "?n < length (lf_iters j)" using r(1,2) hd_in_set by blast
  have oki: "ok (lf_iters j ! ?n)" "vals (lf_iters j ! ?n) \<noteq> []" using live_ok [OF assms(1) n] by auto
  have hd: "hd (vals (lf_iters j ! ?n)) = v" using assms(2) n by (simp add: key_def)
  obtain vs where vs: "vals (lf_iters j ! ?n) = v # vs" using oki(2) hd by (cases "vals (lf_iters j ! ?n)") auto
  have succ: "v < x \<longleftrightarrow> v + 1 \<le> x" for x :: u64 using assms(4) inc_less_eq_iff by blast
  have tl: "\<forall>x\<in>set vs. v < x" using vals_strict [OF oki(1)] vs by simp
  have it: "ok it" "vals it = vs"
    using seek_ok [OF oki(1)] seek_vals [OF oki(1), of "v + 1"] vs tl succ [of v] unfolding it_def
    by (auto simp: not_less succ dropWhile_eq_self_iff hd_in_set)
  show "ok it" by (fact it(1))
  have rest: "common ((lf_iters j)[?n := it]) = {x \<in> common (lf_iters j). x \<noteq> v}"
    using n tl by (intro common_update) (auto simp: it(2) vs)
  show "xs = []" if "vals it = []"
  proof -
    have "it \<in> set ((lf_iters j)[?n := it])" using n by (rule set_update_memI)
    then have "common ((lf_iters j)[?n := it]) \<subseteq> set (vals it)" unfolding common_def by blast
    then have "common (lf_iters j) - {v} = {}" using rest that by auto
    then have "set xs = {}" using assms(3) by (simp only: listing_def)
    then show ?thesis by simp
  qed
  show "live j' \<and> listing xs (common (lf_iters j'))" if ne: "vals it \<noteq> []"
  proof
    obtain w ws where w: "vs = w # ws" using ne it(2) by (cases vs) auto
    show "live j'"
      unfolding j'_def
      by (rule turn [OF assms(1) refl it(1)]) (use w it(2) assms(2) tl r(2) in \<open>auto simp: less_imp_le\<close>)
    show "listing xs (common (lf_iters j'))" using assms(3) rest by (simp add: j'_def set_diff_eq)
  qed
qed

lemma next_yields:
  assumes "pending j xs" and "- 1 \<notin> set xs"
  shows "yields (lf_next g j) xs"
proof -
  have d: "lf_depth j = d" using assms(1) by (simp add: pending_def)
  from assms(1) consider (finished) "lf_done j" "xs = []"
    | (fresh) "\<not> lf_done j" "\<not> lf_primed j" "\<not> lf_simd j" "lf_iters j \<noteq> []" "\<forall>i\<in>set (lf_iters j). ok i" "listing xs (common (lf_iters j))"
    | (bulk) "\<not> lf_done j" "lf_primed j" "lf_simd j" "length (lf_iters j) = 2" "\<forall>i\<in>set (lf_iters j). ok i"
        "xs = drop (lf_pos j) (lf_buf j)" "sorted_wrt (<) xs" "set xs \<subseteq> common (lf_iters j)"
    | (matched) v where "live j" "\<forall>n<length (lf_iters j). key j n = v" "listing xs (common (lf_iters j) - {v})" "v \<noteq> - 1"
    unfolding pending_def by blast
  then show ?thesis
  proof cases
    case finished
    then show ?thesis using d by (auto simp: yields_def lf_next_def pending_def)
  next
    case fresh
    show ?thesis
    proof (cases "\<exists>i\<in>set (lf_iters j). vals i = []")
      case True
      then obtain i where i: "i \<in> set (lf_iters j)" "vals i = []" by blast
      then have "tr_peek g i d = None" using fresh(5) peek_vals by simp
      moreover have "common (lf_iters j) \<subseteq> set (vals i)" using i(1) unfolding common_def by blast
      then have "xs = []" using fresh(6) i(2) by (simp add: listing_def)
      moreover from \<open>tr_peek g i d = None\<close> have "None \<in> (\<lambda>i. tr_peek g i d) ` set (lf_iters j)" using i(1) by force
      ultimately show ?thesis using fresh(1,2,4) d by (simp add: yields_def lf_next_def pending_def Let_def)
    next
      case False
      have "None \<notin> (\<lambda>i. tr_peek g i d) ` set (lf_iters j)"
        using False fresh(5) peek_vals by (auto split: list.splits)
      then have "lf_next g j = find_match g (j\<lparr>lf_primed := True,
          lf_order := prime_order (map (\<lambda>i. tr_peek g i d) (lf_iters j)), lf_p := 0\<rparr>)"
        using fresh(1-4) d by (simp add: lf_next_def Let_def)
      then show ?thesis using primed_live [of j] False fresh d find_match_yields [where xs = xs] assms(2) by simp
    qed
  next
    case bulk
    have ne: "lf_iters j \<noteq> []" using bulk(4) by auto
    have "lf_next g j = find_match g j" using bulk(1-3) ne by (simp add: lf_next_def)
    then show ?thesis using simd_step [OF d bulk] by simp
  next
    case matched
    note r = ring_facts [OF matched(1)]
    let ?n = "hd (ring j)" and ?k = "length (lf_iters j)"
    have n: "?n < ?k" using r(1,2) hd_in_set by blast
    note adv = advance [OF matched]
    define it where "it = tr_seek g d (v + 1) (lf_iters j ! ?n)"
    have fl: "\<not> lf_done j" "lf_primed j" "\<not> lf_simd j" "lf_iters j \<noteq> []" using matched(1) by (simp_all add: live_def)
    let ?j = "j\<lparr>lf_iters := (lf_iters j)[?n := it], lf_p := (lf_p j + 1) mod ?k\<rparr>"
    have pk: "tr_peek g (lf_iters j ! ?n) d = Some v" using live_peek [OF matched(1) n] matched(2) n by simp
    have step: "lf_next g j = (case tr_peek g it d of None \<Rightarrow> Some (None, j\<lparr>lf_iters := (lf_iters j)[?n := it], lf_done := True\<rparr>)
        | Some _ \<Rightarrow> find_match g ?j)"
      using fl d pk unfolding it_def r(4) by (simp add: lf_next_def Let_def)
    show ?thesis
    proof (cases "vals it")
      case Nil
      then show ?thesis using step peek_vals [OF adv(1)] adv(2) d by (simp add: yields_def pending_def it_def)
    next
      case (Cons w ws)
      then have "yields (find_match g ?j) xs" using adv(3) find_match_yields [OF _ _ assms(2), of ?j] by (simp add: it_def)
      then show ?thesis using step peek_vals [OF adv(1)] Cons by (simp add: it_def)
    qed
  qed
qed

lemma common_cong:
  assumes "length its' = length its" and "\<And>n. n < length its \<Longrightarrow> vals (its' ! n) = vals (its ! n)"
  shows "common its' = common its"
proof -
  have "common ys = (\<Inter>n\<in>{..<length ys}. set (vals (ys ! n)))" for ys
    unfolding common_def by (auto simp: set_conv_nth)
  then show ?thesis using assms by simp
qed

lemma pending_cong:
  assumes "pending j xs" and len: "length its = length (lf_iters j)"
    and same: "\<And>n. n < length its \<Longrightarrow> ok (its ! n) = ok (lf_iters j ! n) \<and> vals (its ! n) = vals (lf_iters j ! n)"
  shows "pending (j\<lparr>lf_iters := its\<rparr>) xs"
proof -
  let ?j = "j\<lparr>lf_iters := its\<rparr>"
  have com: "common its = common (lf_iters j)" using common_cong [OF len] same len by simp
  have ok: "(\<forall>i\<in>set its. ok i) = (\<forall>i\<in>set (lf_iters j). ok i)" using len same by (simp add: all_set_conv_all_nth)
  have ne: "its = [] \<longleftrightarrow> lf_iters j = []" using len by (metis length_0_conv)
  have key: "key ?j n = key j n" if "n < length its" for n using same [OF that] by (simp add: key_def)
  have "live ?j" if "live j" using live_cong(1) [OF that len] same live_ok [OF that] len by metis
  moreover have "\<forall>n<length its. key ?j n = v" if "\<forall>n<length (lf_iters j). key j n = v" for v using that key len by simp
  ultimately have match: "live ?j \<and> (\<exists>v. v \<noteq> - 1 \<and> (\<forall>n<length its. key ?j n = v) \<and> listing xs (common its - {v}))"
    if "live j \<and> (\<exists>v. v \<noteq> - 1 \<and> (\<forall>n<length (lf_iters j). key j n = v) \<and> listing xs (common (lf_iters j) - {v}))"
    using that unfolding com by blast
  show ?thesis
    using assms(1) match len unfolding pending_def by (elim conjE disjE) (simp_all add: com ok ne)
qed

lemma drain_pending: "pending j xs \<Longrightarrow> - 1 \<notin> set xs \<Longrightarrow> lf_drain g j = Some xs"
proof (induction xs arbitrary: j)
  case Nil
  then show ?case using next_yields [of j "[]"] by (subst lf_drain.simps) (auto simp: yields_def)
next
  case (Cons x xs)
  obtain j' where j': "lf_next g j = Some (Some x, j')" "pending j' xs"
    using next_yields [OF Cons.prems] by (auto simp: yields_def)
  then show ?case using Cons.IH [OF j'(2)] Cons.prems(2) by (subst lf_drain.simps) simp
qed

lemma new_pending:
  assumes "its \<noteq> []" and "\<forall>i\<in>set its. ok i"
  shows "pending (lf_new its d) (sorted_list_of_set (common its))"
proof -
  have "finite (common its)" using assms(1) by (cases its) (auto simp: common_def)
  then show ?thesis using assms by (simp add: pending_def lf_new_def listing_def)
qed

lemma leapfrog_values:
  assumes "its \<noteq> []" and "\<forall>i\<in>set its. ok i" and "- 1 \<notin> common its"
  shows "lf_drain g (lf_new its d) = Some (sorted_list_of_set (common its))"
    and "common its \<noteq> {} \<Longrightarrow> \<exists>j'. lf_next g (lf_new its d) = Some (Some (Min (common its)), j')
      \<and> (\<forall>i\<in>set (lf_iters j'). tr_peek g i d = Some (Min (common its)))"
proof -
  note p = new_pending [OF assms(1,2)]
  have fin: "finite (common its)" using assms(1) by (cases its) (auto simp: common_def)
  then have m: "- 1 \<notin> set (sorted_list_of_set (common its))" using assms(3) by simp
  show "lf_drain g (lf_new its d) = Some (sorted_list_of_set (common its))" by (rule drain_pending [OF p m])
  assume ne: "common its \<noteq> {}"
  then have h: "sorted_list_of_set (common its) = Min (common its) # tl (sorted_list_of_set (common its))"
    using fin by (simp add: sorted_list_of_set_nonempty)
  then show "\<exists>j'. lf_next g (lf_new its d) = Some (Some (Min (common its)), j')
      \<and> (\<forall>i\<in>set (lf_iters j'). tr_peek g i d = Some (Min (common its)))"
    using next_yields [OF p m] by (auto simp: yields_def stands_def split: list.splits)
qed

end

section \<open>The cursors are trie iterators\<close>

definition vec_ops :: "vec_iter trie_ops" where
  "vec_ops = \<lparr>tr_peek = peek, tr_seek = seek, tr_ready = active_run_ready, tr_run = active_run\<rparr>"

interpretation vec: trie_iterator vec_ops d "\<lambda>it. opened it d" "\<lambda>it. keys it d" for d
proof
  fix it assume o: "opened it d"
  show "sorted_wrt (<) (keys it d)" by (rule keys_strict [OF o])
  show "tr_peek vec_ops it d = (case keys it d of [] \<Rightarrow> None | v # vs \<Rightarrow> Some v)"
    by (simp add: vec_ops_def peek_hd [OF o])
  show "opened (tr_seek vec_ops d v it) d" "keys (tr_seek vec_ops d v it) d = dropWhile (\<lambda>x. x < v) (keys it d)" for v
    using seek_spec [OF o] by (simp_all add: vec_ops_def)
  show "opened (snd (tr_run vec_ops d it)) d" "keys (snd (tr_run vec_ops d it)) d = keys it d"
    using active_run_spec [OF o surjective_pairing] by (simp_all add: vec_ops_def)
  show "r = keys it d" if "fst (tr_run vec_ops d it) = Some r" for r
    using active_run_spec(3) [OF o surjective_pairing] that by (simp add: vec_ops_def)
qed

section \<open>Properties\<close>



end
