(* ===== verification/Pattern_Trie.thy ===== *)
theory Pattern_Trie imports Pattern Leapfrog begin

text \<open>
  \<^verbatim>\<open>crates/wcoj/src/trie/source_iter.rs\<close> and the ordering choice of \<^verbatim>\<open>crates/wcoj/src/pattern.rs\<close>: a
  triple pattern over a cursor, addressed by the variables of the pattern. The physical levels are
  those of the ordering the pattern asks for; the constants of the pattern are sought and opened on
  the way. Opening a level may panic (\<open>None\<close>); a level asked for past the variables of the pattern is
  never reached by the executor, which addresses an iterator only at variables it mentions.
\<close>

section \<open>The ordering of a pattern\<close>

definition all_orderings :: "ordering list" where
  "all_orderings = [Spo, Sop, Pso, Pos, Osp, Ops]"

definition phys_terms :: "triple_pattern \<Rightarrow> ordering \<Rightarrow> slot_term list" where
  "phys_terms pat ord = (case permute ord (pat_s pat) (pat_p pat) (pat_o pat) of (a, b, c) \<Rightarrow> [a, b, c])"

fun find_slot :: "slot_term list \<Rightarrow> slot_term \<Rightarrow> nat option" where
  "find_slot [] t = None"
| "find_slot (x # xs) t = (if x = t then Some 0 else map_option Suc (find_slot xs t))"

text \<open>The variables sit at non-decreasing depths, in the order they are eliminated.\<close>

fun depth_consistent :: "slot_term list \<Rightarrow> var list \<Rightarrow> int \<Rightarrow> bool \<Rightarrow> bool" where
  "depth_consistent phys [] prev ok = ok"
| "depth_consistent phys (v # vs) prev ok =
     (case find_slot phys (Var v) of None \<Rightarrow> depth_consistent phys vs prev ok
      | Some d \<Rightarrow> depth_consistent phys vs (int d) (if int d < prev then False else ok))"

definition bound_sum :: "slot_term list \<Rightarrow> int" where
  "bound_sum phys = (\<Sum>(d, t)\<leftarrow>enumerate 0 phys. if as_bound t \<noteq> None then int d else 0)"

definition ordering_score :: "triple_pattern \<Rightarrow> var list \<Rightarrow> nat \<Rightarrow> ordering \<Rightarrow> bool \<times> int \<times> int" where
  "ordering_score pat vs idx ord =
     (let phys = phys_terms pat ord in (\<not> depth_consistent phys vs (- 1) True, bound_sum phys, int idx))"

definition better_ordering ::
  "triple_pattern \<Rightarrow> var list \<Rightarrow> nat \<times> ordering \<Rightarrow> (ordering \<times> bool \<times> int \<times> int) option
    \<Rightarrow> (ordering \<times> bool \<times> int \<times> int) option" where
  "better_ordering pat vs e best =
     (case e of (idx, ord) \<Rightarrow> let score = ordering_score pat vs idx ord in
        if (case best of None \<Rightarrow> True | Some (_, b) \<Rightarrow> score < b) then Some (ord, score) else best)"

text \<open>Without an order of the variables: the first ordering with the most leading constants.\<close>

definition trailing :: "triple_pattern \<Rightarrow> ordering \<Rightarrow> nat" where
  "trailing pat ord = 3 - length (takeWhile (\<lambda>t. as_bound t \<noteq> None) (phys_terms pat ord))"

definition preferred_ordering :: "triple_pattern \<Rightarrow> ordering" where
  "preferred_ordering pat = foldl (\<lambda>best ord. if trailing pat ord < trailing pat best then ord else best) Spo [Sop, Pso, Pos, Osp, Ops]"

definition ordering_for :: "triple_pattern \<Rightarrow> var list \<Rightarrow> ordering" where
  "ordering_for pat vs =
     (case fold (better_ordering pat vs) (enumerate 0 all_orderings) None of
        Some (ord, _) \<Rightarrow> ord | None \<Rightarrow> preferred_ordering pat)"

section \<open>The iterator of a pattern\<close>

datatype level_action = Seek_Bound u64 | At_Var nat

record pattern_iter =
  pt_inner :: vec_iter
  pt_actions :: "level_action list"
  pt_phys :: "nat list"
  pt_arity :: nat

text \<open>
  A fresh cursor of the source. Deriving an ordering fills a cache of the source, which no reader can
  observe (\<open>columns_source\<close>): the source is left as it is here.
\<close>

definition source_iter :: "vec_source \<Rightarrow> ordering \<Rightarrow> vec_iter" where
  "source_iter src ord = iter_new (fst (columns ord src))"

fun place_vars :: "slot_term list \<Rightarrow> var list \<Rightarrow> level_action list \<Rightarrow> nat list \<Rightarrow> level_action list \<times> nat list" where
  "place_vars phys [] acts at = (acts, at)"
| "place_vars phys (v # vs) acts at =
     (case find_slot phys (Var v) of None \<Rightarrow> place_vars phys vs acts at
      | Some d \<Rightarrow> place_vars phys vs (acts[d := At_Var (length at)]) (at @ [d]))"

definition bound_actions :: "slot_term list \<Rightarrow> level_action list" where
  "bound_actions phys = map (\<lambda>t. case t of Bound v \<Rightarrow> Seek_Bound v | Var _ \<Rightarrow> Seek_Bound 0) phys"

text \<open>Seeking the leading constants; the cursor stays where the first one is missing.\<close>

fun seek_leading :: "level_action list \<Rightarrow> nat \<Rightarrow> vec_iter \<Rightarrow> vec_iter option" where
  "seek_leading (Seek_Bound v # acts) d it =
     (let it' = seek d v it in
      if peek it' d \<noteq> Some v then Some it'
      else if d < 2 then Option.bind (open_level (d + 1) it') (seek_leading acts (d + 1))
      else seek_leading acts (d + 1) it')"
| "seek_leading (At_Var _ # acts) d it = Some it"
| "seek_leading [] d it = Some it"

definition pt_new :: "vec_source \<Rightarrow> triple_pattern \<Rightarrow> var list \<Rightarrow> ordering \<Rightarrow> pattern_iter option" where
  "pt_new src pat vs ord =
     (let phys = phys_terms pat ord; (acts, at) = place_vars phys vs (bound_actions phys) [] in
      map_option (\<lambda>it. \<lparr>pt_inner = it, pt_actions = acts, pt_phys = at, pt_arity = length at\<rparr>)
        (seek_leading acts 0 (source_iter src ord)))"

definition phys_for :: "pattern_iter \<Rightarrow> nat \<Rightarrow> nat" where
  "phys_for pt l = pt_phys pt ! l"

definition rewind_local :: "nat \<Rightarrow> pattern_iter \<Rightarrow> pattern_iter" where
  "rewind_local l pt = pt\<lparr>pt_inner := rewind (phys_for pt l) (pt_inner pt)\<rparr>"

definition pt_reset :: "pattern_iter \<Rightarrow> pattern_iter option" where
  "pt_reset pt = map_option (\<lambda>it. pt\<lparr>pt_inner := it\<rparr>)
     (seek_leading (pt_actions pt) 0 (up 0 (up 1 (up 2 (pt_inner pt)))))"

definition pt_peek :: "pattern_iter \<Rightarrow> nat \<Rightarrow> u64 option" where
  "pt_peek pt l = peek (pt_inner pt) (phys_for pt l)"

definition pt_seek :: "nat \<Rightarrow> u64 \<Rightarrow> pattern_iter \<Rightarrow> pattern_iter" where
  "pt_seek l v pt = pt\<lparr>pt_inner := seek (phys_for pt l) v (pt_inner pt)\<rparr>"

text \<open>Opening the physical levels up to the one of the next variable, seeking constants between.\<close>

fun open_between :: "level_action list \<Rightarrow> nat \<Rightarrow> nat list \<Rightarrow> vec_iter \<Rightarrow> vec_iter option" where
  "open_between acts next_phys [] it = Some it"
| "open_between acts next_phys (p # ps) it =
     Option.bind (open_level p it) (\<lambda>it'.
       if p < next_phys then
         (case acts ! p of
            Seek_Bound v \<Rightarrow>
              let it'' = seek p v it' in
              if peek it'' p \<noteq> Some v then Some (if next_phys < 3 then seek next_phys (- 1) it'' else it'')
              else open_between acts next_phys ps it''
          | At_Var _ \<Rightarrow> open_between acts next_phys ps it')
       else open_between acts next_phys ps it')"

definition pt_open :: "nat \<Rightarrow> pattern_iter \<Rightarrow> pattern_iter option" where
  "pt_open l pt =
     (let next_phys = (if l + 1 < length (pt_phys pt) then pt_phys pt ! (l + 1) else 3) in
      map_option (\<lambda>it. pt\<lparr>pt_inner := it\<rparr>)
        (open_between (pt_actions pt) next_phys [phys_for pt l + 1..<min (next_phys + 1) 3] (pt_inner pt)))"

definition pt_up :: "nat \<Rightarrow> pattern_iter \<Rightarrow> pattern_iter" where
  "pt_up l pt =
     (let parent = (if l = 0 then 0 else phys_for pt (l - 1) + 1) in
      pt\<lparr>pt_inner := fold up [parent..<phys_for pt l + 1] (pt_inner pt)\<rparr>)"

definition pt_ready :: "pattern_iter \<Rightarrow> nat \<Rightarrow> bool" where
  "pt_ready pt l = active_run_ready (pt_inner pt) (phys_for pt l)"

definition pt_run :: "nat \<Rightarrow> pattern_iter \<Rightarrow> u64 list option \<times> pattern_iter" where
  "pt_run l pt = (case active_run (phys_for pt l) (pt_inner pt) of (r, it) \<Rightarrow> (r, pt\<lparr>pt_inner := it\<rparr>))"

section \<open>The chosen ordering\<close>

text \<open>
  A pattern without a repeated variable, all of whose variables are eliminated, has its constants
  first and then its variables as they are eliminated.
\<close>

definition no_repeat :: "triple_pattern \<Rightarrow> bool" where
  "no_repeat pat \<longleftrightarrow> distinct (filter (\<lambda>t. as_var t \<noteq> None) (slots pat))"

definition bounds_of :: "slot_term list \<Rightarrow> u64 list" where
  "bounds_of phys = map (the \<circ> as_bound) (filter (\<lambda>t. as_bound t \<noteq> None) phys)"

definition vars_of :: "triple_pattern \<Rightarrow> var list \<Rightarrow> var list" where
  "vars_of pat vs = filter (\<lambda>v. v \<in> pattern_vars pat) vs"

lemma set_phys_terms: "set (phys_terms pat ord) = set (slots pat)"
  by (cases ord) (auto simp: phys_terms_def slots_def)

lemma find_slot_None: "find_slot xs t = None \<longleftrightarrow> t \<notin> set xs"
  by (induction xs) auto

lemma depth_consistent_filter:
  "depth_consistent phys vs prev ok = depth_consistent phys (filter (\<lambda>v. Var v \<in> set phys) vs) prev ok"
proof (induction phys vs prev ok rule: depth_consistent.induct)
  case (2 phys v vs prev ok)
  then show ?case using find_slot_None [of phys "Var v"] by (cases "find_slot phys (Var v)") simp_all
qed simp

lemma ordering_for_filter: "ordering_for pat vs = ordering_for pat (vars_of pat vs)"
proof -
  have "depth_consistent (phys_terms pat ord) vs (- 1) True = depth_consistent (phys_terms pat ord) (vars_of pat vs) (- 1) True" for ord
    by (subst depth_consistent_filter) (simp add: vars_of_def pattern_vars_def set_phys_terms)
  then have "better_ordering pat vs = better_ordering pat (vars_of pat vs)"
    by (intro ext) (simp add: better_ordering_def ordering_score_def Let_def split: prod.split)
  then show ?thesis by (simp add: ordering_for_def)
qed

lemma distinct_perms:
  assumes "distinct ws"
  shows "set ws = {} \<Longrightarrow> ws = []" and "set ws = {a} \<Longrightarrow> ws = [a]"
    and "set ws = {a, b} \<Longrightarrow> a \<noteq> b \<Longrightarrow> ws = [a, b] \<or> ws = [b, a]"
    and "set ws = {a, b, c} \<Longrightarrow> distinct [a, b, c] \<Longrightarrow>
      ws = [a, b, c] \<or> ws = [a, c, b] \<or> ws = [b, a, c] \<or> ws = [b, c, a] \<or> ws = [c, a, b] \<or> ws = [c, b, a]"
proof -
  have len: "length ws = card (set ws)" using assms by (simp add: distinct_card)
  show "set ws = {} \<Longrightarrow> ws = []" by simp
  show "ws = [a]" if "set ws = {a}"
  proof -
    have "length ws = Suc 0" unfolding len that by simp
    then obtain x where w: "ws = [x]" by (metis One_nat_def length_0_conv length_Suc_conv)
    show ?thesis using that unfolding w by simp
  qed
  show "ws = [a, b] \<or> ws = [b, a]" if "set ws = {a, b}" "a \<noteq> b"
  proof -
    have "length ws = Suc (Suc 0)" unfolding len that(1) using that(2) by simp
    then obtain x y where w: "ws = [x, y]" by (metis length_0_conv length_Suc_conv)
    show ?thesis using that unfolding w by auto
  qed
  show "ws = [a, b, c] \<or> ws = [a, c, b] \<or> ws = [b, a, c] \<or> ws = [b, c, a] \<or> ws = [c, a, b] \<or> ws = [c, b, a]"
    if "set ws = {a, b, c}" "distinct [a, b, c]"
  proof -
    have "length ws = Suc (Suc (Suc 0))" unfolding len that(1) using that(2) by simp
    then obtain x y z where w: "ws = [x, y, z]" by (metis length_0_conv length_Suc_conv)
    have "x \<in> {a, b, c}" "y \<in> {a, b, c}" "z \<in> {a, b, c}" using that(1) unfolding w by auto
    moreover have "x \<noteq> y" "x \<noteq> z" "y \<noteq> z" using assms unfolding w by auto
    ultimately show ?thesis unfolding w by simp blast
  qed
qed

definition sorted_terms :: "triple_pattern \<Rightarrow> var list \<Rightarrow> bool" where
  "sorted_terms pat ws \<longleftrightarrow> phys_terms pat (ordering_for pat ws)
     = map Bound (bounds_of (phys_terms pat (ordering_for pat ws))) @ map Var ws"

lemmas ordering_choice = sorted_terms_def ordering_for_def better_ordering_def ordering_score_def Let_def all_orderings_def
  phys_terms_def bound_sum_def bounds_of_def enumerate_eq_zip upt_rec less_prod_def

lemma sorted_terms_cases:
  shows "sorted_terms \<lparr>pat_s = Bound x, pat_p = Bound y, pat_o = Bound z\<rparr> []"
    and "sorted_terms \<lparr>pat_s = Var a, pat_p = Bound y, pat_o = Bound z\<rparr> [a]"
    and "sorted_terms \<lparr>pat_s = Bound x, pat_p = Var a, pat_o = Bound z\<rparr> [a]"
    and "sorted_terms \<lparr>pat_s = Bound x, pat_p = Bound y, pat_o = Var a\<rparr> [a]"
  by (simp_all add: ordering_choice)

lemma sorted_terms_cases2:
  assumes "a \<noteq> b"
  shows "sorted_terms \<lparr>pat_s = Var a, pat_p = Var b, pat_o = Bound z\<rparr> [a, b]"
    and "sorted_terms \<lparr>pat_s = Var a, pat_p = Bound y, pat_o = Var b\<rparr> [a, b]"
    and "sorted_terms \<lparr>pat_s = Bound x, pat_p = Var a, pat_o = Var b\<rparr> [a, b]"
    and "sorted_terms \<lparr>pat_s = Var a, pat_p = Var b, pat_o = Bound z\<rparr> [b, a]"
    and "sorted_terms \<lparr>pat_s = Var a, pat_p = Bound y, pat_o = Var b\<rparr> [b, a]"
    and "sorted_terms \<lparr>pat_s = Bound x, pat_p = Var a, pat_o = Var b\<rparr> [b, a]"
  using assms assms [symmetric] by (simp_all add: ordering_choice)


lemma sorted_terms_cases3:
  assumes "distinct [a, b, c]"
  shows "sorted_terms \<lparr>pat_s = Var a, pat_p = Var b, pat_o = Var c\<rparr> [a, b, c]"
    and "sorted_terms \<lparr>pat_s = Var a, pat_p = Var b, pat_o = Var c\<rparr> [a, c, b]"
    and "sorted_terms \<lparr>pat_s = Var a, pat_p = Var b, pat_o = Var c\<rparr> [b, a, c]"
    and "sorted_terms \<lparr>pat_s = Var a, pat_p = Var b, pat_o = Var c\<rparr> [b, c, a]"
    and "sorted_terms \<lparr>pat_s = Var a, pat_p = Var b, pat_o = Var c\<rparr> [c, a, b]"
    and "sorted_terms \<lparr>pat_s = Var a, pat_p = Var b, pat_o = Var c\<rparr> [c, b, a]"
proof -
  have n: "a \<noteq> b" "b \<noteq> a" "a \<noteq> c" "c \<noteq> a" "b \<noteq> c" "c \<noteq> b" using assms by auto
  note [simp] = n
  show "sorted_terms \<lparr>pat_s = Var a, pat_p = Var b, pat_o = Var c\<rparr> [a, b, c]"
    and "sorted_terms \<lparr>pat_s = Var a, pat_p = Var b, pat_o = Var c\<rparr> [a, c, b]"
    and "sorted_terms \<lparr>pat_s = Var a, pat_p = Var b, pat_o = Var c\<rparr> [b, a, c]"
    and "sorted_terms \<lparr>pat_s = Var a, pat_p = Var b, pat_o = Var c\<rparr> [b, c, a]"
    and "sorted_terms \<lparr>pat_s = Var a, pat_p = Var b, pat_o = Var c\<rparr> [c, a, b]"
    and "sorted_terms \<lparr>pat_s = Var a, pat_p = Var b, pat_o = Var c\<rparr> [c, b, a]"
    by (simp_all add: ordering_choice)
qed

lemma pattern_vars_slots:
  "pattern_vars \<lparr>pat_s = x, pat_p = y, pat_o = z\<rparr> = set (List.map_filter as_var [x, y, z])"
  by (cases x; cases y; cases z) (auto simp: pattern_vars_def slots_def List.map_filter_def)

lemma ordering_for_terms:
  assumes "no_repeat pat" and "distinct vs" and "pattern_vars pat \<subseteq> set vs"
  shows "phys_terms pat (ordering_for pat vs) = map Bound (bounds_of (phys_terms pat (ordering_for pat vs))) @ map Var (vars_of pat vs)"
proof -
  define ws where "ws = vars_of pat vs"
  have d: "distinct ws" using assms(2) by (simp add: ws_def vars_of_def)
  have s: "set ws = pattern_vars pat" using assms(3) by (auto simp: ws_def vars_of_def)
  obtain x y z where p: "pat = \<lparr>pat_s = x, pat_p = y, pat_o = z\<rparr>" by (cases pat) simp
  note perms = distinct_perms [OF d]
  have "sorted_terms pat ws"
  proof (cases x; cases y; cases z)
    fix a b c assume q: "x = Bound a" "y = Bound b" "z = Bound c"
    then have "set ws = {}" using s by (simp add: p pattern_vars_slots List.map_filter_def)
    then show ?thesis using perms(1) sorted_terms_cases(1) by (simp add: p q)
  next
    fix a b c assume q: "x = Bound a" "y = Bound b" "z = Var c"
    then have "set ws = {c}" using s by (simp add: p pattern_vars_slots List.map_filter_def)
    then show ?thesis using perms(2) sorted_terms_cases(4) by (simp add: p q)
  next
    fix a b c assume q: "x = Bound a" "y = Var b" "z = Bound c"
    then have "set ws = {b}" using s by (simp add: p pattern_vars_slots List.map_filter_def)
    then show ?thesis using perms(2) sorted_terms_cases(3) by (simp add: p q)
  next
    fix a b c assume q: "x = Bound a" "y = Var b" "z = Var c"
    then have n: "b \<noteq> c" using assms(1) by (simp add: p no_repeat_def slots_def)
    have "set ws = {b, c}" using s by (simp add: p q pattern_vars_slots List.map_filter_def)
    then show ?thesis using perms(3) [of b c] n sorted_terms_cases2(3,6) [OF n] by (auto simp: p q)
  next
    fix a b c assume q: "x = Var a" "y = Bound b" "z = Bound c"
    then have "set ws = {a}" using s by (simp add: p pattern_vars_slots List.map_filter_def)
    then show ?thesis using perms(2) sorted_terms_cases(2) by (simp add: p q)
  next
    fix a b c assume q: "x = Var a" "y = Bound b" "z = Var c"
    then have n: "a \<noteq> c" using assms(1) by (simp add: p no_repeat_def slots_def)
    have "set ws = {a, c}" using s by (simp add: p q pattern_vars_slots List.map_filter_def)
    then show ?thesis using perms(3) [of a c] n sorted_terms_cases2(2,5) [OF n] by (auto simp: p q)
  next
    fix a b c assume q: "x = Var a" "y = Var b" "z = Bound c"
    then have n: "a \<noteq> b" using assms(1) by (simp add: p no_repeat_def slots_def)
    have "set ws = {a, b}" using s by (simp add: p q pattern_vars_slots List.map_filter_def)
    then show ?thesis using perms(3) [of a b] n sorted_terms_cases2(1,4) [OF n] by (auto simp: p q)
  next
    fix a b c assume q: "x = Var a" "y = Var b" "z = Var c"
    then have n: "distinct [a, b, c]" using assms(1) by (simp add: p no_repeat_def slots_def)
    have "set ws = {a, b, c}" using s by (simp add: p q pattern_vars_slots List.map_filter_def)
    then show ?thesis using perms(4) [of a b c] n sorted_terms_cases3 [OF n] unfolding p q by blast
  qed
  then show ?thesis unfolding sorted_terms_def ws_def ordering_for_filter [of pat vs, symmetric] .
qed

section \<open>Cursors that agree above a level\<close>

definition agree :: "nat \<Rightarrow> vec_iter \<Rightarrow> vec_iter \<Rightarrow> bool" where
  "agree m it it' \<longleftrightarrow> it_cols it' = it_cols it \<and>
     (\<forall>e<m. it_range it' e = it_range it e \<and> it_cursor it' e = it_cursor it e \<and> it_distinct it' e = it_distinct it e)"

lemma agree_refl [simp]: "agree m it it" by (simp add: agree_def)

lemma agree_trans: "agree m a b \<Longrightarrow> agree m b c \<Longrightarrow> agree m a c" by (simp add: agree_def)

lemma agree_mono: "agree m a b \<Longrightarrow> k \<le> m \<Longrightarrow> agree k a b" by (simp add: agree_def)

lemma agree_level:
  assumes "agree m it it'" and "e < m"
  shows "opened it' e = opened it e" "keys it' e = keys it e" "seg it' e = seg it e" "peek it' e = peek it e" "whole it' e = whole it e"
  using assms by (simp_all add: agree_def opened_def keys_def ahead_def whole_def seg_def peek_def case_prod_beta Let_def)

lemma agree_ops:
  shows "agree d it (seek d v it)" "agree d it (up d it)" "agree d it (rewind d it)"
    and "open_level d it = Some it' \<Longrightarrow> agree d it it'" and "active_run d it = (r, it') \<Longrightarrow> agree d it it'"
proof -
  show "agree d it (seek d v it)" by (auto simp: agree_def seek_def Let_def split: prod.split option.split)
  show "agree d it (up d it)" "agree d it (rewind d it)" by (auto simp: agree_def up_def rewind_def)
  show "open_level d it = Some it' \<Longrightarrow> agree d it it'"
    by (auto simp: agree_def open_level_def Let_def split: prod.splits if_splits)
  show "active_run d it = (r, it') \<Longrightarrow> agree d it it'"
    by (auto simp: agree_def active_run_def Let_def split: prod.splits if_splits)
qed

lemma agree_path:
  assumes "agree m it it'" and "on_path it S ks" and "length ks < m"
  shows "on_path it' S ks"
proof -
  have c: "it_cols it' = it_cols it" using assms(1) by (simp add: agree_def)
  show ?thesis
    unfolding on_path_def c
  proof (intro conjI allI impI)
    fix d assume "d \<le> length ks"
    then show "opened it' d" "seg it' d = prefixed (take d ks) (rows (it_cols it))"
      using agree_level [OF assms(1), of d] assms(2,3) by (auto simp: on_path_def)
  next
    fix d assume "d < length ks"
    then show "it_cursor it' d < snd (it_range it' d)" "level (it_cols it) d ! it_cursor it' d = ks ! d"
      using assms by (auto simp: on_path_def agree_def)
  qed (use assms(2) in \<open>auto simp: on_path_def\<close>)
qed

lemma moved_path:
  assumes "agree (length ks) it it'" and "on_path it S ks" and "it_range it' (length ks) = it_range it (length ks)"
    and "opened it' (length ks)"
  shows "on_path it' S ks"
proof -
  have c: "it_cols it' = it_cols it" using assms(1) by (simp add: agree_def)
  show ?thesis
    unfolding on_path_def c
  proof (intro conjI allI impI)
    fix d assume d: "d \<le> length ks"
    show "opened it' d" using agree_level(1) [OF assms(1), of d] assms(2,4) d by (cases "d = length ks") (auto simp: on_path_def)
    have "seg it' d = seg it d"
      using agree_level(3) [OF assms(1), of d] assms(3) c d by (cases "d = length ks") (auto simp: seg_def)
    then show "seg it' d = prefixed (take d ks) (rows (it_cols it))" using assms(2) d by (simp add: on_path_def)
  next
    fix d assume "d < length ks"
    then show "it_cursor it' d < snd (it_range it' d)" "level (it_cols it) d ! it_cursor it' d = ks ! d"
      using assms by (auto simp: on_path_def agree_def)
  qed (use assms(2) in \<open>auto simp: on_path_def\<close>)
qed

lemma path_root: "on_path it S ks \<Longrightarrow> on_path it S []"
  by (simp add: on_path_def)

lemma path_butlast: "on_path it S (ks @ [v]) \<Longrightarrow> on_path it S ks"
  unfolding on_path_def
  by (intro conjI allI impI; (elim conjE)?) (auto simp: nth_append dest: spec)

lemma same_range: "it_range (seek d v it) = it_range it" "it_range (rewind d it) = it_range it"
  "active_run d it = (r, it') \<Longrightarrow> it_range it' = it_range it"
proof -
  show "it_range (seek d v it) = it_range it" by (auto simp: seek_def Let_def split: prod.split option.split)
  show "it_range (rewind d it) = it_range it" by (simp add: rewind_def)
  show "active_run d it = (r, it') \<Longrightarrow> it_range it' = it_range it"
    by (auto simp: active_run_def Let_def split: prod.splits if_splits)
qed

lemma seek_path: "on_path it S ks \<Longrightarrow> on_path (seek (length ks) v it) S ks"
  by (rule moved_path [OF agree_ops(1)]) (auto simp: same_range seek_spec(1) on_path_def)

lemma rewind_path:
  assumes "on_path it S ks"
  shows "on_path (rewind (length ks) it) S ks"
    and "keys (rewind (length ks) it) (length ks) = sorted_list_of_set (children S ks)"
proof -
  show p: "on_path (rewind (length ks) it) S ks"
    by (rule moved_path [OF agree_ops(3) assms]) (use assms in \<open>auto simp: same_range rewind_spec(1) on_path_def\<close>)
  show "keys (rewind (length ks) it) (length ks) = sorted_list_of_set (children S ks)"
    using on_path_keys(3) [OF p] by (simp add: rewind_def)
qed

section \<open>Leading constants\<close>

text \<open>
  A cursor is parked below some constants when it shows at the next level all values under them; where
  no row starts with the constants that level shows nothing.
\<close>

definition shut :: "vec_iter \<Rightarrow> nat \<Rightarrow> bool" where
  "shut it d \<longleftrightarrow> it_range it d = (0, 0) \<and> it_cursor it d = 0 \<and> it_distinct it d = None"

definition parked :: "vec_iter \<Rightarrow> row set \<Rightarrow> u64 list \<Rightarrow> bool" where
  "parked it S bs \<longleftrightarrow> on_path it S [] \<and> opened it (length bs) \<and> keys it (length bs) = sorted_list_of_set (children S bs)
     \<and> set (whole it (length bs)) = children S bs \<and> (children S bs \<noteq> {} \<longrightarrow> on_path it S bs)"

lemma path_whole: "on_path it S ks \<Longrightarrow> set (whole it (length ks)) = children S ks"
  using whole_seg [of it "length ks"] prefixed_level(3) [of "rows (it_cols it)" ks] by (simp add: on_path_def listing_def)

lemma shut_level: "shut it d \<Longrightarrow> opened it d \<and> keys it d = [] \<and> peek it d = None \<and> whole it d = []"
  by (cases "d = 2") (simp_all add: shut_def opened_def keys_def ahead_def whole_def subslice_def peek_def)

lemma children_finite: "listing xs S \<Longrightarrow> finite (children S ks)"
  by (auto simp: children_def listing_def dest!: sym)

lemma path_finite: "on_path it S ks \<Longrightarrow> finite (children S qs)"
  using children_finite by (auto simp: on_path_def)

lemma children_deeper: "b \<notin> children S ks \<Longrightarrow> length ks + length bs \<le> 2 \<Longrightarrow> children S (ks @ b # bs) = {}"
proof -
  assume b: "b \<notin> children S ks" and len: "length ks + length bs \<le> 2"
  have "take (length ks) (comps r) = ks \<and> comps r ! length ks = b"
    if "take (length (ks @ b # bs)) (comps r) = ks @ b # bs" for r
  proof
    show "take (length ks) (comps r) = ks" using arg_cong [OF that, of "take (length ks)"] by simp
    show "comps r ! length ks = b" using arg_cong [OF that, of "\<lambda>xs. xs ! length ks"] by simp
  qed
  then show ?thesis using b unfolding children_def by blast
qed

lemma shut_ops: "e \<noteq> d \<Longrightarrow> shut (seek d v it) e = shut it e"
  "e \<noteq> d \<Longrightarrow> open_level d it = Some it' \<Longrightarrow> shut it' e = shut it e"
proof -
  show "e \<noteq> d \<Longrightarrow> shut (seek d v it) e = shut it e"
    by (auto simp: shut_def seek_def Let_def split: prod.split option.split)
  show "e \<noteq> d \<Longrightarrow> open_level d it = Some it' \<Longrightarrow> shut it' e = shut it e"
    by (auto simp: shut_def open_level_def Let_def split: prod.splits if_splits)
qed

lemma seek_at_start:
  assumes "on_path it S ks" and "keys it (length ks) = sorted_list_of_set (children S ks)"
  shows "peek (seek (length ks) v it) (length ks) = Some v \<longleftrightarrow> v \<in> children S ks"
proof -
  have o: "opened it (length ks)" using on_path_keys(1) [OF assms(1)] .
  note s = seek_spec [OF o, of v]
  have k: "keys (seek (length ks) v it) (length ks) = filter (\<lambda>x. v \<le> x) (sorted_list_of_set (children S ks))"
    unfolding s(3) assms(2)
  proof -
    have "dropWhile (\<lambda>x. x < v) xs = filter (\<lambda>x. v \<le> x) xs" if "sorted_wrt (<) xs" for xs :: "u64 list"
      using that by (induction xs) (auto simp: not_less intro!: filter_True [symmetric])
    then show "dropWhile (\<lambda>x. x < v) (sorted_list_of_set (children S ks)) = filter (\<lambda>x. v \<le> x) (sorted_list_of_set (children S ks))"
      by simp
  qed
  have fin: "finite (children S ks)" using path_finite [OF assms(1)] .
  have sw: "sorted_wrt (<) (keys (seek (length ks) v it) (length ks))" by (rule keys_strict [OF s(1)])
  have mem: "set (keys (seek (length ks) v it) (length ks)) = {x \<in> children S ks. v \<le> x}" unfolding k using fin by auto
  show ?thesis
  proof (cases "keys (seek (length ks) v it) (length ks)")
    case Nil
    then show ?thesis using mem peek_hd [OF s(1)] by auto
  next
    case (Cons x xs)
    have "x \<in> children S ks" "v \<le> x" using mem Cons by auto
    moreover have "v \<in> children S ks \<Longrightarrow> v = x \<or> x < v" using mem Cons sw by auto
    ultimately show ?thesis using peek_hd [OF s(1)] Cons by (auto dest: leD)
  qed
qed

lemma seek_leading_spec:
  assumes "on_path it S ks" and "keys it (length ks) = sorted_list_of_set (children S ks)"
    and "\<forall>e. length ks < e \<and> e \<le> 2 \<longrightarrow> shut it e" and "length ks + length bs \<le> 2"
  shows "\<exists>it'. seek_leading (map Seek_Bound bs @ At_Var n # acts) (length ks) it = Some it' \<and> parked it' S (ks @ bs)"
  using assms
proof (induction bs arbitrary: ks it)
  case Nil
  then show ?case using path_root on_path_keys(1) path_whole by (auto simp: parked_def)
next
  case (Cons b bs)
  let ?d = "length ks"
  define it1 where "it1 = seek ?d b it"
  have p1: "on_path it1 S ks" using seek_path [OF Cons.prems(1)] by (simp add: it1_def)
  have sh1: "\<forall>e. ?d < e \<and> e \<le> 2 \<longrightarrow> shut it1 e" using Cons.prems(3) shut_ops(1) by (simp add: it1_def)
  have d2: "?d < 2" using Cons.prems(4) by simp
  show ?case
  proof (cases "peek it1 ?d = Some b")
    case False
    then have "b \<notin> children S ks" using seek_at_start [OF Cons.prems(1,2)] by (simp add: it1_def)
    then have none: "children S (ks @ b # bs) = {}" using Cons.prems(4) by (intro children_deeper) auto
    have "shut it1 (length (ks @ b # bs))" using sh1 Cons.prems(4) by simp
    then have "parked it1 S (ks @ b # bs)"
      unfolding parked_def using none shut_level path_root [OF p1] by auto
    then show ?thesis using False by (simp add: it1_def Let_def)
  next
    case True
    obtain it2 where it2: "open_level (Suc ?d) it1 = Some it2" "on_path it2 S (ks @ [b])"
      "keys it2 (Suc ?d) = sorted_list_of_set (children S (ks @ [b]))"
      using descend [OF p1 d2 True] by blast
    have "\<forall>e. length (ks @ [b]) < e \<and> e \<le> 2 \<longrightarrow> shut it2 e"
      using sh1 shut_ops(2) [OF _ it2(1)] by simp
    then obtain it' where "seek_leading (map Seek_Bound bs @ At_Var n # acts) (length (ks @ [b])) it2 = Some it'"
      "parked it' S ((ks @ [b]) @ bs)"
      using Cons.IH [of it2 "ks @ [b]"] it2 Cons.prems(4) by auto
    then show ?thesis using True it2(1) d2 by (auto simp: it1_def Let_def)
  qed
qed

lemma torn_down:
  assumes "on_path it S []"
  defines "it' \<equiv> up 0 (up 1 (up 2 it))"
  shows "on_path it' S []" and "keys it' 0 = sorted_list_of_set (children S [])" and "\<forall>e. 0 < e \<and> e \<le> 2 \<longrightarrow> shut it' e"
proof -
  have it': "it_cols it' = it_cols it" "it_range it' 0 = (0, cols_len (it_cols it))" "it_cursor it' 0 = 0" "it_distinct it' 0 = it_distinct it 0"
    by (simp_all add: it'_def up_def)
  have p: "cols_wf (it_cols it)" "listing (rows (it_cols it)) S" "opened it 0" "seg it 0 = rows (it_cols it)"
    using assms(1) by (simp_all add: on_path_def prefixed_def)
  have seg: "seg it' 0 = rows (it_cols it)" by (simp add: seg_def it' subslice_def)
  have w: "whole it' 0 = whole it 0" using whole_seg [of it' 0] whole_seg [of it 0] p(1,4) seg it'(1) by simp
  have "length (level (it_cols it) 0) = cols_len (it_cols it)" using level_length [OF p(1), of 0] by simp
  then have o: "opened it' 0" using p(3) unfolding opened_def w it' by simp
  show path: "on_path it' S []" using p o seg by (simp add: on_path_def it'(1) prefixed_def)
  show "keys it' 0 = sorted_list_of_set (children S [])" using on_path_keys(3) [OF path] it' by simp
  show "\<forall>e. 0 < e \<and> e \<le> 2 \<longrightarrow> shut it' e"
  proof (intro allI impI)
    fix e :: nat assume "0 < e \<and> e \<le> 2"
    then have "e = 1 \<or> e = 2" by linarith
    then show "shut it' e" by (elim disjE) (simp_all add: shut_def it'_def up_def)
  qed
qed

section \<open>The iterator of a pattern at its ordering\<close>

definition pat_ok :: "triple_pattern \<Rightarrow> var list \<Rightarrow> bool" where
  "pat_ok pat vs \<longleftrightarrow> no_repeat pat \<and> distinct vs \<and> pattern_vars pat \<subseteq> set vs"

definition constants :: "triple_pattern \<Rightarrow> var list \<Rightarrow> u64 list" where
  "constants pat vs = bounds_of (phys_terms pat (ordering_for pat vs))"

definition trie_set :: "row set \<Rightarrow> triple_pattern \<Rightarrow> var list \<Rightarrow> row set" where
  "trie_set T pat vs = (\<lambda>t. by_ordering t (ordering_for pat vs)) ` T"

definition pt_at :: "triple_pattern \<Rightarrow> var list \<Rightarrow> vec_iter \<Rightarrow> pattern_iter" where
  "pt_at pat vs it = (let nb = length (constants pat vs); k = length (vars_of pat vs) in
     \<lparr>pt_inner = it, pt_actions = map Seek_Bound (constants pat vs) @ map At_Var [0..<k], pt_phys = [nb..<nb + k], pt_arity = k\<rparr>)"

lemma ordered_terms: "pat_ok pat vs \<Longrightarrow>
    phys_terms pat (ordering_for pat vs) = map Bound (constants pat vs) @ map Var (vars_of pat vs)"
  unfolding pat_ok_def constants_def by (rule ordering_for_terms) auto

lemma three_levels: "pat_ok pat vs \<Longrightarrow> length (constants pat vs) + length (vars_of pat vs) = 3"
  using arg_cong [OF ordered_terms, of pat vs length] by (simp add: phys_terms_def split: prod.splits)

lemma place_vars_filter:
  "place_vars phys vs acts at = place_vars phys (filter (\<lambda>v. Var v \<in> set phys) vs) acts at"
proof (induction phys vs acts at rule: place_vars.induct)
  case (2 phys v vs acts at)
  then show ?case using find_slot_None [of phys "Var v"] by (cases "find_slot phys (Var v)") simp_all
qed simp

lemma find_slot_Var: "k < length ws \<Longrightarrow> distinct ws \<Longrightarrow> find_slot (map Bound bs @ map Var ws) (Var (ws ! k)) = Some (length bs + k)"
proof (induction bs)
  case Nil
  then show ?case
  proof (induction ws arbitrary: k)
    case (Cons w ws)
    then show ?case by (cases k) auto
  qed simp
qed simp

lemma place_vars_at:
  fixes bs :: "u64 list"
  assumes "distinct ws" and "k \<le> length ws"
  defines "phys \<equiv> map Bound bs @ map Var ws"
  shows "place_vars phys (drop k ws) (map Seek_Bound bs @ map At_Var [0..<k] @ replicate (length ws - k) (Seek_Bound 0)) [length bs..<length bs + k]
    = (map Seek_Bound bs @ map At_Var [0..<length ws], [length bs..<length bs + length ws])"
  using assms(2)
proof (induction "length ws - k" arbitrary: k)
  case 0
  then show ?case by simp
next
  case (Suc n)
  then have k: "k < length ws" by simp
  then have dr: "drop k ws = ws ! k # drop (Suc k) ws" by (simp add: Cons_nth_drop_Suc)
  have up: "(map Seek_Bound bs @ map At_Var [0..<k] @ replicate (length ws - k) (Seek_Bound 0))[length bs + k := At_Var k]
      = map Seek_Bound bs @ map At_Var [0..<Suc k] @ replicate (length ws - Suc k) (Seek_Bound 0)"
    using k by (cases "length ws - k") (auto simp: list_update_append)
  have f: "find_slot phys (Var (ws ! k)) = Some (length bs + k)" unfolding phys_def by (rule find_slot_Var [OF k assms(1)])
  show ?case
    unfolding dr place_vars.simps f option.case using Suc.hyps(1) [of "Suc k"] Suc.hyps(2) k up by simp
qed

lemma place_vars_spec:
  assumes "pat_ok pat vs"
  shows "place_vars (phys_terms pat (ordering_for pat vs)) vs (bound_actions (phys_terms pat (ordering_for pat vs))) []
    = (map Seek_Bound (constants pat vs) @ map At_Var [0..<length (vars_of pat vs)],
       [length (constants pat vs)..<length (constants pat vs) + length (vars_of pat vs)])"
proof -
  let ?phys = "phys_terms pat (ordering_for pat vs)" and ?bs = "constants pat vs" and ?ws = "vars_of pat vs"
  have f: "filter (\<lambda>v. Var v \<in> set ?phys) vs = ?ws" by (simp add: vars_of_def pattern_vars_def set_phys_terms)
  have acts: "bound_actions ?phys = map Seek_Bound ?bs @ replicate (length ?ws) (Seek_Bound 0)"
    unfolding ordered_terms [OF assms] bound_actions_def by (simp add: comp_def map_replicate_const)
  have "distinct ?ws" using assms by (simp add: pat_ok_def vars_of_def)
  from place_vars_at [OF this, of 0 ?bs] show ?thesis
    unfolding place_vars_filter [of ?phys vs] f acts using ordered_terms [OF assms] by simp
qed

lemma leading_At_Var: "ws \<noteq> [] \<Longrightarrow> \<exists>n acts. map At_Var [0..<length ws] = At_Var n # acts"
  by (cases ws) (auto simp: upt_rec)

lemma source_iter_path:
  assumes "source_of src T"
  shows "on_path (source_iter src ord) ((\<lambda>t. by_ordering t ord) ` T) []"
    and "keys (source_iter src ord) 0 = sorted_list_of_set (children ((\<lambda>t. by_ordering t ord) ` T) [])"
    and "\<forall>e. 0 < e \<and> e \<le> 2 \<longrightarrow> shut (source_iter src ord) e"
proof -
  obtain c src' where c: "columns ord src = (c, src')" by (cases "columns ord src")
  show p: "on_path (source_iter src ord) ((\<lambda>t. by_ordering t ord) ` T) []"
    unfolding source_iter_def c fst_conv by (rule iter_new_path [OF columns_source(2,3) [OF assms c]])
  show "keys (source_iter src ord) 0 = sorted_list_of_set (children ((\<lambda>t. by_ordering t ord) ` T) [])"
    using on_path_keys(3) [OF p] by (simp add: source_iter_def iter_new_def)
  show "\<forall>e. 0 < e \<and> e \<le> 2 \<longrightarrow> shut (source_iter src ord) e"
    by (simp add: shut_def source_iter_def iter_new_def)
qed

lemma pt_new_spec:
  assumes "source_of src T" and ok: "pat_ok pat vs" and "vars_of pat vs \<noteq> []"
  shows "\<exists>it. pt_new src pat vs (ordering_for pat vs) = Some (pt_at pat vs it)
    \<and> parked it (trie_set T pat vs) (constants pat vs)"
proof -
  obtain n acts where a: "map At_Var [0..<length (vars_of pat vs)] = At_Var n # acts" using leading_At_Var [OF assms(3)] by metis
  have len: "length (constants pat vs) \<le> 2" using three_levels [OF ok] assms(3) by (cases "vars_of pat vs") auto
  note src = source_iter_path [OF assms(1), of "ordering_for pat vs", folded trie_set_def]
  obtain it where "seek_leading (map Seek_Bound (constants pat vs) @ At_Var n # acts) 0 (source_iter src (ordering_for pat vs)) = Some it"
    "parked it (trie_set T pat vs) (constants pat vs)"
    using seek_leading_spec [OF src(1), of "constants pat vs" n acts] src(2,3) len by auto
  then show ?thesis by (simp add: pt_new_def place_vars_spec [OF ok] Let_def pt_at_def a)
qed

lemma pt_reset_spec:
  assumes ok: "pat_ok pat vs" and "vars_of pat vs \<noteq> []" and "on_path it S []"
  shows "\<exists>it'. pt_reset (pt_at pat vs it) = Some (pt_at pat vs it') \<and> parked it' S (constants pat vs)"
proof -
  obtain n acts where a: "map At_Var [0..<length (vars_of pat vs)] = At_Var n # acts" using leading_At_Var [OF assms(2)] by metis
  have len: "length (constants pat vs) \<le> 2" using three_levels [OF ok] assms(2) by (cases "vars_of pat vs") auto
  note t = torn_down [OF assms(3)]
  obtain it' where "seek_leading (map Seek_Bound (constants pat vs) @ At_Var n # acts) 0 (up 0 (up 1 (up 2 it))) = Some it'"
    "parked it' S (constants pat vs)"
    using seek_leading_spec [OF t(1), of "constants pat vs" n acts] t(2,3) len by auto
  then show ?thesis by (simp add: pt_reset_def pt_at_def Let_def a)
qed

lemma phys_for_at: "l < length (vars_of pat vs) \<Longrightarrow> phys_for (pt_at pat vs it) l = length (constants pat vs) + l"
  by (simp add: phys_for_def pt_at_def Let_def)

lemma pt_open_spec:
  assumes ok: "pat_ok pat vs" and l: "Suc l < length (vars_of pat vs)"
    and "on_path it S ks" and "length ks = length (constants pat vs) + l" and "peek it (length ks) = Some v"
  shows "\<exists>it'. pt_open l (pt_at pat vs it) = Some (pt_at pat vs it') \<and> on_path it' S (ks @ [v])
    \<and> agree (Suc (length ks)) it it'"
proof -
  have d: "length ks < 2" using three_levels [OF ok] l assms(4) by simp
  obtain it' where it': "open_level (Suc (length ks)) it = Some it'" "on_path it' S (ks @ [v])"
    using descend [OF assms(3) d assms(5)] by blast
  have "[length ks + 1..<min (length ks + 1 + 1) 3] = [Suc (length ks)]" using d by (simp add: upt_rec)
  moreover have "pt_phys (pt_at pat vs it) ! (l + 1) = length ks + 1" "l + 1 < length (pt_phys (pt_at pat vs it))"
    using l assms(4) by (simp_all add: pt_at_def Let_def)
  moreover have "pt_inner (pt_at pat vs it) = it" "(pt_at pat vs it)\<lparr>pt_inner := it'\<rparr> = pt_at pat vs it'"
    by (simp_all add: pt_at_def Let_def)
  ultimately have "pt_open l (pt_at pat vs it) = Some (pt_at pat vs it')"
    using l d assms(4) it'(1) phys_for_at [of l pat vs it] by (simp add: pt_open_def Let_def)
  then show ?thesis using it'(2) agree_ops(4) [OF it'(1)] by blast
qed

lemma pt_up_spec: "Suc l < length (vars_of pat vs) \<Longrightarrow>
    pt_up (Suc l) (pt_at pat vs it) = pt_at pat vs (up (Suc (length (constants pat vs) + l)) it)"
  by (simp add: pt_up_def Let_def phys_for_at upt_rec) (simp add: pt_at_def Let_def)

end
