(* ===== verification/Wcoj_Exec.thy ===== *)
theory Wcoj_Exec imports Pattern_Trie begin

text \<open>
  \<^verbatim>\<open>crates/wcoj/src/batch.rs\<close> and \<^verbatim>\<open>crates/wcoj/src/executor/wcoj.rs\<close>: the batch builder and the
  depth-first driver of the leapfrog triejoin over the in-memory source. A record batch is the list
  of its columns. The outer \<open>None\<close> is a panic or a loop that does not end. The counters for metrics
  are left out, and so is the error a source reports when it cannot serve an ordering: the in-memory
  source serves all of them.
\<close>

section \<open>The batch builder\<close>

type_synonym batch = "u64 list list"

record batch_builder =
  bb_vars :: "var list"
  bb_cols :: "u64 list list"

definition standard_vector_size :: nat where
  "standard_vector_size = 2048"

definition bb_new :: "var list \<Rightarrow> batch_builder" where
  "bb_new vs = \<lparr>bb_vars = vs, bb_cols = replicate (length vs) []\<rparr>"

text \<open>A batch is built only from columns of one length.\<close>

definition finish_internal :: "batch_builder \<Rightarrow> batch option \<times> batch_builder" where
  "finish_internal b =
     (if bb_cols b = [] \<or> hd (bb_cols b) = [] then (None, b)
      else (if \<forall>c\<in>set (bb_cols b). length c = length (hd (bb_cols b)) then Some (bb_cols b) else None,
            b\<lparr>bb_cols := map (\<lambda>_. []) (bb_cols b)\<rparr>))"

fun push_cols :: "u64 list list \<Rightarrow> u64 list \<Rightarrow> u64 list list" where
  "push_cols (c # cs) (v # vs) = (c @ [v]) # push_cols cs vs"
| "push_cols cs _ = cs"

definition push_row :: "u64 list \<Rightarrow> batch_builder \<Rightarrow> batch option \<times> batch_builder" where
  "push_row vals b =
     (let (flushed, b') = (if bb_cols b \<noteq> [] \<and> length (hd (bb_cols b)) = standard_vector_size then finish_internal b else (None, b))
      in (flushed, b'\<lparr>bb_cols := push_cols (bb_cols b') vals\<rparr>))"

fun resize_cols :: "nat \<Rightarrow> u64 list list \<Rightarrow> u64 list \<Rightarrow> u64 list list" where
  "resize_cols n (c # cs) (v # vs) = (take n c @ replicate (n - length c) v) # resize_cols n cs vs"
| "resize_cols n cs _ = cs"

definition push_run_chunk :: "u64 list \<Rightarrow> u64 list \<Rightarrow> batch_builder \<Rightarrow> nat \<times> batch option \<times> batch_builder" where
  "push_run_chunk prefix leaf_values b =
     (if leaf_values = [] then (0, None, b)
      else let k = length prefix; cur = length (bb_cols b ! k);
               n = min (length leaf_values) (standard_vector_size - cur);
               cols = resize_cols (cur + n) (take k (bb_cols b)) prefix @ drop k (bb_cols b);
               b' = b\<lparr>bb_cols := cols[k := cols ! k @ take n leaf_values]\<rparr>;
               (flushed, b'') = (if length (bb_cols b' ! k) = standard_vector_size then finish_internal b' else (None, b'))
           in (n, flushed, b''))"

definition finish :: "batch_builder \<Rightarrow> batch option \<times> batch_builder" where
  "finish b = finish_internal b"

text \<open>The rows of a batch.\<close>

definition batch_rows :: "batch \<Rightarrow> u64 list list" where
  "batch_rows cols = map (\<lambda>r. map (\<lambda>c. c ! r) cols) [0..<length (hd cols)]"

section \<open>Iterators by global depth\<close>

record adaptive_iter =
  ad_inner :: pattern_iter
  ad_local :: "nat option list"

definition local_for :: "adaptive_iter \<Rightarrow> nat \<Rightarrow> nat" where
  "local_for a d = the (ad_local a ! d)"

definition refresh_for :: "nat \<Rightarrow> adaptive_iter \<Rightarrow> adaptive_iter" where
  "refresh_for d a = (let l = local_for a d in if l = 0 then a else a\<lparr>ad_inner := rewind_local l (ad_inner a)\<rparr>)"

definition ad_reset :: "adaptive_iter \<Rightarrow> adaptive_iter option" where
  "ad_reset a = map_option (\<lambda>pt. a\<lparr>ad_inner := pt\<rparr>) (pt_reset (ad_inner a))"

definition ad_peek :: "adaptive_iter \<Rightarrow> nat \<Rightarrow> u64 option" where
  "ad_peek a d = pt_peek (ad_inner a) (local_for a d)"

definition ad_seek :: "nat \<Rightarrow> u64 \<Rightarrow> adaptive_iter \<Rightarrow> adaptive_iter" where
  "ad_seek d v a = a\<lparr>ad_inner := pt_seek (local_for a d) v (ad_inner a)\<rparr>"

definition ad_ready :: "adaptive_iter \<Rightarrow> nat \<Rightarrow> bool" where
  "ad_ready a d = pt_ready (ad_inner a) (local_for a d)"

definition ad_run :: "nat \<Rightarrow> adaptive_iter \<Rightarrow> u64 list option \<times> adaptive_iter" where
  "ad_run d a = (case pt_run (local_for a d) (ad_inner a) of (r, pt) \<Rightarrow> (r, a\<lparr>ad_inner := pt\<rparr>))"

definition ad_open :: "nat \<Rightarrow> adaptive_iter \<Rightarrow> adaptive_iter option" where
  "ad_open d a = map_option (\<lambda>pt. a\<lparr>ad_inner := pt\<rparr>) (pt_open (local_for a d) (ad_inner a))"

text \<open>Ascending undoes the opening at the last depth above that the iterator contributes to.\<close>

definition ad_up :: "nat \<Rightarrow> adaptive_iter \<Rightarrow> adaptive_iter" where
  "ad_up d a =
     (if d = 0 then a
      else case find (\<lambda>l. l \<noteq> None) (rev (take d (ad_local a))) of
             Some (Some l) \<Rightarrow> a\<lparr>ad_inner := pt_up (l + 1) (ad_inner a)\<rparr> | _ \<Rightarrow> a)"

section \<open>The state of the executor\<close>

datatype wcoj_error = Cancelled

record depth_state =
  ds_p :: nat
  ds_primed :: bool
  ds_done :: bool
  ds_descended :: bool
  ds_simd :: bool
  ds_pos :: nat
  ds_tried :: bool

definition ds_fresh :: depth_state where
  "ds_fresh = \<lparr>ds_p = 0, ds_primed = False, ds_done = False, ds_descended = False, ds_simd = False, ds_pos = 0, ds_tried = False\<rparr>"

record batch_iter =
  bi_vars :: "var list"
  bi_builder :: batch_builder
  bi_iters :: "adaptive_iter list"
  bi_contrib :: "nat list list"
  bi_descend :: "nat list list"
  bi_top :: "nat list list"
  bi_carry :: "nat list list"
  bi_state :: "depth_state option list"
  bi_sorted :: "nat list list"
  bi_buf :: "u64 list list"
  bi_binding :: "u64 list"
  bi_depth :: nat
  bi_finished :: bool
  bi_polls :: nat

text \<open>The all-constant patterns are looked up first.\<close>

definition ground_hit :: "vec_source \<Rightarrow> triple_pattern \<Rightarrow> bool option" where
  "ground_hit src pat =
     (let rs = the (as_bound (pat_s pat)); rp = the (as_bound (pat_p pat)); ro = the (as_bound (pat_o pat));
          it = seek 0 rs (source_iter src Spo) in
      if peek it 0 \<noteq> Some rs then Some False
      else Option.bind (open_level 1 it) (\<lambda>it1. let it1 = seek 1 rp it1 in
        if peek it1 1 \<noteq> Some rp then Some False
        else Option.bind (open_level 2 it1) (\<lambda>it2. let it2 = seek 2 ro it2 in
          Some (peek it2 2 = Some ro))))"

fun ground_check :: "vec_source \<Rightarrow> triple_pattern list \<Rightarrow> bool option" where
  "ground_check src [] = Some True"
| "ground_check src (pat # pats) =
     (if \<not> is_ground pat then ground_check src pats
      else Option.bind (ground_hit src pat) (\<lambda>hit. if hit then ground_check src pats else Some False))"

fun local_depths :: "triple_pattern \<Rightarrow> var list \<Rightarrow> nat \<Rightarrow> nat option list" where
  "local_depths pat [] l = []"
| "local_depths pat (v # vs) l =
     (if position_of pat v \<noteq> None then Some l # local_depths pat vs (l + 1) else None # local_depths pat vs l)"

fun build_iters :: "vec_source \<Rightarrow> var list \<Rightarrow> triple_pattern list \<Rightarrow> adaptive_iter list option" where
  "build_iters src vs [] = Some []"
| "build_iters src vs (pat # pats) =
     Option.bind (pt_new src pat vs (ordering_for pat vs)) (\<lambda>pt.
       map_option ((#) \<lparr>ad_inner = pt, ad_local = local_depths pat vs 0\<rparr>) (build_iters src vs pats))"

definition mentions :: "triple_pattern \<Rightarrow> var \<Rightarrow> bool" where
  "mentions pat v \<longleftrightarrow> position_of pat v \<noteq> None"

definition contributing :: "triple_pattern list \<Rightarrow> var list \<Rightarrow> nat list list" where
  "contributing pats vs = map (\<lambda>v. filter (\<lambda>i. mentions (pats ! i) v) [0..<length pats]) vs"

definition descend_at :: "triple_pattern list \<Rightarrow> var list \<Rightarrow> nat list list" where
  "descend_at pats vs = map (\<lambda>d. filter (\<lambda>i. \<exists>v\<in>set (drop (d + 1) vs). mentions (pats ! i) v) (contributing pats vs ! d)) [0..<length vs]"

text \<open>The shallowest depth of each pattern; a pattern with no eliminated variable panics.\<close>

fun first_mentioned :: "triple_pattern \<Rightarrow> var list \<Rightarrow> nat option" where
  "first_mentioned pat [] = None"
| "first_mentioned pat (v # vs) = (if mentions pat v then Some 0 else map_option Suc (first_mentioned pat vs))"

fun top_depths :: "triple_pattern list \<Rightarrow> var list \<Rightarrow> nat list option" where
  "top_depths [] vs = Some []"
| "top_depths (pat # pats) vs =
     Option.bind (first_mentioned pat vs) (\<lambda>d. map_option ((#) d) (top_depths pats vs))"

definition top_at :: "nat list \<Rightarrow> var list \<Rightarrow> nat list list" where
  "top_at tops vs = map (\<lambda>d. filter (\<lambda>i. tops ! i = d) [0..<length tops]) [0..<length vs]"

definition carry_at :: "triple_pattern list \<Rightarrow> nat list \<Rightarrow> var list \<Rightarrow> nat list list" where
  "carry_at pats tops vs = map (\<lambda>d. filter (\<lambda>i. tops ! i < d) (contributing pats vs ! d)) [0..<length vs]"

definition bi_new :: "vec_source \<Rightarrow> triple_pattern list \<Rightarrow> var list \<Rightarrow> batch_iter option" where
  "bi_new src bgp vs =
     Option.bind (ground_check src bgp) (\<lambda>hit.
       let pats = filter (\<lambda>pat. \<not> is_ground pat) bgp in
       Option.bind (if hit then build_iters src vs pats else Some []) (\<lambda>iters.
         map_option (\<lambda>tops.
           \<lparr>bi_vars = vs, bi_builder = bb_new vs, bi_iters = iters, bi_contrib = contributing pats vs,
            bi_descend = descend_at pats vs, bi_top = top_at tops vs, bi_carry = carry_at pats tops vs,
            bi_state = replicate (length vs) None, bi_sorted = replicate (length vs) [],
            bi_buf = replicate (length vs) [], bi_binding = replicate (length vs) 0,
            bi_depth = 0, bi_finished = \<not> hit, bi_polls = 0\<rparr>)
           (top_depths pats vs)))"

section \<open>The leapfrog at one depth\<close>

definition ds_at :: "nat \<Rightarrow> batch_iter \<Rightarrow> depth_state" where
  "ds_at d x = the (bi_state x ! d)"

definition set_ds :: "nat \<Rightarrow> depth_state \<Rightarrow> batch_iter \<Rightarrow> batch_iter" where
  "set_ds d st x = x\<lparr>bi_state := (bi_state x)[d := Some st]\<rparr>"

definition set_iter :: "nat \<Rightarrow> adaptive_iter \<Rightarrow> batch_iter \<Rightarrow> batch_iter" where
  "set_iter i a x = x\<lparr>bi_iters := (bi_iters x)[i := a]\<rparr>"

definition mark_done :: "nat \<Rightarrow> batch_iter \<Rightarrow> batch_iter" where
  "mark_done d x = set_ds d (ds_at d x\<lparr>ds_done := True\<rparr>) x"

definition bi_arm :: "nat \<Rightarrow> batch_iter \<Rightarrow> batch_iter" where
  "bi_arm d x =
     (let i0 = bi_contrib x ! d ! 0; i1 = bi_contrib x ! d ! 1; (lo, hi) = (if i0 < i1 then (i0, i1) else (i1, i0)) in
      if \<not> (ad_ready (bi_iters x ! lo) d \<and> ad_ready (bi_iters x ! hi) d) then x
      else case ad_run d (bi_iters x ! lo) of
        (None, a) \<Rightarrow> set_iter lo a x
      | (Some xs, a) \<Rightarrow>
          (case ad_run d (bi_iters x ! hi) of
             (None, b) \<Rightarrow> set_iter hi b (set_iter lo a x)
           | (Some ys, b) \<Rightarrow>
               (let x' = set_iter hi b (set_iter lo a x)
                in set_ds d (ds_at d x'\<lparr>ds_pos := 0, ds_simd := True\<rparr>) (x'\<lparr>bi_buf := (bi_buf x')[d := intersect xs ys]\<rparr>))))"

partial_function (option) bi_find_loop :: "nat \<Rightarrow> batch_iter \<Rightarrow> (u64 option \<times> batch_iter) option" where
  "bi_find_loop d x =
     (let k = length (bi_contrib x ! d); p = ds_p (ds_at d x); prev = (p + k - 1) mod k;
          iter_prev = bi_sorted x ! d ! prev; iter_p = bi_sorted x ! d ! p in
      case ad_peek (bi_iters x ! iter_prev) d of None \<Rightarrow> Some (None, x) | Some target \<Rightarrow>
      (case ad_peek (bi_iters x ! iter_p) d of None \<Rightarrow> Some (None, x) | Some cur \<Rightarrow>
        if cur = target then Some (Some cur, x)
        else let a = ad_seek d target (bi_iters x ! iter_p); x' = set_iter iter_p a x in
          (case ad_peek a d of None \<Rightarrow> Some (None, mark_done d x')
           | Some v \<Rightarrow> if v < target then Some (None, mark_done d x')
               else bi_find_loop d (set_ds d (ds_at d x'\<lparr>ds_p := (p + 1) mod k\<rparr>) x'))))"

definition bi_find :: "nat \<Rightarrow> batch_iter \<Rightarrow> (u64 option \<times> batch_iter) option" where
  "bi_find d x =
     (let st = ds_at d x in
      if ds_simd st then
        (if ds_pos st < length (bi_buf x ! d) then
           let v = bi_buf x ! d ! ds_pos st; i0 = bi_contrib x ! d ! 0; i1 = bi_contrib x ! d ! 1;
               x1 = set_ds d (st\<lparr>ds_pos := ds_pos st + 1\<rparr>) x;
               x2 = set_iter i0 (ad_seek d v (bi_iters x1 ! i0)) x1;
               x3 = set_iter i1 (ad_seek d v (bi_iters x2 ! i1)) x2
           in Some (Some v, x3)
         else Some (None, mark_done d x))
      else bi_find_loop d x)"

definition bi_prime :: "nat \<Rightarrow> batch_iter \<Rightarrow> (u64 option \<times> batch_iter) option" where
  "bi_prime d x =
     (let heads = map (\<lambda>i. (i, ad_peek (bi_iters x ! i) d)) (bi_contrib x ! d) in
      if \<exists>(i, h)\<in>set heads. h = None then Some (None, set_ds d (ds_at d x\<lparr>ds_done := True, ds_primed := True\<rparr>) x)
      else let scratch = sort_key snd (map (\<lambda>(i, h). (i, the h)) heads);
               x' = x\<lparr>bi_sorted := (bi_sorted x)[d := map fst scratch]\<rparr>
           in bi_find d (set_ds d (ds_at d x'\<lparr>ds_primed := True, ds_p := 0\<rparr>) x'))"

definition bi_next :: "nat \<Rightarrow> batch_iter \<Rightarrow> (u64 option \<times> batch_iter) option" where
  "bi_next d x =
     (let k = length (bi_contrib x ! d); st = ds_at d x in
      if ds_done st \<or> k = 0 then Some (None, mark_done d x)
      else if \<not> ds_primed st then
        (let x1 = (if k = 2 \<and> \<not> ds_tried st
                   then (let x' = bi_arm d x in set_ds d (ds_at d x'\<lparr>ds_tried := True\<rparr>) x') else x) in
         if ds_simd (ds_at d x1) then bi_find d (set_ds d (ds_at d x1\<lparr>ds_primed := True\<rparr>) x1)
         else bi_prime d x1)
      else if ds_simd st then bi_find d x
      else let i = bi_sorted x ! d ! ds_p st in
        (case ad_peek (bi_iters x ! i) d of None \<Rightarrow> None
         | Some cur \<Rightarrow>
             let a = ad_seek d (cur + 1) (bi_iters x ! i); x1 = set_iter i a x in
             (case ad_peek a d of None \<Rightarrow> Some (None, mark_done d x1)
              | Some _ \<Rightarrow> bi_find d (set_ds d (st\<lparr>ds_p := (ds_p st + 1) mod k\<rparr>) x1))))"

section \<open>The depth-first driver\<close>

text \<open>The number of variables is kept in a byte.\<close>

definition bi_nvars :: "batch_iter \<Rightarrow> nat" where
  "bi_nvars x = length (bi_vars x) mod 256"

definition bi_prepare :: "batch_iter \<Rightarrow> batch_iter" where
  "bi_prepare x =
     (let d = bi_depth x in
      if bi_state x ! d = None then
        set_ds d ds_fresh (fold (\<lambda>i y. set_iter i (refresh_for d (bi_iters y ! i)) y) (bi_carry x ! d) x)
      else x)"

definition bi_back :: "batch_iter \<Rightarrow> batch_iter" where
  "bi_back x =
     (let d = bi_depth x; st = ds_at d x in
      if ds_descended st \<and> \<not> ds_done st then set_ds d (st\<lparr>ds_descended := False\<rparr>) x else x)"

text \<open>The bulk path of the last variable: a chunk was written (with the batch it filled), or not.\<close>

definition bi_leaf :: "batch_iter \<Rightarrow> batch option option \<times> batch_iter" where
  "bi_leaf x =
     (let d = bi_depth x in
      if d + 1 \<noteq> bi_nvars x then (None, x)
      else
        let st = ds_at d x;
            x1 = (if \<not> ds_primed st \<and> \<not> ds_done st \<and> \<not> ds_tried st \<and> length (bi_contrib x ! d) = 2
                  then (let x' = bi_arm d x; st' = ds_at d x'\<lparr>ds_tried := True\<rparr>
                        in set_ds d (if ds_simd st' then st'\<lparr>ds_primed := True\<rparr> else st') x')
                  else x);
            st1 = ds_at d x1 in
        if ds_simd st1 then
          (if ds_pos st1 < length (bi_buf x1 ! d) then
             (case push_run_chunk (take d (bi_binding x1)) (drop (ds_pos st1) (bi_buf x1 ! d)) (bi_builder x1) of
                (n, flushed, b) \<Rightarrow> (Some flushed, set_ds d (st1\<lparr>ds_pos := ds_pos st1 + n\<rparr>) (x1\<lparr>bi_builder := b\<rparr>)))
           else (None, mark_done d x1))
        else (None, x1))"

text \<open>Opening or resetting a list of iterators in turn.\<close>

fun each_iter :: "(adaptive_iter \<Rightarrow> adaptive_iter option) \<Rightarrow> nat list \<Rightarrow> batch_iter \<Rightarrow> batch_iter option" where
  "each_iter f [] x = Some x"
| "each_iter f (i # is) x = Option.bind (f (bi_iters x ! i)) (\<lambda>a. each_iter f is (set_iter i a x))"

type_synonym item = "wcoj_error + batch"

text \<open>A round of the loop either goes on with a state or returns.\<close>

definition bi_bind :: "u64 \<Rightarrow> batch_iter \<Rightarrow> (batch_iter + item option \<times> batch_iter) option" where
  "bi_bind v x0 =
     (let d = bi_depth x0; x = x0\<lparr>bi_binding := (bi_binding x0)[d := v]\<rparr> in
      if d + 1 = bi_nvars x then
        (case push_row (bi_binding x) (bi_builder x) of
           (Some b, bb) \<Rightarrow> Some (Inr (Some (Inr b), x\<lparr>bi_builder := bb\<rparr>))
         | (None, bb) \<Rightarrow> Some (Inl (x\<lparr>bi_builder := bb\<rparr>)))
      else map_option (\<lambda>y. Inl ((set_ds d (ds_at d y\<lparr>ds_descended := True\<rparr>) y)\<lparr>bi_depth := d + 1\<rparr>))
             (each_iter (ad_open d) (bi_descend x ! d) x))"

definition bi_ascend :: "batch_iter \<Rightarrow> (batch_iter + item option \<times> batch_iter) option" where
  "bi_ascend x =
     (let d = bi_depth x in
      Option.bind (each_iter ad_reset (bi_top x ! d) x) (\<lambda>y0.
        let y = y0\<lparr>bi_state := (bi_state y0)[d := None]\<rparr> in
        if d = 0 then
          (case finish (bi_builder y) of (r, bb) \<Rightarrow> Some (Inr (map_option Inr r, y\<lparr>bi_finished := True, bi_builder := bb\<rparr>)))
        else map_option Inl (each_iter (\<lambda>a. Some (ad_up d a)) (bi_descend y ! (d - 1)) (y\<lparr>bi_depth := d - 1\<rparr>))))"

definition bi_round :: "batch_iter \<Rightarrow> (batch_iter + item option \<times> batch_iter) option" where
  "bi_round x =
     (case bi_leaf (bi_back (bi_prepare x)) of
        (Some (Some b), y) \<Rightarrow> Some (Inr (Some (Inr b), y))
      | (Some None, y) \<Rightarrow> Some (Inl y)
      | (None, y) \<Rightarrow>
          Option.bind (bi_next (bi_depth y) y) (\<lambda>(r, z). case r of Some v \<Rightarrow> bi_bind v z | None \<Rightarrow> bi_ascend z))"

text \<open>The cancellation flag is read once a round at the first variable; \<open>cancel n\<close> is what the n-th
  reading sees.\<close>

partial_function (option) bi_loop :: "(nat \<Rightarrow> bool) \<Rightarrow> batch_iter \<Rightarrow> (item option \<times> batch_iter) option" where
  "bi_loop cancel x =
     (let x' = (if bi_depth x = 0 then x\<lparr>bi_polls := bi_polls x + 1\<rparr> else x) in
      if bi_depth x = 0 \<and> cancel (bi_polls x) then Some (Some (Inl Cancelled), x'\<lparr>bi_finished := True\<rparr>)
      else case bi_round x' of None \<Rightarrow> None | Some (Inr r) \<Rightarrow> Some r | Some (Inl y) \<Rightarrow> bi_loop cancel y)"

definition bi_step :: "(nat \<Rightarrow> bool) \<Rightarrow> batch_iter \<Rightarrow> (item option \<times> batch_iter) option" where
  "bi_step cancel x =
     (if bi_finished x then Some (None, x)
      else if bi_nvars x = 0 then Some (None, x\<lparr>bi_finished := True\<rparr>)
      else bi_loop cancel x)"

text \<open>Reading the stream to its end.\<close>

partial_function (option) bi_drain :: "(nat \<Rightarrow> bool) \<Rightarrow> batch_iter \<Rightarrow> item list option" where
  "bi_drain cancel x =
     (case bi_step cancel x of None \<Rightarrow> None | Some (None, y) \<Rightarrow> Some []
      | Some (Some r, y) \<Rightarrow> Option.bind (bi_drain cancel y) (\<lambda>rs. Some (r # rs)))"

declare bi_find_loop.simps [code] bi_loop.simps [code] bi_drain.simps [code]

end
