(* ===== verification/Wcoj_Level.thy ===== *)
theory Wcoj_Level imports Wcoj_Exec begin

text \<open>
  One depth of the executor: the inlined leapfrog over the iterators that contribute to a variable
  yields the values \<^verbatim>\<open>LeapfrogJoin\<close> yields over them, and touches nothing but that depth.
\<close>

section \<open>Adaptive iterators are trie iterators\<close>

definition vec_of :: "adaptive_iter \<Rightarrow> vec_iter" where
  "vec_of a = pt_inner (ad_inner a)"

definition ad_level :: "adaptive_iter \<Rightarrow> nat \<Rightarrow> nat" where
  "ad_level a d = phys_for (ad_inner a) (local_for a d)"

definition ad_put :: "vec_iter \<Rightarrow> adaptive_iter \<Rightarrow> adaptive_iter" where
  "ad_put it a = a\<lparr>ad_inner := (ad_inner a)\<lparr>pt_inner := it\<rparr>\<rparr>"

definition ad_ops :: "adaptive_iter trie_ops" where
  "ad_ops = \<lparr>tr_peek = ad_peek, tr_seek = ad_seek, tr_ready = ad_ready, tr_run = ad_run\<rparr>"

lemma ad_put_simps [simp]:
  "vec_of (ad_put it a) = it" "ad_level (ad_put it a) d = ad_level a d" "ad_local (ad_put it a) = ad_local a"
  "ad_put it' (ad_put it a) = ad_put it' a" "ad_put (vec_of a) a = a"
  by (simp_all add: vec_of_def ad_put_def ad_level_def local_for_def phys_for_def)

lemma ad_ops_put:
  "ad_peek a d = peek (vec_of a) (ad_level a d)"
  "ad_seek d v a = ad_put (seek (ad_level a d) v (vec_of a)) a"
  "ad_ready a d = active_run_ready (vec_of a) (ad_level a d)"
  "ad_run d a = (case active_run (ad_level a d) (vec_of a) of (r, it) \<Rightarrow> (r, ad_put it a))"
  by (simp_all add: ad_peek_def pt_peek_def ad_seek_def pt_seek_def ad_ready_def pt_ready_def ad_run_def pt_run_def
    vec_of_def ad_level_def ad_put_def split: prod.split)

interpretation ad: trie_iterator ad_ops d "\<lambda>a. opened (vec_of a) (ad_level a d)" "\<lambda>a. keys (vec_of a) (ad_level a d)" for d
proof
  fix a assume o: "opened (vec_of a) (ad_level a d)"
  show "sorted_wrt (<) (keys (vec_of a) (ad_level a d))" by (rule keys_strict [OF o])
  show "tr_peek ad_ops a d = (case keys (vec_of a) (ad_level a d) of [] \<Rightarrow> None | v # vs \<Rightarrow> Some v)"
    by (simp add: ad_ops_def ad_ops_put peek_hd [OF o])
  show "opened (vec_of (tr_seek ad_ops d v a)) (ad_level (tr_seek ad_ops d v a) d)"
    "keys (vec_of (tr_seek ad_ops d v a)) (ad_level (tr_seek ad_ops d v a) d) = dropWhile (\<lambda>x. x < v) (keys (vec_of a) (ad_level a d))" for v
    using seek_spec [OF o] by (simp_all add: ad_ops_def ad_ops_put)
  obtain r it where run: "active_run (ad_level a d) (vec_of a) = (r, it)" by (cases "active_run (ad_level a d) (vec_of a)")
  note s = active_run_spec [OF o run]
  show "opened (vec_of (snd (tr_run ad_ops d a))) (ad_level (snd (tr_run ad_ops d a)) d)"
    "keys (vec_of (snd (tr_run ad_ops d a))) (ad_level (snd (tr_run ad_ops d a)) d) = keys (vec_of a) (ad_level a d)"
    using s(1,2) by (simp_all add: ad_ops_def ad_ops_put run)
  show "r' = keys (vec_of a) (ad_level a d)" if "fst (tr_run ad_ops d a) = Some r'" for r'
    using s(3) that by (simp add: ad_ops_def ad_ops_put run)
qed

text \<open>What moving the cursor of a depth keeps.\<close>

definition ad_moved :: "nat \<Rightarrow> adaptive_iter \<Rightarrow> adaptive_iter \<Rightarrow> bool" where
  "ad_moved d a b \<longleftrightarrow> b = ad_put (vec_of b) a \<and> agree (ad_level a d) (vec_of a) (vec_of b)
     \<and> it_range (vec_of b) = it_range (vec_of a)
     \<and> (opened (vec_of a) (ad_level a d) \<longrightarrow> opened (vec_of b) (ad_level a d))"

lemma ad_moved_refl [simp]: "ad_moved d a a"
  by (simp add: ad_moved_def)

lemma ad_moved_static: "ad_moved d a b \<Longrightarrow> ad_level b e = ad_level a e \<and> ad_local b = ad_local a"
  unfolding ad_moved_def by (metis ad_put_simps(2,3))

lemma ad_moved_trans: "ad_moved d a b \<Longrightarrow> ad_moved d b c \<Longrightarrow> ad_moved d a c"
  using ad_moved_static [of d a b d] unfolding ad_moved_def by (metis ad_put_simps(4) agree_trans)

lemma ad_moved_ops: "ad_moved d a (ad_seek d v a)" "ad_run d a = (r, b) \<Longrightarrow> ad_moved d a b"
  using agree_ops(5) same_range(3) active_run_spec(1)
  by (auto simp: ad_moved_def ad_ops_put agree_ops(1) same_range seek_spec(1) split: prod.splits)

section \<open>Viewing a depth as a join\<close>

definition view :: "nat \<Rightarrow> batch_iter \<Rightarrow> adaptive_iter leapfrog_join \<Rightarrow> bool" where
  "view d x j \<longleftrightarrow> lf_depth j = d \<and> lf_iters j = map (\<lambda>i. bi_iters x ! i) (bi_contrib x ! d)
     \<and> lf_done j = ds_done (ds_at d x) \<and> lf_primed j = ds_primed (ds_at d x) \<and> lf_simd j = ds_simd (ds_at d x)
     \<and> (lf_simd j \<longrightarrow> lf_pos j = ds_pos (ds_at d x) \<and> lf_buf j = bi_buf x ! d)
     \<and> (lf_primed j \<and> \<not> lf_simd j \<and> \<not> lf_done j \<longrightarrow> lf_p j = ds_p (ds_at d x)
          \<and> bi_sorted x ! d = map (\<lambda>n. bi_contrib x ! d ! n) (lf_order j))"

definition level_wf :: "nat \<Rightarrow> batch_iter \<Rightarrow> bool" where
  "level_wf d x \<longleftrightarrow> d < length (bi_state x) \<and> d < length (bi_sorted x) \<and> d < length (bi_buf x) \<and> bi_state x ! d \<noteq> None
     \<and> distinct (bi_contrib x ! d) \<and> (\<forall>i\<in>set (bi_contrib x ! d). i < length (bi_iters x))"

definition same_but :: "nat \<Rightarrow> 'a list \<Rightarrow> 'a list \<Rightarrow> bool" where
  "same_but d xs ys \<longleftrightarrow> length ys = length xs \<and> (\<forall>e. e \<noteq> d \<longrightarrow> ys ! e = xs ! e)"

lemma same_but_simps [simp]: "same_but d xs xs" "same_but d xs (xs[d := v])"
  by (simp_all add: same_but_def)

lemma same_but_trans: "same_but d xs ys \<Longrightarrow> same_but d ys zs \<Longrightarrow> same_but d xs zs"
  by (simp add: same_but_def)

definition frame :: "nat \<Rightarrow> batch_iter \<Rightarrow> batch_iter \<Rightarrow> bool" where
  "frame d x y \<longleftrightarrow>
     y\<lparr>bi_iters := bi_iters x, bi_state := bi_state x, bi_sorted := bi_sorted x, bi_buf := bi_buf x\<rparr> = x
     \<and> same_but d (bi_state x) (bi_state y) \<and> same_but d (bi_sorted x) (bi_sorted y) \<and> same_but d (bi_buf x) (bi_buf y)
     \<and> (bi_state x ! d \<noteq> None \<longrightarrow> bi_state y ! d \<noteq> None) \<and> length (bi_iters y) = length (bi_iters x)
     \<and> (\<forall>i<length (bi_iters x). if i \<in> set (bi_contrib x ! d) then ad_moved d (bi_iters x ! i) (bi_iters y ! i)
          else bi_iters y ! i = bi_iters x ! i)"

lemma frame_static:
  assumes "frame d x y"
  shows "bi_vars y = bi_vars x" "bi_builder y = bi_builder x" "bi_contrib y = bi_contrib x" "bi_descend y = bi_descend x"
    "bi_top y = bi_top x" "bi_carry y = bi_carry x" "bi_binding y = bi_binding x" "bi_depth y = bi_depth x"
    "bi_finished y = bi_finished x" "bi_polls y = bi_polls x" "length (bi_iters y) = length (bi_iters x)"
proof -
  let ?z = "y\<lparr>bi_iters := bi_iters x, bi_state := bi_state x, bi_sorted := bi_sorted x, bi_buf := bi_buf x\<rparr>"
  have z: "?z = x" using assms by (simp add: frame_def)
  show "bi_vars y = bi_vars x" "bi_builder y = bi_builder x" "bi_contrib y = bi_contrib x" "bi_descend y = bi_descend x"
    "bi_top y = bi_top x" "bi_carry y = bi_carry x" "bi_binding y = bi_binding x" "bi_depth y = bi_depth x"
    "bi_finished y = bi_finished x" "bi_polls y = bi_polls x"
    using arg_cong [OF z, of bi_vars] arg_cong [OF z, of bi_builder] arg_cong [OF z, of bi_contrib]
      arg_cong [OF z, of bi_descend] arg_cong [OF z, of bi_top] arg_cong [OF z, of bi_carry] arg_cong [OF z, of bi_binding]
      arg_cong [OF z, of bi_depth] arg_cong [OF z, of bi_finished] arg_cong [OF z, of bi_polls] by simp_all
  show "length (bi_iters y) = length (bi_iters x)" using assms by (simp add: frame_def)
qed

lemma frame_refl [simp]: "frame d x x"
  by (simp add: frame_def)

lemma frame_trans:
  assumes "frame d x y" and "frame d y z"
  shows "frame d x z"
proof -
  note s = frame_static [OF assms(1)]
  have "z\<lparr>bi_iters := bi_iters y, bi_state := bi_state y, bi_sorted := bi_sorted y, bi_buf := bi_buf y\<rparr> = y"
    using assms(2) by (simp add: frame_def)
  then have "z\<lparr>bi_iters := bi_iters x, bi_state := bi_state x, bi_sorted := bi_sorted x, bi_buf := bi_buf x\<rparr>
      = y\<lparr>bi_iters := bi_iters x, bi_state := bi_state x, bi_sorted := bi_sorted x, bi_buf := bi_buf x\<rparr>"
    by (auto dest: arg_cong [of _ _ "\<lambda>y. y\<lparr>bi_iters := bi_iters x, bi_state := bi_state x, bi_sorted := bi_sorted x, bi_buf := bi_buf x\<rparr>"])
  moreover have "if i \<in> set (bi_contrib x ! d) then ad_moved d (bi_iters x ! i) (bi_iters z ! i) else bi_iters z ! i = bi_iters x ! i"
    if "i < length (bi_iters x)" for i
    using assms that s(3,11) ad_moved_trans [of d "bi_iters x ! i" "bi_iters y ! i"] unfolding frame_def by (auto split: if_splits)
  ultimately show ?thesis using assms s unfolding frame_def by (auto intro: same_but_trans)
qed

lemma frame_set_ds: "bi_state x ! d \<noteq> None \<Longrightarrow> d < length (bi_state x) \<Longrightarrow> frame d x (set_ds d st x)"
  by (simp add: frame_def set_ds_def)

lemma frame_set_iter:
  "ad_moved d (bi_iters x ! i) a \<Longrightarrow> i \<in> set (bi_contrib x ! d) \<Longrightarrow> frame d x (set_iter i a x)"
  by (cases "i < length (bi_iters x)") (auto simp: frame_def set_iter_def nth_list_update)

lemma frame_wf:
  assumes "frame d x y" and "level_wf d x"
  shows "level_wf d y"
proof -
  have "length (bi_state y) = length (bi_state x)" "length (bi_sorted y) = length (bi_sorted x)"
    "length (bi_buf y) = length (bi_buf x)" "bi_state x ! d \<noteq> None \<longrightarrow> bi_state y ! d \<noteq> None"
    using assms(1) by (simp_all add: frame_def same_but_def)
  then show ?thesis using assms(2) unfolding level_wf_def frame_static(3,11) [OF assms(1)] by simp
qed

lemma set_simps [simp]:
  "d < length (bi_state x) \<Longrightarrow> ds_at d (set_ds d st x) = st" "ds_at d (set_iter i a x) = ds_at d x"
  "bi_iters (set_ds d st x) = bi_iters x" "bi_iters (set_iter i a x) = (bi_iters x)[i := a]"
  "bi_contrib (set_ds d st x) = bi_contrib x" "bi_contrib (set_iter i a x) = bi_contrib x"
  "bi_sorted (set_ds d st x) = bi_sorted x" "bi_sorted (set_iter i a x) = bi_sorted x"
  "bi_buf (set_ds d st x) = bi_buf x" "bi_buf (set_iter i a x) = bi_buf x"
  "bi_state (set_iter i a x) = bi_state x" "length (bi_state (set_ds d st x)) = length (bi_state x)"
  by (simp_all add: set_ds_def set_iter_def ds_at_def)

lemma map_nth_update:
  assumes "distinct c" and "n < length c" and "\<forall>i\<in>set c. i < length xs"
  shows "map (\<lambda>i. xs[c ! n := a] ! i) c = (map (\<lambda>i. xs ! i) c)[n := a]"
  using assms by (intro nth_equalityI) (auto simp: nth_list_update nth_eq_iff_index_eq)

definition first_of :: "u64 list \<Rightarrow> u64 option" where
  "first_of xs = (case xs of [] \<Rightarrow> None | v # _ \<Rightarrow> Some v)"

lemma first_of_simps [simp]: "first_of [] = None" "first_of (v # vs) = Some v" by (simp_all add: first_of_def)

text \<open>The first of the values still to come is yielded, the others stay pending.\<close>

definition gives :: "nat \<Rightarrow> batch_iter \<Rightarrow> (u64 option \<times> batch_iter) option \<Rightarrow> u64 list \<Rightarrow> bool" where
  "gives d x r xs \<longleftrightarrow> (\<exists>x' j'. r = Some (first_of xs, x') \<and> view d x' j' \<and> ad.pending d j' (tl xs) \<and> frame d x x'
     \<and> (xs \<noteq> [] \<longrightarrow> \<not> ds_done (ds_at d x') \<and> (\<forall>i\<in>set (bi_contrib x ! d). ad_peek (bi_iters x' ! i) d = Some (hd xs))))"

lemma gives_frame: "frame d x y \<Longrightarrow> gives d y r xs \<Longrightarrow> gives d x r xs"
  unfolding gives_def using frame_trans [of d x y] frame_static(3) [of d x y] by fastforce

lemma view_peek: "view d x j \<Longrightarrow> n < length (bi_contrib x ! d) \<Longrightarrow>
    ad_peek (bi_iters x ! (bi_contrib x ! d ! n)) d = tr_peek ad_ops (lf_iters j ! n) d"
  by (simp add: view_def ad_ops_def)

lemma mark_done_simps: "d < length (bi_state x) \<Longrightarrow> ds_at d (mark_done d x) = ds_at d x\<lparr>ds_done := True\<rparr>"
  "bi_iters (mark_done d x) = bi_iters x" "bi_contrib (mark_done d x) = bi_contrib x" "bi_buf (mark_done d x) = bi_buf x"
  by (simp_all add: mark_done_def)

lemma frame_mark: "level_wf d x \<Longrightarrow> frame d x (mark_done d x)"
  unfolding mark_done_def by (rule frame_set_ds) (auto simp: level_wf_def)

lemma view_done:
  assumes "view d x j" and "level_wf d x"
  shows "view d (mark_done d x) (j\<lparr>lf_done := True\<rparr>)"
proof -
  have "d < length (bi_state x)" using assms(2) by (simp add: level_wf_def)
  then show ?thesis using assms(1) by (simp add: view_def mark_done_simps)
qed

section \<open>The inlined leapfrog\<close>

lemma level_len: "level_wf d x \<Longrightarrow> d < length (bi_state x)"
  by (simp add: level_wf_def)

lemma view_update:
  assumes "view d x j" and "level_wf d x" and "n < length (bi_contrib x ! d)"
  shows "view d (set_iter (bi_contrib x ! d ! n) a x) (j\<lparr>lf_iters := (lf_iters j)[n := a]\<rparr>)"
proof -
  have "map (\<lambda>i. (bi_iters x)[bi_contrib x ! d ! n := a] ! i) (bi_contrib x ! d) = (map (\<lambda>i. bi_iters x ! i) (bi_contrib x ! d))[n := a]"
    using assms(2,3) by (intro map_nth_update) (auto simp: level_wf_def)
  then show ?thesis using assms(1) by (simp add: view_def)
qed

lemma loop_gives:
  assumes "ad.live d j" and "view d x j" and "level_wf d x" and "listing xs (ad.common d (lf_iters j))" and "- 1 \<notin> set xs"
  shows "gives d x (bi_find_loop d x) xs"
  using assms(1-4)
proof (induction "\<Sum>i\<leftarrow>lf_iters j. length (keys (vec_of i) (ad_level i d))" arbitrary: j x rule: less_induct)
  case less
  note r = ad.ring_facts [OF less.prems(1)] and rf = ad.round_facts [OF less.prems(1)] and wf = less.prems(3)
  let ?c = "bi_contrib x ! d" and ?n = "hd (ad.ring j)" and ?m = "last (ad.ring j)"
  define t where "t = ad.key d j ?m"
  have v: "lf_iters j = map (\<lambda>i. bi_iters x ! i) ?c" "lf_p j = ds_p (ds_at d x)" "bi_sorted x ! d = map (\<lambda>n. ?c ! n) (lf_order j)"
    "lf_depth j = d" using less.prems(1,2) by (auto simp: view_def ad.live_def)
  have k: "length (lf_iters j) = length ?c" using v(1) by simp
  have n: "?n < length ?c" "?m < length ?c" using rf(1,2) k by simp_all
  have p: "lf_p j < length (lf_order j)" "(lf_p j + length ?c - 1) mod length ?c < length (lf_order j)"
    using less.prems(1) ad.live_order [OF less.prems(1)] k n(1) by (auto simp: ad.live_def intro!: mod_less_divisor)
  have at: "bi_sorted x ! d ! ds_p (ds_at d x) = ?c ! ?n"
    "bi_sorted x ! d ! ((ds_p (ds_at d x) + length ?c - 1) mod length ?c) = ?c ! ?m"
    using r(4,5) p k unfolding v(2,3) [symmetric] by (simp_all add: v(3) flip: v(2))
  have pk: "ad_peek (bi_iters x ! (?c ! ?n)) d = Some (ad.key d j ?n)" "ad_peek (bi_iters x ! (?c ! ?m)) d = Some t"
    using ad.live_peek [OF less.prems(1)] view_peek [OF less.prems(2)] n k by (simp_all add: t_def)
  define a where "a = ad_seek d t (bi_iters x ! (?c ! ?n))"
  have a: "a = tr_seek ad_ops d t (lf_iters j ! ?n)" using v(1) n(1) by (simp add: a_def ad_ops_def)
  define x1 where "x1 = set_iter (?c ! ?n) a x"
  define x2 where "x2 = set_ds d (ds_at d x1\<lparr>ds_p := (ds_p (ds_at d x) + 1) mod length ?c\<rparr>) x1"
  have step: "bi_find_loop d x = (if ad.key d j ?n = t then Some (Some (ad.key d j ?n), x)
      else case ad_peek a d of None \<Rightarrow> Some (None, mark_done d x1)
        | Some w \<Rightarrow> if w < t then Some (None, mark_done d x1) else bi_find_loop d x2)"
    unfolding bi_find_loop.simps [of d x] Let_def at pk option.case a_def [symmetric] x1_def [symmetric] x2_def [symmetric] by simp
  have f1: "frame d x x1" unfolding x1_def a_def by (rule frame_set_iter [OF ad_moved_ops(1)]) (use n in simp)
  have w1: "level_wf d x1" by (rule frame_wf [OF f1 wf])
  have v1: "view d x1 (j\<lparr>lf_iters := (lf_iters j)[?n := a]\<rparr>)" unfolding x1_def by (rule view_update [OF less.prems(2) wf n(1)])
  have pa: "ad_peek a d = (case keys (vec_of a) (ad_level a d) of [] \<Rightarrow> None | v # vs \<Rightarrow> Some v)"
    using ad.peek_vals [OF rf(4)] by (simp add: a t_def ad_ops_def)
  note rf' = rf(4-6) [folded t_def, folded a]
  show ?case
  proof (cases "ad.key d j ?n = t")
    case True
    have all: "t \<in> ad.common d (lf_iters j)" "\<forall>m<length (lf_iters j). ad.key d j m = t" using rf(3) True unfolding t_def by blast+
    note mp = ad.match_pending [OF less.prems(1) all(2,1) less.prems(4) assms(5)]
    have ne: "xs \<noteq> []" "hd xs = t" using mp(1) by (metis list.distinct(1), metis list.sel(1))
    have "\<forall>i\<in>set ?c. ad_peek (bi_iters x ! i) d = Some (hd xs)"
      using mp(3) [unfolded ad.stands_def] ne(2) v(1) by (simp add: ad_ops_def)
    moreover have "first_of xs = Some t" using ne by (cases xs) auto
    moreover have "\<not> ds_done (ds_at d x)" using less.prems(1,2) by (simp add: view_def ad.live_def)
    ultimately show ?thesis unfolding gives_def step using True less.prems(2) mp(2) by (intro exI [of _ x] exI [of _ j]) simp
  next
    case False
    show ?thesis
    proof (cases "keys (vec_of a) (ad_level a d)")
      case Nil
      then have "xs = []" using rf'(2) [OF False] less.prems(4) by (simp add: listing_def)
      moreover have "frame d x (mark_done d x1)" by (rule frame_trans [OF f1 frame_mark [OF w1]])
      ultimately show ?thesis
        unfolding gives_def step using False Nil pa view_done [OF v1 w1] v(4)
        by (intro exI [of _ "mark_done d x1"] exI) (auto simp: ad.pending_def)
    next
      case (Cons w ws)
      let ?j = "j\<lparr>lf_iters := (lf_iters j)[?n := a], lf_p := (lf_p j + 1) mod length (lf_iters j)\<rparr>"
      have j: "ad.live d ?j" "ad.common d (lf_iters ?j) = ad.common d (lf_iters j)" "t \<le> w"
        "(\<Sum>i\<leftarrow>lf_iters ?j. length (keys (vec_of i) (ad_level i d))) < (\<Sum>i\<leftarrow>lf_iters j. length (keys (vec_of i) (ad_level i d)))"
        using rf'(3) [OF False] Cons by simp_all
      have fx2: "frame d x1 x2" unfolding x2_def by (rule frame_set_ds) (use w1 in \<open>auto simp: level_wf_def\<close>)
      have w2: "level_wf d x2" by (rule frame_wf [OF fx2 w1])
      have "view d x2 ?j"
        using v1 level_len [OF w1] k v(2) unfolding view_def x2_def by simp
      then have "gives d x2 (bi_find_loop d x2) xs"
        using less.hyps [OF j(4,1) _ w2] less.prems(4) j(2) by simp
      moreover have "bi_find_loop d x = bi_find_loop d x2" using step False Cons pa leD [OF j(3)] by simp
      ultimately show ?thesis using gives_frame [OF frame_trans [OF f1 fx2]] by simp
    qed
  qed
qed

lemma view_armed:
  assumes "view d x j" and "level_wf d x" and "lf_simd j" and "length (bi_contrib x ! d) = 2"
    and "lf_primed j" "\<not> lf_done j" "\<forall>a\<in>set (lf_iters j). opened (vec_of a) (ad_level a d)"
    and "xs = drop (lf_pos j) (lf_buf j)" "sorted_wrt (<) xs" "set xs \<subseteq> ad.common d (lf_iters j)"
  shows "gives d x (bi_find d x) xs"
proof -
  obtain i0 i1 where c: "bi_contrib x ! d = [i0, i1]" using assms(4) by (auto simp: length_Suc_conv numeral_2_eq_2)
  have v: "lf_depth j = d" "lf_iters j = [bi_iters x ! i0, bi_iters x ! i1]" "lf_pos j = ds_pos (ds_at d x)"
    "lf_buf j = bi_buf x ! d" "ds_simd (ds_at d x)" "lf_done j = ds_done (ds_at d x)" "lf_primed j = ds_primed (ds_at d x)"
    using assms(1,3) by (simp_all add: view_def c)
  have i: "i0 \<noteq> i1" "i0 < length (bi_iters x)" "i1 < length (bi_iters x)" using assms(2) by (simp_all add: level_wf_def c)
  note len = level_len [OF assms(2)]
  have y: "ad.yields d (lf_find ad_ops j) xs" if "lf_find = find_match" for lf_find
    unfolding that using ad.simd_step [OF v(1) assms(6,5,3) _ assms(7-10)] v(2) by simp
  note y = y [OF refl]
  show ?thesis
  proof (cases xs)
    case Nil
    then have pos: "\<not> ds_pos (ds_at d x) < length (bi_buf x ! d)" using assms(8) v(3,4) by simp
    have "bi_find d x = Some (None, mark_done d x)" using pos v(5) by (simp add: bi_find_def Let_def)
    then show ?thesis
      unfolding gives_def using view_done [OF assms(1,2)] frame_mark [OF assms(2)] Nil v(1)
      by (intro exI [of _ "mark_done d x"] exI) (auto simp: ad.pending_def)
  next
    case (Cons w ws)
    have pos: "ds_pos (ds_at d x) < length (bi_buf x ! d)" "bi_buf x ! d ! ds_pos (ds_at d x) = w"
      using assms(8) Cons v(3,4) by (metis drop_eq_Nil list.distinct(1) not_less, metis hd_drop_conv_nth list.sel(1) drop_eq_Nil list.distinct(1) not_less)
    let ?a = "ad_seek d w (bi_iters x ! i0)" and ?b = "ad_seek d w (bi_iters x ! i1)"
    define x1 where "x1 = set_ds d (ds_at d x\<lparr>ds_pos := ds_pos (ds_at d x) + 1\<rparr>) x"
    define x2 where "x2 = set_iter i0 ?a x1"
    define x3 where "x3 = set_iter i1 ?b x2"
    have run: "bi_find d x = Some (Some w, x3)"
      using pos v(5) i by (simp add: bi_find_def Let_def c x1_def x2_def x3_def)
    have fm: "find_match ad_ops j = Some (Some w, j\<lparr>lf_pos := lf_pos j + 1, lf_iters := [?a, ?b]\<rparr>)"
      using pos v assms(3) by (simp add: find_match_def Let_def) (simp add: ad_ops_def)
    have f1: "frame d x x1" unfolding x1_def by (rule frame_set_ds) (use assms(2) in \<open>auto simp: level_wf_def\<close>)
    have f2: "frame d x1 x2" unfolding x2_def by (rule frame_set_iter) (simp_all add: x1_def c ad_moved_ops(1))
    have f3: "frame d x2 x3" unfolding x3_def by (rule frame_set_iter) (use i in \<open>simp_all add: x2_def x1_def c ad_moved_ops(1)\<close>)
    have it3: "bi_iters x3 ! i0 = ?a" "bi_iters x3 ! i1 = ?b" using i by (simp_all add: x3_def x2_def x1_def)
    have "view d x3 (j\<lparr>lf_pos := lf_pos j + 1, lf_iters := [?a, ?b]\<rparr>)"
      using assms(1,3) len it3 by (simp add: view_def x3_def x2_def x1_def c)
    moreover have "ad.pending d (j\<lparr>lf_pos := lf_pos j + 1, lf_iters := [?a, ?b]\<rparr>) (tl xs)"
      and "ad.stands d (j\<lparr>lf_pos := lf_pos j + 1, lf_iters := [?a, ?b]\<rparr>) (hd xs)"
      using y fm Cons by (auto simp: ad.yields_def)
    moreover have "\<not> ds_done (ds_at d x3)" using assms(6) v(6) len by (simp add: x3_def x2_def x1_def)
    ultimately show ?thesis
      unfolding gives_def run using frame_trans [OF frame_trans [OF f1 f2] f3] Cons it3
      by (intro exI [of _ x3] exI [of _ "j\<lparr>lf_pos := lf_pos j + 1, lf_iters := [?a, ?b]\<rparr>"])
        (simp add: c ad.stands_def, simp add: ad_ops_def)
  qed
qed

lemma insort_key_map: "insort_key f (g x) (map g xs) = map g (insort_key (\<lambda>x. f (g x)) x xs)"
  by (induction xs) auto

lemma sort_key_map: "sort_key f (map g xs) = map g (sort_key (\<lambda>x. f (g x)) xs)"
  by (induction xs) (auto simp: insort_key_map)

lemma prime_gives:
  assumes "view d x j" and "level_wf d x" and "\<not> lf_done j" "\<not> lf_simd j" "lf_iters j \<noteq> []"
    and "\<forall>a\<in>set (lf_iters j). opened (vec_of a) (ad_level a d)"
    and "listing xs (ad.common d (lf_iters j))" and "- 1 \<notin> set xs"
  shows "gives d x (bi_prime d x) xs"
proof -
  let ?c = "bi_contrib x ! d" and ?h = "map (\<lambda>i. (i, ad_peek (bi_iters x ! i) d)) (bi_contrib x ! d)"
  have v: "lf_depth j = d" "lf_iters j = map (\<lambda>i. bi_iters x ! i) ?c" using assms(1) by (simp_all add: view_def)
  note len = level_len [OF assms(2)]
  have pk: "tr_peek ad_ops a d = ad_peek a d" for a by (simp add: ad_ops_def)
  have wfs: "bi_state x ! d \<noteq> None" using assms(2) by (simp add: level_wf_def)
  show ?thesis
  proof (cases "\<exists>a\<in>set (lf_iters j). keys (vec_of a) (ad_level a d) = []")
    case True
    then obtain a where a: "a \<in> set (lf_iters j)" "keys (vec_of a) (ad_level a d) = []" by blast
    then have "ad_peek a d = None" using assms(6) ad.peek_vals [of a d] pk by simp
    then have "\<exists>(i, h)\<in>set ?h. h = None" using a(1) v(2) by force
    then have run: "bi_prime d x = Some (None, set_ds d (ds_at d x\<lparr>ds_done := True, ds_primed := True\<rparr>) x)"
      by (simp add: bi_prime_def Let_def)
    have "ad.common d (lf_iters j) \<subseteq> set (keys (vec_of a) (ad_level a d))" using a(1) unfolding ad.common_def by blast
    then have "xs = []" using assms(7) a(2) by (simp add: listing_def)
    moreover have "view d (set_ds d (ds_at d x\<lparr>ds_done := True, ds_primed := True\<rparr>) x) (j\<lparr>lf_done := True, lf_primed := True\<rparr>)"
      using assms(1,4) len by (simp add: view_def)
    ultimately show ?thesis
      unfolding gives_def run using frame_set_ds [OF wfs len] v(1)
      by (intro exI [of _ "set_ds d (ds_at d x\<lparr>ds_done := True, ds_primed := True\<rparr>) x"] exI) (auto simp: ad.pending_def)
  next
    case False
    have some: "ad_peek a d \<noteq> None" if "a \<in> set (lf_iters j)" for a
      using that False assms(6) ad.peek_vals [of a d] pk by (auto split: list.splits)
    then have none: "\<not> (\<exists>(i, h)\<in>set ?h. h = None)" using v(2) by auto
    define zs where "zs = zip [0..<length ?c] (map the (map (\<lambda>a. tr_peek ad_ops a d) (lf_iters j)))"
    have scratch: "map (\<lambda>(i, h). (i, the h)) ?h = map (\<lambda>(n, w). (?c ! n, w)) zs"
      by (rule nth_equalityI) (simp_all add: zs_def v(2) pk)
    have "map fst (sort_key snd (map (\<lambda>(i, h). (i, the h)) ?h)) = map (\<lambda>n. ?c ! n) (map fst (sort_key snd zs))"
      unfolding scratch sort_key_map by (simp add: case_prod_beta' comp_def)
    also have "map fst (sort_key snd zs) = prime_order (map (\<lambda>a. tr_peek ad_ops a d) (lf_iters j))"
      by (simp add: prime_order_def zs_def v(2))
    finally have ord: "map fst (sort_key snd (map (\<lambda>(i, h). (i, the h)) ?h))
        = map (\<lambda>n. ?c ! n) (prime_order (map (\<lambda>a. tr_peek ad_ops a d) (lf_iters j)))" .
    define o' where "o' = prime_order (map (\<lambda>a. tr_peek ad_ops a d) (lf_iters j))"
    define x1 where "x1 = x\<lparr>bi_sorted := (bi_sorted x)[d := map (\<lambda>n. ?c ! n) o']\<rparr>"
    define x2 where "x2 = set_ds d (ds_at d x\<lparr>ds_primed := True, ds_p := 0\<rparr>) x1"
    let ?j = "j\<lparr>lf_primed := True, lf_order := o', lf_p := 0\<rparr>"
    have at1: "ds_at d x1 = ds_at d x" by (simp add: x1_def ds_at_def)
    have simd: "\<not> ds_simd (ds_at d x2)" using assms(1,4) len by (simp add: x2_def x1_def view_def)
    have run: "bi_prime d x = bi_find_loop d x2"
      unfolding bi_prime_def Let_def if_not_P [OF none] ord o'_def [symmetric] x1_def [symmetric] at1 x2_def [symmetric]
      using simd by (simp add: bi_find_def Let_def)
    have f1: "frame d x x1" by (simp add: frame_def x1_def)
    have f2: "frame d x1 x2" unfolding x2_def by (rule frame_set_ds) (use wfs len in \<open>simp_all add: x1_def\<close>)
    have w1: "level_wf d x1" by (rule frame_wf [OF f1 assms(2)])
    have w2: "level_wf d x2" by (rule frame_wf [OF f2 w1])
    have "ad.live d ?j"
      using ad.primed_live [of j d] assms(3-6) False v(1) by (simp add: o'_def)
    moreover have "view d x2 ?j"
      using assms(1,4) len w1 by (simp add: view_def x2_def x1_def level_wf_def)
    ultimately have "gives d x2 (bi_find_loop d x2) xs" using loop_gives [OF _ _ w2 _ assms(8), of ?j] assms(7) by simp
    then show ?thesis unfolding run by (rule gives_frame [OF frame_trans [OF f1 f2]])
  qed
qed

section \<open>Arming\<close>

definition shown :: "nat \<Rightarrow> adaptive_iter \<Rightarrow> u64 set" where
  "shown d a = set (keys (vec_of a) (ad_level a d))"

definition unprimed :: "nat \<Rightarrow> batch_iter \<Rightarrow> u64 list \<Rightarrow> bool" where
  "unprimed d x xs \<longleftrightarrow> \<not> ds_done (ds_at d x) \<and> \<not> ds_primed (ds_at d x) \<and> \<not> ds_simd (ds_at d x) \<and> bi_contrib x ! d \<noteq> []
     \<and> (\<forall>i\<in>set (bi_contrib x ! d). opened (vec_of (bi_iters x ! i)) (ad_level (bi_iters x ! i) d))
     \<and> listing xs (\<Inter>i\<in>set (bi_contrib x ! d). shown d (bi_iters x ! i))"

lemma common_shown: "ad.common d (map (\<lambda>i. bi_iters x ! i) c) = (\<Inter>i\<in>set c. shown d (bi_iters x ! i))"
  unfolding ad.common_def shown_def by simp

lemma unprimed_view:
  assumes "unprimed d x xs"
  defines "j \<equiv> lf_new (map (\<lambda>i. bi_iters x ! i) (bi_contrib x ! d)) d"
  shows "view d x j" and "listing xs (ad.common d (lf_iters j))" and "\<forall>a\<in>set (lf_iters j). opened (vec_of a) (ad_level a d)"
    and "lf_iters j \<noteq> []"
  using assms by (auto simp: unprimed_def view_def lf_new_def common_shown)

lemma ad_run_keeps:
  assumes "ad_run d a = (r, b)" and "opened (vec_of a) (ad_level a d)"
  shows "opened (vec_of b) (ad_level b d)" "shown d b = shown d a" "\<And>ys. r = Some ys \<Longrightarrow> ys = keys (vec_of a) (ad_level a d)"
  using ad.run_ok [OF assms(2)] ad.run_vals [OF assms(2)] ad.run_run [OF assms(2)] assms(1)
  by (simp_all add: ad_ops_def shown_def)

lemma arm_spec:
  assumes un: "unprimed d x xs" and wf: "level_wf d x" and two: "length (bi_contrib x ! d) = 2"
  defines "y \<equiv> bi_arm d x"
  shows "frame d x y" and "\<forall>i\<in>set (bi_contrib x ! d). opened (vec_of (bi_iters y ! i)) (ad_level (bi_iters y ! i) d)
      \<and> shown d (bi_iters y ! i) = shown d (bi_iters x ! i)"
    and "ds_at d y = ds_at d x \<or> ds_at d y = ds_at d x\<lparr>ds_pos := 0, ds_simd := True\<rparr> \<and> bi_buf y ! d = xs"
proof -
  obtain i0 i1 where c: "bi_contrib x ! d = [i0, i1]" using two by (auto simp: length_Suc_conv numeral_2_eq_2)
  obtain lo hi where lh: "(if i0 < i1 then (i0, i1) else (i1, i0)) = (lo, hi)" by (cases "if i0 < i1 then (i0, i1) else (i1, i0)")
  have i: "lo \<noteq> hi" "lo < length (bi_iters x)" "hi < length (bi_iters x)" "{i0, i1} = {lo, hi}"
    using wf lh by (auto simp: level_wf_def c split: if_splits)
  have mem: "lo \<in> set (bi_contrib x ! d)" "hi \<in> set (bi_contrib x ! d)" using i(4) by (auto simp: c)
  have sc: "set (bi_contrib x ! d) = {lo, hi}" using i(4) by (simp add: c)
  obtain r a where ra: "ad_run d (bi_iters x ! lo) = (r, a)" by (cases "ad_run d (bi_iters x ! lo)")
  obtain s b where sb: "ad_run d (bi_iters x ! hi) = (s, b)" by (cases "ad_run d (bi_iters x ! hi)")
  have op: "opened (vec_of (bi_iters x ! lo)) (ad_level (bi_iters x ! lo) d)"
    "opened (vec_of (bi_iters x ! hi)) (ad_level (bi_iters x ! hi) d)"
    using un mem by (simp_all add: unprimed_def)
  note ka = ad_run_keeps [OF ra op(1)] and kb = ad_run_keeps [OF sb op(2)]
  let ?ready = "ad_ready (bi_iters x ! lo) d \<and> ad_ready (bi_iters x ! hi) d"
  define x1 where "x1 = set_iter lo a x"
  define x2 where "x2 = set_iter hi b x1"
  define x3 where "x3 = set_ds d (ds_at d x\<lparr>ds_pos := 0, ds_simd := True\<rparr>) (x2\<lparr>bi_buf := (bi_buf x)[d := intersect (the r) (the s)]\<rparr>)"
  have same: "ds_at d (x2\<lparr>bi_buf := buf\<rparr>) = ds_at d x" for buf by (simp add: ds_at_def x2_def x1_def)
  have y: "y = (if \<not> ?ready then x else if r = None then x1 else if s = None then x2 else x3)"
  proof -
    have n01: "[i0, i1] ! 0 = i0" "[i0, i1] ! 1 = i1" by simp_all
    have "y = (if \<not> ?ready then x else case (r, a) of (None, a) \<Rightarrow> set_iter lo a x
      | (Some xs, a) \<Rightarrow> (case (s, b) of (None, b) \<Rightarrow> set_iter hi b (set_iter lo a x)
          | (Some ys, b) \<Rightarrow> set_ds d (ds_at d (set_iter hi b (set_iter lo a x))\<lparr>ds_pos := 0, ds_simd := True\<rparr>)
              ((set_iter hi b (set_iter lo a x))\<lparr>bi_buf := (bi_buf (set_iter hi b (set_iter lo a x)))[d := intersect xs ys]\<rparr>)))"
      unfolding y_def bi_arm_def Let_def c n01 lh prod.case ra sb ..
    then show ?thesis by (cases r; cases s) (simp_all add: x1_def x2_def x3_def)
  qed
  have f1: "frame d x x1" unfolding x1_def by (rule frame_set_iter [OF ad_moved_ops(2) [OF ra] mem(1)])
  have f12: "frame d x1 x2" unfolding x2_def
    by (rule frame_set_iter) (use i mem(2) ad_moved_ops(2) [OF sb] in \<open>simp_all add: x1_def\<close>)
  have f2: "frame d x x2" by (rule frame_trans [OF f1 f12])
  have "frame d x2 (x2\<lparr>bi_buf := (bi_buf x)[d := intersect (the r) (the s)]\<rparr>)"
    by (simp add: frame_def x2_def x1_def)
  moreover have "frame d (x2\<lparr>bi_buf := (bi_buf x)[d := intersect (the r) (the s)]\<rparr>) x3"
    unfolding x3_def by (rule frame_set_ds) (use wf in \<open>simp_all add: level_wf_def x2_def x1_def\<close>)
  ultimately have f3: "frame d x x3" using f2 frame_trans by blast
  show "frame d x y" unfolding y using f1 f2 f3 by simp
  have it1: "bi_iters x1 ! lo = a" "bi_iters x1 ! hi = bi_iters x ! hi" using i by (simp_all add: x1_def)
  have it2: "bi_iters x2 ! lo = a" "bi_iters x2 ! hi = b" "bi_iters x3 = bi_iters x2" using i by (simp_all add: x2_def x1_def x3_def)
  show "\<forall>i\<in>set (bi_contrib x ! d). opened (vec_of (bi_iters y ! i)) (ad_level (bi_iters y ! i) d)
      \<and> shown d (bi_iters y ! i) = shown d (bi_iters x ! i)"
    unfolding sc y using it1 it2 ka(1,2) kb(1,2) op by simp
  show "ds_at d y = ds_at d x \<or> ds_at d y = ds_at d x\<lparr>ds_pos := 0, ds_simd := True\<rparr> \<and> bi_buf y ! d = xs"
  proof (cases "?ready \<and> r \<noteq> None \<and> s \<noteq> None")
    case True
    have "listing (intersect (the r) (the s)) (ad.common d [bi_iters x ! lo, bi_iters x ! hi])"
      using True ka(3) kb(3) ad.listing_intersect [OF op] by auto
    also have "ad.common d [bi_iters x ! lo, bi_iters x ! hi] = (\<Inter>i\<in>set (bi_contrib x ! d). shown d (bi_iters x ! i))"
      unfolding sc using common_shown [of d x "[lo, hi]"] by simp
    finally have "intersect (the r) (the s) = xs" using un listing_unique by (auto simp: unprimed_def)
    moreover have "y = x3" unfolding y using True by auto
    ultimately have "bi_buf y ! d = xs" "ds_at d y = ds_at d x\<lparr>ds_pos := 0, ds_simd := True\<rparr>"
      using wf by (simp_all add: x3_def level_wf_def x2_def x1_def)
    then show ?thesis by simp
  next
    case False
    then have "ds_at d y = ds_at d x" unfolding y by (auto simp: x1_def x2_def)
    then show ?thesis by simp
  qed
qed

section \<open>The next value\<close>

definition waiting :: "nat \<Rightarrow> batch_iter \<Rightarrow> u64 list \<Rightarrow> bool" where
  "waiting d x xs \<longleftrightarrow> (\<exists>j. view d x j \<and> ad.pending d j xs)"

lemma unprimed_waiting: "unprimed d x xs \<Longrightarrow> waiting d x xs"
  using unprimed_view [of d x xs] unfolding waiting_def ad.pending_def
  by (intro exI [of _ "lf_new (map (\<lambda>i. bi_iters x ! i) (bi_contrib x ! d)) d"]) (simp add: lf_new_def)

text \<open>Armed state: the whole intersection is in the buffer.\<close>

definition armed :: "nat \<Rightarrow> batch_iter \<Rightarrow> u64 list \<Rightarrow> bool" where
  "armed d x xs \<longleftrightarrow> ds_primed (ds_at d x) \<and> \<not> ds_done (ds_at d x) \<and> ds_simd (ds_at d x) \<and> length (bi_contrib x ! d) = 2
     \<and> (\<forall>i\<in>set (bi_contrib x ! d). opened (vec_of (bi_iters x ! i)) (ad_level (bi_iters x ! i) d))
     \<and> xs = drop (ds_pos (ds_at d x)) (bi_buf x ! d) \<and> sorted_wrt (<) xs
     \<and> set xs \<subseteq> (\<Inter>i\<in>set (bi_contrib x ! d). shown d (bi_iters x ! i))"

lemma armed_gives:
  assumes "armed d x xs" and "level_wf d x"
  shows "gives d x (bi_find d x) xs"
proof -
  let ?j = "\<lparr>lf_iters = map (\<lambda>i. bi_iters x ! i) (bi_contrib x ! d), lf_depth = d, lf_p = 0, lf_order = [], lf_done = False,
     lf_primed = True, lf_buf = bi_buf x ! d, lf_pos = ds_pos (ds_at d x), lf_simd = True\<rparr>"
  show ?thesis
    by (rule view_armed [of d x ?j, OF _ assms(2)]) (use assms(1) in \<open>auto simp: armed_def view_def common_shown\<close>)
qed

lemma next_gives:
  assumes w: "waiting d x xs" and wf: "level_wf d x" and ne: "bi_contrib x ! d \<noteq> []" and max: "- 1 \<notin> set xs"
  shows "gives d x (bi_next d x) xs"
proof -
  obtain j where v: "view d x j" and p: "ad.pending d j xs" using w by (auto simp: waiting_def)
  let ?c = "bi_contrib x ! d" and ?st = "ds_at d x"
  have jv: "lf_depth j = d" "lf_iters j = map (\<lambda>i. bi_iters x ! i) ?c" "lf_done j = ds_done ?st" "lf_primed j = ds_primed ?st"
    "lf_simd j = ds_simd ?st" using v by (simp_all add: view_def)
  note len = level_len [OF wf]
  have wfs: "bi_state x ! d \<noteq> None" using wf by (simp add: level_wf_def)
  from p consider (finished) "lf_done j" "xs = []"
    | (fresh) "\<not> lf_done j" "\<not> lf_primed j" "\<not> lf_simd j" "lf_iters j \<noteq> []" "\<forall>i\<in>set (lf_iters j). opened (vec_of i) (ad_level i d)"
        "listing xs (ad.common d (lf_iters j))"
    | (bulk) "\<not> lf_done j" "lf_primed j" "lf_simd j" "length (lf_iters j) = 2" "\<forall>i\<in>set (lf_iters j). opened (vec_of i) (ad_level i d)"
        "xs = drop (lf_pos j) (lf_buf j)" "sorted_wrt (<) xs" "set xs \<subseteq> ad.common d (lf_iters j)"
    | (matched) u where "ad.live d j" "\<forall>n<length (lf_iters j). ad.key d j n = u" "listing xs (ad.common d (lf_iters j) - {u})" "u \<noteq> - 1"
    unfolding ad.pending_def by blast
  then show ?thesis
  proof cases
    case finished
    then have "bi_next d x = Some (None, mark_done d x)" using jv(3) by (simp add: bi_next_def Let_def)
    then show ?thesis
      unfolding gives_def using finished view_done [OF v wf] frame_mark [OF wf] jv(1)
      by (intro exI [of _ "mark_done d x"] exI) (auto simp: ad.pending_def)
  next
    case fresh
    have un: "unprimed d x xs" using fresh jv ne by (simp add: unprimed_def common_shown)
    define x' where "x' = bi_arm d x"
    define x1 where "x1 = (if length ?c = 2 \<and> \<not> ds_tried ?st then set_ds d (ds_at d x'\<lparr>ds_tried := True\<rparr>) x' else x)"
    have step: "bi_next d x = (if ds_simd (ds_at d x1) then bi_find d (set_ds d (ds_at d x1\<lparr>ds_primed := True\<rparr>) x1) else bi_prime d x1)"
      using fresh jv ne by (simp add: bi_next_def Let_def x1_def x'_def)
    have x1: "frame d x x1 \<and> (unprimed d x1 xs \<or> ds_simd (ds_at d x1) \<and> armed d (set_ds d (ds_at d x1\<lparr>ds_primed := True\<rparr>) x1) xs)"
    proof (cases "length ?c = 2 \<and> \<not> ds_tried ?st")
      case False
      then have "x1 = x" by (auto simp: x1_def)
      then show ?thesis using un by simp
    next
      case True
      note arm = arm_spec [OF un wf, folded x'_def]
      have f: "frame d x x'" using arm(1) True by blast
      have wf': "level_wf d x'" by (rule frame_wf [OF f wf])
      have x1: "x1 = set_ds d (ds_at d x'\<lparr>ds_tried := True\<rparr>) x'" using True by (simp add: x1_def)
      have f1: "frame d x' x1" unfolding x1 by (rule frame_set_ds) (use wf' in \<open>simp_all add: level_wf_def\<close>)
      have c': "bi_contrib x' = bi_contrib x" "bi_contrib x1 = bi_contrib x" using frame_static(3) [OF f] by (simp_all add: x1)
      have it: "bi_iters x1 = bi_iters x'" "bi_buf x1 = bi_buf x'" "ds_at d x1 = ds_at d x'\<lparr>ds_tried := True\<rparr>"
        using level_len [OF wf'] by (simp_all add: x1)
      have same: "(\<Inter>i\<in>set ?c. shown d (bi_iters x' ! i)) = (\<Inter>i\<in>set ?c. shown d (bi_iters x ! i))"
        using arm(2) True by simp
      have op: "\<forall>i\<in>set ?c. opened (vec_of (bi_iters x' ! i)) (ad_level (bi_iters x' ! i) d)" using arm(2) True by blast
      have flags: "\<not> ds_done ?st" "\<not> ds_primed ?st" "\<not> ds_simd ?st" "listing xs (\<Inter>i\<in>set ?c. shown d (bi_iters x ! i))"
        using un by (simp_all add: unprimed_def)
      have "ds_at d x' = ?st \<or> ds_at d x' = ?st\<lparr>ds_pos := 0, ds_simd := True\<rparr> \<and> bi_buf x' ! d = xs" using arm(3) True by blast
      then have "unprimed d x1 xs \<or> ds_simd (ds_at d x1) \<and> armed d (set_ds d (ds_at d x1\<lparr>ds_primed := True\<rparr>) x1) xs"
      proof
        assume "ds_at d x' = ?st"
        then have "unprimed d x1 xs" using flags op ne unfolding unprimed_def it c' same by simp
        then show ?thesis ..
      next
        assume a: "ds_at d x' = ?st\<lparr>ds_pos := 0, ds_simd := True\<rparr> \<and> bi_buf x' ! d = xs"
        have "armed d (set_ds d (ds_at d x1\<lparr>ds_primed := True\<rparr>) x1) xs"
          using flags op True a level_len [OF frame_wf [OF f1 wf']] unfolding armed_def
          by (simp add: it c' same listing_def)
        then show ?thesis using a it(3) by simp
      qed
      then show ?thesis using frame_trans [OF f f1] by simp
    qed
    have wf1: "level_wf d x1" using x1 frame_wf [OF _ wf] by blast
    show ?thesis
    proof (cases "ds_simd (ds_at d x1)")
      case True
      define x2 where "x2 = set_ds d (ds_at d x1\<lparr>ds_primed := True\<rparr>) x1"
      have f2: "frame d x1 x2" unfolding x2_def by (rule frame_set_ds) (use wf1 in \<open>simp_all add: level_wf_def\<close>)
      have "armed d x2 xs" using x1 True by (auto simp: unprimed_def x2_def)
      then have "gives d x2 (bi_find d x2) xs" by (rule armed_gives [OF _ frame_wf [OF f2 wf1]])
      then show ?thesis using step True gives_frame [OF frame_trans [OF conjunct1 [OF x1] f2]] by (simp add: x2_def)
    next
      case False
      then have u1: "unprimed d x1 xs" using x1 by blast
      note uv = unprimed_view [OF u1]
      have "gives d x1 (bi_prime d x1) xs"
        by (rule prime_gives [OF uv(1) wf1 _ _ uv(4,3,2) max]) (simp_all add: lf_new_def)
      then show ?thesis using step False gives_frame [OF conjunct1 [OF x1]] by simp
    qed
  next
    case bulk
    have "bi_next d x = bi_find d x" using bulk(1-3) jv ne by (simp add: bi_next_def Let_def)
    then show ?thesis using view_armed [OF v wf bulk(3) _ bulk(2,1,5-8)] bulk(4) jv(2) by simp
  next
    case matched
    note adv = ad.advance [OF matched] and r = ad.ring_facts [OF matched(1)] and rf = ad.round_facts(1) [OF matched(1)]
    let ?n = "hd (ad.ring j)"
    have k: "length (lf_iters j) = length ?c" using jv(2) by simp
    have n: "?n < length ?c" using rf k by simp
    have fl: "\<not> ds_done ?st" "ds_primed ?st" "\<not> ds_simd ?st" using matched(1) jv by (simp_all add: ad.live_def)
    have so: "lf_p j = ds_p ?st" "bi_sorted x ! d = map (\<lambda>n. ?c ! n) (lf_order j)"
      using v matched(1) by (auto simp: view_def ad.live_def)
    have "lf_p j < length (lf_order j)" using matched(1) ad.live_order [OF matched(1)] by (simp add: ad.live_def)
    then have at: "bi_sorted x ! d ! ds_p ?st = ?c ! ?n" using so r(4) by simp
    have pk: "ad_peek (bi_iters x ! (?c ! ?n)) d = Some u"
      using ad.live_peek [OF matched(1) rf] view_peek [OF v n] matched(2) rf by simp
    define a where "a = ad_seek d (u + 1) (bi_iters x ! (?c ! ?n))"
    have a: "a = tr_seek ad_ops d (u + 1) (lf_iters j ! ?n)" using jv(2) n by (simp add: a_def ad_ops_def)
    define x1 where "x1 = set_iter (?c ! ?n) a x"
    define x2 where "x2 = set_ds d (?st\<lparr>ds_p := (ds_p ?st + 1) mod length ?c\<rparr>) x1"
    have f1: "frame d x x1" unfolding x1_def a_def by (rule frame_set_iter [OF ad_moved_ops(1)]) (use n in simp)
    have w1: "level_wf d x1" by (rule frame_wf [OF f1 wf])
    have v1: "view d x1 (j\<lparr>lf_iters := (lf_iters j)[?n := a]\<rparr>)" unfolding x1_def by (rule view_update [OF v wf n])
    have step: "bi_next d x = (case ad_peek a d of None \<Rightarrow> Some (None, mark_done d x1) | Some _ \<Rightarrow> bi_find d x2)"
      using fl ne unfolding bi_next_def Let_def at pk option.case a_def [symmetric] x1_def [symmetric] x2_def [symmetric] by simp
    note adv' = adv [folded a]
    have pa: "ad_peek a d = (case keys (vec_of a) (ad_level a d) of [] \<Rightarrow> None | v # vs \<Rightarrow> Some v)"
      using ad.peek_vals [OF adv'(1)] by (simp add: ad_ops_def)
    show ?thesis
    proof (cases "keys (vec_of a) (ad_level a d)")
      case Nil
      have "frame d x (mark_done d x1)" by (rule frame_trans [OF f1 frame_mark [OF w1]])
      then show ?thesis
        unfolding gives_def step using Nil pa adv'(2) view_done [OF v1 w1] jv(1)
        by (intro exI [of _ "mark_done d x1"] exI) (auto simp: ad.pending_def)
    next
      case (Cons w ws)
      let ?j = "j\<lparr>lf_iters := (lf_iters j)[?n := a], lf_p := (lf_p j + 1) mod length (lf_iters j)\<rparr>"
      have lj: "ad.live d ?j" "listing xs (ad.common d (lf_iters ?j))" using adv'(3) Cons by simp_all
      have fx2: "frame d x1 x2" unfolding x2_def by (rule frame_set_ds) (use w1 in \<open>auto simp: level_wf_def\<close>)
      have w2: "level_wf d x2" by (rule frame_wf [OF fx2 w1])
      have at1: "ds_at d x1 = ?st" by (simp add: x1_def)
      have "view d x2 ?j" using v1 level_len [OF w1] k so(1) fl jv unfolding view_def x2_def by (simp add: at1)
      then have "gives d x2 (bi_find_loop d x2) xs" by (rule loop_gives [OF lj(1) _ w2 lj(2) max])
      moreover have "bi_next d x = bi_find_loop d x2"
        using step Cons pa fl level_len [OF w1] by (simp add: bi_find_def Let_def x2_def)
      ultimately show ?thesis using gives_frame [OF frame_trans [OF f1 fx2]] by simp
    qed
  qed
qed

section \<open>Keeping a depth waiting\<close>

lemma armed_waiting: "armed d x xs \<Longrightarrow> waiting d x xs"
  unfolding waiting_def ad.pending_def
  by (rule exI [of _ "\<lparr>lf_iters = map (\<lambda>i. bi_iters x ! i) (bi_contrib x ! d), lf_depth = d, lf_p = 0, lf_order = [], lf_done = False,
      lf_primed = True, lf_buf = bi_buf x ! d, lf_pos = ds_pos (ds_at d x), lf_simd = True\<rparr>"])
    (auto simp: armed_def view_def common_shown)

lemma waiting_unprimed:
  assumes "waiting d x xs" and "\<not> ds_done (ds_at d x)" "\<not> ds_primed (ds_at d x)"
  shows "unprimed d x xs"
proof -
  obtain j where "view d x j" "ad.pending d j xs" using assms(1) by (auto simp: waiting_def)
  then show ?thesis using assms(2,3)
    by (auto simp: view_def ad.pending_def ad.live_def unprimed_def common_shown)
qed

lemma waiting_armed:
  assumes "waiting d x xs" and "\<not> ds_done (ds_at d x)" "ds_simd (ds_at d x)"
  shows "armed d x xs"
proof -
  obtain j where "view d x j" "ad.pending d j xs" using assms(1) by (auto simp: waiting_def)
  then show ?thesis using assms(2,3)
    by (auto simp: view_def ad.pending_def ad.live_def armed_def common_shown)
qed

lemma waiting_done:
  assumes "waiting d x []" and "level_wf d x"
  shows "waiting d (mark_done d x) []"
proof -
  obtain j where j: "view d x j" using assms(1) by (auto simp: waiting_def)
  have "ad.pending d (j\<lparr>lf_done := True\<rparr>) []" using j by (simp add: ad.pending_def view_def)
  then show ?thesis using view_done [OF j assms(2)] unfolding waiting_def by blast
qed

text \<open>The state of the depth may change outside the leapfrog's fields, and the iterators below it.\<close>

lemma waiting_same:
  assumes "waiting d x xs" and "bi_contrib y ! d = bi_contrib x ! d" "bi_sorted y ! d = bi_sorted x ! d" "bi_buf y ! d = bi_buf x ! d"
    and "ds_at d y = ds_at d x\<lparr>ds_descended := c, ds_tried := t\<rparr>"
    and same: "\<forall>i\<in>set (bi_contrib x ! d). opened (vec_of (bi_iters y ! i)) (ad_level (bi_iters y ! i) d)
        = opened (vec_of (bi_iters x ! i)) (ad_level (bi_iters x ! i) d)
      \<and> keys (vec_of (bi_iters y ! i)) (ad_level (bi_iters y ! i) d) = keys (vec_of (bi_iters x ! i)) (ad_level (bi_iters x ! i) d)"
  shows "waiting d y xs"
proof -
  obtain j where j: "view d x j" "ad.pending d j xs" using assms(1) by (auto simp: waiting_def)
  let ?its = "map (\<lambda>i. bi_iters y ! i) (bi_contrib y ! d)"
  have "view d y (j\<lparr>lf_iters := ?its\<rparr>)" using j(1) assms(2-5) by (simp add: view_def)
  moreover have "ad.pending d (j\<lparr>lf_iters := ?its\<rparr>) xs"
  proof (rule ad.pending_cong [OF j(2)])
    have v: "lf_iters j = map (\<lambda>i. bi_iters x ! i) (bi_contrib x ! d)" using j(1) by (simp add: view_def)
    show "length ?its = length (lf_iters j)" using v assms(2) by simp
    show "opened (vec_of (?its ! n)) (ad_level (?its ! n) d) = opened (vec_of (lf_iters j ! n)) (ad_level (lf_iters j ! n) d)
        \<and> keys (vec_of (?its ! n)) (ad_level (?its ! n) d) = keys (vec_of (lf_iters j ! n)) (ad_level (lf_iters j ! n) d)"
      if "n < length ?its" for n
      using that same assms(2) by (simp add: v)
  qed
  ultimately show ?thesis by (auto simp: waiting_def)
qed

end
