(* ===== verification/Wcoj_State.thy ===== *)
theory Wcoj_State imports Wcoj_Level begin

text \<open>
  The state of the executor between rounds: what the batch builder holds, which iterators take part at
  which depth and where each cursor stands when some variables are bound.
\<close>

section \<open>What the builder holds\<close>

definition holds :: "nat \<Rightarrow> u64 list list \<Rightarrow> batch_builder \<Rightarrow> bool" where
  "holds n rs b \<longleftrightarrow> bb_cols b = map (\<lambda>c. map (\<lambda>r. r ! c) rs) [0..<n] \<and> (\<forall>r\<in>set rs. length r = n)
     \<and> length rs \<le> standard_vector_size"

lemma holds_new: "holds (length vs) [] (bb_new vs)"
  by (simp add: holds_def bb_new_def map_replicate_const)

lemma batch_rows_cols:
  assumes "0 < n" and "\<forall>r\<in>set rs. length r = n"
  shows "batch_rows (map (\<lambda>c. map (\<lambda>r. r ! c) rs) [0..<n]) = rs"
proof -
  have "hd (map (\<lambda>c. map (\<lambda>r. r ! c) rs) [0..<n]) = map (\<lambda>r. r ! 0) rs" using assms(1) by (simp add: upt_rec)
  then have "batch_rows (map (\<lambda>c. map (\<lambda>r. r ! c) rs) [0..<n]) = map (\<lambda>k. map (\<lambda>c. (rs ! k) ! c) [0..<n]) [0..<length rs]"
    unfolding batch_rows_def by (simp add: comp_def cong: map_cong)
  also have "\<dots> = map (\<lambda>k. rs ! k) [0..<length rs]"
    using assms(2) by (intro map_cong) (auto intro!: nth_equalityI)
  finally show ?thesis by (simp add: map_nth)
qed

lemma finish_holds:
  assumes "0 < n" and "holds n rs b"
  shows "rs = [] \<Longrightarrow> finish_internal b = (None, b)"
    and "rs \<noteq> [] \<Longrightarrow> \<exists>c b'. finish_internal b = (Some c, b') \<and> batch_rows c = rs \<and> holds n [] b'"
proof -
  have c: "bb_cols b = map (\<lambda>c. map (\<lambda>r. r ! c) rs) [0..<n]" "\<forall>r\<in>set rs. length r = n" using assms(2) by (simp_all add: holds_def)
  have ne: "bb_cols b \<noteq> []" and hd: "hd (bb_cols b) = map (\<lambda>r. r ! 0) rs" using c(1) assms(1) by (simp_all add: upt_rec)
  show "rs = [] \<Longrightarrow> finish_internal b = (None, b)" using ne hd by (simp add: finish_internal_def)
  assume "rs \<noteq> []"
  then have "finish_internal b = (Some (bb_cols b), b\<lparr>bb_cols := map (\<lambda>_. []) (bb_cols b)\<rparr>)"
    using ne hd c(1) by (auto simp: finish_internal_def)
  moreover have "batch_rows (bb_cols b) = rs" unfolding c(1) by (rule batch_rows_cols [OF assms(1) c(2)])
  moreover have "holds n [] (b\<lparr>bb_cols := map (\<lambda>_. []) (bb_cols b)\<rparr>)" by (simp add: holds_def c(1) comp_def)
  ultimately show "\<exists>c b'. finish_internal b = (Some c, b') \<and> batch_rows c = rs \<and> holds n [] b'" by blast
qed

lemma push_cols_map: "length r = length cs \<Longrightarrow> push_cols cs r = map (\<lambda>i. cs ! i @ [r ! i]) [0..<length cs]"
proof (induction cs r rule: push_cols.induct)
  case (1 c cs v vs)
  have "map (\<lambda>i. (c # cs) ! i @ [(v # vs) ! i]) [0..<length (c # cs)]
      = (c @ [v]) # map (\<lambda>i. (c # cs) ! Suc i @ [(v # vs) ! Suc i]) [0..<length cs]"
    by (simp add: upt_conv_Cons map_Suc_upt [symmetric] del: upt_Suc)
  then show ?case using 1 by simp
qed simp_all

lemma push_row_holds:
  assumes "0 < n" and "holds n rs b" and "length r = n"
  shows "length rs < standard_vector_size \<Longrightarrow> \<exists>b'. push_row r b = (None, b') \<and> holds n (rs @ [r]) b'"
    and "length rs = standard_vector_size \<Longrightarrow> \<exists>c b'. push_row r b = (Some c, b') \<and> batch_rows c = rs \<and> holds n [r] b'"
proof -
  have c: "bb_cols b = map (\<lambda>c. map (\<lambda>r. r ! c) rs) [0..<n]" "\<forall>r\<in>set rs. length r = n" using assms(2) by (simp_all add: holds_def)
  have ne: "bb_cols b \<noteq> []" and hd: "hd (bb_cols b) = map (\<lambda>r. r ! 0) rs" using c(1) assms(1) by (simp_all add: upt_rec)
  have add: "holds n (qs @ [r]) (d\<lparr>bb_cols := push_cols (bb_cols d) r\<rparr>)"
    if "holds n qs d" "length qs < standard_vector_size" for qs d
  proof -
    have d: "bb_cols d = map (\<lambda>c. map (\<lambda>r. r ! c) qs) [0..<n]" "\<forall>r\<in>set qs. length r = n" using that(1) by (simp_all add: holds_def)
    have "push_cols (bb_cols d) r = map (\<lambda>c. map (\<lambda>r. r ! c) (qs @ [r])) [0..<n]"
      using push_cols_map [of r "bb_cols d"] assms(3) d(1) by simp
    then show ?thesis using d(2) assms(3) that(2) by (simp add: holds_def)
  qed
  show "\<exists>b'. push_row r b = (None, b') \<and> holds n (rs @ [r]) b'" if "length rs < standard_vector_size"
    using add [OF assms(2) that] hd that by (simp add: push_row_def Let_def)
  show "\<exists>c b'. push_row r b = (Some c, b') \<and> batch_rows c = rs \<and> holds n [r] b'" if full: "length rs = standard_vector_size"
  proof -
    have "rs \<noteq> []" using full by (auto simp: standard_vector_size_def)
    then obtain c d where f: "finish_internal b = (Some c, d)" "batch_rows c = rs" "holds n [] d"
      using finish_holds(2) [OF assms(1,2)] by blast
    have "holds n [r] (d\<lparr>bb_cols := push_cols (bb_cols d) r\<rparr>)" using add [OF f(3)] by (simp add: standard_vector_size_def)
    then show ?thesis using f ne hd full by (simp add: push_row_def Let_def)
  qed
qed

lemma resize_cols_map:
  "length p = length cs \<Longrightarrow> resize_cols m cs p = map (\<lambda>i. take m (cs ! i) @ replicate (m - length (cs ! i)) (p ! i)) [0..<length cs]"
proof (induction m cs p rule: resize_cols.induct)
  case (1 m c cs v vs)
  have "map (\<lambda>i. take m ((c # cs) ! i) @ replicate (m - length ((c # cs) ! i)) ((v # vs) ! i)) [0..<length (c # cs)]
      = (take m c @ replicate (m - length c) v)
        # map (\<lambda>i. take m ((c # cs) ! Suc i) @ replicate (m - length ((c # cs) ! Suc i)) ((v # vs) ! Suc i)) [0..<length cs]"
    by (simp add: upt_conv_Cons map_Suc_upt [symmetric] del: upt_Suc)
  then show ?case using 1 by simp
qed simp_all

lemma push_chunk_holds:
  assumes "holds n rs b" and "n = Suc (length p)" and "ls \<noteq> []"
  defines "m \<equiv> min (length ls) (standard_vector_size - length rs)"
  defines "new \<equiv> rs @ map (\<lambda>v. p @ [v]) (take m ls)"
  shows "length new < standard_vector_size \<and> 0 < m \<and> (\<exists>b'. push_run_chunk p ls b = (m, None, b') \<and> holds n new b')
    \<or> length new = standard_vector_size \<and> (\<exists>c b'. push_run_chunk p ls b = (m, Some c, b') \<and> batch_rows c = new \<and> holds n [] b')"
proof -
  let ?k = "length p"
  have c: "bb_cols b = map (\<lambda>c. map (\<lambda>r. r ! c) rs) [0..<n]" "\<forall>r\<in>set rs. length r = n" "length rs \<le> standard_vector_size"
    using assms(1) by (simp_all add: holds_def)
  have cur: "length (bb_cols b ! ?k) = length rs" unfolding c(1) using assms(2) by (simp del: upt_Suc)
  have up: "[0..<n] = [0..<?k] @ [?k]" using assms(2) by simp
  have "resize_cols (length rs + m) (take ?k (bb_cols b)) p = map (\<lambda>c. map (\<lambda>r. r ! c) new) [0..<?k]"
  proof -
    have t: "take ?k (bb_cols b) = map (\<lambda>c. map (\<lambda>r. r ! c) rs) [0..<?k]" unfolding c(1) up by simp
    have "map (\<lambda>r. r ! i) new = map (\<lambda>r. r ! i) rs @ replicate m (p ! i)" if "i < ?k" for i
      using that by (simp add: new_def m_def nth_append comp_def map_replicate_const)
    then show ?thesis unfolding t by (subst resize_cols_map) (auto intro!: map_cong)
  qed
  moreover have "drop ?k (bb_cols b) = [map (\<lambda>r. r ! ?k) rs]" unfolding c(1) up by simp
  moreover have "map (\<lambda>r. r ! ?k) new = map (\<lambda>r. r ! ?k) rs @ take m ls" by (simp add: new_def nth_append comp_def)
  ultimately have cols: "(resize_cols (length rs + m) (take ?k (bb_cols b)) p @ drop ?k (bb_cols b))
      [?k := (resize_cols (length rs + m) (take ?k (bb_cols b)) p @ drop ?k (bb_cols b)) ! ?k @ take m ls]
      = map (\<lambda>c. map (\<lambda>r. r ! c) new) [0..<n]"
    by (simp add: up nth_append list_update_append)
  let ?b = "b\<lparr>bb_cols := map (\<lambda>c. map (\<lambda>r. r ! c) new) [0..<n]\<rparr>"
  have ln: "length new = length rs + m" "length new \<le> standard_vector_size" using c(3) by (simp_all add: new_def m_def)
  have hb: "holds n new ?b" using c(2) assms(2) ln by (auto simp: holds_def new_def)
  have run: "push_run_chunk p ls b = (let (fl, d) = (if length new = standard_vector_size then finish_internal ?b else (None, ?b)) in (m, fl, d))"
    using assms(2,3) cols unfolding push_run_chunk_def Let_def cur m_def [symmetric] by (simp del: upt_Suc)
  show ?thesis
  proof (cases "length new = standard_vector_size")
    case True
    then have "new \<noteq> []" by (auto simp: standard_vector_size_def)
    then obtain cc d where "finish_internal ?b = (Some cc, d)" "batch_rows cc = new" "holds n [] d"
      using finish_holds(2) [OF _ hb] assms(2) by auto
    then show ?thesis using run True by auto
  next
    case False
    then have "0 < m" "length new < standard_vector_size" using ln assms(3) c(3) by (auto simp: m_def)
    then show ?thesis using run False hb by simp
  qed
qed

section \<open>Which iterators take part where\<close>

definition seen :: "triple_pattern \<Rightarrow> var list \<Rightarrow> nat \<Rightarrow> nat" where
  "seen pat vs d = length (filter (\<lambda>v. v \<in> pattern_vars pat) (take d vs))"

text \<open>The trie path of a pattern under the values of the first variables.\<close>

definition path_of :: "triple_pattern \<Rightarrow> var list \<Rightarrow> u64 list \<Rightarrow> u64 list" where
  "path_of pat vs b = constants pat vs @ map snd (filter (\<lambda>(v, x). v \<in> pattern_vars pat) (zip vs b))"

lemma mentions_iff: "mentions pat v \<longleftrightarrow> v \<in> pattern_vars pat"
  by (auto simp: mentions_def position_of_def pattern_vars_def slots_def)

lemma seen_Suc: "d < length vs \<Longrightarrow> seen pat vs (Suc d) = seen pat vs d + (if vs ! d \<in> pattern_vars pat then 1 else 0)"
  by (simp add: seen_def take_Suc_conv_app_nth)

lemma seen_mono: "d \<le> e \<Longrightarrow> seen pat vs d \<le> seen pat vs e"
proof -
  assume "d \<le> e"
  then have "take e vs = take d vs @ take (e - d) (drop d vs)" by (metis le_add_diff_inverse take_add)
  then show ?thesis by (simp add: seen_def)
qed

lemma seen_le: "seen pat vs d \<le> length (vars_of pat vs)"
proof -
  have "vs = take d vs @ drop d vs" by simp
  then have "vars_of pat vs = filter (\<lambda>v. v \<in> pattern_vars pat) (take d vs) @ filter (\<lambda>v. v \<in> pattern_vars pat) (drop d vs)"
    unfolding vars_of_def by (metis filter_append)
  then show ?thesis by (simp add: seen_def)
qed

lemma seen_lt: "d < length vs \<Longrightarrow> vs ! d \<in> pattern_vars pat \<Longrightarrow> seen pat vs d < length (vars_of pat vs)"
  using seen_Suc [of d vs pat] seen_le [of pat vs "Suc d"] by simp

lemma seen_more: "seen pat vs d < length (vars_of pat vs) \<longleftrightarrow> (\<exists>v\<in>set (drop d vs). v \<in> pattern_vars pat)"
proof -
  have "vs = take d vs @ drop d vs" by simp
  then have "vars_of pat vs = filter (\<lambda>v. v \<in> pattern_vars pat) (take d vs) @ filter (\<lambda>v. v \<in> pattern_vars pat) (drop d vs)"
    unfolding vars_of_def by (metis filter_append)
  then show ?thesis by (auto simp: seen_def filter_empty_conv)
qed

lemma length_local_depths: "length (local_depths pat vs l) = length vs"
  by (induction vs arbitrary: l) simp_all

lemma local_depths_nth:
  "d < length vs \<Longrightarrow> local_depths pat vs l ! d = (if vs ! d \<in> pattern_vars pat then Some (l + seen pat vs d) else None)"
proof (induction vs arbitrary: l d)
  case (Cons v vs)
  have m: "position_of pat v \<noteq> None \<longleftrightarrow> v \<in> pattern_vars pat" using mentions_iff [of pat v] by (simp add: mentions_def)
  show ?case
  proof (cases d)
    case 0
    then show ?thesis using m by (simp add: seen_def)
  next
    case (Suc e)
    then show ?thesis using Cons m by (simp add: seen_def)
  qed
qed simp

lemma length_path: "length b \<le> length vs \<Longrightarrow> length (path_of pat vs b) = length (constants pat vs) + seen pat vs (length b)"
proof -
  have "length (filter (\<lambda>(v, x). v \<in> P) (zip vs b)) = length (filter (\<lambda>v. v \<in> P) (take (length b) vs))" for P
  proof (induction vs b rule: list_induct2')
    case (4 v vs x b)
    then show ?case by simp
  qed simp_all
  then show ?thesis by (simp add: path_of_def seen_def)
qed

lemma zip_snoc: "length b < length vs \<Longrightarrow> zip vs (b @ [x]) = zip vs b @ [(vs ! length b, x)]"
proof (induction vs arbitrary: b)
  case (Cons v vs)
  then show ?case by (cases b) auto
qed simp

lemma path_snoc:
  assumes "length b < length vs"
  shows "path_of pat vs (b @ [x]) = path_of pat vs b @ (if vs ! length b \<in> pattern_vars pat then [x] else [])"
  by (simp add: path_of_def zip_snoc [OF assms])

lemma first_mentioned_spec:
  assumes "\<exists>v\<in>set vs. v \<in> pattern_vars pat"
  shows "\<exists>d. first_mentioned pat vs = Some d \<and> d < length vs \<and> vs ! d \<in> pattern_vars pat \<and> seen pat vs d = 0"
  using assms
proof (induction vs)
  case (Cons v vs)
  show ?case
  proof (cases "v \<in> pattern_vars pat")
    case True
    then show ?thesis by (simp add: mentions_iff seen_def)
  next
    case False
    then obtain d where "first_mentioned pat vs = Some d" "d < length vs" "vs ! d \<in> pattern_vars pat" "seen pat vs d = 0"
      using Cons by auto
    then show ?thesis using False by (intro exI [of _ "Suc d"]) (simp add: mentions_iff seen_def)
  qed
qed simp

lemma first_seen:
  assumes "d < length vs" "vs ! d \<in> pattern_vars pat" "seen pat vs d = 0" "e < length vs" "vs ! e \<in> pattern_vars pat"
  shows "d = e \<longleftrightarrow> seen pat vs e = 0" and "d < e \<longleftrightarrow> 0 < seen pat vs e"
proof -
  have "0 < seen pat vs e" if "d < e" using that seen_mono [of "Suc d" e pat vs] seen_Suc [OF assms(1), of pat] assms(2) by simp
  moreover have "0 < seen pat vs d" if "e < d" using that seen_mono [of "Suc e" d pat vs] seen_Suc [OF assms(4), of pat] assms(5) by simp
  ultimately show "d = e \<longleftrightarrow> seen pat vs e = 0" and "d < e \<longleftrightarrow> 0 < seen pat vs e" using assms(3) by (cases d e rule: linorder_cases; auto)+
qed

text \<open>A query the executor can run: every variable is eliminated once and occurs in a pattern.\<close>

definition query :: "triple_pattern list \<Rightarrow> var list \<Rightarrow> bool" where
  "query pats vs \<longleftrightarrow> vs \<noteq> [] \<and> length vs < 256 \<and> (\<forall>pat\<in>set pats. pat_ok pat vs \<and> \<not> is_ground pat)
     \<and> (\<forall>v\<in>set vs. \<exists>pat\<in>set pats. v \<in> pattern_vars pat)"

lemma ground_vars: "is_ground pat \<longleftrightarrow> pattern_vars pat = {}"
  by (cases "pat_s pat"; cases "pat_p pat"; cases "pat_o pat") (auto simp: is_ground_def pattern_vars_def slots_def)

lemma query_pat:
  assumes "query pats vs" and "i < length pats"
  shows "pat_ok (pats ! i) vs" and "\<exists>v\<in>set vs. v \<in> pattern_vars (pats ! i)" and "vars_of (pats ! i) vs \<noteq> []"
proof -
  have p: "pat_ok (pats ! i) vs" "\<not> is_ground (pats ! i)" using assms by (auto simp: query_def)
  then show "pat_ok (pats ! i) vs" by simp
  show "\<exists>v\<in>set vs. v \<in> pattern_vars (pats ! i)" using p by (auto simp: ground_vars pat_ok_def)
  then show "vars_of (pats ! i) vs \<noteq> []" by (auto simp: vars_of_def filter_empty_conv)
qed

lemma top_depths_spec:
  assumes "\<forall>pat\<in>set pats. \<exists>v\<in>set vs. v \<in> pattern_vars pat"
  shows "\<exists>tops. top_depths pats vs = Some tops \<and> length tops = length pats \<and>
    (\<forall>i<length pats. tops ! i < length vs \<and> vs ! (tops ! i) \<in> pattern_vars (pats ! i) \<and> seen (pats ! i) vs (tops ! i) = 0)"
  using assms
proof (induction pats)
  case (Cons pat pats)
  obtain tops where t: "top_depths pats vs = Some tops" "length tops = length pats"
    "\<forall>i<length pats. tops ! i < length vs \<and> vs ! (tops ! i) \<in> pattern_vars (pats ! i) \<and> seen (pats ! i) vs (tops ! i) = 0"
    using Cons by auto
  obtain d where d: "first_mentioned pat vs = Some d" "d < length vs" "vs ! d \<in> pattern_vars pat" "seen pat vs d = 0"
    using first_mentioned_spec [of vs pat] Cons.prems by auto
  have "\<forall>i<length (pat # pats). (d # tops) ! i < length vs \<and> vs ! ((d # tops) ! i) \<in> pattern_vars ((pat # pats) ! i)
      \<and> seen ((pat # pats) ! i) vs ((d # tops) ! i) = 0"
    using t(3) d by (auto simp: nth_Cons split: nat.split)
  then show ?case using t d by simp
qed simp

definition tops_of :: "triple_pattern list \<Rightarrow> var list \<Rightarrow> nat list" where
  "tops_of pats vs = the (top_depths pats vs)"

lemma tops_of_spec:
  assumes "query pats vs"
  shows "top_depths pats vs = Some (tops_of pats vs)" and "length (tops_of pats vs) = length pats"
    and "i < length pats \<Longrightarrow> tops_of pats vs ! i < length vs \<and> vs ! (tops_of pats vs ! i) \<in> pattern_vars (pats ! i)
      \<and> seen (pats ! i) vs (tops_of pats vs ! i) = 0"
proof -
  have "\<forall>pat\<in>set pats. \<exists>v\<in>set vs. v \<in> pattern_vars pat" using query_pat(2) [OF assms] by (metis in_set_conv_nth)
  then obtain tops where "top_depths pats vs = Some tops" "length tops = length pats"
    "\<forall>i<length pats. tops ! i < length vs \<and> vs ! (tops ! i) \<in> pattern_vars (pats ! i) \<and> seen (pats ! i) vs (tops ! i) = 0"
    using top_depths_spec by blast
  then show "top_depths pats vs = Some (tops_of pats vs)" and "length (tops_of pats vs) = length pats"
    and "i < length pats \<Longrightarrow> tops_of pats vs ! i < length vs \<and> vs ! (tops_of pats vs ! i) \<in> pattern_vars (pats ! i)
      \<and> seen (pats ! i) vs (tops_of pats vs ! i) = 0"
    by (simp_all add: tops_of_def)
qed

definition takes_part :: "triple_pattern list \<Rightarrow> var list \<Rightarrow> nat \<Rightarrow> nat \<Rightarrow> bool" where
  "takes_part pats vs d i \<longleftrightarrow> i < length pats \<and> vs ! d \<in> pattern_vars (pats ! i)"

lemma schedule:
  assumes "query pats vs" and d: "d < length vs"
  shows "distinct (contributing pats vs ! d)" and "i \<in> set (contributing pats vs ! d) \<longleftrightarrow> takes_part pats vs d i"
    and "distinct (descend_at pats vs ! d)"
    and "i \<in> set (descend_at pats vs ! d) \<longleftrightarrow> takes_part pats vs d i \<and> Suc (seen (pats ! i) vs d) < length (vars_of (pats ! i) vs)"
    and "distinct (top_at (tops_of pats vs) vs ! d)"
    and "i \<in> set (top_at (tops_of pats vs) vs ! d) \<longleftrightarrow> takes_part pats vs d i \<and> seen (pats ! i) vs d = 0"
    and "distinct (carry_at pats (tops_of pats vs) vs ! d)"
    and "i \<in> set (carry_at pats (tops_of pats vs) vs ! d) \<longleftrightarrow> takes_part pats vs d i \<and> 0 < seen (pats ! i) vs d"
proof -
  have c: "contributing pats vs ! d = filter (\<lambda>i. mentions (pats ! i) (vs ! d)) [0..<length pats]"
    using d by (simp add: contributing_def)
  show "distinct (contributing pats vs ! d)" and ci: "i \<in> set (contributing pats vs ! d) \<longleftrightarrow> takes_part pats vs d i" for i
    unfolding c takes_part_def by (auto simp: mentions_iff)
  then show "distinct (descend_at pats vs ! d)" using d by (simp add: descend_at_def)
  show "i \<in> set (descend_at pats vs ! d) \<longleftrightarrow> takes_part pats vs d i \<and> Suc (seen (pats ! i) vs d) < length (vars_of (pats ! i) vs)"
  proof -
    have m: "i \<in> set (descend_at pats vs ! d) \<longleftrightarrow> takes_part pats vs d i \<and> seen (pats ! i) vs (Suc d) < length (vars_of (pats ! i) vs)"
      using d unfolding seen_more by (simp add: descend_at_def mentions_iff ci)
    have "seen (pats ! i) vs (Suc d) = Suc (seen (pats ! i) vs d)" if "takes_part pats vs d i"
      using that seen_Suc [OF d, of "pats ! i"] by (simp add: takes_part_def)
    then show ?thesis unfolding m by auto
  qed
  show "distinct (top_at (tops_of pats vs) vs ! d)" using d by (simp add: top_at_def)
  show "i \<in> set (top_at (tops_of pats vs) vs ! d) \<longleftrightarrow> takes_part pats vs d i \<and> seen (pats ! i) vs d = 0"
  proof -
    have m: "i \<in> set (top_at (tops_of pats vs) vs ! d) \<longleftrightarrow> i < length pats \<and> tops_of pats vs ! i = d"
      using d tops_of_spec(2) [OF assms(1)] by (simp add: top_at_def)
    show ?thesis
    proof (cases "i < length pats")
      case True
      note t = tops_of_spec(3) [OF assms(1) True]
      show ?thesis
      proof (cases "vs ! d \<in> pattern_vars (pats ! i)")
        case part: True
        have e: "tops_of pats vs ! i = d \<longleftrightarrow> seen (pats ! i) vs d = 0" by (rule first_seen(1)) (use t part d in auto)
        show ?thesis unfolding m takes_part_def e using True part by simp
      next
        case False
        then have "tops_of pats vs ! i \<noteq> d" using t by auto
        then show ?thesis unfolding m takes_part_def using False by simp
      qed
    qed (simp add: m takes_part_def)
  qed
  show "distinct (carry_at pats (tops_of pats vs) vs ! d)"
    using d \<open>distinct (contributing pats vs ! d)\<close> by (simp add: carry_at_def)
  show "i \<in> set (carry_at pats (tops_of pats vs) vs ! d) \<longleftrightarrow> takes_part pats vs d i \<and> 0 < seen (pats ! i) vs d"
  proof -
    have m: "i \<in> set (carry_at pats (tops_of pats vs) vs ! d) \<longleftrightarrow> takes_part pats vs d i \<and> tops_of pats vs ! i < d"
      using d ci by (simp add: carry_at_def)
    have "tops_of pats vs ! i < d \<longleftrightarrow> 0 < seen (pats ! i) vs d" if "takes_part pats vs d i"
      using that tops_of_spec(3) [OF assms(1), of i] first_seen(2) [of "tops_of pats vs ! i" vs "pats ! i" d] d
      unfolding takes_part_def by blast
    then show ?thesis unfolding m by blast
  qed
qed

end
