(* ===== verification/Wcoj_Run.thy ===== *)
theory Wcoj_Run imports Wcoj_State begin

text \<open>
  The depth-first run of the leapfrog triejoin: where the cursors stand when a depth is entered, while
  it is drained and when it is left, and the rows a drained depth has written.
\<close>

section \<open>Updating several iterators\<close>

definition upd :: "nat list \<Rightarrow> (nat \<Rightarrow> adaptive_iter) \<Rightarrow> batch_iter \<Rightarrow> batch_iter" where
  "upd is g x = x\<lparr>bi_iters := map (\<lambda>i. if i \<in> set is then g i else bi_iters x ! i) [0..<length (bi_iters x)]\<rparr>"

lemma upd_nth: "i < length (bi_iters x) \<Longrightarrow> bi_iters (upd is g x) ! i = (if i \<in> set is then g i else bi_iters x ! i)"
  by (simp add: upd_def)

lemma upd_simps [simp]:
  "length (bi_iters (upd is g x)) = length (bi_iters x)" "bi_vars (upd is g x) = bi_vars x" "bi_builder (upd is g x) = bi_builder x"
  "bi_contrib (upd is g x) = bi_contrib x" "bi_descend (upd is g x) = bi_descend x" "bi_top (upd is g x) = bi_top x"
  "bi_carry (upd is g x) = bi_carry x" "bi_state (upd is g x) = bi_state x" "bi_sorted (upd is g x) = bi_sorted x"
  "bi_buf (upd is g x) = bi_buf x" "bi_binding (upd is g x) = bi_binding x" "bi_depth (upd is g x) = bi_depth x"
  "bi_finished (upd is g x) = bi_finished x" "ds_at d (upd is g x) = ds_at d x"
  by (simp_all add: upd_def ds_at_def)

lemma each_iter_upd:
  assumes "distinct is" and "\<forall>i\<in>set is. i < length (bi_iters x) \<and> f (bi_iters x ! i) = Some (g i)"
  shows "each_iter f is x = Some (upd is g x)"
  using assms
proof (induction "is" arbitrary: x)
  case Nil
  then show ?case by (simp add: upd_def map_nth)
next
  case (Cons i js)
  let ?x = "set_iter i (g i) x"
  have "\<forall>k\<in>set js. k < length (bi_iters ?x) \<and> f (bi_iters ?x ! k) = Some (g k)" using Cons.prems by (auto simp: nth_list_update)
  then have "each_iter f js ?x = Some (upd js g ?x)" using Cons.IH Cons.prems(1) by simp
  moreover have "upd js g ?x = upd (i # js) g x"
  proof -
    have "map (\<lambda>k. if k \<in> set js then g k else (bi_iters x)[i := g i] ! k) [0..<length (bi_iters x)]
        = map (\<lambda>k. if k \<in> set (i # js) then g k else bi_iters x ! k) [0..<length (bi_iters x)]"
      by (rule map_cong) (auto simp: nth_list_update)
    then show ?thesis by (simp add: upd_def set_iter_def)
  qed
  ultimately show ?case using Cons.prems by simp
qed

lemma each_iter_fold:
  "each_iter (\<lambda>a. Some (h a)) is x = Some (fold (\<lambda>i y. set_iter i (h (bi_iters y ! i)) y) is x)"
  by (induction "is" arbitrary: x) simp_all

section \<open>Where a cursor stands\<close>

definition ad_at :: "triple_pattern \<Rightarrow> var list \<Rightarrow> vec_iter \<Rightarrow> adaptive_iter" where
  "ad_at pat vs it = \<lparr>ad_inner = pt_at pat vs it, ad_local = local_depths pat vs 0\<rparr>"

definition seated :: "vec_iter \<Rightarrow> row set \<Rightarrow> u64 list \<Rightarrow> bool" where
  "seated it S ks \<longleftrightarrow> on_path it S (take 2 ks) \<and> (length ks = 3 \<longrightarrow> peek it 2 = Some (ks ! 2))"

definition working :: "vec_iter \<Rightarrow> row set \<Rightarrow> u64 list \<Rightarrow> u64 list \<Rightarrow> bool" where
  "working it S bs ks \<longleftrightarrow> opened it (length ks) \<and> on_path it S [] \<and> set (whole it (length ks)) = children S ks
     \<and> (length bs < length ks \<or> children S ks \<noteq> {} \<longrightarrow> on_path it S ks)"

lemma ad_at_simps [simp]:
  "vec_of (ad_at pat vs it) = it" "ad_put it' (ad_at pat vs it) = ad_at pat vs it'" "ad_local (ad_at pat vs it) = local_depths pat vs 0"
  "ad_inner (ad_at pat vs it) = pt_at pat vs it" "(ad_at pat vs it)\<lparr>ad_inner := pt_at pat vs it'\<rparr> = ad_at pat vs it'"
  by (simp_all add: ad_at_def vec_of_def ad_put_def pt_at_def Let_def)

lemma local_for_at: "d < length vs \<Longrightarrow> vs ! d \<in> pattern_vars pat \<Longrightarrow> local_for (ad_at pat vs it) d = seen pat vs d"
  by (simp add: local_for_def local_depths_nth)

lemma ad_level_at: "d < length vs \<Longrightarrow> vs ! d \<in> pattern_vars pat \<Longrightarrow>
    ad_level (ad_at pat vs it) d = length (constants pat vs) + seen pat vs d"
  using seen_lt [of d vs pat] phys_for_at [of "seen pat vs d" pat vs it] by (simp add: ad_level_def local_for_at)

lemma level_path: "length b < length vs \<Longrightarrow> vs ! length b \<in> pattern_vars pat \<Longrightarrow>
    ad_level (ad_at pat vs it) (length b) = length (path_of pat vs b)"
  by (simp add: ad_level_at length_path)

lemma path_bound: "pat_ok pat vs \<Longrightarrow> length b \<le> length vs \<Longrightarrow> length (path_of pat vs b) \<le> 3"
  using three_levels [of pat vs] seen_le [of pat vs "length b"] by (simp add: length_path)

lemma path_part: "pat_ok pat vs \<Longrightarrow> length b < length vs \<Longrightarrow> vs ! length b \<in> pattern_vars pat \<Longrightarrow> length (path_of pat vs b) \<le> 2"
  using three_levels [of pat vs] seen_lt [of "length b" vs pat] by (simp add: length_path)

lemma parked_working: "parked it S bs \<Longrightarrow> working it S bs bs"
  by (auto simp: parked_def working_def)

lemma seated_working:
  "seated it S ks \<Longrightarrow> length ks \<le> 2 \<Longrightarrow> working it S bs ks"
  using on_path_keys(1) path_root path_whole by (auto simp: seated_def working_def)

lemma working_moved:
  assumes "working it S bs ks" and "agree (length ks) it it'" and "it_range it' = it_range it" and "opened it' (length ks)"
  shows "working it' S bs ks"
proof -
  have "on_path it' S ks" if "on_path it S ks" using moved_path [OF assms(2) that _ assms(4)] assms(3) by simp
  moreover have "on_path it' S []"
  proof (cases "ks = []")
    case True
    then show ?thesis using calculation assms(1) by (simp add: working_def)
  next
    case False
    then show ?thesis using agree_path [OF assms(2), of S "[]"] assms(1) by (simp add: working_def)
  qed
  moreover have "whole it' (length ks) = whole it (length ks)"
    using assms(2,3) by (simp add: whole_def agree_def)
  ultimately show ?thesis using assms(1,4) by (auto simp: working_def)
qed

lemma working_agree:
  assumes "working it S bs ks" and "agree (Suc (length ks)) it it'"
  shows "working it' S bs ks"
  using assms(1) agree_level(1,5) [OF assms(2), of "length ks"] agree_path [OF assms(2), of S ks] agree_path [OF assms(2), of S "[]"]
  by (auto simp: working_def)

text \<open>Standing on a value, a cursor can be opened below it.\<close>

lemma working_on:
  assumes "working it S bs ks" and "peek it (length ks) = Some v"
  shows "on_path it S ks" and "v \<in> children S ks"
proof -
  have o: "opened it (length ks)" "set (whole it (length ks)) = children S ks" using assms(1) by (simp_all add: working_def)
  have "v \<in> set (ahead it (length ks))" using assms(2) peek_hd [OF o(1)] by (auto simp: keys_def split: list.splits dest: arg_cong [of _ _ set])
  then show v: "v \<in> children S ks" using whole_split [OF o(1)] o(2) set_drop_subset by (metis subsetD)
  then show "on_path it S ks" using assms(1) by (auto simp: working_def)
qed

section \<open>States of the run\<close>

definition entered :: "row set \<Rightarrow> triple_pattern \<Rightarrow> var list \<Rightarrow> u64 list \<Rightarrow> adaptive_iter \<Rightarrow> bool" where
  "entered T pat vs b a \<longleftrightarrow> a = ad_at pat vs (vec_of a) \<and>
     (if seen pat vs (length b) = 0 then parked (vec_of a) (trie_set T pat vs) (constants pat vs)
      else seated (vec_of a) (trie_set T pat vs) (path_of pat vs b))"

definition active :: "row set \<Rightarrow> triple_pattern \<Rightarrow> var list \<Rightarrow> u64 list \<Rightarrow> adaptive_iter \<Rightarrow> bool" where
  "active T pat vs b a \<longleftrightarrow>
     (if vs ! length b \<in> pattern_vars pat
      then a = ad_at pat vs (vec_of a) \<and> working (vec_of a) (trie_set T pat vs) (constants pat vs) (path_of pat vs b)
      else entered T pat vs b a)"

definition base :: "triple_pattern list \<Rightarrow> var list \<Rightarrow> batch_iter \<Rightarrow> bool" where
  "base pats vs x \<longleftrightarrow> bi_vars x = vs \<and> bi_contrib x = contributing pats vs \<and> bi_descend x = descend_at pats vs
     \<and> bi_top x = top_at (tops_of pats vs) vs \<and> bi_carry x = carry_at pats (tops_of pats vs) vs
     \<and> length (bi_iters x) = length pats \<and> length (bi_state x) = length vs \<and> length (bi_sorted x) = length vs
     \<and> length (bi_buf x) = length vs \<and> length (bi_binding x) = length vs \<and> \<not> bi_finished x"

definition at_depth :: "triple_pattern list \<Rightarrow> var list \<Rightarrow> u64 list \<Rightarrow> batch_iter \<Rightarrow> bool" where
  "at_depth pats vs b x \<longleftrightarrow> base pats vs x \<and> bi_depth x = length b \<and> length b < length vs \<and> take (length b) (bi_binding x) = b
     \<and> (\<forall>e. length b < e \<and> e < length vs \<longrightarrow> bi_state x ! e = None)"

definition Entered :: "row set \<Rightarrow> triple_pattern list \<Rightarrow> var list \<Rightarrow> u64 list \<Rightarrow> batch_iter \<Rightarrow> bool" where
  "Entered T pats vs b x \<longleftrightarrow> at_depth pats vs b x \<and> bi_state x ! length b = None
     \<and> (\<forall>i<length pats. entered T (pats ! i) vs b (bi_iters x ! i))"

definition Active :: "row set \<Rightarrow> triple_pattern list \<Rightarrow> var list \<Rightarrow> u64 list \<Rightarrow> batch_iter \<Rightarrow> u64 list \<Rightarrow> bool" where
  "Active T pats vs b x xs \<longleftrightarrow> at_depth pats vs b x \<and> bi_state x ! length b \<noteq> None \<and> waiting (length b) x xs \<and> - 1 \<notin> set xs
     \<and> (\<forall>i<length pats. active T (pats ! i) vs b (bi_iters x ! i))"

text \<open>The values of the next variable that agree with every pattern it occurs in.\<close>

definition candidates :: "row set \<Rightarrow> triple_pattern list \<Rightarrow> var list \<Rightarrow> u64 list \<Rightarrow> u64 set" where
  "candidates T pats vs b = (\<Inter>i\<in>set (contributing pats vs ! length b).
     children (trie_set T (pats ! i) vs) (path_of (pats ! i) vs b))"

text \<open>What a run below a depth leaves as it is.\<close>

definition kept :: "triple_pattern list \<Rightarrow> var list \<Rightarrow> u64 list \<Rightarrow> batch_iter \<Rightarrow> batch_iter \<Rightarrow> bool" where
  "kept pats vs b x y \<longleftrightarrow>
     (\<forall>e<length b. bi_state y ! e = bi_state x ! e \<and> bi_sorted y ! e = bi_sorted x ! e \<and> bi_buf y ! e = bi_buf x ! e)
     \<and> (\<forall>i<length pats. 0 < seen (pats ! i) vs (length b) \<longrightarrow>
          agree (length (path_of (pats ! i) vs b)) (vec_of (bi_iters x ! i)) (vec_of (bi_iters y ! i)))"

lemma kept_refl [simp]: "kept pats vs b x x"
  by (simp add: kept_def)

lemma kept_trans:
  assumes "kept pats vs b x y" and "kept pats vs b y z"
  shows "kept pats vs b x z"
proof -
  have "agree (length (path_of (pats ! i) vs b)) (vec_of (bi_iters x ! i)) (vec_of (bi_iters z ! i))"
    if "i < length pats" "0 < seen (pats ! i) vs (length b)" for i
    by (rule agree_trans [of _ _ "vec_of (bi_iters y ! i)"]) (use assms that in \<open>simp_all add: kept_def\<close>)
  then show ?thesis using assms by (simp add: kept_def)
qed

lemma contributing_ne:
  assumes "query pats vs" and "d < length vs"
  shows "contributing pats vs ! d \<noteq> []"
proof -
  obtain pat where "pat \<in> set pats" "vs ! d \<in> pattern_vars pat"
    using assms nth_mem [OF assms(2)] unfolding query_def by blast
  then obtain i where "i < length pats" "vs ! d \<in> pattern_vars (pats ! i)" by (metis in_set_conv_nth)
  then have "i \<in> set (contributing pats vs ! d)" using schedule(2) [OF assms] by (simp add: takes_part_def)
  then show ?thesis by auto
qed

lemma depth_wf:
  assumes "query pats vs" and "at_depth pats vs b x" and "bi_state x ! length b \<noteq> None"
  shows "level_wf (length b) x"
  using assms schedule(1,2) [OF assms(1), of "length b"]
  by (auto simp: level_wf_def at_depth_def base_def takes_part_def)

lemma frame_depth:
  assumes "at_depth pats vs b x" and "frame (length b) x y"
  shows "at_depth pats vs b y"
proof -
  have "same_but (length b) (bi_state x) (bi_state y)" "same_but (length b) (bi_sorted x) (bi_sorted y)"
    "same_but (length b) (bi_buf x) (bi_buf y)" using assms(2) by (simp_all add: frame_def)
  then show ?thesis using assms(1) unfolding at_depth_def base_def frame_static [OF assms(2)] by (simp add: same_but_def)
qed

lemma active_frame:
  assumes q: "query pats vs" and A: "Active T pats vs b x xs" and f: "frame (length b) x y"
    and "waiting (length b) y ys" and "- 1 \<notin> set ys"
  shows "Active T pats vs b y ys" and "kept pats vs b x y"
proof -
  have ad: "at_depth pats vs b x" and st: "bi_state x ! length b \<noteq> None" using A by (simp_all add: Active_def)
  have d: "length b < length vs" and c: "bi_contrib x = contributing pats vs" and len: "length (bi_iters x) = length pats"
    using ad by (simp_all add: at_depth_def base_def)
  have each: "active T (pats ! i) vs b (bi_iters y ! i)
      \<and> agree (length (path_of (pats ! i) vs b)) (vec_of (bi_iters x ! i)) (vec_of (bi_iters y ! i))" if i: "i < length pats" for i
  proof (cases "takes_part pats vs (length b) i")
    case False
    then have "bi_iters y ! i = bi_iters x ! i"
      using f i len c schedule(2) [OF q d] by (simp add: frame_def)
    then show ?thesis using A i by (simp add: Active_def)
  next
    case True
    then have m: "ad_moved (length b) (bi_iters x ! i) (bi_iters y ! i)"
      using f i len c schedule(2) [OF q d] by (simp add: frame_def)
    have part: "vs ! length b \<in> pattern_vars (pats ! i)" using True by (simp add: takes_part_def)
    let ?p = "path_of (pats ! i) vs b" and ?it = "vec_of (bi_iters x ! i)" and ?it' = "vec_of (bi_iters y ! i)"
    have a: "bi_iters x ! i = ad_at (pats ! i) vs ?it" "working ?it (trie_set T (pats ! i) vs) (constants (pats ! i) vs) ?p"
      using A i part by (simp_all add: Active_def active_def)
    have L: "ad_level (bi_iters x ! i) (length b) = length ?p"
      by (subst a(1)) (rule level_path [OF d part])
    have m': "bi_iters y ! i = ad_put ?it' (bi_iters x ! i)" "agree (length ?p) ?it ?it'" "it_range ?it' = it_range ?it"
      "opened ?it (length ?p) \<longrightarrow> opened ?it' (length ?p)" using m by (simp_all add: ad_moved_def L)
    have "bi_iters y ! i = ad_at (pats ! i) vs ?it'" by (subst m'(1), subst a(1)) simp
    moreover have "working ?it' (trie_set T (pats ! i) vs) (constants (pats ! i) vs) ?p"
      by (rule working_moved [OF a(2) m'(2,3)]) (use m'(4) a(2) in \<open>simp add: working_def\<close>)
    ultimately show ?thesis using m'(2) part by (simp add: active_def)
  qed
  have "bi_state y ! length b \<noteq> None" using f st by (simp add: frame_def)
  then show "Active T pats vs b y ys" using frame_depth [OF ad f] each assms(4,5) by (simp add: Active_def)
  show "kept pats vs b x y" using f each by (auto simp: kept_def frame_def same_but_def)
qed

definition no_max :: "row set \<Rightarrow> bool" where
  "no_max T \<longleftrightarrow> (\<forall>(s, p, ob)\<in>T. s \<noteq> - 1 \<and> p \<noteq> - 1 \<and> ob \<noteq> - 1)"

lemma children_no_max:
  assumes "no_max T" and "length ks \<le> 2" and "v \<in> children (trie_set T pat vs) ks"
  shows "v \<noteq> - 1"
proof -
  obtain s p ob where t: "(s, p, ob) \<in> T" "v = comps (by_ordering (s, p, ob) (ordering_for pat vs)) ! length ks"
    using assms(3) by (auto simp: children_def trie_set_def)
  have "set (comps (by_ordering (s, p, ob) ord)) = {s, p, ob}" for ord by (cases ord) (auto simp: comps_def by_ordering_def)
  moreover have "length (comps r) = 3" for r by (rule comps_eq(1))
  ultimately have "v \<in> {s, p, ob}" using t(2) assms(2) nth_mem [of "length ks" "comps (by_ordering (s, p, ob) (ordering_for pat vs))"] by simp
  then show ?thesis using assms(1) t(1) by (auto simp: no_max_def)
qed

section \<open>Entering a depth\<close>

lemma path_constants: "length b \<le> length vs \<Longrightarrow> seen pat vs (length b) = 0 \<Longrightarrow> path_of pat vs b = constants pat vs"
  using length_path [of b vs pat] by (simp add: path_of_def)

lemma refresh_at:
  assumes "d < length vs" and "vs ! d \<in> pattern_vars pat" and "0 < seen pat vs d"
  shows "refresh_for d (ad_at pat vs it) = ad_at pat vs (rewind (length (constants pat vs) + seen pat vs d) it)"
  using assms local_for_at [OF assms(1,2), of it] phys_for_at [OF seen_lt [OF assms(1,2)], of it]
  by (simp add: refresh_for_def Let_def rewind_local_def) (simp add: ad_at_def pt_at_def Let_def)

lemma refreshed:
  assumes ok: "pat_ok pat vs" and d: "length b < length vs" and part: "vs ! length b \<in> pattern_vars pat" and e: "entered T pat vs b a"
  defines "a' \<equiv> (if 0 < seen pat vs (length b) then refresh_for (length b) a else a)"
  shows "a' = ad_at pat vs (vec_of a')" and "working (vec_of a') (trie_set T pat vs) (constants pat vs) (path_of pat vs b)"
    and "opened (vec_of a') (ad_level a' (length b))" and "shown (length b) a' = children (trie_set T pat vs) (path_of pat vs b)"
    and "finite (children (trie_set T pat vs) (path_of pat vs b))"
    and "0 < seen pat vs (length b) \<Longrightarrow> agree (length (path_of pat vs b)) (vec_of a) (vec_of a')"
proof -
  let ?p = "path_of pat vs b" and ?S = "trie_set T pat vs" and ?it = "vec_of a'"
  have a: "a = ad_at pat vs (vec_of a)" using e by (simp add: entered_def)
  have len: "length ?p \<le> 2" by (rule path_part [OF ok d part])
  have lp: "length ?p = length (constants pat vs) + seen pat vs (length b)" using length_path [of b vs pat] d by simp
  have "a' = ad_at pat vs ?it \<and> working ?it ?S (constants pat vs) ?p \<and> keys ?it (length ?p) = sorted_list_of_set (children ?S ?p)
      \<and> finite (children ?S ?p) \<and> (0 < seen pat vs (length b) \<longrightarrow> agree (length ?p) (vec_of a) ?it)"
  proof (cases "seen pat vs (length b) = 0")
    case True
    then have p: "?p = constants pat vs" using path_constants [of b vs pat] d by simp
    have "parked (vec_of a) ?S ?p" using e True by (simp add: entered_def p)
    then show ?thesis using True a parked_working path_finite by (auto simp: a'_def p parked_def)
  next
    case False
    then have "seated (vec_of a) ?S ?p" using e by (simp add: entered_def)
    then have on: "on_path (vec_of a) ?S ?p" using len by (simp add: seated_def)
    have "a' = ad_at pat vs (rewind (length ?p) (vec_of a))"
      unfolding a'_def lp using False refresh_at [OF d part, of "vec_of a"] a by simp
    moreover from this have "?it = rewind (length ?p) (vec_of a)" by simp
    ultimately show ?thesis
      using rewind_path [OF on] agree_ops(3) [of "length ?p" "vec_of a"] on_path_keys(1) [OF rewind_path(1) [OF on]]
        path_root path_finite [OF on] path_whole [OF rewind_path(1) [OF on]] by (auto simp: working_def)
  qed
  then have r: "a' = ad_at pat vs ?it" "working ?it ?S (constants pat vs) ?p" "keys ?it (length ?p) = sorted_list_of_set (children ?S ?p)"
    "finite (children ?S ?p)" "0 < seen pat vs (length b) \<longrightarrow> agree (length ?p) (vec_of a) ?it" by blast+
  show "a' = ad_at pat vs ?it" and "working ?it ?S (constants pat vs) ?p" and "finite (children ?S ?p)"
    and "0 < seen pat vs (length b) \<Longrightarrow> agree (length ?p) (vec_of a) ?it" using r by blast+
  have L: "ad_level a' (length b) = length ?p" by (subst r(1)) (rule level_path [OF d part])
  show "opened ?it (ad_level a' (length b))" unfolding L using r(2) by (simp add: working_def)
  show "shown (length b) a' = children ?S ?p" using r(3,4) by (simp add: shown_def L)
qed

lemma prepare_active:
  assumes q: "query pats vs" and mx: "no_max T" and E: "Entered T pats vs b x"
  defines "y \<equiv> bi_prepare x"
  shows "Active T pats vs b y (sorted_list_of_set (candidates T pats vs b))" and "kept pats vs b x y"
    and "bi_builder y = bi_builder x" and "bi_prepare y = y" and "\<And>k. bi_prepare (x\<lparr>bi_polls := k\<rparr>) = y\<lparr>bi_polls := k\<rparr>"
proof -
  let ?d = "length b" and ?is = "carry_at pats (tops_of pats vs) vs ! length b"
  let ?g = "\<lambda>i. refresh_for (length b) (bi_iters x ! i)"
  have D: "at_depth pats vs b x" and none: "bi_state x ! ?d = None" and ent: "\<forall>i<length pats. entered T (pats ! i) vs b (bi_iters x ! i)"
    using E by (simp_all add: Entered_def)
  have d: "?d < length vs" and dep: "bi_depth x = ?d" and len: "length (bi_iters x) = length pats" "length (bi_state x) = length vs"
    and car: "bi_carry x = carry_at pats (tops_of pats vs) vs" and con: "bi_contrib x = contributing pats vs"
    using D by (simp_all add: at_depth_def base_def)
  note sch = schedule [OF q d]
  have fold: "fold (\<lambda>i y. set_iter i (refresh_for ?d (bi_iters y ! i)) y) ?is z = upd ?is ?g z" if "bi_iters z = bi_iters x" for z
  proof -
    have "\<forall>i\<in>set ?is. i < length (bi_iters z) \<and> Some (refresh_for ?d (bi_iters z ! i)) = Some (?g i)"
      using sch(8) len that by (simp add: takes_part_def)
    then show ?thesis using each_iter_upd [OF sch(7), of z "\<lambda>a. Some (refresh_for ?d a)" ?g]
      each_iter_fold [of "refresh_for ?d" ?is z] by simp
  qed
  have y: "y = set_ds ?d ds_fresh (upd ?is ?g x)"
    unfolding y_def bi_prepare_def Let_def dep car using none fold [OF refl] by simp
  show "bi_builder y = bi_builder x" unfolding y by (simp add: set_ds_def)
  show "bi_prepare (x\<lparr>bi_polls := k\<rparr>) = y\<lparr>bi_polls := k\<rparr>" for k
    unfolding y bi_prepare_def Let_def using none dep car fold [of "x\<lparr>bi_polls := k\<rparr>"] by (simp add: upd_def set_ds_def)
  have st: "bi_state y = (bi_state x)[?d := Some ds_fresh]" by (simp add: y set_ds_def)
  have some: "bi_state y ! ?d \<noteq> None" using st d len by simp
  have dy: "bi_depth y = ?d" using dep by (simp add: y set_ds_def)
  show "bi_prepare y = y" unfolding bi_prepare_def Let_def dy by (rule if_not_P [OF some])
  have D': "at_depth pats vs b y"
    using D unfolding at_depth_def base_def y by (simp add: set_ds_def)
  have it: "bi_iters y ! i = (if takes_part pats vs ?d i \<and> 0 < seen (pats ! i) vs ?d then ?g i else bi_iters x ! i)" if "i < length pats" for i
    using that len sch(8) by (simp add: y upd_nth)
  have each: "active T (pats ! i) vs b (bi_iters y ! i)
      \<and> (0 < seen (pats ! i) vs ?d \<longrightarrow> agree (length (path_of (pats ! i) vs b)) (vec_of (bi_iters x ! i)) (vec_of (bi_iters y ! i)))
      \<and> (takes_part pats vs ?d i \<longrightarrow> opened (vec_of (bi_iters y ! i)) (ad_level (bi_iters y ! i) ?d)
           \<and> shown ?d (bi_iters y ! i) = children (trie_set T (pats ! i) vs) (path_of (pats ! i) vs b)
           \<and> finite (children (trie_set T (pats ! i) vs) (path_of (pats ! i) vs b)))" if i: "i < length pats" for i
  proof (cases "takes_part pats vs ?d i")
    case False
    then show ?thesis using ent i it [OF i] by (simp add: active_def takes_part_def)
  next
    case True
    have part: "vs ! ?d \<in> pattern_vars (pats ! i)" using True by (simp add: takes_part_def)
    note r = refreshed [OF query_pat(1) [OF q i] d part, of T "bi_iters x ! i"]
    have "bi_iters y ! i = (if 0 < seen (pats ! i) vs ?d then ?g i else bi_iters x ! i)" using it [OF i] True by simp
    then show ?thesis using r ent i part by (simp add: active_def)
  qed
  have fin: "finite (candidates T pats vs b)"
  proof -
    obtain i where i: "i \<in> set (contributing pats vs ! ?d)" using contributing_ne [OF q d] by (cases "contributing pats vs ! ?d") auto
    then have "finite (children (trie_set T (pats ! i) vs) (path_of (pats ! i) vs b))"
      using each sch(2) by (auto simp: takes_part_def)
    then show ?thesis by (rule rev_finite_subset) (use i in \<open>auto simp: candidates_def\<close>)
  qed
  have un: "unprimed ?d y (sorted_list_of_set (candidates T pats vs b))"
  proof -
    have "ds_at ?d y = ds_fresh" using d len by (simp add: ds_at_def st)
    moreover have "(\<Inter>i\<in>set (contributing pats vs ! ?d). shown ?d (bi_iters y ! i)) = candidates T pats vs b"
      unfolding candidates_def using each sch(2) by (simp add: takes_part_def)
    moreover have "bi_contrib y = contributing pats vs" using con by (simp add: y)
    moreover have "\<forall>i\<in>set (contributing pats vs ! ?d). opened (vec_of (bi_iters y ! i)) (ad_level (bi_iters y ! i) ?d)"
      using each sch(2) by (simp add: takes_part_def)
    ultimately show ?thesis unfolding unprimed_def using contributing_ne [OF q d] fin by (simp add: ds_fresh_def listing_def)
  qed
  have "- 1 \<notin> candidates T pats vs b"
  proof
    assume m: "- 1 \<in> candidates T pats vs b"
    obtain i where i: "i \<in> set (contributing pats vs ! ?d)" using contributing_ne [OF q d] by (cases "contributing pats vs ! ?d") auto
    then have p: "i < length pats" "vs ! ?d \<in> pattern_vars (pats ! i)" using sch(2) by (simp_all add: takes_part_def)
    have "- 1 \<in> children (trie_set T (pats ! i) vs) (path_of (pats ! i) vs b)" using m i by (simp add: candidates_def)
    then show False using children_no_max [OF mx path_part [OF query_pat(1) [OF q p(1)] d p(2)]] by blast
  qed
  then show "Active T pats vs b y (sorted_list_of_set (candidates T pats vs b))"
    unfolding Active_def using D' some unprimed_waiting [OF un] fin each by simp
  show "kept pats vs b x y"
    unfolding kept_def using each by (simp add: y set_ds_def)
qed

section \<open>Fields that do not matter\<close>

lemma view_other:
  "view d (x\<lparr>bi_builder := bb\<rparr>) j = view d x j" "view d (x\<lparr>bi_polls := k\<rparr>) j = view d x j" "view d (x\<lparr>bi_binding := bs\<rparr>) j = view d x j"
  by (simp_all add: view_def ds_at_def)

lemma Active_other:
  "Active T pats vs b (x\<lparr>bi_builder := bb\<rparr>) xs = Active T pats vs b x xs"
  "Active T pats vs b (x\<lparr>bi_polls := k\<rparr>) xs = Active T pats vs b x xs"
  by (simp_all add: Active_def at_depth_def base_def waiting_def view_other)

lemma Active_binding:
  "Active T pats vs b x xs \<Longrightarrow> Active T pats vs b (x\<lparr>bi_binding := (bi_binding x)[length b := v]\<rparr>) xs"
  by (simp add: Active_def at_depth_def base_def waiting_def view_other)

lemma kept_other:
  "kept pats vs b x (y\<lparr>bi_builder := bb\<rparr>) = kept pats vs b x y" "kept pats vs b x (y\<lparr>bi_binding := bs\<rparr>) = kept pats vs b x y"
  "kept pats vs b (x\<lparr>bi_polls := k\<rparr>) y = kept pats vs b x y" "kept pats vs b x (y\<lparr>bi_polls := k\<rparr>) = kept pats vs b x y"
  by (simp_all add: kept_def)

definition undone :: "nat \<Rightarrow> batch_iter \<Rightarrow> bool" where
  "undone d x \<longleftrightarrow> \<not> ds_done (ds_at d x)"

lemma Active_facts:
  assumes "query pats vs" and "Active T pats vs b x xs"
  shows "at_depth pats vs b x" "bi_state x ! length b \<noteq> None" "waiting (length b) x xs" "- 1 \<notin> set xs"
    "level_wf (length b) x" "bi_depth x = length b" "length b < length vs" "bi_contrib x = contributing pats vs"
    "bi_contrib x ! length b \<noteq> []" "length b < length (bi_state x)" "bi_nvars x = length vs" "take (length b) (bi_binding x) = b"
    "length (bi_iters x) = length pats"
  using assms depth_wf [OF assms(1), of b x] contributing_ne [OF assms(1), of "length b"]
  by (auto simp: Active_def at_depth_def base_def bi_nvars_def query_def)

section \<open>The bulk path\<close>

lemma waiting_descended:
  assumes "waiting d x xs" and "d < length (bi_state x)"
  shows "waiting d (set_ds d (ds_at d x\<lparr>ds_descended := c, ds_tried := t\<rparr>) x) xs"
  by (rule waiting_same [OF assms(1), where c = c and t = t]) (use assms(2) in auto)

lemma back_active:
  assumes q: "query pats vs" and A: "Active T pats vs b x xs" and u: "undone (length b) x"
  shows "Active T pats vs b (bi_back x) xs" and "kept pats vs b x (bi_back x)" and "bi_builder (bi_back x) = bi_builder x"
    and "undone (length b) (bi_back x)"
proof -
  note F = Active_facts [OF q A]
  have "frame (length b) x (bi_back x) \<and> waiting (length b) (bi_back x) xs \<and> undone (length b) (bi_back x)"
  proof (cases "ds_descended (ds_at (length b) x)")
    case True
    then have y: "bi_back x = set_ds (length b) (ds_at (length b) x\<lparr>ds_descended := False\<rparr>) x"
      using u by (simp add: bi_back_def Let_def F(6) undone_def)
    have "ds_at (length b) x\<lparr>ds_descended := False\<rparr> = ds_at (length b) x\<lparr>ds_descended := False, ds_tried := ds_tried (ds_at (length b) x)\<rparr>"
      by simp
    then have "waiting (length b) (bi_back x) xs" unfolding y using waiting_descended [OF F(3,10)] by metis
    then show ?thesis using frame_set_ds [OF F(2,10)] u F(10) unfolding y by (simp add: undone_def)
  next
    case False
    then have "bi_back x = x" by (simp add: bi_back_def Let_def F(6))
    then show ?thesis using F(3) u by simp
  qed
  then have f: "frame (length b) x (bi_back x)" and w: "waiting (length b) (bi_back x) xs" and u': "undone (length b) (bi_back x)" by blast+
  show "Active T pats vs b (bi_back x) xs" "kept pats vs b x (bi_back x)" using active_frame [OF q A f w F(4)] by blast+
  show "bi_builder (bi_back x) = bi_builder x" by (rule frame_static(2) [OF f])
  show "undone (length b) (bi_back x)" by (fact u')
qed

text \<open>Arming at the last variable.\<close>

definition leaf_arm :: "nat \<Rightarrow> batch_iter \<Rightarrow> batch_iter" where
  "leaf_arm d x = (let st = ds_at d x in
     if \<not> ds_primed st \<and> \<not> ds_done st \<and> \<not> ds_tried st \<and> length (bi_contrib x ! d) = 2
     then (let x' = bi_arm d x; st' = ds_at d x'\<lparr>ds_tried := True\<rparr>
           in set_ds d (if ds_simd st' then st'\<lparr>ds_primed := True\<rparr> else st') x')
     else x)"

lemma leaf_arm_frame:
  assumes w: "waiting d x xs" and wf: "level_wf d x" and u: "undone d x"
  shows "frame d x (leaf_arm d x)" and "waiting d (leaf_arm d x) xs" and "undone d (leaf_arm d x)"
proof -
  let ?y = "leaf_arm d x"
  have "frame d x ?y \<and> waiting d ?y xs \<and> undone d ?y"
  proof (cases "\<not> ds_primed (ds_at d x) \<and> \<not> ds_tried (ds_at d x) \<and> length (bi_contrib x ! d) = 2")
    case False
    then have "?y = x" by (auto simp: leaf_arm_def Let_def)
    then show ?thesis using w u by simp
  next
    case True
    have un: "unprimed d x xs" using waiting_unprimed [OF w] u True by (simp add: undone_def)
    define x' where "x' = bi_arm d x"
    have two: "length (bi_contrib x ! d) = 2" using True by blast
    note arm = arm_spec [OF un wf two, folded x'_def]
    have wf': "level_wf d x'" by (rule frame_wf [OF arm(1) wf])
    define st' where "st' = ds_at d x'\<lparr>ds_tried := True\<rparr>"
    have y: "?y = set_ds d (if ds_simd st' then st'\<lparr>ds_primed := True\<rparr> else st') x'"
      using True u by (simp add: leaf_arm_def Let_def x'_def st'_def undone_def)
    have f1: "frame d x' ?y" unfolding y by (rule frame_set_ds) (use wf' in \<open>simp_all add: level_wf_def\<close>)
    note len = level_len [OF wf']
    have c': "bi_contrib x' = bi_contrib x" by (rule frame_static(3) [OF arm(1)])
    have flags: "\<not> ds_done (ds_at d x)" "\<not> ds_primed (ds_at d x)" "\<not> ds_simd (ds_at d x)" "bi_contrib x ! d \<noteq> []"
      "listing xs (\<Inter>i\<in>set (bi_contrib x ! d). shown d (bi_iters x ! i))" using un by (simp_all add: unprimed_def)
    have same: "(\<Inter>i\<in>set (bi_contrib x ! d). shown d (bi_iters x' ! i)) = (\<Inter>i\<in>set (bi_contrib x ! d). shown d (bi_iters x ! i))"
      using arm(2) by simp
    have op: "\<forall>i\<in>set (bi_contrib x ! d). opened (vec_of (bi_iters x' ! i)) (ad_level (bi_iters x' ! i) d)" using arm(2) by blast
    from arm(3) have "waiting d ?y xs \<and> undone d ?y"
    proof
      assume a: "ds_at d x' = ds_at d x"
      have "unprimed d ?y xs"
        using flags op len a unfolding unprimed_def y by (simp add: st'_def c' same)
      then show ?thesis using unprimed_waiting by (auto simp: undone_def unprimed_def)
    next
      assume a: "ds_at d x' = ds_at d x\<lparr>ds_pos := 0, ds_simd := True\<rparr> \<and> bi_buf x' ! d = xs"
      have "armed d ?y xs"
        using flags op len a two unfolding armed_def y by (simp add: st'_def c' same listing_def)
      then show ?thesis using armed_waiting by (auto simp: undone_def armed_def)
    qed
    then show ?thesis using frame_trans [OF arm(1) f1] by blast
  qed
  then show "frame d x ?y" and "waiting d ?y xs" and "undone d ?y" by blast+
qed

lemma bi_leaf_arm:
  "bi_leaf x = (let d = bi_depth x in if d + 1 \<noteq> bi_nvars x then (None, x)
     else let x1 = leaf_arm d x; st1 = ds_at d x1 in
       if ds_simd st1 then
         (if ds_pos st1 < length (bi_buf x1 ! d) then
            (case push_run_chunk (take d (bi_binding x1)) (drop (ds_pos st1) (bi_buf x1 ! d)) (bi_builder x1) of
               (n, flushed, b) \<Rightarrow> (Some flushed, set_ds d (st1\<lparr>ds_pos := ds_pos st1 + n\<rparr>) (x1\<lparr>bi_builder := b\<rparr>)))
          else (None, mark_done d x1))
       else (None, x1))"
  unfolding bi_leaf_def leaf_arm_def Let_def by (rule refl)

lemma leaf_step:
  assumes q: "query pats vs" and A: "Active T pats vs b x xs" and u: "undone (length b) x"
  shows "(\<exists>y. bi_leaf x = (None, y) \<and> Active T pats vs b y xs \<and> kept pats vs b x y \<and> bi_builder y = bi_builder x)
    \<or> (Suc (length b) = length vs \<and> xs \<noteq> [] \<and> (\<exists>n fl bb y. push_run_chunk b xs (bi_builder x) = (n, fl, bb)
        \<and> bi_leaf x = (Some fl, y) \<and> Active T pats vs b y (drop n xs) \<and> undone (length b) y \<and> kept pats vs b x y \<and> bi_builder y = bb))"
proof -
  let ?d = "length b"
  note F = Active_facts [OF q A]
  show ?thesis
  proof (cases "Suc ?d = length vs")
    case False
    then have "bi_leaf x = (None, x)" by (simp add: bi_leaf_def Let_def F(6,11))
    then show ?thesis using A by auto
  next
    case leaf: True
    define x1 where "x1 = leaf_arm ?d x"
    note la = leaf_arm_frame [OF F(3,5) u, folded x1_def]
    note A1 = active_frame [OF q A la(1,2) F(4)]
    note F1 = Active_facts [OF q A1(1)]
    have bb: "bi_builder x1 = bi_builder x" by (rule frame_static(2) [OF la(1)])
    have run: "bi_leaf x = (let st1 = ds_at ?d x1 in if ds_simd st1 then
         (if ds_pos st1 < length (bi_buf x1 ! ?d) then
            (case push_run_chunk b (drop (ds_pos st1) (bi_buf x1 ! ?d)) (bi_builder x) of
               (n, flushed, bb) \<Rightarrow> (Some flushed, set_ds ?d (st1\<lparr>ds_pos := ds_pos st1 + n\<rparr>) (x1\<lparr>bi_builder := bb\<rparr>)))
          else (None, mark_done ?d x1))
       else (None, x1))"
      unfolding bi_leaf_arm Let_def F(6,11) x1_def [symmetric] F1(12) bb using leaf by simp
    show ?thesis
    proof (cases "ds_simd (ds_at ?d x1)")
      case False
      then show ?thesis using run A1 bb by simp
    next
      case simd: True
      have ar: "armed ?d x1 xs" using waiting_armed [OF F1(3)] la(3) simd by (simp add: undone_def)
      then have xs: "xs = drop (ds_pos (ds_at ?d x1)) (bi_buf x1 ! ?d)" by (simp add: armed_def)
      show ?thesis
      proof (cases "ds_pos (ds_at ?d x1) < length (bi_buf x1 ! ?d)")
        case False
        then have nil: "xs = []" using xs by simp
        have f: "frame ?d x1 (mark_done ?d x1)" by (rule frame_mark [OF F1(5)])
        have w: "waiting ?d (mark_done ?d x1) []" by (rule waiting_done) (use F1(3,5) nil in simp_all)
        have "Active T pats vs b (mark_done ?d x1) []" "kept pats vs b x1 (mark_done ?d x1)"
          using active_frame [OF q A1(1) f w] by simp_all
        then show ?thesis using run simd False nil kept_trans [OF A1(2)] bb frame_static(2) [OF f] by simp
      next
        case True
        then have ne: "xs \<noteq> []" using xs by simp
        obtain n fl bd where p: "push_run_chunk b xs (bi_builder x) = (n, fl, bd)" by (cases "push_run_chunk b xs (bi_builder x)")
        let ?st = "ds_at ?d x1\<lparr>ds_pos := ds_pos (ds_at ?d x1) + n\<rparr>"
        define y where "y = set_ds ?d ?st x1"
        have f: "frame ?d x1 y" unfolding y_def by (rule frame_set_ds [OF F1(2,10)])
        have dr: "drop n xs = drop (ds_pos (ds_at ?d x1) + n) (bi_buf x1 ! ?d)" using xs by (simp add: add.commute)
        have sorted: "sorted_wrt (<) xs" using ar unfolding armed_def by (elim conjE)
        have sub: "sorted_wrt (<) (drop n xs)" "set (drop n xs) \<subseteq> set xs"
          by (rule sorted_wrt_drop [OF sorted]) (rule set_drop_subset)
        have fl1: "ds_primed (ds_at ?d x1)" "\<not> ds_done (ds_at ?d x1)" "length (bi_contrib x1 ! ?d) = 2"
          "\<forall>i\<in>set (bi_contrib x1 ! ?d). opened (vec_of (bi_iters x1 ! i)) (ad_level (bi_iters x1 ! i) ?d)"
          "set xs \<subseteq> (\<Inter>i\<in>set (bi_contrib x1 ! ?d). shown ?d (bi_iters x1 ! i))"
          using ar unfolding armed_def by blast+
        have "armed ?d y (drop n xs)"
          unfolding armed_def
        proof (intro conjI)
          show "drop n xs = drop (ds_pos (ds_at ?d y)) (bi_buf y ! ?d)" using F1(10) unfolding dr by (simp add: y_def)
          show "set (drop n xs) \<subseteq> (\<Inter>i\<in>set (bi_contrib y ! ?d). shown ?d (bi_iters y ! i))"
            using subset_trans [OF sub(2) fl1(5)] by (simp add: y_def)
        qed (use fl1 sub simd F1(10) in \<open>simp_all add: y_def\<close>)
        then have w: "waiting ?d y (drop n xs)" "undone ?d y" using armed_waiting by (auto simp: armed_def undone_def)
        have "- 1 \<notin> set (drop n xs)" using F(4) by (auto dest: in_set_dropD)
        note Ay = active_frame [OF q A1(1) f w(1) this]
        have "bi_leaf x = (Some fl, y\<lparr>bi_builder := bd\<rparr>)"
        proof -
          have "push_run_chunk b (drop (ds_pos (ds_at ?d x1)) (bi_buf x1 ! ?d)) (bi_builder x) = (n, fl, bd)"
            by (subst xs [symmetric]) (rule p)
          then show ?thesis using run simd True by (simp add: y_def set_ds_def Let_def)
        qed
        moreover have "Active T pats vs b (y\<lparr>bi_builder := bd\<rparr>) (drop n xs)" using Ay(1) by (simp add: Active_other)
        moreover have "undone ?d (y\<lparr>bi_builder := bd\<rparr>)" using w(2) by (simp add: undone_def ds_at_def)
        moreover have "kept pats vs b x (y\<lparr>bi_builder := bd\<rparr>)" using kept_trans [OF A1(2) Ay(2)] by (simp add: kept_other)
        ultimately show ?thesis using leaf ne p by (intro disjI2 conjI exI) auto
      qed
    qed
  qed
qed

section \<open>One round\<close>

definition standing :: "triple_pattern list \<Rightarrow> var list \<Rightarrow> u64 list \<Rightarrow> u64 \<Rightarrow> batch_iter \<Rightarrow> bool" where
  "standing pats vs b v w \<longleftrightarrow> (\<forall>i. takes_part pats vs (length b) i \<longrightarrow>
     peek (vec_of (bi_iters w ! i)) (length (path_of (pats ! i) vs b)) = Some v)"

lemma active_at:
  assumes "Active T pats vs b x xs" and "i < length pats"
  shows "bi_iters x ! i = ad_at (pats ! i) vs (vec_of (bi_iters x ! i))"
  using assms by (auto simp: Active_def active_def entered_def split: if_splits)

lemma active_working:
  assumes "Active T pats vs b x xs" and "i < length pats" and part: "vs ! length b \<in> pattern_vars (pats ! i)"
  shows "working (vec_of (bi_iters x ! i)) (trie_set T (pats ! i) vs) (constants (pats ! i) vs) (path_of (pats ! i) vs b)"
proof -
  have "active T (pats ! i) vs b (bi_iters x ! i)" using assms(1,2) unfolding Active_def by blast
  then show ?thesis unfolding active_def if_P [OF part] by (rule conjunct2)
qed

lemma next_step:
  assumes q: "query pats vs" and A: "Active T pats vs b y xs"
  shows "\<exists>w. bi_next (length b) y = Some (first_of xs, w) \<and> Active T pats vs b w (tl xs) \<and> kept pats vs b y w
    \<and> bi_builder w = bi_builder y \<and> (xs \<noteq> [] \<longrightarrow> undone (length b) w \<and> standing pats vs b (hd xs) w)"
proof -
  let ?d = "length b"
  note F = Active_facts [OF q A]
  obtain w j where w: "bi_next ?d y = Some (first_of xs, w)" "view ?d w j" "ad.pending ?d j (tl xs)" "frame ?d y w"
    "xs \<noteq> [] \<longrightarrow> \<not> ds_done (ds_at ?d w) \<and> (\<forall>i\<in>set (bi_contrib y ! ?d). ad_peek (bi_iters w ! i) ?d = Some (hd xs))"
    using next_gives [OF F(3,5,9,4)] unfolding gives_def by blast
  have "- 1 \<notin> set (tl xs)" using F(4) by (cases xs) auto
  moreover have "waiting ?d w (tl xs)" using w(2,3) by (auto simp: waiting_def)
  ultimately have Aw: "Active T pats vs b w (tl xs)" "kept pats vs b y w" using active_frame [OF q A w(4)] by blast+
  have "standing pats vs b (hd xs) w" if "xs \<noteq> []"
    unfolding standing_def
  proof (intro allI impI)
    fix i assume i: "takes_part pats vs ?d i"
    then have il: "i < length pats" and part: "vs ! ?d \<in> pattern_vars (pats ! i)" by (simp_all add: takes_part_def)
    have "i \<in> set (bi_contrib y ! ?d)" using schedule(2) [OF q F(7)] i F(8) by simp
    then have pk: "ad_peek (bi_iters w ! i) ?d = Some (hd xs)" using w(5) that by blast
    have "ad_level (bi_iters w ! i) ?d = length (path_of (pats ! i) vs b)"
      by (subst active_at [OF Aw(1) il]) (rule level_path [OF F(7) part])
    then show "peek (vec_of (bi_iters w ! i)) (length (path_of (pats ! i) vs b)) = Some (hd xs)"
      using pk by (simp add: ad_ops_put)
  qed
  then show ?thesis using w(1,5) Aw frame_static(2) [OF w(4)] by (auto simp: undone_def)
qed

lemma round_cases:
  assumes q: "query pats vs" and A: "Active T pats vs b x xs" and u: "undone (length b) x"
  shows "(\<exists>w. bi_round x = (case xs of [] \<Rightarrow> bi_ascend w | v # _ \<Rightarrow> bi_bind v w) \<and> Active T pats vs b w (tl xs)
      \<and> kept pats vs b x w \<and> bi_builder w = bi_builder x \<and> (xs \<noteq> [] \<longrightarrow> undone (length b) w \<and> standing pats vs b (hd xs) w))
    \<or> (Suc (length b) = length vs \<and> xs \<noteq> [] \<and> (\<exists>n fl bb y. push_run_chunk b xs (bi_builder x) = (n, fl, bb)
        \<and> bi_round x = Some (case fl of None \<Rightarrow> Inl y | Some c \<Rightarrow> Inr (Some (Inr c), y))
        \<and> Active T pats vs b y (drop n xs) \<and> undone (length b) y \<and> kept pats vs b x y \<and> bi_builder y = bb))"
proof -
  let ?d = "length b" and ?x = "bi_back x"
  note F = Active_facts [OF q A]
  have prep: "bi_prepare x = x" unfolding bi_prepare_def Let_def F(6) by (rule if_not_P [OF F(2)])
  note B = back_active [OF q A u]
  from leaf_step [OF q B(1,4)] show ?thesis
  proof (elim disjE conjE exE)
    fix y assume y: "bi_leaf ?x = (None, y)" "Active T pats vs b y xs" "kept pats vs b ?x y" "bi_builder y = bi_builder ?x"
    obtain w where w: "bi_next ?d y = Some (first_of xs, w)" "Active T pats vs b w (tl xs)" "kept pats vs b y w"
      "bi_builder w = bi_builder y" "xs \<noteq> [] \<longrightarrow> undone ?d w \<and> standing pats vs b (hd xs) w"
      using next_step [OF q y(2)] by blast
    have "bi_depth y = ?d" using Active_facts(6) [OF q y(2)] .
    then have "bi_round x = (case xs of [] \<Rightarrow> bi_ascend w | v # _ \<Rightarrow> bi_bind v w)"
      unfolding bi_round_def prep y(1) using w(1) by (simp add: first_of_def split: list.split)
    then show ?thesis using w kept_trans [OF B(2) kept_trans [OF y(3) w(3)]] y(4) B(3) by (intro disjI1 exI [of _ w]) simp
  next
    fix n fl bb y
    assume "Suc ?d = length vs" "xs \<noteq> []" "push_run_chunk b xs (bi_builder ?x) = (n, fl, bb)" "bi_leaf ?x = (Some fl, y)"
      "Active T pats vs b y (drop n xs)" "undone ?d y" "kept pats vs b ?x y" "bi_builder y = bb"
    moreover from this(4) have "bi_round x = Some (case fl of None \<Rightarrow> Inl y | Some c \<Rightarrow> Inr (Some (Inr c), y))"
      unfolding bi_round_def prep by (simp split: option.split)
    ultimately show ?thesis using kept_trans [OF B(2)] B(3) by (intro disjI2 conjI exI) auto
  qed
qed

section \<open>Descending and coming back\<close>

lemma ad_open_at:
  assumes ok: "pat_ok pat vs" and d: "length b < length vs" and part: "vs ! length b \<in> pattern_vars pat"
    and more: "Suc (seen pat vs (length b)) < length (vars_of pat vs)"
    and "on_path it S (path_of pat vs b)" and "peek it (length (path_of pat vs b)) = Some v"
  shows "\<exists>it'. ad_open (length b) (ad_at pat vs it) = Some (ad_at pat vs it') \<and> on_path it' S (path_of pat vs b @ [v])
    \<and> agree (Suc (length (path_of pat vs b))) it it'"
proof -
  have "length (path_of pat vs b) = length (constants pat vs) + seen pat vs (length b)" using length_path [of b vs pat] d by simp
  from pt_open_spec [OF ok more assms(5) this assms(6)] show ?thesis
    by (auto simp: ad_open_def local_for_at [OF d part])
qed

lemma ad_up_at:
  assumes d: "d < length vs" and part: "vs ! d \<in> pattern_vars pat" and more: "Suc (seen pat vs d) < length (vars_of pat vs)"
  shows "ad_up (Suc d) (ad_at pat vs it) = ad_at pat vs (up (Suc (length (constants pat vs) + seen pat vs d)) it)"
proof -
  have "rev (take (Suc d) (local_depths pat vs 0)) = Some (seen pat vs d) # rev (take d (local_depths pat vs 0))"
    using d local_depths_nth [OF d, of pat 0] part by (simp add: take_Suc_conv_app_nth length_local_depths)
  then show ?thesis using pt_up_spec [OF more] by (simp add: ad_up_def)
qed

lemma ad_reset_at:
  assumes "pat_ok pat vs" and "vars_of pat vs \<noteq> []" and "on_path it S []"
  shows "\<exists>it'. ad_reset (ad_at pat vs it) = Some (ad_at pat vs it') \<and> parked it' S (constants pat vs)"
  using pt_reset_spec [OF assms] by (auto simp: ad_reset_def)

text \<open>The state below a value, as far as coming back needs it.\<close>

definition below :: "triple_pattern list \<Rightarrow> var list \<Rightarrow> u64 list \<Rightarrow> batch_iter \<Rightarrow> batch_iter \<Rightarrow> bool" where
  "below pats vs b w z \<longleftrightarrow> bi_state z ! length b = Some (ds_at (length b) w\<lparr>ds_descended := True\<rparr>)
     \<and> bi_sorted z ! length b = bi_sorted w ! length b \<and> bi_buf z ! length b = bi_buf w ! length b
     \<and> (\<forall>e<length b. bi_state z ! e = bi_state w ! e \<and> bi_sorted z ! e = bi_sorted w ! e \<and> bi_buf z ! e = bi_buf w ! e)
     \<and> (\<forall>i<length pats. 0 < seen (pats ! i) vs (Suc (length b)) \<longrightarrow>
          agree (if takes_part pats vs (length b) i then Suc (length (path_of (pats ! i) vs b)) else length (path_of (pats ! i) vs b))
            (vec_of (bi_iters w ! i)) (vec_of (bi_iters z ! i)))"

lemma bind_descends:
  assumes q: "query pats vs" and A: "Active T pats vs b w xs" and inner: "Suc (length b) < length vs"
    and st: "standing pats vs b v w"
  shows "\<exists>z. bi_bind v w = Some (Inl z) \<and> Entered T pats vs (b @ [v]) z \<and> below pats vs b w z \<and> bi_builder z = bi_builder w"
proof -
  let ?d = "length b" and ?is = "descend_at pats vs ! length b"
  note F = Active_facts [OF q A] and sch = schedule [OF q Active_facts(7) [OF q A]]
  have D: "base pats vs w" using F(1) by (simp add: at_depth_def)
  have part_on: "bi_iters w ! i = ad_at (pats ! i) vs (vec_of (bi_iters w ! i))"
    "on_path (vec_of (bi_iters w ! i)) (trie_set T (pats ! i) vs) (path_of (pats ! i) vs b)"
    "peek (vec_of (bi_iters w ! i)) (length (path_of (pats ! i) vs b)) = Some v" if i: "takes_part pats vs ?d i" for i
  proof -
    have il: "i < length pats" and part: "vs ! ?d \<in> pattern_vars (pats ! i)" using i by (simp_all add: takes_part_def)
    have wk: "working (vec_of (bi_iters w ! i)) (trie_set T (pats ! i) vs) (constants (pats ! i) vs) (path_of (pats ! i) vs b)"
      by (rule active_working [OF A il part])
    show "bi_iters w ! i = ad_at (pats ! i) vs (vec_of (bi_iters w ! i))" by (rule active_at [OF A il])
    show pk: "peek (vec_of (bi_iters w ! i)) (length (path_of (pats ! i) vs b)) = Some v" using st i by (simp add: standing_def)
    show "on_path (vec_of (bi_iters w ! i)) (trie_set T (pats ! i) vs) (path_of (pats ! i) vs b)" by (rule working_on(1) [OF wk pk])
  qed
  define g where "g = (\<lambda>i. the (ad_open ?d (bi_iters w ! i)))"
  have open1: "\<exists>it'. ad_open ?d (bi_iters w ! i) = Some (g i) \<and> g i = ad_at (pats ! i) vs it'
      \<and> on_path it' (trie_set T (pats ! i) vs) (path_of (pats ! i) vs b @ [v])
      \<and> agree (Suc (length (path_of (pats ! i) vs b))) (vec_of (bi_iters w ! i)) it'" if i: "i \<in> set ?is" for i
  proof -
    have tp: "takes_part pats vs ?d i" and more: "Suc (seen (pats ! i) vs ?d) < length (vars_of (pats ! i) vs)"
      using i sch(4) by blast+
    have il: "i < length pats" and part: "vs ! ?d \<in> pattern_vars (pats ! i)" using tp by (simp_all add: takes_part_def)
    from ad_open_at [OF query_pat(1) [OF q il] F(7) part more part_on(2,3) [OF tp]] part_on(1) [OF tp]
    obtain it' where "ad_open ?d (bi_iters w ! i) = Some (ad_at (pats ! i) vs it')"
      "on_path it' (trie_set T (pats ! i) vs) (path_of (pats ! i) vs b @ [v])"
      "agree (Suc (length (path_of (pats ! i) vs b))) (vec_of (bi_iters w ! i)) it'" by metis
    then show ?thesis by (intro exI [of _ it']) (simp add: g_def)
  qed
  define w1 where "w1 = w\<lparr>bi_binding := (bi_binding w)[?d := v]\<rparr>"
  have opens: "each_iter (ad_open ?d) ?is w1 = Some (upd ?is g w1)"
    by (rule each_iter_upd [OF sch(3)]) (use open1 sch(4) F(13) in \<open>auto simp: w1_def takes_part_def\<close>)
  define z where "z = (set_ds ?d (ds_at ?d w\<lparr>ds_descended := True\<rparr>) (upd ?is g w1))\<lparr>bi_depth := Suc ?d\<rparr>"
  have "bi_descend w = descend_at pats vs" using D by (simp add: base_def)
  moreover have "ds_at ?d w1 = ds_at ?d w" "bi_nvars w1 = length vs" "bi_descend w1 = bi_descend w"
    using F(11) by (simp_all add: w1_def ds_at_def bi_nvars_def)
  ultimately have run: "bi_bind v w = Some (Inl z)"
    using inner opens F(6) by (simp add: bi_bind_def Let_def w1_def [symmetric] z_def)
  have zi: "bi_iters z ! i = (if i \<in> set ?is then g i else bi_iters w ! i)" if "i < length pats" for i
    using that F(13) by (simp add: z_def upd_nth w1_def)
  have bind: "take (Suc ?d) ((bi_binding w)[?d := v]) = b @ [v]"
    using F(7,12) D by (simp add: take_Suc_conv_app_nth base_def)
  have Dz: "at_depth pats vs (b @ [v]) z"
    using F(1) inner bind by (auto simp: at_depth_def base_def z_def w1_def set_ds_def nth_list_update)
  have none: "bi_state z ! Suc ?d = None" using F(1) inner by (auto simp: at_depth_def z_def w1_def set_ds_def)
  have ent: "entered T (pats ! i) vs (b @ [v]) (bi_iters z ! i)" if i: "i < length pats" for i
  proof (cases "takes_part pats vs ?d i")
    case False
    then have np: "vs ! ?d \<notin> pattern_vars (pats ! i)" using i by (simp add: takes_part_def)
    then have "entered T (pats ! i) vs b (bi_iters w ! i)" using A i by (simp add: Active_def active_def)
    moreover have "bi_iters z ! i = bi_iters w ! i" using zi [OF i] sch(4) False by simp
    ultimately show ?thesis using np F(7) by (simp add: entered_def seen_Suc path_snoc)
  next
    case True
    then have part: "vs ! ?d \<in> pattern_vars (pats ! i)" by (simp add: takes_part_def)
    have sn: "seen (pats ! i) vs (Suc ?d) = Suc (seen (pats ! i) vs ?d)" using part F(7) by (simp add: seen_Suc)
    have pn: "path_of (pats ! i) vs (b @ [v]) = path_of (pats ! i) vs b @ [v]" using part F(7) by (simp add: path_snoc)
    have ok: "pat_ok (pats ! i) vs" by (rule query_pat(1) [OF q i])
    have lp: "length (path_of (pats ! i) vs b) = length (constants (pats ! i) vs) + seen (pats ! i) vs ?d"
      using length_path [of b vs "pats ! i"] F(7) by simp
    show ?thesis
    proof (cases "Suc (seen (pats ! i) vs ?d) < length (vars_of (pats ! i) vs)")
      case more: True
      then have "i \<in> set ?is" using sch(4) True by blast
      from open1 [OF this] zi [OF i] this obtain it' where it': "bi_iters z ! i = ad_at (pats ! i) vs it'"
        "on_path it' (trie_set T (pats ! i) vs) (path_of (pats ! i) vs b @ [v])" by auto
      have "length (path_of (pats ! i) vs b @ [v]) \<le> 2" using three_levels [OF ok] more lp by simp
      then have "seated it' (trie_set T (pats ! i) vs) (path_of (pats ! i) vs b @ [v])" using it'(2) by (simp add: seated_def)
      then show ?thesis using it'(1) by (simp add: entered_def sn pn)
    next
      case False
      then have same: "bi_iters z ! i = bi_iters w ! i" using zi [OF i] sch(4) by simp
      have l2: "length (path_of (pats ! i) vs b) = 2"
        using False seen_lt [OF F(7) part] three_levels [OF ok] lp by simp
      have "seated (vec_of (bi_iters w ! i)) (trie_set T (pats ! i) vs) (path_of (pats ! i) vs b @ [v])"
        using part_on(2,3) [OF True] l2 by (simp add: seated_def nth_append)
      then show ?thesis using part_on(1) [OF True] same by (simp add: entered_def sn pn)
    qed
  qed
  have bel: "below pats vs b w z"
    unfolding below_def
  proof (intro conjI allI impI)
    show "bi_state z ! ?d = Some (ds_at ?d w\<lparr>ds_descended := True\<rparr>)" using F(10) by (simp add: z_def set_ds_def w1_def)
    show "bi_sorted z ! ?d = bi_sorted w ! ?d" "bi_buf z ! ?d = bi_buf w ! ?d" by (simp_all add: z_def w1_def)
    show "bi_state z ! e = bi_state w ! e" "bi_sorted z ! e = bi_sorted w ! e" "bi_buf z ! e = bi_buf w ! e" if "e < ?d" for e
      using that by (simp_all add: z_def w1_def set_ds_def)
    fix i assume i: "i < length pats"
    show "agree (if takes_part pats vs ?d i then Suc (length (path_of (pats ! i) vs b)) else length (path_of (pats ! i) vs b))
        (vec_of (bi_iters w ! i)) (vec_of (bi_iters z ! i))"
    proof (cases "i \<in> set ?is")
      case True
      from open1 [OF this] zi [OF i] this show ?thesis using sch(4) by auto
    qed (simp add: zi [OF i])
  qed
  have "bi_builder z = bi_builder w" by (simp add: z_def w1_def set_ds_def)
  then show ?thesis using run Dz none ent bel by (intro exI [of _ z]) (simp add: Entered_def)
qed

lemma reset_tops:
  assumes q: "query pats vs" and A: "Active T pats vs b u xs"
  shows "\<exists>y. each_iter ad_reset (bi_top u ! length b) u = Some y \<and> y\<lparr>bi_iters := bi_iters u\<rparr> = u \<and> length (bi_iters y) = length pats
    \<and> (\<forall>i<length pats. if takes_part pats vs (length b) i \<and> seen (pats ! i) vs (length b) = 0
         then bi_iters y ! i = ad_at (pats ! i) vs (vec_of (bi_iters y ! i))
           \<and> parked (vec_of (bi_iters y ! i)) (trie_set T (pats ! i) vs) (constants (pats ! i) vs)
         else bi_iters y ! i = bi_iters u ! i)"
proof -
  note F = Active_facts [OF q A] and sch = schedule [OF q Active_facts(7) [OF q A]]
  let ?is = "top_at (tops_of pats vs) vs ! length b"
  define g where "g = (\<lambda>i. the (ad_reset (bi_iters u ! i)))"
  have one: "ad_reset (bi_iters u ! i) = Some (g i) \<and> g i = ad_at (pats ! i) vs (vec_of (g i))
      \<and> parked (vec_of (g i)) (trie_set T (pats ! i) vs) (constants (pats ! i) vs)" if i: "i \<in> set ?is" for i
  proof -
    have il: "i < length pats" and part: "vs ! length b \<in> pattern_vars (pats ! i)" using i sch(6) by (auto simp: takes_part_def)
    have "on_path (vec_of (bi_iters u ! i)) (trie_set T (pats ! i) vs) []"
      using active_working [OF A il part] by (simp add: working_def)
    from ad_reset_at [OF query_pat(1,3) [OF q il] this] active_at [OF A il]
    obtain it' where "ad_reset (bi_iters u ! i) = Some (ad_at (pats ! i) vs it')" "parked it' (trie_set T (pats ! i) vs) (constants (pats ! i) vs)"
      by metis
    then show ?thesis by (simp add: g_def)
  qed
  have "bi_top u = top_at (tops_of pats vs) vs" using F(1) by (simp add: at_depth_def base_def)
  moreover have "each_iter ad_reset ?is u = Some (upd ?is g u)"
    by (rule each_iter_upd [OF sch(5)]) (use one sch(6) F(13) in \<open>auto simp: takes_part_def\<close>)
  ultimately have "each_iter ad_reset (bi_top u ! length b) u = Some (upd ?is g u)" by simp
  moreover have "(upd ?is g u)\<lparr>bi_iters := bi_iters u\<rparr> = u" by (simp add: upd_def)
  moreover have "bi_iters (upd ?is g u) ! i = (if takes_part pats vs (length b) i \<and> seen (pats ! i) vs (length b) = 0 then g i else bi_iters u ! i)"
    if "i < length pats" for i using that F(13) sch(6) by (simp add: upd_nth)
  ultimately show ?thesis using one sch(6) F(13) by (intro exI [of _ "upd ?is g u"]) simp
qed

lemma ascend_returns:
  assumes q: "query pats vs" and A: "Active T pats vs b w xs" and ud: "undone (length b) w" and bel: "below pats vs b w z"
    and U: "Active T pats vs (b @ [v]) u []" and k: "kept pats vs (b @ [v]) z u"
  shows "\<exists>t. bi_ascend u = Some (Inl t) \<and> Active T pats vs b t xs \<and> undone (length b) t \<and> kept pats vs b w t \<and> bi_builder t = bi_builder u"
proof -
  let ?d = "length b"
  note F = Active_facts [OF q A] and FU = Active_facts [OF q U] and sch = schedule [OF q Active_facts(7) [OF q A]]
  have inner: "Suc ?d < length vs" using FU(7) by simp
  obtain y where y: "each_iter ad_reset (bi_top u ! Suc ?d) u = Some y" "y\<lparr>bi_iters := bi_iters u\<rparr> = u" "length (bi_iters y) = length pats"
    "\<forall>i<length pats. if takes_part pats vs (Suc ?d) i \<and> seen (pats ! i) vs (Suc ?d) = 0
       then bi_iters y ! i = ad_at (pats ! i) vs (vec_of (bi_iters y ! i))
         \<and> parked (vec_of (bi_iters y ! i)) (trie_set T (pats ! i) vs) (constants (pats ! i) vs)
       else bi_iters y ! i = bi_iters u ! i"
    using reset_tops [OF q U] by auto
  let ?is = "descend_at pats vs ! ?d"
  define y1 where "y1 = y\<lparr>bi_state := (bi_state y)[Suc ?d := None], bi_depth := ?d\<rparr>"
  define t where "t = upd ?is (\<lambda>i. ad_up (Suc ?d) (bi_iters y ! i)) y1"
  have ups: "each_iter (\<lambda>a. Some (ad_up (Suc ?d) a)) ?is y1 = Some t"
    unfolding t_def by (rule each_iter_upd [OF sch(3)]) (use sch(4) y(3) in \<open>auto simp: y1_def takes_part_def\<close>)
  have yu: "bi_vars y = bi_vars u" "bi_builder y = bi_builder u" "bi_contrib y = bi_contrib u" "bi_descend y = bi_descend u"
    "bi_top y = bi_top u" "bi_carry y = bi_carry u" "bi_state y = bi_state u" "bi_sorted y = bi_sorted u" "bi_buf y = bi_buf u"
    "bi_binding y = bi_binding u" "bi_finished y = bi_finished u"
    using arg_cong [OF y(2), of bi_vars] arg_cong [OF y(2), of bi_builder] arg_cong [OF y(2), of bi_contrib]
      arg_cong [OF y(2), of bi_descend] arg_cong [OF y(2), of bi_top] arg_cong [OF y(2), of bi_carry] arg_cong [OF y(2), of bi_state]
      arg_cong [OF y(2), of bi_sorted] arg_cong [OF y(2), of bi_buf] arg_cong [OF y(2), of bi_binding] arg_cong [OF y(2), of bi_finished]
    by simp_all
  have bu: "base pats vs u" using FU(1) by (simp add: at_depth_def)
  have run: "bi_ascend u = Some (Inl t)"
    using y(1) ups FU(6) bu yu(4) by (simp add: bi_ascend_def Let_def y1_def base_def)
  have ti: "bi_iters t ! i = (if i \<in> set ?is then ad_up (Suc ?d) (bi_iters y ! i) else bi_iters y ! i)" if "i < length pats" for i
    using that y(3) by (simp add: t_def y1_def upd_nth)
  have st: "bi_state t ! e = bi_state u ! e" if "e \<noteq> Suc ?d" for e using that by (simp add: t_def y1_def yu)
  have same: "bi_sorted t = bi_sorted u" "bi_buf t = bi_buf u" "bi_contrib t = bi_contrib u" by (simp_all add: t_def y1_def yu)
  have ke: "bi_state u ! e = bi_state z ! e \<and> bi_sorted u ! e = bi_sorted z ! e \<and> bi_buf u ! e = bi_buf z ! e" if "e < Suc ?d" for e
    using k that by (simp add: kept_def)
  have dst: "bi_state t ! ?d = Some (ds_at ?d w\<lparr>ds_descended := True\<rparr>)" using st [of ?d] ke [of ?d] bel by (simp add: below_def)
  then have ds: "ds_at ?d t = ds_at ?d w\<lparr>ds_descended := True\<rparr>" by (simp add: ds_at_def)
  have Dt: "at_depth pats vs b t"
  proof -
    have "take ?d (bi_binding u) = b" using arg_cong [OF FU(12), of "take ?d"] by simp
    moreover have "bi_state t ! e = None" if "?d < e" "e < length vs" for e
    proof (cases "e = Suc ?d")
      case True
      then show ?thesis using bu that by (simp add: t_def y1_def yu base_def)
    next
      case False
      then show ?thesis using FU(1) that by (simp add: st at_depth_def)
    qed
    ultimately show ?thesis using bu F(7) y(3) by (simp add: at_depth_def base_def t_def y1_def yu)
  qed
  have each: "active T (pats ! i) vs b (bi_iters t ! i)
      \<and> (0 < seen (pats ! i) vs ?d \<longrightarrow> agree (length (path_of (pats ! i) vs b)) (vec_of (bi_iters w ! i)) (vec_of (bi_iters t ! i)))
      \<and> (takes_part pats vs ?d i \<longrightarrow> bi_iters t ! i = ad_at (pats ! i) vs (vec_of (bi_iters t ! i))
           \<and> agree (Suc (length (path_of (pats ! i) vs b))) (vec_of (bi_iters w ! i)) (vec_of (bi_iters t ! i)))" if i: "i < length pats" for i
  proof -
    let ?p = "path_of (pats ! i) vs b" and ?S = "trie_set T (pats ! i) vs"
    have ok: "pat_ok (pats ! i) vs" by (rule query_pat(1) [OF q i])
    have uat: "bi_iters u ! i = ad_at (pats ! i) vs (vec_of (bi_iters u ! i))" by (rule active_at [OF U i])
    show ?thesis
    proof (cases "takes_part pats vs ?d i")
      case False
      then have np: "vs ! ?d \<notin> pattern_vars (pats ! i)" using i by (simp add: takes_part_def)
      have sn: "seen (pats ! i) vs (Suc ?d) = seen (pats ! i) vs ?d" and pn: "path_of (pats ! i) vs (b @ [v]) = ?p"
        using np F(7) by (simp_all add: seen_Suc path_snoc)
      have ty: "bi_iters t ! i = bi_iters y ! i" using ti [OF i] sch(4) False by simp
      have "entered T (pats ! i) vs b (bi_iters t ! i)
          \<and> (0 < seen (pats ! i) vs ?d \<longrightarrow> bi_iters t ! i = bi_iters u ! i)"
      proof (cases "takes_part pats vs (Suc ?d) i \<and> seen (pats ! i) vs (Suc ?d) = 0")
        case True
        then show ?thesis using y(4) i sn ty by (simp add: entered_def)
      next
        case F2: False
        then have same_i: "bi_iters t ! i = bi_iters u ! i" using y(4) i ty by simp
        have "entered T (pats ! i) vs b (bi_iters u ! i)"
        proof (cases "takes_part pats vs (Suc ?d) i")
          case True
          then have part: "vs ! Suc ?d \<in> pattern_vars (pats ! i)" by (simp add: takes_part_def)
          have pos: "0 < seen (pats ! i) vs ?d" using F2 True sn by simp
          have wk: "working (vec_of (bi_iters u ! i)) ?S (constants (pats ! i) vs) ?p"
            using active_working [OF U i] part pn by simp
          have lp: "length ?p = length (constants (pats ! i) vs) + seen (pats ! i) vs ?d" using length_path [of b vs "pats ! i"] F(7) by simp
          have "length ?p \<le> 2" using path_part [OF ok, of "b @ [v]"] inner part pn by simp
          then have "seated (vec_of (bi_iters u ! i)) ?S ?p" using wk pos lp by (simp add: working_def seated_def)
          then show ?thesis using uat pos by (simp add: entered_def)
        next
          case False
          then have "vs ! Suc ?d \<notin> pattern_vars (pats ! i)" using i by (simp add: takes_part_def)
          then have "entered T (pats ! i) vs (b @ [v]) (bi_iters u ! i)" using U i by (simp add: Active_def active_def)
          then show ?thesis unfolding entered_def pn by (simp add: sn)
        qed
        then show ?thesis using same_i by simp
      qed
      moreover have "agree (length ?p) (vec_of (bi_iters w ! i)) (vec_of (bi_iters u ! i))" if pos: "0 < seen (pats ! i) vs ?d"
      proof (rule agree_trans [of _ _ "vec_of (bi_iters z ! i)"])
        show "agree (length ?p) (vec_of (bi_iters w ! i)) (vec_of (bi_iters z ! i))"
          using bel i False pos sn by (auto simp: below_def)
        show "agree (length ?p) (vec_of (bi_iters z ! i)) (vec_of (bi_iters u ! i))"
          using k i pos sn pn by (auto simp: kept_def)
      qed
      ultimately show ?thesis using np False by (simp add: active_def)
    next
      case True
      then have part: "vs ! ?d \<in> pattern_vars (pats ! i)" by (simp add: takes_part_def)
      have sn: "seen (pats ! i) vs (Suc ?d) = Suc (seen (pats ! i) vs ?d)" and pn: "path_of (pats ! i) vs (b @ [v]) = ?p @ [v]"
        using part F(7) by (simp_all add: seen_Suc path_snoc)
      have lp: "length ?p = length (constants (pats ! i) vs) + seen (pats ! i) vs ?d" using length_path [of b vs "pats ! i"] F(7) by simp
      have yi: "bi_iters y ! i = bi_iters u ! i" using y(4) i sn by simp
      have ag: "agree (Suc (length ?p)) (vec_of (bi_iters w ! i)) (vec_of (bi_iters u ! i))"
      proof (rule agree_trans [of _ _ "vec_of (bi_iters z ! i)"])
        show "agree (Suc (length ?p)) (vec_of (bi_iters w ! i)) (vec_of (bi_iters z ! i))"
          using bel i True sn by (auto simp: below_def)
        show "agree (Suc (length ?p)) (vec_of (bi_iters z ! i)) (vec_of (bi_iters u ! i))"
          using k i sn pn by (auto simp: kept_def)
      qed
      have "bi_iters t ! i = ad_at (pats ! i) vs (vec_of (bi_iters t ! i))
          \<and> agree (Suc (length ?p)) (vec_of (bi_iters u ! i)) (vec_of (bi_iters t ! i))"
      proof (cases "i \<in> set ?is")
        case in_is: True
        then have more: "Suc (seen (pats ! i) vs ?d) < length (vars_of (pats ! i) vs)" using sch(4) by blast
        have "bi_iters t ! i = ad_at (pats ! i) vs (up (Suc (length ?p)) (vec_of (bi_iters u ! i)))"
          unfolding lp using ti [OF i] in_is yi uat ad_up_at [OF F(7) part more, of "vec_of (bi_iters u ! i)"] by simp
        moreover from this have "vec_of (bi_iters t ! i) = up (Suc (length ?p)) (vec_of (bi_iters u ! i))" by simp
        ultimately show ?thesis using agree_ops(2) [of "Suc (length ?p)"] by simp
      next
        case False
        then show ?thesis using ti [OF i] yi uat by simp
      qed
      then have tat: "bi_iters t ! i = ad_at (pats ! i) vs (vec_of (bi_iters t ! i))"
        and agt: "agree (Suc (length ?p)) (vec_of (bi_iters w ! i)) (vec_of (bi_iters t ! i))" using agree_trans [OF ag] by blast+
      have "working (vec_of (bi_iters w ! i)) ?S (constants (pats ! i) vs) ?p" by (rule active_working [OF A i part])
      then have "working (vec_of (bi_iters t ! i)) ?S (constants (pats ! i) vs) ?p" by (rule working_agree [OF _ agt])
      then show ?thesis using tat agt part agree_mono [OF agt] by (simp add: active_def)
    qed
  qed
  have "waiting ?d t xs"
  proof (rule waiting_same [OF F(3), where c = True and t = "ds_tried (ds_at ?d w)"])
    show "bi_contrib t ! ?d = bi_contrib w ! ?d" using same(3) FU(8) F(8) by simp
    show "bi_sorted t ! ?d = bi_sorted w ! ?d" "bi_buf t ! ?d = bi_buf w ! ?d" using same ke [of ?d] bel by (simp_all add: below_def)
    show "ds_at ?d t = ds_at ?d w\<lparr>ds_descended := True, ds_tried := ds_tried (ds_at ?d w)\<rparr>" by (simp add: ds)
    show "\<forall>i\<in>set (bi_contrib w ! ?d). opened (vec_of (bi_iters t ! i)) (ad_level (bi_iters t ! i) ?d)
          = opened (vec_of (bi_iters w ! i)) (ad_level (bi_iters w ! i) ?d)
        \<and> keys (vec_of (bi_iters t ! i)) (ad_level (bi_iters t ! i) ?d) = keys (vec_of (bi_iters w ! i)) (ad_level (bi_iters w ! i) ?d)"
    proof
      fix i assume "i \<in> set (bi_contrib w ! ?d)"
      then have tp: "takes_part pats vs ?d i" using sch(2) F(8) by simp
      then have i: "i < length pats" and part: "vs ! ?d \<in> pattern_vars (pats ! i)" by (simp_all add: takes_part_def)
      have L: "ad_level (bi_iters t ! i) ?d = length (path_of (pats ! i) vs b)" "ad_level (bi_iters w ! i) ?d = length (path_of (pats ! i) vs b)"
      proof -
        show "ad_level (bi_iters w ! i) ?d = length (path_of (pats ! i) vs b)"
          by (subst active_at [OF A i]) (rule level_path [OF F(7) part])
        have "bi_iters t ! i = ad_at (pats ! i) vs (vec_of (bi_iters t ! i))" using each [OF i] tp by blast
        then show "ad_level (bi_iters t ! i) ?d = length (path_of (pats ! i) vs b)" using level_path [OF F(7) part] by metis
      qed
      have "agree (Suc (length (path_of (pats ! i) vs b))) (vec_of (bi_iters w ! i)) (vec_of (bi_iters t ! i))" using each [OF i] tp by blast
      from agree_level(1,2) [OF this, of "length (path_of (pats ! i) vs b)"]
      show "opened (vec_of (bi_iters t ! i)) (ad_level (bi_iters t ! i) ?d)
          = opened (vec_of (bi_iters w ! i)) (ad_level (bi_iters w ! i) ?d)
        \<and> keys (vec_of (bi_iters t ! i)) (ad_level (bi_iters t ! i) ?d) = keys (vec_of (bi_iters w ! i)) (ad_level (bi_iters w ! i) ?d)"
        unfolding L by simp
    qed
  qed
  then have "Active T pats vs b t xs" unfolding Active_def using Dt dst F(4) each by simp
  moreover have "undone ?d t" using ud ds by (simp add: undone_def)
  moreover have "kept pats vs b w t"
    unfolding kept_def
  proof (intro conjI allI impI)
    show "bi_state t ! e = bi_state w ! e" "bi_sorted t ! e = bi_sorted w ! e" "bi_buf t ! e = bi_buf w ! e" if "e < ?d" for e
      using st [of e] ke [of e] bel same that by (simp_all add: below_def)
    show "agree (length (path_of (pats ! i) vs b)) (vec_of (bi_iters w ! i)) (vec_of (bi_iters t ! i))"
      if "i < length pats" "0 < seen (pats ! i) vs ?d" for i using each [OF that(1)] that(2) by blast
  qed
  moreover have "bi_builder t = bi_builder u" by (simp add: t_def y1_def yu)
  ultimately show ?thesis using run by blast
qed

end
