(* ===== verification/Wcoj_Join.thy ===== *)
theory Wcoj_Join imports Wcoj_Run begin

text \<open>
  The leapfrog triejoin as a whole: the batches the executor streams hold exactly the solutions of the
  basic graph pattern, in the order of its variables.
\<close>

section \<open>Rounds in sequence\<close>

definition poll :: "batch_iter \<Rightarrow> batch_iter" where
  "poll x = (if bi_depth x = 0 then x\<lparr>bi_polls := bi_polls x + 1\<rparr> else x)"

definition runnable :: "batch_iter \<Rightarrow> bool" where
  "runnable x \<longleftrightarrow> \<not> bi_finished x \<and> bi_nvars x \<noteq> 0"

inductive runs :: "batch_iter \<Rightarrow> batch list \<Rightarrow> batch_iter \<Rightarrow> bool" where
  runs_refl: "runs x [] x"
| runs_go: "bi_round (poll x) = Some (Inl y) \<Longrightarrow> runnable y \<Longrightarrow> runs y bs z \<Longrightarrow> runs x bs z"
| runs_emit: "bi_round (poll x) = Some (Inr (Some (Inr c), y)) \<Longrightarrow> runnable y \<Longrightarrow> runs y bs z \<Longrightarrow> runs x (c # bs) z"

lemma runs_trans: "runs x bs y \<Longrightarrow> runs y cs z \<Longrightarrow> runs x (bs @ cs) z"
  by (induction rule: runs.induct) (auto intro: runs_go runs_emit)

lemma runs_one: "bi_round (poll x) = Some (Inl y) \<Longrightarrow> runnable y \<Longrightarrow> runs x [] y"
  by (rule runs_go [OF _ _ runs_refl])

text \<open>Starting from the prepared state is starting from the state.\<close>

lemma runs_prepared:
  assumes "runs x' bs u" and "bi_round (poll x') = bi_round (poll x)"
  shows "\<exists>u'. runs x bs u' \<and> bi_round (poll u') = bi_round (poll u)"
  using assms
proof (cases rule: runs.cases)
  case runs_refl
  then show ?thesis using assms(2) runs.runs_refl [of x] by metis
next
  case (runs_go y)
  then show ?thesis using assms(2) runs.runs_go [of x y bs u] by metis
next
  case (runs_emit c y cs)
  then show ?thesis using assms(2) runs.runs_emit [of x c y cs u] by metis
qed

lemma poll_same:
  "Active T pats vs b (poll x) xs = Active T pats vs b x xs" "undone d (poll x) = undone d x" "bi_builder (poll x) = bi_builder x"
  "kept pats vs b (poll x) y = kept pats vs b x y"
  by (simp_all add: poll_def Active_other kept_other undone_def ds_at_def)

lemma Active_runnable:
  assumes "query pats vs" and "Active T pats vs b x xs"
  shows "runnable x"
  using Active_facts(1,11) [OF assms] assms(1) by (auto simp: runnable_def at_depth_def base_def query_def)

lemma Entered_runnable:
  assumes "query pats vs" and "Entered T pats vs b x"
  shows "runnable x"
  using assms by (auto simp: Entered_def runnable_def at_depth_def base_def query_def bi_nvars_def)

lemma Active_prepared:
  assumes "query pats vs" and "Active T pats vs b x xs"
  shows "bi_prepare x = x"
  unfolding bi_prepare_def Let_def Active_facts(6) [OF assms] by (rule if_not_P [OF Active_facts(2) [OF assms]])

lemma prepare_round:
  assumes q: "query pats vs" and mx: "no_max T" and E: "Entered T pats vs b x"
  shows "bi_round (poll (bi_prepare x)) = bi_round (poll x)"
proof -
  let ?y = "bi_prepare x"
  note P = prepare_active [OF q mx E]
  have A: "Active T pats vs b (poll ?y) (sorted_list_of_set (candidates T pats vs b))" using P(1) by (simp add: poll_same)
  have prep: "bi_prepare (poll ?y) = poll ?y" by (rule Active_prepared [OF q A])
  have k: "?y = ?y\<lparr>bi_polls := bi_polls x\<rparr>" using P(5) [of "bi_polls x"] by simp
  have pl: "bi_polls ?y = bi_polls x" by (subst k) simp
  have dep: "bi_depth ?y = bi_depth x" using Active_facts(6) [OF q P(1)] E by (simp add: Entered_def at_depth_def)
  have "bi_prepare (poll x) = poll ?y"
    using P(5) [of "bi_polls x + 1"] by (simp add: poll_def pl dep)
  then show ?thesis by (simp add: bi_round_def prep)
qed

lemma prepare_undone:
  assumes q: "query pats vs" and mx: "no_max T" and E: "Entered T pats vs b x"
  shows "undone (length b) (bi_prepare x)"
proof -
  have "bi_state x ! bi_depth x = None" "bi_depth x = length b" "length b < length (bi_state x)"
    using E by (auto simp: Entered_def at_depth_def base_def)
  moreover have "length (bi_state (fold (\<lambda>i y. set_iter i (h i y) y) is x)) = length (bi_state x)" for h "is"
    by (induction "is" arbitrary: x rule: rev_induct) simp_all
  ultimately show ?thesis by (simp add: bi_prepare_def Let_def undone_def ds_fresh_def)
qed

section \<open>Draining the last variable\<close>

primrec rows_below :: "row set \<Rightarrow> triple_pattern list \<Rightarrow> var list \<Rightarrow> nat \<Rightarrow> u64 list \<Rightarrow> u64 list list" where
  "rows_below T pats vs 0 b = [b]"
| "rows_below T pats vs (Suc k) b = concat (map (\<lambda>v. rows_below T pats vs k (b @ [v])) (sorted_list_of_set (candidates T pats vs b)))"

definition full_batches :: "batch list \<Rightarrow> bool" where
  "full_batches bs \<longleftrightarrow> (\<forall>c\<in>set bs. batch_rows c \<noteq> [] \<and> length (batch_rows c) \<le> standard_vector_size)"

definition drains :: "row set \<Rightarrow> triple_pattern list \<Rightarrow> var list \<Rightarrow> u64 list \<Rightarrow> batch_iter \<Rightarrow> u64 list list \<Rightarrow> u64 list list \<Rightarrow> bool" where
  "drains T pats vs b x rs out \<longleftrightarrow> (\<exists>bs y rs'. runs x bs y \<and> Active T pats vs b y [] \<and> undone (length b) y \<and> kept pats vs b x y
     \<and> holds (length vs) rs' (bi_builder y) \<and> concat (map batch_rows bs) @ rs' = rs @ out \<and> full_batches bs)"

lemma drains_go:
  assumes "bi_round (poll x) = Some (Inl y)" and "runnable y" and "kept pats vs b x y"
    and "drains T pats vs b y qs out'" and "qs @ out' = rs @ out"
  shows "drains T pats vs b x rs out"
proof -
  obtain bs z rs' where z: "runs y bs z" "Active T pats vs b z []" "undone (length b) z" "kept pats vs b y z"
    "holds (length vs) rs' (bi_builder z)" "concat (map batch_rows bs) @ rs' = qs @ out'" "full_batches bs"
    using assms(4) unfolding drains_def by blast
  have "concat (map batch_rows bs) @ rs' = rs @ out" using z(6) assms(5) by simp
  then show ?thesis
    unfolding drains_def using runs_go [OF assms(1,2) z(1)] z(2,3,5,7) kept_trans [OF assms(3) z(4)] by blast
qed

lemma drains_emit:
  assumes "bi_round (poll x) = Some (Inr (Some (Inr c), y))" and "runnable y" and "kept pats vs b x y"
    and "drains T pats vs b y qs out'" and "batch_rows c @ qs @ out' = rs @ out"
    and "batch_rows c \<noteq> []" and "length (batch_rows c) \<le> standard_vector_size"
  shows "drains T pats vs b x rs out"
proof -
  obtain bs z rs' where z: "runs y bs z" "Active T pats vs b z []" "undone (length b) z" "kept pats vs b y z"
    "holds (length vs) rs' (bi_builder z)" "concat (map batch_rows bs) @ rs' = qs @ out'" "full_batches bs"
    using assms(4) unfolding drains_def by blast
  have "concat (map batch_rows (c # bs)) @ rs' = rs @ out" using z(6) assms(5) by simp
  moreover have "full_batches (c # bs)" using z(7) assms(6,7) by (simp add: full_batches_def)
  ultimately show ?thesis
    unfolding drains_def using runs_emit [OF assms(1,2) z(1)] z(2,3,5) kept_trans [OF assms(3) z(4)] by blast
qed

lemma drains_nil:
  "Active T pats vs b x [] \<Longrightarrow> undone (length b) x \<Longrightarrow> holds (length vs) rs (bi_builder x) \<Longrightarrow> drains T pats vs b x rs []"
  unfolding drains_def full_batches_def
  by (intro exI [of _ "[]"] exI [of _ x] exI [of _ rs]) (simp add: runs_refl)

lemma leaf_drains:
  assumes q: "query pats vs" and leaf: "Suc (length b) = length vs"
  shows "Active T pats vs b x xs \<Longrightarrow> undone (length b) x \<Longrightarrow> holds (length vs) rs (bi_builder x)
    \<Longrightarrow> drains T pats vs b x rs (map (\<lambda>v. b @ [v]) xs)"
proof (induction "length xs * 3000 + length rs" arbitrary: x xs rs rule: less_induct)
  case less
  let ?n = "length vs" and ?x = "poll x"
  have n0: "0 < ?n" using leaf by linarith
  have cap: "length rs \<le> standard_vector_size" using less.prems(3) by (simp add: holds_def)
  show ?case
  proof (cases xs)
    case Nil
    then show ?thesis using drains_nil less.prems by simp
  next
    case (Cons v ws)
    have A: "Active T pats vs b ?x xs" and u: "undone (length b) ?x" using less.prems by (simp_all add: poll_same)
    from round_cases [OF q A u] show ?thesis
    proof (elim disjE conjE exE)
      fix w assume w: "bi_round ?x = (case xs of [] \<Rightarrow> bi_ascend w | v # _ \<Rightarrow> bi_bind v w)" "Active T pats vs b w (tl xs)"
        "kept pats vs b ?x w" "bi_builder w = bi_builder ?x" "xs \<noteq> [] \<longrightarrow> undone (length b) w \<and> standing pats vs b (hd xs) w"
      note FW = Active_facts [OF q w(2)]
      define w1 where "w1 = w\<lparr>bi_binding := (bi_binding w)[length b := v]\<rparr>"
      have lb: "length (bi_binding w) = ?n" using FW(1) by (simp add: at_depth_def base_def)
      have full: "bi_binding w1 = b @ [v]"
      proof -
        have "length b < length (bi_binding w)" using lb leaf by simp
        from take_Suc_conv_app_nth [OF this] have "bi_binding w = b @ [bi_binding w ! length b]" using lb leaf FW(12) by simp
        then have "w1 = w\<lparr>bi_binding := (b @ [bi_binding w ! length b])[length b := v]\<rparr>" unfolding w1_def by metis
        then show ?thesis by simp
      qed
      have bb: "bi_builder w = bi_builder x" using w(4) by (simp add: poll_same)
      obtain fl bd where p: "push_row (b @ [v]) (bi_builder x) = (fl, bd)" by (cases "push_row (b @ [v]) (bi_builder x)")
      let ?y = "w1\<lparr>bi_builder := bd\<rparr>"
      have Ay: "Active T pats vs b ?y ws"
        using Active_binding [OF w(2), of v] Cons by (simp add: w1_def [symmetric] Active_other)
      have uy: "undone (length b) ?y" using w(5) Cons by (simp add: undone_def ds_at_def w1_def)
      have ky: "kept pats vs b x ?y" using w(3) by (simp add: w1_def kept_other poll_same)
      note ry = Active_runnable [OF q Ay]
      have run: "bi_round ?x = (case fl of None \<Rightarrow> Some (Inl ?y) | Some c \<Rightarrow> Some (Inr (Some (Inr c), ?y)))"
        using w(1) Cons leaf FW(6,11) p full bb by (simp add: bi_bind_def Let_def bi_nvars_def w1_def split: option.split)
      have row: "length (b @ [v]) = ?n" using leaf by simp
      show ?thesis
      proof (cases "length rs < standard_vector_size")
        case True
        then have fl: "fl = None" "holds ?n (rs @ [b @ [v]]) bd" using push_row_holds(1) [OF n0 less.prems(3) row] p by auto
        have "drains T pats vs b ?y (rs @ [b @ [v]]) (map (\<lambda>v. b @ [v]) ws)"
          by (rule less.hyps [OF _ Ay uy]) (use fl(2) Cons in simp_all)
        then show ?thesis using drains_go [OF _ ry ky] run fl(1) Cons by simp
      next
        case False
        then have "length rs = standard_vector_size" using cap by simp
        from push_row_holds(2) [OF n0 less.prems(3) row this] p obtain c where c: "fl = Some c" "batch_rows c = rs" "holds ?n [b @ [v]] bd" by auto
        have "drains T pats vs b ?y [b @ [v]] (map (\<lambda>v. b @ [v]) ws)"
          by (rule less.hyps [OF _ Ay uy]) (use c(3) Cons in simp_all)
        moreover have "bi_round ?x = Some (Inr (Some (Inr c), ?y))" using run c(1) by simp
        moreover have "batch_rows c @ [b @ [v]] @ map (\<lambda>v. b @ [v]) ws = rs @ map (\<lambda>v. b @ [v]) xs" using c(2) Cons by simp
        moreover have "batch_rows c \<noteq> []" using c(2) \<open>length rs = standard_vector_size\<close> by (auto simp: standard_vector_size_def)
        moreover have "length (batch_rows c) \<le> standard_vector_size" using c(2) cap by simp
        ultimately show ?thesis using drains_emit [OF _ ry ky] by blast
      qed
    next
      fix m fl bd y
      assume y: "push_run_chunk b xs (bi_builder ?x) = (m, fl, bd)"
        "bi_round ?x = Some (case fl of None \<Rightarrow> Inl y | Some c \<Rightarrow> Inr (Some (Inr c), y))"
        "Active T pats vs b y (drop m xs)" "undone (length b) y" "kept pats vs b ?x y" "bi_builder y = bd"
      have ky: "kept pats vs b x y" using y(5) by (simp add: poll_same)
      note ry = Active_runnable [OF q y(3)]
      have p: "push_run_chunk b xs (bi_builder x) = (m, fl, bd)" using y(1) by (simp add: poll_same)
      have split: "(rs @ map (\<lambda>v. b @ [v]) (take m xs)) @ map (\<lambda>v. b @ [v]) (drop m xs) = rs @ map (\<lambda>v. b @ [v]) xs"
        by (simp flip: map_append)
      have "length (rs @ map (\<lambda>v. b @ [v]) (take m xs)) < standard_vector_size \<and> 0 < m \<and> fl = None
          \<and> holds ?n (rs @ map (\<lambda>v. b @ [v]) (take m xs)) bd
        \<or> length (rs @ map (\<lambda>v. b @ [v]) (take m xs)) = standard_vector_size
          \<and> (\<exists>c. fl = Some c \<and> batch_rows c = rs @ map (\<lambda>v. b @ [v]) (take m xs) \<and> holds ?n [] bd)"
      proof -
        have ne: "xs \<noteq> []" using Cons by simp
        note pc = push_chunk_holds [OF less.prems(3) leaf [symmetric] ne, unfolded p prod.inject]
        have m: "m = min (length xs) (standard_vector_size - length rs)" using pc by blast
        from pc show ?thesis unfolding m [symmetric] by blast
      qed
      then show ?thesis
      proof (elim disjE conjE exE)
        assume h: "length (rs @ map (\<lambda>v. b @ [v]) (take m xs)) < standard_vector_size" "0 < m" "fl = None"
          "holds ?n (rs @ map (\<lambda>v. b @ [v]) (take m xs)) bd"
        have "length (drop m xs) < length xs" using h(2) Cons by simp
        then have "length (drop m xs) * 3000 + length (rs @ map (\<lambda>v. b @ [v]) (take m xs)) < length xs * 3000 + length rs"
          using h(1) by (simp add: standard_vector_size_def)
        then have "drains T pats vs b y (rs @ map (\<lambda>v. b @ [v]) (take m xs)) (map (\<lambda>v. b @ [v]) (drop m xs))"
          using less.hyps [OF _ y(3,4)] h(4) y(6) by simp
        then show ?thesis using drains_go [OF _ ry ky _ split] y(2) h(3) by simp
      next
        fix c assume h: "length (rs @ map (\<lambda>v. b @ [v]) (take m xs)) = standard_vector_size" "fl = Some c"
          "batch_rows c = rs @ map (\<lambda>v. b @ [v]) (take m xs)" "holds ?n [] bd"
        have "length (drop m xs) < length xs \<or> 0 < length rs" using h(1) Cons by (cases m) (auto simp: standard_vector_size_def)
        moreover have "length (drop m xs) \<le> length xs" "length ([] :: u64 list list) = 0" by simp_all
        ultimately have "length (drop m xs) * 3000 + length ([] :: u64 list list) < length xs * 3000 + length rs" by linarith
        then have "drains T pats vs b y [] (map (\<lambda>v. b @ [v]) (drop m xs))"
          using less.hyps [OF _ y(3,4)] h(4) y(6) by simp
        moreover have "batch_rows c @ [] @ map (\<lambda>v. b @ [v]) (drop m xs) = rs @ map (\<lambda>v. b @ [v]) xs"
          using split h(3) by simp
        moreover have "batch_rows c \<noteq> []" "length (batch_rows c) \<le> standard_vector_size"
          using h(1,3) by (auto simp: standard_vector_size_def)
        ultimately show ?thesis using drains_emit [OF _ ry ky] y(2) h(2) by simp
      qed
    qed
  qed
qed

section \<open>Draining an inner variable\<close>

lemma exhausted_round:
  assumes q: "query pats vs" and A: "Active T pats vs b x []" and u: "undone (length b) x"
  shows "\<exists>w. bi_round (poll x) = bi_ascend w \<and> Active T pats vs b w [] \<and> kept pats vs b x w \<and> bi_builder w = bi_builder x"
proof -
  have "Active T pats vs b (poll x) []" "undone (length b) (poll x)" using A u by (simp_all add: poll_same)
  from round_cases [OF q this] show ?thesis by (auto simp: poll_same)
qed

lemma entered_drains:
  assumes q: "query pats vs" and mx: "no_max T" and E: "Entered T pats vs b z" and h: "holds (length vs) rs (bi_builder z)"
    and D: "\<And>x. Active T pats vs b x (sorted_list_of_set (candidates T pats vs b)) \<Longrightarrow> undone (length b) x
      \<Longrightarrow> holds (length vs) rs (bi_builder x) \<Longrightarrow> drains T pats vs b x rs out"
  shows "\<exists>bs u rs' w. runs z bs u \<and> bi_round (poll u) = bi_ascend w \<and> Active T pats vs b w [] \<and> kept pats vs b z w
    \<and> holds (length vs) rs' (bi_builder w) \<and> concat (map batch_rows bs) @ rs' = rs @ out \<and> full_batches bs"
proof -
  note P = prepare_active [OF q mx E]
  have "drains T pats vs b (bi_prepare z) rs out"
    using D [OF P(1) prepare_undone [OF q mx E]] h P(3) by simp
  then obtain bs y rs' where y: "runs (bi_prepare z) bs y" "Active T pats vs b y []" "undone (length b) y" "kept pats vs b (bi_prepare z) y"
    "holds (length vs) rs' (bi_builder y)" "concat (map batch_rows bs) @ rs' = rs @ out" "full_batches bs"
    unfolding drains_def by blast
  obtain u where u: "runs z bs u" "bi_round (poll u) = bi_round (poll y)"
    using runs_prepared [OF y(1) prepare_round [OF q mx E]] by blast
  obtain w where w: "bi_round (poll y) = bi_ascend w" "Active T pats vs b w []" "kept pats vs b y w" "bi_builder w = bi_builder y"
    using exhausted_round [OF q y(2,3)] by blast
  have "kept pats vs b z w" by (rule kept_trans [OF P(2) kept_trans [OF y(4) w(3)]])
  then show ?thesis using u w(1,2,4) y(5-7) by (intro exI [of _ bs] exI [of _ u] exI [of _ rs'] exI [of _ w]) simp
qed

lemma depth_drains:
  assumes q: "query pats vs" and mx: "no_max T"
  shows "length vs = Suc (length b + k) \<Longrightarrow> Active T pats vs b x xs \<Longrightarrow> undone (length b) x \<Longrightarrow> holds (length vs) rs (bi_builder x)
    \<Longrightarrow> drains T pats vs b x rs (concat (map (\<lambda>v. rows_below T pats vs k (b @ [v])) xs))"
proof (induction k arbitrary: b x xs rs)
  case 0
  have "concat (map (\<lambda>v. rows_below T pats vs 0 (b @ [v])) xs) = map (\<lambda>v. b @ [v]) xs" by (induction xs) simp_all
  then show ?case using leaf_drains [OF q _ 0(2-4)] 0(1) by simp
next
  case (Suc k)
  have inner: "Suc (length b) < length vs" using Suc.prems(1) by simp
  show ?case using Suc.prems(2-4)
  proof (induction xs arbitrary: x rs)
    case Nil
    then show ?case using drains_nil by simp
  next
    case (Cons v xs)
    let ?out = "rows_below T pats vs (Suc k) (b @ [v])"
    have A: "Active T pats vs b (poll x) (v # xs)" and u: "undone (length b) (poll x)"
      using Cons.prems by (simp_all add: poll_same)
    obtain w where w: "bi_round (poll x) = bi_bind v w" "Active T pats vs b w xs" "kept pats vs b (poll x) w"
      "bi_builder w = bi_builder (poll x)" "undone (length b) w" "standing pats vs b v w"
      using round_cases [OF q A u] inner by (elim disjE exE conjE) simp_all
    obtain z where z: "bi_bind v w = Some (Inl z)" "Entered T pats vs (b @ [v]) z" "below pats vs b w z" "bi_builder z = bi_builder w"
      using bind_descends [OF q w(2) inner w(6)] by blast
    have hz: "holds (length vs) rs (bi_builder z)" using Cons.prems(3) z(4) w(4) by (simp add: poll_same)
    have sub: "drains T pats vs (b @ [v]) y rs ?out"
      if "Active T pats vs (b @ [v]) y (sorted_list_of_set (candidates T pats vs (b @ [v])))" "undone (length (b @ [v])) y"
        "holds (length vs) rs (bi_builder y)" for y
      using Suc.IH [of "b @ [v]", OF _ that] Suc.prems(1) by simp
    from entered_drains [OF q mx z(2) hz sub] obtain bs y rs' w' where
      y: "runs z bs y" "bi_round (poll y) = bi_ascend w'" "Active T pats vs (b @ [v]) w' []" "kept pats vs (b @ [v]) z w'"
        "holds (length vs) rs' (bi_builder w')" "concat (map batch_rows bs) @ rs' = rs @ ?out" "full_batches bs" by blast
    obtain t where t: "bi_ascend w' = Some (Inl t)" "Active T pats vs b t xs" "undone (length b) t" "kept pats vs b w t"
      "bi_builder t = bi_builder w'"
      using ascend_returns [OF q w(2,5) z(3) y(3,4)] by blast
    have ht: "holds (length vs) rs' (bi_builder t)" using y(5) t(5) by simp
    from Cons.IH [OF t(2,3) ht] obtain cs s rs2 where
      s: "runs t cs s" "Active T pats vs b s []" "undone (length b) s" "kept pats vs b t s" "holds (length vs) rs2 (bi_builder s)"
        "concat (map batch_rows cs) @ rs2 = rs' @ concat (map (\<lambda>v. rows_below T pats vs (Suc k) (b @ [v])) xs)" "full_batches cs"
      unfolding drains_def by blast
    have "runs y [] t" using runs_one [OF _ Active_runnable [OF q t(2)]] y(2) t(1) by simp
    then have "runs z (bs @ [] @ cs) s" by (rule runs_trans [OF y(1) runs_trans [OF _ s(1)]])
    moreover have "bi_round (poll x) = Some (Inl z)" unfolding w(1) by (rule z(1))
    ultimately have R: "runs x (bs @ cs) s" using runs_go [OF _ Entered_runnable [OF q z(2)]] by simp
    have K: "kept pats vs b x s" using kept_trans [OF w(3) kept_trans [OF t(4) s(4)]] by (simp add: poll_same)
    have "concat (map batch_rows bs) @ (concat (map batch_rows cs) @ rs2) = (rs @ ?out) @ concat (map (\<lambda>v. rows_below T pats vs (Suc k) (b @ [v])) xs)"
      unfolding s(6) y(6) [symmetric] by (simp only: append_assoc)
    then have C: "concat (map batch_rows (bs @ cs)) @ rs2 = rs @ concat (map (\<lambda>v. rows_below T pats vs (Suc k) (b @ [v])) (v # xs))"
      by (simp only: map_append concat_append append_assoc list.map concat.simps)
    have B: "full_batches (bs @ cs)" using y(7) s(7) unfolding full_batches_def set_append by (simp only: ball_Un)
    show ?case unfolding drains_def
      by (intro exI [of _ "bs @ cs"] exI [of _ s] exI [of _ rs2] conjI) (fact R s(2) s(3) K s(5) C B)+
  qed
qed

text \<open>The last round at the first variable flushes the builder and ends the stream.\<close>

lemma ascend_finishes:
  assumes q: "query pats vs" and A: "Active T pats vs [] w []" and h: "holds (length vs) rs (bi_builder w)"
  shows "\<exists>r y. bi_ascend w = Some (Inr (map_option Inr r, y)) \<and> bi_finished y
    \<and> (case r of None \<Rightarrow> rs = [] | Some c \<Rightarrow> batch_rows c = rs \<and> full_batches [c])"
proof -
  note F = Active_facts [OF q A]
  have n: "0 < length vs" using F(7) by simp
  obtain y where y: "each_iter ad_reset (bi_top w ! 0) w = Some y" "y\<lparr>bi_iters := bi_iters w\<rparr> = w"
    using reset_tops [OF q A] by auto
  have bb: "bi_builder y = bi_builder w" using arg_cong [OF y(2), of bi_builder] by simp
  have d: "bi_depth w = 0" using F(6) by simp
  obtain r bd where f: "finish_internal (bi_builder w) = (r, bd)" by (cases "finish_internal (bi_builder w)")
  let ?y = "y\<lparr>bi_state := (bi_state y)[0 := None], bi_finished := True, bi_builder := bd\<rparr>"
  have run: "bi_ascend w = Some (Inr (map_option Inr r, ?y))"
    using y(1) d f bb by (simp add: bi_ascend_def Let_def finish_def)
  have "case r of None \<Rightarrow> rs = [] | Some c \<Rightarrow> batch_rows c = rs \<and> full_batches [c]"
  proof (cases "rs = []")
    case True
    then show ?thesis using finish_holds(1) [OF n h] f by simp
  next
    case False
    then show ?thesis using finish_holds(2) [OF n h] f h by (auto simp: full_batches_def holds_def)
  qed
  then show ?thesis using run by (intro exI [of _ r] exI [of _ ?y]) simp
qed

end
