(* ===== verification/Wcoj_Exact.thy ===== *)
theory Wcoj_Exact imports Wcoj_Join begin

text \<open>
  What the leapfrog triejoin computes: the stream of a new executor ends and its batches hold exactly
  the rows of values under which every pattern of the query is a triple of the source.
\<close>

section \<open>Solutions\<close>

definition matches :: "row set \<Rightarrow> triple_pattern \<Rightarrow> binding \<Rightarrow> bool" where
  "matches T pat m \<longleftrightarrow> (\<exists>(s, p, ob)\<in>T. value_of m (pat_s pat) = Some s \<and> value_of m (pat_p pat) = Some p \<and> value_of m (pat_o pat) = Some ob)"

definition solves :: "row set \<Rightarrow> triple_pattern list \<Rightarrow> var list \<Rightarrow> u64 list \<Rightarrow> bool" where
  "solves T bgp vs b \<longleftrightarrow> length b = length vs \<and> (\<forall>pat\<in>set bgp. matches T pat (map_of (zip vs b)))"

definition fits :: "row set \<Rightarrow> triple_pattern \<Rightarrow> var list \<Rightarrow> u64 list \<Rightarrow> bool" where
  "fits T pat vs b \<longleftrightarrow> (\<exists>r\<in>trie_set T pat vs. take (length (path_of pat vs b)) (comps r) = path_of pat vs b)"

lemma take_zip_right: "take k (zip vs b) = zip vs (take k b)"
proof (induction vs arbitrary: k b)
  case (Cons v vs)
  then show ?case by (cases k; cases b) simp_all
qed simp

lemma path_take: "path_of pat vs (take k b) = take (length (path_of pat vs (take k b))) (path_of pat vs b)"
proof -
  have "zip vs b = zip vs (take k b) @ drop k (zip vs b)" by (metis append_take_drop_id take_zip_right)
  then have "filter P (zip vs b) = filter P (zip vs (take k b)) @ filter P (drop k (zip vs b))" for P by (metis filter_append)
  then show ?thesis by (simp add: path_of_def)
qed

lemma fits_take:
  assumes "fits T pat vs b"
  shows "fits T pat vs (take k b)"
proof -
  let ?p = "path_of pat vs b" and ?q = "path_of pat vs (take k b)"
  obtain r where r: "r \<in> trie_set T pat vs" "take (length ?p) (comps r) = ?p" using assms by (auto simp: fits_def)
  have q: "?q = take (length ?q) ?p" by (rule path_take)
  have "length ?q \<le> length ?p" using arg_cong [OF q, of length] by simp
  then have "take (length ?q) (comps r) = take (length ?q) ?p" by (subst r(2) [symmetric]) (simp add: min_def)
  then show ?thesis using r(1) q unfolding fits_def by metis
qed

lemma candidate_fits:
  assumes q: "query pats vs" and b: "length b < length vs"
  shows "v \<in> candidates T pats vs b \<longleftrightarrow> (\<forall>i. takes_part pats vs (length b) i \<longrightarrow> fits T (pats ! i) vs (b @ [v]))"
proof -
  have one: "v \<in> children (trie_set T (pats ! i) vs) (path_of (pats ! i) vs b) \<longleftrightarrow> fits T (pats ! i) vs (b @ [v])"
    if t: "takes_part pats vs (length b) i" for i
  proof -
    let ?p = "path_of (pats ! i) vs b"
    have part: "vs ! length b \<in> pattern_vars (pats ! i)" "i < length pats" using t by (simp_all add: takes_part_def)
    have l: "length ?p < 3" using path_part [OF query_pat(1) [OF q part(2)] b part(1)] by simp
    have e: "path_of (pats ! i) vs (b @ [v]) = ?p @ [v]" using path_snoc [OF b] part(1) by simp
    have "take (Suc (length ?p)) (comps r) = ?p @ [v] \<longleftrightarrow> take (length ?p) (comps r) = ?p \<and> comps r ! length ?p = v" for r
    proof -
      have "length ?p < length (comps r)" using l comps_eq(1) [of r] by simp
      from take_Suc_conv_app_nth [OF this] show ?thesis by auto
    qed
    then show ?thesis unfolding fits_def e children_def by auto
  qed
  show ?thesis unfolding candidates_def using schedule(2) [OF q b] one by auto
qed

lemma fits_unseen:
  assumes "length b < length vs" and "vs ! length b \<notin> pattern_vars pat"
  shows "fits T pat vs (b @ [v]) \<longleftrightarrow> fits T pat vs b"
  using path_snoc [OF assms(1), of pat v] assms(2) by (simp add: fits_def)

lemma path_settled:
  assumes "length b = length vs" and "seen pat vs k = seen pat vs (length vs)" and "k \<le> length vs"
  shows "path_of pat vs (take k b) = path_of pat vs b"
  using path_take [of pat vs k b] length_path [of b vs pat] length_path [of "take k b" vs pat] assms by simp

lemma candidates_finite:
  assumes q: "query pats vs" and b: "length b < length vs" and T: "finite T"
  shows "finite (candidates T pats vs b)"
proof -
  obtain i where i: "i \<in> set (contributing pats vs ! length b)" using contributing_ne [OF q b] by (cases "contributing pats vs ! length b") auto
  have "finite (children (trie_set T (pats ! i) vs) ks)" for ks
    using T unfolding children_def trie_set_def by simp
  then show ?thesis unfolding candidates_def by (rule finite_subset [rotated]) (use i in blast)
qed

text \<open>Below a prefix the search yields the rows that extend it and that every pattern still open fits.\<close>

lemma rows_below_set:
  assumes q: "query pats vs" and T: "finite T"
  shows "length b + k = length vs \<Longrightarrow> r \<in> set (rows_below T pats vs k b) \<longleftrightarrow> length r = length vs \<and> take (length b) r = b
    \<and> (\<forall>i<length pats. seen (pats ! i) vs (length b) < seen (pats ! i) vs (length vs) \<longrightarrow> fits T (pats ! i) vs r)"
proof (induction k arbitrary: b)
  case 0
  then show ?case by auto
next
  case (Suc k)
  let ?d = "length b"
  have b: "?d < length vs" and b': "length (b @ [v]) + k = length vs" for v using Suc.prems by simp_all
  have sn: "seen (pats ! i) vs (Suc ?d) = seen (pats ! i) vs ?d + (if takes_part pats vs ?d i then 1 else 0)" if "i < length pats" for i
    using that seen_Suc [OF b] by (simp add: takes_part_def)
  have "r \<in> set (rows_below T pats vs (Suc k) b) \<longleftrightarrow> (\<exists>v\<in>candidates T pats vs b. r \<in> set (rows_below T pats vs k (b @ [v])))"
    using candidates_finite [OF q b T] by simp
  also have "\<dots> \<longleftrightarrow> (\<exists>v. v \<in> candidates T pats vs b \<and> length r = length vs \<and> take (Suc ?d) r = b @ [v]
      \<and> (\<forall>i<length pats. seen (pats ! i) vs (Suc ?d) < seen (pats ! i) vs (length vs) \<longrightarrow> fits T (pats ! i) vs r))"
    unfolding Suc.IH [OF b'] by auto
  also have "\<dots> \<longleftrightarrow> length r = length vs \<and> take ?d r = b
      \<and> (\<forall>i<length pats. seen (pats ! i) vs ?d < seen (pats ! i) vs (length vs) \<longrightarrow> fits T (pats ! i) vs r)" (is "?L \<longleftrightarrow> ?R")
  proof
    assume ?L
    then obtain v where v: "v \<in> candidates T pats vs b" "length r = length vs" "take (Suc ?d) r = b @ [v]"
      and all: "\<And>i. i < length pats \<Longrightarrow> seen (pats ! i) vs (Suc ?d) < seen (pats ! i) vs (length vs) \<Longrightarrow> fits T (pats ! i) vs r" by blast
    have "fits T (pats ! i) vs r" if i: "i < length pats" "seen (pats ! i) vs ?d < seen (pats ! i) vs (length vs)" for i
    proof (cases "seen (pats ! i) vs (Suc ?d) < seen (pats ! i) vs (length vs)")
      case True
      then show ?thesis by (rule all [OF i(1)])
    next
      case False
      then have s: "seen (pats ! i) vs (Suc ?d) = seen (pats ! i) vs (length vs)" using seen_mono [of "Suc ?d" "length vs" "pats ! i" vs] b by simp
      then have "takes_part pats vs ?d i" using sn [OF i(1)] i(2) by (auto split: if_splits)
      then have "fits T (pats ! i) vs (take (Suc ?d) r)" using candidate_fits [OF q b] v(1) unfolding v(3) by blast
      then show ?thesis unfolding fits_def path_settled [OF v(2) s Suc_leI [OF b]] .
    qed
    moreover have "take ?d r = b" using arg_cong [OF v(3), of "take ?d"] by (simp add: min_def)
    ultimately show ?R using v(2) by blast
  next
    assume R: ?R
    then have r: "length r = length vs" "take ?d r = b" by simp_all
    then have tk: "take (Suc ?d) r = b @ [r ! ?d]" using take_Suc_conv_app_nth [of ?d r] b by simp
    have all: "fits T (pats ! i) vs r" if "i < length pats" "seen (pats ! i) vs ?d < seen (pats ! i) vs (length vs)" for i
      using R that by blast
    have "fits T (pats ! i) vs (b @ [r ! ?d])" if t: "takes_part pats vs ?d i" for i
    proof -
      have i: "i < length pats" using t by (simp add: takes_part_def)
      have "seen (pats ! i) vs ?d < seen (pats ! i) vs (length vs)"
        using sn [OF i] t seen_mono [of "Suc ?d" "length vs" "pats ! i" vs] b by simp
      from fits_take [OF all [OF i this], of "Suc ?d"] show ?thesis using r(1) tk by simp
    qed
    then have "r ! ?d \<in> candidates T pats vs b" using candidate_fits [OF q b] by blast
    moreover have "fits T (pats ! i) vs r" if "i < length pats" "seen (pats ! i) vs (Suc ?d) < seen (pats ! i) vs (length vs)" for i
      using all [OF that(1)] that(2) seen_mono [of ?d "Suc ?d" "pats ! i" vs] by simp
    ultimately show ?L using r(1) tk by blast
  qed
  finally show ?case .
qed

text \<open>A full path is a triple the pattern is instantiated to.\<close>

lemma zip_lookup: "distinct vs \<Longrightarrow> (v, x) \<in> set (zip vs b) \<Longrightarrow> map_of (zip vs b) v = Some x"
proof (induction vs arbitrary: b)
  case (Cons w vs)
  then show ?case by (cases b) (auto dest: set_zip_leftD)
qed simp

lemma path_values:
  assumes ok: "pat_ok pat vs" and len: "length b = length vs"
  shows "map (value_of (map_of (zip vs b))) (phys_terms pat (ordering_for pat vs)) = map Some (path_of pat vs b)"
proof -
  let ?m = "map_of (zip vs b)" and ?P = "\<lambda>v. v \<in> pattern_vars pat"
  have "vars_of pat vs = filter ?P (map fst (zip vs b))" using len by (simp add: vars_of_def)
  also have "\<dots> = map fst (filter (\<lambda>(v, x). ?P v) (zip vs b))" by (simp add: filter_map comp_def case_prod_unfold)
  finally have v: "vars_of pat vs = map fst (filter (\<lambda>(v, x). ?P v) (zip vs b))" .
  have look: "?m (fst e) = Some (snd e)" if "e \<in> set (zip vs b)" for e
    using zip_lookup [of vs "fst e" "snd e" b] ok that by (simp add: pat_ok_def)
  have "map (value_of ?m) (map Var (vars_of pat vs)) = map Some (map snd (filter (\<lambda>(v, x). ?P v) (zip vs b)))"
    unfolding v by (simp add: comp_def) (use look in auto)
  moreover have "map (value_of ?m) (map Bound (constants pat vs)) = map Some (constants pat vs)" by (simp add: comp_def)
  ultimately show ?thesis unfolding ordered_terms [OF ok] path_of_def by (simp only: map_append)
qed

lemma permuted_values:
  "map (value_of m) (phys_terms pat ord) = map Some (comps (by_ordering (s, p, ob) ord))
    \<longleftrightarrow> value_of m (pat_s pat) = Some s \<and> value_of m (pat_p pat) = Some p \<and> value_of m (pat_o pat) = Some ob"
  by (cases ord) (auto simp: phys_terms_def comps_def by_ordering_def)

lemma fits_matches:
  assumes ok: "pat_ok pat vs" and len: "length b = length vs"
  shows "fits T pat vs b \<longleftrightarrow> matches T pat (map_of (zip vs b))"
proof -
  let ?p = "path_of pat vs b" and ?m = "map_of (zip vs b)" and ?ord = "ordering_for pat vs"
  have "length ?p = 3" using arg_cong [OF path_values [OF ok len], of length] by (simp add: phys_terms_def split: prod.splits)
  then have whole: "take (length ?p) (comps r) = comps r" for r using comps_eq(1) [of r] by simp
  have e: "(comps (by_ordering (s, p, ob) ?ord) = ?p) \<longleftrightarrow> value_of ?m (pat_s pat) = Some s \<and> value_of ?m (pat_p pat) = Some p \<and> value_of ?m (pat_o pat) = Some ob"
    for s p ob
    unfolding permuted_values [symmetric, where ord = ?ord] path_values [OF ok len] by (auto simp: inj_map_eq_map)
  have "fits T pat vs b \<longleftrightarrow> (\<exists>t\<in>T. comps (by_ordering t ?ord) = ?p)" unfolding fits_def whole trie_set_def by blast
  also have "\<dots> \<longleftrightarrow> (\<exists>(s, p, ob)\<in>T. comps (by_ordering (s, p, ob) ?ord) = ?p)" by (simp add: case_prod_unfold)
  finally show ?thesis unfolding e matches_def .
qed

lemma rows_below_solutions:
  assumes q: "query pats vs" and T: "finite T"
  shows "set (rows_below T pats vs (length vs) []) = {b. solves T pats vs b}"
proof -
  have open_: "seen (pats ! i) vs 0 < seen (pats ! i) vs (length vs)" if i: "i < length pats" for i
  proof -
    have "seen (pats ! i) vs (length vs) = length (vars_of (pats ! i) vs)" by (simp add: seen_def vars_of_def)
    then show ?thesis using query_pat(3) [OF q i] by (simp add: seen_def)
  qed
  have "r \<in> set (rows_below T pats vs (length vs) []) \<longleftrightarrow> length r = length vs \<and> (\<forall>i<length pats. fits T (pats ! i) vs r)" for r
    using rows_below_set [OF q T, of "[]" "length vs" r] open_ by auto
  moreover have "solves T pats vs r \<longleftrightarrow> length r = length vs \<and> (\<forall>i<length pats. fits T (pats ! i) vs r)" for r
    unfolding solves_def using fits_matches [OF query_pat(1) [OF q]] by (auto simp: all_set_conv_all_nth)
  ultimately show ?thesis by blast
qed

text \<open>The rows come in lexicographic order.\<close>

lemma rows_below_prefix: "r \<in> set (rows_below T pats vs k b) \<Longrightarrow> \<exists>t. r = b @ t"
proof (induction k arbitrary: b)
  case (Suc k)
  then show ?case by fastforce
qed simp

lemma rows_below_sorted: "sorted_wrt ord_class.lexordp (rows_below T pats vs k b)"
proof (induction k arbitrary: b)
  case (Suc k)
  have "sorted_wrt (<) xs \<Longrightarrow> sorted_wrt ord_class.lexordp (concat (map (\<lambda>v. rows_below T pats vs k (b @ [v])) xs))" for xs
  proof (induction xs)
    case (Cons v xs)
    have "ord_class.lexordp r r'" if r: "r \<in> set (rows_below T pats vs k (b @ [v]))"
      and r': "r' \<in> set (concat (map (\<lambda>v. rows_below T pats vs k (b @ [v])) xs))" for r r'
    proof -
      obtain w where w: "w \<in> set xs" "r' \<in> set (rows_below T pats vs k (b @ [w]))" using r' by auto
      have "v < w" using Cons.prems w(1) by simp
      moreover obtain t t' where "r = (b @ [v]) @ t" "r' = (b @ [w]) @ t'" using rows_below_prefix [OF r] rows_below_prefix [OF w(2)] by blast
      ultimately show ?thesis by (simp add: lexordp_append_leftI)
    qed
    then show ?case using Cons Suc.IH by (simp add: sorted_wrt_append)
  qed simp
  then show ?case by simp
qed simp

section \<open>The patterns without variables\<close>

lemma child_step: "children S [] = {a | a b c. (a, b, c) \<in> S}" "children S [s] = {b | b c. (s, b, c) \<in> S}"
  "children S [s, p] = {c. (s, p, c) \<in> S}"
  by (force simp: children_def comps_def split: prod.splits)+

lemma ground_hit_spec:
  assumes src: "source_of src T"
  shows "ground_hit src \<lparr>pat_s = Bound s, pat_p = Bound p, pat_o = Bound ob\<rparr> = Some ((s, p, ob) \<in> T)"
proof -
  have S: "(\<lambda>t. by_ordering t Spo) ` T = T" by (force simp: by_ordering_def)
  define it where "it = source_iter src Spo"
  have i0: "on_path it T []" "keys it 0 = sorted_list_of_set (children T [])"
    using source_iter_path(1,2) [OF src, of Spo] unfolding S it_def .
  have h0: "peek (seek 0 s it) 0 = Some s \<longleftrightarrow> s \<in> children T []" using seek_at_start [OF i0(1), of s] i0(2) by simp
  show ?thesis
  proof (cases "s \<in> children T []")
    case False
    then have "(s, p, ob) \<notin> T" by (auto simp: child_step)
    then show ?thesis using h0 False by (simp add: ground_hit_def Let_def it_def)
  next
    case True
    have p0: "on_path (seek 0 s it) T []" using seek_path [OF i0(1)] by simp
    obtain it1 where i1: "open_level 1 (seek 0 s it) = Some it1" "on_path it1 T [s]" "keys it1 1 = sorted_list_of_set (children T [s])"
      using descend [OF p0, of s] h0 True by auto
    have h1: "peek (seek 1 p it1) 1 = Some p \<longleftrightarrow> p \<in> children T [s]" using seek_at_start [OF i1(2), of p] i1(3) by simp
    show ?thesis
    proof (cases "p \<in> children T [s]")
      case False
      then have "(s, p, ob) \<notin> T" by (auto simp: child_step)
      then show ?thesis using h0 \<open>s \<in> children T []\<close> h1 False i1(1) by (simp add: ground_hit_def Let_def it_def)
    next
      case p: True
      have p1: "on_path (seek 1 p it1) T [s]" using seek_path [OF i1(2)] by simp
      obtain it2 where i2: "open_level 2 (seek 1 p it1) = Some it2" "on_path it2 T [s, p]" "keys it2 2 = sorted_list_of_set (children T [s, p])"
        using descend [OF p1, of p] h1 p by (auto simp: numeral_2_eq_2)
      have h2: "peek (seek 2 ob it2) 2 = Some ob \<longleftrightarrow> ob \<in> children T [s, p]"
        using seek_at_start [OF i2(2), of ob] i2(3) by (simp add: numeral_2_eq_2)
      show ?thesis using h0 \<open>s \<in> children T []\<close> h1 p i1(1) i2(1) h2 by (simp add: ground_hit_def Let_def it_def child_step)
    qed
  qed
qed

lemma ground_check_spec:
  assumes src: "source_of src T"
  shows "ground_check src bgp = Some (\<forall>pat\<in>set bgp. is_ground pat \<longrightarrow> matches T pat m)"
proof (induction bgp)
  case (Cons pat bgp)
  show ?case
  proof (cases "is_ground pat")
    case True
    then obtain s p ob where pat: "pat = \<lparr>pat_s = Bound s, pat_p = Bound p, pat_o = Bound ob\<rparr>"
      by (cases pat; cases "pat_s pat"; cases "pat_p pat"; cases "pat_o pat") (auto simp: is_ground_def)
    then have "matches T pat m \<longleftrightarrow> (s, p, ob) \<in> T" by (auto simp: matches_def)
    then show ?thesis using True Cons ground_hit_spec [OF src, of s p ob] by (simp add: pat)
  next
    case False
    then show ?thesis using Cons by simp
  qed
qed simp

section \<open>A new executor\<close>

definition eliminates :: "triple_pattern list \<Rightarrow> var list \<Rightarrow> bool" where
  "eliminates bgp vs \<longleftrightarrow> vs \<noteq> [] \<and> length vs < 256 \<and> distinct vs \<and> (\<forall>pat\<in>set bgp. no_repeat pat)
     \<and> set vs = (\<Union>pat\<in>set bgp. pattern_vars pat)"

lemma eliminates_query:
  assumes "eliminates bgp vs"
  shows "query (filter (\<lambda>pat. \<not> is_ground pat) bgp) vs"
  using assms unfolding eliminates_def query_def pat_ok_def by (auto simp: ground_vars)

lemma build_iters_spec:
  assumes src: "source_of src T" and ok: "\<forall>pat\<in>set pats. pat_ok pat vs \<and> vars_of pat vs \<noteq> []"
  shows "\<exists>as. build_iters src vs pats = Some as \<and> length as = length pats
    \<and> (\<forall>i<length pats. entered T (pats ! i) vs [] (as ! i))"
  using ok
proof (induction pats)
  case (Cons pat pats)
  obtain it where it: "pt_new src pat vs (ordering_for pat vs) = Some (pt_at pat vs it)" "parked it (trie_set T pat vs) (constants pat vs)"
    using pt_new_spec [OF src, of pat vs] Cons.prems by auto
  obtain as where as: "build_iters src vs pats = Some as" "length as = length pats" "\<forall>i<length pats. entered T (pats ! i) vs [] (as ! i)"
    using Cons by auto
  have "entered T pat vs [] (ad_at pat vs it)" using it(2) by (simp add: entered_def seen_def)
  then have "\<forall>i<length (pat # pats). entered T ((pat # pats) ! i) vs [] ((ad_at pat vs it # as) ! i)"
    using as(3) by (auto simp: nth_Cons split: nat.split)
  then show ?case using it(1) as(1,2) by (simp add: ad_at_def)
qed simp

lemma bi_new_spec:
  assumes src: "source_of src T" and el: "eliminates bgp vs"
  defines "pats \<equiv> filter (\<lambda>pat. \<not> is_ground pat) bgp"
  shows "\<exists>x. bi_new src bgp vs = Some x \<and> bi_polls x = 0 \<and>
    (if \<forall>pat\<in>set bgp. is_ground pat \<longrightarrow> matches T pat m
     then Entered T pats vs [] x \<and> holds (length vs) [] (bi_builder x) \<and> bi_depth x = 0 else bi_finished x)"
proof -
  note g = ground_check_spec [OF src, of bgp m]
  have q: "query pats vs" unfolding pats_def by (rule eliminates_query [OF el])
  note t = tops_of_spec(1) [OF q]
  show ?thesis
  proof (cases "\<forall>pat\<in>set bgp. is_ground pat \<longrightarrow> matches T pat m")
    case True
    have "\<forall>pat\<in>set pats. pat_ok pat vs \<and> vars_of pat vs \<noteq> []" using query_pat(1,3) [OF q] by (metis in_set_conv_nth)
    then obtain as where as: "build_iters src vs pats = Some as" "length as = length pats" "\<forall>i<length pats. entered T (pats ! i) vs [] (as ! i)"
      using build_iters_spec [OF src] by blast
    let ?x = "\<lparr>bi_vars = vs, bi_builder = bb_new vs, bi_iters = as, bi_contrib = contributing pats vs,
            bi_descend = descend_at pats vs, bi_top = top_at (tops_of pats vs) vs, bi_carry = carry_at pats (tops_of pats vs) vs,
            bi_state = replicate (length vs) None, bi_sorted = replicate (length vs) [],
            bi_buf = replicate (length vs) [], bi_binding = replicate (length vs) 0,
            bi_depth = 0, bi_finished = False, bi_polls = 0\<rparr>"
    have "bi_new src bgp vs = Some ?x" using g True as(1) t unfolding bi_new_def pats_def by (simp add: Let_def)
    moreover have "Entered T pats vs [] ?x"
      using as el unfolding Entered_def at_depth_def base_def eliminates_def by simp
    ultimately show ?thesis unfolding if_P [OF True] using holds_new [of vs] by (intro exI [of _ ?x]) simp
  next
    case False
    then have "ground_check src bgp = Some False" using g by simp
    then have "\<exists>x. bi_new src bgp vs = Some x \<and> bi_polls x = 0 \<and> bi_finished x"
      using t unfolding bi_new_def pats_def by (simp add: Let_def)
    then show ?thesis unfolding if_not_P [OF False] .
  qed
qed

section \<open>The stream\<close>

lemma runs_runnable: "runs x bs y \<Longrightarrow> runnable x \<Longrightarrow> runnable y"
  by (induction rule: runs.induct) simp_all

definition stopped :: "(nat \<Rightarrow> bool) \<Rightarrow> batch_iter \<Rightarrow> bool" where
  "stopped cancel x \<longleftrightarrow> bi_depth x = 0 \<and> cancel (bi_polls x)"

lemma step_runs:
  assumes "runnable x"
  shows "stopped cancel x \<Longrightarrow> bi_step cancel x = Some (Some (Inl Cancelled), (poll x)\<lparr>bi_finished := True\<rparr>)"
    and "\<not> stopped cancel x \<Longrightarrow> bi_step cancel x =
      (case bi_round (poll x) of None \<Rightarrow> None | Some (Inr r) \<Rightarrow> Some r | Some (Inl y) \<Rightarrow> bi_loop cancel y)"
proof -
  have r: "bi_step cancel x = bi_loop cancel x" using assms by (simp add: bi_step_def runnable_def)
  have p: "(if bi_depth x = 0 then x\<lparr>bi_polls := bi_polls x + 1\<rparr> else x) = poll x" by (simp add: poll_def)
  note l = bi_loop.simps [of cancel x, unfolded Let_def p stopped_def [symmetric]]
  show "stopped cancel x \<Longrightarrow> bi_step cancel x = Some (Some (Inl Cancelled), (poll x)\<lparr>bi_finished := True\<rparr>)"
    unfolding r l by (rule if_P)
  show "\<not> stopped cancel x \<Longrightarrow> bi_step cancel x =
      (case bi_round (poll x) of None \<Rightarrow> None | Some (Inr r) \<Rightarrow> Some r | Some (Inl y) \<Rightarrow> bi_loop cancel y)"
    unfolding r l by (rule if_not_P)
qed

lemma step_loop: "runnable x \<Longrightarrow> bi_step cancel x = bi_loop cancel x"
  by (simp add: bi_step_def runnable_def)

lemma drain_finished: "bi_finished x \<Longrightarrow> bi_drain cancel x = Some []"
  by (subst bi_drain.simps) (simp add: bi_step_def)

lemma drain_cancelled:
  assumes "runnable x" and "stopped cancel x"
  shows "bi_drain cancel x = Some [Inl Cancelled]"
  by (subst bi_drain.simps) (simp add: step_runs(1) [OF assms] drain_finished)

lemma drain_go:
  assumes "runnable x" "runnable y" "\<not> stopped cancel x" "bi_round (poll x) = Some (Inl y)"
  shows "bi_drain cancel x = bi_drain cancel y"
proof -
  have "bi_step cancel x = bi_step cancel y"
    using step_runs(2) [OF assms(1,3)] assms(4) step_loop [OF assms(2), of cancel] by simp
  then show ?thesis by (subst (1 2) bi_drain.simps) simp
qed

lemma drain_item:
  assumes "runnable x" "\<not> stopped cancel x" "bi_round (poll x) = Some (Inr (r, y))"
  shows "bi_drain cancel x = (case r of None \<Rightarrow> Some [] | Some i \<Rightarrow> map_option ((#) i) (bi_drain cancel y))"
  by (subst bi_drain.simps) (cases r; cases "bi_drain cancel y"; simp add: step_runs(2) [OF assms(1,2)] assms(3))

text \<open>A stream is the whole stream, or cut off after some batches by a cancellation that was raised.\<close>

definition streams :: "(nat \<Rightarrow> bool) \<Rightarrow> batch_iter \<Rightarrow> batch list \<Rightarrow> bool" where
  "streams cancel x bs \<longleftrightarrow> bi_drain cancel x = Some (map Inr bs)
     \<or> (\<exists>n k. cancel n \<and> k \<le> length bs \<and> bi_drain cancel x = Some (map Inr (take k bs) @ [Inl Cancelled]))"

lemma streams_cut: "runnable x \<Longrightarrow> stopped cancel x \<Longrightarrow> streams cancel x bs"
  unfolding streams_def by (rule disjI2, rule exI [of _ "bi_polls x"], rule exI [of _ 0]) (simp add: drain_cancelled stopped_def)

lemma streams_cons:
  assumes "streams cancel y bs" and "bi_drain cancel x = map_option ((#) (Inr c)) (bi_drain cancel y)"
  shows "streams cancel x (c # bs)"
  using assms(1) unfolding streams_def
proof (elim disjE exE conjE)
  assume "bi_drain cancel y = Some (map Inr bs)"
  then show "bi_drain cancel x = Some (map Inr (c # bs))
     \<or> (\<exists>n k. cancel n \<and> k \<le> length (c # bs) \<and> bi_drain cancel x = Some (map Inr (take k (c # bs)) @ [Inl Cancelled]))"
    using assms(2) by simp
next
  fix n k assume "cancel n" "k \<le> length bs" "bi_drain cancel y = Some (map Inr (take k bs) @ [Inl Cancelled])"
  then show "bi_drain cancel x = Some (map Inr (c # bs))
     \<or> (\<exists>n k. cancel n \<and> k \<le> length (c # bs) \<and> bi_drain cancel x = Some (map Inr (take k (c # bs)) @ [Inl Cancelled]))"
    using assms(2) by (intro disjI2 exI [of _ n] exI [of _ "Suc k"]) simp
qed

lemma streams_runs:
  assumes "runs x bs y" and "runnable x" and "streams cancel y cs"
  shows "streams cancel x (bs @ cs)"
  using assms
proof (induction rule: runs.induct)
  case (runs_refl x)
  then show ?case by simp
next
  case (runs_go x y bs z)
  then have y: "streams cancel y (bs @ cs)" by simp
  show ?case
  proof (cases "stopped cancel x")
    case True
    then show ?thesis by (rule streams_cut [OF runs_go.prems(1)])
  next
    case False
    from drain_go [of x y cancel, OF runs_go.prems(1) runs_go.hyps(2) False runs_go.hyps(1)] show ?thesis
      using y by (simp add: streams_def)
  qed
next
  case (runs_emit x c y bs z)
  then have y: "streams cancel y (bs @ cs)" by simp
  show ?case
  proof (cases "stopped cancel x")
    case True
    then show ?thesis by (rule streams_cut [OF runs_emit.prems(1)])
  next
    case False
    from drain_item [of x cancel, OF runs_emit.prems(1) False runs_emit.hyps(1)] show ?thesis
      using streams_cons [OF y] by simp
  qed
qed

text \<open>From the first variable to the end.\<close>

lemma entered_streams:
  assumes q: "query pats vs" and mx: "no_max T" and T: "finite T" and E: "Entered T pats vs [] x"
    and h: "holds (length vs) [] (bi_builder x)"
  shows "\<exists>bs. full_batches bs \<and> concat (map batch_rows bs) = rows_below T pats vs (length vs) [] \<and> (\<forall>cancel. streams cancel x bs)"
proof -
  obtain k where n: "length vs = Suc k" using q by (cases vs) (auto simp: query_def)
  let ?out = "rows_below T pats vs (Suc k) []"
  have D: "drains T pats vs [] y [] ?out"
    if "Active T pats vs [] y (sorted_list_of_set (candidates T pats vs []))" "undone (length []) y" "holds (length vs) [] (bi_builder y)" for y
    using depth_drains [OF q mx, where b = "[]" and k = k and x = y and rs = "[]"] that n by simp
  obtain bs u rs w where u: "runs x bs u" "bi_round (poll u) = bi_ascend w" "Active T pats vs [] w []"
    "holds (length vs) rs (bi_builder w)" "concat (map batch_rows bs) @ rs = [] @ ?out" "full_batches bs"
    using entered_drains [OF q mx E h D] by blast
  obtain r y where r: "bi_ascend w = Some (Inr (map_option Inr r, y))" "bi_finished y"
    "case r of None \<Rightarrow> rs = [] | Some c \<Rightarrow> batch_rows c = rs \<and> full_batches [c]"
    using ascend_finishes [OF q u(3,4)] by blast
  have rx: "runnable x" by (rule Entered_runnable [OF q E])
  have ru: "runnable u" by (rule runs_runnable [OF u(1) rx])
  define cs where "cs = (case r of None \<Rightarrow> [] | Some c \<Rightarrow> [c])"
  have end_: "streams cancel u cs" for cancel
  proof (cases "stopped cancel u")
    case True
    then show ?thesis by (rule streams_cut [OF ru])
  next
    case False
    have "bi_round (poll u) = Some (Inr (map_option Inr r, y))" using u(2) r(1) by simp
    from drain_item [OF ru False this] have "bi_drain cancel u = Some (map Inr cs)"
      by (cases r) (simp_all add: cs_def drain_finished [OF r(2)])
    then show ?thesis by (simp add: streams_def)
  qed
  have "streams cancel x (bs @ cs)" for cancel by (rule streams_runs [OF u(1) rx end_])
  moreover have "concat (map batch_rows (bs @ cs)) = ?out" using u(5) r(3) by (cases r) (simp_all add: cs_def)
  moreover have "full_batches (bs @ cs)" using u(6) r(3) by (cases r) (auto simp: cs_def full_batches_def)
  ultimately show ?thesis unfolding n by blast
qed

lemma source_finite: "source_of src T \<Longrightarrow> finite T"
proof -
  assume "source_of src T"
  then have "finite ((\<lambda>t. by_ordering t Pso) ` T)" by (auto simp: source_of_def listing_def dest!: sym)
  then show "finite T" by (rule finite_imageD) (rule inj_on_subset [OF inj_by_ordering subset_UNIV])
qed

lemma executor_streams:
  assumes src: "source_of src T" and mx: "no_max T" and el: "eliminates bgp vs"
  shows "\<exists>x bs. bi_new src bgp vs = Some x \<and> full_batches bs \<and> (\<forall>cancel. streams cancel x bs)
    \<and> (bi_finished x \<or> runnable x \<and> bi_depth x = 0 \<and> bi_polls x = 0)
    \<and> set (concat (map batch_rows bs)) = {b. solves T bgp vs b} \<and> sorted_wrt ord_class.lexordp (concat (map batch_rows bs))"
proof -
  let ?pats = "filter (\<lambda>pat. \<not> is_ground pat) bgp"
  have q: "query ?pats vs" by (rule eliminates_query [OF el])
  have ground: "matches T pat m \<longleftrightarrow> matches T pat m'" if "is_ground pat" for pat m m'
    using that by (cases "pat_s pat"; cases "pat_p pat"; cases "pat_o pat") (auto simp: is_ground_def matches_def)
  obtain x where x: "bi_new src bgp vs = Some x" "bi_polls x = 0" "if \<forall>pat\<in>set bgp. is_ground pat \<longrightarrow> matches T pat Map.empty
     then Entered T ?pats vs [] x \<and> holds (length vs) [] (bi_builder x) \<and> bi_depth x = 0 else bi_finished x"
    using bi_new_spec [OF src el, of Map.empty] by blast
  show ?thesis
  proof (cases "\<forall>pat\<in>set bgp. is_ground pat \<longrightarrow> matches T pat Map.empty")
    case True
    then have E: "Entered T ?pats vs [] x" "holds (length vs) [] (bi_builder x)" "bi_depth x = 0" using x(3) by simp_all
    obtain bs where bs: "full_batches bs" "concat (map batch_rows bs) = rows_below T ?pats vs (length vs) []" "\<forall>cancel. streams cancel x bs"
      using entered_streams [OF q mx source_finite [OF src] E(1,2)] by blast
    have "matches T pat m" if "pat \<in> set bgp" "is_ground pat" for pat m
      using True that ground [OF that(2), of Map.empty m] by blast
    then have "solves T ?pats vs b \<longleftrightarrow> solves T bgp vs b" for b
      unfolding solves_def set_filter by blast
    then have "set (concat (map batch_rows bs)) = {b. solves T bgp vs b}"
      unfolding bs(2) rows_below_solutions [OF q source_finite [OF src]] by (rule Collect_cong)
    then show ?thesis using x(1,2) bs rows_below_sorted [of T ?pats vs "length vs" "[]"] Entered_runnable [OF q E(1)] E(3)
      by (intro exI [of _ x] exI [of _ bs]) simp
  next
    case False
    have "bi_finished x" using x(3) unfolding if_not_P [OF False] .
    moreover from this have "streams cancel x []" for cancel by (simp add: streams_def drain_finished)
    moreover have "\<not> solves T bgp vs b" for b using False ground unfolding solves_def by blast
    ultimately show ?thesis using x(1) by (intro exI [of _ x] exI [of _ "[]"]) (simp add: full_batches_def)
  qed
qed

section \<open>Properties\<close>

text \<open>C4: the leapfrog triejoin ends, never panics and is exact. For a query that eliminates each of its
  variables once (fewer than 256, none repeated inside a pattern) over a source without the identifier
  \<open>2\<^sup>6\<^sup>4 - 1\<close>, the stream of a new executor that is not cancelled consists of non-empty batches of at
  most 2048 rows, whose rows are exactly the values under which every pattern of the query is a triple
  of the source, each once and in lexicographic order.\<close>

theorem wcoj_exact:
  assumes "source_of src T" and "no_max T" and "eliminates bgp vs" and "\<forall>n. \<not> cancel n"
  shows "\<exists>x bs. bi_new src bgp vs = Some x \<and> bi_drain cancel x = Some (map Inr bs) \<and> full_batches bs
    \<and> set (concat (map batch_rows bs)) = {b. solves T bgp vs b} \<and> sorted_wrt ord_class.lexordp (concat (map batch_rows bs))"
proof -
  obtain x bs where x: "bi_new src bgp vs = Some x" "full_batches bs" "streams cancel x bs"
    "set (concat (map batch_rows bs)) = {b. solves T bgp vs b}" "sorted_wrt ord_class.lexordp (concat (map batch_rows bs))"
    using executor_streams [OF assms(1-3)] by blast
  have "bi_drain cancel x = Some (map Inr bs)" using x(3) assms(4) unfolding streams_def by blast
  then show ?thesis using x by blast
qed

text \<open>A cancelled stream is a prefix of the full one followed by the cancellation error, and the
  error appears only when a reading of the flag saw it raised; a flag raised before the first reading
  yields no batch at all.\<close>

theorem wcoj_cancelled:
  assumes "source_of src T" and "no_max T" and "eliminates bgp vs"
  shows "\<exists>x bs. bi_new src bgp vs = Some x \<and> bi_drain (\<lambda>_. False) x = Some (map Inr bs)
    \<and> (bi_drain cancel x = Some (map Inr bs)
       \<or> (\<exists>n k. cancel n \<and> k \<le> length bs \<and> bi_drain cancel x = Some (map Inr (take k bs) @ [Inl Cancelled])))
    \<and> (cancel 0 \<longrightarrow> bi_drain cancel x = Some [] \<or> bi_drain cancel x = Some [Inl Cancelled])"
proof -
  obtain x bs where x: "bi_new src bgp vs = Some x" "streams (\<lambda>_. False) x bs" "streams cancel x bs"
    "bi_finished x \<or> runnable x \<and> bi_depth x = 0 \<and> bi_polls x = 0"
    using executor_streams [OF assms] by blast
  have "cancel 0 \<longrightarrow> bi_drain cancel x = Some [] \<or> bi_drain cancel x = Some [Inl Cancelled]"
    using x(4) drain_finished [of x cancel] drain_cancelled [of x cancel] by (auto simp: stopped_def)
  then show ?thesis using x(1-3) unfolding streams_def by blast
qed

section \<open>Witnesses\<close>

text \<open>The triangles of a small graph over one predicate.\<close>

definition edge_pattern :: "var \<Rightarrow> var \<Rightarrow> triple_pattern" where
  "edge_pattern a b = \<lparr>pat_s = Var a, pat_p = Bound 7, pat_o = Var b\<rparr>"

definition edge_triples :: "row list" where
  "edge_triples = [(1, 7, 2), (2, 7, 3), (1, 7, 3), (3, 7, 4)]"

lemma triangle_hyps:
  "source_of (from_triples edge_triples) (set edge_triples)" "no_max (set edge_triples)"
  "eliminates [edge_pattern 0 1, edge_pattern 1 2, edge_pattern 0 2] [0, 1, 2]"
proof -
  show "source_of (from_triples edge_triples) (set edge_triples)" by (rule from_triples_source)
  show "no_max (set edge_triples)" by (simp add: no_max_def edge_triples_def)
  show "eliminates [edge_pattern 0 1, edge_pattern 1 2, edge_pattern 0 2] [0, 1, 2]"
    by (auto simp: eliminates_def no_repeat_def edge_pattern_def slots_def pattern_vars_def)
qed

theorem wcoj_exact_witness:
  "\<exists>x bs. bi_new (from_triples edge_triples) [edge_pattern 0 1, edge_pattern 1 2, edge_pattern 0 2] [0, 1, 2] = Some x
    \<and> bi_drain (\<lambda>_. False) x = Some (map Inr bs) \<and> [1, 2, 3] \<in> set (concat (map batch_rows bs))
    \<and> [1, 3, 4] \<notin> set (concat (map batch_rows bs))"
proof -
  let ?bgp = "[edge_pattern 0 1, edge_pattern 1 2, edge_pattern 0 2]"
  obtain x bs where x: "bi_new (from_triples edge_triples) ?bgp [0, 1, 2] = Some x" "bi_drain (\<lambda>_. False) x = Some (map Inr bs)"
    "set (concat (map batch_rows bs)) = {b. solves (set edge_triples) ?bgp [0, 1, 2] b}"
    using wcoj_exact [OF triangle_hyps, of "\<lambda>_. False"] by auto
  have "solves (set edge_triples) ?bgp [0, 1, 2] [1, 2, 3]" "\<not> solves (set edge_triples) ?bgp [0, 1, 2] [1, 3, 4]"
    by (simp_all add: solves_def matches_def edge_pattern_def edge_triples_def)
  then show ?thesis using x by (intro exI [of _ x] exI [of _ bs]) simp
qed

theorem wcoj_cancelled_witness:
  "\<exists>x bs. bi_new (from_triples edge_triples) [edge_pattern 0 1, edge_pattern 1 2, edge_pattern 0 2] [0, 1, 2] = Some x
    \<and> bi_drain (\<lambda>_. False) x = Some (map Inr bs) \<and> (bi_drain (\<lambda>n. n = 0) x = Some [] \<or> bi_drain (\<lambda>n. n = 0) x = Some [Inl Cancelled])"
  using wcoj_cancelled [OF triangle_hyps, of "\<lambda>n. n = 0"] by blast

end
