(* ===== verification/Hash_Exec.thy ===== *)
theory Hash_Exec imports Wcoj_Exact begin

text \<open>
  \<^verbatim>\<open>crates/wcoj/src/plan.rs\<close>, \<^verbatim>\<open>crates/wcoj/src/executor/binary_hash.rs\<close> and
  \<^verbatim>\<open>crates/wcoj/src/executor/mod.rs\<close>: join plans, the executor that evaluates a tree of hash joins over
  scans and leapfrog nodes, and the executor that picks between it and the leapfrog. The outer
  \<open>None\<close> is a panic (a pattern index or an output variable that is missing) or a loop that does not
  end. A row of a node has a value for each of the node's variables.
\<close>

section \<open>Plans\<close>

datatype plan_kind = Kind_Wcoj | Kind_Binary_Hash

record execution_plan =
  plan_kind :: plan_kind
  plan_order :: "var list"

datatype join_spec = Wcoj "nat list" "var list" | Scan nat | Hash_Join join_spec join_spec

fun collect_patterns :: "join_spec \<Rightarrow> nat list" where
  "collect_patterns (Wcoj ps _) = ps"
| "collect_patterns (Scan i) = [i]"
| "collect_patterns (Hash_Join bs ps) = collect_patterns bs @ collect_patterns ps"

definition spec_patterns :: "join_spec \<Rightarrow> nat list" where
  "spec_patterns spec = sort (collect_patterns spec)"

definition var_list :: "triple_pattern \<Rightarrow> var list" where
  "var_list pat = push_vars (slots pat) []"

definition add_missing :: "var list \<Rightarrow> var list \<Rightarrow> var list" where
  "add_missing out vs = fold (\<lambda>v out. if v \<in> set out then out else out @ [v]) vs out"

fun spec_vars :: "triple_pattern list \<Rightarrow> join_spec \<Rightarrow> var list option" where
  "spec_vars bgp (Wcoj _ order) = Some order"
| "spec_vars bgp (Scan i) = (if i < length bgp then Some (var_list (bgp ! i)) else None)"
| "spec_vars bgp (Hash_Join bs ps) =
     Option.bind (spec_vars bgp bs) (\<lambda>out. map_option (add_missing out) (spec_vars bgp ps))"

definition as_whole_wcoj :: "triple_pattern list \<Rightarrow> join_spec \<Rightarrow> var list option" where
  "as_whole_wcoj bgp spec =
     (case spec of Wcoj ps order \<Rightarrow> if ps \<noteq> [] \<and> length ps = length bgp then Some order else None | _ \<Rightarrow> None)"

definition left_deep :: "nat list \<Rightarrow> join_spec option" where
  "left_deep ps = (case ps of [] \<Rightarrow> None | p # ps \<Rightarrow> Some (foldl (\<lambda>acc q. Hash_Join (Scan q) acc) (Scan p) ps))"

definition left_deep_or_unit :: "triple_pattern list \<Rightarrow> join_spec" where
  "left_deep_or_unit bgp = (case left_deep [0..<length bgp] of None \<Rightarrow> Wcoj [] [] | Some spec \<Rightarrow> spec)"

definition from_execution_plan :: "execution_plan \<Rightarrow> triple_pattern list \<Rightarrow> join_spec" where
  "from_execution_plan plan bgp =
     (case plan_kind plan of Kind_Wcoj \<Rightarrow> Wcoj [0..<length bgp] (plan_order plan) | Kind_Binary_Hash \<Rightarrow> left_deep_or_unit bgp)"

text \<open>Variables by descending degree; the sort is stable.\<close>

definition degree_order :: "triple_pattern list \<Rightarrow> var list" where
  "degree_order bgp =
     map fst (sort_key (\<lambda>(v, d). - int d) (map (\<lambda>v. (v, length (filter (\<lambda>pat. mentions pat v) bgp))) (bgp_variables bgp)))"

definition plan_for_bgp :: "triple_pattern list \<Rightarrow> nat \<Rightarrow> execution_plan" where
  "plan_for_bgp bgp cutover =
     (if \<forall>pat\<in>set bgp. is_ground pat then \<lparr>plan_kind = Kind_Binary_Hash, plan_order = []\<rparr>
      else \<lparr>plan_kind = if cutover \<le> length bgp then Kind_Wcoj else Kind_Binary_Hash, plan_order = degree_order bgp\<rparr>)"

section \<open>Scanning a pattern\<close>

definition want :: "triple_pattern \<Rightarrow> ordering \<Rightarrow> nat \<Rightarrow> u64 option" where
  "want pat ord d = as_bound (phys_terms pat ord ! d)"

text \<open>What a level does with the key under the cursor.\<close>

datatype scan_turn = Skip u64 | Stop | Take

definition level_turn :: "u64 option \<Rightarrow> u64 \<Rightarrow> scan_turn" where
  "level_turn w k = (case w of None \<Rightarrow> Take | Some r \<Rightarrow> if k < r then Skip r else if r < k then Stop else Take)"

type_synonym scan_state = "vec_iter \<times> row list"

partial_function (option) scan_level2 :: "u64 option \<Rightarrow> ordering \<Rightarrow> u64 \<Rightarrow> u64 \<Rightarrow> scan_state \<Rightarrow> scan_state option" where
  "scan_level2 w ord l0 l1 st =
     (case peek (fst st) 2 of None \<Rightarrow> Some st
      | Some l2 \<Rightarrow>
          (case level_turn w l2 of
             Skip r \<Rightarrow> scan_level2 w ord l0 l1 (seek 2 r (fst st), snd st)
           | Stop \<Rightarrow> Some st
           | Take \<Rightarrow> scan_level2 w ord l0 l1 (seek 2 (l2 + 1) (fst st), snd st @ [unpermute ord l0 l1 l2])))"

partial_function (option) scan_level1 :: "(nat \<Rightarrow> u64 option) \<Rightarrow> ordering \<Rightarrow> u64 \<Rightarrow> scan_state \<Rightarrow> scan_state option" where
  "scan_level1 w ord l0 st =
     (case peek (fst st) 1 of None \<Rightarrow> Some st
      | Some l1 \<Rightarrow>
          (case level_turn (w 1) l1 of
             Skip r \<Rightarrow> scan_level1 w ord l0 (seek 1 r (fst st), snd st)
           | Stop \<Rightarrow> Some st
           | Take \<Rightarrow>
               Option.bind (open_level 2 (fst st)) (\<lambda>it.
               Option.bind (scan_level2 (w 2) ord l0 l1 (it, snd st)) (\<lambda>st'.
                 scan_level1 w ord l0 (seek 1 (l1 + 1) (up 2 (fst st')), snd st')))))"

partial_function (option) scan_level0 :: "(nat \<Rightarrow> u64 option) \<Rightarrow> ordering \<Rightarrow> scan_state \<Rightarrow> scan_state option" where
  "scan_level0 w ord st =
     (case peek (fst st) 0 of None \<Rightarrow> Some st
      | Some l0 \<Rightarrow>
          (case level_turn (w 0) l0 of
             Skip r \<Rightarrow> scan_level0 w ord (seek 0 r (fst st), snd st)
           | Stop \<Rightarrow> Some st
           | Take \<Rightarrow>
               Option.bind (open_level 1 (fst st)) (\<lambda>it.
               Option.bind (scan_level1 w ord l0 (it, snd st)) (\<lambda>st'.
                 scan_level0 w ord (seek 0 (l0 + 1) (up 1 (fst st')), snd st')))))"

declare scan_level2.simps [code] scan_level1.simps [code] scan_level0.simps [code]

definition scan_ordered :: "vec_source \<Rightarrow> triple_pattern \<Rightarrow> ordering \<Rightarrow> row list option" where
  "scan_ordered src pat ord = map_option snd (scan_level0 (want pat ord) ord (source_iter src ord, []))"

definition scan_pattern :: "vec_source \<Rightarrow> triple_pattern \<Rightarrow> row list option" where
  "scan_pattern src pat = scan_ordered src pat (preferred_ordering pat)"

text \<open>The values of a triple at the variables of its pattern; a variable that is not there panics.\<close>

fun project :: "triple_pattern \<Rightarrow> row \<Rightarrow> var list \<Rightarrow> u64 list option" where
  "project pat t [] = Some []"
| "project pat t (v # vs) =
     Option.bind (case position_of pat v of Some 0 \<Rightarrow> Some (fst t) | Some (Suc 0) \<Rightarrow> Some (fst (snd t))
         | Some (Suc (Suc 0)) \<Rightarrow> Some (snd (snd t)) | _ \<Rightarrow> None) (\<lambda>x. map_option ((#) x) (project pat t vs))"

fun project_all :: "triple_pattern \<Rightarrow> var list \<Rightarrow> row list \<Rightarrow> u64 list list option" where
  "project_all pat vs [] = Some []"
| "project_all pat vs (t # ts) = Option.bind (project pat t vs) (\<lambda>r. map_option ((#) r) (project_all pat vs ts))"

section \<open>Hash joins\<close>

fun position :: "'a \<Rightarrow> 'a list \<Rightarrow> nat option" where
  "position x [] = None"
| "position x (y # ys) = (if y = x then Some 0 else map_option Suc (position x ys))"

definition pick :: "nat list \<Rightarrow> u64 list \<Rightarrow> u64 list" where
  "pick is r = map (\<lambda>i. r ! i) is"

definition hash_table :: "nat list \<Rightarrow> u64 list list \<Rightarrow> u64 list \<Rightarrow> u64 list list" where
  "hash_table bkey brows = fold (\<lambda>br ht. ht(pick bkey br := ht (pick bkey br) @ [br])) brows (\<lambda>_. [])"

definition hash_join :: "var list \<Rightarrow> u64 list list \<Rightarrow> var list \<Rightarrow> u64 list list \<Rightarrow> var list \<times> u64 list list" where
  "hash_join bvars brows pvars prows =
     (let keys = filter (\<lambda>v. v \<in> set pvars) bvars;
          bkey = map (\<lambda>v. the (position v bvars)) keys;
          pkey = map (\<lambda>v. the (position v pvars)) keys;
          out_vars = bvars @ filter (\<lambda>v. v \<notin> set bvars) pvars;
          pextra = filter (\<lambda>i. pvars ! i \<notin> set bvars) [0..<length pvars];
          ht = hash_table bkey brows
      in (out_vars, concat (map (\<lambda>pr. map (\<lambda>br. br @ pick pextra pr) (ht (pick pkey pr))) prows)))"

section \<open>Evaluating a plan\<close>

text \<open>Reading a stream up to its first error.\<close>

fun read_rows :: "item list \<Rightarrow> wcoj_error + u64 list list" where
  "read_rows [] = Inr []"
| "read_rows (Inl e # _) = Inl e"
| "read_rows (Inr b # is) = (case read_rows is of Inl e \<Rightarrow> Inl e | Inr rs \<Rightarrow> Inr (batch_rows b @ rs))"

type_synonym node_rows = "var list \<times> u64 list list"

text \<open>
  Every node reads the cancellation flag when it is evaluated; a leapfrog node reads it on. The readings
  are told apart by the path of the node in the tree and counted from 0 at each node.
\<close>

fun eval :: "(nat list \<Rightarrow> nat \<Rightarrow> bool) \<Rightarrow> vec_source \<Rightarrow> triple_pattern list \<Rightarrow> nat list \<Rightarrow> join_spec
    \<Rightarrow> (wcoj_error + node_rows) option" where
  "eval cancel src bgp path (Scan i) =
     (if cancel path 0 then Some (Inl Cancelled)
      else if i < length bgp then
        let pat = bgp ! i; vs = var_list pat in
        Option.bind (scan_pattern src pat) (\<lambda>ts. map_option (\<lambda>rs. Inr (vs, rs)) (project_all pat vs ts))
      else None)"
| "eval cancel src bgp path (Wcoj ps order) =
     (if cancel path 0 then Some (Inl Cancelled)
      else if ps = [] then Some (Inr ([], [[]]))
      else if \<forall>i\<in>set ps. i < length bgp then
        Option.bind (bi_new src (map (\<lambda>i. bgp ! i) ps) order) (\<lambda>x.
        map_option (\<lambda>is. case read_rows is of Inl e \<Rightarrow> Inl e | Inr rs \<Rightarrow> Inr (order, rs))
          (bi_drain (\<lambda>n. cancel path (Suc n)) x))
      else None)"
| "eval cancel src bgp path (Hash_Join bs ps) =
     (if cancel path 0 then Some (Inl Cancelled)
      else Option.bind (eval cancel src bgp (path @ [0]) bs) (\<lambda>b.
        case b of Inl e \<Rightarrow> Some (Inl e)
        | Inr (bvars, brows) \<Rightarrow>
            Option.bind (if brows = [] then map_option (\<lambda>vs. Inr (vs, [])) (spec_vars bgp ps)
                         else eval cancel src bgp (path @ [1]) ps) (\<lambda>p.
              case p of Inl e \<Rightarrow> Some (Inl e)
              | Inr (pvars, prows) \<Rightarrow> Some (Inr (hash_join bvars brows pvars prows)))))"

section \<open>The stream of the hash-join executor\<close>

text \<open>A batch without columns still counts its rows.\<close>

datatype out_batch = Columns batch | Unit_Rows nat

fun out_rows :: "out_batch \<Rightarrow> u64 list list" where
  "out_rows (Columns b) = batch_rows b"
| "out_rows (Unit_Rows n) = replicate n []"

record hash_iter =
  hi_vars :: "var list"
  hi_rows :: "u64 list list"
  hi_builder :: batch_builder
  hi_done :: bool
  hi_error :: "wcoj_error option"
  hi_ground :: nat

fun positions :: "var list \<Rightarrow> var list \<Rightarrow> nat list option" where
  "positions vars [] = Some []"
| "positions vars (v # vs) = Option.bind (position v vars) (\<lambda>i. map_option ((#) i) (positions vars vs))"

definition hi_new :: "(nat list \<Rightarrow> nat \<Rightarrow> bool) \<Rightarrow> vec_source \<Rightarrow> triple_pattern list \<Rightarrow> join_spec \<Rightarrow> var list \<Rightarrow> hash_iter option" where
  "hi_new cancel src bgp spec out =
     (let st = \<lparr>hi_vars = out, hi_rows = [], hi_builder = bb_new out, hi_done = False, hi_error = None, hi_ground = 0\<rparr> in
      Option.bind (eval cancel src bgp [] spec) (\<lambda>r.
        case r of Inl e \<Rightarrow> Some (st\<lparr>hi_error := Some e\<rparr>)
        | Inr (vars, rs) \<Rightarrow>
            if out = [] then Some (st\<lparr>hi_ground := length rs\<rparr>)
            else map_option (\<lambda>is. st\<lparr>hi_rows := map (pick is) rs\<rparr>) (positions vars out)))"

text \<open>Pushing rows until one fills a batch.\<close>

fun push_rows :: "u64 list list \<Rightarrow> batch_builder \<Rightarrow> batch option \<times> u64 list list \<times> batch_builder" where
  "push_rows [] b = (None, [], b)"
| "push_rows (r # rs) b = (case push_row r b of (Some c, b') \<Rightarrow> (Some c, rs, b') | (None, b') \<Rightarrow> push_rows rs b')"

type_synonym out_item = "wcoj_error + out_batch"

definition hi_next :: "hash_iter \<Rightarrow> out_item option \<times> hash_iter" where
  "hi_next st =
     (case hi_error st of Some e \<Rightarrow> (Some (Inl e), st\<lparr>hi_error := None, hi_done := True\<rparr>)
      | None \<Rightarrow>
        if hi_done st then (None, st)
        else if 0 < hi_ground st \<and> hi_vars st = [] then
          (Some (Inr (Unit_Rows (hi_ground st))), st\<lparr>hi_ground := 0, hi_done := True\<rparr>)
        else (case push_rows (hi_rows st) (hi_builder st) of
            (Some c, rs, b) \<Rightarrow> (Some (Inr (Columns c)), st\<lparr>hi_rows := rs, hi_builder := b\<rparr>)
          | (None, rs, b) \<Rightarrow>
              (case finish b of (r, b') \<Rightarrow>
                 (map_option (Inr \<circ> Columns) r, st\<lparr>hi_rows := rs, hi_builder := b', hi_done := True\<rparr>))))"

partial_function (option) hi_drain :: "hash_iter \<Rightarrow> out_item list option" where
  "hi_drain st =
     (case hi_next st of (None, st') \<Rightarrow> Some []
      | (Some r, st') \<Rightarrow> Option.bind (hi_drain st') (\<lambda>rs. Some (r # rs)))"

declare hi_drain.simps [code]

definition bh_new :: "(nat list \<Rightarrow> nat \<Rightarrow> bool) \<Rightarrow> vec_source \<Rightarrow> triple_pattern list \<Rightarrow> var list \<Rightarrow> hash_iter option" where
  "bh_new cancel src bgp out = hi_new cancel src bgp (left_deep_or_unit bgp) out"

section \<open>The executor\<close>

datatype executor = Ex_Wcoj batch_iter | Ex_Hash hash_iter

definition for_spec :: "(nat list \<Rightarrow> nat \<Rightarrow> bool) \<Rightarrow> vec_source \<Rightarrow> triple_pattern list \<Rightarrow> join_spec \<Rightarrow> executor option" where
  "for_spec cancel src bgp spec =
     (case as_whole_wcoj bgp spec of
        Some order \<Rightarrow> map_option Ex_Wcoj (bi_new src bgp order)
      | None \<Rightarrow> map_option Ex_Hash (hi_new cancel src bgp spec (bgp_variables bgp)))"

definition ex_drain :: "(nat list \<Rightarrow> nat \<Rightarrow> bool) \<Rightarrow> executor \<Rightarrow> out_item list option" where
  "ex_drain cancel ex =
     (case ex of Ex_Wcoj x \<Rightarrow> map_option (map (map_sum id Columns)) (bi_drain (cancel []) x) | Ex_Hash st \<Rightarrow> hi_drain st)"

definition out_vars :: "triple_pattern list \<Rightarrow> join_spec \<Rightarrow> var list" where
  "out_vars bgp spec = (case as_whole_wcoj bgp spec of Some order \<Rightarrow> order | None \<Rightarrow> bgp_variables bgp)"

end
