(* ===== verification/Hash_Scan.thy ===== *)
theory Hash_Scan imports Hash_Exec begin

text \<open>
  The scan of a pattern returns exactly the triples that agree with the constants of the pattern, each
  once, whatever ordering it walks.
\<close>

section \<open>One level\<close>

definition wanted :: "u64 option \<Rightarrow> u64 \<Rightarrow> bool" where
  "wanted w k \<longleftrightarrow> (case w of None \<Rightarrow> True | Some r \<Rightarrow> k = r)"

lemma level_step:
  fixes k :: u64
  assumes s: "sorted_wrt (<) (k # ks)" and k: "k \<noteq> - 1"
  shows "level_turn w k = Stop \<Longrightarrow> filter (wanted w) (k # ks) = []"
    and "level_turn w k = Skip r \<Longrightarrow> filter (wanted w) (dropWhile (\<lambda>x. x < r) (k # ks)) = filter (wanted w) (k # ks)
      \<and> length (dropWhile (\<lambda>x. x < r) (k # ks)) < length (k # ks)"
    and "level_turn w k = Take \<Longrightarrow> wanted w k" and "dropWhile (\<lambda>x. x < k + 1) (k # ks) = ks"
proof -
  have gt: "\<forall>x\<in>set ks. k < x" using s by simp
  show "level_turn w k = Stop \<Longrightarrow> filter (wanted w) (k # ks) = []"
    using gt by (auto simp: level_turn_def wanted_def filter_empty_conv split: option.splits if_splits)
  show "level_turn w k = Take \<Longrightarrow> wanted w k"
    by (auto simp: level_turn_def wanted_def split: option.splits if_splits)
  have succ: "k < x \<longleftrightarrow> k + 1 \<le> x" for x :: u64 using k inc_less_eq_iff [of k x] by blast
  have "k < k + 1" using succ [of "k + 1"] by simp
  show "dropWhile (\<lambda>x. x < k + 1) (k # ks) = ks" using gt succ \<open>k < k + 1\<close> by (cases ks) (auto simp: not_less)
  assume t: "level_turn w k = Skip r"
  then have w: "w = Some r" and kr: "k < r" by (auto simp: level_turn_def split: option.splits if_splits)
  have "filter (\<lambda>x. x = r) (dropWhile (\<lambda>x. x < r) xs) = filter (\<lambda>x. x = r) xs" for xs :: "u64 list" by (induction xs) auto
  then have "filter (wanted w) (dropWhile (\<lambda>x. x < r) (k # ks)) = filter (wanted w) (k # ks)" unfolding w wanted_def by simp
  moreover have "length (dropWhile (\<lambda>x. x < r) (k # ks)) < length (k # ks)" using kr length_dropWhile_le [of _ ks] by (simp add: less_Suc_eq_le)
  ultimately show "filter (wanted w) (dropWhile (\<lambda>x. x < r) (k # ks)) = filter (wanted w) (k # ks)
      \<and> length (dropWhile (\<lambda>x. x < r) (k # ks)) < length (k # ks)" by blast
qed

lemma peek_keys: "opened it d \<Longrightarrow> keys it d = [] \<Longrightarrow> peek it d = None" "opened it d \<Longrightarrow> keys it d = k # ks \<Longrightarrow> peek it d = Some k"
  by (simp_all add: peek_hd)

lemma scan_level2_spec:
  assumes "opened it 2" and "- 1 \<notin> set (keys it 2)"
  shows "\<exists>it'. scan_level2 w ord l0 l1 (it, out) = Some (it', out @ map (unpermute ord l0 l1) (filter (wanted w) (keys it 2))) \<and> agree 2 it it'"
  using assms
proof (induction "length (keys it 2)" arbitrary: it out rule: less_induct)
  case less
  note o = less.prems(1)
  show ?case
  proof (cases "keys it 2")
    case Nil
    then show ?thesis using peek_keys(1) [OF o] by (subst scan_level2.simps) simp
  next
    case (Cons k ks)
    have s: "sorted_wrt (<) (k # ks)" using keys_strict [OF o] Cons by simp
    have k: "k \<noteq> - 1" using less.prems(2) Cons by auto
    note step = level_step [OF s k] and pk = peek_keys(2) [OF o Cons]
    have sk: "opened (seek 2 v it) 2" "keys (seek 2 v it) 2 = dropWhile (\<lambda>x. x < v) (k # ks)" "agree 2 it (seek 2 v it)" for v
      using seek_spec(1,3) [OF o] agree_ops(1) Cons by simp_all
    have mx: "- 1 \<notin> set (keys (seek 2 v it) 2)" for v using less.prems(2) set_dropWhileD unfolding sk(2) Cons by metis
    show ?thesis
    proof (cases "level_turn w k")
      case Stop
      have "scan_level2 w ord l0 l1 (it, out) = Some (it, out)" by (subst scan_level2.simps) (simp add: pk Stop)
      then show ?thesis unfolding Cons step(1) [OF Stop] by simp
    next
      case (Skip r)
      have lt: "length (keys (seek 2 r it) 2) < length (keys it 2)" unfolding sk(2) Cons using step(2) [OF Skip] by blast
      obtain it' where it': "scan_level2 w ord l0 l1 (seek 2 r it, out)
          = Some (it', out @ map (unpermute ord l0 l1) (filter (wanted w) (keys (seek 2 r it) 2)))" "agree 2 (seek 2 r it) it'"
        using less.hyps [OF lt sk(1) mx] by blast
      have "filter (wanted w) (keys (seek 2 r it) 2) = filter (wanted w) (keys it 2)" unfolding sk(2) Cons using step(2) [OF Skip] by blast
      moreover have "scan_level2 w ord l0 l1 (it, out) = scan_level2 w ord l0 l1 (seek 2 r it, out)"
        by (subst scan_level2.simps) (simp add: pk Skip)
      ultimately show ?thesis using it' agree_trans [OF sk(3)] by auto
    next
      case Take
      have ks: "keys (seek 2 (k + 1) it) 2 = ks" unfolding sk(2) by (rule step(4))
      have lt: "length (keys (seek 2 (k + 1) it) 2) < length (keys it 2)" unfolding ks Cons by simp
      obtain it' where it': "scan_level2 w ord l0 l1 (seek 2 (k + 1) it, out @ [unpermute ord l0 l1 k])
          = Some (it', (out @ [unpermute ord l0 l1 k]) @ map (unpermute ord l0 l1) (filter (wanted w) ks))" "agree 2 (seek 2 (k + 1) it) it'"
        using less.hyps [OF lt sk(1) mx] unfolding ks by blast
      have "scan_level2 w ord l0 l1 (it, out) = scan_level2 w ord l0 l1 (seek 2 (k + 1) it, out @ [unpermute ord l0 l1 k])"
        by (subst scan_level2.simps) (simp add: pk Take)
      then show ?thesis using it' agree_trans [OF sk(3) it'(2)] step(3) [OF Take] unfolding Cons by auto
    qed
  qed
qed

section \<open>The levels above\<close>

text \<open>Climbing back and going on leaves the level above as it was, one key further.\<close>

lemma scan_level1_spec:
  assumes "on_path it S [l0]" and "- 1 \<notin> set (keys it 1)" and mx: "\<forall>ks v. v \<in> children S ks \<longrightarrow> length ks \<le> 2 \<longrightarrow> v \<noteq> - 1"
  shows "\<exists>it'. scan_level1 w ord l0 (it, out) = Some (it', out @ concat (map (\<lambda>l1. map (unpermute ord l0 l1)
    (filter (wanted (w 2)) (sorted_list_of_set (children S [l0, l1])))) (filter (wanted (w 1)) (keys it 1)))) \<and> agree 1 it it'"
  using assms(1,2)
proof (induction "length (keys it 1)" arbitrary: it out rule: less_induct)
  case less
  have o: "opened it 1" using on_path_keys(1) [OF less.prems(1)] by simp
  let ?f = "\<lambda>l1. map (unpermute ord l0 l1) (filter (wanted (w 2)) (sorted_list_of_set (children S [l0, l1])))"
  show ?case
  proof (cases "keys it 1")
    case Nil
    then show ?thesis using peek_keys(1) [OF o] by (subst scan_level1.simps) (simp del: One_nat_def)
  next
    case (Cons k ks)
    have s: "sorted_wrt (<) (k # ks)" using keys_strict [OF o] Cons by simp
    have k: "k \<noteq> - 1" using less.prems(2) Cons by auto
    note step = level_step [OF s k] and pk = peek_keys(2) [OF o Cons]
    have sk: "on_path (seek 1 v it) S [l0]" "keys (seek 1 v it) 1 = dropWhile (\<lambda>x. x < v) (k # ks)" "agree 1 it (seek 1 v it)" for v
      using seek_spec(3) [OF o] agree_ops(1) Cons seek_path [OF less.prems(1), of v] by simp_all
    have mxk: "- 1 \<notin> set (keys (seek 1 v it) 1)" for v using less.prems(2) set_dropWhileD unfolding sk(2) Cons by metis
    show ?thesis
    proof (cases "level_turn (w 1) k")
      case Stop
      have "scan_level1 w ord l0 (it, out) = Some (it, out)" by (subst scan_level1.simps) (simp del: One_nat_def add: pk Stop)
      then show ?thesis unfolding Cons step(1) [OF Stop] by simp
    next
      case (Skip r)
      have lt: "length (keys (seek 1 r it) 1) < length (keys it 1)" unfolding sk(2) Cons using step(2) [OF Skip] by blast
      obtain it' where it': "scan_level1 w ord l0 (seek 1 r it, out)
          = Some (it', out @ concat (map ?f (filter (wanted (w 1)) (keys (seek 1 r it) 1))))" "agree 1 (seek 1 r it) it'"
        using less.hyps [OF lt sk(1) mxk] by blast
      have "filter (wanted (w 1)) (keys (seek 1 r it) 1) = filter (wanted (w 1)) (keys it 1)" unfolding sk(2) Cons using step(2) [OF Skip] by blast
      moreover have "scan_level1 w ord l0 (it, out) = scan_level1 w ord l0 (seek 1 r it, out)"
        by (subst scan_level1.simps) (simp del: One_nat_def add: pk Skip)
      ultimately show ?thesis using it' agree_trans [OF sk(3)] by auto
    next
      case Take
      obtain a where a: "open_level 2 it = Some a" "on_path a S [l0, k]" "keys a 2 = sorted_list_of_set (children S [l0, k])"
        using descend [OF less.prems(1), of k] pk by (auto simp: numeral_2_eq_2)
      have fin: "finite (children S [l0, k])" by (rule path_finite [OF less.prems(1)])
      have "opened a 2" using on_path_keys(1) [OF a(2)] by (simp add: numeral_2_eq_2)
      moreover have "- 1 \<notin> set (keys a 2)" unfolding a(3) using fin mx [rule_format, of "- 1" "[l0, k]"] by auto
      ultimately obtain b where b: "scan_level2 (w 2) ord l0 k (a, out) = Some (b, out @ ?f k)" "agree 2 a b"
        using scan_level2_spec unfolding a(3) [symmetric] by blast
      let ?c = "up 2 b"
      have ac: "agree 2 it ?c" by (rule agree_trans [OF agree_ops(4) [OF a(1)] agree_trans [OF b(2) agree_ops(2)]])
      have c: "on_path ?c S [l0]" "keys ?c 1 = k # ks" using agree_path [OF ac less.prems(1)] agree_level(2) [OF ac, of 1] Cons by simp_all
      have oc: "opened ?c 1" using on_path_keys(1) [OF c(1)] by simp
      let ?n = "seek 1 (k + 1) ?c"
      have n: "on_path ?n S [l0]" "keys ?n 1 = ks" "agree 1 it ?n"
        using seek_path [OF c(1)] seek_spec(3) [OF oc, of "k + 1"] step(4) c(2) agree_trans [OF agree_mono [OF ac, of 1] agree_ops(1)] by simp_all
      have "length (keys ?n 1) < length (keys it 1)" "- 1 \<notin> set (keys ?n 1)" using n(2) Cons less.prems(2) by auto
      from less.hyps [OF this(1) n(1) this(2)] obtain it' where it': "scan_level1 w ord l0 (?n, out @ ?f k)
          = Some (it', (out @ ?f k) @ concat (map ?f (filter (wanted (w 1)) ks)))" "agree 1 ?n it'"
        unfolding n(2) by blast
      have "scan_level1 w ord l0 (it, out) = scan_level1 w ord l0 (?n, out @ ?f k)"
        by (subst scan_level1.simps) (simp del: One_nat_def add: pk Take a(1) b(1))
      then show ?thesis using it' agree_trans [OF n(3) it'(2)] step(3) [OF Take] unfolding Cons by auto
    qed
  qed
qed

lemma scan_level0_spec:
  assumes "on_path it S []" and "- 1 \<notin> set (keys it 0)" and mx: "\<forall>ks v. v \<in> children S ks \<longrightarrow> length ks \<le> 2 \<longrightarrow> v \<noteq> - 1"
  shows "\<exists>it'. scan_level0 w ord (it, out) = Some (it', out @ concat (map (\<lambda>l0. concat (map (\<lambda>l1. map (unpermute ord l0 l1)
    (filter (wanted (w 2)) (sorted_list_of_set (children S [l0, l1])))) (filter (wanted (w 1)) (sorted_list_of_set (children S [l0])))))
    (filter (wanted (w 0)) (keys it 0))))"
  using assms(1,2)
proof (induction "length (keys it 0)" arbitrary: it out rule: less_induct)
  case less
  have o: "opened it 0" using on_path_keys(1) [OF less.prems(1)] by simp
  let ?f = "\<lambda>l0. concat (map (\<lambda>l1. map (unpermute ord l0 l1)
    (filter (wanted (w 2)) (sorted_list_of_set (children S [l0, l1])))) (filter (wanted (w 1)) (sorted_list_of_set (children S [l0]))))"
  show ?case
  proof (cases "keys it 0")
    case Nil
    then show ?thesis using peek_keys(1) [OF o] by (subst scan_level0.simps) simp
  next
    case (Cons k ks)
    have s: "sorted_wrt (<) (k # ks)" using keys_strict [OF o] Cons by simp
    have k: "k \<noteq> - 1" using less.prems(2) Cons by auto
    note step = level_step [OF s k] and pk = peek_keys(2) [OF o Cons]
    have sk: "on_path (seek 0 v it) S []" "keys (seek 0 v it) 0 = dropWhile (\<lambda>x. x < v) (k # ks)" for v
      using seek_spec(3) [OF o] Cons seek_path [OF less.prems(1), of v] by simp_all
    have mxk: "- 1 \<notin> set (keys (seek 0 v it) 0)" for v using less.prems(2) set_dropWhileD unfolding sk(2) Cons by metis
    show ?thesis
    proof (cases "level_turn (w 0) k")
      case Stop
      have "scan_level0 w ord (it, out) = Some (it, out)" by (subst scan_level0.simps) (simp add: pk Stop)
      then show ?thesis unfolding Cons step(1) [OF Stop] by simp
    next
      case (Skip r)
      have lt: "length (keys (seek 0 r it) 0) < length (keys it 0)" unfolding sk(2) Cons using step(2) [OF Skip] by blast
      obtain it' where it': "scan_level0 w ord (seek 0 r it, out)
          = Some (it', out @ concat (map ?f (filter (wanted (w 0)) (keys (seek 0 r it) 0))))"
        using less.hyps [OF lt sk(1) mxk] by blast
      have "filter (wanted (w 0)) (keys (seek 0 r it) 0) = filter (wanted (w 0)) (keys it 0)" unfolding sk(2) Cons using step(2) [OF Skip] by blast
      moreover have "scan_level0 w ord (it, out) = scan_level0 w ord (seek 0 r it, out)"
        by (subst scan_level0.simps) (simp add: pk Skip)
      ultimately show ?thesis using it' by auto
    next
      case Take
      obtain a where a: "open_level 1 it = Some a" "on_path a S [k]" "keys a 1 = sorted_list_of_set (children S [k])"
        using descend [OF less.prems(1), of k] pk by auto
      have fin: "finite (children S [k])" by (rule path_finite [OF less.prems(1)])
      have "- 1 \<notin> children S [k]" using mx [rule_format, of "- 1" "[k]"] by auto
      then have "- 1 \<notin> set (keys a 1)" unfolding a(3) using fin by simp
      then obtain b where b: "scan_level1 w ord k (a, out) = Some (b, out @ ?f k)" "agree 1 a b"
        using scan_level1_spec [OF a(2) _ mx] unfolding a(3) [symmetric] by blast
      let ?c = "up 1 b"
      have ac: "agree 1 it ?c" by (rule agree_trans [OF agree_ops(4) [OF a(1)] agree_trans [OF b(2) agree_ops(2)]])
      have c: "on_path ?c S []" "keys ?c 0 = k # ks" using agree_path [OF ac less.prems(1)] agree_level(2) [OF ac, of 0] Cons by simp_all
      have oc: "opened ?c 0" using on_path_keys(1) [OF c(1)] by simp
      let ?n = "seek 0 (k + 1) ?c"
      have n: "on_path ?n S []" "keys ?n 0 = ks"
        using seek_path [OF c(1)] seek_spec(3) [OF oc, of "k + 1"] step(4) c(2) by simp_all
      have "length (keys ?n 0) < length (keys it 0)" "- 1 \<notin> set (keys ?n 0)" using n(2) Cons less.prems(2) by auto
      from less.hyps [OF this(1) n(1) this(2)] obtain it' where it': "scan_level0 w ord (?n, out @ ?f k)
          = Some (it', (out @ ?f k) @ concat (map ?f (filter (wanted (w 0)) ks)))"
        unfolding n(2) by blast
      have "scan_level0 w ord (it, out) = scan_level0 w ord (?n, out @ ?f k)"
        by (subst scan_level0.simps) (simp del: One_nat_def add: pk Take a(1) b(1))
      then show ?thesis using it' step(3) [OF Take] unfolding Cons by auto
    qed
  qed
qed

end
