(* ===== verification/Hash_Rows.thy ===== *)
theory Hash_Rows imports Hash_Scan begin

text \<open>
  What the nodes of a join plan return: a scan, a hash join and a leapfrog node each list the solutions
  of their patterns, each once, over their variables.
\<close>

section \<open>Rows as valuations\<close>

definition answers :: "row set \<Rightarrow> triple_pattern list \<Rightarrow> var list \<Rightarrow> u64 list list \<Rightarrow> bool" where
  "answers T pats vs rs \<longleftrightarrow> distinct vs \<and> set vs = (\<Union>pat\<in>set pats. pattern_vars pat) \<and> distinct rs \<and> set rs = {b. solves T pats vs b}"

definition at_var :: "var list \<Rightarrow> u64 list \<Rightarrow> var \<Rightarrow> u64" where
  "at_var vs r v = r ! the (position v vs)"

lemma position_spec: "v \<in> set vs \<Longrightarrow> \<exists>i. position v vs = Some i \<and> i < length vs \<and> vs ! i = v"
proof (induction vs)
  case (Cons w vs)
  then show ?case by (cases "w = v") fastforce+
qed simp

lemma position_nth: "distinct vs \<Longrightarrow> i < length vs \<Longrightarrow> position (vs ! i) vs = Some i"
  using position_spec [of "vs ! i" vs] by (auto simp: nth_eq_iff_index_eq)

lemma row_valued: "distinct vs \<Longrightarrow> length r = length vs \<Longrightarrow> map (at_var vs r) vs = r"
  by (rule nth_equalityI) (simp_all add: at_var_def position_nth)

lemma at_var_map [simp]: "v \<in> set vs \<Longrightarrow> at_var vs (map f vs) v = f v"
  using position_spec [of v vs] by (auto simp: at_var_def)

lemma matches_cong: "(\<And>v. v \<in> pattern_vars pat \<Longrightarrow> m v = m' v) \<Longrightarrow> matches T pat m = matches T pat m'"
proof -
  assume eq: "\<And>v. v \<in> pattern_vars pat \<Longrightarrow> m v = m' v"
  have "value_of m t = value_of m' t" if "t \<in> set (slots pat)" for t
  proof (cases t)
    case (Var v)
    then have "v \<in> pattern_vars pat" using that by (simp add: pattern_vars_def)
    then show ?thesis using eq Var by simp
  qed simp
  then show ?thesis by (simp add: matches_def slots_def)
qed

lemma solves_valued:
  assumes "distinct vs" and "\<forall>pat\<in>set pats. pattern_vars pat \<subseteq> set vs"
  shows "solves T pats vs b \<longleftrightarrow> (\<exists>f. b = map f vs \<and> (\<forall>pat\<in>set pats. matches T pat (\<lambda>v. Some (f v))))"
proof -
  have m: "map_of (zip vs (map f vs)) v = Some (f v)" if "v \<in> set vs" for f v
    using that by (simp add: map_of_zip_map)
  have eq: "solves T pats vs (map f vs) \<longleftrightarrow> (\<forall>pat\<in>set pats. matches T pat (\<lambda>v. Some (f v)))" for f
  proof -
    have "matches T pat (map_of (zip vs (map f vs))) = matches T pat (\<lambda>v. Some (f v))" if "pat \<in> set pats" for pat
      by (rule matches_cong) (use assms(2) that m in blast)
    then show ?thesis unfolding solves_def by simp
  qed
  show ?thesis
  proof
    assume s: "solves T pats vs b"
    then have b: "b = map (at_var vs b) vs" using row_valued [OF assms(1), of b] by (simp add: solves_def)
    have "solves T pats vs (map (at_var vs b) vs)" using s b by metis
    then show "\<exists>f. b = map f vs \<and> (\<forall>pat\<in>set pats. matches T pat (\<lambda>v. Some (f v)))" using b unfolding eq by blast
  next
    assume "\<exists>f. b = map f vs \<and> (\<forall>pat\<in>set pats. matches T pat (\<lambda>v. Some (f v)))"
    then show "solves T pats vs b" using eq by blast
  qed
qed

text \<open>Answers over the same variables in another order.\<close>

lemma positions_spec: "set ws \<subseteq> set vs \<Longrightarrow> \<exists>is. positions vs ws = Some is \<and> (\<forall>r. pick is r = map (at_var vs r) ws)"
proof (induction ws)
  case Nil
  then show ?case by (simp add: pick_def)
next
  case (Cons w ws)
  then obtain "is" where "positions vs ws = Some is" "\<forall>r. pick is r = map (at_var vs r) ws" by auto
  moreover obtain i where "position w vs = Some i" using position_spec [of w vs] Cons.prems by auto
  ultimately show ?case by (simp add: pick_def at_var_def)
qed

lemma answers_reorder:
  assumes "answers T pats vs rs" and "distinct ws" and "set ws = set vs"
  shows "answers T pats ws (map (\<lambda>r. map (at_var vs r) ws) rs)"
proof -
  have vs: "distinct vs" "set vs = (\<Union>pat\<in>set pats. pattern_vars pat)" "distinct rs" "set rs = {b. solves T pats vs b}"
    using assms(1) by (simp_all add: answers_def)
  have sub: "\<forall>pat\<in>set pats. pattern_vars pat \<subseteq> set vs" "\<forall>pat\<in>set pats. pattern_vars pat \<subseteq> set ws" using vs(2) assms(3) by auto
  have len: "length r = length vs" if "r \<in> set rs" for r using that vs(4) by (simp add: solves_def)
  have inj: "inj_on (\<lambda>r. map (at_var vs r) ws) (set rs)"
  proof (rule inj_onI)
    fix r r' assume r: "r \<in> set rs" "r' \<in> set rs" "map (at_var vs r) ws = map (at_var vs r') ws"
    then have "map (at_var vs r) vs = map (at_var vs r') vs" using assms(3) by (simp add: map_eq_conv)
    then show "r = r'" using row_valued [OF vs(1) len [OF r(1)]] row_valued [OF vs(1) len [OF r(2)]] by simp
  qed
  have "set (map (\<lambda>r. map (at_var vs r) ws) rs) = {b. solves T pats ws b}"
  proof (intro set_eqI iffI)
    fix b assume "b \<in> set (map (\<lambda>r. map (at_var vs r) ws) rs)"
    then obtain f where f: "\<forall>pat\<in>set pats. matches T pat (\<lambda>v. Some (f v))" "b = map (at_var vs (map f vs)) ws"
      using vs(4) solves_valued [OF vs(1) sub(1)] by auto
    then have "b = map f ws" using assms(3) by simp
    then show "b \<in> {b. solves T pats ws b}" using f(1) solves_valued [OF assms(2) sub(2)] by blast
  next
    fix b assume "b \<in> {b. solves T pats ws b}"
    then obtain f where f: "\<forall>pat\<in>set pats. matches T pat (\<lambda>v. Some (f v))" "b = map f ws"
      using solves_valued [OF assms(2) sub(2)] by blast
    then have "map f vs \<in> set rs" using vs(4) solves_valued [OF vs(1) sub(1)] by blast
    moreover have "b = map (at_var vs (map f vs)) ws" using f(2) assms(3) by simp
    ultimately show "b \<in> set (map (\<lambda>r. map (at_var vs r) ws) rs)" unfolding set_map by (rule rev_image_eqI)
  qed
  then show ?thesis using assms(2,3) vs inj by (simp add: answers_def distinct_map)
qed

section \<open>Hash joins\<close>

lemma hash_table_spec: "hash_table bkey brows k = filter (\<lambda>br. pick bkey br = k) brows"
proof -
  have "fold (\<lambda>br ht. ht(pick bkey br := ht (pick bkey br) @ [br])) brows ht k = ht k @ filter (\<lambda>br. pick bkey br = k) brows" for ht
    by (induction brows arbitrary: ht) auto
  then show ?thesis by (simp add: hash_table_def)
qed

lemma pick_positions: "pick (map (\<lambda>v. the (position v vs)) ws) r = map (at_var vs r) ws"
  by (simp add: pick_def at_var_def comp_def)

lemma pick_filter: "distinct vs \<Longrightarrow> pick (filter (\<lambda>i. P (vs ! i)) [0..<length vs]) r = map (at_var vs r) (filter P vs)"
proof -
  assume d: "distinct vs"
  have "filter P vs = map (\<lambda>i. vs ! i) (filter (\<lambda>i. P (vs ! i)) [0..<length vs])"
    by (subst map_nth [symmetric, of vs]) (simp add: filter_map comp_def)
  then show ?thesis using d by (simp add: pick_def comp_def at_var_def position_nth)
qed

lemma distinct_concat_map:
  "distinct xs \<Longrightarrow> (\<And>x. x \<in> set xs \<Longrightarrow> distinct (f x)) \<Longrightarrow> (\<And>x y. x \<in> set xs \<Longrightarrow> y \<in> set xs \<Longrightarrow> x \<noteq> y \<Longrightarrow> set (f x) \<inter> set (f y) = {})
    \<Longrightarrow> distinct (concat (map f xs))"
proof (induction xs)
  case (Cons x xs)
  have "distinct (concat (map f xs))" by (rule Cons.IH) (use Cons.prems in auto)
  moreover have "set (f x) \<inter> set (f y) = {}" if "y \<in> set xs" for y using Cons.prems(1,3) that by (auto dest: Cons.prems(3))
  ultimately show ?case using Cons.prems(2) [of x] by auto
qed simp

lemma mem_concat_map: "x \<in> set xs \<Longrightarrow> y \<in> set (f x) \<Longrightarrow> y \<in> set (concat (map f xs))"
  by auto

lemma hash_join_answers:
  assumes b: "answers T ps bv br" and p: "answers T qs pv pr"
  shows "fst (hash_join bv br pv pr) = bv @ filter (\<lambda>v. v \<notin> set bv) pv"
    and "answers T (ps @ qs) (fst (hash_join bv br pv pr)) (snd (hash_join bv br pv pr))"
proof -
  let ?new = "filter (\<lambda>v. v \<notin> set bv) pv" and ?key = "filter (\<lambda>v. v \<in> set pv) bv"
  let ?out = "bv @ ?new"
  have B: "distinct bv" "set bv = (\<Union>pat\<in>set ps. pattern_vars pat)" "distinct br" "set br = {b. solves T ps bv b}" using b by (simp_all add: answers_def)
  have P: "distinct pv" "set pv = (\<Union>pat\<in>set qs. pattern_vars pat)" "distinct pr" "set pr = {b. solves T qs pv b}" using p by (simp_all add: answers_def)
  have d: "distinct ?out" and so: "set ?out = set bv \<union> set pv" using B(1) P(1) by auto
  have sub: "\<forall>pat\<in>set ps. pattern_vars pat \<subseteq> set bv" "\<forall>pat\<in>set qs. pattern_vars pat \<subseteq> set pv"
    "\<forall>pat\<in>set (ps @ qs). pattern_vars pat \<subseteq> set ?out" unfolding so using B(2) P(2) by auto
  let ?join = "\<lambda>r. map (\<lambda>l. l @ map (at_var pv r) ?new) (filter (\<lambda>l. map (at_var bv l) ?key = map (at_var pv r) ?key) br)"
  have j: "hash_join bv br pv pr = (?out, concat (map ?join pr))"
    unfolding hash_join_def Let_def hash_table_spec pick_positions pick_filter [OF P(1), where P = "\<lambda>v. v \<notin> set bv"] by (rule refl)
  show "fst (hash_join bv br pv pr) = ?out" by (simp add: j)
  have lb: "length l = length bv" if "l \<in> set br" for l using that B(4) by (simp add: solves_def)
  have lp: "length r = length pv" if "r \<in> set pr" for r using that P(4) by (simp add: solves_def)
  have "distinct (concat (map ?join pr))"
  proof (rule distinct_concat_map [OF P(3)])
    show "distinct (?join r)" for r using B(3) by (auto simp: distinct_map inj_on_def)
    fix r r' assume r: "r \<in> set pr" "r' \<in> set pr" "r \<noteq> r'"
    show "set (?join r) \<inter> set (?join r') = {}"
    proof (rule ccontr)
      assume "set (?join r) \<inter> set (?join r') \<noteq> {}"
      then obtain l l' where l: "l \<in> set br" "l' \<in> set br" "map (at_var bv l) ?key = map (at_var pv r) ?key"
        "map (at_var bv l') ?key = map (at_var pv r') ?key" "l @ map (at_var pv r) ?new = l' @ map (at_var pv r') ?new" by auto
      have "l = l'" "map (at_var pv r) ?new = map (at_var pv r') ?new" using l(5) lb [OF l(1)] lb [OF l(2)] by auto
      then have "at_var pv r v = at_var pv r' v" if "v \<in> set pv" for v
        using that l(3,4) by (cases "v \<in> set bv") (auto simp: map_eq_conv)
      then have "map (at_var pv r) pv = map (at_var pv r') pv" by simp
      then show False using r(3) row_valued [OF P(1) lp [OF r(1)]] row_valued [OF P(1) lp [OF r(2)]] by simp
    qed
  qed
  moreover have "set (concat (map ?join pr)) = {x. solves T (ps @ qs) ?out x}"
  proof (intro set_eqI iffI)
    fix x assume "x \<in> set (concat (map ?join pr))"
    then obtain l r where lr: "l \<in> set br" "r \<in> set pr" "map (at_var bv l) ?key = map (at_var pv r) ?key" "x = l @ map (at_var pv r) ?new" by auto
    obtain f where f: "l = map f bv" "\<forall>pat\<in>set ps. matches T pat (\<lambda>v. Some (f v))"
      using lr(1) B(4) solves_valued [OF B(1) sub(1), of T l] by auto
    obtain g where g: "r = map g pv" "\<forall>pat\<in>set qs. matches T pat (\<lambda>v. Some (g v))"
      using lr(2) P(4) solves_valued [OF P(1) sub(2), of T r] by auto
    define h where "h = (\<lambda>v. if v \<in> set bv then f v else g v)"
    have "f v = g v" if "v \<in> set bv" "v \<in> set pv" for v using lr(3) that unfolding f(1) g(1) by (auto simp: map_eq_conv)
    then have hg: "h v = g v" if "v \<in> set pv" for v using that by (simp add: h_def)
    have "matches T pat (\<lambda>v. Some (h v)) = matches T pat (\<lambda>v. Some (f v))" if "pat \<in> set ps" for pat
      by (rule matches_cong) (use sub(1) that in \<open>auto simp: h_def\<close>)
    moreover have "matches T pat (\<lambda>v. Some (h v)) = matches T pat (\<lambda>v. Some (g v))" if "pat \<in> set qs" for pat
      by (rule matches_cong) (use sub(2) that hg in auto)
    ultimately have "\<forall>pat\<in>set (ps @ qs). matches T pat (\<lambda>v. Some (h v))" using f(2) g(2) by auto
    moreover have "x = map h ?out" unfolding lr(4) f(1) g(1) by (auto simp: h_def)
    ultimately show "x \<in> {x. solves T (ps @ qs) ?out x}" using solves_valued [OF d sub(3), of T x] by blast
  next
    fix x assume "x \<in> {x. solves T (ps @ qs) ?out x}"
    then obtain h where h: "x = map h ?out" "\<forall>pat\<in>set (ps @ qs). matches T pat (\<lambda>v. Some (h v))"
      using solves_valued [OF d sub(3), of T x] by blast
    have "map h bv \<in> set br" using B(4) solves_valued [OF B(1) sub(1), of T "map h bv"] h(2) by auto
    moreover have "map h pv \<in> set pr" using P(4) solves_valued [OF P(1) sub(2), of T "map h pv"] h(2) by auto
    moreover have "map (at_var bv (map h bv)) ?key = map (at_var pv (map h pv)) ?key" by simp
    moreover have "x = map h bv @ map (at_var pv (map h pv)) ?new" using h(1) by simp
    ultimately have "map h pv \<in> set pr" "x \<in> set (?join (map h pv))" by (simp_all add: rev_image_eqI)
    then show "x \<in> set (concat (map ?join pr))" by (rule mem_concat_map)
  qed
  moreover have "set ?out = (\<Union>pat\<in>set (ps @ qs). pattern_vars pat)"
    unfolding so set_append [of ps qs] UN_Un B(2) [symmetric] P(2) [symmetric] by (rule refl)
  ultimately show "answers T (ps @ qs) (fst (hash_join bv br pv pr)) (snd (hash_join bv br pv pr))"
    using d by (simp add: answers_def j)
qed

end
