(* ===== verification/Hash_Exact.thy ===== *)
theory Hash_Exact imports Hash_Rows begin

text \<open>
  What the executor of a join plan computes: any plan that covers the query streams exactly the
  solutions of the query, each once, and the plans of the fixed cutover cover it.
\<close>

section \<open>Scans\<close>

definition agrees :: "triple_pattern \<Rightarrow> row \<Rightarrow> bool" where
  "agrees pat t \<longleftrightarrow> (case t of (s, p, ob) \<Rightarrow>
     wanted (as_bound (pat_s pat)) s \<and> wanted (as_bound (pat_p pat)) p \<and> wanted (as_bound (pat_o pat)) ob)"

lemma unpermute_eq: "unpermute ord a b c = unpermute ord a' b' c' \<longleftrightarrow> a = a' \<and> b = b' \<and> c = c'"
  by (cases ord) auto

lemma row_in_ordering: "(a, b, c) \<in> (\<lambda>t. by_ordering t ord) ` T \<longleftrightarrow> unpermute ord a b c \<in> T"
  by (cases ord) (force simp: by_ordering_def image_iff)+

lemma wanted_levels:
  "wanted (want pat ord 0) a \<and> wanted (want pat ord 1) b \<and> wanted (want pat ord 2) c \<longleftrightarrow> agrees pat (unpermute ord a b c)"
  by (cases ord) (auto simp: want_def phys_terms_def agrees_def numeral_2_eq_2)

lemma scan_ordered_spec:
  assumes src: "source_of src T" and mx: "no_max T"
  shows "\<exists>ts. scan_ordered src pat ord = Some ts \<and> distinct ts \<and> set ts = {t \<in> T. agrees pat t}"
proof -
  let ?S = "(\<lambda>t. by_ordering t ord) ` T" and ?it = "source_iter src ord" and ?w = "\<lambda>d. wanted (want pat ord d)"
  note path = source_iter_path(1,2) [OF src, of ord]
  have fin: "finite (children ?S ks)" for ks by (rule path_finite [OF path(1)])
  have top: "v \<noteq> - 1" if c: "v \<in> children ?S ks" "length ks \<le> 2" for ks v
  proof -
    obtain t where t: "t \<in> T" "v = comps (by_ordering t ord) ! length ks" using c(1) unfolding children_def by blast
    obtain s p ob where e: "t = (s, p, ob)" by (cases t)
    have "set (comps (by_ordering (s, p, ob) ord)) = {s, p, ob}" by (cases ord) (auto simp: comps_def by_ordering_def)
    moreover have "length ks < length (comps (by_ordering (s, p, ob) ord))" using c(2) comps_eq(1) by simp
    ultimately have "v \<in> {s, p, ob}" using t(2) nth_mem unfolding e by metis
    then show ?thesis using mx t(1) e by (auto simp: no_max_def)
  qed
  define g where "g = (\<lambda>l0 l1. map (unpermute ord l0 l1) (filter (?w 2) (sorted_list_of_set (children ?S [l0, l1]))))"
  define f where "f = (\<lambda>l0. concat (map (g l0) (filter (?w 1) (sorted_list_of_set (children ?S [l0])))))"
  define ts where "ts = concat (map f (filter (?w 0) (sorted_list_of_set (children ?S []))))"
  have "- 1 \<notin> set (keys ?it 0)" using path(2) fin top [of "- 1" "[]"] by auto
  then obtain it' where "scan_level0 (want pat ord) ord (?it, []) = Some (it', [] @ ts)"
    using scan_level0_spec [OF path(1), of "want pat ord" ord "[]"] top unfolding ts_def f_def g_def path(2) by blast
  then have run: "scan_ordered src pat ord = Some ts" by (simp add: scan_ordered_def)
  have setg: "t \<in> set (g l0 l1) \<longleftrightarrow> (\<exists>l2. t = unpermute ord l0 l1 l2 \<and> ?w 2 l2 \<and> unpermute ord l0 l1 l2 \<in> T)" for t l0 l1
    using fin [of "[l0, l1]"] by (auto simp: g_def child_step row_in_ordering)
  have setf: "t \<in> set (f l0) \<longleftrightarrow> (\<exists>l1 l2. t = unpermute ord l0 l1 l2 \<and> ?w 1 l1 \<and> ?w 2 l2 \<and> unpermute ord l0 l1 l2 \<in> T)" for t l0
    using fin [of "[l0]"] setg by (auto simp: f_def child_step row_in_ordering)
  have sett: "t \<in> set ts \<longleftrightarrow> (\<exists>l0 l1 l2. t = unpermute ord l0 l1 l2 \<and> ?w 0 l0 \<and> ?w 1 l1 \<and> ?w 2 l2 \<and> unpermute ord l0 l1 l2 \<in> T)" for t
    using fin [of "[]"] setf by (auto simp: ts_def child_step row_in_ordering)
  have surj: "\<exists>l0 l1 l2. t = unpermute ord l0 l1 l2" for t :: row by (cases t; cases ord) auto
  have "set ts = {t \<in> T. agrees pat t}"
  proof (intro set_eqI)
    fix t :: row
    obtain l0 l1 l2 where t: "t = unpermute ord l0 l1 l2" using surj by blast
    show "t \<in> set ts \<longleftrightarrow> t \<in> {t \<in> T. agrees pat t}"
      unfolding sett t unpermute_eq mem_Collect_eq wanted_levels [symmetric] by blast
  qed
  moreover have "distinct (g l0 l1)" for l0 l1 by (simp add: g_def distinct_map inj_on_def unpermute_eq)
  then have "distinct (f l0)" for l0
    unfolding f_def by (intro distinct_concat_map) (auto simp: setg unpermute_eq)
  then have "distinct ts"
    unfolding ts_def by (intro distinct_concat_map) (auto simp: setf unpermute_eq)
  ultimately show ?thesis using run by blast
qed

section \<open>Projections\<close>

lemma set_var_list: "set (var_list pat) = pattern_vars pat" "distinct (var_list pat)"
  by (auto simp: var_list_def set_push_vars distinct_push_vars pattern_vars_def)

lemma position_of_spec:
  assumes "v \<in> pattern_vars pat"
  shows "\<exists>k. position_of pat v = Some k \<and> k < 3 \<and> slots pat ! k = Var v"
  using assms by (auto simp: position_of_def slots_def pattern_vars_def)

lemma project_spec:
  "set vs \<subseteq> pattern_vars pat \<Longrightarrow> project pat t vs = Some (map (\<lambda>v. comps t ! the (position_of pat v)) vs)"
proof (induction vs)
  case (Cons v vs)
  obtain k where k: "position_of pat v = Some k" "k < 3" using position_of_spec [of v pat] Cons.prems by auto
  then have "k = 0 \<or> k = Suc 0 \<or> k = Suc (Suc 0)" by auto
  then show ?case using k(1) Cons by (cases t) (auto simp: comps_def)
qed simp

lemma project_all_spec:
  "set vs \<subseteq> pattern_vars pat \<Longrightarrow> project_all pat vs ts = Some (map (\<lambda>t. map (\<lambda>v. comps t ! the (position_of pat v)) vs) ts)"
  by (induction ts) (simp_all add: project_spec)

lemma slot_cases: "(\<forall>k<3. P (slots pat ! k) (comps (s, p, ob) ! k)) \<longleftrightarrow> P (pat_s pat) s \<and> P (pat_p pat) p \<and> P (pat_o pat) ob"
proof -
  have "(\<forall>k<3. Q k) \<longleftrightarrow> Q 0 \<and> Q 1 \<and> Q 2" for Q :: "nat \<Rightarrow> bool"
    by (auto simp: numeral_3_eq_3 numeral_2_eq_2 less_Suc_eq)
  then show ?thesis by (simp add: slots_def comps_def)
qed

lemma agrees_slots: "agrees pat t \<longleftrightarrow> (\<forall>k<3. wanted (as_bound (slots pat ! k)) (comps t ! k))"
  using slot_cases [of "\<lambda>x y. wanted (as_bound x) y"] by (cases t) (simp add: agrees_def)

lemma matches_slots: "matches T pat m \<longleftrightarrow> (\<exists>t\<in>T. \<forall>k<3. value_of m (slots pat ! k) = Some (comps t ! k))"
proof -
  have "matches T pat m \<longleftrightarrow> (\<exists>(s, p, ob)\<in>T. \<forall>k<3. value_of m (slots pat ! k) = Some (comps (s, p, ob) ! k))"
    using slot_cases [of "\<lambda>x y. value_of m x = Some y"] by (auto simp: matches_def)
  then show ?thesis by (simp add: case_prod_unfold)
qed

lemma slot_position:
  assumes "no_repeat pat" and "k < 3" and "slots pat ! k = Var v"
  shows "position_of pat v = Some k"
proof -
  have "k = 0 \<or> k = 1 \<or> k = 2" using assms(2) by auto
  then show ?thesis using assms(1,3) by (auto simp: position_of_def slots_def no_repeat_def split: if_splits)
qed

lemma scan_answers:
  assumes src: "source_of src T" and mx: "no_max T" and nr: "no_repeat pat"
  shows "\<exists>ts rs. scan_pattern src pat = Some ts \<and> project_all pat (var_list pat) ts = Some rs \<and> answers T [pat] (var_list pat) rs"
proof -
  let ?vs = "var_list pat" and ?c = "\<lambda>t v. comps t ! the (position_of pat v)"
  obtain ts where ts: "scan_pattern src pat = Some ts" "distinct ts" "set ts = {t \<in> T. agrees pat t}"
    using scan_ordered_spec [OF src mx] unfolding scan_pattern_def by blast
  have vs: "set ?vs = pattern_vars pat" "distinct ?vs" by (rule set_var_list)+
  have slot: "value_of (\<lambda>v. Some (?c t v)) (slots pat ! k) = Some (comps t ! k) \<longleftrightarrow> wanted (as_bound (slots pat ! k)) (comps t ! k)"
    if "k < 3" for t k
    using slot_position [OF nr that] by (cases "slots pat ! k") (auto simp: wanted_def)
  have inj: "inj_on (\<lambda>t. map (?c t) ?vs) (set ts)"
  proof (rule inj_onI)
    fix t u assume a: "t \<in> set ts" "u \<in> set ts" "map (?c t) ?vs = map (?c u) ?vs"
    have "comps t ! k = comps u ! k" if k: "k < 3" for k
    proof (cases "slots pat ! k")
      case (Bound x)
      have "wanted (as_bound (slots pat ! k)) (comps t ! k)" "wanted (as_bound (slots pat ! k)) (comps u ! k)"
        using a(1,2) ts(3) k by (simp_all add: agrees_slots)
      then show ?thesis unfolding Bound wanted_def by simp
    next
      case (Var v)
      then have "v \<in> set ?vs" unfolding vs(1) using k by (auto simp: pattern_vars_def slots_def numeral_3_eq_3 less_Suc_eq)
      then show ?thesis using a(3) slot_position [OF nr k Var] by (auto simp: map_eq_conv)
    qed
    then have "comps t = comps u" using comps_eq(1) [of t] comps_eq(1) [of u] by (intro nth_equalityI) simp_all
    then show "t = u" by (cases t; cases u) (simp add: comps_def)
  qed
  have sub: "\<forall>p\<in>set [pat]. pattern_vars p \<subseteq> set ?vs" using vs(1) by simp
  have "set (map (\<lambda>t. map (?c t) ?vs) ts) = {b. solves T [pat] ?vs b}"
  proof (intro set_eqI iffI)
    fix b assume "b \<in> set (map (\<lambda>t. map (?c t) ?vs) ts)"
    then obtain t where t: "t \<in> T" "agrees pat t" "b = map (?c t) ?vs" using ts(3) by auto
    then have "matches T pat (\<lambda>v. Some (?c t v))" unfolding matches_slots agrees_slots using slot by blast
    then show "b \<in> {b. solves T [pat] ?vs b}" using t(3) solves_valued [OF vs(2) sub, of T b] by auto
  next
    fix b assume "b \<in> {b. solves T [pat] ?vs b}"
    then obtain h where h: "b = map h ?vs" "matches T pat (\<lambda>v. Some (h v))" using solves_valued [OF vs(2) sub, of T b] by auto
    then obtain t where t: "t \<in> T" "\<forall>k<3. value_of (\<lambda>v. Some (h v)) (slots pat ! k) = Some (comps t ! k)" unfolding matches_slots by blast
    have "h v = ?c t v" if v: "v \<in> set ?vs" for v
    proof -
      obtain k where "position_of pat v = Some k" "k < 3" "slots pat ! k = Var v" using position_of_spec [of v pat] v vs(1) by auto
      then show ?thesis using t(2) by auto
    qed
    then have "b = map (?c t) ?vs" unfolding h(1) by (rule map_cong [OF refl])
    moreover have "wanted (as_bound (slots pat ! k)) (comps t ! k)" if "k < 3" for k
      using t(2) that by (cases "slots pat ! k") (auto simp: wanted_def)
    then have "t \<in> set ts" using t(1) ts(3) by (simp add: agrees_slots)
    ultimately show "b \<in> set (map (\<lambda>t. map (?c t) ?vs) ts)" unfolding set_map by (rule image_eqI)
  qed
  then have "answers T [pat] ?vs (map (\<lambda>t. map (?c t) ?vs) ts)"
    using vs ts(2) inj by (simp add: answers_def distinct_map)
  then show ?thesis using ts(1) project_all_spec [of ?vs pat ts] vs(1) by auto
qed

section \<open>Evaluating a plan\<close>

fun spec_ok :: "triple_pattern list \<Rightarrow> join_spec \<Rightarrow> bool" where
  "spec_ok bgp (Scan i) \<longleftrightarrow> i < length bgp \<and> no_repeat (bgp ! i)"
| "spec_ok bgp (Wcoj ps order) \<longleftrightarrow> (\<forall>i\<in>set ps. i < length bgp)
     \<and> (if ps = [] then order = [] else eliminates (map (\<lambda>i. bgp ! i) ps) order)"
| "spec_ok bgp (Hash_Join bs ps) \<longleftrightarrow> spec_ok bgp bs \<and> spec_ok bgp ps"

definition covered :: "triple_pattern list \<Rightarrow> join_spec \<Rightarrow> triple_pattern list" where
  "covered bgp spec = map (\<lambda>i. bgp ! i) (collect_patterns spec)"

lemma read_rows_spec: "read_rows (map Inr bs) = Inr (concat (map batch_rows bs))"
  "read_rows (map Inr bs @ [Inl e]) = Inl e"
  by (induction bs) simp_all

lemma lexordp_distinct: "sorted_wrt ord_class.lexordp (rs :: u64 list list) \<Longrightarrow> distinct rs"
proof (induction rs)
  case (Cons r rs)
  then show ?case using lexordp_irreflexive' [of r] by auto
qed simp

lemma add_missing_filter: "distinct pv \<Longrightarrow> add_missing bv pv = bv @ filter (\<lambda>v. v \<notin> set bv) pv"
proof (induction pv rule: rev_induct)
  case (snoc v pv)
  then show ?case by (auto simp: add_missing_def)
qed (simp add: add_missing_def)

lemma hash_join_empty: "snd (hash_join bv [] pv pr) = []"
  by (simp add: hash_join_def Let_def hash_table_def)

lemma eval_spec:
  assumes src: "source_of src T" and mx: "no_max T"
  shows "spec_ok bgp spec \<Longrightarrow>
    (\<exists>vs rs. answers T (covered bgp spec) vs rs \<and> spec_vars bgp spec = Some vs \<and>
      (eval cancel src bgp path spec = Some (Inr (vs, rs))
       \<or> eval cancel src bgp path spec = Some (Inl Cancelled) \<and> (\<exists>q n. cancel q n)))"
proof (induction spec arbitrary: path)
  case (Scan i)
  then have i: "i < length bgp" "no_repeat (bgp ! i)" by simp_all
  obtain ts rs where r: "scan_pattern src (bgp ! i) = Some ts" "project_all (bgp ! i) (var_list (bgp ! i)) ts = Some rs"
    "answers T [bgp ! i] (var_list (bgp ! i)) rs" using scan_answers [OF src mx i(2)] by blast
  have "eval cancel src bgp path (Scan i) = (if cancel path 0 then Some (Inl Cancelled) else Some (Inr (var_list (bgp ! i), rs)))"
    using i r(1,2) by (simp add: Let_def)
  then show ?case using i(1) r(3) by (cases "cancel path 0") (auto simp: covered_def)
next
  case (Wcoj ps order)
  show ?case
  proof (cases "ps = []")
    case True
    have "answers T [] [] [[]]" by (auto simp: answers_def solves_def)
    then show ?thesis using True Wcoj by (cases "cancel path 0") (auto simp: covered_def)
  next
    case False
    let ?sub = "map (\<lambda>i. bgp ! i) ps"
    have el: "eliminates ?sub order" and i: "\<forall>i\<in>set ps. i < length bgp" using Wcoj False by simp_all
    let ?cancel = "\<lambda>n. cancel path (Suc n)"
    obtain x bs where x: "bi_new src ?sub order = Some x" "streams ?cancel x bs"
      "set (concat (map batch_rows bs)) = {b. solves T ?sub order b}" "sorted_wrt ord_class.lexordp (concat (map batch_rows bs))"
      using executor_streams [OF src mx el] by blast
    have a: "answers T ?sub order (concat (map batch_rows bs))"
      using x(3) lexordp_distinct [OF x(4)] el by (auto simp: answers_def eliminates_def)
    have e: "eval cancel src bgp path (Wcoj ps order) = (if cancel path 0 then Some (Inl Cancelled)
        else map_option (\<lambda>is. case read_rows is of Inl e \<Rightarrow> Inl e | Inr rs \<Rightarrow> Inr (order, rs)) (bi_drain ?cancel x))"
      using False i x(1) by simp
    have "eval cancel src bgp path (Wcoj ps order) = Some (Inr (order, concat (map batch_rows bs)))
       \<or> eval cancel src bgp path (Wcoj ps order) = Some (Inl Cancelled) \<and> (\<exists>q n. cancel q n)"
    proof (cases "cancel path 0")
      case True
      then show ?thesis unfolding e by auto
    next
      case no: False
      from x(2) show ?thesis unfolding streams_def
      proof (elim disjE exE conjE)
        assume "bi_drain ?cancel x = Some (map Inr bs)"
        then show ?thesis unfolding e using no by (simp add: read_rows_spec)
      next
        fix n k assume "cancel path (Suc n)" "bi_drain ?cancel x = Some (map Inr (take k bs) @ [Inl Cancelled])"
        then show ?thesis unfolding e using no by (auto simp: read_rows_spec)
      qed
    qed
    then show ?thesis using a unfolding covered_def collect_patterns.simps spec_vars.simps by blast
  qed
next
  case (Hash_Join l r)
  obtain bv br where b: "answers T (covered bgp l) bv br" "spec_vars bgp l = Some bv"
    "eval cancel src bgp (path @ [0]) l = Some (Inr (bv, br)) \<or> eval cancel src bgp (path @ [0]) l = Some (Inl Cancelled) \<and> (\<exists>q n. cancel q n)"
    using Hash_Join.IH(1) [of "path @ [0]"] Hash_Join.prems by auto
  obtain pv pr where p: "answers T (covered bgp r) pv pr" "spec_vars bgp r = Some pv"
    "eval cancel src bgp (path @ [1]) r = Some (Inr (pv, pr)) \<or> eval cancel src bgp (path @ [1]) r = Some (Inl Cancelled) \<and> (\<exists>q n. cancel q n)"
    using Hash_Join.IH(2) [of "path @ [1]"] Hash_Join.prems by auto
  let ?j = "hash_join bv br pv pr"
  note J = hash_join_answers [OF b(1) p(1)]
  have "distinct pv" using p(1) by (simp add: answers_def)
  then have vars: "spec_vars bgp (Hash_Join l r) = Some (fst ?j)" using b(2) p(2) J(1) by (simp add: add_missing_filter)
  have ans: "answers T (covered bgp (Hash_Join l r)) (fst ?j) (snd ?j)" using J(2) by (simp add: covered_def)
  have empty: "hash_join bv [] pv [] = (fst (hash_join bv [] pv pr), [])" by (simp add: hash_join_def Let_def)
  have "eval cancel src bgp path (Hash_Join l r) = Some (Inr ?j)
       \<or> eval cancel src bgp path (Hash_Join l r) = Some (Inl Cancelled) \<and> (\<exists>q n. cancel q n)"
  proof (cases "cancel path 0")
    case True
    then show ?thesis by auto
  next
    case no: False
    from b(3) show ?thesis
    proof (elim disjE conjE)
      assume "eval cancel src bgp (path @ [0]) l = Some (Inl Cancelled)" "\<exists>q n. cancel q n"
      then show ?thesis using no by simp
    next
      assume l: "eval cancel src bgp (path @ [0]) l = Some (Inr (bv, br))"
      show ?thesis
      proof (cases "br = []")
        case True
        then have "?j = hash_join bv [] pv []" unfolding empty by (simp add: prod_eq_iff hash_join_empty)
        then show ?thesis using no l True p(2) by simp
      next
        case False
        from p(3) show ?thesis using no l False by (elim disjE conjE) simp_all
      qed
    qed
  qed
  then show ?case using ans vars by (metis prod.collapse)
qed

section \<open>The stream\<close>

lemma push_rows_spec:
  assumes n: "0 < n"
  shows "holds n acc b \<Longrightarrow> \<forall>r\<in>set rs. length r = n \<Longrightarrow>
    (\<exists>b'. push_rows rs b = (None, [], b') \<and> holds n (acc @ rs) b')
    \<or> (\<exists>c acc' rest b'. push_rows rs b = (Some c, rest, b') \<and> holds n acc' b' \<and> batch_rows c @ acc' @ rest = acc @ rs
       \<and> length rest < length rs \<and> set rest \<subseteq> set rs \<and> batch_rows c \<noteq> [] \<and> length (batch_rows c) \<le> standard_vector_size)"
proof (induction rs arbitrary: acc b)
  case Nil
  then show ?case by simp
next
  case (Cons r rs)
  have len: "length r = n" using Cons.prems(2) by simp
  have cap: "length acc \<le> standard_vector_size" using Cons.prems(1) by (simp add: holds_def)
  obtain fl b1 where p: "push_row r b = (fl, b1)" by (cases "push_row r b")
  show ?case
  proof (cases "length acc < standard_vector_size")
    case True
    then have f: "fl = None" "holds n (acc @ [r]) b1" using push_row_holds(1) [OF n Cons.prems(1) len] p by auto
    then have step: "push_rows (r # rs) b = push_rows rs b1" using p by simp
    have all: "\<forall>r\<in>set rs. length r = n" using Cons.prems(2) by simp
    have ap: "(acc @ [r]) @ rs = acc @ r # rs" by simp
    from Cons.IH [OF f(2) all, unfolded ap] show ?thesis
    proof (elim disjE exE conjE)
      fix c acc' rest b'
      assume "push_rows rs b1 = (Some c, rest, b')" "holds n acc' b'" "batch_rows c @ acc' @ rest = acc @ r # rs" "length rest < length rs"
        "set rest \<subseteq> set rs" "batch_rows c \<noteq> []" "length (batch_rows c) \<le> standard_vector_size"
      then have g: "push_rows (r # rs) b = (Some c, rest, b')" "holds n acc' b'" "batch_rows c @ acc' @ rest = acc @ r # rs"
        "length rest < length (r # rs)" "set rest \<subseteq> set (r # rs)" "batch_rows c \<noteq> []" "length (batch_rows c) \<le> standard_vector_size"
        unfolding step by auto
      show ?thesis by (rule disjI2, intro exI conjI) (fact g)+
    next
      fix b' assume "push_rows rs b1 = (None, [], b')" "holds n (acc @ r # rs) b'"
      then show ?thesis using step by auto
    qed
  next
    case False
    then have l: "length acc = standard_vector_size" using cap by simp
    from push_row_holds(2) [OF n Cons.prems(1) len l] p obtain c where c: "fl = Some c" "batch_rows c = acc" "holds n [r] b1" by auto
    have "push_rows (r # rs) b = (Some c, rs, b1)" using p c(1) by simp
    moreover have "acc \<noteq> []" using l by (auto simp: standard_vector_size_def)
    ultimately show ?thesis using c l by (intro disjI2 exI [of _ c] exI [of _ "[r]"] exI [of _ rs] exI [of _ b1]) auto
  qed
qed

definition full_out :: "out_batch list \<Rightarrow> bool" where
  "full_out bs \<longleftrightarrow> (\<forall>c\<in>set bs. out_rows c \<noteq> [] \<and> length (out_rows c) \<le> standard_vector_size)"

lemma hi_drain_done: "hi_done st \<Longrightarrow> hi_error st = None \<Longrightarrow> hi_drain st = Some []"
  by (subst hi_drain.simps) (simp add: hi_next_def)

lemma hi_drain_rows:
  assumes n: "0 < n"
  shows "hi_error st = None \<Longrightarrow> \<not> hi_done st \<Longrightarrow> hi_ground st = 0 \<Longrightarrow> holds n acc (hi_builder st) \<Longrightarrow> \<forall>r\<in>set (hi_rows st). length r = n
    \<Longrightarrow> \<exists>bs. hi_drain st = Some (map Inr bs) \<and> concat (map out_rows bs) = acc @ hi_rows st \<and> full_out bs"
proof (induction "length (hi_rows st)" arbitrary: st acc rule: less_induct)
  case less
  from push_rows_spec [OF n less.prems(4,5)] show ?case
  proof (elim disjE exE conjE)
    fix b' assume p: "push_rows (hi_rows st) (hi_builder st) = (None, [], b')" "holds n (acc @ hi_rows st) b'"
    obtain r b2 where f: "finish_internal b' = (r, b2)" by (cases "finish_internal b'")
    let ?st = "st\<lparr>hi_rows := [], hi_builder := b2, hi_done := True\<rparr>"
    have nx: "hi_next st = (map_option (Inr \<circ> Columns) r, ?st)"
      using less.prems(1-3) p(1) f by (simp add: hi_next_def finish_def)
    have rest: "hi_drain ?st = Some []" by (rule hi_drain_done) (use less.prems(1) in simp_all)
    show ?thesis
    proof (cases "acc @ hi_rows st = []")
      case True
      then have "r = None" using finish_holds(1) [OF n p(2)] f by simp
      then have "hi_drain st = Some (map Inr [])" by (subst hi_drain.simps) (simp add: nx)
      then show ?thesis using True by (intro exI [of _ "[]"]) (simp add: full_out_def)
    next
      case False
      then obtain c where c: "r = Some c" "batch_rows c = acc @ hi_rows st" using finish_holds(2) [OF n p(2)] f by auto
      have "hi_drain st = Some (map Inr [Columns c])" by (subst hi_drain.simps) (simp add: nx c(1) rest)
      moreover have "length (acc @ hi_rows st) \<le> standard_vector_size" using p(2) unfolding holds_def by blast
      ultimately show ?thesis using c(2) False by (intro exI [of _ "[Columns c]"]) (simp add: full_out_def)
    qed
  next
    fix c acc' rest b'
    assume p: "push_rows (hi_rows st) (hi_builder st) = (Some c, rest, b')" "holds n acc' b'" "batch_rows c @ acc' @ rest = acc @ hi_rows st"
      "length rest < length (hi_rows st)" "set rest \<subseteq> set (hi_rows st)" "batch_rows c \<noteq> []" "length (batch_rows c) \<le> standard_vector_size"
    let ?st = "st\<lparr>hi_rows := rest, hi_builder := b'\<rparr>"
    have nx: "hi_next st = (Some (Inr (Columns c)), ?st)" using less.prems(1-3) p(1) by (simp add: hi_next_def)
    have "\<exists>bs. hi_drain ?st = Some (map Inr bs) \<and> concat (map out_rows bs) = acc' @ hi_rows ?st \<and> full_out bs"
      by (rule less.hyps) (use less.prems p(2,4,5) in auto)
    then obtain bs where bs: "hi_drain ?st = Some (map Inr bs)" "concat (map out_rows bs) = acc' @ rest" "full_out bs" by auto
    have "hi_drain st = Some (map Inr (Columns c # bs))" by (subst hi_drain.simps) (simp add: nx bs(1))
    then show ?thesis using bs(2,3) p(3,6,7) by (intro exI [of _ "Columns c # bs"]) (simp add: full_out_def)
  qed
qed

section \<open>The executor\<close>

definition covers :: "triple_pattern list \<Rightarrow> join_spec \<Rightarrow> bool" where
  "covers bgp spec \<longleftrightarrow> set (collect_patterns spec) = {..<length bgp}"

lemma covered_set: "covers bgp spec \<Longrightarrow> set (covered bgp spec) = set bgp"
  using nth_image [of "length bgp" bgp] by (simp add: covers_def covered_def lessThan_atLeast0)

lemma answers_cong: "set ps = set qs \<Longrightarrow> answers T ps vs rs = answers T qs vs rs"
  by (simp add: answers_def solves_def)

lemma hi_stream:
  assumes src: "source_of src T" and mx: "no_max T" and ok: "spec_ok bgp spec" and cov: "covers bgp spec"
    and out: "distinct out" "set out = (\<Union>pat\<in>set bgp. pattern_vars pat)"
  shows "\<exists>st bs. hi_new cancel src bgp spec out = Some st \<and> full_out bs \<and> answers T bgp out (concat (map out_rows bs))
    \<and> (hi_drain st = Some (map Inr bs) \<or> hi_drain st = Some [Inl Cancelled] \<and> (\<exists>q n. cancel q n))"
proof -
  obtain vs rs where e: "answers T (covered bgp spec) vs rs" "eval cancel src bgp [] spec = Some (Inr (vs, rs))
       \<or> eval cancel src bgp [] spec = Some (Inl Cancelled) \<and> (\<exists>q n. cancel q n)"
    using eval_spec [OF src mx ok] by blast
  have a: "answers T bgp vs rs" using e(1) answers_cong [OF covered_set [OF cov]] by blast
  have vs: "set vs = set out" using a out(2) by (simp add: answers_def)
  let ?rows = "map (\<lambda>r. map (at_var vs r) out) rs"
  have ans: "answers T bgp out ?rows" by (rule answers_reorder [OF a out(1)]) (simp add: vs)
  obtain "is" where "is": "positions vs out = Some is" "\<forall>r. pick is r = map (at_var vs r) out" using positions_spec [of out vs] vs by auto
  let ?st = "\<lparr>hi_vars = out, hi_rows = [], hi_builder = bb_new out, hi_done = False, hi_error = None, hi_ground = 0\<rparr>"
  define fine where "fine = (if out = [] then ?st\<lparr>hi_ground := length rs\<rparr> else ?st\<lparr>hi_rows := ?rows\<rparr>)"
  have "\<exists>bs. hi_drain fine = Some (map Inr bs) \<and> full_out bs \<and> answers T bgp out (concat (map out_rows bs))"
  proof (cases "out = []")
    case False
    have "\<exists>bs. hi_drain (?st\<lparr>hi_rows := ?rows\<rparr>) = Some (map Inr bs) \<and> concat (map out_rows bs) = [] @ hi_rows (?st\<lparr>hi_rows := ?rows\<rparr>) \<and> full_out bs"
      by (rule hi_drain_rows [of "length out"]) (use False holds_new [of out] in auto)
    then show ?thesis using ans False unfolding fine_def by auto
  next
    case True
    have rs: "set ?rows = {b. solves T bgp [] b}" "distinct ?rows" using ans True by (simp_all add: answers_def)
    have "r = []" if "r \<in> set ?rows" for r using that rs(1) by (simp add: solves_def)
    then have "?rows = [] \<or> ?rows = [[]]" using rs(2) by (cases ?rows; cases "tl ?rows") fastforce+
    then have cases2: "rs = [] \<or> length rs = 1 \<and> ?rows = [[]]" using True by (cases rs) auto
    have done2: "hi_drain (st\<lparr>hi_done := True, hi_error := None\<rparr>) = Some []" for st by (rule hi_drain_done) simp_all
    from cases2 show ?thesis
    proof (elim disjE conjE)
      assume "rs = []"
      then have "hi_next fine = (None, fine\<lparr>hi_done := True\<rparr>)"
        using True by (simp add: fine_def hi_next_def bb_new_def finish_def finish_internal_def)
      then have "hi_drain fine = Some (map Inr [])" by (subst hi_drain.simps) simp
      then show ?thesis using ans \<open>rs = []\<close> by (intro exI [of _ "[]"]) (simp add: full_out_def)
    next
      assume l: "length rs = 1" "?rows = [[]]"
      then have "hi_next fine = (Some (Inr (Unit_Rows 1)), fine\<lparr>hi_ground := 0, hi_done := True\<rparr>)"
        using True by (simp add: fine_def hi_next_def)
      moreover have "hi_drain (fine\<lparr>hi_ground := 0, hi_done := True\<rparr>) = Some []" by (rule hi_drain_done) (simp_all add: fine_def)
      ultimately have "hi_drain fine = Some (map Inr [Unit_Rows 1])" by (subst hi_drain.simps) simp
      then show ?thesis using ans l(2) by (intro exI [of _ "[Unit_Rows 1]"]) (simp add: full_out_def standard_vector_size_def)
    qed
  qed
  then obtain bs where bs: "hi_drain fine = Some (map Inr bs)" "full_out bs" "answers T bgp out (concat (map out_rows bs))" by blast
  from e(2) show ?thesis
  proof (elim disjE conjE)
    assume "eval cancel src bgp [] spec = Some (Inr (vs, rs))"
    then have "hi_new cancel src bgp spec out = Some fine" using "is" by (simp add: hi_new_def Let_def fine_def)
    then show ?thesis using bs by blast
  next
    assume c: "eval cancel src bgp [] spec = Some (Inl Cancelled)" "\<exists>q n. cancel q n"
    let ?e = "?st\<lparr>hi_error := Some Cancelled\<rparr>"
    have "hi_new cancel src bgp spec out = Some ?e" using c(1) by (simp add: hi_new_def Let_def)
    moreover have "hi_next ?e = (Some (Inl Cancelled), ?e\<lparr>hi_error := None, hi_done := True\<rparr>)" by (simp add: hi_next_def)
    then have "hi_drain ?e = Some [Inl Cancelled]" by (subst hi_drain.simps) (simp add: hi_drain_done)
    ultimately show ?thesis using bs(2,3) c(2) by blast
  qed
qed

lemma whole_wcoj:
  assumes "spec_ok bgp spec" and "covers bgp spec" and "as_whole_wcoj bgp spec = Some order"
  shows "eliminates bgp order"
proof -
  obtain ps where s: "spec = Wcoj ps order" "ps \<noteq> []" using assms(3) by (auto simp: as_whole_wcoj_def split: join_spec.splits if_splits)
  have "eliminates (covered bgp spec) order" using assms(1) s by (simp add: covered_def)
  then show ?thesis unfolding eliminates_def covered_set [OF assms(2)] .
qed

lemma executor_streams_all:
  assumes src: "source_of src T" and mx: "no_max T" and ok: "spec_ok bgp spec" and cov: "covers bgp spec"
  shows "\<exists>ex bs. for_spec cancel src bgp spec = Some ex \<and> full_out bs \<and> answers T bgp (out_vars bgp spec) (concat (map out_rows bs))
    \<and> (ex_drain cancel ex = Some (map Inr bs)
       \<or> (\<exists>q n k. cancel q n \<and> k \<le> length bs \<and> ex_drain cancel ex = Some (map Inr (take k bs) @ [Inl Cancelled])))"
proof (cases "as_whole_wcoj bgp spec")
  case (Some order)
  have el: "eliminates bgp order" by (rule whole_wcoj [OF ok cov Some])
  obtain x bs where x: "bi_new src bgp order = Some x" "full_batches bs" "streams (cancel []) x bs"
    "set (concat (map batch_rows bs)) = {b. solves T bgp order b}" "sorted_wrt ord_class.lexordp (concat (map batch_rows bs))"
    using executor_streams [OF src mx el] by blast
  have ex: "for_spec cancel src bgp spec = Some (Ex_Wcoj x)" using Some x(1) by (simp add: for_spec_def)
  have rows: "concat (map out_rows (map Columns bs)) = concat (map batch_rows bs)" by (simp add: comp_def)
  have full: "full_out (map Columns bs)" using x(2) by (simp add: full_out_def full_batches_def)
  have "answers T bgp order (concat (map batch_rows bs))"
    using x(4) lexordp_distinct [OF x(5)] el by (simp add: answers_def eliminates_def)
  then have ans: "answers T bgp (out_vars bgp spec) (concat (map out_rows (map Columns bs)))" unfolding rows using Some by (simp add: out_vars_def)
  have "ex_drain cancel (Ex_Wcoj x) = Some (map Inr (map Columns bs))
     \<or> (\<exists>q n k. cancel q n \<and> k \<le> length (map Columns bs) \<and> ex_drain cancel (Ex_Wcoj x) = Some (map Inr (take k (map Columns bs)) @ [Inl Cancelled]))"
    using x(3) unfolding streams_def
  proof (elim disjE exE conjE)
    assume "bi_drain (cancel []) x = Some (map Inr bs)"
    then show ?thesis by (simp add: ex_drain_def comp_def)
  next
    fix n k assume "cancel [] n" "k \<le> length bs" "bi_drain (cancel []) x = Some (map Inr (take k bs) @ [Inl Cancelled])"
    then show ?thesis by (intro disjI2 exI [of _ "[]"] exI [of _ n] exI [of _ k]) (simp add: ex_drain_def comp_def take_map)
  qed
  then show ?thesis using ex full ans by blast
next
  case None
  have bv: "set (bgp_variables bgp) = (\<Union>pat\<in>set bgp. pattern_vars pat)"
    by (auto simp: bgp_variables_def set_push_vars pattern_vars_def)
  have dv: "distinct (bgp_variables bgp)" by (simp add: bgp_variables_def distinct_push_vars)
  obtain st bs where s: "hi_new cancel src bgp spec (bgp_variables bgp) = Some st" "full_out bs"
    "answers T bgp (bgp_variables bgp) (concat (map out_rows bs))"
    "hi_drain st = Some (map Inr bs) \<or> hi_drain st = Some [Inl Cancelled] \<and> (\<exists>q n. cancel q n)"
    using hi_stream [OF src mx ok cov dv bv, of cancel] by (elim exE conjE) (rule that)
  have "for_spec cancel src bgp spec = Some (Ex_Hash st)" "out_vars bgp spec = bgp_variables bgp"
    using None s(1) by (simp_all add: for_spec_def out_vars_def)
  moreover have "ex_drain cancel (Ex_Hash st) = Some (map Inr bs)
     \<or> (\<exists>q n k. cancel q n \<and> k \<le> length bs \<and> ex_drain cancel (Ex_Hash st) = Some (map Inr (take k bs) @ [Inl Cancelled]))"
    using s(4)
  proof (elim disjE exE conjE)
    fix q n assume "hi_drain st = Some [Inl Cancelled]" "cancel q n"
    then show ?thesis by (intro disjI2 exI [of _ q] exI [of _ n] exI [of _ 0]) (simp add: ex_drain_def)
  qed (simp add: ex_drain_def)
  ultimately show ?thesis using s(2,3) by metis
qed

section \<open>Plans that cover a query\<close>

lemma left_deep_spec:
  "\<forall>i\<in>set (p # ps). i < length bgp \<and> no_repeat (bgp ! i) \<Longrightarrow>
    (\<exists>spec. left_deep (p # ps) = Some spec \<and> spec_ok bgp spec \<and> set (collect_patterns spec) = set (p # ps))"
proof -
  have "spec_ok bgp (foldl (\<lambda>acc q. Hash_Join (Scan q) acc) acc ps) \<and>
      set (collect_patterns (foldl (\<lambda>acc q. Hash_Join (Scan q) acc) acc ps)) = set (collect_patterns acc) \<union> set ps"
    if "spec_ok bgp acc" "\<forall>i\<in>set ps. i < length bgp \<and> no_repeat (bgp ! i)" for acc
    using that by (induction ps arbitrary: acc) auto
  from this [of "Scan p"] show "\<forall>i\<in>set (p # ps). i < length bgp \<and> no_repeat (bgp ! i) \<Longrightarrow> ?thesis"
    by (simp add: left_deep_def)
qed

lemma reference_plan:
  assumes "\<forall>pat\<in>set bgp. no_repeat pat"
  shows "spec_ok bgp (left_deep_or_unit bgp)" and "covers bgp (left_deep_or_unit bgp)"
proof -
  have "spec_ok bgp (left_deep_or_unit bgp) \<and> covers bgp (left_deep_or_unit bgp)"
  proof (cases "[0..<length bgp]")
    case Nil
    then show ?thesis by (simp add: left_deep_or_unit_def left_deep_def covers_def)
  next
    case (Cons p ps)
    have "\<forall>i\<in>set (p # ps). i < length bgp \<and> no_repeat (bgp ! i)" unfolding Cons [symmetric] using assms by simp
    then obtain spec where s: "left_deep (p # ps) = Some spec" "spec_ok bgp spec" "set (collect_patterns spec) = set (p # ps)"
      using left_deep_spec by blast
    then show ?thesis unfolding left_deep_or_unit_def Cons covers_def using arg_cong [OF Cons, of set] by (simp add: lessThan_atLeast0)
  qed
  then show "spec_ok bgp (left_deep_or_unit bgp)" and "covers bgp (left_deep_or_unit bgp)" by blast+
qed

definition degree :: "triple_pattern list \<Rightarrow> var \<Rightarrow> nat" where
  "degree bgp v = length (filter (\<lambda>pat. v \<in> pattern_vars pat) bgp)"

lemma degree_order_spec:
  shows "set (degree_order bgp) = (\<Union>pat\<in>set bgp. pattern_vars pat)" and "distinct (degree_order bgp)"
    and "sorted_wrt (\<lambda>u v. degree bgp v \<le> degree bgp u) (degree_order bgp)"
proof -
  let ?ds = "map (\<lambda>v. (v, degree bgp v)) (bgp_variables bgp)"
  have o: "degree_order bgp = map fst (sort_key (\<lambda>(v, d). - int d) ?ds)"
    by (simp add: degree_order_def degree_def mentions_iff)
  have d: "snd e = degree bgp (fst e)" if "e \<in> set (sort_key (\<lambda>(v, d). - int d) ?ds)" for e using that by auto
  have bv: "set (bgp_variables bgp) = (\<Union>pat\<in>set bgp. pattern_vars pat)" "distinct (bgp_variables bgp)"
    by (auto simp: bgp_variables_def set_push_vars pattern_vars_def distinct_push_vars)
  show "set (degree_order bgp) = (\<Union>pat\<in>set bgp. pattern_vars pat)" unfolding o by (auto simp: image_image bv(1) [symmetric])
  have "distinct (sort_key (\<lambda>(v, d). - int d) ?ds)" using bv(2) by (simp add: distinct_map inj_on_def)
  moreover have "inj_on fst (set (sort_key (\<lambda>(v, d). - int d) ?ds))" by (auto simp: inj_on_def)
  ultimately show "distinct (degree_order bgp)" unfolding o distinct_map by blast
  have "sorted (map (\<lambda>(v, d). - int d) (sort_key (\<lambda>(v, d). - int d) ?ds))" by simp
  then have "sorted_wrt (\<lambda>e e'. snd e' \<le> snd e) (sort_key (\<lambda>(v, d). - int d) ?ds)"
    unfolding sorted_map by (rule sorted_wrt_mono_rel [rotated]) auto
  then show "sorted_wrt (\<lambda>u v. degree bgp v \<le> degree bgp u) (degree_order bgp)"
    unfolding o sorted_wrt_map by (rule sorted_wrt_mono_rel [rotated]) (use d in auto)
qed

lemma bindings_of_answers:
  assumes "answers T pats vs rs"
  shows "(\<lambda>r. map_of (zip vs r)) ` set rs = {m. dom m = (\<Union>pat\<in>set pats. pattern_vars pat) \<and> (\<forall>pat\<in>set pats. matches T pat m)}"
    and "inj_on (\<lambda>r. map_of (zip vs r)) (set rs)"
proof -
  have vs: "distinct vs" "set vs = (\<Union>pat\<in>set pats. pattern_vars pat)" "set rs = {b. solves T pats vs b}"
    using assms by (simp_all add: answers_def)
  have dom: "dom (map_of (zip vs r)) = set vs" if "length r = length vs" for r :: "u64 list"
    using that by (simp add: dom_map_of_zip)
  show "(\<lambda>r. map_of (zip vs r)) ` set rs = {m. dom m = (\<Union>pat\<in>set pats. pattern_vars pat) \<and> (\<forall>pat\<in>set pats. matches T pat m)}"
  proof (intro set_eqI iffI)
    fix m assume "m \<in> (\<lambda>r. map_of (zip vs r)) ` set rs"
    then show "m \<in> {m. dom m = (\<Union>pat\<in>set pats. pattern_vars pat) \<and> (\<forall>pat\<in>set pats. matches T pat m)}"
    proof
      fix r assume r: "m = map_of (zip vs r)" "r \<in> set rs"
      then have "length r = length vs" "\<forall>pat\<in>set pats. matches T pat m" using vs(3) by (simp_all add: solves_def)
      then show ?thesis using dom [of r] vs(2) r(1) by (simp only: mem_Collect_eq)
    qed
  next
    fix m assume "m \<in> {m. dom m = (\<Union>pat\<in>set pats. pattern_vars pat) \<and> (\<forall>pat\<in>set pats. matches T pat m)}"
    then have m: "dom m = set vs" "\<forall>pat\<in>set pats. matches T pat m" using vs(2) by simp_all
    let ?r = "map (\<lambda>v. the (m v)) vs"
    have "map_of (zip vs ?r) = m"
    proof
      fix v show "map_of (zip vs ?r) v = m v"
      proof (cases "v \<in> set vs")
        case True
        then have "v \<in> dom m" using m(1) by simp
        then obtain y where "m v = Some y" by blast
        then show ?thesis using True by (simp add: map_of_zip_map)
      next
        case False
        then have "m v = None" using m(1) by (metis domIff)
        then show ?thesis using False by (simp add: map_of_zip_map)
      qed
    qed
    then have "?r \<in> set rs" "m = map_of (zip vs ?r)" using m(2) vs(3) by (simp_all add: solves_def)
    then show "m \<in> (\<lambda>r. map_of (zip vs r)) ` set rs" by (rule rev_image_eqI)
  qed
  show "inj_on (\<lambda>r. map_of (zip vs r)) (set rs)"
  proof (rule inj_onI)
    fix r s assume a: "r \<in> set rs" "s \<in> set rs" "map_of (zip vs r) = map_of (zip vs s)"
    have l: "length r = length vs" "length s = length vs" using a(1,2) vs(3) by (simp_all add: solves_def)
    show "r = s"
    proof (rule nth_equalityI)
      fix i assume "i < length r"
      then show "r ! i = s ! i" using a(3) l map_of_zip_nth [of vs r i] map_of_zip_nth [of vs s i] vs(1) by simp
    qed (simp add: l)
  qed
qed

section \<open>Properties\<close>




text \<open>C4: the fixed cutover plans every query correctly. For any cutover the plan it lifts covers the
  query, is well-formed, and orders the variables of a leapfrog by descending degree.\<close>

theorem cutover_plan_ok:
  assumes "\<forall>pat\<in>set bgp. no_repeat pat" and "card (\<Union>pat\<in>set bgp. pattern_vars pat) < 256"
  shows "spec_ok bgp (from_execution_plan (plan_for_bgp bgp cutover) bgp) \<and> covers bgp (from_execution_plan (plan_for_bgp bgp cutover) bgp)
    \<and> sorted_wrt (\<lambda>u v. degree bgp v \<le> degree bgp u) (plan_order (plan_for_bgp bgp cutover))"
proof (cases "\<forall>pat\<in>set bgp. is_ground pat")
  case True
  then show ?thesis using reference_plan [OF assms(1)] by (simp add: plan_for_bgp_def from_execution_plan_def)
next
  case False
  note d = degree_order_spec [of bgp]
  have "degree_order bgp \<noteq> []" using False d(1) by (auto simp: ground_vars)
  moreover have "length (degree_order bgp) < 256" using assms(2) d(1,2) by (metis distinct_card)
  ultimately have el: "eliminates bgp (degree_order bgp)" using assms(1) d(1,2) by (simp add: eliminates_def)
  have "bgp \<noteq> []" using False by auto
  moreover have "map (\<lambda>i. bgp ! i) [0..<length bgp] = bgp" by (rule map_nth)
  ultimately have "spec_ok bgp (Wcoj [0..<length bgp] (degree_order bgp)) \<and> covers bgp (Wcoj [0..<length bgp] (degree_order bgp))"
    using el by (simp add: covers_def lessThan_atLeast0)
  moreover have "plan_order (plan_for_bgp bgp cutover) = degree_order bgp" using False by (auto simp: plan_for_bgp_def)
  ultimately show ?thesis using False d(3) reference_plan [OF assms(1)] by (auto simp: plan_for_bgp_def from_execution_plan_def)
qed

section \<open>Witnesses\<close>

definition triangle_query :: "triple_pattern list" where
  "triangle_query = [edge_pattern 0 1, edge_pattern 1 2, edge_pattern 0 2]"

text \<open>A hybrid plan: a scan joined with a leapfrog node.\<close>

definition hybrid_plan :: join_spec where
  "hybrid_plan = Hash_Join (Scan 0) (Wcoj [1, 2] [2, 0, 1])"

lemma triangle_no_repeat: "\<forall>pat\<in>set triangle_query. no_repeat pat"
  by (simp add: triangle_query_def edge_pattern_def no_repeat_def slots_def)

lemma hybrid_ok: "spec_ok triangle_query hybrid_plan" "covers triangle_query hybrid_plan"
  by (auto simp: hybrid_plan_def triangle_query_def covers_def eliminates_def no_repeat_def edge_pattern_def slots_def pattern_vars_def)

lemma hybrid_vars: "out_vars triangle_query hybrid_plan = [0, 1, 2]"
  by (simp add: out_vars_def hybrid_plan_def as_whole_wcoj_def triangle_query_def bgp_variables_def edge_pattern_def slots_def)




theorem cutover_plan_ok_witness:
  "spec_ok triangle_query (from_execution_plan (plan_for_bgp triangle_query 3) triangle_query)
    \<and> plan_kind (plan_for_bgp triangle_query 3) = Kind_Wcoj"
proof -
  have "(\<Union>pat\<in>set triangle_query. pattern_vars pat) \<subseteq> {0, 1, 2}"
    by (auto simp: triangle_query_def edge_pattern_def pattern_vars_def slots_def)
  then have "card (\<Union>pat\<in>set triangle_query. pattern_vars pat) \<le> card {0, 1, 2 :: var}" by (rule card_mono [rotated]) simp
  also have "\<dots> < 256" by (simp add: card_insert_if)
  finally have "card (\<Union>pat\<in>set triangle_query. pattern_vars pat) < 256" .
  from cutover_plan_ok [OF triangle_no_repeat this, of 3] show ?thesis
    by (simp add: plan_for_bgp_def triangle_query_def edge_pattern_def is_ground_def)
qed

end
