(* ===== verification/Zset.thy ===== *)
theory Zset imports Prelude "HOL-Library.Product_Lexorder" begin

text \<open>
  The storage primitives of the incremental circuit. \<^verbatim>\<open>std::collections::BTreeMap\<close> is an
  association list in strictly ascending key order, which is also its iteration order, so that equal
  lists are equal maps. On top of it \<^verbatim>\<open>crates/incremental/src/zset.rs\<close>, the Z-set that weights every
  key with a nonzero multiplicity, and \<^verbatim>\<open>crates/incremental/src/extent.rs\<close>, a Z-set of triples indexed
  by predicate. Multiplicities are \<^verbatim>\<open>i64\<close> in the program and integers here: leaving the range takes
  more than \<open>2 ^ 63\<close> records.
\<close>

section \<open>Ordered maps\<close>

type_synonym ('k, 'v) btree = "('k \<times> 'v) list"

definition bt_get :: "('k, 'v) btree \<Rightarrow> 'k \<Rightarrow> 'v option" where
  "bt_get m k = map_of m k"

fun bt_insert :: "'k::linorder \<Rightarrow> 'v \<Rightarrow> ('k, 'v) btree \<Rightarrow> ('k, 'v) btree" where
  "bt_insert k v [] = [(k, v)]"
| "bt_insert k v ((j, w) # m) =
     (if k < j then (k, v) # (j, w) # m else if k = j then (k, v) # m else (j, w) # bt_insert k v m)"

definition bt_remove :: "'k \<Rightarrow> ('k, 'v) btree \<Rightarrow> ('k, 'v) btree" where
  "bt_remove k m = filter (\<lambda>e. fst e \<noteq> k) m"

definition bt_ok :: "('k::linorder, 'v) btree \<Rightarrow> bool" where
  "bt_ok m \<longleftrightarrow> sorted_wrt (<) (map fst m)"

named_theorems btree_simps "lookups after an update of an ordered map"

lemma bt_ok_Nil [simp]: "bt_ok []"
  by (simp add: bt_ok_def)

lemma bt_ok_Cons: "bt_ok ((k, v) # m) \<longleftrightarrow> (\<forall>j\<in>fst ` set m. k < j) \<and> bt_ok m"
  by (auto simp: bt_ok_def)

lemma bt_get_Nil [simp]: "bt_get [] k = None"
  by (simp add: bt_get_def)

lemma bt_get_Cons [simp]: "bt_get ((j, v) # m) k = (if k = j then Some v else bt_get m k)"
  by (simp add: bt_get_def)

lemma bt_get_eq_None_iff: "bt_get m k = None \<longleftrightarrow> k \<notin> fst ` set m"
  by (simp add: bt_get_def map_of_eq_None_iff)

lemma set_bt_insert_keys: "fst ` set (bt_insert k v m) = insert k (fst ` set m)"
  by (induction k v m rule: bt_insert.induct) auto

lemma bt_get_insert [btree_simps]: "bt_get (bt_insert k v m) j = (if j = k then Some v else bt_get m j)"
  by (induction k v m rule: bt_insert.induct) auto

lemma bt_ok_insert [intro]: "bt_ok m \<Longrightarrow> bt_ok (bt_insert k v m)"
  by (induction k v m rule: bt_insert.induct) (auto simp: bt_ok_Cons set_bt_insert_keys)

lemma bt_get_remove [btree_simps]: "bt_get (bt_remove k m) j = (if j = k then None else bt_get m j)"
  by (induction m) (auto simp: bt_remove_def)

lemma bt_ok_remove [intro]: "bt_ok m \<Longrightarrow> bt_ok (bt_remove k m)"
  unfolding bt_ok_def bt_remove_def by (induction m) (auto simp: bt_ok_def)

lemma bt_get_mem: "bt_ok m \<Longrightarrow> (k, v) \<in> set m \<longleftrightarrow> bt_get m k = Some v"
  by (induction m) (force simp: bt_ok_Cons)+

lemma bt_distinct: "bt_ok m \<Longrightarrow> distinct (map fst m)"
  by (auto simp: bt_ok_def strict_sorted_iff)

text \<open>Two ordered maps with the same lookups are the same list.\<close>

lemma bt_ext:
  assumes "bt_ok a" and "bt_ok b" and "\<And>k. bt_get a k = bt_get b k"
  shows "a = b"
proof -
  have e: "set a = set b" using assms bt_get_mem by (metis subrelI subset_antisym)
  have "map fst a = map fst b"
    by (rule strict_sorted_equal) (use assms(1,2) e in \<open>auto simp: bt_ok_def\<close>)
  moreover have "inj_on fst (set a \<union> set b)"
    using bt_distinct [OF assms(1)] e by (simp add: distinct_map)
  ultimately show ?thesis using map_inj_on by blast
qed

section \<open>Z-sets\<close>

type_synonym 'k zset = "('k, int) btree"

definition zs_new :: "'k zset" where
  "zs_new = []"

definition zs_is_empty :: "'k zset \<Rightarrow> bool" where
  "zs_is_empty z \<longleftrightarrow> z = []"

definition zs_len :: "'k zset \<Rightarrow> nat" where
  "zs_len z = length z"

definition zs_get :: "'k zset \<Rightarrow> 'k \<Rightarrow> int" where
  "zs_get z k = (case bt_get z k of None \<Rightarrow> 0 | Some m \<Rightarrow> m)"

definition zs_add :: "'k::linorder \<Rightarrow> int \<Rightarrow> 'k zset \<Rightarrow> 'k zset" where
  "zs_add k d z =
     (if d = 0 then z
      else case bt_get z k of
        Some v \<Rightarrow> if v + d = 0 then bt_remove k z else bt_insert k (v + d) z
      | None \<Rightarrow> bt_insert k d z)"

definition zs_add_assign :: "'k::linorder zset \<Rightarrow> 'k zset \<Rightarrow> 'k zset" where
  "zs_add_assign z other = fold (\<lambda>(k, m). zs_add k m) other z"

definition zs_sub_assign :: "'k::linorder zset \<Rightarrow> 'k zset \<Rightarrow> 'k zset" where
  "zs_sub_assign z other = fold (\<lambda>(k, m). zs_add k (- m)) other z"

definition zs_from_iter :: "('k::linorder \<times> int) list \<Rightarrow> 'k zset" where
  "zs_from_iter es = fold (\<lambda>(k, m). zs_add k m) es zs_new"

text \<open>The representation invariant: ascending keys, no multiplicity zero.\<close>

definition zs_ok :: "'k::linorder zset \<Rightarrow> bool" where
  "zs_ok z \<longleftrightarrow> bt_ok z \<and> (\<forall>m\<in>snd ` set z. m \<noteq> 0)"

named_theorems zset_simps "multiplicities after the operations of a Z-set"

lemma zs_ok_Nil [simp]: "zs_ok []"
  by (simp add: zs_ok_def)

lemma zs_new_simps [simp]: "zs_ok zs_new" "zs_get zs_new k = 0"
  by (simp_all add: zs_new_def zs_get_def)

lemma zs_get_Nil [simp]: "zs_get [] k = 0"
  by (simp add: zs_get_def)

lemma set_bt_insert_sub: "e \<in> set (bt_insert k v m) \<Longrightarrow> e = (k, v) \<or> e \<in> set m"
  by (induction k v m rule: bt_insert.induct) (auto split: if_splits)

lemma zs_ok_insert: "zs_ok z \<Longrightarrow> m \<noteq> 0 \<Longrightarrow> zs_ok (bt_insert k m z)"
  by (auto simp: zs_ok_def dest: set_bt_insert_sub)

lemma zs_ok_remove: "zs_ok z \<Longrightarrow> zs_ok (bt_remove k z)"
  unfolding zs_ok_def using bt_ok_remove [of z k] by (auto simp: bt_remove_def)

lemma zs_ok_add [intro]: "zs_ok z \<Longrightarrow> zs_ok (zs_add k d z)"
  by (simp add: zs_add_def zs_ok_insert zs_ok_remove split: option.splits)

lemma zs_get_add [zset_simps]: "zs_get (zs_add k d z) j = zs_get z j + (if j = k then d else 0)"
  by (simp add: zs_get_def zs_add_def btree_simps split: option.splits)

lemma zs_get_mem:
  assumes "zs_ok z"
  shows "(k, m) \<in> set z \<longleftrightarrow> zs_get z k = m \<and> m \<noteq> 0"
proof -
  have *: "(k, v) \<in> set z \<longleftrightarrow> bt_get z k = Some v" for v using assms by (simp add: zs_ok_def bt_get_mem)
  have "bt_get z k = Some v \<Longrightarrow> v \<noteq> 0" for v using assms * [of v] by (force simp: zs_ok_def)
  with * [of m] show ?thesis by (auto simp: zs_get_def split: option.splits)
qed

lemma zs_key_iff: "zs_ok z \<Longrightarrow> k \<in> fst ` set z \<longleftrightarrow> zs_get z k \<noteq> 0"
proof -
  assume z: "zs_ok z"
  have "k \<in> fst ` set z \<longleftrightarrow> (\<exists>m. (k, m) \<in> set z)" by force
  also have "\<dots> \<longleftrightarrow> zs_get z k \<noteq> 0" using z by (simp add: zs_get_mem)
  finally show ?thesis .
qed

lemma zs_get_eq: "zs_ok z \<Longrightarrow> bt_get z k = (if zs_get z k = 0 then None else Some (zs_get z k))"
  using zs_get_mem [of z k "zs_get z k"] bt_get_mem [of z k "zs_get z k"]
  by (auto simp: zs_get_def zs_ok_def split: option.splits)

lemma zs_ext:
  assumes "zs_ok a" and "zs_ok b" and "\<And>k. zs_get a k = zs_get b k"
  shows "a = b"
  by (rule bt_ext) (use assms in \<open>simp_all add: zs_get_eq, simp_all add: zs_ok_def\<close>)

text \<open>A Z-set as a weighted sum: \<open>zs_sum z f\<close> adds \<open>f\<close> over the keys, weighted.\<close>

definition zs_sum :: "'k zset \<Rightarrow> ('k \<Rightarrow> int) \<Rightarrow> int" where
  "zs_sum z f = (\<Sum>(k, m)\<leftarrow>z. m * f k)"

lemma zs_sum_Nil [simp]: "zs_sum [] f = 0"
  by (simp add: zs_sum_def)

lemma zs_sum_Cons [simp]: "zs_sum ((k, m) # z) f = m * f k + zs_sum z f"
  by (simp add: zs_sum_def)

lemma zs_sum_cong:
  assumes "\<And>k m. (k, m) \<in> set z \<Longrightarrow> f k = g k"
  shows "zs_sum z f = zs_sum z g"
  unfolding zs_sum_def
proof (intro arg_cong [of _ _ sum_list] map_cong refl)
  fix e assume "e \<in> set z"
  then have "f (fst e) = g (fst e)" using assms [of "fst e" "snd e"] by simp
  then show "(case e of (k, m) \<Rightarrow> m * f k) = (case e of (k, m) \<Rightarrow> m * g k)" by (simp add: case_prod_beta')
qed

lemma zs_sum_insert: "bt_ok z \<Longrightarrow> zs_sum (bt_insert k v z) f
    = zs_sum z f + (v - (case bt_get z k of None \<Rightarrow> 0 | Some w \<Rightarrow> w)) * f k"
proof (induction k v z rule: bt_insert.induct)
  case (2 k v j w m)
  have "k < j \<Longrightarrow> bt_get m k = None" using 2(2) by (force simp: bt_ok_Cons bt_get_eq_None_iff)
  then show ?case using 2 by (auto simp: bt_ok_Cons algebra_simps)
qed simp

lemma zs_sum_remove: "bt_ok z \<Longrightarrow> zs_sum (bt_remove k z) f
    = zs_sum z f - (case bt_get z k of None \<Rightarrow> 0 | Some w \<Rightarrow> w) * f k"
proof (induction z)
  case (Cons e z)
  have "bt_remove k z = z" if "k = fst e"
    using Cons(2) that by (cases e) (auto simp: bt_ok_Cons bt_remove_def intro!: filter_True)
  moreover have "bt_get z k = None" if "k = fst e"
    using Cons(2) that by (cases e) (auto simp: bt_ok_Cons bt_get_eq_None_iff)
  ultimately show ?case using Cons by (cases e) (auto simp: bt_ok_Cons bt_remove_def)
qed (simp add: bt_remove_def)

lemma zs_sum_add: "zs_ok z \<Longrightarrow> zs_sum (zs_add k d z) f = zs_sum z f + d * f k"
  by (auto simp: zs_add_def zs_ok_def zs_sum_insert zs_sum_remove algebra_simps
      eq_neg_iff_add_eq_0 [symmetric] split: option.splits)

lemma zs_fold_add:
  assumes "zs_ok z"
  shows "zs_ok (fold (\<lambda>(k, m). zs_add k (g k m)) es z)"
    and "zs_sum (fold (\<lambda>(k, m). zs_add k (g k m)) es z) f = zs_sum z f + (\<Sum>(k, m)\<leftarrow>es. g k m * f k)"
    and "zs_get (fold (\<lambda>(k, m). zs_add k (g k m)) es z) j = zs_get z j + (\<Sum>(k, m)\<leftarrow>es. if k = j then g k m else 0)"
  using assms by (induction es arbitrary: z) (auto simp: zs_sum_add zset_simps zs_ok_add split: prod.splits)

lemma zs_get_Cons: "zs_get ((k, m) # z) j = (if j = k then m else zs_get z j)"
  by (simp add: zs_get_def)

lemma zs_get_sum: "zs_ok z \<Longrightarrow> zs_get z j = (\<Sum>(k, m)\<leftarrow>z. if k = j then m else 0)"
proof (induction z)
  case (Cons e z)
  obtain k m where e: "e = (k, m)" by (cases e)
  have z: "zs_ok z" "k \<notin> fst ` set z" using Cons(2) e by (auto simp: zs_ok_def bt_ok_Cons)
  then have "zs_get z k = 0" by (simp add: zs_key_iff)
  then show ?case using Cons(1) [OF z(1)] e by (auto simp: zs_get_Cons)
qed simp

lemma zs_add_assign_spec:
  assumes "zs_ok z" and "zs_ok e"
  shows "zs_ok (zs_add_assign z e)" and "zs_get (zs_add_assign z e) j = zs_get z j + zs_get e j"
    and "zs_sum (zs_add_assign z e) f = zs_sum z f + zs_sum e f"
  using zs_fold_add [OF assms(1), of "\<lambda>_ m. m" e] zs_get_sum [OF assms(2), of j]
  by (simp_all add: zs_add_assign_def zs_sum_def)

lemma zs_sub_assign_spec:
  assumes "zs_ok z" and "zs_ok e"
  shows "zs_ok (zs_sub_assign z e)" and "zs_get (zs_sub_assign z e) j = zs_get z j - zs_get e j"
proof -
  have *: "(\<Sum>(k, m)\<leftarrow>es. if k = j then - m else 0) = - (\<Sum>(k, m)\<leftarrow>es. if k = j then m else 0)"
    for es :: "('a \<times> int) list" by (induction es) auto
  show "zs_ok (zs_sub_assign z e)" "zs_get (zs_sub_assign z e) j = zs_get z j - zs_get e j"
    using zs_fold_add [OF assms(1), of "\<lambda>_ m. - m" e] zs_get_sum [OF assms(2), of j] *
    by (simp_all add: zs_sub_assign_def)
qed

lemma zs_from_iter_spec:
  "zs_ok (zs_from_iter es)" "zs_get (zs_from_iter es) j = (\<Sum>(k, m)\<leftarrow>es. if k = j then m else 0)"
  using zs_fold_add [of zs_new "\<lambda>_ m. m" es] by (simp_all add: zs_from_iter_def)

lemma zs_from_iter_ok: "zs_ok z \<Longrightarrow> zs_from_iter z = z"
  by (rule zs_ext) (simp_all add: zs_from_iter_spec zs_get_sum)

text \<open>The sum of a Z-set only depends on its multiplicities.\<close>

lemma zs_sum_over:
  assumes "zs_ok z" and "finite U" and "\<And>k. zs_get z k \<noteq> 0 \<Longrightarrow> k \<in> U"
  shows "zs_sum z f = (\<Sum>k\<in>U. zs_get z k * f k)"
proof -
  have d: "distinct (map fst z)" using assms(1) by (auto simp: zs_ok_def bt_distinct)
  have "zs_sum z f = (\<Sum>k\<in>fst ` set z. zs_get z k * f k)"
  proof -
    have "zs_sum z f = (\<Sum>k\<leftarrow>map fst z. zs_get z k * f k)"
      using assms(1) unfolding zs_sum_def map_map
      by (intro arg_cong [of _ _ sum_list] map_cong) (auto simp: zs_get_mem)
    also have "\<dots> = (\<Sum>k\<in>set (map fst z). zs_get z k * f k)" by (rule sum_list_distinct_conv_sum_set [OF d])
    finally show ?thesis by simp
  qed
  also have "\<dots> = (\<Sum>k\<in>U. zs_get z k * f k)"
  proof (rule sum.mono_neutral_left)
    show "fst ` set z \<subseteq> U" using assms by (auto simp: zs_key_iff [symmetric])
    show "\<forall>k\<in>U - fst ` set z. zs_get z k * f k = 0" using assms(1) by (auto simp: zs_key_iff)
  qed (rule assms(2))
  finally show ?thesis .
qed

section \<open>Extents indexed by predicate\<close>

type_synonym triple_id = "u64 \<times> u64 \<times> u64"

abbreviation predicate_of :: "triple_id \<Rightarrow> u64" where
  "predicate_of t \<equiv> fst (snd t)"

record pred_extent =
  pe_by_pred :: "u64 \<rightharpoonup> triple_id zset"
  pe_all :: "triple_id zset"

definition pe_new :: pred_extent where
  "pe_new = \<lparr>pe_by_pred = Map.empty, pe_all = zs_new\<rparr>"

definition pe_slice :: "pred_extent \<Rightarrow> u64 \<Rightarrow> triple_id zset" where
  "pe_slice e p = (case pe_by_pred e p of None \<Rightarrow> zs_new | Some z \<Rightarrow> z)"

definition pe_get :: "pred_extent \<Rightarrow> triple_id \<Rightarrow> int" where
  "pe_get e t = zs_get (pe_all e) t"

definition pe_add :: "triple_id \<Rightarrow> int \<Rightarrow> pred_extent \<Rightarrow> pred_extent" where
  "pe_add t d e =
     (if d = 0 then e
      else let p = predicate_of t; sub = zs_add t d (pe_slice e p)
           in \<lparr>pe_by_pred = (pe_by_pred e)(p := if zs_is_empty sub then None else Some sub),
               pe_all = zs_add t d (pe_all e)\<rparr>)"

definition pe_add_assign :: "pred_extent \<Rightarrow> triple_id zset \<Rightarrow> pred_extent" where
  "pe_add_assign e other = fold (\<lambda>(t, m). pe_add t m) other e"

definition pe_from_zset :: "triple_id zset \<Rightarrow> pred_extent" where
  "pe_from_zset z = pe_add_assign pe_new z"

text \<open>The slices partition the flat view.\<close>

definition pe_ok :: "pred_extent \<Rightarrow> bool" where
  "pe_ok e \<longleftrightarrow> zs_ok (pe_all e)
     \<and> (\<forall>p. zs_ok (pe_slice e p) \<and> (\<forall>t. zs_get (pe_slice e p) t = (if predicate_of t = p then pe_get e t else 0)))"

lemma pe_ok_new [simp]: "pe_ok pe_new" "pe_get pe_new t = 0"
  by (simp_all add: pe_ok_def pe_new_def pe_slice_def pe_get_def)

lemma pe_add_spec:
  assumes "pe_ok e"
  shows "pe_ok (pe_add t d e)" and "pe_get (pe_add t d e) u = pe_get e u + (if u = t then d else 0)"
proof -
  have s: "pe_slice (pe_add t d e) p = (if d \<noteq> 0 \<and> p = predicate_of t then zs_add t d (pe_slice e p) else pe_slice e p)" for p
    by (simp add: pe_add_def pe_slice_def Let_def zs_is_empty_def zs_new_def)
  show g: "pe_get (pe_add t d e) u = pe_get e u + (if u = t then d else 0)" for u
    by (simp add: pe_get_def pe_add_def Let_def zset_simps)
  have "zs_ok (pe_all (pe_add t d e))" using assms by (auto simp: pe_ok_def pe_add_def Let_def)
  with assms show "pe_ok (pe_add t d e)" unfolding pe_ok_def s g by (auto simp: zset_simps)
qed

lemma pe_add_assign_spec:
  assumes "pe_ok e" and "zs_ok z"
  shows "pe_ok (pe_add_assign e z)" and "pe_get (pe_add_assign e z) u = pe_get e u + zs_get z u"
proof -
  have "pe_ok e \<Longrightarrow> pe_ok (fold (\<lambda>(t, m). pe_add t m) es e)
      \<and> pe_get (fold (\<lambda>(t, m). pe_add t m) es e) u = pe_get e u + (\<Sum>(k, m)\<leftarrow>es. if k = u then m else 0)" for es
    by (induction es arbitrary: e) (auto simp: pe_add_spec split: prod.splits)
  with assms show "pe_ok (pe_add_assign e z)" "pe_get (pe_add_assign e z) u = pe_get e u + zs_get z u"
    by (simp_all add: pe_add_assign_def zs_get_sum)
qed

lemma pe_from_zset_spec:
  assumes "zs_ok z"
  shows "pe_ok (pe_from_zset z)" and "pe_get (pe_from_zset z) u = zs_get z u"
  using pe_add_assign_spec [OF _ assms, of pe_new] by (simp_all add: pe_from_zset_def)

text \<open>A sum that only looks at one predicate can be taken over its slice.\<close>

lemma zs_sum_slice:
  assumes "pe_ok e" and "\<And>t. predicate_of t \<noteq> p \<Longrightarrow> f t = 0"
  shows "zs_sum (pe_slice e p) f = zs_sum (pe_all e) f"
proof -
  let ?U = "fst ` set (pe_all e)"
  have g: "zs_get (pe_slice e p) t = (if predicate_of t = p then zs_get (pe_all e) t else 0)" for t
    using assms(1) unfolding pe_ok_def pe_get_def by blast
  have ok: "zs_ok (pe_slice e p)" "zs_ok (pe_all e)" using assms(1) by (simp_all add: pe_ok_def)
  have "zs_sum (pe_slice e p) f = (\<Sum>t\<in>?U. zs_get (pe_slice e p) t * f t)"
  proof (rule zs_sum_over [OF ok(1)])
    show "zs_get (pe_slice e p) t \<noteq> 0 \<Longrightarrow> t \<in> ?U" for t
      using ok by (cases "predicate_of t = p") (simp_all add: g zs_key_iff)
  qed simp
  also have "\<dots> = (\<Sum>t\<in>?U. zs_get (pe_all e) t * f t)"
  proof (rule sum.cong [OF refl])
    show "zs_get (pe_slice e p) t * f t = zs_get (pe_all e) t * f t" for t
      by (cases "predicate_of t = p") (simp_all only: g assms(2) if_True if_False mult_zero_left mult_zero_right simp_thms)
  qed
  also have "\<dots> = zs_sum (pe_all e) f"
    by (rule zs_sum_over [symmetric]) (simp_all add: ok zs_key_iff)
  finally show ?thesis .
qed

end
