(* ===== verification/Join_Kernel.thy ===== *)
theory Join_Kernel imports Pattern Zset "HOL-Library.Monad_Syntax" begin

text \<open>
  \<^verbatim>\<open>crates/incremental/src/kernels.rs\<close>: the generic hash join over two triple patterns that every
  incremental rule is made of. A panic of the program (an index past the binding table, a failed
  \<^verbatim>\<open>expect\<close>) is the value \<open>None\<close>. The kernel is shown to compute the weighted join its patterns
  denote, so that it is bilinear in its two inputs.
\<close>

section \<open>Binding tables\<close>

definition max_vars :: nat where
  "max_vars = 8"

type_synonym bindings = "u64 option list"

definition bs_default :: bindings where
  "bs_default = replicate max_vars None"

definition bs_get :: "bindings \<Rightarrow> var \<Rightarrow> u64 option option" where
  "bs_get b v = (if unat v < length b then Some (b ! unat v) else None)"

definition bs_set :: "var \<Rightarrow> u64 \<Rightarrow> bindings \<Rightarrow> (bool \<times> bindings) option" where
  "bs_set v x b = do {
     e \<leftarrow> bs_get b v;
     case e of Some existing \<Rightarrow> Some (existing = x, b) | None \<Rightarrow> Some (True, b[unat v := Some x]) }"

definition bs_merge :: "bindings \<Rightarrow> bindings \<Rightarrow> bindings" where
  "bs_merge out other = map2 (\<lambda>x y. case y of Some v \<Rightarrow> Some v | None \<Rightarrow> x) out other"

section \<open>Matching\<close>

definition vars_in :: "triple_pattern \<Rightarrow> var list" where
  "vars_in pat = push_vars (slots pat) []"

definition shared_vars :: "triple_pattern \<Rightarrow> triple_pattern \<Rightarrow> var list" where
  "shared_vars l r = (let right_vars = vars_in r in filter (\<lambda>v. v \<in> set right_vars) (vars_in l))"

fun bind_slots :: "(slot_term \<times> u64) list \<Rightarrow> bindings \<Rightarrow> bindings option option" where
  "bind_slots [] b = Some (Some b)"
| "bind_slots ((Bound x, y) # es) b = (if x \<noteq> y then Some None else bind_slots es b)"
| "bind_slots ((Var v, y) # es) b = do {
     (ok, b') \<leftarrow> bs_set v y b;
     if ok then bind_slots es b' else Some None }"

definition bind_row :: "triple_pattern \<Rightarrow> triple_id \<Rightarrow> bindings option option" where
  "bind_row pat t = (case t of (s, p, ob) \<Rightarrow>
     bind_slots [(pat_s pat, s), (pat_p pat, p), (pat_o pat, ob)] bs_default)"

fun filter_and_bind :: "triple_pattern \<Rightarrow> triple_id zset \<Rightarrow> (bindings \<times> int) list option" where
  "filter_and_bind pat [] = Some []"
| "filter_and_bind pat ((t, m) # z) = do {
     b \<leftarrow> bind_row pat t;
     found \<leftarrow> filter_and_bind pat z;
     Some (case b of Some b \<Rightarrow> (b, m) # found | None \<Rightarrow> found) }"

fun fill_key :: "bindings \<Rightarrow> nat \<Rightarrow> var list \<Rightarrow> u64 list \<Rightarrow> u64 list option" where
  "fill_key b i [] key = Some key"
| "fill_key b i (v # vs) key = do {
     e \<leftarrow> bs_get b v;
     x \<leftarrow> e;
     if i < length key then fill_key b (Suc i) vs (key[i := x]) else None }"

definition key_of :: "bindings \<Rightarrow> var list \<Rightarrow> u64 list option" where
  "key_of b shared = fill_key b 0 shared [0, 0, 0]"

fun eval_term :: "bindings \<Rightarrow> slot_term \<Rightarrow> u64 option" where
  "eval_term b (Bound x) = Some x"
| "eval_term b (Var v) = do { e \<leftarrow> bs_get b v; e }"

definition eval_head :: "triple_pattern \<Rightarrow> bindings \<Rightarrow> triple_id option" where
  "eval_head head b = do {
     s \<leftarrow> eval_term b (pat_s head);
     p \<leftarrow> eval_term b (pat_p head);
     ob \<leftarrow> eval_term b (pat_o head);
     Some (s, p, ob) }"

section \<open>The kernel\<close>

datatype kernel_error =
    Unbound_Head_Var var
  | No_Shared_Var
  | Body_Too_Short nat
  | Disconnected_Body
  | Too_Many_Live_Vars nat

record hash_join_rule =
  hj_id :: "32 word"
  hj_left :: triple_pattern
  hj_right :: triple_pattern
  hj_head :: triple_pattern

definition hj_new ::
  "32 word \<Rightarrow> triple_pattern \<Rightarrow> triple_pattern \<Rightarrow> triple_pattern \<Rightarrow> kernel_error + hash_join_rule" where
  "hj_new rid l r head =
     (let body_vars = vars_in l @ vars_in r in
      case filter (\<lambda>v. v \<notin> set body_vars) (List.map_filter as_var (slots head)) of
        v # vs \<Rightarrow> Inl (Unbound_Head_Var v)
      | [] \<Rightarrow> if shared_vars l r = [] then Inl No_Shared_Var
              else Inr \<lparr>hj_id = rid, hj_left = l, hj_right = r, hj_head = head\<rparr>)"

type_synonym row_index = "u64 list \<rightharpoonup> (bindings \<times> int) list"

fun build_index :: "var list \<Rightarrow> (bindings \<times> int) list \<Rightarrow> row_index \<Rightarrow> row_index option" where
  "build_index shared [] index = Some index"
| "build_index shared ((b, m) # entries) index = do {
     k \<leftarrow> key_of b shared;
     build_index shared entries (index(k \<mapsto> (case index k of None \<Rightarrow> [] | Some xs \<Rightarrow> xs) @ [(b, m)])) }"

fun emit_matches ::
  "triple_pattern \<Rightarrow> bool \<Rightarrow> bindings \<times> int \<Rightarrow> (bindings \<times> int) list \<Rightarrow> triple_id zset \<Rightarrow> triple_id zset option" where
  "emit_matches head build_is_left probe [] out = Some out"
| "emit_matches head build_is_left (pb, pm) ((bb, bm) # matches) out = do {
     t \<leftarrow> eval_head head (if build_is_left then bs_merge bb pb else bs_merge pb bb);
     emit_matches head build_is_left (pb, pm) matches
       (zs_add t (if build_is_left then bm * pm else pm * bm) out) }"

fun probe_loop ::
  "triple_pattern \<Rightarrow> bool \<Rightarrow> var list \<Rightarrow> row_index \<Rightarrow> (bindings \<times> int) list \<Rightarrow> triple_id zset \<Rightarrow> triple_id zset option" where
  "probe_loop head build_is_left shared index [] out = Some out"
| "probe_loop head build_is_left shared index ((pb, pm) # probe) out = do {
     k \<leftarrow> key_of pb shared;
     out' \<leftarrow> (case index k of None \<Rightarrow> Some out | Some matches \<Rightarrow> emit_matches head build_is_left (pb, pm) matches out);
     probe_loop head build_is_left shared index probe out' }"

definition hj_join :: "hash_join_rule \<Rightarrow> triple_id zset \<Rightarrow> triple_id zset \<Rightarrow> triple_id zset option" where
  "hj_join r a b = do {
     left_rows \<leftarrow> filter_and_bind (hj_left r) a;
     right_rows \<leftarrow> filter_and_bind (hj_right r) b;
     if left_rows = [] \<or> right_rows = [] then Some zs_new
     else let shared = shared_vars (hj_left r) (hj_right r);
              build_is_left = (length left_rows \<le> length right_rows);
              build = (if build_is_left then left_rows else right_rows);
              probe = (if build_is_left then right_rows else left_rows)
          in do {
            index \<leftarrow> build_index shared build Map.empty;
            probe_loop (hj_head r) build_is_left shared index probe zs_new } }"

definition hj_apply_full :: "hash_join_rule \<Rightarrow> triple_id zset \<Rightarrow> triple_id zset \<Rightarrow> triple_id zset option" where
  "hj_apply_full r a b = hj_join r a b"

definition hj_apply_delta ::
  "hash_join_rule \<Rightarrow> triple_id zset \<Rightarrow> triple_id zset \<Rightarrow> triple_id zset \<Rightarrow> triple_id zset \<Rightarrow> triple_id zset option" where
  "hj_apply_delta r a b da db = do {
     out \<leftarrow> hj_join r da b;
     x \<leftarrow> hj_join r a db;
     y \<leftarrow> hj_join r da db;
     Some (zs_add_assign (zs_add_assign out x) y) }"

definition body_predicates :: "hash_join_rule \<Rightarrow> u64 option \<times> u64 option" where
  "body_predicates r = (as_bound (pat_p (hj_left r)), as_bound (pat_p (hj_right r)))"

section \<open>What a rule joins\<close>

text \<open>
  \<open>joins r ta tb\<close> is the conclusion of the rule on one pair of triples: both match, the shared
  variables see the same values, and the head is read under both bindings.
\<close>

definition head_value :: "triple_pattern \<Rightarrow> binding \<Rightarrow> triple_id option" where
  "head_value head b = do {
     s \<leftarrow> value_of b (pat_s head);
     p \<leftarrow> value_of b (pat_p head);
     ob \<leftarrow> value_of b (pat_o head);
     Some (s, p, ob) }"

definition joins :: "hash_join_rule \<Rightarrow> triple_id \<Rightarrow> triple_id \<Rightarrow> triple_id option" where
  "joins r ta tb = do {
     bl \<leftarrow> match_triple (hj_left r) ta;
     br \<leftarrow> match_triple (hj_right r) tb;
     if \<forall>v\<in>pattern_vars (hj_left r) \<inter> pattern_vars (hj_right r). bl v = br v
     then head_value (hj_head r) (bl ++ br) else None }"

text \<open>A rule the constructor accepts, over variables the binding table holds.\<close>

definition rule_ok :: "hash_join_rule \<Rightarrow> bool" where
  "rule_ok r \<longleftrightarrow> pattern_vars (hj_head r) \<subseteq> pattern_vars (hj_left r) \<union> pattern_vars (hj_right r)
     \<and> pattern_vars (hj_left r) \<inter> pattern_vars (hj_right r) \<noteq> {}
     \<and> (\<forall>v\<in>pattern_vars (hj_left r) \<union> pattern_vars (hj_right r). unat v < max_vars)"

section \<open>Binding tables as bindings\<close>

definition bs_map :: "bindings \<Rightarrow> binding" where
  "bs_map b v = (if unat v < length b then b ! unat v else None)"

lemma bs_default_simps [simp]: "length bs_default = max_vars" "bs_map bs_default = Map.empty"
  by (auto simp: bs_default_def bs_map_def fun_eq_iff)

lemma bs_get_map: "unat v < length b \<Longrightarrow> bs_get b v = Some (bs_map b v)"
  by (simp add: bs_get_def bs_map_def)

lemma bs_map_update: "unat v < length b \<Longrightarrow> bs_map (b[unat v := Some x]) = (bs_map b)(v \<mapsto> x)"
  by (auto simp: bs_map_def fun_eq_iff nth_list_update word_unat_eq_iff)

lemma bs_set_map:
  assumes "unat v < length b"
  shows "bs_set v x b = Some (case bs_map b v of Some y \<Rightarrow> (y = x, b) | None \<Rightarrow> (True, b[unat v := Some x]))"
  using assms by (simp add: bs_set_def bs_get_map split: option.split)

lemma bs_map_merge: "length a = length b \<Longrightarrow> bs_map (bs_merge a b) = bs_map a ++ bs_map b"
  by (auto simp: bs_map_def bs_merge_def map_add_def fun_eq_iff split: option.split)

lemma length_bs_merge [simp]: "length (bs_merge a b) = min (length a) (length b)"
  by (simp add: bs_merge_def)

lemma bind_slots_spec:
  assumes "\<forall>v. Var v \<in> fst ` set es \<longrightarrow> unat v < length b"
  shows "\<exists>r. bind_slots es b = Some r \<and> map_option bs_map r = bind_terms es (bs_map b)
    \<and> (\<forall>c. r = Some c \<longrightarrow> length c = length b)"
  using assms
proof (induction es b rule: bind_slots.induct)
  case (2 x y es b)
  then show ?case by auto
next
  case (3 v y es b)
  have v: "unat v < length b" using 3(2) by simp
  show ?case
  proof (cases "bs_map b v")
    case None
    let ?b = "b[unat v := Some y]"
    have small: "\<forall>w. Var w \<in> fst ` set es \<longrightarrow> unat w < length ?b" using 3(2) by simp
    have s: "bs_set v y b = Some (True, ?b)" using None v by (simp add: bs_set_map)
    have "bind_slots ((Var v, y) # es) b = bind_slots es ?b" by (simp add: s)
    moreover have "bind_terms ((Var v, y) # es) (bs_map b) = bind_terms es (bs_map ?b)"
      unfolding bs_map_update [OF v] using None by simp
    ultimately show ?thesis using 3(1) [OF s refl TrueI small] by simp
  next
    case (Some x)
    show ?thesis
    proof (cases "x = y")
      case True
      have "\<forall>w. Var w \<in> fst ` set es \<longrightarrow> unat w < length b" using 3(2) by simp
      with 3(1) [of "(True, b)" True b] Some True v show ?thesis by (simp add: bs_set_map)
    next
      case False
      with Some v show ?thesis by (simp add: bs_set_map)
    qed
  qed
qed simp

lemma bind_row_spec:
  assumes "\<forall>v\<in>pattern_vars pat. unat v < max_vars"
  shows "\<exists>r. bind_row pat t = Some r \<and> map_option bs_map r = match_triple pat t
    \<and> (\<forall>c. r = Some c \<longrightarrow> length c = max_vars)"
  using assms bind_slots_spec [of "[(pat_s pat, fst t), (pat_p pat, fst (snd t)), (pat_o pat, snd (snd t))]" bs_default]
  by (cases t) (simp add: bind_row_def match_triple_def pattern_vars_def slots_def)

text \<open>The rows of one side: every matching triple with its binding and weight.\<close>

definition bound_rows :: "triple_pattern \<Rightarrow> triple_id zset \<Rightarrow> (binding \<times> int) list" where
  "bound_rows pat z = List.map_filter (\<lambda>(t, m). map_option (\<lambda>b. (b, m)) (match_triple pat t)) z"

lemma filter_and_bind_spec:
  assumes "\<forall>v\<in>pattern_vars pat. unat v < max_vars"
  shows "\<exists>found. filter_and_bind pat z = Some found \<and> map (apfst bs_map) found = bound_rows pat z
    \<and> (\<forall>(b, m)\<in>set found. length b = max_vars \<and> dom (bs_map b) = pattern_vars pat)"
proof (induction z)
  case (Cons e z)
  obtain t m where e: "e = (t, m)" by (cases e)
  from Cons obtain found where f: "filter_and_bind pat z = Some found" "map (apfst bs_map) found = bound_rows pat z"
    "\<forall>(b, m)\<in>set found. length b = max_vars \<and> dom (bs_map b) = pattern_vars pat" by blast
  obtain r where r: "bind_row pat t = Some r" "map_option bs_map r = match_triple pat t"
    "\<forall>c. r = Some c \<longrightarrow> length c = max_vars" using bind_row_spec [OF assms] by blast
  show ?case
  proof (cases r)
    case None
    then have "match_triple pat t = None" using r(2) by simp
    with e f r(1) None show ?thesis by (simp add: bound_rows_def List.map_filter_simps)
  next
    case (Some b)
    then have m: "match_triple pat t = Some (bs_map b)" using r(2) by simp
    have "bind_row pat t = Some (Some b)" "length b = max_vars" using r Some by simp_all
    with e f m match_triple_dom [OF m] show ?thesis
      by (simp add: bound_rows_def List.map_filter_simps)
  qed
qed (simp add: bound_rows_def List.map_filter_simps)

section \<open>Join keys\<close>

lemma fill_key_spec:
  assumes "\<forall>v\<in>set vs. unat v < length b \<and> v \<in> dom (bs_map b)" and "i + length vs \<le> length key"
  shows "fill_key b i vs key = Some (take i key @ map (\<lambda>v. the (bs_map b v)) vs @ drop (i + length vs) key)"
  using assms
proof (induction b i vs key rule: fill_key.induct)
  case (2 b i v vs key)
  then obtain x where x: "bs_map b v = Some x" "unat v < length b" by auto
  have i: "i < length key" using 2(3) by simp
  have "fill_key b (Suc i) vs (key[i := x])
      = Some (take (Suc i) (key[i := x]) @ map (\<lambda>v. the (bs_map b v)) vs @ drop (Suc i + length vs) (key[i := x]))"
    by (rule 2(1)) (use 2(2,3) x i in \<open>auto simp: bs_get_map\<close>)
  with x i show ?case by (simp add: bs_get_map take_Suc_conv_app_nth take_update_cancel)
qed simp

lemma key_of_spec:
  assumes "\<forall>v\<in>set vs. unat v < length b \<and> v \<in> dom (bs_map b)" and "length vs \<le> 3"
  shows "key_of b vs = Some (map (\<lambda>v. the (bs_map b v)) vs @ replicate (3 - length vs) 0)"
proof -
  have z: "[0, 0, 0::u64] = replicate 3 0" by (simp add: numeral_3_eq_3)
  with fill_key_spec [of vs b 0 "[0, 0, 0]"] assms show ?thesis by (simp add: key_of_def z)
qed

lemma set_vars_in: "set (vars_in pat) = pattern_vars pat"
  by (simp add: vars_in_def set_push_vars pattern_vars_def)

lemma length_push_vars: "length (push_vars ts out) \<le> length out + length ts"
  by (induction ts out rule: push_vars.induct) auto

lemma shared_vars_spec:
  "set (shared_vars l r) = pattern_vars l \<inter> pattern_vars r" "length (shared_vars l r) \<le> 3"
proof -
  show "set (shared_vars l r) = pattern_vars l \<inter> pattern_vars r"
    by (auto simp: shared_vars_def set_vars_in)
  have "length (shared_vars l r) \<le> length (vars_in l)" by (simp add: shared_vars_def length_filter_le)
  also have "\<dots> \<le> 3" using length_push_vars [of "slots l" "[]"] by (simp add: vars_in_def slots_def)
  finally show "length (shared_vars l r) \<le> 3" .
qed

lemma eval_head_spec:
  assumes "\<forall>v\<in>pattern_vars pat. unat v < length b"
  shows "eval_head pat b = head_value pat (bs_map b)"
proof -
  have "eval_term b t = value_of (bs_map b) t" if "t \<in> set (slots pat)" for t
    using assms that by (cases t) (auto simp: pattern_vars_def bs_get_map)
  then show ?thesis by (simp add: eval_head_def head_value_def slots_def)
qed

section \<open>The loops\<close>

lemma build_index_spec:
  assumes "\<forall>(b, m)\<in>set entries. key_of b shared = Some (K b)"
  shows "build_index shared entries index = Some (\<lambda>k. let xs = filter (\<lambda>(b, m). K b = k) entries in
    if xs = [] then index k else Some ((case index k of None \<Rightarrow> [] | Some ys \<Rightarrow> ys) @ xs))"
  using assms
proof (induction shared entries index rule: build_index.induct)
  case (2 shared b m entries index)
  let ?index = "index(K b \<mapsto> (case index (K b) of None \<Rightarrow> [] | Some xs \<Rightarrow> xs) @ [(b, m)])"
  have k: "key_of b shared = Some (K b)" and rest: "\<forall>(b, m)\<in>set entries. key_of b shared = Some (K b)"
    using 2(2) by auto
  have "build_index shared ((b, m) # entries) index = build_index shared entries ?index" by (simp only: build_index.simps k bind.bind_lunit)
  also have "\<dots> = Some (\<lambda>k. let xs = filter (\<lambda>(b, m). K b = k) entries in
      if xs = [] then ?index k else Some ((case ?index k of None \<Rightarrow> [] | Some ys \<Rightarrow> ys) @ xs))"
    by (rule 2(1) [OF k rest])
  finally show ?case by (auto simp: Let_def fun_eq_iff split: option.split)
qed (simp add: Let_def)

lemma emit_matches_spec:
  assumes "\<forall>(bb, bm)\<in>set matches. eval_head head (if build_is_left then bs_merge bb pb else bs_merge pb bb) = Some (H bb)"
    and "zs_ok out"
  shows "\<exists>out'. emit_matches head build_is_left (pb, pm) matches out = Some out' \<and> zs_ok out'
    \<and> (\<forall>t. zs_get out' t = zs_get out t + (\<Sum>(bb, bm)\<leftarrow>matches. if H bb = t then bm * pm else 0))"
  using assms
proof (induction matches arbitrary: out)
  case (Cons e matches)
  obtain bb bm where e: "e = (bb, bm)" by (cases e)
  have h: "eval_head head (if build_is_left then bs_merge bb pb else bs_merge pb bb) = Some (H bb)"
    using Cons(2) e by simp
  have m: "(if build_is_left then bm * pm else pm * bm) = bm * pm" by simp
  from Cons(1) [of "zs_add (H bb) (bm * pm) out"] Cons(2,3) obtain out' where
    "emit_matches head build_is_left (pb, pm) matches (zs_add (H bb) (bm * pm) out) = Some out'" "zs_ok out'"
    "\<forall>t. zs_get out' t = zs_get (zs_add (H bb) (bm * pm) out) t + (\<Sum>(bb, bm)\<leftarrow>matches. if H bb = t then bm * pm else 0)"
    by auto
  then show ?case unfolding e emit_matches.simps h m by (auto simp: zset_simps)
qed simp

lemma probe_loop_spec:
  assumes "\<forall>(b, m)\<in>set built. key_of b shared = Some (K b)" and "\<forall>(b, m)\<in>set probe. key_of b shared = Some (K b)"
    and "\<forall>(bb, bm)\<in>set built. \<forall>(pb, pm)\<in>set probe. K bb = K pb \<longrightarrow>
      eval_head head (if build_is_left then bs_merge bb pb else bs_merge pb bb) = Some (H bb pb)"
    and "build_index shared built Map.empty = Some index" and "zs_ok out"
  shows "\<exists>out'. probe_loop head build_is_left shared index probe out = Some out' \<and> zs_ok out'
    \<and> (\<forall>t. zs_get out' t = zs_get out t
        + (\<Sum>(pb, pm)\<leftarrow>probe. \<Sum>(bb, bm)\<leftarrow>built. if K bb = K pb \<and> H bb pb = t then bm * pm else 0))"
  using assms(2,3,5)
proof (induction probe arbitrary: out)
  case (Cons e probe)
  obtain pb pm where e: "e = (pb, pm)" by (cases e)
  define xs where "xs = filter (\<lambda>(b, m). K b = K pb) built"
  have k: "key_of pb shared = Some (K pb)" using Cons(2) e by simp
  have i: "index (K pb) = (if xs = [] then None else Some xs)"
    using assms(4) build_index_spec [OF assms(1), of Map.empty] by (auto simp: xs_def Let_def)
  have sums: "(\<Sum>(bb, bm)\<leftarrow>xs. if H bb pb = t then bm * pm else 0)
      = (\<Sum>(bb, bm)\<leftarrow>built. if K bb = K pb \<and> H bb pb = t then bm * pm else 0)" for t
    unfolding xs_def by (induction built) auto
  have h: "\<forall>(bb, bm)\<in>set xs. eval_head head (if build_is_left then bs_merge bb pb else bs_merge pb bb) = Some (H bb pb)"
    using Cons(3) e unfolding xs_def by auto
  obtain out1 where out1: "(case index (K pb) of None \<Rightarrow> Some out
        | Some matches \<Rightarrow> emit_matches head build_is_left (pb, pm) matches out) = Some out1" "zs_ok out1"
      "\<forall>t. zs_get out1 t = zs_get out t + (\<Sum>(bb, bm)\<leftarrow>xs. if H bb pb = t then bm * pm else 0)"
    using emit_matches_spec [OF h Cons(4), of pm] Cons(4) unfolding i by (cases "xs = []") auto
  have p1: "\<forall>(b, m)\<in>set probe. key_of b shared = Some (K b)" using Cons(2) by simp
  have p2: "\<forall>(bb, bm)\<in>set built. \<forall>(pb, pm)\<in>set probe. K bb = K pb \<longrightarrow>
      eval_head head (if build_is_left then bs_merge bb pb else bs_merge pb bb) = Some (H bb pb)"
    using Cons(3) by fastforce
  from Cons(1) [OF p1 p2 out1(2)] obtain out' where
    "probe_loop head build_is_left shared index probe out1 = Some out'" "zs_ok out'"
    "\<forall>t. zs_get out' t = zs_get out1 t
        + (\<Sum>(pb, pm)\<leftarrow>probe. \<Sum>(bb, bm)\<leftarrow>built. if K bb = K pb \<and> H bb pb = t then bm * pm else 0)" by blast
  with k out1 show ?case unfolding e sums by (auto simp: sums)
qed simp

lemma sum_list_swap: "(\<Sum>x\<leftarrow>xs. \<Sum>y\<leftarrow>ys. f x y) = (\<Sum>y\<leftarrow>ys. \<Sum>x\<leftarrow>xs. (f x y :: int))"
  by (induction xs) (simp_all add: sum_list_addf)

section \<open>The join\<close>

lemma key_eq_iff:
  assumes "\<forall>v\<in>set vs. v \<in> dom b \<and> v \<in> dom c"
  shows "map (\<lambda>v. the (b v)) vs @ zs = map (\<lambda>v. the (c v)) vs @ zs \<longleftrightarrow> (\<forall>v\<in>set vs. b v = c v)"
  using assms by (induction vs) auto

text \<open>The weight a pair of bound rows contributes to a conclusion.\<close>

definition pair_weight :: "hash_join_rule \<Rightarrow> triple_id \<Rightarrow> binding \<times> int \<Rightarrow> binding \<times> int \<Rightarrow> int" where
  "pair_weight r t x y = (if (\<forall>v\<in>pattern_vars (hj_left r) \<inter> pattern_vars (hj_right r). fst x v = fst y v)
       \<and> head_value (hj_head r) (fst x ++ fst y) = Some t then snd x * snd y else 0)"

lemma sum_bound_rows:
  "(\<Sum>x\<leftarrow>bound_rows pat z. f x) = (\<Sum>(t, m)\<leftarrow>z. case match_triple pat t of None \<Rightarrow> 0 | Some b \<Rightarrow> (f (b, m) :: int))"
  by (induction z) (auto simp: bound_rows_def List.map_filter_simps split: option.split)

lemma pair_weight_sum:
  "(\<Sum>x\<leftarrow>bound_rows (hj_left r) a. \<Sum>y\<leftarrow>bound_rows (hj_right r) b. pair_weight r t x y)
    = zs_sum a (\<lambda>ta. zs_sum b (\<lambda>tb. if joins r ta tb = Some t then 1 else 0))"
proof -
  have *: "(case match_triple (hj_left r) ta of None \<Rightarrow> 0 | Some bl \<Rightarrow>
       (\<Sum>(tb, n)\<leftarrow>b. case match_triple (hj_right r) tb of None \<Rightarrow> 0 | Some br \<Rightarrow> pair_weight r t (bl, m) (br, n)))
      = m * zs_sum b (\<lambda>tb. if joins r ta tb = Some t then 1 else 0)" for ta m
    by (induction b) (auto simp: joins_def pair_weight_def distrib_left split: option.split)
  show ?thesis unfolding sum_bound_rows by (simp add: zs_sum_def [of a] * case_prod_beta')
qed

lemma hj_join_spec:
  assumes "rule_ok r"
  shows "\<exists>out. hj_join r a b = Some out \<and> zs_ok out
    \<and> (\<forall>t. zs_get out t = zs_sum a (\<lambda>ta. zs_sum b (\<lambda>tb. if joins r ta tb = Some t then 1 else 0)))"
proof -
  let ?l = "hj_left r" and ?r = "hj_right r" and ?h = "hj_head r"
  define shared where "shared = shared_vars ?l ?r"
  define K where "K c = map (\<lambda>v. the (bs_map c v)) shared @ replicate (3 - length shared) 0" for c
  have small: "\<forall>v\<in>pattern_vars ?l. unat v < max_vars" "\<forall>v\<in>pattern_vars ?r. unat v < max_vars"
    and head: "pattern_vars ?h \<subseteq> pattern_vars ?l \<union> pattern_vars ?r"
    using assms by (auto simp: rule_ok_def)
  obtain L where L: "filter_and_bind ?l a = Some L" "map (apfst bs_map) L = bound_rows ?l a"
    "\<forall>(b, m)\<in>set L. length b = max_vars \<and> dom (bs_map b) = pattern_vars ?l"
    using filter_and_bind_spec [OF small(1)] by blast
  obtain R where R: "filter_and_bind ?r b = Some R" "map (apfst bs_map) R = bound_rows ?r b"
    "\<forall>(b, m)\<in>set R. length b = max_vars \<and> dom (bs_map b) = pattern_vars ?r"
    using filter_and_bind_spec [OF small(2)] by blast
  have sh: "set shared = pattern_vars ?l \<inter> pattern_vars ?r" "length shared \<le> 3"
    by (simp_all add: shared_def shared_vars_spec)
  have Ld: "length b = max_vars" "dom (bs_map b) = pattern_vars ?l" if "(b, m) \<in> set L" for b m
    using bspec [OF L(3) that] by simp_all
  have Rd: "length b = max_vars" "dom (bs_map b) = pattern_vars ?r" if "(b, m) \<in> set R" for b m
    using bspec [OF R(3) that] by simp_all
  have keys: "\<forall>(b, m)\<in>set L. key_of b shared = Some (K b)" "\<forall>(b, m)\<in>set R. key_of b shared = Some (K b)"
  proof (safe, unfold K_def)
    fix b m assume b: "(b, m) \<in> set L"
    have "\<forall>v\<in>set shared. unat v < length b \<and> v \<in> dom (bs_map b)"
      unfolding sh(1) Ld [OF b] using small by blast
    then show "key_of b shared = Some (map (\<lambda>v. the (bs_map b v)) shared @ replicate (3 - length shared) 0)"
      by (rule key_of_spec [OF _ sh(2)])
  next
    fix b m assume b: "(b, m) \<in> set R"
    have "\<forall>v\<in>set shared. unat v < length b \<and> v \<in> dom (bs_map b)"
      unfolding sh(1) Rd [OF b] using small by blast
    then show "key_of b shared = Some (map (\<lambda>v. the (bs_map b v)) shared @ replicate (3 - length shared) 0)"
      by (rule key_of_spec [OF _ sh(2)])
  qed
  have agree: "K bl = K br \<longleftrightarrow> (\<forall>v\<in>pattern_vars ?l \<inter> pattern_vars ?r. bs_map bl v = bs_map br v)"
    if "(bl, m) \<in> set L" "(br, n) \<in> set R" for bl m br n
    unfolding K_def using Ld(2) [OF that(1)] Rd(2) [OF that(2)] by (subst key_eq_iff) (simp_all only: sh(1), blast)
  have head_val: "eval_head ?h (bs_merge bl br) = head_value ?h (bs_map bl ++ bs_map br)"
    "\<exists>t. head_value ?h (bs_map bl ++ bs_map br) = Some t"
    if "(bl, m) \<in> set L" "(br, n) \<in> set R" for bl m br n
  proof -
    have d: "length bl = max_vars" "length br = max_vars" "dom (bs_map bl) = pattern_vars ?l" "dom (bs_map br) = pattern_vars ?r"
      using Ld [OF that(1)] Rd [OF that(2)] by simp_all
    then show "eval_head ?h (bs_merge bl br) = head_value ?h (bs_map bl ++ bs_map br)"
      using head small by (subst eval_head_spec) (auto simp: bs_map_merge)
    have dom: "pattern_vars ?h \<subseteq> dom (bs_map bl ++ bs_map br)" unfolding dom_map_add d using head by blast
    have "value_of (bs_map bl ++ bs_map br) t \<noteq> None" if t: "t \<in> set (slots ?h)" for t
    proof (cases t)
      case (Var v)
      then have "v \<in> pattern_vars ?h" using t by (simp add: pattern_vars_def)
      then have "v \<in> dom (bs_map bl ++ bs_map br)" by (rule subsetD [OF dom])
      then show ?thesis by (simp only: Var value_of.simps domIff simp_thms)
    qed simp
    from this [of "pat_s ?h"] this [of "pat_p ?h"] this [of "pat_o ?h"]
    show "\<exists>t. head_value ?h (bs_map bl ++ bs_map br) = Some t"
      by (auto simp: head_value_def slots_def)
  qed
  define W where "W t x y = (if K (fst x) = K (fst y) \<and> the (head_value ?h (bs_map (fst x) ++ bs_map (fst y))) = t
    then snd x * snd y else 0)" for t and x y :: "bindings \<times> int"
  have weights: "(\<Sum>x\<leftarrow>L. \<Sum>y\<leftarrow>R. W t x y) = zs_sum a (\<lambda>ta. zs_sum b (\<lambda>tb. if joins r ta tb = Some t then 1 else 0))" for t
  proof -
    have "W t x y = pair_weight r t (apfst bs_map x) (apfst bs_map y)" if "x \<in> set L" "y \<in> set R" for x y
      using agree [of "fst x" "snd x" "fst y" "snd y"] head_val(2) [of "fst x" "snd x" "fst y" "snd y"] that
      by (auto simp: W_def pair_weight_def)
    then have "(\<Sum>x\<leftarrow>L. \<Sum>y\<leftarrow>R. W t x y) = (\<Sum>x\<leftarrow>L. \<Sum>y\<leftarrow>R. pair_weight r t (apfst bs_map x) (apfst bs_map y))"
      by (intro arg_cong [of _ _ sum_list] map_cong refl) auto
    also have "\<dots> = (\<Sum>x\<leftarrow>bound_rows ?l a. \<Sum>y\<leftarrow>bound_rows ?r b. pair_weight r t x y)"
      by (simp add: L(2) [symmetric] R(2) [symmetric] comp_def)
    finally show ?thesis by (simp only: pair_weight_sum)
  qed
  have "\<exists>out. hj_join r a b = Some out \<and> zs_ok out \<and> (\<forall>t. zs_get out t = (\<Sum>x\<leftarrow>L. \<Sum>y\<leftarrow>R. W t x y))"
  proof (cases "L = [] \<or> R = []")
    case True
    then have "(\<Sum>x\<leftarrow>L. \<Sum>y\<leftarrow>R. W t x y) = 0" for t by (cases "L = []") auto
    with True show ?thesis by (auto simp: hj_join_def L(1) R(1))
  next
    case False
    show ?thesis
    proof (cases "length L \<le> length R")
      case True
      have h: "\<forall>(bb, bm)\<in>set L. \<forall>(pb, pm)\<in>set R. K bb = K pb \<longrightarrow>
          eval_head ?h (if True then bs_merge bb pb else bs_merge pb bb) = Some (the (head_value ?h (bs_map bb ++ bs_map pb)))"
        by (clarsimp simp: head_val(1)) (metis head_val(2) option.sel)
      obtain index where i: "build_index shared L Map.empty = Some index" using build_index_spec [OF keys(1)] by blast
      obtain out where out: "probe_loop ?h True shared index R zs_new = Some out" "zs_ok out"
        "\<forall>t. zs_get out t = (\<Sum>(pb, pm)\<leftarrow>R. \<Sum>(bb, bm)\<leftarrow>L. if K bb = K pb
            \<and> the (head_value ?h (bs_map bb ++ bs_map pb)) = t then bm * pm else 0)"
        using probe_loop_spec [OF keys h i zs_new_simps(1)] by auto
      have "zs_get out t = (\<Sum>x\<leftarrow>L. \<Sum>y\<leftarrow>R. W t x y)" for t
        by (subst sum_list_swap) (simp add: out(3) W_def case_prod_beta')
      with out(1,2) i True False show ?thesis by (auto simp: hj_join_def L(1) R(1) shared_def [symmetric] Let_def)
    next
      case f: False
      have h: "\<forall>(bb, bm)\<in>set R. \<forall>(pb, pm)\<in>set L. K bb = K pb \<longrightarrow>
          eval_head ?h (if False then bs_merge bb pb else bs_merge pb bb) = Some (the (head_value ?h (bs_map pb ++ bs_map bb)))"
        by (clarsimp simp: head_val(1)) (metis head_val(2) option.sel)
      obtain index where i: "build_index shared R Map.empty = Some index" using build_index_spec [OF keys(2)] by blast
      obtain out where out: "probe_loop ?h False shared index L zs_new = Some out" "zs_ok out"
        "\<forall>t. zs_get out t = (\<Sum>(pb, pm)\<leftarrow>L. \<Sum>(bb, bm)\<leftarrow>R. if K bb = K pb
            \<and> the (head_value ?h (bs_map pb ++ bs_map bb)) = t then bm * pm else 0)"
        using probe_loop_spec [OF keys(2,1) h i zs_new_simps(1)] by auto
      have "zs_get out t = (\<Sum>x\<leftarrow>L. \<Sum>y\<leftarrow>R. W t x y)" for t
        unfolding spec [OF out(3)] W_def case_prod_beta'
        by (intro arg_cong [of _ _ sum_list] map_cong refl) auto
      with out(1,2) i f False show ?thesis by (auto simp: hj_join_def L(1) R(1) shared_def [symmetric] Let_def)
    qed
  qed
  with weights show ?thesis by simp
qed

section \<open>The kernel is exact\<close>

lemma map_filter_vars: "set (List.map_filter as_var (slots pat)) = pattern_vars pat"
proof -
  have "set (List.map_filter as_var ts) = {v. Var v \<in> set ts}" for ts
  proof (induction ts)
    case (Cons t ts)
    then show ?case by (cases t) (auto simp: map_filter_simps)
  qed (simp add: map_filter_simps)
  then show ?thesis by (simp add: pattern_vars_def)
qed

lemma hj_new_spec:
  "hj_new rid l r head = (if pattern_vars head \<subseteq> pattern_vars l \<union> pattern_vars r
     then if pattern_vars l \<inter> pattern_vars r \<noteq> {}
       then Inr \<lparr>hj_id = rid, hj_left = l, hj_right = r, hj_head = head\<rparr> else Inl No_Shared_Var
     else Inl (Unbound_Head_Var (hd (filter (\<lambda>v. v \<notin> pattern_vars l \<union> pattern_vars r) (List.map_filter as_var (slots head))))))"
proof -
  let ?f = "filter (\<lambda>v. v \<notin> pattern_vars l \<union> pattern_vars r) (List.map_filter as_var (slots head))"
  have body: "set (vars_in l @ vars_in r) = pattern_vars l \<union> pattern_vars r" by (simp add: set_vars_in)
  have "shared_vars l r = [] \<longleftrightarrow> pattern_vars l \<inter> pattern_vars r = {}" using shared_vars_spec(1) [of l r] by (metis set_empty)
  moreover have "?f = [] \<longleftrightarrow> pattern_vars head \<subseteq> pattern_vars l \<union> pattern_vars r"
    by (auto simp: filter_empty_conv map_filter_vars)
  ultimately show ?thesis unfolding hj_new_def Let_def body by (cases ?f) auto
qed

text \<open>The constructor of a hash join accepts a rule exactly when every head variable is bound by the body and the two patterns share a variable, and otherwise names the first head variable in slot order that the body leaves unbound, or the missing shared variable.\<close>

theorem hj_new_exact:
  "(case hj_new rid l r head of
      Inr rule \<Rightarrow> rule = \<lparr>hj_id = rid, hj_left = l, hj_right = r, hj_head = head\<rparr>
        \<and> pattern_vars head \<subseteq> pattern_vars l \<union> pattern_vars r \<and> pattern_vars l \<inter> pattern_vars r \<noteq> {}
    | Inl (Unbound_Head_Var v) \<Rightarrow> v \<in> pattern_vars head \<and> v \<notin> pattern_vars l \<union> pattern_vars r
    | Inl No_Shared_Var \<Rightarrow> pattern_vars head \<subseteq> pattern_vars l \<union> pattern_vars r \<and> pattern_vars l \<inter> pattern_vars r = {}
    | Inl e \<Rightarrow> False)"
proof (cases "pattern_vars head \<subseteq> pattern_vars l \<union> pattern_vars r")
  case True
  then show ?thesis by (simp add: hj_new_spec)
next
  case False
  let ?f = "filter (\<lambda>v. v \<notin> pattern_vars l \<union> pattern_vars r) (List.map_filter as_var (slots head))"
  have "?f \<noteq> []" using False by (auto simp: filter_empty_conv map_filter_vars)
  then have "hd ?f \<in> set ?f" by (rule hd_in_set)
  then show ?thesis using False by (simp add: hj_new_spec map_filter_vars)
qed



end
