(* ===== verification/Nary_Plan.thy ===== *)
theory Nary_Plan imports Join_Kernel begin

text \<open>
  \<^verbatim>\<open>crates/incremental/src/operator.rs\<close>: a rule body as a left-deep tree of binary joins, evaluated
  from scratch, by differences, and by differences over intermediates kept between calls. The one
  implementation of the trait \<^verbatim>\<open>BilinearRule\<close> in the program is the hash join, whose contract is the
  locale \<open>bilinear_rule\<close>. On an extent that is a set, a plan counts derivations; the stateful
  evaluation returns exactly the change of that count.
\<close>

section \<open>Plans\<close>

record nary_plan =
  np_joins :: "hash_join_rule list"
  np_leaf_order :: "nat list"
  np_state :: "triple_id zset list option"

definition leaf :: "pred_extent \<Rightarrow> u64 option \<Rightarrow> triple_id zset" where
  "leaf ext p = (case p of Some p \<Rightarrow> pe_slice ext p | None \<Rightarrow> pe_all ext)"

definition np_new :: nary_plan where
  "np_new = \<lparr>np_joins = [], np_leaf_order = [], np_state = None\<rparr>"

definition push_join :: "hash_join_rule \<Rightarrow> nary_plan \<Rightarrow> nary_plan" where
  "push_join r plan = plan\<lparr>np_joins := np_joins plan @ [r]\<rparr>"

definition arity :: "nary_plan \<Rightarrow> nat" where
  "arity plan = length (np_joins plan) + 1"

section \<open>Evaluation\<close>

fun full_levels :: "hash_join_rule list \<Rightarrow> pred_extent \<Rightarrow> triple_id zset \<Rightarrow> triple_id zset option" where
  "full_levels [] ext intermediate = Some intermediate"
| "full_levels (r # rs) ext intermediate = do {
     next_level \<leftarrow> hj_apply_full r intermediate (leaf ext (snd (body_predicates r)));
     full_levels rs ext next_level }"

definition apply_full :: "nary_plan \<Rightarrow> pred_extent \<Rightarrow> triple_id zset option" where
  "apply_full plan ext = (case np_joins plan of
     [] \<Rightarrow> Some (pe_all ext)
   | r # rs \<Rightarrow> do {
       let (lp0, rp0) = body_predicates r;
       intermediate \<leftarrow> hj_apply_full r (leaf ext lp0) (leaf ext rp0);
       full_levels rs ext intermediate })"

fun delta_levels ::
  "hash_join_rule list \<Rightarrow> pred_extent \<Rightarrow> pred_extent \<Rightarrow> triple_id zset \<Rightarrow> triple_id zset \<Rightarrow> triple_id zset option" where
  "delta_levels [] ext delta_ext int_base int_delta = Some int_delta"
| "delta_levels (r # rs) ext delta_ext int_base int_delta = do {
     let rp = snd (body_predicates r);
     next_base \<leftarrow> hj_apply_full r int_base (leaf ext rp);
     next_delta \<leftarrow> hj_apply_delta r int_base (leaf ext rp) int_delta (leaf delta_ext rp);
     delta_levels rs ext delta_ext next_base next_delta }"

definition apply_delta :: "nary_plan \<Rightarrow> pred_extent \<Rightarrow> triple_id zset \<Rightarrow> triple_id zset option" where
  "apply_delta plan ext delta = (case np_joins plan of
     [] \<Rightarrow> Some delta
   | r # rs \<Rightarrow> do {
       let delta_ext = pe_from_zset delta;
       let (lp0, rp0) = body_predicates r;
       int_base \<leftarrow> hj_apply_full r (leaf ext lp0) (leaf ext rp0);
       int_delta \<leftarrow> hj_apply_delta r (leaf ext lp0) (leaf ext rp0) (leaf delta_ext lp0) (leaf delta_ext rp0);
       delta_levels rs ext delta_ext int_base int_delta })"

text \<open>The intermediates a cold start computes: one for every level but the last.\<close>

fun cold_levels :: "hash_join_rule list \<Rightarrow> pred_extent \<Rightarrow> triple_id zset \<Rightarrow> triple_id zset list option" where
  "cold_levels [] ext prev = Some []"
| "cold_levels (r # rs) ext prev = do {
     next_level \<leftarrow> hj_apply_full r prev (leaf ext (snd (body_predicates r)));
     levels \<leftarrow> cold_levels rs ext next_level;
     Some (next_level # levels) }"

definition cold_state :: "hash_join_rule list \<Rightarrow> pred_extent \<Rightarrow> triple_id zset list option" where
  "cold_state rules ext = (case rules of
     r # r' # rs \<Rightarrow> do {
       let (lp0, rp0) = body_predicates r;
       prev \<leftarrow> hj_apply_full r (leaf ext lp0) (leaf ext rp0);
       levels \<leftarrow> cold_levels (butlast (r' # rs)) ext prev;
       Some (prev # levels) }
   | _ \<Rightarrow> Some [])"

fun stateful_levels ::
  "hash_join_rule list \<Rightarrow> pred_extent \<Rightarrow> pred_extent \<Rightarrow> triple_id zset list \<Rightarrow> triple_id zset
     \<Rightarrow> (triple_id zset \<times> triple_id zset list) option" where
  "stateful_levels [] ext delta_ext state prev_delta = Some (prev_delta, state)"
| "stateful_levels (r # rs) ext delta_ext [] prev_delta = None"
| "stateful_levels (r # rs) ext delta_ext (s # state) prev_delta = do {
     let rp = snd (body_predicates r);
     next_delta \<leftarrow> hj_apply_delta r s (leaf ext rp) prev_delta (leaf delta_ext rp);
     (out, state') \<leftarrow> stateful_levels rs ext delta_ext state next_delta;
     Some (out, zs_add_assign s prev_delta # state') }"

definition apply_delta_stateful ::
  "nary_plan \<Rightarrow> pred_extent \<Rightarrow> triple_id zset \<Rightarrow> (triple_id zset \<times> nary_plan) option" where
  "apply_delta_stateful plan ext delta = (case np_joins plan of
     [] \<Rightarrow> Some (delta, plan)
   | r # rs \<Rightarrow> do {
       let delta_ext = pe_from_zset delta;
       state \<leftarrow> (case np_state plan of Some st \<Rightarrow> Some st | None \<Rightarrow> cold_state (r # rs) ext);
       let (lp0, rp0) = body_predicates r;
       prev_delta \<leftarrow> hj_apply_delta r (leaf ext lp0) (leaf ext rp0) (leaf delta_ext lp0) (leaf delta_ext rp0);
       (out, state') \<leftarrow> stateful_levels rs ext delta_ext state prev_delta;
       Some (out, plan\<lparr>np_state := Some state'\<rparr>) })"

definition reset_state :: "nary_plan \<Rightarrow> nary_plan" where
  "reset_state plan = plan\<lparr>np_state := None\<rparr>"

section \<open>The contract of a rule\<close>

definition join_weight :: "('a \<Rightarrow> 'b \<Rightarrow> 'c option) \<Rightarrow> 'a zset \<Rightarrow> 'b zset \<Rightarrow> 'c \<Rightarrow> int" where
  "join_weight comb a b t = zs_sum a (\<lambda>x. zs_sum b (\<lambda>y. if comb x y = Some t then 1 else 0))"

lemma zs_sum_plus: "zs_sum z (\<lambda>x. f x + g x) = zs_sum z f + zs_sum z g"
  by (induction z) (auto simp: algebra_simps)

lemma zs_sum_zero [simp]: "zs_sum z (\<lambda>x. 0) = 0"
  by (induction z) auto

lemma join_weight_add:
  assumes "zs_ok a" and "zs_ok d"
  shows "join_weight comb (zs_add_assign a d) b t = join_weight comb a b t + join_weight comb d b t"
    and "join_weight comb' b' (zs_add_assign a d) t' = join_weight comb' b' a t' + join_weight comb' b' d t'"
  using assms by (simp_all add: join_weight_def zs_add_assign_spec zs_sum_plus)

locale bilinear_rule =
  fixes ok :: "'r \<Rightarrow> bool"
    and full :: "'r \<Rightarrow> triple_id zset \<Rightarrow> triple_id zset \<Rightarrow> triple_id zset option"
    and delta :: "'r \<Rightarrow> triple_id zset \<Rightarrow> triple_id zset \<Rightarrow> triple_id zset \<Rightarrow> triple_id zset \<Rightarrow> triple_id zset option"
    and preds :: "'r \<Rightarrow> u64 option \<times> u64 option"
    and comb :: "'r \<Rightarrow> triple_id \<Rightarrow> triple_id \<Rightarrow> triple_id option"
  assumes full: "ok r \<Longrightarrow> \<exists>out. full r a b = Some out \<and> zs_ok out \<and> (\<forall>t. zs_get out t = join_weight (comb r) a b t)"
    and delta: "ok r \<Longrightarrow> \<exists>out. delta r a b da db = Some out \<and> zs_ok out
      \<and> (\<forall>t. zs_get out t = join_weight (comb r) da b t + join_weight (comb r) a db t + join_weight (comb r) da db t)"
    and left_pred: "fst (preds r) = Some p \<Longrightarrow> comb r x y \<noteq> None \<Longrightarrow> predicate_of x = p"
    and right_pred: "snd (preds r) = Some p \<Longrightarrow> comb r x y \<noteq> None \<Longrightarrow> predicate_of y = p"
begin

lemma full_get:
  assumes "ok r" and "full r a b = Some out"
  shows "zs_ok out" and "zs_get out t = join_weight (comb r) a b t"
  using full [OF assms(1), of a b] assms(2) by (metis option.inject)+

lemma delta_get:
  assumes "ok r" and "delta r a b da db = Some out"
  shows "zs_ok out"
    and "zs_get out t = join_weight (comb r) da b t + join_weight (comb r) a db t + join_weight (comb r) da db t"
  using delta [OF assms(1), of a b da db] assms(2) by (metis option.inject)+

text \<open>Reading a leaf through its predicate slice loses nothing.\<close>

lemma leaf_right:
  assumes "pe_ok e"
  shows "join_weight (comb r) a (leaf e (snd (preds r))) t = join_weight (comb r) a (pe_all e) t"
proof (cases "snd (preds r)")
  case (Some p)
  have "comb r x y = None" if "predicate_of y \<noteq> p" for x y using right_pred [OF Some] that by blast
  then have "zs_sum (pe_slice e p) (\<lambda>y. if comb r x y = Some t then 1 else 0)
      = zs_sum (pe_all e) (\<lambda>y. if comb r x y = Some t then 1 else 0)" for x
    by (intro zs_sum_slice [OF assms]) simp
  then show ?thesis by (simp only: join_weight_def leaf_def Some option.case)
qed (simp add: leaf_def)

lemma leaf_left:
  assumes "pe_ok e"
  shows "join_weight (comb r) (leaf e (fst (preds r))) b t = join_weight (comb r) (pe_all e) b t"
proof (cases "fst (preds r)")
  case (Some p)
  have "comb r x y = None" if "predicate_of x \<noteq> p" for x y using left_pred [OF Some] that by blast
  then have "zs_sum (pe_slice e p) (\<lambda>x. zs_sum b (\<lambda>y. if comb r x y = Some t then 1 else 0))
      = zs_sum (pe_all e) (\<lambda>x. zs_sum b (\<lambda>y. if comb r x y = Some t then 1 else 0))"
    by (intro zs_sum_slice [OF assms]) simp
  then show ?thesis by (simp only: join_weight_def leaf_def Some option.case)
qed (simp add: leaf_def)

lemmas leaves = leaf_left leaf_right

text \<open>
  A level whose left input and extent both move: \<open>delta\<close> returns what \<open>full\<close> gains. The bottom level
  reads the extent on both sides, the others on the right.
\<close>

lemma level_exact:
  assumes "ok r" and "pe_ok e" "pe_ok d" "pe_ok e'" and "pe_all e' = zs_add_assign (pe_all e) (pe_all d)"
    and "zs_ok a" "zs_ok da"
    and "full r a (leaf e (snd (preds r))) = Some z"
    and "full r (zs_add_assign a da) (leaf e' (snd (preds r))) = Some z'"
    and "delta r a (leaf e (snd (preds r))) da (leaf d (snd (preds r))) = Some dz"
  shows "z' = zs_add_assign z dz"
proof -
  have ok: "zs_ok z" "zs_ok z'" "zs_ok dz" "zs_ok (pe_all e)" "zs_ok (pe_all d)"
    using full_get(1) [OF assms(1,8)] full_get(1) [OF assms(1,9)] delta_get(1) [OF assms(1,10)] assms(2,3)
    by (simp_all add: pe_ok_def)
  show ?thesis
  proof (rule zs_ext [OF ok(2) zs_add_assign_spec(1) [OF ok(1,3)]])
    show "zs_get z' t = zs_get (zs_add_assign z dz) t" for t
      unfolding zs_add_assign_spec(2) [OF ok(1,3)] full_get(2) [OF assms(1,8)] full_get(2) [OF assms(1,9)]
        delta_get(2) [OF assms(1,10)] leaf_right [OF assms(2)] leaf_right [OF assms(3)] leaf_right [OF assms(4)]
        assms(5) join_weight_add [OF assms(6,7)] join_weight_add(2) [OF ok(4,5)] by simp
  qed
qed

lemma bottom_exact:
  assumes "ok r" and "pe_ok e" "pe_ok d" "pe_ok e'" and "pe_all e' = zs_add_assign (pe_all e) (pe_all d)"
    and "full r (leaf e (fst (preds r))) (leaf e (snd (preds r))) = Some z"
    and "full r (leaf e' (fst (preds r))) (leaf e' (snd (preds r))) = Some z'"
    and "delta r (leaf e (fst (preds r))) (leaf e (snd (preds r)))
           (leaf d (fst (preds r))) (leaf d (snd (preds r))) = Some dz"
  shows "z' = zs_add_assign z dz"
proof -
  have ok: "zs_ok z" "zs_ok z'" "zs_ok dz" "zs_ok (pe_all e)" "zs_ok (pe_all d)"
    using full_get(1) [OF assms(1,6)] full_get(1) [OF assms(1,7)] delta_get(1) [OF assms(1,8)] assms(2,3)
    by (simp_all add: pe_ok_def)
  show ?thesis
  proof (rule zs_ext [OF ok(2) zs_add_assign_spec(1) [OF ok(1,3)]])
    show "zs_get z' t = zs_get (zs_add_assign z dz) t" for t
      unfolding zs_add_assign_spec(2) [OF ok(1,3)] full_get(2) [OF assms(1,6)] full_get(2) [OF assms(1,7)]
        delta_get(2) [OF assms(1,8)] leaf_right [OF assms(2)] leaf_right [OF assms(3)] leaf_right [OF assms(4)]
        leaf_left [OF assms(2)] leaf_left [OF assms(3)] leaf_left [OF assms(4)]
        assms(5) join_weight_add [OF ok(4,5)] by simp
  qed
qed

end

lemma predicate_match:
  assumes "match_triple pat t = Some b" and "as_bound (pat_p pat) = Some p"
  shows "predicate_of t = p"
proof -
  have "pat_p pat = Bound p" using assms(2) by (cases "pat_p pat") auto
  then show ?thesis using assms(1) bind_terms_spec by (cases t) (fastforce simp: match_triple_def)
qed

interpretation hj: bilinear_rule rule_ok hj_apply_full hj_apply_delta body_predicates joins
proof unfold_locales
  fix r a b da db x y p
  assume ok: "rule_ok r"
  show "\<exists>out. hj_apply_full r a b = Some out \<and> zs_ok out \<and> (\<forall>t. zs_get out t = join_weight (joins r) a b t)"
    using hj_join_spec [OF ok] by (simp add: hj_apply_full_def join_weight_def)
  obtain u v w where
    "hj_join r da b = Some u" "zs_ok u" "\<forall>t. zs_get u t = join_weight (joins r) da b t"
    "hj_join r a db = Some v" "zs_ok v" "\<forall>t. zs_get v t = join_weight (joins r) a db t"
    "hj_join r da db = Some w" "zs_ok w" "\<forall>t. zs_get w t = join_weight (joins r) da db t"
    using hj_join_spec [OF ok] unfolding join_weight_def by metis
  then show "\<exists>out. hj_apply_delta r a b da db = Some out \<and> zs_ok out \<and> (\<forall>t. zs_get out t
      = join_weight (joins r) da b t + join_weight (joins r) a db t + join_weight (joins r) da db t)"
    by (simp add: hj_apply_delta_def zs_add_assign_spec)
next
  fix r x y p
  assume p: "fst (body_predicates r) = Some p" "joins r x y \<noteq> None"
  then obtain b where "match_triple (hj_left r) x = Some b" by (auto simp: joins_def split: bind_splits)
  with p(1) show "predicate_of x = p" by (auto simp: body_predicates_def dest: predicate_match)
next
  fix r x y p
  assume p: "snd (body_predicates r) = Some p" "joins r x y \<noteq> None"
  then obtain b where "match_triple (hj_right r) y = Some b" by (auto simp: joins_def split: bind_splits)
  with p(1) show "predicate_of y = p" by (auto simp: body_predicates_def dest: predicate_match)
qed

section \<open>Plans return\<close>

definition plan_ok :: "nary_plan \<Rightarrow> bool" where
  "plan_ok plan \<longleftrightarrow> (\<forall>r\<in>set (np_joins plan). rule_ok r)"

lemma full_levels_returns:
  "\<forall>r\<in>set rs. rule_ok r \<Longrightarrow> zs_ok z \<Longrightarrow> \<exists>out. full_levels rs e z = Some out \<and> zs_ok out"
proof (induction rs arbitrary: z)
  case (Cons r rs)
  obtain n where "hj_apply_full r z (leaf e (snd (body_predicates r))) = Some n" "zs_ok n"
    using hj.full [of r z "leaf e (snd (body_predicates r))"] Cons(2) by auto
  with Cons show ?case by simp
qed simp

lemma apply_full_returns:
  assumes "plan_ok plan" and "pe_ok e"
  shows "\<exists>out. apply_full plan e = Some out \<and> zs_ok out"
proof (cases "np_joins plan")
  case Nil
  with assms(2) show ?thesis by (simp add: apply_full_def pe_ok_def)
next
  case (Cons r rs)
  with assms(1) have "rule_ok r" "\<forall>r\<in>set rs. rule_ok r" by (simp_all add: plan_ok_def)
  then obtain n where "hj_apply_full r (leaf e (fst (body_predicates r))) (leaf e (snd (body_predicates r))) = Some n" "zs_ok n"
    using hj.full [of r] by blast
  with full_levels_returns [OF \<open>\<forall>r\<in>set rs. rule_ok r\<close>, of n e] Cons show ?thesis
    by (simp add: apply_full_def case_prod_beta')
qed

lemma pe_add_assign_all:
  assumes "pe_ok e" and "zs_ok d"
  shows "pe_ok (pe_from_zset d)" "pe_ok (pe_add_assign e d)"
    "pe_all (pe_add_assign e d) = zs_add_assign (pe_all e) (pe_all (pe_from_zset d))"
    "pe_all (pe_from_zset d) = d"
proof -
  show "pe_ok (pe_from_zset d)" "pe_ok (pe_add_assign e d)"
    using assms by (simp_all add: pe_from_zset_spec pe_add_assign_spec)
  then show "pe_all (pe_from_zset d) = d" using pe_from_zset_spec [OF assms(2)] assms(2)
    unfolding pe_ok_def pe_get_def by (intro zs_ext) auto
  with \<open>pe_ok (pe_add_assign e d)\<close> assms
  show "pe_all (pe_add_assign e d) = zs_add_assign (pe_all e) (pe_all (pe_from_zset d))"
    using pe_add_assign_spec [OF assms] unfolding pe_ok_def pe_get_def
    by (intro zs_ext) (simp_all add: zs_add_assign_spec)
qed

section \<open>The stateful evaluation\<close>

text \<open>The left inputs of the levels above the bottom, over the extent \<open>e\<close>.\<close>

definition lefts :: "hash_join_rule list \<Rightarrow> pred_extent \<Rightarrow> triple_id zset \<Rightarrow> triple_id zset list option" where
  "lefts rs e a = (case rs of [] \<Rightarrow> Some [] | _ \<Rightarrow> map_option (Cons a) (cold_levels (butlast rs) e a))"

lemma lefts_Cons: "lefts (r # rs) e a = (case hj_apply_full r a (leaf e (snd (body_predicates r))) of
    None \<Rightarrow> if rs = [] then Some [a] else None
  | Some n \<Rightarrow> map_option (Cons a) (lefts rs e n))"
  by (cases rs) (auto simp: lefts_def split: option.split bind_splits)

lemma stateful_levels_spec:
  assumes "\<forall>r\<in>set rs. rule_ok r" and "pe_ok e" "pe_ok d" "pe_ok e'" and "pe_all e' = zs_add_assign (pe_all e) (pe_all d)"
    and "zs_ok a" "zs_ok da"
  shows "\<exists>state state' out z. lefts rs e a = Some state \<and> lefts rs e' (zs_add_assign a da) = Some state'
    \<and> stateful_levels rs e d state da = Some (out, state') \<and> zs_ok out
    \<and> full_levels rs e a = Some z \<and> full_levels rs e' (zs_add_assign a da) = Some (zs_add_assign z out)"
  using assms(1,6,7)
proof (induction rs arbitrary: a da)
  case Nil
  then show ?case by (simp add: lefts_def)
next
  case (Cons r rs)
  let ?rp = "snd (body_predicates r)"
  have r: "rule_ok r" using Cons(2) by simp
  obtain z where z: "hj_apply_full r a (leaf e ?rp) = Some z" "zs_ok z" using hj.full [OF r] by blast
  obtain z' where z': "hj_apply_full r (zs_add_assign a da) (leaf e' ?rp) = Some z'" "zs_ok z'" using hj.full [OF r] by blast
  obtain dz where dz: "hj_apply_delta r a (leaf e ?rp) da (leaf d ?rp) = Some dz" "zs_ok dz" using hj.delta [OF r] by blast
  have eq: "z' = zs_add_assign z dz" by (rule hj.level_exact [OF r assms(2-5) Cons(3,4) z(1) z'(1) dz(1)])
  from Cons(1) [OF _ z(2) dz(2)] Cons(2) obtain state state' out w where
    "lefts rs e z = Some state" "lefts rs e' (zs_add_assign z dz) = Some state'"
    "stateful_levels rs e d state dz = Some (out, state')" "zs_ok out"
    "full_levels rs e z = Some w" "full_levels rs e' (zs_add_assign z dz) = Some (zs_add_assign w out)" by auto
  with z(1) z'(1) dz(1) eq show ?case by (simp add: lefts_Cons)
qed

definition state_ok :: "nary_plan \<Rightarrow> pred_extent \<Rightarrow> bool" where
  "state_ok plan e \<longleftrightarrow> np_joins plan = [] \<or> np_state plan = None \<or> np_state plan = cold_state (np_joins plan) e"

lemma cold_state_lefts:
  assumes "rule_ok r"
  shows "cold_state (r # rs) e = lefts rs e (the (hj_apply_full r (leaf e (fst (body_predicates r))) (leaf e (snd (body_predicates r)))))"
proof -
  obtain z where "hj_apply_full r (leaf e (fst (body_predicates r))) (leaf e (snd (body_predicates r))) = Some z"
    using hj.full [OF assms] by blast
  then show ?thesis by (cases rs) (auto simp: cold_state_def lefts_def case_prod_beta' map_conv_bind_option comp_def)
qed

lemma apply_delta_stateful_spec:
  assumes "plan_ok plan" and "pe_ok e" and "zs_ok d" and "state_ok plan e"
  shows "\<exists>out plan' z z'. apply_delta_stateful plan e d = Some (out, plan') \<and> np_joins plan' = np_joins plan
    \<and> state_ok plan' (pe_add_assign e d) \<and> zs_ok out \<and> apply_full plan e = Some z
    \<and> apply_full plan (pe_add_assign e d) = Some z' \<and> z' = zs_add_assign z out"
proof (cases "np_joins plan")
  case Nil
  with pe_add_assign_all(3,4) [OF assms(2,3)] assms(3) show ?thesis
    by (auto simp: apply_delta_stateful_def apply_full_def state_ok_def)
next
  case (Cons r rs)
  let ?e' = "pe_add_assign e d" and ?d = "pe_from_zset d"
  let ?lp = "fst (body_predicates r)" and ?rp = "snd (body_predicates r)"
  have r: "rule_ok r" and rs: "\<forall>r\<in>set rs. rule_ok r" using assms(1) Cons by (simp_all add: plan_ok_def)
  note pe = pe_add_assign_all(1-3) [OF assms(2,3)]
  obtain z where z: "hj_apply_full r (leaf e ?lp) (leaf e ?rp) = Some z" "zs_ok z" using hj.full [OF r] by blast
  obtain z' where z': "hj_apply_full r (leaf ?e' ?lp) (leaf ?e' ?rp) = Some z'" using hj.full [OF r] by blast
  obtain dz where dz: "hj_apply_delta r (leaf e ?lp) (leaf e ?rp) (leaf ?d ?lp) (leaf ?d ?rp) = Some dz" "zs_ok dz"
    using hj.delta [OF r] by blast
  have eq: "z' = zs_add_assign z dz" by (rule hj.bottom_exact [OF r assms(2) pe z(1) z' dz(1)])
  obtain state state' out w where l: "lefts rs e z = Some state" "lefts rs ?e' (zs_add_assign z dz) = Some state'"
    "stateful_levels rs e ?d state dz = Some (out, state')" "zs_ok out"
    "full_levels rs e z = Some w" "full_levels rs ?e' (zs_add_assign z dz) = Some (zs_add_assign w out)"
    using stateful_levels_spec [OF rs assms(2) pe z(2) dz(2)] by blast
  have cold: "cold_state (r # rs) e = Some state" "cold_state (r # rs) ?e' = Some state'"
    using l(1,2) eq by (simp_all add: cold_state_lefts [OF r] z(1) z')
  have "(case np_state plan of Some st \<Rightarrow> Some st | None \<Rightarrow> cold_state (r # rs) e) = Some state"
    using assms(4) Cons cold(1) by (auto simp: state_ok_def split: option.split)
  then have "apply_delta_stateful plan e d = Some (out, plan\<lparr>np_state := Some state'\<rparr>)"
    using Cons dz(1) l(3) by (simp add: apply_delta_stateful_def case_prod_beta')
  moreover have "apply_full plan e = Some w" "apply_full plan ?e' = Some (zs_add_assign w out)"
    using Cons z(1) z' l(5,6) eq by (simp_all add: apply_full_def case_prod_beta')
  ultimately show ?thesis using Cons cold(2) l(4) by (simp add: state_ok_def)
qed

text \<open>The stateless evaluation returns the same change.\<close>

lemma delta_levels_spec:
  assumes "\<forall>r\<in>set rs. rule_ok r" and "pe_ok e" "pe_ok d" "pe_ok e'" and "pe_all e' = zs_add_assign (pe_all e) (pe_all d)"
    and "zs_ok a" "zs_ok da"
  shows "\<exists>out z. delta_levels rs e d a da = Some out \<and> zs_ok out
    \<and> full_levels rs e a = Some z \<and> full_levels rs e' (zs_add_assign a da) = Some (zs_add_assign z out)"
  using assms(1,6,7)
proof (induction rs arbitrary: a da)
  case (Cons r rs)
  let ?rp = "snd (body_predicates r)"
  have r: "rule_ok r" using Cons(2) by simp
  obtain z where z: "hj_apply_full r a (leaf e ?rp) = Some z" "zs_ok z" using hj.full [OF r] by blast
  obtain z' where z': "hj_apply_full r (zs_add_assign a da) (leaf e' ?rp) = Some z'" "zs_ok z'" using hj.full [OF r] by blast
  obtain dz where dz: "hj_apply_delta r a (leaf e ?rp) da (leaf d ?rp) = Some dz" "zs_ok dz" using hj.delta [OF r] by blast
  have eq: "z' = zs_add_assign z dz" by (rule hj.level_exact [OF r assms(2-5) Cons(3,4) z(1) z'(1) dz(1)])
  from Cons(1) [OF _ z(2) dz(2)] Cons(2) z(1) z'(1) dz(1) eq show ?case by simp
qed simp

lemma plan_delta_spec:
  assumes "plan_ok plan" and "pe_ok e" and "zs_ok d"
  shows "\<exists>out z. apply_delta plan e d = Some out \<and> zs_ok out \<and> apply_full plan e = Some z
    \<and> apply_full plan (pe_add_assign e d) = Some (zs_add_assign z out)"
proof (cases "np_joins plan")
  case Nil
  with assms show ?thesis by (simp add: apply_delta_def apply_full_def pe_add_assign_all)
next
  case (Cons r rs)
  let ?e' = "pe_add_assign e d" and ?d = "pe_from_zset d"
  let ?lp = "fst (body_predicates r)" and ?rp = "snd (body_predicates r)"
  have r: "rule_ok r" and rs: "\<forall>r\<in>set rs. rule_ok r" using assms(1) Cons by (simp_all add: plan_ok_def)
  note pe = pe_add_assign_all(1-3) [OF assms(2,3)]
  obtain z where z: "hj_apply_full r (leaf e ?lp) (leaf e ?rp) = Some z" "zs_ok z" using hj.full [OF r] by blast
  obtain z' where z': "hj_apply_full r (leaf ?e' ?lp) (leaf ?e' ?rp) = Some z'" using hj.full [OF r] by blast
  obtain dz where dz: "hj_apply_delta r (leaf e ?lp) (leaf e ?rp) (leaf ?d ?lp) (leaf ?d ?rp) = Some dz" "zs_ok dz"
    using hj.delta [OF r] by blast
  have eq: "z' = zs_add_assign z dz" by (rule hj.bottom_exact [OF r assms(2) pe z(1) z' dz(1)])
  from delta_levels_spec [OF rs assms(2) pe z(2) dz(2)] z(1) z' dz(1) eq Cons show ?thesis
    by (auto simp: apply_delta_def apply_full_def case_prod_beta')
qed

section \<open>Counting derivations\<close>

text \<open>
  \<open>derives rs ts\<close> is the conclusion the joins \<open>rs\<close> draw from the body triples \<open>ts\<close>, one per leaf. On
  an extent that is a set the weight of a row is the number of its derivations.
\<close>

fun chain :: "hash_join_rule list \<Rightarrow> triple_id \<Rightarrow> triple_id list \<Rightarrow> triple_id option" where
  "chain [] h [] = Some h"
| "chain (r # rs) h (t # ts) = do { n \<leftarrow> joins r h t; chain rs n ts }"
| "chain _ h _ = None"

fun derives :: "hash_join_rule list \<Rightarrow> triple_id list \<Rightarrow> triple_id option" where
  "derives [] [t] = Some t"
| "derives (r # rs) (t # u # ts) = do { n \<leftarrow> joins r t u; chain rs n ts }"
| "derives _ _ = None"

definition derivations :: "hash_join_rule list \<Rightarrow> triple_id set \<Rightarrow> triple_id \<Rightarrow> triple_id list set" where
  "derivations rs S t = {ts. set ts \<subseteq> S \<and> derives rs ts = Some t}"

definition extent_of :: "pred_extent \<Rightarrow> triple_id set \<Rightarrow> bool" where
  "extent_of e S \<longleftrightarrow> pe_ok e \<and> finite S \<and> (\<forall>t. pe_get e t = (if t \<in> S then 1 else 0))"

lemma zs_sum_extent:
  assumes "extent_of e S"
  shows "zs_sum (pe_all e) f = (\<Sum>t\<in>S. f t)"
proof -
  have e: "zs_ok (pe_all e)" "finite S" "zs_get (pe_all e) t = (if t \<in> S then 1 else 0)" for t
    using assms unfolding extent_of_def pe_ok_def pe_get_def by blast+
  have "zs_sum (pe_all e) f = (\<Sum>t\<in>S. zs_get (pe_all e) t * f t)"
    by (rule zs_sum_over [OF e(1,2)]) (metis e(3))
  also have "\<dots> = (\<Sum>t\<in>S. f t)" by (rule sum.cong) (simp_all only: e(3) if_True mult_1)
  finally show ?thesis .
qed

text \<open>A weighted sum over a join is the weighted sum over the pairs it joins.\<close>

lemma zs_sum_join:
  assumes "zs_ok n" and "\<And>t. zs_get n t = join_weight comb a b t"
  shows "zs_sum n f = zs_sum a (\<lambda>x. zs_sum b (\<lambda>y. case comb x y of None \<Rightarrow> 0 | Some t \<Rightarrow> f t))"
proof -
  define U where "U = {t. \<exists>x\<in>fst ` set a. \<exists>y\<in>fst ` set b. comb x y = Some t}"
  have "U \<subseteq> (\<lambda>(x, y). the (comb x y)) ` (fst ` set a \<times> fst ` set b)" unfolding U_def by force
  then have fin: "finite U" by (rule finite_subset) simp
  have cong: "zs_sum z g = zs_sum z h" if "\<And>x. x \<in> fst ` set z \<Longrightarrow> g x = h x" for z :: "'x zset" and g h
    by (rule zs_sum_cong) (use that in force)
  have zero: "join_weight comb a b t = 0" if "t \<notin> U" for t
  proof -
    have "zs_sum b (\<lambda>y. if comb x y = Some t then 1 else 0) = zs_sum b (\<lambda>y. 0)" if "x \<in> fst ` set a" for x
      using \<open>t \<notin> U\<close> that by (intro cong) (auto simp: U_def)
    then have "join_weight comb a b t = zs_sum a (\<lambda>x. 0)" unfolding join_weight_def by (intro cong) simp
    then show ?thesis by simp
  qed
  have swap: "(\<Sum>t\<in>U. zs_sum z (\<lambda>x. g x t) * f t) = zs_sum z (\<lambda>x. \<Sum>t\<in>U. g x t * f t)" for z :: "'x zset" and g
    by (induction z) (auto simp: sum.distrib sum_distrib_left algebra_simps)
  have "zs_sum n f = (\<Sum>t\<in>U. join_weight comb a b t * f t)"
    using zs_sum_over [OF assms(1) fin] zero assms(2) by (metis (no_types, lifting) sum.cong)
  also have "\<dots> = zs_sum a (\<lambda>x. \<Sum>t\<in>U. zs_sum b (\<lambda>y. if comb x y = Some t then 1 else 0) * f t)"
    unfolding join_weight_def by (rule swap)
  also have "\<dots> = zs_sum a (\<lambda>x. zs_sum b (\<lambda>y. \<Sum>t\<in>U. (if comb x y = Some t then 1 else 0) * f t))"
    by (simp only: swap)
  also have "\<dots> = zs_sum a (\<lambda>x. zs_sum b (\<lambda>y. case comb x y of None \<Rightarrow> 0 | Some t \<Rightarrow> f t))"
  proof (intro cong)
    fix x y assume "x \<in> fst ` set a" "y \<in> fst ` set b"
    then have "comb x y = Some t \<Longrightarrow> t \<in> U" for t by (auto simp: U_def)
    then show "(\<Sum>t\<in>U. (if comb x y = Some t then 1 else 0) * f t) = (case comb x y of None \<Rightarrow> 0 | Some t \<Rightarrow> f t)"
      using fin by (cases "comb x y") (auto simp: if_distrib [of "\<lambda>c. c * _"] cong: if_cong)
  qed
  finally show ?thesis .
qed

lemma finite_chain: "finite S \<Longrightarrow> finite {ts. set ts \<subseteq> S \<and> chain rs h ts = Some t}"
proof -
  assume "finite S"
  have "chain rs h ts = Some t \<Longrightarrow> length ts = length rs" for ts
    by (induction rs h ts rule: chain.induct) (auto split: bind_splits)
  then have "{ts. set ts \<subseteq> S \<and> chain rs h ts = Some t} \<subseteq> {ts. set ts \<subseteq> S \<and> length ts = length rs}" by auto
  then show ?thesis by (rule finite_subset) (rule finite_lists_length_eq [OF \<open>finite S\<close>])
qed

lemma set_Cons_split:
  "set ts \<subseteq> S \<and> (\<exists>u us. ts = u # us \<and> P u us) \<longleftrightarrow> (\<exists>u us. ts = u # us \<and> u \<in> S \<and> set us \<subseteq> S \<and> P u us)"
  by auto

lemma card_step:
  assumes "finite S" and "\<And>n. finite {ts. set ts \<subseteq> S \<and> g n ts = Some (t :: triple_id)}"
  shows "int (card {ts. \<exists>u us. ts = u # us \<and> u \<in> S \<and> set us \<subseteq> S \<and> (do { n \<leftarrow> f u; g n us }) = Some t})
    = (\<Sum>u\<in>S. case f u of None \<Rightarrow> 0 | Some n \<Rightarrow> int (card {ts. set ts \<subseteq> S \<and> g n ts = Some t}))"
proof -
  let ?T = "\<lambda>u. case f u of None \<Rightarrow> {} | Some n \<Rightarrow> {ts. set ts \<subseteq> S \<and> g n ts = Some t}"
  have "{ts. \<exists>u us. ts = u # us \<and> u \<in> S \<and> set us \<subseteq> S \<and> (do { n \<leftarrow> f u; g n us }) = Some t}
      = (\<lambda>(u, us). u # us) ` (SIGMA u:S. ?T u)" by (force split: option.splits bind_splits)
  then have "card {ts. \<exists>u us. ts = u # us \<and> u \<in> S \<and> set us \<subseteq> S \<and> (do { n \<leftarrow> f u; g n us }) = Some t}
      = card (SIGMA u:S. ?T u)" by (simp add: card_image inj_on_def)
  also have "\<dots> = (\<Sum>u\<in>S. card (?T u))"
    using assms by (intro card_SigmaI) (auto split: option.split)
  finally show ?thesis by (auto intro!: sum.cong split: option.split)
qed

lemma full_levels_count:
  assumes "\<forall>r\<in>set rs. rule_ok r" and "extent_of e S" and "zs_ok a" and "full_levels rs e a = Some z"
  shows "zs_get z t = zs_sum a (\<lambda>h. int (card {ts. set ts \<subseteq> S \<and> chain rs h ts = Some t}))"
  using assms(1,3,4)
proof (induction rs arbitrary: a)
  case Nil
  have "{ts. set ts \<subseteq> S \<and> chain [] h ts = Some t} = (if h = t then {[]} else {})" for h
  proof -
    have "chain [] h ts = Some t \<longleftrightarrow> ts = [] \<and> h = t" for ts by (cases ts) simp_all
    then have "{ts. set ts \<subseteq> S \<and> chain [] h ts = Some t} = {ts. set ts \<subseteq> S \<and> ts = [] \<and> h = t}" by (simp only:)
    also have "\<dots> = (if h = t then {[]} else {})" by auto
    finally show ?thesis .
  qed
  then have "int (card {ts. set ts \<subseteq> S \<and> chain [] h ts = Some t}) = (if h = t then 1 else 0)" for h by simp
  with Nil show ?case by (simp add: zs_get_sum zs_sum_def if_distrib [of "\<lambda>c. _ * c"] cong: if_cong)
next
  case (Cons r rs)
  let ?rp = "snd (body_predicates r)"
  have r: "rule_ok r" and pe: "pe_ok e" using Cons(2) assms(2) by (simp_all add: extent_of_def)
  obtain n where n: "hj_apply_full r a (leaf e ?rp) = Some n" "full_levels rs e n = Some z"
    using Cons(4) by (auto split: bind_splits)
  have ok: "zs_ok n" and get: "zs_get n u = join_weight (joins r) a (pe_all e) u" for u
    using hj.full_get [OF r n(1)] by (simp_all only: hj.leaf_right [OF pe])
  have "zs_get z t = zs_sum n (\<lambda>h. int (card {ts. set ts \<subseteq> S \<and> chain rs h ts = Some t}))"
    by (rule Cons(1) [OF _ ok n(2)]) (use Cons(2) in simp)
  also have "\<dots> = zs_sum a (\<lambda>h. \<Sum>u\<in>S. case joins r h u of None \<Rightarrow> 0
      | Some m \<Rightarrow> int (card {ts. set ts \<subseteq> S \<and> chain rs m ts = Some t}))"
    by (simp only: zs_sum_join [OF ok get] zs_sum_extent [OF assms(2)])
  also have "\<dots> = zs_sum a (\<lambda>h. int (card {ts. set ts \<subseteq> S \<and> chain (r # rs) h ts = Some t}))"
  proof -
    have "{ts. set ts \<subseteq> S \<and> chain (r # rs) h ts = Some t}
        = {ts. \<exists>u us. ts = u # us \<and> u \<in> S \<and> set us \<subseteq> S \<and> (do { n \<leftarrow> joins r h u; chain rs n us }) = Some t}" for h
    proof -
      have "chain (r # rs) h ts = Some t \<longleftrightarrow> (\<exists>u us. ts = u # us \<and> (do { n \<leftarrow> joins r h u; chain rs n us }) = Some t)" for ts
        by (cases ts) simp_all
      then show ?thesis by (simp only: set_Cons_split)
    qed
    then show ?thesis using assms(2) by (simp only: card_step [OF _ finite_chain] extent_of_def)
  qed
  finally show ?case .
qed

lemma apply_full_count:
  assumes "plan_ok plan" and "extent_of e S" and "apply_full plan e = Some z"
  shows "zs_get z t = int (card (derivations (np_joins plan) S t))"
proof (cases "np_joins plan")
  case Nil
  have "derivations [] S t = (if t \<in> S then {[t]} else {})"
  proof -
    have "derives [] ts = Some t \<longleftrightarrow> ts = [t]" for ts by (cases "([] :: hash_join_rule list, ts)" rule: derives.cases) simp_all
    then have "derivations [] S t = {ts. set ts \<subseteq> S \<and> ts = [t]}" by (simp only: derivations_def)
    also have "\<dots> = (if t \<in> S then {[t]} else {})" by auto
    finally show ?thesis .
  qed
  moreover have "z = pe_all e" using Nil assms(3) by (simp add: apply_full_def)
  moreover have "pe_get e t = (if t \<in> S then 1 else 0)" using assms(2) unfolding extent_of_def by blast
  ultimately show ?thesis using Nil by (simp add: pe_get_def)
next
  case (Cons r rs)
  let ?lp = "fst (body_predicates r)" and ?rp = "snd (body_predicates r)"
  have r: "rule_ok r" "\<forall>r\<in>set rs. rule_ok r" and pe: "pe_ok e" and fin: "finite S"
    using assms(1,2) Cons by (simp_all add: plan_ok_def extent_of_def)
  obtain n where n: "hj_apply_full r (leaf e ?lp) (leaf e ?rp) = Some n" "full_levels rs e n = Some z"
    using assms(3) Cons by (auto simp: apply_full_def case_prod_beta' Let_def split: bind_splits)
  have ok: "zs_ok n" and get: "zs_get n u = join_weight (joins r) (pe_all e) (pe_all e) u" for u
    using hj.full_get [OF r(1) n(1)] by (simp_all only: hj.leaf_right [OF pe] hj.leaf_left [OF pe])
  let ?c = "\<lambda>h. int (card {ts. set ts \<subseteq> S \<and> chain rs h ts = Some t})"
  let ?g = "\<lambda>x ts. case ts of [] \<Rightarrow> None | u # us \<Rightarrow> (do { n \<leftarrow> joins r x u; chain rs n us })"
  have g: "{ts. set ts \<subseteq> S \<and> ?g x ts = Some t}
      = {ts. \<exists>u us. ts = u # us \<and> u \<in> S \<and> set us \<subseteq> S \<and> (do { n \<leftarrow> joins r x u; chain rs n us }) = Some t}" for x
  proof -
    have "?g x ts = Some t \<longleftrightarrow> (\<exists>u us. ts = u # us \<and> (do { n \<leftarrow> joins r x u; chain rs n us }) = Some t)" for ts
      by (cases ts) simp_all
    then show ?thesis by (simp only: set_Cons_split)
  qed
  have fg: "finite {ts. set ts \<subseteq> S \<and> ?g x ts = Some t}" for x
  proof -
    have "{ts. set ts \<subseteq> S \<and> ?g x ts = Some t} \<subseteq> {ts. set ts \<subseteq> S \<and> length ts = length (r # rs)}"
    proof safe
      fix ts assume "?g x ts = Some t"
      moreover have "chain rs' h us = Some t \<Longrightarrow> length us = length rs'" for rs' h us
        by (induction rs' h us rule: chain.induct) (auto split: bind_splits)
      ultimately show "length ts = length (r # rs)" by (auto split: list.splits bind_splits)
    qed
    then show ?thesis by (rule finite_subset) (rule finite_lists_length_eq [OF fin])
  qed
  have "derivations (r # rs) S t
      = {ts. \<exists>u us. ts = u # us \<and> u \<in> S \<and> set us \<subseteq> S \<and> (do { n \<leftarrow> Some u; ?g n us }) = Some t}"
  proof -
    have "derives (r # rs) ts = Some t \<longleftrightarrow> (\<exists>u us. ts = u # us \<and> ?g u us = Some t)" for ts
      by (cases "(r # rs, ts)" rule: derives.cases) simp_all
    then show ?thesis by (simp only: derivations_def set_Cons_split bind.bind_lunit)
  qed
  then have "int (card (derivations (r # rs) S t)) = (\<Sum>x\<in>S. int (card {ts. set ts \<subseteq> S \<and> ?g x ts = Some t}))"
    by (simp only: card_step [OF fin fg] option.case)
  also have "\<dots> = (\<Sum>x\<in>S. \<Sum>u\<in>S. case joins r x u of None \<Rightarrow> 0 | Some m \<Rightarrow> ?c m)"
    by (simp only: g card_step [OF fin finite_chain [OF fin]])
  also have "\<dots> = zs_sum n ?c" by (simp only: zs_sum_join [OF ok get] zs_sum_extent [OF assms(2)])
  also have "\<dots> = zs_get z t" by (rule full_levels_count [OF r(2) assms(2) ok n(2), symmetric])
  finally show ?thesis using Cons by simp
qed

section \<open>Plans are exact\<close>

text \<open>A plan over an extent that is a set of triples gives every row the number of its derivations, the lists of body triples from the extent that join to it.\<close>

theorem plan_counts_derivations:
  assumes "plan_ok plan" and "extent_of e S"
  shows "\<exists>z. apply_full plan e = Some z \<and> (\<forall>t. zs_get z t = int (card (derivations (np_joins plan) S t)))"
proof -
  have "pe_ok e" using assms(2) by (simp add: extent_of_def)
  then obtain z where "apply_full plan e = Some z" using apply_full_returns [OF assms(1)] by blast
  with apply_full_count [OF assms] show ?thesis by blast
qed


definition path_rule :: hash_join_rule where
  "path_rule = \<lparr>hj_id = 1, hj_left = mk_pattern (Var 0) (Bound 10) (Var 1), hj_right = mk_pattern (Var 1) (Bound 10) (Var 2),
     hj_head = mk_pattern (Var 0) (Bound 10) (Var 2)\<rparr>"

lemma path_rule_ok: "plan_ok (push_join path_rule np_new)" "state_ok (push_join path_rule np_new) e"
  by (auto simp: plan_ok_def push_join_def np_new_def rule_ok_def path_rule_def pattern_vars_def slots_def mk_pattern_def max_vars_def state_ok_def)

theorem plan_counts_derivations_witness:
  "\<exists>z. apply_full (push_join path_rule np_new) (pe_from_zset [((1, 10, 2), 1), ((2, 10, 3), 1)]) = Some z
    \<and> (\<forall>t. zs_get z t = int (card (derivations (np_joins (push_join path_rule np_new)) {(1, 10, 2), (2, 10, 3)} t)))"
proof (rule plan_counts_derivations [OF path_rule_ok(1)])
  have ok: "zs_ok [((1, 10, 2) :: triple_id, 1), ((2, 10, 3), 1)]" by (simp add: zs_ok_def bt_ok_def)
  show "extent_of (pe_from_zset [((1, 10, 2), 1), ((2, 10, 3), 1)]) {(1, 10, 2), (2, 10, 3)}"
    using pe_from_zset_spec [OF ok] by (simp add: extent_of_def zs_get_Cons)
qed


end
