(* ===== verification/Closure_Plan.thy ===== *)
theory Closure_Plan imports Zset Incremental_Backend begin

text \<open>
  \<^verbatim>\<open>crates/incremental/src/closure_plan.rs\<close>: the closure operator of one transitive predicate inside
  the incremental circuit, a wrapper that maps triples to the edges of the incremental closure backend
  and its deltas back to triples.
\<close>

section \<open>State and operations\<close>

record closure_retract_delta =
  crd_withdraw :: "triple_id list"
  crd_promote :: "triple_id list"

record closure_rule =
  cr_predicate :: u64
  cr_backend :: incremental_backend

definition cr_new :: "u64 \<Rightarrow> closure_rule" where
  "cr_new p = \<lparr>cr_predicate = p, cr_backend = be_new\<rparr>"

definition cr_seed_closed_edges :: "(u64 \<times> u64) list \<Rightarrow> closure_rule \<Rightarrow> closure_rule" where
  "cr_seed_closed_edges closed_edges r =
     r\<lparr>cr_backend := seed_transitive_closure (cr_predicate r) closed_edges (cr_backend r)\<rparr>"

definition cr_seed_base_edges :: "u64 iter_order \<Rightarrow> (u64 \<times> u64) list \<Rightarrow> closure_rule \<Rightarrow> closure_rule" where
  "cr_seed_base_edges h es r = r\<lparr>cr_backend := seed_base_edges h (cr_predicate r) es (cr_backend r)\<rparr>"

text \<open>The collecting sink: it never fails and keeps every triple written.\<close>

definition vec_sink :: "triple_id list triple_sink" where
  "vec_sink collected ts = (Inr (of_nat (length ts)), collected @ ts)"

definition cr_edges :: "(int \<Rightarrow> bool) \<Rightarrow> u64 \<Rightarrow> triple_id zset \<Rightarrow> (u64 \<times> u64) list" where
  "cr_edges keep p delta = map (\<lambda>((s, q, ob), m). (s, ob)) (filter (\<lambda>((s, q, ob), m). q = p \<and> keep m) delta)"

definition apply_insert_delta ::
  "u64 iter_order \<Rightarrow> triple_id zset \<Rightarrow> closure_rule \<Rightarrow> (triple_id list \<times> closure_rule) option" where
  "apply_insert_delta h asserted_delta r =
     (let edges = cr_edges (\<lambda>m. m > 0) (cr_predicate r) asserted_delta in
      if edges = [] then Some ([], r)
      else case insert_transitive_edges h (cr_predicate r) edges vec_sink [] (cr_backend r) of
        (Inl e, collected, b) \<Rightarrow> None
      | (Inr n, collected, b) \<Rightarrow> Some (collected, r\<lparr>cr_backend := b\<rparr>))"

definition apply_retract_delta ::
  "u64 iter_order \<Rightarrow> triple_id zset \<Rightarrow> closure_rule \<Rightarrow> closure_retract_delta \<times> closure_rule" where
  "apply_retract_delta h asserted_delta r =
     (let edges = cr_edges (\<lambda>m. m < 0) (cr_predicate r) asserted_delta in
      if edges = [] then (\<lparr>crd_withdraw = [], crd_promote = []\<rparr>, r)
      else let (outcome, b) = delete_transitive_edges h (cr_predicate r) edges (cr_backend r);
               p = cr_predicate r
           in (\<lparr>crd_withdraw = map (\<lambda>(s, ob). (s, p, ob)) (withdrawn outcome),
                crd_promote = map (\<lambda>(s, ob). (s, p, ob)) (survived outcome)\<rparr>, r\<lparr>cr_backend := b\<rparr>))"

section \<open>What the operator maintains\<close>

text \<open>
  A rule stands for the base edges of its predicate, \<open>cr_base\<close>, and the triples of their transitive
  closure, \<open>cr_closed\<close>. Insertion reports what the closure gains, retraction what it loses and which of
  the removed edges it still entails.
\<close>

definition cr_ok :: "closure_rule \<Rightarrow> bool" where
  "cr_ok r \<longleftrightarrow> be_ok (cr_backend r)"

definition cr_base :: "closure_rule \<Rightarrow> (u64 \<times> u64) set" where
  "cr_base r = base_of (cr_backend r) (cr_predicate r)"

definition triples_of :: "u64 \<Rightarrow> (u64 \<times> u64) set \<Rightarrow> triple_id set" where
  "triples_of p R = {(s, q, ob). q = p \<and> (s, ob) \<in> R}"

definition edges_at :: "u64 \<Rightarrow> triple_id set \<Rightarrow> (u64 \<times> u64) set" where
  "edges_at p S = {(s, ob). (s, p, ob) \<in> S}"

lemma triples_of_iff [simp]: "(s, q, ob) \<in> triples_of p R \<longleftrightarrow> q = p \<and> (s, ob) \<in> R"
  by (simp add: triples_of_def)

lemma triples_of_diff: "triples_of p (R - S) = triples_of p R - triples_of p S"
  by auto

lemma triples_of_edges: "triples_of p (edges_at p S) = {t \<in> S. predicate_of t = p}"
  by (auto simp: edges_at_def)

lemma set_cr_edges: "set (cr_edges keep p delta) = {(s, ob). \<exists>m. ((s, p, ob), m) \<in> set delta \<and> keep m}"
  by (force simp: cr_edges_def)

lemma cr_new_ok [simp]: "cr_ok (cr_new p)" "cr_base (cr_new p) = {}"
  using be_new_ok by (simp_all add: cr_ok_def cr_new_def cr_base_def base_of_def be_new_def)

lemma apply_insert_delta_spec:
  fixes d :: "triple_id zset"
  assumes "cr_ok r"
  defines "R \<equiv> cr_base r" and "N \<equiv> set (cr_edges (\<lambda>m. m > 0) (cr_predicate r) d)"
  shows "\<exists>ts r'. apply_insert_delta h d r = Some (ts, r') \<and> cr_ok r' \<and> cr_predicate r' = cr_predicate r
    \<and> cr_base r' = R \<union> N \<and> distinct ts
    \<and> set ts = triples_of (cr_predicate r) ((R \<union> N)\<^sup>+ - R\<^sup>+)"
proof (cases "cr_edges (\<lambda>m. m > 0) (cr_predicate r) d = []")
  case True
  then show ?thesis using assms(1) by (simp add: apply_insert_delta_def N_def R_def triples_of_def)
next
  case False
  let ?p = "cr_predicate r" and ?es = "cr_edges (\<lambda>m. m > 0) (cr_predicate r) d"
  obtain res k b where ins: "insert_transitive_edges h ?p ?es vec_sink [] (cr_backend r) = (res, k, b)"
    by (cases "insert_transitive_edges h ?p ?es vec_sink [] (cr_backend r)")
  note exact = insert_transitive_edges_spec [OF assms(1) [unfolded cr_ok_def] ins, folded cr_base_def, folded R_def N_def]
  show ?thesis
  proof (cases "(R \<union> N)\<^sup>+ = R\<^sup>+")
    case True
    with exact have "res = Inr 0 \<and> k = [] \<and> base_of b ?p = R \<union> N \<and> be_ok b" by simp
    with False ins True show ?thesis
      by (simp add: apply_insert_delta_def cr_ok_def cr_base_def triples_of_def)
  next
    case ne: False
    with exact obtain ts where ts: "distinct ts" "set ts = {(s, q, ob). q = ?p \<and> (s, ob) \<in> (R \<union> N)\<^sup>+ - R\<^sup>+}"
      "vec_sink [] ts = (res, k)" "base_of b ?p = (case res of Inl e \<Rightarrow> R | Inr n \<Rightarrow> R \<union> N)" "be_ok b" by auto
    from ts(3) have "res = Inr (of_nat (length ts))" "k = ts" by (auto simp: vec_sink_def)
    with False ins ts show ?thesis
      by (simp add: apply_insert_delta_def cr_ok_def cr_base_def triples_of_def)
  qed
qed

lemma apply_retract_delta_spec:
  assumes "cr_ok r" and "apply_retract_delta h d r = (out, r')"
  defines "R \<equiv> cr_base r" and "N \<equiv> set (cr_edges (\<lambda>m. m < 0) (cr_predicate r) d)"
  shows "cr_ok r' \<and> cr_predicate r' = cr_predicate r \<and> cr_base r' = R - N
    \<and> set (crd_withdraw out) = triples_of (cr_predicate r) (R\<^sup>+ - (R - N)\<^sup>+)
    \<and> set (crd_promote out) = triples_of (cr_predicate r) (N \<inter> R \<inter> (R - N)\<^sup>+)"
proof (cases "cr_edges (\<lambda>m. m < 0) (cr_predicate r) d = []")
  case True
  then show ?thesis using assms(1,2) by (auto simp: apply_retract_delta_def N_def R_def triples_of_def)
next
  case False
  let ?p = "cr_predicate r" and ?es = "cr_edges (\<lambda>m. m < 0) (cr_predicate r) d"
  obtain outcome b where del: "delete_transitive_edges h ?p ?es (cr_backend r) = (outcome, b)"
    by (cases "delete_transitive_edges h ?p ?es (cr_backend r)")
  note exact = delete_transitive_edges_spec [OF assms(1) [unfolded cr_ok_def] del, folded cr_base_def, folded R_def N_def]
  have image: "(\<lambda>(s, ob). (s, ?p, ob)) ` E = triples_of ?p E" for E
    by (force simp: triples_of_def)
  from assms(2) False del have "crd_withdraw out = map (\<lambda>(s, ob). (s, ?p, ob)) (withdrawn outcome)"
    "crd_promote out = map (\<lambda>(s, ob). (s, ?p, ob)) (survived outcome)" "r' = r\<lparr>cr_backend := b\<rparr>"
    by (auto simp: apply_retract_delta_def Let_def)
  with exact image show ?thesis by (simp add: cr_ok_def cr_base_def)
qed

end
