(* ===== verification/Circuit.thy ===== *)
theory Circuit imports Nary_Plan Closure_Plan begin

text \<open>
  The incremental circuit of \<^verbatim>\<open>crates/incremental\<close>: the pending log (\<^verbatim>\<open>delta_log.rs\<close>), the
  collapsing merge (\<^verbatim>\<open>checkpoint.rs\<close>) and the tick driver (\<^verbatim>\<open>circuit.rs\<close>) with its insertion fixpoint,
  its two-phase retraction fixpoint, the two closure passes, the recompute fallback and the net feed
  flush. A circuit without an attached store is modelled, so nothing is logged durably. A panic is
  \<open>None\<close>; a round loop runs on its remaining number of rounds, \<^verbatim>\<open>MAX_FIXPOINT_ROUNDS\<close>.
\<close>

section \<open>Records and the pending log\<close>

type_synonym rule_id = "32 word"
type_synonym logical_time = u64

datatype derivation_kind = Asserted | Rule_Inferred rule_id | Closure_Inferred

text \<open>Variants sort in declaration order, \<open>Rule_Inferred\<close> by rule.\<close>

fun kind_rank :: "derivation_kind \<Rightarrow> nat \<times> rule_id" where
  "kind_rank Asserted = (0, 0)"
| "kind_rank (Rule_Inferred r) = (1, r)"
| "kind_rank Closure_Inferred = (2, 0)"

lemma kind_rank_inject: "kind_rank a = kind_rank b \<longleftrightarrow> a = b"
  by (cases a; cases b) auto

instantiation derivation_kind :: linorder
begin

definition less_eq_derivation_kind :: "derivation_kind \<Rightarrow> derivation_kind \<Rightarrow> bool" where
  "less_eq_derivation_kind a b \<longleftrightarrow> kind_rank a \<le> kind_rank b"

definition less_derivation_kind :: "derivation_kind \<Rightarrow> derivation_kind \<Rightarrow> bool" where
  "less_derivation_kind a b \<longleftrightarrow> kind_rank a < kind_rank b"

instance
proof
  fix x y z :: derivation_kind
  show "x < y \<longleftrightarrow> x \<le> y \<and> \<not> y \<le> x"
    unfolding less_eq_derivation_kind_def less_derivation_kind_def by (rule less_le_not_le)
  show "x \<le> x" unfolding less_eq_derivation_kind_def by (rule order_refl)
  show "x \<le> y \<Longrightarrow> y \<le> z \<Longrightarrow> x \<le> z" unfolding less_eq_derivation_kind_def by (rule order_trans)
  show "x \<le> y \<Longrightarrow> y \<le> x \<Longrightarrow> x = y"
    unfolding less_eq_derivation_kind_def kind_rank_inject [symmetric] by (rule antisym)
  show "x \<le> y \<or> y \<le> x" unfolding less_eq_derivation_kind_def by (rule linear)
qed

end

record delta_record =
  dr_triple :: triple_id
  dr_mult :: int
  dr_time :: logical_time
  dr_kind :: derivation_kind

fun kind_tag :: "derivation_kind \<Rightarrow> u64" where
  "kind_tag Asserted = 0"
| "kind_tag Closure_Inferred = 1"
| "kind_tag (Rule_Inferred r) = 2 + ucast r"

definition kind_from_tag :: "u64 \<Rightarrow> derivation_kind" where
  "kind_from_tag tag = (if tag = 0 then Asserted else if tag = 1 then Closure_Inferred else Rule_Inferred (ucast (tag - 2)))"

definition next_after :: "logical_time \<Rightarrow> logical_time option" where
  "next_after time = (if time = - 1 then None else Some (time + 1))"

record delta_log =
  dl_records :: "delta_record list"
  dl_next_time :: logical_time

definition dl_new :: delta_log where
  "dl_new = \<lparr>dl_records = [], dl_next_time = 0\<rparr>"

definition dl_push :: "delta_record \<Rightarrow> delta_log \<Rightarrow> delta_log option" where
  "dl_push rec l = do {
     n \<leftarrow> next_after (dl_next_time l);
     Some (l\<lparr>dl_records := dl_records l @ [rec], dl_next_time := n\<rparr>) }"

definition dl_append :: "triple_id \<Rightarrow> int \<Rightarrow> derivation_kind \<Rightarrow> delta_log \<Rightarrow> delta_log option" where
  "dl_append t m kind l =
     dl_push \<lparr>dr_triple = t, dr_mult = m, dr_time = dl_next_time l, dr_kind = kind\<rparr> l"

record input_record =
  ir_seq :: u64
  ir_triple :: triple_id
  ir_mult :: int
  ir_kind_tag :: u64

definition append_recovered :: "input_record \<Rightarrow> delta_log \<Rightarrow> delta_log option" where
  "append_recovered rec l = do {
     n \<leftarrow> next_after (ir_seq rec);
     Some (l\<lparr>dl_records := dl_records l @ [\<lparr>dr_triple = ir_triple rec, dr_mult = ir_mult rec, dr_time = ir_seq rec,
               dr_kind = kind_from_tag (ir_kind_tag rec)\<rparr>],
             dl_next_time := max (dl_next_time l) n\<rparr>) }"

definition take_pending :: "delta_log \<Rightarrow> delta_log \<times> delta_log" where
  "take_pending l = (l, l\<lparr>dl_records := []\<rparr>)"

definition checkpoint_merge :: "triple_id zset \<Rightarrow> delta_log \<Rightarrow> nat \<times> triple_id zset" where
  "checkpoint_merge z l =
     (length (dl_records l), fold (\<lambda>rec. zs_add (dr_triple rec) (dr_mult rec)) (dl_records l) z)"

section \<open>Circuit state\<close>

definition max_fixpoint_rounds :: nat where
  "max_fixpoint_rounds = 4096"

type_synonym 'a bset = "('a, unit) btree"

abbreviation bset_insert :: "'a::linorder \<Rightarrow> 'a bset \<Rightarrow> 'a bset" where
  "bset_insert x S \<equiv> bt_insert x () S"

definition bset_contains :: "'a bset \<Rightarrow> 'a \<Rightarrow> bool" where
  "bset_contains S x \<longleftrightarrow> bt_get S x = Some ()"

type_synonym weights = "(rule_id, int) btree"

record circuit =
  asserted_base :: "triple_id zset"
  derived_base :: "triple_id zset"
  input_log :: delta_log
  plans :: "(nary_plan \<times> rule_id) list"
  closure_plans :: "closure_rule list"
  feed :: "delta_record list"
  pending_derived :: "(triple_id \<times> derivation_kind) zset"
  derived_clock :: logical_time
  rule_attr :: "(triple_id, rule_id) btree"
  closure_support :: "triple_id bset"
  rule_weights :: "(triple_id, weights) btree"
  extent :: pred_extent
  recompute_fallback :: bool

definition with_fallback :: "bool \<Rightarrow> circuit" where
  "with_fallback b = \<lparr>asserted_base = zs_new, derived_base = zs_new, input_log = dl_new, plans = [],
     closure_plans = [], feed = [], pending_derived = zs_new, derived_clock = 0, rule_attr = [],
     closure_support = [], rule_weights = [], extent = pe_new, recompute_fallback = b\<rparr>"

definition circuit_new :: circuit where
  "circuit_new = with_fallback False"

definition new_with_recompute_fallback :: circuit where
  "new_with_recompute_fallback = with_fallback True"

definition add_plan :: "nary_plan \<Rightarrow> rule_id \<Rightarrow> circuit \<Rightarrow> circuit" where
  "add_plan plan rid c = c\<lparr>plans := plans c @ [(plan, rid)]\<rparr>"

definition add_closure_plan :: "closure_rule \<Rightarrow> circuit \<Rightarrow> circuit" where
  "add_closure_plan r c = c\<lparr>closure_plans := closure_plans c @ [r]\<rparr>"

definition assert_triple :: "triple_id \<Rightarrow> circuit \<Rightarrow> circuit option" where
  "assert_triple t c = do { l \<leftarrow> dl_append t 1 Asserted (input_log c); Some (c\<lparr>input_log := l\<rparr>) }"

definition retract_triple :: "triple_id \<Rightarrow> circuit \<Rightarrow> circuit option" where
  "retract_triple t c = do { l \<leftarrow> dl_append t (- 1) Asserted (input_log c); Some (c\<lparr>input_log := l\<rparr>) }"

section \<open>Presence, weights and emissions\<close>

definition base_presence :: "circuit \<Rightarrow> triple_id \<Rightarrow> bool" where
  "base_presence c t \<longleftrightarrow> zs_get (asserted_base c) t > 0 \<or> zs_get (derived_base c) t > 0"

definition materialize_presence :: "circuit \<Rightarrow> triple_id zset" where
  "materialize_presence c =
     fold (\<lambda>(t, m) z. if m > 0 \<and> zs_get z t = 0 then zs_add t 1 z else z) (derived_base c)
       (fold (\<lambda>(t, m) z. if m > 0 then zs_add t 1 z else z) (asserted_base c) zs_new)"

definition sum_weights :: "weights \<Rightarrow> int" where
  "sum_weights w = sum_list (map snd w)"

definition total_weight :: "circuit \<Rightarrow> triple_id \<Rightarrow> int" where
  "total_weight c t = (case bt_get (rule_weights c) t of None \<Rightarrow> 0 | Some w \<Rightarrow> sum_weights w)"

definition first_attr_rule :: "circuit \<Rightarrow> triple_id \<Rightarrow> rule_id option" where
  "first_attr_rule c t = (case bt_get (rule_weights c) t of None \<Rightarrow> None
     | Some w \<Rightarrow> map_option fst (find (\<lambda>(rid, m). m > 0) w))"

definition note_presence_change :: "circuit \<Rightarrow> triple_id \<Rightarrow> triple_id zset \<Rightarrow> triple_id zset" where
  "note_presence_change c t delta =
     (let now = zs_get (asserted_base c) t > 0 \<or> zs_get (derived_base c) t > 0;
          pending = pe_get (extent c) t + zs_get delta t > 0
      in if now \<and> \<not> pending then zs_add t 1 delta
         else if \<not> now \<and> pending then zs_add t (- 1) delta else delta)"

definition emit_derived :: "triple_id \<Rightarrow> int \<Rightarrow> derivation_kind \<Rightarrow> circuit \<Rightarrow> circuit" where
  "emit_derived t m kind c = c\<lparr>pending_derived := zs_add (t, kind) m (pending_derived c)\<rparr>"

fun publish_nets :: "((triple_id \<times> derivation_kind) \<times> int) list \<Rightarrow> circuit \<Rightarrow> circuit option" where
  "publish_nets [] c = Some c"
| "publish_nets (((t, kind), m) # nets) c = do {
     clock \<leftarrow> next_after (derived_clock c);
     publish_nets nets (c\<lparr>derived_clock := clock,
       feed := feed c @ [\<lparr>dr_triple = t, dr_mult = m, dr_time = derived_clock c, dr_kind = kind\<rparr>]\<rparr>) }"

definition flush_derived_feed :: "circuit \<Rightarrow> (nat \<times> circuit) option" where
  "flush_derived_feed c = do {
     c' \<leftarrow> publish_nets (pending_derived c) (c\<lparr>pending_derived := zs_new\<rparr>);
     Some (zs_len (pending_derived c), c') }"

definition materialize_rule_row :: "triple_id \<Rightarrow> rule_id \<Rightarrow> circuit \<Rightarrow> circuit" where
  "materialize_rule_row t rid c =
     emit_derived t 1 (Rule_Inferred rid)
       (c\<lparr>derived_base := zs_add t 1 (derived_base c), rule_attr := bt_insert t rid (rule_attr c)\<rparr>)"

definition withdraw_derived_row :: "triple_id \<Rightarrow> derivation_kind \<Rightarrow> circuit \<Rightarrow> circuit" where
  "withdraw_derived_row t kind c =
     (let cur = zs_get (derived_base c) t in
      emit_derived t (- 1) kind
        (if cur \<noteq> 0 then c\<lparr>derived_base := zs_add t (- cur) (derived_base c)\<rparr> else c))"

section \<open>One round\<close>

type_synonym merged = "(triple_id, (rule_id \<times> int) list) btree"

definition merge_entry :: "rule_id \<Rightarrow> triple_id \<times> int \<Rightarrow> merged \<Rightarrow> merged" where
  "merge_entry rid e acc = (case e of (t, m) \<Rightarrow>
     bt_insert t ((case bt_get acc t of None \<Rightarrow> [] | Some xs \<Rightarrow> xs) @ [(rid, m)]) acc)"

definition merge_raw :: "rule_id \<Rightarrow> triple_id zset \<Rightarrow> merged \<Rightarrow> merged" where
  "merge_raw rid raw acc = fold (merge_entry rid) raw acc"

fun round_plans ::
  "(nary_plan \<times> rule_id) list \<Rightarrow> pred_extent \<Rightarrow> triple_id zset \<Rightarrow> merged
     \<Rightarrow> ((nary_plan \<times> rule_id) list \<times> merged) option" where
  "round_plans [] ext delta acc = Some ([], acc)"
| "round_plans ((plan, rid) # ps) ext delta acc = do {
     (raw, plan') \<leftarrow> apply_delta_stateful plan ext delta;
     (ps', acc') \<leftarrow> round_plans ps ext delta (merge_raw rid raw acc);
     Some ((plan', rid) # ps', acc') }"

definition fixpoint_round :: "triple_id zset \<Rightarrow> circuit \<Rightarrow> (merged \<times> circuit) option" where
  "fixpoint_round round_delta c = do {
     (ps, acc) \<leftarrow> round_plans (plans c) (extent c) round_delta [];
     Some (acc, c\<lparr>plans := ps, extent := pe_add_assign (extent c) round_delta\<rparr>) }"

definition add_weight :: "rule_id \<times> int \<Rightarrow> weights \<Rightarrow> weights" where
  "add_weight e per_rule = (case e of (rid, dm) \<Rightarrow>
     (let w = (case bt_get per_rule rid of None \<Rightarrow> 0 | Some w \<Rightarrow> w) + dm
      in if w = 0 then bt_remove rid per_rule else bt_insert rid w per_rule))"

definition apply_weight_deltas :: "triple_id \<Rightarrow> (rule_id \<times> int) list \<Rightarrow> circuit \<Rightarrow> int \<times> int \<times> circuit" where
  "apply_weight_deltas t deltas c =
     (let old_total = total_weight c t;
          per_rule = fold add_weight deltas (case bt_get (rule_weights c) t of None \<Rightarrow> [] | Some w \<Rightarrow> w);
          c1 = c\<lparr>rule_weights := bt_insert t per_rule (rule_weights c)\<rparr>;
          new_total = total_weight c1 t
      in (old_total, new_total,
          if new_total = 0 then c1\<lparr>rule_weights := bt_remove t (rule_weights c1)\<rparr> else c1))"

section \<open>Insertion fixpoint\<close>

fun insertion_rows :: "merged \<Rightarrow> circuit \<Rightarrow> triple_id zset \<Rightarrow> (circuit \<times> triple_id zset) option" where
  "insertion_rows [] c next_delta = Some (c, next_delta)"
| "insertion_rows ((t, deltas) # acc) c next_delta =
     (let (old_total, new_total, c1) = apply_weight_deltas t deltas c in
      if old_total \<le> 0 \<and> new_total > 0 \<and> zs_get (asserted_base c1) t \<le> 0 \<and> zs_get (derived_base c1) t = 0
      then do {
        rid \<leftarrow> first_attr_rule c1 t;
        let c2 = materialize_rule_row t rid c1;
        insertion_rows acc c2 (note_presence_change c2 t next_delta) }
      else insertion_rows acc c1 next_delta)"

fun insertion_rounds :: "nat \<Rightarrow> triple_id zset \<Rightarrow> circuit \<Rightarrow> circuit option" where
  "insertion_rounds 0 round_delta c = (if zs_is_empty round_delta then Some c else None)"
| "insertion_rounds (Suc n) round_delta c =
     (if zs_is_empty round_delta then Some c
      else do {
        (acc, c1) \<leftarrow> fixpoint_round round_delta c;
        (c2, next_delta) \<leftarrow> insertion_rows acc c1 zs_new;
        insertion_rounds n next_delta c2 })"

definition run_insertion_fixpoint :: "triple_id zset \<Rightarrow> circuit \<Rightarrow> circuit option" where
  "run_insertion_fixpoint init_delta c = insertion_rounds max_fixpoint_rounds init_delta c"

section \<open>Two-phase retraction fixpoint\<close>

record retraction_state =
  rs_candidates :: "triple_id bset"
  rs_touched :: "triple_id bset"

fun split_seeds ::
  "(triple_id \<times> int) list \<Rightarrow> circuit \<Rightarrow> triple_id zset \<Rightarrow> triple_id zset \<Rightarrow> retraction_state
     \<Rightarrow> triple_id zset \<times> triple_id zset \<times> retraction_state" where
  "split_seeds [] c r1 r2 s = (r1, r2, s)"
| "split_seeds ((t, m) # es) c r1 r2 s =
     (if m < 0
      then split_seeds es c (zs_add t m r1) r2
        (if total_weight c t > 0
         then s\<lparr>rs_candidates := bset_insert t (rs_candidates s), rs_touched := bset_insert t (rs_touched s)\<rparr> else s)
      else split_seeds es c r1 (zs_add t m r2) s)"

text \<open>R1: every row that loses a one-step derivation becomes a candidate.\<close>

fun overdelete_rows ::
  "merged \<Rightarrow> circuit \<Rightarrow> retraction_state \<Rightarrow> triple_id zset \<Rightarrow> circuit \<times> retraction_state \<times> triple_id zset" where
  "overdelete_rows [] c s next_delta = (c, s, next_delta)"
| "overdelete_rows ((t, deltas) # acc) c s next_delta =
     (let (old_total, new_total, c1) = apply_weight_deltas t deltas c;
          s1 = s\<lparr>rs_touched := bset_insert t (rs_touched s)\<rparr>
      in if new_total < old_total \<and> \<not> bset_contains (rs_candidates s1) t
            \<and> zs_get (asserted_base c1) t \<le> 0 \<and> \<not> bset_contains (closure_support c1) t
         then overdelete_rows acc c1 (s1\<lparr>rs_candidates := bset_insert t (rs_candidates s1)\<rparr>)
                (if pe_get (extent c1) t + zs_get next_delta t > 0 then zs_add t (- 1) next_delta else next_delta)
         else overdelete_rows acc c1 s1 next_delta)"

fun overdelete_rounds ::
  "nat \<Rightarrow> triple_id zset \<Rightarrow> circuit \<Rightarrow> retraction_state \<Rightarrow> (circuit \<times> retraction_state) option" where
  "overdelete_rounds 0 round_delta c s = (if zs_is_empty round_delta then Some (c, s) else None)"
| "overdelete_rounds (Suc n) round_delta c s =
     (if zs_is_empty round_delta then Some (c, s)
      else do {
        (acc, c1) \<leftarrow> fixpoint_round round_delta c;
        let (c2, s2, next_delta) = overdelete_rows acc c1 s zs_new;
        overdelete_rounds n next_delta c2 s2 })"

text \<open>Candidates with support left over the surviving extent are seeded again.\<close>

definition reseed :: "circuit \<Rightarrow> triple_id bset \<Rightarrow> triple_id zset \<Rightarrow> triple_id zset" where
  "reseed c candidates seed = fold (\<lambda>(t, u) seed.
     if total_weight c t > 0 \<and> pe_get (extent c) t + zs_get seed t \<le> 0 then zs_add t 1 seed else seed)
     candidates seed"

text \<open>R2: re-derivation.\<close>

fun rederive_rows ::
  "merged \<Rightarrow> circuit \<Rightarrow> retraction_state \<Rightarrow> triple_id zset \<Rightarrow> circuit \<times> retraction_state \<times> triple_id zset" where
  "rederive_rows [] c s next_delta = (c, s, next_delta)"
| "rederive_rows ((t, deltas) # acc) c s next_delta =
     (let (old_total, new_total, c1) = apply_weight_deltas t deltas c;
          s1 = s\<lparr>rs_touched := bset_insert t (rs_touched s)\<rparr>
      in rederive_rows acc c1 s1
           (if old_total \<le> 0 \<and> new_total > 0 \<and> pe_get (extent c1) t + zs_get next_delta t \<le> 0
            then zs_add t 1 next_delta else next_delta))"

fun rederive_rounds ::
  "nat \<Rightarrow> triple_id zset \<Rightarrow> circuit \<Rightarrow> retraction_state \<Rightarrow> (circuit \<times> retraction_state) option" where
  "rederive_rounds 0 round_delta c s = (if zs_is_empty round_delta then Some (c, s) else None)"
| "rederive_rounds (Suc n) round_delta c s =
     (if zs_is_empty round_delta then Some (c, s)
      else do {
        (acc, c1) \<leftarrow> fixpoint_round round_delta c;
        let (c2, s2, next_delta) = rederive_rows acc c1 s zs_new;
        rederive_rounds n next_delta c2 s2 })"

definition net_transition :: "triple_id \<Rightarrow> circuit \<Rightarrow> circuit option" where
  "net_transition t c =
     (let new_total = total_weight c t;
          was_attr = (bt_get (rule_attr c) t \<noteq> None);
          covered = (zs_get (asserted_base c) t > 0 \<or> bset_contains (closure_support c) t);
          in_extent = pe_get (extent c) t > 0;
          should = (new_total > 0 \<and> in_extent \<and> (was_attr \<or> \<not> covered))
      in if should then do {
           rid \<leftarrow> first_attr_rule c t;
           Some (if was_attr then c\<lparr>rule_attr := bt_insert t rid (rule_attr c)\<rparr>
                 else materialize_rule_row t rid c) }
         else case bt_get (rule_attr c) t of
           Some rid \<Rightarrow> let c1 = c\<lparr>rule_attr := bt_remove t (rule_attr c)\<rparr> in
             Some (if bset_contains (closure_support c1) t then c1
                   else withdraw_derived_row t (Rule_Inferred rid) c1)
         | None \<Rightarrow> Some c)"

fun net_transitions :: "(triple_id \<times> unit) list \<Rightarrow> circuit \<Rightarrow> circuit option" where
  "net_transitions [] c = Some c"
| "net_transitions ((t, u) # touched) c = do { c1 \<leftarrow> net_transition t c; net_transitions touched c1 }"

definition run_two_phase_fixpoint :: "triple_id zset \<Rightarrow> circuit \<Rightarrow> circuit option" where
  "run_two_phase_fixpoint init_delta c = do {
     let (r1_seed, r2_seed, s) = split_seeds init_delta c zs_new zs_new \<lparr>rs_candidates = [], rs_touched = []\<rparr>;
     (c1, s1) \<leftarrow> overdelete_rounds max_fixpoint_rounds r1_seed c s;
     (c2, s2) \<leftarrow> rederive_rounds max_fixpoint_rounds (reseed c1 (rs_candidates s1) r2_seed) c1 s1;
     net_transitions (rs_touched s2) c2 }"

section \<open>Closure passes\<close>

fun withdraw_rows ::
  "triple_id list \<Rightarrow> circuit \<Rightarrow> triple_id zset \<Rightarrow> triple_id list \<Rightarrow> circuit \<times> triple_id zset \<times> triple_id list" where
  "withdraw_rows [] c init_delta orphans = (c, init_delta, orphans)"
| "withdraw_rows (t # ts) c init_delta orphans =
     (if \<not> bset_contains (closure_support c) t then withdraw_rows ts c init_delta orphans
      else let c1 = c\<lparr>closure_support := bt_remove t (closure_support c)\<rparr> in
        if bt_get (rule_attr c1) t \<noteq> None then withdraw_rows ts c1 init_delta (orphans @ [t])
        else let c2 = withdraw_derived_row t Closure_Inferred c1
             in withdraw_rows ts c2 (note_presence_change c2 t init_delta) orphans)"

definition materialize_closure_row :: "triple_id \<Rightarrow> circuit \<Rightarrow> circuit" where
  "materialize_closure_row t c =
     emit_derived t 1 Closure_Inferred
       (c\<lparr>derived_base := zs_add t 1 (derived_base c), closure_support := bset_insert t (closure_support c)\<rparr>)"

fun promote_rows :: "triple_id list \<Rightarrow> circuit \<Rightarrow> triple_id zset \<Rightarrow> circuit \<times> triple_id zset" where
  "promote_rows [] c init_delta = (c, init_delta)"
| "promote_rows (t # ts) c init_delta =
     (if bset_contains (closure_support c) t \<or> zs_get (asserted_base c) t > 0 then promote_rows ts c init_delta
      else if zs_get (derived_base c) t > 0
      then promote_rows ts (c\<lparr>closure_support := bset_insert t (closure_support c)\<rparr>) init_delta
      else let c1 = materialize_closure_row t c
           in promote_rows ts c1 (note_presence_change c1 t init_delta))"

fun closure_retract_rules ::
  "u64 iter_order \<Rightarrow> closure_rule list \<Rightarrow> triple_id zset \<Rightarrow> circuit \<Rightarrow> triple_id zset \<Rightarrow> triple_id list
     \<Rightarrow> closure_rule list \<times> circuit \<times> triple_id zset \<times> triple_id list" where
  "closure_retract_rules h [] retract_delta c init_delta orphans = ([], c, init_delta, orphans)"
| "closure_retract_rules h (r # rs) retract_delta c init_delta orphans =
     (let (out, r') = apply_retract_delta h retract_delta r;
          (c1, d1, o1) = withdraw_rows (crd_withdraw out) c init_delta orphans;
          (c2, d2) = promote_rows (crd_promote out) c1 d1;
          (rs', c3, d3, o3) = closure_retract_rules h rs retract_delta c2 d2 o1
      in (r' # rs', c3, d3, o3))"

definition run_closure_retract_pass ::
  "u64 iter_order \<Rightarrow> triple_id zset \<Rightarrow> circuit \<Rightarrow> triple_id zset \<Rightarrow> circuit \<times> triple_id zset \<times> triple_id list" where
  "run_closure_retract_pass h retract_delta c init_delta =
     (let (rs, c1, d1, orphans) = closure_retract_rules h (closure_plans c) retract_delta c init_delta []
      in (c1\<lparr>closure_plans := rs\<rparr>, d1, orphans))"

fun insert_closure_rows :: "triple_id list \<Rightarrow> circuit \<Rightarrow> triple_id zset \<Rightarrow> circuit \<times> triple_id zset" where
  "insert_closure_rows [] c init_delta = (c, init_delta)"
| "insert_closure_rows (t # ts) c init_delta =
     (if base_presence c t
      then insert_closure_rows ts
        (if zs_get (derived_base c) t \<noteq> 0 then c\<lparr>closure_support := bset_insert t (closure_support c)\<rparr> else c) init_delta
      else let c1 = materialize_closure_row t c
           in insert_closure_rows ts c1 (note_presence_change c1 t init_delta))"

fun closure_insertion_rules ::
  "u64 iter_order \<Rightarrow> closure_rule list \<Rightarrow> triple_id zset \<Rightarrow> circuit \<Rightarrow> triple_id zset
     \<Rightarrow> (closure_rule list \<times> circuit \<times> triple_id zset) option" where
  "closure_insertion_rules h [] delta c init_delta = Some ([], c, init_delta)"
| "closure_insertion_rules h (r # rs) delta c init_delta = do {
     (inferred, r') \<leftarrow> apply_insert_delta h delta r;
     let (c1, d1) = insert_closure_rows inferred c init_delta;
     (rs', c2, d2) \<leftarrow> closure_insertion_rules h rs delta c1 d1;
     Some (r' # rs', c2, d2) }"

definition run_closure_insertion_pass ::
  "u64 iter_order \<Rightarrow> triple_id zset \<Rightarrow> circuit \<Rightarrow> triple_id zset \<Rightarrow> (circuit \<times> triple_id zset) option" where
  "run_closure_insertion_pass h delta c init_delta = do {
     (rs, c1, d1) \<leftarrow> closure_insertion_rules h (closure_plans c) delta c init_delta;
     Some (c1\<lparr>closure_plans := rs\<rparr>, d1) }"

section \<open>Recompute fallback\<close>

fun recompute_rows :: "rule_id \<Rightarrow> (triple_id \<times> int) list \<Rightarrow> triple_id zset \<Rightarrow> (triple_id, rule_id) btree \<Rightarrow> bool
     \<Rightarrow> triple_id zset \<times> (triple_id, rule_id) btree \<times> bool" where
  "recompute_rows rid [] closure attr changed = (closure, attr, changed)"
| "recompute_rows rid ((t, m) # dd) closure attr changed =
     (if m \<noteq> 0 \<and> zs_get closure t = 0
      then recompute_rows rid dd (zs_add t 1 closure)
        (case bt_get attr t of None \<Rightarrow> bt_insert t rid attr | Some r \<Rightarrow> attr) True
      else recompute_rows rid dd closure attr changed)"

fun recompute_plans :: "(nary_plan \<times> rule_id) list \<Rightarrow> pred_extent \<Rightarrow> triple_id zset \<Rightarrow> (triple_id, rule_id) btree \<Rightarrow> bool
     \<Rightarrow> (triple_id zset \<times> (triple_id, rule_id) btree \<times> bool) option" where
  "recompute_plans [] pred_closure closure attr changed = Some (closure, attr, changed)"
| "recompute_plans ((plan, rid) # ps) pred_closure closure attr changed = do {
     dd \<leftarrow> apply_full plan pred_closure;
     let (closure', attr', changed') = recompute_rows rid dd closure attr changed;
     recompute_plans ps pred_closure closure' attr' changed' }"

fun recompute_rounds :: "nat \<Rightarrow> (nary_plan \<times> rule_id) list \<Rightarrow> triple_id zset \<Rightarrow> (triple_id, rule_id) btree
     \<Rightarrow> (triple_id, rule_id) btree option" where
  "recompute_rounds 0 ps closure attr = None"
| "recompute_rounds (Suc n) ps closure attr = do {
     (closure', attr', changed) \<leftarrow> recompute_plans ps (pe_from_zset closure) closure attr False;
     if changed then recompute_rounds n ps closure' attr' else Some attr' }"

definition recompute_rule_closure :: "circuit \<Rightarrow> (triple_id, rule_id) btree option" where
  "recompute_rule_closure c =
     (let closure = zs_from_iter (map (\<lambda>(t, m). (t, 1)) (filter (\<lambda>(t, m). m > 0) (asserted_base c))
                      @ map (\<lambda>(t, u). (t, 1)) (closure_support c))
      in recompute_rounds max_fixpoint_rounds (plans c) closure [])"

fun resync_plans :: "(nary_plan \<times> rule_id) list \<Rightarrow> pred_extent \<Rightarrow> (triple_id, weights) btree \<Rightarrow> (triple_id, weights) btree option" where
  "resync_plans [] ext w = Some w"
| "resync_plans ((plan, rid) # ps) ext w = do {
     full \<leftarrow> apply_full plan ext;
     resync_plans ps ext (fold (\<lambda>(t, m) w. if m \<noteq> 0
       then let per_rule = (case bt_get w t of None \<Rightarrow> [] | Some x \<Rightarrow> x);
                old = (case bt_get per_rule rid of None \<Rightarrow> 0 | Some x \<Rightarrow> x)
            in bt_insert t (bt_insert rid (old + m) per_rule) w
       else w) full w) }"

definition resync_incremental_state :: "circuit \<Rightarrow> circuit option" where
  "resync_incremental_state c = do {
     let ext = pe_from_zset (materialize_presence c);
     w \<leftarrow> resync_plans (plans c) ext [];
     Some (c\<lparr>extent := ext,
       rule_weights := filter (\<lambda>(t, per_rule). per_rule \<noteq> [])
         (map (\<lambda>(t, per_rule). (t, filter (\<lambda>(rid, m). m \<noteq> 0) per_rule)) w),
       plans := map (\<lambda>(plan, rid). (reset_state plan, rid)) (plans c)\<rparr>) }"

definition add_recomputed :: "(triple_id, rule_id) btree \<Rightarrow> triple_id \<times> rule_id \<Rightarrow> circuit \<Rightarrow> circuit" where
  "add_recomputed old_rule e c = (case e of (t, rid) \<Rightarrow>
     if bt_get old_rule t = None
     then emit_derived t 1 (Rule_Inferred rid) (c\<lparr>derived_base := zs_add t 1 (derived_base c)\<rparr>) else c)"

definition drop_recomputed :: "(triple_id, rule_id) btree \<Rightarrow> triple_id \<times> rule_id \<Rightarrow> circuit \<Rightarrow> circuit" where
  "drop_recomputed new_rule e c = (case e of (t, old_rid) \<Rightarrow>
     if bt_get new_rule t = None \<and> \<not> bset_contains (closure_support c) t
     then withdraw_derived_row t (Rule_Inferred old_rid) c else c)"

definition run_recompute_fallback ::
  "u64 iter_order \<Rightarrow> triple_id zset \<Rightarrow> triple_id zset \<Rightarrow> circuit \<Rightarrow> circuit option" where
  "run_recompute_fallback h asserted_delta_for_closure retract_delta c = do {
     let (c1, scratch, orphans) = run_closure_retract_pass h retract_delta c zs_new;
     (c2, scratch2) \<leftarrow> run_closure_insertion_pass h asserted_delta_for_closure c1 scratch;
     new_rule \<leftarrow> recompute_rule_closure c2;
     let old_rule = rule_attr c2;
     let c3 = fold (add_recomputed old_rule) new_rule c2;
     let c4 = fold (drop_recomputed new_rule) old_rule c3;
     resync_incremental_state (c4\<lparr>rule_attr := new_rule\<rparr>) }"

section \<open>Tick\<close>

record tick_report =
  tr_asserted_merged :: nat
  tr_derived_merged :: nat
  tr_logical_time :: logical_time

definition publish_record :: "delta_record \<Rightarrow> circuit \<Rightarrow> circuit" where
  "publish_record rec c = c\<lparr>feed := feed c @ [rec]\<rparr>"

text \<open>Phase 1: the pending records reach the base and the feed; what each triple nets to is kept.\<close>

definition drain :: "circuit \<Rightarrow> delta_record list \<times> triple_id zset \<times> (triple_id \<times> bool) list \<times> nat \<times> circuit" where
  "drain c =
     (let (tick_log, rest) = take_pending (input_log c);
          records = dl_records tick_log;
          asserted_delta = fold (\<lambda>rec. zs_add (dr_triple rec) (dr_mult rec)) records zs_new;
          prev_present = map (\<lambda>(t, m). (t, zs_get (asserted_base c) t > 0)) asserted_delta;
          (merged_count, base') = checkpoint_merge (asserted_base c) tick_log;
          c1 = c\<lparr>input_log := rest, pending_derived := zs_new, asserted_base := base'\<rparr>
      in (records, asserted_delta, prev_present, merged_count, fold publish_record records c1))"

definition insertions_for_closure :: "circuit \<Rightarrow> triple_id zset \<Rightarrow> triple_id zset" where
  "insertions_for_closure c asserted_delta =
     (if closure_plans c = [] then zs_new
      else zs_from_iter (map (\<lambda>(t, m). (t, 1))
        (filter (\<lambda>(t, m). m > 0 \<and> zs_get (asserted_base c) t > 0) asserted_delta)))"

definition retractions_for_closure :: "circuit \<Rightarrow> bool \<Rightarrow> triple_id zset \<Rightarrow> triple_id zset" where
  "retractions_for_closure c has_retraction asserted_delta =
     (if closure_plans c = [] \<or> \<not> has_retraction then zs_new
      else zs_from_iter (map (\<lambda>(t, m). (t, - 1))
        (filter (\<lambda>(t, m). m < 0 \<and> zs_get (asserted_base c) t \<le> 0) asserted_delta)))"

definition note_flips :: "circuit \<Rightarrow> (triple_id \<times> bool) list \<Rightarrow> triple_id zset" where
  "note_flips c prev_present = fold (\<lambda>(t, was_present) d.
     if was_present \<noteq> (zs_get (asserted_base c) t > 0) then note_presence_change c t d else d) prev_present zs_new"

definition seed_orphans :: "circuit \<Rightarrow> triple_id list \<Rightarrow> triple_id zset \<Rightarrow> triple_id zset" where
  "seed_orphans c orphans init_delta = fold (\<lambda>t d.
     if bset_contains (closure_support c) t \<or> zs_get (asserted_base c) t > 0 \<or> bt_get (rule_attr c) t = None then d
     else if zs_get d t = 0 then zs_add t (- 1) d else d) orphans init_delta"

definition run_unified ::
  "u64 iter_order \<Rightarrow> bool \<Rightarrow> (triple_id \<times> bool) list \<Rightarrow> triple_id zset \<Rightarrow> triple_id zset \<Rightarrow> circuit \<Rightarrow> circuit option" where
  "run_unified h has_retraction prev_present ins_delta ret_delta c = do {
     let d0 = note_flips c prev_present;
     let (c1, d1, orphans) = (if has_retraction then run_closure_retract_pass h ret_delta c d0 else (c, d0, []));
     (c2, d2) \<leftarrow> run_closure_insertion_pass h ins_delta c1 d1;
     let init_delta = seed_orphans c2 orphans d2;
     if \<exists>e\<in>set init_delta. snd e < 0 then run_two_phase_fixpoint init_delta c2
     else run_insertion_fixpoint init_delta c2 }"

definition tick :: "u64 iter_order \<Rightarrow> circuit \<Rightarrow> (tick_report \<times> circuit) option" where
  "tick h c = do {
     let (records, asserted_delta, prev_present, merged_count, c1) = drain c;
     let has_retraction = (\<exists>rec\<in>set records. dr_mult rec < 0);
     let logical_time = (if records = [] then 0 else dr_time (last records));
     let ins_delta = insertions_for_closure c1 asserted_delta;
     let ret_delta = retractions_for_closure c1 has_retraction asserted_delta;
     c2 \<leftarrow> (if recompute_fallback c1 \<and> has_retraction then run_recompute_fallback h ins_delta ret_delta c1
            else run_unified h has_retraction prev_present ins_delta ret_delta c1);
     (published, c3) \<leftarrow> flush_derived_feed c2;
     Some (\<lparr>tr_asserted_merged = merged_count, tr_derived_merged = published, tr_logical_time = logical_time\<rparr>, c3) }"

section \<open>Record kinds\<close>

text \<open>The tag a record kind is stored under decodes to the kind, for every rule number, and no two kinds share a tag.\<close>

theorem kind_tag_roundtrip:
  "kind_from_tag (kind_tag k) = k \<and> (kind_tag k = kind_tag k') = (k = k')"
proof -
  have less: "unat r < 2 ^ 32" for r :: rule_id using unsigned_less [of r, where 'a = nat] by simp
  have "unat r < 2 ^ 64" for r :: rule_id using less [of r] by simp
  then have small: "unat (ucast r :: u64) < 2 ^ 32" for r :: rule_id
    using less [of r] by (simp add: unsigned_ucast_eq take_bit_nat_eq_self)
  have tag: "unat (2 + ucast r :: u64) = 2 + unat (ucast r :: u64)" for r :: rule_id
    using small [of r] by (subst unat_add_lem [THEN iffD1]) simp_all
  have ne: "2 + ucast r \<noteq> (0 :: u64)" "2 + ucast r \<noteq> (1 :: u64)" for r :: rule_id
  proof -
    have "unat (2 + ucast r :: u64) \<noteq> unat (0 :: u64)" "unat (2 + ucast r :: u64) \<noteq> unat (1 :: u64)" unfolding tag by simp_all
    then show "2 + ucast r \<noteq> (0 :: u64)" "2 + ucast r \<noteq> (1 :: u64)" by metis+
  qed
  have narrow: "ucast (ucast r :: u64) = r" for r :: rule_id
    by (rule ucast_up_ucast_id) (simp add: is_up)
  have decode: "kind_from_tag (kind_tag k) = k" for k
    by (cases k) (simp_all add: kind_from_tag_def ne narrow)
  then have "kind_tag k = kind_tag k' \<Longrightarrow> k = k'" by metis
  with decode show ?thesis by blast
qed

end
