(* ===== verification/Circuit_Fixpoint.thy ===== *)
theory Circuit_Fixpoint imports Circuit begin

text \<open>
  The rule fixpoint of the circuit. The weight a plan gives a row is the number of its one-step
  derivations over the extent, so the extent a tick must reach is the least set that holds the base
  rows and every row with a derivation inside the set. Both fixpoints are shown to reach it: the
  insertion fixpoint by growing, the two-phase fixpoint because a row that survives the overdeletion
  without being a base row has lost none of its derivations.
\<close>

text \<open>Quantifiers over triples are kept whole.\<close>

declare split_paired_All [simp del] split_paired_Ex [simp del]

section \<open>Consequences\<close>

type_synonym rule_set = "(hash_join_rule list \<times> rule_id) list"

definition rules_of :: "(nary_plan \<times> rule_id) list \<Rightarrow> rule_set" where
  "rules_of ps = map (\<lambda>(plan, rid). (np_joins plan, rid)) ps"

definition consequences :: "rule_set \<Rightarrow> triple_id set \<Rightarrow> triple_id set" where
  "consequences js S = {t. \<exists>(rs, rid)\<in>set js. derivations rs S t \<noteq> {}}"

definition saturation :: "rule_set \<Rightarrow> triple_id set \<Rightarrow> triple_id set" where
  "saturation js B = lfp (\<lambda>S. B \<union> consequences js S)"

lemma derivations_mono: "S \<subseteq> S' \<Longrightarrow> derivations rs S t \<subseteq> derivations rs S' t"
  by (auto simp: derivations_def)

lemma derivations_Int: "derivations rs (S \<inter> S') t = derivations rs S t \<inter> derivations rs S' t"
  by (auto simp: derivations_def)

lemma plan_consequences_mono: "S \<subseteq> S' \<Longrightarrow> consequences js S \<subseteq> consequences js S'"
  unfolding consequences_def
proof (rule Collect_mono, rule impI)
  fix t assume "S \<subseteq> S'" and "\<exists>(rs, rid)\<in>set js. derivations rs S t \<noteq> {}"
  then obtain rs rid where "(rs, rid) \<in> set js" "derivations rs S t \<noteq> {}" by blast
  with derivations_mono [OF \<open>S \<subseteq> S'\<close>, of rs t] show "\<exists>(rs, rid)\<in>set js. derivations rs S' t \<noteq> {}" by blast
qed

lemma mono_saturation: "mono (\<lambda>S. B \<union> consequences js S)"
  by (rule monoI) (use plan_consequences_mono in blast)

lemma saturation_unfold: "saturation js B = B \<union> consequences js (saturation js B)"
  unfolding saturation_def by (rule lfp_unfold [OF mono_saturation])

lemma base_saturation: "B \<subseteq> saturation js B"
  using saturation_unfold by blast

lemma consequences_saturation: "consequences js (saturation js B) \<subseteq> saturation js B"
  using saturation_unfold by blast

lemma least_saturation: "B \<subseteq> S \<Longrightarrow> consequences js S \<subseteq> S \<Longrightarrow> saturation js B \<subseteq> S"
  unfolding saturation_def by (rule lfp_lowerbound) blast

lemma saturation_mono: "B \<subseteq> B' \<Longrightarrow> saturation js B \<subseteq> saturation js B'"
  by (rule least_saturation) (use base_saturation consequences_saturation in blast)+

lemma saturation_eqI:
  assumes "B \<subseteq> S" and "consequences js S \<subseteq> S" and "S \<subseteq> saturation js B"
  shows "S = saturation js B"
  using least_saturation [OF assms(1,2)] assms(3) by (rule subset_antisym [OF _ , rotated])

lemma length_chain: "chain rs h ts = Some t \<Longrightarrow> length ts = length rs"
  by (induction rs h ts rule: chain.induct) (auto split: bind_splits)

lemma length_derives: "derives rs ts = Some t \<Longrightarrow> length ts = length rs + 1"
  by (cases "(rs, ts)" rule: derives.cases) (auto split: bind_splits dest: length_chain)

lemma finite_derivations: "finite (derivations rs S t)"
  by (rule finite_subset [OF _ finite_lists_length_eq [OF finite [of S], of "length rs + 1"]])
    (auto simp: derivations_def dest: length_derives)

section \<open>Weights\<close>

definition rule_weight :: "rule_set \<Rightarrow> triple_id set \<Rightarrow> triple_id \<Rightarrow> rule_id \<Rightarrow> int" where
  "rule_weight js S t r = (\<Sum>(rs, rid)\<leftarrow>js. if rid = r then int (card (derivations rs S t)) else 0)"

definition weight :: "rule_set \<Rightarrow> triple_id set \<Rightarrow> triple_id \<Rightarrow> int" where
  "weight js S t = (\<Sum>(rs, rid)\<leftarrow>js. int (card (derivations rs S t)))"

lemma rule_weight_nonneg: "0 \<le> rule_weight js S t r"
  unfolding rule_weight_def by (rule sum_list_nonneg) auto

lemma weight_nonneg: "0 \<le> weight js S t"
  unfolding weight_def by (rule sum_list_nonneg) auto

lemma card_derivations_mono:
  "S \<subseteq> S' \<Longrightarrow> card (derivations rs S t) \<le> card (derivations rs S' t)"
  by (rule card_mono [OF finite_derivations derivations_mono])

lemma rule_weight_mono: "S \<subseteq> S' \<Longrightarrow> rule_weight js S t r \<le> rule_weight js S' t r"
  unfolding rule_weight_def by (rule sum_list_mono) (auto intro: card_derivations_mono)

lemma weight_mono: "S \<subseteq> S' \<Longrightarrow> weight js S t \<le> weight js S' t"
  unfolding weight_def by (rule sum_list_mono) (auto intro: card_derivations_mono)

lemma weight_pos_iff: "0 < weight js S t \<longleftrightarrow> t \<in> consequences js S"
proof -
  have "0 < weight js S t \<longleftrightarrow> (\<exists>(rs, rid)\<in>set js. 0 < card (derivations rs S t))"
    unfolding weight_def
  proof (induction js)
    case (Cons e js)
    obtain rs rid where "e = (rs, rid)" by (cases e)
    moreover have "0 \<le> weight js S t" by (rule weight_nonneg)
    ultimately show ?case using Cons by (auto simp: weight_def)
  qed simp
  then show ?thesis using finite_derivations by (auto simp: consequences_def card_gt_0_iff)
qed

text \<open>A row that lost no derivation on the way from \<open>S'\<close> to \<open>S\<close> keeps those over any third set.\<close>

lemma sum_list_le_eq:
  fixes f g :: "'a \<Rightarrow> int"
  assumes "\<And>x. x \<in> set xs \<Longrightarrow> f x \<le> g x" and "(\<Sum>x\<leftarrow>xs. g x) \<le> (\<Sum>x\<leftarrow>xs. f x)" and "x \<in> set xs"
  shows "f x = g x"
proof -
  have le: "(\<Sum>x\<leftarrow>ys. f x) \<le> (\<Sum>x\<leftarrow>ys. g x)" if "set ys \<subseteq> set xs" for ys
    using that assms(1) by (intro sum_list_mono) auto
  obtain ys zs where s: "xs = ys @ x # zs" using split_list [OF assms(3)] by blast
  then have "set ys \<subseteq> set xs" "set zs \<subseteq> set xs" by auto
  with s assms(2) le [of ys] le [of zs] have "g x \<le> f x" by simp
  with assms(1,3) show ?thesis by force
qed

lemma weight_kept:
  assumes "S \<subseteq> S'" and "weight js S' t \<le> weight js S t" and "T \<subseteq> S'"
    and "t \<in> consequences js T"
  shows "t \<in> consequences js (T \<inter> S)"
proof -
  from assms(4) obtain rs rid where j: "(rs, rid) \<in> set js" "derivations rs T t \<noteq> {}"
    by (auto simp: consequences_def)
  have "(\<lambda>(rs, rid). int (card (derivations rs S t))) (rs, rid) = (\<lambda>(rs, rid). int (card (derivations rs S' t))) (rs, rid)"
    by (rule sum_list_le_eq [OF _ assms(2) [unfolded weight_def] j(1)])
      (auto intro: card_derivations_mono [OF assms(1)])
  then have "card (derivations rs S t) = card (derivations rs S' t)" by simp
  then have "derivations rs S t = derivations rs S' t"
    using card_subset_eq [OF finite_derivations derivations_mono [OF assms(1)]] by simp
  then have "derivations rs (T \<inter> S) t = derivations rs T t"
    using derivations_mono [OF assms(3), of rs t] by (simp add: derivations_Int Int_absorb2)
  with j show ?thesis by (auto simp: consequences_def)
qed

section \<open>The weight trace\<close>

definition wmap :: "circuit \<Rightarrow> triple_id \<Rightarrow> rule_id \<Rightarrow> int" where
  "wmap c t r = (case bt_get (rule_weights c) t of None \<Rightarrow> 0 | Some w \<Rightarrow> zs_get w r)"

definition weights_ok :: "circuit \<Rightarrow> bool" where
  "weights_ok c \<longleftrightarrow> bt_ok (rule_weights c) \<and> (\<forall>t w. bt_get (rule_weights c) t = Some w \<longrightarrow> zs_ok w)"

definition dsum :: "(rule_id \<times> int) list \<Rightarrow> rule_id \<Rightarrow> int" where
  "dsum ds r = (\<Sum>(rid, m)\<leftarrow>ds. if rid = r then m else 0)"

lemma dsum_simps [simp]:
  "dsum [] r = 0" "dsum (xs @ ys) r = dsum xs r + dsum ys r"
  "dsum ((rid, m) # ds) r = (if rid = r then m else 0) + dsum ds r"
  by (simp_all add: dsum_def)

lemma add_weight_spec:
  assumes "zs_ok w"
  shows "zs_ok (add_weight (rid, dm) w)"
    and "zs_get (add_weight (rid, dm) w) r = zs_get w r + (if r = rid then dm else 0)"
  using assms zs_ok_insert zs_ok_remove
  by (auto simp: add_weight_def Let_def zs_get_def btree_simps split: option.split)

lemma fold_add_weight:
  assumes "zs_ok w"
  shows "zs_ok (fold add_weight ds w)" and "zs_get (fold add_weight ds w) r = zs_get w r + dsum ds r"
  using assms by (induction ds arbitrary: w) (auto simp: add_weight_spec)

lemma total_weight_sum:
  assumes "weights_ok c"
  shows "total_weight c t = (\<Sum>r\<in>UNIV. wmap c t r)"
proof (cases "bt_get (rule_weights c) t")
  case (Some w)
  then have "zs_ok w" using assms by (simp add: weights_ok_def)
  then have "zs_sum w (\<lambda>_. 1) = (\<Sum>r\<in>UNIV. zs_get w r)" by (subst zs_sum_over [where U = UNIV]) simp_all
  moreover have "sum_weights w = zs_sum w (\<lambda>_. 1)"
    by (induction w) (auto simp: sum_weights_def)
  ultimately show ?thesis by (simp add: total_weight_def wmap_def Some)
qed (simp add: total_weight_def wmap_def)

lemma weight_sum: "weight js S t = (\<Sum>r\<in>UNIV. rule_weight js S t r)"
proof (induction js)
  case (Cons e js)
  obtain rs rid where e: "e = (rs, rid)" by (cases e)
  have "(\<Sum>r\<in>UNIV. rule_weight (e # js) S t r)
      = (\<Sum>r\<in>UNIV. (if rid = r then int (card (derivations rs S t)) else 0) + rule_weight js S t r)"
    by (simp add: e rule_weight_def)
  also have "\<dots> = int (card (derivations rs S t)) + (\<Sum>r\<in>UNIV. rule_weight js S t r)"
    by (simp add: sum.distrib)
  finally show ?case using Cons by (simp add: e weight_def)
qed (simp add: weight_def rule_weight_def)

lemma apply_weight_deltas_spec:
  assumes "weights_ok c" and "\<And>r. 0 \<le> wmap c t r + dsum ds r"
  obtains c' W where "apply_weight_deltas t ds c = (total_weight c t, total_weight c' t, c')"
    "c' = c\<lparr>rule_weights := W\<rparr>" "weights_ok c'"
    "\<And>u r. wmap c' u r = (if u = t then wmap c t r + dsum ds r else wmap c u r)"
proof -
  define w where "w = (case bt_get (rule_weights c) t of None \<Rightarrow> [] | Some w \<Rightarrow> w)"
  define w' where "w' = fold add_weight ds w"
  define c1 where "c1 = c\<lparr>rule_weights := bt_insert t w' (rule_weights c)\<rparr>"
  have w: "zs_ok w" "zs_get w r = wmap c t r" for r
    using assms(1) by (auto simp: w_def weights_ok_def wmap_def split: option.split)
  have w': "zs_ok w'" "zs_get w' r = wmap c t r + dsum ds r" for r
    using fold_add_weight [OF w(1)] w(2) by (simp_all add: w'_def)
  have c1: "weights_ok c1" "wmap c1 u r = (if u = t then wmap c t r + dsum ds r else wmap c u r)" for u r
    using assms(1) w' by (auto simp: c1_def weights_ok_def wmap_def btree_simps)
  define c' where "c' = (if total_weight c1 t = 0 then c1\<lparr>rule_weights := bt_remove t (rule_weights c1)\<rparr> else c1)"
  have zero: "wmap c1 t r = 0" if "total_weight c1 t = 0" for r
  proof -
    have "\<forall>r\<in>UNIV. wmap c1 t r = 0"
      using that assms(2) c1(2) [of t] unfolding total_weight_sum [OF c1(1)]
      by (subst sum_nonneg_eq_0_iff [symmetric]) auto
    then show ?thesis by simp
  qed
  have "weights_ok c'" using c1(1) by (auto simp: c'_def weights_ok_def btree_simps split: if_splits)
  moreover have wc': "wmap c' u r = wmap c1 u r" for u r
    using zero [of r] by (auto simp: c'_def wmap_def btree_simps)
  moreover have "total_weight c' t = total_weight c1 t"
    using total_weight_sum [OF \<open>weights_ok c'\<close>] total_weight_sum [OF c1(1)] wc' by simp
  moreover have "apply_weight_deltas t ds c = (total_weight c t, total_weight c1 t, c')"
    by (simp add: apply_weight_deltas_def Let_def c'_def c1_def w'_def w_def)
  moreover have "c' = c\<lparr>rule_weights := rule_weights c'\<rparr>" by (simp add: c'_def c1_def)
  ultimately show ?thesis
  proof (intro that)
    show "wmap c' u r = (if u = t then wmap c t r + dsum ds r else wmap c u r)" for u r
      unfolding wc' by (rule c1(2))
  qed simp_all
qed

section \<open>One round\<close>

definition plans_ok :: "(nary_plan \<times> rule_id) list \<Rightarrow> pred_extent \<Rightarrow> bool" where
  "plans_ok ps e \<longleftrightarrow> (\<forall>(plan, rid)\<in>set ps. plan_ok plan \<and> state_ok plan e)"

definition deltas_at :: "merged \<Rightarrow> triple_id \<Rightarrow> (rule_id \<times> int) list" where
  "deltas_at acc t = (case bt_get acc t of None \<Rightarrow> [] | Some xs \<Rightarrow> xs)"

lemma merge_raw_spec:
  assumes "bt_ok acc" and "zs_ok raw"
  shows "bt_ok (merge_raw rid raw acc)"
    and "dsum (deltas_at (merge_raw rid raw acc) t) r = dsum (deltas_at acc t) r + (if rid = r then zs_get raw t else 0)"
proof -
  have at: "deltas_at (merge_entry rid e acc) t = deltas_at acc t @ (if t = fst e then [(rid, snd e)] else [])" for e acc
    by (simp add: merge_entry_def deltas_at_def btree_simps case_prod_beta')
  have entry: "bt_ok acc \<Longrightarrow> bt_ok (merge_entry rid e acc)" "dsum (deltas_at (merge_entry rid e acc) t) r
      = dsum (deltas_at acc t) r + (if rid = r \<and> t = fst e then snd e else 0)" for e acc
    by (simp add: merge_entry_def case_prod_beta' bt_ok_insert) (simp add: at)
  have "bt_ok (fold (merge_entry rid) es acc) \<and> dsum (deltas_at (fold (merge_entry rid) es acc) t) r
      = dsum (deltas_at acc t) r + (if rid = r then \<Sum>(k, m)\<leftarrow>es. if k = t then m else 0 else 0)"
    if "bt_ok acc" for es acc
    using that
  proof (induction es arbitrary: acc)
    case (Cons e es)
    from Cons(1) [OF entry(1) [OF Cons(2)], of e] show ?case by (simp add: entry case_prod_beta' eq_commute [of t])
  qed simp
  from this [OF assms(1), of raw] show "bt_ok (merge_raw rid raw acc)"
    "dsum (deltas_at (merge_raw rid raw acc) t) r = dsum (deltas_at acc t) r + (if rid = r then zs_get raw t else 0)"
    by (simp_all add: merge_raw_def zs_get_sum [OF assms(2)])
qed

lemma round_plans_spec:
  assumes "plans_ok ps e" and "extent_of e S" and "zs_ok d" and "extent_of (pe_add_assign e d) S'" and "bt_ok acc"
  shows "\<exists>ps' acc'. round_plans ps e d acc = Some (ps', acc') \<and> rules_of ps' = rules_of ps
    \<and> plans_ok ps' (pe_add_assign e d) \<and> bt_ok acc'
    \<and> (\<forall>t r. dsum (deltas_at acc' t) r = dsum (deltas_at acc t) r
        + rule_weight (rules_of ps) S' t r - rule_weight (rules_of ps) S t r)"
  using assms(1,5)
proof (induction ps arbitrary: acc)
  case Nil
  then show ?case by (simp add: plans_ok_def rules_of_def rule_weight_def)
next
  case (Cons p ps)
  obtain plan rid where p: "p = (plan, rid)" by (cases p)
  have ok: "plan_ok plan" "state_ok plan e" "plans_ok ps e" using Cons(2) p by (auto simp: plans_ok_def)
  have pe: "pe_ok e" using assms(2) by (simp add: extent_of_def)
  obtain raw plan' z where raw: "apply_delta_stateful plan e d = Some (raw, plan')" "np_joins plan' = np_joins plan"
    "state_ok plan' (pe_add_assign e d)" "zs_ok raw" "apply_full plan e = Some z"
    "apply_full plan (pe_add_assign e d) = Some (zs_add_assign z raw)"
    using apply_delta_stateful_spec [OF ok(1) pe assms(3) ok(2)] by blast
  have z: "zs_ok z" using apply_full_returns [OF ok(1) pe] raw(5) by auto
  have get: "zs_get raw t = int (card (derivations (np_joins plan) S' t)) - int (card (derivations (np_joins plan) S t))" for t
    using apply_full_count [OF ok(1) assms(2) raw(5), of t] apply_full_count [OF ok(1) assms(4) raw(6), of t]
    by (simp add: zs_add_assign_spec(2) [OF z raw(4)])
  note m = merge_raw_spec [OF Cons(3) raw(4), of rid]
  obtain ps' acc' where rest: "round_plans ps e d (merge_raw rid raw acc) = Some (ps', acc')" "rules_of ps' = rules_of ps"
    "plans_ok ps' (pe_add_assign e d)" "bt_ok acc'"
    "\<forall>t r. dsum (deltas_at acc' t) r = dsum (deltas_at (merge_raw rid raw acc) t) r
        + rule_weight (rules_of ps) S' t r - rule_weight (rules_of ps) S t r"
    using Cons(1) [OF ok(3) m(1)] by blast
  have "plan_ok plan'" using ok(1) raw(2) by (simp add: plan_ok_def)
  with p raw(1-3) rest m(2) show ?case
    by (auto simp: rules_of_def plans_ok_def rule_weight_def get)
qed

definition exact :: "circuit \<Rightarrow> triple_id set \<Rightarrow> bool" where
  "exact c S \<longleftrightarrow> weights_ok c \<and> (\<forall>t r. wmap c t r = rule_weight (rules_of (plans c)) S t r)"

lemma exact_total: "exact c S \<Longrightarrow> total_weight c t = weight (rules_of (plans c)) S t"
  by (simp add: exact_def total_weight_sum weight_sum)

lemma fixpoint_round_spec:
  assumes "plans_ok (plans c) (extent c)" and "extent_of (extent c) S" and "zs_ok d"
    and "extent_of (pe_add_assign (extent c) d) S'"
  obtains acc ps where "fixpoint_round d c = Some (acc, c\<lparr>plans := ps, extent := pe_add_assign (extent c) d\<rparr>)"
    "rules_of ps = rules_of (plans c)" "plans_ok ps (pe_add_assign (extent c) d)" "bt_ok acc"
    "\<And>t r. dsum (deltas_at acc t) r = rule_weight (rules_of (plans c)) S' t r - rule_weight (rules_of (plans c)) S t r"
  using round_plans_spec [OF assms bt_ok_Nil] by (fastforce simp: fixpoint_round_def deltas_at_def)

text \<open>The extent after a delta that is the difference of two sets.\<close>

lemma extent_of_add:
  assumes "extent_of e S" and "zs_ok d" and "\<And>t. zs_get d t = (if t \<in> S' then 1 else 0) - (if t \<in> S then 1 else 0)"
  shows "extent_of (pe_add_assign e d) S'"
  using assms pe_add_assign_spec [of e d] by (simp add: extent_of_def)

end
