(* ===== verification/Circuit_Insert.thy ===== *)
theory Circuit_Insert imports Circuit_Fixpoint begin

text \<open>
  The invariant of the circuit and the insertion fixpoint: rows are materialised when their weight
  becomes positive, and the extent ends at the saturation of the base rows.
\<close>

section \<open>What a circuit holds\<close>

definition asserted_rows :: "circuit \<Rightarrow> triple_id set" where
  "asserted_rows c = {t. zs_get (asserted_base c) t > 0}"

definition closure_rows :: "circuit \<Rightarrow> triple_id set" where
  "closure_rows c = {t. bset_contains (closure_support c) t}"

definition rule_rows :: "circuit \<Rightarrow> triple_id set" where
  "rule_rows c = {t. bt_get (rule_attr c) t \<noteq> None}"

definition base_rows :: "circuit \<Rightarrow> triple_id set" where
  "base_rows c = asserted_rows c \<union> closure_rows c"

definition all_rows :: "circuit \<Rightarrow> triple_id set" where
  "all_rows c = base_rows c \<union> rule_rows c"

abbreviation rules :: "circuit \<Rightarrow> rule_set" where
  "rules c \<equiv> rules_of (plans c)"

text \<open>The derived base holds every closure or rule row once.\<close>

definition base_ok :: "circuit \<Rightarrow> bool" where
  "base_ok c \<longleftrightarrow> zs_ok (asserted_base c) \<and> zs_ok (derived_base c) \<and> zs_ok (pending_derived c)
     \<and> bt_ok (closure_support c) \<and> bt_ok (rule_attr c)
     \<and> (\<forall>t. zs_get (derived_base c) t = (if t \<in> closure_rows c \<union> rule_rows c then 1 else 0))"

definition attr_ok :: "circuit \<Rightarrow> bool" where
  "attr_ok c \<longleftrightarrow> (\<forall>t r. bt_get (rule_attr c) t = Some r \<longrightarrow> wmap c t r > 0)"

definition settled :: "circuit \<Rightarrow> triple_id set \<Rightarrow> bool" where
  "settled c S \<longleftrightarrow> base_ok c \<and> attr_ok c \<and> exact c S \<and> plans_ok (plans c) (extent c) \<and> extent_of (extent c) S"

text \<open>Parts of the state the fixpoints leave alone, and the emissions not matched by the derived base.\<close>

definition core :: "circuit \<Rightarrow> triple_id zset \<times> delta_log \<times> closure_rule list \<times> delta_record list \<times> logical_time
    \<times> triple_id bset \<times> bool" where
  "core c = (asserted_base c, input_log c, closure_plans c, feed c, derived_clock c, closure_support c, recompute_fallback c)"

definition drift :: "circuit \<Rightarrow> triple_id \<Rightarrow> int" where
  "drift c t = zs_sum (pending_derived c) (\<lambda>e. if fst e = t then 1 else 0) - zs_get (derived_base c) t"

lemma core_rows: "core c' = core c \<Longrightarrow> asserted_rows c' = asserted_rows c \<and> closure_rows c' = closure_rows c \<and> base_rows c' = base_rows c"
  by (simp add: core_def asserted_rows_def closure_rows_def base_rows_def)

lemma base_okD:
  assumes "base_ok c"
  shows "zs_ok (derived_base c)" "zs_ok (pending_derived c)" "bt_ok (rule_attr c)"
    "zs_get (derived_base c) t = (if t \<in> closure_rows c \<union> rule_rows c then 1 else 0)"
  using assms by (simp_all add: base_ok_def)

section \<open>Single rows\<close>

lemma first_attr_rule_spec:
  assumes "weights_ok c" and "0 < total_weight c t"
  obtains r where "first_attr_rule c t = Some r" "wmap c t r > 0"
proof -
  obtain w where w: "bt_get (rule_weights c) t = Some w" using assms(2) by (auto simp: total_weight_def split: option.splits)
  then have ok: "zs_ok w" using assms(1) by (simp add: weights_ok_def)
  have "\<exists>e\<in>set w. snd e > 0"
  proof (rule ccontr)
    assume "\<not> (\<exists>e\<in>set w. snd e > 0)"
    then have "sum_list (map snd w) \<le> sum_list (map (\<lambda>e. 0) w)" by (intro sum_list_mono) (simp add: not_less)
    with assms(2) w show False by (simp add: total_weight_def sum_weights_def)
  qed
  then obtain rid m where f: "find (\<lambda>(rid, m). m > 0) w = Some (rid, m)"
    by (cases "find (\<lambda>(rid, m). m > 0) w") (auto simp: find_None_iff)
  then have "(rid, m) \<in> set w" "m > 0" by (auto simp: find_Some_iff in_set_conv_nth intro: exI)
  then have "zs_get w rid > 0" using ok by (simp add: zs_get_mem)
  with f w show ?thesis by (intro that [of rid]) (simp_all add: first_attr_rule_def wmap_def)
qed

lemma materialize_rule_row_spec:
  fixes rid :: rule_id
  assumes "base_ok c" and "t \<notin> closure_rows c \<union> rule_rows c"
  defines "c' \<equiv> materialize_rule_row t rid c"
  shows "base_ok c'" "core c' = core c" "plans c' = plans c" "extent c' = extent c" "rule_weights c' = rule_weights c"
    "rule_rows c' = insert t (rule_rows c)" "drift c' u = drift c u"
    "bt_get (rule_attr c') u = (if u = t then Some rid else bt_get (rule_attr c) u)"
proof -
  note ok = base_okD [OF assms(1)]
  show r: "bt_get (rule_attr c') u = (if u = t then Some rid else bt_get (rule_attr c) u)" for u
    by (simp add: c'_def materialize_rule_row_def emit_derived_def btree_simps)
  then show rows: "rule_rows c' = insert t (rule_rows c)" by (auto simp: rule_rows_def)
  show "core c' = core c" "plans c' = plans c" "extent c' = extent c" "rule_weights c' = rule_weights c"
    by (simp_all add: c'_def materialize_rule_row_def emit_derived_def core_def)
  have d: "zs_get (derived_base c') u = zs_get (derived_base c) u + (if u = t then 1 else 0)" for u
    by (simp add: c'_def materialize_rule_row_def emit_derived_def zset_simps)
  have cl: "closure_rows c' = closure_rows c"
    by (simp add: c'_def materialize_rule_row_def emit_derived_def closure_rows_def)
  show "base_ok c'" unfolding base_ok_def rows cl d ok(4) using assms(1,2)
    by (auto simp: c'_def materialize_rule_row_def emit_derived_def base_ok_def)
  have "zs_sum (pending_derived c') f = zs_sum (pending_derived c) f + f (t, Rule_Inferred rid)" for f
    using ok(2) by (simp add: c'_def materialize_rule_row_def emit_derived_def zs_sum_add)
  then show "drift c' u = drift c u" by (simp add: drift_def d)
qed

lemma set_weights_frame [simp]:
  "core (c\<lparr>rule_weights := W\<rparr>) = core c" "drift (c\<lparr>rule_weights := W\<rparr>) = drift c"
  "base_ok (c\<lparr>rule_weights := W\<rparr>) = base_ok c" "rule_rows (c\<lparr>rule_weights := W\<rparr>) = rule_rows c"
  "closure_rows (c\<lparr>rule_weights := W\<rparr>) = closure_rows c" "asserted_rows (c\<lparr>rule_weights := W\<rparr>) = asserted_rows c"
  by (simp_all add: core_def drift_def fun_eq_iff base_ok_def rule_rows_def closure_rows_def asserted_rows_def)

lemma wmap_cong: "rule_weights c' = rule_weights c \<Longrightarrow> wmap c' = wmap c"
  by (simp add: wmap_def fun_eq_iff)

lemma weights_ok_cong: "rule_weights c' = rule_weights c \<Longrightarrow> weights_ok c' = weights_ok c"
  by (simp add: weights_ok_def)

section \<open>Rows of a round\<close>

lemma deltas_at_Cons: "deltas_at ((t, ds) # acc) u = (if u = t then ds else deltas_at acc u)"
  by (simp add: deltas_at_def)

lemma deltas_at_notin: "t \<notin> fst ` set acc \<Longrightarrow> deltas_at acc t = []"
  by (simp add: deltas_at_def bt_get_eq_None_iff [symmetric])

lemma insertion_rows_spec:
  assumes "bt_ok acc" and "weights_ok c" and "base_ok c" and "zs_ok nd"
    and "\<And>t r. t \<in> fst ` set acc \<Longrightarrow> 0 \<le> wmap c t r + dsum (deltas_at acc t) r"
    and "\<And>t. t \<in> fst ` set acc \<Longrightarrow> zs_get nd t = 0"
    and "\<And>t. t \<in> fst ` set acc \<Longrightarrow> pe_get (extent c) t = (if t \<in> all_rows c then 1 else 0)"
  shows "\<exists>c' nd' N. insertion_rows acc c nd = Some (c', nd') \<and> core c' = core c \<and> plans c' = plans c \<and> extent c' = extent c
    \<and> weights_ok c' \<and> base_ok c' \<and> zs_ok nd'
    \<and> (\<forall>t r. wmap c' t r = wmap c t r + dsum (deltas_at acc t) r)
    \<and> N = {t \<in> fst ` set acc. total_weight c t \<le> 0 \<and> 0 < total_weight c' t \<and> t \<notin> all_rows c}
    \<and> rule_rows c' = rule_rows c \<union> N
    \<and> (\<forall>t. t \<notin> N \<longrightarrow> bt_get (rule_attr c') t = bt_get (rule_attr c) t)
    \<and> (\<forall>t\<in>N. \<forall>r. bt_get (rule_attr c') t = Some r \<longrightarrow> wmap c' t r > 0)
    \<and> (\<forall>t. zs_get nd' t = zs_get nd t + (if t \<in> N then 1 else 0))
    \<and> drift c' = drift c"
  using assms
proof (induction acc arbitrary: c nd)
  case Nil
  then show ?case by (auto simp: deltas_at_def)
next
  case (Cons e acc)
  obtain t ds where e: "e = (t, ds)" by (cases e)
  have acc: "bt_ok acc" "t \<notin> fst ` set acc" using Cons(2) e by (auto simp: bt_ok_Cons)
  have nn: "\<And>r. 0 \<le> wmap c t r + dsum ds r" using Cons(6) [of t] by (simp add: e deltas_at_Cons)
  obtain c1 W where c1: "apply_weight_deltas t ds c = (total_weight c t, total_weight c1 t, c1)"
    "c1 = c\<lparr>rule_weights := W\<rparr>" "weights_ok c1"
    "\<And>u r. wmap c1 u r = (if u = t then wmap c t r + dsum ds r else wmap c u r)"
    using apply_weight_deltas_spec [OF Cons(3) nn] by blast
  have others: "deltas_at (e # acc) u = deltas_at acc u" "total_weight c1 u = total_weight c u" if "u \<noteq> t" for u
    using that c1(4) by (simp_all add: e deltas_at_Cons total_weight_sum [OF Cons(3)] total_weight_sum [OF c1(3)])
  have frame1: "core c1 = core c" "plans c1 = plans c" "extent c1 = extent c" "rule_attr c1 = rule_attr c"
    "drift c1 = drift c" "base_ok c1" "all_rows c1 = all_rows c" "rule_rows c1 = rule_rows c"
    "asserted_base c1 = asserted_base c" "derived_base c1 = derived_base c"
    using Cons(4) by (simp_all add: c1(2) all_rows_def base_rows_def)
  let ?hit = "total_weight c t \<le> 0 \<and> 0 < total_weight c1 t \<and> zs_get (asserted_base c1) t \<le> 0 \<and> zs_get (derived_base c1) t = 0"
  have hit: "?hit \<longleftrightarrow> total_weight c t \<le> 0 \<and> 0 < total_weight c1 t \<and> t \<notin> all_rows c"
    using base_okD(4) [OF Cons(4), of t]
    by (auto simp: frame1 all_rows_def base_rows_def asserted_rows_def split: if_splits)
  show ?case
  proof (cases ?hit)
    case False
    have "\<exists>c' nd' N. insertion_rows acc c1 nd = Some (c', nd') \<and> core c' = core c1 \<and> plans c' = plans c1 \<and> extent c' = extent c1
      \<and> weights_ok c' \<and> base_ok c' \<and> zs_ok nd'
      \<and> (\<forall>t r. wmap c' t r = wmap c1 t r + dsum (deltas_at acc t) r)
      \<and> N = {t \<in> fst ` set acc. total_weight c1 t \<le> 0 \<and> 0 < total_weight c' t \<and> t \<notin> all_rows c1}
      \<and> rule_rows c' = rule_rows c1 \<union> N
      \<and> (\<forall>t. t \<notin> N \<longrightarrow> bt_get (rule_attr c') t = bt_get (rule_attr c1) t)
      \<and> (\<forall>t\<in>N. \<forall>r. bt_get (rule_attr c') t = Some r \<longrightarrow> wmap c' t r > 0)
      \<and> (\<forall>t. zs_get nd' t = zs_get nd t + (if t \<in> N then 1 else 0)) \<and> drift c' = drift c1"
    proof (rule Cons(1) [OF acc(1) c1(3) frame1(6) Cons(5)])
      fix u assume u: "u \<in> fst ` set acc"
      then have "u \<noteq> t" using acc(2) by blast
      then show "0 \<le> wmap c1 u r + dsum (deltas_at acc u) r" for r
        using Cons(6) [of u r] u by (simp add: c1(4) others)
      show "zs_get nd u = 0" "pe_get (extent c1) u = (if u \<in> all_rows c1 then 1 else 0)"
        using Cons(7,8) [of u] u frame1 by simp_all
    qed
    then obtain c' nd' N where IH: "insertion_rows acc c1 nd = Some (c', nd')" "core c' = core c1" "plans c' = plans c1"
      "extent c' = extent c1" "weights_ok c'" "base_ok c'" "zs_ok nd'"
      "\<forall>t r. wmap c' t r = wmap c1 t r + dsum (deltas_at acc t) r"
      "N = {t \<in> fst ` set acc. total_weight c1 t \<le> 0 \<and> 0 < total_weight c' t \<and> t \<notin> all_rows c1}"
      "rule_rows c' = rule_rows c1 \<union> N" "\<forall>t. t \<notin> N \<longrightarrow> bt_get (rule_attr c') t = bt_get (rule_attr c1) t"
      "\<forall>t\<in>N. \<forall>r. bt_get (rule_attr c') t = Some r \<longrightarrow> wmap c' t r > 0"
      "\<forall>t. zs_get nd' t = zs_get nd t + (if t \<in> N then 1 else 0)" "drift c' = drift c1" by blast
    have w: "\<forall>u r. wmap c' u r = wmap c u r + dsum (deltas_at (e # acc) u) r"
    proof (intro allI)
      fix u r
      show "wmap c' u r = wmap c u r + dsum (deltas_at (e # acc) u) r"
        using IH(8) c1(4) [of u r] deltas_at_notin [OF acc(2)] by (cases "u = t") (simp_all add: e deltas_at_Cons)
    qed
    have "total_weight c' t = total_weight c1 t"
      using IH(8) deltas_at_notin [OF acc(2)] by (simp add: total_weight_sum [OF IH(5)] total_weight_sum [OF c1(3)])
    then have miss: "\<not> (total_weight c t \<le> 0 \<and> 0 < total_weight c' t \<and> t \<notin> all_rows c)"
      using False hit by simp
    have N: "N = {t \<in> fst ` set (e # acc). total_weight c t \<le> 0 \<and> 0 < total_weight c' t \<and> t \<notin> all_rows c}"
    proof (rule set_eqI)
      fix u
      show "u \<in> N \<longleftrightarrow> u \<in> {t \<in> fst ` set (e # acc). total_weight c t \<le> 0 \<and> 0 < total_weight c' t \<and> t \<notin> all_rows c}"
        using miss acc(2) others(2) [of u] by (cases "u = t") (simp_all add: IH(9) frame1(7) e)
    qed
    have run: "insertion_rows (e # acc) c nd = Some (c', nd')"
      unfolding e insertion_rows.simps c1(1) Let_def prod.case if_not_P [OF False] by (rule IH(1))
    note facts = run IH(2-7,10-14) [unfolded frame1] w N
    show ?thesis by (intro exI [of _ c'] exI [of _ nd'] exI [of _ N] conjI) (rule facts)+
  next
    case True
    then obtain rid where rid: "first_attr_rule c1 t = Some rid" "wmap c1 t rid > 0"
      using first_attr_rule_spec [OF c1(3), of t] by blast
    have new: "t \<notin> all_rows c" "t \<notin> closure_rows c1 \<union> rule_rows c1"
      using True hit frame1(7) by (auto simp: all_rows_def base_rows_def)
    define c2 where "c2 = materialize_rule_row t rid c1"
    note c2 = materialize_rule_row_spec [OF frame1(6) new(2), of rid, folded c2_def]
    define nd1 where "nd1 = note_presence_change c2 t nd"
    have "zs_get (derived_base c2) t = 1"
      using base_okD(4) [OF c2(1), of t] by (simp add: c2(6))
    moreover have "pe_get (extent c2) t + zs_get nd t = 0"
      using Cons(7,8) [of t] new(1) by (simp add: e c2(4) frame1)
    ultimately have nd1: "nd1 = zs_add t 1 nd" by (simp add: nd1_def note_presence_change_def)
    have w2: "wmap c2 = wmap c1" "weights_ok c2"
      using wmap_cong [OF c2(5)] weights_ok_cong [OF c2(5)] c1(3) by simp_all
    have rows2: "all_rows c2 = insert t (all_rows c)"
      using core_rows [OF c2(2)] unfolding frame1(7) [symmetric] by (simp add: all_rows_def c2(6))
    have "\<exists>c' nd' N. insertion_rows acc c2 nd1 = Some (c', nd') \<and> core c' = core c2 \<and> plans c' = plans c2 \<and> extent c' = extent c2
      \<and> weights_ok c' \<and> base_ok c' \<and> zs_ok nd'
      \<and> (\<forall>t r. wmap c' t r = wmap c2 t r + dsum (deltas_at acc t) r)
      \<and> N = {t \<in> fst ` set acc. total_weight c2 t \<le> 0 \<and> 0 < total_weight c' t \<and> t \<notin> all_rows c2}
      \<and> rule_rows c' = rule_rows c2 \<union> N
      \<and> (\<forall>t. t \<notin> N \<longrightarrow> bt_get (rule_attr c') t = bt_get (rule_attr c2) t)
      \<and> (\<forall>t\<in>N. \<forall>r. bt_get (rule_attr c') t = Some r \<longrightarrow> wmap c' t r > 0)
      \<and> (\<forall>t. zs_get nd' t = zs_get nd1 t + (if t \<in> N then 1 else 0)) \<and> drift c' = drift c2"
    proof (rule Cons(1) [OF acc(1) w2(2) c2(1)])
      show "zs_ok nd1" using Cons(5) by (simp add: nd1 zs_ok_add)
      fix u assume u: "u \<in> fst ` set acc"
      then have ne: "u \<noteq> t" using acc(2) by blast
      then show "0 \<le> wmap c2 u r + dsum (deltas_at acc u) r" for r
        using Cons(6) [of u r] u by (simp add: w2 c1(4) others)
      show "zs_get nd1 u = 0" using Cons(7) [of u] u ne by (simp add: nd1 zset_simps)
      show "pe_get (extent c2) u = (if u \<in> all_rows c2 then 1 else 0)"
        using Cons(8) [of u] u ne by (simp add: rows2 c2(4) frame1)
    qed
    then obtain c' nd' N where IH: "insertion_rows acc c2 nd1 = Some (c', nd')" "core c' = core c2" "plans c' = plans c2"
      "extent c' = extent c2" "weights_ok c'" "base_ok c'" "zs_ok nd'"
      "\<forall>t r. wmap c' t r = wmap c2 t r + dsum (deltas_at acc t) r"
      "N = {t \<in> fst ` set acc. total_weight c2 t \<le> 0 \<and> 0 < total_weight c' t \<and> t \<notin> all_rows c2}"
      "rule_rows c' = rule_rows c2 \<union> N" "\<forall>t. t \<notin> N \<longrightarrow> bt_get (rule_attr c') t = bt_get (rule_attr c2) t"
      "\<forall>t\<in>N. \<forall>r. bt_get (rule_attr c') t = Some r \<longrightarrow> wmap c' t r > 0"
      "\<forall>t. zs_get nd' t = zs_get nd1 t + (if t \<in> N then 1 else 0)" "drift c' = drift c2" by blast
    have w: "\<forall>u r. wmap c' u r = wmap c u r + dsum (deltas_at (e # acc) u) r"
    proof (intro allI)
      fix u r
      show "wmap c' u r = wmap c u r + dsum (deltas_at (e # acc) u) r"
        using IH(8) c1(4) [of u r] w2(1) deltas_at_notin [OF acc(2)] by (cases "u = t") (simp_all add: e deltas_at_Cons)
    qed
    have tt: "total_weight c' t = total_weight c1 t" "wmap c' t = wmap c1 t"
      using IH(8) w2 deltas_at_notin [OF acc(2)]
      by (simp_all add: total_weight_sum [OF IH(5)] total_weight_sum [OF c1(3)] fun_eq_iff)
    have "total_weight c2 u = total_weight c u" if "u \<in> fst ` set acc" for u
    proof -
      have "u \<noteq> t" using that acc(2) by blast
      then show ?thesis using others(2) [of u] by (simp add: total_weight_sum [OF w2(2)] total_weight_sum [OF c1(3)] w2)
    qed
    then have N: "insert t N = {t \<in> fst ` set (e # acc). total_weight c t \<le> 0 \<and> 0 < total_weight c' t \<and> t \<notin> all_rows c}"
      (is "_ = ?R")
    proof (intro set_eqI)
      fix u
      show "u \<in> insert t N \<longleftrightarrow> u \<in> ?R"
        using True hit tt(1) \<open>\<And>u. u \<in> fst ` set acc \<Longrightarrow> total_weight c2 u = total_weight c u\<close> [of u]
        by (cases "u = t") (simp_all add: IH(9) rows2 e cong: conj_cong)
    qed
    have "t \<notin> N" using acc(2) unfolding IH(9) by blast
    have run: "insertion_rows (e # acc) c nd = Some (c', nd')"
      unfolding e insertion_rows.simps c1(1) Let_def prod.case if_P [OF True] rid(1) bind.bind_lunit
        c2_def [symmetric] nd1_def [symmetric] by (rule IH(1))
    have attr: "\<forall>u. u \<notin> insert t N \<longrightarrow> bt_get (rule_attr c') u = bt_get (rule_attr c) u"
      using IH(11) c2(8) frame1(4) by auto
    have pos: "\<forall>u\<in>insert t N. \<forall>r. bt_get (rule_attr c') u = Some r \<longrightarrow> wmap c' u r > 0"
      using IH(11,12) c2(8) \<open>t \<notin> N\<close> rid(2) tt(2) by auto
    have dl: "\<forall>u. zs_get nd' u = zs_get nd u + (if u \<in> insert t N then 1 else 0)"
      using IH(13) \<open>t \<notin> N\<close> by (simp add: nd1 zset_simps)
    have dr: "drift c' = drift c" using IH(14) c2(7) frame1(5) by (simp add: fun_eq_iff)
    have rr: "rule_rows c' = rule_rows c \<union> insert t N" using IH(10) c2(6) frame1(8) by auto
    note facts = run IH(2-7) [unfolded c2(2-4) frame1(1-3)] w N rr attr pos dl dr
    show ?thesis by (intro exI [of _ c'] exI [of _ nd'] exI [of _ "insert t N"] conjI) (rule facts)+
  qed
qed

section \<open>The fixpoint\<close>

lemma set_plans_frame [simp]:
  "core (c\<lparr>plans := ps, extent := e\<rparr>) = core c" "drift (c\<lparr>plans := ps, extent := e\<rparr>) = drift c"
  "base_ok (c\<lparr>plans := ps, extent := e\<rparr>) = base_ok c" "rule_rows (c\<lparr>plans := ps, extent := e\<rparr>) = rule_rows c"
  "all_rows (c\<lparr>plans := ps, extent := e\<rparr>) = all_rows c" "weights_ok (c\<lparr>plans := ps, extent := e\<rparr>) = weights_ok c"
  "wmap (c\<lparr>plans := ps, extent := e\<rparr>) = wmap c" "closure_rows (c\<lparr>plans := ps, extent := e\<rparr>) = closure_rows c"
  "asserted_rows (c\<lparr>plans := ps, extent := e\<rparr>) = asserted_rows c"
  by (simp_all add: core_def drift_def fun_eq_iff base_ok_def rule_rows_def closure_rows_def asserted_rows_def
      all_rows_def base_rows_def weights_ok_def wmap_def)

definition in_set :: "triple_id set \<Rightarrow> triple_id \<Rightarrow> int" where
  "in_set S t = (if t \<in> S then 1 else 0)"

lemma zs_empty_iff: "zs_ok z \<Longrightarrow> zs_is_empty z \<longleftrightarrow> (\<forall>k. zs_get z k = 0)"
  using zs_ext [of z "[]"] by (auto simp: zs_is_empty_def)

lemma in_set_eq: "(\<forall>t. in_set S t = in_set S' t) \<longleftrightarrow> S = S'"
  by (auto simp: in_set_def split: if_splits)

lemma keys_changed: "t \<notin> fst ` set acc \<Longrightarrow> dsum (deltas_at acc t) r = 0"
  by (simp add: deltas_at_notin)

lemma weight_unchanged:
  assumes "\<And>t r. dsum (deltas_at acc t) r = rule_weight js S' t r - rule_weight js S t r" and "t \<notin> fst ` set acc"
  shows "rule_weight js S' t = rule_weight js S t" and "weight js S' t = weight js S t"
proof -
  show *: "rule_weight js S' t = rule_weight js S t"
    using assms(1) [of t] keys_changed [OF assms(2)] by (simp add: fun_eq_iff)
  then show "weight js S' t = weight js S t" by (simp add: weight_sum)
qed

lemma insertion_step:
  assumes "settled c S" and "zs_ok d" and "\<forall>t. zs_get d t = in_set (all_rows c) t - in_set S t"
    and "S \<subseteq> all_rows c" and "consequences (rules c) S \<subseteq> all_rows c"
  obtains acc c1 c2 nd where "fixpoint_round d c = Some (acc, c1)" "insertion_rows acc c1 zs_new = Some (c2, nd)"
    "core c2 = core c" "rules c2 = rules c" "settled c2 (all_rows c)" "zs_ok nd" "drift c2 = drift c"
    "all_rows c2 = all_rows c \<union> consequences (rules c) (all_rows c)"
    "\<forall>t. zs_get nd t = in_set (all_rows c2) t - in_set (all_rows c) t"
proof -
  let ?S' = "all_rows c" and ?js = "rules c"
  have c: "base_ok c" "attr_ok c" "exact c S" "plans_ok (plans c) (extent c)" "extent_of (extent c) S"
    using assms(1) by (simp_all add: settled_def)
  have e: "extent_of (pe_add_assign (extent c) d) ?S'"
    by (rule extent_of_add [OF c(5) assms(2)]) (use assms(3) in \<open>simp add: in_set_def\<close>)
  obtain acc ps where round: "fixpoint_round d c = Some (acc, c\<lparr>plans := ps, extent := pe_add_assign (extent c) d\<rparr>)"
    "rules_of ps = ?js" "plans_ok ps (pe_add_assign (extent c) d)" "bt_ok acc"
    "\<And>t r. dsum (deltas_at acc t) r = rule_weight ?js ?S' t r - rule_weight ?js S t r"
    using fixpoint_round_spec [OF c(4,5) assms(2) e] by blast
  define c1 where "c1 = c\<lparr>plans := ps, extent := pe_add_assign (extent c) d\<rparr>"
  have c1: "core c1 = core c" "drift c1 = drift c" "base_ok c1" "all_rows c1 = ?S'" "rule_rows c1 = rule_rows c"
    "weights_ok c1" "\<And>t r. wmap c1 t r = rule_weight ?js S t r" "plans c1 = ps" "rule_attr c1 = rule_attr c"
    "extent c1 = pe_add_assign (extent c) d"
    using c(1,3) by (simp_all add: c1_def exact_def)
  have "\<exists>c' nd' N. insertion_rows acc c1 zs_new = Some (c', nd') \<and> core c' = core c1 \<and> plans c' = plans c1 \<and> extent c' = extent c1
    \<and> weights_ok c' \<and> base_ok c' \<and> zs_ok nd'
    \<and> (\<forall>t r. wmap c' t r = wmap c1 t r + dsum (deltas_at acc t) r)
    \<and> N = {t \<in> fst ` set acc. total_weight c1 t \<le> 0 \<and> 0 < total_weight c' t \<and> t \<notin> all_rows c1}
    \<and> rule_rows c' = rule_rows c1 \<union> N
    \<and> (\<forall>t. t \<notin> N \<longrightarrow> bt_get (rule_attr c') t = bt_get (rule_attr c1) t)
    \<and> (\<forall>t\<in>N. \<forall>r. bt_get (rule_attr c') t = Some r \<longrightarrow> wmap c' t r > 0)
    \<and> (\<forall>t. zs_get nd' t = zs_get zs_new t + (if t \<in> N then 1 else 0)) \<and> drift c' = drift c1"
    by (rule insertion_rows_spec [OF round(4) c1(6,3)])
      (use e c1(4,7) round(5) in \<open>simp_all add: rule_weight_nonneg c1(10) extent_of_def\<close>)
  then obtain c2 nd N where c2: "insertion_rows acc c1 zs_new = Some (c2, nd)" "core c2 = core c1" "plans c2 = plans c1"
    "extent c2 = extent c1" "weights_ok c2" "base_ok c2" "zs_ok nd"
    "\<forall>t r. wmap c2 t r = wmap c1 t r + dsum (deltas_at acc t) r"
    "N = {t \<in> fst ` set acc. total_weight c1 t \<le> 0 \<and> 0 < total_weight c2 t \<and> t \<notin> all_rows c1}"
    "rule_rows c2 = rule_rows c1 \<union> N" "\<forall>t. t \<notin> N \<longrightarrow> bt_get (rule_attr c2) t = bt_get (rule_attr c1) t"
    "\<forall>t\<in>N. \<forall>r. bt_get (rule_attr c2) t = Some r \<longrightarrow> wmap c2 t r > 0"
    "\<forall>t. zs_get nd t = zs_get zs_new t + (if t \<in> N then 1 else 0)" "drift c2 = drift c1" by blast
  have w: "wmap c2 t r = rule_weight ?js ?S' t r" for t r
    using c2(8) c1(7) round(5) by simp
  have tot: "total_weight c2 t = weight ?js ?S' t" "total_weight c1 t = weight ?js S t" for t
    by (simp_all add: total_weight_sum [OF c2(5)] total_weight_sum [OF c1(6)] weight_sum w c1(7))
  have N: "N = consequences ?js ?S' - ?S'"
  proof (intro set_eqI iffI)
    fix t assume "t \<in> consequences ?js ?S' - ?S'"
    then have t: "0 < weight ?js ?S' t" "t \<notin> ?S'" by (simp_all add: weight_pos_iff)
    with assms(5) have 0: "\<not> 0 < weight ?js S t" by (auto simp: weight_pos_iff)
    then have "t \<in> fst ` set acc" using weight_unchanged(2) [OF round(5)] t(1) by metis
    with t 0 show "t \<in> N" unfolding c2(9) tot c1(4) by simp
  next
    fix t assume "t \<in> N"
    then show "t \<in> consequences ?js ?S' - ?S'" unfolding c2(9) tot c1(4) by (simp add: weight_pos_iff)
  qed
  have rows: "all_rows c2 = ?S' \<union> consequences ?js ?S'"
    using core_rows [of c2 c] c2(2,10) c1(1,5) N by (auto simp: all_rows_def)
  have mono: "rule_weight ?js S t r \<le> rule_weight ?js ?S' t r" for t r by (rule rule_weight_mono [OF assms(4)])
  have "attr_ok c2" unfolding attr_ok_def
  proof (intro allI impI)
    fix t r assume a: "bt_get (rule_attr c2) t = Some r"
    show "0 < wmap c2 t r"
    proof (cases "t \<in> N")
      case True
      with c2(12) a show ?thesis by blast
    next
      case False
      with c2(11) a have "bt_get (rule_attr c) t = Some r" unfolding c1(9) by metis
      with c(2) have "0 < wmap c t r" unfolding attr_ok_def by blast
      with c(3) mono [of t r] show ?thesis unfolding w exact_def by (metis order_less_le_trans)
    qed
  qed
  moreover have "exact c2 ?S'" using c2(3,5) c1(8) round(2) w by (simp add: exact_def)
  ultimately have set: "settled c2 ?S'"
    unfolding settled_def using c2(6) c2(3,4) c1(8,10) round(3) e by simp
  show ?thesis
  proof (rule that [of acc c1 c2 nd])
    show "fixpoint_round d c = Some (acc, c1)" using round(1) by (simp add: c1_def)
    show "\<forall>t. zs_get nd t = in_set (all_rows c2) t - in_set ?S' t"
      using c2(13) unfolding N rows by (auto simp: in_set_def)
  qed (use c2(1,2,3,7,14) c1(1,2,8) round(2) set rows in simp_all)
qed

definition saturated :: "circuit \<Rightarrow> circuit \<Rightarrow> bool" where
  "saturated c c' \<longleftrightarrow> core c' = core c \<and> rules c' = rules c \<and> settled c' (all_rows c')
     \<and> all_rows c' = saturation (rules c) (base_rows c) \<and> drift c' = drift c"

text \<open>What a round loop returns is saturated, and it returns when the saturation has at most as many new rows as rounds.\<close>

lemma insertion_rounds_spec:
  assumes "settled c S" and "zs_ok d" and "\<forall>t. zs_get d t = in_set (all_rows c) t - in_set S t"
    and "S \<subseteq> all_rows c" and "consequences (rules c) S \<subseteq> all_rows c"
    and "all_rows c \<subseteq> saturation (rules c) (base_rows c)"
  shows "(card (saturation (rules c) (base_rows c) - S) \<le> n \<longrightarrow> insertion_rounds n d c \<noteq> None)
    \<and> (\<forall>c'. insertion_rounds n d c = Some c' \<longrightarrow> saturated c c')"
  using assms
proof (induction n arbitrary: c d S)
  case (0 c d S)
  let ?sat = "saturation (rules c) (base_rows c)"
  have empty: "zs_is_empty d \<longleftrightarrow> all_rows c = S" using zs_empty_iff [OF 0(2)] 0(3) in_set_eq [of "all_rows c" S] by simp
  have sat: "S = ?sat" if "all_rows c = S"
    using 0(4-6) that by (intro saturation_eqI) (auto simp: all_rows_def)
  have "all_rows c = S" if "card (?sat - S) \<le> 0" using that 0(4,6) by auto
  with empty have ret: "card (?sat - S) \<le> 0 \<longrightarrow> insertion_rounds 0 d c \<noteq> None" by simp
  have "saturated c c'" if "insertion_rounds 0 d c = Some c'" for c'
    using that empty sat 0(1) by (simp add: saturated_def split: if_splits)
  with ret show ?case by blast
next
  case (Suc n c d S)
  let ?sat = "saturation (rules c) (base_rows c)"
  have empty: "zs_is_empty d \<longleftrightarrow> all_rows c = S" using zs_empty_iff [OF Suc(3)] Suc(4) in_set_eq [of "all_rows c" S] by simp
  show ?case
  proof (cases "all_rows c = S")
    case True
    have "S = ?sat" using Suc(5-7) True by (intro saturation_eqI) (auto simp: all_rows_def)
    then have "saturated c c" using Suc(2) True by (simp add: saturated_def)
    then show ?thesis using empty True by simp
  next
    case False
    obtain acc c1 c2 nd where st: "fixpoint_round d c = Some (acc, c1)" "insertion_rows acc c1 zs_new = Some (c2, nd)"
      "core c2 = core c" "rules c2 = rules c" "settled c2 (all_rows c)" "zs_ok nd" "drift c2 = drift c"
      "all_rows c2 = all_rows c \<union> consequences (rules c) (all_rows c)"
      "\<forall>t. zs_get nd t = in_set (all_rows c2) t - in_set (all_rows c) t"
      by (rule insertion_step [OF Suc(2-6)])
    have b: "base_rows c2 = base_rows c" using core_rows [OF st(3)] by simp
    have "consequences (rules c) (all_rows c) \<subseteq> ?sat"
      using plan_consequences_mono [OF Suc(7)] consequences_saturation by blast
    then have sub: "all_rows c2 \<subseteq> saturation (rules c2) (base_rows c2)" using Suc(7) st(4,8) b by simp
    have mono: "all_rows c \<subseteq> all_rows c2" "consequences (rules c2) (all_rows c) \<subseteq> all_rows c2" using st(4,8) by auto
    have run: "insertion_rounds (Suc n) d c = insertion_rounds n nd c2" using empty False st(1,2) by simp
    note IH = Suc(1) [OF st(5,6,9) mono sub]
    have "?sat - all_rows c \<subset> ?sat - S" using Suc(5,7) False by blast
    then have card: "card (?sat - all_rows c) < card (?sat - S)" by (intro psubset_card_mono) simp_all
    have "card (?sat - S) \<le> Suc n \<longrightarrow> insertion_rounds n nd c2 \<noteq> None"
      using IH card st(4) b by auto
    moreover have "saturated c c'" if "insertion_rounds n nd c2 = Some c'" for c'
      using IH that st(3,4,7) b by (auto simp: saturated_def)
    ultimately show ?thesis unfolding run by blast
  qed
qed

lemma run_insertion_fixpoint_spec:
  assumes "settled c S" and "zs_ok d" and "\<forall>t. zs_get d t = in_set (all_rows c) t - in_set S t"
    and "S \<subseteq> all_rows c" and "consequences (rules c) S \<subseteq> all_rows c"
    and "all_rows c \<subseteq> saturation (rules c) (base_rows c)"
  shows "card (saturation (rules c) (base_rows c)) \<le> max_fixpoint_rounds \<Longrightarrow> run_insertion_fixpoint d c \<noteq> None"
    and "run_insertion_fixpoint d c = Some c' \<Longrightarrow> saturated c c'"
proof -
  note spec = insertion_rounds_spec [OF assms, of max_fixpoint_rounds]
  have "card (saturation (rules c) (base_rows c) - S) \<le> card (saturation (rules c) (base_rows c))"
    by (rule card_mono) auto
  with spec show "card (saturation (rules c) (base_rows c)) \<le> max_fixpoint_rounds \<Longrightarrow> run_insertion_fixpoint d c \<noteq> None"
    unfolding run_insertion_fixpoint_def by linarith
  show "run_insertion_fixpoint d c = Some c' \<Longrightarrow> saturated c c'"
    using spec unfolding run_insertion_fixpoint_def by blast
qed

end
