(* ===== verification/Circuit_Retract.thy ===== *)
theory Circuit_Retract imports Circuit_Insert begin

text \<open>
  The two-phase retraction fixpoint. Overdeletion removes every uncovered row that lost a derivation;
  what remains is inside the new saturation, because a surviving row that is not a base row has kept
  all of its derivations. Re-derivation grows from there to the new saturation, and the net
  transitions leave exactly the rows that only a rule supports in the hands of a rule.
\<close>

definition bset_set :: "'a bset \<Rightarrow> 'a set" where
  "bset_set S = {x. bset_contains S x}"

lemma bset_set_keys: "bt_ok S \<Longrightarrow> bset_set S = fst ` set S"
  using bt_get_mem [of S _ "()"] by (force simp: bset_set_def bset_contains_def)

lemma bset_set_simps [simp]:
  "bset_set [] = {}" "bset_set (bset_insert x S) = insert x (bset_set S)" "bset_contains S x \<longleftrightarrow> x \<in> bset_set S"
  by (auto simp: bset_set_def bset_contains_def btree_simps)

lemma closure_rows_set: "closure_rows c = bset_set (closure_support c)"
  by (simp add: closure_rows_def)

definition rs_ok :: "retraction_state \<Rightarrow> bool" where
  "rs_ok s \<longleftrightarrow> bt_ok (rs_candidates s) \<and> bt_ok (rs_touched s)"

abbreviation cands :: "retraction_state \<Rightarrow> triple_id set" where
  "cands s \<equiv> bset_set (rs_candidates s)"

abbreviation touched :: "retraction_state \<Rightarrow> triple_id set" where
  "touched s \<equiv> bset_set (rs_touched s)"

definition dtotal :: "(rule_id \<times> int) list \<Rightarrow> int" where
  "dtotal ds = (\<Sum>r\<in>UNIV. dsum ds r)"

lemma dtotal_Nil [simp]: "dtotal [] = 0"
  by (simp add: dtotal_def)

lemma total_weight_diff:
  assumes "weights_ok c" and "weights_ok c'" and "\<And>r. wmap c' t r = wmap c t r + dsum ds r"
  shows "total_weight c' t = total_weight c t + dtotal ds"
  by (simp add: total_weight_sum [OF assms(1)] total_weight_sum [OF assms(2)] assms(3) sum.distrib dtotal_def)

lemma base_rows_iff:
  "t \<in> base_rows c \<longleftrightarrow> zs_get (asserted_base c) t > 0 \<or> t \<in> bset_set (closure_support c)"
  by (simp add: base_rows_def asserted_rows_def closure_rows_set)

section \<open>Rows of an overdeletion round\<close>

definition lost :: "merged \<Rightarrow> circuit \<Rightarrow> retraction_state \<Rightarrow> triple_id \<Rightarrow> bool" where
  "lost acc c s t \<longleftrightarrow> dtotal (deltas_at acc t) < 0 \<and> t \<notin> cands s \<and> t \<notin> base_rows c"

lemma overdelete_rows_spec:
  assumes "bt_ok acc" and "weights_ok c" and "rs_ok s" and "zs_ok nd"
    and "\<And>t r. 0 \<le> wmap c t r + dsum (deltas_at acc t) r"
    and "\<And>t. t \<in> fst ` set acc \<Longrightarrow> zs_get nd t = 0"
  shows "\<exists>W s' nd'. overdelete_rows acc c s nd = (c\<lparr>rule_weights := W\<rparr>, s', nd')
    \<and> weights_ok (c\<lparr>rule_weights := W\<rparr>) \<and> rs_ok s' \<and> zs_ok nd'
    \<and> (\<forall>t r. wmap (c\<lparr>rule_weights := W\<rparr>) t r = wmap c t r + dsum (deltas_at acc t) r)
    \<and> touched s' = touched s \<union> fst ` set acc
    \<and> cands s' = cands s \<union> {t. lost acc c s t}
    \<and> (\<forall>t. zs_get nd' t = zs_get nd t - (if lost acc c s t \<and> 0 < pe_get (extent c) t then 1 else 0))"
  using assms
proof (induction acc arbitrary: c s nd)
  case Nil
  then show ?case by (intro exI [of _ "rule_weights c"]) (simp add: deltas_at_def lost_def)
next
  case (Cons e acc)
  obtain t ds where e: "e = (t, ds)" by (cases e)
  have acc: "bt_ok acc" "t \<notin> fst ` set acc" using Cons(2) e by (auto simp: bt_ok_Cons)
  have at: "deltas_at (e # acc) u = (if u = t then ds else deltas_at acc u)" for u by (simp add: e deltas_at_Cons)
  have nn: "\<And>r. 0 \<le> wmap c t r + dsum ds r" using Cons(6) [of t] by (simp add: at)
  obtain c1 W where c1: "apply_weight_deltas t ds c = (total_weight c t, total_weight c1 t, c1)"
    "c1 = c\<lparr>rule_weights := W\<rparr>" "weights_ok c1"
    "\<And>u r. wmap c1 u r = (if u = t then wmap c t r + dsum ds r else wmap c u r)"
    using apply_weight_deltas_spec [OF Cons(3) nn] by blast
  have tot: "total_weight c1 t = total_weight c t + dtotal ds"
    by (rule total_weight_diff [OF Cons(3) c1(3)]) (simp add: c1(4))
  have b1: "base_rows c1 = base_rows c" "extent c1 = extent c" "asserted_base c1 = asserted_base c"
    "closure_support c1 = closure_support c" by (simp_all add: c1(2) base_rows_def)
  define hit where "hit \<longleftrightarrow> dtotal ds < 0 \<and> t \<notin> cands s \<and> t \<notin> base_rows c"
  define s1 where "s1 = (let s1 = s\<lparr>rs_touched := bset_insert t (rs_touched s)\<rparr>
    in if hit then s1\<lparr>rs_candidates := bset_insert t (rs_candidates s1)\<rparr> else s1)"
  define nd1 where "nd1 = (if hit \<and> 0 < pe_get (extent c) t then zs_add t (- 1) nd else nd)"
  have nd0: "zs_get nd t = 0" using Cons(7) [of t] by (simp add: e)
  have run: "overdelete_rows (e # acc) c s nd = overdelete_rows acc c1 s1 nd1"
    by (auto simp: e c1(1) Let_def tot b1 hit_def s1_def nd1_def nd0 base_rows_iff)
  have s1: "rs_ok s1" "cands s1 = cands s \<union> (if hit then {t} else {})" "touched s1 = insert t (touched s)"
    using Cons(4) by (auto simp: s1_def rs_ok_def Let_def)
  have nd1: "zs_ok nd1" "zs_get nd1 u = zs_get nd u - (if u = t \<and> hit \<and> 0 < pe_get (extent c) t then 1 else 0)" for u
    using Cons(5) by (auto simp: nd1_def zset_simps)
  have hyp: "0 \<le> wmap c1 u r + dsum (deltas_at acc u) r" for u r
    using Cons(6) [of u r] nn [of r] by (cases "u = t") (simp_all add: c1(4) at deltas_at_notin [OF acc(2)])
  have hyp2: "zs_get nd1 u = 0" if "u \<in> fst ` set acc" for u
    using Cons(7) [of u] that acc(2) by (auto simp: nd1(2))
  obtain W' s' nd' where IH: "overdelete_rows acc c1 s1 nd1 = (c1\<lparr>rule_weights := W'\<rparr>, s', nd')"
    "weights_ok (c1\<lparr>rule_weights := W'\<rparr>)" "rs_ok s'" "zs_ok nd'"
    "\<forall>t r. wmap (c1\<lparr>rule_weights := W'\<rparr>) t r = wmap c1 t r + dsum (deltas_at acc t) r"
    "touched s' = touched s1 \<union> fst ` set acc" "cands s' = cands s1 \<union> {t. lost acc c1 s1 t}"
    "\<forall>t. zs_get nd' t = zs_get nd1 t - (if lost acc c1 s1 t \<and> 0 < pe_get (extent c1) t then 1 else 0)"
    using Cons(1) [OF acc(1) c1(3) s1(1) nd1(1) hyp hyp2] by blast
  have lost: "lost (e # acc) c s u \<longleftrightarrow> (if u = t then hit else lost acc c1 s1 u)" for u
    by (simp add: lost_def at hit_def s1(2) b1)
  have lt: "\<not> lost acc c1 s1 t" by (simp add: lost_def deltas_at_notin [OF acc(2)])
  have c1': "c1\<lparr>rule_weights := W'\<rparr> = c\<lparr>rule_weights := W'\<rparr>" by (simp add: c1(2))
  have w: "\<forall>u r. wmap (c\<lparr>rule_weights := W'\<rparr>) u r = wmap c u r + dsum (deltas_at (e # acc) u) r"
  proof (intro allI)
    fix u r
    show "wmap (c\<lparr>rule_weights := W'\<rparr>) u r = wmap c u r + dsum (deltas_at (e # acc) u) r"
      using IH(5) c1(4) [of u r] deltas_at_notin [OF acc(2)] by (cases "u = t") (simp_all add: at c1')
  qed
  have t: "touched s' = touched s \<union> fst ` set (e # acc)" using IH(6) by (simp add: s1 e)
  have cd: "cands s' = cands s \<union> {t. lost (e # acc) c s t}"
    using lt by (auto simp: IH(7) s1(2) lost)
  have nd': "\<forall>u. zs_get nd' u = zs_get nd u - (if lost (e # acc) c s u \<and> 0 < pe_get (extent c) u then 1 else 0)"
  proof
    fix u
    show "zs_get nd' u = zs_get nd u - (if lost (e # acc) c s u \<and> 0 < pe_get (extent c) u then 1 else 0)"
      using IH(8) lt by (cases "u = t") (simp_all add: lost nd1(2) b1)
  qed
  note facts = run [unfolded IH(1) c1'] IH(2) [unfolded c1'] IH(3,4) w t cd nd'
  show ?case by (intro exI [of _ W'] exI [of _ s'] exI [of _ nd'] conjI) (rule facts)+
qed

section \<open>Rows of a re-derivation round\<close>

definition gained :: "merged \<Rightarrow> circuit \<Rightarrow> triple_id \<Rightarrow> bool" where
  "gained acc c t \<longleftrightarrow> total_weight c t \<le> 0 \<and> 0 < total_weight c t + dtotal (deltas_at acc t) \<and> pe_get (extent c) t \<le> 0"

lemma rederive_rows_spec:
  assumes "bt_ok acc" and "weights_ok c" and "rs_ok s" and "zs_ok nd"
    and "\<And>t r. 0 \<le> wmap c t r + dsum (deltas_at acc t) r"
    and "\<And>t. t \<in> fst ` set acc \<Longrightarrow> zs_get nd t = 0"
  shows "\<exists>W s' nd'. rederive_rows acc c s nd = (c\<lparr>rule_weights := W\<rparr>, s', nd')
    \<and> weights_ok (c\<lparr>rule_weights := W\<rparr>) \<and> rs_ok s' \<and> zs_ok nd'
    \<and> (\<forall>t r. wmap (c\<lparr>rule_weights := W\<rparr>) t r = wmap c t r + dsum (deltas_at acc t) r)
    \<and> touched s' = touched s \<union> fst ` set acc \<and> cands s' = cands s
    \<and> (\<forall>t. zs_get nd' t = zs_get nd t + (if gained acc c t then 1 else 0))"
  using assms
proof (induction acc arbitrary: c s nd)
  case Nil
  then show ?case by (intro exI [of _ "rule_weights c"]) (simp add: deltas_at_def gained_def)
next
  case (Cons e acc)
  obtain t ds where e: "e = (t, ds)" by (cases e)
  have acc: "bt_ok acc" "t \<notin> fst ` set acc" using Cons(2) e by (auto simp: bt_ok_Cons)
  have at: "deltas_at (e # acc) u = (if u = t then ds else deltas_at acc u)" for u by (simp add: e deltas_at_Cons)
  have nn: "\<And>r. 0 \<le> wmap c t r + dsum ds r" using Cons(6) [of t] by (simp add: at)
  obtain c1 W where c1: "apply_weight_deltas t ds c = (total_weight c t, total_weight c1 t, c1)"
    "c1 = c\<lparr>rule_weights := W\<rparr>" "weights_ok c1"
    "\<And>u r. wmap c1 u r = (if u = t then wmap c t r + dsum ds r else wmap c u r)"
    using apply_weight_deltas_spec [OF Cons(3) nn] by blast
  have tot: "total_weight c1 u = total_weight c u + (if u = t then dtotal ds else 0)" for u
    using total_weight_diff [OF Cons(3) c1(3), of u "if u = t then ds else []"] c1(4) by (simp split: if_splits)
  have b1: "extent c1 = extent c" by (simp add: c1(2))
  define s1 where "s1 = s\<lparr>rs_touched := bset_insert t (rs_touched s)\<rparr>"
  define nd1 where "nd1 = (if gained (e # acc) c t then zs_add t 1 nd else nd)"
  have nd0: "zs_get nd t = 0" using Cons(7) [of t] by (simp add: e)
  have run: "rederive_rows (e # acc) c s nd = rederive_rows acc c1 s1 nd1"
    by (simp add: e c1(1) Let_def tot b1 s1_def nd1_def nd0 gained_def deltas_at_Cons)
  have s1: "rs_ok s1" "cands s1 = cands s" "touched s1 = insert t (touched s)"
    using Cons(4) by (auto simp: s1_def rs_ok_def)
  have nd1: "zs_ok nd1" "zs_get nd1 u = zs_get nd u + (if u = t \<and> gained (e # acc) c t then 1 else 0)" for u
    using Cons(5) by (auto simp: nd1_def zset_simps)
  have hyp: "0 \<le> wmap c1 u r + dsum (deltas_at acc u) r" for u r
    using Cons(6) [of u r] nn [of r] by (cases "u = t") (simp_all add: c1(4) at deltas_at_notin [OF acc(2)])
  have hyp2: "zs_get nd1 u = 0" if "u \<in> fst ` set acc" for u
    using Cons(7) [of u] that acc(2) by (auto simp: nd1(2))
  obtain W' s' nd' where IH: "rederive_rows acc c1 s1 nd1 = (c1\<lparr>rule_weights := W'\<rparr>, s', nd')"
    "weights_ok (c1\<lparr>rule_weights := W'\<rparr>)" "rs_ok s'" "zs_ok nd'"
    "\<forall>t r. wmap (c1\<lparr>rule_weights := W'\<rparr>) t r = wmap c1 t r + dsum (deltas_at acc t) r"
    "touched s' = touched s1 \<union> fst ` set acc" "cands s' = cands s1"
    "\<forall>t. zs_get nd' t = zs_get nd1 t + (if gained acc c1 t then 1 else 0)"
    using Cons(1) [OF acc(1) c1(3) s1(1) nd1(1) hyp hyp2] by blast
  have gained: "u \<noteq> t \<Longrightarrow> gained (e # acc) c u \<longleftrightarrow> gained acc c1 u" "\<not> gained acc c1 t" for u
    by (simp_all add: gained_def at tot b1 deltas_at_notin [OF acc(2)])
  have c1': "c1\<lparr>rule_weights := W'\<rparr> = c\<lparr>rule_weights := W'\<rparr>" by (simp add: c1(2))
  have w: "\<forall>u r. wmap (c\<lparr>rule_weights := W'\<rparr>) u r = wmap c u r + dsum (deltas_at (e # acc) u) r"
  proof (intro allI)
    fix u r
    show "wmap (c\<lparr>rule_weights := W'\<rparr>) u r = wmap c u r + dsum (deltas_at (e # acc) u) r"
      using IH(5) c1(4) [of u r] deltas_at_notin [OF acc(2)] by (cases "u = t") (simp_all add: at c1')
  qed
  have t: "touched s' = touched s \<union> fst ` set (e # acc)" "cands s' = cands s" using IH(6,7) by (simp_all add: s1 e)
  have nd': "\<forall>u. zs_get nd' u = zs_get nd u + (if gained (e # acc) c u then 1 else 0)"
  proof
    fix u
    show "zs_get nd' u = zs_get nd u + (if gained (e # acc) c u then 1 else 0)"
      using IH(8) gained(1) [of u] gained(2) by (cases "u = t") (simp_all add: nd1(2))
  qed
  note facts = run [unfolded IH(1) c1'] IH(2) [unfolded c1'] IH(3,4) w t nd'
  show ?case by (intro exI [of _ W'] exI [of _ s'] exI [of _ nd'] conjI) (rule facts)+
qed

section \<open>Rounds that move weights only\<close>

definition tracks :: "circuit \<Rightarrow> triple_id set \<Rightarrow> bool" where
  "tracks c E \<longleftrightarrow> exact c E \<and> plans_ok (plans c) (extent c) \<and> extent_of (extent c) E"

definition reweighed :: "circuit \<Rightarrow> circuit \<Rightarrow> bool" where
  "reweighed c c' \<longleftrightarrow> c' = c\<lparr>plans := plans c', extent := extent c', rule_weights := rule_weights c'\<rparr> \<and> rules c' = rules c"

lemma reweighed_refl: "reweighed c c"
  by (simp add: reweighed_def)

lemma reweighed_trans: "reweighed a b \<Longrightarrow> reweighed b c \<Longrightarrow> reweighed a c"
  by (cases a; cases b; cases c) (simp add: reweighed_def)

lemma reweighed_frame:
  assumes "reweighed c c'"
  shows "rules c' = rules c" "core c' = core c" "rule_attr c' = rule_attr c" "drift c' = drift c" "base_ok c' = base_ok c"
    "base_rows c' = base_rows c" "rule_rows c' = rule_rows c" "closure_support c' = closure_support c"
    "asserted_base c' = asserted_base c" "derived_base c' = derived_base c"
proof -
  obtain ps e W where "c' = c\<lparr>plans := ps, extent := e, rule_weights := W\<rparr>" using assms unfolding reweighed_def by metis
  then show "core c' = core c" "rule_attr c' = rule_attr c" "drift c' = drift c" "base_ok c' = base_ok c"
    "base_rows c' = base_rows c" "rule_rows c' = rule_rows c" "closure_support c' = closure_support c"
    "asserted_base c' = asserted_base c" "derived_base c' = derived_base c"
    by (simp_all add: base_rows_def)
  show "rules c' = rules c" using assms by (simp add: reweighed_def)
qed

definition between :: "triple_id zset \<Rightarrow> triple_id set \<Rightarrow> triple_id set \<Rightarrow> bool" where
  "between d E F \<longleftrightarrow> zs_ok d \<and> (\<forall>t. zs_get d t = in_set F t - in_set E t)"

lemma between_empty: "between d E F \<Longrightarrow> zs_is_empty d \<longleftrightarrow> F = E"
  using in_set_eq [of F E] by (simp add: between_def zs_empty_iff)

lemma pe_get_in_set: "extent_of e E \<Longrightarrow> pe_get e t = in_set E t"
  by (simp add: extent_of_def in_set_def)

lemma weight_round:
  assumes "tracks c E" and "between d E F"
  obtains acc c1 where "fixpoint_round d c = Some (acc, c1)" "reweighed c c1" "bt_ok acc" "weights_ok c1"
    "extent_of (extent c1) F" "\<And>t r. 0 \<le> wmap c1 t r + dsum (deltas_at acc t) r"
    "\<And>t. dtotal (deltas_at acc t) = weight (rules c) F t - weight (rules c) E t"
    "\<And>t. total_weight c1 t = weight (rules c) E t"
    "\<And>t r. t \<notin> fst ` set acc \<Longrightarrow> rule_weight (rules c) F t r = rule_weight (rules c) E t r"
    "\<And>W. weights_ok (c1\<lparr>rule_weights := W\<rparr>) \<Longrightarrow> (\<forall>t r. wmap (c1\<lparr>rule_weights := W\<rparr>) t r = wmap c1 t r + dsum (deltas_at acc t) r)
      \<Longrightarrow> tracks (c1\<lparr>rule_weights := W\<rparr>) F \<and> reweighed c (c1\<lparr>rule_weights := W\<rparr>)"
proof -
  let ?js = "rules c"
  have c: "exact c E" "plans_ok (plans c) (extent c)" "extent_of (extent c) E" using assms(1) by (simp_all add: tracks_def)
  have d: "zs_ok d" "\<And>t. zs_get d t = in_set F t - in_set E t" using assms(2) by (simp_all add: between_def)
  have e: "extent_of (pe_add_assign (extent c) d) F"
    by (rule extent_of_add [OF c(3) d(1)]) (simp add: d(2) in_set_def)
  obtain acc ps where r: "fixpoint_round d c = Some (acc, c\<lparr>plans := ps, extent := pe_add_assign (extent c) d\<rparr>)"
    "rules_of ps = ?js" "plans_ok ps (pe_add_assign (extent c) d)" "bt_ok acc"
    "\<And>t r. dsum (deltas_at acc t) r = rule_weight ?js F t r - rule_weight ?js E t r"
    using fixpoint_round_spec [OF c(2,3) d(1) e] by blast
  define c1 where "c1 = c\<lparr>plans := ps, extent := pe_add_assign (extent c) d\<rparr>"
  have c1: "weights_ok c1" "wmap c1 t r = rule_weight ?js E t r" "plans c1 = ps" "extent c1 = pe_add_assign (extent c) d"
    for t r using c(1) by (simp_all add: c1_def exact_def)
  show ?thesis
  proof (rule that [of acc c1])
    show "fixpoint_round d c = Some (acc, c1)" "bt_ok acc" "weights_ok c1" using r(1,4) c1(1) by (simp_all add: c1_def)
    show "reweighed c c1" using r(2) by (simp add: reweighed_def c1_def)
    show "extent_of (extent c1) F" using e by (simp add: c1(4))
    show "0 \<le> wmap c1 t r + dsum (deltas_at acc t) r" for t r by (simp add: c1(2) r(5) rule_weight_nonneg)
    show "dtotal (deltas_at acc t) = weight ?js F t - weight ?js E t" for t
      by (simp add: dtotal_def r(5) sum_subtractf weight_sum)
    show "total_weight c1 t = weight ?js E t" for t by (simp add: total_weight_sum [OF c1(1)] c1(2) weight_sum)
    show "rule_weight ?js F t r = rule_weight ?js E t r" if "t \<notin> fst ` set acc" for t r
      using r(5) [of t r] that by (simp add: deltas_at_notin)
    show "tracks (c1\<lparr>rule_weights := W\<rparr>) F \<and> reweighed c (c1\<lparr>rule_weights := W\<rparr>)"
      if "weights_ok (c1\<lparr>rule_weights := W\<rparr>)"
        "\<forall>t r. wmap (c1\<lparr>rule_weights := W\<rparr>) t r = wmap c1 t r + dsum (deltas_at acc t) r" for W
      using that r(2,3,5) e by (simp add: tracks_def exact_def c1(2-4)) (simp add: reweighed_def c1_def)
  qed
qed

section \<open>Overdeletion\<close>

text \<open>
  \<open>F\<close> is what survives of the first extent \<open>E0\<close> so far, \<open>E\<close> the extent the weights count over: the
  rows between them are still to be folded in.
\<close>

definition shrunk :: "rule_set \<Rightarrow> triple_id set \<Rightarrow> triple_id set \<Rightarrow> triple_id set \<Rightarrow> triple_id set \<Rightarrow> retraction_state \<Rightarrow> bool" where
  "shrunk js B E0 E F s \<longleftrightarrow> rs_ok s \<and> F \<subseteq> E \<and> E \<subseteq> E0 \<and> B \<inter> E0 \<subseteq> F
     \<and> cands s \<inter> B = {} \<and> cands s \<inter> F = {} \<and> cands s \<subseteq> touched s
     \<and> (\<forall>t\<in>E0 - F. t \<in> cands s \<or> weight js E0 t \<le> 0)
     \<and> (\<forall>t\<in>F - B. weight js E t = weight js E0 t)
     \<and> (\<forall>t r. t \<notin> touched s \<longrightarrow> rule_weight js E t r = rule_weight js E0 t r)"

lemma overdelete_step:
  assumes "tracks c E" and "between d E F" and "shrunk (rules c) (base_rows c) E0 E F s"
  obtains acc c1 c2 s' nd G where "fixpoint_round d c = Some (acc, c1)" "overdelete_rows acc c1 s zs_new = (c2, s', nd)"
    "reweighed c c2" "tracks c2 F" "between nd F G" "shrunk (rules c) (base_rows c) E0 F G s'"
    "touched s \<subseteq> touched s'" "cands s \<subseteq> cands s'"
proof -
  let ?js = "rules c" and ?B = "base_rows c"
  have s: "rs_ok s" "F \<subseteq> E" "E \<subseteq> E0" "?B \<inter> E0 \<subseteq> F" "cands s \<inter> ?B = {}" "cands s \<inter> F = {}" "cands s \<subseteq> touched s"
    "\<And>t. t \<in> E0 - F \<Longrightarrow> t \<in> cands s \<or> weight ?js E0 t \<le> 0"
    "\<And>t. t \<in> F - ?B \<Longrightarrow> weight ?js E t = weight ?js E0 t"
    "\<And>t r. t \<notin> touched s \<Longrightarrow> rule_weight ?js E t r = rule_weight ?js E0 t r"
    using assms(3) unfolding shrunk_def by blast+
  obtain acc c1 where r: "fixpoint_round d c = Some (acc, c1)" "reweighed c c1" "bt_ok acc" "weights_ok c1"
    "extent_of (extent c1) F" "\<And>t r. 0 \<le> wmap c1 t r + dsum (deltas_at acc t) r"
    "\<And>t. dtotal (deltas_at acc t) = weight ?js F t - weight ?js E t"
    "\<And>t. total_weight c1 t = weight ?js E t"
    "\<And>t r. t \<notin> fst ` set acc \<Longrightarrow> rule_weight ?js F t r = rule_weight ?js E t r"
    "\<And>W. weights_ok (c1\<lparr>rule_weights := W\<rparr>) \<Longrightarrow> (\<forall>t r. wmap (c1\<lparr>rule_weights := W\<rparr>) t r = wmap c1 t r + dsum (deltas_at acc t) r)
      \<Longrightarrow> tracks (c1\<lparr>rule_weights := W\<rparr>) F \<and> reweighed c (c1\<lparr>rule_weights := W\<rparr>)"
    by (rule weight_round [OF assms(1,2)]) blast
  obtain W s' nd where o: "overdelete_rows acc c1 s zs_new = (c1\<lparr>rule_weights := W\<rparr>, s', nd)"
    "weights_ok (c1\<lparr>rule_weights := W\<rparr>)" "rs_ok s'" "zs_ok nd"
    "\<forall>t r. wmap (c1\<lparr>rule_weights := W\<rparr>) t r = wmap c1 t r + dsum (deltas_at acc t) r"
    "touched s' = touched s \<union> fst ` set acc" "cands s' = cands s \<union> {t. lost acc c1 s t}"
    "\<forall>t. zs_get nd t = zs_get zs_new t - (if lost acc c1 s t \<and> 0 < pe_get (extent c1) t then 1 else 0)"
    using overdelete_rows_spec [OF r(3,4) s(1) zs_new_simps(1) r(6) zs_new_simps(2)] by blast
  define G where "G = F - {t. lost acc c1 s t}"
  have lost: "lost acc c1 s t \<longleftrightarrow> weight ?js F t < weight ?js E t \<and> t \<notin> cands s \<and> t \<notin> ?B" for t
    by (simp add: lost_def r(7) reweighed_frame [OF r(2)])
  have keys: "t \<in> fst ` set acc" if "lost acc c1 s t" for t
    using that by (rule_tac ccontr) (simp add: lost_def deltas_at_notin)
  have nd: "between nd F G" unfolding between_def
  proof (intro conjI allI)
    fix t
    show "zs_get nd t = in_set G t - in_set F t"
      using o(8) pe_get_in_set [OF r(5), of t] by (simp add: G_def in_set_def)
  qed (rule o(4))
  have "shrunk ?js ?B E0 F G s'"
    unfolding shrunk_def
  proof (intro conjI ballI allI impI)
    show "rs_ok s'" "G \<subseteq> F" "F \<subseteq> E0" using o(3) s(2,3) by (auto simp: G_def)
    show "?B \<inter> E0 \<subseteq> G" "cands s' \<inter> ?B = {}" using s(4,5) by (auto simp: G_def o(7) lost)
    show "cands s' \<inter> G = {}" using s(6) by (auto simp: G_def o(7))
    show "cands s' \<subseteq> touched s'" using s(7) keys by (auto simp: o(6,7))
    show "t \<in> cands s' \<or> weight ?js E0 t \<le> 0" if "t \<in> E0 - G" for t
      using s(8) [of t] that by (auto simp: G_def o(7))
    show "weight ?js F t = weight ?js E0 t" if t: "t \<in> G - ?B" for t
    proof -
      have "t \<notin> cands s" "t \<in> F - ?B" using t s(6) by (auto simp: G_def)
      with t have "weight ?js E t \<le> weight ?js F t" by (auto simp: G_def lost)
      with weight_mono [OF s(2), of ?js t] s(9) [OF \<open>t \<in> F - ?B\<close>] show ?thesis by simp
    qed
    show "rule_weight ?js F t r' = rule_weight ?js E0 t r'" if "t \<notin> touched s'" for t r'
      using that s(10) [of t r'] r(9) [of t r'] by (simp add: o(6))
  qed
  with r(1) r(10) [OF o(2,5)] o(1,6,7) nd show ?thesis by (intro that) auto
qed

lemma overdelete_rounds_spec:
  assumes "tracks c E" and "between d E F" and "shrunk (rules c) (base_rows c) E0 E F s"
  shows "(card E \<le> n \<longrightarrow> overdelete_rounds n d c s \<noteq> None)
    \<and> (\<forall>c' s'. overdelete_rounds n d c s = Some (c', s') \<longrightarrow>
         reweighed c c' \<and> (\<exists>E'\<subseteq>F. tracks c' E' \<and> shrunk (rules c) (base_rows c) E0 E' E' s'))"
  using assms
proof (induction n arbitrary: c E d F s)
  case (0 c E d F s)
  note empty = between_empty [OF 0(2)]
  have "F \<subseteq> E" using 0(3) by (simp add: shrunk_def)
  then have "card E \<le> 0 \<longrightarrow> F = E" by auto
  with empty have "card E \<le> 0 \<longrightarrow> overdelete_rounds 0 d c s \<noteq> None" by simp
  moreover have "reweighed c c' \<and> (\<exists>E'\<subseteq>F. tracks c' E' \<and> shrunk (rules c) (base_rows c) E0 E' E' s')"
    if "overdelete_rounds 0 d c s = Some (c', s')" for c' s'
    using that empty 0(1,3) by (auto split: if_splits intro: reweighed_refl)
  ultimately show ?case by blast
next
  case (Suc n c E d F s)
  show ?case
  proof (cases "F = E")
    case True
    with Suc(2-4) between_empty [OF Suc(3)] show ?thesis by (auto intro: reweighed_refl)
  next
    case False
    obtain acc c1 c2 s' nd G where st: "fixpoint_round d c = Some (acc, c1)" "overdelete_rows acc c1 s zs_new = (c2, s', nd)"
      "reweighed c c2" "tracks c2 F" "between nd F G" "shrunk (rules c) (base_rows c) E0 F G s'"
      by (rule overdelete_step [OF Suc(2-4)])
    have "F \<subset> E" using False Suc(4) by (auto simp: shrunk_def)
    then have card: "card F < card E" by (intro psubset_card_mono) simp_all
    note fr = reweighed_frame(1,6) [OF st(3)]
    have sh: "shrunk (rules c2) (base_rows c2) E0 F G s'" unfolding fr by (rule st(6))
    note IH = Suc(1) [OF st(4,5) sh, unfolded fr]
    have run: "overdelete_rounds (Suc n) d c s = overdelete_rounds n nd c2 s'"
      using False between_empty [OF Suc(3)] st(1,2) by (simp add: Let_def)
    have GF: "G \<subseteq> F" using st(6) by (simp add: shrunk_def)
    have "card E \<le> Suc n \<longrightarrow> overdelete_rounds n nd c2 s' \<noteq> None" using IH card by auto
    moreover have "reweighed c c' \<and> (\<exists>E'\<subseteq>F. tracks c' E' \<and> shrunk (rules c) (base_rows c) E0 E' E' s'')"
      if "overdelete_rounds n nd c2 s' = Some (c', s'')" for c' s''
      using IH that GF reweighed_trans [OF st(3)] by (meson order_trans)
    ultimately show ?thesis unfolding run by blast
  qed
qed

text \<open>What survives the overdeletion is derivable from the new base rows.\<close>

lemma survivors_founded:
  assumes "shrunk js B E0 E E s" and "E0 = saturation js B0" and "B0 \<inter> E \<subseteq> B"
  shows "E \<subseteq> saturation js B"
proof -
  let ?T = "saturation js B" and ?X = "{t \<in> E0. t \<in> E \<longrightarrow> t \<in> saturation js B}"
  have s: "E \<subseteq> E0" "\<And>t. t \<in> E - B \<Longrightarrow> weight js E t = weight js E0 t" using assms(1) unfolding shrunk_def by blast+
  have "saturation js B0 \<subseteq> ?X"
  proof (rule least_saturation)
    show "B0 \<subseteq> ?X" using assms(2,3) base_saturation [of B0 js] base_saturation [of B js] by blast
    show "consequences js ?X \<subseteq> ?X"
    proof
      fix t assume t: "t \<in> consequences js ?X"
      then have E0: "t \<in> E0" using consequences_saturation [of js B0] plan_consequences_mono [of ?X E0 js] assms(2) by blast
      moreover have "t \<in> ?T" if "t \<in> E"
      proof (cases "t \<in> B")
        case False
        then have "weight js E0 t \<le> weight js E t" using s(2) that by simp
        then have "t \<in> consequences js (?X \<inter> E)" by (intro weight_kept [OF s(1) _ _ t]) auto
        moreover have "?X \<inter> E \<subseteq> ?T" by blast
        ultimately show ?thesis using plan_consequences_mono [of "?X \<inter> E" ?T js] consequences_saturation [of js B] by blast
      qed (use base_saturation in blast)
      ultimately show "t \<in> ?X" by blast
    qed
  qed
  then show ?thesis using s(1) assms(2) by blast
qed

section \<open>Re-derivation\<close>

definition growing :: "rule_set \<Rightarrow> triple_id set \<Rightarrow> triple_id set \<Rightarrow> triple_id set \<Rightarrow> triple_id set \<Rightarrow> retraction_state \<Rightarrow> bool" where
  "growing js B E0 E F s \<longleftrightarrow> rs_ok s \<and> E \<subseteq> F \<and> F \<subseteq> saturation js B \<and> B \<subseteq> F \<and> consequences js E \<subseteq> F
     \<and> (\<forall>t r. t \<notin> touched s \<longrightarrow> rule_weight js E t r = rule_weight js E0 t r)"

lemma rederive_step:
  assumes "tracks c E" and "between d E F" and "growing (rules c) B E0 E F s"
  obtains acc c1 c2 s' nd G where "fixpoint_round d c = Some (acc, c1)" "rederive_rows acc c1 s zs_new = (c2, s', nd)"
    "reweighed c c2" "tracks c2 F" "between nd F G" "growing (rules c) B E0 F G s'" "touched s \<subseteq> touched s'"
proof -
  let ?js = "rules c"
  have s: "rs_ok s" "E \<subseteq> F" "F \<subseteq> saturation ?js B" "B \<subseteq> F" "consequences ?js E \<subseteq> F"
    "\<And>t r. t \<notin> touched s \<Longrightarrow> rule_weight ?js E t r = rule_weight ?js E0 t r"
    using assms(3) unfolding growing_def by blast+
  obtain acc c1 where r: "fixpoint_round d c = Some (acc, c1)" "reweighed c c1" "bt_ok acc" "weights_ok c1"
    "extent_of (extent c1) F" "\<And>t r. 0 \<le> wmap c1 t r + dsum (deltas_at acc t) r"
    "\<And>t. dtotal (deltas_at acc t) = weight ?js F t - weight ?js E t"
    "\<And>t. total_weight c1 t = weight ?js E t"
    "\<And>t r. t \<notin> fst ` set acc \<Longrightarrow> rule_weight ?js F t r = rule_weight ?js E t r"
    "\<And>W. weights_ok (c1\<lparr>rule_weights := W\<rparr>) \<Longrightarrow> (\<forall>t r. wmap (c1\<lparr>rule_weights := W\<rparr>) t r = wmap c1 t r + dsum (deltas_at acc t) r)
      \<Longrightarrow> tracks (c1\<lparr>rule_weights := W\<rparr>) F \<and> reweighed c (c1\<lparr>rule_weights := W\<rparr>)"
    by (rule weight_round [OF assms(1,2)]) blast
  obtain W s' nd where o: "rederive_rows acc c1 s zs_new = (c1\<lparr>rule_weights := W\<rparr>, s', nd)"
    "weights_ok (c1\<lparr>rule_weights := W\<rparr>)" "rs_ok s'" "zs_ok nd"
    "\<forall>t r. wmap (c1\<lparr>rule_weights := W\<rparr>) t r = wmap c1 t r + dsum (deltas_at acc t) r"
    "touched s' = touched s \<union> fst ` set acc"
    "\<forall>t. zs_get nd t = zs_get zs_new t + (if gained acc c1 t then 1 else 0)"
    using rederive_rows_spec [OF r(3,4) s(1) zs_new_simps(1) r(6) zs_new_simps(2)] by blast
  define G where "G = F \<union> consequences ?js F"
  have gained: "gained acc c1 t \<longleftrightarrow> t \<in> G - F" for t
  proof -
    have "gained acc c1 t \<longleftrightarrow> \<not> 0 < weight ?js E t \<and> 0 < weight ?js F t \<and> t \<notin> F"
      by (simp add: gained_def r(7,8) pe_get_in_set [OF r(5)] in_set_def not_less)
    then show ?thesis using s(5) by (auto simp: weight_pos_iff G_def)
  qed
  have nd: "between nd F G" unfolding between_def
  proof (intro conjI allI)
    fix t
    show "zs_get nd t = in_set G t - in_set F t"
      using o(7) by (simp add: gained in_set_def) (simp add: G_def)
  qed (rule o(4))
  have "growing ?js B E0 F G s'"
    unfolding growing_def
  proof (intro conjI allI impI)
    show "rs_ok s'" "F \<subseteq> G" "B \<subseteq> G" "consequences ?js F \<subseteq> G" using o(3) s(4) by (auto simp: G_def)
    show "G \<subseteq> saturation ?js B"
      using s(3) plan_consequences_mono [OF s(3), of ?js] consequences_saturation [of ?js B] by (simp add: G_def)
    show "rule_weight ?js F t r' = rule_weight ?js E0 t r'" if "t \<notin> touched s'" for t r'
      using that s(6) [of t r'] r(9) [of t r'] by (simp add: o(6))
  qed
  with r(1) r(10) [OF o(2,5)] o(1,6) nd show ?thesis by (intro that) auto
qed

lemma rederive_rounds_spec:
  assumes "tracks c E" and "between d E F" and "growing (rules c) B E0 E F s"
  shows "(card (saturation (rules c) B - E) \<le> n \<longrightarrow> rederive_rounds n d c s \<noteq> None)
    \<and> (\<forall>c' s'. rederive_rounds n d c s = Some (c', s') \<longrightarrow> reweighed c c' \<and> tracks c' (saturation (rules c) B)
      \<and> rs_ok s' \<and> touched s \<subseteq> touched s'
      \<and> (\<forall>t r. t \<notin> touched s' \<longrightarrow> rule_weight (rules c) (saturation (rules c) B) t r = rule_weight (rules c) E0 t r))"
  using assms
proof (induction n arbitrary: c E d F s)
  case (0 c E d F s)
  let ?sat = "saturation (rules c) B"
  note empty = between_empty [OF 0(2)]
  have g: "E \<subseteq> F" "F \<subseteq> ?sat" "B \<subseteq> F" "consequences (rules c) E \<subseteq> F" using 0(3) by (simp_all add: growing_def)
  have "card (?sat - E) \<le> 0 \<longrightarrow> F = E" using g by auto
  with empty have ret: "card (?sat - E) \<le> 0 \<longrightarrow> rederive_rounds 0 d c s \<noteq> None" by simp
  have eq: "?sat = E" if "F = E" using saturation_eqI [of B E "rules c"] g that by simp
  show ?case using ret 0(1,3) by (cases "F = E") (simp_all add: empty reweighed_refl eq growing_def)
next
  case (Suc n c E d F s)
  let ?sat = "saturation (rules c) B"
  have g: "E \<subseteq> F" "F \<subseteq> ?sat" "B \<subseteq> F" "consequences (rules c) E \<subseteq> F" using Suc(4) by (simp_all add: growing_def)
  show ?case
  proof (cases "F = E")
    case True
    then have eq: "?sat = E" using saturation_eqI [of B E "rules c"] g by simp
    have "zs_is_empty d" using between_empty [OF Suc(3)] True by simp
    then show ?thesis using Suc(2,4) by (simp add: reweighed_refl eq growing_def)
  next
    case False
    obtain acc c1 c2 s' nd G where st: "fixpoint_round d c = Some (acc, c1)" "rederive_rows acc c1 s zs_new = (c2, s', nd)"
      "reweighed c c2" "tracks c2 F" "between nd F G" "growing (rules c) B E0 F G s'" "touched s \<subseteq> touched s'"
      by (rule rederive_step [OF Suc(2-4)])
    have "?sat - F \<subset> ?sat - E" using False g by blast
    then have card: "card (?sat - F) < card (?sat - E)" by (intro psubset_card_mono) simp_all
    note fr = reweighed_frame(1) [OF st(3)]
    have gr: "growing (rules c2) B E0 F G s'" unfolding fr by (rule st(6))
    note IH = Suc(1) [OF st(4,5) gr, unfolded fr]
    have run: "rederive_rounds (Suc n) d c s = rederive_rounds n nd c2 s'"
      using False between_empty [OF Suc(3)] st(1,2) by (simp add: Let_def)
    have ret: "card (?sat - E) \<le> Suc n \<longrightarrow> rederive_rounds n nd c2 s' \<noteq> None" using IH card by auto
    have "reweighed c c'" "touched s \<subseteq> touched s''" if "rederive_rounds n nd c2 s' = Some (c', s'')" for c' s''
      using IH that st(7) reweighed_trans [OF st(3), of c'] by blast+
    with IH ret show ?thesis unfolding run by blast
  qed
qed

section \<open>Seeds\<close>

lemma split_seeds_spec:
  assumes "bt_ok es" and "\<forall>m\<in>snd ` set es. m \<noteq> 0" and "zs_ok r1" and "zs_ok r2" and "rs_ok s"
  shows "\<exists>r1' r2' s'. split_seeds es c r1 r2 s = (r1', r2', s') \<and> zs_ok r1' \<and> zs_ok r2' \<and> rs_ok s'
    \<and> (\<forall>t. zs_get r1' t = zs_get r1 t + min 0 (zs_get es t)) \<and> (\<forall>t. zs_get r2' t = zs_get r2 t + max 0 (zs_get es t))
    \<and> cands s' = cands s \<union> {t. zs_get es t < 0 \<and> 0 < total_weight c t}
    \<and> touched s' = touched s \<union> {t. zs_get es t < 0 \<and> 0 < total_weight c t}"
  using assms
proof (induction es arbitrary: r1 r2 s)
  case Nil
  then show ?case by simp
next
  case (Cons e es)
  obtain t m where e: "e = (t, m)" by (cases e)
  have ok: "bt_ok es" "\<forall>m\<in>snd ` set es. m \<noteq> 0" "t \<notin> fst ` set es" using Cons(2,3) e by (auto simp: bt_ok_Cons)
  have t0: "zs_get es t = 0" using ok(3) bt_get_eq_None_iff [of es t] by (simp add: zs_get_def)
  define r1a where "r1a = (if m < 0 then zs_add t m r1 else r1)"
  define r2a where "r2a = (if m < 0 then r2 else zs_add t m r2)"
  define sa where "sa = (if m < 0 \<and> total_weight c t > 0
    then s\<lparr>rs_candidates := bset_insert t (rs_candidates s), rs_touched := bset_insert t (rs_touched s)\<rparr> else s)"
  have a: "zs_ok r1a" "zs_ok r2a" "rs_ok sa" using Cons(4-6) by (auto simp: r1a_def r2a_def sa_def rs_ok_def)
  have run: "split_seeds (e # es) c r1 r2 s = split_seeds es c r1a r2a sa" by (simp add: e r1a_def r2a_def sa_def)
  obtain r1' r2' s' where IH: "split_seeds es c r1a r2a sa = (r1', r2', s')" "zs_ok r1'" "zs_ok r2'" "rs_ok s'"
    "\<forall>t. zs_get r1' t = zs_get r1a t + min 0 (zs_get es t)" "\<forall>t. zs_get r2' t = zs_get r2a t + max 0 (zs_get es t)"
    "cands s' = cands sa \<union> {t. zs_get es t < 0 \<and> 0 < total_weight c t}"
    "touched s' = touched sa \<union> {t. zs_get es t < 0 \<and> 0 < total_weight c t}"
    using Cons(1) [OF ok(1,2) a] by blast
  have g: "\<forall>u. zs_get r1' u = zs_get r1 u + min 0 (zs_get (e # es) u)"
    "\<forall>u. zs_get r2' u = zs_get r2 u + max 0 (zs_get (e # es) u)"
    using IH(5,6) t0 by (simp_all add: r1a_def r2a_def zset_simps e zs_get_Cons)
  have sets: "cands s' = cands s \<union> {u. zs_get (e # es) u < 0 \<and> 0 < total_weight c u}"
    "touched s' = touched s \<union> {u. zs_get (e # es) u < 0 \<and> 0 < total_weight c u}"
    using t0 by (auto simp: IH(7,8) sa_def e zs_get_Cons)
  note facts = run [unfolded IH(1)] IH(2-4) g sets
  show ?case by (intro exI [of _ r1'] exI [of _ r2'] exI [of _ s'] conjI) (rule facts)+
qed

lemma reseed_spec:
  assumes "bt_ok S" and "zs_ok seed" and "extent_of (extent c) E" and "\<And>t. zs_get seed t = in_set P t"
    and "P \<inter> E = {}"
  shows "between (reseed c S seed) E (E \<union> P \<union> {t \<in> bset_set S. 0 < total_weight c t})"
proof -
  have "\<forall>xs P seed. zs_ok seed \<longrightarrow> (\<forall>t. zs_get seed t = in_set P t) \<longrightarrow> P \<inter> E = {} \<longrightarrow>
      between (reseed c xs seed) E (E \<union> P \<union> {t \<in> fst ` set xs. 0 < total_weight c t})"
  proof (intro allI impI)
    fix xs P and seed :: "triple_id zset"
    assume "zs_ok seed" "\<forall>t. zs_get seed t = in_set P t" "P \<inter> E = {}"
    then show "between (reseed c xs seed) E (E \<union> P \<union> {t \<in> fst ` set xs. 0 < total_weight c t})"
    proof (induction xs arbitrary: P seed)
      case Nil
      have "in_set P t = in_set (E \<union> P) t - in_set E t" for t using Nil(3) by (auto simp: in_set_def)
      with Nil show ?case by (simp add: reseed_def between_def)
    next
      case (Cons e xs)
      obtain t u where e: "e = (t, u)" by (cases e)
      show ?case
      proof (cases "0 < total_weight c t \<and> t \<notin> E \<union> P")
        case True
        have "pe_get (extent c) t = 0" "zs_get seed t = 0"
          using True Cons(3) by (simp_all add: pe_get_in_set [OF assms(3)] in_set_def)
        then have "reseed c (e # xs) seed = reseed c xs (zs_add t 1 seed)" using True by (simp add: reseed_def e)
        moreover have "between (reseed c xs (zs_add t 1 seed)) E (E \<union> insert t P \<union> {t \<in> fst ` set xs. 0 < total_weight c t})"
          by (rule Cons(1)) (use Cons(2-4) True in \<open>auto simp: zset_simps in_set_def\<close>)
        moreover have "E \<union> insert t P \<union> {t \<in> fst ` set xs. 0 < total_weight c t}
            = E \<union> P \<union> {t \<in> fst ` set (e # xs). 0 < total_weight c t}" using True by (auto simp: e)
        ultimately show ?thesis by simp
      next
        case False
        have "t \<in> E \<union> P \<Longrightarrow> 0 < pe_get (extent c) t + zs_get seed t"
          using Cons(3) by (auto simp: pe_get_in_set [OF assms(3)] in_set_def)
        then have "reseed c (e # xs) seed = reseed c xs seed" using False by (simp add: reseed_def e) linarith
        moreover have "{t \<in> fst ` set (e # xs). 0 < total_weight c t} \<union> (E \<union> P) = {t \<in> fst ` set xs. 0 < total_weight c t} \<union> (E \<union> P)"
          using False by (auto simp: e)
        ultimately show ?thesis using Cons(1) [OF Cons(2-4)] by (simp add: Un_commute)
      qed
    qed
  qed
  with assms show ?thesis by (simp add: bset_set_keys)
qed

section \<open>Net transitions\<close>

definition owner :: "circuit \<Rightarrow> triple_id \<Rightarrow> rule_id option" where
  "owner c t = (if 0 < total_weight c t \<and> (t \<in> rule_rows c \<or> t \<notin> base_rows c) then first_attr_rule c t else None)"

lemma withdraw_rule_row_spec:
  fixes rid :: rule_id
  assumes "base_ok c" and "t \<in> rule_rows c" and "t \<notin> closure_rows c"
  defines "c' \<equiv> withdraw_derived_row t (Rule_Inferred rid) (c\<lparr>rule_attr := bt_remove t (rule_attr c)\<rparr>)"
  shows "base_ok c'" "core c' = core c" "plans c' = plans c" "extent c' = extent c" "rule_weights c' = rule_weights c"
    "drift c' u = drift c u" "bt_get (rule_attr c') u = (if u = t then None else bt_get (rule_attr c) u)"
proof -
  note ok = base_okD [OF assms(1)]
  have cur: "zs_get (derived_base c) t = 1" using ok(4) [of t] assms(2) by simp
  have c': "c' = c\<lparr>rule_attr := bt_remove t (rule_attr c), derived_base := zs_add t (- 1) (derived_base c),
      pending_derived := zs_add (t, Rule_Inferred rid) (- 1) (pending_derived c)\<rparr>"
    by (simp add: c'_def withdraw_derived_row_def emit_derived_def cur)
  show r: "bt_get (rule_attr c') u = (if u = t then None else bt_get (rule_attr c) u)" for u
    by (simp add: c' btree_simps)
  then have rows: "rule_rows c' = rule_rows c - {t}" by (auto simp: rule_rows_def)
  show "core c' = core c" "plans c' = plans c" "extent c' = extent c" "rule_weights c' = rule_weights c"
    by (simp_all add: c' core_def)
  have d: "zs_get (derived_base c') u = zs_get (derived_base c) u - (if u = t then 1 else 0)" for u
    by (simp add: c' zset_simps)
  have cl: "closure_rows c' = closure_rows c" by (simp add: c' closure_rows_def)
  show "base_ok c'" unfolding base_ok_def rows cl d ok(4) using assms(1-3)
    by (auto simp: c' base_ok_def)
  have "zs_sum (pending_derived c') f = zs_sum (pending_derived c) f - f (t, Rule_Inferred rid)" for f
    using ok(2) by (simp add: c' zs_sum_add)
  then show "drift c' u = drift c u" by (simp add: drift_def d)
qed

lemma net_transition_spec:
  assumes "base_ok c" and "weights_ok c" and "0 < total_weight c t \<Longrightarrow> 0 < pe_get (extent c) t"
  shows "\<exists>c'. net_transition t c = Some c' \<and> base_ok c' \<and> core c' = core c \<and> plans c' = plans c \<and> extent c' = extent c
    \<and> rule_weights c' = rule_weights c \<and> drift c' = drift c
    \<and> (\<forall>u. bt_get (rule_attr c') u = (if u = t then owner c t else bt_get (rule_attr c) u))"
proof -
  have cov: "zs_get (asserted_base c) t > 0 \<or> bset_contains (closure_support c) t \<longleftrightarrow> t \<in> base_rows c"
    by (simp add: base_rows_iff)
  have attr: "bt_get (rule_attr c) t \<noteq> None \<longleftrightarrow> t \<in> rule_rows c" by (simp add: rule_rows_def)
  let ?should = "0 < total_weight c t \<and> (t \<in> rule_rows c \<or> t \<notin> base_rows c)"
  have should: "0 < total_weight c t \<and> 0 < pe_get (extent c) t \<and> (t \<in> rule_rows c \<or> t \<notin> base_rows c) \<longleftrightarrow> ?should"
    using assms(3) by blast
  note un = net_transition_def Let_def cov attr should
  show ?thesis
  proof (cases ?should)
    case True
    obtain rid where rid: "first_attr_rule c t = Some rid" using first_attr_rule_spec [OF assms(2), of t] True by blast
    have o: "owner c t = Some rid" using True rid by (simp add: owner_def)
    show ?thesis
    proof (cases "t \<in> rule_rows c")
      case old: True
      let ?c = "c\<lparr>rule_attr := bt_insert t rid (rule_attr c)\<rparr>"
      have "net_transition t c = Some ?c" using True old rid unfolding un by simp
      moreover have g: "bt_get (rule_attr ?c) u = (if u = t then Some rid else bt_get (rule_attr c) u)" for u by (simp add: btree_simps)
      moreover have "rule_rows ?c = rule_rows c" using old by (auto simp: rule_rows_def btree_simps)
      moreover have "closure_rows ?c = closure_rows c" by (simp add: closure_rows_def)
      ultimately show ?thesis using assms(1)
        by (intro exI [of _ ?c]) (simp add: o base_ok_def core_def drift_def fun_eq_iff bt_ok_insert)
    next
      case new: False
      then have n: "t \<notin> closure_rows c \<union> rule_rows c" using True by (simp add: base_rows_def)
      have "net_transition t c = Some (materialize_rule_row t rid c)" using True new rid unfolding un by simp
      then show ?thesis using materialize_rule_row_spec [OF assms(1) n, of rid]
        by (intro exI [of _ "materialize_rule_row t rid c"]) (simp add: o fun_eq_iff)
    qed
  next
    case False
    have o: "owner c t = None" unfolding owner_def by (rule if_not_P [OF False])
    show ?thesis
    proof (cases "bt_get (rule_attr c) t")
      case None
      then have "net_transition t c = Some c" using False unfolding un by (auto simp: rule_rows_def)
      then show ?thesis using assms(1) None by (intro exI [of _ c]) (simp add: o)
    next
      case (Some rid)
      then have t: "t \<in> rule_rows c" by (simp add: rule_rows_def)
      let ?c = "c\<lparr>rule_attr := bt_remove t (rule_attr c)\<rparr>"
      show ?thesis
      proof (cases "t \<in> closure_rows c")
        case True
        then have "net_transition t c = Some ?c" using False Some unfolding un by (auto simp: closure_rows_set)
        moreover have "rule_rows ?c = rule_rows c - {t}" by (auto simp: rule_rows_def btree_simps)
        moreover have "closure_rows ?c = closure_rows c" by (simp add: closure_rows_def)
        ultimately show ?thesis using assms(1) True
          by (intro exI [of _ ?c]) (auto simp: o base_ok_def core_def drift_def fun_eq_iff bt_ok_remove btree_simps)
      next
        case cl: False
        then have "net_transition t c = Some (withdraw_derived_row t (Rule_Inferred rid) ?c)"
          using False Some unfolding un by (auto simp: closure_rows_set)
        then show ?thesis using withdraw_rule_row_spec [OF assms(1) t cl, of rid]
          by (intro exI [of _ "withdraw_derived_row t (Rule_Inferred rid) ?c"]) (simp add: o fun_eq_iff)
      qed
    qed
  qed
qed

lemma total_weight_cong: "rule_weights c' = rule_weights c \<Longrightarrow> total_weight c' = total_weight c \<and> first_attr_rule c' = first_attr_rule c"
  by (simp add: total_weight_def first_attr_rule_def fun_eq_iff)

lemma net_transitions_spec:
  assumes "bt_ok xs" and "base_ok c" and "weights_ok c" and "\<And>t. 0 < total_weight c t \<Longrightarrow> 0 < pe_get (extent c) t"
  shows "\<exists>c'. net_transitions xs c = Some c' \<and> base_ok c' \<and> core c' = core c \<and> plans c' = plans c \<and> extent c' = extent c
    \<and> rule_weights c' = rule_weights c \<and> drift c' = drift c
    \<and> (\<forall>t. bt_get (rule_attr c') t = (if t \<in> fst ` set xs then owner c t else bt_get (rule_attr c) t))"
  using assms
proof (induction xs arbitrary: c)
  case Nil
  then show ?case by simp
next
  case (Cons e xs)
  obtain t u where e: "e = (t, u)" by (cases e)
  have xs: "bt_ok xs" "t \<notin> fst ` set xs" using Cons(2) e by (auto simp: bt_ok_Cons)
  obtain c1 where c1: "net_transition t c = Some c1" "base_ok c1" "core c1 = core c" "plans c1 = plans c" "extent c1 = extent c"
    "rule_weights c1 = rule_weights c" "drift c1 = drift c"
    "\<forall>u. bt_get (rule_attr c1) u = (if u = t then owner c t else bt_get (rule_attr c) u)"
    using net_transition_spec [OF Cons(3,4,5)] by blast
  note cong = total_weight_cong [OF c1(6)] core_rows [OF c1(3)]
  have w1: "weights_ok c1" using Cons(4) weights_ok_cong [OF c1(6)] by simp
  have p1: "\<And>t. 0 < total_weight c1 t \<Longrightarrow> 0 < pe_get (extent c1) t" using Cons(5) cong c1(5) by simp
  obtain c' where IH: "net_transitions xs c1 = Some c'" "base_ok c'" "core c' = core c1" "plans c' = plans c1" "extent c' = extent c1"
    "rule_weights c' = rule_weights c1" "drift c' = drift c1"
    "\<forall>t. bt_get (rule_attr c') t = (if t \<in> fst ` set xs then owner c1 t else bt_get (rule_attr c1) t)"
    using Cons(1) [OF xs(1) c1(2) w1 p1] by blast
  have owner: "owner c1 v = owner c v" if "v \<noteq> t" for v
    unfolding owner_def using that c1(8) cong by (auto simp: rule_rows_def)
  have a: "\<forall>v. bt_get (rule_attr c') v = (if v \<in> fst ` set (e # xs) then owner c v else bt_get (rule_attr c) v)"
  proof
    fix v
    show "bt_get (rule_attr c') v = (if v \<in> fst ` set (e # xs) then owner c v else bt_get (rule_attr c) v)"
      using IH(8) c1(8) xs(2) owner [of v] by (cases "v = t") (simp_all add: e)
  qed
  have run: "net_transitions (e # xs) c = Some c'" by (simp add: e c1(1) IH(1))
  note facts = run IH(2-7) [unfolded c1(3-7)] a
  show ?case by (intro exI [of _ c'] conjI) (rule facts)+
qed

section \<open>The whole fixpoint\<close>

text \<open>
  Before: the extent is the saturation \<open>E0\<close> of the old base rows \<open>B0\<close> and the weights count over it;
  the base rows of the state are the new ones. The seed takes out base rows that ceased (and may take
  out any other uncovered row) and puts in the base rows \<open>E0\<close> does not hold.
\<close>

definition pending :: "circuit \<Rightarrow> triple_id set \<Rightarrow> triple_id set \<Rightarrow> triple_id set \<Rightarrow> triple_id zset \<Rightarrow> bool" where
  "pending c B0 E0 D d \<longleftrightarrow> settled c E0 \<and> E0 = saturation (rules c) B0 \<and> E0 = B0 \<union> rule_rows c
     \<and> B0 - base_rows c \<subseteq> D \<and> D \<subseteq> E0 - base_rows c
     \<and> zs_ok d \<and> (\<forall>t. zs_get d t = in_set (base_rows c - E0) t - in_set D t)"

lemma tracks_settled: "settled c E \<Longrightarrow> tracks c E"
  by (simp add: settled_def tracks_def)

lemma owned_rows:
  assumes "settled c E0" and "E0 = B0 \<union> rule_rows c" and "E1 = saturation js B1" and "js = rules c"
    and "consequences js E0 \<subseteq> E0" and "B1 = base_rows c"
    and "\<And>t. t \<in> B0 - B1 \<Longrightarrow> 0 < weight js E0 t \<Longrightarrow> t \<in> T"
    and "\<And>t r. t \<notin> T \<Longrightarrow> rule_weight js E1 t r = rule_weight js E0 t r"
    and "R = {t. if t \<in> T then 0 < weight js E1 t \<and> (t \<in> rule_rows c \<or> t \<notin> B1) else t \<in> rule_rows c}"
  shows "B1 \<union> R = E1"
proof (rule set_eqI)
  fix t
  have E1: "t \<in> E1 \<longleftrightarrow> t \<in> B1 \<or> 0 < weight js E1 t"
    using saturation_unfold [of js B1] unfolding weight_pos_iff assms(3) by blast
  show "t \<in> B1 \<union> R \<longleftrightarrow> t \<in> E1"
  proof (cases "t \<in> T")
    case True
    then show ?thesis by (auto simp: E1 assms(9))
  next
    case False
    then have w: "weight js E1 t = weight js E0 t" by (simp add: weight_sum assms(8))
    have "t \<in> rule_rows c \<longleftrightarrow> 0 < weight js E0 t" if "t \<notin> B1"
    proof
      assume "t \<in> rule_rows c"
      then obtain r where "bt_get (rule_attr c) t = Some r" by (auto simp: rule_rows_def)
      then have "0 < wmap c t r" using assms(1) by (simp add: settled_def attr_ok_def)
      then have "0 < rule_weight js E0 t r" using assms(1,4) by (simp add: settled_def exact_def)
      also have "rule_weight js E0 t r \<le> (\<Sum>r\<in>UNIV. rule_weight js E0 t r)"
        by (rule member_le_sum) (simp_all add: rule_weight_nonneg)
      finally show "0 < weight js E0 t" by (simp add: weight_sum)
    next
      assume p: "0 < weight js E0 t"
      then have "t \<in> E0" using assms(5) by (auto simp: weight_pos_iff)
      with assms(2,7) that p False show "t \<in> rule_rows c" by blast
    qed
    then show ?thesis using False by (auto simp: E1 w assms(9))
  qed
qed

lemma pendingD:
  assumes "pending c B0 E0 D d"
  shows "settled c E0" "E0 = saturation (rules c) B0" "E0 = B0 \<union> rule_rows c" "B0 - base_rows c \<subseteq> D" "D \<subseteq> E0 - base_rows c"
    "zs_ok d" "\<And>t. zs_get d t = in_set (base_rows c - E0) t - in_set D t" "consequences (rules c) E0 \<subseteq> E0"
proof -
  show "settled c E0" "E0 = B0 \<union> rule_rows c" "B0 - base_rows c \<subseteq> D" "D \<subseteq> E0 - base_rows c"
    "zs_ok d" "\<And>t. zs_get d t = in_set (base_rows c - E0) t - in_set D t" using assms unfolding pending_def by blast+
  show sat: "E0 = saturation (rules c) B0" using assms unfolding pending_def by blast
  show "consequences (rules c) E0 \<subseteq> E0" unfolding sat by (rule consequences_saturation)
qed

lemma split_pending:
  assumes "pending c B0 E0 D d"
  obtains r1 r2 s where "split_seeds d c zs_new zs_new \<lparr>rs_candidates = [], rs_touched = []\<rparr> = (r1, r2, s)"
    "between r1 E0 (E0 - D)" "zs_ok r2" "\<And>t. zs_get r2 t = in_set (base_rows c - E0) t"
    "shrunk (rules c) (base_rows c) E0 E0 (E0 - D) s"
proof -
  let ?js = "rules c" and ?B = "base_rows c"
  note p = pendingD [OF assms]
  have tw: "total_weight c t = weight ?js E0 t" for t using p(1) by (simp add: settled_def exact_total)
  have disj: "D \<inter> (?B - E0) = {}" using p(5) by blast
  have dneg: "zs_get d t < 0 \<longleftrightarrow> t \<in> D" for t using disj by (auto simp: p(7) in_set_def)
  let ?s0 = "\<lparr>rs_candidates = [], rs_touched = []\<rparr>"
  have s0: "rs_ok ?s0" "bt_ok d" "\<forall>m\<in>snd ` set d. m \<noteq> 0" using p(6) by (simp_all add: rs_ok_def zs_ok_def)
  obtain r1 r2 s where sp: "split_seeds d c zs_new zs_new ?s0 = (r1, r2, s)" "zs_ok r1" "zs_ok r2" "rs_ok s"
    "\<forall>t. zs_get r1 t = zs_get zs_new t + min 0 (zs_get d t)" "\<forall>t. zs_get r2 t = zs_get zs_new t + max 0 (zs_get d t)"
    "cands s = cands ?s0 \<union> {t. zs_get d t < 0 \<and> 0 < total_weight c t}"
    "touched s = touched ?s0 \<union> {t. zs_get d t < 0 \<and> 0 < total_weight c t}"
    using split_seeds_spec [OF s0(2,3) zs_new_simps(1) zs_new_simps(1) s0(1), of c] by blast
  have sets: "cands s = {t \<in> D. 0 < weight ?js E0 t}" "touched s = cands s"
    using sp(7,8) by (auto simp: dneg tw)
  have "between r1 E0 (E0 - D)" unfolding between_def
  proof (intro conjI allI)
    fix t
    have "zs_get r1 t = - in_set D t" using sp(5) disj by (auto simp: p(7) in_set_def)
    also have "\<dots> = in_set (E0 - D) t - in_set E0 t" using p(5) by (auto simp: in_set_def)
    finally show "zs_get r1 t = in_set (E0 - D) t - in_set E0 t" .
  qed (rule sp(2))
  moreover have "shrunk ?js ?B E0 E0 (E0 - D) s"
    unfolding shrunk_def using sp(4) p(5) by (auto simp: sets)
  moreover have "zs_get r2 t = in_set (?B - E0) t" for t using sp(6) disj by (auto simp: p(7) in_set_def)
  ultimately show ?thesis using that sp(1,3) by blast
qed

lemma reseed_growing:
  assumes "shrunk js B E0 E E s" and "E \<subseteq> saturation js B" and "consequences js E0 \<subseteq> E0"
    and "exact c E" and "rules c = js" and "extent_of (extent c) E" and "zs_ok seed" and "\<And>t. zs_get seed t = in_set (B - E0) t"
  defines "F \<equiv> E \<union> (B - E0) \<union> {t \<in> cands s. 0 < total_weight c t}"
  shows "between (reseed c (rs_candidates s) seed) E F" and "growing js B E0 E F s"
proof -
  have s: "rs_ok s" "E \<subseteq> E0" "B \<inter> E0 \<subseteq> E" "\<And>t. t \<in> E0 - E \<Longrightarrow> t \<in> cands s \<or> weight js E0 t \<le> 0"
    "\<And>t r. t \<notin> touched s \<Longrightarrow> rule_weight js E t r = rule_weight js E0 t r"
    using assms(1) unfolding shrunk_def by blast+
  have tw: "total_weight c t = weight js E t" for t using exact_total [OF assms(4)] assms(5) by simp
  show "between (reseed c (rs_candidates s) seed) E F" unfolding F_def
    by (rule reseed_spec) (use s(1,2) assms(6-8) in \<open>auto simp: rs_ok_def\<close>)
  have cF: "{t \<in> cands s. 0 < total_weight c t} \<subseteq> consequences js E" by (auto simp: tw weight_pos_iff)
  have cE: "consequences js E \<subseteq> saturation js B" using plan_consequences_mono [OF assms(2), of js] consequences_saturation [of js B] by simp
  show "growing js B E0 E F s" unfolding growing_def
  proof (intro conjI allI impI)
    show "rs_ok s" "E \<subseteq> F" "B \<subseteq> F" using s(1,3) by (auto simp: F_def)
    show "F \<subseteq> saturation js B" using assms(2) cF cE base_saturation [of B js] by (auto simp: F_def)
    show "consequences js E \<subseteq> F"
    proof
      fix t assume t: "t \<in> consequences js E"
      then have w: "0 < weight js E t" by (simp add: weight_pos_iff)
      moreover have "t \<in> E0" "0 < weight js E0 t"
        using t plan_consequences_mono [OF s(2), of js] assms(3) by (auto simp: weight_pos_iff)
      ultimately show "t \<in> F" using s(4) [of t] by (auto simp: F_def tw)
    qed
    show "rule_weight js E t r = rule_weight js E0 t r" if "t \<notin> touched s" for t r by (rule s(5) [OF that])
  qed
qed

text \<open>The net transitions turn the re-derived weights into rows.\<close>

lemma net_saturated:
  assumes "pending c B0 E0 D d" and "reweighed c c2" and "E1 = saturation (rules c) (base_rows c)" and "tracks c2 E1" and "bt_ok T"
    and "\<And>t r. t \<notin> bset_set T \<Longrightarrow> rule_weight (rules c) E1 t r = rule_weight (rules c) E0 t r"
    and "\<And>t. t \<in> D \<Longrightarrow> 0 < weight (rules c) E0 t \<Longrightarrow> t \<in> bset_set T"
  shows "\<exists>c'. net_transitions T c2 = Some c' \<and> saturated c c'"
proof -
  let ?js = "rules c" and ?B = "base_rows c"
  note p = pendingD [OF assms(1)] and fr = reweighed_frame [OF assms(2)]
  have tr: "exact c2 E1" "plans_ok (plans c2) (extent c2)" "extent_of (extent c2) E1" using assms(4) by (simp_all add: tracks_def)
  have tw: "total_weight c2 t = weight ?js E1 t" for t using exact_total [OF tr(1)] fr(1) by simp
  have pos: "0 < pe_get (extent c2) t" if "0 < total_weight c2 t" for t
    using that consequences_saturation [of ?js ?B]
    by (auto simp: tw weight_pos_iff pe_get_in_set [OF tr(3)] in_set_def assms(3))
  have c2: "base_ok c2" "weights_ok c2" using p(1) tr(1) by (simp_all add: settled_def fr(5) exact_def)
  obtain c' where n: "net_transitions T c2 = Some c'" "base_ok c'" "core c' = core c2" "plans c' = plans c2"
    "extent c' = extent c2" "rule_weights c' = rule_weights c2" "drift c' = drift c2"
    "\<forall>t. bt_get (rule_attr c') t = (if t \<in> fst ` set T then owner c2 t else bt_get (rule_attr c2) t)"
    using net_transitions_spec [OF assms(5) c2 pos] by blast
  have attr: "bt_get (rule_attr c') t = (if t \<in> bset_set T then owner c2 t else bt_get (rule_attr c) t)" for t
    using n(8) assms(5) by (simp add: bset_set_keys fr(3))
  have owner: "owner c2 t \<noteq> None \<longleftrightarrow> 0 < weight ?js E1 t \<and> (t \<in> rule_rows c \<or> t \<notin> ?B)" for t
    using first_attr_rule_spec [OF c2(2), of t] by (auto simp: owner_def tw fr(6,7))
  have rr: "rule_rows c' = {t. if t \<in> bset_set T then 0 < weight ?js E1 t \<and> (t \<in> rule_rows c \<or> t \<notin> ?B) else t \<in> rule_rows c}"
    unfolding rule_rows_def [of c'] attr using owner by (auto simp: rule_rows_def)
  have base: "base_rows c' = ?B" using core_rows [OF n(3)] fr(6) by simp
  have all: "all_rows c' = E1"
    unfolding all_rows_def base
    by (rule owned_rows [OF p(1,3) assms(3) refl p(8) refl _ assms(6) rr]) (use p(4) assms(7) in blast)+
  have ex: "exact c' E1" using tr(1) n(4,6) wmap_cong [OF n(6)] weights_ok_cong [OF n(6)] by (simp add: exact_def)
  have "attr_ok c'" unfolding attr_ok_def
  proof (intro allI impI)
    fix t r assume a: "bt_get (rule_attr c') t = Some r"
    show "0 < wmap c' t r"
    proof (cases "t \<in> bset_set T")
      case True
      then have "owner c2 t = Some r" using a attr by simp
      then have "0 < total_weight c2 t" "first_attr_rule c2 t = Some r" by (simp_all add: owner_def split: if_splits)
      then have "0 < wmap c2 t r" using first_attr_rule_spec [OF c2(2), of t] by force
      then show ?thesis using wmap_cong [OF n(6)] by simp
    next
      case False
      then have "0 < wmap c t r" using a attr p(1) by (simp add: settled_def attr_ok_def)
      then have "0 < rule_weight ?js E0 t r" using p(1) by (simp add: settled_def exact_def)
      then show ?thesis using ex assms(6) [OF False] n(4) fr(1) by (simp add: exact_def)
    qed
  qed
  then have "settled c' (all_rows c')" unfolding settled_def all using n(2,4,5) ex tr by simp
  with all n(3,4,7) fr(1,2,4) have "saturated c c'" by (simp add: saturated_def assms(3))
  with n(1) show ?thesis by blast
qed

lemma run_two_phase_fixpoint_spec:
  assumes "pending c B0 E0 D d"
  shows "card E0 \<le> max_fixpoint_rounds \<Longrightarrow> card (saturation (rules c) (base_rows c)) \<le> max_fixpoint_rounds
      \<Longrightarrow> run_two_phase_fixpoint d c \<noteq> None"
    and "run_two_phase_fixpoint d c = Some c' \<Longrightarrow> saturated c c'"
proof -
  let ?js = "rules c" and ?B = "base_rows c" and ?N = max_fixpoint_rounds
  define E1 where "E1 = saturation ?js ?B"
  note p = pendingD [OF assms]
  obtain r1 r2 s where sp: "split_seeds d c zs_new zs_new \<lparr>rs_candidates = [], rs_touched = []\<rparr> = (r1, r2, s)"
    "between r1 E0 (E0 - D)" "zs_ok r2" "\<And>t. zs_get r2 t = in_set (?B - E0) t" "shrunk ?js ?B E0 E0 (E0 - D) s"
    by (rule split_pending [OF assms]) blast
  note over = overdelete_rounds_spec [OF tracks_settled [OF p(1)] sp(2,5), of ?N]
  have rederive: "(card E1 \<le> ?N \<longrightarrow> rederive_rounds ?N (reseed c1 (rs_candidates s1) r2) c1 s1 \<noteq> None)
      \<and> (\<forall>c2 s2. rederive_rounds ?N (reseed c1 (rs_candidates s1) r2) c1 s1 = Some (c2, s2) \<longrightarrow>
           (\<exists>c'. net_transitions (rs_touched s2) c2 = Some c' \<and> saturated c c'))"
    if o: "overdelete_rounds ?N r1 c s = Some (c1, s1)" for c1 s1
  proof -
    obtain E where E: "reweighed c c1" "tracks c1 E" "shrunk ?js ?B E0 E E s1" "E \<subseteq> E0 - D" using over o by blast
    note fr = reweighed_frame(1) [OF E(1)]
    have sub: "E \<subseteq> E1" unfolding E1_def
      by (rule survivors_founded [OF E(3) p(2)]) (use p(4) E(4) in blast)
    have tr: "exact c1 E" "extent_of (extent c1) E" using E(2) by (simp_all add: tracks_def)
    note grow = reseed_growing [OF E(3) sub [unfolded E1_def] p(8) tr(1) fr tr(2) sp(3,4)]
    have s1: "cands s1 \<subseteq> touched s1" "\<And>t. t \<in> E0 - E \<Longrightarrow> t \<in> cands s1 \<or> weight ?js E0 t \<le> 0"
      using E(3) unfolding shrunk_def by blast+
    have gone: "t \<in> touched s1" if "t \<in> D" "0 < weight ?js E0 t" for t
    proof -
      have "t \<in> E0 - E" using that p(5) E(4) by blast
      with s1(2) that(2) have "t \<in> cands s1" by fastforce
      with s1(1) show ?thesis by blast
    qed
    note red = rederive_rounds_spec [OF E(2) grow(1) grow(2) [folded fr], of ?N, unfolded fr, folded E1_def]
    have "card (E1 - E) \<le> card E1" by (rule card_mono) auto
    with red have ret: "card E1 \<le> ?N \<longrightarrow> rederive_rounds ?N (reseed c1 (rs_candidates s1) r2) c1 s1 \<noteq> None" by linarith
    have "\<exists>c'. net_transitions (rs_touched s2) c2 = Some c' \<and> saturated c c'"
      if u: "rederive_rounds ?N (reseed c1 (rs_candidates s1) r2) c1 s1 = Some (c2, s2)" for c2 s2
    proof -
      have c2: "reweighed c1 c2" "tracks c2 E1" "bt_ok (rs_touched s2)" "touched s1 \<subseteq> touched s2"
        "\<And>t r. t \<notin> touched s2 \<Longrightarrow> rule_weight ?js E1 t r = rule_weight ?js E0 t r"
        using red u by (simp_all add: rs_ok_def)
      show ?thesis
        by (rule net_saturated [OF assms reweighed_trans [OF E(1) c2(1)] E1_def c2(2,3,5)]) (use gone c2(4) in blast)+
    qed
    with ret show ?thesis by blast
  qed
  have run: "run_two_phase_fixpoint d c = do {
      (c1, s1) \<leftarrow> overdelete_rounds ?N r1 c s;
      (c2, s2) \<leftarrow> rederive_rounds ?N (reseed c1 (rs_candidates s1) r2) c1 s1;
      net_transitions (rs_touched s2) c2 }"
    by (simp add: run_two_phase_fixpoint_def sp(1))
  show "run_two_phase_fixpoint d c \<noteq> None" if "card E0 \<le> ?N" "card (saturation ?js ?B) \<le> ?N"
  proof -
    obtain c1 s1 where o: "overdelete_rounds ?N r1 c s = Some (c1, s1)" using over \<open>card E0 \<le> ?N\<close> by auto
    then obtain c2 s2 where "rederive_rounds ?N (reseed c1 (rs_candidates s1) r2) c1 s1 = Some (c2, s2)"
      using rederive [OF o] \<open>card (saturation ?js ?B) \<le> ?N\<close> by (auto simp: E1_def)
    with o rederive [OF o] show ?thesis by (auto simp: run)
  qed
  show "saturated c c'" if "run_two_phase_fixpoint d c = Some c'"
    using that rederive by (auto simp: run split: bind_splits)
qed

end
