(* ===== verification/Circuit_Closure.thy ===== *)
theory Circuit_Closure imports Circuit_Retract begin

text \<open>
  The closure passes of a tick. They move rows in and out of the derived base under the support of the
  transitive closures, and note every change of presence in the pending delta, so that the delta stays
  the difference between the rows of the state and the extent.
\<close>

definition sync :: "circuit \<Rightarrow> triple_id zset \<Rightarrow> bool" where
  "sync c d \<longleftrightarrow> zs_ok d \<and> (\<forall>t. pe_get (extent c) t + zs_get d t = in_set (all_rows c) t)"

text \<open>What a closure pass may change.\<close>

definition moved :: "circuit \<Rightarrow> circuit \<Rightarrow> bool" where
  "moved c c' \<longleftrightarrow> base_ok c' \<and> drift c' = drift c \<and> c' = c\<lparr>derived_base := derived_base c',
     closure_support := closure_support c', pending_derived := pending_derived c', closure_plans := closure_plans c'\<rparr>"

lemma moved_refl: "base_ok c \<Longrightarrow> moved c c"
  by (simp add: moved_def)

lemma moved_trans: "moved a b \<Longrightarrow> moved b c \<Longrightarrow> moved a c"
  by (cases a; cases b; cases c) (simp add: moved_def)

lemma moved_frame:
  assumes "moved c c'"
  shows "base_ok c'" "drift c' = drift c" "plans c' = plans c" "extent c' = extent c" "rule_attr c' = rule_attr c"
    "rule_rows c' = rule_rows c" "asserted_base c' = asserted_base c" "asserted_rows c' = asserted_rows c"
    "rule_weights c' = rule_weights c" "feed c' = feed c" "derived_clock c' = derived_clock c"
    "input_log c' = input_log c" "recompute_fallback c' = recompute_fallback c"
proof -
  obtain D S P L where "c' = c\<lparr>derived_base := D, closure_support := S, pending_derived := P, closure_plans := L\<rparr>"
    using assms unfolding moved_def by metis
  then show "plans c' = plans c" "extent c' = extent c" "rule_attr c' = rule_attr c"
    "rule_rows c' = rule_rows c" "asserted_base c' = asserted_base c" "asserted_rows c' = asserted_rows c"
    "rule_weights c' = rule_weights c" "feed c' = feed c" "derived_clock c' = derived_clock c"
    "input_log c' = input_log c" "recompute_fallback c' = recompute_fallback c"
    by (simp_all add: rule_rows_def asserted_rows_def)
  show "base_ok c'" "drift c' = drift c" using assms by (simp_all add: moved_def)
qed

lemma derived_presence: "base_ok c \<Longrightarrow> zs_get (derived_base c) t > 0 \<longleftrightarrow> t \<in> closure_rows c \<union> rule_rows c"
  by (simp add: base_okD(4))

lemma presence: "base_ok c \<Longrightarrow> zs_get (asserted_base c) t > 0 \<or> zs_get (derived_base c) t > 0 \<longleftrightarrow> t \<in> all_rows c"
  by (auto simp: derived_presence all_rows_def base_rows_def asserted_rows_def)

lemma note_sync:
  assumes "base_ok c" and "zs_ok d" and "\<And>u. u \<noteq> t \<Longrightarrow> pe_get (extent c) u + zs_get d u = in_set (all_rows c) u"
    and "pe_get (extent c) t + zs_get d t = in_set S t"
  shows "sync c (note_presence_change c t d)"
proof -
  have "note_presence_change c t d = zs_add t (in_set (all_rows c) t - in_set S t) d"
    unfolding note_presence_change_def Let_def presence [OF assms(1)] assms(4)
    by (simp add: in_set_def) (simp add: zs_add_def)
  with assms show ?thesis by (auto simp: sync_def zset_simps)
qed

section \<open>Withdrawing and promoting\<close>

lemma withdraw_closure_row_spec:
  assumes "base_ok c" and "t \<in> closure_rows c" and "t \<notin> rule_rows c"
  defines "c' \<equiv> withdraw_derived_row t Closure_Inferred (c\<lparr>closure_support := bt_remove t (closure_support c)\<rparr>)"
  shows "moved c c'" "closure_rows c' = closure_rows c - {t}"
proof -
  note ok = base_okD [OF assms(1)]
  have cur: "zs_get (derived_base c) t = 1" using ok(4) [of t] assms(2) by simp
  have c': "c' = c\<lparr>closure_support := bt_remove t (closure_support c), derived_base := zs_add t (- 1) (derived_base c),
      pending_derived := zs_add (t, Closure_Inferred) (- 1) (pending_derived c)\<rparr>"
    by (simp add: c'_def withdraw_derived_row_def emit_derived_def cur)
  show cl: "closure_rows c' = closure_rows c - {t}"
    by (auto simp: c' closure_rows_def bset_contains_def btree_simps simp del: bset_set_simps)
  have d: "zs_get (derived_base c') u = zs_get (derived_base c) u - (if u = t then 1 else 0)" for u
    by (simp add: c' zset_simps)
  have rr: "rule_rows c' = rule_rows c" by (simp add: c' rule_rows_def)
  have "base_ok c'" unfolding base_ok_def rr cl d ok(4) using assms(1-3) by (auto simp: c' base_ok_def)
  moreover have "zs_sum (pending_derived c') f = zs_sum (pending_derived c) f - f (t, Closure_Inferred)" for f
    using ok(2) by (simp add: c' zs_sum_add)
  ultimately show "moved c c'" by (simp add: moved_def fun_eq_iff drift_def d) (simp add: c')
qed

lemma materialize_closure_row_spec:
  assumes "base_ok c" and "t \<notin> closure_rows c \<union> rule_rows c"
  defines "c' \<equiv> materialize_closure_row t c"
  shows "moved c c'" "closure_rows c' = insert t (closure_rows c)"
proof -
  note ok = base_okD [OF assms(1)]
  have c': "c' = c\<lparr>derived_base := zs_add t 1 (derived_base c), closure_support := bset_insert t (closure_support c),
      pending_derived := zs_add (t, Closure_Inferred) 1 (pending_derived c)\<rparr>"
    by (simp add: c'_def materialize_closure_row_def emit_derived_def)
  show cl: "closure_rows c' = insert t (closure_rows c)" by (simp add: c' closure_rows_set)
  have d: "zs_get (derived_base c') u = zs_get (derived_base c) u + (if u = t then 1 else 0)" for u
    by (simp add: c' zset_simps)
  have rr: "rule_rows c' = rule_rows c" by (simp add: c' rule_rows_def)
  have "base_ok c'" unfolding base_ok_def rr cl d ok(4) using assms(1,2) by (auto simp: c' base_ok_def)
  moreover have "zs_sum (pending_derived c') f = zs_sum (pending_derived c) f + f (t, Closure_Inferred)" for f
    using ok(2) by (simp add: c' zs_sum_add)
  ultimately show "moved c c'" by (simp add: moved_def fun_eq_iff drift_def d) (simp add: c')
qed

text \<open>Support for a row the derived base keeps anyway is silent.\<close>

lemma set_support_spec:
  assumes "base_ok c" and "closure_rows (c\<lparr>closure_support := S\<rparr>) \<union> rule_rows c = closure_rows c \<union> rule_rows c" and "bt_ok S"
  shows "moved c (c\<lparr>closure_support := S\<rparr>)" and "all_rows (c\<lparr>closure_support := S\<rparr>) = all_rows c"
proof -
  have rr: "rule_rows (c\<lparr>closure_support := S\<rparr>) = rule_rows c" by (simp add: rule_rows_def)
  have "base_ok (c\<lparr>closure_support := S\<rparr>)"
    unfolding base_ok_def rr assms(2) using assms(1,3) by (simp add: base_ok_def)
  then show "moved c (c\<lparr>closure_support := S\<rparr>)" by (simp add: moved_def drift_def fun_eq_iff)
  show "all_rows (c\<lparr>closure_support := S\<rparr>) = all_rows c"
    using assms(2) by (auto simp: all_rows_def base_rows_def asserted_rows_def rr)
qed

lemma sync_cong: "sync c d \<Longrightarrow> all_rows c' = all_rows c \<Longrightarrow> extent c' = extent c \<Longrightarrow> sync c' d"
  by (simp add: sync_def)

lemma note_moved:
  assumes "moved c c'" and "sync c d" and "\<And>u. u \<noteq> t \<Longrightarrow> u \<in> closure_rows c' \<longleftrightarrow> u \<in> closure_rows c"
  shows "sync c' (note_presence_change c' t d)"
proof (rule note_sync)
  note fr = moved_frame [OF assms(1)]
  show "base_ok c'" "zs_ok d" using fr(1) assms(2) by (simp_all add: sync_def)
  have "u \<in> all_rows c' \<longleftrightarrow> u \<in> all_rows c" if "u \<noteq> t" for u
    using assms(3) [OF that] fr(6,8) by (simp add: all_rows_def base_rows_def)
  then show "pe_get (extent c') u + zs_get d u = in_set (all_rows c') u" if "u \<noteq> t" for u
    using that assms(2) fr(4) by (simp add: sync_def in_set_def)
  show "pe_get (extent c') t + zs_get d t = in_set (all_rows c) t" using assms(2) fr(4) by (simp add: sync_def)
qed

lemma withdraw_rows_spec:
  assumes "base_ok c" and "sync c d" and "withdraw_rows ts c d os = (c', d', os')"
  shows "moved c c' \<and> closure_plans c' = closure_plans c \<and> sync c' d' \<and> closure_rows c' = closure_rows c - set ts
    \<and> set os' = set os \<union> (set ts \<inter> closure_rows c \<inter> rule_rows c)"
  using assms
proof (induction ts arbitrary: c d os)
  case Nil
  then show ?case by (simp add: moved_refl)
next
  case (Cons t ts)
  have mem: "bset_contains (closure_support c) t \<longleftrightarrow> t \<in> closure_rows c" by (simp add: closure_rows_set)
  show ?case
  proof (cases "t \<in> closure_rows c")
    case False
    with Cons(4) mem have "withdraw_rows ts c d os = (c', d', os')" by simp
    from Cons(1) [OF Cons(2,3) this] False show ?thesis by auto
  next
    case True
    let ?c1 = "c\<lparr>closure_support := bt_remove t (closure_support c)\<rparr>"
    have cl1: "closure_rows ?c1 = closure_rows c - {t}"
      by (auto simp: closure_rows_def bset_contains_def btree_simps simp del: bset_set_simps)
    show ?thesis
    proof (cases "t \<in> rule_rows c")
      case owned: True
      then have rest: "withdraw_rows ts ?c1 d (os @ [t]) = (c', d', os')"
        using Cons(4) mem True by (simp add: Let_def rule_rows_def)
      have un: "closure_rows ?c1 \<union> rule_rows c = closure_rows c \<union> rule_rows c" using cl1 owned by auto
      have "bt_ok (bt_remove t (closure_support c))" using Cons(2) by (auto simp: base_ok_def)
      note m = set_support_spec [OF Cons(2) un this]
      note IH = Cons(1) [OF moved_frame(1) [OF m(1)] sync_cong [OF Cons(3) m(2)] rest]
      have "rule_rows ?c1 = rule_rows c" by (simp add: rule_rows_def)
      with IH cl1 moved_trans [OF m(1)] True owned show ?thesis by auto
    next
      case free: False
      define c2 where "c2 = withdraw_derived_row t Closure_Inferred ?c1"
      note m = withdraw_closure_row_spec [OF Cons(2) True free, folded c2_def]
      have rest: "withdraw_rows ts c2 (note_presence_change c2 t d) os = (c', d', os')"
        using Cons(4) mem True free by (simp add: Let_def rule_rows_def c2_def)
      have s: "sync c2 (note_presence_change c2 t d)" by (rule note_moved [OF m(1) Cons(3)]) (simp add: m(2))
      have pl: "closure_plans c2 = closure_plans c" by (simp add: c2_def withdraw_derived_row_def emit_derived_def Let_def)
      from Cons(1) [OF moved_frame(1) [OF m(1)] s rest] moved_trans [OF m(1)] m(2) free True pl
      show ?thesis by (auto simp: moved_frame(6) [OF m(1)])
    qed
  qed
qed

lemma promote_rows_spec:
  assumes "base_ok c" and "sync c d" and "promote_rows ts c d = (c', d')"
  shows "moved c c' \<and> closure_plans c' = closure_plans c \<and> sync c' d' \<and> closure_rows c' = closure_rows c \<union> (set ts - asserted_rows c)"
  using assms
proof (induction ts arbitrary: c d)
  case Nil
  then show ?case by (simp add: moved_refl)
next
  case (Cons t ts)
  have mem: "bset_contains (closure_support c) t \<longleftrightarrow> t \<in> closure_rows c"
    "zs_get (asserted_base c) t > 0 \<longleftrightarrow> t \<in> asserted_rows c" by (simp_all add: closure_rows_set asserted_rows_def)
  note der = derived_presence [OF Cons(2), of t]
  show ?case
  proof (cases "t \<in> closure_rows c \<or> t \<in> asserted_rows c")
    case True
    with Cons(4) have "promote_rows ts c d = (c', d')" unfolding promote_rows.simps mem by simp
    from Cons(1) [OF Cons(2,3) this] True show ?thesis by auto
  next
    case False
    show ?thesis
    proof (cases "t \<in> rule_rows c")
      case owned: True
      let ?c1 = "c\<lparr>closure_support := bset_insert t (closure_support c)\<rparr>"
      have rest: "promote_rows ts ?c1 d = (c', d')"
        using Cons(4) False owned unfolding promote_rows.simps mem der by simp
      have cl1: "closure_rows ?c1 = insert t (closure_rows c)" by (simp add: closure_rows_set)
      have un: "closure_rows ?c1 \<union> rule_rows c = closure_rows c \<union> rule_rows c" using cl1 owned by auto
      have "bt_ok (bset_insert t (closure_support c))" using Cons(2) by (auto simp: base_ok_def)
      note m = set_support_spec [OF Cons(2) un this]
      have "asserted_rows ?c1 = asserted_rows c" by (simp add: asserted_rows_def)
      with Cons(1) [OF moved_frame(1) [OF m(1)] sync_cong [OF Cons(3) m(2)] rest] cl1 moved_trans [OF m(1)] False
      show ?thesis by auto
    next
      case free: False
      define c1 where "c1 = materialize_closure_row t c"
      have n: "t \<notin> closure_rows c \<union> rule_rows c" using False free by simp
      note m = materialize_closure_row_spec [OF Cons(2) n, folded c1_def]
      have rest: "promote_rows ts c1 (note_presence_change c1 t d) = (c', d')"
        using Cons(4) False free unfolding promote_rows.simps mem der by (simp add: Let_def c1_def)
      have s: "sync c1 (note_presence_change c1 t d)" by (rule note_moved [OF m(1) Cons(3)]) (simp add: m(2))
      have pl: "closure_plans c1 = closure_plans c" by (simp add: c1_def materialize_closure_row_def emit_derived_def)
      from Cons(1) [OF moved_frame(1) [OF m(1)] s rest] moved_trans [OF m(1)] m(2) pl False
      show ?thesis by (auto simp: moved_frame(8) [OF m(1)])
    qed
  qed
qed

lemma insert_closure_rows_spec:
  assumes "base_ok c" and "sync c d" and "insert_closure_rows ts c d = (c', d')"
  shows "moved c c' \<and> closure_plans c' = closure_plans c \<and> sync c' d'
    \<and> closure_rows c' = closure_rows c \<union> (set ts - (asserted_rows c - rule_rows c))"
  using assms
proof (induction ts arbitrary: c d)
  case Nil
  then show ?case by (simp add: moved_refl)
next
  case (Cons t ts)
  have mem: "base_presence c t \<longleftrightarrow> t \<in> all_rows c" "zs_get (derived_base c) t \<noteq> 0 \<longleftrightarrow> t \<in> closure_rows c \<union> rule_rows c"
    using presence [OF Cons(2), of t] base_okD(4) [OF Cons(2), of t] unfolding base_presence_def by simp_all
  show ?case
  proof (cases "t \<in> all_rows c")
    case True
    let ?c1 = "c\<lparr>closure_support := bset_insert t (closure_support c)\<rparr>"
    show ?thesis
    proof (cases "t \<in> closure_rows c \<union> rule_rows c")
      case False
      then have "insert_closure_rows ts c d = (c', d')" using Cons(4) True unfolding insert_closure_rows.simps mem by simp
      from Cons(1) [OF Cons(2,3) this] True False show ?thesis by (auto simp: all_rows_def base_rows_def)
    next
      case der: True
      then have rest: "insert_closure_rows ts ?c1 d = (c', d')" using Cons(4) True unfolding insert_closure_rows.simps mem by simp
      have cl1: "closure_rows ?c1 = insert t (closure_rows c)" by (simp add: closure_rows_set)
      have un: "closure_rows ?c1 \<union> rule_rows c = closure_rows c \<union> rule_rows c" using cl1 der by auto
      have "bt_ok (bset_insert t (closure_support c))" using Cons(2) by (auto simp: base_ok_def)
      note m = set_support_spec [OF Cons(2) un this]
      have "asserted_rows ?c1 = asserted_rows c" "rule_rows ?c1 = rule_rows c" by (simp_all add: asserted_rows_def rule_rows_def)
      with Cons(1) [OF moved_frame(1) [OF m(1)] sync_cong [OF Cons(3) m(2)] rest] cl1 moved_trans [OF m(1)] der
      show ?thesis by auto
    qed
  next
    case False
    define c1 where "c1 = materialize_closure_row t c"
    have n: "t \<notin> closure_rows c \<union> rule_rows c" "t \<notin> asserted_rows c" using False by (simp_all add: all_rows_def base_rows_def)
    note m = materialize_closure_row_spec [OF Cons(2) n(1), folded c1_def]
    have rest: "insert_closure_rows ts c1 (note_presence_change c1 t d) = (c', d')"
      using Cons(4) False unfolding insert_closure_rows.simps mem by (simp add: Let_def c1_def)
    have s: "sync c1 (note_presence_change c1 t d)" by (rule note_moved [OF m(1) Cons(3)]) (simp add: m(2))
    have pl: "closure_plans c1 = closure_plans c" by (simp add: c1_def materialize_closure_row_def emit_derived_def)
    from Cons(1) [OF moved_frame(1) [OF m(1)] s rest] moved_trans [OF m(1)] m(2) pl n
    show ?thesis by (auto simp: moved_frame(6,8) [OF m(1)])
  qed
qed

section \<open>One closure rule\<close>

text \<open>The support of a rule's predicate lies inside its closure and covers what is not a base edge.\<close>

definition cl_ok :: "circuit \<Rightarrow> closure_rule \<Rightarrow> bool" where
  "cl_ok c r \<longleftrightarrow> cr_ok r \<and> edges_at (cr_predicate r) (closure_rows c) \<subseteq> (cr_base r)\<^sup>+
     \<and> (cr_base r)\<^sup>+ \<subseteq> edges_at (cr_predicate r) (closure_rows c) \<union> cr_base r"

lemma edges_at_iff [simp]: "(s, ob) \<in> edges_at p S \<longleftrightarrow> (s, p, ob) \<in> S"
  by (simp add: edges_at_def)

lemma edges_at_simps [simp]:
  "edges_at p (S \<union> T) = edges_at p S \<union> edges_at p T" "edges_at p (S - T) = edges_at p S - edges_at p T"
  "edges_at p (triples_of q R) = (if p = q then R else {})"
  by auto

lemma cl_ok_cong: "edges_at (cr_predicate r) (closure_rows c') = edges_at (cr_predicate r) (closure_rows c) \<Longrightarrow> cl_ok c' r = cl_ok c r"
  by (simp add: cl_ok_def)

lemma cr_edges_neg: "zs_ok d \<Longrightarrow> set (cr_edges (\<lambda>m. m < 0) p d) = edges_at p {t. zs_get d t < 0}"
  and cr_edges_pos: "zs_ok d \<Longrightarrow> set (cr_edges (\<lambda>m. m > 0) p d) = edges_at p {t. 0 < zs_get d t}"
  by (force simp: set_cr_edges zs_get_mem)+

lemma retract_rule_spec:
  assumes "base_ok c" and "sync c d" and "cl_ok c r" and "zs_ok ret" and "\<And>t. zs_get ret t < 0 \<Longrightarrow> t \<notin> asserted_rows c"
    and "apply_retract_delta h ret r = (out, r')" and "withdraw_rows (crd_withdraw out) c d os = (c1, d1, os1)"
    and "promote_rows (crd_promote out) c1 d1 = (c2, d2)"
  shows "moved c c2 \<and> closure_plans c2 = closure_plans c \<and> sync c2 d2 \<and> cl_ok c2 r' \<and> cr_predicate r' = cr_predicate r
    \<and> cr_base r' = cr_base r - edges_at (cr_predicate r) {t. zs_get ret t < 0}
    \<and> (\<forall>q. q \<noteq> cr_predicate r \<longrightarrow> edges_at q (closure_rows c2) = edges_at q (closure_rows c))
    \<and> set os \<subseteq> set os1 \<and> set os1 \<subseteq> set os \<union> rule_rows c \<and> closure_rows c \<inter> rule_rows c \<subseteq> closure_rows c2 \<union> set os1"
proof -
  let ?p = "cr_predicate r" and ?R = "cr_base r"
  define N where "N = edges_at ?p {t. zs_get ret t < 0}"
  have r: "cr_ok r" "edges_at ?p (closure_rows c) \<subseteq> ?R\<^sup>+" "?R\<^sup>+ \<subseteq> edges_at ?p (closure_rows c) \<union> ?R"
    using assms(3) by (simp_all add: cl_ok_def)
  have r': "cr_ok r'" "cr_predicate r' = ?p" "cr_base r' = ?R - N"
    "set (crd_withdraw out) = triples_of ?p (?R\<^sup>+ - (?R - N)\<^sup>+)" "set (crd_promote out) = triples_of ?p (N \<inter> ?R \<inter> (?R - N)\<^sup>+)"
    using apply_retract_delta_spec [OF r(1) assms(6)] cr_edges_neg [OF assms(4), of ?p] by (simp_all add: N_def)
  note w = withdraw_rows_spec [OF assms(1,2,7)]
  have w1: "moved c c1" "sync c1 d1" "base_ok c1" using w moved_frame(1) by blast+
  note pr = promote_rows_spec [OF w1(3,2) assms(8)]
  have NA: "(s, ob) \<in> N \<Longrightarrow> (s, ?p, ob) \<notin> asserted_rows c" for s ob using assms(5) by (simp add: N_def)
  have rows: "closure_rows c2 = (closure_rows c - set (crd_withdraw out)) \<union> (set (crd_promote out) - asserted_rows c)"
    using w pr moved_frame(8) [OF w1(1)] by simp
  have edges: "edges_at ?p (closure_rows c2) = (edges_at ?p (closure_rows c) - (?R\<^sup>+ - (?R - N)\<^sup>+)) \<union> (N \<inter> ?R \<inter> (?R - N)\<^sup>+)"
    using NA by (auto simp: rows r'(4,5))
  have sub: "(?R - N)\<^sup>+ \<subseteq> ?R\<^sup>+" by (rule trancl_mono_subset) blast
  have "cl_ok c2 r'" unfolding cl_ok_def r'(2,3) edges using r sub r'(1) by blast
  moreover have "edges_at q (closure_rows c2) = edges_at q (closure_rows c)" if "q \<noteq> ?p" for q
    using that by (auto simp: rows r'(4,5))
  moreover have "closure_plans c2 = closure_plans c" using w pr by simp
  moreover have "moved c c2" using w pr moved_trans [of c c1 c2] by blast
  moreover have "set os \<subseteq> set os1" "set os1 \<subseteq> set os \<union> rule_rows c" "closure_rows c \<inter> rule_rows c \<subseteq> closure_rows c2 \<union> set os1"
    using w unfolding rows by blast+
  ultimately show ?thesis using pr r'(2,3) by (simp add: N_def)
qed

lemma insert_rule_spec:
  assumes "base_ok c" and "sync c d" and "cl_ok c r" and "zs_ok ins"
    and "edges_at (cr_predicate r) (asserted_rows c) \<subseteq> cr_base r \<union> edges_at (cr_predicate r) {t. 0 < zs_get ins t}"
    and "apply_insert_delta h ins r = Some (ts, r')" and "insert_closure_rows ts c d = (c1, d1)"
  shows "moved c c1 \<and> closure_plans c1 = closure_plans c \<and> sync c1 d1 \<and> cl_ok c1 r' \<and> cr_predicate r' = cr_predicate r
    \<and> cr_base r' = cr_base r \<union> edges_at (cr_predicate r) {t. 0 < zs_get ins t}
    \<and> (\<forall>q. q \<noteq> cr_predicate r \<longrightarrow> edges_at q (closure_rows c1) = edges_at q (closure_rows c))
    \<and> closure_rows c \<subseteq> closure_rows c1"
proof -
  let ?p = "cr_predicate r" and ?R = "cr_base r"
  define N where "N = edges_at ?p {t. 0 < zs_get ins t}"
  have r: "cr_ok r" "edges_at ?p (closure_rows c) \<subseteq> ?R\<^sup>+" "?R\<^sup>+ \<subseteq> edges_at ?p (closure_rows c) \<union> ?R"
    using assms(3) by (simp_all add: cl_ok_def)
  have r': "cr_ok r'" "cr_predicate r' = ?p" "cr_base r' = ?R \<union> N" "set ts = triples_of ?p ((?R \<union> N)\<^sup>+ - ?R\<^sup>+)"
    using apply_insert_delta_spec [OF r(1), of h ins] cr_edges_pos [OF assms(4), of ?p] assms(6) by (auto simp: N_def)
  note i = insert_closure_rows_spec [OF assms(1,2,7)]
  have edges: "edges_at ?p (closure_rows c1)
      = edges_at ?p (closure_rows c) \<union> (((?R \<union> N)\<^sup>+ - ?R\<^sup>+) - edges_at ?p (asserted_rows c - rule_rows c))"
    using i by (simp add: r'(4))
  have sub: "?R\<^sup>+ \<subseteq> (?R \<union> N)\<^sup>+" by (rule trancl_mono_subset) blast
  have "edges_at ?p (asserted_rows c - rule_rows c) \<subseteq> ?R \<union> N" using assms(5) by (auto simp: N_def)
  then have "cl_ok c1 r'" unfolding cl_ok_def r'(2,3) edges using r(2,3) sub r'(1) by blast
  moreover have "edges_at q (closure_rows c1) = edges_at q (closure_rows c)" if "q \<noteq> ?p" for q
    using that i by (auto simp: r'(4))
  ultimately show ?thesis using i r'(2,3) by (auto simp: N_def)
qed

lemma insert_rule_returns: "cr_ok r \<Longrightarrow> \<exists>ts r'. apply_insert_delta h ins r = Some (ts, r')"
  using apply_insert_delta_spec by blast

section \<open>The passes\<close>

lemma closure_retract_rules_spec:
  assumes "base_ok c" and "sync c d" and "zs_ok ret" and "\<And>t. zs_get ret t < 0 \<Longrightarrow> t \<notin> asserted_rows c"
    and "\<forall>r\<in>set rs. cl_ok c r" and "distinct (map cr_predicate rs)"
    and "closure_retract_rules h rs ret c d os = (rs', c', d', os')"
  shows "moved c c' \<and> closure_plans c' = closure_plans c \<and> sync c' d' \<and> (\<forall>r\<in>set rs'. cl_ok c' r)
    \<and> map cr_predicate rs' = map cr_predicate rs
    \<and> map cr_base rs' = map (\<lambda>r. cr_base r - edges_at (cr_predicate r) {t. zs_get ret t < 0}) rs
    \<and> (\<forall>q. q \<notin> cr_predicate ` set rs \<longrightarrow> edges_at q (closure_rows c') = edges_at q (closure_rows c))
    \<and> set os' \<subseteq> set os \<union> rule_rows c \<and> closure_rows c \<inter> rule_rows c \<subseteq> closure_rows c' \<union> set os' \<and> set os \<subseteq> set os'"
  using assms
proof (induction rs arbitrary: c d os rs' c' d' os')
  case Nil
  then show ?case by (auto simp: moved_refl)
next
  case (Cons r rs)
  obtain out r1 where a: "apply_retract_delta h ret r = (out, r1)" by (cases "apply_retract_delta h ret r")
  obtain c1 d1 os1 where b: "withdraw_rows (crd_withdraw out) c d os = (c1, d1, os1)" by (cases "withdraw_rows (crd_withdraw out) c d os")
  obtain c2 d2 where p: "promote_rows (crd_promote out) c1 d1 = (c2, d2)" by (cases "promote_rows (crd_promote out) c1 d1")
  obtain rs2 where rest: "closure_retract_rules h rs ret c2 d2 os1 = (rs2, c', d', os')" and rs': "rs' = r1 # rs2"
    using Cons(8) a b p by (auto simp: Let_def split: prod.splits)
  have clr: "cl_ok c r" using Cons(6) by simp
  note st = retract_rule_spec [OF Cons(2,3) clr Cons(4,5) a b p]
  have m: "moved c c2" "sync c2 d2" using st by blast+
  note fr = moved_frame [OF m(1)]
  have out: "cr_predicate r \<notin> cr_predicate ` set rs" "distinct (map cr_predicate rs)" using Cons(7) by simp_all
  have cl2: "\<forall>r\<in>set rs. cl_ok c2 r"
  proof
    fix r2 assume r2: "r2 \<in> set rs"
    then have "cr_predicate r2 \<noteq> cr_predicate r" using out(1) by (metis image_eqI)
    then have "edges_at (cr_predicate r2) (closure_rows c2) = edges_at (cr_predicate r2) (closure_rows c)" using st by blast
    then have "cl_ok c2 r2 = cl_ok c r2" by (rule cl_ok_cong)
    with Cons(6) r2 show "cl_ok c2 r2" by simp
  qed
  have neg: "zs_get ret t < 0 \<Longrightarrow> t \<notin> asserted_rows c2" for t using Cons(5) fr(8) by simp
  note IH = Cons(1) [OF fr(1) m(2) Cons(4) neg cl2 out(2) rest]
  have m': "moved c c'" using IH moved_trans [OF m(1)] by blast
  have same: "edges_at (cr_predicate r1) (closure_rows c') = edges_at (cr_predicate r1) (closure_rows c2)"
    using IH st out(1) by simp
  then have "cl_ok c' r1" using st cl_ok_cong by blast
  moreover have "edges_at q (closure_rows c') = edges_at q (closure_rows c)" if "q \<notin> cr_predicate ` set (r # rs)" for q
    using IH st that by simp
  moreover have "set os' \<subseteq> set os \<union> rule_rows c" "set os \<subseteq> set os'" using IH st fr(6) by blast+
  moreover have "closure_rows c \<inter> rule_rows c \<subseteq> closure_rows c' \<union> set os'"
  proof -
    have "closure_rows c \<inter> rule_rows c \<subseteq> closure_rows c2 \<union> set os1" "closure_rows c2 \<inter> rule_rows c \<subseteq> closure_rows c' \<union> set os'"
      "set os1 \<subseteq> set os'" using IH st fr(6) by blast+
    then show ?thesis by blast
  qed
  moreover have "closure_plans c' = closure_plans c" using IH st by simp
  ultimately show ?case using IH st m' by (simp add: rs')
qed

lemma closure_insertion_rules_spec:
  assumes "base_ok c" and "sync c d" and "zs_ok ins"
    and "\<forall>r\<in>set rs. cl_ok c r \<and> edges_at (cr_predicate r) (asserted_rows c) \<subseteq> cr_base r \<union> edges_at (cr_predicate r) {t. 0 < zs_get ins t}"
    and "distinct (map cr_predicate rs)"
  shows "\<exists>rs' c' d'. closure_insertion_rules h rs ins c d = Some (rs', c', d')
    \<and> moved c c' \<and> closure_plans c' = closure_plans c \<and> sync c' d' \<and> (\<forall>r\<in>set rs'. cl_ok c' r)
    \<and> map cr_predicate rs' = map cr_predicate rs
    \<and> map cr_base rs' = map (\<lambda>r. cr_base r \<union> edges_at (cr_predicate r) {t. 0 < zs_get ins t}) rs
    \<and> (\<forall>q. q \<notin> cr_predicate ` set rs \<longrightarrow> edges_at q (closure_rows c') = edges_at q (closure_rows c))
    \<and> closure_rows c \<subseteq> closure_rows c'"
  using assms
proof (induction rs arbitrary: c d)
  case Nil
  then show ?case by (simp add: moved_refl)
next
  case (Cons r rs)
  have clr: "cl_ok c r" "edges_at (cr_predicate r) (asserted_rows c) \<subseteq> cr_base r \<union> edges_at (cr_predicate r) {t. 0 < zs_get ins t}"
    using Cons(5) by simp_all
  obtain ts r1 where a: "apply_insert_delta h ins r = Some (ts, r1)" using insert_rule_returns clr(1) by (metis cl_ok_def)
  obtain c1 d1 where b: "insert_closure_rows ts c d = (c1, d1)" by (cases "insert_closure_rows ts c d")
  note st = insert_rule_spec [OF Cons(2,3) clr(1) Cons(4) clr(2) a b]
  have m: "moved c c1" "sync c1 d1" using st by blast+
  note fr = moved_frame [OF m(1)]
  have out: "cr_predicate r \<notin> cr_predicate ` set rs" "distinct (map cr_predicate rs)" using Cons(6) by simp_all
  have cl1: "\<forall>r\<in>set rs. cl_ok c1 r \<and> edges_at (cr_predicate r) (asserted_rows c1) \<subseteq> cr_base r \<union> edges_at (cr_predicate r) {t. 0 < zs_get ins t}"
  proof
    fix r2 assume r2: "r2 \<in> set rs"
    then have "cr_predicate r2 \<noteq> cr_predicate r" using out(1) by (metis image_eqI)
    then have "edges_at (cr_predicate r2) (closure_rows c1) = edges_at (cr_predicate r2) (closure_rows c)" using st by blast
    then have "cl_ok c1 r2 = cl_ok c r2" by (rule cl_ok_cong)
    then show "cl_ok c1 r2 \<and> edges_at (cr_predicate r2) (asserted_rows c1) \<subseteq> cr_base r2 \<union> edges_at (cr_predicate r2) {t. 0 < zs_get ins t}"
      using Cons(5) r2 fr(8) by simp
  qed
  obtain rs' c' d' where IH: "closure_insertion_rules h rs ins c1 d1 = Some (rs', c', d')"
    "moved c1 c'" "closure_plans c' = closure_plans c1" "sync c' d'" "\<forall>r\<in>set rs'. cl_ok c' r"
    "map cr_predicate rs' = map cr_predicate rs"
    "map cr_base rs' = map (\<lambda>r. cr_base r \<union> edges_at (cr_predicate r) {t. 0 < zs_get ins t}) rs"
    "\<forall>q. q \<notin> cr_predicate ` set rs \<longrightarrow> edges_at q (closure_rows c') = edges_at q (closure_rows c1)"
    "closure_rows c1 \<subseteq> closure_rows c'"
    using Cons(1) [OF fr(1) m(2) Cons(4) cl1 out(2)] by blast
  have "edges_at (cr_predicate r1) (closure_rows c') = edges_at (cr_predicate r1) (closure_rows c1)"
    using IH(8) st out(1) by simp
  then have "cl_ok c' r1" using st cl_ok_cong by blast
  moreover have "\<forall>q. q \<notin> cr_predicate ` set (r # rs) \<longrightarrow> edges_at q (closure_rows c') = edges_at q (closure_rows c)"
    using IH(8) st by simp
  moreover have "closure_rows c \<subseteq> closure_rows c'" using IH(9) st by blast
  moreover have "closure_insertion_rules h (r # rs) ins c d = Some (r1 # rs', c', d')" using a b IH(1) by simp
  ultimately show ?case using IH(3-7) st moved_trans [OF m(1) IH(2)]
    by (intro exI [of _ "r1 # rs'"] exI [of _ c'] exI [of _ d']) simp
qed

end
