(* ===== verification/Circuit_Tick.thy ===== *)
theory Circuit_Tick imports Circuit_Closure begin

text \<open>
  The state between ticks and the steps of a tick. A circuit between ticks holds the saturation of its
  asserted rows and their transitive closures; draining the log, the closure passes and the rule
  fixpoint bring it to the saturation of the new asserted rows, and the flush publishes the net change
  of the derived base.
\<close>

section \<open>The state between ticks\<close>

definition closed :: "u64 list \<Rightarrow> triple_id set \<Rightarrow> triple_id set" where
  "closed ps A = A \<union> (\<Union>p\<in>set ps. triples_of p ((edges_at p A)\<^sup>+))"

abbreviation closure_predicates :: "circuit \<Rightarrow> u64 list" where
  "closure_predicates c \<equiv> map cr_predicate (closure_plans c)"

text \<open>What a circuit must hold for a set of asserted rows.\<close>

definition entailed :: "circuit \<Rightarrow> triple_id set \<Rightarrow> triple_id set" where
  "entailed c A = saturation (rules c) (closed (closure_predicates c) A)"

definition closures_ok :: "circuit \<Rightarrow> triple_id set \<Rightarrow> bool" where
  "closures_ok c A \<longleftrightarrow> distinct (closure_predicates c)
     \<and> (\<forall>r\<in>set (closure_plans c). cl_ok c r \<and> cr_base r = edges_at (cr_predicate r) A)
     \<and> (\<forall>q. q \<notin> set (closure_predicates c) \<longrightarrow> edges_at q (closure_rows c) = {})"

definition tick_ok :: "circuit \<Rightarrow> bool" where
  "tick_ok c \<longleftrightarrow> settled c (all_rows c) \<and> all_rows c = saturation (rules c) (base_rows c) \<and> closures_ok c (asserted_rows c)"

lemma closures_base:
  assumes "closures_ok c A"
  shows "A \<union> closure_rows c = closed (closure_predicates c) A"
proof (rule set_eqI)
  fix t :: triple_id
  obtain s p ob where t: "t = (s, p, ob)" by (cases t)
  have cl: "t \<in> closed (closure_predicates c) A \<longleftrightarrow> t \<in> A \<or> (p \<in> set (closure_predicates c) \<and> (s, ob) \<in> (edges_at p A)\<^sup>+)"
    by (auto simp: closed_def t)
  have cr: "t \<in> closure_rows c \<longleftrightarrow> (s, ob) \<in> edges_at p (closure_rows c)" "t \<in> A \<longleftrightarrow> (s, ob) \<in> edges_at p A" by (simp_all add: t)
  show "t \<in> A \<union> closure_rows c \<longleftrightarrow> t \<in> closed (closure_predicates c) A"
  proof (cases "p \<in> set (closure_predicates c)")
    case True
    then obtain r where r: "r \<in> set (closure_plans c)" "cr_predicate r = p" by auto
    with assms have "cl_ok c r" "cr_base r = edges_at p A" unfolding closures_ok_def by blast+
    with r(2) have "edges_at p (closure_rows c) \<subseteq> (edges_at p A)\<^sup>+" "(edges_at p A)\<^sup>+ \<subseteq> edges_at p (closure_rows c) \<union> edges_at p A"
      by (simp_all add: cl_ok_def)
    with True show ?thesis unfolding cl Un_iff cr by blast
  next
    case False
    then show ?thesis using assms cl cr by (auto simp: closures_ok_def)
  qed
qed

lemma tick_ok_entailed:
  assumes "tick_ok c"
  shows "{t. base_presence c t} = entailed c (asserted_rows c)" and "all_rows c = entailed c (asserted_rows c)"
proof -
  have b: "base_ok c" "closures_ok c (asserted_rows c)" "all_rows c = saturation (rules c) (base_rows c)"
    using assms by (simp_all add: tick_ok_def settled_def)
  show a: "all_rows c = entailed c (asserted_rows c)"
    using b(3) closures_base [OF b(2)] by (simp add: entailed_def base_rows_def)
  show "{t. base_presence c t} = entailed c (asserted_rows c)"
    unfolding a [symmetric] base_presence_def using presence [OF b(1)] by blast
qed

section \<open>Draining the log\<close>

definition net :: "delta_record list \<Rightarrow> triple_id \<Rightarrow> int" where
  "net recs t = (\<Sum>rec\<leftarrow>recs. if dr_triple rec = t then dr_mult rec else 0)"

definition next_asserted :: "circuit \<Rightarrow> triple_id set" where
  "next_asserted c = {t. 0 < zs_get (asserted_base c) t + net (dl_records (input_log c)) t}"

lemma fold_records:
  assumes "zs_ok z"
  shows "zs_ok (fold (\<lambda>rec. zs_add (dr_triple rec) (dr_mult rec)) recs z)"
    and "zs_get (fold (\<lambda>rec. zs_add (dr_triple rec) (dr_mult rec)) recs z) t = zs_get z t + net recs t"
proof -
  have "zs_ok (fold (\<lambda>rec. zs_add (dr_triple rec) (dr_mult rec)) recs z)
      \<and> zs_get (fold (\<lambda>rec. zs_add (dr_triple rec) (dr_mult rec)) recs z) t = zs_get z t + net recs t"
    using assms
  proof (induction recs arbitrary: z)
    case (Cons rec recs)
    have "zs_ok (zs_add (dr_triple rec) (dr_mult rec) z)" using Cons(2) by auto
    from Cons(1) [OF this] show ?case by (simp add: net_def zset_simps)
  qed (simp add: net_def)
  then show "zs_ok (fold (\<lambda>rec. zs_add (dr_triple rec) (dr_mult rec)) recs z)"
    and "zs_get (fold (\<lambda>rec. zs_add (dr_triple rec) (dr_mult rec)) recs z) t = zs_get z t + net recs t" by blast+
qed

lemma fold_publish: "fold publish_record recs c = c\<lparr>feed := feed c @ recs\<rparr>"
  by (induction recs arbitrary: c) (simp_all add: publish_record_def)

lemma drain_spec:
  assumes "base_ok c"
  obtains z B where "drain c = (dl_records (input_log c), z, map (\<lambda>(t, m). (t, t \<in> asserted_rows c)) z, length (dl_records (input_log c)),
      c\<lparr>input_log := (input_log c)\<lparr>dl_records := []\<rparr>, pending_derived := zs_new, asserted_base := B, feed := feed c @ dl_records (input_log c)\<rparr>)"
    "zs_ok z" "\<And>t. zs_get z t = net (dl_records (input_log c)) t" "zs_ok B"
    "\<And>t. zs_get B t = zs_get (asserted_base c) t + net (dl_records (input_log c)) t"
proof -
  have ok: "zs_ok (asserted_base c)" using assms by (simp add: base_ok_def)
  show ?thesis
    by (rule that [OF _ fold_records(1) [OF zs_new_simps(1)] _ fold_records(1) [OF ok] fold_records(2) [OF ok]])
      (simp_all add: drain_def take_pending_def checkpoint_merge_def fold_publish fold_records(2) asserted_rows_def Let_def)
qed

section \<open>Seeding the fixpoint\<close>

lemma note_add:
  assumes "base_ok c" and "pe_get (extent c) t + zs_get d t = in_set S t"
  shows "note_presence_change c t d = zs_add t (in_set (all_rows c) t - in_set S t) d"
  unfolding note_presence_change_def Let_def presence [OF assms(1)] assms(2)
  by (simp add: in_set_def) (simp add: zs_add_def)

lemma note_flips_sync:
  assumes "base_ok c" and "\<And>t. pe_get (extent c) t = in_set S t"
    and "\<And>t was. (t, was) \<in> set pp \<Longrightarrow> was = (t \<in> asserted_rows c) \<Longrightarrow> t \<in> S \<longleftrightarrow> t \<in> all_rows c"
    and "\<And>t. t \<notin> fst ` set pp \<Longrightarrow> t \<in> S \<longleftrightarrow> t \<in> all_rows c"
  shows "sync c (note_flips c pp)"
proof -
  let ?step = "\<lambda>(t, was_present) d. if was_present \<noteq> (zs_get (asserted_base c) t > 0) then note_presence_change c t d else d"
  have "zs_ok d \<Longrightarrow> (\<And>t was. (t, was) \<in> set pp \<Longrightarrow> was = (t \<in> asserted_rows c) \<Longrightarrow> t \<in> S \<longleftrightarrow> t \<in> all_rows c)
    \<Longrightarrow> (\<And>t. pe_get (extent c) t + zs_get d t = in_set (all_rows c) t
          \<or> (t \<in> fst ` set pp \<and> pe_get (extent c) t + zs_get d t = in_set S t)) \<Longrightarrow> sync c (fold ?step pp d)" for d
  proof (induction pp arbitrary: d)
    case Nil
    then show ?case by (simp add: sync_def)
  next
    case (Cons e pp)
    obtain t was where e: "e = (t, was)" by (cases e)
    define d1 where "d1 = ?step e d"
    obtain X where X: "pe_get (extent c) t + zs_get d t = in_set X t" using Cons(4) [of t] by blast
    have now: "zs_get (asserted_base c) t > 0 \<longleftrightarrow> t \<in> asserted_rows c" by (simp add: asserted_rows_def)
    have d1: "zs_ok d1" "\<And>u. u \<noteq> t \<Longrightarrow> zs_get d1 u = zs_get d u"
      using Cons(2) note_add [OF assms(1) X] by (auto simp: d1_def e zset_simps)
    have t: "pe_get (extent c) t + zs_get d1 t = in_set (all_rows c) t"
    proof (cases "was = (t \<in> asserted_rows c)")
      case True
      have "t \<in> S \<longleftrightarrow> t \<in> all_rows c" by (rule Cons(3) [of t was]) (simp_all add: e True)
      with Cons(4) [of t] have "pe_get (extent c) t + zs_get d t = in_set (all_rows c) t" by (auto simp: in_set_def)
      then show ?thesis using True now by (simp add: d1_def e)
    next
      case False
      then show ?thesis using X now note_add [OF assms(1) X] by (simp add: d1_def e zset_simps)
    qed
    have "sync c (fold ?step pp d1)"
    proof (rule Cons(1) [OF d1(1)])
      show "u \<in> S \<longleftrightarrow> u \<in> all_rows c" if "(u, w) \<in> set pp" "w = (u \<in> asserted_rows c)" for u w
        by (rule Cons(3) [of u w]) (use that in simp_all)
      show "pe_get (extent c) u + zs_get d1 u = in_set (all_rows c) u
          \<or> (u \<in> fst ` set pp \<and> pe_get (extent c) u + zs_get d1 u = in_set S u)" for u
        using Cons(4) [of u] t d1(2) [of u] by (cases "u = t") (auto simp: e)
    qed
    then show ?case by (simp add: d1_def)
  qed
  note step = this [OF zs_new_simps(1) assms(3)]
  have "sync c (fold ?step pp zs_new)"
  proof (rule step)
    show "pe_get (extent c) t + zs_get zs_new t = in_set (all_rows c) t
          \<or> (t \<in> fst ` set pp \<and> pe_get (extent c) t + zs_get zs_new t = in_set S t)" for t
      using assms(2) [of t] assms(4) [of t] by (auto simp: in_set_def)
  qed
  then show ?thesis by (simp add: note_flips_def)
qed

lemma seed_orphans_spec:
  assumes "zs_ok d"
  shows "zs_ok (seed_orphans c os d)" and "zs_get (seed_orphans c os d) t
    = zs_get d t - (if t \<in> set os \<and> t \<notin> base_rows c \<and> t \<in> rule_rows c \<and> zs_get d t = 0 then 1 else 0)"
proof -
  have step: "seed_orphans c (u # os) d = seed_orphans c os
      (if u \<notin> base_rows c \<and> u \<in> rule_rows c \<and> zs_get d u = 0 then zs_add u (- 1) d else d)" for u os d
    by (simp add: seed_orphans_def base_rows_iff rule_rows_def)
  have "zs_ok (seed_orphans c os d) \<and> zs_get (seed_orphans c os d) t
    = zs_get d t - (if t \<in> set os \<and> t \<notin> base_rows c \<and> t \<in> rule_rows c \<and> zs_get d t = 0 then 1 else 0)" using assms
  proof (induction os arbitrary: d)
    case Nil
    then show ?case by (simp add: seed_orphans_def)
  next
    case (Cons u os)
    let ?d = "if u \<notin> base_rows c \<and> u \<in> rule_rows c \<and> zs_get d u = 0 then zs_add u (- 1) d else d"
    have "zs_ok ?d" using Cons(2) by auto
    from Cons(1) [OF this] show ?case unfolding step by (auto simp: zset_simps)
  qed
  then show "zs_ok (seed_orphans c os d)" and "zs_get (seed_orphans c os d) t
    = zs_get d t - (if t \<in> set os \<and> t \<notin> base_rows c \<and> t \<in> rule_rows c \<and> zs_get d t = 0 then 1 else 0)" by blast+
qed

section \<open>The unified path\<close>

text \<open>
  A drained circuit: the extent and the weights still belong to the old rows, the asserted base is
  already the new one, and the two deltas for the closure rules name the edges that went and came.
\<close>

definition drained :: "circuit \<Rightarrow> triple_id set \<Rightarrow> triple_id set \<Rightarrow> triple_id zset \<Rightarrow> triple_id zset \<Rightarrow> bool" where
  "drained c A E ret ins \<longleftrightarrow> settled c E \<and> E = saturation (rules c) (A \<union> closure_rows c) \<and> E = A \<union> closure_rows c \<union> rule_rows c
     \<and> closures_ok c A \<and> zs_ok ret \<and> zs_ok ins \<and> (\<forall>t. zs_get ret t < 0 \<longrightarrow> t \<notin> asserted_rows c)
     \<and> (\<forall>r\<in>set (closure_plans c). edges_at (cr_predicate r) (A - {t. zs_get ret t < 0} \<union> {t. 0 < zs_get ins t})
          = edges_at (cr_predicate r) (asserted_rows c))"

lemma bases_after:
  assumes "map cr_predicate rs = map cr_predicate rs0" and "map cr_base rs = map f rs0"
    and "\<And>r. r \<in> set rs0 \<Longrightarrow> f r = edges_at (cr_predicate r) B" and "r' \<in> set rs"
  shows "cr_base r' = edges_at (cr_predicate r') B"
proof -
  obtain i where i: "i < length rs" "rs ! i = r'" using assms(4) by (auto simp: in_set_conv_nth)
  have "length rs = length rs0" using assms(1) by (rule map_eq_imp_length_eq)
  moreover have "map cr_base rs ! i = map f rs0 ! i" "map cr_predicate rs ! i = map cr_predicate rs0 ! i" using assms(1,2) by simp_all
  ultimately show ?thesis using i assms(3) [of "rs0 ! i"] by simp
qed

lemma retract_pass_spec:
  assumes "drained c A E ret ins" and "sync c d" and "run_closure_retract_pass h ret c d = (c', d', os)"
  shows "moved c c' \<and> sync c' d' \<and> set os \<subseteq> rule_rows c \<and> closure_rows c \<inter> rule_rows c \<subseteq> closure_rows c' \<union> set os
    \<and> closure_predicates c' = closure_predicates c \<and> closures_ok c' (A - {t. zs_get ret t < 0})"
proof -
  have c: "base_ok c" "closures_ok c A" "zs_ok ret" "\<And>t. zs_get ret t < 0 \<Longrightarrow> t \<notin> asserted_rows c"
    using assms(1) by (simp_all add: drained_def settled_def)
  obtain rs c1 where run: "closure_retract_rules h (closure_plans c) ret c d [] = (rs, c1, d', os)" "c' = c1\<lparr>closure_plans := rs\<rparr>"
    using assms(3) by (auto simp: run_closure_retract_pass_def split: prod.splits)
  have cl: "\<forall>r\<in>set (closure_plans c). cl_ok c r" "distinct (closure_predicates c)" using c(2) by (simp_all add: closures_ok_def)
  note sp = closure_retract_rules_spec [OF c(1) assms(2) c(3,4) cl run(1)]
  have same: "closure_rows c' = closure_rows c1" "all_rows c' = all_rows c1"
    by (simp_all add: run(2) closure_rows_def all_rows_def base_rows_def asserted_rows_def rule_rows_def)
  have "moved c1 c'" using sp moved_frame(1) [of c c1] unfolding run(2)
    by (simp add: moved_def base_ok_def drift_def closure_rows_def rule_rows_def fun_eq_iff)
  then have m: "moved c c'" using sp moved_trans by blast
  have sy: "sync c' d'" using sp sync_cong [of c1 d' c'] same(2) by (simp add: run(2))
  have maps: "map cr_predicate rs = closure_predicates c"
    "map cr_base rs = map (\<lambda>r. cr_base r - edges_at (cr_predicate r) {t. zs_get ret t < 0}) (closure_plans c)"
    using sp by blast+
  have base: "cr_base r' = edges_at (cr_predicate r') (A - {t. zs_get ret t < 0})" if r': "r' \<in> set rs" for r'
    by (rule bases_after [OF maps _ r']) (use c(2) in \<open>simp add: closures_ok_def\<close>)
  have preds: "closure_predicates c' = closure_predicates c" using sp by (simp add: run(2))
  have "cl_ok c' r'" if "r' \<in> set rs" for r' using sp that same(1) by (simp add: cl_ok_def)
  moreover have "edges_at q (closure_rows c') = {}" if "q \<notin> set (closure_predicates c')" for q
    using sp that c(2) same(1) unfolding preds by (simp add: closures_ok_def)
  ultimately have "closures_ok c' (A - {t. zs_get ret t < 0})"
    using cl(2) base unfolding closures_ok_def preds by (simp add: run(2))
  then show ?thesis using sp m sy preds same(1) by simp
qed

lemma insertion_pass_spec:
  assumes "base_ok c" and "closures_ok c A" and "zs_ok ins" and "sync c d"
    and "\<And>r. r \<in> set (closure_plans c) \<Longrightarrow>
      edges_at (cr_predicate r) (A \<union> {t. 0 < zs_get ins t}) = edges_at (cr_predicate r) (asserted_rows c)"
  shows "\<exists>c' d'. run_closure_insertion_pass h ins c d = Some (c', d') \<and> moved c c' \<and> sync c' d'
    \<and> closure_rows c \<subseteq> closure_rows c' \<and> closure_predicates c' = closure_predicates c \<and> closures_ok c' (asserted_rows c')"
proof -
  have cl: "distinct (closure_predicates c)" "\<And>r. r \<in> set (closure_plans c) \<Longrightarrow> cr_base r = edges_at (cr_predicate r) A"
    using assms(2) by (simp_all add: closures_ok_def)
  have ready: "\<forall>r\<in>set (closure_plans c). cl_ok c r
      \<and> edges_at (cr_predicate r) (asserted_rows c) \<subseteq> cr_base r \<union> edges_at (cr_predicate r) {t. 0 < zs_get ins t}"
  proof
    fix r assume r: "r \<in> set (closure_plans c)"
    then have "cl_ok c r" using assms(2) by (simp add: closures_ok_def)
    with r show "cl_ok c r
      \<and> edges_at (cr_predicate r) (asserted_rows c) \<subseteq> cr_base r \<union> edges_at (cr_predicate r) {t. 0 < zs_get ins t}"
      unfolding cl(2) [OF r] assms(5) [OF r, symmetric] by simp
  qed
  obtain rs c1 d' where run: "closure_insertion_rules h (closure_plans c) ins c d = Some (rs, c1, d')" and sp: "moved c c1"
    "closure_plans c1 = closure_plans c" "sync c1 d'" "\<forall>r\<in>set rs. cl_ok c1 r"
    "map cr_predicate rs = closure_predicates c"
    "map cr_base rs = map (\<lambda>r. cr_base r \<union> edges_at (cr_predicate r) {t. 0 < zs_get ins t}) (closure_plans c)"
    "\<forall>q. q \<notin> cr_predicate ` set (closure_plans c) \<longrightarrow> edges_at q (closure_rows c1) = edges_at q (closure_rows c)"
    "closure_rows c \<subseteq> closure_rows c1"
    using closure_insertion_rules_spec [OF assms(1,4,3) ready cl(1), of h] by blast
  define c' where "c' = c1\<lparr>closure_plans := rs\<rparr>"
  have same: "closure_rows c' = closure_rows c1" "all_rows c' = all_rows c1" "extent c' = extent c1"
    by (simp_all add: c'_def closure_rows_def all_rows_def base_rows_def asserted_rows_def rule_rows_def)
  have "moved c1 c'" using moved_frame(1) [OF sp(1)] unfolding c'_def
    by (simp add: moved_def base_ok_def drift_def closure_rows_def rule_rows_def fun_eq_iff)
  then have m: "moved c c'" by (rule moved_trans [OF sp(1)])
  have base: "cr_base r' = edges_at (cr_predicate r') (asserted_rows c)" if r': "r' \<in> set rs" for r'
    by (rule bases_after [OF sp(5,6) _ r']) (use assms(5) cl(2) in simp)
  have preds: "closure_predicates c' = closure_predicates c" using sp(5) by (simp add: c'_def)
  have "cl_ok c' r'" if "r' \<in> set rs" for r' using sp(4) that same(1) by (simp add: cl_ok_def)
  moreover have "edges_at q (closure_rows c') = {}" if "q \<notin> set (closure_predicates c')" for q
    using sp(7) that assms(2) same(1) unfolding preds by (simp add: closures_ok_def)
  ultimately have "closures_ok c' (asserted_rows c')"
    using cl(1) base moved_frame(8) [OF m] unfolding closures_ok_def preds by (simp add: c'_def)
  moreover have "run_closure_insertion_pass h ins c d = Some (c', d')" by (simp add: run_closure_insertion_pass_def run c'_def)
  ultimately show ?thesis using m sync_cong [OF sp(3) same(2,3)] sp(8) preds same(1) by blast
qed

text \<open>What goes out of the extent: rows nothing holds any more, and rule rows that lost their closure support.\<close>

lemma moved_settled:
  assumes "moved c c'" and "settled c E"
  shows "settled c' E"
proof -
  note fr = moved_frame [OF assms(1)]
  have w: "wmap c' = wmap c" "weights_ok c' = weights_ok c" using wmap_cong weights_ok_cong fr(9) by blast+
  have "attr_ok c' = attr_ok c" unfolding attr_ok_def fr(5) w ..
  moreover have "exact c' E = exact c E" unfolding exact_def fr(3) w ..
  ultimately show ?thesis using assms(2) fr(1,3,4) by (simp add: settled_def)
qed

lemma seeded_pending:
  assumes "moved c c2" and "settled c E" and "E = saturation (rules c) B" and "E = B \<union> rule_rows c" and "sync c2 d"
    and "set os \<subseteq> rule_rows c" and "B \<inter> rule_rows c \<subseteq> base_rows c2 \<union> set os"
  defines "D \<equiv> (E - all_rows c2) \<union> (set os - base_rows c2)"
  shows "pending c2 B E D (seed_orphans c2 os d)"
proof -
  note fr = moved_frame [OF assms(1)]
  have ext: "pe_get (extent c2) t = in_set E t" for t
    using assms(2) fr(4) by (simp add: settled_def pe_get_in_set)
  have d: "zs_get d t = in_set (all_rows c2) t - in_set E t" for t
  proof -
    have "pe_get (extent c2) t + zs_get d t = in_set (all_rows c2) t" using assms(5) unfolding sync_def by blast
    with ext [of t] show ?thesis by linarith
  qed
  have all: "all_rows c2 = base_rows c2 \<union> rule_rows c" by (simp add: all_rows_def fr(6))
  have get: "zs_get (seed_orphans c2 os d) t = in_set (base_rows c2 - E) t - in_set D t" for t
    using seed_orphans_spec(2) [of d c2 os t] assms(4-6) fr(6)
    by (auto simp: sync_def d all D_def in_set_def)
  show ?thesis
    unfolding pending_def
  proof (intro conjI allI)
    show "settled c2 E" by (rule moved_settled [OF assms(1,2)])
    show "E = saturation (rules c2) B" "E = B \<union> rule_rows c2" using assms(3,4) fr(3,6) by simp_all
    show "B - base_rows c2 \<subseteq> D" "D \<subseteq> E - base_rows c2" using assms(4,6,7) unfolding D_def all by blast+
    show "zs_ok (seed_orphans c2 os d)" using assms(5) by (simp add: sync_def seed_orphans_spec(1))
    show "zs_get (seed_orphans c2 os d) t = in_set (base_rows c2 - E) t - in_set D t" for t by (rule get)
  qed
qed

lemma seeded_fixpoint:
  assumes "pending c B E D d"
  defines "f \<equiv> (if \<exists>e\<in>set d. snd e < 0 then run_two_phase_fixpoint d c else run_insertion_fixpoint d c)"
  shows "card E \<le> max_fixpoint_rounds \<Longrightarrow> card (saturation (rules c) (base_rows c)) \<le> max_fixpoint_rounds \<Longrightarrow> f \<noteq> None"
    and "f = Some c' \<Longrightarrow> saturated c c'"
proof -
  note p = pendingD [OF assms(1)]
  have "(card E \<le> max_fixpoint_rounds \<longrightarrow> card (saturation (rules c) (base_rows c)) \<le> max_fixpoint_rounds \<longrightarrow> f \<noteq> None)
    \<and> (f = Some c' \<longrightarrow> saturated c c')"
  proof (cases "\<exists>e\<in>set d. snd e < 0")
    case True
    then show ?thesis using run_two_phase_fixpoint_spec [OF assms(1)] by (simp add: f_def)
  next
    case False
    have "zs_get d t \<ge> 0" for t
      using False zs_get_mem [OF p(6), of t] by (metis linorder_not_less order_refl snd_conv zs_get_mem p(6))
    moreover have "zs_get d t < 0" if "t \<in> D" for t using that p(5) by (auto simp: p(7) in_set_def)
    ultimately have D: "D = {}" by (metis equals0I linorder_not_le)
    then have B: "B \<subseteq> base_rows c" using p(4) by simp
    have get: "\<forall>t. zs_get d t = in_set (all_rows c) t - in_set E t"
      using p(3,7) B by (auto simp: D all_rows_def in_set_def)
    have sub: "E \<subseteq> all_rows c" "consequences (rules c) E \<subseteq> all_rows c"
      using p(3,8) B by (auto simp: all_rows_def)
    have "all_rows c \<subseteq> saturation (rules c) (base_rows c)"
      using saturation_mono [OF B, of "rules c"] base_saturation [of "base_rows c" "rules c"] p(2,3)
      by (auto simp: all_rows_def)
    with run_insertion_fixpoint_spec [OF p(1,6) get sub] False show ?thesis by (simp add: f_def)
  qed
  then show "card E \<le> max_fixpoint_rounds \<Longrightarrow> card (saturation (rules c) (base_rows c)) \<le> max_fixpoint_rounds \<Longrightarrow> f \<noteq> None"
    and "f = Some c' \<Longrightarrow> saturated c c'" by blast+
qed

definition advanced :: "circuit \<Rightarrow> circuit \<Rightarrow> bool" where
  "advanced c c' \<longleftrightarrow> tick_ok c' \<and> asserted_rows c' = asserted_rows c \<and> rules c' = rules c
     \<and> closure_predicates c' = closure_predicates c \<and> drift c' = drift c \<and> feed c' = feed c
     \<and> derived_clock c' = derived_clock c \<and> input_log c' = input_log c \<and> recompute_fallback c' = recompute_fallback c"

lemma saturated_advanced:
  assumes "saturated c c'" and "closures_ok c (asserted_rows c)"
  shows "advanced c c'"
proof -
  have s: "core c' = core c" "rules c' = rules c" "settled c' (all_rows c')"
    "all_rows c' = saturation (rules c) (base_rows c)" "drift c' = drift c" using assms(1) by (auto simp: saturated_def)
  have cp: "closure_plans c' = closure_plans c" "feed c' = feed c" "derived_clock c' = derived_clock c" "input_log c' = input_log c"
    "recompute_fallback c' = recompute_fallback c" using s(1) by (simp_all add: core_def)
  have rows: "asserted_rows c' = asserted_rows c" "closure_rows c' = closure_rows c" using core_rows [OF s(1)] by simp_all
  have "closures_ok c' (asserted_rows c')" using assms(2) unfolding closures_ok_def cl_ok_def rows cp(1) .
  moreover have "all_rows c' = saturation (rules c') (base_rows c')" using s(2,4) core_rows [OF s(1)] by simp
  ultimately show ?thesis using s cp core_rows [OF s(1)] by (simp add: advanced_def tick_ok_def)
qed

lemma run_unified_spec:
  assumes "drained c A E ret ins" and "sync c (note_flips c pp)" and "(A - asserted_rows c) \<inter> rule_rows c = {}"
    and "\<not> has_retraction \<Longrightarrow> A \<subseteq> asserted_rows c \<and> {t. zs_get ret t < 0} = {}"
  shows "card E \<le> max_fixpoint_rounds \<Longrightarrow> card (entailed c (asserted_rows c)) \<le> max_fixpoint_rounds
      \<Longrightarrow> run_unified h has_retraction pp ins ret c \<noteq> None"
    and "run_unified h has_retraction pp ins ret c = Some c' \<Longrightarrow> advanced c c'"
proof -
  let ?d0 = "note_flips c pp"
  have c: "settled c E" "E = saturation (rules c) (A \<union> closure_rows c)" "E = A \<union> closure_rows c \<union> rule_rows c"
    "closures_ok c A" "zs_ok ins" "base_ok c" using assms(1) unfolding drained_def settled_def by blast+
  have ins: "\<And>r. r \<in> set (closure_plans c) \<Longrightarrow> edges_at (cr_predicate r) (A - {t. zs_get ret t < 0} \<union> {t. 0 < zs_get ins t})
          = edges_at (cr_predicate r) (asserted_rows c)" using assms(1) unfolding drained_def by blast
  obtain c1 d1 os where first: "(if has_retraction then run_closure_retract_pass h ret c ?d0 else (c, ?d0, [])) = (c1, d1, os)"
    by (cases "if has_retraction then run_closure_retract_pass h ret c ?d0 else (c, ?d0, [])")
  have p1: "moved c c1 \<and> sync c1 d1 \<and> set os \<subseteq> rule_rows c \<and> closure_rows c \<inter> rule_rows c \<subseteq> closure_rows c1 \<union> set os
    \<and> closure_predicates c1 = closure_predicates c \<and> closures_ok c1 (A - {t. zs_get ret t < 0})"
  proof (cases has_retraction)
    case True
    with first retract_pass_spec [OF assms(1,2)] show ?thesis by auto
  next
    case False
    then have "{t. zs_get ret t < 0} = {}" using assms(4) by simp
    moreover have "c1 = c" "d1 = ?d0" "os = []" using False first by auto
    ultimately show ?thesis using assms(2) c(4,6) by (simp add: moved_refl)
  qed
  then have m1: "moved c c1" by blast
  note fr1 = moved_frame [OF m1]
  have ins1: "edges_at (cr_predicate r) (A - {t. zs_get ret t < 0} \<union> {t. 0 < zs_get ins t})
          = edges_at (cr_predicate r) (asserted_rows c1)" if "r \<in> set (closure_plans c1)" for r
  proof -
    have "cr_predicate r \<in> set (closure_predicates c)" using that p1 by (metis image_eqI set_map)
    then obtain r0 where r0: "r0 \<in> set (closure_plans c)" "cr_predicate r = cr_predicate r0" by auto
    show ?thesis unfolding r0(2) fr1(8) by (rule ins [OF r0(1)])
  qed
  obtain c2 d2 where second: "run_closure_insertion_pass h ins c1 d1 = Some (c2, d2)" "moved c1 c2" "sync c2 d2"
    "closure_rows c1 \<subseteq> closure_rows c2" "closure_predicates c2 = closure_predicates c1" "closures_ok c2 (asserted_rows c2)"
    using insertion_pass_spec [OF fr1(1) _ c(5) _ ins1] p1 by blast
  have m2: "moved c c2" by (rule moved_trans [OF m1 second(2)])
  note fr2 = moved_frame [OF m2]
  have B: "(A \<union> closure_rows c) \<inter> rule_rows c \<subseteq> base_rows c2 \<union> set os"
    using p1 second(4) assms(3) fr2(8) by (auto simp: base_rows_def)
  have os: "set os \<subseteq> rule_rows c" using p1 by blast
  note pend = seeded_pending [OF m2 c(1,2,3) second(3) os B]
  have base2: "saturation (rules c2) (base_rows c2) = entailed c (asserted_rows c)"
    using closures_base [OF second(6)] second(5) p1 fr2(3,8) by (simp add: entailed_def base_rows_def)
  let ?d = "seed_orphans c2 os d2"
  have run: "run_unified h has_retraction pp ins ret c
      = (if \<exists>e\<in>set ?d. snd e < 0 then run_two_phase_fixpoint ?d c2 else run_insertion_fixpoint ?d c2)"
    unfolding run_unified_def Let_def first prod.case second(1) bind.bind_lunit ..
  note fix_ = seeded_fixpoint [OF pend]
  show "run_unified h has_retraction pp ins ret c \<noteq> None"
    if "card E \<le> max_fixpoint_rounds" "card (entailed c (asserted_rows c)) \<le> max_fixpoint_rounds"
    unfolding run by (rule fix_(1)) (use that base2 in simp_all)
  show "advanced c c'" if r: "run_unified h has_retraction pp ins ret c = Some c'"
  proof -
    have "saturated c2 c'" by (rule fix_(2) [OF r [unfolded run]])
    then have "advanced c2 c'" by (rule saturated_advanced [OF _ second(6)])
    then show ?thesis using fr2 second(5) p1 by (simp add: advanced_def)
  qed
qed

section \<open>Flushing the feed\<close>

lemma unat_minus_one_word_64: "unat (- 1 :: 64 word) = 2 ^ 64 - 1"
  by (simp only: unsigned_minus_1_eq_mask mask_eq_exp_minus_1 len_of_numeral_defs) simp

lemma next_after_step:
  assumes "unat x + Suc n < 2 ^ 64"
  shows "next_after x = Some (x + 1)" and "unat (x + 1) + n < 2 ^ 64"
proof -
  have "x \<noteq> - 1" using assms by (auto simp: unat_minus_one_word_64)
  then have "x + 1 \<noteq> 0" by (metis add_eq_0_iff2 eq_iff_diff_eq_0 diff_minus_eq_add)
  then have "unat (x + 1) = Suc (unat x)" by (metis unatSuc add.commute)
  with assms \<open>x \<noteq> - 1\<close> show "next_after x = Some (x + 1)" and "unat (x + 1) + n < 2 ^ 64"
    by (simp_all add: next_after_def)
qed

lemma publish_nets_returns: "unat (derived_clock c) + length nets < 2 ^ 64 \<Longrightarrow> publish_nets nets c \<noteq> None"
proof (induction nets arbitrary: c)
  case (Cons e nets)
  obtain t k m where e: "e = ((t, k), m)" by (cases e) auto
  have "unat (derived_clock c) + Suc (length nets) < 2 ^ 64" using Cons(2) by simp
  note step = next_after_step [OF this]
  let ?c = "c\<lparr>derived_clock := derived_clock c + 1,
    feed := feed c @ [\<lparr>dr_triple = t, dr_mult = m, dr_time = derived_clock c, dr_kind = k\<rparr>]\<rparr>"
  have "publish_nets nets ?c \<noteq> None" by (rule Cons(1)) (use step(2) in simp)
  then show ?case by (simp add: e step(1))
qed simp

definition published :: "delta_record list \<Rightarrow> circuit \<Rightarrow> circuit \<Rightarrow> bool" where
  "published recs c c' \<longleftrightarrow> c' = c\<lparr>derived_clock := derived_clock c', feed := feed c @ recs, pending_derived := pending_derived c'\<rparr>"

lemma publish_nets_spec:
  assumes "publish_nets nets c = Some c'"
  shows "\<exists>recs. c' = c\<lparr>derived_clock := derived_clock c', feed := feed c @ recs\<rparr> \<and> length recs = length nets
    \<and> map (\<lambda>r. ((dr_triple r, dr_kind r), dr_mult r)) recs = nets
    \<and> (\<forall>i<length recs. dr_time (recs ! i) = derived_clock c + of_nat i)"
  using assms
proof (induction nets arbitrary: c)
  case Nil
  then show ?case by (auto intro: exI [of _ "[]"])
next
  case (Cons e nets)
  obtain t k m where e: "e = ((t, k), m)" by (cases e) auto
  let ?r = "\<lparr>dr_triple = t, dr_mult = m, dr_time = derived_clock c, dr_kind = k\<rparr>"
  obtain n where n: "next_after (derived_clock c) = Some n" using Cons(2) by (auto simp: e split: bind_splits)
  then have n1: "n = derived_clock c + 1" by (auto simp: next_after_def split: if_splits)
  let ?c = "c\<lparr>derived_clock := n, feed := feed c @ [?r]\<rparr>"
  have "publish_nets nets ?c = Some c'" using Cons(2) n by (simp add: e)
  then obtain recs where recs: "c' = ?c\<lparr>derived_clock := derived_clock c', feed := feed ?c @ recs\<rparr>" "length recs = length nets"
    "map (\<lambda>r. ((dr_triple r, dr_kind r), dr_mult r)) recs = nets"
    "\<forall>i<length recs. dr_time (recs ! i) = derived_clock ?c + of_nat i" using Cons(1) by blast
  have "\<forall>i<length (?r # recs). dr_time ((?r # recs) ! i) = derived_clock c + of_nat i"
    using recs(4) n1 by (auto simp: nth_Cons split: nat.splits)
  with recs(1-3) show ?case by (intro exI [of _ "?r # recs"]) (simp add: e)
qed

section \<open>One tick\<close>

lemma from_filtered:
  assumes "zs_ok z"
  shows "zs_get (zs_from_iter (map (\<lambda>(t, m). (t, v)) (filter (\<lambda>(t, m). P t m) z))) t
    = (if zs_get z t \<noteq> 0 \<and> P t (zs_get z t) then v else 0)"
proof -
  have "bt_ok es \<Longrightarrow> \<forall>m\<in>snd ` set es. m \<noteq> 0 \<Longrightarrow> (\<Sum>(k, m)\<leftarrow>map (\<lambda>(t, m). (t, v)) (filter (\<lambda>(t, m). P t m) es). if k = t then m else 0)
    = (if zs_get es t \<noteq> 0 \<and> P t (zs_get es t) then v else 0)" for es
  proof (induction es)
    case (Cons e es)
    obtain k m where e: "e = (k, m)" by (cases e)
    have "zs_get es k = 0" using Cons(2) bt_get_eq_None_iff [of es k] by (auto simp: e bt_ok_Cons zs_get_def)
    with Cons e show ?case by (auto simp: bt_ok_Cons zs_get_Cons)
  qed simp
  with assms show ?thesis by (simp add: zs_from_iter_spec zs_ok_def)
qed

lemma insertions_spec:
  assumes "zs_ok z"
  shows "zs_ok (insertions_for_closure c z)" and "closure_plans c \<noteq> [] \<Longrightarrow>
    0 < zs_get (insertions_for_closure c z) t \<longleftrightarrow> 0 < zs_get z t \<and> t \<in> asserted_rows c"
  using from_filtered [OF assms, of 1 "\<lambda>t m. 0 < m \<and> 0 < zs_get (asserted_base c) t" t]
  by (auto simp: insertions_for_closure_def zs_from_iter_spec(1) asserted_rows_def)

lemma retractions_spec:
  assumes "zs_ok z"
  shows "zs_ok (retractions_for_closure c b z)" and "zs_get (retractions_for_closure c b z) t < 0 \<longleftrightarrow>
    closure_plans c \<noteq> [] \<and> b \<and> zs_get z t < 0 \<and> t \<notin> asserted_rows c"
  using from_filtered [OF assms, of "- 1" "\<lambda>t m. m < 0 \<and> zs_get (asserted_base c) t \<le> 0" t]
  by (auto simp: retractions_for_closure_def zs_from_iter_spec(1) asserted_rows_def)

text \<open>No triple that leaves the asserted base is owned by a rule at that moment.\<close>

definition no_owned_retraction :: "circuit \<Rightarrow> bool" where
  "no_owned_retraction c \<longleftrightarrow> (asserted_rows c - next_asserted c) \<inter> rule_rows c = {}"

lemma net_nonneg: "\<not> (\<exists>rec\<in>set recs. dr_mult rec < 0) \<Longrightarrow> 0 \<le> net recs t"
  unfolding net_def by (rule sum_list_nonneg) (auto simp: not_less)

lemma settled_drain:
  assumes "settled c E" and "zs_ok B"
  shows "settled (c\<lparr>input_log := l, pending_derived := zs_new, asserted_base := B, feed := g\<rparr>) E" (is "settled ?c E")
proof -
  have w: "wmap ?c = wmap c" "weights_ok ?c = weights_ok c" by (simp_all add: wmap_def weights_ok_def fun_eq_iff)
  have a: "attr_ok ?c = attr_ok c" "exact ?c E = exact c E" unfolding attr_ok_def exact_def w by simp_all
  have "base_ok ?c" using assms by (simp add: settled_def base_ok_def closure_rows_def rule_rows_def)
  then show ?thesis using assms(1) unfolding settled_def a by simp
qed

lemma drained_tick:
  assumes "tick_ok c"
  obtains z c1 where "drain c = (dl_records (input_log c), z, map (\<lambda>(t, m). (t, t \<in> asserted_rows c)) z, length (dl_records (input_log c)), c1)"
    "\<And>b. b = (\<exists>rec\<in>set (dl_records (input_log c)). dr_mult rec < 0) \<Longrightarrow>
       drained c1 (asserted_rows c) (all_rows c) (retractions_for_closure c1 b z) (insertions_for_closure c1 z)
       \<and> (\<not> b \<longrightarrow> asserted_rows c \<subseteq> asserted_rows c1 \<and> {t. zs_get (retractions_for_closure c1 b z) t < 0} = {})"
    "sync c1 (note_flips c1 (map (\<lambda>(t, m). (t, t \<in> asserted_rows c)) z))"
    "asserted_rows c1 = next_asserted c" "rule_rows c1 = rule_rows c" "rules c1 = rules c" "closure_plans c1 = closure_plans c"
    "derived_base c1 = derived_base c" "pending_derived c1 = zs_new" "feed c1 = feed c @ dl_records (input_log c)"
    "dl_records (input_log c1) = []" "derived_clock c1 = derived_clock c" "recompute_fallback c1 = recompute_fallback c"
proof -
  have c: "settled c (all_rows c)" "all_rows c = saturation (rules c) (base_rows c)" "closures_ok c (asserted_rows c)"
    using assms unfolding tick_ok_def by blast+
  then have b: "base_ok c" by (simp add: settled_def)
  let ?recs = "dl_records (input_log c)"
  obtain z B where d: "drain c = (?recs, z, map (\<lambda>(t, m). (t, t \<in> asserted_rows c)) z, length ?recs,
      c\<lparr>input_log := (input_log c)\<lparr>dl_records := []\<rparr>, pending_derived := zs_new, asserted_base := B, feed := feed c @ ?recs\<rparr>)"
    "zs_ok z" "\<And>t. zs_get z t = net ?recs t" "zs_ok B" "\<And>t. zs_get B t = zs_get (asserted_base c) t + net ?recs t"
    by (rule drain_spec [OF b]) blast
  define c1 where "c1 = c\<lparr>input_log := (input_log c)\<lparr>dl_records := []\<rparr>, pending_derived := zs_new, asserted_base := B, feed := feed c @ ?recs\<rparr>"
  have s1: "settled c1 (all_rows c)" unfolding c1_def by (rule settled_drain [OF c(1) d(4)])
  have rows: "asserted_rows c1 = next_asserted c" "rule_rows c1 = rule_rows c" "closure_rows c1 = closure_rows c"
    by (simp_all add: c1_def asserted_rows_def next_asserted_def d(5) rule_rows_def closure_rows_def)
  have cp: "closure_plans c1 = closure_plans c" "rules c1 = rules c" by (simp_all add: c1_def)
  have now: "t \<in> asserted_rows c1 \<longleftrightarrow> 0 < zs_get (asserted_base c) t + zs_get z t" for t
    unfolding rows(1) next_asserted_def mem_Collect_eq d(3) ..
  have old: "t \<in> asserted_rows c \<longleftrightarrow> 0 < zs_get (asserted_base c) t" for t by (simp add: asserted_rows_def)
  have was: "t \<in> asserted_rows c \<longleftrightarrow> t \<in> asserted_rows c1" if "zs_get z t = 0" for t
    using that by (simp add: now old)
  have gain: "t \<in> asserted_rows c1" if "0 \<le> zs_get z t" "t \<in> asserted_rows c" for t
    using that by (simp add: now old)
  have lose: "t \<in> asserted_rows c" if "zs_get z t \<le> 0" "t \<in> asserted_rows c1" for t
    using that by (simp add: now old)
  have all: "t \<in> all_rows c \<longleftrightarrow> t \<in> all_rows c1" if "t \<in> asserted_rows c \<longleftrightarrow> t \<in> asserted_rows c1" for t
    using that by (simp add: all_rows_def base_rows_def rows(2,3))
  have ext: "pe_get (extent c1) t = in_set (all_rows c) t" for t using s1 by (simp add: settled_def pe_get_in_set)
  have sync: "sync c1 (note_flips c1 (map (\<lambda>(t, m). (t, t \<in> asserted_rows c)) z))"
  proof (rule note_flips_sync [OF _ ext])
    show "base_ok c1" using s1 by (simp add: settled_def)
    show "t \<in> all_rows c \<longleftrightarrow> t \<in> all_rows c1"
      if "(t, w) \<in> set (map (\<lambda>(t, m). (t, t \<in> asserted_rows c)) z)" "w = (t \<in> asserted_rows c1)" for t w
      by (rule all) (use that in auto)
    show "t \<in> all_rows c \<longleftrightarrow> t \<in> all_rows c1" if n: "t \<notin> fst ` set (map (\<lambda>(t, m). (t, t \<in> asserted_rows c)) z)" for t
    proof (rule all, rule was)
      have "fst ` set (map (\<lambda>(t, m). (t, t \<in> asserted_rows c)) z) = fst ` set z" by force
      with n show "zs_get z t = 0" using zs_key_iff [OF d(2)] by simp
    qed
  qed
  have dr: "drained c1 (asserted_rows c) (all_rows c) (retractions_for_closure c1 b z) (insertions_for_closure c1 z)
       \<and> (\<not> b \<longrightarrow> asserted_rows c \<subseteq> asserted_rows c1 \<and> {t. zs_get (retractions_for_closure c1 b z) t < 0} = {})"
    if bdef: "b = (\<exists>rec\<in>set ?recs. dr_mult rec < 0)" for b
  proof
    have pos: "0 \<le> zs_get z t" if "\<not> b" for t using net_nonneg [of ?recs t] that by (simp add: bdef d(3))
    then show "\<not> b \<longrightarrow> asserted_rows c \<subseteq> asserted_rows c1 \<and> {t. zs_get (retractions_for_closure c1 b z) t < 0} = {}"
      using gain by (auto simp: retractions_spec(2) [OF d(2)])
    have "(asserted_rows c - {t. zs_get (retractions_for_closure c1 b z) t < 0} \<union> {t. 0 < zs_get (insertions_for_closure c1 z) t})
        = asserted_rows c1" (is "?L = _") if "closure_plans c1 \<noteq> []"
    proof (rule set_eqI)
      fix t
      show "t \<in> ?L \<longleftrightarrow> t \<in> asserted_rows c1"
        using gain [of t] lose [of t] pos [of t] that
        by (auto simp: retractions_spec(2) [OF d(2)] insertions_spec(2) [OF d(2)] not_less)
    qed
    then have "\<forall>r\<in>set (closure_plans c1). edges_at (cr_predicate r)
          (asserted_rows c - {t. zs_get (retractions_for_closure c1 b z) t < 0} \<union> {t. 0 < zs_get (insertions_for_closure c1 z) t})
        = edges_at (cr_predicate r) (asserted_rows c1)" by (metis empty_iff empty_set)
    moreover have "closures_ok c1 (asserted_rows c)" using c(3) unfolding closures_ok_def cl_ok_def cp(1) rows(3) .
    moreover have "all_rows c = saturation (rules c1) (asserted_rows c \<union> closure_rows c1)"
      "all_rows c = asserted_rows c \<union> closure_rows c1 \<union> rule_rows c1"
      using c(2) cp(2) by (simp_all only: base_rows_def rows(2,3) all_rows_def)
    ultimately show "drained c1 (asserted_rows c) (all_rows c) (retractions_for_closure c1 b z) (insertions_for_closure c1 z)"
      unfolding drained_def using s1 by (simp add: retractions_spec [OF d(2)] insertions_spec(1) [OF d(2)])
  qed
  show ?thesis
    by (rule that [OF d(1) [folded c1_def] dr sync rows(1,2) cp(2,1)]) (simp_all add: c1_def)
qed

definition retracting :: "circuit \<Rightarrow> bool" where
  "retracting c \<longleftrightarrow> (\<exists>rec\<in>set (dl_records (input_log c)). dr_mult rec < 0)"

text \<open>What a subscriber of the feed sees of a tick: the drained records, then the net derived changes.\<close>

definition fed :: "circuit \<Rightarrow> circuit \<Rightarrow> delta_record list \<Rightarrow> bool" where
  "fed c c' recs \<longleftrightarrow> feed c' = feed c @ dl_records (input_log c) @ recs
     \<and> (\<forall>t. zs_get (derived_base c') t = zs_get (derived_base c) t + net recs t)
     \<and> (\<forall>r\<in>set recs. dr_mult r \<noteq> 0) \<and> distinct (map (\<lambda>r. (dr_triple r, dr_kind r)) recs)
     \<and> (\<forall>i<length recs. dr_time (recs ! i) = derived_clock c + of_nat i)"

lemma net_nets: "net recs t = zs_sum (map (\<lambda>r. ((dr_triple r, dr_kind r), dr_mult r)) recs) (\<lambda>e. if fst e = t then 1 else 0)"
  by (induction recs) (simp_all add: net_def)

lemma flush_spec:
  assumes "base_ok c2" and "flush_derived_feed c2 = Some (n, c')"
  obtains recs k where "c' = c2\<lparr>pending_derived := zs_new, derived_clock := k, feed := feed c2 @ recs\<rparr>"
    "n = length recs" "\<And>t. net recs t = zs_sum (pending_derived c2) (\<lambda>e. if fst e = t then 1 else 0)"
    "\<forall>r\<in>set recs. dr_mult r \<noteq> 0" "distinct (map (\<lambda>r. (dr_triple r, dr_kind r)) recs)"
    "\<forall>i<length recs. dr_time (recs ! i) = derived_clock c2 + of_nat i"
proof -
  let ?nets = "pending_derived c2" and ?c = "c2\<lparr>pending_derived := zs_new\<rparr>"
  have p: "publish_nets ?nets ?c = Some c'" "n = length ?nets"
    using assms(2) by (auto simp: flush_derived_feed_def zs_len_def split: bind_splits)
  obtain recs where r: "c' = ?c\<lparr>derived_clock := derived_clock c', feed := feed ?c @ recs\<rparr>" "length recs = length ?nets"
    "map (\<lambda>r. ((dr_triple r, dr_kind r), dr_mult r)) recs = ?nets"
    "\<forall>i<length recs. dr_time (recs ! i) = derived_clock ?c + of_nat i"
    using publish_nets_spec [OF p(1)] by blast
  have ok: "zs_ok ?nets" using assms(1) by (simp add: base_ok_def)
  have "dr_mult r \<noteq> 0" if "r \<in> set recs" for r
  proof -
    have "(\<lambda>r. ((dr_triple r, dr_kind r), dr_mult r)) r \<in> set ?nets" unfolding r(3) [symmetric] set_map using that by (rule imageI)
    then have "dr_mult r \<in> snd ` set ?nets" by (metis imageI snd_conv)
    then show ?thesis using ok by (auto simp only: zs_ok_def)
  qed
  moreover have keys: "map (\<lambda>r. (dr_triple r, dr_kind r)) recs = map fst ?nets" unfolding r(3) [symmetric] by simp
  have "distinct (map (\<lambda>r. (dr_triple r, dr_kind r)) recs)"
    unfolding keys by (rule bt_distinct) (use ok in \<open>simp add: zs_ok_def\<close>)
  ultimately show ?thesis
  proof (intro that [of recs "derived_clock c'"])
    show "c' = c2\<lparr>pending_derived := zs_new, derived_clock := derived_clock c', feed := feed c2 @ recs\<rparr>"
      by (rule trans [OF r(1)]) simp
    show "n = length recs" "\<forall>i<length recs. dr_time (recs ! i) = derived_clock c2 + of_nat i" using r(2,4) p(2) by simp_all
    show "net recs t = zs_sum (pending_derived c2) (\<lambda>e. if fst e = t then 1 else 0)" for t unfolding net_nets r(3) ..
  qed blast+
qed

lemma flush_tick_ok:
  assumes "tick_ok c"
  shows "tick_ok (c\<lparr>pending_derived := zs_new, derived_clock := k, feed := g\<rparr>)" (is "tick_ok ?c")
    and "asserted_rows (c\<lparr>pending_derived := zs_new, derived_clock := k, feed := g\<rparr>) = asserted_rows c"
proof -
  have rows: "asserted_rows ?c = asserted_rows c" "rule_rows ?c = rule_rows c" "closure_rows ?c = closure_rows c"
    by (simp_all add: asserted_rows_def rule_rows_def closure_rows_def)
  then have all: "all_rows ?c = all_rows c" "base_rows ?c = base_rows c" by (simp_all add: all_rows_def base_rows_def)
  have w: "wmap ?c = wmap c" "weights_ok ?c = weights_ok c" by (simp_all add: wmap_def weights_ok_def fun_eq_iff)
  have b: "base_ok ?c \<longleftrightarrow> base_ok (c\<lparr>pending_derived := zs_new\<rparr>)" by (simp add: base_ok_def closure_rows_def rule_rows_def)
  have "base_ok c" using assms by (simp add: tick_ok_def settled_def)
  then have "base_ok ?c" unfolding b by (simp add: base_ok_def closure_rows_def rule_rows_def)
  moreover have a: "attr_ok ?c = attr_ok c" "exact ?c S = exact c S" for S unfolding attr_ok_def exact_def w by simp_all
  moreover have cl: "closures_ok ?c A = closures_ok c A" for A by (simp add: closures_ok_def cl_ok_def rows(3))
  moreover have p: "plans ?c = plans c" "extent ?c = extent c" by simp_all
  ultimately show "tick_ok ?c" using assms unfolding tick_ok_def settled_def all rows(1) p a cl by blast
  show "asserted_rows ?c = asserted_rows c" by (rule rows(1))
qed

end
