(* ===== verification/Circuit_Recompute.thy ===== *)
theory Circuit_Recompute imports Circuit_Tick begin

text \<open>
  The recompute fallback of \<^verbatim>\<open>crates/incremental/src/circuit.rs\<close>: the closure passes, the rule closure
  from scratch, the difference to the rows the rules owned, and the rebuilt incremental state. It ends
  in the same rows as the incremental path, also where a row a rule owns leaves the asserted base.
\<close>

section \<open>The presence notes do not steer the closure passes\<close>

lemma withdraw_rows_notes:
  "withdraw_rows ts c d os = (c', d', os') \<Longrightarrow> \<exists>e'. withdraw_rows ts c e os = (c', e', os')"
proof (induction ts arbitrary: c d e os)
  case (Cons t ts)
  then show ?case by (auto simp: Let_def split: if_splits)
qed simp

lemma promote_rows_notes: "promote_rows ts c d = (c', d') \<Longrightarrow> \<exists>e'. promote_rows ts c e = (c', e')"
proof (induction ts arbitrary: c d e)
  case (Cons t ts)
  then show ?case by (auto simp: Let_def split: if_splits)
qed simp

lemma closure_retract_rules_notes:
  "closure_retract_rules h rs ret c d os = (rs', c', d', os') \<Longrightarrow> \<exists>e'. closure_retract_rules h rs ret c e os = (rs', c', e', os')"
proof (induction rs arbitrary: c d e os rs')
  case (Cons r rs)
  obtain out r1 where r1: "apply_retract_delta h ret r = (out, r1)" by (cases "apply_retract_delta h ret r")
  obtain c1 d1 o1 where w: "withdraw_rows (crd_withdraw out) c d os = (c1, d1, o1)" by (metis prod_cases3)
  obtain c2 d2 where p: "promote_rows (crd_promote out) c1 d1 = (c2, d2)" by (metis surj_pair)
  obtain rs2 where tail: "closure_retract_rules h rs ret c2 d2 o1 = (rs2, c', d', os')" "rs' = r1 # rs2"
    using Cons(2) r1 w p by (auto split: prod.splits)
  obtain e1 where "withdraw_rows (crd_withdraw out) c e os = (c1, e1, o1)" using withdraw_rows_notes [OF w] by blast
  moreover obtain e2 where "promote_rows (crd_promote out) c1 e1 = (c2, e2)" using promote_rows_notes [OF p] by blast
  moreover obtain e' where "closure_retract_rules h rs ret c2 e2 o1 = (rs2, c', e', os')" using Cons(1) [OF tail(1)] by blast
  ultimately show ?case using r1 tail(2) by auto
qed simp

lemma run_closure_retract_pass_notes:
  "run_closure_retract_pass h ret c d = (c', d', os) \<Longrightarrow> \<exists>e'. run_closure_retract_pass h ret c e = (c', e', os)"
  using closure_retract_rules_notes [of h "closure_plans c" ret c d "[]" _ _ _ os e]
  by (fastforce simp: run_closure_retract_pass_def split: prod.splits)

lemma insert_closure_rows_notes: "insert_closure_rows ts c d = (c', d') \<Longrightarrow> \<exists>e'. insert_closure_rows ts c e = (c', e')"
proof (induction ts arbitrary: c d e)
  case (Cons t ts)
  then show ?case by (auto simp: Let_def split: if_splits)
qed simp

lemma closure_insertion_rules_notes:
  "closure_insertion_rules h rs ins c d = Some (rs', c', d') \<Longrightarrow> \<exists>e'. closure_insertion_rules h rs ins c e = Some (rs', c', e')"
proof (induction rs arbitrary: c d e rs')
  case (Cons r rs)
  then obtain ts r1 where r1: "apply_insert_delta h ins r = Some (ts, r1)" by (auto split: bind_splits)
  obtain c1 d1 where i: "insert_closure_rows ts c d = (c1, d1)" by (metis surj_pair)
  obtain rs2 where tail: "closure_insertion_rules h rs ins c1 d1 = Some (rs2, c', d')" "rs' = r1 # rs2"
    using Cons(2) r1 i by (auto split: bind_splits)
  obtain e1 where "insert_closure_rows ts c e = (c1, e1)" using insert_closure_rows_notes [OF i] by blast
  moreover obtain e' where "closure_insertion_rules h rs ins c1 e1 = Some (rs2, c', e')" using Cons(1) [OF tail(1)] by blast
  ultimately show ?case using r1 tail(2) by auto
qed simp

lemma run_closure_insertion_pass_notes:
  assumes "run_closure_insertion_pass h ins c d = Some (c', d')"
  shows "\<exists>e'. run_closure_insertion_pass h ins c e = Some (c', e')"
proof -
  obtain rs c1 where r: "closure_insertion_rules h (closure_plans c) ins c d = Some (rs, c1, d')" "c' = c1\<lparr>closure_plans := rs\<rparr>"
    using assms by (auto simp: run_closure_insertion_pass_def split: bind_splits)
  then obtain e' where "closure_insertion_rules h (closure_plans c) ins c e = Some (rs, c1, e')"
    using closure_insertion_rules_notes by blast
  then show ?thesis by (simp add: run_closure_insertion_pass_def r(2))
qed

section \<open>Plans over weighted extents\<close>

text \<open>
  The scratch extent counts a row twice that is both asserted and closed over. Over weights that are
  not negative a plan gives positive weight to exactly the rows it derives from the rows present.
\<close>

definition support_of :: "'k zset \<Rightarrow> 'k set \<Rightarrow> bool" where
  "support_of z S \<longleftrightarrow> (\<forall>k. 0 \<le> zs_get z k) \<and> (\<forall>k. 0 < zs_get z k \<longleftrightarrow> k \<in> S)"

lemma zs_sum_support:
  assumes "zs_ok z" and "support_of z S" and "\<And>k. 0 \<le> f k"
  shows "0 \<le> zs_sum z f" and "0 < zs_sum z f \<longleftrightarrow> (\<exists>k\<in>S. 0 < f k)"
proof -
  have pos: "0 < m" if "(k, m) \<in> set z" for k m
    using that zs_get_mem [OF assms(1)] assms(2) by (auto simp: support_of_def order_less_le)
  have keys: "k \<in> S \<longleftrightarrow> k \<in> fst ` set z" for k
    using assms(2) zs_key_iff [OF assms(1), of k] by (auto simp: support_of_def order_less_le)
  have all: "(\<forall>(k, m)\<in>set es. 0 < m) \<Longrightarrow> 0 \<le> zs_sum es f \<and> (0 < zs_sum es f \<longleftrightarrow> (\<exists>k\<in>fst ` set es. 0 < f k))" for es
  proof (induction es)
    case (Cons e es)
    obtain k m where e: "e = (k, m)" by (cases e)
    have m: "0 < m" and ih: "0 \<le> zs_sum es f" "0 < zs_sum es f \<longleftrightarrow> (\<exists>k\<in>fst ` set es. 0 < f k)" using Cons by (auto simp: e)
    have "0 \<le> m * f k" "0 < m * f k \<longleftrightarrow> 0 < f k" using m assms(3) [of k] by (simp_all add: zero_less_mult_iff)
    then have "0 \<le> m * f k + zs_sum es f" "0 < m * f k + zs_sum es f \<longleftrightarrow> 0 < f k \<or> 0 < zs_sum es f" using ih(1) by linarith+
    then show ?case using ih(2) by (simp add: e)
  qed simp
  have S: "S = fst ` set z" using keys by blast
  have "\<forall>(k, m)\<in>set z. 0 < m" using pos by blast
  from all [OF this] show "0 \<le> zs_sum z f" and "0 < zs_sum z f \<longleftrightarrow> (\<exists>k\<in>S. 0 < f k)" unfolding S by blast+
qed

lemma join_support:
  assumes "zs_ok a" and "zs_ok b" and "support_of a S" and "support_of b T" and "\<And>t. zs_get n t = join_weight comb a b t"
  shows "support_of n {t. \<exists>x\<in>S. \<exists>y\<in>T. comb x y = Some t}"
proof -
  let ?g = "\<lambda>t x. zs_sum b (\<lambda>y. if comb x y = Some t then 1 else 0)"
  have g: "0 \<le> ?g t x" "0 < ?g t x \<longleftrightarrow> (\<exists>y\<in>T. comb x y = Some t)" for t x
    using zs_sum_support [OF assms(2,4), of "\<lambda>y. if comb x y = Some t then 1 else 0"] by auto
  show ?thesis
    using zs_sum_support [OF assms(1,3) g(1)] g(2) by (simp add: support_of_def assms(5) join_weight_def)
qed

lemma full_levels_support:
  assumes "\<forall>r\<in>set rs. rule_ok r" and "pe_ok e" and "support_of (pe_all e) S" and "zs_ok a" and "support_of a H" and "full_levels rs e a = Some z"
  shows "zs_ok z \<and> support_of z {t. \<exists>h\<in>H. \<exists>ts. set ts \<subseteq> S \<and> chain rs h ts = Some t}"
  using assms(1,4-6)
proof (induction rs arbitrary: a H)
  case Nil
  have "chain [] h ts = Some t \<longleftrightarrow> ts = [] \<and> h = t" for h t ts by (cases ts) simp_all
  then have "{t. \<exists>h\<in>H. \<exists>ts. set ts \<subseteq> S \<and> chain [] h ts = Some t} = H" by auto
  then show ?case using Nil by simp
next
  case (Cons r rs)
  let ?rp = "snd (body_predicates r)"
  have r: "rule_ok r" "\<forall>r\<in>set rs. rule_ok r" and e: "zs_ok (pe_all e)" using Cons(2) assms(2) by (simp_all add: pe_ok_def)
  obtain n where n: "hj_apply_full r a (leaf e ?rp) = Some n" "full_levels rs e n = Some z"
    using Cons(5) by (auto split: bind_splits)
  have ok: "zs_ok n" and get: "zs_get n u = join_weight (joins r) a (pe_all e) u" for u
    using hj.full_get [OF r(1) n(1)] by (simp_all only: hj.leaf_right [OF assms(2)])
  have ch: "chain (r # rs) h ts = Some t \<longleftrightarrow> (\<exists>u us m. ts = u # us \<and> joins r h u = Some m \<and> chain rs m us = Some t)" for h ts t
    by (cases ts) (auto split: bind_splits)
  have "{t. \<exists>m\<in>{m. \<exists>x\<in>H. \<exists>y\<in>S. joins r x y = Some m}. \<exists>us. set us \<subseteq> S \<and> chain rs m us = Some t}
      = {t. \<exists>h\<in>H. \<exists>ts. set ts \<subseteq> S \<and> chain (r # rs) h ts = Some t}" unfolding ch by (fastforce intro: exI [of _ "_ # _"])
  with Cons(1) [OF r(2) ok join_support [OF Cons(3) e Cons(4) assms(3) get] n(2)] show ?case by simp
qed

lemma apply_full_support:
  assumes "plan_ok plan" and "pe_ok e" and "support_of (pe_all e) S" and "apply_full plan e = Some z"
  shows "zs_ok z" and "support_of z {t. derivations (np_joins plan) S t \<noteq> {}}"
proof -
  have "zs_ok z \<and> support_of z {t. derivations (np_joins plan) S t \<noteq> {}}"
  proof (cases "np_joins plan")
    case Nil
    have "derives [] ts = Some t \<longleftrightarrow> ts = [t]" for ts t by (cases "([] :: hash_join_rule list, ts)" rule: derives.cases) simp_all
    then have "{t. derivations [] S t \<noteq> {}} = S" by (auto simp: derivations_def)
    then show ?thesis using Nil assms by (simp add: apply_full_def pe_ok_def)
  next
    case (Cons r rs)
    let ?lp = "fst (body_predicates r)" and ?rp = "snd (body_predicates r)"
    have r: "rule_ok r" "\<forall>r\<in>set rs. rule_ok r" and e: "zs_ok (pe_all e)"
      using assms(1,2) Cons by (simp_all add: plan_ok_def pe_ok_def)
    obtain n where n: "hj_apply_full r (leaf e ?lp) (leaf e ?rp) = Some n" "full_levels rs e n = Some z"
      using assms(4) Cons by (auto simp: apply_full_def case_prod_beta' Let_def split: bind_splits)
    have ok: "zs_ok n" and get: "zs_get n u = join_weight (joins r) (pe_all e) (pe_all e) u" for u
      using hj.full_get [OF r(1) n(1)] by (simp_all only: hj.leaf_right [OF assms(2)] hj.leaf_left [OF assms(2)])
    note sup = full_levels_support [OF r(2) assms(2,3) ok join_support [OF e e assms(3,3) get] n(2)]
    have d: "derives (r # rs) ts = Some t \<longleftrightarrow> (\<exists>x y us m. ts = x # y # us \<and> joins r x y = Some m \<and> chain rs m us = Some t)" for ts t
      by (cases "(r # rs, ts)" rule: derives.cases) (auto split: bind_splits)
    have "derivations (r # rs) S t \<noteq> {} \<longleftrightarrow> (\<exists>x y us m. x \<in> S \<and> y \<in> S \<and> set us \<subseteq> S \<and> joins r x y = Some m \<and> chain rs m us = Some t)" for t
    proof -
      have "derivations (r # rs) S t \<noteq> {} \<longleftrightarrow> (\<exists>ts. set ts \<subseteq> S \<and> derives (r # rs) ts = Some t)" by (auto simp: derivations_def)
      also have "\<dots> \<longleftrightarrow> (\<exists>x y us m. x \<in> S \<and> y \<in> S \<and> set us \<subseteq> S \<and> joins r x y = Some m \<and> chain rs m us = Some t)"
      proof
        assume "\<exists>ts. set ts \<subseteq> S \<and> derives (r # rs) ts = Some t"
        then obtain ts x y us m where "set ts \<subseteq> S" "ts = x # y # us" "joins r x y = Some m" "chain rs m us = Some t" unfolding d by blast
        then show "\<exists>x y us m. x \<in> S \<and> y \<in> S \<and> set us \<subseteq> S \<and> joins r x y = Some m \<and> chain rs m us = Some t"
          by (intro exI [of _ x] exI [of _ y] exI [of _ us] exI [of _ m]) simp
      next
        assume "\<exists>x y us m. x \<in> S \<and> y \<in> S \<and> set us \<subseteq> S \<and> joins r x y = Some m \<and> chain rs m us = Some t"
        then obtain x y us m where "x \<in> S" "y \<in> S" "set us \<subseteq> S" "joins r x y = Some m" "chain rs m us = Some t" by blast
        then show "\<exists>ts. set ts \<subseteq> S \<and> derives (r # rs) ts = Some t"
          unfolding d by (intro exI [of _ "x # y # us"] conjI exI [of _ x] exI [of _ y] exI [of _ us] exI [of _ m]) simp_all
      qed
      finally show ?thesis .
    qed
    then have "{t. \<exists>m\<in>{m. \<exists>x\<in>S. \<exists>y\<in>S. joins r x y = Some m}. \<exists>us. set us \<subseteq> S \<and> chain rs m us = Some t}
        = {t. derivations (r # rs) S t \<noteq> {}}" by auto
    with sup show ?thesis by (simp add: Cons)
  qed
  then show "zs_ok z" and "support_of z {t. derivations (np_joins plan) S t \<noteq> {}}" by blast+
qed

section \<open>The rule closure from scratch\<close>

lemma consequences_empty: "consequences js {} = {}"
proof -
  have "derives rs [] \<noteq> Some t" for rs t by (cases rs) auto
  then show ?thesis by (auto simp: consequences_def derivations_def)
qed

text \<open>
  What a round has collected: the rows, those of them beyond the base with the rule that found each,
  and a derivation of every one of them from the rows.
\<close>

definition collected :: "rule_set \<Rightarrow> triple_id set \<Rightarrow> triple_id zset \<Rightarrow> (triple_id, rule_id) btree \<Rightarrow> triple_id set \<Rightarrow> bool" where
  "collected js B closure attr X \<longleftrightarrow> zs_ok closure \<and> support_of closure X \<and> bt_ok attr
     \<and> B \<subseteq> X \<and> X \<subseteq> saturation js B \<and> (\<forall>t. bt_get attr t \<noteq> None \<longleftrightarrow> t \<in> X - B)
     \<and> (\<forall>t r. bt_get attr t = Some r \<longrightarrow> 0 < rule_weight js X t r)"

lemma rule_weight_pos:
  assumes "(rs, rid) \<in> set js" and "derivations rs S t \<noteq> {}"
  shows "0 < rule_weight js S t rid"
proof -
  have "0 < card (derivations rs S t)" using assms(2) finite_derivations [of rs S t] by (simp add: card_gt_0_iff)
  moreover have "(if rid = rid then int (card (derivations rs S t)) else 0) \<le> rule_weight js S t rid"
    unfolding rule_weight_def
    by (rule member_le_sum_list) (use assms(1) in \<open>auto intro!: image_eqI [of _ _ "(rs, rid)"]\<close>)
  ultimately show ?thesis by simp
qed

lemma recompute_rows_spec:
  assumes "collected js B closure attr X" and "X0 \<subseteq> X" and "(rs, rid) \<in> set js"
    and "\<And>t m. (t, m) \<in> set dd \<Longrightarrow> m \<noteq> 0 \<longleftrightarrow> derivations rs X0 t \<noteq> {}"
    and "recompute_rows rid dd closure attr ch = (closure', attr', ch')"
  shows "collected js B closure' attr' (X \<union> {t \<in> fst ` set dd. derivations rs X0 t \<noteq> {}})
    \<and> (ch' \<longleftrightarrow> ch \<or> \<not> {t \<in> fst ` set dd. derivations rs X0 t \<noteq> {}} \<subseteq> X)"
  using assms(1,2,4,5)
proof (induction dd arbitrary: closure attr X ch)
  case (Cons e dd)
  obtain t m where e: "e = (t, m)" by (cases e)
  let ?N = "{t \<in> fst ` set dd. derivations rs X0 t \<noteq> {}}"
  have pos: "m \<noteq> 0 \<longleftrightarrow> derivations rs X0 t \<noteq> {}" using Cons(4) [of t m] by (simp add: e)
  have dd: "\<And>t m. (t, m) \<in> set dd \<Longrightarrow> m \<noteq> 0 \<longleftrightarrow> derivations rs X0 t \<noteq> {}" using Cons(4) by simp
  have col: "zs_ok closure" "support_of closure X" "bt_ok attr" "B \<subseteq> X" "X \<subseteq> saturation js B"
    "\<And>t. bt_get attr t \<noteq> None \<longleftrightarrow> t \<in> X - B" "\<And>t r. bt_get attr t = Some r \<Longrightarrow> 0 < rule_weight js X t r"
    using Cons(2) unfolding collected_def by blast+
  have absent: "zs_get closure t = 0 \<longleftrightarrow> t \<notin> X" for t using col(2) by (auto simp: support_of_def order_less_le)
  show ?case
  proof (cases "m \<noteq> 0 \<and> t \<notin> X")
    case True
    have new: "bt_get attr t = None" using col(6) [of t] True by blast
    have run: "recompute_rows rid dd (zs_add t 1 closure) (bt_insert t rid attr) True = (closure', attr', ch')"
      using Cons(5) True new by (simp add: e absent)
    have "t \<in> consequences js X" using True pos derivations_mono [OF Cons(3), of rs t] assms(3) by (auto simp: consequences_def)
    then have sat: "t \<in> saturation js B" using plan_consequences_mono [OF col(5)] consequences_saturation by blast
    have w: "0 < rule_weight js (insert t X) u r" if "bt_get (bt_insert t rid attr) u = Some r" for u r
    proof (cases "u = t")
      case True
      have "derivations rs (insert t X) t \<noteq> {}" using \<open>m \<noteq> 0 \<and> t \<notin> X\<close> pos derivations_mono [of X0 "insert t X" rs t] Cons(3) by blast
      then show ?thesis using True that rule_weight_pos [OF assms(3)] by (simp add: btree_simps)
    next
      case False
      then have "0 < rule_weight js X u r" using that col(7) by (simp add: btree_simps)
      also have "\<dots> \<le> rule_weight js (insert t X) u r" by (rule rule_weight_mono) blast
      finally show ?thesis .
    qed
    have get: "support_of (zs_add t 1 closure) (insert t X)"
      using col(2) by (auto simp: zset_simps support_of_def add_nonneg_pos)
    have attr: "bt_get (bt_insert t rid attr) u \<noteq> None \<longleftrightarrow> u \<in> insert t X - B" for u
      using col(4) col(6) [of u] True by (auto simp: btree_simps)
    have "collected js B (zs_add t 1 closure) (bt_insert t rid attr) (insert t X)"
      unfolding collected_def using col(1,3,4,5) sat get attr w by auto
    from Cons(1) [OF this _ dd run] Cons(3)
    have "collected js B closure' attr' (insert t X \<union> ?N) \<and> ch'" by blast
    moreover have "insert t X \<union> ?N = X \<union> {t \<in> fst ` set (e # dd). derivations rs X0 t \<noteq> {}}" using True pos by (auto simp: e)
    moreover have "\<not> {t \<in> fst ` set (e # dd). derivations rs X0 t \<noteq> {}} \<subseteq> X" using True pos by (auto simp: e)
    ultimately show ?thesis by simp
  next
    case False
    have run: "recompute_rows rid dd closure attr ch = (closure', attr', ch')"
      using Cons(5) False by (auto simp: e absent)
    from Cons(1) [OF Cons(2,3) dd run]
    have ih: "collected js B closure' attr' (X \<union> ?N)" "ch' \<longleftrightarrow> ch \<or> \<not> ?N \<subseteq> X" by blast+
    have "X \<union> ?N = X \<union> {t \<in> fst ` set (e # dd). derivations rs X0 t \<noteq> {}}" using False pos by (auto simp: e)
    moreover have "?N \<subseteq> X \<longleftrightarrow> {t \<in> fst ` set (e # dd). derivations rs X0 t \<noteq> {}} \<subseteq> X" using False pos by (auto simp: e)
    ultimately show ?thesis using ih by simp
  qed
qed simp

lemma recompute_plans_spec:
  assumes "collected js B closure attr X" and "X0 \<subseteq> X" and "set (rules_of ps) \<subseteq> set js" and "\<forall>(plan, rid)\<in>set ps. plan_ok plan"
    and "pe_ok e" and "support_of (pe_all e) X0"
  shows "\<exists>closure' attr' ch'. recompute_plans ps e closure attr ch = Some (closure', attr', ch')
    \<and> collected js B closure' attr' (X \<union> consequences (rules_of ps) X0)
    \<and> (ch' \<longleftrightarrow> ch \<or> \<not> consequences (rules_of ps) X0 \<subseteq> X)"
  using assms(1-4)
proof (induction ps arbitrary: closure attr X ch)
  case Nil
  then show ?case by (simp add: rules_of_def consequences_def)
next
  case (Cons p ps)
  obtain plan rid where p: "p = (plan, rid)" by (cases p)
  have plan: "plan_ok plan" and rule: "(np_joins plan, rid) \<in> set js" using Cons(4,5) by (auto simp: p rules_of_def)
  obtain dd where dd: "apply_full plan e = Some dd" using apply_full_returns [OF plan assms(5)] by blast
  note sup = apply_full_support [OF plan assms(5,6) dd]
  have key: "zs_get dd t \<noteq> 0 \<longleftrightarrow> derivations (np_joins plan) X0 t \<noteq> {}" for t
    using sup(2) by (auto simp: support_of_def order_less_le)
  have vals: "\<And>t m. (t, m) \<in> set dd \<Longrightarrow> m \<noteq> 0 \<longleftrightarrow> derivations (np_joins plan) X0 t \<noteq> {}"
    using key zs_get_mem [OF sup(1)] by auto
  have keys: "{t \<in> fst ` set dd. derivations (np_joins plan) X0 t \<noteq> {}} = consequences [(np_joins plan, rid)] X0"
    using zs_key_iff [OF sup(1)] key by (auto simp: consequences_def)
  obtain c1 a1 ch1 where r: "recompute_rows rid dd closure attr ch = (c1, a1, ch1)" by (metis prod_cases3)
  note step = recompute_rows_spec [OF Cons(2,3) rule vals r, unfolded keys]
  have un: "consequences (rules_of (p # ps)) X0 = consequences [(np_joins plan, rid)] X0 \<union> consequences (rules_of ps) X0"
    by (auto simp: consequences_def rules_of_def p)
  obtain closure' attr' ch' where tail: "recompute_plans ps e c1 a1 ch1 = Some (closure', attr', ch')"
    "collected js B closure' attr' (X \<union> consequences [(np_joins plan, rid)] X0 \<union> consequences (rules_of ps) X0)"
    "ch' \<longleftrightarrow> ch1 \<or> \<not> consequences (rules_of ps) X0 \<subseteq> X \<union> consequences [(np_joins plan, rid)] X0"
    using Cons(1) [of c1 a1 "X \<union> consequences [(np_joins plan, rid)] X0" ch1] step Cons(3-5) by (auto simp: rules_of_def)
  have run: "recompute_plans (p # ps) e closure attr ch = Some (closure', attr', ch')" using dd r tail(1) by (simp add: p)
  have "ch' \<longleftrightarrow> ch \<or> \<not> consequences (rules_of (p # ps)) X0 \<subseteq> X" unfolding un using tail(3) step by blast
  moreover have "collected js B closure' attr' (X \<union> consequences (rules_of (p # ps)) X0)" unfolding un Un_assoc [symmetric] by (rule tail(2))
  ultimately show ?case using run by blast
qed

lemma recompute_rounds_spec:
  assumes "collected (rules_of ps) B closure attr X" and "\<forall>(plan, rid)\<in>set ps. plan_ok plan"
  shows "recompute_rounds n ps closure attr = Some attr' \<Longrightarrow> \<exists>closure'. collected (rules_of ps) B closure' attr' (saturation (rules_of ps) B)"
    and "card (saturation (rules_of ps) B) < card X + n \<Longrightarrow> recompute_rounds n ps closure attr \<noteq> None"
proof -
  have "(recompute_rounds n ps closure attr = Some attr' \<longrightarrow> (\<exists>closure'. collected (rules_of ps) B closure' attr' (saturation (rules_of ps) B)))
    \<and> (card (saturation (rules_of ps) B) < card X + n \<longrightarrow> recompute_rounds n ps closure attr \<noteq> None)"
    using assms(1)
  proof (induction n arbitrary: closure attr X)
    case 0
    have "card X \<le> card (saturation (rules_of ps) B)" using 0 by (intro card_mono) (simp_all add: collected_def)
    then show ?case by simp
  next
    case (Suc n)
    have c: "zs_ok closure" "support_of closure X" using Suc(2) unfolding collected_def by blast+
    have e: "pe_ok (pe_from_zset closure)" "support_of (pe_all (pe_from_zset closure)) X"
      using pe_from_zset_spec [OF c(1)] c(2) by (simp_all add: support_of_def pe_get_def)
    from recompute_plans_spec [OF Suc(2) subset_refl subset_refl assms(2) e, of False]
    obtain c1 a1 ch where r: "recompute_plans ps (pe_from_zset closure) closure attr False = Some (c1, a1, ch)"
      "collected (rules_of ps) B c1 a1 (X \<union> consequences (rules_of ps) X)"
      "ch \<longleftrightarrow> \<not> consequences (rules_of ps) X \<subseteq> X" by blast
    show ?case
    proof (cases ch)
      case True
      let ?X = "X \<union> consequences (rules_of ps) X"
      have "X \<subset> ?X" using True r(3) by blast
      then have "card X < card ?X" by (intro psubset_card_mono) simp_all
      with Suc(1) [OF r(2)] r(1) True show ?thesis by simp
    next
      case False
      then have "consequences (rules_of ps) X \<subseteq> X" using r(3) by blast
      moreover have "B \<subseteq> X" "X \<subseteq> saturation (rules_of ps) B" using Suc(2) unfolding collected_def by blast+
      ultimately have "X = saturation (rules_of ps) B" by (intro saturation_eqI)
      moreover have "X \<union> consequences (rules_of ps) X = X" using \<open>consequences (rules_of ps) X \<subseteq> X\<close> by blast
      ultimately show ?thesis using r(1,2) False by auto
    qed
  qed
  then show "recompute_rounds n ps closure attr = Some attr' \<Longrightarrow> \<exists>closure'. collected (rules_of ps) B closure' attr' (saturation (rules_of ps) B)"
    and "card (saturation (rules_of ps) B) < card X + n \<Longrightarrow> recompute_rounds n ps closure attr \<noteq> None" by blast+
qed

lemma consequences_need_rows: "saturation js {} = {}"
  by (rule saturation_eqI [symmetric]) (simp_all add: consequences_empty)

lemma positive_keys:
  assumes "zs_ok z"
  shows "t \<in> fst ` set (filter (\<lambda>(t, m). m > 0) z) \<longleftrightarrow> 0 < zs_get z t"
proof -
  have "t \<in> fst ` set (filter (\<lambda>(t, m). m > 0) z) \<longleftrightarrow> (\<exists>m. (t, m) \<in> set z \<and> 0 < m)" by (force simp: image_iff)
  then show ?thesis by (auto simp: zs_get_mem [OF assms])
qed

lemma recompute_rule_closure_spec:
  assumes "base_ok c" and "\<forall>(plan, rid)\<in>set (plans c). plan_ok plan"
  defines "T \<equiv> saturation (rules c) (base_rows c)"
  shows "recompute_rule_closure c = Some attr \<Longrightarrow> bt_ok attr \<and> (\<forall>t. bt_get attr t \<noteq> None \<longleftrightarrow> t \<in> T - base_rows c)
      \<and> (\<forall>t r. bt_get attr t = Some r \<longrightarrow> 0 < rule_weight (rules c) T t r)"
    and "card T \<le> max_fixpoint_rounds \<Longrightarrow> recompute_rule_closure c \<noteq> None"
proof -
  define seed where "seed = zs_from_iter (map (\<lambda>(t, m). (t, 1)) (filter (\<lambda>(t, m). m > 0) (asserted_base c))
                      @ map (\<lambda>(t, u). (t, 1)) (closure_support c))"
  have ok: "zs_ok (asserted_base c)" "bt_ok (closure_support c)" using assms(1) by (simp_all add: base_ok_def)
  have one: "(\<Sum>(k, m)\<leftarrow>map (\<lambda>(t, m). (t, 1)) es. if k = t then m else 0) = int (length (filter (\<lambda>e. fst e = t) es))" for es :: "(triple_id \<times> 'x) list" and t
    by (induction es) auto
  have get: "zs_get seed t = int (length (filter (\<lambda>e. fst e = t) (filter (\<lambda>(t, m). m > 0) (asserted_base c))))
      + int (length (filter (\<lambda>e. fst e = t) (closure_support c)))" for t
    unfolding seed_def zs_from_iter_spec(2) map_append sum_list.append one ..
  have some: "0 < int (length (filter (\<lambda>e. fst e = t) es)) \<longleftrightarrow> t \<in> fst ` set es" for es :: "(triple_id \<times> 'x) list" and t
    by (force simp: filter_empty_conv)
  have "0 < zs_get seed t \<longleftrightarrow> t \<in> base_rows c" for t
  proof -
    have "0 < zs_get seed t \<longleftrightarrow> 0 < int (length (filter (\<lambda>e. fst e = t) (filter (\<lambda>(t, m). m > 0) (asserted_base c))))
        \<or> 0 < int (length (filter (\<lambda>e. fst e = t) (closure_support c)))" unfolding get by linarith
    also have "\<dots> \<longleftrightarrow> t \<in> fst ` set (filter (\<lambda>(t, m). m > 0) (asserted_base c)) \<or> t \<in> fst ` set (closure_support c)" unfolding some ..
    also have "\<dots> \<longleftrightarrow> 0 < zs_get (asserted_base c) t \<or> t \<in> bset_set (closure_support c)"
      unfolding bset_set_keys [OF ok(2)] positive_keys [OF ok(1)] ..
    finally show ?thesis by (simp add: base_rows_iff)
  qed
  then have "support_of seed (base_rows c)" by (simp add: support_of_def get)
  then have col: "collected (rules c) (base_rows c) seed [] (base_rows c)"
    by (simp add: collected_def base_saturation seed_def zs_from_iter_spec(1))
  have run: "recompute_rule_closure c = recompute_rounds max_fixpoint_rounds (plans c) seed []"
    by (simp add: recompute_rule_closure_def seed_def)
  note rounds = recompute_rounds_spec [OF col assms(2), of max_fixpoint_rounds]
  show "recompute_rule_closure c = Some attr \<Longrightarrow> bt_ok attr \<and> (\<forall>t. bt_get attr t \<noteq> None \<longleftrightarrow> t \<in> T - base_rows c)
      \<and> (\<forall>t r. bt_get attr t = Some r \<longrightarrow> 0 < rule_weight (rules c) T t r)"
    unfolding run T_def using rounds(1) unfolding collected_def by blast
  show "recompute_rule_closure c \<noteq> None" if "card T \<le> max_fixpoint_rounds"
  proof (cases "base_rows c = {}")
    case True
    then have "T = {}" by (simp add: T_def consequences_need_rows)
    then show ?thesis unfolding run using rounds(2) by (simp add: T_def True max_fixpoint_rounds_def)
  next
    case False
    then have "0 < card (base_rows c)" by (simp add: card_gt_0_iff)
    then show ?thesis unfolding run using rounds(2) that by (simp add: T_def)
  qed
qed

section \<open>The difference to the old rows\<close>

text \<open>What the two difference loops change, by one row at a time.\<close>

definition shifted :: "circuit \<Rightarrow> circuit \<Rightarrow> (triple_id \<Rightarrow> int) \<Rightarrow> bool" where
  "shifted c c' f \<longleftrightarrow> c' = c\<lparr>derived_base := derived_base c', pending_derived := pending_derived c'\<rparr>
     \<and> zs_ok (derived_base c') \<and> zs_ok (pending_derived c') \<and> drift c' = drift c
     \<and> (\<forall>t. zs_get (derived_base c') t = zs_get (derived_base c) t + f t)"

lemma shifted_step:
  assumes "zs_ok (derived_base c)" and "zs_ok (pending_derived c)"
  shows "shifted c (emit_derived t m k (c\<lparr>derived_base := zs_add t m (derived_base c)\<rparr>)) (\<lambda>u. if u = t then m else 0)"
  using assms by (auto simp: shifted_def emit_derived_def drift_def fun_eq_iff zs_sum_add zset_simps)

lemma shifted_refl: "zs_ok (derived_base c) \<Longrightarrow> zs_ok (pending_derived c) \<Longrightarrow> shifted c c (\<lambda>t. 0)"
  by (simp add: shifted_def)

lemma shifted_trans:
  assumes "shifted a b f" and "shifted b c g"
  shows "shifted a c (\<lambda>t. f t + g t)"
  using assms by (cases a; cases b; cases c) (simp add: shifted_def)

lemma add_recomputed_spec:
  assumes "zs_ok (derived_base c)" and "zs_ok (pending_derived c)" and "distinct (map fst es)"
  shows "shifted c (fold (add_recomputed old) es c) (\<lambda>t. if t \<in> fst ` set es \<and> bt_get old t = None then 1 else 0)"
  using assms
proof (induction es arbitrary: c)
  case (Cons e es)
  obtain t r where e: "e = (t, r)" by (cases e)
  have one: "shifted c (add_recomputed old e c) (\<lambda>u. if u = t \<and> bt_get old t = None then 1 else 0)"
  proof (cases "bt_get old t = None")
    case True
    then show ?thesis using shifted_step [OF Cons(2,3), of t 1] by (simp add: e add_recomputed_def)
  next
    case False
    then show ?thesis using shifted_refl [OF Cons(2,3)] by (auto simp: e add_recomputed_def)
  qed
  then have "zs_ok (derived_base (add_recomputed old e c))" "zs_ok (pending_derived (add_recomputed old e c))"
    by (simp_all add: shifted_def)
  with Cons(1,4) have "shifted (add_recomputed old e c) (fold (add_recomputed old) es (add_recomputed old e c))
      (\<lambda>t. if t \<in> fst ` set es \<and> bt_get old t = None then 1 else 0)" by simp
  note both = shifted_trans [OF one this]
  have "(\<lambda>u. (if u = t \<and> bt_get old t = None then 1 else 0) + (if u \<in> fst ` set es \<and> bt_get old u = None then 1 else 0))
      = (\<lambda>u. if u \<in> fst ` set (e # es) \<and> bt_get old u = None then 1 else (0 :: int))" using Cons(4) by (auto simp: fun_eq_iff e)
  with both show ?case by simp
qed (simp add: shifted_refl)

lemma drop_recomputed_spec:
  assumes "zs_ok (derived_base c)" and "zs_ok (pending_derived c)" and "distinct (map fst es)"
    and "\<And>t. t \<in> fst ` set es \<Longrightarrow> bt_get new t = None \<Longrightarrow> t \<notin> closure_rows c \<Longrightarrow> zs_get (derived_base c) t = 1"
  shows "shifted c (fold (drop_recomputed new) es c)
    (\<lambda>t. if t \<in> fst ` set es \<and> bt_get new t = None \<and> t \<notin> closure_rows c then - 1 else 0)"
  using assms
proof (induction es arbitrary: c)
  case (Cons e es)
  obtain t r where e: "e = (t, r)" by (cases e)
  let ?gone = "\<lambda>t. bt_get new t = None \<and> t \<notin> closure_rows c"
  let ?c = "drop_recomputed new e c"
  have one: "shifted c ?c (\<lambda>u. if u = t \<and> ?gone t then - 1 else 0)"
  proof (cases "?gone t")
    case True
    then have "zs_get (derived_base c) t = 1" using Cons(5) by (simp add: e)
    then have "?c = emit_derived t (- 1) (Rule_Inferred r) (c\<lparr>derived_base := zs_add t (- 1) (derived_base c)\<rparr>)"
      using True by (simp add: e drop_recomputed_def withdraw_derived_row_def closure_rows_set)
    then show ?thesis using shifted_step [OF Cons(2,3), of t "- 1"] True by simp
  next
    case False
    then have "?c = c" by (auto simp: e drop_recomputed_def closure_rows_set)
    then show ?thesis using shifted_refl [OF Cons(2,3)] False by auto
  qed
  then have ok: "zs_ok (derived_base ?c)" "zs_ok (pending_derived ?c)"
    and eq: "?c = c\<lparr>derived_base := derived_base ?c, pending_derived := pending_derived ?c\<rparr>"
    and get: "\<And>u. zs_get (derived_base ?c) u = zs_get (derived_base c) u + (if u = t \<and> ?gone t then - 1 else 0)"
    unfolding shifted_def by blast+
  have cl: "closure_rows ?c = closure_rows c" unfolding closure_rows_set by (subst eq) simp
  have "shifted ?c (fold (drop_recomputed new) es ?c) (\<lambda>t. if t \<in> fst ` set es \<and> bt_get new t = None \<and> t \<notin> closure_rows ?c then - 1 else 0)"
  proof (rule Cons(1) [OF ok])
    show "distinct (map fst es)" using Cons(4) by simp
    show "zs_get (derived_base ?c) u = 1" if "u \<in> fst ` set es" "bt_get new u = None" "u \<notin> closure_rows ?c" for u
    proof -
      have "u \<noteq> t" using Cons(4) that(1) by (auto simp: e)
      moreover have "zs_get (derived_base c) u = 1" by (rule Cons(5)) (use that cl in simp_all)
      ultimately show ?thesis by (simp add: get)
    qed
  qed
  note both = shifted_trans [OF one this [unfolded cl]]
  have "(\<lambda>u. (if u = t \<and> ?gone t then - 1 else 0) + (if u \<in> fst ` set es \<and> bt_get new u = None \<and> u \<notin> closure_rows c then - 1 else 0))
      = (\<lambda>u. if u \<in> fst ` set (e # es) \<and> bt_get new u = None \<and> u \<notin> closure_rows c then - 1 else (0 :: int))"
    using Cons(4) by (auto simp: fun_eq_iff e)
  with both show ?case by simp
qed (simp add: shifted_refl)

section \<open>The rebuilt state\<close>

lemma materialize_presence_spec:
  assumes "base_ok c"
  shows "zs_ok (materialize_presence c)" and "zs_get (materialize_presence c) t = in_set (all_rows c) t"
proof -
  let ?f = "\<lambda>(t, m) z. if m > 0 then zs_add t 1 z else z :: triple_id zset"
  let ?g = "\<lambda>(t, m) z. if m > 0 \<and> zs_get z t = 0 then zs_add t 1 z else z :: triple_id zset"
  have first: "zs_ok (fold ?f es z) \<and> zs_get (fold ?f es z) t = zs_get z t + (if \<exists>m. (t, m) \<in> set es \<and> m > 0 then 1 else 0)"
    if "zs_ok z" "distinct (map fst es)" for es z t
    using that
  proof (induction es arbitrary: z)
    case (Cons e es)
    obtain u m where e: "e = (u, m)" by (cases e)
    have "zs_ok (?f e z)" using Cons(2) by (auto simp: e)
    from Cons(1) [OF this] Cons(3) have "zs_ok (fold ?f es (?f e z)) \<and> zs_get (fold ?f es (?f e z)) t
        = zs_get (?f e z) t + (if \<exists>m. (t, m) \<in> set es \<and> m > 0 then 1 else 0)" by simp
    moreover have "u \<notin> fst ` set es" using Cons(3) by (simp add: e)
    ultimately show ?case by (auto simp: e zset_simps split: if_splits) force+
  qed simp
  have second: "zs_ok (fold ?g es z) \<and> zs_get (fold ?g es z) t = zs_get z t + (if (\<exists>m. (t, m) \<in> set es \<and> m > 0) \<and> zs_get z t = 0 then 1 else 0)"
    if "zs_ok z" "distinct (map fst es)" for es z t
    using that
  proof (induction es arbitrary: z)
    case (Cons e es)
    obtain u m where e: "e = (u, m)" by (cases e)
    have "zs_ok (?g e z)" using Cons(2) by (auto simp: e)
    from Cons(1) [OF this] Cons(3) have "zs_ok (fold ?g es (?g e z)) \<and> zs_get (fold ?g es (?g e z)) t
        = zs_get (?g e z) t + (if (\<exists>m. (t, m) \<in> set es \<and> m > 0) \<and> zs_get (?g e z) t = 0 then 1 else 0)" by simp
    moreover have "u \<notin> fst ` set es" using Cons(3) by (simp add: e)
    ultimately show ?case by (auto simp: e zset_simps split: if_splits)
  qed simp
  have ok: "zs_ok (asserted_base c)" "zs_ok (derived_base c)" using assms by (simp_all add: base_ok_def)
  have d: "distinct (map fst (asserted_base c))" "distinct (map fst (derived_base c))" using ok by (simp_all add: zs_ok_def bt_distinct)
  have m: "(\<exists>m. (t, m) \<in> set (asserted_base c) \<and> 0 < m) \<longleftrightarrow> 0 < zs_get (asserted_base c) t"
    "(\<exists>m. (t, m) \<in> set (derived_base c) \<and> 0 < m) \<longleftrightarrow> 0 < zs_get (derived_base c) t" for t
    by (simp_all add: zs_get_mem [OF ok(1)] zs_get_mem [OF ok(2)]) auto
  let ?z = "fold ?f (asserted_base c) zs_new"
  have z: "zs_ok ?z" "zs_get ?z t = (if 0 < zs_get (asserted_base c) t then 1 else 0)" for t
    using first [OF _ d(1), of zs_new t] by (simp_all add: m)
  have s: "zs_ok (fold ?g (derived_base c) ?z)" "zs_get (fold ?g (derived_base c) ?z) t
      = zs_get ?z t + (if 0 < zs_get (derived_base c) t \<and> zs_get ?z t = 0 then 1 else 0)" for t
    using second [OF z(1) d(2), of t] unfolding m by blast+
  show "zs_ok (materialize_presence c)" using s(1) by (simp add: materialize_presence_def)
  have "zs_get (materialize_presence c) t = (if 0 < zs_get (asserted_base c) t \<or> 0 < zs_get (derived_base c) t then 1 else 0)"
    using s(2) [of t] z(2) [of t] by (simp add: materialize_presence_def)
  then show "zs_get (materialize_presence c) t = in_set (all_rows c) t" unfolding presence [OF assms] in_set_def .
qed

text \<open>Weights summed plan by plan.\<close>

definition wlook :: "(triple_id, weights) btree \<Rightarrow> triple_id \<Rightarrow> rule_id \<Rightarrow> int" where
  "wlook w t r = (case bt_get w t of None \<Rightarrow> 0 | Some x \<Rightarrow> zs_get x r)"

definition wtree_ok :: "(triple_id, weights) btree \<Rightarrow> bool" where
  "wtree_ok w \<longleftrightarrow> bt_ok w \<and> (\<forall>t x. bt_get w t = Some x \<longrightarrow> bt_ok x)"

abbreviation bump :: "rule_id \<Rightarrow> triple_id \<times> int \<Rightarrow> (triple_id, weights) btree \<Rightarrow> (triple_id, weights) btree" where
  "bump rid \<equiv> \<lambda>(t, m) w. if m \<noteq> 0
     then let per_rule = (case bt_get w t of None \<Rightarrow> [] | Some x \<Rightarrow> x);
              old = (case bt_get per_rule rid of None \<Rightarrow> 0 | Some x \<Rightarrow> x)
          in bt_insert t (bt_insert rid (old + m) per_rule) w
     else w"

lemma bump_spec:
  assumes "wtree_ok w"
  shows "wtree_ok (bump rid (t, m) w) \<and> wlook (bump rid (t, m) w) u r = wlook w u r + (if u = t \<and> r = rid then m else 0)"
proof (cases "m = 0")
  case False
  have ok: "bt_ok (case bt_get w t of None \<Rightarrow> [] | Some x \<Rightarrow> x)" using assms by (auto simp: wtree_ok_def split: option.split)
  have zs: "zs_get (bt_insert rid v x) r = (if r = rid then v else zs_get x r)" for v :: int and x by (simp add: zs_get_def btree_simps)
  show ?thesis
    using assms False ok bt_ok_insert [OF ok]
    by (auto simp: wtree_ok_def wlook_def Let_def btree_simps zs zs_get_def split: option.split if_splits)
qed (use assms in simp)

lemma fold_bump:
  assumes "wtree_ok w"
  shows "wtree_ok (fold (bump rid) es w) \<and> wlook (fold (bump rid) es w) u r
    = wlook w u r + (if r = rid then (\<Sum>(t, m)\<leftarrow>es. if t = u then m else 0) else 0)"
  using assms
proof (induction es arbitrary: w)
  case (Cons e es)
  obtain t m where e: "e = (t, m)" by (cases e)
  have "wtree_ok (bump rid e w)" using bump_spec [OF Cons(2)] unfolding e by blast
  from Cons(1) [OF this] bump_spec [OF Cons(2), of rid t m u r] show ?case unfolding e by auto
qed simp

lemma resync_plans_spec:
  assumes "wtree_ok w" and "extent_of e S" and "\<forall>(plan, rid)\<in>set ps. plan_ok plan"
  shows "\<exists>w'. resync_plans ps e w = Some w' \<and> wtree_ok w' \<and> (\<forall>t r. wlook w' t r = wlook w t r + rule_weight (rules_of ps) S t r)"
  using assms(1,3)
proof (induction ps arbitrary: w)
  case (Cons p ps)
  obtain plan rid where p: "p = (plan, rid)" by (cases p)
  have plan: "plan_ok plan" using Cons(3) by (simp add: p)
  have "pe_ok e" using assms(2) by (simp add: extent_of_def)
  then obtain z where z: "apply_full plan e = Some z" "zs_ok z" using apply_full_returns [OF plan] by blast
  note count = apply_full_count [OF plan assms(2) z(1)]
  let ?w = "fold (bump rid) z w"
  have w: "wtree_ok ?w" "wlook ?w t r = wlook w t r + (if r = rid then int (card (derivations (np_joins plan) S t)) else 0)" for t r
    using fold_bump [OF Cons(2), of rid z t r] count [of t] zs_get_sum [OF z(2), of t] by simp_all
  obtain w' where w': "resync_plans ps e ?w = Some w'" "wtree_ok w'"
    "\<forall>t r. wlook w' t r = wlook ?w t r + rule_weight (rules_of ps) S t r" using Cons(1) [OF w(1)] Cons(3) by auto
  have "rule_weight (rules_of (p # ps)) S t r = (if r = rid then int (card (derivations (np_joins plan) S t)) else 0) + rule_weight (rules_of ps) S t r" for t r
    by (simp add: rule_weight_def rules_of_def p)
  then have "wlook w' t r = wlook w t r + rule_weight (rules_of (p # ps)) S t r" for t r using w(2) [of t r] w'(3) by simp
  moreover have "resync_plans (p # ps) e w = Some w'"
    using w'(1) by (simp only: p resync_plans.simps z(1) bind.bind_lunit)
  ultimately show ?case using w'(2) by blast
qed (simp add: rule_weight_def rules_of_def)

lemma bt_ok_filter: "bt_ok m \<Longrightarrow> bt_ok (filter P m)"
  by (simp add: bt_ok_def sorted_wrt_map sorted_wrt_filter)

lemma filter_nonzero:
  assumes "bt_ok x"
  shows "zs_ok (filter (\<lambda>(r, m). m \<noteq> 0) x)" and "zs_get (filter (\<lambda>(r, m). m \<noteq> 0) x) r = zs_get (x :: weights) r"
proof -
  let ?y = "filter (\<lambda>(r, m). m \<noteq> 0) x"
  have ok: "bt_ok ?y" using assms by (rule bt_ok_filter)
  then show "zs_ok ?y" by (auto simp: zs_ok_def)
  have mem: "bt_get ?y r = Some m \<longleftrightarrow> bt_get x r = Some m \<and> m \<noteq> 0" for m
    unfolding bt_get_mem [OF ok, symmetric] bt_get_mem [OF assms, symmetric] by auto
  have "bt_get ?y r = (case bt_get x r of None \<Rightarrow> None | Some m \<Rightarrow> if m \<noteq> 0 then Some m else None)"
  proof (cases "bt_get ?y r")
    case (Some m)
    then show ?thesis using mem [of m] by simp
  next
    case None
    then have "bt_get x r = Some m \<Longrightarrow> m = 0" for m using mem [of m] by simp
    then show ?thesis using None by (cases "bt_get x r") simp_all
  qed
  then show "zs_get ?y r = zs_get x r" unfolding zs_get_def by (simp split: option.split)
qed

lemma pruned_weights:
  assumes "wtree_ok w"
  defines "v \<equiv> filter (\<lambda>(t, per_rule). per_rule \<noteq> []) (map (\<lambda>(t, per_rule). (t, filter (\<lambda>(rid, m). m \<noteq> 0) per_rule)) w)"
  shows "bt_ok v" and "bt_get v t = Some x \<Longrightarrow> zs_ok x"
    and "(case bt_get v t of None \<Rightarrow> 0 | Some x \<Rightarrow> zs_get x r) = wlook w t r"
proof -
  let ?f = "\<lambda>x :: weights. filter (\<lambda>(rid, m). m \<noteq> 0) x"
  have w: "bt_ok w" "\<And>t x. bt_get w t = Some x \<Longrightarrow> bt_ok x" using assms(1) by (auto simp: wtree_ok_def)
  have keys: "map fst (map (\<lambda>(t, x). (t, ?f x)) w) = map fst w" by (simp add: case_prod_beta')
  have "bt_ok (map (\<lambda>(t, x). (t, ?f x)) w)" using w(1) unfolding bt_ok_def keys .
  then show ok: "bt_ok v" unfolding v_def by (rule bt_ok_filter)
  have mem: "bt_get v t = Some x \<longleftrightarrow> (\<exists>y. bt_get w t = Some y \<and> x = ?f y \<and> x \<noteq> [])" for t x
    unfolding bt_get_mem [OF ok, symmetric] bt_get_mem [OF w(1), symmetric] by (auto simp: v_def)
  show "bt_get v t = Some x \<Longrightarrow> zs_ok x" unfolding mem using filter_nonzero(1) w(2) by blast
  show "(case bt_get v t of None \<Rightarrow> 0 | Some x \<Rightarrow> zs_get x r) = wlook w t r"
  proof (cases "bt_get w t")
    case None
    then have "bt_get v t = None" using mem [of t] by (cases "bt_get v t") auto
    then show ?thesis using None by (simp add: wlook_def)
  next
    case (Some y)
    note y = filter_nonzero(2) [OF w(2) [OF Some], of r]
    show ?thesis
    proof (cases "?f y = []")
      case True
      then have "bt_get v t = None" using mem [of t] Some by (cases "bt_get v t") auto
      then show ?thesis using True Some y by (simp add: wlook_def zs_get_def)
    next
      case False
      then have "bt_get v t = Some (?f y)" using mem [of t "?f y"] Some by blast
      then show ?thesis using Some y by (simp add: wlook_def)
    qed
  qed
qed

lemma resync_spec:
  assumes "base_ok c" and "\<forall>(plan, rid)\<in>set (plans c). plan_ok plan"
  shows "\<exists>e w ps. resync_incremental_state c = Some (c\<lparr>extent := e, rule_weights := w, plans := ps\<rparr>)
    \<and> rules_of ps = rules c \<and> extent_of e (all_rows c) \<and> plans_ok ps e
    \<and> exact (c\<lparr>extent := e, rule_weights := w, plans := ps\<rparr>) (all_rows c)"
proof -
  let ?e = "pe_from_zset (materialize_presence c)" and ?ps = "map (\<lambda>(plan, rid). (reset_state plan, rid)) (plans c)"
  note pres = materialize_presence_spec [OF assms(1)]
  have ext: "extent_of ?e (all_rows c)" using pe_from_zset_spec [OF pres(1)] pres(2) by (simp add: extent_of_def in_set_def)
  have "wtree_ok []" by (simp add: wtree_ok_def)
  from resync_plans_spec [OF this ext assms(2)] obtain w where w: "resync_plans (plans c) ?e [] = Some w" "wtree_ok w"
    "\<And>t r. wlook w t r = rule_weight (rules c) (all_rows c) t r" by (auto simp: wlook_def)
  let ?v = "filter (\<lambda>(t, per_rule). per_rule \<noteq> []) (map (\<lambda>(t, per_rule). (t, filter (\<lambda>(rid, m). m \<noteq> 0) per_rule)) w)"
  let ?c = "c\<lparr>extent := ?e, rule_weights := ?v, plans := ?ps\<rparr>"
  note pr = pruned_weights [OF w(2)]
  have rules: "rules_of ?ps = rules c" by (auto simp: rules_of_def reset_state_def)
  have "plans_ok ?ps ?e" using assms(2) by (auto simp: plans_ok_def plan_ok_def state_ok_def reset_state_def)
  moreover have "weights_ok ?c" unfolding weights_ok_def using pr(1,2) by auto
  moreover have "wmap ?c t r = rule_weight (rules_of ?ps) (all_rows c) t r" for t r
    using pr(3) [where t = t and r = r] w(3) rules by (simp add: wmap_def)
  ultimately have "exact ?c (all_rows c)" "plans_ok ?ps ?e" by (simp_all add: exact_def)
  moreover have "resync_incremental_state c = Some ?c" by (simp add: resync_incremental_state_def w(1) Let_def)
  ultimately show ?thesis using ext rules by blast
qed

section \<open>The fallback\<close>

lemma saturation_minus: "B \<union> (saturation js B - B) = saturation js B"
  using base_saturation [of B js] by blast

lemma run_recompute_fallback_spec:
  assumes "drained c A E ret ins" and "sync c d"
  shows "card (entailed c (asserted_rows c)) \<le> max_fixpoint_rounds \<Longrightarrow> run_recompute_fallback h ins ret c \<noteq> None"
    and "run_recompute_fallback h ins ret c = Some c' \<Longrightarrow> advanced c c'"
proof -
  have c: "settled c E" "zs_ok ins" using assms(1) unfolding drained_def by blast+
  have ins: "\<And>r. r \<in> set (closure_plans c) \<Longrightarrow> edges_at (cr_predicate r) (A - {t. zs_get ret t < 0} \<union> {t. 0 < zs_get ins t})
          = edges_at (cr_predicate r) (asserted_rows c)" using assms(1) unfolding drained_def by blast
  obtain c1 d1 os where first: "run_closure_retract_pass h ret c d = (c1, d1, os)" by (metis prod_cases3)
  note p1 = retract_pass_spec [OF assms first]
  then have m1: "moved c c1" by blast
  note fr1 = moved_frame [OF m1]
  have ins1: "edges_at (cr_predicate r) (A - {t. zs_get ret t < 0} \<union> {t. 0 < zs_get ins t})
          = edges_at (cr_predicate r) (asserted_rows c1)" if "r \<in> set (closure_plans c1)" for r
  proof -
    have "cr_predicate r \<in> set (closure_predicates c)" using that p1 by (metis image_eqI set_map)
    then obtain r0 where r0: "r0 \<in> set (closure_plans c)" "cr_predicate r = cr_predicate r0" by auto
    show ?thesis unfolding r0(2) fr1(8) by (rule ins [OF r0(1)])
  qed
  obtain c2 d2 where second: "run_closure_insertion_pass h ins c1 d1 = Some (c2, d2)" "moved c1 c2"
    "closure_predicates c2 = closure_predicates c1" "closures_ok c2 (asserted_rows c2)"
    using insertion_pass_spec [OF fr1(1) _ c(2) _ ins1] p1 by blast
  have m2: "moved c c2" by (rule moved_trans [OF m1 second(2)])
  note fr2 = moved_frame [OF m2]
  let ?T = "saturation (rules c2) (base_rows c2)"
  have ent: "?T = entailed c (asserted_rows c)"
    using closures_base [OF second(4)] second(3) p1 fr2(3,8) by (simp add: entailed_def base_rows_def)
  have plans: "\<forall>(plan, rid)\<in>set (plans c2). plan_ok plan" using c(1) fr2(3) by (auto simp: settled_def plans_ok_def)
  obtain e1 where e1: "run_closure_retract_pass h ret c zs_new = (c1, e1, os)" using run_closure_retract_pass_notes [OF first] by blast
  obtain e2 where e2: "run_closure_insertion_pass h ins c1 e1 = Some (c2, e2)" using run_closure_insertion_pass_notes [OF second(1)] by blast
  let ?old = "rule_attr c2"
  define diff where "diff new = fold (drop_recomputed new) ?old (fold (add_recomputed ?old) new c2)" for new
  have run: "run_recompute_fallback h ins ret c = do { new \<leftarrow> recompute_rule_closure c2; resync_incremental_state ((diff new)\<lparr>rule_attr := new\<rparr>) }"
    unfolding run_recompute_fallback_def e1 Let_def prod.case e2 bind.bind_lunit diff_def ..
  note b2 = base_okD [OF fr2(1)]
  have key: "t \<in> fst ` set x \<longleftrightarrow> bt_get x t \<noteq> None" for x :: "(triple_id, rule_id) btree" and t by (simp add: bt_get_eq_None_iff)
  have final: "\<exists>c'. resync_incremental_state ((diff new)\<lparr>rule_attr := new\<rparr>) = Some c' \<and> advanced c2 c'"
    if new: "recompute_rule_closure c2 = Some new" for new
  proof -
    note n = recompute_rule_closure_spec(1) [OF fr2(1) plans new]
    then have rows: "\<And>t. bt_get new t \<noteq> None \<longleftrightarrow> t \<in> ?T - base_rows c2" and nok: "bt_ok new" by blast+
    let ?c3 = "fold (add_recomputed ?old) new c2"
    have s3: "shifted c2 ?c3 (\<lambda>t. if t \<in> fst ` set new \<and> bt_get ?old t = None then 1 else 0)"
      by (rule add_recomputed_spec [OF b2(1,2) bt_distinct [OF nok]])
    then have f3: "zs_ok (derived_base ?c3)" "zs_ok (pending_derived ?c3)" "?c3 = c2\<lparr>derived_base := derived_base ?c3, pending_derived := pending_derived ?c3\<rparr>"
      and g3: "\<And>t. zs_get (derived_base ?c3) t = zs_get (derived_base c2) t + (if t \<in> fst ` set new \<and> bt_get ?old t = None then 1 else 0)"
      unfolding shifted_def by blast+
    have cl3: "closure_rows ?c3 = closure_rows c2" unfolding closure_rows_set by (subst f3(3)) simp
    have s4: "shifted ?c3 (diff new) (\<lambda>t. if t \<in> fst ` set ?old \<and> bt_get new t = None \<and> t \<notin> closure_rows ?c3 then - 1 else 0)"
      unfolding diff_def
    proof (rule drop_recomputed_spec [OF f3(1,2) bt_distinct [OF b2(3)]])
      fix t assume "t \<in> fst ` set ?old" "bt_get new t = None" "t \<notin> closure_rows ?c3"
      then show "zs_get (derived_base ?c3) t = 1" unfolding g3 b2(4) by (simp add: key rule_rows_def)
    qed
    note s = shifted_trans [OF s3 s4, unfolded cl3]
    define c4 where "c4 = (diff new)\<lparr>rule_attr := new\<rparr>"
    have d4: "diff new = c2\<lparr>derived_base := derived_base (diff new), pending_derived := pending_derived (diff new)\<rparr>"
      and ok4: "zs_ok (derived_base (diff new))" "zs_ok (pending_derived (diff new))" and dr4: "drift (diff new) = drift c2"
      and g4: "\<And>t. zs_get (derived_base (diff new)) t = zs_get (derived_base c2) t + ((if t \<in> fst ` set new \<and> bt_get ?old t = None then 1 else 0)
        + (if t \<in> fst ` set ?old \<and> bt_get new t = None \<and> t \<notin> closure_rows c2 then - 1 else 0))"
      using s unfolding shifted_def by blast+
    have c4: "c4 = c2\<lparr>derived_base := derived_base c4, pending_derived := pending_derived c4, rule_attr := new\<rparr>"
      unfolding c4_def by (subst d4) simp
    have fr4: "asserted_base c4 = asserted_base c2" "closure_support c4 = closure_support c2" "plans c4 = plans c2" "rule_attr c4 = new"
      "closure_plans c4 = closure_plans c2" "feed c4 = feed c2" "derived_clock c4 = derived_clock c2" "input_log c4 = input_log c2"
      "recompute_fallback c4 = recompute_fallback c2" by (subst c4, simp)+
    have r4: "asserted_rows c4 = asserted_rows c2" "closure_rows c4 = closure_rows c2" "rule_rows c4 = ?T - base_rows c2"
      using rows by (auto simp: asserted_rows_def closure_rows_set fr4 rule_rows_def)
    then have base: "base_rows c4 = base_rows c2" by (simp add: base_rows_def)
    have all: "all_rows c4 = ?T" unfolding all_rows_def base r4(3) by (rule saturation_minus)
    have "zs_get (derived_base c4) t = (if t \<in> closure_rows c4 \<union> rule_rows c4 then 1 else 0)" for t
      using rows [of t] unfolding r4 by (auto simp: c4_def g4 b2(4) key rule_rows_def base_rows_def)
    then have "base_ok c4" using ok4 fr2(1) nok by (simp add: base_ok_def fr4) (simp add: c4_def)
    moreover have "\<forall>(plan, rid)\<in>set (plans c4). plan_ok plan" using plans by (simp add: fr4)
    ultimately obtain e w ps where rs: "resync_incremental_state c4 = Some (c4\<lparr>extent := e, rule_weights := w, plans := ps\<rparr>)"
      "rules_of ps = rules c4" "extent_of e (all_rows c4)" "plans_ok ps e" "exact (c4\<lparr>extent := e, rule_weights := w, plans := ps\<rparr>) (all_rows c4)"
      using resync_spec by blast
    let ?c' = "c4\<lparr>extent := e, rule_weights := w, plans := ps\<rparr>"
    have r': "asserted_rows ?c' = asserted_rows c4" "closure_rows ?c' = closure_rows c4" "rule_rows ?c' = rule_rows c4"
      by (simp_all add: asserted_rows_def closure_rows_set rule_rows_def)
    then have all': "all_rows ?c' = ?T" "base_rows ?c' = base_rows c2" using all base by (simp_all add: all_rows_def base_rows_def)
    have b': "base_ok ?c'" using \<open>base_ok c4\<close> by (simp add: base_ok_def r')
    have "attr_ok ?c'"
      using rs(5) n unfolding attr_ok_def exact_def all by (simp add: fr4 rs(2))
    then have "settled ?c' (all_rows ?c')" using b' rs(3-5) unfolding settled_def all' all by simp
    moreover have "rules ?c' = rules c2" using rs(2) by (simp add: fr4)
    moreover have cp: "closure_plans ?c' = closure_plans c2" by (simp add: fr4)
    have "closures_ok ?c' (asserted_rows c2)" using second(4) unfolding closures_ok_def cl_ok_def r' r4 cp .
    ultimately have "tick_ok ?c'" unfolding tick_ok_def all' r' r4 by simp
    moreover have "drift ?c' = drift c2" using dr4 by (simp add: drift_def c4_def fun_eq_iff)
    ultimately have "advanced c2 ?c'" using \<open>rules ?c' = rules c2\<close> r' r4 by (simp add: advanced_def fr4)
    then show ?thesis using rs(1) unfolding c4_def by blast
  qed
  show "run_recompute_fallback h ins ret c \<noteq> None" if bound: "card (entailed c (asserted_rows c)) \<le> max_fixpoint_rounds"
  proof -
    have "recompute_rule_closure c2 \<noteq> None" by (rule recompute_rule_closure_spec(2) [OF fr2(1) plans]) (use bound ent in simp)
    then obtain new where "recompute_rule_closure c2 = Some new" by blast
    with final [OF this] show ?thesis unfolding run by auto
  qed
  show "advanced c c'" if r: "run_recompute_fallback h ins ret c = Some c'"
  proof -
    obtain new where new: "recompute_rule_closure c2 = Some new" "resync_incremental_state ((diff new)\<lparr>rule_attr := new\<rparr>) = Some c'"
      using r unfolding run by (auto split: bind_splits)
    have "advanced c2 c'" using final [OF new(1)] new(2) by auto
    then show ?thesis using fr2 second(3) p1 by (simp add: advanced_def)
  qed
qed

section \<open>A tick on either path\<close>

lemma tick_spec:
  assumes "tick_ok c" and "no_owned_retraction c \<or> recompute_fallback c \<and> retracting c"
  shows "card (all_rows c) \<le> max_fixpoint_rounds \<Longrightarrow> card (entailed c (next_asserted c)) \<le> max_fixpoint_rounds
      \<Longrightarrow> \<exists>c2. {t. base_presence c2 t} = entailed c (next_asserted c) \<and> derived_clock c2 = derived_clock c
        \<and> (tick h c = None \<longleftrightarrow> flush_derived_feed c2 = None)"
    and "tick h c = Some (rep, c') \<Longrightarrow> tick_ok c' \<and> asserted_rows c' = next_asserted c \<and> rules c' = rules c
      \<and> closure_predicates c' = closure_predicates c \<and> recompute_fallback c' = recompute_fallback c
      \<and> dl_records (input_log c') = [] \<and> (\<exists>recs. fed c c' recs \<and> tr_derived_merged rep = length recs)"
proof -
  let ?recs = "dl_records (input_log c)"
  obtain z c1 where d: "drain c = (?recs, z, map (\<lambda>(t, m). (t, t \<in> asserted_rows c)) z, length ?recs, c1)"
    "\<And>b. b = (\<exists>rec\<in>set ?recs. dr_mult rec < 0) \<Longrightarrow>
       drained c1 (asserted_rows c) (all_rows c) (retractions_for_closure c1 b z) (insertions_for_closure c1 z)
       \<and> (\<not> b \<longrightarrow> asserted_rows c \<subseteq> asserted_rows c1 \<and> {t. zs_get (retractions_for_closure c1 b z) t < 0} = {})"
    "sync c1 (note_flips c1 (map (\<lambda>(t, m). (t, t \<in> asserted_rows c)) z))"
    "asserted_rows c1 = next_asserted c" "rule_rows c1 = rule_rows c" "rules c1 = rules c" "closure_plans c1 = closure_plans c"
    "derived_base c1 = derived_base c" "pending_derived c1 = zs_new" "feed c1 = feed c @ ?recs"
    "dl_records (input_log c1) = []" "derived_clock c1 = derived_clock c" "recompute_fallback c1 = recompute_fallback c"
    by (rule drained_tick [OF assms(1)]) blast
  define b where "b = retracting c"
  have b: "b = (\<exists>rec\<in>set ?recs. dr_mult rec < 0)" by (simp add: b_def retracting_def)
  let ?pp = "map (\<lambda>(t, m). (t, t \<in> asserted_rows c)) z"
  let ?ins = "insertions_for_closure c1 z" and ?ret = "retractions_for_closure c1 b z"
  let ?run = "if recompute_fallback c1 \<and> b then run_recompute_fallback h ?ins ?ret c1 else run_unified h b ?pp ?ins ?ret c1"
  note dr = d(2) [OF b]
  have ent: "entailed c1 (asserted_rows c1) = entailed c (next_asserted c)" by (simp add: entailed_def d(4,6,7))
  have run: "card (all_rows c) \<le> max_fixpoint_rounds \<Longrightarrow> card (entailed c (next_asserted c)) \<le> max_fixpoint_rounds \<Longrightarrow> ?run \<noteq> None"
    "?run = Some c2 \<Longrightarrow> advanced c1 c2" for c2
  proof -
    have "(card (all_rows c) \<le> max_fixpoint_rounds \<longrightarrow> card (entailed c (next_asserted c)) \<le> max_fixpoint_rounds \<longrightarrow> ?run \<noteq> None)
      \<and> (?run = Some c2 \<longrightarrow> advanced c1 c2)"
    proof (cases "recompute_fallback c1 \<and> b")
      case True
      note rc = run_recompute_fallback_spec [OF conjunct1 [OF dr] d(3), where h = h, unfolded ent]
      show ?thesis unfolding if_P [OF True] using rc by blast
    next
      case False
      then have "\<not> (recompute_fallback c \<and> retracting c)" by (simp add: b_def d(13))
      then have "no_owned_retraction c" using assms(2) by blast
      then have no: "(asserted_rows c - asserted_rows c1) \<inter> rule_rows c1 = {}" by (simp add: no_owned_retraction_def d(4,5))
      note un = run_unified_spec [OF conjunct1 [OF dr] d(3) no, of b, OF mp [OF conjunct2 [OF dr]], of h, unfolded ent]
      show ?thesis unfolding if_not_P [OF False] using un by blast
    qed
    then show "card (all_rows c) \<le> max_fixpoint_rounds \<Longrightarrow> card (entailed c (next_asserted c)) \<le> max_fixpoint_rounds \<Longrightarrow> ?run \<noteq> None"
      "?run = Some c2 \<Longrightarrow> advanced c1 c2" by blast+
  qed
  have tick: "tick h c = do { c2 \<leftarrow> ?run; (n, c3) \<leftarrow> flush_derived_feed c2;
      Some (\<lparr>tr_asserted_merged = length ?recs, tr_derived_merged = n,
             tr_logical_time = (if ?recs = [] then 0 else dr_time (last ?recs))\<rparr>, c3) }"
    unfolding tick_def d(1) Let_def prod.case b [symmetric] ..
  show "\<exists>c2. {t. base_presence c2 t} = entailed c (next_asserted c) \<and> derived_clock c2 = derived_clock c
        \<and> (tick h c = None \<longleftrightarrow> flush_derived_feed c2 = None)"
    if "card (all_rows c) \<le> max_fixpoint_rounds" "card (entailed c (next_asserted c)) \<le> max_fixpoint_rounds"
  proof -
    have "?run \<noteq> None" by (rule run(1)) (use that in simp_all)
    then obtain c2 where c2: "?run = Some c2" by blast
    have a: "advanced c1 c2" by (rule run(2) [OF c2])
    then have "tick_ok c2" "entailed c2 (asserted_rows c2) = entailed c1 (asserted_rows c1)"
      unfolding advanced_def entailed_def by simp_all
    then have "{t. base_presence c2 t} = entailed c (next_asserted c)" using tick_ok_entailed(1) ent by simp
    moreover have "derived_clock c2 = derived_clock c" using a d(12) by (simp add: advanced_def)
    moreover have "tick h c = None \<longleftrightarrow> flush_derived_feed c2 = None" 
    proof (cases "flush_derived_feed c2")
      case None
      then show ?thesis by (simp only: tick c2 bind.bind_lunit bind.bind_lzero HOL.simp_thms)
    next
      case (Some p)
      obtain n c3 where "p = (n, c3)" by (cases p)
      with Some have "tick h c \<noteq> None" by (simp only: tick c2 bind.bind_lunit prod.case option.distinct not_False_eq_True)
      with Some show ?thesis by simp
    qed
    ultimately show ?thesis by (intro exI [of _ c2] conjI)
  qed
  show "tick_ok c' \<and> asserted_rows c' = next_asserted c \<and> rules c' = rules c
      \<and> closure_predicates c' = closure_predicates c \<and> recompute_fallback c' = recompute_fallback c
      \<and> dl_records (input_log c') = [] \<and> (\<exists>recs. fed c c' recs \<and> tr_derived_merged rep = length recs)"
    if t: "tick h c = Some (rep, c')"
  proof -
    obtain c2 where c2: "?run = Some c2" using t unfolding tick by (auto split: bind_splits)
    have a: "advanced c1 c2" by (rule run(2) [OF c2])
    obtain n where f: "flush_derived_feed c2 = Some (n, c')" "tr_derived_merged rep = n"
      using t unfolding tick c2 by (auto split: bind_splits)
    have ok2: "tick_ok c2" using a by (simp add: advanced_def)
    then have b2: "base_ok c2" unfolding tick_ok_def settled_def by blast
    obtain recs k where r: "c' = c2\<lparr>pending_derived := zs_new, derived_clock := k, feed := feed c2 @ recs\<rparr>"
      "n = length recs" "\<And>t. net recs t = zs_sum (pending_derived c2) (\<lambda>e. if fst e = t then 1 else 0)"
      "\<forall>r\<in>set recs. dr_mult r \<noteq> 0" "distinct (map (\<lambda>r. (dr_triple r, dr_kind r)) recs)"
      "\<forall>i<length recs. dr_time (recs ! i) = derived_clock c2 + of_nat i"
      by (rule flush_spec [OF b2 f(1)]) blast
    note fl = flush_tick_ok [OF ok2, of "feed c2 @ recs" k, folded r(1)]
    have "drift c2 t = drift c1 t" for t using a by (simp add: advanced_def)
    then have "net recs t - zs_get (derived_base c2) t = - zs_get (derived_base c) t" for t
      using r(3) d(8,9) by (simp add: drift_def zs_new_def)
    then have "zs_get (derived_base c2) t = zs_get (derived_base c) t + net recs t" for t by (simp add: algebra_simps)
    moreover have "derived_base c' = derived_base c2" by (simp add: r(1))
    moreover have "feed c' = feed c @ ?recs @ recs" using a d(10) by (simp add: r(1) advanced_def)
    moreover have "derived_clock c2 = derived_clock c" using a d(12) by (simp add: advanced_def)
    ultimately have "fed c c' recs" using r(4-6) by (simp add: fed_def)
    moreover have "rules c' = rules c2" "closure_plans c' = closure_plans c2" "input_log c' = input_log c2"
      "recompute_fallback c' = recompute_fallback c2" by (simp_all add: r(1))
    ultimately show ?thesis using a fl d(4,6,7,11,13) f(2) r(2) by (auto simp: advanced_def)
  qed
qed

end
