(* ===== verification/Plan_Choice.thy ===== *)
theory Plan_Choice imports Nary_Plan begin

text \<open>
  The planner of \<^verbatim>\<open>crates/incremental/src/operator.rs\<close>: the greedy connected order of a rule body,
  the shape a join prefix hands to the next level, and the plan built from both. The cost estimates
  are an argument, and what a plan derives does not depend on them.
\<close>

section \<open>The planner\<close>

text \<open>What the planner asks of the statistics: whether they are informed, and two estimates.\<close>

record estimates =
  is_informed :: bool
  estimate_pattern :: "triple_pattern \<Rightarrow> u64"
  estimate_bgp :: "triple_pattern list \<Rightarrow> u64"

definition intermediate_pad :: u64 where
  "intermediate_pad = 0"

definition add_var :: "var \<Rightarrow> var list \<Rightarrow> var list" where
  "add_var v vs = (if v \<in> set vs then vs else vs @ [v])"

definition still_needed :: "triple_pattern list \<Rightarrow> nat list \<Rightarrow> triple_pattern \<Rightarrow> var list" where
  "still_needed body rest head = fold (\<lambda>i. fold add_var (vars_in (body ! i))) rest (vars_in head)"

definition live_vars :: "triple_pattern \<Rightarrow> triple_pattern \<Rightarrow> var list \<Rightarrow> var list" where
  "live_vars l r needed = fold (\<lambda>v live. if v \<in> set needed then add_var v live else live) (vars_in l @ vars_in r) []"

definition shape_slot :: "var list \<Rightarrow> nat \<Rightarrow> slot_term" where
  "shape_slot live i = (if i < length live then Var (live ! i) else Bound intermediate_pad)"

definition intermediate_shape ::
  "triple_pattern \<Rightarrow> triple_pattern \<Rightarrow> triple_pattern list \<Rightarrow> nat list \<Rightarrow> triple_pattern \<Rightarrow> kernel_error + triple_pattern" where
  "intermediate_shape l r body rest head =
     (let live = live_vars l r (still_needed body rest head) in
      if length live > 3 then Inl (Too_Many_Live_Vars (length live))
      else Inr (mk_pattern (shape_slot live 0) (shape_slot live 1) (shape_slot live 2)))"

text \<open>The first index of least cost; an empty range panics.\<close>

fun first_min :: "('a \<Rightarrow> u64) \<Rightarrow> 'a list \<Rightarrow> 'a option" where
  "first_min cost [] = None"
| "first_min cost (x # xs) = Some (fold (\<lambda>y best. if cost y < cost best then y else best) xs x)"

definition consider_next ::
  "estimates \<Rightarrow> nat list \<Rightarrow> triple_pattern list \<Rightarrow> var list \<Rightarrow> nat \<times> triple_pattern \<Rightarrow> (u64 \<times> nat) option
     \<Rightarrow> (u64 \<times> nat) option" where
  "consider_next est order prefix prefix_vars e best = (case e of (i, pat) \<Rightarrow>
     if i \<in> set order \<or> \<not> (\<exists>v\<in>set (vars_in pat). v \<in> set prefix_vars) then best
     else let cost = (if is_informed est then estimate_bgp est (prefix @ [pat]) else 0)
          in if (case best of None \<Rightarrow> True | Some (best_cost, j) \<Rightarrow> cost < best_cost) then Some (cost, i) else best)"

function extend_order ::
  "estimates \<Rightarrow> triple_pattern list \<Rightarrow> nat list \<Rightarrow> triple_pattern list \<Rightarrow> kernel_error + nat list" where
  "extend_order est body order prefix =
     (if length order < length body
      then case fold (consider_next est order prefix (concat (map vars_in prefix))) (enumerate 0 body) None of
          None \<Rightarrow> Inl Disconnected_Body
        | Some (cost, pick) \<Rightarrow> extend_order est body (order @ [pick]) (prefix @ [body ! pick])
      else Inr order)"
  by pat_completeness auto
termination by (relation "measure (\<lambda>(est, body, order, prefix). length body - length order)") auto

declare extend_order.simps [simp del]

definition choose_order :: "estimates \<Rightarrow> triple_pattern list \<Rightarrow> (kernel_error + nat list) option" where
  "choose_order est body = do {
     start \<leftarrow> (if is_informed est then first_min (\<lambda>i. estimate_pattern est (body ! i)) [0..<length body] else Some 0);
     if start < length body then Some (extend_order est body [start] [body ! start]) else None }"

fun push_levels ::
  "32 word \<Rightarrow> triple_pattern list \<Rightarrow> triple_pattern \<Rightarrow> triple_pattern \<Rightarrow> nat list \<Rightarrow> nary_plan \<Rightarrow> kernel_error + nary_plan" where
  "push_levels rid body head l [] plan = Inr plan"
| "push_levels rid body head l (i # rest) plan =
     (case (if rest = [] then Inr head else intermediate_shape l (body ! i) body rest head) of
        Inl e \<Rightarrow> Inl e
      | Inr step_head \<Rightarrow> (case hj_new rid l (body ! i) step_head of
          Inl e \<Rightarrow> Inl e
        | Inr rule \<Rightarrow> push_levels rid body head step_head rest (push_join rule plan)))"

definition from_body ::
  "estimates \<Rightarrow> 32 word \<Rightarrow> triple_pattern list \<Rightarrow> triple_pattern \<Rightarrow> (kernel_error + nary_plan) option" where
  "from_body est rid body head =
     (if length body < 2 then Some (Inl (Body_Too_Short (length body)))
      else do {
        chosen \<leftarrow> choose_order est body;
        Some (case chosen of
          Inl e \<Rightarrow> Inl e
        | Inr order \<Rightarrow> (case push_levels rid body head (body ! hd order) (tl order) np_new of
            Inl e \<Rightarrow> Inl e
          | Inr plan \<Rightarrow> Inr (plan\<lparr>np_leaf_order := order\<rparr>))) })"

section \<open>What a body derives\<close>

text \<open>
  A list of triples, one per pattern, matches a body when one binding explains all of them; the
  conclusion is the head under that binding.
\<close>

definition entries :: "triple_pattern \<Rightarrow> triple_id \<Rightarrow> (slot_term \<times> u64) list" where
  "entries pat t = zip (slots pat) [fst t, fst (snd t), snd (snd t)]"

definition match_body :: "triple_pattern list \<Rightarrow> triple_id list \<Rightarrow> binding option" where
  "match_body body ts = bind_terms (concat (map2 entries body ts)) Map.empty"

definition body_derivations :: "triple_pattern list \<Rightarrow> triple_pattern \<Rightarrow> triple_id set \<Rightarrow> triple_id \<Rightarrow> triple_id list set" where
  "body_derivations body head S t = {ts. length ts = length body \<and> set ts \<subseteq> S
     \<and> (\<exists>b. match_body body ts = Some b \<and> head_value head b = Some t)}"

definition body_vars :: "triple_pattern list \<Rightarrow> var set" where
  "body_vars body = (\<Union>pat\<in>set body. pattern_vars pat)"

text \<open>A body is connected when no proper part of it is free of variables of the rest.\<close>

definition connected :: "triple_pattern list \<Rightarrow> bool" where
  "connected body \<longleftrightarrow> (\<forall>I. I \<noteq> {} \<longrightarrow> I \<subset> {..<length body} \<longrightarrow>
     (\<exists>i\<in>I. \<exists>j\<in>{..<length body} - I. pattern_vars (body ! i) \<inter> pattern_vars (body ! j) \<noteq> {}))"

section \<open>Bindings\<close>

lemma value_of_mono: "b \<subseteq>\<^sub>m c \<Longrightarrow> value_of b t = Some x \<Longrightarrow> value_of c t = Some x"
  by (cases t) (auto simp: map_le_def dom_def)

lemma bind_terms_iff:
  "bind_terms es b = Some c \<longleftrightarrow> b \<subseteq>\<^sub>m c \<and> dom c = dom b \<union> {v. Var v \<in> fst ` set es} \<and> (\<forall>(t, y)\<in>set es. value_of c t = Some y)"
    (is "?l = ?r")
proof
  assume r: ?r
  then obtain d where d: "bind_terms es b = Some d" "d \<subseteq>\<^sub>m c" using bind_terms_complete [of es c b] by auto
  moreover have "dom d = dom c" using bind_terms_spec [OF d(1)] r by auto
  ultimately have "d = c" unfolding map_le_def by (metis (no_types, lifting) domIff ext)
  with d show ?l by simp
qed (rule bind_terms_spec)

lemma bind_terms_append: "bind_terms (xs @ ys) b = do { c \<leftarrow> bind_terms xs b; bind_terms ys c }"
proof (induction xs b rule: bind_terms.induct)
  case (3 v y es b)
  show ?case
  proof (cases "b v")
    case None
    with 3(1) [OF None] show ?thesis by (simp only: append_Cons bind_terms.simps option.case)
  next
    case (Some x)
    with 3(2) [OF Some] show ?thesis by simp
  qed
qed simp_all

lemma bind_terms_cong: "set xs = set ys \<Longrightarrow> bind_terms xs b = bind_terms ys b"
proof -
  assume "set xs = set ys"
  then have "bind_terms xs b = Some c \<longleftrightarrow> bind_terms ys b = Some c" for c by (simp only: bind_terms_iff)
  then show ?thesis by (cases "bind_terms xs b") (metis option.exhaust)+
qed

lemma match_triple_entries: "match_triple pat t = bind_terms (entries pat t) Map.empty"
  by (cases t) (simp add: match_triple_def entries_def slots_def)

lemma fst_entries: "fst ` set (entries pat t) = set (slots pat)"
  by (simp add: entries_def slots_def)

lemma vars_entries: "{v. Var v \<in> fst ` set (entries pat t)} = pattern_vars pat"
  by (simp add: fst_entries pattern_vars_def)

text \<open>Matching one more pattern: it matches alone, and the bindings agree where both speak.\<close>

lemma bind_entries:
  "bind_terms (entries pat t) b = (case match_triple pat t of None \<Rightarrow> None
     | Some c \<Rightarrow> if \<forall>v\<in>dom b \<inter> pattern_vars pat. b v = c v then Some (b ++ c) else None)" (is "?l = ?r")
proof -
  have val: "value_of (b ++ c) s = value_of c s" if "dom c = pattern_vars pat" "(s, y) \<in> set (entries pat t)" for c s y
  proof (cases s)
    case (Var v)
    have "s \<in> fst ` set (entries pat t)" using that(2) by force
    then have "v \<in> dom c" unfolding that(1) vars_entries [of pat t, symmetric] using Var by simp
    then show ?thesis using Var by (auto simp: map_add_def dom_def split: option.split)
  qed simp
  show ?thesis
  proof (cases "\<exists>c. match_triple pat t = Some c \<and> (\<forall>v\<in>dom b \<inter> pattern_vars pat. b v = c v)")
    case True
    then obtain c where c: "match_triple pat t = Some c" and agree: "\<forall>v\<in>dom b \<inter> pattern_vars pat. b v = c v" by blast
    have spec: "dom c = pattern_vars pat" "\<forall>(s, y)\<in>set (entries pat t). value_of c s = Some y"
      using c by (simp_all add: match_triple_entries bind_terms_iff vars_entries)
    have "b \<subseteq>\<^sub>m b ++ c" using agree spec(1)
      by (auto simp: map_le_def map_add_def split: option.split) (metis IntI domI option.inject)
    moreover have "\<forall>(s, y)\<in>set (entries pat t). value_of (b ++ c) s = Some y"
    proof
      fix e assume e: "e \<in> set (entries pat t)"
      obtain s y where "e = (s, y)" by (cases e)
      with e spec(2) val [OF spec(1), of s y] show "case e of (s, y) \<Rightarrow> value_of (b ++ c) s = Some y" by auto
    qed
    ultimately have "?l = Some (b ++ c)" unfolding bind_terms_iff vars_entries using spec(1) by auto
    with c agree show ?thesis by simp
  next
    case False
    have "?l \<noteq> Some d" for d
    proof
      assume "?l = Some d"
      then have d: "b \<subseteq>\<^sub>m d" "dom d = dom b \<union> pattern_vars pat" "\<forall>(s, y)\<in>set (entries pat t). value_of d s = Some y"
        unfolding bind_terms_iff vars_entries by blast+
      obtain c where c: "match_triple pat t = Some c" "c \<subseteq>\<^sub>m d"
        using bind_terms_complete [of "entries pat t" d Map.empty] d(3) by (auto simp: match_triple_entries)
      have "b v = c v" if "v \<in> dom b \<inter> pattern_vars pat" for v
      proof -
        have "v \<in> dom c" using that match_triple_dom [OF c(1)] by blast
        then have "c v = d v" using c(2) by (simp add: map_le_def)
        moreover have "b v = d v" using d(1) that by (simp add: map_le_def)
        ultimately show ?thesis by simp
      qed
      with c(1) False show False by blast
    qed
    then have "?l = None" by (cases ?l) auto
    with False show ?thesis by (auto split: option.splits)
  qed
qed

lemma head_value_cong: "(\<And>v. v \<in> pattern_vars head \<Longrightarrow> b v = c v) \<Longrightarrow> head_value head b = head_value head c"
proof -
  assume eq: "\<And>v. v \<in> pattern_vars head \<Longrightarrow> b v = c v"
  have "value_of b s = value_of c s" if "s \<in> set (slots head)" for s
    by (cases s; use that eq in \<open>simp add: pattern_vars_def\<close>)
  then show ?thesis by (simp add: head_value_def slots_def)
qed

text \<open>A row written under a binding is matched back with that binding.\<close>

lemma match_written:
  assumes "head_value pat b = Some n"
  shows "match_triple pat n = Some (b |` pattern_vars pat)"
proof -
  obtain s p ob where n: "n = (s, p, ob)" "value_of b (pat_s pat) = Some s" "value_of b (pat_p pat) = Some p" "value_of b (pat_o pat) = Some ob"
    using assms by (auto simp: head_value_def split: bind_splits)
  have keep: "value_of (b |` pattern_vars pat) x = value_of b x" if "x \<in> set (slots pat)" for x
    by (cases x; use that in \<open>simp add: pattern_vars_def\<close>)
  have bound: "v \<in> dom b" if "v \<in> pattern_vars pat" for v
  proof -
    have "value_of b (Var v) \<noteq> None" using that n by (auto simp: pattern_vars_def slots_def simp del: value_of.simps)
    then show ?thesis by auto
  qed
  show ?thesis
    unfolding match_triple_entries bind_terms_iff vars_entries
    using n keep bound by (auto simp: entries_def slots_def)
qed

lemma head_value_returns: "pattern_vars head \<subseteq> dom b \<Longrightarrow> \<exists>n. head_value head b = Some n"
proof -
  assume dom: "pattern_vars head \<subseteq> dom b"
  have "\<exists>x. value_of b s = Some x" if "s \<in> set (slots head)" for s
  proof (cases s)
    case (Var v)
    then have "v \<in> dom b" using that dom by (auto simp: pattern_vars_def)
    then show ?thesis using Var by auto
  qed simp
  then show ?thesis by (simp add: head_value_def slots_def) (metis bind.bind_lunit)
qed

section \<open>The order\<close>

definition order_ok :: "triple_pattern list \<Rightarrow> nat list \<Rightarrow> bool" where
  "order_ok body order \<longleftrightarrow> order \<noteq> [] \<and> distinct order \<and> set order \<subseteq> {..<length body}
     \<and> (\<forall>k. 0 < k \<longrightarrow> k < length order \<longrightarrow>
          (\<exists>j<k. pattern_vars (body ! (order ! k)) \<inter> pattern_vars (body ! (order ! j)) \<noteq> {}))"

definition candidate :: "nat list \<Rightarrow> var list \<Rightarrow> nat \<times> triple_pattern \<Rightarrow> bool" where
  "candidate order prefix_vars e \<longleftrightarrow> fst e \<notin> set order \<and> pattern_vars (snd e) \<inter> set prefix_vars \<noteq> {}"

lemma consider_next_step:
  "consider_next est order prefix prefix_vars e best =
     (if \<not> candidate order prefix_vars e then best
      else let cost = (if is_informed est then estimate_bgp est (prefix @ [snd e]) else 0)
           in if (case best of None \<Rightarrow> True | Some (best_cost, j) \<Rightarrow> cost < best_cost) then Some (cost, fst e) else best)"
proof -
  have c: "\<not> candidate order prefix_vars e \<longleftrightarrow> fst e \<in> set order \<or> \<not> (\<exists>v\<in>set (vars_in (snd e)). v \<in> set prefix_vars)"
    by (auto simp: candidate_def set_vars_in)
  show ?thesis unfolding c consider_next_def case_prod_beta by (rule refl)
qed

lemma fold_consider:
  "fold (consider_next est order prefix prefix_vars) es best = None \<longleftrightarrow> best = None \<and> \<not> (\<exists>e\<in>set es. candidate order prefix_vars e)"
  "fold (consider_next est order prefix prefix_vars) es best = Some (c, i) \<Longrightarrow>
     best = Some (c, i) \<or> (\<exists>e\<in>set es. fst e = i \<and> candidate order prefix_vars e)"
proof (induction es arbitrary: best)
  case (Cons e es)
  { case 1 then show ?case using Cons(1) by (auto simp: consider_next_step Let_def split: option.splits) }
  { case 2 then show ?case using Cons(2) [of "consider_next est order prefix prefix_vars e best"]
      by (auto simp: consider_next_step Let_def split: if_splits) }
qed simp_all

lemma candidate_shares:
  assumes "candidate order (concat (map vars_in (map ((!) body) order))) (i, body ! i)"
  shows "i \<notin> set order" "\<exists>j<length order. pattern_vars (body ! i) \<inter> pattern_vars (body ! (order ! j)) \<noteq> {}"
  using assms by (auto simp: candidate_def set_vars_in in_set_conv_nth) blast

lemma order_ok_snoc:
  assumes "order_ok body order" and "i < length body" and "i \<notin> set order"
    and "\<exists>j<length order. pattern_vars (body ! i) \<inter> pattern_vars (body ! (order ! j)) \<noteq> {}"
  shows "order_ok body (order @ [i])"
  unfolding order_ok_def
proof (intro conjI allI impI)
  fix k assume k: "0 < k" "k < length (order @ [i])"
  show "\<exists>j<k. pattern_vars (body ! ((order @ [i]) ! k)) \<inter> pattern_vars (body ! ((order @ [i]) ! j)) \<noteq> {}"
  proof (cases "k < length order")
    case True
    then obtain j where "j < k" "pattern_vars (body ! (order ! k)) \<inter> pattern_vars (body ! (order ! j)) \<noteq> {}"
      using assms(1) k(1) unfolding order_ok_def by blast
    then show ?thesis using True by (intro exI [of _ j]) (simp add: nth_append)
  next
    case False
    with k have "k = length order" by simp
    with assms(4) show ?thesis by (auto simp: nth_append)
  qed
qed (use assms in \<open>auto simp: order_ok_def\<close>)

lemma extend_order_spec:
  assumes "order_ok body order" and "prefix = map ((!) body) order"
  shows "case extend_order est body order prefix of
      Inr o' \<Rightarrow> order_ok body o' \<and> length o' = length body
    | Inl e \<Rightarrow> e = Disconnected_Body \<and> \<not> connected body"
  using assms
proof (induction est body order prefix rule: extend_order.induct)
  case (1 est body order prefix)
  note ok = 1(2) and prefix = 1(3)
  let ?vs = "concat (map vars_in prefix)"
  let ?pick = "fold (consider_next est order prefix ?vs) (enumerate 0 body) None"
  show ?case
  proof (cases "length order < length body")
    case less: True
    show ?thesis
    proof (cases ?pick)
      case None
      let ?I = "set order"
      have "?I \<noteq> {}" "?I \<subseteq> {..<length body}" using ok by (auto simp: order_ok_def)
      moreover have "card ?I < length body" using ok less by (simp add: order_ok_def distinct_card)
      then have "?I \<noteq> {..<length body}" by (metis card_lessThan less_irrefl)
      moreover have "pattern_vars (body ! i) \<inter> pattern_vars (body ! j) = {}" if "i \<in> ?I" "j \<in> {..<length body} - ?I" for i j
      proof -
        have "\<not> candidate order ?vs (j, body ! j)"
          using None that(2) by (auto simp: fold_consider(1) in_set_enumerate_eq)
        then show ?thesis using that by (auto simp: candidate_def prefix set_vars_in)
      qed
      ultimately have "\<not> connected body" unfolding connected_def by (metis psubsetI)
      then show ?thesis using less None by (simp add: extend_order.simps [of est body order])
    next
      case (Some r)
      obtain cost i where r: "r = (cost, i)" by (cases r)
      have "\<exists>e\<in>set (enumerate 0 body). fst e = i \<and> candidate order ?vs e"
        using fold_consider(2) [of est order prefix ?vs "enumerate 0 body" None cost i] Some r by simp
      then have i: "i < length body" "candidate order ?vs (i, body ! i)" by (auto simp: in_set_enumerate_eq)
      have "order_ok body (order @ [i])"
        using candidate_shares [of order body i] i by (intro order_ok_snoc ok) (simp_all add: prefix)
      with 1(1) [OF less Some r [symmetric]] show ?thesis using less Some r prefix
        by (simp add: extend_order.simps [of est body order])
    qed
  next
    case False
    have "length order \<le> length body"
      using ok card_mono [of "{..<length body}" "set order"] by (simp add: order_ok_def distinct_card)
    with False ok show ?thesis by (simp add: extend_order.simps [of est body order])
  qed
qed

lemma order_connects:
  assumes "order_ok body order" and "length order = length body"
  shows "connected body"
  unfolding connected_def
proof (intro allI impI)
  fix I assume I: "I \<noteq> {}" "I \<subset> {..<length body}"
  have "card (set order) = length body" using assms by (simp add: order_ok_def distinct_card)
  then have set: "set order = {..<length body}"
    using assms(1) by (intro card_subset_eq) (simp_all add: order_ok_def)
  define b where "b = (order ! 0 \<in> I)"
  have "\<exists>k<length order. (order ! k \<in> I) \<noteq> b"
  proof (rule ccontr)
    assume "\<not> ?thesis"
    then have all: "\<forall>i\<in>set order. (i \<in> I) = b" by (auto simp: in_set_conv_nth)
    obtain i j where "i \<in> I" "i < length body" "j < length body" "j \<notin> I" using I by blast
    then show False using all set by auto
  qed
  then obtain k where k: "k < length order" "(order ! k \<in> I) \<noteq> b" "\<forall>j<k. (order ! j \<in> I) = b"
    using exists_least_iff [of "\<lambda>k. k < length order \<and> (order ! k \<in> I) \<noteq> b"] by force
  then have "0 < k" by (auto simp: b_def intro: gr0I)
  then obtain j where j: "j < k" "pattern_vars (body ! (order ! k)) \<inter> pattern_vars (body ! (order ! j)) \<noteq> {}"
    using assms(1) k(1) unfolding order_ok_def by blast
  have in_range: "order ! k \<in> {..<length body}" "order ! j \<in> {..<length body}"
    using k(1) j(1) set nth_mem [of k order] nth_mem [of j order] by auto
  show "\<exists>i\<in>I. \<exists>j\<in>{..<length body} - I. pattern_vars (body ! i) \<inter> pattern_vars (body ! j) \<noteq> {}"
  proof (cases b)
    case True
    then have "order ! j \<in> I" "order ! k \<notin> I" using k j(1) by auto
    with j(2) in_range show ?thesis by (intro bexI [of _ "order ! j"] bexI [of _ "order ! k"]) auto
  next
    case False
    then have "order ! k \<in> I" "order ! j \<notin> I" using k j(1) by auto
    with j(2) in_range show ?thesis by (intro bexI [of _ "order ! k"] bexI [of _ "order ! j"]) auto
  qed
qed

lemma first_min_mem: "first_min cost xs = Some x \<Longrightarrow> x \<in> set xs"
proof (cases xs)
  case (Cons y ys)
  have "fold (\<lambda>y best. if cost y < cost best then y else best) ys z \<in> insert z (set ys)" for z
  proof (induction ys arbitrary: z)
    case (Cons y ys)
    from Cons [of "if cost y < cost z then y else z"] show ?case by (simp split: if_splits) blast+
  qed simp
  moreover assume "first_min cost xs = Some x"
  ultimately show ?thesis using Cons by auto
qed simp

lemma choose_order_spec:
  assumes "body \<noteq> []"
  shows "\<exists>r. choose_order est body = Some r \<and> (case r of
      Inr order \<Rightarrow> order_ok body order \<and> length order = length body \<and> connected body
    | Inl e \<Rightarrow> e = Disconnected_Body \<and> \<not> connected body)"
proof -
  have "\<exists>start. (if is_informed est then first_min (\<lambda>i. estimate_pattern est (body ! i)) [0..<length body] else Some 0) = Some start
      \<and> start < length body"
  proof (cases "is_informed est")
    case True
    obtain x xs where x: "[0..<length body] = x # xs" using assms by (cases "[0..<length body]") auto
    obtain i where i: "first_min (\<lambda>i. estimate_pattern est (body ! i)) [0..<length body] = Some i" by (simp add: x)
    then show ?thesis using True first_min_mem [OF i] by auto
  qed (use assms in simp)
  then obtain start where start: "start < length body" "choose_order est body = Some (extend_order est body [start] [body ! start])"
    unfolding choose_order_def by auto
  have "order_ok body [start]" using start(1) by (simp add: order_ok_def)
  then have e: "case extend_order est body [start] [body ! start] of
      Inr o' \<Rightarrow> order_ok body o' \<and> length o' = length body | Inl e \<Rightarrow> e = Disconnected_Body \<and> \<not> connected body"
    by (rule extend_order_spec) simp
  then show ?thesis unfolding start(2) using order_connects by (auto split: sum.splits)
qed

section \<open>The levels\<close>

lemma fold_add_var: "set (fold add_var vs acc) = set acc \<union> set vs"
  by (induction vs arbitrary: acc) (auto simp: add_var_def)

lemma set_still_needed: "set (still_needed body rest head) = pattern_vars head \<union> (\<Union>i\<in>set rest. pattern_vars (body ! i))"
proof -
  have "set (fold (\<lambda>i. fold add_var (vars_in (body ! i))) rest acc) = set acc \<union> (\<Union>i\<in>set rest. pattern_vars (body ! i))" for acc
    by (induction rest arbitrary: acc) (auto simp: fold_add_var set_vars_in)
  then show ?thesis by (simp add: still_needed_def set_vars_in)
qed

lemma set_live_vars: "set (live_vars l r needed) = (pattern_vars l \<union> pattern_vars r) \<inter> set needed"
proof -
  have *: "set (fold (\<lambda>v live. if v \<in> set needed then add_var v live else live) vs acc) = set acc \<union> (set vs \<inter> set needed)" for vs acc
    by (induction vs arbitrary: acc) (auto simp: add_var_def)
  show ?thesis unfolding live_vars_def * set_append set_vars_in by simp
qed

lemma intermediate_shape_spec:
  "case intermediate_shape l r body rest head of
      Inr h \<Rightarrow> pattern_vars h = (pattern_vars l \<union> pattern_vars r) \<inter> (pattern_vars head \<union> (\<Union>i\<in>set rest. pattern_vars (body ! i)))
    | Inl e \<Rightarrow> \<exists>n>3. e = Too_Many_Live_Vars n"
proof -
  let ?live = "live_vars l r (still_needed body rest head)"
  have "pattern_vars (mk_pattern (shape_slot ?live 0) (shape_slot ?live 1) (shape_slot ?live 2)) = set ?live" if "length ?live \<le> 3"
  proof -
    have "pattern_vars (mk_pattern (shape_slot vs 0) (shape_slot vs 1) (shape_slot vs 2)) = set vs" if "length vs \<le> 3" for vs
    proof -
      consider "vs = []" | x where "vs = [x]" | x y where "vs = [x, y]" | x y z where "vs = [x, y, z]"
        using \<open>length vs \<le> 3\<close> by (cases vs rule: list.exhaust [case_names Nil Cons]; cases "tl vs"; cases "tl (tl vs)"; cases "tl (tl (tl vs))") auto
      then show ?thesis by cases (auto simp: pattern_vars_def slots_def mk_pattern_def shape_slot_def)
    qed
    then show ?thesis using that by blast
  qed
  then show ?thesis by (simp add: intermediate_shape_def Let_def set_live_vars set_still_needed)
qed

text \<open>
  \<open>V\<close> are the variables of the patterns joined so far, \<open>B\<close> their binding; the running row shows
  it on the variables some later pattern or the head needs.
\<close>

definition prefix_shape :: "triple_pattern list \<Rightarrow> triple_pattern \<Rightarrow> triple_pattern \<Rightarrow> nat list \<Rightarrow> var set \<Rightarrow> bool" where
  "prefix_shape body head l rest V \<longleftrightarrow> pattern_vars l \<subseteq> V
     \<and> V \<inter> (pattern_vars head \<union> (\<Union>i\<in>set rest. pattern_vars (body ! i))) \<subseteq> pattern_vars l"

fun linked :: "triple_pattern list \<Rightarrow> var set \<Rightarrow> nat list \<Rightarrow> bool" where
  "linked body V [] \<longleftrightarrow> True"
| "linked body V (i # rest) \<longleftrightarrow> pattern_vars (body ! i) \<inter> V \<noteq> {} \<and> linked body (V \<union> pattern_vars (body ! i)) rest"

text \<open>One level extends the binding of the prefix by one pattern.\<close>

lemma level_joins:
  assumes "prefix_shape body head l (i # rest) V" and "dom B = V" and "match_triple l h = Some (B |` pattern_vars l)"
    and "hj_left r = l" and "hj_right r = body ! i" and "pattern_vars (hj_head r) \<subseteq> pattern_vars l \<union> pattern_vars (body ! i)"
  shows "joins r h u = do { C \<leftarrow> bind_terms (entries (body ! i) u) B; head_value (hj_head r) C }"
proof (cases "match_triple (body ! i) u")
  case None
  then show ?thesis using assms by (simp add: joins_def bind_entries)
next
  case (Some c)
  have dom: "dom c = pattern_vars (body ! i)" using Some by (rule match_triple_dom)
  have l: "pattern_vars l \<subseteq> V" "V \<inter> pattern_vars (body ! i) \<subseteq> pattern_vars l" using assms(1) by (auto simp: prefix_shape_def)
  have agree: "(\<forall>v\<in>pattern_vars l \<inter> pattern_vars (body ! i). (B |` pattern_vars l) v = c v)
      \<longleftrightarrow> (\<forall>v\<in>dom B \<inter> pattern_vars (body ! i). B v = c v)"
    using l unfolding assms(2) by (auto simp: restrict_map_def)
  have "head_value (hj_head r) ((B |` pattern_vars l) ++ c) = head_value (hj_head r) (B ++ c)"
  proof (rule head_value_cong)
    fix v assume "v \<in> pattern_vars (hj_head r)"
    then show "((B |` pattern_vars l) ++ c) v = (B ++ c) v" using assms(6) dom
      by (auto simp: map_add_def restrict_map_def split: option.split)
  qed
  then show ?thesis using Some assms(3-5) agree by (simp add: joins_def bind_entries)
qed

lemma prefix_shape_step:
  assumes "prefix_shape body head l (i # rest) V"
    and "pattern_vars h = (pattern_vars l \<union> pattern_vars (body ! i)) \<inter> (pattern_vars head \<union> (\<Union>i\<in>set rest. pattern_vars (body ! i)))"
  shows "prefix_shape body head h rest (V \<union> pattern_vars (body ! i))"
  using assms unfolding prefix_shape_def by auto

lemma level_rule_ok:
  assumes "prefix_shape body head l (i # rest) V" and "linked body V (i # rest)" and "\<forall>v\<in>V \<union> pattern_vars (body ! i). unat v < max_vars"
    and "pattern_vars h \<subseteq> pattern_vars l \<union> pattern_vars (body ! i)"
  shows "rule_ok \<lparr>hj_id = rid, hj_left = l, hj_right = body ! i, hj_head = h\<rparr>"
  using assms by (auto simp: rule_ok_def prefix_shape_def)

lemma level_new:
  assumes "prefix_shape body head l (i # rest) V" and "linked body V (i # rest)"
    and "pattern_vars h \<subseteq> pattern_vars l \<union> pattern_vars (body ! i)"
  shows "hj_new rid l (body ! i) h = Inr \<lparr>hj_id = rid, hj_left = l, hj_right = body ! i, hj_head = h\<rparr>"
  using assms by (auto simp: hj_new_spec prefix_shape_def)

lemma push_levels_spec:
  assumes "prefix_shape body head l rest V" and "linked body V rest" and "V \<union> (\<Union>i\<in>set rest. pattern_vars (body ! i)) = W" and "rest \<noteq> []"
  shows "case push_levels rid body head l rest plan of
      Inl (Unbound_Head_Var v) \<Rightarrow> v \<in> pattern_vars head \<and> v \<notin> W
    | Inl (Too_Many_Live_Vars n) \<Rightarrow> n > 3
    | Inl e \<Rightarrow> False
    | Inr plan' \<Rightarrow> pattern_vars head \<subseteq> W \<and> (\<exists>rs. np_joins plan' = np_joins plan @ rs \<and> np_state plan' = np_state plan
        \<and> length rs = length rest
        \<and> ((\<forall>v\<in>W. unat v < max_vars) \<longrightarrow> (\<forall>r\<in>set rs. rule_ok r))
        \<and> (\<forall>B h us. dom B = V \<longrightarrow> match_triple l h = Some (B |` pattern_vars l) \<longrightarrow>
             chain rs h us = (if length us = length rest
               then do { C \<leftarrow> bind_terms (concat (map2 entries (map ((!) body) rest) us)) B; head_value head C } else None)))"
  using assms
proof (induction rest arbitrary: l V plan)
  case (Cons i rest)
  let ?R = "body ! i"
  let ?rule = "\<lambda>h. \<lparr>hj_id = rid, hj_left = l, hj_right = ?R, hj_head = h\<rparr>"
  note shape = Cons(2) and linked = Cons(3)
  show ?case
  proof (cases "rest = []")
    case last: True
    have W: "W = V \<union> pattern_vars ?R" using Cons(4) last by simp
    show ?thesis
    proof (cases "pattern_vars head \<subseteq> pattern_vars l \<union> pattern_vars ?R")
      case True
      have push: "push_levels rid body head l (i # rest) plan = Inr (push_join (?rule head) plan)"
        using level_new [OF shape linked True, of rid] last by simp
      have ch: "chain [?rule head] h us = (if length us = length (i # rest)
          then do { C \<leftarrow> bind_terms (concat (map2 entries (map ((!) body) (i # rest)) us)) B; head_value head C } else None)"
        if "dom B = V" "match_triple l h = Some (B |` pattern_vars l)" for B h us
      proof (cases us)
        case (Cons u us')
        have "joins (?rule head) h u = do { C \<leftarrow> bind_terms (entries ?R u) B; head_value head C }"
          using level_joins [OF shape that, of "?rule head" u] True by simp
        then show ?thesis using Cons last by (cases us') simp_all
      qed simp
      have "pattern_vars head \<subseteq> W" using True shape W by (auto simp: prefix_shape_def)
      moreover have "rule_ok (?rule head)" if "\<forall>v\<in>W. unat v < max_vars"
        using level_rule_ok [OF shape linked _ True] that W by simp
      ultimately show ?thesis using ch last unfolding push
        by (simp add: push_join_def)
    next
      case False
      have "hj_new rid l ?R head = Inl e \<Longrightarrow> \<exists>v. e = Unbound_Head_Var v \<and> v \<in> pattern_vars head \<and> v \<notin> pattern_vars l \<union> pattern_vars ?R" for e
        using hj_new_exact [where rid = rid and l = l and r = ?R and head = head] False by (auto split: kernel_error.splits)
      moreover have "\<exists>e. hj_new rid l ?R head = Inl e" using False by (simp add: hj_new_spec)
      ultimately obtain v where v: "hj_new rid l ?R head = Inl (Unbound_Head_Var v)" "v \<in> pattern_vars head" "v \<notin> pattern_vars l \<union> pattern_vars ?R"
        by blast
      then have "v \<notin> W" using shape last W by (auto simp: prefix_shape_def)
      with v last show ?thesis by simp
    qed
  next
    case more: False
    show ?thesis
    proof (cases "intermediate_shape l ?R body rest head")
      case (Inl e)
      then show ?thesis using more intermediate_shape_spec [where l = l and r = ?R and body = body and rest = rest and head = head] by auto
    next
      case (Inr h)
      have vars: "pattern_vars h = (pattern_vars l \<union> pattern_vars ?R) \<inter> (pattern_vars head \<union> (\<Union>i\<in>set rest. pattern_vars (body ! i)))"
        using Inr intermediate_shape_spec [where l = l and r = ?R and body = body and rest = rest and head = head] by simp
      then have sub: "pattern_vars h \<subseteq> pattern_vars l \<union> pattern_vars ?R" by blast
      let ?V = "V \<union> pattern_vars ?R"
      note next_shape = prefix_shape_step [OF shape vars]
      have W: "?V \<union> (\<Union>i\<in>set rest. pattern_vars (body ! i)) = W" using Cons(4) by auto
      have push: "push_levels rid body head l (i # rest) plan = push_levels rid body head h rest (push_join (?rule h) plan)"
        using level_new [OF shape linked sub, of rid] more Inr by simp
      note IH = Cons(1) [OF next_shape _ W more, of "push_join (?rule h) plan"]
      have step: "chain (?rule h # rs) g us = (if length us = length (i # rest)
          then do { C \<leftarrow> bind_terms (concat (map2 entries (map ((!) body) (i # rest)) us)) B; head_value head C } else None)"
        if B: "dom B = V" "match_triple l g = Some (B |` pattern_vars l)"
          and rs: "\<forall>B h' us. dom B = ?V \<longrightarrow> match_triple h h' = Some (B |` pattern_vars h) \<longrightarrow>
            chain rs h' us = (if length us = length rest
              then do { C \<leftarrow> bind_terms (concat (map2 entries (map ((!) body) rest) us)) B; head_value head C } else None)" for B g us rs
      proof (cases us)
        case (Cons u us')
        have j: "joins (?rule h) g u = do { C \<leftarrow> bind_terms (entries ?R u) B; head_value h C }"
          using level_joins [OF shape B, of "?rule h" u] sub by simp
        show ?thesis
        proof (cases "bind_terms (entries ?R u) B")
          case None
          then show ?thesis using Cons j by (simp add: bind_terms_append)
        next
          case (Some C)
          have C: "dom C = ?V" using Some B(1) by (simp add: bind_terms_iff vars_entries)
          then have "pattern_vars h \<subseteq> dom C" using sub shape by (auto simp: prefix_shape_def)
          then obtain n where n: "head_value h C = Some n" using head_value_returns by blast
          from rs C match_written [OF n] have "chain rs n us' = (if length us' = length rest
              then do { C \<leftarrow> bind_terms (concat (map2 entries (map ((!) body) rest) us')) C; head_value head C } else None)" by blast
          then show ?thesis using Cons j Some n by (simp add: bind_terms_append)
        qed
      qed simp
      have ok: "rule_ok (?rule h)" if "\<forall>v\<in>W. unat v < max_vars"
        by (rule level_rule_ok [OF shape linked _ sub]) (use that W in auto)
      show ?thesis
      proof (cases "push_levels rid body head h rest (push_join (?rule h) plan)")
        case (Inl e)
        with IH linked show ?thesis unfolding push by simp
      next
        case (Inr plan')
        with IH linked obtain rs where rs: "pattern_vars head \<subseteq> W" "np_joins plan' = np_joins (push_join (?rule h) plan) @ rs"
            "np_state plan' = np_state (push_join (?rule h) plan)" "length rs = length rest"
            "(\<forall>v\<in>W. unat v < max_vars) \<longrightarrow> (\<forall>r\<in>set rs. rule_ok r)"
          and ch: "\<forall>B h' us. dom B = ?V \<longrightarrow> match_triple h h' = Some (B |` pattern_vars h) \<longrightarrow>
            chain rs h' us = (if length us = length rest
              then do { C \<leftarrow> bind_terms (concat (map2 entries (map ((!) body) rest) us)) B; head_value head C } else None)"
          by auto
        have "\<forall>B h' us. dom B = V \<longrightarrow> match_triple l h' = Some (B |` pattern_vars l) \<longrightarrow>
            chain (?rule h # rs) h' us = (if length us = length (i # rest)
              then do { C \<leftarrow> bind_terms (concat (map2 entries (map ((!) body) (i # rest)) us)) B; head_value head C } else None)"
          using step ch by blast
        then show ?thesis unfolding push Inr sum.case using rs ok
          by (intro conjI exI [of _ "?rule h # rs"]) (simp_all add: push_join_def)
      qed
    qed
  qed
qed simp

lemma push_levels_unmatched:
  assumes "push_levels rid body head l rest plan = Inr plan'" and "rest \<noteq> []" and "match_triple l h = None"
    and "np_joins plan' = np_joins plan @ rs"
  shows "chain rs h us = None"
proof -
  obtain i rest' where rest: "rest = i # rest'" using assms(2) by (cases rest) auto
  obtain h' r where "push_levels rid body head h' rest' (push_join r plan) = Inr plan'" "hj_new rid l (body ! i) h' = Inr r"
    using assms(1) unfolding rest by (auto split: sum.splits if_splits)
  then have r: "push_levels rid body head (hj_head r) rest' (push_join r plan) = Inr plan'" "hj_left r = l"
    by (auto simp: hj_new_spec split: if_splits)
  have "\<exists>qs. np_joins q = np_joins p @ qs" if "push_levels rid body head k is p = Inr q" for k "is" p q
    using that
  proof (induction "is" arbitrary: k p)
    case (Cons i "is")
    then obtain r k' where "push_levels rid body head k' is (push_join r p) = Inr q" by (auto split: sum.splits)
    from Cons(1) [OF this] show ?case by (auto simp: push_join_def)
  qed simp
  from this [OF r(1)] obtain qs where "np_joins plan' = np_joins plan @ r # qs" by (auto simp: push_join_def)
  with assms(4) have "rs = r # qs" by simp
  then show ?thesis using assms(3) r(2) by (cases us) (simp_all add: joins_def)
qed

lemma order_linked:
  assumes "order_ok body order" and "0 < k" and "k \<le> length order"
  shows "linked body (\<Union>j<k. pattern_vars (body ! (order ! j))) (drop k order)"
  using assms(2,3)
proof (induction "length order - k" arbitrary: k)
  case (Suc n)
  then have k: "k < length order" by simp
  have "linked body (\<Union>j<Suc k. pattern_vars (body ! (order ! j))) (drop (Suc k) order)"
    using Suc k by (intro Suc(1)) simp_all
  moreover obtain j where "j < k" "pattern_vars (body ! (order ! k)) \<inter> pattern_vars (body ! (order ! j)) \<noteq> {}"
    using assms(1) Suc(3) k unfolding order_ok_def by blast
  ultimately show ?case unfolding Cons_nth_drop_Suc [OF k, symmetric] by (auto simp: lessThan_Suc Un_commute)
qed simp

text \<open>Enumerating a body in another order permutes its matches.\<close>

lemma match_permuted:
  assumes "set order = {..<length body}" and "length ts = length body"
  shows "bind_terms (concat (map2 entries (map ((!) body) order) (map ((!) ts) order))) Map.empty = match_body body ts"
proof -
  have "set (map2 entries (map ((!) body) order) (map ((!) ts) order)) = (\<lambda>i. entries (body ! i) (ts ! i)) ` set order"
    by (simp add: zip_map_map zip_same_conv_map image_image del: map_map)
  also have "\<dots> = set (map2 entries body ts)"
    unfolding assms(1) using assms(2) by (force simp: set_zip image_iff)
  finally show ?thesis unfolding match_body_def by (intro bind_terms_cong) simp
qed

lemma card_permuted:
  assumes "distinct order" and "set order = {..<length body}"
  shows "card {us. length us = length order \<and> set us \<subseteq> S
      \<and> (\<exists>b. bind_terms (concat (map2 entries (map ((!) body) order) us)) Map.empty = Some b \<and> head_value head b = Some t)}
    = card (body_derivations body head S t)" (is "card ?U = card ?D")
proof -
  have len: "length order = length body" using assms distinct_card [of order] by simp
  let ?f = "\<lambda>ts. map ((!) ts) order"
  have set: "set (?f ts) = set ts" if "length ts = length body" for ts :: "triple_id list"
    using assms(2) that nth_image [of "length ts" ts] by (simp add: atLeast0LessThan)
  have inj: "inj_on ?f ?D"
  proof (rule inj_onI)
    fix xs ys assume d: "xs \<in> ?D" "ys \<in> ?D" "?f xs = ?f ys"
    then have "xs ! i = ys ! i" if "i < length body" for i using that assms(2) by auto
    with d show "xs = ys" by (intro nth_equalityI) (simp_all add: body_derivations_def)
  qed
  have "?f ` ?D = ?U"
  proof
    show "?f ` ?D \<subseteq> ?U" using match_permuted [OF assms(2)] set by (auto simp: body_derivations_def)
    show "?U \<subseteq> ?f ` ?D"
    proof
      fix us assume us: "us \<in> ?U"
      have bij: "bij_betw ((!) order) {..<length body} {..<length body}"
        using bij_betw_nth [OF assms(1), of "{..<length body}"] assms(2) len by simp
      let ?g = "inv_into {..<length body} ((!) order)"
      let ?ts = "map (\<lambda>i. us ! ?g i) [0..<length body]"
      have undo: "?ts ! (order ! k) = us ! k" if "k < length body" for k
      proof -
        have "order ! k < length body" using that bij_betwE [OF bij] by blast
        then have "?ts ! (order ! k) = us ! ?g (order ! k)" by simp
        also have "?g (order ! k) = k" using that by (intro bij_betw_inv_into_left [OF bij]) simp
        finally show ?thesis .
      qed
      have f: "?f ?ts = us"
      proof (rule nth_equalityI)
        show "length (?f ?ts) = length us" using us by simp
        fix k assume "k < length (?f ?ts)"
        then have k: "k < length order" "k < length body" using len by simp_all
        show "?f ?ts ! k = us ! k" unfolding nth_map [OF k(1)] by (rule undo [OF k(2)])
      qed
      have n: "length ?ts = length body" by simp
      have "?ts \<in> ?D" using us match_permuted [OF assms(2) n] set [OF n] n unfolding body_derivations_def mem_Collect_eq f by metis
      then show "us \<in> ?f ` ?D" using f by (metis (no_types, lifting) imageI)
    qed
  qed
  then show ?thesis using card_image [OF inj] by simp
qed

lemma derives_chain: "rs \<noteq> [] \<Longrightarrow> derives rs us = (case us of [] \<Rightarrow> None | u # us' \<Rightarrow> chain rs u us')"
  by (cases "(rs, us)" rule: derives.cases) simp_all

lemma from_body_spec:
  "case from_body est rid body head of
     None \<Rightarrow> False
   | Some (Inl (Body_Too_Short n)) \<Rightarrow> n = length body \<and> n < 2
   | Some (Inl Disconnected_Body) \<Rightarrow> 2 \<le> length body \<and> \<not> connected body
   | Some (Inl (Unbound_Head_Var v)) \<Rightarrow> 2 \<le> length body \<and> connected body \<and> v \<in> pattern_vars head \<and> v \<notin> body_vars body
   | Some (Inl (Too_Many_Live_Vars n)) \<Rightarrow> 2 \<le> length body \<and> connected body \<and> 3 < n
   | Some (Inl No_Shared_Var) \<Rightarrow> False
   | Some (Inr plan) \<Rightarrow> 2 \<le> length body \<and> connected body \<and> pattern_vars head \<subseteq> body_vars body \<and> np_state plan = None
       \<and> length (np_joins plan) = length body - 1 \<and> ((\<forall>v\<in>body_vars body. unat v < max_vars) \<longrightarrow> plan_ok plan)
       \<and> distinct (np_leaf_order plan) \<and> set (np_leaf_order plan) = {..<length body}
       \<and> (\<forall>us. derives (np_joins plan) us = (if length us = length body
            then do { C \<leftarrow> bind_terms (concat (map2 entries (map ((!) body) (np_leaf_order plan)) us)) Map.empty; head_value head C } else None))"
proof (cases "length body < 2")
  case True
  then show ?thesis by (simp add: from_body_def)
next
  case len: False
  then have ne: "body \<noteq> []" by auto
  from choose_order_spec [OF ne, of est] obtain r where r: "choose_order est body = Some r" "case r of
      Inr order \<Rightarrow> order_ok body order \<and> length order = length body \<and> connected body
    | Inl e \<Rightarrow> e = Disconnected_Body \<and> \<not> connected body" by blast
  show ?thesis
  proof (cases r)
    case (Inl e)
    then show ?thesis using len r by (simp add: from_body_def)
  next
    case (Inr order)
    have ok: "order_ok body order" "length order = length body" and con: "connected body" using r(2) Inr by simp_all
    have distinct: "distinct order" and set: "set order = {..<length body}"
      using ok distinct_card [of order] card_subset_eq [of "{..<length body}" "set order"] by (simp_all add: order_ok_def)
    obtain i rest where order: "order = i # rest" and rest: "rest \<noteq> []"
      using ok(2) len by (cases order; cases "tl order") auto
    let ?l = "body ! i"
    have shape: "prefix_shape body head ?l rest (pattern_vars ?l)" by (simp add: prefix_shape_def)
    have linked: "linked body (pattern_vars ?l) rest"
      using order_linked [OF ok(1), of 1] ok(2) len by (simp add: order lessThan_Suc)
    have W: "pattern_vars ?l \<union> (\<Union>i\<in>set rest. pattern_vars (body ! i)) = body_vars body"
    proof -
      have "set body = (!) body ` set order" unfolding set using nth_image [of "length body" body] by (simp add: atLeast0LessThan)
      then show ?thesis by (simp add: body_vars_def order)
    qed
    note levels = push_levels_spec [OF shape linked W rest, where rid = rid and plan = np_new]
    have fb: "from_body est rid body head = Some (case push_levels rid body head ?l rest np_new of
        Inl e \<Rightarrow> Inl e | Inr plan \<Rightarrow> Inr (plan\<lparr>np_leaf_order := order\<rparr>))"
      using len r(1) Inr by (simp add: from_body_def order split: sum.split)
    show ?thesis
    proof (cases "push_levels rid body head ?l rest np_new")
      case (Inl e)
      then show ?thesis using levels len con unfolding fb by (cases e) simp_all
    next
      case (Inr plan)
      from levels obtain rs where head: "pattern_vars head \<subseteq> body_vars body"
        and rs: "np_joins plan = np_joins np_new @ rs" "np_state plan = np_state np_new" "length rs = length rest"
          "(\<forall>v\<in>body_vars body. unat v < max_vars) \<longrightarrow> (\<forall>r\<in>set rs. rule_ok r)"
        and ch: "\<forall>B h us. dom B = pattern_vars ?l \<longrightarrow> match_triple ?l h = Some (B |` pattern_vars ?l) \<longrightarrow>
             chain rs h us = (if length us = length rest
               then do { C \<leftarrow> bind_terms (concat (map2 entries (map ((!) body) rest) us)) B; head_value head C } else None)"
        unfolding Inr by auto
      have joins: "np_joins plan = rs" "rs \<noteq> []" using rs(1,3) rest by (auto simp: np_new_def)
      have "derives rs us = (if length us = length body
            then do { C \<leftarrow> bind_terms (concat (map2 entries (map ((!) body) order) us)) Map.empty; head_value head C } else None)" for us
      proof (cases us)
        case Nil
        then show ?thesis using ne joins(2) by (simp add: derives_chain)
      next
        case (Cons u us')
        have d: "derives rs us = chain rs u us'" using Cons joins(2) by (simp add: derives_chain)
        have n: "length us = length body \<longleftrightarrow> length us' = length rest" using Cons ok(2) order by auto
        show ?thesis
        proof (cases "match_triple ?l u")
          case None
          then have "chain rs u us' = None" using push_levels_unmatched [OF Inr rest None rs(1)] by simp
          with d None Cons show ?thesis by (simp add: order match_triple_entries bind_terms_append)
        next
          case (Some B)
          have B: "dom B = pattern_vars ?l" using Some by (rule match_triple_dom)
          then have "B |` pattern_vars ?l = B" unfolding restrict_map_def fun_eq_iff by (metis domIff)
          then have "match_triple ?l u = Some (B |` pattern_vars ?l)" using Some by simp
          note ch [rule_format, OF B this, of us']
          with d n Some Cons show ?thesis by (simp add: order match_triple_entries bind_terms_append)
        qed
      qed
      then show ?thesis using len con head rs joins ok(2) distinct set unfolding fb Inr
        by (auto simp: plan_ok_def np_new_def order)
    qed
  qed
qed

section \<open>Properties\<close>


definition triangle_body :: "triple_pattern list" where
  "triangle_body = [mk_pattern (Var 0) (Bound 10) (Var 1), mk_pattern (Var 1) (Bound 10) (Var 2), mk_pattern (Var 2) (Bound 10) (Var 0)]"

definition costed :: estimates where
  "costed = \<lparr>is_informed = True, estimate_pattern = (\<lambda>pat. if pat_s pat = Var 1 then 1 else 5), estimate_bgp = (\<lambda>pats. of_nat (length pats))\<rparr>"



end
