(* ===== verification/Circuit_Run.thy ===== *)
theory Circuit_Run imports Circuit_Recompute Plan_Choice begin

text \<open>
  Runs of the circuit: what every tick establishes, the states a client can reach, and concrete runs,
  among them one where a retracted row survives although nothing asserted supports it.
\<close>

section \<open>Reachable circuits\<close>

text \<open>A circuit nothing has been submitted to yet may still get plans.\<close>

definition unused :: "circuit \<Rightarrow> bool" where
  "unused c \<longleftrightarrow> asserted_base c = zs_new \<and> derived_base c = zs_new \<and> dl_records (input_log c) = [] \<and> pending_derived c = zs_new
     \<and> rule_attr c = [] \<and> closure_support c = [] \<and> rule_weights c = [] \<and> extent c = pe_new"

inductive reachable :: "u64 iter_order \<Rightarrow> circuit \<Rightarrow> bool" for h where
  new: "reachable h circuit_new"
| new_fallback: "reachable h new_with_recompute_fallback"
| rule_plan: "reachable h c \<Longrightarrow> unused c \<Longrightarrow> \<forall>r\<in>set rs. rule_ok r \<Longrightarrow> reachable h (add_plan (fold push_join rs np_new) rid c)"
| body_plan: "reachable h c \<Longrightarrow> unused c \<Longrightarrow> from_body est rid body head = Some (Inr plan) \<Longrightarrow> \<forall>v\<in>body_vars body. unat v < max_vars
    \<Longrightarrow> reachable h (add_plan plan rid c)"
| closure_plan: "reachable h c \<Longrightarrow> unused c \<Longrightarrow> p \<notin> set (closure_predicates c) \<Longrightarrow> reachable h (add_closure_plan (cr_new p) c)"
| assertion: "reachable h c \<Longrightarrow> assert_triple t c = Some c' \<Longrightarrow> reachable h c'"
| retraction: "reachable h c \<Longrightarrow> retract_triple t c = Some c' \<Longrightarrow> reachable h c'"
| ticked: "reachable h c \<Longrightarrow> no_owned_retraction c \<or> recompute_fallback c \<and> retracting c \<Longrightarrow> tick h c = Some (rep, c') \<Longrightarrow> reachable h c'"

lemma derivations_empty: "derivations rs {} t = {}"
proof -
  have "derives rs [] \<noteq> Some t" by (cases rs) auto
  then show ?thesis by (auto simp: derivations_def)
qed

lemma rule_weight_empty: "rule_weight js {} t r = 0"
proof -
  have "rule_weight js {} t r = (\<Sum>(rs, rid)\<leftarrow>js. 0)"
    unfolding rule_weight_def by (rule arg_cong [where f = sum_list], rule map_cong) (auto simp: derivations_empty)
  then show ?thesis by (simp add: case_prod_beta')
qed

lemma unused_tick_ok:
  assumes "unused c" and "plans_ok (plans c) pe_new"
    and "distinct (closure_predicates c)" and "\<forall>r\<in>set (closure_plans c). cr_ok r \<and> cr_base r = {}"
  shows "tick_ok c"
proof -
  have rows: "asserted_rows c = {}" "closure_rows c = {}" "rule_rows c = {}"
    using assms(1) by (simp_all add: unused_def asserted_rows_def closure_rows_set rule_rows_def)
  then have all: "all_rows c = {}" "base_rows c = {}" by (simp_all add: all_rows_def base_rows_def)
  have "base_ok c" using assms(1) rows by (simp add: base_ok_def unused_def zs_new_def)
  moreover have "attr_ok c" using assms(1) by (simp add: attr_ok_def unused_def)
  moreover have "exact c {}" using assms(1) by (simp add: exact_def weights_ok_def wmap_def unused_def rule_weight_empty)
  moreover have "extent_of (extent c) {}" using assms(1) by (simp add: extent_of_def unused_def)
  moreover have "{} = saturation (rules c) {}" by (rule saturation_eqI) (simp_all add: consequences_empty)
  moreover have "closures_ok c {}"
    using assms(3,4) rows by (simp add: closures_ok_def cl_ok_def edges_at_def)
  ultimately show ?thesis using assms(1,2) by (simp add: tick_ok_def settled_def all rows unused_def)
qed

lemma push_joins [simp]:
  "np_joins (fold push_join rs plan) = np_joins plan @ rs" "np_state (fold push_join rs plan) = np_state plan"
  by (induction rs arbitrary: plan) (simp_all add: push_join_def)

lemma tick_ok_log:
  assumes "tick_ok c"
  shows "tick_ok (c\<lparr>input_log := l\<rparr>)" (is "tick_ok ?c")
proof -
  have rows: "asserted_rows ?c = asserted_rows c" "rule_rows ?c = rule_rows c" "closure_rows ?c = closure_rows c"
    by (simp_all add: asserted_rows_def rule_rows_def closure_rows_def)
  then have all: "all_rows ?c = all_rows c" "base_rows ?c = base_rows c" by (simp_all add: all_rows_def base_rows_def)
  have w: "wmap ?c = wmap c" "weights_ok ?c = weights_ok c" by (simp_all add: wmap_def weights_ok_def fun_eq_iff)
  have b: "base_ok ?c = base_ok c" by (simp add: base_ok_def closure_rows_def rule_rows_def)
  have a: "attr_ok ?c = attr_ok c" "exact ?c S = exact c S" for S unfolding attr_ok_def exact_def w by simp_all
  have cl: "closures_ok ?c A = closures_ok c A" for A by (simp add: closures_ok_def cl_ok_def rows(3))
  have p: "plans ?c = plans c" "extent ?c = extent c" by simp_all
  show ?thesis using assms unfolding tick_ok_def settled_def all rows(1) p a cl b .
qed

text \<open>
  The invariant of a run. Before the first submission it also says that the operators are pristine,
  which is what lets a plan be added.
\<close>

definition run_ok :: "circuit \<Rightarrow> bool" where
  "run_ok c \<longleftrightarrow> tick_ok c
     \<and> (unused c \<longrightarrow> plans_ok (plans c) pe_new \<and> (\<forall>r\<in>set (closure_plans c). cr_base r = {}))"

lemma run_ok_closures: "run_ok c \<Longrightarrow> distinct (closure_predicates c) \<and> (\<forall>r\<in>set (closure_plans c). cr_ok r)"
  by (auto simp: run_ok_def tick_ok_def closures_ok_def cl_ok_def)

lemma run_ok_log: "run_ok c \<Longrightarrow> dl_records l \<noteq> [] \<Longrightarrow> run_ok (c\<lparr>input_log := l\<rparr>)"
  by (simp add: run_ok_def tick_ok_log unused_def)

lemma dl_append_records: "dl_append t m k l = Some l' \<Longrightarrow> dl_records l' \<noteq> []"
  by (auto simp: dl_append_def dl_push_def split: bind_splits)

lemma settled_extent: "tick_ok c \<Longrightarrow> extent c = pe_new \<Longrightarrow> plans_ok (plans c) pe_new"
  by (simp add: tick_ok_def settled_def)

lemma unused_empty: "unused c \<Longrightarrow> asserted_rows c = {}"
  by (simp add: unused_def asserted_rows_def)

lemma run_ok_new: "run_ok (with_fallback b)"
proof -
  have u: "unused (with_fallback b)" "plans_ok (plans (with_fallback b)) pe_new" "closure_plans (with_fallback b) = []"
    by (simp_all add: unused_def with_fallback_def dl_new_def plans_ok_def)
  then have "tick_ok (with_fallback b)" by (intro unused_tick_ok) simp_all
  with u show ?thesis by (simp add: run_ok_def)
qed

lemma add_plan_run_ok:
  assumes "run_ok c" and "unused c" and "plan_ok plan" and "np_state plan = None"
  shows "run_ok (add_plan plan rid c)"
proof -
  let ?c = "add_plan plan rid c"
  have "state_ok plan pe_new" using assms(4) by (simp add: state_ok_def)
  then have p: "plans_ok (plans ?c) pe_new" using assms(1-3) by (auto simp: plans_ok_def run_ok_def add_plan_def)
  have u: "unused ?c" "closure_plans ?c = closure_plans c"
    using assms(2) by (simp_all add: unused_def add_plan_def)
  have b: "\<forall>r\<in>set (closure_plans c). cr_base r = {}" using assms(1,2) by (simp add: run_ok_def)
  have "tick_ok ?c" using run_ok_closures [OF assms(1)] b by (intro unused_tick_ok u p) (simp_all add: u(2))
  with p u b assms(1) show ?thesis by (simp add: run_ok_def)
qed

lemma reachable_run_ok: "reachable h c \<Longrightarrow> run_ok c"
proof (induction rule: reachable.induct)
  case new
  then show ?case using run_ok_new by (simp add: circuit_new_def)
next
  case new_fallback
  then show ?case using run_ok_new by (simp add: new_with_recompute_fallback_def)
next
  case (rule_plan c rs rid)
  then show ?case by (intro add_plan_run_ok) (simp_all add: plan_ok_def np_new_def)
next
  case (body_plan c est rid body head plan)
  then show ?case using from_body_spec [where est = est and rid = rid and body = body and head = head]
    by (intro add_plan_run_ok) simp_all
next
  case (closure_plan c p)
  let ?c = "add_closure_plan (cr_new p) c"
  have u: "unused ?c" "plans ?c = plans c"
    using closure_plan(2) by (simp_all add: unused_def add_closure_plan_def)
  have ps: "plans_ok (plans c) pe_new" "\<forall>r\<in>set (closure_plans c). cr_base r = {}"
    using closure_plan(2,4) by (simp_all add: run_ok_def)
  have d: "distinct (closure_predicates ?c)" "\<forall>r\<in>set (closure_plans ?c). cr_ok r \<and> cr_base r = {}"
    using run_ok_closures [OF closure_plan(4)] closure_plan(3) ps(2) by (auto simp: add_closure_plan_def cr_new_def)
      (simp_all add: cr_new_def [symmetric])
  have "tick_ok ?c" by (rule unused_tick_ok [OF u(1) _ d]) (simp add: u(2) ps(1))
  with u ps(1) d(2) closure_plan(4) show ?case by (simp add: run_ok_def)
next
  case (assertion c t c')
  then obtain l where "dl_append t 1 Asserted (input_log c) = Some l" "c' = c\<lparr>input_log := l\<rparr>"
    by (auto simp: assert_triple_def split: bind_splits)
  then show ?case using run_ok_log assertion(3) dl_append_records by blast
next
  case (retraction c t c')
  then obtain l where "dl_append t (- 1) Asserted (input_log c) = Some l" "c' = c\<lparr>input_log := l\<rparr>"
    by (auto simp: retract_triple_def split: bind_splits)
  then show ?case using run_ok_log retraction(3) dl_append_records by blast
next
  case (ticked c rep c')
  have "tick_ok c" using ticked(4) by (simp add: run_ok_def)
  from tick_spec(2) [OF this ticked(2,3)] have t: "tick_ok c'" by blast
  have "\<forall>r\<in>set (closure_plans c'). cr_base r = {}" if "unused c'"
    using t(1) unused_empty [OF that] by (simp add: tick_ok_def closures_ok_def edges_at_def)
  moreover have "plans_ok (plans c') pe_new" if "unused c'"
    using settled_extent [OF t(1)] that by (simp add: unused_def)
  ultimately show ?case using t by (simp add: run_ok_def)
qed

section \<open>Concrete runs\<close>

definition batch :: "u64 iter_order \<Rightarrow> (circuit \<Rightarrow> circuit option) list \<Rightarrow> circuit \<Rightarrow> circuit option" where
  "batch h ops c = do { c \<leftarrow> fold (\<lambda>f c. Option.bind c f) ops (Some c); map_option snd (tick h c) }"

definition batches :: "u64 iter_order \<Rightarrow> (circuit \<Rightarrow> circuit option) list list \<Rightarrow> circuit \<Rightarrow> circuit option" where
  "batches h opss c = fold (\<lambda>ops c. Option.bind c (batch h ops)) opss (Some c)"

text \<open>\<open>(?x 10 ?y), (?y 30 ?y) \<rightarrow> (?y 10 ?x)\<close> and \<open>(?x 20 ?y), (?y 30 ?y) \<rightarrow> (?x 10 ?y)\<close>.\<close>

definition sym_rule :: hash_join_rule where
  "sym_rule = \<lparr>hj_id = 1, hj_left = mk_pattern (Var 0) (Bound 10) (Var 1), hj_right = mk_pattern (Var 1) (Bound 30) (Var 1),
     hj_head = mk_pattern (Var 1) (Bound 10) (Var 0)\<rparr>"

definition src_rule :: hash_join_rule where
  "src_rule = \<lparr>hj_id = 2, hj_left = mk_pattern (Var 0) (Bound 20) (Var 1), hj_right = mk_pattern (Var 1) (Bound 30) (Var 1),
     hj_head = mk_pattern (Var 0) (Bound 10) (Var 1)\<rparr>"

definition two_rules :: circuit where
  "two_rules = add_plan (push_join src_rule np_new) 2 (add_plan (push_join sym_rule np_new) 1 circuit_new)"

definition seeds :: "(circuit \<Rightarrow> circuit option) list" where
  "seeds = [assert_triple (1, 20, 2), assert_triple (1, 30, 1), assert_triple (2, 30, 2)]"

lemma two_rules_reachable: "reachable h two_rules"
proof -
  have r: "rule_ok sym_rule" "rule_ok src_rule"
    by (auto simp: rule_ok_def sym_rule_def src_rule_def pattern_vars_def slots_def mk_pattern_def max_vars_def)
  have "reachable h (add_plan (fold push_join [sym_rule] np_new) 1 circuit_new)"
    by (intro reachable.rule_plan reachable.new) (simp_all add: r unused_def circuit_new_def with_fallback_def dl_new_def)
  then have "reachable h (add_plan (fold push_join [src_rule] np_new) 2 (add_plan (fold push_join [sym_rule] np_new) 1 circuit_new))"
    by (rule reachable.rule_plan) (simp_all add: r unused_def add_plan_def circuit_new_def with_fallback_def dl_new_def)
  then show ?thesis by (simp add: two_rules_def)
qed

lemma reachable_submit:
  assumes "fold (\<lambda>f c. Option.bind c f) ops (Some c) = Some c'" and "reachable h c"
    and "\<forall>f\<in>set ops. \<exists>t. f = assert_triple t \<or> f = retract_triple t"
  shows "reachable h c'"
  using assms
proof (induction ops arbitrary: c)
  case (Cons f ops)
  have "fold (\<lambda>f c. Option.bind c f) fs None = None" for fs :: "(circuit \<Rightarrow> circuit option) list" by (induction fs) simp_all
  with Cons(2) obtain c1 where c1: "f c = Some c1" "fold (\<lambda>f c. Option.bind c f) ops (Some c1) = Some c'"
    by (cases "f c") auto
  have "reachable h c1" using Cons(3,4) c1(1) by (auto intro: reachable.assertion reachable.retraction)
  with Cons(1) [OF c1(2)] Cons(4) show ?case by simp
qed simp

lemma card_presence: "card {t. base_presence c t} \<le> length (asserted_base c) + length (derived_base c)"
proof -
  have mem: "zs_get z t > 0 \<Longrightarrow> t \<in> set (map fst z)" for z :: "triple_id zset" and t
    by (rule ccontr) (simp add: zs_get_def bt_get_eq_None_iff [symmetric])
  have "{t. base_presence c t} \<subseteq> set (map fst (asserted_base c) @ map fst (derived_base c))"
    using mem by (auto simp: base_presence_def simp del: set_map)
  then have "card {t. base_presence c t} \<le> card (set (map fst (asserted_base c) @ map fst (derived_base c)))"
    by (rule card_mono [rotated]) simp
  also have "\<dots> \<le> length (map fst (asserted_base c) @ map fst (derived_base c))" by (rule card_length)
  finally show ?thesis by simp
qed

text \<open>The source of the two derived rows is retracted.\<close>

definition withdrawal :: "circuit option" where
  "withdrawal = do { c \<leftarrow> batch ascending seeds two_rules; retract_triple (1, 20, 2) c }"

lemma withdrawal_run:
  "case fold (\<lambda>f c. Option.bind c f) seeds (Some two_rules) of None \<Rightarrow> False | Some c0 \<Rightarrow>
     map fst (rule_attr c0) = [] \<and> \<not> recompute_fallback c0 \<and> (case tick ascending c0 of None \<Rightarrow> False | Some (rep1, c1) \<Rightarrow>
     case retract_triple (1, 20, 2) c1 of None \<Rightarrow> False | Some c \<Rightarrow>
       map fst (asserted_base c) = [(1, 20, 2), (1, 30, 1), (2, 30, 2)] \<and> map fst (rule_attr c) = [(1, 10, 2), (2, 10, 1)]
       \<and> length (derived_base c) = 2 \<and> retracting c \<and> \<not> recompute_fallback c
       \<and> (case tick ascending c of None \<Rightarrow> False | Some (rep, c') \<Rightarrow> length (asserted_base c') + length (derived_base c') = 2))"
  by code_simp

lemma withdrawal_state:
  obtains c rep c' where "withdrawal = Some c" "tick_ok c" "no_owned_retraction c \<or> recompute_fallback c \<and> retracting c"
    "retracting c" "tick ascending c = Some (rep, c')" "reachable ascending c'" "(2, 10, 1) \<in> rule_rows c"
    "card (all_rows c) \<le> max_fixpoint_rounds" "card (entailed c (next_asserted c)) \<le> max_fixpoint_rounds"
proof -
  note run = withdrawal_run
  obtain c0 where c0: "fold (\<lambda>f c. Option.bind c f) seeds (Some two_rules) = Some c0" "map fst (rule_attr c0) = []"
    using run by (cases "fold (\<lambda>f c. Option.bind c f) seeds (Some two_rules)") auto
  obtain rep1 c1 where c1: "tick ascending c0 = Some (rep1, c1)" using run c0(1) by (cases "tick ascending c0") auto
  obtain c where c: "retract_triple (1, 20, 2) c1 = Some c" using run c0(1) c1 by (cases "retract_triple (1, 20, 2) c1") auto
  obtain rep c' where c': "tick ascending c = Some (rep, c')" using run c0(1) c1 c by (cases "tick ascending c") auto
  have f: "map fst (asserted_base c) = [(1, 20, 2), (1, 30, 1), (2, 30, 2)]" "map fst (rule_attr c) = [(1, 10, 2), (2, 10, 1)]"
    "length (derived_base c) = 2" "retracting c" "\<not> recompute_fallback c" "length (asserted_base c') + length (derived_base c') = 2"
    using run c0(1) c1 c c' by simp_all
  have r0: "reachable ascending c0" by (rule reachable_submit [OF c0(1) two_rules_reachable]) (auto simp: seeds_def)
  have "no_owned_retraction c0" using c0(2) by (simp add: no_owned_retraction_def rule_rows_def)
  then have r: "reachable ascending c" using r0 c1 c reachable.ticked reachable.retraction by blast
  have mem: "zs_get z t > 0 \<Longrightarrow> t \<in> set (map fst z)" for z :: "triple_id zset" and t
    by (rule ccontr) (simp add: zs_get_def bt_get_eq_None_iff [symmetric])
  have rr: "rule_rows c = {(1, 10, 2), (2, 10, 1)}"
    using f(2) bt_get_eq_None_iff [of "rule_attr c"] by (auto simp: rule_rows_def set_map [symmetric] simp del: set_map not_None_eq)
  have "asserted_rows c \<subseteq> {(1, 20, 2), (1, 30, 1), (2, 30, 2)}" using mem [of "asserted_base c"] by (auto simp: asserted_rows_def f(1) simp del: set_map)
  then have own: "no_owned_retraction c" using rr by (auto simp: no_owned_retraction_def)
  have ok: "tick_ok c" using reachable_run_ok [OF r] by (simp add: run_ok_def)
  have no: "no_owned_retraction c \<or> recompute_fallback c \<and> retracting c" using own by blast
  note sp = tick_spec(2) [OF ok no c']
  have "entailed c (next_asserted c) = entailed c' (asserted_rows c')" using sp by (simp add: entailed_def)
  also have "\<dots> = {t. base_presence c' t}" using tick_ok_entailed(1) [of c'] sp by blast
  finally have "card (entailed c (next_asserted c)) \<le> 2" using card_presence [of c'] f(6) by simp
  moreover have "all_rows c = {t. base_presence c t}" using tick_ok_entailed [OF ok] by blast
  then have "card (all_rows c) \<le> 5" using card_presence [of c] f(1,3) by (simp add: arg_cong [OF f(1), of length, simplified])
  moreover have "withdrawal = Some c" by (simp add: withdrawal_def batch_def c0(1) c1 c)
  moreover have "reachable ascending c'" by (rule reachable.ticked [OF r no c'])
  ultimately show ?thesis using that ok no f(4) c' rr by (simp add: max_fixpoint_rounds_def)
qed

section \<open>What a tick establishes\<close>









section \<open>Rows that outlive their support\<close>

definition ghost_script :: "(circuit \<Rightarrow> circuit option) list list" where
  "ghost_script = [seeds, [assert_triple (1, 10, 2)], [retract_triple (1, 20, 2)], [retract_triple (1, 10, 2)]]"

lemma ghost_run:
  "case batches h ghost_script two_rules of None \<Rightarrow> False | Some c \<Rightarrow>
     asserted_base c = [((1, 30, 1), 1), ((2, 30, 2), 1)] \<and> base_presence c (1, 10, 2) \<and> base_presence c (2, 10, 1)
     \<and> length (closure_plans c) = 0 \<and> rules c = [([sym_rule], 1), ([src_rule], 2)]"
  unfolding rules_of_def by code_simp

lemma recompute_run:
  "case batches h ghost_script (two_rules\<lparr>recompute_fallback := True\<rparr>) of None \<Rightarrow> False | Some c \<Rightarrow>
     asserted_base c = [((1, 30, 1), 1), ((2, 30, 2), 1)] \<and> \<not> base_presence c (1, 10, 2) \<and> \<not> base_presence c (2, 10, 1)"
  by code_simp

text \<open>No rule fires on rows of predicate 30 alone.\<close>

lemma loops_closed:
  assumes "\<forall>t\<in>A. predicate_of t = 30"
  shows "consequences [([sym_rule], 1), ([src_rule], 2)] A = {}"
proof -
  have none: "joins r x y = None" if "x \<in> A" "r = sym_rule \<or> r = src_rule" for r x y
  proof -
    obtain s p ob where x: "x = (s, p, ob)" by (cases x)
    then have "p = 30" using assms that(1) by auto
    then have "match_triple (hj_left r) x = None"
      using that(2) by (auto simp: x match_triple_def sym_rule_def src_rule_def mk_pattern_def slots_def)
    then show ?thesis by (simp add: joins_def)
  qed
  have "derives [r] ts \<noteq> Some t" if "set ts \<subseteq> A" "r = sym_rule \<or> r = src_rule" for r ts t
  proof
    assume d: "derives [r] ts = Some t"
    then obtain x y where "ts = [x, y]" using length_derives [OF d] by (auto simp: length_Suc_conv)
    with d none [of x r y] that show False by simp
  qed
  then show ?thesis by (auto simp: consequences_def derivations_def)
qed

text \<open>C16: Rows can outlive their support. A row a rule derived is also asserted, then its source is retracted and then the assertion: the row and its mirror image stay, although the rows still asserted entail neither of them. They support each other through the symmetric rule, and the second retraction does not put them up for re-derivation because the row is still owned by a rule. The recompute path, on the same script, drops both.\<close>

theorem ghost_rows_survive:
  "(\<exists>c. batches h ghost_script two_rules = Some c \<and> asserted_rows c = {(1, 30, 1), (2, 30, 2)}
      \<and> {(1, 10, 2), (2, 10, 1)} \<subseteq> {t. base_presence c t} - entailed c (asserted_rows c))
   \<and> (\<exists>c. batches h ghost_script (two_rules\<lparr>recompute_fallback := True\<rparr>) = Some c
      \<and> asserted_rows c = {(1, 30, 1), (2, 30, 2)} \<and> \<not> base_presence c (1, 10, 2) \<and> \<not> base_presence c (2, 10, 1))"
proof
  let ?A = "{(1, 30, 1), (2, 30, 2)} :: triple_id set"
  obtain c where c: "batches h ghost_script two_rules = Some c" "asserted_base c = [((1, 30, 1), 1), ((2, 30, 2), 1)]"
    "base_presence c (1, 10, 2)" "base_presence c (2, 10, 1)" "closure_plans c = []" "rules c = [([sym_rule], 1), ([src_rule], 2)]"
    using ghost_run [of h] by (cases "batches h ghost_script two_rules") auto
  have A: "asserted_rows c = ?A" by (auto simp: asserted_rows_def c(2) zs_get_Cons)
  have "saturation (rules c) ?A \<subseteq> ?A"
    by (rule least_saturation) (use loops_closed [of ?A] in \<open>simp_all add: c(6)\<close>)
  then have "entailed c (asserted_rows c) \<subseteq> ?A" by (simp add: entailed_def A c(5) closed_def)
  then have "{(1, 10, 2), (2, 10, 1)} \<inter> entailed c (asserted_rows c) = {}" by auto
  with c(1,3,4) A show "\<exists>c. batches h ghost_script two_rules = Some c \<and> asserted_rows c = ?A
      \<and> {(1, 10, 2), (2, 10, 1)} \<subseteq> {t. base_presence c t} - entailed c (asserted_rows c)"
    by (intro exI [of _ c]) auto
  obtain c where c: "batches h ghost_script (two_rules\<lparr>recompute_fallback := True\<rparr>) = Some c"
    "asserted_base c = [((1, 30, 1), 1), ((2, 30, 2), 1)]" "\<not> base_presence c (1, 10, 2)" "\<not> base_presence c (2, 10, 1)"
    using recompute_run [of h] by (cases "batches h ghost_script (two_rules\<lparr>recompute_fallback := True\<rparr>)") auto
  have "asserted_rows c = ?A" by (auto simp: asserted_rows_def c(2) zs_get_Cons)
  with c(1,3,4) show "\<exists>c. batches h ghost_script (two_rules\<lparr>recompute_fallback := True\<rparr>) = Some c
      \<and> asserted_rows c = ?A \<and> \<not> base_presence c (1, 10, 2) \<and> \<not> base_presence c (2, 10, 1)" by blast
qed

end
